(* ===== verification/C_Prelude.thy ===== *)
theory C_Prelude
  imports Main "HOL-Library.Word"
begin

text \<open>
  Shared vocabulary of the development: the C integer types of the target (a 64-bit,
  little-endian machine: \<open>size_t\<close> and pointers have 64 bits, \<open>bool\<close> one byte), byte
  sequences read as little- and big-endian numbers, a flat byte memory, the sequencing of
  C functions that report success by a boolean, and the generic lemmas the components use.

  Bit patterns are words. Sizes (\<open>size_t\<close>) are natural numbers below \<open>2 ^ 64\<close>; where the
  source relies on wrap-around the reduction is written out with \<open>size_add\<close> or
  \<open>size_sub\<close>. Addresses are integers, \<open>0\<close> is the null pointer, and negative
  addresses are used for local variables whose address the source takes.
\<close>

unbundle bit_operations_syntax

type_synonym u8 = "8 word"
type_synonym u16 = "16 word"
type_synonym u32 = "32 word"
type_synonym u64 = "64 word"

named_theorems seq_simps \<open>unfolding of success/failure sequencing\<close>
named_theorems mem_simps \<open>reads and writes of the flat memory\<close>

section \<open>Sizes\<close>

abbreviation SIZE_MOD :: nat where
  "SIZE_MOD \<equiv> 2 ^ 64"

definition size_add :: "nat \<Rightarrow> nat \<Rightarrow> nat" where
  "size_add a b = (a + b) mod SIZE_MOD"

definition size_sub :: "nat \<Rightarrow> nat \<Rightarrow> nat" where
  "size_sub a b = (a + (SIZE_MOD - b mod SIZE_MOD)) mod SIZE_MOD"

text \<open>A condition that the code relies on, such as an assertion or the bounds of a copy: \<open>None\<close> if it does not hold.\<close>

definition check :: "bool \<Rightarrow> unit option" where
  "check b = (if b then Some () else None)"

lemma check_simps [simp]: "check True = Some ()" "Option.bind (check c) f = (if c then f () else None)"
  by (simp_all add: check_def)

lemma size_add_small [simp]: "a + b < SIZE_MOD \<Longrightarrow> size_add a b = a + b"
  by (simp add: size_add_def)

lemma size_sub_small: "b \<le> a \<Longrightarrow> a < SIZE_MOD \<Longrightarrow> size_sub a b = a - b"
proof -
  assume h: "b \<le> a" "a < SIZE_MOD"
  then have "b mod SIZE_MOD = b" by simp
  with h have "a + (SIZE_MOD - b mod SIZE_MOD) = (a - b) + 1 * SIZE_MOD" by simp
  then have "size_sub a b = (a - b) mod SIZE_MOD"
    unfolding size_sub_def by (simp only: mod_mult_self1)
  with h show ?thesis by simp
qed

section \<open>Sequencing of operations that report success\<close>

text \<open>
  \<open>if (!f(s)) return false; return g(s);\<close> with the state \<open>s\<close> threaded through: a
  failing first step keeps the state it left behind.
\<close>

definition and_then :: "bool \<times> 's \<Rightarrow> ('s \<Rightarrow> bool \<times> 's) \<Rightarrow> bool \<times> 's" where
  "and_then r g = (case r of (ok, s) \<Rightarrow> if ok then g s else (False, s))"

text \<open>The same for functions that may not return (\<open>None\<close>).\<close>

definition and_then_opt ::
  "(bool \<times> 's) option \<Rightarrow> ('s \<Rightarrow> (bool \<times> 's) option) \<Rightarrow> (bool \<times> 's) option" where
  "and_then_opt r g =
     (case r of None \<Rightarrow> None | Some (ok, s) \<Rightarrow> if ok then g s else Some (False, s))"

lemma and_then_simps [simp, seq_simps]:
  "and_then (True, s) g = g s"
  "and_then (False, s) g = (False, s)"
  by (simp_all add: and_then_def)

lemma and_then_opt_simps [simp, seq_simps]:
  "and_then_opt None g = None"
  "and_then_opt (Some (True, s)) g = g s"
  "and_then_opt (Some (False, s)) g = Some (False, s)"
  by (simp_all add: and_then_opt_def)

lemma and_then_ok: "fst (and_then r g) \<longleftrightarrow> fst r \<and> fst (g (snd r))"
  by (cases r) (auto simp: and_then_def)

lemma and_then_opt_Some_True:
  "and_then_opt r g = Some (True, t) \<longleftrightarrow> (\<exists>s. r = Some (True, s) \<and> g s = Some (True, t))"
  by (auto simp: and_then_opt_def split: option.splits prod.splits if_splits)

lemma and_then_opt_None:
  "and_then_opt r g = None \<longleftrightarrow> r = None \<or> (\<exists>s. r = Some (True, s) \<and> g s = None)"
  by (auto simp: and_then_opt_def split: option.splits prod.splits if_splits)

section \<open>Words\<close>

lemma unat_drop_bit_div: "unat (drop_bit n (w :: 'a::len word)) = unat w div 2 ^ n"
  by (metis unat_drop_bit_eq drop_bit_eq_div)

lemma unat_take_bit_mod: "unat (take_bit n (w :: 'a::len word)) = unat w mod 2 ^ n"
proof -
  have "unat (take_bit n w) = take_bit n (unat w)" by (rule unsigned_take_bit_eq)
  then show ?thesis unfolding take_bit_eq_mod .
qed

section \<open>Byte sequences as numbers\<close>

primrec le_to_nat :: "u8 list \<Rightarrow> nat" where
  "le_to_nat [] = 0"
| "le_to_nat (b # bs) = unat b + 256 * le_to_nat bs"

primrec nat_to_le :: "nat \<Rightarrow> nat \<Rightarrow> u8 list" where
  "nat_to_le 0 v = []"
| "nat_to_le (Suc n) v = word_of_nat v # nat_to_le n (v div 256)"

definition be_to_nat :: "u8 list \<Rightarrow> nat" where
  "be_to_nat bs = le_to_nat (rev bs)"

definition nat_to_be :: "nat \<Rightarrow> nat \<Rightarrow> u8 list" where
  "nat_to_be n v = rev (nat_to_le n v)"

lemma length_nat_to_le [simp]: "length (nat_to_le n v) = n"
  by (induction n arbitrary: v) auto

lemma length_nat_to_be [simp]: "length (nat_to_be n v) = n"
  by (simp add: nat_to_be_def)

lemma unat_u8_less [simp]: "unat (b :: u8) < 256"
  using unsigned_less [of b] by simp

lemma unat_of_nat_u8 [simp]: "unat (word_of_nat v :: u8) = v mod 256"
  by (simp add: unsigned_of_nat take_bit_eq_mod)

lemma le_to_nat_less: "le_to_nat bs < 256 ^ length bs"
proof (induction bs)
  case (Cons b bs)
  have "unat b + 256 * le_to_nat bs < 256 * Suc (le_to_nat bs)"
    by simp
  also have "\<dots> \<le> 256 * 256 ^ length bs"
    using Cons.IH by (intro mult_le_mono2) simp
  finally show ?case by simp
qed simp

lemma le_to_nat_append: "le_to_nat (as @ bs) = le_to_nat as + 256 ^ length as * le_to_nat bs"
  by (induction as) (simp_all add: algebra_simps)

lemma le_to_nat_nat_to_le [simp]: "le_to_nat (nat_to_le n v) = v mod 256 ^ n"
proof (induction n arbitrary: v)
  case (Suc n)
  have "v mod (256 * 256 ^ n) = 256 * (v div 256 mod 256 ^ n) + v mod 256"
    by (rule mod_mult2_eq)
  with Suc [of "v div 256"] show ?case by simp
qed simp

lemma nat_to_le_le_to_nat [simp]: "length bs = n \<Longrightarrow> nat_to_le n (le_to_nat bs) = bs"
proof (induction bs arbitrary: n)
  case (Cons b bs)
  have "(unat b + 256 * le_to_nat bs) div 256 = le_to_nat bs"
    by (simp add: div_mult_self4)
  moreover have "word_of_nat (unat b + 256 * le_to_nat bs) = b"
  proof -
    have "unat (word_of_nat (unat b + 256 * le_to_nat bs) :: u8) = (unat b + 256 * le_to_nat bs) mod 256"
      by (rule unat_of_nat_u8)
    also have "\<dots> = unat b" by simp
    finally have "unat (word_of_nat (unat b + 256 * le_to_nat bs) :: u8) = unat b" .
    then show ?thesis by (metis word_unat_eq_iff)
  qed
  ultimately show ?case using Cons by auto
qed auto

lemma be_to_nat_less: "be_to_nat bs < 256 ^ length bs"
  using le_to_nat_less [of "rev bs"] by (simp add: be_to_nat_def)

lemma be_to_nat_Nil [simp]: "be_to_nat [] = 0"
  by (simp add: be_to_nat_def)

lemma be_to_nat_Cons: "be_to_nat (b # bs) = unat b * 256 ^ length bs + be_to_nat bs"
  by (simp add: be_to_nat_def le_to_nat_append)

lemma be_to_nat_snoc: "be_to_nat (bs @ [b]) = be_to_nat bs * 256 + unat b"
  by (simp add: be_to_nat_def)

lemma be_to_nat_nat_to_be [simp]: "be_to_nat (nat_to_be n v) = v mod 256 ^ n"
  by (simp add: be_to_nat_def nat_to_be_def)

lemma nat_to_be_be_to_nat [simp]: "length bs = n \<Longrightarrow> nat_to_be n (be_to_nat bs) = bs"
  by (simp add: be_to_nat_def nat_to_be_def)

section \<open>Flat memory\<close>

type_synonym memory = "int \<Rightarrow> u8"

definition mem_read :: "memory \<Rightarrow> int \<Rightarrow> nat \<Rightarrow> u8 list" where
  "mem_read m a n = map (\<lambda>i. m (a + int i)) [0..<n]"

definition mem_write :: "memory \<Rightarrow> int \<Rightarrow> u8 list \<Rightarrow> memory" where
  "mem_write m a bs =
     (\<lambda>x. if a \<le> x \<and> x < a + int (length bs) then bs ! nat (x - a) else m x)"

lemma length_mem_read [simp]: "length (mem_read m a n) = n"
  by (simp add: mem_read_def)

lemma mem_write_Nil [simp, mem_simps]: "mem_write m a [] = m"
  by (auto simp: mem_write_def fun_eq_iff)

lemma mem_read_write_same [simp, mem_simps]:
  "n = length bs \<Longrightarrow> mem_read (mem_write m a bs) a n = bs"
  by (auto simp: mem_read_def mem_write_def intro: nth_equalityI)

lemma mem_read_write_disjoint [mem_simps]:
  "b + int n \<le> a \<or> a + int (length bs) \<le> b \<Longrightarrow> mem_read (mem_write m a bs) b n = mem_read m b n"
  by (auto simp: mem_read_def mem_write_def)

lemma mem_write_outside [mem_simps]:
  "x < a \<or> a + int (length bs) \<le> x \<Longrightarrow> mem_write m a bs x = m x"
  by (auto simp: mem_write_def)

lemma mem_read_1 [simp]: "mem_read m a (Suc 0) = [m a]"
  by (simp add: mem_read_def)

lemma mem_read_0 [simp]: "mem_read m a 0 = []"
  by (simp add: mem_read_def)

lemma mem_read_Suc: "mem_read m a (Suc n) = m a # mem_read m (a + 1) n"
  unfolding mem_read_def by (simp add: upt_conv_Cons map_Suc_upt [symmetric] o_def add.assoc del: upt_Suc)

text \<open>Two memories agree outside the \<open>n\<close> bytes at \<open>a\<close>.\<close>

definition same_outside :: "int \<Rightarrow> nat \<Rightarrow> memory \<Rightarrow> memory \<Rightarrow> bool" where
  "same_outside a n m m' \<longleftrightarrow> (\<forall>x. x < a \<or> a + int n \<le> x \<longrightarrow> m' x = m x)"

lemma same_outside_refl [simp, intro]: "same_outside a n m m"
  by (simp add: same_outside_def)

lemma same_outside_trans:
  "same_outside a n m m' \<Longrightarrow> same_outside a n m' m'' \<Longrightarrow> same_outside a n m m''"
  by (simp add: same_outside_def)

lemma same_outside_write:
  "a \<le> b \<Longrightarrow> b + int (length bs) \<le> a + int n \<Longrightarrow> same_outside a n m (mem_write m b bs)"
  by (auto simp: same_outside_def mem_write_def)

section \<open>Typed loads and stores\<close>

definition load_u16 :: "memory \<Rightarrow> int \<Rightarrow> u16" where
  "load_u16 m a = word_of_nat (le_to_nat (mem_read m a 2))"

definition load_u64 :: "memory \<Rightarrow> int \<Rightarrow> u64" where
  "load_u64 m a = word_of_nat (le_to_nat (mem_read m a 8))"

definition store_u16 :: "memory \<Rightarrow> int \<Rightarrow> u16 \<Rightarrow> memory" where
  "store_u16 m a v = mem_write m a (nat_to_le 2 (unat v))"

definition store_u64 :: "memory \<Rightarrow> int \<Rightarrow> u64 \<Rightarrow> memory" where
  "store_u64 m a v = mem_write m a (nat_to_le 8 (unat v))"

definition load_u32 :: "memory \<Rightarrow> int \<Rightarrow> u32" where
  "load_u32 m a = word_of_nat (le_to_nat (mem_read m a 4))"

definition store_u32 :: "memory \<Rightarrow> int \<Rightarrow> u32 \<Rightarrow> memory" where
  "store_u32 m a v = mem_write m a (nat_to_le 4 (unat v))"

definition load_ptr :: "memory \<Rightarrow> int \<Rightarrow> int" where
  "load_ptr m a = int (le_to_nat (mem_read m a 8))"

definition store_ptr :: "memory \<Rightarrow> int \<Rightarrow> int \<Rightarrow> memory" where
  "store_ptr m a p = mem_write m a (nat_to_le 8 (nat p))"

lemma load_store_u32 [simp]: "load_u32 (store_u32 m a v) a = v"
proof -
  have "unat v < 2 ^ 32" using unsigned_less [of v] by simp
  then show ?thesis by (simp add: load_u32_def store_u32_def)
qed

lemma load_store_ptr [simp]: "0 \<le> p \<Longrightarrow> p < 2 ^ 64 \<Longrightarrow> load_ptr (store_ptr m a p) a = p"
  by (simp add: load_ptr_def store_ptr_def)

lemma load_store_u16 [simp]: "load_u16 (store_u16 m a v) a = v"
proof -
  have "unat v < 2 ^ 16" using unsigned_less [of v] by simp
  then show ?thesis by (simp add: load_u16_def store_u16_def)
qed

lemma load_store_u64 [simp]: "load_u64 (store_u64 m a v) a = v"
proof -
  have "unat v < 2 ^ 64" using unsigned_less [of v] by simp
  then show ?thesis by (simp add: load_u64_def store_u64_def)
qed

end
