(* ===== verification/PB_Stream.thy ===== *)
theory PB_Stream
  imports C_Prelude
begin

text \<open>
  The streams of nanopb (\<open>pb_istream_t\<close> of \<open>pb_decode.h\<close>, \<open>pb_ostream_t\<close> of
  \<open>pb_encode.h\<close>) and the byte-level operations on them: \<open>buf_read\<close>, \<open>pb_read\<close>,
  \<open>pb_readbyte\<close>, \<open>pb_istream_from_buffer\<close>, the string substreams of \<open>pb_decode.c\<close>, and
  \<open>buf_write\<close>, \<open>pb_ostream_from_buffer\<close>, \<open>pb_write\<close> of \<open>pb_encode.c\<close>.

  A stream's \<open>void *state\<close> is a byte pointer for the library's own buffer callbacks and
  whatever the user likes for a user callback; the record has one field for each reading.
  For an input stream \<open>is_buf\<close> holds the bytes from the state pointer to the end of the
  caller's buffer, so that advancing the pointer drops bytes from the front. For an output
  stream \<open>obuf\<close> holds the bytes stored so far. A user callback is a function value; it
  reports failure by its result and, for input, may signal the end of its data, which sets
  \<open>bytes_left\<close> to 0.
\<close>

section \<open>Input streams\<close>

datatype 's read_result =
    Read_ok "nat \<Rightarrow> u8" 's   \<comment> \<open>the bytes stored to \<open>buf[0]\<close>, \<open>buf[1]\<close>, and so on\<close>
  | Read_error 's
  | Read_eof 's

datatype 's icallback =
    Buf_read
  | User_read "'s \<Rightarrow> nat \<Rightarrow> 's read_result"

record 's pb_istream =
  icallback :: "'s icallback"
  is_buf :: "u8 list"
  is_user :: 's
  bytes_left :: nat
  ierrmsg :: "string option"

text \<open>\<open>PB_SET_ERROR\<close> and \<open>PB_RETURN_ERROR\<close>: the first message is kept.\<close>

definition PB_SET_ERROR :: "string option \<Rightarrow> string \<Rightarrow> string option" where
  "PB_SET_ERROR old msg = (case old of Some e \<Rightarrow> Some e | None \<Rightarrow> Some msg)"

definition set_ierror :: "'s pb_istream \<Rightarrow> string \<Rightarrow> 's pb_istream" where
  "set_ierror s msg = s\<lparr>ierrmsg := PB_SET_ERROR (ierrmsg s) msg\<rparr>"

definition buf_read :: "'s pb_istream \<Rightarrow> nat \<Rightarrow> u8 list \<times> 's pb_istream" where
  "buf_read s count = (take count (is_buf s), s\<lparr>is_buf := drop count (is_buf s)\<rparr>)"

text \<open>
  \<open>stream->callback(stream, buf, count)\<close>: the bytes written to \<open>buf\<close>, or \<open>None\<close> when it
  returns false.
\<close>

definition call_icallback :: "'s pb_istream \<Rightarrow> nat \<Rightarrow> u8 list option \<times> 's pb_istream" where
  "call_icallback s count =
     (case icallback s of
        Buf_read \<Rightarrow> (case buf_read s count of (bs, s') \<Rightarrow> (Some bs, s'))
      | User_read f \<Rightarrow>
          (case f (is_user s) count of
             Read_ok g u \<Rightarrow> (Some (map g [0..<count]), s\<lparr>is_user := u\<rparr>)
           | Read_error u \<Rightarrow> (None, s\<lparr>is_user := u\<rparr>)
           | Read_eof u \<Rightarrow> (None, s\<lparr>is_user := u, bytes_left := 0\<rparr>)))"

text \<open>\<open>pb_read\<close> with a buffer to store to: the part after the skip branch.\<close>

definition pb_read_some :: "'s pb_istream \<Rightarrow> nat \<Rightarrow> u8 list option \<times> 's pb_istream" where
  "pb_read_some s count =
     (if count = 0 then (Some [], s)
      else if bytes_left s < count then (None, set_ierror s ''end-of-stream'')
      else (case call_icallback s count of
              (None, s') \<Rightarrow> (None, set_ierror s' ''io error'')
            | (Some bs, s') \<Rightarrow> (Some bs, s'\<lparr>bytes_left := bytes_left s' - count\<rparr>)))"

text \<open>
  The skip branch for user streams: the bytes are read into a 16-byte scratch buffer, 16 at
  a time. The loop of the source is the recursion here.
\<close>

fun pb_read_skip :: "'s pb_istream \<Rightarrow> nat \<Rightarrow> u8 list option \<times> 's pb_istream" where
  "pb_read_skip s count =
     (if 16 < count
      then (case pb_read_some s 16 of
              (None, s') \<Rightarrow> (None, s')
            | (Some _, s') \<Rightarrow> pb_read_skip s' (count - 16))
      else (case pb_read_some s count of
              (None, s') \<Rightarrow> (None, s')
            | (Some _, s') \<Rightarrow> (Some [], s')))"

declare pb_read_skip.simps [simp del]

text \<open>\<open>pb_read(stream, buf, count)\<close>; \<open>has_buf\<close> says whether \<open>buf\<close> is not \<open>NULL\<close>.\<close>

definition pb_read :: "'s pb_istream \<Rightarrow> bool \<Rightarrow> nat \<Rightarrow> u8 list option \<times> 's pb_istream" where
  "pb_read s has_buf count =
     (if count = 0 then (Some [], s)
      else if \<not> has_buf \<and> (case icallback s of Buf_read \<Rightarrow> False | User_read _ \<Rightarrow> True)
      then pb_read_skip s count
      else pb_read_some s count)"

definition pb_readbyte :: "'s pb_istream \<Rightarrow> u8 option \<times> 's pb_istream" where
  "pb_readbyte s =
     (if bytes_left s = 0 then (None, set_ierror s ''end-of-stream'')
      else (case call_icallback s 1 of
              (None, s') \<Rightarrow> (None, set_ierror s' ''io error'')
            | (Some bs, s') \<Rightarrow> (Some (hd bs), s'\<lparr>bytes_left := bytes_left s' - 1\<rparr>)))"

definition pb_istream_from_buffer :: "u8 list \<Rightarrow> nat \<Rightarrow> 's \<Rightarrow> 's pb_istream" where
  "pb_istream_from_buffer buf bufsize u =
     \<lparr>icallback = Buf_read, is_buf = buf, is_user = u, bytes_left = bufsize, ierrmsg = None\<rparr>"

section \<open>Output streams\<close>

datatype 's ocallback =
    No_write   \<comment> \<open>\<open>NULL\<close>: a sizing stream\<close>
  | Buf_write
  | User_write "'s \<Rightarrow> u8 list \<Rightarrow> bool \<times> 's"

record 's pb_ostream =
  ocallback :: "'s ocallback"
  obuf :: "u8 list"
  ouser :: 's
  max_size :: nat
  bytes_written :: nat
  oerrmsg :: "string option"

definition set_oerror :: "'s pb_ostream \<Rightarrow> string \<Rightarrow> 's pb_ostream" where
  "set_oerror s msg = s\<lparr>oerrmsg := PB_SET_ERROR (oerrmsg s) msg\<rparr>"

definition o_error :: "'s pb_ostream \<Rightarrow> string \<Rightarrow> bool \<times> 's pb_ostream" where
  "o_error s msg = (False, set_oerror s msg)"

definition buf_write :: "'s pb_ostream \<Rightarrow> u8 list \<Rightarrow> bool \<times> 's pb_ostream" where
  "buf_write s bs = (True, s\<lparr>obuf := obuf s @ bs\<rparr>)"

definition call_ocallback :: "'s pb_ostream \<Rightarrow> u8 list \<Rightarrow> bool \<times> 's pb_ostream" where
  "call_ocallback s bs =
     (case ocallback s of
        No_write \<Rightarrow> (True, s)
      | Buf_write \<Rightarrow> buf_write s bs
      | User_write f \<Rightarrow> (case f (ouser s) bs of (ok, u) \<Rightarrow> (ok, s\<lparr>ouser := u\<rparr>)))"

definition pb_ostream_from_buffer :: "nat \<Rightarrow> 's \<Rightarrow> 's pb_ostream" where
  "pb_ostream_from_buffer bufsize u =
     \<lparr>ocallback = Buf_write, obuf = [], ouser = u, max_size = bufsize, bytes_written = 0,
      oerrmsg = None\<rparr>"

text \<open>\<open>PB_OSTREAM_SIZING\<close> of \<open>pb_encode.h\<close>.\<close>

definition PB_OSTREAM_SIZING :: "'s \<Rightarrow> 's pb_ostream" where
  "PB_OSTREAM_SIZING u =
     \<lparr>ocallback = No_write, obuf = [], ouser = u, max_size = 0, bytes_written = 0,
      oerrmsg = None\<rparr>"

abbreviation is_sizing :: "'s pb_ostream \<Rightarrow> bool" where
  "is_sizing s \<equiv> (case ocallback s of No_write \<Rightarrow> True | _ \<Rightarrow> False)"

text \<open>\<open>pb_write(stream, buf, count)\<close>; the source passes \<open>NULL\<close> (here \<open>[]\<close>) when it only counts.\<close>

definition pb_write :: "'s pb_ostream \<Rightarrow> u8 list \<Rightarrow> nat \<Rightarrow> bool \<times> 's pb_ostream" where
  "pb_write s buf count =
     (let advance = (\<lambda>t. (True, t\<lparr>bytes_written := size_add (bytes_written t) count\<rparr>)) in
      if 0 < count \<and> \<not> is_sizing s then
        if size_add (bytes_written s) count < bytes_written s \<or>
           max_size s < size_add (bytes_written s) count
        then o_error s ''stream full''
        else (case call_ocallback s (take count buf) of
                (False, s') \<Rightarrow> o_error s' ''io error''
              | (True, s') \<Rightarrow> advance s')
      else advance s)"

section \<open>Reading from a buffer\<close>

text \<open>
  A buffer stream is in order when its window does not run past the bytes that are there;
  \<open>in_reads\<close> states what consuming \<open>n\<close> bytes does.
\<close>

definition buf_stream :: "'s pb_istream \<Rightarrow> bool" where
  "buf_stream s \<longleftrightarrow> icallback s = Buf_read \<and> bytes_left s \<le> length (is_buf s)"

definition advance_in :: "nat \<Rightarrow> 's pb_istream \<Rightarrow> 's pb_istream" where
  "advance_in n s = s\<lparr>is_buf := drop n (is_buf s), bytes_left := bytes_left s - n\<rparr>"

lemma advance_in_0 [simp]: "advance_in 0 s = s"
  by (simp add: advance_in_def)

lemma advance_in_add [simp]: "advance_in n (advance_in m s) = advance_in (m + n) s"
  by (simp add: advance_in_def add.commute)

lemma advance_in_simps [simp]:
  "is_buf (advance_in n s) = drop n (is_buf s)"
  "bytes_left (advance_in n s) = bytes_left s - n"
  "icallback (advance_in n s) = icallback s"
  "is_user (advance_in n s) = is_user s"
  "ierrmsg (advance_in n s) = ierrmsg s"
  by (simp_all add: advance_in_def)

lemma set_ierror_simps [simp]:
  "is_buf (set_ierror s e) = is_buf s"
  "bytes_left (set_ierror s e) = bytes_left s"
  "icallback (set_ierror s e) = icallback s"
  by (simp_all add: set_ierror_def)

lemma buf_stream_advance [simp, intro]: "buf_stream s \<Longrightarrow> buf_stream (advance_in n s)"
  by (auto simp: buf_stream_def)

lemma buf_stream_set_ierror [simp]: "buf_stream (set_ierror s e) = buf_stream s"
  by (simp add: buf_stream_def)

lemma buf_stream_from_buffer [simp]:
  "buf_stream (pb_istream_from_buffer buf n u) \<longleftrightarrow> n \<le> length buf"
  by (simp add: buf_stream_def pb_istream_from_buffer_def)

lemma pb_read_some_buf:
  assumes "buf_stream s"
  shows "pb_read_some s n =
    (if n \<le> bytes_left s then (Some (take n (is_buf s)), advance_in n s)
     else (None, set_ierror s ''end-of-stream''))"
  using assms
  by (auto simp: pb_read_some_def buf_stream_def call_icallback_def buf_read_def advance_in_def)

lemma pb_read_buf:
  assumes "buf_stream s"
  shows "pb_read s has_buf n =
    (if n \<le> bytes_left s then (Some (take n (is_buf s)), advance_in n s)
     else (None, set_ierror s ''end-of-stream''))"
  using assms by (auto simp: pb_read_def pb_read_some_buf buf_stream_def)

lemma pb_readbyte_buf:
  assumes "buf_stream s"
  shows "pb_readbyte s =
    (if bytes_left s = 0 then (None, set_ierror s ''end-of-stream'')
     else (Some (hd (is_buf s)), advance_in 1 s))"
  using assms
  by (cases "is_buf s")
    (auto simp: pb_readbyte_def buf_stream_def call_icallback_def buf_read_def advance_in_def)

text \<open>A user stream never makes \<open>bytes_left\<close> grow, which is why the read loops end.\<close>

lemma call_icallback_bytes_left: "bytes_left (snd (call_icallback s n)) \<le> bytes_left s"
  by (auto simp: call_icallback_def buf_read_def split: icallback.splits read_result.splits)

lemma call_icallback_ok_bytes_left:
  "call_icallback s n = (Some bs, s') \<Longrightarrow> bytes_left s' = bytes_left s"
  by (auto simp: call_icallback_def buf_read_def split: icallback.splits read_result.splits)

lemma pb_readbyte_bytes_left:
  "pb_readbyte s = (Some b, s') \<Longrightarrow> bytes_left s' < bytes_left s"
  by (auto simp: pb_readbyte_def split: if_splits prod.splits option.splits
      dest!: call_icallback_ok_bytes_left)

lemma pb_read_some_bytes_left:
  "pb_read_some s n = (Some bs, s') \<Longrightarrow> bytes_left s' = bytes_left s - n"
  by (auto simp: pb_read_some_def split: if_splits prod.splits option.splits
      dest!: call_icallback_ok_bytes_left)

lemma pb_read_1_bytes_left: "pb_read s True 1 = (Some bs, s') \<Longrightarrow> bytes_left s' < bytes_left s"
  by (auto simp: pb_read_def pb_read_some_def split: if_splits prod.splits option.splits
      dest!: call_icallback_ok_bytes_left)

section \<open>Writing\<close>

definition out_stream :: "'s pb_ostream \<Rightarrow> bool" where
  "out_stream s \<longleftrightarrow> ocallback s = Buf_write \<and> max_size s < SIZE_MOD \<and> bytes_written s \<le> max_size s"

definition advance_out :: "u8 list \<Rightarrow> 's pb_ostream \<Rightarrow> 's pb_ostream" where
  "advance_out bs s = s\<lparr>obuf := obuf s @ bs, bytes_written := bytes_written s + length bs\<rparr>"

definition count_out :: "nat \<Rightarrow> 's pb_ostream \<Rightarrow> 's pb_ostream" where
  "count_out n s = s\<lparr>bytes_written := bytes_written s + n\<rparr>"

lemma advance_out_simps [simp]:
  "obuf (advance_out bs s) = obuf s @ bs"
  "bytes_written (advance_out bs s) = bytes_written s + length bs"
  "ocallback (advance_out bs s) = ocallback s"
  "max_size (advance_out bs s) = max_size s"
  "oerrmsg (advance_out bs s) = oerrmsg s"
  "ouser (advance_out bs s) = ouser s"
  by (simp_all add: advance_out_def)

lemma count_out_simps [simp]:
  "obuf (count_out n s) = obuf s"
  "bytes_written (count_out n s) = bytes_written s + n"
  "ocallback (count_out n s) = ocallback s"
  "max_size (count_out n s) = max_size s"
  "oerrmsg (count_out n s) = oerrmsg s"
  "ouser (count_out n s) = ouser s"
  by (simp_all add: count_out_def)

lemma advance_out_Nil [simp]: "advance_out [] s = s"
  by (simp add: advance_out_def)

lemma advance_out_append [simp]: "advance_out bs (advance_out as s) = advance_out (as @ bs) s"
  by (simp add: advance_out_def)

lemma PB_OSTREAM_SIZING_simps [simp]:
  "ocallback (PB_OSTREAM_SIZING u) = No_write"
  "bytes_written (PB_OSTREAM_SIZING u) = 0"
  "obuf (PB_OSTREAM_SIZING u) = []"
  "oerrmsg (PB_OSTREAM_SIZING u) = None"
  by (simp_all add: PB_OSTREAM_SIZING_def)

lemma pb_ostream_from_buffer_simps [simp]:
  "ocallback (pb_ostream_from_buffer n u) = Buf_write"
  "bytes_written (pb_ostream_from_buffer n u) = 0"
  "max_size (pb_ostream_from_buffer n u) = n"
  "obuf (pb_ostream_from_buffer n u) = []"
  "oerrmsg (pb_ostream_from_buffer n u) = None"
  by (simp_all add: pb_ostream_from_buffer_def)

lemma count_out_0 [simp]: "count_out 0 s = s"
  by (simp add: count_out_def)

lemma count_out_add [simp]: "count_out n (count_out m s) = count_out (m + n) s"
  by (simp add: count_out_def)

lemma pb_write_buf:
  assumes "out_stream s" and "count \<le> length buf" and "count < SIZE_MOD"
  shows "pb_write s buf count =
    (if bytes_written s + count \<le> max_size s then (True, advance_out (take count buf) s)
     else o_error s ''stream full'')"
proof (cases "bytes_written s + count < SIZE_MOD")
  case True
  with assms show ?thesis
    by (auto simp: pb_write_def out_stream_def call_ocallback_def buf_write_def advance_out_def
        Let_def min_def)
next
  case False
  with assms have "SIZE_MOD \<le> bytes_written s + count" "bytes_written s < SIZE_MOD"
    by (auto simp: out_stream_def)
  then have "(bytes_written s + count) mod SIZE_MOD = bytes_written s + count - SIZE_MOD"
    using assms(3) by (subst mod_if) (auto simp: mod_if)
  then have "size_add (bytes_written s) count < bytes_written s"
    using assms(3) \<open>SIZE_MOD \<le> bytes_written s + count\<close> by (simp add: size_add_def)
  moreover have "0 < count"
    using \<open>SIZE_MOD \<le> bytes_written s + count\<close> \<open>bytes_written s < SIZE_MOD\<close> by simp
  ultimately show ?thesis
    using assms False by (auto simp: pb_write_def out_stream_def Let_def)
qed

lemma pb_write_sizing:
  assumes "ocallback s = No_write" and "bytes_written s + count < SIZE_MOD"
  shows "pb_write s buf count = (True, count_out count s)"
  using assms by (auto simp: pb_write_def Let_def count_out_def)

end
