(* ===== verification/PB_Varint.thy ===== *)
theory PB_Varint
  imports PB_Stream
begin

text \<open>
  The scalar wire encodings of nanopb: variable-length integers (\<open>pb_encode_varint\<close>,
  \<open>pb_decode_varint\<close>, \<open>pb_decode_varint32_eof\<close>), zig-zag integers, little-endian fixed
  integers, field tags, length-prefixed strings, skipping of unknown fields, raw values and
  string substreams. \<open>uint_fast8_t\<close> has 8 bits on the target, so the bit position counters
  are reduced modulo 256.
\<close>

type_synonym pb_wire_type = u32

abbreviation (input) PB_WT_VARINT :: pb_wire_type where "PB_WT_VARINT \<equiv> 0"
abbreviation (input) PB_WT_64BIT :: pb_wire_type where "PB_WT_64BIT \<equiv> 1"
abbreviation (input) PB_WT_STRING :: pb_wire_type where "PB_WT_STRING \<equiv> 2"
abbreviation (input) PB_WT_32BIT :: pb_wire_type where "PB_WT_32BIT \<equiv> 5"

section \<open>Encoding\<close>

text \<open>The loop of \<open>pb_encode_varint\<close>: what it stores to \<open>buffer[0]\<close>, \<open>buffer[1]\<close>, and so on.\<close>

function varint_groups :: "u64 \<Rightarrow> u8 list" where
  "varint_groups value =
     (if value = 0 then []
      else ucast ((value AND 0x7F) OR 0x80) # varint_groups (drop_bit 7 value))"
  by pat_completeness auto
termination
proof (relation "measure unat")
  fix v :: u64
  assume "v \<noteq> 0"
  then have "unat v > 0" by (simp add: unat_gt_0)
  then have "unat v div 128 < unat v" by simp
  then show "(drop_bit 7 v, v) \<in> measure unat"
    using unat_drop_bit_eq [of 7 v] by (simp add: drop_bit_eq_div)
qed simp

declare varint_groups.simps [simp del]

definition varint_bytes :: "u64 \<Rightarrow> u8 list" where
  "varint_bytes value =
     (if value \<le> 0x7F then [ucast value]
      else let buffer = varint_groups value; i = length buffer in
           buffer[i - 1 := (buffer ! (i - 1)) AND 0x7F])"

definition pb_encode_varint :: "'s pb_ostream \<Rightarrow> u64 \<Rightarrow> bool \<times> 's pb_ostream" where
  "pb_encode_varint s value = pb_write s (varint_bytes value) (length (varint_bytes value))"

definition zigzag :: "u64 \<Rightarrow> u64" where
  "zigzag value = (if sint value < 0 then NOT (push_bit 1 value) else push_bit 1 value)"

definition pb_encode_svarint :: "'s pb_ostream \<Rightarrow> u64 \<Rightarrow> bool \<times> 's pb_ostream" where
  "pb_encode_svarint s value = pb_encode_varint s (zigzag value)"

definition pb_encode_fixed32 :: "'s pb_ostream \<Rightarrow> u32 \<Rightarrow> bool \<times> 's pb_ostream" where
  "pb_encode_fixed32 s val =
     pb_write s
       [ucast (val AND 0xFF), ucast (drop_bit 8 val AND 0xFF),
        ucast (drop_bit 16 val AND 0xFF), ucast (drop_bit 24 val AND 0xFF)] 4"

definition pb_encode_fixed64 :: "'s pb_ostream \<Rightarrow> u64 \<Rightarrow> bool \<times> 's pb_ostream" where
  "pb_encode_fixed64 s val =
     pb_write s
       [ucast (val AND 0xFF), ucast (drop_bit 8 val AND 0xFF),
        ucast (drop_bit 16 val AND 0xFF), ucast (drop_bit 24 val AND 0xFF),
        ucast (drop_bit 32 val AND 0xFF), ucast (drop_bit 40 val AND 0xFF),
        ucast (drop_bit 48 val AND 0xFF), ucast (drop_bit 56 val AND 0xFF)] 8"

definition pb_encode_tag ::
  "'s pb_ostream \<Rightarrow> pb_wire_type \<Rightarrow> u32 \<Rightarrow> bool \<times> 's pb_ostream" where
  "pb_encode_tag s wiretype field_number =
     pb_encode_varint s (push_bit 3 (ucast field_number) OR ucast wiretype)"

definition pb_encode_string :: "'s pb_ostream \<Rightarrow> u8 list \<Rightarrow> nat \<Rightarrow> bool \<times> 's pb_ostream" where
  "pb_encode_string s buffer sz =
     and_then (pb_encode_varint s (word_of_nat sz)) (\<lambda>s. pb_write s buffer sz)"

section \<open>Decoding\<close>

text \<open>
  An operation that returns true and stores a value through an out parameter gives \<open>Some\<close>
  of the value; \<open>None\<close> is the return value false.
\<close>

text \<open>The multi-byte loop of \<open>pb_decode_varint32_eof\<close>, and what follows it.\<close>

function varint32_loop :: "'s pb_istream \<Rightarrow> nat \<Rightarrow> u32 \<Rightarrow> u32 option \<times> 's pb_istream" where
  "varint32_loop s bitpos result =
     (case pb_readbyte s of
        (None, s') \<Rightarrow> (None, s')
      | (Some byte, s') \<Rightarrow>
          (let sign_extension = (if bitpos < 63 then 0xFF else 0x01);
               overflow = (32 \<le> bitpos \<and> byte AND 0x7F \<noteq> 0 \<and>
                           (drop_bit 31 result = 0 \<or> byte \<noteq> sign_extension));
               result' = (if 32 \<le> bitpos then result
                          else result OR push_bit bitpos (ucast (byte AND 0x7F)));
               bitpos' = (bitpos + 7) mod 256 in
           if overflow then (None, set_ierror s' ''varint overflow'')
           else if byte AND 0x80 \<noteq> 0 then varint32_loop s' bitpos' result'
           else if bitpos' = 35 \<and> byte AND 0x70 \<noteq> 0
           then (None, set_ierror s' ''varint overflow'')
           else (Some result', s')))"
  by pat_completeness auto
termination
  by (relation "measure (\<lambda>(s, _, _). bytes_left s)") (auto dest!: pb_readbyte_bytes_left [OF sym])

declare varint32_loop.simps [simp del]

text \<open>
  \<open>pb_decode_varint32_eof\<close>: the value, the stream, and whether \<open>*eof\<close> is set to true (it is
  otherwise left as it was).
\<close>

definition pb_decode_varint32_eof :: "'s pb_istream \<Rightarrow> u32 option \<times> 's pb_istream \<times> bool" where
  "pb_decode_varint32_eof s =
     (case pb_readbyte s of
        (None, s') \<Rightarrow> (None, s', bytes_left s' = 0)
      | (Some byte, s') \<Rightarrow>
          if byte AND 0x80 = 0 then (Some (ucast byte), s', False)
          else (case varint32_loop s' 7 (ucast (byte AND 0x7F)) of (r, s'') \<Rightarrow> (r, s'', False)))"

definition pb_decode_varint32 :: "'s pb_istream \<Rightarrow> u32 option \<times> 's pb_istream" where
  "pb_decode_varint32 s = (case pb_decode_varint32_eof s of (r, s', _) \<Rightarrow> (r, s'))"

function varint_loop :: "'s pb_istream \<Rightarrow> nat \<Rightarrow> u64 \<Rightarrow> u64 option \<times> 's pb_istream" where
  "varint_loop s bitpos result =
     (if 64 \<le> bitpos then (None, set_ierror s ''varint overflow'')
      else (case pb_readbyte s of
              (None, s') \<Rightarrow> (None, s')
            | (Some byte, s') \<Rightarrow>
                (let result' = result OR push_bit bitpos (ucast (byte AND 0x7F)) in
                 if byte AND 0x80 \<noteq> 0 then varint_loop s' ((bitpos + 7) mod 256) result'
                 else (Some result', s'))))"
  by pat_completeness auto
termination
  by (relation "measure (\<lambda>(s, _, _). bytes_left s)") (auto dest!: pb_readbyte_bytes_left [OF sym])

declare varint_loop.simps [simp del]

definition pb_decode_varint :: "'s pb_istream \<Rightarrow> u64 option \<times> 's pb_istream" where
  "pb_decode_varint s = varint_loop s 0 0"

function pb_skip_varint :: "'s pb_istream \<Rightarrow> bool \<times> 's pb_istream" where
  "pb_skip_varint s =
     (case pb_read s True 1 of
        (None, s') \<Rightarrow> (False, s')
      | (Some bs, s') \<Rightarrow>
          if hd bs AND 0x80 \<noteq> 0 then pb_skip_varint s'
          else (True, s'))"
  by pat_completeness auto
termination
  by (relation "measure bytes_left") (auto dest!: pb_read_1_bytes_left [unfolded One_nat_def, OF sym])

declare pb_skip_varint.simps [simp del]

definition pb_skip_string :: "'s pb_istream \<Rightarrow> bool \<times> 's pb_istream" where
  "pb_skip_string s =
     (case pb_decode_varint32 s of
        (None, s') \<Rightarrow> (False, s')
      | (Some len, s') \<Rightarrow>
          (case pb_read s' False (unat len) of (r, s'') \<Rightarrow> (r \<noteq> None, s'')))"

text \<open>
  \<open>pb_decode_tag\<close>: \<open>Some (wire_type, tag)\<close> when it returns true; the last component is the
  value stored to \<open>*eof\<close>.
\<close>

definition pb_decode_tag ::
  "'s pb_istream \<Rightarrow> (pb_wire_type \<times> u32) option \<times> 's pb_istream \<times> bool" where
  "pb_decode_tag s =
     (case pb_decode_varint32_eof s of
        (None, s', eof) \<Rightarrow> (None, s', eof)
      | (Some temp, s', _) \<Rightarrow>
          if temp = 0 then (None, s', True)
          else (Some (temp AND 7, drop_bit 3 temp), s', False))"

definition pb_skip_field :: "'s pb_istream \<Rightarrow> pb_wire_type \<Rightarrow> bool \<times> 's pb_istream" where
  "pb_skip_field s wire_type =
     (if wire_type = PB_WT_VARINT then pb_skip_varint s
      else if wire_type = PB_WT_64BIT then (case pb_read s False 8 of (r, s') \<Rightarrow> (r \<noteq> None, s'))
      else if wire_type = PB_WT_STRING then pb_skip_string s
      else if wire_type = PB_WT_32BIT then (case pb_read s False 4 of (r, s') \<Rightarrow> (r \<noteq> None, s'))
      else (False, set_ierror s ''invalid wire_type''))"

text \<open>The \<open>PB_WT_VARINT\<close> loop of \<open>read_raw_value\<close>: \<open>sz\<close> bytes are in \<open>buf\<close> already.\<close>

function raw_varint_loop ::
  "'s pb_istream \<Rightarrow> nat \<Rightarrow> u8 list \<Rightarrow> u8 list option \<times> 's pb_istream" where
  "raw_varint_loop s max_sz buf =
     (if max_sz < length buf + 1 then (None, s)
      else (case pb_read s True 1 of
              (None, s') \<Rightarrow> (None, s')
            | (Some bs, s') \<Rightarrow>
                if hd bs AND 0x80 \<noteq> 0 then raw_varint_loop s' max_sz (buf @ [hd bs])
                else (Some (buf @ [hd bs]), s')))"
  by pat_completeness auto
termination
  by (relation "measure (\<lambda>(_, max_sz, buf). max_sz - length buf)") auto

declare raw_varint_loop.simps [simp del]

definition read_raw_value ::
  "'s pb_istream \<Rightarrow> pb_wire_type \<Rightarrow> nat \<Rightarrow> u8 list option \<times> 's pb_istream" where
  "read_raw_value s wire_type max_sz =
     (if wire_type = PB_WT_VARINT then raw_varint_loop s max_sz []
      else if wire_type = PB_WT_64BIT then pb_read s True 8
      else if wire_type = PB_WT_32BIT then pb_read s True 4
      else (None, set_ierror s ''invalid wire_type''))"

text \<open>\<open>pb_make_string_substream\<close>: the substream when it returns true, and the parent stream.\<close>

definition pb_make_string_substream ::
  "'s pb_istream \<Rightarrow> 's pb_istream option \<times> 's pb_istream" where
  "pb_make_string_substream s =
     (case pb_decode_varint32 s of
        (None, s') \<Rightarrow> (None, s')
      | (Some sz, s') \<Rightarrow>
          if bytes_left s' < unat sz then (None, set_ierror s' ''parent stream too short'')
          else (Some (s'\<lparr>bytes_left := unat sz\<rparr>), s'\<lparr>bytes_left := bytes_left s' - unat sz\<rparr>))"

definition pb_close_string_substream ::
  "'s pb_istream \<Rightarrow> 's pb_istream \<Rightarrow> bool \<times> 's pb_istream" where
  "pb_close_string_substream s sub =
     (let (ok, sub') =
            (if bytes_left sub \<noteq> 0
             then (case pb_read sub False (bytes_left sub) of (r, t) \<Rightarrow> (r \<noteq> None, t))
             else (True, sub)) in
      if \<not> ok then (False, s)
      else (True, s\<lparr>is_buf := is_buf sub', is_user := is_user sub', ierrmsg := ierrmsg sub'\<rparr>))"

definition pb_decode_svarint :: "'s pb_istream \<Rightarrow> u64 option \<times> 's pb_istream" where
  "pb_decode_svarint s =
     (case pb_decode_varint s of
        (None, s') \<Rightarrow> (None, s')
      | (Some value, s') \<Rightarrow>
          (Some (if value AND 1 \<noteq> 0 then NOT (drop_bit 1 value) else drop_bit 1 value), s'))"

definition pb_decode_fixed32 :: "'s pb_istream \<Rightarrow> u32 option \<times> 's pb_istream" where
  "pb_decode_fixed32 s =
     (case pb_read s True 4 of
        (None, s') \<Rightarrow> (None, s')
      | (Some bytes, s') \<Rightarrow>
          (Some (push_bit 0 (ucast (bytes ! 0)) OR push_bit 8 (ucast (bytes ! 1)) OR
                 push_bit 16 (ucast (bytes ! 2)) OR push_bit 24 (ucast (bytes ! 3))), s'))"

definition pb_decode_fixed64 :: "'s pb_istream \<Rightarrow> u64 option \<times> 's pb_istream" where
  "pb_decode_fixed64 s =
     (case pb_read s True 8 of
        (None, s') \<Rightarrow> (None, s')
      | (Some bytes, s') \<Rightarrow>
          (Some (push_bit 0 (ucast (bytes ! 0)) OR push_bit 8 (ucast (bytes ! 1)) OR
                 push_bit 16 (ucast (bytes ! 2)) OR push_bit 24 (ucast (bytes ! 3)) OR
                 push_bit 32 (ucast (bytes ! 4)) OR push_bit 40 (ucast (bytes ! 5)) OR
                 push_bit 48 (ucast (bytes ! 6)) OR push_bit 56 (ucast (bytes ! 7))), s'))"

definition pb_decode_bool :: "'s pb_istream \<Rightarrow> bool option \<times> 's pb_istream" where
  "pb_decode_bool s =
     (case pb_decode_varint32 s of
        (None, s') \<Rightarrow> (None, s')
      | (Some value, s') \<Rightarrow> (Some (value \<noteq> 0), s'))"

section \<open>Bit groups of a varint\<close>

lemma bit_0x7F_int: "bit (0x7F :: int) n \<longleftrightarrow> n < 7"
  using bit_mask_iff [of 7 n, where ?'a = int] by (simp add: mask_eq_exp_minus_1)

lemma bit_0x80_int: "bit (0x80 :: int) n \<longleftrightarrow> n = 7"
  using bit_exp_iff [of 7 n, where ?'a = int] by auto

lemma bit_0xFF_int: "bit (0xFF :: int) n \<longleftrightarrow> n < 8"
  using bit_mask_iff [of 8 n, where ?'a = int] by (simp add: mask_eq_exp_minus_1)

lemma bit_0x70_int: "bit (0x70 :: int) n \<longleftrightarrow> 4 \<le> n \<and> n < 7"
proof -
  have "bit (push_bit 4 (mask 3 :: int)) n \<longleftrightarrow> 4 \<le> n \<and> n < 7"
    by (auto simp: bit_push_bit_iff bit_mask_iff)
  then show ?thesis by (simp add: mask_eq_exp_minus_1 push_bit_eq_mult)
qed

lemmas group_bits = bit_simps bit_0x7F_int bit_0x80_int

lemma and_0x80_eq_0: "(b :: u8) AND 0x80 = 0 \<longleftrightarrow> \<not> bit b 7"
proof
  assume "b AND 0x80 = 0"
  then have "\<not> bit (b AND 0x80) 7" by simp
  then show "\<not> bit b 7" by (simp add: group_bits)
next
  assume "\<not> bit b 7"
  then show "b AND 0x80 = 0" by (intro bit_word_eqI) (auto simp: group_bits)
qed

lemma word_split7:
  "push_bit k (v AND 0x7F) OR push_bit (k + 7) (drop_bit 7 v) = push_bit k (v :: u64)"
proof (rule bit_word_eqI)
  fix n assume "n < LENGTH(64)"
  moreover have "k + 7 \<le> n \<Longrightarrow> 7 + (n - (k + 7)) = n - k" by simp
  ultimately show "bit (push_bit k (v AND 0x7F) OR push_bit (k + 7) (drop_bit 7 v)) n =
      bit (push_bit k v) n"
    by (cases "k + 7 \<le> n") (auto simp: group_bits)
qed

lemma word_split7_u32:
  "push_bit k (ucast (v AND 0x7F)) OR push_bit (k + 7) (ucast (drop_bit 7 (v :: u64))) =
     (push_bit k (ucast v) :: u32)"
proof (rule bit_word_eqI)
  fix n assume "n < LENGTH(32)"
  moreover have "k + 7 \<le> n \<Longrightarrow> 7 + (n - (k + 7)) = n - k" by simp
  ultimately show "bit (push_bit k (ucast (v AND 0x7F)) OR
      push_bit (k + 7) (ucast (drop_bit 7 v)) :: u32) n = bit (push_bit k (ucast v) :: u32) n"
    by (cases "k + 7 \<le> n") (auto simp: group_bits)
qed

lemma take_bit_group_u32:
  "(ucast (take_bit k v) :: u32) OR push_bit k (ucast (drop_bit k (v :: u64) AND 0x7F)) =
     ucast (take_bit (k + 7) v)"
  by (rule bit_word_eqI) (auto simp: group_bits)

text \<open>The byte stored for a group that is not the last one.\<close>

lemma group_bytes:
  fixes v :: u64
  defines "b \<equiv> (ucast ((v AND 0x7F) OR 0x80) :: u8)"
  shows "b AND 0x80 \<noteq> 0"
    and "ucast (b AND 0x7F) = v AND 0x7F"
    and "(ucast (b AND 0x7F) :: u32) = ucast (v AND 0x7F)"
    and "b AND 0x7F = 0 \<longleftrightarrow> v AND 0x7F = 0"
proof -
  have "bit b 7" by (auto simp: b_def group_bits)
  then show "b AND 0x80 \<noteq> 0" by (simp add: and_0x80_eq_0)
  show low: "ucast (b AND 0x7F) = v AND 0x7F"
    unfolding b_def by (rule bit_word_eqI) (auto simp: group_bits)
  show "(ucast (b AND 0x7F) :: u32) = ucast (v AND 0x7F)"
    unfolding b_def by (rule bit_word_eqI) (auto simp: group_bits)
  show "b AND 0x7F = 0 \<longleftrightarrow> v AND 0x7F = 0"
  proof
    assume "b AND 0x7F = 0"
    then show "v AND 0x7F = 0" using low by simp
  qed (simp add: b_def)
qed

lemma small_group: "v \<le> 0x7F \<Longrightarrow> (v :: u64) AND 0x7F = v"
proof -
  assume "v \<le> 0x7F"
  then have "unat v < 2 ^ 7" by (simp add: word_le_nat_alt)
  then have "take_bit 7 v = v"
    by (metis take_bit_nat_eq_self unsigned_take_bit_eq word_unat_eq_iff)
  then show ?thesis by (simp add: take_bit_eq_mask mask_eq_exp_minus_1)
qed

lemma and_0x70_eq_0:
  assumes "\<not> bit (b :: u8) 7"
  shows "b AND 0x70 = 0 \<longleftrightarrow> unat b < 16"
proof -
  have "b AND 0x70 = 0 \<longleftrightarrow> drop_bit 4 b = 0"
  proof
    assume "b AND 0x70 = 0"
    then have none: "\<not> bit (b AND 0x70) n" for n by simp
    have "\<not> bit b n" if "4 \<le> n" for n
    proof (cases "n < 7")
      case True
      then have "bit (0x70 :: u8) n" using that by (simp add: bit_simps bit_0x70_int)
      then show ?thesis using none [of n] by (simp only: bit_and_iff) simp
    next
      case False
      then show ?thesis using assms by (cases "n = 7") (auto dest: bit_imp_le_length)
    qed
    then have "\<not> bit b (4 + n)" for n by simp
    then show "drop_bit 4 b = 0" by (intro bit_word_eqI) (auto simp: bit_simps)
  next
    assume "drop_bit 4 b = 0"
    then have "\<not> bit (drop_bit 4 b) n" for n by simp
    then have "\<not> bit b (4 + n)" for n by (simp add: bit_simps)
    then have "\<not> bit b n" if "4 \<le> n" for n using that by (metis le_add_diff_inverse)
    then show "b AND 0x70 = 0" by (intro bit_word_eqI) (auto simp: bit_simps bit_0x70_int)
  qed
  also have "\<dots> \<longleftrightarrow> unat (drop_bit 4 b) = 0" by (simp only: unat_eq_0)
  also have "\<dots> \<longleftrightarrow> unat b < 16" unfolding unat_drop_bit_div by (simp add: div_eq_0_iff)
  finally show ?thesis .
qed

text \<open>The byte stored for the last group.\<close>

lemma small_bytes:
  fixes v :: u64
  assumes "v \<le> 0x7F"
  defines "b \<equiv> (ucast v :: u8)"
  shows "b AND 0x80 = 0"
    and "b AND 0x7F = b"
    and "ucast b = v"
    and "(ucast b :: u32) = ucast v"
    and "b = 0 \<longleftrightarrow> v = 0"
    and "b AND 0x70 = 0 \<longleftrightarrow> unat v < 16"
proof -
  obtain w where v: "v = w AND 0x7F" using small_group [OF assms(1)] by metis
  have b7: "\<not> bit b 7" unfolding b_def v by (auto simp: group_bits)
  then show "b AND 0x80 = 0" by (simp add: and_0x80_eq_0)
  show "b AND 0x7F = b" "(ucast b :: u32) = ucast v" "ucast b = v"
    unfolding b_def v by (rule bit_word_eqI; auto simp: group_bits)+
  have ub: "unat b = unat v"
    using assms(1) by (simp add: b_def unsigned_ucast_eq take_bit_nat_eq_self word_le_nat_alt)
  then show "b = 0 \<longleftrightarrow> v = 0" by (metis unat_eq_0)
  show "b AND 0x70 = 0 \<longleftrightarrow> unat v < 16" using and_0x70_eq_0 [OF b7] by (simp only: ub)
qed

section \<open>The bytes of a varint\<close>

lemma drop7_eq_0_iff: "drop_bit 7 v = 0 \<longleftrightarrow> v \<le> (0x7F :: u64)"
proof -
  have "drop_bit 7 v = 0 \<longleftrightarrow> unat (drop_bit 7 v) = 0" by (simp only: unat_eq_0)
  also have "\<dots> \<longleftrightarrow> unat v \<le> 127" unfolding unat_drop_bit_div by (auto simp: div_eq_0_iff)
  finally show ?thesis by (simp only: word_le_nat_alt) simp
qed

lemma varint_groups_eq_Nil [simp]: "varint_groups v = [] \<longleftrightarrow> v = 0"
  by (simp add: varint_groups.simps)

lemma varint_bytes_rec:
  "varint_bytes v =
     (if v \<le> 0x7F then [ucast v]
      else ucast ((v AND 0x7F) OR 0x80) # varint_bytes (drop_bit 7 v))"
proof (cases "v \<le> 0x7F")
  case False
  then have "v \<noteq> 0" by auto
  let ?b = "ucast ((v AND 0x7F) OR 0x80) :: u8" and ?w = "drop_bit 7 v"
  from \<open>v \<noteq> 0\<close> have g: "varint_groups v = ?b # varint_groups ?w"
    by (simp add: varint_groups.simps [of v])
  have w0: "?w \<noteq> 0" using False by (simp only: drop7_eq_0_iff) simp
  show ?thesis
  proof (cases "?w \<le> 0x7F")
    case True
    then have gw: "varint_groups ?w = [ucast ((?w AND 0x7F) OR 0x80)]"
      using w0 iffD2 [OF drop7_eq_0_iff True]
      by (simp add: varint_groups.simps [of "?w"] varint_groups.simps [of 0])
    have "((ucast ((?w AND 0x7F) OR 0x80) :: u8) AND 0x7F) = ucast (?w AND 0x7F)"
      by (intro bit_word_eqI) (auto simp: group_bits)
    then have "((ucast ((?w AND 0x7F) OR 0x80) :: u8) AND 0x7F) = ucast ?w"
      using small_group [OF True] by simp
    then show ?thesis using False True w0 g gw by (simp add: varint_bytes_def)
  next
    case w: False
    then have "varint_groups ?w \<noteq> []" using w0 by simp
    then show ?thesis using False w g
      by (cases "varint_groups ?w") (simp_all add: varint_bytes_def Let_def)
  qed
qed (simp add: varint_bytes_def)

lemma varint_bytes_small: "v \<le> 0x7F \<Longrightarrow> varint_bytes v = [ucast v]"
  by (simp add: varint_bytes_def)

lemma varint_bytes_big:
  "\<not> v \<le> 0x7F \<Longrightarrow> varint_bytes v = ucast ((v AND 0x7F) OR 0x80) # varint_bytes (drop_bit 7 v)"
  by (subst varint_bytes_rec) simp

lemma varint_bytes_nonempty [simp]: "varint_bytes v \<noteq> []"
  by (subst varint_bytes_rec) simp

lemma varint_bytes_induct [case_names small big]:
  assumes "\<And>v. v \<le> 0x7F \<Longrightarrow> P v"
    and "\<And>v. \<not> v \<le> 0x7F \<Longrightarrow> P (drop_bit 7 v) \<Longrightarrow> P v"
  shows "P (v :: u64)"
proof (induction "unat v" arbitrary: v rule: less_induct)
  case less
  show ?case
  proof (cases "v \<le> 0x7F")
    case False
    then have "unat v > 0" by (auto simp: word_le_nat_alt)
    then have "unat v div 2 ^ 7 < unat v" by simp
    then have "unat (drop_bit 7 v) < unat v" by (simp only: unat_drop_bit_div)
    then show ?thesis using less assms(2) False by blast
  qed (rule assms(1))
qed

text \<open>
  Room left in an \<open>n\<close>-bit value at bit position \<open>k\<close>: a group that is not the last one
  needs more than 7 bits, and dropping it keeps the rest in range.
\<close>

lemma big_room: "\<not> v \<le> (0x7F :: u64) \<Longrightarrow> unat v < 2 ^ m \<Longrightarrow> 7 < m"
proof (rule ccontr)
  assume h: "\<not> v \<le> 0x7F" "unat v < 2 ^ m" "\<not> 7 < m"
  then have "(2 :: nat) ^ m \<le> 2 ^ 7" by (intro power_increasing) auto
  with h show False by (auto simp: word_le_nat_alt)
qed

lemma pow_split: "k + j \<le> n \<Longrightarrow> (2 :: nat) ^ (n - k) = 2 ^ j * 2 ^ (n - (k + j))"
  by (simp flip: power_add)

lemma drop7_room:
  assumes "unat (v :: u64) < 2 ^ (n - k)" "k + 7 \<le> n"
  shows "unat (drop_bit 7 v) < 2 ^ (n - (k + 7))"
  using assms pow_split [OF assms(2)]
  unfolding unat_drop_bit_div by (simp add: less_mult_imp_div_less mult.commute)

lemma length_varint_bytes_le: "unat v < 128 ^ n \<Longrightarrow> 0 < n \<Longrightarrow> length (varint_bytes v) \<le> n"
proof (induction v arbitrary: n rule: varint_bytes_induct)
  case (small v)
  then show ?case by (simp add: varint_bytes_small)
next
  case (big v)
  then have "1 < n" by (cases "n = 1") (auto simp: word_le_nat_alt)
  then obtain m where m: "n = Suc m" "0 < m" by (cases n) auto
  then have "unat (drop_bit 7 v) < 128 ^ m"
    using big.prems unfolding unat_drop_bit_div
    by (simp add: less_mult_imp_div_less mult.commute)
  with big.IH m have "length (varint_bytes (drop_bit 7 v)) \<le> m" by blast
  with m big.hyps show ?case by (simp add: varint_bytes_big)
qed

lemma length_varint_bytes: "length (varint_bytes v) \<le> 10"
proof (rule length_varint_bytes_le)
  have "unat v < 2 ^ 64" using unsigned_less [of v] by simp
  then show "unat v < 128 ^ 10" by simp
qed simp

lemma length_varint_groups: "length (varint_groups v) \<le> 10"
proof (cases "v \<le> 0x7F")
  case True
  then show ?thesis
    using iffD2 [OF drop7_eq_0_iff True]
    by (cases "v = 0") (simp_all add: varint_groups.simps [of v] varint_groups.simps [of 0])
next
  case False
  then have "length (varint_groups v) = length (varint_bytes v)"
    by (simp add: varint_bytes_def Let_def)
  then show ?thesis using length_varint_bytes [of v] by simp
qed

section \<open>Reading a varint back\<close>

text \<open>The stream starts with the bytes of the varint \<open>v\<close>.\<close>

definition starts_varint :: "'s pb_istream \<Rightarrow> u64 \<Rightarrow> bool" where
  "starts_varint s v \<longleftrightarrow> buf_stream s \<and> length (varint_bytes v) \<le> bytes_left s \<and>
     take (length (varint_bytes v)) (is_buf s) = varint_bytes v"

lemma starts_varintI:
  "buf_stream s \<Longrightarrow> is_buf s = varint_bytes v @ rest \<Longrightarrow> length (varint_bytes v) \<le> bytes_left s \<Longrightarrow>
     starts_varint s v"
  by (simp add: starts_varint_def)

lemma starts_varint_small:
  assumes "starts_varint s v" "v \<le> 0x7F"
  shows "pb_readbyte s = (Some (ucast v), advance_in (length (varint_bytes v)) s)"
  using assms
  by (cases "is_buf s") (auto simp: starts_varint_def varint_bytes_small pb_readbyte_buf)

lemma starts_varint_big:
  assumes "starts_varint s v" "\<not> v \<le> 0x7F"
  shows "pb_readbyte s = (Some (ucast ((v AND 0x7F) OR 0x80)), advance_in 1 s)"
    and "starts_varint (advance_in 1 s) (drop_bit 7 v)"
    and "length (varint_bytes v) = Suc (length (varint_bytes (drop_bit 7 v)))"
proof -
  let ?b = "ucast ((v AND 0x7F) OR 0x80) :: u8" and ?vs = "varint_bytes (drop_bit 7 v)"
  have vb: "varint_bytes v = ?b # ?vs" using assms(2) by (rule varint_bytes_big)
  then show "length (varint_bytes v) = Suc (length ?vs)" by simp
  obtain xs where xs: "is_buf s = ?b # xs" "take (length ?vs) xs = ?vs"
    using assms(1) vb by (cases "is_buf s") (simp_all add: starts_varint_def)
  have s: "buf_stream s" "Suc (length ?vs) \<le> bytes_left s"
    using assms(1) vb by (simp_all add: starts_varint_def)
  show "pb_readbyte s = (Some ?b, advance_in 1 s)"
    using s xs(1) by (simp add: pb_readbyte_buf)
  show "starts_varint (advance_in 1 s) (drop_bit 7 v)"
    using s xs unfolding starts_varint_def by simp
qed

lemma varint_loop_bytes:
  assumes "starts_varint s v" "unat v < 2 ^ (64 - k)" "k < 64"
  shows "varint_loop s k r = (Some (r OR push_bit k v), advance_in (length (varint_bytes v)) s)"
  using assms
proof (induction v arbitrary: s k r rule: varint_bytes_induct)
  case (small v)
  then show ?case
    using small_bytes [OF small.hyps] starts_varint_small [OF small.prems(1) small.hyps]
    by (subst varint_loop.simps) simp
next
  case (big v)
  let ?w = "drop_bit 7 v" and ?r = "r OR push_bit k (v AND 0x7F)"
  have k: "k + 7 < 64" using big_room [OF big.hyps big.prems(2)] by simp
  have "varint_loop (advance_in 1 s) (k + 7) ?r =
      (Some (?r OR push_bit (k + 7) ?w), advance_in (length (varint_bytes ?w)) (advance_in 1 s))"
    using k starts_varint_big(2) [OF big.prems(1) big.hyps] drop7_room [OF big.prems(2)]
    by (intro big.IH) simp_all
  moreover have "?r OR push_bit (k + 7) ?w = r OR push_bit k v"
    by (simp only: or.assoc word_split7)
  ultimately show ?case
    using k starts_varint_big [OF big.prems(1) big.hyps] group_bytes [of v]
    by (subst varint_loop.simps) simp
qed

lemma pb_decode_varint_bytes:
  assumes "starts_varint s v"
  shows "pb_decode_varint s = (Some v, advance_in (length (varint_bytes v)) s)"
proof -
  have "unat v < 2 ^ (64 - 0)" using unsigned_less [of v] by simp
  then show ?thesis using varint_loop_bytes [OF assms, of 0 0] by (simp add: pb_decode_varint_def)
qed

section \<open>Reading a varint into 32 bits\<close>

lemma varint32_loop_step:
  assumes "starts_varint s v" "\<not> v \<le> 0x7F" "k < 32"
  shows "varint32_loop s k r =
    varint32_loop (advance_in 1 s) (k + 7) (r OR push_bit k (ucast (v AND 0x7F)))"
  using assms(3) starts_varint_big(1) [OF assms(1,2)] group_bytes [of v]
  by (subst varint32_loop.simps) (simp add: Let_def)

lemma varint32_loop_last:
  assumes "starts_varint s v" "v \<le> 0x7F" "k < 32"
  shows "varint32_loop s k r =
    (if k = 28 \<and> 16 \<le> unat v
     then (None, set_ierror (advance_in (length (varint_bytes v)) s) ''varint overflow'')
     else (Some (r OR push_bit k (ucast v)), advance_in (length (varint_bytes v)) s))"
  using assms(3) starts_varint_small [OF assms(1,2)] small_bytes [OF assms(2)]
  by (subst varint32_loop.simps) (auto simp: Let_def not_le)

lemma varint32_loop_bytes:
  assumes "starts_varint s v" "unat v < 2 ^ (32 - k)" "k \<le> 28" "7 dvd k"
  shows "varint32_loop s k r =
    (Some (r OR push_bit k (ucast v)), advance_in (length (varint_bytes v)) s)"
  using assms
proof (induction v arbitrary: s k r rule: varint_bytes_induct)
  case (small v)
  then show ?case by (auto simp: varint32_loop_last)
next
  case (big v)
  let ?w = "drop_bit 7 v" and ?r = "r OR push_bit k (ucast (v AND 0x7F))"
  have "7 < 32 - k" using big_room [OF big.hyps big.prems(2)] .
  then have k: "k + 7 \<le> 28" using big.prems(4) by (elim dvdE) auto
  have "varint32_loop (advance_in 1 s) (k + 7) ?r =
      (Some (?r OR push_bit (k + 7) (ucast ?w)),
       advance_in (length (varint_bytes ?w)) (advance_in 1 s))"
    using k starts_varint_big(2) [OF big.prems(1) big.hyps] drop7_room [OF big.prems(2)]
      big.prems(4)
    by (intro big.IH) simp_all
  moreover have "?r OR push_bit (k + 7) (ucast ?w) = r OR push_bit k (ucast v)"
    by (simp only: or.assoc word_split7_u32)
  ultimately show ?case
    using k starts_varint_big(3) [OF big.prems(1) big.hyps]
    by (simp add: varint32_loop_step [OF big.prems(1) big.hyps])
qed

lemma varint32_loop_high_reject:
  assumes "starts_varint s v" "v \<noteq> 0" "unat v < 2 ^ (64 - k)" "32 \<le> k" "drop_bit 31 r = 0"
  shows "\<exists>s'. varint32_loop s k r = (None, set_ierror s' ''varint overflow'')"
  using assms
proof (induction v arbitrary: s k rule: varint_bytes_induct)
  case (small v)
  then show ?case
    using small_bytes [OF small.hyps] starts_varint_small [OF small.prems(1) small.hyps]
    by (subst varint32_loop.simps) (auto simp: Let_def)
next
  case (big v)
  let ?w = "drop_bit 7 v"
  note rb = starts_varint_big [OF big.prems(1) big.hyps]
  show ?case
  proof (cases "v AND 0x7F = 0")
    case True
    have k: "k + 7 < 64" using big_room [OF big.hyps big.prems(3)] by simp
    have "?w \<noteq> 0" using big.hyps by (simp only: drop7_eq_0_iff) simp
    then have "\<exists>s'. varint32_loop (advance_in 1 s) (k + 7) r =
        (None, set_ierror s' ''varint overflow'')"
      using k rb(2) drop7_room [OF big.prems(3)] big.prems(4,5) by (intro big.IH) simp_all
    then show ?thesis using rb True group_bytes [of v] k big.prems(4)
      by (subst varint32_loop.simps) (simp add: Let_def)
  next
    case False
    then show ?thesis using rb group_bytes [of v] big.prems
      by (subst varint32_loop.simps) (auto simp: Let_def)
  qed
qed

lemma mod_pred: "0 < x \<Longrightarrow> (128 * x - 1) mod 2 ^ 7 = (127 :: nat)"
  by (cases x) auto

lemma varint32_loop_sign:
  assumes "starts_varint s v" "unat v = 2 ^ (64 - k) - 1" "35 \<le> k" "k \<le> 63" "7 dvd k"
    "drop_bit 31 r \<noteq> 0"
  shows "varint32_loop s k r = (Some r, advance_in (length (varint_bytes v)) s)"
  using assms
proof (induction v arbitrary: s k rule: varint_bytes_induct)
  case (small v)
  have "\<not> 8 \<le> 64 - k"
  proof
    assume "8 \<le> 64 - k"
    then have "(2 :: nat) ^ 8 \<le> 2 ^ (64 - k)" by (intro power_increasing) auto
    with small show False by (auto simp: word_le_nat_alt)
  qed
  then have k: "k = 63" using small.prems(4,5) by (elim dvdE) auto
  then have "unat v = 1" using small.prems(2) by simp
  then have "v = 1" by (metis unat_1 word_unat_eq_iff)
  then show ?case
    using small starts_varint_small [OF small.prems(1) small.hyps] k
    by (subst varint32_loop.simps) (auto simp: Let_def)
next
  case (big v)
  let ?w = "drop_bit 7 v"
  note rb = starts_varint_big [OF big.prems(1) big.hyps]
  have "k \<noteq> 63" using big by (auto simp: word_le_nat_alt)
  then have k: "k + 7 \<le> 63" using big.prems(4,5) by (elim dvdE) auto
  have e: "(2 :: nat) ^ (64 - k) = 128 * 2 ^ (64 - (k + 7))"
    using pow_split [of k 7 64] k by simp
  have p: "(0 :: nat) < 2 ^ (64 - (k + 7))" by simp
  have "unat ?w = 2 ^ (64 - (k + 7)) - 1"
    unfolding unat_drop_bit_div big.prems(2) e using p by simp
  then have "varint32_loop (advance_in 1 s) (k + 7) r =
      (Some r, advance_in (length (varint_bytes ?w)) (advance_in 1 s))"
    using k rb(2) big.prems by (intro big.IH) simp_all
  moreover have "ucast ((v AND 0x7F) OR 0x80) = (0xFF :: u8)"
  proof -
    have "v AND 0x7F = take_bit 7 v" by (simp add: take_bit_eq_mask mask_eq_exp_minus_1)
    then have "unat (v AND 0x7F) = unat v mod 2 ^ 7" by (simp only: unat_take_bit_mod)
    also have "\<dots> = 127" unfolding big.prems(2) e by (rule mod_pred) (rule p)
    finally have "v AND 0x7F = 0x7F" by (simp add: word_unat_eq_iff)
    then show ?thesis by simp
  qed
  ultimately show ?case using rb k big.prems
    by (subst varint32_loop.simps) (simp add: Let_def)
qed

text \<open>Four groups of a value of more than 32 bits, read into the low 28 bits.\<close>

lemma varint32_four_groups:
  assumes s: "starts_varint s v" and v: "2 ^ 32 \<le> unat v"
  shows "pb_decode_varint32 s = varint32_loop (advance_in 4 s) 28 (ucast (take_bit 28 v))"
    and "starts_varint (advance_in 4 s) (drop_bit 28 v)"
    and "length (varint_bytes v) = 4 + length (varint_bytes (drop_bit 28 v))"
proof -
  have big: "\<not> drop_bit k v \<le> 0x7F" if "k \<le> 21" for k
  proof -
    have "(2 :: nat) ^ k \<le> 2 ^ 21" using that by (intro power_increasing) auto
    then have "128 * 2 ^ k \<le> unat v" using v by simp
    then have "128 \<le> unat v div 2 ^ k" by (simp add: less_eq_div_iff_mult_less_eq)
    then have "128 \<le> unat (drop_bit k v)" by (simp only: unat_drop_bit_div)
    then show ?thesis by (simp add: word_le_nat_alt)
  qed
  have st: "starts_varint (advance_in j s) (drop_bit (7 * j) v)" if "j \<le> 4" for j
    using that
  proof (induction j)
    case (Suc j)
    then show ?case
      using starts_varint_big(2) [of "advance_in j s" "drop_bit (7 * j) v"] big [of "7 * j"]
      by (simp add: add.commute)
  qed (simp add: s)
  have len: "length (varint_bytes v) = j + length (varint_bytes (drop_bit (7 * j) v))"
    if "j \<le> 4" for j
    using that
  proof (induction j)
    case (Suc j)
    then show ?case
      using starts_varint_big(3) [OF st [of j] big [of "7 * j"]] by (simp add: add.commute)
  qed simp
  have loop: "pb_decode_varint32 s =
      varint32_loop (advance_in j s) (7 * j) (ucast (take_bit (7 * j) v))"
    if "1 \<le> j" "j \<le> 4" for j
    using that
  proof (induction j)
    case (Suc j)
    show ?case
    proof (cases "j = 0")
      case True
      have "take_bit 7 v = v AND 0x7F" by (simp add: take_bit_eq_mask mask_eq_exp_minus_1)
      then show ?thesis
        using True group_bytes [of v] starts_varint_big(1) [OF s] big [of 0]
        by (simp add: pb_decode_varint32_def pb_decode_varint32_eof_def split: prod.splits)
    next
      case False
      then have "pb_decode_varint32 s =
          varint32_loop (advance_in j s) (7 * j) (ucast (take_bit (7 * j) v))"
        using Suc by simp
      also have "\<dots> = varint32_loop (advance_in (Suc j) s) (7 * j + 7)
          (ucast (take_bit (7 * j) v) OR push_bit (7 * j) (ucast (drop_bit (7 * j) v AND 0x7F)))"
        using varint32_loop_step [OF st [of j] big [of "7 * j"], of "7 * j"] Suc.prems
        by simp
      finally show ?thesis by (simp only: take_bit_group_u32) (simp add: add.commute)
    qed
  qed simp
  show "pb_decode_varint32 s = varint32_loop (advance_in 4 s) 28 (ucast (take_bit 28 v))"
    using loop [of 4] by simp
  show "starts_varint (advance_in 4 s) (drop_bit 28 v)" using st [of 4] by simp
  show "length (varint_bytes v) = 4 + length (varint_bytes (drop_bit 28 v))"
    using len [of 4] by simp
qed

end
