(* ===== verification/PB_Wire.thy ===== *)
theory PB_Wire
  imports PB_Varint
begin

text \<open>
  What the scalar encodings of \<open>PB_Varint\<close> promise: reading back what was written gives the
  value and consumes exactly the bytes written, for varints read into 64 and 32 bits,
  zig-zag integers, fixed-width integers, tags and strings; skipping a field consumes the
  bytes of its value; a string substream is closed at the end of its string.
\<close>

section \<open>Acceptance of varints into 32 bits\<close>

lemma pb_decode_varint32_one_byte:
  assumes "starts_varint s v" "v \<le> 0x7F"
  shows "pb_decode_varint32_eof s =
    (Some (ucast v), advance_in (length (varint_bytes v)) s, False)"
  using starts_varint_small [OF assms] small_bytes [OF assms(2)]
  by (simp add: pb_decode_varint32_eof_def)

lemma pb_decode_varint32_eof_bytes:
  assumes "starts_varint s v" "unat v < 2 ^ 32"
  shows "pb_decode_varint32_eof s =
    (Some (ucast v), advance_in (length (varint_bytes v)) s, False)"
proof (cases "v \<le> 0x7F")
  case True
  then show ?thesis by (rule pb_decode_varint32_one_byte [OF assms(1)])
next
  case False
  note rb = starts_varint_big [OF assms(1) False]
  have "unat (drop_bit 7 v) < 2 ^ (32 - 7)"
    using drop7_room [of v 32 0] assms(2) by simp
  then have "varint32_loop (advance_in 1 s) 7 (ucast (v AND 0x7F)) =
      (Some (ucast (v AND 0x7F) OR push_bit 7 (ucast (drop_bit 7 v))),
       advance_in (length (varint_bytes (drop_bit 7 v))) (advance_in 1 s))"
    by (intro varint32_loop_bytes rb(2)) simp_all
  then show ?thesis
    using rb(1,3) group_bytes [of v] word_split7_u32 [of 0 v]
    by (simp add: pb_decode_varint32_eof_def)
qed

lemma pb_decode_varint32_bytes:
  assumes "starts_varint s v" "unat v < 2 ^ 32"
  shows "pb_decode_varint32 s = (Some (ucast v), advance_in (length (varint_bytes v)) s)"
  using pb_decode_varint32_eof_bytes [OF assms] by (simp add: pb_decode_varint32_def)

lemma low_groups_u32:
  "(ucast (take_bit 28 v) :: u32) OR push_bit 28 (ucast (drop_bit 28 (v :: u64) AND 0x7F)) = ucast v"
  "(ucast (take_bit 28 v) :: u32) OR push_bit 28 (ucast (drop_bit 28 v)) = ucast v"
  by (rule bit_word_eqI; auto simp: group_bits)+

lemma bit31_u32: "drop_bit 31 (ucast (v :: u64) :: u32) = 0 \<longleftrightarrow> \<not> bit v 31"
proof
  assume "drop_bit 31 (ucast v :: u32) = 0"
  then have "\<not> bit (drop_bit 31 (ucast v :: u32)) 0" by simp
  then show "\<not> bit v 31" by (simp add: bit_simps)
next
  assume "\<not> bit v 31"
  then show "drop_bit 31 (ucast v :: u32) = 0"
    by (intro bit_word_eqI) (auto simp: bit_simps elim: less_SucE simp: numeral_eq_Suc)
qed

lemma pb_decode_varint32_negative:
  assumes s: "starts_varint s v" and v: "2 ^ 64 - 2 ^ 31 \<le> unat v"
  shows "pb_decode_varint32 s = (Some (ucast v), advance_in (length (varint_bytes v)) s)"
proof -
  have v64: "unat v < 2 ^ 64" using unsigned_less [of v] by simp
  have v32: "2 ^ 32 \<le> unat v" using v by simp
  note f = varint32_four_groups [OF s v32]
  let ?w = "drop_bit 28 v"
  have w: "unat ?w = unat v div 2 ^ 28" by (rule unat_drop_bit_div)
  have "(2 ^ 64 - 2 ^ 31 :: nat) div 2 ^ 28 \<le> unat v div 2 ^ 28" by (rule div_le_mono) (rule v)
  then have wl: "2 ^ 36 - 8 \<le> unat ?w" unfolding w by simp
  then have nb: "\<not> ?w \<le> 0x7F" by (simp add: word_le_nat_alt)
  note rb = starts_varint_big [OF f(2) nb]
  have "unat v div 2 ^ 35 = 2 ^ 29 - 1" using v v64 by simp
  then have u: "unat (drop_bit 7 ?w) = 2 ^ (64 - 35) - 1"
    using unat_drop_bit_div [of 35 v] by simp
  have b31: "bit v 31"
  proof -
    have "unat v div 2 ^ 31 = 2 ^ 33 - 1" using v v64 by simp
    then have "bit (unat v) 31" unfolding bit_iff_odd by simp
    then show ?thesis by (simp add: bit_unsigned_iff)
  qed
  have "varint32_loop (advance_in 1 (advance_in 4 s)) (28 + 7) (ucast v) =
      (Some (ucast v), advance_in (length (varint_bytes (drop_bit 7 ?w))) (advance_in 1 (advance_in 4 s)))"
    using rb(2) u b31 by (intro varint32_loop_sign) (simp_all add: bit31_u32)
  then show ?thesis
    using f(1,3) v varint32_loop_step [OF f(2) nb, of 28] rb(3) low_groups_u32(1) [of v] by simp
qed

lemma pb_decode_varint32_overflow:
  assumes s: "starts_varint s v" and v: "2 ^ 32 \<le> unat v" and p: "unat v < 2 ^ 35 \<or> \<not> bit v 31"
  shows "\<exists>s'. pb_decode_varint32 s = (None, set_ierror s' ''varint overflow'')"
proof -
  note f = varint32_four_groups [OF s v]
  let ?w = "drop_bit 28 v"
  have w: "unat ?w = unat v div 2 ^ 28" by (rule unat_drop_bit_div)
  have wl: "16 \<le> unat ?w" unfolding w using div_le_mono [OF v, of "2 ^ 28"] by simp
  show ?thesis
  proof (cases "?w \<le> 0x7F")
    case True
    then show ?thesis using f(1) varint32_loop_last [OF f(2) True, of 28] wl by auto
  next
    case False
    note rb = starts_varint_big [OF f(2) False]
    have "unat ?w < 2 ^ 7" if "unat v < 2 ^ 35"
      unfolding w using that by simp
    with False p have b: "\<not> bit v 31" by (auto simp: word_le_nat_alt)
    have "unat ?w < 2 ^ (64 - 28)" unfolding w using unsigned_less [of v, where ?'a = nat] by simp
    then have u: "unat (drop_bit 7 ?w) < 2 ^ (64 - (28 + 7))" by (rule drop7_room) simp
    have "drop_bit 7 ?w \<noteq> 0" using False by (simp only: drop7_eq_0_iff) simp
    then have "\<exists>s'. varint32_loop (advance_in 1 (advance_in 4 s)) (28 + 7) (ucast v) =
        (None, set_ierror s' ''varint overflow'')"
      using rb(2) u b by (intro varint32_loop_high_reject) (simp_all add: bit31_u32)
    then show ?thesis
      using f(1) varint32_loop_step [OF f(2) False, of 28] low_groups_u32(1) [of v] by simp
  qed
qed

section \<open>Zig-zag and fixed-width integers\<close>

lemma unzigzag_zigzag:
  "(if zigzag v AND 1 \<noteq> 0 then NOT (drop_bit 1 (zigzag v)) else drop_bit 1 (zigzag v)) = v"
proof (cases "sint v < 0")
  case True
  then have b: "bit v 63" by (simp add: bit_last_iff flip: bit_last_iff)
  have z: "zigzag v = NOT (push_bit 1 v)" using True by (simp add: zigzag_def)
  have "odd (zigzag v)" by (simp add: z even_not_iff)
  then have "zigzag v AND 1 \<noteq> 0" by (simp add: and_one_eq odd_iff_mod_2_eq_one)
  moreover have "NOT (drop_bit 1 (zigzag v)) = v"
  proof (rule bit_word_eqI)
    fix n assume "n < LENGTH(64)"
    then show "bit (NOT (drop_bit 1 (zigzag v))) n = bit v n"
      using b by (cases "n = 63") (auto simp: z bit_simps bit_double_iff mult.commute [of v 2])
  qed
  ultimately show ?thesis by simp
next
  case False
  then have b: "\<not> bit v 63" by (simp add: bit_last_iff flip: bit_last_iff)
  have z: "zigzag v = push_bit 1 v" using False by (simp add: zigzag_def)
  have "even (zigzag v)" by (simp add: z)
  then have "zigzag v AND 1 = 0" by (simp add: and_one_eq even_iff_mod_2_eq_zero)
  moreover have "drop_bit 1 (zigzag v) = v"
  proof (rule bit_word_eqI)
    fix n assume "n < LENGTH(64)"
    then show "bit (drop_bit 1 (zigzag v)) n = bit v n"
      using b by (cases "n = 63") (auto simp: z bit_simps bit_double_iff mult.commute [of v 2])
  qed
  ultimately show ?thesis by simp
qed

lemma pb_decode_svarint_bytes:
  assumes "starts_varint s (zigzag v)"
  shows "pb_decode_svarint s = (Some v, advance_in (length (varint_bytes (zigzag v))) s)"
  using unzigzag_zigzag [of v] pb_decode_varint_bytes [OF assms]
  by (simp add: pb_decode_svarint_def)

text \<open>The zig-zag code of a number of small magnitude is small.\<close>

lemma zigzag_int:
  "int (unat (zigzag v)) = (if 0 \<le> sint v then 2 * sint v else - 2 * sint v - 1)"
proof -
  have e: "push_bit 1 v = word_of_int (2 * sint v)"
    by (simp add: push_bit_eq_mult mult.commute)
  have r: "- (2 ^ 63) \<le> sint v" "sint v < 2 ^ 63"
    using sint_greater_eq [of v] sint_less [of v] by simp_all
  show ?thesis
  proof (cases "sint v < 0")
    case True
    have "zigzag v = word_of_int (- 2 * sint v - 1)"
      using True e by (simp add: zigzag_def not_eq_complement)
    then have "uint (zigzag v) = (- 2 * sint v - 1) mod 2 ^ 64"
      by (simp only: uint_word_of_int) simp
    also have "\<dots> = - 2 * sint v - 1" using True r by (intro mod_pos_pos_trivial) simp_all
    finally show ?thesis using True by simp
  next
    case False
    then have "zigzag v = word_of_int (2 * sint v)" using e by (simp add: zigzag_def)
    then have "uint (zigzag v) = (2 * sint v) mod 2 ^ 64"
      by (simp only: uint_word_of_int) simp
    also have "\<dots> = 2 * sint v" using False r by (intro mod_pos_pos_trivial) simp_all
    finally show ?thesis using False by simp
  qed
qed

lemma byte_at_bit:
  "bit (push_bit k (ucast (ucast (drop_bit k v AND 0xFF) :: u8)) :: 'a::len word) n \<longleftrightarrow>
     k \<le> n \<and> n < k + 8 \<and> bit (v :: 'a word) n"
  by (auto simp: bit_simps bit_0xFF_int bit_imp_le_length dest: bit_imp_le_length)

lemma fixed32_value:
  "push_bit 0 (ucast (ucast (v AND 0xFF) :: u8)) OR
   push_bit 8 (ucast (ucast (drop_bit 8 v AND 0xFF) :: u8)) OR
   push_bit 16 (ucast (ucast (drop_bit 16 v AND 0xFF) :: u8)) OR
   push_bit 24 (ucast (ucast (drop_bit 24 v AND 0xFF) :: u8)) = (v :: u32)"
  (is "?l = v")
proof (rule bit_word_eqI)
  fix n assume "n < LENGTH(32)"
  then consider "n < 8" | "8 \<le> n" "n < 16" | "16 \<le> n" "n < 24" | "24 \<le> n" "n < 32" by force
  then show "bit ?l n = bit v n"
    using byte_at_bit [of 0 v n]
    by cases (simp_all add: bit_or_iff byte_at_bit del: push_bit_0_id)
qed

lemma fixed64_value:
  "push_bit 0 (ucast (ucast (v AND 0xFF) :: u8)) OR
   push_bit 8 (ucast (ucast (drop_bit 8 v AND 0xFF) :: u8)) OR
   push_bit 16 (ucast (ucast (drop_bit 16 v AND 0xFF) :: u8)) OR
   push_bit 24 (ucast (ucast (drop_bit 24 v AND 0xFF) :: u8)) OR
   push_bit 32 (ucast (ucast (drop_bit 32 v AND 0xFF) :: u8)) OR
   push_bit 40 (ucast (ucast (drop_bit 40 v AND 0xFF) :: u8)) OR
   push_bit 48 (ucast (ucast (drop_bit 48 v AND 0xFF) :: u8)) OR
   push_bit 56 (ucast (ucast (drop_bit 56 v AND 0xFF) :: u8)) = (v :: u64)"
  (is "?l = v")
proof (rule bit_word_eqI)
  fix n assume "n < LENGTH(64)"
  then consider "n < 8" | "8 \<le> n" "n < 16" | "16 \<le> n" "n < 24" | "24 \<le> n" "n < 32"
    | "32 \<le> n" "n < 40" | "40 \<le> n" "n < 48" | "48 \<le> n" "n < 56" | "56 \<le> n" "n < 64"
    by force
  then show "bit ?l n = bit v n"
    using byte_at_bit [of 0 v n]
    by cases (simp_all add: bit_or_iff byte_at_bit del: push_bit_0_id)
qed

definition fixed32_bytes :: "u32 \<Rightarrow> u8 list" where
  "fixed32_bytes val =
     [ucast (val AND 0xFF), ucast (drop_bit 8 val AND 0xFF),
      ucast (drop_bit 16 val AND 0xFF), ucast (drop_bit 24 val AND 0xFF)]"

definition fixed64_bytes :: "u64 \<Rightarrow> u8 list" where
  "fixed64_bytes val =
     [ucast (val AND 0xFF), ucast (drop_bit 8 val AND 0xFF),
      ucast (drop_bit 16 val AND 0xFF), ucast (drop_bit 24 val AND 0xFF),
      ucast (drop_bit 32 val AND 0xFF), ucast (drop_bit 40 val AND 0xFF),
      ucast (drop_bit 48 val AND 0xFF), ucast (drop_bit 56 val AND 0xFF)]"

lemma length_fixed_bytes [simp]:
  "length (fixed32_bytes v) = 4" "length (fixed64_bytes w) = 8"
  by (simp_all add: fixed32_bytes_def fixed64_bytes_def)

lemma pb_decode_fixed32_bytes:
  assumes "buf_stream s" "is_buf s = fixed32_bytes v @ rest" "4 \<le> bytes_left s"
  shows "pb_decode_fixed32 s = (Some v, advance_in 4 s)"
proof -
  have "take 4 (is_buf s) = fixed32_bytes v" using assms(2) by simp
  then show ?thesis
    using assms(3) fixed32_value [of v]
    by (simp add: pb_decode_fixed32_def pb_read_buf [OF assms(1)] fixed32_bytes_def)
qed

lemma pb_decode_fixed64_bytes:
  assumes "buf_stream s" "is_buf s = fixed64_bytes v @ rest" "8 \<le> bytes_left s"
  shows "pb_decode_fixed64 s = (Some v, advance_in 8 s)"
proof -
  have "take 8 (is_buf s) = fixed64_bytes v" using assms(2) by simp
  then show ?thesis
    using assms(3) fixed64_value [of v]
    by (simp add: pb_decode_fixed64_def pb_read_buf [OF assms(1)] fixed64_bytes_def)
qed

section \<open>Tags\<close>

definition tag_value :: "pb_wire_type \<Rightarrow> u32 \<Rightarrow> u64" where
  "tag_value wiretype field_number = push_bit 3 (ucast field_number) OR ucast wiretype"

lemma pb_encode_tag_eq: "pb_encode_tag s wt n = pb_encode_varint s (tag_value wt n)"
  by (simp add: pb_encode_tag_def tag_value_def)

lemma bit_7_int: "bit (7 :: int) n \<longleftrightarrow> n < 3"
  using bit_mask_iff [of 3 n, where ?'a = int] by (simp add: mask_eq_exp_minus_1)

lemma word_le_7:
  assumes "(w :: u32) \<le> 7"
  shows "w AND 7 = w"
proof -
  have "unat w < 2 ^ 3" using assms by (simp add: word_le_nat_alt)
  then have "take_bit 3 w = w"
    by (metis take_bit_nat_eq_self unsigned_take_bit_eq word_unat_eq_iff)
  then show ?thesis by (simp add: take_bit_eq_mask mask_eq_exp_minus_1)
qed

lemma field_number_bits:
  assumes "unat (n :: u32) < 2 ^ 29" "29 \<le> k"
  shows "\<not> bit n k"
proof -
  have "take_bit 29 n = n"
    using assms(1) by (metis take_bit_nat_eq_self unsigned_take_bit_eq word_unat_eq_iff)
  then have "bit n k = bit (take_bit 29 n) k" by simp
  then show ?thesis using assms(2) by (simp add: bit_take_bit_iff)
qed

lemma tag_value_u32:
  assumes wt: "wt \<le> 7" and n: "unat n < 2 ^ 29"
  shows "(ucast (tag_value wt n) :: u32) AND 7 = wt"
    and "drop_bit 3 (ucast (tag_value wt n) :: u32) = n"
    and "unat (tag_value wt n) < 2 ^ 32"
proof -
  obtain w where w: "wt = w AND 7" using word_le_7 [OF wt] by metis
  have f: "\<not> bit n k" if "29 \<le> k" for k using field_number_bits [OF n that] .
  show "(ucast (tag_value wt n) :: u32) AND 7 = wt"
    unfolding w tag_value_def by (rule bit_word_eqI) (auto simp: bit_simps bit_7_int)
  show "drop_bit 3 (ucast (tag_value wt n) :: u32) = n"
  proof (rule bit_word_eqI)
    fix k assume k: "k < LENGTH(32)"
    then show "bit (drop_bit 3 (ucast (tag_value wt n) :: u32)) k = bit n k"
      using f [of k] unfolding w tag_value_def
      by (cases "29 \<le> k") (auto simp: bit_simps bit_7_int)
  qed
  have "take_bit 32 (tag_value wt n) = tag_value wt n"
  proof (rule bit_word_eqI)
    fix k assume k: "k < LENGTH(64)"
    then show "bit (take_bit 32 (tag_value wt n)) k = bit (tag_value wt n) k"
      using f [of "k - 3"] unfolding w tag_value_def
      by (cases "32 \<le> k") (auto simp: bit_simps bit_7_int)
  qed
  then show "unat (tag_value wt n) < 2 ^ 32"
    using unat_take_bit_mod [of 32 "tag_value wt n"] by simp
qed

lemma pb_decode_tag_bytes:
  assumes s: "starts_varint s (tag_value wt n)" and wt: "wt \<le> 7" and n: "unat n < 2 ^ 29"
    and nz: "wt \<noteq> 0 \<or> n \<noteq> 0"
  shows "pb_decode_tag s =
    (Some (wt, n), advance_in (length (varint_bytes (tag_value wt n))) s, False)"
proof -
  note t = tag_value_u32 [OF wt n]
  have "(ucast (tag_value wt n) :: u32) \<noteq> 0" using t(1,2) nz by (cases "ucast (tag_value wt n) = (0 :: u32)") auto
  then show ?thesis
    using pb_decode_varint32_eof_bytes [OF s t(3)] t(1,2) by (simp add: pb_decode_tag_def)
qed

section \<open>Skipping and substreams\<close>

lemma pb_read_1_byte:
  "buf_stream s \<Longrightarrow> pb_read s True 1 = (case pb_readbyte s of
     (None, t) \<Rightarrow> (None, t) | (Some b, t) \<Rightarrow> (Some [b], t))"
  by (cases "is_buf s") (auto simp: pb_read_buf pb_readbyte_buf buf_stream_def)

lemma pb_skip_varint_bytes:
  assumes "starts_varint s v"
  shows "pb_skip_varint s = (True, advance_in (length (varint_bytes v)) s)"
  using assms
proof (induction v arbitrary: s rule: varint_bytes_induct)
  case (small v)
  have "buf_stream s" using small.prems by (simp add: starts_varint_def)
  then show ?case
    using starts_varint_small [OF small.prems small.hyps] small_bytes [OF small.hyps]
    by (subst pb_skip_varint.simps) (simp add: pb_read_1_byte [unfolded One_nat_def])
next
  case (big v)
  note rb = starts_varint_big [OF big.prems big.hyps]
  have "buf_stream s" using big.prems by (simp add: starts_varint_def)
  then show ?case using rb group_bytes [of v] big.IH [OF rb(2)]
    by (subst pb_skip_varint.simps) (simp add: pb_read_1_byte [unfolded One_nat_def])
qed

text \<open>A length-prefixed string at the front of a buffer stream.\<close>

definition string_bytes :: "u8 list \<Rightarrow> u8 list" where
  "string_bytes bs = varint_bytes (word_of_nat (length bs)) @ bs"

lemma unat_length_u64: "n < 2 ^ 32 \<Longrightarrow> unat (word_of_nat n :: u64) = n"
  by (simp add: unsigned_of_nat take_bit_nat_eq_self)

lemma unat_length_u32: "n < 2 ^ 32 \<Longrightarrow> unat (ucast (word_of_nat n :: u64) :: u32) = n"
  by (simp add: unsigned_of_nat unsigned_ucast_eq take_bit_nat_eq_self)

lemma string_prefix:
  assumes "buf_stream s" "is_buf s = string_bytes bs @ rest" "length (string_bytes bs) \<le> bytes_left s"
    "length bs < 2 ^ 32"
  shows "pb_decode_varint32 s = (Some (word_of_nat (length bs)),
      advance_in (length (varint_bytes (word_of_nat (length bs)))) s)"
proof -
  have s: "starts_varint s (word_of_nat (length bs))"
    using assms by (auto intro: starts_varintI simp: string_bytes_def)
  have "ucast (word_of_nat (length bs) :: u64) = (word_of_nat (length bs) :: u32)"
    using assms(4) by (simp add: word_unat_eq_iff unat_length_u32 unsigned_of_nat take_bit_nat_eq_self)
  then show ?thesis
    using pb_decode_varint32_bytes [OF s] assms(4) by (simp add: unat_length_u64)
qed

lemma unat_of_length_u32: "n < 2 ^ 32 \<Longrightarrow> unat (word_of_nat n :: u32) = n"
  by (simp add: unsigned_of_nat take_bit_nat_eq_self)

lemma pb_skip_string_bytes:
  assumes "buf_stream s" "is_buf s = string_bytes bs @ rest" "length (string_bytes bs) \<le> bytes_left s"
    "length bs < 2 ^ 32"
  shows "pb_skip_string s = (True, advance_in (length (string_bytes bs)) s)"
  using assms(1,3,4) string_prefix [OF assms]
  by (auto simp: pb_skip_string_def pb_read_buf string_bytes_def unat_of_length_u32)

lemma pb_make_string_substream_bytes:
  assumes "buf_stream s" "is_buf s = string_bytes bs @ rest" "length (string_bytes bs) \<le> bytes_left s"
    "length bs < 2 ^ 32"
  defines "t \<equiv> advance_in (length (varint_bytes (word_of_nat (length bs)))) s"
  shows "pb_make_string_substream s =
    (Some (t\<lparr>bytes_left := length bs\<rparr>), t\<lparr>bytes_left := bytes_left t - length bs\<rparr>)"
  using assms(3,4) string_prefix [OF assms(1-4)]
  by (auto simp: pb_make_string_substream_def t_def unat_of_length_u32 string_bytes_def)

text \<open>
  Whatever part of a substream its reader has consumed, closing it leaves the parent just
  after the string.
\<close>

lemma pb_substream_closed:
  assumes "buf_stream s" "n \<le> bytes_left s" "j \<le> n"
  shows "pb_close_string_substream (s\<lparr>bytes_left := bytes_left s - n\<rparr>)
      (advance_in j (s\<lparr>bytes_left := n\<rparr>)) = (True, advance_in n s)"
proof -
  have "buf_stream (advance_in j (s\<lparr>bytes_left := n\<rparr>))" using assms by (auto simp: buf_stream_def)
  with assms(3) show ?thesis
    by (auto simp: pb_close_string_substream_def pb_read_buf advance_in_def)
qed

section \<open>The contract of a scalar codec\<close>

text \<open>
  A writer and a reader agree on the byte form \<open>enc\<close> of the values that satisfy \<open>ok\<close>. The
  round trip follows once for all codecs.
\<close>

locale wire_codec =
  fixes enc :: "'a \<Rightarrow> u8 list"
    and ok :: "'a \<Rightarrow> bool"
    and put :: "'s pb_ostream \<Rightarrow> 'a \<Rightarrow> bool \<times> 's pb_ostream"
    and get :: "'t pb_istream \<Rightarrow> 'a option \<times> 't pb_istream"
  assumes put_buf: "\<And>s v. out_stream s \<Longrightarrow> ok v \<Longrightarrow> bytes_written s + length (enc v) \<le> max_size s \<Longrightarrow>
        put s v = (True, advance_out (enc v) s)"
    and put_full: "\<And>s v. out_stream s \<Longrightarrow> ok v \<Longrightarrow> max_size s < bytes_written s + length (enc v) \<Longrightarrow>
        \<not> fst (put s v)"
    and get_enc: "\<And>s v rest. buf_stream s \<Longrightarrow> ok v \<Longrightarrow> is_buf s = enc v @ rest \<Longrightarrow>
        length (enc v) \<le> bytes_left s \<Longrightarrow> get s = (Some v, advance_in (length (enc v)) s)"
begin

lemma put_ok_iff:
  assumes "out_stream s" "ok v"
  shows "fst (put s v) \<longleftrightarrow> bytes_written s + length (enc v) \<le> max_size s"
  using put_buf [OF assms] put_full [OF assms] by (cases "bytes_written s + length (enc v) \<le> max_size s") auto

lemma get_from_buffer:
  assumes "ok v" "k \<le> length rest"
  shows "get (pb_istream_from_buffer (enc v @ rest) (length (enc v) + k) w) =
    (Some v, pb_istream_from_buffer rest k w)"
  using get_enc [of "pb_istream_from_buffer (enc v @ rest) (length (enc v) + k) w" v rest] assms
  by (simp add: pb_istream_from_buffer_def advance_in_def buf_stream_def)

lemma roundtrip:
  assumes "put (pb_ostream_from_buffer n u) v = (True, s')" "n < SIZE_MOD" "ok v" "k \<le> length rest"
  shows "get (pb_istream_from_buffer (obuf s' @ rest) (bytes_written s' + k) w) =
    (Some v, pb_istream_from_buffer rest k w)"
proof -
  have o: "out_stream (pb_ostream_from_buffer n u)"
    using assms(2) by (simp add: out_stream_def pb_ostream_from_buffer_def)
  have "s' = advance_out (enc v) (pb_ostream_from_buffer n u)"
    using put_ok_iff [OF o assms(3)] put_buf [OF o assms(3)] assms(1) by simp
  then have "obuf s' = enc v" "bytes_written s' = length (enc v)"
    by (simp_all add: pb_ostream_from_buffer_def)
  then show ?thesis using get_from_buffer [OF assms(3,4)] by simp
qed

end

lemma pb_write_whole:
  assumes "out_stream s" "length bs < SIZE_MOD"
  shows "pb_write s bs (length bs) =
    (if bytes_written s + length bs \<le> max_size s then (True, advance_out bs s)
     else o_error s ''stream full'')"
  using pb_write_buf [OF assms(1) order_refl assms(2)] by simp

lemma length_varint_bytes_size [simp]: "length (varint_bytes v) < SIZE_MOD"
  by (rule le_less_trans [OF length_varint_bytes]) simp

lemma pb_encode_varint_buf:
  assumes "out_stream s"
  shows "pb_encode_varint s v =
    (if bytes_written s + length (varint_bytes v) \<le> max_size s
     then (True, advance_out (varint_bytes v) s) else o_error s ''stream full'')"
  unfolding pb_encode_varint_def by (rule pb_write_whole [OF assms length_varint_bytes_size])

lemma fst_o_error [simp]: "fst (o_error s m) = False"
  by (simp add: o_error_def)

interpretation varint: wire_codec varint_bytes "\<lambda>_. True" pb_encode_varint pb_decode_varint
  by unfold_locales
    (auto simp: pb_encode_varint_buf intro!: pb_decode_varint_bytes starts_varintI)

interpretation svarint: wire_codec "\<lambda>v. varint_bytes (zigzag v)" "\<lambda>_. True"
  pb_encode_svarint pb_decode_svarint
  by unfold_locales
    (auto simp: pb_encode_svarint_def pb_encode_varint_buf
      intro!: pb_decode_svarint_bytes starts_varintI)

interpretation varint32: wire_codec "\<lambda>v :: u32. varint_bytes (ucast v)" "\<lambda>_. True"
  "\<lambda>s v. pb_encode_varint s (ucast v)" pb_decode_varint32
proof unfold_locales
  fix s :: "'b pb_istream" and v :: u32 and rest
  assume h: "buf_stream s" "is_buf s = varint_bytes (ucast v) @ rest"
    "length (varint_bytes (ucast v)) \<le> bytes_left s"
  have v: "unat v < 2 ^ 32" using unsigned_less [of v, where ?'a = nat] by simp
  then have "unat (ucast v :: u64) = unat v"
    by (simp add: unsigned_ucast_eq take_bit_nat_eq_self)
  then have "unat (ucast v :: u64) < 2 ^ 32" using v by simp
  moreover have "ucast (ucast v :: u64) = v" by (rule bit_word_eqI) (auto simp: bit_simps)
  ultimately show "pb_decode_varint32 s =
      (Some v, advance_in (length (varint_bytes (ucast v))) s)"
    using pb_decode_varint32_bytes [OF starts_varintI [OF h]] by simp
qed (auto simp: pb_encode_varint_buf)

lemma pb_encode_fixed32_buf:
  assumes "out_stream s"
  shows "pb_encode_fixed32 s v =
    (if bytes_written s + length (fixed32_bytes v) \<le> max_size s
     then (True, advance_out (fixed32_bytes v) s) else o_error s ''stream full'')"
  using pb_write_buf [OF assms, of 4 "fixed32_bytes v"]
  by (simp add: pb_encode_fixed32_def fixed32_bytes_def)

lemma pb_encode_fixed64_buf:
  assumes "out_stream s"
  shows "pb_encode_fixed64 s v =
    (if bytes_written s + length (fixed64_bytes v) \<le> max_size s
     then (True, advance_out (fixed64_bytes v) s) else o_error s ''stream full'')"
  using pb_write_buf [OF assms, of 8 "fixed64_bytes v"]
  by (simp add: pb_encode_fixed64_def fixed64_bytes_def)

interpretation fixed32: wire_codec fixed32_bytes "\<lambda>_. True" pb_encode_fixed32 pb_decode_fixed32
  by unfold_locales (simp_all add: pb_encode_fixed32_buf pb_decode_fixed32_bytes)

interpretation fixed64: wire_codec fixed64_bytes "\<lambda>_. True" pb_encode_fixed64 pb_decode_fixed64
  by unfold_locales (simp_all add: pb_encode_fixed64_buf pb_decode_fixed64_bytes)

interpretation tag: wire_codec "\<lambda>(wt, n). varint_bytes (tag_value wt n)"
  "\<lambda>(wt, n). wt \<le> 7 \<and> unat n < 2 ^ 29 \<and> (wt \<noteq> 0 \<or> n \<noteq> 0)"
  "\<lambda>s (wt, n). pb_encode_tag s wt n"
  "\<lambda>s. case pb_decode_tag s of (r, s', _) \<Rightarrow> (r, s')"
proof unfold_locales
  fix s :: "'b pb_istream" and v :: "pb_wire_type \<times> u32" and rest
  assume h: "buf_stream s" "case v of (wt, n) \<Rightarrow> wt \<le> 7 \<and> unat n < 2 ^ 29 \<and> (wt \<noteq> 0 \<or> n \<noteq> 0)"
    "is_buf s = (case v of (wt, n) \<Rightarrow> varint_bytes (tag_value wt n)) @ rest"
    "length (case v of (wt, n) \<Rightarrow> varint_bytes (tag_value wt n)) \<le> bytes_left s"
  then have "pb_decode_tag s = (Some v, advance_in (length (varint_bytes (tag_value (fst v) (snd v)))) s, False)"
    using pb_decode_tag_bytes [of s "fst v" "snd v"]
    by (auto simp: split_beta intro: starts_varintI)
  then show "(case pb_decode_tag s of (r, s', _) \<Rightarrow> (r, s')) =
      (Some v, advance_in (length (case v of (wt, n) \<Rightarrow> varint_bytes (tag_value wt n))) s)"
    by (simp add: split_beta)
qed (auto simp: pb_encode_tag_eq pb_encode_varint_buf)

section \<open>Properties\<close>

text \<open>
  C9: Every 64-bit value that \<open>pb_encode_varint\<close> writes to a buffer is read back by
  \<open>pb_decode_varint\<close>, which stops exactly at the byte after it, whatever follows.
\<close>
theorem varint_roundtrip:
  assumes "pb_encode_varint (pb_ostream_from_buffer n u) v = (True, s')"
    and "n < SIZE_MOD" and "k \<le> length rest"
  shows "pb_decode_varint (pb_istream_from_buffer (obuf s' @ rest) (bytes_written s' + k) w) =
    (Some v, pb_istream_from_buffer rest k w)"
  by (rule varint.roundtrip [OF assms(1,2) TrueI assms(3)])

theorem varint_roundtrip_witness:
  "pb_decode_varint (pb_istream_from_buffer ([0xAC, 0x02] @ [0xFF]) (2 + 1) ()) =
     (Some 300, pb_istream_from_buffer [0xFF] 1 ())"
proof -
  have "varint_bytes 300 = [0xAC, 0x02]" by code_simp
  then have "pb_encode_varint (pb_ostream_from_buffer 10 ()) 300 =
      (True, advance_out [0xAC, 0x02] (pb_ostream_from_buffer 10 ()))"
    by (subst pb_encode_varint_buf) (simp_all add: out_stream_def pb_ostream_from_buffer_def)
  from varint_roundtrip [OF this, of 1 "[0xFF]" "()"] show ?thesis
    by (simp add: pb_ostream_from_buffer_def numeral_3_eq_3)
qed

text \<open>
  A varint of more than ten bytes is not limited by \<open>pb_decode_varint32_eof\<close>: its 8-bit
  counter wraps at the 37th byte, so that a byte far beyond the 64-bit range is put into the
  result again. \<open>pb_decode_varint\<close> rejects the same bytes.
\<close>
lemma varint32_counter_wraps:
  "fst (pb_decode_varint32 (pb_istream_from_buffer (replicate 37 0x80 @ [0x01]) 38 ())) = Some 8 \<and>
   fst (pb_decode_varint (pb_istream_from_buffer (replicate 37 0x80 @ [0x01]) 38 ())) = None"
  by code_simp

end
