(* ===== verification/PB_Desc.thy ===== *)
theory PB_Desc
  imports PB_Wire
begin

text \<open>
  Message descriptors (\<open>pb_field_t\<close> of \<open>pb.h\<close>) and the field iterator of \<open>pb_common.c\<close>.

  A descriptor array is a list of \<open>pb_field\<close> entries; the entry after the last one is the
  terminator \<open>PB_LAST_FIELD\<close>, whose tag is 0. A pointer to a descriptor array is an index into
  the table \<open>descs\<close> of all arrays. The \<open>ptr\<close> member of a field is null, a submessage
  descriptor, or the address of a default value. An iterator's \<open>pos\<close> is the index of the
  entry it points to. \<open>pb_size_t\<close> has 32 bits (\<open>PB_FIELD_32BIT\<close>).
\<close>

datatype pb_ptr = PNull | PFields nat | PDefault "u8 list"

record pb_field =
  ftag :: u32
  ftype :: u8
  data_offset :: u32
  size_offset :: u32   \<comment> \<open>\<open>pb_ssize_t\<close>, read with \<open>sint\<close>\<close>
  data_size :: u32
  array_size :: u32
  fptr :: pb_ptr

abbreviation (input) PB_LTYPE_BOOL :: u8 where "PB_LTYPE_BOOL \<equiv> 0x00"
abbreviation (input) PB_LTYPE_VARINT :: u8 where "PB_LTYPE_VARINT \<equiv> 0x01"
abbreviation (input) PB_LTYPE_UVARINT :: u8 where "PB_LTYPE_UVARINT \<equiv> 0x02"
abbreviation (input) PB_LTYPE_SVARINT :: u8 where "PB_LTYPE_SVARINT \<equiv> 0x03"
abbreviation (input) PB_LTYPE_FIXED32 :: u8 where "PB_LTYPE_FIXED32 \<equiv> 0x04"
abbreviation (input) PB_LTYPE_FIXED64 :: u8 where "PB_LTYPE_FIXED64 \<equiv> 0x05"
abbreviation (input) PB_LTYPE_LAST_PACKABLE :: u8 where "PB_LTYPE_LAST_PACKABLE \<equiv> 0x05"
abbreviation (input) PB_LTYPE_BYTES :: u8 where "PB_LTYPE_BYTES \<equiv> 0x06"
abbreviation (input) PB_LTYPE_STRING :: u8 where "PB_LTYPE_STRING \<equiv> 0x07"
abbreviation (input) PB_LTYPE_SUBMESSAGE :: u8 where "PB_LTYPE_SUBMESSAGE \<equiv> 0x08"
abbreviation (input) PB_LTYPE_EXTENSION :: u8 where "PB_LTYPE_EXTENSION \<equiv> 0x09"
abbreviation (input) PB_LTYPE_FIXED_LENGTH_BYTES :: u8 where "PB_LTYPE_FIXED_LENGTH_BYTES \<equiv> 0x0A"

abbreviation (input) PB_HTYPE_REQUIRED :: u8 where "PB_HTYPE_REQUIRED \<equiv> 0x00"
abbreviation (input) PB_HTYPE_OPTIONAL :: u8 where "PB_HTYPE_OPTIONAL \<equiv> 0x10"
abbreviation (input) PB_HTYPE_REPEATED :: u8 where "PB_HTYPE_REPEATED \<equiv> 0x20"
abbreviation (input) PB_HTYPE_ONEOF :: u8 where "PB_HTYPE_ONEOF \<equiv> 0x30"

abbreviation (input) PB_ATYPE_STATIC :: u8 where "PB_ATYPE_STATIC \<equiv> 0x00"
abbreviation (input) PB_ATYPE_POINTER :: u8 where "PB_ATYPE_POINTER \<equiv> 0x80"
abbreviation (input) PB_ATYPE_CALLBACK :: u8 where "PB_ATYPE_CALLBACK \<equiv> 0x40"

definition PB_ATYPE :: "u8 \<Rightarrow> u8" where "PB_ATYPE x = x AND 0xC0"
definition PB_HTYPE :: "u8 \<Rightarrow> u8" where "PB_HTYPE x = x AND 0x30"
definition PB_LTYPE :: "u8 \<Rightarrow> u8" where "PB_LTYPE x = x AND 0x0F"

definition PB_SIZE_MAX :: u32 where "PB_SIZE_MAX = 0xFFFFFFFF"

definition PB_LAST_FIELD :: pb_field where
  "PB_LAST_FIELD =
     \<lparr>ftag = 0, ftype = 0, data_offset = 0, size_offset = 0, data_size = 0, array_size = 0,
      fptr = PNull\<rparr>"

type_synonym descs = "nat \<Rightarrow> pb_field list"

text \<open>\<open>fields[i]\<close>.\<close>

definition field_at :: "descs \<Rightarrow> nat \<Rightarrow> nat \<Rightarrow> pb_field" where
  "field_at D d i = (if i < length (D d) then D d ! i else PB_LAST_FIELD)"

record pb_field_iter =
  it_start :: nat
  it_pos :: nat
  required_field_index :: nat
  dest_struct :: int
  pData :: int
  pSize :: int

abbreviation iter_field :: "descs \<Rightarrow> pb_field_iter \<Rightarrow> pb_field" where
  "iter_field D it \<equiv> field_at D (it_start it) (it_pos it)"

section \<open>The iterator\<close>

definition pb_field_iter_begin :: "descs \<Rightarrow> nat \<Rightarrow> int \<Rightarrow> bool \<times> pb_field_iter" where
  "pb_field_iter_begin D flds dest =
     (let f = field_at D flds 0;
          data = (if dest = 0 then 0 else dest + int (unat (data_offset f)));
          sz = (if dest = 0 then 0 else data + sint (size_offset f)) in
      (ftag f \<noteq> 0,
       \<lparr>it_start = flds, it_pos = 0, required_field_index = 0, dest_struct = dest,
        pData = data, pSize = sz\<rparr>))"

definition pb_field_iter_next :: "descs \<Rightarrow> pb_field_iter \<Rightarrow> bool \<times> pb_field_iter" where
  "pb_field_iter_next D it =
     (let prev_field = iter_field D it in
      if ftag prev_field = 0 then (False, it)
      else
        let it1 = it\<lparr>it_pos := it_pos it + 1\<rparr>; f = iter_field D it1 in
        if ftag f = 0 then (False, snd (pb_field_iter_begin D (it_start it1) (dest_struct it1)))
        else if PB_HTYPE (ftype prev_field) = PB_HTYPE_ONEOF \<and>
                PB_HTYPE (ftype f) = PB_HTYPE_ONEOF \<and> data_offset f = PB_SIZE_MAX
        then (True, it1)
        else
          let prev_size =
                (if PB_ATYPE (ftype prev_field) = PB_ATYPE_STATIC \<and>
                    PB_HTYPE (ftype prev_field) = PB_HTYPE_REPEATED
                 then unat (data_size prev_field) * unat (array_size prev_field)
                 else if PB_ATYPE (ftype prev_field) = PB_ATYPE_POINTER then 8
                 else unat (data_size prev_field));
              it2 = (if PB_HTYPE (ftype prev_field) = PB_HTYPE_REQUIRED
                     then it1\<lparr>required_field_index := required_field_index it1 + 1\<rparr> else it1);
              data = pData it2 + int prev_size + int (unat (data_offset f)) in
          (True, it2\<lparr>pData := data, pSize := data + sint (size_offset f)\<rparr>))"

text \<open>
  The search loop of \<open>pb_field_iter_find\<close> with a bound on its rounds; \<open>None\<close> when the bound is
  reached. One round per entry and one more suffice (\<open>find_loop_complete\<close> below).
\<close>

primrec find_loop ::
  "nat \<Rightarrow> descs \<Rightarrow> (pb_field \<Rightarrow> bool) \<Rightarrow> nat \<Rightarrow> pb_field_iter \<Rightarrow> (bool \<times> pb_field_iter) option" where
  "find_loop 0 D P start it = None"
| "find_loop (Suc n) D P start it =
     (if P (iter_field D it) then Some (True, it)
      else let it' = snd (pb_field_iter_next D it) in
           if it_pos it' = start then Some (False, it') else find_loop n D P start it')"

definition pb_field_iter_find ::
  "descs \<Rightarrow> pb_field_iter \<Rightarrow> u32 \<Rightarrow> (bool \<times> pb_field_iter) option" where
  "pb_field_iter_find D it tag =
     find_loop (Suc (length (D (it_start it)))) D
       (\<lambda>f. ftag f = tag \<and> PB_LTYPE (ftype f) \<noteq> PB_LTYPE_EXTENSION) (it_pos it) it"

text \<open>\<open>find_extension_field\<close> of \<open>pb_decode.c\<close> has the same loop.\<close>

definition find_extension_field :: "descs \<Rightarrow> pb_field_iter \<Rightarrow> (bool \<times> pb_field_iter) option" where
  "find_extension_field D it =
     find_loop (Suc (length (D (it_start it)))) D
       (\<lambda>f. PB_LTYPE (ftype f) = PB_LTYPE_EXTENSION) (it_pos it) it"

section \<open>Positions\<close>

text \<open>A descriptor array is in order when no entry before the terminator has tag 0.\<close>

definition desc_ok :: "descs \<Rightarrow> nat \<Rightarrow> bool" where
  "desc_ok D d \<longleftrightarrow> list_all (\<lambda>f. ftag f \<noteq> 0) (D d)"

text \<open>The iterator after \<open>k\<close> steps from the beginning of the array \<open>d\<close>.\<close>

primrec iter_at :: "descs \<Rightarrow> nat \<Rightarrow> int \<Rightarrow> nat \<Rightarrow> pb_field_iter" where
  "iter_at D d base 0 = snd (pb_field_iter_begin D d base)"
| "iter_at D d base (Suc k) = snd (pb_field_iter_next D (iter_at D d base k))"

text \<open>What a field occupies in the message structure.\<close>

definition field_span :: "pb_field \<Rightarrow> int" where
  "field_span f =
     (if PB_ATYPE (ftype f) = PB_ATYPE_STATIC \<and> PB_HTYPE (ftype f) = PB_HTYPE_REPEATED
      then int (unat (data_size f)) * int (unat (array_size f))
      else if PB_ATYPE (ftype f) = PB_ATYPE_POINTER then 8 else int (unat (data_size f)))"

definition in_union :: "pb_field \<Rightarrow> pb_field \<Rightarrow> bool" where
  "in_union prev f \<longleftrightarrow> PB_HTYPE (ftype prev) = PB_HTYPE_ONEOF \<and> PB_HTYPE (ftype f) = PB_HTYPE_ONEOF \<and>
     data_offset f = PB_SIZE_MAX"

text \<open>The offset of field \<open>k\<close> in the structure, from the relative offsets of the descriptors.\<close>

primrec field_offset :: "descs \<Rightarrow> nat \<Rightarrow> nat \<Rightarrow> int" where
  "field_offset D d 0 = int (unat (data_offset (field_at D d 0)))"
| "field_offset D d (Suc k) =
     (if in_union (field_at D d k) (field_at D d (Suc k)) then field_offset D d k
      else field_offset D d k + field_span (field_at D d k) +
           int (unat (data_offset (field_at D d (Suc k)))))"

lemma field_at_tag:
  "desc_ok D d \<Longrightarrow> ftag (field_at D d i) = 0 \<longleftrightarrow> length (D d) \<le> i"
  by (auto simp: desc_ok_def field_at_def PB_LAST_FIELD_def list_all_length not_less)

lemma iter_next_end:
  assumes "desc_ok D d" "it_start it = d" "length (D d) \<le> Suc (it_pos it)" "it_pos it < length (D d)"
  shows "pb_field_iter_next D it = (False, iter_at D d (dest_struct it) 0)"
  using assms field_at_tag [OF assms(1)]
  by (simp add: pb_field_iter_next_def Let_def)

lemma iter_next_more:
  assumes "desc_ok D d" "it_start it = d" "Suc (it_pos it) < length (D d)"
  shows "fst (pb_field_iter_next D it)"
    and "it_pos (snd (pb_field_iter_next D it)) = Suc (it_pos it)"
    and "it_start (snd (pb_field_iter_next D it)) = d"
    and "dest_struct (snd (pb_field_iter_next D it)) = dest_struct it"
  using assms field_at_tag [OF assms(1)]
  by (auto simp: pb_field_iter_next_def Let_def)

lemma iter_at_simps:
  assumes "desc_ok D d" "k < length (D d)"
  shows "it_pos (iter_at D d base k) = k"
    and "it_start (iter_at D d base k) = d"
    and "dest_struct (iter_at D d base k) = base"
  using assms(2)
proof (induction k)
  case (Suc k)
  {
    case 1
    then show ?case using iter_next_more [OF assms(1)] Suc by simp
  next
    case 2
    then show ?case using iter_next_more [OF assms(1)] Suc by simp
  next
    case 3
    then show ?case using iter_next_more [OF assms(1)] Suc by simp
  }
qed (auto simp: pb_field_iter_begin_def Let_def)

text \<open>Stepping from position \<open>k\<close>: to \<open>k + 1\<close>, or around to 0 at the end.\<close>

lemma iter_at_next:
  assumes "desc_ok D d" "k < length (D d)"
  shows "pb_field_iter_next D (iter_at D d base k) =
    (if Suc k < length (D d) then (True, iter_at D d base (Suc k))
     else (False, iter_at D d base 0))"
  using iter_at_simps [OF assms] iter_next_more(1) [OF assms(1)] iter_next_end [OF assms(1)] assms(2)
  by (auto simp: prod_eq_iff not_less)

lemma iter_at_begin:
  assumes "desc_ok D d"
  shows "pb_field_iter_begin D d base = (D d \<noteq> [], iter_at D d base 0)"
  using field_at_tag [OF assms, of 0]
  by (simp add: pb_field_iter_begin_def Let_def)

lemma iter_at_field:
  "desc_ok D d \<Longrightarrow> k < length (D d) \<Longrightarrow> iter_field D (iter_at D d base k) = D d ! k"
  by (simp add: iter_at_simps field_at_def)

lemma iter_at_pData:
  assumes "desc_ok D d" "k < length (D d)" "base \<noteq> 0"
  shows "pData (iter_at D d base k) = base + field_offset D d k"
  using assms(2)
proof (induction k)
  case 0
  then show ?case using assms(3) by (simp add: pb_field_iter_begin_def Let_def)
next
  case (Suc k)
  then have k: "k < length (D d)" "k + 1 < length (D d)" by simp_all
  show ?case
    using Suc.IH [OF k(1)] iter_at_simps [OF assms(1) k(1), of base] field_at_tag [OF assms(1)] k
    by (auto simp: pb_field_iter_next_def Let_def in_union_def field_span_def)
qed

lemma iter_at_required:
  assumes "desc_ok D d" "k < length (D d)"
  shows "required_field_index (iter_at D d base k) =
    length (filter (\<lambda>f. PB_HTYPE (ftype f) = PB_HTYPE_REQUIRED) (take k (D d)))"
  using assms(2)
proof (induction k)
  case (Suc k)
  then have k: "k < length (D d)" "k + 1 < length (D d)" by simp_all
  have "field_at D d k = D d ! k" "ftag (D d ! k) \<noteq> 0"
    using k assms(1) by (simp_all add: field_at_def desc_ok_def list_all_length)
  then show ?case
    using Suc.IH [OF k(1)] iter_at_simps [OF assms(1) k(1), of base] field_at_tag [OF assms(1)] k
    by (auto simp: pb_field_iter_next_def Let_def take_Suc_conv_app_nth)
qed (simp add: pb_field_iter_begin_def Let_def)

section \<open>Searching\<close>

text \<open>
  The loop visits every entry once, starting at the current one and wrapping around at the
  end: it finds a match if there is one, and comes back to where it started if not.
\<close>

lemma find_loop_scan:
  assumes d: "desc_ok D d" and k: "k < length (D d)"
    and "m < length (D d)" "n + m = Suc (length (D d))"
    and "\<forall>i < m. \<not> P (D d ! ((k + i) mod length (D d)))"
  shows "(\<exists>j < length (D d). P (D d ! j) \<and>
        find_loop n D P k (iter_at D d base ((k + m) mod length (D d))) = Some (True, iter_at D d base j)) \<or>
      (\<forall>j < length (D d). \<not> P (D d ! j)) \<and>
        find_loop n D P k (iter_at D d base ((k + m) mod length (D d))) = Some (False, iter_at D d base k)"
  using assms(3-5)
proof (induction n arbitrary: m)
  case (Suc n)
  let ?L = "length (D d)"
  let ?p = "(k + m) mod ?L"
  have L0: "0 < ?L" using k by linarith
  then have L: "0 < ?L" "?p < ?L" by (simp_all add: mod_less_divisor del: length_greater_0_conv)
  show ?case
  proof (cases "P (D d ! ?p)")
    case True
    then show ?thesis using iter_at_field [OF d L(2)] L(2) by auto
  next
    case False
    have nx: "snd (pb_field_iter_next D (iter_at D d base ?p)) = iter_at D d base ((k + Suc m) mod ?L)"
      using iter_at_next [OF d L(2)] L by (auto simp: mod_Suc)
    have unseen: "\<forall>i < Suc m. \<not> P (D d ! ((k + i) mod ?L))"
      using Suc.prems(3) False by (auto simp: less_Suc_eq)
    have pos: "it_pos (iter_at D d base ((k + Suc m) mod ?L)) = (k + Suc m) mod ?L"
      using iter_at_simps(1) [OF d] L by simp
    show ?thesis
    proof (cases "Suc m < ?L")
      case True
      have "(k + Suc m) mod ?L \<noteq> k"
      proof
        assume "(k + Suc m) mod ?L = k"
        then have "(k + Suc m) mod ?L = k mod ?L" using k by simp
        then have "?L dvd (k + Suc m) - k" by (metis mod_eq_dvd_iff_nat le_add1)
        then have "?L dvd Suc m" by simp
        then show False using True by (auto dest: dvd_imp_le)
      qed
      then show ?thesis
        using Suc.IH [OF True _ unseen] Suc.prems(2) False nx pos iter_at_field [OF d L(2), of base]
        by simp
    next
      case F: False
      then have m: "Suc m = ?L" using Suc.prems(1) by simp
      then have around: "(k + Suc m) mod ?L = k" using k by simp
      have "\<not> P (D d ! j)" if "j < ?L" for j
      proof -
        obtain i where "i < ?L" "(k + i) mod ?L = j"
        proof (cases "k \<le> j")
          case True
          then show ?thesis using that \<open>j < ?L\<close> by (metis le_add_diff_inverse less_imp_diff_less mod_less)
        next
          case F: False
          have "(k + (?L - k + j)) mod ?L = j" using k \<open>j < ?L\<close> by simp
          then show ?thesis using that [of "?L - k + j"] F k by simp
        qed
        then show ?thesis using unseen m by auto
      qed
      then show ?thesis using False nx pos around iter_at_field [OF d L(2), of base] by simp
    qed
  qed
qed simp

lemma find_loop_complete:
  assumes "desc_ok D d" "k < length (D d)"
  shows "(\<exists>j < length (D d). P (D d ! j) \<and>
        find_loop (Suc (length (D d))) D P k (iter_at D d base k) = Some (True, iter_at D d base j)) \<or>
      (\<forall>j < length (D d). \<not> P (D d ! j)) \<and>
        find_loop (Suc (length (D d))) D P k (iter_at D d base k) = Some (False, iter_at D d base k)"
proof -
  have "0 < length (D d)" using assms(2) by linarith
  then show ?thesis
    using find_loop_scan [OF assms, of 0 "Suc (length (D d))" P base] assms(2) by simp
qed

definition matches_tag :: "u32 \<Rightarrow> pb_field \<Rightarrow> bool" where
  "matches_tag tag f \<longleftrightarrow> ftag f = tag \<and> PB_LTYPE (ftype f) \<noteq> PB_LTYPE_EXTENSION"

lemma pb_field_iter_find_cases:
  assumes "desc_ok D d" "k < length (D d)"
  obtains (hit) j where "j < length (D d)" "matches_tag tag (D d ! j)"
      "pb_field_iter_find D (iter_at D d base k) tag = Some (True, iter_at D d base j)"
  | (miss) "\<forall>j < length (D d). \<not> matches_tag tag (D d ! j)"
      "pb_field_iter_find D (iter_at D d base k) tag = Some (False, iter_at D d base k)"
  using find_loop_complete [OF assms, of "matches_tag tag" base] iter_at_simps [OF assms]
  by (auto simp: pb_field_iter_find_def matches_tag_def [abs_def])

lemma find_extension_field_cases:
  assumes "desc_ok D d" "k < length (D d)"
  obtains (hit) j where "j < length (D d)" "PB_LTYPE (ftype (D d ! j)) = PB_LTYPE_EXTENSION"
      "find_extension_field D (iter_at D d base k) = Some (True, iter_at D d base j)"
  | (miss) "\<forall>j < length (D d). PB_LTYPE (ftype (D d ! j)) \<noteq> PB_LTYPE_EXTENSION"
      "find_extension_field D (iter_at D d base k) = Some (False, iter_at D d base k)"
  using find_loop_complete [OF assms, of "\<lambda>f. PB_LTYPE (ftype f) = PB_LTYPE_EXTENSION" base]
    iter_at_simps [OF assms]
  by (auto simp: find_extension_field_def)

section \<open>Walking over all fields\<close>

text \<open>
  \<open>do { if (!body(iter)) return false; } while (pb_field_iter_next(iter)); return true;\<close>
  as the encoder, the initialisation and the release code write it, with the state that the
  body updates threaded through.
\<close>

lemma iter_next_progress:
  assumes "pb_field_iter_next D it = (True, it')"
  shows "it_start it' = it_start it" "it_pos it' = Suc (it_pos it)"
    "Suc (it_pos it) < length (D (it_start it))"
  using assms
  by (auto simp: pb_field_iter_next_def Let_def field_at_def PB_LAST_FIELD_def split: if_splits)

lemma iter_next_measure:
  "pb_field_iter_next D it = (True, it') \<Longrightarrow>
     length (D (it_start it')) - it_pos it' < length (D (it_start it)) - it_pos it"
  using iter_next_progress [of D it it'] by auto

function iter_loop ::
  "descs \<Rightarrow> (pb_field_iter \<Rightarrow> 'st \<Rightarrow> (bool \<times> 'st) option) \<Rightarrow> pb_field_iter \<Rightarrow> 'st \<Rightarrow> (bool \<times> 'st) option" where
  "iter_loop D body it st =
     and_then_opt (body it st)
       (\<lambda>st'. case pb_field_iter_next D it of
          (True, it') \<Rightarrow> iter_loop D body it' st'
        | (False, _) \<Rightarrow> Some (True, st'))"
  by pat_completeness auto
termination
  by (relation "measure (\<lambda>(D, _, it, _). length (D (it_start it)) - it_pos it)")
    (auto dest!: iter_next_measure [OF sym])

declare iter_loop.simps [simp del]

text \<open>On a proper descriptor the walk is the sequence of the bodies of all entries.\<close>

primrec seq_loop :: "('a \<Rightarrow> 'st \<Rightarrow> (bool \<times> 'st) option) \<Rightarrow> 'a list \<Rightarrow> 'st \<Rightarrow> (bool \<times> 'st) option" where
  "seq_loop body [] st = Some (True, st)"
| "seq_loop body (x # xs) st = and_then_opt (body x st) (seq_loop body xs)"

lemma and_then_opt_cong:
  "r = r' \<Longrightarrow> (\<And>s. r' = Some (True, s) \<Longrightarrow> g s = g' s) \<Longrightarrow> and_then_opt r g = and_then_opt r' g'"
  by (auto simp: and_then_opt_def split: option.splits prod.splits)

lemma iter_loop_seq:
  assumes "desc_ok D d" "k < length (D d)"
  shows "iter_loop D body (iter_at D d base k) st =
    seq_loop (\<lambda>i. body (iter_at D d base i)) [k..<length (D d)] st"
  using assms(2)
proof (induction "length (D d) - k" arbitrary: k st)
  case (Suc n)
  have upt: "[k..<length (D d)] = k # [Suc k..<length (D d)]"
    using Suc.prems by (rule upt_conv_Cons)
  show ?case
  proof (cases "Suc k < length (D d)")
    case True
    then have "n = length (D d) - Suc k" using Suc.hyps(2) by simp
    then show ?thesis
      using True Suc.hyps(1) [OF _ True] iter_at_next [OF assms(1) Suc.prems, of base]
      by (subst iter_loop.simps) (simp add: upt del: iter_at.simps)
  next
    case False
    then show ?thesis
      using iter_at_next [OF assms(1) Suc.prems, of base]
      by (subst iter_loop.simps) (auto simp: upt simp del: iter_at.simps intro!: and_then_opt_cong)
  qed
qed simp

lemma seq_loop_total: "(\<And>x st. x \<in> set xs \<Longrightarrow> body x st \<noteq> None) \<Longrightarrow> seq_loop body xs st \<noteq> None"
proof (induction xs arbitrary: st)
  case (Cons x xs)
  then have "seq_loop body xs t \<noteq> None" for t by simp
  then show ?case using Cons.prems [of x st] by (auto simp: and_then_opt_None)
qed simp

lemma iter_loop_total:
  assumes "desc_ok D d" "D d \<noteq> []"
    and "\<And>k st. k < length (D d) \<Longrightarrow> body (iter_at D d base k) st \<noteq> None"
  shows "iter_loop D body (iter_at D d base 0) st \<noteq> None"
proof -
  have l: "0 < length (D d)" using assms(2) by simp
  show ?thesis unfolding iter_loop_seq [OF assms(1) l] by (rule seq_loop_total) (simp add: assms(3))
qed

text \<open>The repetition rule is one of four.\<close>

lemma htype_cases: "PB_HTYPE t = 0 \<or> PB_HTYPE t = 0x10 \<or> PB_HTYPE t = 0x20 \<or> PB_HTYPE t = 0x30"
proof -
  define x :: u8 where "x = take_bit 2 (drop_bit 4 t)"
  have m: "mask 2 = (3 :: u8)" by (simp add: mask_eq_exp_minus_1)
  have "push_bit 4 (mask 2) = (0x30 :: u8)" unfolding m by simp
  then have e: "PB_HTYPE t = push_bit 4 x"
    unfolding PB_HTYPE_def x_def
    by (simp add: bit_eq_iff bit_simps flip: \<open>push_bit 4 (mask 2) = (0x30 :: u8)\<close>) auto
  have "unat x < 2 ^ 2" unfolding x_def by (simp only: unsigned_take_bit_eq take_bit_nat_less_exp)
  then have "unat x = 0 \<or> unat x = 1 \<or> unat x = 2 \<or> unat x = 3" by auto
  then have "(of_nat (unat x) :: u8) \<in> {0, 1, 2, 3}" by (elim disjE; simp only:; simp)
  then have "x = 0 \<or> x = 1 \<or> x = 2 \<or> x = 3" by simp
  then show ?thesis using e by auto
qed

end
