(* ===== verification/PB_Encode.thy ===== *)
theory PB_Encode
  imports PB_Desc
begin

text \<open>
  The message encoder of \<open>pb_encode.c\<close>: field encoders, arrays, optional and oneof fields,
  extensions, submessages, and the entry points \<open>pb_encode\<close>, \<open>pb_encode_delimited\<close>,
  \<open>pb_encode_nullterminated\<close> and \<open>pb_get_encoded_size\<close>.

  The message structure is read from the memory \<open>e_mem\<close>, which the encoder never writes. A
  user's encode callback is found by its function pointer (\<open>e_callback\<close>) and is called with
  the stream, the field and the address of its argument; an extension type is found by its
  address (\<open>e_ext_type\<close>). The recursion through submessages and the walk along an extension
  list are bounded by a fuel argument; the result \<open>None\<close> means that the call does not come
  back within that bound, or that it calls a null encoder or follows a \<open>ptr\<close> member that is
  not a descriptor. \<open>None\<close> is thus never a successful encoding.
\<close>

record 's pb_extension_enc =
  xt_encode :: "('s pb_ostream \<Rightarrow> int \<Rightarrow> bool \<times> 's pb_ostream) option"
  xt_arg :: nat

record 's enc_env =
  e_descs :: descs
  e_mem :: memory
  e_null :: 's   \<comment> \<open>the \<open>NULL\<close> state of a sizing stream\<close>
  e_callback :: "int \<Rightarrow> 's pb_ostream \<Rightarrow> pb_field \<Rightarrow> int \<Rightarrow> bool \<times> 's pb_ostream"
  e_ext_type :: "int \<Rightarrow> 's pb_extension_enc"

type_synonym 's enc_op = "'s pb_ostream \<Rightarrow> (bool \<times> 's pb_ostream) option"

section \<open>Field encoders\<close>

definition safe_read_bool :: "memory \<Rightarrow> int \<Rightarrow> bool" where
  "safe_read_bool m p \<longleftrightarrow> m p \<noteq> 0"

definition pb_encode_tag_for_field :: "pb_field \<Rightarrow> 's pb_ostream \<Rightarrow> bool \<times> 's pb_ostream" where
  "pb_encode_tag_for_field field s =
     (let lt = PB_LTYPE (ftype field) in
      if lt = PB_LTYPE_BOOL \<or> lt = PB_LTYPE_VARINT \<or> lt = PB_LTYPE_UVARINT \<or> lt = PB_LTYPE_SVARINT
      then pb_encode_tag s PB_WT_VARINT (ftag field)
      else if lt = PB_LTYPE_FIXED32 then pb_encode_tag s PB_WT_32BIT (ftag field)
      else if lt = PB_LTYPE_FIXED64 then pb_encode_tag s PB_WT_64BIT (ftag field)
      else if lt = PB_LTYPE_BYTES \<or> lt = PB_LTYPE_STRING \<or> lt = PB_LTYPE_SUBMESSAGE \<or>
              lt = PB_LTYPE_FIXED_LENGTH_BYTES
      then pb_encode_tag s PB_WT_STRING (ftag field)
      else o_error s ''invalid field type'')"

definition pb_enc_bool :: "memory \<Rightarrow> pb_field \<Rightarrow> int \<Rightarrow> 's pb_ostream \<Rightarrow> bool \<times> 's pb_ostream" where
  "pb_enc_bool m field src s = pb_encode_varint s (if safe_read_bool m src then 1 else 0)"

text \<open>The signed and unsigned integer loads selected by \<open>data_size\<close>, converted to 64 bits.\<close>

definition load_signed :: "memory \<Rightarrow> u32 \<Rightarrow> int \<Rightarrow> u64 option" where
  "load_signed m sz src =
     (if sz = 1 then Some (scast (m src))
      else if sz = 2 then Some (scast (load_u16 m src))
      else if sz = 4 then Some (scast (load_u32 m src))
      else if sz = 8 then Some (load_u64 m src)
      else None)"

definition load_unsigned :: "memory \<Rightarrow> u32 \<Rightarrow> int \<Rightarrow> u64 option" where
  "load_unsigned m sz src =
     (if sz = 1 then Some (ucast (m src))
      else if sz = 2 then Some (ucast (load_u16 m src))
      else if sz = 4 then Some (ucast (load_u32 m src))
      else if sz = 8 then Some (load_u64 m src)
      else None)"

definition pb_enc_varint :: "memory \<Rightarrow> pb_field \<Rightarrow> int \<Rightarrow> 's pb_ostream \<Rightarrow> bool \<times> 's pb_ostream" where
  "pb_enc_varint m field src s =
     (case load_signed m (data_size field) src of
        None \<Rightarrow> o_error s ''invalid data_size''
      | Some value \<Rightarrow> pb_encode_varint s value)"

definition pb_enc_uvarint :: "memory \<Rightarrow> pb_field \<Rightarrow> int \<Rightarrow> 's pb_ostream \<Rightarrow> bool \<times> 's pb_ostream" where
  "pb_enc_uvarint m field src s =
     (case load_unsigned m (data_size field) src of
        None \<Rightarrow> o_error s ''invalid data_size''
      | Some value \<Rightarrow> pb_encode_varint s value)"

definition pb_enc_svarint :: "memory \<Rightarrow> pb_field \<Rightarrow> int \<Rightarrow> 's pb_ostream \<Rightarrow> bool \<times> 's pb_ostream" where
  "pb_enc_svarint m field src s =
     (case load_signed m (data_size field) src of
        None \<Rightarrow> o_error s ''invalid data_size''
      | Some value \<Rightarrow> pb_encode_svarint s value)"

definition pb_enc_fixed32 :: "memory \<Rightarrow> pb_field \<Rightarrow> int \<Rightarrow> 's pb_ostream \<Rightarrow> bool \<times> 's pb_ostream" where
  "pb_enc_fixed32 m field src s = pb_encode_fixed32 s (load_u32 m src)"

definition pb_enc_fixed64 :: "memory \<Rightarrow> pb_field \<Rightarrow> int \<Rightarrow> 's pb_ostream \<Rightarrow> bool \<times> 's pb_ostream" where
  "pb_enc_fixed64 m field src s = pb_encode_fixed64 s (load_u64 m src)"

text \<open>\<open>pb_bytes_array_t\<close>: a 32-bit size, then the bytes (at offset 4).\<close>

definition pb_enc_bytes :: "memory \<Rightarrow> pb_field \<Rightarrow> int \<Rightarrow> 's pb_ostream \<Rightarrow> bool \<times> 's pb_ostream" where
  "pb_enc_bytes m field src s =
     (if src = 0 then pb_encode_string s [] 0
      else if PB_ATYPE (ftype field) = PB_ATYPE_STATIC \<and>
              size_sub (unat (data_size field)) 4 < unat (load_u32 m src)
      then o_error s ''bytes size exceeded''
      else let n = unat (load_u32 m src) in pb_encode_string s (mem_read m (src + 4) n) n)"

text \<open>The length loop of \<open>pb_enc_string\<close>.\<close>

function string_size :: "memory \<Rightarrow> int \<Rightarrow> nat \<Rightarrow> nat \<Rightarrow> nat" where
  "string_size m src max_sz sz =
     (if sz < max_sz \<and> m (src + int sz) \<noteq> 0 then string_size m src max_sz (sz + 1) else sz)"
  by pat_completeness auto
termination by (relation "measure (\<lambda>(_, _, max_sz, sz). max_sz - sz)") auto

declare string_size.simps [simp del]

definition pb_enc_string :: "memory \<Rightarrow> pb_field \<Rightarrow> int \<Rightarrow> 's pb_ostream \<Rightarrow> bool \<times> 's pb_ostream" where
  "pb_enc_string m field src s =
     (let max_sz = (if PB_ATYPE (ftype field) = PB_ATYPE_POINTER then SIZE_MOD - 1
                    else unat (data_size field));
          sz = (if src = 0 then 0 else string_size m src max_sz 0) in
      pb_encode_string s (mem_read m src sz) sz)"

definition pb_enc_fixed_length_bytes ::
  "memory \<Rightarrow> pb_field \<Rightarrow> int \<Rightarrow> 's pb_ostream \<Rightarrow> bool \<times> 's pb_ostream" where
  "pb_enc_fixed_length_bytes m field src s =
     (let n = unat (data_size field) in pb_encode_string s (mem_read m src n) n)"

text \<open>
  \<open>pb_encode_submessage\<close>; \<open>enc\<close> is \<open>pb_encode\<close> on the submessage. It runs twice: on a sizing
  stream, and on a stream limited to the size found.
\<close>

definition pb_encode_submessage :: "'s \<Rightarrow> 's enc_op \<Rightarrow> 's enc_op" where
  "pb_encode_submessage null enc s =
     (case enc (PB_OSTREAM_SIZING null) of
        None \<Rightarrow> None
      | Some (False, sub) \<Rightarrow> Some (False, s\<lparr>oerrmsg := oerrmsg sub\<rparr>)
      | Some (True, sub) \<Rightarrow>
          (let sz = bytes_written sub in
           and_then_opt (Some (pb_encode_varint s (word_of_nat sz)))
             (\<lambda>s. if is_sizing s then Some (pb_write s [] sz)
                  else if max_size s < size_add (bytes_written s) sz
                  then Some (o_error s ''stream full'')
                  else
                    (case enc (s\<lparr>max_size := sz, bytes_written := 0, oerrmsg := None\<rparr>) of
                       None \<Rightarrow> None
                     | Some (status, sub) \<Rightarrow>
                         let s' = s\<lparr>bytes_written := size_add (bytes_written s) (bytes_written sub),
                                    obuf := obuf sub, ouser := ouser sub, oerrmsg := oerrmsg sub\<rparr> in
                         if bytes_written sub \<noteq> sz
                         then Some (o_error s' ''submsg size changed'')
                         else Some (status, s')))))"

definition pb_enc_submessage ::
  "'s \<Rightarrow> (nat \<Rightarrow> int \<Rightarrow> 's enc_op) \<Rightarrow> pb_field \<Rightarrow> int \<Rightarrow> 's enc_op" where
  "pb_enc_submessage null enc field src s =
     (case fptr field of
        PNull \<Rightarrow> Some (o_error s ''invalid field descriptor'')
      | PFields d \<Rightarrow> pb_encode_submessage null (enc d src) s
      | PDefault _ \<Rightarrow> None)"

text \<open>The table \<open>PB_ENCODERS\<close>, indexed by \<open>PB_LTYPE\<close>; entry 9 is null and 11 to 15 do not exist.\<close>

definition PB_ENCODERS ::
  "'s enc_env \<Rightarrow> (nat \<Rightarrow> int \<Rightarrow> 's enc_op) \<Rightarrow> u8 \<Rightarrow> pb_field \<Rightarrow> int \<Rightarrow> 's enc_op" where
  "PB_ENCODERS E enc lt field src s =
     (let m = e_mem E in
      if lt = PB_LTYPE_BOOL then Some (pb_enc_bool m field src s)
      else if lt = PB_LTYPE_VARINT then Some (pb_enc_varint m field src s)
      else if lt = PB_LTYPE_UVARINT then Some (pb_enc_uvarint m field src s)
      else if lt = PB_LTYPE_SVARINT then Some (pb_enc_svarint m field src s)
      else if lt = PB_LTYPE_FIXED32 then Some (pb_enc_fixed32 m field src s)
      else if lt = PB_LTYPE_FIXED64 then Some (pb_enc_fixed64 m field src s)
      else if lt = PB_LTYPE_BYTES then Some (pb_enc_bytes m field src s)
      else if lt = PB_LTYPE_STRING then Some (pb_enc_string m field src s)
      else if lt = PB_LTYPE_SUBMESSAGE then pb_enc_submessage (e_null E) enc field src s
      else if lt = PB_LTYPE_FIXED_LENGTH_BYTES then Some (pb_enc_fixed_length_bytes m field src s)
      else None)"

section \<open>Arrays\<close>

text \<open>The loops over the entries of an array: the packed one, and the one with a tag per entry.\<close>

primrec encode_items ::
  "(pb_field \<Rightarrow> int \<Rightarrow> 's enc_op) \<Rightarrow> pb_field \<Rightarrow> nat \<Rightarrow> int \<Rightarrow> 's enc_op" where
  "encode_items func field 0 p s = Some (True, s)"
| "encode_items func field (Suc n) p s =
     and_then_opt (func field p s)
       (encode_items func field n (p + int (unat (data_size field))))"

definition entry_address :: "memory \<Rightarrow> pb_field \<Rightarrow> int \<Rightarrow> int" where
  "entry_address m field p =
     (if PB_ATYPE (ftype field) = PB_ATYPE_POINTER \<and>
         (PB_LTYPE (ftype field) = PB_LTYPE_STRING \<or> PB_LTYPE (ftype field) = PB_LTYPE_BYTES)
      then load_ptr m p else p)"

primrec encode_tagged_items ::
  "memory \<Rightarrow> (pb_field \<Rightarrow> int \<Rightarrow> 's enc_op) \<Rightarrow> pb_field \<Rightarrow> nat \<Rightarrow> int \<Rightarrow> 's enc_op" where
  "encode_tagged_items m func field 0 p s = Some (True, s)"
| "encode_tagged_items m func field (Suc n) p s =
     and_then_opt (Some (pb_encode_tag_for_field field s))
       (\<lambda>s. and_then_opt (func field (entry_address m field p) s)
          (encode_tagged_items m func field n (p + int (unat (data_size field)))))"

text \<open>The size of a packed array, or \<open>None\<close> when an entry cannot be encoded.\<close>

definition packed_size ::
  "'s \<Rightarrow> (pb_field \<Rightarrow> int \<Rightarrow> 's enc_op) \<Rightarrow> pb_field \<Rightarrow> int \<Rightarrow> nat \<Rightarrow> nat option option" where
  "packed_size null func field p count =
     (if PB_LTYPE (ftype field) = PB_LTYPE_FIXED32 then Some (Some ((4 * count) mod SIZE_MOD))
      else if PB_LTYPE (ftype field) = PB_LTYPE_FIXED64 then Some (Some ((8 * count) mod SIZE_MOD))
      else (case encode_items func field count p (PB_OSTREAM_SIZING null) of
              None \<Rightarrow> None
            | Some (ok, sizestream) \<Rightarrow> Some (if ok then Some (bytes_written sizestream) else None)))"

definition encode_array ::
  "'s enc_env \<Rightarrow> (pb_field \<Rightarrow> int \<Rightarrow> 's enc_op) \<Rightarrow> pb_field \<Rightarrow> int \<Rightarrow> nat \<Rightarrow> 's enc_op" where
  "encode_array E func field p count s =
     (if count = 0 then Some (True, s)
      else if PB_ATYPE (ftype field) \<noteq> PB_ATYPE_POINTER \<and> unat (array_size field) < count
      then Some (o_error s ''array max size exceeded'')
      else if PB_LTYPE (ftype field) \<le> PB_LTYPE_LAST_PACKABLE then
        and_then_opt (Some (pb_encode_tag s PB_WT_STRING (ftag field)))
          (\<lambda>s. case packed_size (e_null E) func field p count of
             None \<Rightarrow> None
           | Some None \<Rightarrow> Some (False, s)
           | Some (Some sz) \<Rightarrow>
               and_then_opt (Some (pb_encode_varint s (word_of_nat sz)))
                 (\<lambda>s. if is_sizing s then Some (pb_write s [] sz)
                      else encode_items func field count p s))
      else encode_tagged_items (e_mem E) func field count p s)"

section \<open>Presence of proto3 fields\<close>

primrec pb_check_proto3_default_value ::
  "nat \<Rightarrow> descs \<Rightarrow> memory \<Rightarrow> pb_field \<Rightarrow> int \<Rightarrow> bool option" where
  "pb_check_proto3_default_value 0 D m field p = None"
| "pb_check_proto3_default_value (Suc n) D m field p =
     (let type = ftype field; pSz = p + sint (size_offset field) in
      if PB_HTYPE type = PB_HTYPE_REQUIRED then Some False
      else if PB_HTYPE type = PB_HTYPE_REPEATED \<and> size_offset field \<noteq> 0
      then Some (load_u32 m pSz = 0)
      else if PB_HTYPE type = PB_HTYPE_REPEATED \<and> PB_ATYPE type = PB_ATYPE_STATIC then Some False
      else if PB_HTYPE type = PB_HTYPE_ONEOF then Some (load_u32 m pSz = 0)
      else if PB_HTYPE type = PB_HTYPE_OPTIONAL \<and> size_offset field \<noteq> 0
      then Some (\<not> safe_read_bool m pSz)
      else if PB_ATYPE type = PB_ATYPE_STATIC \<and> PB_LTYPE type = PB_LTYPE_BYTES
      then Some (load_u32 m p = 0)
      else if PB_ATYPE type = PB_ATYPE_STATIC \<and> PB_LTYPE type = PB_LTYPE_STRING then Some (m p = 0)
      else if PB_ATYPE type = PB_ATYPE_STATIC \<and> PB_LTYPE type = PB_LTYPE_FIXED_LENGTH_BYTES
      then Some (data_size field = 0)
      else if PB_ATYPE type = PB_ATYPE_STATIC \<and> PB_LTYPE type = PB_LTYPE_SUBMESSAGE then
        (case fptr field of
           PFields d \<Rightarrow>
             (case pb_field_iter_begin D d p of
                (False, _) \<Rightarrow> Some True
              | (True, it) \<Rightarrow>
                  map_option fst
                    (iter_loop D
                      (\<lambda>it _. map_option (\<lambda>b. (b, ()))
                         (pb_check_proto3_default_value n D m (iter_field D it) (pData it))) it ()))
         | _ \<Rightarrow> None)
      else if PB_ATYPE type = PB_ATYPE_POINTER \<and> PB_LTYPE_LAST_PACKABLE < PB_LTYPE type
      then Some (load_ptr m p = 0)
      else Some (list_all (\<lambda>i. m (p + int i) = 0) [0..<unat (data_size field)]))"

section \<open>Fields\<close>

definition encode_tag_and_value ::
  "(pb_field \<Rightarrow> int \<Rightarrow> 's enc_op) \<Rightarrow> pb_field \<Rightarrow> int \<Rightarrow> 's enc_op" where
  "encode_tag_and_value func field p s =
     and_then_opt (Some (pb_encode_tag_for_field field s)) (func field p)"

definition encode_basic_field ::
  "nat \<Rightarrow> 's enc_env \<Rightarrow> (nat \<Rightarrow> int \<Rightarrow> 's enc_op) \<Rightarrow> pb_field \<Rightarrow> int \<Rightarrow> 's enc_op" where
  "encode_basic_field n E enc field p s =
     (let m = e_mem E; type = ftype field; func = PB_ENCODERS E enc (PB_LTYPE type);
          pSz = p + sint (size_offset field);
          implicit = (if size_offset field \<noteq> 0 then Some False
                      else if PB_HTYPE type = PB_HTYPE_OPTIONAL
                      then map_option Not (pb_check_proto3_default_value n (e_descs E) m field p)
                      else Some True);
          p' = (if PB_ATYPE type = PB_ATYPE_POINTER then load_ptr m p else p) in
      case implicit of
        None \<Rightarrow> None
      | Some has \<Rightarrow>
          let implicit_has = (if PB_ATYPE type = PB_ATYPE_POINTER then p' \<noteq> 0 else has) in
          if PB_HTYPE type = PB_HTYPE_REQUIRED then
            if p' = 0 then Some (o_error s ''missing required field'')
            else encode_tag_and_value func field p' s
          else if PB_HTYPE type = PB_HTYPE_OPTIONAL then
            if (if size_offset field \<noteq> 0 then safe_read_bool m pSz else implicit_has)
            then encode_tag_and_value func field p' s
            else Some (True, s)
          else if PB_HTYPE type = PB_HTYPE_REPEATED then
            encode_array E func field p'
              (if size_offset field \<noteq> 0 then unat (load_u32 m pSz) else unat (array_size field)) s
          else if size_offset field = 0 then None \<comment> \<open>reads past \<open>implicit_has\<close>\<close>
          else if load_u32 m pSz = ftag field then encode_tag_and_value func field p' s
          else Some (True, s))"

definition encode_callback_field :: "'s enc_env \<Rightarrow> pb_field \<Rightarrow> int \<Rightarrow> 's pb_ostream \<Rightarrow> bool \<times> 's pb_ostream" where
  "encode_callback_field E field p s =
     (let f = load_ptr (e_mem E) p in
      if f \<noteq> 0 then
        (case e_callback E f s field (p + 8) of
           (False, s') \<Rightarrow> o_error s' ''callback error''
         | (True, s') \<Rightarrow> (True, s'))
      else (True, s))"

definition encode_field ::
  "nat \<Rightarrow> 's enc_env \<Rightarrow> (nat \<Rightarrow> int \<Rightarrow> 's enc_op) \<Rightarrow> pb_field \<Rightarrow> int \<Rightarrow> 's enc_op" where
  "encode_field n E enc field p s =
     (if PB_ATYPE (ftype field) = PB_ATYPE_STATIC \<or> PB_ATYPE (ftype field) = PB_ATYPE_POINTER
      then encode_basic_field n E enc field p s
      else if PB_ATYPE (ftype field) = PB_ATYPE_CALLBACK
      then Some (encode_callback_field E field p s)
      else Some (o_error s ''invalid field type''))"

text \<open>\<open>pb_extension_t\<close>: \<open>type\<close> at offset 0, \<open>dest\<close> at 8, \<open>next\<close> at 16, \<open>found\<close> at 24.\<close>

definition default_extension_encoder ::
  "nat \<Rightarrow> 's enc_env \<Rightarrow> (nat \<Rightarrow> int \<Rightarrow> 's enc_op) \<Rightarrow> int \<Rightarrow> 's enc_op" where
  "default_extension_encoder n E enc extension s =
     (let field = field_at (e_descs E) (xt_arg (e_ext_type E (load_ptr (e_mem E) extension))) 0 in
      if PB_ATYPE (ftype field) = PB_ATYPE_POINTER
      then encode_field n E enc field (extension + 8) s
      else encode_field n E enc field (load_ptr (e_mem E) (extension + 8)) s)"

primrec extension_loop ::
  "nat \<Rightarrow> nat \<Rightarrow> 's enc_env \<Rightarrow> (nat \<Rightarrow> int \<Rightarrow> 's enc_op) \<Rightarrow> int \<Rightarrow> 's enc_op" where
  "extension_loop 0 n E enc extension s = (if extension = 0 then Some (True, s) else None)"
| "extension_loop (Suc k) n E enc extension s =
     (if extension = 0 then Some (True, s)
      else and_then_opt
        (case xt_encode (e_ext_type E (load_ptr (e_mem E) extension)) of
           Some f \<Rightarrow> Some (f s extension)
         | None \<Rightarrow> default_extension_encoder n E enc extension s)
        (extension_loop k n E enc (load_ptr (e_mem E) (extension + 16))))"

definition encode_extension_field ::
  "nat \<Rightarrow> 's enc_env \<Rightarrow> (nat \<Rightarrow> int \<Rightarrow> 's enc_op) \<Rightarrow> int \<Rightarrow> 's enc_op" where
  "encode_extension_field n E enc p = extension_loop n n E enc (load_ptr (e_mem E) p)"

section \<open>Messages\<close>

text \<open>The body of the loop of \<open>pb_encode\<close>.\<close>

definition encode_one ::
  "nat \<Rightarrow> 's enc_env \<Rightarrow> (nat \<Rightarrow> int \<Rightarrow> 's enc_op) \<Rightarrow> pb_field_iter \<Rightarrow> 's enc_op" where
  "encode_one n E enc it =
     (let field = iter_field (e_descs E) it in
      if PB_LTYPE (ftype field) = PB_LTYPE_EXTENSION
      then encode_extension_field n E enc (pData it)
      else encode_field n E enc field (pData it))"

primrec pb_encode :: "nat \<Rightarrow> 's enc_env \<Rightarrow> nat \<Rightarrow> int \<Rightarrow> 's enc_op" where
  "pb_encode 0 E flds src s = None"
| "pb_encode (Suc n) E flds src s =
     (case pb_field_iter_begin (e_descs E) flds src of
        (False, _) \<Rightarrow> Some (True, s)
      | (True, it) \<Rightarrow> iter_loop (e_descs E) (encode_one n E (pb_encode n E)) it s)"

definition pb_encode_delimited :: "nat \<Rightarrow> 's enc_env \<Rightarrow> nat \<Rightarrow> int \<Rightarrow> 's enc_op" where
  "pb_encode_delimited n E flds src = pb_encode_submessage (e_null E) (pb_encode n E flds src)"

definition pb_encode_nullterminated :: "nat \<Rightarrow> 's enc_env \<Rightarrow> nat \<Rightarrow> int \<Rightarrow> 's enc_op" where
  "pb_encode_nullterminated n E flds src s =
     and_then_opt (pb_encode n E flds src s) (\<lambda>s. Some (pb_write s [0] 1))"

text \<open>\<open>Some (Some n)\<close> when it returns true and stores \<open>n\<close> to \<open>*size\<close>.\<close>

definition pb_get_encoded_size :: "nat \<Rightarrow> 's enc_env \<Rightarrow> nat \<Rightarrow> int \<Rightarrow> nat option option" where
  "pb_get_encoded_size n E flds src =
     (case pb_encode n E flds src (PB_OSTREAM_SIZING (e_null E)) of
        None \<Rightarrow> None
      | Some (False, _) \<Rightarrow> Some None
      | Some (True, s) \<Rightarrow> Some (Some (bytes_written s)))"

end
