(* ===== verification/PB_Encode_Spec.thy ===== *)
theory PB_Encode_Spec
  imports PB_Encode
begin

text \<open>
  What the encoder promises. \<open>wire_message\<close> gives the bytes of a message as a plain list, with
  no stream, no sizing pass and no limits: a specification of the wire format over the
  descriptors and the message structure. The locale \<open>wire_encoder\<close> states the contract of
  an encoding routine against such a byte list: a sizing stream is advanced by exactly its
  length, a buffer with enough room receives exactly these bytes, a buffer without is refused,
  and where there is no byte list the routine never succeeds. Every routine of \<open>PB_Encode\<close>
  meets the contract, up to \<open>pb_encode\<close> itself.
\<close>

section \<open>The contract\<close>

definition enc_stream :: "'s pb_ostream \<Rightarrow> bool" where
  "enc_stream s \<longleftrightarrow> ocallback s = No_write \<or> out_stream s"

locale wire_encoder =
  fixes encode :: "'s enc_op"
    and wire :: "u8 list option"
  assumes sizing: "\<And>s bs. ocallback s = No_write \<Longrightarrow> wire = Some bs \<Longrightarrow>
        bytes_written s + length bs < SIZE_MOD \<Longrightarrow> encode s = Some (True, count_out (length bs) s)"
    and writing: "\<And>s bs. out_stream s \<Longrightarrow> oerrmsg s = None \<Longrightarrow> wire = Some bs \<Longrightarrow>
        bytes_written s + length bs \<le> max_size s \<Longrightarrow> encode s = Some (True, advance_out bs s)"
    and full: "\<And>s bs. out_stream s \<Longrightarrow> oerrmsg s = None \<Longrightarrow> wire = Some bs \<Longrightarrow>
        bytes_written s + length bs < SIZE_MOD \<Longrightarrow> max_size s < bytes_written s + length bs \<Longrightarrow>
        \<exists>s'. encode s = Some (False, s')"
    and refused: "\<And>s s'. enc_stream s \<Longrightarrow> wire = None \<Longrightarrow> encode s \<noteq> Some (True, s')"
    and keeps: "\<And>s s'. enc_stream s \<Longrightarrow> encode s = Some (True, s') \<Longrightarrow>
        enc_stream s' \<and> ocallback s' = ocallback s"
begin

text \<open>The size found by a sizing pass is the room that writing needs.\<close>

lemma sizing_exact:
  assumes "wire = Some bs" "length bs < SIZE_MOD"
  shows "encode (PB_OSTREAM_SIZING u) = Some (True, count_out (length bs) (PB_OSTREAM_SIZING u))"
  using assms by (intro sizing) (simp_all add: PB_OSTREAM_SIZING_def)

lemma succeeds_iff:
  assumes "wire = Some bs" "length bs < SIZE_MOD" "n < SIZE_MOD"
  shows "(\<exists>s'. encode (pb_ostream_from_buffer n u) = Some (True, s')) \<longleftrightarrow> length bs \<le> n"
    and "length bs \<le> n \<Longrightarrow> encode (pb_ostream_from_buffer n u) =
          Some (True, advance_out bs (pb_ostream_from_buffer n u))"
proof -
  have o: "out_stream (pb_ostream_from_buffer n u)" "oerrmsg (pb_ostream_from_buffer n u) = None"
    "bytes_written (pb_ostream_from_buffer n u) = 0" "max_size (pb_ostream_from_buffer n u) = n"
    using assms(3) by (simp_all add: out_stream_def pb_ostream_from_buffer_def)
  then show "length bs \<le> n \<Longrightarrow> encode (pb_ostream_from_buffer n u) =
          Some (True, advance_out bs (pb_ostream_from_buffer n u))"
    using writing [OF o(1,2) assms(1)] by simp
  then show "(\<exists>s'. encode (pb_ostream_from_buffer n u) = Some (True, s')) \<longleftrightarrow> length bs \<le> n"
    using full [OF o(1,2) assms(1)] o(3,4) assms(2) by (cases "length bs \<le> n") auto
qed

end

section \<open>Combining routines\<close>

definition cat :: "'a list option \<Rightarrow> 'a list option \<Rightarrow> 'a list option" where
  "cat x y = (case x of None \<Rightarrow> None | Some a \<Rightarrow> (case y of None \<Rightarrow> None | Some b \<Rightarrow> Some (a @ b)))"

definition concat_opt :: "'a list option list \<Rightarrow> 'a list option" where
  "concat_opt xs = foldr cat xs (Some [])"

lemma cat_simps [simp]:
  "cat None y = None" "cat x None = None" "cat (Some a) (Some b) = Some (a @ b)"
  by (auto simp: cat_def split: option.splits)

lemma cat_eq_Some: "cat x y = Some c \<longleftrightarrow> (\<exists>a b. x = Some a \<and> y = Some b \<and> c = a @ b)"
  by (auto simp: cat_def split: option.splits)

lemma cat_eq_None: "cat x y = None \<longleftrightarrow> x = None \<or> y = None"
  by (auto simp: cat_def split: option.splits)

lemma concat_opt_simps [simp]:
  "concat_opt [] = Some []" "concat_opt (x # xs) = cat x (concat_opt xs)"
  by (simp_all add: concat_opt_def)

lemma enc_stream_simps [simp]:
  "ocallback s = No_write \<Longrightarrow> enc_stream s"
  "out_stream s \<Longrightarrow> enc_stream s"
  by (auto simp: enc_stream_def)

lemma out_stream_advance [simp]:
  "out_stream s \<Longrightarrow> bytes_written s + length bs \<le> max_size s \<Longrightarrow> out_stream (advance_out bs s)"
  by (simp add: out_stream_def)

lemma wire_skip: "wire_encoder (\<lambda>s. Some (True, s)) (Some [])"
  by unfold_locales (auto simp: out_stream_def)

lemma wire_fail: "wire_encoder (\<lambda>s. Some (o_error s msg)) None"
  by unfold_locales (auto simp: o_error_def)

lemma wire_stuck: "wire_encoder (\<lambda>s. None) None"
  by unfold_locales auto

lemma wire_seq:
  fixes f g :: "'s enc_op"
  assumes f: "wire_encoder f x" and g: "wire_encoder g y"
  shows "wire_encoder (\<lambda>s. and_then_opt (f s) g) (cat x y)"
proof
  fix s :: "'s pb_ostream" and bs
  assume h: "ocallback s = No_write" "cat x y = Some bs" "bytes_written s + length bs < SIZE_MOD"
  then obtain a b where "x = Some a" "y = Some b" "bs = a @ b" by (auto simp: cat_eq_Some)
  then show "and_then_opt (f s) g = Some (True, count_out (length bs) s)"
    using h wire_encoder.sizing [OF f] wire_encoder.sizing [OF g, of "count_out (length a) s" b]
    by (simp add: add.assoc)
next
  fix s :: "'s pb_ostream" and bs
  assume h: "out_stream s" "oerrmsg s = None" "cat x y = Some bs"
    "bytes_written s + length bs \<le> max_size s"
  then obtain a b where "x = Some a" "y = Some b" "bs = a @ b" by (auto simp: cat_eq_Some)
  then show "and_then_opt (f s) g = Some (True, advance_out bs s)"
    using h wire_encoder.writing [OF f, of s a] wire_encoder.writing [OF g, of "advance_out a s" b]
    by (simp add: add.assoc)
next
  fix s :: "'s pb_ostream" and bs
  assume h: "out_stream s" "oerrmsg s = None" "cat x y = Some bs"
    "bytes_written s + length bs < SIZE_MOD" "max_size s < bytes_written s + length bs"
  then obtain a b where ab: "x = Some a" "y = Some b" "bs = a @ b" by (auto simp: cat_eq_Some)
  show "\<exists>s'. and_then_opt (f s) g = Some (False, s')"
  proof (cases "bytes_written s + length a \<le> max_size s")
    case True
    then show ?thesis
      using h ab wire_encoder.writing [OF f, of s a] wire_encoder.full [OF g, of "advance_out a s" b]
      by (simp add: add.assoc)
  next
    case False
    then show ?thesis using h ab wire_encoder.full [OF f, of s a] by auto
  qed
next
  fix s s' :: "'s pb_ostream"
  assume h: "enc_stream s" "cat x y = None"
  show "and_then_opt (f s) g \<noteq> Some (True, s')"
  proof
    assume "and_then_opt (f s) g = Some (True, s')"
    then obtain t where t: "f s = Some (True, t)" "g t = Some (True, s')"
      by (auto simp: and_then_opt_Some_True)
    then have "enc_stream t" using wire_encoder.keeps [OF f h(1)] by blast
    then have "y \<noteq> None" using wire_encoder.refused [OF g] t(2) by blast
    moreover have "x \<noteq> None" using wire_encoder.refused [OF f h(1)] t(1) by blast
    ultimately show False using h(2) by (auto simp: cat_eq_None)
  qed
next
  fix s s' :: "'s pb_ostream"
  assume h: "enc_stream s" "and_then_opt (f s) g = Some (True, s')"
  then obtain t where t: "f s = Some (True, t)" "g t = Some (True, s')"
    by (auto simp: and_then_opt_Some_True)
  then show "enc_stream s' \<and> ocallback s' = ocallback s"
    using wire_encoder.keeps [OF f h(1) t(1)] wire_encoder.keeps [OF g _ t(2)] by simp
qed

lemma pb_write_enc_stream:
  assumes "enc_stream s" "pb_write s buf n = (True, s')"
  shows "enc_stream s' \<and> ocallback s' = ocallback s"
  using assms
  by (auto simp: enc_stream_def pb_write_def Let_def out_stream_def o_error_def call_ocallback_def
      buf_write_def size_add_def split: if_splits)

lemma wire_write:
  assumes "n = length bs" "n < SIZE_MOD"
  shows "wire_encoder (\<lambda>s :: 's pb_ostream. Some (pb_write s bs n)) (Some bs)"
proof
  fix s :: "'s pb_ostream" and cs
  assume "ocallback s = No_write" "Some bs = Some cs" "bytes_written s + length cs < SIZE_MOD"
  then show "Some (pb_write s bs n) = Some (True, count_out (length cs) s)"
    using assms pb_write_sizing [of s n bs] by simp
next
  fix s :: "'s pb_ostream" and cs
  assume "out_stream s" "oerrmsg s = None" "Some bs = Some cs" "bytes_written s + length cs \<le> max_size s"
  then show "Some (pb_write s bs n) = Some (True, advance_out cs s)"
    using assms pb_write_buf [of s n bs] by simp
next
  fix s :: "'s pb_ostream" and cs
  assume "out_stream s" "oerrmsg s = None" "Some bs = Some cs"
    "max_size s < bytes_written s + length cs"
  then show "\<exists>s'. Some (pb_write s bs n) = Some (False, s')"
    using assms pb_write_buf [of s n bs] by (simp add: o_error_def)
next
  fix s s' :: "'s pb_ostream"
  assume "enc_stream s" "Some (pb_write s bs n) = Some (True, s')"
  then show "enc_stream s' \<and> ocallback s' = ocallback s" using pb_write_enc_stream by blast
qed simp

lemma wire_varint: "wire_encoder (\<lambda>s. Some (pb_encode_varint s v)) (Some (varint_bytes v))"
  unfolding pb_encode_varint_def by (rule wire_write [OF refl length_varint_bytes_size])

lemma wire_tag:
  "wire_encoder (\<lambda>s. Some (pb_encode_tag s wt n)) (Some (varint_bytes (tag_value wt n)))"
  unfolding pb_encode_tag_eq by (rule wire_varint)

lemma wire_string_op:
  assumes "n = length bs" "n < SIZE_MOD"
  shows "wire_encoder (\<lambda>s. Some (pb_encode_string s bs n)) (Some (string_bytes bs))"
proof -
  have "Some (pb_encode_string s bs n) =
      and_then_opt (Some (pb_encode_varint s (word_of_nat n))) (\<lambda>s. Some (pb_write s bs n))" for s :: "'a pb_ostream"
    by (cases "pb_encode_varint s (word_of_nat n)") (auto simp: pb_encode_string_def and_then_def and_then_opt_def)
  moreover have "Some (string_bytes bs) = cat (Some (varint_bytes (word_of_nat n))) (Some bs)"
    using assms(1) by (simp add: string_bytes_def)
  ultimately show ?thesis using wire_seq [OF wire_varint wire_write [OF assms]] by simp
qed

section \<open>Submessages\<close>

lemma pb_encode_varint_enc_stream:
  "enc_stream s \<Longrightarrow> pb_encode_varint s v = (True, s') \<Longrightarrow> enc_stream s' \<and> ocallback s' = ocallback s"
  unfolding pb_encode_varint_def by (rule pb_write_enc_stream)

lemma pb_encode_submessage_keeps:
  assumes "enc_stream s" "pb_encode_submessage null enc s = Some (True, s')"
  shows "enc_stream s' \<and> ocallback s' = ocallback s"
proof -
  obtain sub where sub: "enc (PB_OSTREAM_SIZING null) = Some (True, sub)"
    using assms(2) by (auto simp: pb_encode_submessage_def split: option.splits bool.splits)
  let ?sz = "bytes_written sub"
  obtain s1 where s1: "pb_encode_varint s (word_of_nat ?sz) = (True, s1)"
    using assms(2) sub by (auto simp: pb_encode_submessage_def Let_def and_then_opt_Some_True)
  then have k: "enc_stream s1" "ocallback s1 = ocallback s"
    using pb_encode_varint_enc_stream [OF assms(1)] by blast+
  show ?thesis
  proof (cases "ocallback s1 = No_write")
    case True
    then have "pb_write s1 [] ?sz = (True, s')"
      using assms(2) sub s1 by (simp add: pb_encode_submessage_def Let_def)
    then show ?thesis using pb_write_enc_stream [OF k(1)] k(2) by simp
  next
    case False
    then have o: "ocallback s1 = Buf_write" "max_size s1 < SIZE_MOD"
      using k(1) by (auto simp: enc_stream_def out_stream_def)
    have "size_add (bytes_written s1) ?sz \<le> max_size s1 \<and> ocallback s' = ocallback s1 \<and>
        max_size s' = max_size s1 \<and> bytes_written s' = size_add (bytes_written s1) ?sz"
      using assms(2) sub s1 o(1)
      by (auto simp: pb_encode_submessage_def Let_def o_error_def split: if_splits option.splits)
    then show ?thesis using o k(2) by (auto simp: enc_stream_def out_stream_def)
  qed
qed

text \<open>The two passes of \<open>pb_encode_submessage\<close> agree when the submessage's encoder keeps the contract.\<close>

lemma wire_submessage:
  fixes enc :: "'s enc_op"
  assumes enc: "wire_encoder enc out"
  shows "wire_encoder (pb_encode_submessage null enc) (map_option string_bytes out)"
proof -
  have size: "enc (PB_OSTREAM_SIZING null) = Some (True, count_out (length bs) (PB_OSTREAM_SIZING null))"
    if "out = Some bs" "length bs < SIZE_MOD" for bs
    by (rule wire_encoder.sizing_exact [OF enc that])
  let ?v = "\<lambda>bs. varint_bytes (word_of_nat (length bs))"
  show ?thesis
  proof
    fix s :: "'s pb_ostream" and bs
    assume h: "ocallback s = No_write" "map_option string_bytes out = Some bs"
      "bytes_written s + length bs < SIZE_MOD"
    then obtain xs where xs: "out = Some xs" "bs = string_bytes xs" by auto
    let ?s1 = "count_out (length (?v xs)) s"
    have v: "pb_encode_varint s (word_of_nat (length xs)) = (True, ?s1)"
      using wire_encoder.sizing [OF wire_varint h(1) refl] h(3) xs(2) by (simp add: string_bytes_def)
    show "pb_encode_submessage null enc s = Some (True, count_out (length bs) s)"
      using h xs size [of xs] v pb_write_sizing [of ?s1 "length xs" "[]"]
      by (simp add: pb_encode_submessage_def Let_def string_bytes_def add.assoc)
  next
    fix s :: "'s pb_ostream" and bs
    assume h: "out_stream s" "oerrmsg s = None" "map_option string_bytes out = Some bs"
      "bytes_written s + length bs \<le> max_size s"
    then obtain xs where xs: "out = Some xs" "bs = string_bytes xs" by auto
    have m: "max_size s < SIZE_MOD" and cb: "ocallback s = Buf_write"
      using h(1) by (simp_all add: out_stream_def)
    let ?s1 = "advance_out (?v xs) s"
    let ?sub = "?s1\<lparr>max_size := length xs, bytes_written := 0, oerrmsg := None\<rparr>"
    have l: "bytes_written s + length (?v xs) + length xs \<le> max_size s"
      using h(4) xs(2) by (simp add: string_bytes_def)
    have v: "pb_encode_varint s (word_of_nat (length xs)) = (True, ?s1)"
      using pb_encode_varint_buf [OF h(1)] l by simp
    have w: "enc ?sub = Some (True, advance_out xs ?sub)"
      using l m cb by (intro wire_encoder.writing [OF enc _ _ xs(1)]) (simp_all add: out_stream_def)
    have "length xs < SIZE_MOD" using l m by linarith
    note sz = size [OF xs(1) this]
    have e: "size_add (bytes_written s + length (?v xs)) (length xs) =
        bytes_written s + length (?v xs) + length xs"
      using l m by (intro size_add_small) linarith
    show "pb_encode_submessage null enc s = Some (True, advance_out bs s)"
      using sz v w e l h(2) cb xs(2)
      by (simp add: pb_encode_submessage_def Let_def string_bytes_def advance_out_def add.assoc)
  next
    fix s :: "'s pb_ostream" and bs
    assume h: "out_stream s" "oerrmsg s = None" "map_option string_bytes out = Some bs"
      "bytes_written s + length bs < SIZE_MOD" "max_size s < bytes_written s + length bs"
    then obtain xs where xs: "out = Some xs" "bs = string_bytes xs" by auto
    have l: "bytes_written s + length (?v xs) + length xs < SIZE_MOD"
      "max_size s < bytes_written s + length (?v xs) + length xs"
      using h(4,5) xs(2) by (simp_all add: string_bytes_def)
    have cb: "ocallback s = Buf_write" using h(1) by (simp add: out_stream_def)
    have "length xs < SIZE_MOD" using l(1) by linarith
    note sz = size [OF xs(1) this]
    show "\<exists>s'. pb_encode_submessage null enc s = Some (False, s')"
      using sz pb_encode_varint_buf [OF h(1), of "word_of_nat (length xs)"] l cb
        size_add_small [OF l(1)]
      by (simp add: pb_encode_submessage_def Let_def o_error_def)
  next
    fix s s' :: "'s pb_ostream"
    assume "enc_stream s" "map_option string_bytes out = None"
    then have "enc (PB_OSTREAM_SIZING null) \<noteq> Some (True, t)" for t
      using wire_encoder.refused [OF enc, of "PB_OSTREAM_SIZING null"]
      by (simp add: enc_stream_def PB_OSTREAM_SIZING_def)
    then show "pb_encode_submessage null enc s \<noteq> Some (True, s')"
      by (auto simp: pb_encode_submessage_def split: option.splits bool.splits)
  next
    fix s s' :: "'s pb_ostream"
    assume h: "enc_stream s" "pb_encode_submessage null enc s = Some (True, s')"
    show "enc_stream s' \<and> ocallback s' = ocallback s"
      by (rule pb_encode_submessage_keeps [OF h])
  qed
qed

section \<open>The bytes of fields\<close>

definition field_tag_bytes :: "pb_field \<Rightarrow> u8 list option" where
  "field_tag_bytes field =
     (let lt = PB_LTYPE (ftype field) in
      if lt \<le> PB_LTYPE_SVARINT then Some (varint_bytes (tag_value PB_WT_VARINT (ftag field)))
      else if lt = PB_LTYPE_FIXED32 then Some (varint_bytes (tag_value PB_WT_32BIT (ftag field)))
      else if lt = PB_LTYPE_FIXED64 then Some (varint_bytes (tag_value PB_WT_64BIT (ftag field)))
      else if lt \<in> {PB_LTYPE_BYTES, PB_LTYPE_STRING, PB_LTYPE_SUBMESSAGE, PB_LTYPE_FIXED_LENGTH_BYTES}
      then Some (varint_bytes (tag_value PB_WT_STRING (ftag field)))
      else None)"

text \<open>The characters of a C string before its terminator, at most \<open>n\<close> of them.\<close>

definition c_string :: "memory \<Rightarrow> int \<Rightarrow> nat \<Rightarrow> u8 list" where
  "c_string m src n = (if src = 0 then [] else takeWhile (\<lambda>b. b \<noteq> 0) (mem_read m src n))"

definition value_bytes ::
  "memory \<Rightarrow> (nat \<Rightarrow> int \<Rightarrow> u8 list option) \<Rightarrow> pb_field \<Rightarrow> int \<Rightarrow> u8 list option" where
  "value_bytes m sub field src =
     (let lt = PB_LTYPE (ftype field); at = PB_ATYPE (ftype field); n = unat (data_size field) in
      if lt = PB_LTYPE_BOOL then Some (varint_bytes (if m src = 0 then 0 else 1))
      else if lt = PB_LTYPE_VARINT then map_option varint_bytes (load_signed m (data_size field) src)
      else if lt = PB_LTYPE_UVARINT then map_option varint_bytes (load_unsigned m (data_size field) src)
      else if lt = PB_LTYPE_SVARINT
      then map_option (\<lambda>v. varint_bytes (zigzag v)) (load_signed m (data_size field) src)
      else if lt = PB_LTYPE_FIXED32 then Some (fixed32_bytes (load_u32 m src))
      else if lt = PB_LTYPE_FIXED64 then Some (fixed64_bytes (load_u64 m src))
      else if lt = PB_LTYPE_BYTES then
        (if src = 0 then Some (string_bytes [])
         else if at = PB_ATYPE_STATIC \<and> size_sub n 4 < unat (load_u32 m src) then None
         else Some (string_bytes (mem_read m (src + 4) (unat (load_u32 m src)))))
      else if lt = PB_LTYPE_STRING
      then Some (string_bytes (c_string m src (if at = PB_ATYPE_POINTER then SIZE_MOD - 1 else n)))
      else if lt = PB_LTYPE_SUBMESSAGE then
        (case fptr field of PFields d \<Rightarrow> map_option string_bytes (sub d src) | _ \<Rightarrow> None)
      else if lt = PB_LTYPE_FIXED_LENGTH_BYTES then Some (string_bytes (mem_read m src n))
      else None)"

definition array_bytes ::
  "memory \<Rightarrow> (nat \<Rightarrow> int \<Rightarrow> u8 list option) \<Rightarrow> pb_field \<Rightarrow> int \<Rightarrow> nat \<Rightarrow> u8 list option" where
  "array_bytes m sub field p count =
     (let entry = (\<lambda>i. p + int i * int (unat (data_size field))) in
      if count = 0 then Some []
      else if PB_ATYPE (ftype field) \<noteq> PB_ATYPE_POINTER \<and> unat (array_size field) < count then None
      else if PB_LTYPE (ftype field) \<le> PB_LTYPE_LAST_PACKABLE
      then cat (Some (varint_bytes (tag_value PB_WT_STRING (ftag field))))
             (map_option string_bytes
               (concat_opt (map (\<lambda>i. value_bytes m sub field (entry i)) [0..<count])))
      else concat_opt (map (\<lambda>i. cat (field_tag_bytes field)
             (value_bytes m sub field (entry_address m field (entry i)))) [0..<count]))"

lemma wire_tag_for_field:
  "wire_encoder (\<lambda>s. Some (pb_encode_tag_for_field field s)) (field_tag_bytes field)"
proof -
  have le3: "w \<le> (3 :: u8) \<longleftrightarrow> w = 0 \<or> w = 1 \<or> w = 2 \<or> w = 3" for w
  proof -
    have "w \<le> 3 \<longleftrightarrow> unat w \<in> {0, 1, 2, 3}" by (auto simp: word_le_nat_alt)
    then show ?thesis by (auto simp: word_unat_eq_iff)
  qed
  show ?thesis
    unfolding pb_encode_tag_for_field_def field_tag_bytes_def Let_def le3
    by (auto intro: wire_tag wire_fail)
qed

lemma string_size_takeWhile:
  "sz \<le> max_sz \<Longrightarrow>
     string_size m src max_sz sz =
     sz + length (takeWhile (\<lambda>b. b \<noteq> 0) (mem_read m (src + int sz) (max_sz - sz)))"
proof (induction m src max_sz sz rule: string_size.induct)
  case (1 m src max_sz sz)
  show ?case
  proof (cases "sz < max_sz")
    case True
    then have "max_sz - sz = Suc (max_sz - (sz + 1))" by simp
    then have "mem_read m (src + int sz) (max_sz - sz) =
        m (src + int sz) # mem_read m (src + int (sz + 1)) (max_sz - (sz + 1))"
      by (simp only: mem_read_Suc) (simp add: algebra_simps)
    then show ?thesis using 1 True by (subst string_size.simps) (simp add: add.assoc)
  next
    case False
    then show ?thesis using 1 by (subst string_size.simps) (simp add: mem_read_def)
  qed
qed

lemma c_string_read:
  assumes "n = (if src = 0 then 0 else string_size m src max_sz 0)"
  shows "mem_read m src n = c_string m src max_sz"
proof (cases "src = 0")
  case False
  let ?xs = "mem_read m src max_sz"
  have n: "n = length (takeWhile (\<lambda>b. b \<noteq> 0) ?xs)"
    using assms False string_size_takeWhile [of 0 max_sz m src] by simp
  then have "n \<le> max_sz" using length_takeWhile_le [of "\<lambda>b. b \<noteq> 0" ?xs] by simp
  then have "mem_read m src n = take n ?xs" by (simp add: mem_read_def take_map)
  also have "\<dots> = takeWhile (\<lambda>b. b \<noteq> 0) ?xs" unfolding n by (simp add: takeWhile_eq_take [symmetric])
  finally show ?thesis using False by (simp add: c_string_def)
qed (use assms in \<open>simp add: c_string_def mem_read_def\<close>)

lemma length_c_string: "length (c_string m src n) \<le> n"
  using length_takeWhile_le [of "\<lambda>b. b \<noteq> 0" "mem_read m src n"] by (simp add: c_string_def)

lemma u32_size: "unat (w :: u32) < SIZE_MOD"
  using unsigned_less [of w, where ?'a = nat] by simp

lemma wire_value:
  fixes enc :: "nat \<Rightarrow> int \<Rightarrow> 's enc_op"
  assumes sub: "\<And>d src. wire_encoder (enc d src) (sub d src)"
  shows "wire_encoder (PB_ENCODERS E enc (PB_LTYPE (ftype field)) field src)
    (value_bytes (e_mem E) sub field src)"
proof -
  let ?m = "e_mem E" and ?lt = "PB_LTYPE (ftype field)"
  have bool: "wire_encoder (\<lambda>s :: 's pb_ostream. Some (pb_enc_bool ?m field src s))
      (Some (varint_bytes (if ?m src = 0 then 0 else 1)))"
    by (cases "?m src = 0") (simp_all add: pb_enc_bool_def safe_read_bool_def wire_varint)
  have ints: "wire_encoder (\<lambda>s :: 's pb_ostream. Some (pb_enc_varint ?m field src s))
      (map_option varint_bytes (load_signed ?m (data_size field) src))"
    "wire_encoder (\<lambda>s :: 's pb_ostream. Some (pb_enc_uvarint ?m field src s))
      (map_option varint_bytes (load_unsigned ?m (data_size field) src))"
    "wire_encoder (\<lambda>s :: 's pb_ostream. Some (pb_enc_svarint ?m field src s))
      (map_option (\<lambda>v. varint_bytes (zigzag v)) (load_signed ?m (data_size field) src))"
    by (cases "load_signed ?m (data_size field) src"; cases "load_unsigned ?m (data_size field) src";
        simp add: pb_enc_varint_def pb_enc_uvarint_def pb_enc_svarint_def pb_encode_svarint_def
          wire_fail wire_varint)+
  have fixed: "wire_encoder (\<lambda>s :: 's pb_ostream. Some (pb_enc_fixed32 ?m field src s))
      (Some (fixed32_bytes (load_u32 ?m src)))"
    "wire_encoder (\<lambda>s :: 's pb_ostream. Some (pb_enc_fixed64 ?m field src s))
      (Some (fixed64_bytes (load_u64 ?m src)))"
    using wire_write [of 4 "fixed32_bytes (load_u32 ?m src)"] wire_write [of 8 "fixed64_bytes (load_u64 ?m src)"]
    by (simp_all add: pb_enc_fixed32_def pb_enc_fixed64_def pb_encode_fixed32_def pb_encode_fixed64_def
        fixed32_bytes_def fixed64_bytes_def)
  have str: "wire_encoder (\<lambda>s :: 's pb_ostream. Some (pb_enc_string ?m field src s))
      (Some (string_bytes (c_string ?m src
        (if PB_ATYPE (ftype field) = PB_ATYPE_POINTER then SIZE_MOD - 1 else unat (data_size field)))))"
  proof -
    let ?mx = "if PB_ATYPE (ftype field) = PB_ATYPE_POINTER then SIZE_MOD - 1 else unat (data_size field)"
    let ?n = "if src = 0 then 0 else string_size ?m src ?mx 0"
    have c: "mem_read ?m src ?n = c_string ?m src ?mx" by (rule c_string_read) (rule refl)
    have "?n = length (c_string ?m src ?mx)"
      using length_mem_read [of ?m src ?n] unfolding c by (rule sym)
    then have "?n < SIZE_MOD"
      using length_c_string [of ?m src ?mx] u32_size [of "data_size field"] by (auto split: if_splits)
    then have "wire_encoder (\<lambda>s :: 's pb_ostream. Some (pb_encode_string s (mem_read ?m src ?n) ?n))
        (Some (string_bytes (mem_read ?m src ?n)))"
      by (intro wire_string_op) (rule length_mem_read [symmetric])
    then show ?thesis unfolding pb_enc_string_def Let_def c .
  qed
  have bytes: "wire_encoder (\<lambda>s :: 's pb_ostream. Some (pb_encode_string s (mem_read ?m a (unat w)) (unat w)))
      (Some (string_bytes (mem_read ?m a (unat w))))" for a and w :: u32
    using u32_size [of w] by (intro wire_string_op) simp_all
  have empty: "wire_encoder (\<lambda>s :: 's pb_ostream. Some (pb_encode_string s [] 0)) (Some (string_bytes []))"
    by (rule wire_string_op) simp_all
  have msg: "wire_encoder (pb_enc_submessage (e_null E) enc field src)
      (case fptr field of PFields d \<Rightarrow> map_option string_bytes (sub d src) | _ \<Rightarrow> None)"
    by (cases "fptr field")
      (simp_all add: pb_enc_submessage_def [abs_def] wire_fail wire_stuck wire_submessage [OF sub])
  have byt: "wire_encoder (\<lambda>s :: 's pb_ostream. Some (pb_enc_bytes ?m field src s))
      (if src = 0 then Some (string_bytes [])
       else if PB_ATYPE (ftype field) = PB_ATYPE_STATIC \<and>
               size_sub (unat (data_size field)) 4 < unat (load_u32 ?m src) then None
       else Some (string_bytes (mem_read ?m (src + 4) (unat (load_u32 ?m src)))))"
  proof (cases "src = 0")
    case True
    then show ?thesis using empty by (simp add: pb_enc_bytes_def)
  next
    case False
    then show ?thesis
      using bytes [of "src + 4" "load_u32 ?m src"]
      by (cases "PB_ATYPE (ftype field) = PB_ATYPE_STATIC \<and>
               size_sub (unat (data_size field)) 4 < unat (load_u32 ?m src)")
        (auto simp: pb_enc_bytes_def Let_def wire_fail)
  qed
  have fl: "wire_encoder (\<lambda>s :: 's pb_ostream. Some (pb_enc_fixed_length_bytes ?m field src s))
      (Some (string_bytes (mem_read ?m src (unat (data_size field)))))"
    using bytes [of src "data_size field"] by (simp add: pb_enc_fixed_length_bytes_def Let_def)
  consider "?lt = 0" | "?lt = 1" | "?lt = 2" | "?lt = 3" | "?lt = 4" | "?lt = 5" | "?lt = 6"
    | "?lt = 7" | "?lt = 8" | "?lt = 10" | "?lt \<notin> {0, 1, 2, 3, 4, 5, 6, 7, 8, 10}"
    by blast
  then show ?thesis
  proof cases
    case 11
    then show ?thesis
      using wire_stuck by (simp add: PB_ENCODERS_def [abs_def] value_bytes_def)
  qed (simp_all only: PB_ENCODERS_def [abs_def] value_bytes_def Let_def,
       use bool ints fixed byt str msg fl in simp_all)
qed

section \<open>Arrays\<close>

lemma upt_Suc_shift: "map f [0..<Suc n] = f 0 # map (\<lambda>i. f (Suc i)) [0..<n]"
  by (simp add: upt_conv_Cons map_Suc_upt [symmetric] o_def del: upt_Suc)

lemma wire_items:
  fixes func :: "pb_field \<Rightarrow> int \<Rightarrow> 's enc_op"
  assumes "\<And>src. wire_encoder (func field src) (v src)"
  shows "wire_encoder (encode_items func field n p)
    (concat_opt (map (\<lambda>i. v (p + int i * int (unat (data_size field)))) [0..<n]))"
proof (induction n arbitrary: p)
  case 0
  show ?case using wire_skip by simp
next
  case (Suc n)
  have "(\<lambda>i. v (p + int (unat (data_size field)) + int i * int (unat (data_size field)))) =
      (\<lambda>i. v (p + int (Suc i) * int (unat (data_size field))))"
    by (simp add: algebra_simps)
  then show ?case
    using wire_seq [OF assms Suc.IH [of "p + int (unat (data_size field))"], of p]
    by (simp only: upt_Suc_shift concat_opt_simps encode_items.simps [abs_def]) simp
qed

lemma wire_tagged_items:
  fixes func :: "pb_field \<Rightarrow> int \<Rightarrow> 's enc_op"
  assumes "\<And>src. wire_encoder (func field src) (v src)"
  shows "wire_encoder (encode_tagged_items m func field n p)
    (concat_opt (map (\<lambda>i. cat (field_tag_bytes field)
       (v (entry_address m field (p + int i * int (unat (data_size field)))))) [0..<n]))"
proof (induction n arbitrary: p)
  case 0
  show ?case using wire_skip by simp
next
  case (Suc n)
  let ?d = "int (unat (data_size field))"
  have e: "(\<lambda>i. cat (field_tag_bytes field) (v (entry_address m field (p + ?d + int i * ?d)))) =
      (\<lambda>i. cat (field_tag_bytes field) (v (entry_address m field (p + int (Suc i) * ?d))))"
    by (simp add: algebra_simps)
  have assoc: "cat x (cat y z) = cat (cat x y) z" for x y z :: "u8 list option"
    by (auto simp: cat_def split: option.splits)
  show ?case
    using wire_seq [OF wire_tag_for_field wire_seq [OF assms Suc.IH [of "p + ?d"]], of field "entry_address m field p"] e
    by (simp only: upt_Suc_shift concat_opt_simps encode_tagged_items.simps [abs_def] assoc) simp
qed

text \<open>A packed array: its byte count is found by a sizing pass or from the entry width.\<close>

lemma concat_opt_length:
  assumes "concat_opt xs = Some bs" "\<And>x b. x \<in> set xs \<Longrightarrow> x = Some b \<Longrightarrow> length b = k"
  shows "length bs = k * length xs"
  using assms
proof (induction xs arbitrary: bs)
  case (Cons x xs)
  then obtain a b where "x = Some a" "concat_opt xs = Some b" "bs = a @ b" by (auto simp: cat_eq_Some)
  moreover have "length b = k * length xs" using Cons calculation(2) by (meson list.set_intros(2))
  ultimately show ?case using Cons.prems(2) [of x a] by simp
qed simp

lemma packed_size_ok:
  fixes func :: "pb_field \<Rightarrow> int \<Rightarrow> 's enc_op"
  assumes func: "\<And>src. wire_encoder (func field src) (value_bytes m sub field src)"
    and bs: "concat_opt (map (\<lambda>i. value_bytes m sub field (p + int i * int (unat (data_size field)))) [0..<n]) = Some bs"
    and "length bs < SIZE_MOD"
  shows "packed_size null func field p n = Some (Some (length bs))"
proof -
  let ?lt = "PB_LTYPE (ftype field)"
  have "length bs = 4 * n" if "?lt = 4"
    using concat_opt_length [OF bs, of 4] that by (force simp: value_bytes_def)
  moreover have "length bs = 8 * n" if "?lt = 5"
    using concat_opt_length [OF bs, of 8] that by (force simp: value_bytes_def)
  moreover have "encode_items func field n p (PB_OSTREAM_SIZING null) =
      Some (True, count_out (length bs) (PB_OSTREAM_SIZING null))"
    using wire_encoder.sizing_exact
      [OF wire_items [where func = func and field = field and v = "value_bytes m sub field", OF func]
        bs assms(3)] .
  ultimately show ?thesis
    using assms(3) by (cases "?lt = 4"; cases "?lt = 5") (simp_all add: packed_size_def)
qed

lemma packed_size_refused:
  fixes func :: "pb_field \<Rightarrow> int \<Rightarrow> 's enc_op"
  assumes func: "\<And>src. wire_encoder (func field src) (value_bytes m sub field src)"
    and none: "concat_opt (map (\<lambda>i. value_bytes m sub field (p + int i * int (unat (data_size field)))) [0..<n]) = None"
  shows "packed_size null func field p n \<noteq> Some (Some sz)"
proof -
  let ?lt = "PB_LTYPE (ftype field)"
  have some: "concat_opt xs \<noteq> None" if "\<forall>x\<in>set xs. x \<noteq> None" for xs :: "u8 list option list"
    using that by (induction xs) (auto simp: cat_eq_None)
  have "?lt \<noteq> 4" using none some by (fastforce simp: value_bytes_def)
  moreover have "?lt \<noteq> 5" using none some by (fastforce simp: value_bytes_def)
  moreover have "encode_items func field n p (PB_OSTREAM_SIZING null) \<noteq> Some (True, t)" for t
    using wire_encoder.refused
      [OF wire_items [where func = func and field = field and v = "value_bytes m sub field", OF func]
        _ none] by simp
  ultimately show ?thesis by (auto simp: packed_size_def split: option.splits)
qed

definition packed_body :: "nat option option \<Rightarrow> 's enc_op \<Rightarrow> 's enc_op" where
  "packed_body ps items s =
     (case ps of
        None \<Rightarrow> None
      | Some None \<Rightarrow> Some (False, s)
      | Some (Some sz) \<Rightarrow>
          and_then_opt (Some (pb_encode_varint s (word_of_nat sz)))
            (\<lambda>s. if is_sizing s then Some (pb_write s [] sz) else items s))"

lemma wire_packed:
  fixes items :: "'s enc_op"
  assumes items: "wire_encoder items out"
    and ps: "\<And>bs. out = Some bs \<Longrightarrow> length bs < SIZE_MOD \<Longrightarrow> ps = Some (Some (length bs))"
    and none: "\<And>sz. out = None \<Longrightarrow> ps \<noteq> Some (Some sz)"
  shows "wire_encoder (packed_body ps items) (map_option string_bytes out)"
proof -
  let ?v = "\<lambda>bs. varint_bytes (word_of_nat (length bs))"
  show ?thesis
  proof
    fix s :: "'s pb_ostream" and bs
    assume h: "ocallback s = No_write" "map_option string_bytes out = Some bs"
      "bytes_written s + length bs < SIZE_MOD"
    then obtain xs where xs: "out = Some xs" "bs = string_bytes xs" by auto
    let ?s1 = "count_out (length (?v xs)) s"
    have v: "pb_encode_varint s (word_of_nat (length xs)) = (True, ?s1)"
      using wire_encoder.sizing [OF wire_varint h(1) refl] h(3) xs(2) by (simp add: string_bytes_def)
    show "packed_body ps items s = Some (True, count_out (length bs) s)"
      using h xs ps [OF xs(1)] v pb_write_sizing [of ?s1 "length xs" "[]"]
      by (simp add: packed_body_def string_bytes_def add.assoc)
  next
    fix s :: "'s pb_ostream" and bs
    assume h: "out_stream s" "oerrmsg s = None" "map_option string_bytes out = Some bs"
      "bytes_written s + length bs \<le> max_size s"
    then obtain xs where xs: "out = Some xs" "bs = string_bytes xs" by auto
    have m: "max_size s < SIZE_MOD" "ocallback s = Buf_write"
      using h(1) by (simp_all add: out_stream_def)
    have l: "bytes_written s + length (?v xs) + length xs \<le> max_size s"
      using h(4) xs(2) by (simp add: string_bytes_def)
    then have "length xs < SIZE_MOD" using m by linarith
    note p = ps [OF xs(1) this]
    have "items (advance_out (?v xs) s) = Some (True, advance_out xs (advance_out (?v xs) s))"
      using h l by (intro wire_encoder.writing [OF items _ _ xs(1)]) simp_all
    then show "packed_body ps items s = Some (True, advance_out bs s)"
      using p pb_encode_varint_buf [OF h(1), of "word_of_nat (length xs)"] l m xs(2)
      by (simp add: packed_body_def string_bytes_def)
  next
    fix s :: "'s pb_ostream" and bs
    assume h: "out_stream s" "oerrmsg s = None" "map_option string_bytes out = Some bs"
      "bytes_written s + length bs < SIZE_MOD" "max_size s < bytes_written s + length bs"
    then obtain xs where xs: "out = Some xs" "bs = string_bytes xs" by auto
    have l: "bytes_written s + length (?v xs) + length xs < SIZE_MOD"
      "max_size s < bytes_written s + length (?v xs) + length xs"
      using h(4,5) xs(2) by (simp_all add: string_bytes_def)
    have m: "ocallback s = Buf_write" using h(1) by (simp_all add: out_stream_def)
    have "length xs < SIZE_MOD" using l(1) by linarith
    note p = ps [OF xs(1) this]
    show "\<exists>s'. packed_body ps items s = Some (False, s')"
    proof (cases "bytes_written s + length (?v xs) \<le> max_size s")
      case True
      then have "\<exists>s'. items (advance_out (?v xs) s) = Some (False, s')"
        using h l by (intro wire_encoder.full [OF items _ _ xs(1)]) simp_all
      then show ?thesis
        using p True pb_encode_varint_buf [OF h(1), of "word_of_nat (length xs)"] m
        by (simp add: packed_body_def)
    next
      case False
      then show ?thesis
        using p pb_encode_varint_buf [OF h(1), of "word_of_nat (length xs)"]
        by (simp add: packed_body_def o_error_def)
    qed
  next
    fix s s' :: "'s pb_ostream"
    assume "enc_stream s" "map_option string_bytes out = None"
    then show "packed_body ps items s \<noteq> Some (True, s')"
      using none by (auto simp: packed_body_def split: option.splits)
  next
    fix s s' :: "'s pb_ostream"
    assume h: "enc_stream s" "packed_body ps items s = Some (True, s')"
    then obtain sz s1 where s1: "pb_encode_varint s (word_of_nat sz) = (True, s1)"
      "(if is_sizing s1 then Some (pb_write s1 [] sz) else items s1) = Some (True, s')"
      by (auto simp: packed_body_def and_then_opt_Some_True split: option.splits)
    note k = pb_encode_varint_enc_stream [OF h(1) s1(1)]
    show "enc_stream s' \<and> ocallback s' = ocallback s"
      using s1(2) k pb_write_enc_stream [of s1 "[]" sz s'] wire_encoder.keeps [OF items, of s1 s']
      by (auto split: if_splits)
  qed
qed

lemma wire_array:
  fixes enc :: "nat \<Rightarrow> int \<Rightarrow> 's enc_op"
  assumes sub: "\<And>d src. wire_encoder (enc d src) (sub d src)"
  shows "wire_encoder (encode_array E (PB_ENCODERS E enc (PB_LTYPE (ftype field))) field p n)
    (array_bytes (e_mem E) sub field p n)"
proof -
  let ?f = "PB_ENCODERS E enc (PB_LTYPE (ftype field))" and ?v = "value_bytes (e_mem E) sub field"
  have func: "wire_encoder (?f field src) (?v src)" for src by (rule wire_value [OF sub])
  let ?items = "concat_opt (map (\<lambda>i. ?v (p + int i * int (unat (data_size field)))) [0..<n])"
  have items: "wire_encoder (encode_items ?f field n p) ?items"
    by (rule wire_items [where v = ?v and func = ?f and field = field, OF func])
  have "wire_encoder (packed_body (packed_size (e_null E) ?f field p n) (encode_items ?f field n p))
      (map_option string_bytes ?items)"
    by (rule wire_packed [OF items])
      (blast intro: packed_size_ok [where func = ?f and field = field, OF func],
       blast dest: packed_size_refused [where func = ?f and field = field, OF func])
  note pk = wire_seq [OF wire_tag this, of PB_WT_STRING "ftag field"]
  note tg = wire_tagged_items [where v = ?v and func = ?f and field = field, OF func, of "e_mem E" n p]
  consider "n = 0" | "n \<noteq> 0" "PB_ATYPE (ftype field) \<noteq> 0x80 \<and> unat (array_size field) < n"
    | "n \<noteq> 0" "\<not> (PB_ATYPE (ftype field) \<noteq> 0x80 \<and> unat (array_size field) < n)" "PB_LTYPE (ftype field) \<le> 5"
    | "n \<noteq> 0" "\<not> (PB_ATYPE (ftype field) \<noteq> 0x80 \<and> unat (array_size field) < n)" "\<not> PB_LTYPE (ftype field) \<le> 5"
    by blast
  then show ?thesis
  proof cases
    case 1
    then show ?thesis using wire_skip by (simp add: encode_array_def [abs_def] array_bytes_def)
  next
    case 2
    then show ?thesis using wire_fail by (simp add: encode_array_def [abs_def] array_bytes_def)
  next
    case 3
    show ?thesis
      using pk unfolding encode_array_def [abs_def] array_bytes_def Let_def packed_body_def [abs_def]
        if_not_P [OF 3(1)] if_not_P [OF 3(2)] if_P [OF 3(3)] .
  next
    case 4
    show ?thesis
      using tg unfolding encode_array_def [abs_def] array_bytes_def Let_def
        if_not_P [OF 4(1)] if_not_P [OF 4(2)] if_not_P [OF 4(3)] .
  qed
qed

section \<open>The bytes of a message\<close>

text \<open>
  What the user's callbacks write: \<open>s_callback f field arg\<close> for a field callback, \<open>s_ext type
  extension\<close> for an extension type with an encoder of its own.
\<close>

record enc_spec =
  s_callback :: "int \<Rightarrow> pb_field \<Rightarrow> int \<Rightarrow> u8 list option"
  s_ext :: "int \<Rightarrow> int \<Rightarrow> u8 list option"

definition present_bytes ::
  "memory \<Rightarrow> (nat \<Rightarrow> int \<Rightarrow> u8 list option) \<Rightarrow> pb_field \<Rightarrow> int \<Rightarrow> u8 list option" where
  "present_bytes m sub field p = cat (field_tag_bytes field) (value_bytes m sub field p)"

definition basic_field_bytes ::
  "nat \<Rightarrow> 's enc_env \<Rightarrow> (nat \<Rightarrow> int \<Rightarrow> u8 list option) \<Rightarrow> pb_field \<Rightarrow> int \<Rightarrow> u8 list option" where
  "basic_field_bytes n E sub field p =
     (let m = e_mem E; pointer = (PB_ATYPE (ftype field) = PB_ATYPE_POINTER);
          explicit = (size_offset field \<noteq> 0); pSz = p + sint (size_offset field);
          p' = (if pointer then load_ptr m p else p) in
      if PB_HTYPE (ftype field) = PB_HTYPE_REQUIRED
      then if p' = 0 then None else present_bytes m sub field p'
      else if PB_HTYPE (ftype field) = PB_HTYPE_OPTIONAL then
        (if explicit then if safe_read_bool m pSz then present_bytes m sub field p' else Some []
         else (case pb_check_proto3_default_value n (e_descs E) m field p of
                 None \<Rightarrow> None
               | Some dflt \<Rightarrow> if (if pointer then p' \<noteq> 0 else \<not> dflt)
                              then present_bytes m sub field p' else Some []))
      else if PB_HTYPE (ftype field) = PB_HTYPE_REPEATED
      then array_bytes m sub field p' (unat (if explicit then load_u32 m pSz else array_size field))
      else if explicit
      then if load_u32 m pSz = ftag field then present_bytes m sub field p' else Some []
      else None)"

definition field_bytes ::
  "nat \<Rightarrow> 's enc_env \<Rightarrow> enc_spec \<Rightarrow> (nat \<Rightarrow> int \<Rightarrow> u8 list option) \<Rightarrow> pb_field \<Rightarrow> int \<Rightarrow> u8 list option" where
  "field_bytes n E B sub field p =
     (if PB_ATYPE (ftype field) = PB_ATYPE_STATIC \<or> PB_ATYPE (ftype field) = PB_ATYPE_POINTER
      then basic_field_bytes n E sub field p
      else if PB_ATYPE (ftype field) = PB_ATYPE_CALLBACK
      then if load_ptr (e_mem E) p = 0 then Some []
           else s_callback B (load_ptr (e_mem E) p) field (p + 8)
      else None)"

primrec extension_bytes ::
  "nat \<Rightarrow> nat \<Rightarrow> 's enc_env \<Rightarrow> enc_spec \<Rightarrow> (nat \<Rightarrow> int \<Rightarrow> u8 list option) \<Rightarrow> int \<Rightarrow> u8 list option" where
  "extension_bytes 0 n E B sub x = (if x = 0 then Some [] else None)"
| "extension_bytes (Suc k) n E B sub x =
     (if x = 0 then Some []
      else let m = e_mem E; t = load_ptr m x; field = field_at (e_descs E) (xt_arg (e_ext_type E t)) 0 in
        cat (case xt_encode (e_ext_type E t) of
               Some _ \<Rightarrow> s_ext B t x
             | None \<Rightarrow> field_bytes n E B sub field
                 (if PB_ATYPE (ftype field) = PB_ATYPE_POINTER then x + 8 else load_ptr m (x + 8)))
            (extension_bytes k n E B sub (load_ptr m (x + 16))))"

definition entry_bytes ::
  "nat \<Rightarrow> 's enc_env \<Rightarrow> enc_spec \<Rightarrow> (nat \<Rightarrow> int \<Rightarrow> u8 list option) \<Rightarrow> pb_field_iter \<Rightarrow> u8 list option" where
  "entry_bytes n E B sub it =
     (let field = iter_field (e_descs E) it in
      if PB_LTYPE (ftype field) = PB_LTYPE_EXTENSION
      then extension_bytes n n E B sub (load_ptr (e_mem E) (pData it))
      else field_bytes n E B sub field (pData it))"

text \<open>The message is the concatenation of its entries, in the order of the descriptor.\<close>

primrec wire_message :: "nat \<Rightarrow> 's enc_env \<Rightarrow> enc_spec \<Rightarrow> nat \<Rightarrow> int \<Rightarrow> u8 list option" where
  "wire_message 0 E B d src = None"
| "wire_message (Suc n) E B d src =
     concat_opt (map (\<lambda>k. entry_bytes n E B (wire_message n E B) (iter_at (e_descs E) d src k))
       [0..<length (e_descs E d)])"

text \<open>The callbacks keep the encoder's contract: they write the same bytes whenever they are called.\<close>

definition callbacks_ok :: "'s enc_env \<Rightarrow> enc_spec \<Rightarrow> bool" where
  "callbacks_ok E B \<longleftrightarrow>
     (\<forall>f field arg. wire_encoder (\<lambda>s. Some (e_callback E f s field arg)) (s_callback B f field arg)) \<and>
     (\<forall>t f x. xt_encode (e_ext_type E t) = Some f \<longrightarrow> wire_encoder (\<lambda>s. Some (f s x)) (s_ext B t x))"

lemma wire_present:
  assumes "\<And>d src. wire_encoder (enc d src) (sub d src)"
  shows "wire_encoder (encode_tag_and_value (PB_ENCODERS E enc (PB_LTYPE (ftype field))) field p)
    (present_bytes (e_mem E) sub field p)"
  unfolding encode_tag_and_value_def [abs_def] present_bytes_def
  by (rule wire_seq [OF wire_tag_for_field wire_value [OF assms]])

lemma wire_basic_field:
  assumes sub: "\<And>d src. wire_encoder (enc d src) (sub d src)"
  shows "wire_encoder (encode_basic_field n E enc field p) (basic_field_bytes n E sub field p)"
proof -
  let ?m = "e_mem E" and ?ty = "ftype field"
  let ?p = "if PB_ATYPE ?ty = PB_ATYPE_POINTER then load_ptr ?m p else p"
  note pr = wire_present [where enc = enc and sub = sub, OF sub, of E field ?p]
  note ar = wire_array [where enc = enc and sub = sub, OF sub, of E field ?p]
  note defs = encode_basic_field_def [abs_def] basic_field_bytes_def Let_def
  consider "PB_HTYPE ?ty = 0" | "PB_HTYPE ?ty = 0x10" | "PB_HTYPE ?ty = 0x20" | "PB_HTYPE ?ty = 0x30"
    using htype_cases by blast
  then show ?thesis
  proof cases
    case 1
    then show ?thesis using pr by (cases "?p = 0") (auto simp: defs wire_fail split: if_splits)
  next
    case 2
    show ?thesis
    proof (cases "size_offset field = 0")
      case True
      then show ?thesis
        using 2 pr wire_skip
        by (cases "pb_check_proto3_default_value n (e_descs E) ?m field p")
          (auto simp: defs wire_stuck)
    next
      case False
      then show ?thesis using 2 pr wire_skip by (auto simp: defs)
    qed
  next
    case 3
    then show ?thesis using ar by (auto simp: defs)
  next
    case 4
    then show ?thesis using pr wire_skip by (cases "size_offset field = 0") (auto simp: defs wire_stuck)
  qed
qed

lemma wire_callback:
  fixes f :: "'s pb_ostream \<Rightarrow> bool \<times> 's pb_ostream"
  assumes w: "wire_encoder (\<lambda>s. Some (f s)) out"
  shows "wire_encoder (\<lambda>s. Some (case f s of (False, s') \<Rightarrow> o_error s' msg | (True, s') \<Rightarrow> (True, s'))) out"
proof -
  have ok: "(case f s of (False, s') \<Rightarrow> o_error s' msg | (True, s') \<Rightarrow> (True, s')) = (True, t) \<longleftrightarrow>
      f s = (True, t)" for s t
    by (cases "f s"; cases "fst (f s)") (auto simp: o_error_def)
  show ?thesis
  proof
    fix s :: "'s pb_ostream" and bs
    assume "ocallback s = No_write" "out = Some bs" "bytes_written s + length bs < SIZE_MOD"
    then show "Some (case f s of (False, s') \<Rightarrow> o_error s' msg | (True, s') \<Rightarrow> (True, s')) =
        Some (True, count_out (length bs) s)"
      using wire_encoder.sizing [OF w, of s bs] by simp
  next
    fix s :: "'s pb_ostream" and bs
    assume "out_stream s" "oerrmsg s = None" "out = Some bs" "bytes_written s + length bs \<le> max_size s"
    then show "Some (case f s of (False, s') \<Rightarrow> o_error s' msg | (True, s') \<Rightarrow> (True, s')) =
        Some (True, advance_out bs s)"
      using wire_encoder.writing [OF w, of s bs] by simp
  next
    fix s :: "'s pb_ostream" and bs
    assume "out_stream s" "oerrmsg s = None" "out = Some bs"
      "bytes_written s + length bs < SIZE_MOD" "max_size s < bytes_written s + length bs"
    then obtain t where "f s = (False, t)" using wire_encoder.full [OF w, of s bs] by auto
    then show "\<exists>s'. Some (case f s of (False, s') \<Rightarrow> o_error s' msg | (True, s') \<Rightarrow> (True, s')) =
        Some (False, s')"
      by (simp add: o_error_def)
  next
    fix s s' :: "'s pb_ostream"
    assume "enc_stream s" "out = None"
    then show "Some (case f s of (False, s') \<Rightarrow> o_error s' msg | (True, s') \<Rightarrow> (True, s')) \<noteq> Some (True, s')"
      using wire_encoder.refused [OF w, of s s'] ok by simp
  next
    fix s s' :: "'s pb_ostream"
    assume "enc_stream s" "Some (case f s of (False, s') \<Rightarrow> o_error s' msg | (True, s') \<Rightarrow> (True, s')) = Some (True, s')"
    then show "enc_stream s' \<and> ocallback s' = ocallback s"
      using wire_encoder.keeps [OF w, of s s'] ok by simp
  qed
qed

lemma wire_field:
  assumes sub: "\<And>d src. wire_encoder (enc d src) (sub d src)" and cb: "callbacks_ok E B"
  shows "wire_encoder (encode_field n E enc field p) (field_bytes n E B sub field p)"
proof -
  let ?f = "load_ptr (e_mem E) p"
  have "wire_encoder (\<lambda>s. Some (e_callback E ?f s field (p + 8))) (s_callback B ?f field (p + 8))"
    using cb by (simp add: callbacks_ok_def)
  note c = wire_callback [OF this, of "''callback error''"]
  have "wire_encoder (\<lambda>s. Some (encode_callback_field E field p s))
      (if ?f = 0 then Some [] else s_callback B ?f field (p + 8))"
    using c wire_skip by (cases "?f = 0") (simp_all add: encode_callback_field_def Let_def)
  then show ?thesis
    using wire_basic_field [where enc = enc and sub = sub, OF sub, of n E field p]
    by (auto simp: encode_field_def [abs_def] field_bytes_def wire_fail)
qed

lemma wire_extensions:
  assumes sub: "\<And>d src. wire_encoder (enc d src) (sub d src)" and cb: "callbacks_ok E B"
  shows "wire_encoder (extension_loop k n E enc x) (extension_bytes k n E B sub x)"
proof (induction k arbitrary: x)
  case 0
  show ?case using wire_skip wire_stuck by (cases "x = 0") simp_all
next
  case (Suc k)
  let ?t = "load_ptr (e_mem E) x"
  let ?field = "field_at (e_descs E) (xt_arg (e_ext_type E ?t)) 0"
  have "wire_encoder (\<lambda>s. case xt_encode (e_ext_type E ?t) of
         Some f \<Rightarrow> Some (f s x) | None \<Rightarrow> default_extension_encoder n E enc x s)
      (case xt_encode (e_ext_type E ?t) of
         Some _ \<Rightarrow> s_ext B ?t x
       | None \<Rightarrow> field_bytes n E B sub ?field
           (if PB_ATYPE (ftype ?field) = PB_ATYPE_POINTER then x + 8 else load_ptr (e_mem E) (x + 8)))"
  proof (cases "xt_encode (e_ext_type E ?t)")
    case None
    then show ?thesis
      using wire_field [where enc = enc and sub = sub, OF sub cb, of n ?field "x + 8"] wire_field [where enc = enc and sub = sub, OF sub cb, of n ?field "load_ptr (e_mem E) (x + 8)"]
      by (auto simp: default_extension_encoder_def [abs_def] Let_def)
  next
    case (Some f)
    then show ?thesis using cb by (simp add: callbacks_ok_def)
  qed
  from wire_seq [OF this Suc.IH [of "load_ptr (e_mem E) (x + 16)"]] show ?case
    using wire_skip by (cases "x = 0") (simp_all add: Let_def)
qed

lemma wire_entry:
  assumes sub: "\<And>d src. wire_encoder (enc d src) (sub d src)" and cb: "callbacks_ok E B"
  shows "wire_encoder (encode_one n E enc it) (entry_bytes n E B sub it)"
  using wire_extensions [OF sub cb] wire_field [OF sub cb]
  by (simp add: encode_one_def entry_bytes_def Let_def encode_extension_field_def)

lemma wire_seq_loop:
  assumes "\<And>x. x \<in> set xs \<Longrightarrow> wire_encoder (body x) (out x)"
  shows "wire_encoder (seq_loop body xs) (concat_opt (map out xs))"
  using assms
proof (induction xs)
  case Nil
  show ?case using wire_skip by simp
next
  case (Cons x xs)
  then show ?case using wire_seq [of "body x" "out x" "seq_loop body xs"] by (simp add: seq_loop.simps [abs_def])
qed

text \<open>The encoder meets its specification.\<close>

lemma wire_pb_encode:
  assumes D: "\<And>d. desc_ok (e_descs E) d" and cb: "callbacks_ok E B"
  shows "wire_encoder (pb_encode n E d src) (wire_message n E B d src)"
proof (induction n arbitrary: d src)
  case 0
  show ?case using wire_stuck by simp
next
  case (Suc n)
  let ?body = "\<lambda>k. encode_one n E (pb_encode n E) (iter_at (e_descs E) d src k)"
  have loop: "wire_encoder (seq_loop ?body [0..<length (e_descs E d)]) (wire_message (Suc n) E B d src)"
    by (simp only: wire_message.simps) (rule wire_seq_loop, rule wire_entry [OF Suc.IH cb])
  show ?case
  proof (cases "e_descs E d = []")
    case True
    then have "pb_encode (Suc n) E d src = (\<lambda>s. Some (True, s))"
      using iter_at_begin [OF D, of d src] by (intro ext) (simp del: iter_at.simps)
    then show ?thesis using wire_skip True by simp
  next
    case False
    then have "pb_encode (Suc n) E d src = seq_loop ?body [0..<length (e_descs E d)]"
      using iter_at_begin [OF D, of d src] iter_loop_seq [OF D, of 0 d]
      by (intro ext) (simp add: del: iter_at.simps)
    then show ?thesis using loop by simp
  qed
qed

end
