(* ===== verification/PB_Encode_Thms.thy ===== *)
theory PB_Encode_Thms
  imports PB_Encode_Spec
begin

text \<open>
  The properties of the encoder: it meets the specification \<open>wire_message\<close> on sizing streams
  and on buffers, it never succeeds on a message that has no encoding, and it returns on
  message types that do not nest without end.
\<close>

interpretation enc_varint: wire_encoder "\<lambda>s. Some (pb_encode_varint s v)" "Some (varint_bytes v)" for v
  by (rule wire_varint)

interpretation enc_tag: wire_encoder "\<lambda>s. Some (pb_encode_tag s wt n)"
  "Some (varint_bytes (tag_value wt n))" for wt n
  by (rule wire_tag)

section \<open>Entry points\<close>

lemma wire_delimited:
  assumes "\<And>d. desc_ok (e_descs E) d" "callbacks_ok E B"
  shows "wire_encoder (pb_encode_delimited n E d src) (map_option string_bytes (wire_message n E B d src))"
  unfolding pb_encode_delimited_def by (rule wire_submessage [OF wire_pb_encode [OF assms]])

lemma wire_nullterminated:
  assumes "\<And>d. desc_ok (e_descs E) d" "callbacks_ok E B"
  shows "wire_encoder (pb_encode_nullterminated n E d src) (cat (wire_message n E B d src) (Some [0]))"
  unfolding pb_encode_nullterminated_def [abs_def]
  by (rule wire_seq [OF wire_pb_encode [OF assms] wire_write]) simp_all

lemma get_encoded_size_ok:
  assumes "\<And>d. desc_ok (e_descs E) d" "callbacks_ok E B" "wire_message n E B d src = Some bs"
    "length bs < SIZE_MOD"
  shows "pb_get_encoded_size n E d src = Some (Some (length bs))"
  using wire_encoder.sizing_exact [OF wire_pb_encode [OF assms(1,2)] assms(3,4)]
  by (simp add: pb_get_encoded_size_def)

section \<open>Returning\<close>

text \<open>
  A table of descriptors in which every submessage type has a smaller rank than the type that
  contains it, no field is an extension placeholder, submessage fields have a descriptor and
  oneof fields have a \<open>which\<close> member.
\<close>

definition ranked_field :: "(nat \<Rightarrow> nat) \<Rightarrow> nat \<Rightarrow> pb_field \<Rightarrow> bool" where
  "ranked_field rank d f \<longleftrightarrow>
     PB_LTYPE (ftype f) \<noteq> PB_LTYPE_EXTENSION \<and>
     (PB_LTYPE (ftype f) = PB_LTYPE_SUBMESSAGE \<longrightarrow>
        (case fptr f of PFields d' \<Rightarrow> rank d' < rank d | _ \<Rightarrow> False)) \<and>
     (PB_HTYPE (ftype f) = PB_HTYPE_ONEOF \<longrightarrow> size_offset f \<noteq> 0)"

definition ranked :: "(nat \<Rightarrow> nat) \<Rightarrow> descs \<Rightarrow> bool" where
  "ranked rank D \<longleftrightarrow> (\<forall>d. desc_ok D d \<and> list_all (ranked_field rank d) (D d))"

lemma ranked_at:
  "ranked rank D \<Longrightarrow> k < length (D d) \<Longrightarrow>
     ranked_field rank d (iter_field D (iter_at D d base k)) \<and> desc_ok D d"
  by (auto simp: ranked_def list_all_length iter_at_field)

lemma check_total:
  assumes R: "ranked rank D"
  shows "ranked_field rank d f \<Longrightarrow> rank d < n \<Longrightarrow> pb_check_proto3_default_value n D m f p \<noteq> None"
proof (induction n arbitrary: d f p)
  case (Suc n)
  show ?case
  proof (cases "PB_LTYPE (ftype f) = PB_LTYPE_SUBMESSAGE")
    case True
    then obtain d' where d': "fptr f = PFields d'" "rank d' < rank d"
      using Suc.prems(1) by (auto simp: ranked_field_def split: pb_ptr.splits)
    let ?body = "\<lambda>it _. map_option (\<lambda>b. (b, ()))
        (pb_check_proto3_default_value n D m (iter_field D it) (pData it))"
    have ok: "desc_ok D d'" using R by (simp add: ranked_def)
    have "?body (iter_at D d' p k) st \<noteq> None" if "k < length (D d')" for k and st :: unit
    proof -
      have "ranked_field rank d' (iter_field D (iter_at D d' p k))" using ranked_at [OF R that] by blast
      moreover have "rank d' < n" using d' Suc.prems(2) by simp
      ultimately show ?thesis using Suc.IH by simp
    qed
    then have "iter_loop D ?body (iter_at D d' p 0) () \<noteq> None" if "D d' \<noteq> []"
      using iter_loop_total [OF ok that, of ?body] by blast
    then show ?thesis
      using d'(1) True iter_at_begin [OF ok, of p]
      by (cases "D d' = []") (auto simp: Let_def simp del: iter_at.simps)
  next
    case False
    then show ?thesis by (auto simp: Let_def)
  qed
qed simp

text \<open>Operations that always return.\<close>

definition returns :: "'s enc_op \<Rightarrow> bool" where
  "returns f \<longleftrightarrow> (\<forall>s. f s \<noteq> None)"

lemma returns_seq: "returns f \<Longrightarrow> returns g \<Longrightarrow> returns (\<lambda>s. and_then_opt (f s) g)"
  by (auto simp: returns_def and_then_opt_None)

lemma returns_Some [simp]: "returns (\<lambda>s. Some (f s))"
  by (simp add: returns_def)

lemma returns_if [simp]:
  "returns (if b then f else g) \<longleftrightarrow> (if b then returns f else returns g)"
  by simp

lemma returns_submessage:
  assumes "returns enc"
  shows "returns (pb_encode_submessage null enc)"
proof -
  have e: "enc s \<noteq> None" for s using assms by (simp add: returns_def)
  show ?thesis
    unfolding returns_def pb_encode_submessage_def Let_def and_then_opt_def
    by (auto simp: e split: option.split prod.split bool.split)
qed

lemma returns_items: "(\<And>p. returns (func field p)) \<Longrightarrow> returns (encode_items func field n p)"
proof (induction n arbitrary: p)
  case (Suc n)
  then have "returns (encode_items func field n q)" for q by blast
  then show ?case using Suc.prems by (auto simp: returns_def and_then_opt_None)
qed (simp add: returns_def)

lemma returns_tagged_items:
  "(\<And>p. returns (func field p)) \<Longrightarrow> returns (encode_tagged_items m func field n p)"
proof (induction n arbitrary: p)
  case (Suc n)
  then have "returns (encode_tagged_items m func field n q)" for q by blast
  then show ?case using Suc.prems by (auto simp: returns_def and_then_opt_None)
qed (simp add: returns_def)

lemma returns_array:
  assumes "\<And>p. returns (func field p)"
  shows "returns (encode_array E func field p n)"
proof -
  have items: "encode_items func field n p s \<noteq> None" "encode_tagged_items (e_mem E) func field n p s \<noteq> None" for s
    using returns_items [where func = func and field = field, OF assms]
      returns_tagged_items [where func = func and field = field, OF assms]
    by (auto simp: returns_def)
  have "packed_size (e_null E) func field p n \<noteq> None"
    by (auto simp: packed_size_def items(1) split: option.split prod.split)
  then show ?thesis
    by (auto simp: returns_def encode_array_def and_then_opt_None items simp del: not_None_eq
        split: option.splits)
qed

lemma returns_value:
  assumes "\<And>d' src. PB_LTYPE (ftype field) = 8 \<Longrightarrow> fptr field = PFields d' \<Longrightarrow> returns (enc d' src)"
    "ranked_field rank d field"
    "field_tag_bytes field \<noteq> None"
  shows "returns (PB_ENCODERS E enc (PB_LTYPE (ftype field)) field p)"
proof -
  have "returns (pb_enc_submessage (e_null E) enc field p)" if lt: "PB_LTYPE (ftype field) = 8"
  proof -
    obtain d' where "fptr field = PFields d'"
      using assms(2) lt by (auto simp: ranked_field_def split: pb_ptr.splits)
    then show ?thesis
      using returns_submessage [OF assms(1) [OF lt]] by (simp add: pb_enc_submessage_def [abs_def])
  qed
  moreover have "PB_LTYPE (ftype field) \<in> {0, 1, 2, 3, 4, 5, 6, 7, 8, 10}"
  proof -
    have le3: "w \<le> (3 :: u8) \<Longrightarrow> w \<in> {0, 1, 2, 3}" for w
    proof -
      assume "w \<le> 3"
      then have "unat w \<in> {0, 1, 2, 3}" by (auto simp: word_le_nat_alt)
      then show ?thesis by (auto simp: word_unat_eq_iff)
    qed
    show ?thesis using assms(3) le3 by (auto simp: field_tag_bytes_def Let_def split: if_splits)
  qed
  ultimately show ?thesis by (auto simp: PB_ENCODERS_def [abs_def] returns_def Let_def)
qed

text \<open>A null table entry is never called: the tag of such a field is refused first.\<close>

lemma untagged_refused:
  "field_tag_bytes field = None \<Longrightarrow> pb_encode_tag_for_field field s \<noteq> (True, t)"
  by (auto simp: field_tag_bytes_def pb_encode_tag_for_field_def Let_def o_error_def split: if_splits)

lemma le5_cases: "w \<le> (5 :: u8) \<longleftrightarrow> w \<le> 3 \<or> w = 4 \<or> w = 5"
proof -
  have "w \<le> 5 \<longleftrightarrow> unat w \<le> 3 \<or> unat w = 4 \<or> unat w = 5" by (auto simp: word_le_nat_alt)
  then show ?thesis by (auto simp: word_unat_eq_iff word_le_nat_alt)
qed

lemma returns_basic_field:
  assumes sub: "\<And>d' src. PB_LTYPE (ftype field) = 8 \<Longrightarrow> fptr field = PFields d' \<Longrightarrow> returns (enc d' src)"
    and r: "ranked_field rank d field"
    and check: "pb_check_proto3_default_value n (e_descs E) (e_mem E) field p \<noteq> None"
  shows "returns (encode_basic_field n E enc field p)"
proof -
  let ?f = "PB_ENCODERS E enc (PB_LTYPE (ftype field))"
  have rv: "returns (?f field q)" if "field_tag_bytes field \<noteq> None" for q
    by (rule returns_value [OF _ r that]) (rule sub)
  have tv: "returns (encode_tag_and_value ?f field q)" for q
  proof (cases "field_tag_bytes field = None")
    case True
    then show ?thesis
      by (auto simp: returns_def encode_tag_and_value_def and_then_opt_None
          untagged_refused [OF True] simp del: not_None_eq)
  next
    case False
    then show ?thesis
      using returns_seq [OF returns_Some rv [OF False]]
      by (simp add: encode_tag_and_value_def [abs_def])
  qed
  have ar: "returns (encode_array E ?f field q k)" for q k
  proof (cases "field_tag_bytes field = None")
    case True
    then have "\<not> PB_LTYPE (ftype field) \<le> 5"
      by (auto simp: field_tag_bytes_def Let_def le5_cases split: if_splits)
    then show ?thesis
      by (cases k) (auto simp: returns_def encode_array_def and_then_opt_None
          untagged_refused [OF True] simp del: not_None_eq)
  next
    case False
    then show ?thesis by (intro returns_array rv)
  qed
  show ?thesis
    using tv ar check r htype_cases [of "ftype field"]
    by (auto simp: returns_def encode_basic_field_def Let_def ranked_field_def split: option.split)
qed

lemma pb_encode_returns_ranked:
  assumes R: "ranked rank (e_descs E)"
  shows "rank d + 1 < n \<Longrightarrow> returns (pb_encode n E d src)"
proof (induction n arbitrary: d src)
  case (Suc n)
  let ?D = "e_descs E"
  have ok: "desc_ok ?D d" using R by (simp add: ranked_def)
  have "encode_one n E (pb_encode n E) (iter_at ?D d src k) st \<noteq> None" if k: "k < length (?D d)" for k st
  proof -
    let ?f = "iter_field ?D (iter_at ?D d src k)"
    have rf: "ranked_field rank d ?f" using ranked_at [OF R k] by blast
    have sub: "returns (pb_encode n E d' p)" if "PB_LTYPE (ftype ?f) = 8" "fptr ?f = PFields d'" for d' p
      using Suc rf that by (auto simp: ranked_field_def)
    have "pb_check_proto3_default_value n ?D (e_mem E) ?f p \<noteq> None" for p
      using Suc.prems by (intro check_total [OF R rf]) simp
    then have "returns (encode_basic_field n E (pb_encode n E) ?f (pData (iter_at ?D d src k)))"
      by (intro returns_basic_field [OF _ rf] sub)
    then have "returns (encode_field n E (pb_encode n E) ?f (pData (iter_at ?D d src k)))"
      by (simp add: encode_field_def [abs_def] returns_def)
    then show ?thesis using rf by (simp add: encode_one_def Let_def ranked_field_def returns_def)
  qed
  then have "iter_loop ?D (encode_one n E (pb_encode n E)) (iter_at ?D d src 0) s \<noteq> None" if "?D d \<noteq> []" for s
    by (rule iter_loop_total [OF ok that])
  then show ?case
    using iter_at_begin [OF ok, of src]
    by (cases "?D d = []") (auto simp: returns_def simp del: iter_at.simps)
qed simp

section \<open>A sample message\<close>

text \<open>
  A structure with a required \<open>int32\<close> at offset 0, an optional string of at most 8 characters at
  offset 5 whose \<open>has\<close> flag is at offset 4, and a submessage with one \<open>uint32\<close> at offset 16.
\<close>

definition sample_descs :: descs where
  "sample_descs d =
     (if d = 0 then
        [\<lparr>ftag = 1, ftype = 0x01, data_offset = 0, size_offset = 0, data_size = 4, array_size = 0, fptr = PNull\<rparr>,
         \<lparr>ftag = 2, ftype = 0x17, data_offset = 1, size_offset = -1, data_size = 8, array_size = 0, fptr = PNull\<rparr>,
         \<lparr>ftag = 3, ftype = 0x08, data_offset = 3, size_offset = 0, data_size = 4, array_size = 0, fptr = PFields 1\<rparr>]
      else if d = 1 then
        [\<lparr>ftag = 1, ftype = 0x02, data_offset = 0, size_offset = 0, data_size = 4, array_size = 0, fptr = PNull\<rparr>]
      else [])"

definition sample_struct :: "u8 list" where
  "sample_struct = [0x96, 0, 0, 0, 1, 0x68, 0x69, 0, 0, 0, 0, 0, 0, 0, 0, 0, 7, 0, 0, 0]"

definition sample_env :: "unit enc_env" where
  "sample_env =
     \<lparr>e_descs = sample_descs, e_mem = mem_write (\<lambda>_. 0) 1000 sample_struct, e_null = (),
      e_callback = (\<lambda>_ s _ _. o_error s ''none''),
      e_ext_type = (\<lambda>_. \<lparr>xt_encode = None, xt_arg = 0\<rparr>)\<rparr>"

definition sample_spec :: enc_spec where
  "sample_spec = \<lparr>s_callback = (\<lambda>_ _ _. None), s_ext = (\<lambda>_ _. None)\<rparr>"

definition sample_bytes :: "u8 list" where
  "sample_bytes = [0x08, 0x96, 0x01, 0x12, 0x02, 0x68, 0x69, 0x1A, 0x02, 0x08, 0x07]"

lemma sample_desc_ok: "desc_ok (e_descs sample_env) d"
  by (simp add: sample_env_def sample_descs_def desc_ok_def)

lemma sample_callbacks_ok: "callbacks_ok sample_env sample_spec"
  by (auto simp: callbacks_ok_def sample_env_def sample_spec_def intro: wire_fail)

lemma sample_ranked: "ranked (\<lambda>d. if d = 0 then 1 else 0) (e_descs sample_env)"
  by (simp add: ranked_def sample_env_def sample_descs_def desc_ok_def ranked_field_def
      PB_LTYPE_def PB_HTYPE_def)

lemma sample_wire: "wire_message 4 sample_env sample_spec 0 1000 = Some sample_bytes"
  by code_simp

lemma sample_length: "length sample_bytes = 11"
  by (simp add: sample_bytes_def)

section \<open>Properties\<close>

text \<open>
  C1: The encoder implements the wire format: for a message with the encoding \<open>bs\<close>,
  \<open>pb_get_encoded_size\<close> reports its exact length, \<open>pb_encode\<close> into a buffer that has room for it
  succeeds and stores exactly \<open>bs\<close>, and into any smaller buffer it returns false.
\<close>
theorem pb_encode_refines_wire:
  assumes "\<And>d. desc_ok (e_descs E) d" "callbacks_ok E B"
    and "wire_message n E B d src = Some bs" "length bs < SIZE_MOD" "cap < SIZE_MOD"
  shows "pb_get_encoded_size n E d src = Some (Some (length bs)) \<and>
    (length bs \<le> cap \<longrightarrow> pb_encode n E d src (pb_ostream_from_buffer cap u) =
        Some (True, advance_out bs (pb_ostream_from_buffer cap u))) \<and>
    (cap < length bs \<longrightarrow> (\<exists>s'. pb_encode n E d src (pb_ostream_from_buffer cap u) = Some (False, s')))"
proof -
  note w = wire_pb_encode [OF assms(1,2), of n d src]
  have "out_stream (pb_ostream_from_buffer cap u)" using assms(5) by (simp add: out_stream_def)
  then show ?thesis
    using get_encoded_size_ok [OF assms(1-4)] wire_encoder.succeeds_iff(2) [OF w assms(3-5)]
      wire_encoder.full [OF w, of "pb_ostream_from_buffer cap u" bs] assms(3,4)
    by simp
qed

theorem pb_encode_refines_wire_witness:
  "pb_get_encoded_size 4 sample_env 0 1000 = Some (Some 11) \<and>
   pb_encode 4 sample_env 0 1000 (pb_ostream_from_buffer 16 ()) =
     Some (True, advance_out sample_bytes (pb_ostream_from_buffer 16 ()))"
  using pb_encode_refines_wire [OF sample_desc_ok sample_callbacks_ok sample_wire, of 16 "()"]
  by (simp add: sample_length)

text \<open>
  C6: A message that has no encoding (a null required pointer, an array longer than its
  declared maximum, a bytes field longer than its buffer, an unsupported integer width, a
  failing callback) is never encoded successfully, neither by a sizing pass nor into a buffer.
\<close>
theorem pb_encode_refuses_unencodable:
  assumes "\<And>d. desc_ok (e_descs E) d" "callbacks_ok E B"
    and "wire_message n E B d src = None" "enc_stream s"
  shows "pb_encode n E d src s \<noteq> Some (True, s')"
  using wire_encoder.refused [OF wire_pb_encode [OF assms(1,2)] assms(4,3)] by simp

definition bad_width_env :: "unit enc_env" where
  "bad_width_env = sample_env\<lparr>e_descs := (\<lambda>d.
     [\<lparr>ftag = 1, ftype = 0x01, data_offset = 0, size_offset = 0, data_size = 3, array_size = 0, fptr = PNull\<rparr>])\<rparr>"

theorem pb_encode_refuses_unencodable_witness:
  "\<forall>s'. pb_encode 2 bad_width_env 0 1000 (PB_OSTREAM_SIZING ()) \<noteq> Some (True, s')"
proof
  fix s'

  have "wire_message 2 bad_width_env sample_spec 0 1000 = None" by code_simp
  moreover have "callbacks_ok bad_width_env sample_spec"
    using sample_callbacks_ok by (simp add: callbacks_ok_def bad_width_env_def)
  moreover have "desc_ok (e_descs bad_width_env) d" for d by (simp add: bad_width_env_def desc_ok_def)
  ultimately show "pb_encode 2 bad_width_env 0 1000 (PB_OSTREAM_SIZING ()) \<noteq> Some (True, s')"
    by (intro pb_encode_refuses_unencodable) (simp_all add: enc_stream_def)
qed

text \<open>
  C7: \<open>pb_encode_delimited\<close> writes the length of the message as a varint and then the message,
  the two passes over the submessage giving the same bytes; \<open>pb_encode_nullterminated\<close> writes the
  message and a zero byte.
\<close>
theorem pb_encode_framing:
  assumes "\<And>d. desc_ok (e_descs E) d" "callbacks_ok E B"
    and "wire_message n E B d src = Some bs" "length bs + 10 \<le> cap" "cap < SIZE_MOD"
  shows "pb_encode_delimited n E d src (pb_ostream_from_buffer cap u) =
      Some (True, advance_out (varint_bytes (word_of_nat (length bs)) @ bs) (pb_ostream_from_buffer cap u)) \<and>
    pb_encode_nullterminated n E d src (pb_ostream_from_buffer cap u) =
      Some (True, advance_out (bs @ [0]) (pb_ostream_from_buffer cap u))"
proof -
  have l: "length (string_bytes bs) \<le> cap" "length (bs @ [0]) \<le> cap"
    using assms(4) length_varint_bytes [of "word_of_nat (length bs)"] by (auto simp: string_bytes_def)
  then have "length (string_bytes bs) < SIZE_MOD" "length (bs @ [0]) < SIZE_MOD"
    using assms(5) by linarith+
  then show ?thesis
    using wire_encoder.succeeds_iff(2) [OF wire_delimited [OF assms(1,2)] _ _ assms(5) l(1)]
      wire_encoder.succeeds_iff(2) [OF wire_nullterminated [OF assms(1,2)] _ _ assms(5) l(2)] assms(3)
    by (simp add: string_bytes_def)
qed

theorem pb_encode_framing_witness:
  "pb_encode_delimited 4 sample_env 0 1000 (pb_ostream_from_buffer 32 ()) =
     Some (True, advance_out (varint_bytes 11 @ sample_bytes) (pb_ostream_from_buffer 32 ()))"
  using pb_encode_framing [OF sample_desc_ok sample_callbacks_ok sample_wire, of 32 "()"]
  by (simp add: sample_length)

text \<open>
  C8: On message types in which submessages nest only downwards in some rank and which have no
  extensions, \<open>pb_encode\<close> returns whatever the message structure and the stream contain: a fuel
  of two more than the rank is enough.
\<close>
theorem pb_encode_returns:
  assumes "ranked rank (e_descs E)" "rank d + 1 < n"
  shows "\<exists>ok s'. pb_encode n E d src s = Some (ok, s')"
  using pb_encode_returns_ranked [OF assms, of src] by (auto simp: returns_def)

theorem pb_encode_returns_witness:
  "\<exists>ok s'. pb_encode 4 sample_env 0 5 (PB_OSTREAM_SIZING ()) = Some (ok, s')"
  by (rule pb_encode_returns [OF sample_ranked]) simp

end
