(* ===== verification/PB_Dec_Fields.thy ===== *)
theory PB_Dec_Fields
  imports PB_Desc
begin

text \<open>
  The field decoders of \<open>pb_decode.c\<close> (\<open>pb_dec_bool\<close> to \<open>pb_dec_fixed_length_bytes\<close>) and the
  allocation of pointer fields (\<open>allocate_field\<close>), on a byte memory with a record of the live
  heap blocks.

  An operation takes the heap and the stream and gives the return value with the new heap and
  stream. \<open>None\<close> is a call that has no defined result: a block that is not live is
  reallocated or freed, or a bound on a loop is reached. Where the allocator puts a block is a
  parameter (\<open>d_place\<close>, 0 when it fails); \<open>realloc\<close> then moves the old contents there.
\<close>

record heap =
  mem :: memory
  live :: "int \<Rightarrow> nat option"

record 's pb_extension_dec =
  xd_decode :: "('s pb_istream \<Rightarrow> int \<Rightarrow> u32 \<Rightarrow> pb_wire_type \<Rightarrow> heap \<Rightarrow> bool \<times> heap \<times> 's pb_istream) option"
  xd_arg :: nat

record 's dec_env =
  d_descs :: descs
  d_place :: "heap \<Rightarrow> int \<Rightarrow> nat \<Rightarrow> int"
  d_callback :: "int \<Rightarrow> 's pb_istream \<Rightarrow> pb_field \<Rightarrow> int \<Rightarrow> heap \<Rightarrow> bool \<times> heap \<times> 's pb_istream"
  d_ext_type :: "int \<Rightarrow> 's pb_extension_dec"

type_synonym 's dec_op = "heap \<times> 's pb_istream \<Rightarrow> (bool \<times> heap \<times> 's pb_istream) option"

definition i_error :: "heap \<Rightarrow> 's pb_istream \<Rightarrow> string \<Rightarrow> bool \<times> heap \<times> 's pb_istream" where
  "i_error h s msg = (False, h, set_ierror s msg)"

section \<open>The allocator\<close>

definition pb_realloc :: "'s dec_env \<Rightarrow> heap \<Rightarrow> int \<Rightarrow> nat \<Rightarrow> (int \<times> heap) option" where
  "pb_realloc E h ptr sz =
     (if ptr \<noteq> 0 \<and> live h ptr = None then None
      else let q = d_place E h ptr sz in
        if q = 0 then Some (0, h)
        else let old = (case live h ptr of None \<Rightarrow> [] | Some n \<Rightarrow> mem_read (mem h) ptr (min n sz)) in
          Some (q, h\<lparr>mem := mem_write (mem h) q (if ptr = 0 then [] else old),
                     live := (live h)(ptr := None, q := Some sz)\<rparr>))"

definition pb_free :: "heap \<Rightarrow> int \<Rightarrow> heap option" where
  "pb_free h p =
     (if p = 0 then Some h
      else if live h p = None then None
      else Some (h\<lparr>live := (live h)(p := None)\<rparr>))"

definition allocate_field :: "'s dec_env \<Rightarrow> int \<Rightarrow> nat \<Rightarrow> nat \<Rightarrow> 's dec_op" where
  "allocate_field E p dsize asize = (\<lambda>(h, s).
     let ptr = load_ptr (mem h) p in
     if dsize = 0 \<or> asize = 0 then Some (i_error h s ''invalid size'')
     else if (2 ^ 32 \<le> dsize \<or> 2 ^ 32 \<le> asize) \<and> (SIZE_MOD - 1) div asize < dsize
     then Some (i_error h s ''size too large'')
     else (case pb_realloc E h ptr ((asize * dsize) mod SIZE_MOD) of
             None \<Rightarrow> None
           | Some (q, h') \<Rightarrow>
               if q = 0 then Some (i_error h' s ''realloc failed'')
               else Some (True, h'\<lparr>mem := store_ptr (mem h') p q\<rparr>, s)))"

section \<open>Integer fields\<close>

text \<open>
  \<open>clamped = *(intN_t *)dest = (intN_t)svalue\<close>: the memory after the store and the stored value
  extended to 64 bits again, or \<open>None\<close> for an unsupported \<open>data_size\<close>.
\<close>

definition store_signed :: "memory \<Rightarrow> u32 \<Rightarrow> int \<Rightarrow> u64 \<Rightarrow> (memory \<times> u64) option" where
  "store_signed m sz dest svalue =
     (if sz = 8 then Some (store_u64 m dest svalue, svalue)
      else if sz = 4 then Some (store_u32 m dest (ucast svalue), scast (ucast svalue :: u32))
      else if sz = 2 then Some (store_u16 m dest (ucast svalue), scast (ucast svalue :: u16))
      else if sz = 1 then Some (m(dest := ucast svalue), scast (ucast svalue :: u8))
      else None)"

definition store_unsigned :: "memory \<Rightarrow> u32 \<Rightarrow> int \<Rightarrow> u64 \<Rightarrow> (memory \<times> u64) option" where
  "store_unsigned m sz dest value =
     (if sz = 8 then Some (store_u64 m dest value, value)
      else if sz = 4 then Some (store_u32 m dest (ucast value), ucast (ucast value :: u32))
      else if sz = 2 then Some (store_u16 m dest (ucast value), ucast (ucast value :: u16))
      else if sz = 1 then Some (m(dest := ucast value), ucast (ucast value :: u8))
      else None)"

definition store_checked ::
  "(memory \<times> u64) option \<Rightarrow> u64 \<Rightarrow> heap \<Rightarrow> 's pb_istream \<Rightarrow> bool \<times> heap \<times> 's pb_istream" where
  "store_checked r value h s =
     (case r of
        None \<Rightarrow> i_error h s ''invalid data_size''
      | Some (m, clamped) \<Rightarrow>
          if clamped \<noteq> value then i_error (h\<lparr>mem := m\<rparr>) s ''integer too large''
          else (True, h\<lparr>mem := m\<rparr>, s))"

definition pb_dec_bool :: "pb_field \<Rightarrow> int \<Rightarrow> heap \<times> 's pb_istream \<Rightarrow> bool \<times> heap \<times> 's pb_istream" where
  "pb_dec_bool field dest = (\<lambda>(h, s).
     case pb_decode_varint32 s of
       (None, s') \<Rightarrow> (False, h, s')
     | (Some value, s') \<Rightarrow> (True, h\<lparr>mem := (mem h)(dest := (if value \<noteq> 0 then 1 else 0))\<rparr>, s'))"

definition pb_dec_varint :: "pb_field \<Rightarrow> int \<Rightarrow> heap \<times> 's pb_istream \<Rightarrow> bool \<times> heap \<times> 's pb_istream" where
  "pb_dec_varint field dest = (\<lambda>(h, s).
     case pb_decode_varint s of
       (None, s') \<Rightarrow> (False, h, s')
     | (Some value, s') \<Rightarrow>
         let svalue = (if data_size field = 8 then value else scast (ucast value :: u32)) in
         store_checked (store_signed (mem h) (data_size field) dest svalue) svalue h s')"

definition pb_dec_uvarint :: "pb_field \<Rightarrow> int \<Rightarrow> heap \<times> 's pb_istream \<Rightarrow> bool \<times> heap \<times> 's pb_istream" where
  "pb_dec_uvarint field dest = (\<lambda>(h, s).
     case pb_decode_varint s of
       (None, s') \<Rightarrow> (False, h, s')
     | (Some value, s') \<Rightarrow>
         store_checked (store_unsigned (mem h) (data_size field) dest value) value h s')"

definition pb_dec_svarint :: "pb_field \<Rightarrow> int \<Rightarrow> heap \<times> 's pb_istream \<Rightarrow> bool \<times> heap \<times> 's pb_istream" where
  "pb_dec_svarint field dest = (\<lambda>(h, s).
     case pb_decode_svarint s of
       (None, s') \<Rightarrow> (False, h, s')
     | (Some value, s') \<Rightarrow>
         store_checked (store_signed (mem h) (data_size field) dest value) value h s')"

definition pb_dec_fixed32 :: "pb_field \<Rightarrow> int \<Rightarrow> heap \<times> 's pb_istream \<Rightarrow> bool \<times> heap \<times> 's pb_istream" where
  "pb_dec_fixed32 field dest = (\<lambda>(h, s).
     case pb_decode_fixed32 s of
       (None, s') \<Rightarrow> (False, h, s')
     | (Some value, s') \<Rightarrow> (True, h\<lparr>mem := store_u32 (mem h) dest value\<rparr>, s'))"

definition pb_dec_fixed64 :: "pb_field \<Rightarrow> int \<Rightarrow> heap \<times> 's pb_istream \<Rightarrow> bool \<times> heap \<times> 's pb_istream" where
  "pb_dec_fixed64 field dest = (\<lambda>(h, s).
     case pb_decode_fixed64 s of
       (None, s') \<Rightarrow> (False, h, s')
     | (Some value, s') \<Rightarrow> (True, h\<lparr>mem := store_u64 (mem h) dest value\<rparr>, s'))"

section \<open>Bytes and strings\<close>

text \<open>\<open>pb_read(stream, dest, n)\<close> into memory.\<close>

definition read_to :: "int \<Rightarrow> nat \<Rightarrow> heap \<times> 's pb_istream \<Rightarrow> bool \<times> heap \<times> 's pb_istream" where
  "read_to dest n = (\<lambda>(h, s).
     case pb_read s True n of
       (None, s') \<Rightarrow> (False, h, s')
     | (Some bs, s') \<Rightarrow> (True, h\<lparr>mem := mem_write (mem h) dest bs\<rparr>, s'))"

definition pb_dec_bytes :: "'s dec_env \<Rightarrow> pb_field \<Rightarrow> int \<Rightarrow> 's dec_op" where
  "pb_dec_bytes E field dest = (\<lambda>(h, s).
     case pb_decode_varint32 s of
       (None, s') \<Rightarrow> Some (False, h, s')
     | (Some sz, s') \<Rightarrow>
         let alloc_size = size_add (unat sz) 4;
             store = (\<lambda>bdest (h, s). Some (read_to (bdest + 4) (unat sz)
                        (h\<lparr>mem := store_u32 (mem h) bdest sz\<rparr>, s))) in
         if PB_SIZE_MAX < sz then Some (i_error h s' ''bytes overflow'')
         else if alloc_size < unat sz then Some (i_error h s' ''size too large'')
         else if PB_ATYPE (ftype field) = PB_ATYPE_POINTER then
           if bytes_left s' < unat sz then Some (i_error h s' ''end-of-stream'')
           else and_then_opt (allocate_field E dest alloc_size 1 (h, s'))
                  (\<lambda>(h, s). store (load_ptr (mem h) dest) (h, s))
         else if unat (data_size field) < alloc_size then Some (i_error h s' ''bytes overflow'')
         else store dest (h, s'))"

definition pb_dec_string :: "'s dec_env \<Rightarrow> pb_field \<Rightarrow> int \<Rightarrow> 's dec_op" where
  "pb_dec_string E field dest = (\<lambda>(h, s).
     case pb_decode_varint32 s of
       (None, s') \<Rightarrow> Some (False, h, s')
     | (Some sz, s') \<Rightarrow>
         let alloc_size = unat (sz + 1);
             store = (\<lambda>d st. case read_to d (unat sz) st of
                        (status, h, s) \<Rightarrow> Some (status, h\<lparr>mem := (mem h)(d + int (unat sz) := 0)\<rparr>, s)) in
         if alloc_size < unat sz then Some (i_error h s' ''size too large'')
         else if PB_ATYPE (ftype field) = PB_ATYPE_POINTER then
           if bytes_left s' < unat sz then Some (i_error h s' ''end-of-stream'')
           else and_then_opt (allocate_field E dest alloc_size 1 (h, s'))
                  (\<lambda>(h, s). store (load_ptr (mem h) dest) (h, s))
         else if unat (data_size field) < alloc_size then Some (i_error h s' ''string overflow'')
         else store dest (h, s'))"

definition pb_dec_fixed_length_bytes ::
  "pb_field \<Rightarrow> int \<Rightarrow> heap \<times> 's pb_istream \<Rightarrow> bool \<times> heap \<times> 's pb_istream" where
  "pb_dec_fixed_length_bytes field dest = (\<lambda>(h, s).
     case pb_decode_varint32 s of
       (None, s') \<Rightarrow> (False, h, s')
     | (Some sz, s') \<Rightarrow>
         if PB_SIZE_MAX < sz then i_error h s' ''bytes overflow''
         else if sz = 0
         then (True, h\<lparr>mem := mem_write (mem h) dest (replicate (unat (data_size field)) 0)\<rparr>, s')
         else if sz \<noteq> data_size field then i_error h s' ''incorrect fixed length bytes size''
         else read_to dest (unat (data_size field)) (h, s'))"

end
