(* ===== verification/PB_Decode.thy ===== *)
theory PB_Decode
  imports PB_Dec_Fields "HOL-Library.Monad_Syntax"
begin

text \<open>
  The message decoder of \<open>pb_decode.c\<close>: release of pointer fields, initialisation to default
  values, the decoding of one field for the three allocation types, extensions, the field loop
  of \<open>pb_decode_noinit\<close> with its check of required and fixed-count fields, and the entry points.

  The recursion through submessages, extension lists and user callbacks is bounded by a fuel
  argument, as in \<open>PB_Encode\<close>. The local variable \<open>fixed_count_size\<close> of a call of
  \<open>pb_decode_noinit\<close>, whose address is stored in the iterator, lives at a negative address
  (\<open>stack_slot\<close>) that differs between nested calls.
\<close>

section \<open>Extensions as iterators\<close>

definition iter_from_extension :: "'s dec_env \<Rightarrow> heap \<Rightarrow> int \<Rightarrow> pb_field_iter" where
  "iter_from_extension E h ext =
     (let arg = xd_arg (d_ext_type E (load_ptr (mem h) ext));
          field = field_at (d_descs E) arg 0;
          dest = load_ptr (mem h) (ext + 8);
          it = snd (pb_field_iter_begin (d_descs E) arg dest) in
      it\<lparr>pData := (if PB_ATYPE (ftype field) = PB_ATYPE_POINTER then ext + 8 else dest),
         pSize := ext + 24\<rparr>)"

section \<open>Release\<close>

text \<open>\<open>pb_release\<close> over the release of one field.\<close>

definition release_message ::
  "'s dec_env \<Rightarrow> (pb_field_iter \<Rightarrow> heap \<Rightarrow> heap option) \<Rightarrow> nat \<Rightarrow> int \<Rightarrow> heap \<Rightarrow> heap option" where
  "release_message E rel flds dest h =
     (if dest = 0 then Some h
      else (case pb_field_iter_begin (d_descs E) flds dest of
              (False, _) \<Rightarrow> Some h
            | (True, it) \<Rightarrow>
                map_option snd
                  (iter_loop (d_descs E) (\<lambda>it h. map_option (Pair True) (rel it h)) it h)))"

primrec release_items ::
  "(int \<Rightarrow> heap \<Rightarrow> heap option) \<Rightarrow> nat \<Rightarrow> nat \<Rightarrow> int \<Rightarrow> heap \<Rightarrow> heap option" where
  "release_items rel dsize 0 pItem h = Some h"
| "release_items rel dsize (Suc n) pItem h =
     do { h \<leftarrow> rel pItem h; release_items rel dsize n (pItem + int dsize) h }"

primrec free_entries :: "nat \<Rightarrow> int \<Rightarrow> heap \<Rightarrow> heap option" where
  "free_entries 0 pItem h = Some h"
| "free_entries (Suc n) pItem h =
     do { h \<leftarrow> pb_free h (load_ptr (mem h) pItem);
          free_entries n (pItem + 8) (h\<lparr>mem := store_ptr (mem h) pItem 0\<rparr>) }"

primrec release_extensions ::
  "nat \<Rightarrow> 's dec_env \<Rightarrow> (pb_field_iter \<Rightarrow> heap \<Rightarrow> heap option) \<Rightarrow> int \<Rightarrow> heap \<Rightarrow> heap option" where
  "release_extensions 0 E rel ext h = (if ext = 0 then Some h else None)"
| "release_extensions (Suc k) E rel ext h =
     (if ext = 0 then Some h
      else do { h \<leftarrow> rel (iter_from_extension E h ext) h;
                release_extensions k E rel (load_ptr (mem h) (ext + 16)) h })"

text \<open>What a submessage field, or an array of them, contains.\<close>

definition release_submessages ::
  "'s dec_env \<Rightarrow> (pb_field_iter \<Rightarrow> heap \<Rightarrow> heap option) \<Rightarrow> pb_field_iter \<Rightarrow> heap \<Rightarrow> heap option" where
  "release_submessages E rel it h =
     (let field = iter_field (d_descs E) it; type = ftype field;
          pItem = (if PB_ATYPE type = PB_ATYPE_POINTER then load_ptr (mem h) (pData it) else pData it);
          count = (if PB_HTYPE type = PB_HTYPE_REPEATED then
                     let c = (if PB_ATYPE type = PB_ATYPE_STATIC \<and> pSize it = pData it
                              then array_size field else load_u32 (mem h) (pSize it)) in
                     if PB_ATYPE type = PB_ATYPE_STATIC \<and> array_size field < c then array_size field else c
                   else 1) in
      if pItem \<noteq> 0 \<and> count \<noteq> 0 then
        (case fptr field of
           PFields d \<Rightarrow> release_items (release_message E rel d) (unat (data_size field)) (unat count) pItem h
         | _ \<Rightarrow> None)
      else Some h)"

definition release_pointer :: "'s dec_env \<Rightarrow> pb_field_iter \<Rightarrow> heap \<Rightarrow> heap option" where
  "release_pointer E it h =
     (let type = ftype (iter_field (d_descs E) it) in
      do { h \<leftarrow> (if PB_HTYPE type = PB_HTYPE_REPEATED \<and>
                    (PB_LTYPE type = PB_LTYPE_STRING \<or> PB_LTYPE type = PB_LTYPE_BYTES)
                 then free_entries (unat (load_u32 (mem h) (pSize it))) (load_ptr (mem h) (pData it)) h
                 else Some h);
           let h = (if PB_HTYPE type = PB_HTYPE_REPEATED
                    then h\<lparr>mem := store_u32 (mem h) (pSize it) 0\<rparr> else h);
           h \<leftarrow> pb_free h (load_ptr (mem h) (pData it));
           Some (h\<lparr>mem := store_ptr (mem h) (pData it) 0\<rparr>) })"

primrec pb_release_single_field :: "nat \<Rightarrow> 's dec_env \<Rightarrow> pb_field_iter \<Rightarrow> heap \<Rightarrow> heap option" where
  "pb_release_single_field 0 E it h = None"
| "pb_release_single_field (Suc n) E it h =
     (let field = iter_field (d_descs E) it; type = ftype field in
      if PB_HTYPE type = PB_HTYPE_ONEOF \<and> load_u32 (mem h) (pSize it) \<noteq> ftag field then Some h
      else do {
        h \<leftarrow> (if PB_LTYPE type = PB_LTYPE_EXTENSION
              then release_extensions n E (pb_release_single_field n E) (load_ptr (mem h) (pData it)) h
              else if PB_LTYPE type = PB_LTYPE_SUBMESSAGE \<and> PB_ATYPE type \<noteq> PB_ATYPE_CALLBACK
              then release_submessages E (pb_release_single_field n E) it h
              else Some h);
        if PB_ATYPE type = PB_ATYPE_POINTER then release_pointer E it h else Some h })"

definition pb_release :: "nat \<Rightarrow> 's dec_env \<Rightarrow> nat \<Rightarrow> int \<Rightarrow> heap \<Rightarrow> heap option" where
  "pb_release n E = release_message E (pb_release_single_field n E)"

text \<open>The iterator is moved to the old member of the union and back.\<close>

definition pb_release_union_field ::
  "nat \<Rightarrow> 's dec_env \<Rightarrow> pb_field_iter \<times> heap \<times> 's pb_istream \<Rightarrow>
     (bool \<times> pb_field_iter \<times> heap \<times> 's pb_istream) option" where
  "pb_release_union_field n E = (\<lambda>(it, h, s).
     let D = d_descs E; old_tag = load_u32 (mem h) (pSize it); new_tag = ftag (iter_field D it) in
     if old_tag = 0 \<or> old_tag = new_tag then Some (True, it, h, s)
     else (case pb_field_iter_find D it old_tag of
             None \<Rightarrow> None
           | Some (False, it) \<Rightarrow> Some (False, it, h, set_ierror s ''invalid union tag'')
           | Some (True, it) \<Rightarrow>
               do { h \<leftarrow> pb_release_single_field n E it h;
                    (case pb_field_iter_find D it new_tag of
                       None \<Rightarrow> None
                     | Some (False, it) \<Rightarrow> Some (False, it, h, set_ierror s ''iterator error'')
                     | Some (True, it) \<Rightarrow>
                         if PB_ATYPE (ftype (iter_field D it)) = PB_ATYPE_POINTER
                         then Some (True, it, h\<lparr>mem := store_ptr (mem h) (pData it) 0\<rparr>, s)
                         else Some (True, it, h, s)) }))"

section \<open>Default values\<close>

definition message_defaults ::
  "'s dec_env \<Rightarrow> (pb_field_iter \<Rightarrow> heap \<Rightarrow> heap option) \<Rightarrow> nat \<Rightarrow> int \<Rightarrow> heap \<Rightarrow> heap option" where
  "message_defaults E set_field flds dest h =
     (case pb_field_iter_begin (d_descs E) flds dest of
        (False, _) \<Rightarrow> Some h
      | (True, it) \<Rightarrow>
          map_option snd
            (iter_loop (d_descs E) (\<lambda>it h. map_option (Pair True) (set_field it h)) it h))"

primrec default_extensions ::
  "nat \<Rightarrow> 's dec_env \<Rightarrow> (pb_field_iter \<Rightarrow> heap \<Rightarrow> heap option) \<Rightarrow> int \<Rightarrow> heap \<Rightarrow> heap option" where
  "default_extensions 0 E set_field ext h = (if ext = 0 then Some h else None)"
| "default_extensions (Suc k) E set_field ext h =
     (if ext = 0 then Some h
      else do { let h = h\<lparr>mem := (mem h)(ext + 24 := 0)\<rparr>;
                h \<leftarrow> set_field (iter_from_extension E h ext) h;
                default_extensions k E set_field (load_ptr (mem h) (ext + 16)) h })"

primrec pb_field_set_to_default :: "nat \<Rightarrow> 's dec_env \<Rightarrow> pb_field_iter \<Rightarrow> heap \<Rightarrow> heap option" where
  "pb_field_set_to_default 0 E it h = None"
| "pb_field_set_to_default (Suc n) E it h =
     (let field = iter_field (d_descs E) it; type = ftype field; ht = PB_HTYPE type in
      if PB_LTYPE type = PB_LTYPE_EXTENSION
      then default_extensions n E (pb_field_set_to_default n E) (load_ptr (mem h) (pData it)) h
      else if PB_ATYPE type = PB_ATYPE_STATIC then
        if ht = PB_HTYPE_REPEATED \<or> ht = PB_HTYPE_ONEOF
        then Some (h\<lparr>mem := store_u32 (mem h) (pSize it) 0\<rparr>)
        else
          let h = (if ht = PB_HTYPE_OPTIONAL \<and> pSize it \<noteq> pData it
                   then h\<lparr>mem := (mem h)(pSize it := 0)\<rparr> else h);
              n_bytes = unat (data_size field) in
          if PB_LTYPE type = PB_LTYPE_SUBMESSAGE then
            (case fptr field of
               PFields d \<Rightarrow> message_defaults E (pb_field_set_to_default n E) d (pData it) h
             | _ \<Rightarrow> None)
          else (case fptr field of
                  PNull \<Rightarrow> Some (h\<lparr>mem := mem_write (mem h) (pData it) (replicate n_bytes 0)\<rparr>)
                | PDefault bs \<Rightarrow> Some (h\<lparr>mem := mem_write (mem h) (pData it) (take n_bytes bs)\<rparr>)
                | PFields _ \<Rightarrow> None)
      else if PB_ATYPE type = PB_ATYPE_POINTER then
        let h = h\<lparr>mem := store_ptr (mem h) (pData it) 0\<rparr> in
        if ht = PB_HTYPE_REPEATED \<or> ht = PB_HTYPE_ONEOF
        then Some (h\<lparr>mem := store_u32 (mem h) (pSize it) 0\<rparr>)
        else Some h
      else Some h)"

definition pb_message_set_to_defaults :: "nat \<Rightarrow> 's dec_env \<Rightarrow> nat \<Rightarrow> int \<Rightarrow> heap \<Rightarrow> heap option" where
  "pb_message_set_to_defaults n E = message_defaults E (pb_field_set_to_default n E)"

text \<open>\<open>memset\<close> to zero, then the defaults of the submessage type.\<close>

definition clear_submessage :: "nat \<Rightarrow> 's dec_env \<Rightarrow> pb_field \<Rightarrow> int \<Rightarrow> heap \<Rightarrow> heap option" where
  "clear_submessage n E field p h =
     (let h = h\<lparr>mem := mem_write (mem h) p (replicate (unat (data_size field)) 0)\<rparr> in
      case fptr field of
        PFields d \<Rightarrow> pb_message_set_to_defaults n E d p h
      | _ \<Rightarrow> None)"

definition initialize_pointer_field :: "nat \<Rightarrow> 's dec_env \<Rightarrow> int \<Rightarrow> pb_field_iter \<Rightarrow> heap \<Rightarrow> heap option" where
  "initialize_pointer_field n E pItem it h =
     (let field = iter_field (d_descs E) it; lt = PB_LTYPE (ftype field) in
      if lt = PB_LTYPE_STRING \<or> lt = PB_LTYPE_BYTES
      then Some (h\<lparr>mem := store_ptr (mem h) pItem 0\<rparr>)
      else if lt = PB_LTYPE_SUBMESSAGE then clear_submessage n E field pItem h
      else Some h)"

section \<open>Field decoders by type\<close>

text \<open>\<open>pb_decode\<close> over \<open>pb_decode_noinit\<close>: on failure everything allocated is released.\<close>

definition decode_message ::
  "nat \<Rightarrow> 's dec_env \<Rightarrow> (nat \<Rightarrow> int \<Rightarrow> 's dec_op) \<Rightarrow> nat \<Rightarrow> int \<Rightarrow> 's dec_op" where
  "decode_message n E noinit flds dest = (\<lambda>(h, s).
     do { h \<leftarrow> pb_message_set_to_defaults n E flds dest h;
          (status, h, s) \<leftarrow> noinit flds dest (h, s);
          h \<leftarrow> (if \<not> status then pb_release n E flds dest h else Some h);
          Some (status, h, s) })"

definition pb_dec_submessage ::
  "nat \<Rightarrow> 's dec_env \<Rightarrow> (nat \<Rightarrow> int \<Rightarrow> 's dec_op) \<Rightarrow> pb_field \<Rightarrow> int \<Rightarrow> 's dec_op" where
  "pb_dec_submessage n E noinit field dest = (\<lambda>(h, s).
     case pb_make_string_substream s of
       (None, s) \<Rightarrow> Some (False, h, s)
     | (Some substream, s) \<Rightarrow>
         (case fptr field of
            PNull \<Rightarrow> Some (i_error h s ''invalid field descriptor'')
          | PDefault _ \<Rightarrow> None
          | PFields d \<Rightarrow>
              do { (status, h, substream) \<leftarrow>
                     (if PB_HTYPE (ftype field) = PB_HTYPE_REPEATED
                      then decode_message n E noinit d dest (h, substream)
                      else noinit d dest (h, substream));
                   (case pb_close_string_substream s substream of
                      (False, s) \<Rightarrow> Some (False, h, s)
                    | (True, s) \<Rightarrow> Some (status, h, s)) }))"

definition PB_DECODERS ::
  "nat \<Rightarrow> 's dec_env \<Rightarrow> (nat \<Rightarrow> int \<Rightarrow> 's dec_op) \<Rightarrow> u8 \<Rightarrow> pb_field \<Rightarrow> int \<Rightarrow> 's dec_op" where
  "PB_DECODERS n E noinit lt field dest st =
     (if lt = PB_LTYPE_BOOL then Some (pb_dec_bool field dest st)
      else if lt = PB_LTYPE_VARINT then Some (pb_dec_varint field dest st)
      else if lt = PB_LTYPE_UVARINT then Some (pb_dec_uvarint field dest st)
      else if lt = PB_LTYPE_SVARINT then Some (pb_dec_svarint field dest st)
      else if lt = PB_LTYPE_FIXED32 then Some (pb_dec_fixed32 field dest st)
      else if lt = PB_LTYPE_FIXED64 then Some (pb_dec_fixed64 field dest st)
      else if lt = PB_LTYPE_BYTES then pb_dec_bytes E field dest st
      else if lt = PB_LTYPE_STRING then pb_dec_string E field dest st
      else if lt = PB_LTYPE_SUBMESSAGE then pb_dec_submessage n E noinit field dest st
      else if lt = PB_LTYPE_FIXED_LENGTH_BYTES then Some (pb_dec_fixed_length_bytes field dest st)
      else None)"

section \<open>Static fields\<close>

text \<open>
  \<open>data_size * ( *size)\<close> is a product of two 32-bit values. The packed loop runs while the
  substream has data and there is room; a scalar decoder consumes at least one byte, so that
  \<open>bytes_left + 1\<close> rounds suffice.
\<close>

definition item_address :: "pb_field \<Rightarrow> int \<Rightarrow> u32 \<Rightarrow> int" where
  "item_address field base sz = base + int (unat (data_size field * sz))"

primrec packed_static_loop ::
  "nat \<Rightarrow> (pb_field \<Rightarrow> int \<Rightarrow> 's dec_op) \<Rightarrow> pb_field \<Rightarrow> pb_field_iter \<Rightarrow> 's dec_op" where
  "packed_static_loop 0 func field it st = None"
| "packed_static_loop (Suc k) func field it st =
     (case st of (h, substream) \<Rightarrow>
        if 0 < bytes_left substream \<and> load_u32 (mem h) (pSize it) < array_size field then
          and_then_opt
            (func field (item_address field (pData it) (load_u32 (mem h) (pSize it))) (h, substream))
            (\<lambda>(h, substream). packed_static_loop k func field it
               (h\<lparr>mem := store_u32 (mem h) (pSize it) (load_u32 (mem h) (pSize it) + 1)\<rparr>, substream))
        else Some (True, h, substream))"

definition decode_static_field ::
  "nat \<Rightarrow> 's dec_env \<Rightarrow> (nat \<Rightarrow> int \<Rightarrow> 's dec_op) \<Rightarrow> pb_wire_type \<Rightarrow> pb_field_iter \<Rightarrow> 's dec_op" where
  "decode_static_field n E noinit wire_type it = (\<lambda>(h, s).
     let field = iter_field (d_descs E) it; type = ftype field;
         func = PB_DECODERS n E noinit (PB_LTYPE type) in
     if PB_HTYPE type = PB_HTYPE_REQUIRED then func field (pData it) (h, s)
     else if PB_HTYPE type = PB_HTYPE_OPTIONAL then
       func field (pData it)
         (if pSize it \<noteq> pData it then h\<lparr>mem := (mem h)(pSize it := 1)\<rparr> else h, s)
     else if PB_HTYPE type = PB_HTYPE_REPEATED then
       if wire_type = PB_WT_STRING \<and> PB_LTYPE type \<le> PB_LTYPE_LAST_PACKABLE then
         (case pb_make_string_substream s of
            (None, s) \<Rightarrow> Some (False, h, s)
          | (Some substream, s) \<Rightarrow>
              do { (status, h, substream) \<leftarrow>
                     packed_static_loop (Suc (bytes_left substream)) func field it (h, substream);
                   if bytes_left substream \<noteq> 0 then Some (i_error h s ''array overflow'')
                   else (case pb_close_string_substream s substream of
                           (False, s) \<Rightarrow> Some (False, h, s)
                         | (True, s) \<Rightarrow> Some (status, h, s)) })
       else
         let sz = load_u32 (mem h) (pSize it);
             pItem = item_address field (pData it) sz;
             h = h\<lparr>mem := store_u32 (mem h) (pSize it) (sz + 1)\<rparr> in
         if array_size field \<le> sz then Some (i_error h s ''array overflow'')
         else func field pItem (h, s)
     else
       do { h \<leftarrow> (if PB_LTYPE type = PB_LTYPE_SUBMESSAGE \<and> load_u32 (mem h) (pSize it) \<noteq> ftag field
                  then clear_submessage n E field (pData it) h else Some h);
            func field (pData it) (h\<lparr>mem := store_u32 (mem h) (pSize it) (ftag field)\<rparr>, s) })"

section \<open>Pointer fields\<close>

text \<open>
  The packed loop: the state also has the number of entries allocated and the parent stream,
  whose error message it may set. Each round that goes on has consumed at least one byte.
\<close>

primrec packed_pointer_loop ::
  "nat \<Rightarrow> nat \<Rightarrow> 's dec_env \<Rightarrow> (pb_field \<Rightarrow> int \<Rightarrow> 's dec_op) \<Rightarrow> pb_field_iter \<Rightarrow> nat \<Rightarrow> 's pb_istream \<Rightarrow>
     heap \<times> 's pb_istream \<Rightarrow> (bool \<times> 's pb_istream \<times> heap \<times> 's pb_istream) option" where
  "packed_pointer_loop 0 n E func it allocated s st = None"
| "packed_pointer_loop (Suc k) n E func it allocated s st =
     (case st of (h, substream) \<Rightarrow>
        let field = iter_field (d_descs E) it; sz = load_u32 (mem h) (pSize it);
            ds = unat (data_size field) in
        if bytes_left substream = 0 then Some (True, s, h, substream)
        else if sz = PB_SIZE_MAX
        then Some (False, s\<lparr>ierrmsg := Some ''too many array entries''\<rparr>, h, substream)
        else if allocated < unat sz + 1 \<and> ds = 0 then None \<comment> \<open>division by zero\<close>
        else
          let remain = (bytes_left substream - 1) div ds + 1;
              allocated' = (if allocated < unat sz + 1
                            then if remain < size_sub (unat PB_SIZE_MAX) allocated
                                 then size_add allocated remain else size_add allocated 1
                            else allocated) in
          do { (ok, h, substream) \<leftarrow>
                 (if allocated < unat sz + 1
                  then allocate_field E (pData it) ds allocated' (h, substream)
                  else Some (True, h, substream));
               let pItem = item_address field (load_ptr (mem h) (pData it)) (load_u32 (mem h) (pSize it));
               if \<not> ok \<or> pItem = 0 then Some (False, s, h, substream)
               else do {
                 h \<leftarrow> initialize_pointer_field n E pItem it h;
                 (ok, h, substream) \<leftarrow> func field pItem (h, substream);
                 if \<not> ok then Some (False, s, h, substream)
                 else packed_pointer_loop k n E func it allocated' s
                        (h\<lparr>mem := store_u32 (mem h) (pSize it) (load_u32 (mem h) (pSize it) + 1)\<rparr>, substream) } })"

definition decode_pointer_field ::
  "nat \<Rightarrow> 's dec_env \<Rightarrow> (nat \<Rightarrow> int \<Rightarrow> 's dec_op) \<Rightarrow> pb_wire_type \<Rightarrow> pb_field_iter \<Rightarrow> 's dec_op" where
  "decode_pointer_field n E noinit wire_type it = (\<lambda>(h, s).
     let field = iter_field (d_descs E) it; type = ftype field; lt = PB_LTYPE type;
         ds = unat (data_size field); func = PB_DECODERS n E noinit lt in
     if PB_HTYPE type \<noteq> PB_HTYPE_REPEATED then
       do { h \<leftarrow> (if lt = PB_LTYPE_SUBMESSAGE \<and> load_ptr (mem h) (pData it) \<noteq> 0
                  then pb_release_single_field n E it h else Some h);
            let h = (if PB_HTYPE type = PB_HTYPE_ONEOF
                     then h\<lparr>mem := store_u32 (mem h) (pSize it) (ftag field)\<rparr> else h);
            if lt = PB_LTYPE_STRING \<or> lt = PB_LTYPE_BYTES then func field (pData it) (h, s)
            else and_then_opt (allocate_field E (pData it) ds 1 (h, s))
                   (\<lambda>(h, s). do { h \<leftarrow> initialize_pointer_field n E (load_ptr (mem h) (pData it)) it h;
                                  func field (load_ptr (mem h) (pData it)) (h, s) }) }
     else if wire_type = PB_WT_STRING \<and> lt \<le> PB_LTYPE_LAST_PACKABLE then
       (case pb_make_string_substream s of
          (None, s) \<Rightarrow> Some (False, h, s)
        | (Some substream, s) \<Rightarrow>
            do { (status, s, h, substream) \<leftarrow>
                   packed_pointer_loop (Suc (bytes_left substream)) n E func it
                     (unat (load_u32 (mem h) (pSize it))) s (h, substream);
                 (case pb_close_string_substream s substream of
                    (False, s) \<Rightarrow> Some (False, h, s)
                  | (True, s) \<Rightarrow> Some (status, h, s)) })
     else
       let sz = load_u32 (mem h) (pSize it) in
       if sz = PB_SIZE_MAX then Some (i_error h s ''too many array entries'')
       else and_then_opt (allocate_field E (pData it) ds (unat (sz + 1)) (h, s))
              (\<lambda>(h, s).
                 let sz = load_u32 (mem h) (pSize it);
                     pItem = item_address field (load_ptr (mem h) (pData it)) sz;
                     h = h\<lparr>mem := store_u32 (mem h) (pSize it) (sz + 1)\<rparr> in
                 do { h \<leftarrow> initialize_pointer_field n E pItem it h; func field pItem (h, s) }))"

section \<open>Callback fields\<close>

primrec callback_loop ::
  "nat \<Rightarrow> ('s pb_istream \<Rightarrow> heap \<Rightarrow> bool \<times> heap \<times> 's pb_istream) \<Rightarrow> 's dec_op" where
  "callback_loop 0 f st = None"
| "callback_loop (Suc k) f st =
     (case st of (h, substream) \<Rightarrow>
        (case f substream h of
           (False, h, substream) \<Rightarrow> Some (False, h, substream)
         | (True, h, substream) \<Rightarrow>
             if bytes_left substream \<noteq> 0 then callback_loop k f (h, substream)
             else Some (True, h, substream)))"

definition decode_callback_field ::
  "nat \<Rightarrow> 's dec_env \<Rightarrow> pb_wire_type \<Rightarrow> pb_field_iter \<Rightarrow> 's dec_op" where
  "decode_callback_field n E wire_type it = (\<lambda>(h, s).
     let field = iter_field (d_descs E) it; fp = load_ptr (mem h) (pData it);
         call = (\<lambda>sub h. d_callback E fp sub field (pData it + 8) h) in
     if pData it = 0 \<or> fp = 0
     then (case pb_skip_field s wire_type of (ok, s) \<Rightarrow> Some (ok, h, s))
     else if wire_type = PB_WT_STRING then
       (case pb_make_string_substream s of
          (None, s) \<Rightarrow> Some (False, h, s)
        | (Some substream, s) \<Rightarrow>
            do { (ok, h, substream) \<leftarrow> callback_loop n call (h, substream);
                 if \<not> ok then Some (i_error h s ''callback failed'')
                 else (case pb_close_string_substream s substream of (ok, s) \<Rightarrow> Some (ok, h, s)) })
     else
       (case read_raw_value s wire_type 10 of
          (None, s) \<Rightarrow> Some (False, h, s)
        | (Some buffer, s) \<Rightarrow>
            (case call (pb_istream_from_buffer buffer (length buffer) (is_user s)) h of
               (ok, h, _) \<Rightarrow> Some (ok, h, s))))"

section \<open>Fields and extensions\<close>

definition decode_field ::
  "nat \<Rightarrow> 's dec_env \<Rightarrow> (nat \<Rightarrow> int \<Rightarrow> 's dec_op) \<Rightarrow> pb_wire_type \<Rightarrow>
     pb_field_iter \<times> heap \<times> 's pb_istream \<Rightarrow> (bool \<times> pb_field_iter \<times> heap \<times> 's pb_istream) option" where
  "decode_field n E noinit wire_type = (\<lambda>(it, h, s).
     and_then_opt
       (if PB_HTYPE (ftype (iter_field (d_descs E) it)) = PB_HTYPE_ONEOF
        then pb_release_union_field n E (it, h, s) else Some (True, it, h, s))
       (\<lambda>(it, h, s).
          let atype = PB_ATYPE (ftype (iter_field (d_descs E) it)) in
          do { (ok, h, s) \<leftarrow>
                 (if atype = PB_ATYPE_STATIC then decode_static_field n E noinit wire_type it (h, s)
                  else if atype = PB_ATYPE_POINTER then decode_pointer_field n E noinit wire_type it (h, s)
                  else if atype = PB_ATYPE_CALLBACK then decode_callback_field n E wire_type it (h, s)
                  else Some (i_error h s ''invalid field type''));
               Some (ok, it, h, s) }))"

definition default_extension_decoder ::
  "nat \<Rightarrow> 's dec_env \<Rightarrow> (nat \<Rightarrow> int \<Rightarrow> 's dec_op) \<Rightarrow> int \<Rightarrow> u32 \<Rightarrow> pb_wire_type \<Rightarrow> 's dec_op" where
  "default_extension_decoder n E noinit ext tag wire_type = (\<lambda>(h, s).
     let field = field_at (d_descs E) (xd_arg (d_ext_type E (load_ptr (mem h) ext))) 0 in
     if ftag field \<noteq> tag then Some (True, h, s)
     else
       let it = iter_from_extension E h ext; h = h\<lparr>mem := (mem h)(ext + 24 := 1)\<rparr> in
       do { (ok, _, h, s) \<leftarrow> decode_field n E noinit wire_type (it, h, s); Some (ok, h, s) })"

primrec extension_decode_loop ::
  "nat \<Rightarrow> nat \<Rightarrow> 's dec_env \<Rightarrow> (nat \<Rightarrow> int \<Rightarrow> 's dec_op) \<Rightarrow> u32 \<Rightarrow> pb_wire_type \<Rightarrow> nat \<Rightarrow> int \<Rightarrow> 's dec_op" where
  "extension_decode_loop 0 n E noinit tag wire_type pos ext st =
     (if ext = 0 \<or> pos \<noteq> bytes_left (snd st) then Some (True, st) else None)"
| "extension_decode_loop (Suc k) n E noinit tag wire_type pos ext st =
     (if ext = 0 \<or> pos \<noteq> bytes_left (snd st) then Some (True, st)
      else case st of (h, s) \<Rightarrow>
        and_then_opt
          (case xd_decode (d_ext_type E (load_ptr (mem h) ext)) of
             Some f \<Rightarrow> Some (f s ext tag wire_type h)
           | None \<Rightarrow> default_extension_decoder n E noinit ext tag wire_type (h, s))
          (\<lambda>(h, s). extension_decode_loop k n E noinit tag wire_type pos
             (load_ptr (mem h) (ext + 16)) (h, s)))"

definition decode_extension ::
  "nat \<Rightarrow> 's dec_env \<Rightarrow> (nat \<Rightarrow> int \<Rightarrow> 's dec_op) \<Rightarrow> u32 \<Rightarrow> pb_wire_type \<Rightarrow> pb_field_iter \<Rightarrow> 's dec_op" where
  "decode_extension n E noinit tag wire_type it = (\<lambda>(h, s).
     extension_decode_loop n n E noinit tag wire_type (bytes_left s)
       (load_ptr (mem h) (pData it)) (h, s))"

section \<open>Messages\<close>

abbreviation (input) PB_MAX_REQUIRED_FIELDS :: nat where "PB_MAX_REQUIRED_FIELDS \<equiv> 64"

text \<open>The local variables of \<open>pb_decode_noinit\<close>.\<close>

record dec_locals =
  dl_iter :: pb_field_iter
  fields_seen :: "u32 list"
  extension_range_start :: u32
  fixed_count_field :: "nat option"

type_synonym 's dec_loop = "dec_locals \<times> heap \<times> 's pb_istream"

definition stack_slot :: "nat \<Rightarrow> int" where
  "stack_slot n = - 16 * (int n + 1)"

text \<open>A field whose tag is not in the descriptor: try the extensions, else skip it.\<close>

definition decode_unknown ::
  "nat \<Rightarrow> 's dec_env \<Rightarrow> (nat \<Rightarrow> int \<Rightarrow> 's dec_op) \<Rightarrow> u32 \<Rightarrow> pb_wire_type \<Rightarrow>
     's dec_loop \<Rightarrow> (bool \<times> 's dec_loop) option" where
  "decode_unknown n E noinit tag wire_type = (\<lambda>(L, h, s).
     let D = d_descs E;
         skip = (\<lambda>(L, h, s). case pb_skip_field s wire_type of (ok, s) \<Rightarrow> Some (ok, L, h, s)) in
     if extension_range_start L \<le> tag then
       do { (found, it) \<leftarrow> find_extension_field D (dl_iter L);
            let L = L\<lparr>dl_iter := it,
                      extension_range_start := (if found then ftag (iter_field D it) else - 1)\<rparr>;
            if extension_range_start L \<le> tag then
              do { (ok, h, s') \<leftarrow> decode_extension n E noinit tag wire_type it (h, s);
                   if \<not> ok then Some (False, L, h, s')
                   else if bytes_left s \<noteq> bytes_left s' then Some (True, L, h, s')
                   else skip (L, h, s') }
            else skip (L, h, s) }
     else skip (L, h, s))"

text \<open>A known field: fixed-count and required bookkeeping, then the field itself.\<close>

definition decode_known ::
  "nat \<Rightarrow> 's dec_env \<Rightarrow> (nat \<Rightarrow> int \<Rightarrow> 's dec_op) \<Rightarrow> pb_wire_type \<Rightarrow>
     's dec_loop \<Rightarrow> (bool \<times> 's dec_loop) option" where
  "decode_known n E noinit wire_type = (\<lambda>(L, h, s).
     let D = d_descs E; it = dl_iter L; field = iter_field D it; slot = stack_slot n;
         fixed = (PB_HTYPE (ftype field) = PB_HTYPE_REPEATED \<and> pSize it = pData it);
         change = (fixed \<and> fixed_count_field L \<noteq> Some (it_pos it)) in
     if change \<and> (case fixed_count_field L of
                    None \<Rightarrow> False
                  | Some i \<Rightarrow> load_u32 (mem h) slot \<noteq> array_size (field_at D (it_start it) i))
     then Some (False, L, h, set_ierror s ''wrong size for fixed count field'')
     else
       let h = (if change then h\<lparr>mem := store_u32 (mem h) slot 0\<rparr> else h);
           L = (if change then L\<lparr>fixed_count_field := Some (it_pos it)\<rparr> else L);
           it = (if fixed then it\<lparr>pSize := slot\<rparr> else it);
           i = required_field_index it;
           L = (if PB_HTYPE (ftype field) = PB_HTYPE_REQUIRED \<and> i < PB_MAX_REQUIRED_FIELDS
                then L\<lparr>fields_seen := (fields_seen L)
                         [i div 32 := (fields_seen L ! (i div 32)) OR push_bit (i mod 32) 1]\<rparr>
                else L) in
       do { (ok, it, h, s) \<leftarrow> decode_field n E noinit wire_type (it, h, s);
            Some (ok, L\<lparr>dl_iter := it\<rparr>, h, s) })"

primrec decode_loop ::
  "nat \<Rightarrow> nat \<Rightarrow> 's dec_env \<Rightarrow> (nat \<Rightarrow> int \<Rightarrow> 's dec_op) \<Rightarrow> 's dec_loop \<Rightarrow> (bool \<times> 's dec_loop) option" where
  "decode_loop 0 n E noinit st = (if bytes_left (snd (snd st)) = 0 then Some (True, st) else None)"
| "decode_loop (Suc k) n E noinit st =
     (case st of (L, h, s) \<Rightarrow>
        if bytes_left s = 0 then Some (True, L, h, s)
        else (case pb_decode_tag s of
                (None, s, eof) \<Rightarrow> Some (eof, L, h, s)
              | (Some (wire_type, tag), s, _) \<Rightarrow>
                  do { (found, it) \<leftarrow> pb_field_iter_find (d_descs E) (dl_iter L) tag;
                       let L = L\<lparr>dl_iter := it\<rparr>;
                       and_then_opt
                         (if found then decode_known n E noinit wire_type (L, h, s)
                          else decode_unknown n E noinit tag wire_type (L, h, s))
                         (decode_loop k n E noinit) }))"

text \<open>Seeking to the end of the descriptor: the required fields counted and the last type seen.\<close>

function seek_end :: "descs \<Rightarrow> pb_field_iter \<Rightarrow> nat \<times> u8 \<times> pb_field_iter" where
  "seek_end D it =
     (case pb_field_iter_next D it of
        (True, it') \<Rightarrow> seek_end D it'
      | (False, it') \<Rightarrow> (required_field_index it, ftype (iter_field D it), it'))"
  by pat_completeness auto
termination
  by (relation "measure (\<lambda>(D, it). length (D (it_start it)) - it_pos it)")
    (auto dest!: iter_next_measure [OF sym])

declare seek_end.simps [simp del]

definition all_required_seen :: "nat \<Rightarrow> u32 list \<Rightarrow> bool" where
  "all_required_seen count seen \<longleftrightarrow>
     list_all (\<lambda>i. seen ! i = - 1) [0..<count div 32] \<and>
     (count mod 32 \<noteq> 0 \<longrightarrow> seen ! (count div 32) = drop_bit (32 - count mod 32) (- 1))"

definition required_count :: "descs \<Rightarrow> pb_field_iter \<Rightarrow> nat" where
  "required_count D it =
     (case seek_end D it of
        (count, last_type, it') \<Rightarrow>
          min PB_MAX_REQUIRED_FIELDS
            (if PB_HTYPE last_type = PB_HTYPE_REQUIRED \<and> ftag (iter_field D it') \<noteq> 0
             then count + 1 else count))"

text \<open>What follows the loop.\<close>

definition finish_message :: "nat \<Rightarrow> 's dec_env \<Rightarrow> 's dec_loop \<Rightarrow> bool \<times> heap \<times> 's pb_istream" where
  "finish_message n E = (\<lambda>(L, h, s).
     let D = d_descs E; it = dl_iter L in
     if (case fixed_count_field L of
           None \<Rightarrow> False
         | Some i \<Rightarrow> load_u32 (mem h) (stack_slot n) \<noteq> array_size (field_at D (it_start it) i))
     then i_error h s ''wrong size for fixed count field''
     else if \<not> all_required_seen (required_count D it) (fields_seen L)
     then i_error h s ''missing required field''
     else (True, h, s))"

definition init_locals :: "'s dec_env \<Rightarrow> nat \<Rightarrow> int \<Rightarrow> dec_locals" where
  "init_locals E flds dest =
     \<lparr>dl_iter = snd (pb_field_iter_begin (d_descs E) flds dest), fields_seen = [0, 0],
      extension_range_start = 0, fixed_count_field = None\<rparr>"

primrec pb_decode_noinit :: "nat \<Rightarrow> 's dec_env \<Rightarrow> nat \<Rightarrow> int \<Rightarrow> 's dec_op" where
  "pb_decode_noinit 0 E flds dest st = None"
| "pb_decode_noinit (Suc n) E flds dest st =
     (case st of (h, s) \<Rightarrow>
        do { (ok, L, h, s) \<leftarrow>
               decode_loop n n E (pb_decode_noinit n E)
                 (init_locals E flds dest, h\<lparr>mem := store_u32 (mem h) (stack_slot n) 0\<rparr>, s);
             if ok then Some (finish_message n E (L, h, s)) else Some (False, h, s) })"

definition pb_decode :: "nat \<Rightarrow> 's dec_env \<Rightarrow> nat \<Rightarrow> int \<Rightarrow> 's dec_op" where
  "pb_decode n E = decode_message n E (pb_decode_noinit n E)"

definition decode_delimited_with :: "'s dec_op \<Rightarrow> 's dec_op" where
  "decode_delimited_with dec = (\<lambda>(h, s).
     case pb_make_string_substream s of
       (None, s) \<Rightarrow> Some (False, h, s)
     | (Some substream, s) \<Rightarrow>
         do { (status, h, substream) \<leftarrow> dec (h, substream);
              (case pb_close_string_substream s substream of
                 (False, s) \<Rightarrow> Some (False, h, s)
               | (True, s) \<Rightarrow> Some (status, h, s)) })"

definition pb_decode_delimited_noinit :: "nat \<Rightarrow> 's dec_env \<Rightarrow> nat \<Rightarrow> int \<Rightarrow> 's dec_op" where
  "pb_decode_delimited_noinit n E flds dest = decode_delimited_with (pb_decode_noinit n E flds dest)"

definition pb_decode_delimited :: "nat \<Rightarrow> 's dec_env \<Rightarrow> nat \<Rightarrow> int \<Rightarrow> 's dec_op" where
  "pb_decode_delimited n E flds dest = decode_delimited_with (pb_decode n E flds dest)"

definition pb_decode_nullterminated :: "nat \<Rightarrow> 's dec_env \<Rightarrow> nat \<Rightarrow> int \<Rightarrow> 's dec_op" where
  "pb_decode_nullterminated = pb_decode"

end
