(* ===== verification/PB_Dec_Stream.thy ===== *)
theory PB_Dec_Stream
  imports PB_Decode
begin

text \<open>
  The decoder and its input window. A routine that succeeds on a buffer stream has advanced the
  read pointer by exactly the number of bytes it took off \<open>bytes_left\<close>; one that fails has at
  least not moved past the window. Every routine of \<open>PB_Decode\<close> has this property when the
  user's callbacks have it, so that no input makes the decoder read beyond the bytes it was
  given, and no submessage or packed array reaches beyond its length prefix.
\<close>

section \<open>The contract\<close>

definition within :: "'s pb_istream \<Rightarrow> 's pb_istream \<Rightarrow> bool" where
  "within s s' \<longleftrightarrow> icallback s' = Buf_read \<and>
     (\<exists>k. is_buf s' = drop k (is_buf s) \<and> k + bytes_left s' \<le> bytes_left s)"

definition consumed :: "'s pb_istream \<Rightarrow> 's pb_istream \<Rightarrow> bool" where
  "consumed s s' \<longleftrightarrow> icallback s' = Buf_read \<and>
     (\<exists>k. is_buf s' = drop k (is_buf s) \<and> k + bytes_left s' = bytes_left s)"

definition good :: "'s pb_istream \<Rightarrow> bool \<Rightarrow> 's pb_istream \<Rightarrow> bool" where
  "good s ok s' \<longleftrightarrow> (if ok then consumed s s' else within s s')"

named_theorems stream_good \<open>routines keep to their window\<close>

locale stream_reader =
  fixes run :: "'s dec_op"
  assumes keeps_window: "\<And>s h ok h' s'. buf_stream s \<Longrightarrow> run (h, s) = Some (ok, h', s') \<Longrightarrow> good s ok s'"
begin

lemma success_exact:
  assumes "run (h, pb_istream_from_buffer buf n u) = Some (True, h', s')" "n \<le> length buf"
  shows "\<exists>k \<le> n. is_buf s' = drop k buf \<and> bytes_left s' = n - k"
proof -
  have "consumed (pb_istream_from_buffer buf n u) s'"
    using keeps_window [OF _ assms(1)] assms(2) by (simp add: good_def)
  then obtain k where "is_buf s' = drop k buf" "k + bytes_left s' = n"
    by (auto simp: consumed_def pb_istream_from_buffer_def)
  then show ?thesis by (intro exI [of _ k]) auto
qed

lemma never_past_end:
  assumes "run (h, pb_istream_from_buffer buf n u) = Some (ok, h', s')" "n \<le> length buf"
  shows "\<exists>k. is_buf s' = drop k buf \<and> k + bytes_left s' \<le> n"
proof -
  have "within (pb_istream_from_buffer buf n u) s'"
    using keeps_window [OF _ assms(1)] assms(2)
    by (auto simp: good_def consumed_def within_def split: if_splits)
  then show ?thesis by (auto simp: within_def pb_istream_from_buffer_def)
qed

end

lemma consumed_within: "consumed s s' \<Longrightarrow> within s s'"
  by (auto simp: consumed_def within_def)

lemma good_within: "good s ok s' \<Longrightarrow> within s s'"
  by (auto simp: good_def consumed_within split: if_splits)

lemma goodI: "consumed s s' \<Longrightarrow> good s ok s'"
  by (auto simp: good_def consumed_within)

lemma good_FalseI: "within s s' \<Longrightarrow> good s False s'"
  by (simp add: good_def)

lemma within_trans: "within s t \<Longrightarrow> within t u \<Longrightarrow> within s u"
proof -
  assume a: "within s t" "within t u"
  then obtain k j where "is_buf t = drop k (is_buf s)" "k + bytes_left t \<le> bytes_left s"
    "is_buf u = drop j (is_buf t)" "j + bytes_left u \<le> bytes_left t" "icallback u = Buf_read"
    by (auto simp: within_def)
  then show ?thesis by (auto simp: within_def add.commute intro!: exI [of _ "k + j"])
qed

lemma consumed_trans: "consumed s t \<Longrightarrow> consumed t u \<Longrightarrow> consumed s u"
proof -
  assume a: "consumed s t" "consumed t u"
  then obtain k j where "is_buf t = drop k (is_buf s)" "k + bytes_left t = bytes_left s"
    "is_buf u = drop j (is_buf t)" "j + bytes_left u = bytes_left t" "icallback u = Buf_read"
    by (auto simp: consumed_def)
  then show ?thesis by (auto simp: consumed_def add.commute intro!: exI [of _ "k + j"])
qed

lemma good_trans: "consumed s t \<Longrightarrow> good t ok u \<Longrightarrow> good s ok u"
  by (auto simp: good_def intro: consumed_trans within_trans consumed_within)

lemma within_buf_stream: "within s s' \<Longrightarrow> buf_stream s \<Longrightarrow> buf_stream s'"
  by (auto simp: within_def buf_stream_def)

lemma consumed_buf_stream: "consumed s s' \<Longrightarrow> buf_stream s \<Longrightarrow> buf_stream s'"
  by (rule within_buf_stream [OF consumed_within])

lemma consumed_refl [simp]: "buf_stream s \<Longrightarrow> consumed s s"
  by (auto simp: consumed_def buf_stream_def intro: exI [of _ 0])

lemma consumed_advance [simp]: "buf_stream s \<Longrightarrow> n \<le> bytes_left s \<Longrightarrow> consumed s (advance_in n s)"
  by (auto simp: consumed_def buf_stream_def)

lemma window_set_ierror [simp]:
  "within s (set_ierror t e) = within s t" "consumed s (set_ierror t e) = consumed s t"
  by (simp_all add: within_def consumed_def)

lemma good_refl [simp]: "buf_stream s \<Longrightarrow> good s ok s"
  by (simp add: goodI)

lemma good_error [simp]: "good s False (set_ierror t e) \<longleftrightarrow> within s t"
  by (simp add: good_def)

lemma within_refl [simp]: "buf_stream s \<Longrightarrow> within s s"
  by (simp add: consumed_within)

lemmas window_intros = consumed_within within_trans within_trans [OF consumed_within] consumed_trans

section \<open>Scalars\<close>

lemma pb_readbyte_good [stream_good]:
  "buf_stream s \<Longrightarrow> pb_readbyte s = (r, s') \<Longrightarrow> good s (r \<noteq> None) s'"
  by (auto simp: pb_readbyte_buf good_def split: if_splits)

lemma pb_read_good [stream_good]:
  "buf_stream s \<Longrightarrow> pb_read s b n = (r, s') \<Longrightarrow> good s (r \<noteq> None) s'"
  by (auto simp: pb_read_buf good_def split: if_splits)

lemma varint32_loop_good [stream_good]:
  "buf_stream s \<Longrightarrow> varint32_loop s k v = (r, s') \<Longrightarrow> good s (r \<noteq> None) s'"
proof (induction s k v rule: varint32_loop.induct)
  case (1 s k v)
  obtain b t where b: "pb_readbyte s = (b, t)" by (cases "pb_readbyte s")
  note g = pb_readbyte_good [OF "1.prems"(1) b]
  show ?case
  proof (cases b)
    case None
    then show ?thesis using "1.prems"(2) b g by (subst (asm) varint32_loop.simps) simp
  next
    case (Some byte)
    then have c: "consumed s t" using g by (simp add: good_def)
    note IH = "1.IH" [OF b [symmetric] Some refl refl refl refl _ _ consumed_buf_stream [OF c "1.prems"(1)]]
    show ?thesis
      using "1.prems"(2) b Some IH c
      by (subst (asm) varint32_loop.simps)
        (auto simp: Let_def good_def split: if_splits intro: window_intros)
  qed
qed

lemma pb_decode_varint32_eof_good:
  assumes "buf_stream s" "pb_decode_varint32_eof s = (r, s', eof)"
  shows "good s (r \<noteq> None) s'"
proof -
  obtain b t where b: "pb_readbyte s = (b, t)" by (cases "pb_readbyte s")
  note g = pb_readbyte_good [OF assms(1) b]
  show ?thesis
  proof (cases b)
    case None
    then show ?thesis using assms(2) b g by (simp add: pb_decode_varint32_eof_def)
  next
    case (Some byte)
    then have c: "consumed s t" using g by (simp add: good_def)
    then show ?thesis
      using assms(2) b Some varint32_loop_good [OF consumed_buf_stream [OF c assms(1)]]
      by (auto simp: pb_decode_varint32_eof_def goodI split: if_splits prod.splits intro: good_trans)
  qed
qed

lemma pb_decode_varint32_good [stream_good]:
  "buf_stream s \<Longrightarrow> pb_decode_varint32 s = (r, s') \<Longrightarrow> good s (r \<noteq> None) s'"
  using pb_decode_varint32_eof_good [of s] by (auto simp: pb_decode_varint32_def split: prod.splits)

lemma pb_decode_tag_good:
  "buf_stream s \<Longrightarrow> pb_decode_tag s = (r, s', eof) \<Longrightarrow> good s (r \<noteq> None) s'"
  using pb_decode_varint32_eof_good [of s]
  by (auto simp: pb_decode_tag_def good_def consumed_within split: prod.splits option.splits if_splits)

text \<open>A \<open>pb_decode_tag\<close> that ends the message (a zero byte or the end of the data) is in step.\<close>

lemma pb_decode_tag_eof:
  assumes "buf_stream s" "pb_decode_tag s = (None, s', True)"
  shows "consumed s s'"
proof (cases "bytes_left s = 0")
  case True
  then show ?thesis
    using assms by (auto simp: pb_decode_tag_def pb_decode_varint32_eof_def pb_readbyte_buf)
next
  case False
  then show ?thesis
    using assms pb_decode_varint32_eof_good [OF assms(1)]
    by (auto simp: pb_decode_tag_def good_def pb_decode_varint32_eof_def pb_readbyte_buf
        split: prod.splits option.splits if_splits)
qed

lemma varint_loop_good [stream_good]:
  "buf_stream s \<Longrightarrow> varint_loop s k v = (r, s') \<Longrightarrow> good s (r \<noteq> None) s'"
proof (induction s k v rule: varint_loop.induct)
  case (1 s k v)
  obtain b t where b: "pb_readbyte s = (b, t)" by (cases "pb_readbyte s")
  note g = pb_readbyte_good [OF "1.prems"(1) b]
  show ?case
  proof (cases "64 \<le> k \<or> b = None")
    case True
    then show ?thesis using "1.prems" b g by (subst (asm) varint_loop.simps) (auto split: if_splits)
  next
    case False
    then obtain byte where Some: "b = Some byte" by auto
    then have c: "consumed s t" using g by (simp add: good_def)
    have k: "\<not> 64 \<le> k" using False by simp
    note IH = "1.IH" [OF k b [symmetric] Some refl _ consumed_buf_stream [OF c "1.prems"(1)]]
    show ?thesis
      using "1.prems"(2) b Some IH c k
      by (subst (asm) varint_loop.simps)
        (auto simp: Let_def good_def split: if_splits intro: window_intros)
  qed
qed

lemma pb_decode_varint_good [stream_good]:
  "buf_stream s \<Longrightarrow> pb_decode_varint s = (r, s') \<Longrightarrow> good s (r \<noteq> None) s'"
  unfolding pb_decode_varint_def by (rule varint_loop_good)

lemma pb_decode_svarint_good [stream_good]:
  "buf_stream s \<Longrightarrow> pb_decode_svarint s = (r, s') \<Longrightarrow> good s (r \<noteq> None) s'"
  using pb_decode_varint_good [of s]
  by (auto simp: pb_decode_svarint_def split: prod.splits option.splits)

lemma pb_decode_fixed_good [stream_good]:
  "buf_stream s \<Longrightarrow> pb_decode_fixed32 s = (r, s') \<Longrightarrow> good s (r \<noteq> None) s'"
  "buf_stream s \<Longrightarrow> pb_decode_fixed64 s = (q, s') \<Longrightarrow> good s (q \<noteq> None) s'"
  using pb_read_good [of s True 4] pb_read_good [of s True 8]
  by (auto simp: pb_decode_fixed32_def pb_decode_fixed64_def split: prod.splits option.splits)

lemma pb_skip_varint_good [stream_good]:
  "buf_stream s \<Longrightarrow> pb_skip_varint s = (ok, s') \<Longrightarrow> good s ok s'"
proof (induction s rule: pb_skip_varint.induct)
  case (1 s)
  obtain b t where b: "pb_read s True 1 = (b, t)" by (cases "pb_read s True 1")
  note g = pb_read_good [OF "1.prems"(1) b]
  show ?case
  proof (cases b)
    case None
    then show ?thesis using "1.prems"(2) b g by (subst (asm) pb_skip_varint.simps) simp
  next
    case (Some bs)
    then have c: "consumed s t" using g by (simp add: good_def)
    note IH = "1.IH" [OF b [symmetric] Some _ consumed_buf_stream [OF c "1.prems"(1)]]
    show ?thesis
      using "1.prems"(2) b Some IH c
      by (subst (asm) pb_skip_varint.simps) (auto simp: goodI split: if_splits intro: good_trans)
  qed
qed

lemma pb_skip_string_good [stream_good]:
  assumes "buf_stream s" "pb_skip_string s = (ok, s')"
  shows "good s ok s'"
proof -
  obtain r t where r: "pb_decode_varint32 s = (r, t)" by (cases "pb_decode_varint32 s")
  note g = pb_decode_varint32_good [OF assms(1) r]
  show ?thesis
  proof (cases r)
    case (Some v)
    then have c: "consumed s t" using g by (simp add: good_def)
    obtain q u where q: "pb_read t False (unat v) = (q, u)" by (cases "pb_read t False (unat v)")
    have "ok = (q \<noteq> None)" "s' = u" using assms(2) r Some q by (auto simp: pb_skip_string_def)
    then show ?thesis
      using good_trans [OF c pb_read_good [OF consumed_buf_stream [OF c assms(1)] q]] by simp
  qed (use assms(2) r g in \<open>simp add: pb_skip_string_def\<close>)
qed

lemma pb_skip_field_good [stream_good]:
  "buf_stream s \<Longrightarrow> pb_skip_field s wt = (ok, s') \<Longrightarrow> good s ok s'"
  using pb_read_good [of s False 8] pb_read_good [of s False 4]
  by (auto simp: pb_skip_field_def pb_skip_varint_good pb_skip_string_good split: if_splits prod.splits)

lemma raw_varint_loop_good:
  "buf_stream s \<Longrightarrow> raw_varint_loop s m buf = (r, s') \<Longrightarrow> good s (r \<noteq> None) s'"
proof (induction s m buf rule: raw_varint_loop.induct)
  case (1 s m buf)
  obtain b t where b: "pb_read s True 1 = (b, t)" by (cases "pb_read s True 1")
  note g = pb_read_good [OF "1.prems"(1) b]
  show ?case
  proof (cases "m < length buf + 1 \<or> b = None")
    case True
    then show ?thesis
      using "1.prems" b g by (subst (asm) raw_varint_loop.simps) (auto split: if_splits)
  next
    case False
    then obtain bs where Some: "b = Some bs" and m: "\<not> m < length buf + 1" by auto
    then have c: "consumed s t" using g by (simp add: good_def)
    note IH = "1.IH" [OF m b [symmetric] Some _ consumed_buf_stream [OF c "1.prems"(1)]]
    show ?thesis
      using "1.prems"(2) b Some IH c m
      by (subst (asm) raw_varint_loop.simps)
        (auto simp: good_def split: if_splits intro: window_intros)
  qed
qed

lemma read_raw_value_good:
  "buf_stream s \<Longrightarrow> read_raw_value s wt m = (r, s') \<Longrightarrow> good s (r \<noteq> None) s'"
  using raw_varint_loop_good [of s m "[]" r s'] pb_read_good [of s True 8 r s'] pb_read_good [of s True 4 r s']
  by (auto simp: read_raw_value_def split: if_splits)

section \<open>Substreams\<close>

text \<open>
  The substream is the window of the string; the parent keeps the rest, and closing a substream
  that has kept to its window puts the parent back in step.
\<close>

lemma substream_make:
  assumes "buf_stream s" "pb_make_string_substream s = (r, p)"
  shows "case r of
      None \<Rightarrow> within s p
    | Some sub \<Rightarrow> buf_stream sub \<and> within s p \<and> icallback p = Buf_read \<and>
        (\<exists>k. is_buf sub = drop k (is_buf s) \<and> k + bytes_left sub + bytes_left p = bytes_left s)"
proof -
  obtain q t where q: "pb_decode_varint32 s = (q, t)" by (cases "pb_decode_varint32 s")
  note g = pb_decode_varint32_good [OF assms(1) q]
  show ?thesis
  proof (cases q)
    case None
    then show ?thesis using assms(2) q g by (auto simp: pb_make_string_substream_def good_def)
  next
    case (Some sz)
    then have c: "consumed s t" using g by (simp add: good_def)
    then obtain k where k: "is_buf t = drop k (is_buf s)" "k + bytes_left t = bytes_left s"
      "icallback t = Buf_read" by (auto simp: consumed_def)
    show ?thesis
    proof (cases "bytes_left t < unat sz")
      case True
      then show ?thesis
        using assms(2) q Some consumed_within [OF c] by (auto simp: pb_make_string_substream_def)
    next
      case False
      then have "r = Some (t\<lparr>bytes_left := unat sz\<rparr>)" "p = t\<lparr>bytes_left := bytes_left t - unat sz\<rparr>"
        using assms(2) q Some by (auto simp: pb_make_string_substream_def)
      moreover have "buf_stream t" using consumed_buf_stream [OF c assms(1)] .
      ultimately show ?thesis
        using k False by (auto simp: buf_stream_def within_def intro!: exI [of _ k])
    qed
  qed
qed

lemma substream_close:
  assumes s: "buf_stream s" and m: "pb_make_string_substream s = (Some sub, p)"
    and p': "icallback p' = icallback p" "bytes_left p' = bytes_left p"
    and g: "good sub ok sub'" and c: "pb_close_string_substream p' sub' = (ok', s')"
  shows "good s (ok \<and> ok') s'" and "within s s'"
proof -
  from substream_make [OF s m] obtain k where k: "buf_stream sub" "icallback p' = Buf_read"
    "is_buf sub = drop k (is_buf s)" "k + bytes_left sub + bytes_left p' = bytes_left s"
    using p' by auto
  from good_within [OF g] obtain j where j: "is_buf sub' = drop j (is_buf sub)"
    "j + bytes_left sub' \<le> bytes_left sub" "icallback sub' = Buf_read" by (auto simp: within_def)
  have b: "buf_stream sub'" using within_buf_stream [OF good_within [OF g] k(1)] .
  have s': "s' = p'\<lparr>is_buf := drop (bytes_left sub') (is_buf sub'), is_user := is_user s', ierrmsg := ierrmsg s'\<rparr>" "ok'"
    using c b by (auto simp: pb_close_string_substream_def pb_read_buf split: if_splits)
  have d: "is_buf s' = drop (k + j + bytes_left sub') (is_buf s)" "bytes_left s' = bytes_left p'"
    "icallback s' = Buf_read"
    using k(2,3) j(1) by (subst s'(1); simp add: ac_simps)+
  show w: "within s s'"
    using d j(2) k(4) by (auto simp: within_def intro!: exI [of _ "k + j + bytes_left sub'"])
  have "consumed s s'" if ok
  proof -
    from g that obtain i where "is_buf sub' = drop i (is_buf sub)" "i + bytes_left sub' = bytes_left sub"
      by (auto simp: good_def consumed_def)
    then have "is_buf s' = drop (k + i + bytes_left sub') (is_buf s)"
      using k(3) by (subst s'(1)) (simp add: ac_simps)
    then show ?thesis
      using d(2,3) k(4) \<open>i + bytes_left sub' = bytes_left sub\<close>
      by (auto simp: consumed_def intro!: exI [of _ "k + i + bytes_left sub'"])
  qed
  then show "good s (ok \<and> ok') s'" using w by (simp add: good_def)
qed

section \<open>Combining readers\<close>

lemma read_then_good:
  assumes "buf_stream s" "\<And>r t. f s = (r, t) \<Longrightarrow> good s (r \<noteq> None) t"
    and "(case f s of (None, t) \<Rightarrow> k t | (Some v, t) \<Rightarrow> g v t) = R"
    and "\<And>t. k t = R \<Longrightarrow> \<not> ok \<and> s' = t"
    and "\<And>v t. buf_stream t \<Longrightarrow> g v t = R \<Longrightarrow> good t ok s'"
  shows "good s ok s'"
proof -
  obtain r t where r: "f s = (r, t)" by (cases "f s")
  note g = assms(2) [OF r]
  show ?thesis
  proof (cases r)
    case None
    then show ?thesis using g assms(3,4) r by (auto simp: good_def)
  next
    case (Some v)
    then have c: "consumed s t" using g by (simp add: good_def)
    then show ?thesis
      using good_trans [OF c assms(5) [OF consumed_buf_stream [OF c assms(1)], of v]] assms(3) r Some
      by simp
  qed
qed

lemma readerI:
  "(\<And>s h ok h' s'. buf_stream s \<Longrightarrow> f (h, s) = Some (ok, h', s') \<Longrightarrow> good s ok s') \<Longrightarrow> stream_reader f"
  by unfold_locales

lemma readerD:
  "stream_reader f \<Longrightarrow> buf_stream s \<Longrightarrow> f (h, s) = Some (ok, h', s') \<Longrightarrow> good s ok s'"
  by (rule stream_reader.keeps_window)

lemma reader_seq:
  assumes f: "stream_reader f" and g: "stream_reader g"
  shows "stream_reader (\<lambda>st. and_then_opt (f st) g)"
proof (rule readerI)
  fix s h ok h' s'
  assume h: "buf_stream s" "and_then_opt (f (h, s)) g = Some (ok, h', s')"
  then consider "f (h, s) = Some (False, h', s')" "\<not> ok"
    | h1 s1 where "f (h, s) = Some (True, h1, s1)" "g (h1, s1) = Some (ok, h', s')"
    by (auto simp: and_then_opt_def split: option.splits prod.splits if_splits)
  then show "good s ok s'"
  proof cases
    case 1
    then show ?thesis using readerD [OF f h(1)] by simp
  next
    case 2
    then have c: "consumed s s1" using readerD [OF f h(1)] by (auto simp: good_def)
    show ?thesis using good_trans [OF c readerD [OF g consumed_buf_stream [OF c h(1)] 2(2)]] .
  qed
qed

lemma reader_const: "stream_reader (\<lambda>(h, s). Some (i_error h s e))" "stream_reader (\<lambda>(h, s). Some (b, f h, s))"
  by (auto intro!: readerI simp: i_error_def)

lemma reader_none: "stream_reader (\<lambda>_. None)"
  by (auto intro!: readerI)

lemma reader_heap: "(\<And>h0. stream_reader (f h0)) \<Longrightarrow> stream_reader (\<lambda>(h, s). f h (g h, s))"
  by (rule readerI) (auto dest: readerD)

lemma reader_bind_heap:
  "(\<And>h0. stream_reader (f h0)) \<Longrightarrow> stream_reader (\<lambda>(h, s). do { h1 \<leftarrow> g h; f h1 (h1, s) })"
  by (rule readerI) (auto dest: readerD simp: bind_eq_Some_conv)

section \<open>Field decoders\<close>

lemma store_checked_good:
  "buf_stream s \<Longrightarrow> store_checked r v h s = (ok, h', s') \<Longrightarrow> good s ok s'"
  by (auto simp: store_checked_def i_error_def split: option.splits if_splits)

lemma reader_bool: "stream_reader (\<lambda>st. Some (pb_dec_bool f d st))"
  by (rule readerI) (auto simp: pb_dec_bool_def elim!: read_then_good [where f = pb_decode_varint32, rotated 2]
      intro: pb_decode_varint32_good)

lemma reader_varint: "stream_reader (\<lambda>st. Some (pb_dec_varint f d st))"
  by (rule readerI) (auto simp: pb_dec_varint_def Let_def elim!: read_then_good [where f = pb_decode_varint, rotated 2]
      intro: pb_decode_varint_good store_checked_good)

lemma reader_uvarint: "stream_reader (\<lambda>st. Some (pb_dec_uvarint f d st))"
  by (rule readerI) (auto simp: pb_dec_uvarint_def elim!: read_then_good [where f = pb_decode_varint, rotated 2]
      intro: pb_decode_varint_good store_checked_good)

lemma reader_svarint: "stream_reader (\<lambda>st. Some (pb_dec_svarint f d st))"
  by (rule readerI) (auto simp: pb_dec_svarint_def elim!: read_then_good [where f = pb_decode_svarint, rotated 2]
      intro: pb_decode_svarint_good store_checked_good)

lemma reader_fixed32: "stream_reader (\<lambda>st. Some (pb_dec_fixed32 f d st))"
  by (rule readerI) (auto simp: pb_dec_fixed32_def elim!: read_then_good [where f = pb_decode_fixed32, rotated 2]
      intro: pb_decode_fixed_good)

lemma reader_fixed64: "stream_reader (\<lambda>st. Some (pb_dec_fixed64 f d st))"
  by (rule readerI) (auto simp: pb_dec_fixed64_def elim!: read_then_good [where f = pb_decode_fixed64, rotated 2]
      intro: pb_decode_fixed_good)

lemma reader_read_to: "stream_reader (\<lambda>st. Some (read_to d n st))"
  by (rule readerI) (auto simp: read_to_def elim!: read_then_good [where f = "\<lambda>s. pb_read s True n", rotated 2]
      intro: pb_read_good)

lemma reader_allocate: "stream_reader (allocate_field E p a b)"
  by (rule readerI) (auto simp: allocate_field_def Let_def i_error_def split: if_splits option.splits)

lemma reader_fixed_length: "stream_reader (\<lambda>st. Some (pb_dec_fixed_length_bytes f d st))"
proof (rule readerI)
  fix s :: "'a pb_istream" and h ok h' s'
  assume "buf_stream s" "Some (pb_dec_fixed_length_bytes f d (h, s)) = Some (ok, h', s')"
  then show "good s ok s'"
    using readerD [OF reader_read_to [of d "unat (data_size f)"]]
    by (auto simp: pb_dec_fixed_length_bytes_def i_error_def
        elim!: read_then_good [where f = pb_decode_varint32, rotated 2]
        intro: pb_decode_varint32_good split: if_splits)
qed

text \<open>A length prefix, then a reader that depends on it.\<close>

lemma reader_prefix:
  assumes "\<And>v. stream_reader (g v)"
  shows "stream_reader (\<lambda>(h, s). case pb_decode_varint32 s of
      (None, s') \<Rightarrow> Some (False, h, s') | (Some v, s') \<Rightarrow> g v (h, s'))"
  by (rule readerI) (auto elim!: read_then_good [where f = pb_decode_varint32, rotated 2]
      intro: pb_decode_varint32_good readerD [OF assms])

lemma reader_bytes: "stream_reader (pb_dec_bytes E f d)"
proof -
  have store: "stream_reader (\<lambda>(h, s). Some (read_to (b + 4) n (h\<lparr>mem := store_u32 (mem h) b sz\<rparr>, s)))" for b n sz
    by (rule reader_heap [where f = "\<lambda>_ st. Some (read_to (b + 4) n st)"]) (rule reader_read_to)
  have ptr: "stream_reader (\<lambda>(h, s). Some (read_to (load_ptr (mem h) d + 4) n
      (h\<lparr>mem := store_u32 (mem h) (load_ptr (mem h) d) sz\<rparr>, s)))" for n sz
    by (rule reader_heap [where f = "\<lambda>h st. Some (read_to (load_ptr (mem h) d + 4) n st)"]) (rule reader_read_to)
  note s1 = readerD [OF store] and s2 = readerD [OF reader_seq [OF reader_allocate ptr]]
  show ?thesis
    unfolding pb_dec_bytes_def Let_def
    by (rule reader_prefix [of "\<lambda>sz (h, s). _ sz h s", simplified prod.case], rule readerI)
      (use s1 s2 in \<open>auto simp: i_error_def split: if_splits\<close>)
qed

lemma reader_string: "stream_reader (pb_dec_string E f d)"
proof -
  have store: "stream_reader (\<lambda>st. case read_to b n st of
      (status, h, s) \<Rightarrow> Some (status, F h, s))" for b n F
    by (rule readerI) (auto dest: readerD [OF reader_read_to] split: prod.splits)
  have ptr: "stream_reader (\<lambda>(h, s). case read_to (load_ptr (mem h) d) n (h, s) of
      (status, h', s) \<Rightarrow> Some (status, F h h', s))" for n F
    by (rule readerI) (auto dest: readerD [OF reader_read_to] split: prod.splits)
  note s1 = readerD [OF store] and s2 = readerD [OF reader_seq [OF reader_allocate ptr]]
  show ?thesis
    unfolding pb_dec_string_def Let_def
    by (rule reader_prefix [of "\<lambda>sz (h, s). _ sz h s", simplified prod.case], rule readerI)
      (use s1 s2 in \<open>auto simp: i_error_def split: if_splits\<close>)
qed

text \<open>Running a reader on a substream and closing it again.\<close>

lemma substream_good:
  assumes s: "buf_stream s" and sub: "pb_make_string_substream s = (Some sub, p)"
    and p': "icallback p' = icallback p" "bytes_left p' = bytes_left p"
    and r: "good sub status sub'"
    and c: "(case pb_close_string_substream p' sub' of (False, t) \<Rightarrow> Some (False, h, t)
             | (True, t) \<Rightarrow> Some (status, h, t)) = Some (ok, h', s')"
  shows "good s ok s'"
  using substream_close [OF s sub p' r, of "fst (pb_close_string_substream p' sub')"
      "snd (pb_close_string_substream p' sub')"] c
  by (auto split: prod.splits bool.splits)

lemma reader_decode_message:
  assumes "stream_reader (noinit d p)"
  shows "stream_reader (decode_message n E noinit d p)"
  by (rule readerI)
    (auto simp: decode_message_def bind_eq_Some_conv split: if_splits dest: readerD [OF assms])

lemma reader_submessage:
  assumes "\<And>d p. stream_reader (noinit d p)"
  shows "stream_reader (pb_dec_submessage n E noinit f p)"
proof (rule readerI)
  fix s :: "'a pb_istream" and h ok h' s'
  assume h: "buf_stream s" "pb_dec_submessage n E noinit f p (h, s) = Some (ok, h', s')"
  obtain r t where m: "pb_make_string_substream s = (r, t)" by (cases "pb_make_string_substream s")
  note mk = substream_make [OF h(1) m]
  show "good s ok s'"
  proof (cases r)
    case None
    then show ?thesis using h(2) m mk by (auto simp: pb_dec_submessage_def good_def)
  next
    case (Some sub)
    then have b: "buf_stream sub" and w: "within s t" using mk by auto
    show ?thesis
    proof (cases "fptr f")
      case (PFields d)
      then obtain st h1 sub' where "(if PB_HTYPE (ftype f) = PB_HTYPE_REPEATED
          then decode_message n E noinit d p (h, sub) else noinit d p (h, sub)) = Some (st, h1, sub')"
        and c: "(case pb_close_string_substream t sub' of (False, s) \<Rightarrow> Some (False, h1, s)
           | (True, s) \<Rightarrow> Some (st, h1, s)) = Some (ok, h', s')"
        using h(2) m Some by (auto simp: pb_dec_submessage_def bind_eq_Some_conv split: if_splits)
      then have "good sub st sub'"
        using readerD [OF reader_decode_message [OF assms] b] readerD [OF assms b]
        by (auto split: if_splits)
      then show ?thesis using substream_good [OF h(1) m [unfolded Some] refl refl _ c] by blast
    qed (use h(2) m Some w in \<open>auto simp: pb_dec_submessage_def i_error_def\<close>)
  qed
qed

lemma reader_decoders:
  assumes "\<And>d p. stream_reader (noinit d p)"
  shows "stream_reader (PB_DECODERS n E noinit lt f p)"
proof -
  have "PB_DECODERS n E noinit lt f p =
    (if lt = 0 then \<lambda>st. Some (pb_dec_bool f p st) else if lt = 1 then \<lambda>st. Some (pb_dec_varint f p st)
     else if lt = 2 then \<lambda>st. Some (pb_dec_uvarint f p st) else if lt = 3 then \<lambda>st. Some (pb_dec_svarint f p st)
     else if lt = 4 then \<lambda>st. Some (pb_dec_fixed32 f p st) else if lt = 5 then \<lambda>st. Some (pb_dec_fixed64 f p st)
     else if lt = 6 then pb_dec_bytes E f p else if lt = 7 then pb_dec_string E f p
     else if lt = 8 then pb_dec_submessage n E noinit f p
     else if lt = 10 then \<lambda>st. Some (pb_dec_fixed_length_bytes f p st) else (\<lambda>_. None))"
    by (auto simp: PB_DECODERS_def fun_eq_iff)
  then show ?thesis
    by (simp add: reader_bool reader_varint reader_uvarint reader_svarint reader_fixed32 reader_fixed64
        reader_bytes reader_string reader_submessage [OF assms] reader_fixed_length reader_none)
qed

section \<open>Static fields\<close>

lemma reader_packed_static:
  assumes "\<And>p. stream_reader (func field p)"
  shows "stream_reader (packed_static_loop k func field it)"
proof (induction k)
  case 0
  then show ?case using reader_none by (simp add: packed_static_loop.simps(1) [abs_def])
next
  case (Suc k)
  show ?case
  proof (rule readerI)
    fix s :: "'a pb_istream" and h ok h' s'
    assume h: "buf_stream s" "packed_static_loop (Suc k) func field it (h, s) = Some (ok, h', s')"
    let ?f = "func field (item_address field (pData it) (load_u32 (mem h) (pSize it)))"
    have g: "stream_reader (\<lambda>(h, t). packed_static_loop k func field it
         (h\<lparr>mem := store_u32 (mem h) (pSize it) (load_u32 (mem h) (pSize it) + 1)\<rparr>, t))"
      by (rule reader_heap [where f = "\<lambda>_. packed_static_loop k func field it"]) (rule Suc.IH)
    show "good s ok s'"
      using h readerD [OF reader_seq [OF assms g] h(1)] by (auto split: if_splits)
  qed
qed

lemma static_packed_good:
  assumes "\<And>p. stream_reader (func field p)" and s: "buf_stream s"
    and "(case pb_make_string_substream s of
            (None, s) \<Rightarrow> Some (False, h, s)
          | (Some substream, s) \<Rightarrow>
              do { (status, h, substream) \<leftarrow>
                     packed_static_loop (Suc (bytes_left substream)) func field it (h, substream);
                   if bytes_left substream \<noteq> 0 then Some (i_error h s e)
                   else (case pb_close_string_substream s substream of
                           (False, s) \<Rightarrow> Some (False, h, s)
                         | (True, s) \<Rightarrow> Some (status, h, s)) }) = Some (ok, h', s')"
  shows "good s ok s'"
proof -
  obtain r t where m: "pb_make_string_substream s = (r, t)" by (cases "pb_make_string_substream s")
  note mk = substream_make [OF s m]
  show ?thesis
  proof (cases r)
    case None
    then show ?thesis using assms(3) m mk by (auto simp: good_def)
  next
    case (Some sub)
    then have b: "buf_stream sub" and w: "within s t" using mk by auto
    obtain st h1 sub' where l: "packed_static_loop (Suc (bytes_left sub)) func field it (h, sub) = Some (st, h1, sub')"
      using assms(3) m Some by (auto simp: bind_eq_Some_conv)
    then have "good sub st sub'" using readerD [OF reader_packed_static b] assms(1) by blast
    then show ?thesis
      using assms(3) m Some l w substream_good [OF s m [unfolded Some] refl refl, of st sub' h1 ok h' s']
      by (auto simp: i_error_def split: if_splits)
  qed
qed

lemma reader_static:
  assumes "\<And>d p. stream_reader (noinit d p)"
  shows "stream_reader (decode_static_field n E noinit wt it)"
proof (rule readerI)
  fix s :: "'a pb_istream" and h ok h' s'
  assume h: "buf_stream s" "decode_static_field n E noinit wt it (h, s) = Some (ok, h', s')"
  let ?field = "iter_field (d_descs E) it"
  let ?f = "PB_DECODERS n E noinit (PB_LTYPE (ftype ?field))"
  have f: "stream_reader (?f ?field p)" for p by (rule reader_decoders [OF assms])
  note fd = readerD [OF reader_decoders [where noinit = noinit, OF assms] h(1)]
  note pk = static_packed_good [where func = ?f and field = ?field, OF f h(1)]
  show "good s ok s'"
    using h(2) unfolding decode_static_field_def Let_def prod.case
    by (auto simp: bind_eq_Some_conv i_error_def h(1) split: if_splits elim!: fd pk)
qed

section \<open>Pointer fields\<close>

lemma packed_pointer_good:
  assumes f: "\<And>p. stream_reader (func (iter_field (d_descs E) it) p)"
  shows "buf_stream s \<Longrightarrow> packed_pointer_loop k n E func it a par (h, s) = Some (ok, par', h', s') \<Longrightarrow>
    good s ok s' \<and> icallback par' = icallback par \<and> is_buf par' = is_buf par \<and> bytes_left par' = bytes_left par"
proof (induction k arbitrary: s a h)
  case (Suc k)
  let ?field = "iter_field (d_descs E) it" and ?sz = "load_u32 (mem h) (pSize it)"
  let ?ds = "unat (data_size ?field)"
  show ?case
  proof (cases "bytes_left s = 0 \<or> ?sz = PB_SIZE_MAX \<or> (a < unat ?sz + 1 \<and> ?ds = 0)")
    case True
    then show ?thesis using Suc.prems by (auto simp: Let_def split: if_splits)
  next
    case False
    obtain a' ok1 h1 s1 where al: "(if a < unat ?sz + 1 then allocate_field E (pData it) ?ds a' (h, s)
         else Some (True, h, s)) = Some (ok1, h1, s1)"
      and rest: "(let pItem = item_address ?field (load_ptr (mem h1) (pData it)) (load_u32 (mem h1) (pSize it)) in
         if \<not> ok1 \<or> pItem = 0 then Some (False, par, h1, s1)
         else do { h \<leftarrow> initialize_pointer_field n E pItem it h1;
                 (ok, h, substream) \<leftarrow> func ?field pItem (h, s1);
                 if \<not> ok then Some (False, par, h, substream)
                 else packed_pointer_loop k n E func it a' par
                        (h\<lparr>mem := store_u32 (mem h) (pSize it) (load_u32 (mem h) (pSize it) + 1)\<rparr>, substream) })
         = Some (ok, par', h', s')"
      using Suc.prems(2) False
      unfolding packed_pointer_loop.simps Let_def prod.case
      by (auto simp: bind_eq_Some_conv split del: if_split split: prod.splits)
    have g1: "good s ok1 s1"
      using al Suc.prems(1) readerD [OF reader_allocate Suc.prems(1)] by (auto split: if_splits)
    show ?thesis
    proof (cases "\<not> ok1 \<or> item_address ?field (load_ptr (mem h1) (pData it)) (load_u32 (mem h1) (pSize it)) = 0")
      case True
      then show ?thesis using rest good_within [OF g1] by (auto simp: good_def Let_def split: if_splits)
    next
      case False
      then have c: "consumed s s1" using g1 by (simp add: good_def)
      obtain pI h2 ok2 h3 s3 where f2: "func ?field pI (h2, s1) = Some (ok2, h3, s3)"
        and r3: "(if \<not> ok2 then Some (False, par, h3, s3)
                 else packed_pointer_loop k n E func it a' par
                        (h3\<lparr>mem := store_u32 (mem h3) (pSize it) (load_u32 (mem h3) (pSize it) + 1)\<rparr>, s3))
           = Some (ok, par', h', s')"
        using rest False by (auto simp: Let_def bind_eq_Some_conv split del: if_split)
      note g2 = good_trans [OF c readerD [OF f consumed_buf_stream [OF c Suc.prems(1)] f2]]
      show ?thesis
      proof (cases ok2)
        case True
        then have c2: "consumed s s3" using g2 by (simp add: good_def)
        show ?thesis
          using Suc.IH [OF consumed_buf_stream [OF c2 Suc.prems(1)]] r3 True good_trans [OF c2] by auto
      next
        case False
        then show ?thesis using r3 g2 by auto
      qed
    qed
  qed
qed simp

lemma reader_if: "stream_reader f \<Longrightarrow> stream_reader g \<Longrightarrow> stream_reader (if b then f else g)"
  by simp

lemma reader_pointer:
  assumes "\<And>d p. stream_reader (noinit d p)"
  shows "stream_reader (decode_pointer_field n E noinit wt it)"
proof (rule readerI)
  fix s :: "'a pb_istream" and h ok h' s'
  assume h: "buf_stream s" "decode_pointer_field n E noinit wt it (h, s) = Some (ok, h', s')"
  let ?field = "iter_field (d_descs E) it"
  let ?f = "PB_DECODERS n E noinit (PB_LTYPE (ftype ?field))"
  have f: "stream_reader (PB_DECODERS n E noinit lt fd p)" for lt fd p by (rule reader_decoders [OF assms])
  have g1: "stream_reader (\<lambda>(h, s). do { h \<leftarrow> initialize_pointer_field n E (load_ptr (mem h) (pData it)) it h;
        PB_DECODERS n E noinit lt fd (load_ptr (mem h) (pData it)) (h, s) })" for lt fd
    by (rule reader_bind_heap [where f = "\<lambda>h. PB_DECODERS n E noinit lt fd (load_ptr (mem h) (pData it))"]) (rule f)
  note s1 = readerD [OF reader_seq [OF reader_allocate g1] h(1)]
  have g2: "stream_reader (\<lambda>(h, s). let sz = load_u32 (mem h) (pSize it);
        pItem = item_address ?field (load_ptr (mem h) (pData it)) sz;
        h = h\<lparr>mem := store_u32 (mem h) (pSize it) (sz + 1)\<rparr> in
      do { h \<leftarrow> initialize_pointer_field n E pItem it h; ?f ?field pItem (h, s) })"
    by (rule readerI) (auto simp: Let_def bind_eq_Some_conv dest: readerD [OF f])
  note s2 = readerD [OF reader_seq [OF reader_allocate g2] h(1), unfolded Let_def]
  show "good s ok s'"
  proof (cases "PB_HTYPE (ftype ?field) \<noteq> 0x20")
    case True
    then show ?thesis
      using h(2) unfolding decode_pointer_field_def Let_def prod.case
      by (auto simp: bind_eq_Some_conv split: if_splits elim!: s1 readerD [OF f h(1)])
  next
    case rep: False
    show ?thesis
    proof (cases "wt = 2 \<and> PB_LTYPE (ftype ?field) \<le> 5")
      case False
      then show ?thesis
        using h(2) rep unfolding decode_pointer_field_def Let_def prod.case
        by (auto simp: i_error_def h(1) split: if_splits elim!: s2)
    next
      case packed: True
      obtain r t where m: "pb_make_string_substream s = (r, t)" by (cases "pb_make_string_substream s")
      note mk = substream_make [OF h(1) m]
      show ?thesis
      proof (cases r)
        case None
        then show ?thesis using h(2) rep packed m mk by (auto simp: decode_pointer_field_def good_def)
      next
        case (Some sub)
        then have b: "buf_stream sub" using mk by auto
        obtain st par h1 sub' where l: "packed_pointer_loop (Suc (bytes_left sub)) n E ?f it
            (unat (load_u32 (mem h) (pSize it))) t (h, sub) = Some (st, par, h1, sub')"
          and c: "(case pb_close_string_substream par sub' of (False, s) \<Rightarrow> Some (False, h1, s)
             | (True, s) \<Rightarrow> Some (st, h1, s)) = Some (ok, h', s')"
          using h(2) rep packed m Some unfolding decode_pointer_field_def Let_def
          by (auto simp: bind_eq_Some_conv simp del: packed_pointer_loop.simps)
        note g = packed_pointer_good [where func = ?f, OF f b l]
        show ?thesis using substream_good [OF h(1) m [unfolded Some] _ _ _ c] g by blast
      qed
    qed
  qed
qed

section \<open>Callback fields\<close>

text \<open>The user's callbacks keep to the window of the stream they are given.\<close>

definition dec_callbacks_ok :: "'s dec_env \<Rightarrow> bool" where
  "dec_callbacks_ok E \<longleftrightarrow>
     (\<forall>f field arg. stream_reader (\<lambda>(h, s). Some (d_callback E f s field arg h))) \<and>
     (\<forall>t f x tag wt. xd_decode (d_ext_type E t) = Some f \<longrightarrow>
        stream_reader (\<lambda>(h, s). Some (f s x tag wt h)))"

lemma reader_callback_loop:
  assumes "stream_reader (\<lambda>(h, s). Some (f s h))"
  shows "stream_reader (callback_loop k f)"
proof (induction k)
  case 0
  then show ?case using reader_none by (simp add: callback_loop.simps(1) [abs_def])
next
  case (Suc k)
  show ?case
  proof (rule readerI)
    fix s :: "'a pb_istream" and h ok h' s'
    assume h: "buf_stream s" "callback_loop (Suc k) f (h, s) = Some (ok, h', s')"
    obtain b h1 s1 where f1: "f s h = (b, h1, s1)" by (cases "f s h")
    then have g: "good s b s1" using readerD [OF assms h(1)] by simp
    show "good s ok s'"
    proof (cases b)
      case True
      then have c: "consumed s s1" using g by (simp add: good_def)
      then show ?thesis
        using h(2) f1 True good_trans [OF c readerD [OF Suc.IH consumed_buf_stream [OF c h(1)]]]
        by (auto simp: goodI split: if_splits)
    qed (use h(2) f1 g in auto)
  qed
qed

lemma reader_callback:
  assumes "dec_callbacks_ok E"
  shows "stream_reader (decode_callback_field n E wt it)"
proof (rule readerI)
  fix s :: "'a pb_istream" and h ok h' s'
  assume h: "buf_stream s" "decode_callback_field n E wt it (h, s) = Some (ok, h', s')"
  let ?field = "iter_field (d_descs E) it" and ?fp = "load_ptr (mem h) (pData it)"
  let ?call = "\<lambda>sub h. d_callback E ?fp sub ?field (pData it + 8) h"
  have cb: "stream_reader (\<lambda>(h, s). Some (?call s h))" using assms by (simp add: dec_callbacks_ok_def)
  consider "pData it = 0 \<or> ?fp = 0" | "\<not> (pData it = 0 \<or> ?fp = 0)" "wt = 2"
    | "\<not> (pData it = 0 \<or> ?fp = 0)" "wt \<noteq> 2" by blast
  then show "good s ok s'"
  proof cases
    case 1
    then show ?thesis
      using h pb_skip_field_good [OF h(1), of wt]
      by (auto simp: decode_callback_field_def split: prod.splits)
  next
    case 2
    obtain r t where m: "pb_make_string_substream s = (r, t)" by (cases "pb_make_string_substream s")
    note mk = substream_make [OF h(1) m]
    show ?thesis
    proof (cases r)
      case None
      then show ?thesis using h(2) 2 m mk by (auto simp: decode_callback_field_def good_def)
    next
      case (Some sub)
      then have b: "buf_stream sub" and w: "within s t" using mk by auto
      obtain st h1 sub' where l: "callback_loop n ?call (h, sub) = Some (st, h1, sub')"
        and c: "(if \<not> st then Some (i_error h1 t ''callback failed'')
           else (case pb_close_string_substream t sub' of (ok, s) \<Rightarrow> Some (ok, h1, s))) = Some (ok, h', s')"
        using h(2) 2 m Some unfolding decode_callback_field_def Let_def by (auto simp: bind_eq_Some_conv)
      note g = readerD [OF reader_callback_loop [OF cb] b l]
      then show ?thesis
        using c w substream_close(1) [OF h(1) m [unfolded Some] refl refl g]
        by (auto simp: i_error_def split: if_splits prod.splits)
    qed
  next
    case 3
    obtain r t where m: "read_raw_value s wt 10 = (r, t)" by (cases "read_raw_value s wt 10")
    have "good s (r \<noteq> None) t" by (rule read_raw_value_good [OF h(1) m])
    then show ?thesis
      using h(2) 3 m by (auto simp: decode_callback_field_def good_def consumed_within split: option.splits prod.splits)
  qed
qed

section \<open>Fields, extensions, messages\<close>

lemma release_union_good:
  assumes s: "buf_stream s" and r: "pb_release_union_field n E (it, h, s) = Some (ok, it', h', s')"
  shows "good s ok s'"
proof -
  let ?D = "d_descs E"
  let ?old = "load_u32 (mem h) (pSize it)" and ?new = "ftag (iter_field ?D it)"
  show ?thesis
  proof (cases "?old = 0 \<or> ?old = ?new")
    case True
    then show ?thesis using r s by (auto simp: pb_release_union_field_def)
  next
    case False
    then obtain b1 it1 where f1: "pb_field_iter_find ?D it ?old = Some (b1, it1)"
      using r by (auto simp: pb_release_union_field_def Let_def split: option.splits)
    show ?thesis
    proof (cases b1)
      case b1: True
      then obtain h1 b2 it2 where "pb_release_single_field n E it1 h = Some h1"
        and f2: "pb_field_iter_find ?D it1 ?new = Some (b2, it2)"
        using r f1 False
        by (auto simp: pb_release_union_field_def Let_def bind_eq_Some_conv split: option.splits)
      then show ?thesis
        using r f1 b1 False s
        by (cases b2) (auto simp: pb_release_union_field_def Let_def split: if_splits)
    next
      case b1: False
      then show ?thesis using r f1 False s by (auto simp: pb_release_union_field_def Let_def)
    qed
  qed
qed

lemma decode_field_good:
  assumes noinit: "\<And>d p. stream_reader (noinit d p)" and cb: "dec_callbacks_ok E"
    and s: "buf_stream s" and r: "decode_field n E noinit wt (it, h, s) = Some (ok, it', h', s')"
  shows "good s ok s'"
proof -
  obtain b it1 h1 s1 where u: "(if PB_HTYPE (ftype (iter_field (d_descs E) it)) = PB_HTYPE_ONEOF
        then pb_release_union_field n E (it, h, s) else Some (True, it, h, s)) = Some (b, it1, h1, s1)"
    using r by (auto simp: decode_field_def and_then_opt_def split: option.splits if_splits)
  then have g: "good s b s1" using release_union_good [OF s] s by (auto split: if_splits)
  show ?thesis
  proof (cases b)
    case False
    then show ?thesis using r u g by (simp add: decode_field_def)
  next
    case True
    then have c: "consumed s s1" using g by (simp add: good_def)
    note b1 = consumed_buf_stream [OF c s]
    let ?a = "PB_ATYPE (ftype (iter_field (d_descs E) it1))"
    have "(if ?a = PB_ATYPE_STATIC then decode_static_field n E noinit wt it1 (h1, s1)
        else if ?a = PB_ATYPE_POINTER then decode_pointer_field n E noinit wt it1 (h1, s1)
        else if ?a = PB_ATYPE_CALLBACK then decode_callback_field n E wt it1 (h1, s1)
        else Some (i_error h1 s1 ''invalid field type'')) = Some (ok, h', s')"
      using r u True by (auto simp: decode_field_def bind_eq_Some_conv Let_def)
    then have "good s1 ok s'"
      using readerD [OF reader_static [where noinit = noinit, OF noinit] b1]
        readerD [OF reader_pointer [where noinit = noinit, OF noinit] b1]
        readerD [OF reader_callback [OF cb] b1] b1
      by (auto simp: i_error_def split: if_splits)
    then show ?thesis by (rule good_trans [OF c])
  qed
qed

lemma reader_extension_loop:
  assumes noinit: "\<And>d p. stream_reader (noinit d p)" and cb: "dec_callbacks_ok E"
  shows "stream_reader (extension_decode_loop k n E noinit tag wt pos ext)"
proof (induction k arbitrary: ext)
  case 0
  then show ?case by (auto intro!: readerI split: if_splits)
next
  case (Suc k)
  have dflt: "stream_reader (default_extension_decoder n E noinit x tag wt)" for x
    by (rule readerI)
      (auto simp: default_extension_decoder_def Let_def bind_eq_Some_conv
        split: if_splits intro: decode_field_good [where noinit = noinit, OF noinit cb])
  show ?case
  proof (rule readerI)
    fix s :: "'a pb_istream" and h ok h' s'
    assume h: "buf_stream s"
      "extension_decode_loop (Suc k) n E noinit tag wt pos ext (h, s) = Some (ok, h', s')"
    let ?f = "\<lambda>(h', s). case xd_decode (d_ext_type E (load_ptr (mem h) ext)) of
             Some f \<Rightarrow> Some (f s ext tag wt h')
           | None \<Rightarrow> default_extension_decoder n E noinit ext tag wt (h', s)"
    have f: "stream_reader ?f"
      using dflt [of ext] cb
      by (cases "xd_decode (d_ext_type E (load_ptr (mem h) ext))") (auto simp: dec_callbacks_ok_def)
    have g: "stream_reader (\<lambda>(h, s). extension_decode_loop k n E noinit tag wt pos (load_ptr (mem h) (ext + 16)) (h, s))"
      by (rule reader_heap [where f = "\<lambda>h. extension_decode_loop k n E noinit tag wt pos (load_ptr (mem h) (ext + 16))"
            and g = "\<lambda>h. h"]) (rule Suc.IH)
    show "good s ok s'"
      using h(2) readerD [OF reader_seq [OF f g] h(1), of h ok h' s'] h(1) by (auto split: if_splits)
  qed
qed

lemma decode_unknown_good:
  assumes noinit: "\<And>d p. stream_reader (noinit d p)" and cb: "dec_callbacks_ok E"
    and s: "buf_stream s" and r: "decode_unknown n E noinit tag wt (L, h, s) = Some (ok, L', h', s')"
  shows "good s ok s'"
proof -
  have skip: "good s ok s'" if "pb_skip_field s wt = (ok, s')" using pb_skip_field_good [OF s that] .
  have ext: "good s b s1" if "decode_extension n E noinit tag wt it (h, s) = Some (b, h1, s1)" for it b h1 s1
    using that readerD [OF reader_extension_loop [where noinit = noinit, OF noinit cb] s]
    by (auto simp: decode_extension_def)
  have skip2: "good s ok s'" if "consumed s s1" "pb_skip_field s1 wt = (ok, s')" for s1
    by (rule good_trans [OF that(1) pb_skip_field_good [OF consumed_buf_stream [OF that(1) s] that(2)]])
  show ?thesis
  proof (cases "extension_range_start L \<le> tag")
    case False
    then show ?thesis using r skip by (auto simp: decode_unknown_def split: prod.splits)
  next
    case rng: True
    obtain found it where f: "find_extension_field (d_descs E) (dl_iter L) = Some (found, it)"
      using r rng by (auto simp: decode_unknown_def Let_def bind_eq_Some_conv)
    let ?start = "if found then ftag (iter_field (d_descs E) it) else - 1"
    show ?thesis
    proof (cases "?start \<le> tag")
      case False
      then show ?thesis using r rng f skip by (auto simp: decode_unknown_def Let_def split: prod.splits)
    next
      case True
      obtain b h1 s1 where e: "decode_extension n E noinit tag wt it (h, s) = Some (b, h1, s1)"
        using r rng f True by (auto simp: decode_unknown_def Let_def bind_eq_Some_conv)
      note g = ext [OF e]
      then show ?thesis
        using r rng f True e skip2 [of s1]
        by (cases b; cases "bytes_left s = bytes_left s1")
          (auto simp: decode_unknown_def Let_def good_def split: prod.splits)
    qed
  qed
qed

lemma decode_known_good:
  assumes noinit: "\<And>d p. stream_reader (noinit d p)" and cb: "dec_callbacks_ok E"
    and s: "buf_stream s" and r: "decode_known n E noinit wt (L, h, s) = Some (ok, L', h', s')"
  shows "good s ok s'"
  using r s
  by (auto simp: decode_known_def Let_def bind_eq_Some_conv split: if_splits
      intro: decode_field_good [where noinit = noinit, OF noinit cb])

lemma decode_loop_good:
  assumes noinit: "\<And>d p. stream_reader (noinit d p)" and cb: "dec_callbacks_ok E"
  shows "buf_stream s \<Longrightarrow> decode_loop k n E noinit (L, h, s) = Some (ok, L', h', s') \<Longrightarrow> good s ok s'"
proof (induction k arbitrary: L h s)
  case 0
  then show ?case by (auto split: if_splits)
next
  case (Suc k)
  obtain r t eof where tag: "pb_decode_tag s = (r, t, eof)" by (cases "pb_decode_tag s")
  note gt = pb_decode_tag_good [OF Suc.prems(1) tag]
  show ?case
  proof (cases "bytes_left s = 0 \<or> r = None")
    case True
    then show ?thesis
      using Suc.prems tag gt pb_decode_tag_eof [OF Suc.prems(1), of t]
      by (cases eof) (auto simp: good_def split: if_splits)
  next
    case False
    then obtain wt tg where Some: "r = Some (wt, tg)" by auto
    then have c: "consumed s t" using gt by (simp add: good_def)
    note bt = consumed_buf_stream [OF c Suc.prems(1)]
    obtain found it where f: "pb_field_iter_find (d_descs E) (dl_iter L) tg = Some (found, it)"
      using Suc.prems(2) tag Some False by (auto simp: bind_eq_Some_conv)
    let ?L = "L\<lparr>dl_iter := it\<rparr>"
    have st: "and_then_opt (if found then decode_known n E noinit wt (?L, h, t)
          else decode_unknown n E noinit tg wt (?L, h, t)) (decode_loop k n E noinit) = Some (ok, L', h', s')"
      using Suc.prems(2) tag Some False f by (simp add: Let_def split del: if_split)
    then obtain b L1 h1 s1 where one: "(if found then decode_known n E noinit wt (?L, h, t)
          else decode_unknown n E noinit tg wt (?L, h, t)) = Some (b, L1, h1, s1)"
      by (auto simp: and_then_opt_def split: option.splits)
    then have g1: "good t b s1"
      using decode_known_good [where noinit = noinit, OF noinit cb bt]
        decode_unknown_good [where noinit = noinit, OF noinit cb bt] by (auto split: if_splits)
    have g2: "good s b s1" by (rule good_trans [OF c g1])
    show ?thesis
    proof (cases b)
      case True
      then have c1: "consumed s s1" using g2 by (simp add: good_def)
      have "decode_loop k n E noinit (L1, h1, s1) = Some (ok, L', h', s')"
        using st one True by (simp split del: if_split)
      then show ?thesis using good_trans [OF c1 Suc.IH [OF consumed_buf_stream [OF c1 Suc.prems(1)]]] by blast
    next
      case False
      then show ?thesis using st one g2 by (simp split del: if_split)
    qed
  qed
qed

lemma reader_noinit:
  assumes "dec_callbacks_ok E"
  shows "stream_reader (pb_decode_noinit n E d p)"
proof (induction n arbitrary: d p)
  case 0
  then show ?case using reader_none by (simp add: pb_decode_noinit.simps(1) [abs_def])
next
  case (Suc n)
  show ?case
  proof (rule readerI)
    fix s :: "'a pb_istream" and h ok h' s'
    assume h: "buf_stream s" "pb_decode_noinit (Suc n) E d p (h, s) = Some (ok, h', s')"
    obtain b L h1 s1 where l: "decode_loop n n E (pb_decode_noinit n E)
        (init_locals E d p, h\<lparr>mem := store_u32 (mem h) (stack_slot n) 0\<rparr>, s) = Some (b, L, h1, s1)"
      and f: "(if b then Some (finish_message n E (L, h1, s1)) else Some (False, h1, s1)) = Some (ok, h', s')"
      using h(2) by (auto simp: bind_eq_Some_conv)
    note g = decode_loop_good [where noinit = "pb_decode_noinit n E", OF Suc.IH assms h(1) l]
    show "good s ok s'"
      using f g by (auto simp: finish_message_def Let_def i_error_def good_def consumed_within
          split: if_splits option.splits)
  qed
qed

lemma reader_pb_decode: "dec_callbacks_ok E \<Longrightarrow> stream_reader (pb_decode n E d p)"
  unfolding pb_decode_def by (intro reader_decode_message reader_noinit)

lemma reader_delimited:
  assumes "stream_reader f"
  shows "stream_reader (decode_delimited_with f)"
proof (rule readerI)
  fix s :: "'a pb_istream" and h ok h' s'
  assume h: "buf_stream s" "decode_delimited_with f (h, s) = Some (ok, h', s')"
  obtain r t where m: "pb_make_string_substream s = (r, t)" by (cases "pb_make_string_substream s")
  note mk = substream_make [OF h(1) m]
  show "good s ok s'"
  proof (cases r)
    case None
    then show ?thesis using h(2) m mk by (auto simp: decode_delimited_with_def good_def)
  next
    case (Some sub)
    then have b: "buf_stream sub" using mk by auto
    obtain st h1 sub' where l: "f (h, sub) = Some (st, h1, sub')"
      and c: "(case pb_close_string_substream t sub' of (False, s) \<Rightarrow> Some (False, h1, s)
           | (True, s) \<Rightarrow> Some (st, h1, s)) = Some (ok, h', s')"
      using h(2) m Some by (auto simp: decode_delimited_with_def bind_eq_Some_conv)
    show ?thesis by (rule substream_good [OF h(1) m [unfolded Some] refl refl readerD [OF assms b l] c])
  qed
qed

interpretation dec_bool: stream_reader "\<lambda>st. Some (pb_dec_bool f d st)" for f d
  by (rule reader_bool)

interpretation dec_string: stream_reader "pb_dec_string E f d" for E f d
  by (rule reader_string)

interpretation dec_bytes: stream_reader "pb_dec_bytes E f d" for E f d
  by (rule reader_bytes)

end
