(* ===== verification/PB_Dec_Frame.thy ===== *)
theory PB_Dec_Frame
  imports PB_Decode
begin

text \<open>
  Where the decoder writes. For message types whose fields are all statically allocated, whose
  descriptors fit the structure they describe, decoding any input at all changes no byte of
  memory outside the destination structure (local variables apart, which have negative
  addresses) and no heap block: lengths, counts and tags in the input cannot make it write
  elsewhere.
\<close>

section \<open>The contract\<close>

definition frame :: "int \<Rightarrow> int \<Rightarrow> heap \<Rightarrow> heap \<Rightarrow> bool" where
  "frame a n h h' \<longleftrightarrow> live h' = live h \<and> (\<forall>x \<ge> 0. x < a \<or> a + n \<le> x \<longrightarrow> mem h' x = mem h x)"

locale confined =
  fixes a n :: int
    and run :: "'s dec_op"
  assumes writes: "\<And>h s ok h' s'. run (h, s) = Some (ok, h', s') \<Longrightarrow> frame a n h h'"
begin

lemma reads_back:
  assumes "run (h, s) = Some (ok, h', s')" "0 \<le> b" "b + int m \<le> a \<or> a + n \<le> b"
  shows "mem_read (mem h') b m = mem_read (mem h) b m"
  using writes [OF assms(1)] assms(2,3) by (auto simp: frame_def mem_read_def)

end

lemma frame_refl [simp, intro]: "frame a n h h"
  by (simp add: frame_def)

lemma frame_trans: "frame a n h h1 \<Longrightarrow> frame a n h1 h2 \<Longrightarrow> frame a n h h2"
  by (simp add: frame_def)

lemma frame_mono: "frame b m h h' \<Longrightarrow> a \<le> b \<Longrightarrow> b + m \<le> a + n \<Longrightarrow> frame a n h h'"
  by (auto simp: frame_def)

lemma frame_write:
  "a \<le> b \<and> b + int (length bs) \<le> a + n \<or> b + int (length bs) \<le> 0 \<Longrightarrow>
     frame a n h (h\<lparr>mem := mem_write (mem h) b bs\<rparr>)"
  by (auto simp: frame_def mem_write_def)

lemma frame_byte: "a \<le> b \<and> b + 1 \<le> a + n \<Longrightarrow> frame a n h (h\<lparr>mem := (mem h)(b := v)\<rparr>)"
  by (auto simp: frame_def)

lemma frame_stores:
  "a \<le> b \<and> b + 4 \<le> a + n \<or> b + 4 \<le> 0 \<Longrightarrow> frame a n h (h\<lparr>mem := store_u32 (mem h) b w\<rparr>)"
  "a \<le> b \<and> b + 2 \<le> a + n \<Longrightarrow> frame a n h (h\<lparr>mem := store_u16 (mem h) b v\<rparr>)"
  "a \<le> b \<and> b + 8 \<le> a + n \<Longrightarrow> frame a n h (h\<lparr>mem := store_u64 (mem h) b q\<rparr>)"
  unfolding store_u32_def store_u16_def store_u64_def by (rule frame_write; simp)+

lemma confinedI:
  "(\<And>h s ok h' s'. f (h, s) = Some (ok, h', s') \<Longrightarrow> frame a n h h') \<Longrightarrow> confined a n f"
  by unfold_locales

lemma confinedD: "confined a n f \<Longrightarrow> f (h, s) = Some (ok, h', s') \<Longrightarrow> frame a n h h'"
  by (rule confined.writes)

lemma confined_mono: "confined b m f \<Longrightarrow> a \<le> b \<Longrightarrow> b + m \<le> a + n \<Longrightarrow> confined a n f"
  by (rule confinedI) (auto dest: confinedD intro: frame_mono)

lemma confined_none: "confined a n (\<lambda>_. None)"
  by (rule confinedI) simp

section \<open>Field decoders\<close>

lemma confined_bool: "confined p 1 (\<lambda>st. Some (pb_dec_bool f p st))"
  by (rule confinedI) (auto simp: pb_dec_bool_def split: prod.splits option.splits intro!: frame_byte)

lemma store_checked_frame:
  assumes "\<And>m c. r = Some (m, c) \<Longrightarrow> frame a n h (h\<lparr>mem := m\<rparr>)" "store_checked r v h s = (ok, h', s')"
  shows "frame a n h h'"
  using assms by (auto simp: store_checked_def i_error_def split: option.splits if_splits)

lemma store_signed_frame:
  "store_signed (mem h) sz p v = Some (m, c) \<Longrightarrow> frame p (int (unat sz)) h (h\<lparr>mem := m\<rparr>)"
  "store_unsigned (mem h) sz p v = Some (m, c) \<Longrightarrow> frame p (int (unat sz)) h (h\<lparr>mem := m\<rparr>)"
  by (auto simp: store_signed_def store_unsigned_def split: if_splits intro!: frame_stores frame_byte)

lemma confined_ints:
  "confined p (int (unat (data_size f))) (\<lambda>st. Some (pb_dec_varint f p st))"
  "confined p (int (unat (data_size f))) (\<lambda>st. Some (pb_dec_uvarint f p st))"
  "confined p (int (unat (data_size f))) (\<lambda>st. Some (pb_dec_svarint f p st))"
  by (rule confinedI; auto simp: pb_dec_varint_def pb_dec_uvarint_def pb_dec_svarint_def Let_def
      split: prod.splits option.splits elim!: store_checked_frame [rotated] dest: store_signed_frame)+

lemma confined_fixed:
  "confined p 4 (\<lambda>st. Some (pb_dec_fixed32 f p st))"
  "confined p 8 (\<lambda>st. Some (pb_dec_fixed64 f p st))"
  by (rule confinedI; auto simp: pb_dec_fixed32_def pb_dec_fixed64_def
      split: prod.splits option.splits intro!: frame_stores)+

text \<open>A read stores at most the bytes that were asked for.\<close>

lemma pb_read_some_length: "pb_read_some s n = (Some bs, s') \<Longrightarrow> length bs \<le> n"
  by (auto simp: pb_read_some_def call_icallback_def buf_read_def
      split: if_splits option.splits prod.splits icallback.splits read_result.splits)

lemma pb_read_length: "pb_read s True n = (Some bs, s') \<Longrightarrow> length bs \<le> n"
  by (auto simp: pb_read_def split: if_splits dest: pb_read_some_length)

lemma read_to_frame:
  assumes "read_to p n (h, s) = (ok, h', s')"
  shows "frame p (int n) h h'"
  using assms pb_read_length [of s n]
  by (auto simp: read_to_def split: prod.splits option.splits intro!: frame_write)

lemma confined_static_bytes:
  assumes "PB_ATYPE (ftype f) \<noteq> PB_ATYPE_POINTER"
  shows "confined p (int (unat (data_size f))) (pb_dec_bytes E f p)"
proof (rule confinedI)
  fix h :: heap and s :: "'a pb_istream" and ok h' s'
  assume r: "pb_dec_bytes E f p (h, s) = Some (ok, h', s')"
  obtain q t where q: "pb_decode_varint32 s = (q, t)" by (cases "pb_decode_varint32 s")
  show "frame p (int (unat (data_size f))) h h'"
  proof (cases q)
    case None
    then show ?thesis using r q by (auto simp: pb_dec_bytes_def)
  next
    case (Some sz)
    show ?thesis
    proof (cases "PB_SIZE_MAX < sz \<or> size_add (unat sz) 4 < unat sz \<or> unat (data_size f) < size_add (unat sz) 4")
      case True
      then show ?thesis using r q Some assms by (auto simp: pb_dec_bytes_def Let_def i_error_def split: if_splits)
    next
      case False
      have "unat sz < 2 ^ 32" using unsigned_less [of sz, where ?'a = nat] by simp
      then have l: "unat sz + 4 \<le> unat (data_size f)" using False by simp
      have rd: "read_to (p + 4) (unat sz) (h\<lparr>mem := store_u32 (mem h) p sz\<rparr>, t) = (ok, h', s')"
        using r q Some False assms by (auto simp: pb_dec_bytes_def Let_def split: if_splits)
      have "frame p (int (unat (data_size f))) h (h\<lparr>mem := store_u32 (mem h) p sz\<rparr>)"
        using l by (intro frame_stores(1) disjI1 conjI) linarith+
      moreover have "frame p (int (unat (data_size f))) (h\<lparr>mem := store_u32 (mem h) p sz\<rparr>) h'"
        using l by (intro frame_mono [OF read_to_frame [OF rd]]) linarith+
      ultimately show ?thesis by (rule frame_trans)
    qed
  qed
qed

lemma confined_static_string:
  assumes "PB_ATYPE (ftype f) \<noteq> PB_ATYPE_POINTER"
  shows "confined p (int (unat (data_size f))) (pb_dec_string E f p)"
proof (rule confinedI)
  fix h :: heap and s :: "'a pb_istream" and ok h' s'
  assume r: "pb_dec_string E f p (h, s) = Some (ok, h', s')"
  obtain q t where q: "pb_decode_varint32 s = (q, t)" by (cases "pb_decode_varint32 s")
  show "frame p (int (unat (data_size f))) h h'"
  proof (cases q)
    case None
    then show ?thesis using r q by (auto simp: pb_dec_string_def)
  next
    case (Some sz)
    show ?thesis
    proof (cases "unat (sz + 1) < unat sz \<or> unat (data_size f) < unat (sz + 1)")
      case True
      then show ?thesis using r q Some assms by (auto simp: pb_dec_string_def Let_def i_error_def split: if_splits)
    next
      case False
      have "sz + 1 \<noteq> 0"
      proof
        assume "sz + 1 = 0"
        moreover from this have "sz = 0" using False by (simp add: unat_eq_0)
        ultimately show False by simp
      qed
      then have "unat (sz + 1) = unat sz + 1" using unatSuc [of sz] by (simp add: add.commute)
      then have l: "unat sz + 1 \<le> unat (data_size f)" using False by simp
      obtain h1 where rd: "read_to p (unat sz) (h, t) = (ok, h1, s')"
        and h': "h' = h1\<lparr>mem := (mem h1)(p + int (unat sz) := 0)\<rparr>"
        using r q Some False assms
        by (auto simp: pb_dec_string_def Let_def split: if_splits prod.splits)
      have "frame p (int (unat (data_size f))) h h1"
        using l by (intro frame_mono [OF read_to_frame [OF rd]]) linarith+
      moreover have "frame p (int (unat (data_size f))) h1 h'"
        unfolding h' using l by (intro frame_byte conjI) linarith+
      ultimately show ?thesis by (rule frame_trans)
    qed
  qed
qed

lemma confined_fixed_length:
  "confined p (int (unat (data_size f))) (\<lambda>st. Some (pb_dec_fixed_length_bytes f p st))"
  by (rule confinedI) (auto simp: pb_dec_fixed_length_bytes_def i_error_def
      split: prod.splits option.splits if_splits intro!: frame_write dest: read_to_frame)

section \<open>Descriptors that fit their structure\<close>

text \<open>Where the count, \<open>has\<close> or \<open>which\<close> member of field \<open>k\<close> is; the members of a union share it.\<close>

primrec size_place :: "descs \<Rightarrow> nat \<Rightarrow> nat \<Rightarrow> int" where
  "size_place D d 0 = field_offset D d 0 + sint (size_offset (field_at D d 0))"
| "size_place D d (Suc k) =
     (if in_union (field_at D d k) (field_at D d (Suc k)) then size_place D d k
      else field_offset D d (Suc k) + sint (size_offset (field_at D d (Suc k))))"

definition elem_fits :: "(nat \<Rightarrow> int) \<Rightarrow> pb_field \<Rightarrow> bool" where
  "elem_fits sz f \<longleftrightarrow>
     (let lt = PB_LTYPE (ftype f); ds = int (unat (data_size f)) in
      (lt = PB_LTYPE_BOOL \<longrightarrow> 1 \<le> ds) \<and> (lt = PB_LTYPE_FIXED32 \<longrightarrow> 4 \<le> ds) \<and>
      (lt = PB_LTYPE_FIXED64 \<longrightarrow> 8 \<le> ds) \<and>
      (lt = PB_LTYPE_SUBMESSAGE \<longrightarrow> (case fptr f of PFields d \<Rightarrow> sz d \<le> ds | _ \<Rightarrow> True)))"

text \<open>
  A static field at offset \<open>off\<close> with its size member at \<open>soff\<close> lies inside a structure of
  \<open>extent\<close> bytes. A repeated or oneof field has four bytes for its size member, also when it
  has no such member and \<open>soff\<close> is the offset of the data.
\<close>

definition field_fits :: "(nat \<Rightarrow> int) \<Rightarrow> int \<Rightarrow> int \<Rightarrow> int \<Rightarrow> pb_field \<Rightarrow> bool" where
  "field_fits sz extent off soff f \<longleftrightarrow>
     (let ht = PB_HTYPE (ftype f) in
      PB_ATYPE (ftype f) = PB_ATYPE_STATIC \<and> PB_LTYPE (ftype f) \<noteq> PB_LTYPE_EXTENSION \<and> elem_fits sz f \<and>
      0 \<le> off \<and> off + field_span f \<le> extent \<and>
      (ht = PB_HTYPE_OPTIONAL \<and> soff \<noteq> off \<longrightarrow> 0 \<le> soff \<and> soff + 1 \<le> extent) \<and>
      (ht = PB_HTYPE_REPEATED \<or> ht = PB_HTYPE_ONEOF \<longrightarrow> 0 \<le> soff \<and> soff + 4 \<le> extent) \<and>
      (ht = PB_HTYPE_REPEATED \<longrightarrow> int (unat (data_size f)) * int (unat (array_size f)) < 2 ^ 32))"

definition struct_fits :: "descs \<Rightarrow> (nat \<Rightarrow> int) \<Rightarrow> nat \<Rightarrow> bool" where
  "struct_fits D sz d \<longleftrightarrow> desc_ok D d \<and> (D d = [] \<longrightarrow> 1 \<le> sz d) \<and>
     list_all (\<lambda>k. field_fits sz (sz d) (field_offset D d k) (size_place D d k) (D d ! k)) [0..<length (D d)]"

lemma struct_fits_field:
  "struct_fits D sz d \<Longrightarrow> k < length (D d) \<Longrightarrow>
     field_fits sz (sz d) (field_offset D d k) (size_place D d k) (D d ! k)"
  by (simp add: struct_fits_def list_all_iff)

lemma iter_at_pSize:
  assumes "desc_ok D d" "k < length (D d)" "base \<noteq> 0"
  shows "pSize (iter_at D d base k) = base + size_place D d k"
  using assms(2)
proof (induction k)
  case 0
  then show ?case using assms(3) by (simp add: pb_field_iter_begin_def Let_def)
next
  case (Suc k)
  then have k: "k < length (D d)" "k + 1 < length (D d)" by simp_all
  show ?case
    using Suc.IH [OF k(1)] iter_at_simps [OF assms(1) k(1), of base] field_at_tag [OF assms(1)] k
      iter_at_pData [OF assms(1) k(1) assms(3)]
    by (auto simp: pb_field_iter_next_def Let_def in_union_def field_span_def)
qed

section \<open>Iterators of the decoder\<close>

text \<open>
  The iterator of a decoding loop is at some entry; its \<open>pSize\<close> is the one of the entry, or the
  address of the local counter when the entry is a fixed-count array.
\<close>

definition at_field :: "descs \<Rightarrow> nat \<Rightarrow> int \<Rightarrow> nat \<Rightarrow> pb_field_iter \<Rightarrow> bool" where
  "at_field D d base k it \<longleftrightarrow> it = iter_at D d base k \<or>
     (\<exists>x. x + 4 \<le> 0 \<and> it = (iter_at D d base k)\<lparr>pSize := x\<rparr> \<and>
          PB_HTYPE (ftype (D d ! k)) = PB_HTYPE_REPEATED)"

definition dec_iter :: "descs \<Rightarrow> nat \<Rightarrow> int \<Rightarrow> pb_field_iter \<Rightarrow> bool" where
  "dec_iter D d base it \<longleftrightarrow>
     (if D d = [] then it = iter_at D d base 0 else \<exists>k < length (D d). at_field D d base k it)"

lemma at_field_simps:
  assumes "at_field D d base k it" "desc_ok D d" "k < length (D d)"
  shows "it_start it = d" "it_pos it = k" "dest_struct it = base" "iter_field D it = D d ! k"
    "pData it = pData (iter_at D d base k)"
  using assms(1) iter_at_simps [OF assms(2,3), of base] assms(3)
  by (auto simp: at_field_def field_at_def)

lemma next_pSize:
  assumes "ftag (iter_field D it) \<noteq> 0" "PB_HTYPE (ftype (iter_field D it)) = PB_HTYPE_REPEATED"
  shows "pb_field_iter_next D (it\<lparr>pSize := x\<rparr>) = pb_field_iter_next D it"
  using assms by (auto simp: pb_field_iter_next_def Let_def)

lemma dec_iter_next:
  assumes "desc_ok D d" "dec_iter D d base it"
  shows "dec_iter D d base (snd (pb_field_iter_next D it))"
proof (cases "D d = []")
  case True
  then have "it = iter_at D d base 0" using assms(2) by (simp add: dec_iter_def)
  then show ?thesis
    using True by (simp add: dec_iter_def pb_field_iter_next_def pb_field_iter_begin_def Let_def
        field_at_def PB_LAST_FIELD_def)
next
  case False
  then obtain k where k: "k < length (D d)" "at_field D d base k it"
    using assms(2) by (auto simp: dec_iter_def)
  have tag: "ftag (D d ! k) \<noteq> 0" using assms(1) k(1) by (simp add: desc_ok_def list_all_length)
  have "pb_field_iter_next D it = pb_field_iter_next D (iter_at D d base k)"
    using k(2) next_pSize [of D "iter_at D d base k"] iter_at_field [OF assms(1) k(1), of base] tag
    by (auto simp: at_field_def)
  then show ?thesis
    using iter_at_next [OF assms(1) k(1), of base] False
    by (auto simp: dec_iter_def at_field_def simp del: iter_at.simps)
qed

lemma find_loop_iter:
  assumes "desc_ok D d"
  shows "dec_iter D d base it \<Longrightarrow> find_loop n D P st it = Some (b, it') \<Longrightarrow>
    dec_iter D d base it' \<and> (b \<longrightarrow> P (iter_field D it'))"
proof (induction n arbitrary: it)
  case (Suc n)
  then show ?case
    using dec_iter_next [OF assms Suc.prems(1)] by (auto simp: Let_def split: if_splits)
qed simp

lemma find_iter:
  assumes "desc_ok D d" "dec_iter D d base it"
  shows "pb_field_iter_find D it tag = Some (b, it') \<Longrightarrow> dec_iter D d base it'"
    and "find_extension_field D it = Some (b, it') \<Longrightarrow>
      dec_iter D d base it' \<and> (b \<longrightarrow> PB_LTYPE (ftype (iter_field D it')) = PB_LTYPE_EXTENSION)"
  using find_loop_iter [OF assms]
  unfolding pb_field_iter_find_def find_extension_field_def by blast+

section \<open>Release and defaults\<close>

text \<open>A walk whose body relates heaps by a reflexive and transitive relation relates the ends.\<close>

lemma seq_loop_heap:
  assumes "\<And>h. R h h" "\<And>h1 h2 h3. R h1 h2 \<Longrightarrow> R h2 h3 \<Longrightarrow> R h1 h3"
    and "\<And>x h h'. x \<in> set xs \<Longrightarrow> F x h = Some h' \<Longrightarrow> R h h'"
    and "seq_loop (\<lambda>x h. map_option (Pair True) (F x h)) xs h = Some (b, h')"
  shows "R h h'"
  using assms(3,4)
proof (induction xs arbitrary: h)
  case Nil
  then show ?case using assms(1) by simp
next
  case (Cons x xs)
  then obtain h1 where 1: "F x h = Some h1"
    "seq_loop (\<lambda>x h. map_option (Pair True) (F x h)) xs h1 = Some (b, h')"
    by (auto simp: and_then_opt_def split: option.splits)
  have "R h h1" using Cons.prems(1) [of x h h1] 1(1) by simp
  moreover have "R h1 h'" by (rule Cons.IH [OF _ 1(2)]) (rule Cons.prems(1), simp_all)
  ultimately show ?case by (rule assms(2))
qed

lemma iter_loop_heap:
  assumes "desc_ok D d" "D d \<noteq> []" "\<And>h. R h h" "\<And>h1 h2 h3. R h1 h2 \<Longrightarrow> R h2 h3 \<Longrightarrow> R h1 h3"
    and "\<And>k h h'. k < length (D d) \<Longrightarrow> F (iter_at D d base k) h = Some h' \<Longrightarrow> R h h'"
    and "map_option snd (iter_loop D (\<lambda>it h. map_option (Pair True) (F it h)) (iter_at D d base 0) h) = Some h'"
  shows "R h h'"
proof -
  have "0 < length (D d)" using assms(2) by simp
  note l = iter_loop_seq [OF assms(1) this, of "\<lambda>it h. map_option (Pair True) (F it h)" base h]
  obtain b where "seq_loop (\<lambda>i h. map_option (Pair True) (F (iter_at D d base i) h)) [0..<length (D d)] h = Some (b, h')"
    using assms(6) unfolding l by auto
  then show ?thesis
    using seq_loop_heap [of R "[0..<length (D d)]" "\<lambda>i. F (iter_at D d base i)" h b h'] assms(3-5) by auto
qed

text \<open>Releasing a message without pointers does nothing.\<close>

definition static_desc :: "descs \<Rightarrow> bool" where
  "static_desc D \<longleftrightarrow> (\<forall>d. desc_ok D d \<and>
     list_all (\<lambda>f. PB_ATYPE (ftype f) = PB_ATYPE_STATIC \<and> PB_LTYPE (ftype f) \<noteq> PB_LTYPE_EXTENSION) (D d))"

lemma static_field_at:
  "static_desc D \<Longrightarrow> PB_ATYPE (ftype (field_at D d k)) = 0 \<and> PB_LTYPE (ftype (field_at D d k)) \<noteq> 9"
  by (auto simp: static_desc_def list_all_length field_at_def PB_LAST_FIELD_def PB_ATYPE_def PB_LTYPE_def)

lemma release_items_id:
  assumes "\<And>p h h'. rel p h = Some h' \<Longrightarrow> h' = h"
  shows "release_items rel ds n p h = Some h' \<Longrightarrow> h' = h"
proof (induction n arbitrary: p h)
  case (Suc n)
  then obtain h1 where "rel p h = Some h1" "release_items rel ds n (p + int ds) h1 = Some h'"
    by (auto simp: bind_eq_Some_conv)
  then show ?case using Suc.IH assms by blast
qed simp

lemma release_message_id:
  assumes "static_desc (d_descs E)" "\<And>it h h'. rel it h = Some h' \<Longrightarrow> h' = h"
    "release_message E rel d p h = Some h'"
  shows "h' = h"
proof -
  have ok: "desc_ok (d_descs E) d" using assms(1) by (simp add: static_desc_def)
  show ?thesis
  proof (cases "p = 0 \<or> d_descs E d = []")
    case True
    then show ?thesis using assms(3) iter_at_begin [OF ok, of p]
      by (auto simp: release_message_def simp del: iter_at.simps split: if_splits)
  next
    case False
    then have "map_option snd (iter_loop (d_descs E) (\<lambda>it h. map_option (Pair True) (rel it h))
        (iter_at (d_descs E) d p 0) h) = Some h'"
      using assms(3) iter_at_begin [OF ok, of p] by (auto simp: release_message_def simp del: iter_at.simps)
    then show ?thesis using iter_loop_heap [OF ok, of "\<lambda>h h'. h' = h" rel p] False assms(2) by auto
  qed
qed

lemma release_static:
  assumes D: "static_desc (d_descs E)"
  shows "pb_release_single_field n E it h = Some h' \<Longrightarrow> h' = h"
proof (induction n arbitrary: it h h')
  case (Suc n)
  note st = static_field_at [OF D, of "it_start it" "it_pos it"]
  have msg: "h' = h" if "release_message E (pb_release_single_field n E) d p h = Some h'" for d p h h'
    using that by (rule release_message_id [OF D, rotated]) (rule Suc.IH)
  have items: "h' = h"
    if "release_items (release_message E (pb_release_single_field n E) d) ds c p h = Some h'" for d ds c p h h'
    using that by (rule release_items_id [rotated]) (rule msg)
  have "h1 = h" if "release_submessages E (pb_release_single_field n E) it h = Some h1" for h1
    using that items msg
    by (auto simp: release_submessages_def Let_def split: if_splits pb_ptr.splits)
  then show ?case
    using Suc.prems st by (auto simp: Let_def bind_eq_Some_conv split: if_splits)
qed simp

lemma pb_release_static:
  "static_desc (d_descs E) \<Longrightarrow> pb_release n E d p h = Some h' \<Longrightarrow> h' = h"
  unfolding pb_release_def by (rule release_message_id) (auto dest: release_static)

text \<open>Initialisation stays inside the structure.\<close>

definition layout_ok :: "descs \<Rightarrow> (nat \<Rightarrow> int) \<Rightarrow> bool" where
  "layout_ok D sz \<longleftrightarrow> (\<forall>d. struct_fits D sz d)"

lemma layout_okD: "layout_ok D sz \<Longrightarrow> struct_fits D sz d" "layout_ok D sz \<Longrightarrow> desc_ok D d"
  by (simp_all add: layout_ok_def struct_fits_def)

lemma layout_static: "layout_ok D sz \<Longrightarrow> static_desc D"
  by (auto simp: layout_ok_def struct_fits_def static_desc_def list_all_iff field_fits_def Let_def in_set_conv_nth)

lemma span_single:
  "PB_ATYPE (ftype f) = 0 \<Longrightarrow> PB_HTYPE (ftype f) \<noteq> 0x20 \<Longrightarrow> field_span f = int (unat (data_size f))"
  by (simp add: field_span_def)

lemma message_defaults_frame:
  assumes L: "layout_ok (d_descs E) sz"
    and F: "\<And>k h h'. k < length (d_descs E d) \<Longrightarrow> F (iter_at (d_descs E) d p k) h = Some h' \<Longrightarrow> frame p (sz d) h h'"
    and r: "message_defaults E F d p h = Some h'"
  shows "frame p (sz d) h h'"
proof (cases "d_descs E d = []")
  case True
  then show ?thesis
    using r iter_at_begin [OF layout_okD(2) [OF L], of d p]
    by (auto simp: message_defaults_def simp del: iter_at.simps)
next
  case False
  then have "map_option snd (iter_loop (d_descs E) (\<lambda>it h. map_option (Pair True) (F it h))
        (iter_at (d_descs E) d p 0) h) = Some h'"
    using r iter_at_begin [OF layout_okD(2) [OF L], of d p] by (auto simp: message_defaults_def simp del: iter_at.simps)
  then show ?thesis
    using iter_loop_heap [OF layout_okD(2) [OF L] False, of "frame p (sz d)" F p] F frame_trans by blast
qed

lemma field_default_single:
  assumes "iter_field (d_descs E) it = f" "PB_ATYPE (ftype f) = 0" "PB_LTYPE (ftype f) \<noteq> 9"
    "\<not> (PB_HTYPE (ftype f) = 0x20 \<or> PB_HTYPE (ftype f) = 0x30)"
  shows "pb_field_set_to_default (Suc n) E it h =
    (let h1 = (if PB_HTYPE (ftype f) = 0x10 \<and> pSize it \<noteq> pData it then h\<lparr>mem := (mem h)(pSize it := 0)\<rparr> else h) in
     if PB_LTYPE (ftype f) = 8 then
       (case fptr f of
          PFields d \<Rightarrow> message_defaults E (pb_field_set_to_default n E) d (pData it) h1
        | _ \<Rightarrow> None)
     else (case fptr f of
             PNull \<Rightarrow> Some (h1\<lparr>mem := mem_write (mem h1) (pData it) (replicate (unat (data_size f)) 0)\<rparr>)
           | PDefault bs \<Rightarrow> Some (h1\<lparr>mem := mem_write (mem h1) (pData it) (take (unat (data_size f)) bs)\<rparr>)
           | PFields _ \<Rightarrow> None))"
  using assms(2-4) unfolding pb_field_set_to_default.simps assms(1) Let_def
  by (simp only: if_False if_True refl)

lemma field_default_frame:
  assumes L: "layout_ok (d_descs E) sz"
  shows "k < length (d_descs E d) \<Longrightarrow> 0 < base \<Longrightarrow>
    pb_field_set_to_default n E (iter_at (d_descs E) d base k) h = Some h' \<Longrightarrow> frame base (sz d) h h'"
proof (induction n arbitrary: d base k h h')
  case (Suc n)
  let ?D = "d_descs E" and ?it = "iter_at (d_descs E) d base k"
  let ?f = "?D d ! k"
  note ok = layout_okD [OF L, of d]
  have fld: "iter_field ?D ?it = ?f" by (rule iter_at_field [OF ok(2) Suc.prems(1)])
  have pd: "pData ?it = base + field_offset ?D d k" "pSize ?it = base + size_place ?D d k"
    using iter_at_pData [OF ok(2) Suc.prems(1)] iter_at_pSize [OF ok(2) Suc.prems(1)] Suc.prems(2) by simp_all
  note fit = struct_fits_field [OF ok(1) Suc.prems(1)]
  then have st: "PB_ATYPE (ftype ?f) = 0" "PB_LTYPE (ftype ?f) \<noteq> 9" "0 \<le> field_offset ?D d k"
    by (simp_all add: field_fits_def Let_def)
  show ?case
  proof (cases "PB_HTYPE (ftype ?f) = 0x20 \<or> PB_HTYPE (ftype ?f) = 0x30")
    case True
    then have "h' = h\<lparr>mem := store_u32 (mem h) (pSize ?it) 0\<rparr>"
      using Suc.prems(3) fld st by (auto simp: Let_def)
    then show ?thesis using fit True pd(2) by (auto simp: field_fits_def Let_def intro!: frame_stores(1))
  next
    case False
    define h1 where "h1 = (if PB_HTYPE (ftype ?f) = 0x10 \<and> pSize ?it \<noteq> pData ?it
        then h\<lparr>mem := (mem h)(pSize ?it := 0)\<rparr> else h)"
    note single = field_default_single [OF fld st(1,2) False, of n h, unfolded Let_def, folded h1_def]
    have f1: "frame base (sz d) h h1"
      using fit pd by (auto simp: h1_def field_fits_def Let_def intro!: frame_byte)
    have span: "field_offset ?D d k + int (unat (data_size ?f)) \<le> sz d"
      using fit span_single [of ?f] False st by (auto simp: field_fits_def Let_def)
    have "frame base (sz d) h1 h'"
    proof (cases "PB_LTYPE (ftype ?f) = 8")
      case True
      then obtain d' where d': "fptr ?f = PFields d'"
        and md: "message_defaults E (pb_field_set_to_default n E) d' (pData ?it) h1 = Some h'"
        using Suc.prems(3) unfolding single by (auto split: pb_ptr.splits)
      have "0 < pData ?it" using pd(1) st(3) Suc.prems(2) by simp
      then have fr: "frame (pData ?it) (sz d') h1 h'"
        by (intro message_defaults_frame [OF L _ md]) (rule Suc.IH)
      have "sz d' \<le> int (unat (data_size ?f))"
        using fit True d' by (simp add: field_fits_def elem_fits_def Let_def)
      then show ?thesis using pd(1) span st(3) by (intro frame_mono [OF fr]) linarith+
    next
      case nosub: False
      have "\<exists>bs. frame base (sz d) h1 (h1\<lparr>mem := mem_write (mem h1) (pData ?it) bs\<rparr>) \<and>
          h' = h1\<lparr>mem := mem_write (mem h1) (pData ?it) bs\<rparr>"
      proof (cases "fptr ?f")
        case PNull
        then have "h' = h1\<lparr>mem := mem_write (mem h1) (pData ?it) (replicate (unat (data_size ?f)) 0)\<rparr>"
          using Suc.prems(3) nosub unfolding single by simp
        moreover have "frame base (sz d) h1 (h1\<lparr>mem := mem_write (mem h1) (pData ?it) (replicate (unat (data_size ?f)) 0)\<rparr>)"
          using pd(1) span st(3) by (intro frame_write) auto
        ultimately show ?thesis by blast
      next
        case (PDefault bs)
        then have "h' = h1\<lparr>mem := mem_write (mem h1) (pData ?it) (take (unat (data_size ?f)) bs)\<rparr>"
          using Suc.prems(3) nosub unfolding single by simp
        moreover have "frame base (sz d) h1 (h1\<lparr>mem := mem_write (mem h1) (pData ?it) (take (unat (data_size ?f)) bs)\<rparr>)"
        proof -
          have "length (take (unat (data_size ?f)) bs) \<le> unat (data_size ?f)" by simp
          then show ?thesis using pd(1) span st(3) by (intro frame_write disjI1 conjI) linarith+
        qed
        ultimately show ?thesis by blast
      next
        case (PFields d')
        then show ?thesis using Suc.prems(3) nosub unfolding single by simp
      qed
      then show ?thesis by auto
    qed
    then show ?thesis using f1 frame_trans by blast
  qed
qed simp

lemma set_to_defaults_frame:
  "layout_ok (d_descs E) sz \<Longrightarrow> 0 < p \<Longrightarrow> pb_message_set_to_defaults n E d p h = Some h' \<Longrightarrow>
     frame p (sz d) h h'"
  unfolding pb_message_set_to_defaults_def
  by (rule message_defaults_frame [of E sz]) (simp_all add: field_default_frame)

end
