(* ===== verification/PB_Dec_Confined.thy ===== *)
theory PB_Dec_Confined
  imports PB_Dec_Frame
begin

text \<open>
  The frame of the message decoder, for statically allocated messages: from the decoders of
  one entry over \<open>decode_static_field\<close> and the field loop to \<open>pb_decode\<close>.
\<close>

section \<open>Decoding a field\<close>

lemma decode_message_frame:
  assumes L: "layout_ok (d_descs E) sz" and p: "0 < p" and f: "confined p (sz d) (noinit d p)"
  shows "confined p (sz d) (decode_message n E noinit d p)"
proof (rule confinedI)
  fix h :: heap and s :: "'a pb_istream" and ok h' s'
  assume "decode_message n E noinit d p (h, s) = Some (ok, h', s')"
  then obtain h1 h2 where 1: "pb_message_set_to_defaults n E d p h = Some h1"
    "noinit d p (h1, s) = Some (ok, h2, s')" "\<not> ok \<Longrightarrow> pb_release n E d p h2 = Some h'" "ok \<Longrightarrow> h' = h2"
    by (auto simp: decode_message_def bind_eq_Some_conv split: if_splits)
  have "h' = h2" using 1(3,4) pb_release_static [OF layout_static [OF L]] by blast
  then show "frame p (sz d) h h'"
    using frame_trans [OF set_to_defaults_frame [OF L p 1(1)] confinedD [OF f 1(2)]] by simp
qed

lemma submessage_frame:
  assumes L: "layout_ok (d_descs E) sz" and p: "0 < p" and f: "\<And>d. confined p (sz d) (noinit d p)"
    and e: "PB_LTYPE (ftype fd) = 8" "elem_fits sz fd"
  shows "confined p (int (unat (data_size fd))) (pb_dec_submessage n E noinit fd p)"
proof (rule confinedI)
  fix h :: heap and s :: "'a pb_istream" and ok h' s'
  assume r: "pb_dec_submessage n E noinit fd p (h, s) = Some (ok, h', s')"
  obtain q t where m: "pb_make_string_substream s = (q, t)" by (cases "pb_make_string_substream s")
  show "frame p (int (unat (data_size fd))) h h'"
  proof (cases "q = None \<or> fptr fd = PNull")
    case True
    then show ?thesis using r m by (auto simp: pb_dec_submessage_def i_error_def split: option.splits)
  next
    case False
    then obtain sub d where qd: "q = Some sub" "fptr fd = PFields d"
      using r m by (cases "fptr fd") (auto simp: pb_dec_submessage_def)
    define run where "run = (if PB_HTYPE (ftype fd) = PB_HTYPE_REPEATED
      then decode_message n E noinit d p (h, sub) else noinit d p (h, sub))"
    obtain st h1 sub' where 1: "run = Some (st, h1, sub')"
      using r m qd by (auto simp: pb_dec_submessage_def run_def bind_eq_Some_conv)
    then have "h' = h1"
      using r m qd unfolding pb_dec_submessage_def run_def
      by (auto split: prod.splits bool.splits)
    then have s: "(if PB_HTYPE (ftype fd) = PB_HTYPE_REPEATED
      then decode_message n E noinit d p (h, sub) else noinit d p (h, sub)) = Some (st, h', sub')"
      using 1 by (simp add: run_def)
    have "frame p (sz d) h h'"
      using s confinedD [OF decode_message_frame [where noinit = noinit and d = d and n = n, OF L p f]] confinedD [OF f] by (auto split: if_splits)
    moreover have "sz d \<le> int (unat (data_size fd))" using e qd(2) by (simp add: elem_fits_def)
    ultimately show ?thesis by (auto intro: frame_mono)
  qed
qed

lemma confined_if:
  "(c \<Longrightarrow> confined a n f) \<Longrightarrow> (\<not> c \<Longrightarrow> confined a n g) \<Longrightarrow> confined a n (if c then f else g)"
  by simp

lemma decoder_frame:
  assumes L: "layout_ok (d_descs E) sz" and p: "0 < p" and f: "\<And>d. confined p (sz d) (noinit d p)"
    and e: "PB_ATYPE (ftype fd) = 0" "elem_fits sz fd"
  shows "confined p (int (unat (data_size fd))) (PB_DECODERS n E noinit (PB_LTYPE (ftype fd)) fd p)"
proof -
  let ?lt = "PB_LTYPE (ftype fd)" and ?n = "int (unat (data_size fd))"
  have small: "confined p ?n (\<lambda>st. Some (pb_dec_bool fd p st))" if "?lt = 0"
    using e(2) that by (intro confined_mono [OF confined_bool]) (simp_all add: elem_fits_def)
  have f32: "confined p ?n (\<lambda>st. Some (pb_dec_fixed32 fd p st))" if "?lt = 4"
    using e(2) that by (intro confined_mono [OF confined_fixed(1)]) (simp_all add: elem_fits_def)
  have f64: "confined p ?n (\<lambda>st. Some (pb_dec_fixed64 fd p st))" if "?lt = 5"
    using e(2) that by (intro confined_mono [OF confined_fixed(2)]) (simp_all add: elem_fits_def)
  have np: "PB_ATYPE (ftype fd) \<noteq> 0x80" using e(1) by simp
  have "PB_DECODERS n E noinit ?lt fd p =
    (if ?lt = 0 then \<lambda>st. Some (pb_dec_bool fd p st) else if ?lt = 1 then \<lambda>st. Some (pb_dec_varint fd p st)
     else if ?lt = 2 then \<lambda>st. Some (pb_dec_uvarint fd p st) else if ?lt = 3 then \<lambda>st. Some (pb_dec_svarint fd p st)
     else if ?lt = 4 then \<lambda>st. Some (pb_dec_fixed32 fd p st) else if ?lt = 5 then \<lambda>st. Some (pb_dec_fixed64 fd p st)
     else if ?lt = 6 then pb_dec_bytes E fd p else if ?lt = 7 then pb_dec_string E fd p
     else if ?lt = 8 then pb_dec_submessage n E noinit fd p
     else if ?lt = 10 then \<lambda>st. Some (pb_dec_fixed_length_bytes fd p st) else (\<lambda>_. None))"
    by (auto simp: PB_DECODERS_def fun_eq_iff)
  moreover have sub: "confined p ?n (pb_dec_submessage n E noinit fd p)" if "?lt = 8"
    by (rule submessage_frame [where noinit = noinit and p = p and sz = sz and fd = fd and n = n, OF L p f that e(2)])
  ultimately show ?thesis
    by (simp only:) (intro confined_if; (erule small f32 f64 sub)?; (rule confined_ints confined_static_bytes [OF np]
        confined_static_string [OF np] confined_fixed_length confined_none)?)
qed

text \<open>An entry of an array, below its declared size.\<close>

lemma item_inside:
  assumes "sz < array_size f" "unat (data_size f) * unat (array_size f) < 2 ^ 32"
  shows "base \<le> item_address f base sz"
    and "item_address f base sz + int (unat (data_size f)) \<le> base + int (unat (data_size f)) * int (unat (array_size f))"
proof -
  have s: "unat sz + 1 \<le> unat (array_size f)" using assms(1) by (simp add: word_less_nat_alt)
  then have le: "unat (data_size f) * (unat sz + 1) \<le> unat (data_size f) * unat (array_size f)"
    by (rule mult_le_mono2)
  then have "unat (data_size f) * unat sz < 2 ^ 32" using assms(2) by simp
  then have "unat (data_size f * sz) = unat (data_size f) * unat sz"
    by (simp add: unat_word_ariths)
  moreover have "int (unat (data_size f)) * int (unat sz) + int (unat (data_size f)) \<le>
      int (unat (data_size f)) * int (unat (array_size f))"
    using of_nat_mono [OF le, where ?'a = int] by (simp only: of_nat_mult of_nat_add distrib_left of_nat_1 mult_1_right)
  ultimately show "base \<le> item_address f base sz"
    "item_address f base sz + int (unat (data_size f)) \<le> base + int (unat (data_size f)) * int (unat (array_size f))"
    by (simp_all only: item_address_def of_nat_mult) simp_all
qed

lemma packed_static_frame:
  assumes "\<And>q. a \<le> q \<Longrightarrow> q + int (unat (data_size f)) \<le> a + n \<Longrightarrow> 0 < q \<Longrightarrow> confined a n (func f q)"
    and "0 < pData it" "a \<le> pData it"
    "pData it + int (unat (data_size f)) * int (unat (array_size f)) \<le> a + n"
    "unat (data_size f) * unat (array_size f) < 2 ^ 32"
    and ps: "a \<le> pSize it \<and> pSize it + 4 \<le> a + n \<or> pSize it + 4 \<le> 0"
  shows "confined a n (packed_static_loop k func f it)"
proof (induction k)
  case 0
  then show ?case using confined_none by (simp add: packed_static_loop.simps(1) [abs_def])
next
  case (Suc k)
  show ?case
  proof (rule confinedI)
    fix h :: heap and s :: "'a pb_istream" and ok h' s'
    assume r: "packed_static_loop (Suc k) func f it (h, s) = Some (ok, h', s')"
    let ?sz = "load_u32 (mem h) (pSize it)"
    show "frame a n h h'"
    proof (cases "0 < bytes_left s \<and> ?sz < array_size f")
      case False
      then show ?thesis using r by (auto split: if_splits)
    next
      case True
      let ?q = "item_address f (pData it) ?sz"
      note ii = item_inside [OF conjunct2 [OF True] assms(5), of "pData it"]
      have c: "confined a n (func f ?q)" using ii assms(2-4) by (intro assms(1)) linarith+
      obtain b h1 s1 where f1: "func f ?q (h, s) = Some (b, h1, s1)"
        using r True by (auto simp: and_then_opt_def split: option.splits)
      let ?h2 = "h1\<lparr>mem := store_u32 (mem h1) (pSize it) (load_u32 (mem h1) (pSize it) + 1)\<rparr>"
      have fr: "frame a n h h1" by (rule confinedD [OF c f1])
      have "frame a n h1 ?h2" by (rule frame_stores(1)) (rule ps)
      then show ?thesis
        using r True f1 fr confinedD [OF Suc.IH, of ?h2 s1 ok h' s']
        by (cases b) (auto intro: frame_trans)
    qed
  qed
qed


text \<open>What an iterator guarantees of the places that are written through it.\<close>

definition iter_fits :: "(nat \<Rightarrow> int) \<Rightarrow> int \<Rightarrow> int \<Rightarrow> pb_field \<Rightarrow> pb_field_iter \<Rightarrow> bool" where
  "iter_fits sz a n f it \<longleftrightarrow>
     PB_ATYPE (ftype f) = 0 \<and> elem_fits sz f \<and> 0 < a \<and> a \<le> pData it \<and> pData it + field_span f \<le> a + n \<and>
     (PB_HTYPE (ftype f) = PB_HTYPE_OPTIONAL \<and> pSize it \<noteq> pData it \<longrightarrow> a \<le> pSize it \<and> pSize it + 1 \<le> a + n) \<and>
     (PB_HTYPE (ftype f) = PB_HTYPE_REPEATED \<or> PB_HTYPE (ftype f) = PB_HTYPE_ONEOF \<longrightarrow>
        a \<le> pSize it \<and> pSize it + 4 \<le> a + n \<or> pSize it + 4 \<le> 0) \<and>
     (PB_HTYPE (ftype f) = PB_HTYPE_REPEATED \<longrightarrow> unat (data_size f) * unat (array_size f) < 2 ^ 32)"

lemma int_prod_less: "int (unat a) * int (unat b) < 2 ^ 32 \<longleftrightarrow> unat a * unat b < 2 ^ 32"
proof -
  have "(2 :: int) ^ 32 = int (2 ^ 32)" by simp
  then show ?thesis by (simp only: of_nat_mult [symmetric] of_nat_less_iff)
qed

lemma at_field_fits:
  assumes L: "layout_ok D sz" and b: "0 < base" and k: "k < length (D d)" and it: "at_field D d base k it"
  shows "iter_fits sz base (sz d) (D d ! k) it"
proof -
  note ok = layout_okD [OF L, of d]
  have pd: "pData it = base + field_offset D d k"
    using at_field_simps(5) [OF it ok(2) k] iter_at_pData [OF ok(2) k] b by simp
  have ps: "pSize it = base + size_place D d k \<or>
      pSize it + 4 \<le> 0 \<and> PB_HTYPE (ftype (D d ! k)) = PB_HTYPE_REPEATED"
    using it iter_at_pSize [OF ok(2) k] b by (auto simp: at_field_def)
  show ?thesis
    using struct_fits_field [OF ok(1) k] pd ps b unfolding iter_fits_def field_fits_def Let_def int_prod_less by auto
qed

lemma entry_frame:
  assumes L: "layout_ok (d_descs E) sz" and f: "\<And>d q. 0 < q \<Longrightarrow> confined q (sz d) (noinit d q)"
    and e: "PB_ATYPE (ftype fd) = 0" "elem_fits sz fd"
    and q: "0 < a" "a \<le> q" "q + int (unat (data_size fd)) \<le> a + m"
  shows "confined a m (PB_DECODERS n E noinit (PB_LTYPE (ftype fd)) fd q)"
  by (rule confined_mono [OF decoder_frame [where noinit = noinit and p = q and sz = sz, OF L _ f e]])
    (use q in linarith)+

text \<open>An operation that changes the heap first, and one that goes on with a changed heap.\<close>

lemma confined_after:
  assumes "\<And>h s. frame a n h (g h)" "confined a n f"
  shows "confined a n (\<lambda>(h, s). f (g h, s))"
  by (rule confinedI) (auto intro: frame_trans [OF assms(1)] confinedD [OF assms(2)])

lemma clear_submessage_frame:
  assumes L: "layout_ok (d_descs E) sz" and p: "0 < p" and e: "PB_LTYPE (ftype f) = 8" "elem_fits sz f"
    and r: "clear_submessage n E f p h = Some h'"
  shows "frame p (int (unat (data_size f))) h h'"
proof -
  let ?h = "h\<lparr>mem := mem_write (mem h) p (replicate (unat (data_size f)) 0)\<rparr>"
  obtain d where d: "fptr f = PFields d" "pb_message_set_to_defaults n E d p ?h = Some h'"
    using r by (auto simp: clear_submessage_def Let_def split: pb_ptr.splits)
  have "frame p (int (unat (data_size f))) h ?h" by (rule frame_write) simp
  moreover have "sz d \<le> int (unat (data_size f))" using e d(1) by (simp add: elem_fits_def)
  then have "frame p (int (unat (data_size f))) ?h h'"
    by (intro frame_mono [OF set_to_defaults_frame [OF L p d(2)]]) linarith+
  ultimately show ?thesis by (rule frame_trans)
qed

lemma static_single_frame:
  assumes L: "layout_ok (d_descs E) sz" and f: "\<And>d q. 0 < q \<Longrightarrow> confined q (sz d) (noinit d q)"
    and it: "iter_fits sz a m (iter_field (d_descs E) it) it"
    and ht: "PB_HTYPE (ftype (iter_field (d_descs E) it)) \<noteq> 0x20"
  shows "confined a m (decode_static_field n E noinit wt it)"
proof (rule confinedI)
  fix h :: heap and s :: "'a pb_istream" and ok h' s'
  assume r: "decode_static_field n E noinit wt it (h, s) = Some (ok, h', s')"
  define fd where "fd = iter_field (d_descs E) it"
  define func where "func = PB_DECODERS n E noinit (PB_LTYPE (ftype fd))"
  have i: "PB_ATYPE (ftype fd) = 0" "elem_fits sz fd" "0 < a" "a \<le> pData it" "pData it + field_span fd \<le> a + m"
    using it by (simp_all add: iter_fits_def fd_def)
  have entry: "confined a m (func fd q)" if "a \<le> q" "q + int (unat (data_size fd)) \<le> a + m" for q
    unfolding func_def by (rule entry_frame [where sz = sz, OF L f i(1,2,3) that])
  have False: "PB_HTYPE (ftype fd) \<noteq> 0x20" using ht by (simp add: fd_def)
  then have "field_span fd = int (unat (data_size fd))" using i(1) by (simp add: field_span_def)
  then have c: "confined a m (func fd (pData it))"
    using i by (intro entry) linarith+
  have room: "pData it + int (unat (data_size fd)) \<le> a + m"
    using i(5) \<open>field_span fd = int (unat (data_size fd))\<close> by linarith
  consider "PB_HTYPE (ftype fd) = 0" | "PB_HTYPE (ftype fd) = 0x10" | "PB_HTYPE (ftype fd) = 0x30"
    using False htype_cases [of "ftype fd"] by blast
  then show "frame a m h h'"
  proof cases
    case 1
    then have "func fd (pData it) (h, s) = Some (ok, h', s')"
      using r by (simp add: decode_static_field_def Let_def fd_def func_def)
    then show ?thesis by (rule confinedD [OF c])
  next
    case 2
    let ?h = "if pSize it \<noteq> pData it then h\<lparr>mem := (mem h)(pSize it := 1)\<rparr> else h"
    have "func fd (pData it) (?h, s) = Some (ok, h', s')"
      using r 2 by (simp add: decode_static_field_def Let_def fd_def func_def)
    moreover have "frame a m h ?h"
      using it 2 unfolding iter_fits_def fd_def by (auto intro!: frame_byte)
    ultimately show ?thesis using confinedD [OF c] frame_trans by blast
  next
    case 3
    let ?clear = "PB_LTYPE (ftype fd) = 8 \<and> load_u32 (mem h) (pSize it) \<noteq> ftag fd"
    obtain h1 where h1: "(if ?clear then clear_submessage n E fd (pData it) h else Some h) = Some h1"
      and run: "func fd (pData it) (h1\<lparr>mem := store_u32 (mem h1) (pSize it) (ftag fd)\<rparr>, s) = Some (ok, h', s')"
      using r 3 by (simp add: decode_static_field_def Let_def fd_def [symmetric] func_def bind_eq_Some_conv) blast
    have "frame a m h h1"
    proof (cases ?clear)
      case True
      then have "frame (pData it) (int (unat (data_size fd))) h h1"
        using h1 i by (intro clear_submessage_frame [OF L]) simp_all
      then show ?thesis by (rule frame_mono) (use i room in linarith)+
    qed (use h1 in \<open>auto split: if_splits\<close>)
    moreover have "frame a m h1 (h1\<lparr>mem := store_u32 (mem h1) (pSize it) (ftag fd)\<rparr>)"
      using it 3 unfolding iter_fits_def fd_def by (intro frame_stores(1)) simp
    ultimately show ?thesis using confinedD [OF c run] frame_trans by blast
  qed
qed

lemma static_repeated_frame:
  assumes L: "layout_ok (d_descs E) sz" and f: "\<And>d q. 0 < q \<Longrightarrow> confined q (sz d) (noinit d q)"
    and it: "iter_fits sz a m (iter_field (d_descs E) it) it"
    and ht: "PB_HTYPE (ftype (iter_field (d_descs E) it)) = 0x20"
  shows "confined a m (decode_static_field n E noinit wt it)"
proof (rule confinedI)
  fix h :: heap and s :: "'a pb_istream" and ok h' s'
  assume r: "decode_static_field n E noinit wt it (h, s) = Some (ok, h', s')"
  define fd where "fd = iter_field (d_descs E) it"
  define func where "func = PB_DECODERS n E noinit (PB_LTYPE (ftype fd))"
  have i: "PB_ATYPE (ftype fd) = 0" "elem_fits sz fd" "0 < a" "a \<le> pData it" "pData it + field_span fd \<le> a + m"
    using it by (simp_all add: iter_fits_def fd_def)
  have entry: "confined a m (func fd q)" if "a \<le> q" "q + int (unat (data_size fd)) \<le> a + m" for q
    unfolding func_def by (rule entry_frame [where sz = sz, OF L f i(1,2,3) that])
  have True: "PB_HTYPE (ftype fd) = 0x20" using ht by (simp add: fd_def)
  have span: "field_span fd = int (unat (data_size fd)) * int (unat (array_size fd))"
    using i(1) True by (simp add: field_span_def)
  have i2: "pData it + int (unat (data_size fd)) * int (unat (array_size fd)) \<le> a + m"
    using i(5) unfolding span .
  have i3: "a \<le> pSize it \<and> pSize it + 4 \<le> a + m \<or> pSize it + 4 \<le> 0"
    "unat (data_size fd) * unat (array_size fd) < 2 ^ 32"
    using it True unfolding iter_fits_def fd_def by simp_all
  show "frame a m h h'"
  proof (cases "wt = PB_WT_STRING \<and> PB_LTYPE (ftype fd) \<le> 5")
    case packed: True
    obtain q t where mk: "pb_make_string_substream s = (q, t)" by (cases "pb_make_string_substream s")
    show ?thesis
    proof (cases q)
      case None
      then show ?thesis using r True packed mk by (simp add: decode_static_field_def Let_def fd_def [symmetric])
    next
      case (Some sub)
      let ?loop = "packed_static_loop (Suc (bytes_left sub)) func fd it (h, sub)"
      obtain st h1 sub' where l: "?loop = Some (st, h1, sub')"
        using r True packed mk Some
        by (simp del: packed_static_loop.simps
            add: decode_static_field_def Let_def fd_def [symmetric] func_def [symmetric] bind_eq_Some_conv) blast
      then have "h' = h1"
        using r True packed mk Some
        by (auto simp del: packed_static_loop.simps
            simp: decode_static_field_def Let_def fd_def [symmetric] func_def [symmetric] i_error_def
            split: if_splits prod.splits bool.splits)
      moreover have "confined a m (packed_static_loop (Suc (bytes_left sub)) func fd it)"
        using i i2 i3 entry by (intro packed_static_frame) simp_all
      ultimately show ?thesis using confinedD l by blast
    qed
  next
    case single: False
    let ?sz = "load_u32 (mem h) (pSize it)"
    let ?h = "h\<lparr>mem := store_u32 (mem h) (pSize it) (?sz + 1)\<rparr>"
    have fr: "frame a m h ?h" by (rule frame_stores(1)) (rule i3(1))
    show ?thesis
    proof (cases "array_size fd \<le> ?sz")
      case big: True
      then have "h' = ?h"
        using r True single by (simp add: decode_static_field_def Let_def fd_def [symmetric] i_error_def)
      then show ?thesis using fr by simp
    next
      case False
      then have run: "func fd (item_address fd (pData it) ?sz) (?h, s) = Some (ok, h', s')"
        using r True single by (simp add: decode_static_field_def Let_def fd_def [symmetric] func_def)
      have "?sz < array_size fd" using False by simp
      note ii = item_inside [OF this i3(2), of "pData it"]
      have "confined a m (func fd (item_address fd (pData it) ?sz))"
        using ii i i2 by (intro entry) linarith+
      then show ?thesis using frame_trans [OF fr] confinedD run by blast
    qed
  qed
qed

lemma static_field_frame:
  assumes L: "layout_ok (d_descs E) sz" and f: "\<And>d q. 0 < q \<Longrightarrow> confined q (sz d) (noinit d q)"
    and it: "iter_fits sz a m (iter_field (d_descs E) it) it"
  shows "confined a m (decode_static_field n E noinit wt it)"
proof (cases "PB_HTYPE (ftype (iter_field (d_descs E) it)) = 0x20")
  case True
  show ?thesis by (rule static_repeated_frame [where sz = sz, OF L f it True])
next
  case False
  show ?thesis by (rule static_single_frame [where sz = sz, OF L f it False])
qed


section \<open>Messages\<close>

text \<open>
  The iterator of the loop: at a field of the message, or at the terminator of an empty one,
  which the decoder treats as a required \<open>bool\<close>.
\<close>

lemma dec_iter_frame:
  assumes L: "layout_ok (d_descs E) sz" and b: "0 < base" and f: "\<And>d q. 0 < q \<Longrightarrow> confined q (sz d) (noinit d q)"
    and it: "dec_iter (d_descs E) d base it"
  shows "confined base (sz d) (decode_static_field n E noinit wt it)"
proof (cases "d_descs E d = []")
  case True
  then have "it = iter_at (d_descs E) d base 0" using it by (simp add: dec_iter_def)
  then have e: "iter_field (d_descs E) it = PB_LAST_FIELD" "pData it = base"
    using True b by (simp_all add: pb_field_iter_begin_def Let_def field_at_def PB_LAST_FIELD_def)
  have "decode_static_field n E noinit wt it = (\<lambda>st. Some (pb_dec_bool PB_LAST_FIELD base st))"
    using e by (simp add: fun_eq_iff decode_static_field_def Let_def PB_LAST_FIELD_def PB_HTYPE_def
        PB_LTYPE_def PB_DECODERS_def)
  moreover have "1 \<le> sz d" using layout_okD(1) [OF L, of d] True by (simp add: struct_fits_def)
  ultimately show ?thesis by (auto intro: confined_mono [OF confined_bool])
next
  case False
  then obtain k where k: "k < length (d_descs E d)" "at_field (d_descs E) d base k it"
    using it by (auto simp: dec_iter_def)
  have "iter_field (d_descs E) it = d_descs E d ! k"
    by (rule at_field_simps(4) [OF k(2) layout_okD(2) [OF L] k(1)])
  then show ?thesis
    using at_field_fits [OF L b k] by (intro static_field_frame [where sz = sz, OF L f]) simp_all
qed

lemma release_union_frame:
  assumes L: "layout_ok (d_descs E) sz" and it: "dec_iter (d_descs E) d base it"
    and r: "pb_release_union_field n E (it, h, s) = Some (ok, it', h', s')"
  shows "dec_iter (d_descs E) d base it' \<and> h' = h"
proof -
  let ?D = "d_descs E"
  let ?old = "load_u32 (mem h) (pSize it)" and ?new = "ftag (iter_field ?D it)"
  note find = find_iter(1) [OF layout_okD(2) [OF L]]
  have np: "PB_ATYPE (ftype (iter_field ?D i)) \<noteq> 0x80" for i
    using static_field_at [OF layout_static [OF L], of "it_start i" "it_pos i"] by simp
  show ?thesis
  proof (cases "?old = 0 \<or> ?old = ?new")
    case True
    then show ?thesis using r it by (simp add: pb_release_union_field_def)
  next
    case False
    then obtain b1 it1 where f1: "pb_field_iter_find ?D it ?old = Some (b1, it1)"
      using r by (auto simp: pb_release_union_field_def Let_def split: option.splits)
    note i1 = find [OF it f1]
    show ?thesis
    proof (cases b1)
      case True
      then obtain h1 b2 it2 where h1: "pb_release_single_field n E it1 h = Some h1"
        and f2: "pb_field_iter_find ?D it1 ?new = Some (b2, it2)"
        using r f1 False by (auto simp: pb_release_union_field_def Let_def bind_eq_Some_conv split: option.splits)
      then show ?thesis
        using r f1 False True np find [OF i1 f2] release_static [OF layout_static [OF L] h1]
        by (auto simp: pb_release_union_field_def Let_def split: bool.splits)
    next
      case unknown: False
      then show ?thesis using r f1 False i1 by (simp add: pb_release_union_field_def Let_def)
    qed
  qed
qed

lemma decode_field_frame:
  assumes L: "layout_ok (d_descs E) sz" and b: "0 < base" and f: "\<And>d q. 0 < q \<Longrightarrow> confined q (sz d) (noinit d q)"
    and it: "dec_iter (d_descs E) d base it"
    and r: "decode_field n E noinit wt (it, h, s) = Some (ok, it', h', s')"
  shows "dec_iter (d_descs E) d base it' \<and> frame base (sz d) h h'"
proof -
  let ?pre = "if PB_HTYPE (ftype (iter_field (d_descs E) it)) = 0x30
    then pb_release_union_field n E (it, h, s) else Some (True, it, h, s)"
  obtain ok1 it1 h1 s1 where pre: "?pre = Some (ok1, it1, h1, s1)"
    using r by (auto simp: decode_field_def and_then_opt_def split: option.splits)
  then have 1: "dec_iter (d_descs E) d base it1" "h1 = h"
    using it release_union_frame [OF L it] by (auto split: if_splits)
  have a: "PB_ATYPE (ftype (iter_field (d_descs E) it1)) = 0"
    using static_field_at [OF layout_static [OF L]] by simp
  show ?thesis
  proof (cases ok1)
    case True
    then have "decode_static_field n E noinit wt it1 (h, s1) = Some (ok, h', s')" "it' = it1"
      using r pre 1(2) a by (auto simp: decode_field_def and_then_opt_def Let_def bind_eq_Some_conv)
    then show ?thesis using confinedD [OF dec_iter_frame [where sz = sz, OF L b f 1(1)]] 1(1) by blast
  next
    case False
    then show ?thesis using r pre 1 by (auto simp: decode_field_def and_then_opt_def)
  qed
qed

lemma decode_tag_small:
  "pb_decode_tag s = (Some (wt, tag), s', eof) \<Longrightarrow> \<not> (- 1 :: u32) \<le> tag"
proof -
  assume "pb_decode_tag s = (Some (wt, tag), s', eof)"
  then obtain x :: u32 where "tag = drop_bit 3 x"
    by (auto simp: pb_decode_tag_def Let_def split: prod.splits option.splits if_splits)
  then have "unat tag < 2 ^ 29"
    using unsigned_less [of x, where ?'a = nat] by (simp add: drop_bit_eq_div unat_div_distrib)
  then have "unat tag < unat (- 1 :: u32)" by (simp add: unsigned_minus_1_eq_mask mask_eq_exp_minus_1)
  then show ?thesis by (simp only: word_less_nat_alt [symmetric] not_le)
qed

text \<open>Without extension fields an unknown tag is skipped.\<close>

lemma decode_unknown_frame:
  assumes L: "layout_ok (d_descs E) sz" and it: "dec_iter (d_descs E) d base (dl_iter l)"
    and tag: "\<not> (- 1 :: u32) \<le> tag"
    and r: "decode_unknown n E noinit tag wt (l, h, s) = Some (ok, l', h', s')"
  shows "dec_iter (d_descs E) d base (dl_iter l') \<and> h' = h"
proof (cases "extension_range_start l \<le> tag")
  case True
  then obtain b it1 where e: "find_extension_field (d_descs E) (dl_iter l) = Some (b, it1)"
    using r by (auto simp: decode_unknown_def Let_def bind_eq_Some_conv)
  note f = find_iter(2) [OF layout_okD(2) [OF L] it e]
  then have "\<not> b" using static_field_at [OF layout_static [OF L]] by blast
  then show ?thesis
    using r True e f tag by (auto simp: decode_unknown_def Let_def split: prod.splits)
next
  case False
  then show ?thesis using r it by (auto simp: decode_unknown_def Let_def split: prod.splits)
qed

lemma dec_iter_slot:
  assumes "desc_ok D d" "dec_iter D d base it" "PB_HTYPE (ftype (iter_field D it)) = PB_HTYPE_REPEATED" "x + 4 \<le> 0"
  shows "dec_iter D d base (it\<lparr>pSize := x\<rparr>)"
proof (cases "D d = []")
  case True
  then have "iter_field D it = PB_LAST_FIELD"
    using assms(2) by (simp add: dec_iter_def pb_field_iter_begin_def Let_def field_at_def)
  then show ?thesis using assms(3) by (simp add: PB_LAST_FIELD_def PB_HTYPE_def)
next
  case False
  then obtain k where k: "k < length (D d)" "at_field D d base k it" using assms(2) by (auto simp: dec_iter_def)
  then have "at_field D d base k (it\<lparr>pSize := x\<rparr>)"
    using assms(3,4) at_field_simps(4) [OF k(2) assms(1) k(1)] by (auto simp: at_field_def)
  then show ?thesis using False k(1) by (auto simp: dec_iter_def)
qed

lemma decode_known_frame:
  assumes L: "layout_ok (d_descs E) sz" and b: "0 < base" and f: "\<And>d q. 0 < q \<Longrightarrow> confined q (sz d) (noinit d q)"
    and it: "dec_iter (d_descs E) d base (dl_iter l)"
    and r: "decode_known n E noinit wt (l, h, s) = Some (ok, l', h', s')"
  shows "dec_iter (d_descs E) d base (dl_iter l') \<and> frame base (sz d) h h'"
proof -
  let ?slot = "stack_slot n"
  define fixed where "fixed \<longleftrightarrow> PB_HTYPE (ftype (iter_field (d_descs E) (dl_iter l))) = 0x20 \<and> pSize (dl_iter l) = pData (dl_iter l)"
  define it1 where "it1 = (if fixed then (dl_iter l)\<lparr>pSize := ?slot\<rparr> else dl_iter l)"
  have i1: "dec_iter (d_descs E) d base it1"
    using it dec_iter_slot [OF layout_okD(2) [OF L] it] by (simp add: it1_def fixed_def stack_slot_def)
  have fr: "frame base (sz d) h (if c then h\<lparr>mem := store_u32 (mem h) ?slot 0\<rparr> else h)" for c
    by (auto simp: stack_slot_def intro!: frame_stores(1))
  define change where "change \<longleftrightarrow> fixed \<and> fixed_count_field l \<noteq> Some (it_pos (dl_iter l))"
  define bad where "bad \<longleftrightarrow> change \<and> (case fixed_count_field l of None \<Rightarrow> False
    | Some i \<Rightarrow> load_u32 (mem h) ?slot \<noteq> array_size (field_at (d_descs E) (it_start (dl_iter l)) i))"
  note r' = r [unfolded decode_known_def Let_def prod.case fixed_def [symmetric] change_def [symmetric]
      it1_def [symmetric] bad_def [symmetric]]
  show ?thesis
  proof (cases bad)
    case True
    then show ?thesis using r' it by simp
  next
    case False
    let ?h = "if change then h\<lparr>mem := store_u32 (mem h) ?slot 0\<rparr> else h"
    obtain it2 s2 where d: "decode_field n E noinit wt (it1, ?h, s) = Some (ok, it2, h', s2)" "dl_iter l' = it2"
      using r' unfolding if_not_P [OF False] bind_eq_Some_conv by auto
    then show ?thesis
      using decode_field_frame [where sz = sz, OF L b f i1 d(1)] fr [of change] frame_trans by blast
  qed
qed

lemma decode_loop_frame:
  assumes L: "layout_ok (d_descs E) sz" and b: "0 < base" and f: "\<And>d q. 0 < q \<Longrightarrow> confined q (sz d) (noinit d q)"
  shows "dec_iter (d_descs E) d base (dl_iter l) \<Longrightarrow>
    decode_loop k n E noinit (l, h, s) = Some (ok, l', h', s') \<Longrightarrow> frame base (sz d) h h'"
proof (induction k arbitrary: l h s)
  case 0
  then show ?case by (simp split: if_splits)
next
  case (Suc k)
  obtain q t eof where q: "pb_decode_tag s = (q, t, eof)" by (cases "pb_decode_tag s")
  show ?case
  proof (cases "bytes_left s = 0 \<or> q = None")
    case True
    then show ?thesis using Suc.prems(2) q by (auto split: if_splits)
  next
    case False
    then obtain wt tag where wt: "q = Some (wt, tag)" by auto
    then obtain found it where it: "pb_field_iter_find (d_descs E) (dl_iter l) tag = Some (found, it)"
      using False Suc.prems(2) q by (auto simp: bind_eq_Some_conv)
    let ?l = "l\<lparr>dl_iter := it\<rparr>"
    let ?one = "if found then decode_known n E noinit wt (?l, h, t) else decode_unknown n E noinit tag wt (?l, h, t)"
    have i: "dec_iter (d_descs E) d base (dl_iter ?l)"
      using find_iter(1) [OF layout_okD(2) [OF L] Suc.prems(1) it] by simp
    have st: "and_then_opt ?one (decode_loop k n E noinit) = Some (ok, l', h', s')"
      using Suc.prems(2) False q wt it by (simp add: Let_def)
    then obtain b1 l1 h1 s1 where one: "?one = Some (b1, l1, h1, s1)"
      by (auto simp: and_then_opt_def split: option.splits)
    have "dec_iter (d_descs E) d base (dl_iter l1) \<and> frame base (sz d) h h1"
    proof (cases found)
      case True
      then show ?thesis using one by (simp add: decode_known_frame [where sz = sz, OF L b f i])
    next
      case False
      then have "decode_unknown n E noinit tag wt (?l, h, t) = Some (b1, l1, h1, s1)" using one by simp
      note u = decode_unknown_frame [OF L i decode_tag_small [OF q [unfolded wt]] this]
      then show ?thesis by (simp add: u)
    qed
    then show ?thesis
      using st one Suc.IH [of l1 h1 s1] frame_trans by (cases b1) (auto simp: and_then_opt_def)
  qed
qed

lemma noinit_frame:
  assumes L: "layout_ok (d_descs E) sz"
  shows "0 < p \<Longrightarrow> confined p (sz d) (pb_decode_noinit n E d p)"
proof (induction n arbitrary: d p)
  case 0
  then show ?case by (intro confinedI) simp
next
  case (Suc n)
  note ok = layout_okD(2) [OF L, of d]
  show ?case
  proof (rule confinedI)
    fix h :: heap and s :: "'a pb_istream" and ok1 h' s'
    assume r: "pb_decode_noinit (Suc n) E d p (h, s) = Some (ok1, h', s')"
    let ?h = "h\<lparr>mem := store_u32 (mem h) (stack_slot n) 0\<rparr>"
    obtain b l1 h1 s1 where l: "decode_loop n n E (pb_decode_noinit n E) (init_locals E d p, ?h, s) = Some (b, l1, h1, s1)"
      using r by (auto simp: bind_eq_Some_conv)
    then have "h' = h1"
      using r by (auto simp: finish_message_def i_error_def Let_def split: if_splits)
    moreover have "dec_iter (d_descs E) d p (dl_iter (init_locals E d p))"
      using iter_at_begin [OF ok, of p]
      by (auto simp: init_locals_def dec_iter_def at_field_def simp del: iter_at.simps)
    then have "frame p (sz d) ?h h1"
      using decode_loop_frame [where sz = sz and noinit = "pb_decode_noinit n E", OF L Suc.prems _ _ l] Suc.IH by blast
    moreover have "frame p (sz d) h ?h" by (rule frame_stores(1)) (simp add: stack_slot_def)
    ultimately show "frame p (sz d) h h'" using frame_trans by blast
  qed
qed

lemma pb_decode_frame:
  "layout_ok (d_descs E) sz \<Longrightarrow> 0 < p \<Longrightarrow> confined p (sz d) (pb_decode n E d p)"
  unfolding pb_decode_def by (rule decode_message_frame) (simp_all add: noinit_frame)

lemma delimited_frame:
  assumes "confined a m f"
  shows "confined a m (decode_delimited_with f)"
proof (rule confinedI)
  fix h :: heap and s :: "'a pb_istream" and ok h' s'
  assume r: "decode_delimited_with f (h, s) = Some (ok, h', s')"
  obtain q t where q: "pb_make_string_substream s = (q, t)" by (cases "pb_make_string_substream s")
  show "frame a m h h'"
  proof (cases q)
    case (Some sub)
    then obtain st h1 sub' where 1: "f (h, sub) = Some (st, h1, sub')"
      using r q by (auto simp: decode_delimited_with_def bind_eq_Some_conv)
    then have "h' = h1" using r q Some by (auto simp: decode_delimited_with_def split: prod.splits bool.splits)
    then show ?thesis using confinedD [OF assms 1] by simp
  qed (use r q in \<open>auto simp: decode_delimited_with_def\<close>)
qed

section \<open>Interpretations\<close>

interpretation bool_writes: confined p 1 "\<lambda>st. Some (pb_dec_bool f p st)" for p f
  by (rule confined_bool)

interpretation uvarint_writes: confined p "int (unat (data_size f))" "\<lambda>st. Some (pb_dec_uvarint f p st)" for p f
  by (rule confined_ints(2))

interpretation fixed_length_writes: confined p "int (unat (data_size f))"
  "\<lambda>st. Some (pb_dec_fixed_length_bytes f p st)" for p f
  by (rule confined_fixed_length)

end
