(* ===== verification/PB_Dec_Returns.thy ===== *)
theory PB_Dec_Returns
  imports PB_Dec_Stream PB_Dec_Confined
begin

text \<open>
  Termination of the decoder. For statically allocated message types whose submessages nest
  only downwards in some rank, decoding a buffer returns: every round of the field loop and of
  the packed array loop takes at least one byte off the stream, and a submessage has fewer
  bytes than the message around it. A fuel of the number of bytes plus the rank plus two is
  enough.
\<close>

section \<open>Types\<close>

definition decodable_field :: "(nat \<Rightarrow> nat) \<Rightarrow> nat \<Rightarrow> pb_field \<Rightarrow> bool" where
  "decodable_field rank d f \<longleftrightarrow>
     (let lt = PB_LTYPE (ftype f) in
      (lt \<le> PB_LTYPE_SUBMESSAGE \<or> lt = PB_LTYPE_FIXED_LENGTH_BYTES) \<and>
      (case fptr f of
         PFields d' \<Rightarrow> lt = PB_LTYPE_SUBMESSAGE \<and> rank d' < rank d
       | _ \<Rightarrow> lt \<noteq> PB_LTYPE_SUBMESSAGE))"

definition decodable :: "(nat \<Rightarrow> nat) \<Rightarrow> descs \<Rightarrow> bool" where
  "decodable rank D \<longleftrightarrow> (\<forall>d. list_all (decodable_field rank d) (D d))"

lemma decodableD: "decodable rank D \<Longrightarrow> k < length (D d) \<Longrightarrow> decodable_field rank d (D d ! k)"
  by (simp add: decodable_def list_all_length)

lemma u8_le_cases:
  "w \<le> (5 :: u8) \<longleftrightarrow> w = 0 \<or> w = 1 \<or> w = 2 \<or> w = 3 \<or> w = 4 \<or> w = 5"
  "w \<le> (8 :: u8) \<longleftrightarrow> w \<le> 5 \<or> w = 6 \<or> w = 7 \<or> w = 8"
  by (auto simp: word_le_nat_alt word_unat_eq_iff)

section \<open>Progress\<close>

lemma consumed_le: "consumed s s' \<Longrightarrow> bytes_left s' \<le> bytes_left s"
  by (auto simp: consumed_def)

lemma varint32_eof_less:
  assumes "buf_stream s" "pb_decode_varint32_eof s = (Some v, s', eof)"
  shows "bytes_left s' < bytes_left s"
proof -
  obtain b t where b: "pb_readbyte s = (Some b, t)"
    using assms(2) by (auto simp: pb_decode_varint32_eof_def split: prod.splits option.splits)
  then have t: "bytes_left t < bytes_left s" "buf_stream t"
    using pb_readbyte_bytes_left [OF b] pb_readbyte_good [OF assms(1) b] assms(1)
    by (auto simp: good_def intro: consumed_buf_stream)
  show ?thesis
  proof (cases "b AND 0x80 = 0")
    case True
    then show ?thesis using assms(2) b t by (simp add: pb_decode_varint32_eof_def)
  next
    case False
    then have "varint32_loop t 7 (ucast (b AND 0x7F)) = (Some v, s')"
      using assms(2) b by (simp add: pb_decode_varint32_eof_def split: prod.splits)
    then show ?thesis using varint32_loop_good [OF t(2)] consumed_le t(1) by (fastforce simp: good_def)
  qed
qed

lemma varint32_less:
  "buf_stream s \<Longrightarrow> pb_decode_varint32 s = (Some v, s') \<Longrightarrow> bytes_left s' < bytes_left s"
  by (auto simp: pb_decode_varint32_def split: prod.splits dest: varint32_eof_less)

lemma tag_less:
  "buf_stream s \<Longrightarrow> pb_decode_tag s = (Some v, s', eof) \<Longrightarrow> bytes_left s' < bytes_left s"
  by (auto simp: pb_decode_tag_def split: prod.splits option.splits if_splits dest: varint32_eof_less)

lemma varint_less:
  assumes "buf_stream s" "pb_decode_varint s = (Some v, s')"
  shows "bytes_left s' < bytes_left s"
proof -
  obtain b t where b: "pb_readbyte s = (Some b, t)"
    using assms(2) unfolding pb_decode_varint_def
    by (subst (asm) varint_loop.simps) (auto split: prod.splits option.splits)
  then have t: "bytes_left t < bytes_left s" "buf_stream t"
    using pb_readbyte_bytes_left [OF b] pb_readbyte_good [OF assms(1) b] assms(1)
    by (auto simp: good_def intro: consumed_buf_stream)
  show ?thesis
    using assms(2) b t varint_loop_good [OF t(2)] consumed_le [of t s'] unfolding pb_decode_varint_def
    by (subst (asm) varint_loop.simps) (fastforce simp: Let_def good_def split: if_splits)
qed

lemma substream_less:
  assumes "buf_stream s" "pb_make_string_substream s = (Some sub, t)"
  shows "bytes_left sub < bytes_left s" "buf_stream sub"
proof -
  show "buf_stream sub" using substream_make [OF assms] by simp
  obtain v u where v: "pb_decode_varint32 s = (Some v, u)" "\<not> bytes_left u < unat v" "bytes_left sub = unat v"
    using assms(2) by (auto simp: pb_make_string_substream_def split: prod.splits option.splits if_splits)
  then show "bytes_left sub < bytes_left s" using varint32_less [OF assms(1) v(1)] by simp
qed

lemma packable_less:
  assumes "buf_stream s" "lt \<le> 5" "PB_DECODERS n E noinit lt f p (h, s) = Some (True, h', s')"
  shows "bytes_left s' < bytes_left s"
proof -
  have "lt = 0 \<or> lt = 1 \<or> lt = 2 \<or> lt = 3 \<or> lt = 4 \<or> lt = 5" using assms(2) by (simp add: u8_le_cases)
  then show ?thesis
    using assms(1,3) varint32_less [OF assms(1)] varint_less [OF assms(1)]
    by (auto simp: PB_DECODERS_def pb_dec_bool_def pb_dec_varint_def pb_dec_uvarint_def pb_dec_svarint_def
        pb_dec_fixed32_def pb_dec_fixed64_def pb_decode_svarint_def store_checked_def i_error_def
        pb_decode_fixed32_def pb_decode_fixed64_def pb_read_buf Let_def
        split: prod.splits option.splits if_splits)
qed

section \<open>Defaults and release\<close>

lemma message_defaults_total:
  assumes "desc_ok (d_descs E) d"
    and "\<And>k h. k < length (d_descs E d) \<Longrightarrow> F (iter_at (d_descs E) d p k) h \<noteq> None"
  shows "message_defaults E F d p h \<noteq> None"
proof (cases "d_descs E d = []")
  case True
  then show ?thesis
    using iter_at_begin [OF assms(1), of p] by (simp add: message_defaults_def del: iter_at.simps)
next
  case False
  have "map_option (Pair True) (F (iter_at (d_descs E) d p k) st) \<noteq> None" if "k < length (d_descs E d)" for k st
    using assms(2) [OF that] by simp
  then show ?thesis
    using iter_at_begin [OF assms(1), of p] False
      iter_loop_total [OF assms(1) False, of "\<lambda>it h. map_option (Pair True) (F it h)" p h]
    by (simp add: message_defaults_def del: iter_at.simps)
qed

lemma field_default_total:
  assumes S: "static_desc (d_descs E)" and R: "decodable rank (d_descs E)"
  shows "k < length (d_descs E d) \<Longrightarrow> rank d < n \<Longrightarrow>
    pb_field_set_to_default n E (iter_at (d_descs E) d p k) h \<noteq> None"
proof (induction n arbitrary: d k p h)
  case (Suc n)
  let ?it = "iter_at (d_descs E) d p k" and ?f = "d_descs E d ! k"
  have ok: "desc_ok (d_descs E) d" for d using S by (simp add: static_desc_def)
  have fld: "iter_field (d_descs E) ?it = ?f" by (rule iter_at_field [OF ok Suc.prems(1)])
  have st: "PB_ATYPE (ftype ?f) = 0" "PB_LTYPE (ftype ?f) \<noteq> 9"
    using static_field_at [OF S, of d k] Suc.prems(1) by (simp_all add: field_at_def)
  have sub: "message_defaults E (pb_field_set_to_default n E) d' q h \<noteq> None" if "rank d' < rank d" for d' q h
    using that Suc.prems(2) by (intro message_defaults_total ok Suc.IH) simp_all
  show ?case
  proof (cases "PB_HTYPE (ftype ?f) = 0x20 \<or> PB_HTYPE (ftype ?f) = 0x30")
    case True
    then show ?thesis using fld st by (auto simp: Let_def)
  next
    case False
    show ?thesis
      unfolding field_default_single [OF fld st False] Let_def
      using sub decodableD [OF R Suc.prems(1)]
      by (cases "fptr ?f") (auto simp: decodable_field_def Let_def simp del: not_None_eq)
  qed
qed simp

lemma release_items_total: "(\<And>p h. rel p h \<noteq> None) \<Longrightarrow> release_items rel ds n p h \<noteq> None"
proof (induction n arbitrary: p h)
  case (Suc n)
  obtain h1 where "rel p h = Some h1" using Suc.prems by blast
  then show ?case using Suc.IH [of "p + int ds" h1, OF Suc.prems] by simp
qed simp

lemma release_message_total:
  assumes "desc_ok (d_descs E) d"
    and "\<And>k h. k < length (d_descs E d) \<Longrightarrow> rel (iter_at (d_descs E) d p k) h \<noteq> None"
  shows "release_message E rel d p h \<noteq> None"
  using message_defaults_total [where F = rel, OF assms]
  by (simp add: release_message_def message_defaults_def split: prod.splits bool.splits)

lemma release_field_total:
  assumes S: "static_desc (d_descs E)" and R: "decodable rank (d_descs E)"
  shows "k < length (d_descs E d) \<Longrightarrow> rank d < n \<Longrightarrow> iter_field (d_descs E) it = d_descs E d ! k \<Longrightarrow>
    pb_release_single_field n E it h \<noteq> None"
proof (induction n arbitrary: d k it h)
  case (Suc n)
  let ?f = "d_descs E d ! k"
  have ok: "desc_ok (d_descs E) d" for d using S by (simp add: static_desc_def)
  have st: "PB_ATYPE (ftype ?f) = 0" "PB_LTYPE (ftype ?f) \<noteq> 9"
    using static_field_at [OF S, of d k] Suc.prems(1) by (simp_all add: field_at_def)
  have sub: "release_message E (pb_release_single_field n E) d' q h \<noteq> None" if "rank d' < rank d" for d' q h
    using that Suc.prems(2) by (intro release_message_total ok Suc.IH [of _ d']) (simp_all add: iter_at_field [OF ok])
  have "release_submessages E (pb_release_single_field n E) it h \<noteq> None" if lt: "PB_LTYPE (ftype ?f) = 8"
  proof -
    obtain d' where "fptr ?f = PFields d'" "rank d' < rank d"
      using decodableD [OF R Suc.prems(1)] lt by (auto simp: decodable_field_def Let_def split: pb_ptr.splits)
    then show ?thesis
      using release_items_total [OF sub] Suc.prems(3)
      by (auto simp: release_submessages_def Let_def simp del: not_None_eq)
  qed
  then show ?case using st Suc.prems(3) by (auto simp: Let_def)
qed simp

section \<open>Fields\<close>

definition returns_below :: "nat \<Rightarrow> 's dec_op \<Rightarrow> bool" where
  "returns_below B f \<longleftrightarrow> (\<forall>h s. buf_stream s \<and> bytes_left s < B \<longrightarrow> f (h, s) \<noteq> None)"

lemma returns_belowD: "returns_below B f \<Longrightarrow> buf_stream s \<Longrightarrow> bytes_left s < B \<Longrightarrow> f (h, s) \<noteq> None"
  by (simp add: returns_below_def)

lemma decode_message_total:
  assumes S: "static_desc (d_descs E)" and R: "decodable rank (d_descs E)" and n: "rank d < n"
    and f: "\<And>h. noinit d p (h, s) \<noteq> None"
  shows "decode_message n E noinit d p (h, s) \<noteq> None"
proof -
  have ok: "desc_ok (d_descs E) d" using S by (simp add: static_desc_def)
  obtain h1 where h1: "pb_message_set_to_defaults n E d p h = Some h1"
    using message_defaults_total [where F = "pb_field_set_to_default n E" and p = p and h = h, OF ok]
      field_default_total [OF S R _ n] unfolding pb_message_set_to_defaults_def by blast
  obtain st h2 s2 where "noinit d p (h1, s) = Some (st, h2, s2)" using f by (metis not_None_eq prod_cases3)
  moreover have "pb_release n E d p h2 \<noteq> None"
    unfolding pb_release_def
    by (rule release_message_total [OF ok]) (rule release_field_total [OF S R _ n], simp_all add: iter_at_field [OF ok])
  ultimately show ?thesis using h1 by (auto simp: decode_message_def)
qed

lemma submessage_total:
  assumes S: "static_desc (d_descs E)" and R: "decodable rank (d_descs E)" and n: "rank d \<le> n"
    and f: "\<And>d' q. rank d' < rank d \<Longrightarrow> returns_below (bytes_left s) (noinit d' q)"
    and fd: "decodable_field rank d fd" "PB_LTYPE (ftype fd) = 8" and s: "buf_stream s"
  shows "pb_dec_submessage n E noinit fd q (h, s) \<noteq> None"
proof -
  obtain d' where d': "fptr fd = PFields d'" "rank d' < rank d"
    using fd by (auto simp: decodable_field_def Let_def split: pb_ptr.splits)
  obtain r t where m: "pb_make_string_substream s = (r, t)" by (cases "pb_make_string_substream s")
  show ?thesis
  proof (cases r)
    case (Some sub)
    have run: "noinit d' q (h, sub) \<noteq> None" for h
      using substream_less [OF s m [unfolded Some]] by (intro returns_belowD [OF f [OF d'(2)]])
    have "decode_message n E noinit d' q (h, sub) \<noteq> None"
      using d'(2) n by (intro decode_message_total [OF S R]) (simp_all add: run)
    then have "(if PB_HTYPE (ftype fd) = 0x20 then decode_message n E noinit d' q (h, sub)
        else noinit d' q (h, sub)) \<noteq> None"
      using run by simp
    then show ?thesis
      using m Some d'(1) by (auto simp: pb_dec_submessage_def simp del: not_None_eq split: prod.split bool.split)
  qed (use m in \<open>simp add: pb_dec_submessage_def\<close>)
qed

lemma decoders_total:
  assumes S: "static_desc (d_descs E)" and R: "decodable rank (d_descs E)" and n: "rank d \<le> n"
    and f: "\<And>d' q. rank d' < rank d \<Longrightarrow> returns_below (bytes_left s) (noinit d' q)"
    and fd: "decodable_field rank d fd" "PB_ATYPE (ftype fd) = 0" and s: "buf_stream s"
  shows "PB_DECODERS n E noinit (PB_LTYPE (ftype fd)) fd q (h, s) \<noteq> None"
proof -
  have "pb_dec_bytes E fd q (h, s) \<noteq> None" "pb_dec_string E fd q (h, s) \<noteq> None"
    using fd(2) by (auto simp: pb_dec_bytes_def pb_dec_string_def Let_def simp del: not_None_eq split: prod.split option.split)
  moreover have "pb_dec_submessage n E noinit fd q (h, s) \<noteq> None" if "PB_LTYPE (ftype fd) = 8"
    using that by (intro submessage_total [where rank = rank and d = d] S R n f fd s)
  moreover have "PB_LTYPE (ftype fd) \<le> 8 \<or> PB_LTYPE (ftype fd) = 10"
    using fd(1) by (auto simp: decodable_field_def Let_def)
  ultimately show ?thesis
    unfolding PB_DECODERS_def u8_le_cases by (auto simp del: not_None_eq)
qed

lemma packed_static_total:
  assumes f: "\<And>q h s. buf_stream s \<Longrightarrow> bytes_left s \<le> B \<Longrightarrow> func fd q (h, s) \<noteq> None"
    and r: "\<And>q. stream_reader (func fd q)"
    and less: "\<And>q h s h' s'. buf_stream s \<Longrightarrow> func fd q (h, s) = Some (True, h', s') \<Longrightarrow> bytes_left s' < bytes_left s"
  shows "buf_stream s \<Longrightarrow> bytes_left s \<le> B \<Longrightarrow> bytes_left s < k \<Longrightarrow> packed_static_loop k func fd it (h, s) \<noteq> None"
proof (induction k arbitrary: h s)
  case (Suc k)
  let ?q = "item_address fd (pData it) (load_u32 (mem h) (pSize it))"
  obtain b h1 s1 where 1: "func fd ?q (h, s) = Some (b, h1, s1)"
    using f [OF Suc.prems(1,2)] by (metis not_None_eq prod_cases3)
  show ?case
  proof (cases b)
    case True
    then have l: "bytes_left s1 < bytes_left s" using less [OF Suc.prems(1), of ?q h h1 s1] 1 by simp
    have "buf_stream s1"
      using readerD [OF r Suc.prems(1) 1] True Suc.prems(1) by (auto simp: good_def intro: consumed_buf_stream)
    then show ?thesis using Suc.IH [of s1] l Suc.prems 1 True by (auto simp: and_then_opt_def)
  qed (use 1 in \<open>auto simp: and_then_opt_def\<close>)
qed simp

lemma clear_submessage_total:
  assumes S: "static_desc (d_descs E)" and R: "decodable rank (d_descs E)" and n: "rank d \<le> n"
    and fd: "decodable_field rank d fd" "PB_LTYPE (ftype fd) = 8"
  shows "clear_submessage n E fd p h \<noteq> None"
proof -
  obtain d' where d': "fptr fd = PFields d'" "rank d' < rank d"
    using fd by (auto simp: decodable_field_def Let_def split: pb_ptr.splits)
  have "pb_field_set_to_default n E (iter_at (d_descs E) d' p k) h \<noteq> None" if "k < length (d_descs E d')" for k h
    using that d'(2) n by (intro field_default_total [OF S R]) simp_all
  then have "pb_message_set_to_defaults n E d' p h \<noteq> None" for h
    using message_defaults_total [of E d' "pb_field_set_to_default n E" p h] S
    by (simp add: pb_message_set_to_defaults_def static_desc_def)
  then show ?thesis using d'(1) by (simp add: clear_submessage_def Let_def del: not_None_eq)
qed

lemma static_field_total:
  assumes S: "static_desc (d_descs E)" and R: "decodable rank (d_descs E)" and n: "rank d \<le> n"
    and f: "\<And>d' q. rank d' < rank d \<Longrightarrow> returns_below (bytes_left s) (noinit d' q)"
    and fd: "decodable_field rank d (iter_field (d_descs E) it)" and s: "buf_stream s"
    and rd: "\<And>d p. stream_reader (noinit d p)"
  shows "decode_static_field n E noinit wt it (h, s) \<noteq> None"
proof -
  define field where "field = iter_field (d_descs E) it"
  define func where "func = PB_DECODERS n E noinit (PB_LTYPE (ftype field))"
  have a: "PB_ATYPE (ftype field) = 0" using static_field_at [OF S] by (simp add: field_def)
  have one: "func field q (h', s') \<noteq> None" if "buf_stream s'" "bytes_left s' \<le> bytes_left s" for q h' s'
    unfolding func_def
  proof (rule decoders_total [where rank = rank and d = d])
    show "returns_below (bytes_left s') (noinit d' q)" if "rank d' < rank d" for d' q
      using f [OF that, of q] \<open>bytes_left s' \<le> bytes_left s\<close> by (simp add: returns_below_def)
  qed (use S R n fd a that in \<open>simp_all add: field_def\<close>)
  have clear: "clear_submessage n E field p h \<noteq> None" if "PB_LTYPE (ftype field) = 8" for p h
    using that fd by (intro clear_submessage_total [OF S R n]) (simp_all add: field_def)
  have packed: "packed_static_loop (Suc (bytes_left sub)) func field it (h, sub) \<noteq> None"
    if "PB_LTYPE (ftype field) \<le> 5" "pb_make_string_substream s = (Some sub, t)" for sub t
    using substream_less [OF s that(2)] one reader_decoders [where noinit = noinit, OF rd] packable_less [OF _ that(1)]
    unfolding func_def by (intro packed_static_total [where B = "bytes_left sub"]) simp_all
  show ?thesis
    unfolding decode_static_field_def Let_def field_def [symmetric] func_def [symmetric] prod.case
    using one [OF s] clear packed
    by (auto simp del: not_None_eq packed_static_loop.simps simp: i_error_def bind_eq_None_conv
        split: prod.split option.split bool.split)
qed

section \<open>Messages\<close>

lemma dec_iter_decodable:
  assumes "desc_ok D d" "decodable rank D" "dec_iter D d base it"
  shows "decodable_field rank d (iter_field D it)"
proof (cases "D d = []")
  case True
  then have "iter_field D it = PB_LAST_FIELD"
    using assms(3) by (simp add: dec_iter_def pb_field_iter_begin_def Let_def field_at_def)
  then show ?thesis by (simp add: decodable_field_def PB_LAST_FIELD_def PB_LTYPE_def)
next
  case False
  then obtain k where k: "k < length (D d)" "at_field D d base k it" using assms(3) by (auto simp: dec_iter_def)
  then show ?thesis using at_field_simps(4) [OF k(2) assms(1) k(1)] decodableD [OF assms(2) k(1)] by simp
qed

text \<open>The searches return also from an iterator whose \<open>pSize\<close> was redirected.\<close>

lemma find_loop_total:
  assumes "desc_ok D d" "dec_iter D d base it"
  shows "find_loop (Suc (length (D (it_start it)))) D P (it_pos it) it \<noteq> None"
proof (cases "D d = []")
  case True
  then show ?thesis
    using assms(2) by (auto simp: dec_iter_def pb_field_iter_begin_def pb_field_iter_next_def Let_def
        field_at_def PB_LAST_FIELD_def)
next
  case False
  then obtain k where k: "k < length (D d)" "at_field D d base k it" using assms(2) by (auto simp: dec_iter_def)
  note s = at_field_simps [OF k(2) assms(1) k(1)] iter_at_simps [OF assms(1) k(1), of base]
  have tag: "ftag (D d ! k) \<noteq> 0" using assms(1) k(1) by (simp add: desc_ok_def list_all_length)
  have "pb_field_iter_next D it = pb_field_iter_next D (iter_at D d base k)"
    using k(2) next_pSize [of D "iter_at D d base k"] iter_at_field [OF assms(1) k(1), of base] tag
    by (auto simp: at_field_def)
  moreover have "find_loop (Suc (length (D d))) D P k (iter_at D d base k) \<noteq> None"
    using find_loop_complete [OF assms(1) k(1), of P base] by auto
  moreover have "iter_field D it = iter_field D (iter_at D d base k)"
    using s(4) iter_at_field [OF assms(1) k(1), of base] by simp
  ultimately show ?thesis using s(1,2) by (auto simp: Let_def split: if_splits)
qed

lemma find_total:
  assumes "desc_ok D d" "dec_iter D d base it"
  obtains b it' where "pb_field_iter_find D it tag = Some (b, it')" "dec_iter D d base it'"
proof -
  have "pb_field_iter_find D it tag \<noteq> None"
    unfolding pb_field_iter_find_def by (rule find_loop_total [OF assms])
  then obtain b it' where r: "pb_field_iter_find D it tag = Some (b, it')" by auto
  show ?thesis by (rule that [OF r find_iter(1) [OF assms r]])
qed

lemma find_extension_total:
  assumes "desc_ok D d" "dec_iter D d base it"
  obtains b it' where "find_extension_field D it = Some (b, it')"
proof -
  have "find_extension_field D it \<noteq> None"
    unfolding find_extension_field_def by (rule find_loop_total [OF assms])
  then show ?thesis using that by auto
qed

lemma release_union_total:
  assumes L: "layout_ok (d_descs E) sz" and R: "decodable rank (d_descs E)" and n: "rank d < n"
    and it: "dec_iter (d_descs E) d base it"
  shows "pb_release_union_field n E (it, h, s) \<noteq> None"
proof -
  let ?D = "d_descs E"
  let ?old = "load_u32 (mem h) (pSize it)" and ?new = "ftag (iter_field ?D it)"
  note ok = layout_okD(2) [OF L, of d]
  obtain b1 it1 where f1: "pb_field_iter_find ?D it ?old = Some (b1, it1)" "dec_iter ?D d base it1"
    by (rule find_total [OF ok it])
  obtain b2 it2 where f2: "pb_field_iter_find ?D it1 ?new = Some (b2, it2)"
    by (rule find_total [OF ok f1(2)])
  have "pb_release_single_field n E it1 h \<noteq> None"
  proof (cases "?D d = []")
    case True
    then have "iter_field ?D it1 = PB_LAST_FIELD"
      using f1(2) by (simp add: dec_iter_def pb_field_iter_begin_def Let_def field_at_def)
    then show ?thesis
      using n by (cases n) (simp_all add: PB_LAST_FIELD_def PB_LTYPE_def PB_ATYPE_def PB_HTYPE_def)
  next
    case False
    then obtain k where k: "k < length (?D d)" "at_field ?D d base k it1" using f1(2) by (auto simp: dec_iter_def)
    show ?thesis
      by (rule release_field_total [OF layout_static [OF L] R k(1) n at_field_simps(4) [OF k(2) ok k(1)]])
  qed
  then show ?thesis
    using f1(1) f2 by (auto simp: pb_release_union_field_def Let_def split: bool.split)
qed

lemma decode_field_total:
  assumes L: "layout_ok (d_descs E) sz" and R: "decodable rank (d_descs E)" and n: "rank d < n"
    and f: "\<And>d' q. rank d' < rank d \<Longrightarrow> returns_below (bytes_left s) (noinit d' q)"
    and rd: "\<And>d p. stream_reader (noinit d p)" and it: "dec_iter (d_descs E) d base it" and s: "buf_stream s"
  shows "decode_field n E noinit wt (it, h, s) \<noteq> None"
proof -
  let ?pre = "if PB_HTYPE (ftype (iter_field (d_descs E) it)) = 0x30
    then pb_release_union_field n E (it, h, s) else Some (True, it, h, s)"
  have "?pre \<noteq> None" using release_union_total [OF L R n it, of h s] by (simp del: not_None_eq)
  then obtain x where "?pre = Some x" by blast
  then obtain b it1 h1 s1 where pre: "?pre = Some (b, it1, h1, s1)" by (cases x) blast
  show ?thesis
  proof (cases b)
    case True
    then have i: "dec_iter (d_descs E) d base it1" and c: "consumed s s1"
      using pre it s release_union_frame [OF L it, of n h s b it1 h1 s1] release_union_good [OF s, of n E it h b it1 h1 s1]
      by (auto simp: good_def split: if_splits)
    have "returns_below (bytes_left s1) (noinit d' q)" if "rank d' < rank d" for d' q
      using f [OF that, of q] consumed_le [OF c] by (simp add: returns_below_def)
    then have "decode_static_field n E noinit wt it1 (h1, s1) \<noteq> None"
      using n dec_iter_decodable [OF layout_okD(2) [OF L] R i]
      by (intro static_field_total [where rank = rank and d = d, OF layout_static [OF L] R _ _ _ consumed_buf_stream [OF c s] rd])
        simp_all
    then show ?thesis
      using pre True static_field_at [OF layout_static [OF L]]
      by (auto simp: decode_field_def and_then_opt_def Let_def)
  qed (use pre in \<open>simp add: decode_field_def and_then_opt_def\<close>)
qed

lemma decode_unknown_total:
  assumes L: "layout_ok (d_descs E) sz" and tag: "\<not> (- 1 :: u32) \<le> tag"
    and it: "dec_iter (d_descs E) d base (dl_iter l)"
  shows "decode_unknown n E noinit tag wt (l, h, s) \<noteq> None"
proof -
  obtain b it1 where e: "find_extension_field (d_descs E) (dl_iter l) = Some (b, it1)"
    by (rule find_extension_total [OF layout_okD(2) [OF L] it])
  have "\<not> b"
    using find_iter(2) [OF layout_okD(2) [OF L] it e] static_field_at [OF layout_static [OF L]] by blast
  then show ?thesis using e tag by (auto simp: decode_unknown_def Let_def split: prod.split)
qed

lemma decode_known_total:
  assumes L: "layout_ok (d_descs E) sz" and R: "decodable rank (d_descs E)" and n: "rank d < n"
    and f: "\<And>d' q. rank d' < rank d \<Longrightarrow> returns_below (bytes_left s) (noinit d' q)"
    and rd: "\<And>d p. stream_reader (noinit d p)" and it: "dec_iter (d_descs E) d base (dl_iter l)" and s: "buf_stream s"
  shows "decode_known n E noinit wt (l, h, s) \<noteq> None"
proof -
  define it1 where "it1 = (if PB_HTYPE (ftype (iter_field (d_descs E) (dl_iter l))) = 0x20 \<and>
      pSize (dl_iter l) = pData (dl_iter l) then (dl_iter l)\<lparr>pSize := stack_slot n\<rparr> else dl_iter l)"
  have "dec_iter (d_descs E) d base it1"
    using it dec_iter_slot [OF layout_okD(2) [OF L] it] by (simp add: it1_def stack_slot_def)
  then have d: "decode_field n E noinit wt (it1, h', s) \<noteq> None" for h'
    using decode_field_total [where rank = rank and d = d and noinit = noinit and sz = sz and s = s] L R n f rd s
    by blast
  have "decode_field n E noinit wt (it1, h', s) \<bind> (\<lambda>(ok, it, h, s). Some (G ok it h s)) \<noteq> None"
    for h' and G :: "_ \<Rightarrow> _ \<Rightarrow> _ \<Rightarrow> _ \<Rightarrow> bool \<times> dec_locals \<times> heap \<times> 'a pb_istream"
    using d [of h'] by (cases "decode_field n E noinit wt (it1, h', s)") (simp_all del: not_None_eq split: prod.split)
  then show ?thesis
    unfolding decode_known_def Let_def prod.case it1_def [symmetric] by (simp del: not_None_eq)
qed

lemma decode_field_iter:
  assumes L: "layout_ok (d_descs E) sz" and it: "dec_iter (d_descs E) d base it"
    and r: "decode_field n E noinit wt (it, h, s) = Some (ok, it', h', s')"
  shows "dec_iter (d_descs E) d base it'"
proof -
  let ?pre = "if PB_HTYPE (ftype (iter_field (d_descs E) it)) = 0x30
    then pb_release_union_field n E (it, h, s) else Some (True, it, h, s)"
  obtain ok1 it1 h1 s1 where pre: "?pre = Some (ok1, it1, h1, s1)"
    using r by (auto simp: decode_field_def and_then_opt_def split: option.splits)
  then have "dec_iter (d_descs E) d base it1"
    using it release_union_frame [OF L it] by (auto split: if_splits)
  moreover have "it' = it1"
    using r pre by (cases ok1) (auto simp: decode_field_def and_then_opt_def Let_def bind_eq_Some_conv)
  ultimately show ?thesis by simp
qed

lemma decode_known_iter:
  assumes L: "layout_ok (d_descs E) sz" and it: "dec_iter (d_descs E) d base (dl_iter l)"
    and r: "decode_known n E noinit wt (l, h, s) = Some (ok, l', h', s')"
  shows "dec_iter (d_descs E) d base (dl_iter l')"
proof -
  define it1 where "it1 = (if PB_HTYPE (ftype (iter_field (d_descs E) (dl_iter l))) = 0x20 \<and>
      pSize (dl_iter l) = pData (dl_iter l) then (dl_iter l)\<lparr>pSize := stack_slot n\<rparr> else dl_iter l)"
  have i: "dec_iter (d_descs E) d base it1"
    using it dec_iter_slot [OF layout_okD(2) [OF L] it] by (simp add: it1_def stack_slot_def)
  have "l' = l \<or> (\<exists>b h1 h2 s2 l2 it2. decode_field n E noinit wt (it1, h1, s) = Some (b, it2, h2, s2) \<and> dl_iter l' = it2)"
    using r unfolding decode_known_def Let_def prod.case it1_def [symmetric]
    by (auto simp: bind_eq_Some_conv split: if_split_asm)
  then show ?thesis using it decode_field_iter [OF L i] by auto
qed

lemma decode_loop_total:
  assumes L: "layout_ok (d_descs E) sz" and R: "decodable rank (d_descs E)" and n: "rank d < n"
    and cb: "dec_callbacks_ok E" and rd: "\<And>d p. stream_reader (noinit d p)"
    and f: "\<And>d' q. rank d' < rank d \<Longrightarrow> returns_below B (noinit d' q)"
  shows "dec_iter (d_descs E) d base (dl_iter l) \<Longrightarrow> buf_stream s \<Longrightarrow> bytes_left s \<le> k \<Longrightarrow> bytes_left s \<le> B \<Longrightarrow>
    decode_loop k n E noinit (l, h, s) \<noteq> None"
proof (induction k arbitrary: l h s)
  case (Suc k)
  obtain q t eof where q: "pb_decode_tag s = (q, t, eof)" by (cases "pb_decode_tag s")
  show ?case
  proof (cases "bytes_left s = 0 \<or> q = None")
    case True
    then show ?thesis using q by auto
  next
    case False
    then obtain wt tag where wt: "q = Some (wt, tag)" by auto
    then have t: "bytes_left t < bytes_left s" "buf_stream t"
      using tag_less [OF Suc.prems(2)] pb_decode_tag_good [OF Suc.prems(2) q] q Suc.prems(2)
      by (auto simp: good_def intro: consumed_buf_stream)
    obtain found it where it: "pb_field_iter_find (d_descs E) (dl_iter l) tag = Some (found, it)"
      "dec_iter (d_descs E) d base it"
      by (rule find_total [OF layout_okD(2) [OF L] Suc.prems(1)])
    let ?l = "l\<lparr>dl_iter := it\<rparr>"
    let ?one = "if found then decode_known n E noinit wt (?l, h, t) else decode_unknown n E noinit tag wt (?l, h, t)"
    have i: "dec_iter (d_descs E) d base (dl_iter ?l)" using it(2) by simp
    have small: "\<not> - 1 \<le> tag" using decode_tag_small [of s wt tag t eof] q wt by simp
    have "returns_below (bytes_left t) (noinit d' q)" if "rank d' < rank d" for d' q
      using f [OF that, of q] t(1) Suc.prems(4) by (simp add: returns_below_def)
    then have "?one \<noteq> None"
      using decode_known_total [where noinit = noinit and rank = rank and l = ?l, OF L R n _ rd i t(2)]
        decode_unknown_total [OF L small i] by (simp del: not_None_eq)
    then obtain x where "?one = Some x" by blast
    then obtain b1 l1 h1 s1 where one: "?one = Some (b1, l1, h1, s1)" by (cases x) blast
    have "decode_loop k n E noinit (l1, h1, s1) \<noteq> None" if b1
    proof (rule Suc.IH)
      show "dec_iter (d_descs E) d base (dl_iter l1)"
        using one decode_known_iter [OF L i]
          decode_unknown_frame [OF L i small] by (cases found) auto
      have "consumed t s1"
        using one that decode_known_good [where noinit = noinit, OF rd cb t(2)]
          decode_unknown_good [where noinit = noinit, OF rd cb t(2)]
        by (cases found) (auto simp: good_def)
      then show "buf_stream s1" "bytes_left s1 \<le> k" "bytes_left s1 \<le> B"
        using t Suc.prems(3,4) consumed_le consumed_buf_stream by fastforce+
    qed
    then show ?thesis
      using False q wt it(1) one by (cases b1) (simp_all add: Let_def and_then_opt_def del: not_None_eq)
  qed
qed simp

lemma noinit_total:
  assumes L: "layout_ok (d_descs E) sz" and R: "decodable rank (d_descs E)" and cb: "dec_callbacks_ok E"
  shows "buf_stream s \<Longrightarrow> bytes_left s + rank d + 2 \<le> n \<Longrightarrow> pb_decode_noinit n E d p (h, s) \<noteq> None"
proof (induction n arbitrary: d p s h)
  case (Suc n)
  note ok = layout_okD(2) [OF L, of d]
  let ?st = "(init_locals E d p, h\<lparr>mem := store_u32 (mem h) (stack_slot n) 0\<rparr>, s)"
  have sub: "returns_below (bytes_left s) (pb_decode_noinit n E d' q)" if "rank d' < rank d" for d' q
    using Suc.IH Suc.prems(2) that by (auto simp: returns_below_def)
  have it: "dec_iter (d_descs E) d p (dl_iter (init_locals E d p))"
    using iter_at_begin [OF ok, of p] by (auto simp: init_locals_def dec_iter_def at_field_def simp del: iter_at.simps)
  have n: "rank d < n" "bytes_left s \<le> n" using Suc.prems(2) by simp_all
  have rd: "stream_reader (pb_decode_noinit n E d p)" for d p by (rule reader_noinit [OF cb])
  have "decode_loop n n E (pb_decode_noinit n E) ?st \<noteq> None"
    by (rule decode_loop_total [where noinit = "pb_decode_noinit n E" and rank = rank and B = "bytes_left s"])
      (fact L R n cb rd it Suc.prems(1) sub order.refl)+
  then obtain x where "decode_loop n n E (pb_decode_noinit n E) ?st = Some x" by blast
  then show ?case by (cases x) (simp del: not_None_eq)
qed simp

lemma pb_decode_total:
  assumes L: "layout_ok (d_descs E) sz" and R: "decodable rank (d_descs E)" and cb: "dec_callbacks_ok E"
    and "buf_stream s" "bytes_left s + rank d + 2 \<le> n"
  shows "pb_decode n E d p (h, s) \<noteq> None"
  unfolding pb_decode_def
  using assms(5) by (intro decode_message_total [OF layout_static [OF L] R] noinit_total [OF L R cb assms(4)]) simp_all

end
