(* ===== verification/PB_Decode_Thms.thy ===== *)
theory PB_Decode_Thms
  imports PB_Encode_Thms PB_Dec_Returns
begin

text \<open>
  The properties of the decoder: what a decoded value is, where the decoder reads and writes,
  when it returns, and which messages it accepts.
\<close>

section \<open>Values\<close>

lemma trunc_ext:
  "(ucast (scast (x8 :: u8) :: u64) :: u8) = x8" "(ucast (scast (x16 :: u16) :: u64) :: u16) = x16"
  "(ucast (scast (x32 :: u32) :: u64) :: u32) = x32"
  "(ucast (ucast (x8 :: u8) :: u64) :: u8) = x8" "(ucast (ucast (x16 :: u16) :: u64) :: u16) = x16"
  "(ucast (ucast (x32 :: u32) :: u64) :: u32) = x32"
  "(ucast (scast (x8 :: u8) :: u32) :: u8) = x8" "(ucast (scast (x16 :: u16) :: u32) :: u16) = x16"
  by (rule bit_word_eqI; auto simp: bit_simps)+

lemma ext_ext:
  "(scast (scast (x8 :: u8) :: u32) :: u64) = scast x8" "(scast (scast (x16 :: u16) :: u32) :: u64) = scast x16"
  "(ucast (scast (x8 :: u8) :: u64) :: u32) = scast x8" "(ucast (scast (x16 :: u16) :: u64) :: u32) = scast x16"
  by (rule bit_word_eqI; auto simp: bit_simps min_def)+

text \<open>A value that was loaded from a field of the same width fits.\<close>

lemma store_loaded_signed:
  assumes "load_signed m sz p = Some v"
  shows "\<exists>m'. store_signed m0 sz q v = Some (m', v) \<and> load_signed m' sz q = Some v"
    and "(if sz = 8 then v else scast (ucast v :: u32)) = v"
  using assms
  by (auto simp: load_signed_def store_signed_def trunc_ext ext_ext split: if_splits)

lemma store_loaded_unsigned:
  assumes "load_unsigned m sz p = Some v"
  shows "\<exists>m'. store_unsigned m0 sz q v = Some (m', v) \<and> load_unsigned m' sz q = Some v"
  using assms
  by (auto simp: load_unsigned_def store_unsigned_def trunc_ext split: if_splits)

text \<open>What is left of the stream after a value.\<close>

definition starts_with :: "u8 list \<Rightarrow> 's pb_istream \<Rightarrow> bool" where
  "starts_with bs s \<longleftrightarrow> buf_stream s \<and> length bs \<le> bytes_left s \<and> (\<exists>rest. is_buf s = bs @ rest)"

lemma starts_with_varint: "starts_with (varint_bytes v) s \<Longrightarrow> starts_varint s v"
  by (auto simp: starts_with_def starts_varint_def)

lemma dec_bool_value:
  assumes "starts_with (varint_bytes (if b = 0 then 0 else 1)) s"
  shows "pb_dec_bool f p (h, s) =
    (True, h\<lparr>mem := (mem h)(p := (if b = 0 then 0 else 1))\<rparr>, advance_in (length (varint_bytes (if b = 0 then 0 else 1))) s)"
proof -
  have "pb_decode_varint32 s = (Some (if b = 0 then 0 else 1), advance_in (length (varint_bytes (if b = 0 then 0 else 1))) s)"
    using pb_decode_varint32_bytes [OF starts_with_varint [OF assms]] by (auto split: if_splits)
  then show ?thesis by (simp add: pb_dec_bool_def)
qed

lemma starts_with_advance:
  "starts_with (as @ bs) s \<Longrightarrow> starts_with as s \<and> starts_with bs (advance_in (length as) s)"
  by (auto simp: starts_with_def buf_stream_def)

lemma read_to_bytes:
  assumes "starts_with bs s"
  shows "read_to p (length bs) (h, s) = (True, h\<lparr>mem := mem_write (mem h) p bs\<rparr>, advance_in (length bs) s)"
  using assms by (auto simp: read_to_def starts_with_def pb_read_buf)

lemma dec_ints_value:
  "load_signed m (data_size f) p = Some v \<Longrightarrow> starts_with (varint_bytes v) s \<Longrightarrow>
     \<exists>h'. pb_dec_varint f q (h, s) = (True, h', advance_in (length (varint_bytes v)) s) \<and>
       load_signed (mem h') (data_size f) q = Some v"
  "load_unsigned m (data_size f) p = Some v \<Longrightarrow> starts_with (varint_bytes v) s \<Longrightarrow>
     \<exists>h'. pb_dec_uvarint f q (h, s) = (True, h', advance_in (length (varint_bytes v)) s) \<and>
       load_unsigned (mem h') (data_size f) q = Some v"
  "load_signed m (data_size f) p = Some v \<Longrightarrow> starts_with (varint_bytes (zigzag v)) s \<Longrightarrow>
     \<exists>h'. pb_dec_svarint f q (h, s) = (True, h', advance_in (length (varint_bytes (zigzag v))) s) \<and>
       load_signed (mem h') (data_size f) q = Some v"
  using store_loaded_signed(1) [of m "data_size f" p v "mem h" q] store_loaded_signed(2) [of m "data_size f" p v]
    store_loaded_unsigned [of m "data_size f" p v "mem h" q]
  by (auto simp: pb_dec_varint_def pb_dec_uvarint_def pb_dec_svarint_def Let_def store_checked_def
      pb_decode_varint_bytes [OF starts_with_varint] pb_decode_svarint_bytes [OF starts_with_varint]
      simp del: if_split_eq1)

lemma starts_string:
  assumes "starts_with (string_bytes bs) s" "length bs < 2 ^ 32"
  defines "t \<equiv> advance_in (length (varint_bytes (word_of_nat (length bs)))) s"
  shows "pb_decode_varint32 s = (Some (word_of_nat (length bs)), t)" "starts_with bs t"
    "advance_in (length bs) t = advance_in (length (string_bytes bs)) s"
    "unat (word_of_nat (length bs) :: u32) = length bs"
proof -
  obtain rest where "is_buf s = string_bytes bs @ rest" using assms(1) by (auto simp: starts_with_def)
  then show "pb_decode_varint32 s = (Some (word_of_nat (length bs)), t)"
    using string_prefix [of s bs rest] assms by (simp add: starts_with_def t_def)
  show "starts_with bs t"
    using starts_with_advance [of _ bs s] assms(1) by (simp add: string_bytes_def t_def)
  show "advance_in (length bs) t = advance_in (length (string_bytes bs)) s"
    by (simp add: t_def string_bytes_def)
  show "unat (word_of_nat (length bs) :: u32) = length bs" by (rule unat_of_length_u32 [OF assms(2)])
qed

lemma length_lt_u32: "n \<le> unat (w :: u32) \<Longrightarrow> n < 2 ^ 32"
  using unsigned_less [of w, where ?'a = nat] by simp

lemma dec_bytes_value:
  assumes "starts_with (string_bytes bs) s" "PB_ATYPE (ftype f) = 0" "length bs + 4 \<le> unat (data_size f)"
  shows "\<exists>h'. pb_dec_bytes E f q (h, s) = Some (True, h', advance_in (length (string_bytes bs)) s) \<and>
    load_u32 (mem h') q = word_of_nat (length bs) \<and> mem_read (mem h') (q + 4) (length bs) = bs"
proof -
  have l: "length bs < 2 ^ 32" using length_lt_u32 [OF assms(3)] by simp
  note st = starts_string [OF assms(1) l]
  let ?h = "h\<lparr>mem := store_u32 (mem h) q (word_of_nat (length bs))\<rparr>"
  have "pb_dec_bytes E f q (h, s) = Some (read_to (q + 4) (length bs) (?h, advance_in (length (varint_bytes (word_of_nat (length bs)))) s))"
    using st(1,4) assms(2,3) l
    by (simp add: pb_dec_bytes_def Let_def size_add_def PB_SIZE_MAX_def word_less_nat_alt)
  also have "\<dots> = Some (True, ?h\<lparr>mem := mem_write (mem ?h) (q + 4) bs\<rparr>, advance_in (length (string_bytes bs)) s)"
    using read_to_bytes [OF st(2)] st(3) by simp
  finally have r: "pb_dec_bytes E f q (h, s) =
      Some (True, ?h\<lparr>mem := mem_write (mem ?h) (q + 4) bs\<rparr>, advance_in (length (string_bytes bs)) s)" .
  have "load_u32 (mem_write (mem ?h) (q + 4) bs) q = word_of_nat (length bs)"
    using load_store_u32 [of "mem h" q "word_of_nat (length bs)"]
    by (simp add: load_u32_def mem_read_write_disjoint)
  then show ?thesis using r by simp
qed

lemma takeWhile_terminated:
  "\<forall>b \<in> set bs. b \<noteq> 0 \<Longrightarrow> takeWhile (\<lambda>b. b \<noteq> 0) (bs @ 0 # xs) = bs"
  by (simp add: takeWhile_append2)

lemma mem_read_add: "mem_read m a (k + n) = mem_read m a k @ mem_read m (a + int k) n"
  by (rule nth_equalityI) (auto simp: mem_read_def nth_append)

lemma c_string_terminated:
  assumes "mem_read m q (length bs) = bs" "m (q + int (length bs)) = 0" "\<forall>b \<in> set bs. b \<noteq> 0"
    "length bs < n" "q \<noteq> 0"
  shows "c_string m q n = bs"
proof -
  obtain k where n: "n = length bs + Suc k" using assms(4) less_imp_Suc_add by fastforce
  have "mem_read m q n = bs @ 0 # mem_read m (q + int (length bs) + 1) k"
    unfolding n mem_read_add mem_read_Suc using assms(1,2) by simp
  then show ?thesis using takeWhile_terminated [OF assms(3)] assms(5) by (simp add: c_string_def)
qed

lemma c_string_nonzero: "\<forall>b \<in> set (c_string m p n). b \<noteq> 0"
  by (auto simp: c_string_def dest: set_takeWhileD)

lemma dec_string_value:
  assumes "starts_with (string_bytes bs) s" "PB_ATYPE (ftype f) = 0" "length bs + 1 \<le> unat (data_size f)"
    "\<forall>b \<in> set bs. b \<noteq> 0" "q \<noteq> 0"
  shows "\<exists>h'. pb_dec_string E f q (h, s) = Some (True, h', advance_in (length (string_bytes bs)) s) \<and>
    c_string (mem h') q (unat (data_size f)) = bs"
proof -
  have l: "length bs < 2 ^ 32" "length bs + 1 < 2 ^ 32" using length_lt_u32 [OF assms(3)] by simp_all
  note st = starts_string [OF assms(1) l(1)]
  have al: "unat (word_of_nat (length bs) + 1 :: u32) = length bs + 1"
    using unat_of_length_u32 [OF l(2)] by (simp add: add.commute)
  let ?h1 = "h\<lparr>mem := mem_write (mem h) q bs\<rparr>"
  let ?h2 = "?h1\<lparr>mem := (mem ?h1)(q + int (length bs) := 0)\<rparr>"
  have "pb_dec_string E f q (h, s) = Some (True, ?h2, advance_in (length (string_bytes bs)) s)"
    using st(1,3,4) al assms(2,3) read_to_bytes [OF st(2), of q h]
    by (simp add: pb_dec_string_def Let_def)
  moreover have "mem_read (mem ?h2) q (length bs) = mem_read (mem ?h1) q (length bs)"
    by (simp add: mem_read_def)
  then have "c_string (mem ?h2) q (unat (data_size f)) = bs"
    using assms(3-5) by (intro c_string_terminated) simp_all
  ultimately show ?thesis by blast
qed

lemma dec_fixed_length_value:
  assumes "starts_with (string_bytes bs) s" "length bs = unat (data_size f)"
  shows "pb_dec_fixed_length_bytes f q (h, s) =
    (True, h\<lparr>mem := mem_write (mem h) q bs\<rparr>, advance_in (length (string_bytes bs)) s)"
proof -
  have l: "length bs < 2 ^ 32" using length_lt_u32 [of "length bs" "data_size f"] assms(2) by simp
  note st = starts_string [OF assms(1) l]
  have sz: "word_of_nat (length bs) = data_size f" using assms(2) by simp
  have "\<not> PB_SIZE_MAX < w" for w :: u32
    using unsigned_less [of w, where ?'a = nat] by (simp add: PB_SIZE_MAX_def word_less_nat_alt)
  moreover have "replicate (unat (data_size f)) 0 = bs" if "data_size f = 0" using assms(2) that by simp
  moreover have "advance_in (length (varint_bytes (word_of_nat (length bs)))) s =
      advance_in (length (string_bytes bs)) s" if "data_size f = 0"
    using assms(2) that by (simp add: string_bytes_def)
  ultimately show ?thesis
    using st(1,3) read_to_bytes [OF st(2), of q h] assms(2) unfolding sz
    by (simp add: pb_dec_fixed_length_bytes_def)
qed

text \<open>
  The value a static field holds: a truth value, an integer extended to 64 bits, or the bytes of
  a string or bytes field. There is none for a data size the integer types do not have, and
  submessages and extensions are not values.
\<close>

datatype field_val = FBool bool | FInt u64 | FBytes "u8 list"

definition field_value :: "memory \<Rightarrow> pb_field \<Rightarrow> int \<Rightarrow> field_val option" where
  "field_value m f p =
     (let lt = PB_LTYPE (ftype f); n = unat (data_size f) in
      if lt = PB_LTYPE_BOOL then Some (FBool (m p \<noteq> 0))
      else if lt = PB_LTYPE_VARINT \<or> lt = PB_LTYPE_SVARINT then map_option FInt (load_signed m (data_size f) p)
      else if lt = PB_LTYPE_UVARINT then map_option FInt (load_unsigned m (data_size f) p)
      else if lt = PB_LTYPE_FIXED32 then Some (FInt (ucast (load_u32 m p)))
      else if lt = PB_LTYPE_FIXED64 then Some (FInt (load_u64 m p))
      else if lt = PB_LTYPE_BYTES then Some (FBytes (mem_read m (p + 4) (unat (load_u32 m p))))
      else if lt = PB_LTYPE_STRING then Some (FBytes (c_string m p n))
      else if lt = PB_LTYPE_FIXED_LENGTH_BYTES then Some (FBytes (mem_read m p n))
      else None)"

text \<open>
  A static field has room for the value at \<open>src\<close>: the length and the bytes of a bytes field, a
  terminator after a string.
\<close>

definition value_fits :: "memory \<Rightarrow> pb_field \<Rightarrow> int \<Rightarrow> bool" where
  "value_fits m f src \<longleftrightarrow>
     (PB_LTYPE (ftype f) = PB_LTYPE_BYTES \<longrightarrow> 4 + unat (load_u32 m src) \<le> unat (data_size f)) \<and>
     (PB_LTYPE (ftype f) = PB_LTYPE_STRING \<longrightarrow> length (c_string m src (unat (data_size f))) < unat (data_size f))"

lemma scalar_roundtrip:
  assumes v: "value_bytes m sub f src = Some bs" and lt: "PB_LTYPE (ftype f) \<le> 5" and s: "starts_with bs s"
  shows "\<exists>h'. PB_DECODERS n E noinit (PB_LTYPE (ftype f)) f dst (h, s) = Some (True, h', advance_in (length bs) s) \<and>
    field_value (mem h') f dst = field_value m f src"
proof -
  let ?lt = "PB_LTYPE (ftype f)"
  note d = PB_DECODERS_def value_bytes_def field_value_def Let_def
  consider "?lt = 0" | "?lt = 1" | "?lt = 2" | "?lt = 3" | "?lt = 4" | "?lt = 5"
    using lt by (auto simp: u8_le_cases)
  then show ?thesis
  proof cases
    case 1
    then have "bs = varint_bytes (if m src = 0 then 0 else 1)" using v by (simp add: value_bytes_def)
    then show ?thesis using 1 dec_bool_value [of "m src" s f dst h] s by (simp add: d)
  next
    case 2
    then obtain x where "load_signed m (data_size f) src = Some x" "bs = varint_bytes x" using v by (auto simp: d)
    then show ?thesis using 2 dec_ints_value(1) [of m f src x s dst h] s by (auto simp: d)
  next
    case 3
    then obtain x where "load_unsigned m (data_size f) src = Some x" "bs = varint_bytes x" using v by (auto simp: d)
    then show ?thesis using 3 dec_ints_value(2) [of m f src x s dst h] s by (auto simp: d)
  next
    case 4
    then obtain x where "load_signed m (data_size f) src = Some x" "bs = varint_bytes (zigzag x)" using v by (auto simp: d)
    then show ?thesis using 4 dec_ints_value(3) [of m f src x s dst h] s by (auto simp: d)
  next
    case 5
    then have "bs = fixed32_bytes (load_u32 m src)" using v by (simp add: d)
    then show ?thesis
      using 5 s pb_decode_fixed32_bytes [of s "load_u32 m src"] by (auto simp: d pb_dec_fixed32_def starts_with_def)
  next
    case 6
    then have "bs = fixed64_bytes (load_u64 m src)" using v by (simp add: d)
    then show ?thesis
      using 6 s pb_decode_fixed64_bytes [of s "load_u64 m src"] by (auto simp: d pb_dec_fixed64_def starts_with_def)
  qed
qed

lemma string_roundtrip:
  assumes v: "value_bytes m sub f src = Some bs" and st: "PB_ATYPE (ftype f) = 0" "PB_LTYPE (ftype f) = 6 \<or> PB_LTYPE (ftype f) = 7 \<or> PB_LTYPE (ftype f) = 10"
    and fits: "value_fits m f src" and p: "src \<noteq> 0" "dst \<noteq> 0" and s: "starts_with bs s"
  shows "\<exists>h'. PB_DECODERS n E noinit (PB_LTYPE (ftype f)) f dst (h, s) = Some (True, h', advance_in (length bs) s) \<and>
    field_value (mem h') f dst = field_value m f src"
proof -
  note d = PB_DECODERS_def value_bytes_def field_value_def Let_def
  show ?thesis
    using st(2)
  proof (elim disjE)
    assume lt: "PB_LTYPE (ftype f) = 6"
    define xs where "xs = mem_read m (src + 4) (unat (load_u32 m src))"
    have bs: "bs = string_bytes xs" using lt v p st(1) by (auto simp: d xs_def split: if_splits)
    have "length xs + 4 \<le> unat (data_size f)" using fits lt by (simp add: value_fits_def xs_def)
    then obtain h' where "pb_dec_bytes E f dst (h, s) = Some (True, h', advance_in (length bs) s)"
      "load_u32 (mem h') dst = load_u32 m src" "mem_read (mem h') (dst + 4) (length xs) = xs"
      using dec_bytes_value [of xs s f E dst h] s st(1) by (auto simp: bs xs_def)
    then show ?thesis using lt by (auto simp: d xs_def)
  next
    assume lt: "PB_LTYPE (ftype f) = 7"
    define xs where "xs = c_string m src (unat (data_size f))"
    have bs: "bs = string_bytes xs" using lt v st(1) by (simp add: d xs_def)
    have "length xs + 1 \<le> unat (data_size f)" using fits lt by (simp add: value_fits_def xs_def)
    then obtain h' where "pb_dec_string E f dst (h, s) = Some (True, h', advance_in (length bs) s)"
      "c_string (mem h') dst (unat (data_size f)) = xs"
      using dec_string_value [of xs s f dst E h] s st(1) p c_string_nonzero [of m src] by (auto simp: bs xs_def)
    then show ?thesis using lt xs_def by (auto simp: d)
  next
    assume lt: "PB_LTYPE (ftype f) = 10"
    have "bs = string_bytes (mem_read m src (unat (data_size f)))" using lt v by (simp add: d)
    then show ?thesis
      using lt dec_fixed_length_value [of "mem_read m src (unat (data_size f))" s f dst h] s by (simp add: d)
  qed
qed

text \<open>
  A value that fits has an encoding, at most ten bytes longer than the field; the field encoders
  write it, and the field decoders read it.
\<close>

lemma length_string_bytes_le: "length (string_bytes bs) \<le> 10 + length bs"
  using length_varint_bytes [of "word_of_nat (length bs)"] by (simp add: string_bytes_def)

lemma field_value_type:
  "field_value m f src = Some v \<Longrightarrow>
     PB_LTYPE (ftype f) \<le> 5 \<or> PB_LTYPE (ftype f) = 6 \<or> PB_LTYPE (ftype f) = 7 \<or> PB_LTYPE (ftype f) = 10"
  by (auto simp: field_value_def Let_def u8_le_cases split: if_splits)

lemma value_bytes_of_value:
  assumes "field_value m f src = Some v" "PB_ATYPE (ftype f) = 0" "value_fits m f src" "src \<noteq> 0"
  shows "\<exists>bs. value_bytes m sub f src = Some bs \<and> length bs \<le> unat (data_size f) + 10"
proof -
  note d = value_bytes_def field_value_def value_fits_def Let_def
  have le: "length (varint_bytes x) \<le> n + 10" for x n using length_varint_bytes [of x] by simp
  have f: "length (fixed32_bytes x) \<le> n + 10" "length (fixed64_bytes y) \<le> n + 10" for x y n
    by (simp_all add: fixed32_bytes_def fixed64_bytes_def)
  have st: "length xs \<le> n \<Longrightarrow> length (string_bytes xs) \<le> n + 10" for xs n
    using length_string_bytes_le [of xs] by simp
  have "\<not> size_sub (unat (data_size f)) 4 < unat (load_u32 m src)" if "4 + unat (load_u32 m src) \<le> unat (data_size f)"
    using that u32_size [of "data_size f"] by (simp add: size_sub_small)
  then show ?thesis
    using assms(1-3) field_value_type [OF assms(1)] assms(4)
    by (auto simp: d le f st u8_le_cases)
qed

lemma field_encoder_wire:
  assumes "PB_LTYPE (ftype f) \<noteq> 8"
  shows "wire_encoder (PB_ENCODERS E enc (PB_LTYPE (ftype f)) f src) (value_bytes (e_mem E) sub f src)"
proof -
  have "PB_ENCODERS E enc (PB_LTYPE (ftype f)) f src = PB_ENCODERS E (\<lambda>_ _ _. None) (PB_LTYPE (ftype f)) f src"
    using assms by (intro ext) (simp add: PB_ENCODERS_def Let_def)
  moreover have "value_bytes (e_mem E) sub f src = value_bytes (e_mem E) (\<lambda>_ _. None) f src"
    using assms unfolding value_bytes_def Let_def by (simp only: if_False cong: if_cong)
  ultimately show ?thesis using wire_value [where sub = "\<lambda>_ _. None", OF wire_stuck] by metis
qed

lemma field_value_encoded:
  assumes "field_value (e_mem E) f src = Some v" "PB_ATYPE (ftype f) = 0" "value_fits (e_mem E) f src" "src \<noteq> 0"
    and "cap < SIZE_MOD"
  obtains bs where "value_bytes (e_mem E) (\<lambda>_ _. None) f src = Some bs" "length bs \<le> unat (data_size f) + 10"
    "\<And>s. PB_ENCODERS E enc (PB_LTYPE (ftype f)) f src (pb_ostream_from_buffer cap w) = Some (True, s) \<longleftrightarrow>
       length bs \<le> cap \<and> s = advance_out bs (pb_ostream_from_buffer cap w)"
proof -
  obtain bs where bs: "value_bytes (e_mem E) (\<lambda>_ _. None) f src = Some bs" "length bs \<le> unat (data_size f) + 10"
    using value_bytes_of_value [OF assms(1-4)] by blast
  have l: "length bs < SIZE_MOD" using bs(2) unsigned_less [of "data_size f", where ?'a = nat] by simp
  have "PB_LTYPE (ftype f) \<noteq> 8" using field_value_type [OF assms(1)] by auto
  note w = wire_encoder.succeeds_iff [OF field_encoder_wire [OF this, where sub = "\<lambda>_ _. None"] bs(1) l assms(5)]
  have "PB_ENCODERS E enc (PB_LTYPE (ftype f)) f src (pb_ostream_from_buffer cap w) = Some (True, s) \<longleftrightarrow>
       length bs \<le> cap \<and> s = advance_out bs (pb_ostream_from_buffer cap w)" for s
    using w by fastforce
  with bs show ?thesis by (rule that)
qed

section \<open>Ranges\<close>

lemma unat_trunc_ext:
  "unat (ucast (ucast (v :: u64) :: u8) :: u64) = unat v mod 2 ^ 8"
  "unat (ucast (ucast (v :: u64) :: u16) :: u64) = unat v mod 2 ^ 16"
  "unat (ucast (ucast (v :: u64) :: u32) :: u64) = unat v mod 2 ^ 32"
  by (simp_all only: unsigned_ucast_eq take_bit_eq_mod) (simp_all add: unat_mod_distrib)

lemma unsigned_fits:
  "ucast (ucast (v :: u64) :: u8) = v \<longleftrightarrow> unat v < 2 ^ 8"
  "ucast (ucast (v :: u64) :: u16) = v \<longleftrightarrow> unat v < 2 ^ 16"
  "ucast (ucast (v :: u64) :: u32) = v \<longleftrightarrow> unat v < 2 ^ 32"
  unfolding word_unat_eq_iff unat_trunc_ext by (simp_all add: mod_eq_self_iff_div_eq_0 div_eq_0_iff)

lemma sint_trunc_ext:
  "sint (scast (ucast (v :: u64) :: u8) :: u64) = signed_take_bit 7 (sint v)"
  "sint (scast (ucast (v :: u64) :: u16) :: u64) = signed_take_bit 15 (sint v)"
  "sint (scast (ucast (v :: u64) :: u32) :: u64) = signed_take_bit 31 (sint v)"
  by (rule bit_eqI; auto simp: bit_simps min_def)+

lemma signed_fits:
  "scast (ucast (v :: u64) :: u8) = v \<longleftrightarrow> - (2 ^ 7) \<le> sint v \<and> sint v < 2 ^ 7"
  "scast (ucast (v :: u64) :: u16) = v \<longleftrightarrow> - (2 ^ 15) \<le> sint v \<and> sint v < 2 ^ 15"
  "scast (ucast (v :: u64) :: u32) = v \<longleftrightarrow> - (2 ^ 31) \<le> sint v \<and> sint v < 2 ^ 31"
proof -
  have e: "w = v \<longleftrightarrow> sint w = sint v" for w by (rule word_eq_iff_signed)
  show "scast (ucast v :: u8) = v \<longleftrightarrow> - (2 ^ 7) \<le> sint v \<and> sint v < 2 ^ 7"
    "scast (ucast v :: u16) = v \<longleftrightarrow> - (2 ^ 15) \<le> sint v \<and> sint v < 2 ^ 15"
    "scast (ucast v :: u32) = v \<longleftrightarrow> - (2 ^ 31) \<le> sint v \<and> sint v < 2 ^ 31"
    by (simp_all only: e sint_trunc_ext signed_take_bit_int_eq_self_iff)
qed

section \<open>Required fields\<close>

text \<open>Two words of flags: all of the first \<open>count\<close> bits are set, and nothing else is looked at.\<close>

definition seen_bit :: "u32 list \<Rightarrow> nat \<Rightarrow> bool" where
  "seen_bit seen i \<longleftrightarrow> bit (seen ! (i div 32)) (i mod 32)"

lemma bit_minus_1_u32 [simp]: "bit (- 1 :: u32) k \<longleftrightarrow> k < 32"
  by (simp add: bit_simps)

lemma low_bits_eq:
  "0 < k \<Longrightarrow> k \<le> 32 \<Longrightarrow> (w :: u32) = drop_bit (32 - k) (- 1) \<longleftrightarrow> (\<forall>i < 32. bit w i \<longleftrightarrow> i < k)"
  by (auto simp: bit_eq_iff bit_simps)

lemma all_required_seen_iff:
  assumes "count \<le> 64" "length seen = 2" "\<And>i. i < 64 \<Longrightarrow> seen_bit seen i \<Longrightarrow> i < count"
  shows "all_required_seen count seen \<longleftrightarrow> (\<forall>i < count. seen_bit seen i)"
proof -
  obtain a b where s: "seen = [a, b]"
    using assms(2) by (auto simp: numeral_2_eq_2 length_Suc_conv)
  have a: "bit a i \<Longrightarrow> i < 32 \<Longrightarrow> i < count" and b: "bit b i \<Longrightarrow> i < 32 \<Longrightarrow> i + 32 < count" for i
    using assms(3) [of i] assms(3) [of "i + 32"] by (simp_all add: seen_bit_def s)
  have full: "(w :: u32) = - 1 \<longleftrightarrow> (\<forall>i < 32. bit w i)" for w
    by (auto simp: bit_eq_iff)
  have all: "(\<forall>i < count. seen_bit seen i) \<longleftrightarrow> (\<forall>i < 32. i < count \<longrightarrow> bit a i) \<and> (\<forall>i < 32. i + 32 < count \<longrightarrow> bit b i)"
  proof (intro iffI conjI allI impI; (elim conjE)?)
    fix i assume "\<forall>i < count. seen_bit seen i" "i < 32" "i < count"
    then show "bit a i" by (auto simp: seen_bit_def s dest: spec [of _ i])
  next
    fix i assume "\<forall>i < count. seen_bit seen i" "i < 32" "i + 32 < count"
    then show "bit b i" by (auto simp: seen_bit_def s dest: spec [of _ "i + 32"])
  next
    fix i assume h: "\<forall>i < 32. i < count \<longrightarrow> bit a i" "\<forall>i < 32. i + 32 < count \<longrightarrow> bit b i" "i < count"
    show "seen_bit seen i"
    proof (cases "i < 32")
      case False
      then obtain j where "i = j + 32" by (metis add.commute le_iff_add not_less)
      then have "i div 32 = 1" "i mod 32 + 32 = i" using h(3) assms(1) by auto
      then show ?thesis using h(2,3) by (simp add: seen_bit_def s)
    qed (use h in \<open>simp add: seen_bit_def s\<close>)
  qed
  consider "count < 32" | "32 \<le> count" "count < 64" | "count = 64" using assms(1) by linarith
  then show ?thesis
  proof cases
    case 1
    then have "all_required_seen count seen \<longleftrightarrow> (count \<noteq> 0 \<longrightarrow> a = drop_bit (32 - count) (- 1))"
      by (simp add: all_required_seen_def s)
    then show ?thesis unfolding all using a 1 low_bits_eq [of count a] by (cases "count = 0") auto
  next
    case 2
    then obtain k where k: "count = k + 32" "k < 32" by (metis add.commute add_less_cancel_right le_iff_add numeral_Bit0)
    then have "all_required_seen count seen \<longleftrightarrow> a = - 1 \<and> (k \<noteq> 0 \<longrightarrow> b = drop_bit (32 - k) (- 1))"
      using div_add_self2 [of 32 k] by (simp add: all_required_seen_def s)
    moreover have "b = drop_bit (32 - k) (- 1) \<longleftrightarrow> (\<forall>i < 32. i < k \<longrightarrow> bit b i)" if "k \<noteq> 0"
      using low_bits_eq [of k b] that k b by auto
    ultimately show ?thesis unfolding all full using k by auto
  next
    case 3
    then have "all_required_seen count seen \<longleftrightarrow> a = - 1 \<and> b = - 1"
      by (simp add: all_required_seen_def s numeral_2_eq_2)
    then show ?thesis unfolding all full using 3 by simp
  qed
qed

lemma seek_end_at:
  assumes "desc_ok D d" "k < length (D d)"
  shows "seek_end D (iter_at D d base k) =
    (required_field_index (iter_at D d base (length (D d) - 1)), ftype (D d ! (length (D d) - 1)), iter_at D d base 0)"
  using assms(2)
proof (induction "length (D d) - k" arbitrary: k)
  case (Suc n)
  note fld = iter_at_field [OF assms(1) Suc.prems, of base]
  show ?case
  proof (cases "Suc k < length (D d)")
    case True
    then have "seek_end D (iter_at D d base k) = seek_end D (iter_at D d base (Suc k))"
      using iter_at_next [OF assms(1) Suc.prems, of base] by (subst seek_end.simps) (simp del: iter_at.simps)
    then show ?thesis using Suc.hyps True by (simp del: iter_at.simps)
  next
    case False
    then have k: "k = length (D d) - 1" using Suc.prems by simp
    show ?thesis
      using iter_at_next [OF assms(1) Suc.prems, of base] False fld
      by (subst seek_end.simps) (simp add: k [symmetric, unfolded One_nat_def] del: iter_at.simps)
  qed
qed simp

abbreviation (input) required_fields :: "descs \<Rightarrow> nat \<Rightarrow> pb_field list" where
  "required_fields D d \<equiv> filter (\<lambda>f. PB_HTYPE (ftype f) = PB_HTYPE_REQUIRED) (D d)"

lemma required_count_at:
  assumes "desc_ok D d" "k < length (D d)"
  shows "required_count D (iter_at D d base k) = min 64 (length (required_fields D d))"
proof -
  let ?n = "length (D d) - 1"
  have n: "?n < length (D d)" using assms(2) by linarith
  have "Suc ?n = length (D d)" using n by linarith
  then have split: "D d = take ?n (D d) @ [D d ! ?n]"
    using take_Suc_conv_app_nth [OF n] by simp
  have "length (required_fields D d) = length (filter (\<lambda>f. PB_HTYPE (ftype f) = 0) (take ?n (D d) @ [D d ! ?n]))"
    by (rule arg_cong [OF split])
  then have "length (required_fields D d) = length (filter (\<lambda>f. PB_HTYPE (ftype f) = 0) (take ?n (D d))) +
      (if PB_HTYPE (ftype (D d ! ?n)) = 0 then 1 else 0)"
    by (simp del: append_take_drop_id)
  moreover have "0 < length (D d)" using assms(2) by linarith
  then have "ftag (iter_field D (iter_at D d base 0)) \<noteq> 0"
    using iter_at_field [OF assms(1), of 0 base] assms(1) by (simp add: desc_ok_def list_all_length del: iter_at.simps)
  ultimately show ?thesis
    using iter_at_required [OF assms(1) n, of base]
    by (simp add: required_count_def seek_end_at [OF assms] del: iter_at.simps)
qed

section \<open>Allocation\<close>

text \<open>The overflow check of \<open>allocate_field\<close> is exact.\<close>

lemma alloc_check_exact:
  assumes "0 < dsize" "0 < asize" "dsize < SIZE_MOD" "asize < SIZE_MOD"
  shows "((2 ^ 32 \<le> dsize \<or> 2 ^ 32 \<le> asize) \<and> (SIZE_MOD - 1) div asize < dsize) \<longleftrightarrow> SIZE_MOD \<le> asize * dsize"
proof -
  have d: "(SIZE_MOD - 1) div asize < dsize \<longleftrightarrow> SIZE_MOD - 1 < dsize * asize"
    using assms(2) by (rule div_less_iff_less_mult)
  have small: "asize * dsize < SIZE_MOD" if "dsize < 2 ^ 32" "asize < 2 ^ 32"
  proof -
    have "asize * dsize < 2 ^ 32 * 2 ^ 32" using that assms by (intro mult_strict_mono) simp_all
    then show ?thesis by simp
  qed
  have "2 ^ 32 \<le> dsize \<or> 2 ^ 32 \<le> asize" if "SIZE_MOD \<le> asize * dsize"
  proof (rule ccontr)
    assume "\<not> (2 ^ 32 \<le> dsize \<or> 2 ^ 32 \<le> asize)"
    then have "asize * dsize < SIZE_MOD" by (intro small) simp_all
    then show False using that by linarith
  qed
  then show ?thesis unfolding d by (auto simp: mult.commute)
qed

section \<open>A sample environment\<close>

definition sample_dec_env :: "unit dec_env" where
  "sample_dec_env =
     \<lparr>d_descs = sample_descs, d_place = (\<lambda>_ _ _. 0), d_callback = (\<lambda>_ s _ _ h. (False, h, s)),
      d_ext_type = (\<lambda>_. \<lparr>xd_decode = None, xd_arg = 0\<rparr>)\<rparr>"

definition sample_heap :: heap where
  "sample_heap = \<lparr>mem = (\<lambda>_. 0xAA), live = (\<lambda>_. None)\<rparr>"

definition sample_extent :: "nat \<Rightarrow> int" where
  "sample_extent d = (if d = 0 then 20 else if d = 1 then 4 else 1)"

definition sample_rank :: "nat \<Rightarrow> nat" where
  "sample_rank d = (if d = 0 then 1 else 0)"

lemma sample_dec_callbacks: "dec_callbacks_ok sample_dec_env"
  by (auto simp: dec_callbacks_ok_def sample_dec_env_def intro!: readerI)

lemma sample_layout: "layout_ok (d_descs sample_dec_env) sample_extent"
  unfolding layout_ok_def
proof
  fix d :: nat
  consider "d = 0" | "d = 1" | "d \<noteq> 0" "d \<noteq> 1" by blast
  then show "struct_fits (d_descs sample_dec_env) sample_extent d"
  proof cases
    case 1
    have "struct_fits sample_descs sample_extent 0" by code_simp
    then show ?thesis using 1 by (simp add: sample_dec_env_def)
  next
    case 2
    have "struct_fits sample_descs sample_extent 1" by code_simp
    then show ?thesis using 2 by (simp add: sample_dec_env_def)
  next
    case 3
    then show ?thesis by (simp add: sample_dec_env_def sample_descs_def sample_extent_def struct_fits_def desc_ok_def)
  qed
qed

lemma sample_decodable: "decodable sample_rank (d_descs sample_dec_env)"
  by (simp add: decodable_def sample_dec_env_def sample_descs_def sample_rank_def decodable_field_def PB_LTYPE_def)

lemma sample_decode_returns:
  obtains ok h' s' where
    "pb_decode 14 sample_dec_env 0 1000 (sample_heap, pb_istream_from_buffer sample_bytes 11 ()) = Some (ok, h', s')"
proof -
  have "pb_decode 14 sample_dec_env 0 1000 (sample_heap, pb_istream_from_buffer sample_bytes 11 ()) \<noteq> None"
    by (rule pb_decode_total [OF sample_layout sample_decodable sample_dec_callbacks])
      (simp_all add: pb_istream_from_buffer_def buf_stream_def sample_length sample_rank_def)
  then show ?thesis using that by auto
qed

section \<open>Properties\<close>

text \<open>
  C2: \<open>pb_decode\<close> of any buffer, well formed or not, changes no byte of memory outside the
  destination structure, and no heap block, for message types whose fields are all statically
  allocated and lie inside their structure. Lengths, counts, array indices and tags in the input
  cannot make it write elsewhere.
\<close>
theorem pb_decode_writes_inside:
  assumes "layout_ok (d_descs E) sz" "0 < dest"
    and "pb_decode n E d dest (h, s) = Some (ok, h', s')"
  shows "live h' = live h \<and> (\<forall>x. 0 \<le> x \<and> (x < dest \<or> dest + sz d \<le> x) \<longrightarrow> mem h' x = mem h x)"
  using confinedD [OF pb_decode_frame [OF assms(1,2)] assms(3)] unfolding frame_def by blast

theorem pb_decode_writes_inside_witness:
  "\<exists>ok h' s'. pb_decode 14 sample_dec_env 0 1000 (sample_heap, pb_istream_from_buffer sample_bytes 11 ()) =
     Some (ok, h', s') \<and> mem h' 999 = 0xAA \<and> mem h' 1020 = 0xAA"
proof -
  obtain ok h' s' where r: "pb_decode 14 sample_dec_env 0 1000 (sample_heap, pb_istream_from_buffer sample_bytes 11 ()) =
      Some (ok, h', s')" by (rule sample_decode_returns)
  then show ?thesis
    using pb_decode_writes_inside [OF sample_layout _ r] by (simp add: sample_extent_def sample_heap_def)
qed

text \<open>
  C3: \<open>pb_decode\<close> on a buffer of \<open>n\<close> bytes never reads past them: afterwards the read pointer
  and the count of bytes left still describe a part of the buffer, and after success they are
  exactly in step. This holds for all message types, with pointer, callback and extension
  fields, if the user's callbacks keep to their stream in the same way.
\<close>
theorem pb_decode_reads_inside:
  assumes "dec_callbacks_ok E" "n \<le> length buf"
    and "pb_decode fuel E d dest (h, pb_istream_from_buffer buf n u) = Some (ok, h', s')"
  shows "\<exists>k \<le> n. is_buf s' = drop k buf \<and> k + bytes_left s' \<le> n \<and> (ok \<longrightarrow> k + bytes_left s' = n)"
proof -
  note r = reader_pb_decode [OF assms(1), of fuel d dest]
  show ?thesis
  proof (cases ok)
    case True
    then show ?thesis using stream_reader.success_exact [OF r _ assms(2)] assms(3) by fastforce
  next
    case False
    obtain k where "is_buf s' = drop k buf" "k + bytes_left s' \<le> n"
      using stream_reader.never_past_end [OF r assms(3,2)] by blast
    then show ?thesis using False by (intro exI [of _ k]) simp
  qed
qed

theorem pb_decode_reads_inside_witness:
  "\<exists>ok h' s' k. pb_decode 14 sample_dec_env 0 1000 (sample_heap, pb_istream_from_buffer sample_bytes 11 ()) =
     Some (ok, h', s') \<and> k \<le> 11 \<and> is_buf s' = drop k sample_bytes"
proof -
  obtain ok h' s' where r: "pb_decode 14 sample_dec_env 0 1000 (sample_heap, pb_istream_from_buffer sample_bytes 11 ()) =
      Some (ok, h', s')" by (rule sample_decode_returns)
  then show ?thesis
    using pb_decode_reads_inside [OF sample_dec_callbacks _ r] by (auto simp: sample_length)
qed

text \<open>
  C4: \<open>pb_decode\<close> returns on every buffer, for statically allocated message types that nest only
  downwards in some rank: the field loop, the packed array loops and the recursion into
  submessages all end. A fuel of the number of bytes plus the rank plus two is enough.
\<close>
theorem pb_decode_returns:
  assumes "layout_ok (d_descs E) sz" "decodable rank (d_descs E)" "dec_callbacks_ok E"
    and "n \<le> length buf" "n + rank d + 2 \<le> fuel"
  shows "\<exists>ok h' s'. pb_decode fuel E d dest (h, pb_istream_from_buffer buf n u) = Some (ok, h', s')"
  using pb_decode_total [OF assms(1-3), of "pb_istream_from_buffer buf n u" d fuel dest h] assms(4,5)
  by (auto simp: pb_istream_from_buffer_def buf_stream_def)

theorem pb_decode_returns_witness:
  "\<exists>ok h' s'. pb_decode 9 sample_dec_env 0 1000 (sample_heap, pb_istream_from_buffer [0x08, 0x96, 0xFF, 0x12] 4 ()) =
     Some (ok, h', s')"
  by (rule pb_decode_returns [OF sample_layout sample_decodable sample_dec_callbacks]) (simp_all add: sample_rank_def)

text \<open>
  C5: A static scalar, string or bytes field is written by its encoder in the table
  \<open>PB_ENCODERS\<close> and read back by its decoder in \<open>PB_DECODERS\<close>. The encoder succeeds in every
  buffer that has ten bytes more than the field, and whenever it succeeds, in a smaller buffer too,
  the decoder at any other address consumes exactly the bytes written, succeeds, and the field it
  has stored holds the same value. A bytes field must be within its size and a string must be
  terminated inside its array (\<open>value_fits\<close>).
\<close>
theorem field_value_roundtrip:
  assumes "field_value (e_mem E) f src = Some v" "PB_ATYPE (ftype f) = 0" "value_fits (e_mem E) f src" "src \<noteq> 0"
    and "cap < SIZE_MOD" "dst \<noteq> 0"
  shows "(unat (data_size f) + 10 \<le> cap \<longrightarrow>
      (\<exists>s. PB_ENCODERS E enc (PB_LTYPE (ftype f)) f src (pb_ostream_from_buffer cap w) = Some (True, s))) \<and>
    (\<forall>s. PB_ENCODERS E enc (PB_LTYPE (ftype f)) f src (pb_ostream_from_buffer cap w) = Some (True, s) \<longrightarrow>
      (\<exists>h'. PB_DECODERS n D noinit (PB_LTYPE (ftype f)) f dst
          (h, pb_istream_from_buffer (obuf s @ rest) (bytes_written s + length rest) u) =
            Some (True, h', pb_istream_from_buffer rest (length rest) u) \<and>
        field_value (mem h') f dst = Some v))"
proof -
  obtain bs where bs: "value_bytes (e_mem E) (\<lambda>_ _. None) f src = Some bs" "length bs \<le> unat (data_size f) + 10"
    "\<And>s. PB_ENCODERS E enc (PB_LTYPE (ftype f)) f src (pb_ostream_from_buffer cap w) = Some (True, s) \<longleftrightarrow>
       length bs \<le> cap \<and> s = advance_out bs (pb_ostream_from_buffer cap w)"
    using field_value_encoded [OF assms(1-5)] by blast
  let ?s = "pb_istream_from_buffer (bs @ rest) (length bs + length rest) u"
  have s: "starts_with bs ?s" "advance_in (length bs) ?s = pb_istream_from_buffer rest (length rest) u"
    by (simp_all add: starts_with_def pb_istream_from_buffer_def buf_stream_def advance_in_def)
  have "\<exists>h'. PB_DECODERS n D noinit (PB_LTYPE (ftype f)) f dst (h, ?s) =
      Some (True, h', pb_istream_from_buffer rest (length rest) u) \<and> field_value (mem h') f dst = Some v"
    using field_value_type [OF assms(1)] scalar_roundtrip [OF bs(1) _ s(1)]
      string_roundtrip [OF bs(1) assms(2) _ assms(3,4,6) s(1)] assms(1) s(2) by metis
  then show ?thesis using bs(2,3) by auto
qed

definition sample_string_field :: pb_field where
  "sample_string_field =
     \<lparr>ftag = 2, ftype = 0x07, data_offset = 0, size_offset = 0, data_size = 8, array_size = 0, fptr = PNull\<rparr>"

theorem field_value_roundtrip_witness:
  "\<exists>s h'. PB_ENCODERS (sample_env\<lparr>e_mem := mem_write (\<lambda>_. 0) 1000 [0x68, 0x69]\<rparr>) (\<lambda>_ _ _. None) 7 sample_string_field 1000
      (pb_ostream_from_buffer 20 ()) = Some (True, s) \<and>
    PB_DECODERS 0 sample_dec_env (\<lambda>_ _ _. None) 7 sample_string_field 2000
      (sample_heap, pb_istream_from_buffer (obuf s @ [0xFF]) (bytes_written s + length [0xFF :: u8]) ()) =
        Some (True, h', pb_istream_from_buffer [0xFF] (length [0xFF :: u8]) ()) \<and>
    field_value (mem h') sample_string_field 2000 = Some (FBytes [0x68, 0x69])"
proof -
  let ?E = "sample_env\<lparr>e_mem := mem_write (\<lambda>_. 0) 1000 [0x68, 0x69]\<rparr>"
  have v: "field_value (e_mem ?E) sample_string_field 1000 = Some (FBytes [0x68, 0x69])"
    and f: "value_fits (e_mem ?E) sample_string_field 1000"
    and a: "PB_ATYPE (ftype sample_string_field) = 0" and l: "PB_LTYPE (ftype sample_string_field) = 7"
    and z: "unat (data_size sample_string_field) + 10 \<le> 20"
    by code_simp+
  have p: "(1000 :: int) \<noteq> 0" "20 < SIZE_MOD" "(2000 :: int) \<noteq> 0" by simp_all
  note t = field_value_roundtrip [OF v a f p, of "\<lambda>_ _ _. None" "()" 0 sample_dec_env "\<lambda>_ _ _. None" sample_heap "[0xFF]" "()",
      unfolded l]
  then show ?thesis using z by meson
qed

text \<open>
  C10: The check for required fields at the end of \<open>pb_decode_noinit\<close> is exact: with the flags of
  no other fields set, it passes if and only if every one of the first 64 required fields of the
  message type has been seen.
\<close>
theorem required_check_exact:
  assumes "desc_ok D d" "k < length (D d)" "length seen = 2"
    and "\<And>i. i < 64 \<Longrightarrow> seen_bit seen i \<Longrightarrow> i < length (required_fields D d)"
  shows "all_required_seen (required_count D (iter_at D d base k)) seen \<longleftrightarrow>
    (\<forall>i < min 64 (length (required_fields D d)). seen_bit seen i)"
  unfolding required_count_at [OF assms(1,2)]
  by (rule all_required_seen_iff) (use assms(3,4) in auto)

theorem required_check_exact_witness:
  "\<not> all_required_seen (required_count sample_descs (iter_at sample_descs 0 1000 1)) [1, 0]"
proof -
  have "\<not> (\<forall>i < min 64 (length (required_fields sample_descs 0)). seen_bit [1, 0] i)"
    by code_simp
  moreover have "i < length (required_fields sample_descs 0)" if "i < 64" "seen_bit [1, 0] i" for i
  proof -
    have "length (required_fields sample_descs 0) = 2" by code_simp
    moreover have "i div 32 = 0 \<or> i div 32 = 1" using that(1) by linarith
    then have "i = 0" using that by (auto simp: seen_bit_def bit_1_iff)
    ultimately show ?thesis by simp
  qed
  ultimately show ?thesis
    using required_check_exact [of sample_descs 0 1 "[1, 0]" 1000] by (simp add: desc_ok_def sample_descs_def)
qed

text \<open>
  C11: \<open>allocate_field\<close> never passes a wrapped size to the allocator: for sizes that are not
  zero it refuses a request with "size too large" exactly when the product of the two sizes does
  not fit into 64 bits.
\<close>
theorem allocate_field_no_wrap:
  assumes "0 < dsize" "0 < asize" "dsize < SIZE_MOD" "asize < SIZE_MOD"
  shows "allocate_field E p dsize asize (h, s) =
    (if SIZE_MOD \<le> asize * dsize then Some (i_error h s ''size too large'')
     else (case pb_realloc E h (load_ptr (mem h) p) (asize * dsize) of
             None \<Rightarrow> None
           | Some (q, h') \<Rightarrow> if q = 0 then Some (i_error h' s ''realloc failed'')
                            else Some (True, h'\<lparr>mem := store_ptr (mem h') p q\<rparr>, s)))"
proof (cases "SIZE_MOD \<le> asize * dsize")
  case True
  then show ?thesis
    using alloc_check_exact [OF assms] assms(1,2) unfolding allocate_field_def Let_def prod.case by (simp only: if_True) simp
next
  case False
  then have "asize * dsize mod SIZE_MOD = asize * dsize" by (simp only: mod_less not_le)
  then show ?thesis
    using alloc_check_exact [OF assms] assms(1,2) False unfolding allocate_field_def Let_def prod.case
    by (simp only: if_False) simp
qed

theorem allocate_field_no_wrap_witness:
  "allocate_field sample_dec_env 1000 (2 ^ 33) (2 ^ 31) (sample_heap, pb_istream_from_buffer [] 0 ()) =
     Some (i_error sample_heap (pb_istream_from_buffer [] 0 ()) ''size too large'')"
  by (subst allocate_field_no_wrap) simp_all

text \<open>The values that unsigned and signed integer fields accept.\<close>

lemma pb_dec_uvarint_range:
  assumes "data_size f \<in> {1, 2, 4, 8}"
    and "pb_dec_uvarint f p (h, pb_istream_from_buffer (varint_bytes v @ rest) (length (varint_bytes v @ rest)) u) =
      (ok, h', s')"
  shows "(ok \<longleftrightarrow> unat v < 2 ^ (8 * unat (data_size f))) \<and>
    (if ok then load_unsigned (mem h') (data_size f) p = Some v \<and> is_buf s' = rest
     else ierrmsg s' = Some ''integer too large'')"
proof -
  let ?s = "pb_istream_from_buffer (varint_bytes v @ rest) (length (varint_bytes v @ rest)) u"
  have "starts_with (varint_bytes v) ?s"
    by (simp add: starts_with_def pb_istream_from_buffer_def buf_stream_def)
  note rd = pb_decode_varint_bytes [OF starts_with_varint [OF this]]
  have v64: "unat v < 2 ^ 64" using unsigned_less [of v, where ?'a = nat] by simp
  have "data_size f = 1 \<or> data_size f = 2 \<or> data_size f = 4 \<or> data_size f = 8" using assms(1) by simp
  then show ?thesis
    using assms(2) v64 rd unsigned_fits [of v]
    by (elim disjE) (auto simp: pb_dec_uvarint_def store_unsigned_def store_checked_def i_error_def
        load_unsigned_def set_ierror_def PB_SET_ERROR_def pb_istream_from_buffer_def advance_in_def split: if_splits)
qed

lemma pb_dec_svarint_range:
  assumes "data_size f \<in> {1, 2, 4, 8}"
    and "pb_dec_svarint f p (h, pb_istream_from_buffer (varint_bytes (zigzag v) @ rest) (length (varint_bytes (zigzag v) @ rest)) u) =
      (ok, h', s')"
  shows "(ok \<longleftrightarrow> - (2 ^ (8 * unat (data_size f) - 1)) \<le> sint v \<and> sint v < 2 ^ (8 * unat (data_size f) - 1)) \<and>
    (if ok then load_signed (mem h') (data_size f) p = Some v \<and> is_buf s' = rest
     else ierrmsg s' = Some ''integer too large'')"
proof -
  let ?s = "pb_istream_from_buffer (varint_bytes (zigzag v) @ rest) (length (varint_bytes (zigzag v) @ rest)) u"
  have "starts_with (varint_bytes (zigzag v)) ?s"
    by (simp add: starts_with_def pb_istream_from_buffer_def buf_stream_def)
  note rd = pb_decode_svarint_bytes [OF starts_with_varint [OF this]]
  have v64: "- (2 ^ 63) \<le> sint v" "sint v < 2 ^ 63" using sint_range_size [of v] by (simp_all add: word_size)
  have "data_size f = 1 \<or> data_size f = 2 \<or> data_size f = 4 \<or> data_size f = 8" using assms(1) by simp
  then show ?thesis
    using assms(2) v64 rd signed_fits [of v]
    by (elim disjE) (auto simp: pb_dec_svarint_def store_signed_def store_checked_def i_error_def
        load_signed_def set_ierror_def PB_SET_ERROR_def pb_istream_from_buffer_def advance_in_def split: if_splits)
qed

text \<open>
  C12: Integer fields store exactly the values of their width: \<open>pb_dec_uvarint\<close> accepts
  a varint if and only if the value is below two to the number of bits of the field,
  \<open>pb_dec_svarint\<close> accepts a zigzag varint if and only if the value is in the two's complement range of the field,
  and what they have stored then is that value. Values that do not fit are reported, not truncated.
\<close>
theorem pb_dec_varint_range:
  assumes "data_size f \<in> {1, 2, 4, 8}"
  shows "(\<forall>ok h' s'. pb_dec_uvarint f p (h, pb_istream_from_buffer (varint_bytes v @ rest) (length (varint_bytes v @ rest)) u) =
      (ok, h', s') \<longrightarrow> (ok \<longleftrightarrow> unat v < 2 ^ (8 * unat (data_size f))) \<and>
      (if ok then load_unsigned (mem h') (data_size f) p = Some v \<and> is_buf s' = rest
       else ierrmsg s' = Some ''integer too large'')) \<and>
    (\<forall>ok h' s'. pb_dec_svarint f p (h, pb_istream_from_buffer (varint_bytes (zigzag v) @ rest) (length (varint_bytes (zigzag v) @ rest)) u) =
      (ok, h', s') \<longrightarrow> (ok \<longleftrightarrow> - (2 ^ (8 * unat (data_size f) - 1)) \<le> sint v \<and> sint v < 2 ^ (8 * unat (data_size f) - 1)) \<and>
      (if ok then load_signed (mem h') (data_size f) p = Some v \<and> is_buf s' = rest
       else ierrmsg s' = Some ''integer too large''))"
  using pb_dec_uvarint_range [OF assms, of p h v rest u] pb_dec_svarint_range [OF assms, of p h v rest u] by blast

theorem pb_dec_varint_range_witness:
  "ierrmsg (snd (snd (pb_dec_uvarint (sample_string_field\<lparr>data_size := 1\<rparr>) 1000
     (sample_heap, pb_istream_from_buffer (varint_bytes 300 @ []) (length (varint_bytes 300 @ [])) ())))) =
   Some ''integer too large''"
proof -
  obtain ok h' s' where r: "pb_dec_uvarint (sample_string_field\<lparr>data_size := 1\<rparr>) 1000
     (sample_heap, pb_istream_from_buffer (varint_bytes 300 @ []) (length (varint_bytes 300 @ [])) ()) = (ok, h', s')"
    by (rule prod_cases3)
  have "data_size (sample_string_field\<lparr>data_size := 1\<rparr>) \<in> {1, 2, 4, 8}" by simp
  from pb_dec_varint_range [OF this, of 1000 sample_heap 300 "[]" "()"] r show ?thesis by (auto split: if_splits)
qed

section \<open>Where the code does not do what it means to\<close>

text \<open>
  The last field of a message is the last one to be set to its default. A fixed-count array has
  no count member, so its size offset is 0 and \<open>pSize\<close> is the address of the data.
\<close>

lemma seq_loop_last:
  "seq_loop (\<lambda>x h. map_option (Pair True) (F x h)) (xs @ [y]) h = Some (b, h') \<Longrightarrow> \<exists>h1. F y h1 = Some h'"
  by (induction xs arbitrary: h) (auto simp: and_then_opt_def split: option.splits prod.splits if_splits)

lemma message_defaults_last:
  assumes "desc_ok (d_descs E) d" "d_descs E d = fs @ [f]" "message_defaults E F d p h = Some h'"
  shows "\<exists>h1. F (iter_at (d_descs E) d p (length fs)) h1 = Some h'"
proof -
  have l: "0 < length (d_descs E d)" "[0..<length (d_descs E d)] = [0..<length fs] @ [length fs]"
    using assms(2) by simp_all
  have "map_option snd (iter_loop (d_descs E) (\<lambda>it h. map_option (Pair True) (F it h)) (iter_at (d_descs E) d p 0) h) =
      Some h'"
    using assms(3) l(1) iter_at_begin [OF assms(1), of p] by (auto simp: message_defaults_def simp del: iter_at.simps)
  then show ?thesis
    unfolding iter_loop_seq [OF assms(1) l(1)] l(2) using seq_loop_last by fastforce
qed

lemma field_offset_nonneg: "0 \<le> field_offset D d k"
  by (induction k) (simp_all add: field_span_def)

lemma fixed_count_address:
  assumes "desc_ok D d" "k < length (D d)" "p \<noteq> 0" "PB_HTYPE (ftype (D d ! k)) = PB_HTYPE_REPEATED" "size_offset (D d ! k) = 0"
  shows "pSize (iter_at D d p k) = p + field_offset D d k"
  using iter_at_pSize [OF assms(1-3)] assms(2,4,5)
  by (cases k) (auto simp: in_union_def field_at_def)

text \<open>
  C40: Setting a statically allocated fixed-count array to its default stores a 32-bit zero at the
  address of the data, whatever the size of the array. So when such an array of fewer than four
  bytes is the last field of a message type, setting the defaults of the message, which
  always returns, clears the bytes after the array too: if the first of them was not zero, the
  call has written outside of a structure that ends with the array.
\<close>
theorem fixed_count_default_overrun:
  assumes "static_desc (d_descs E)" "decodable rank (d_descs E)" "rank d < n" "0 < p"
    and "d_descs E d = fs @ [f]" "PB_HTYPE (ftype f) = PB_HTYPE_REPEATED" "size_offset f = 0"
    and "field_offset (d_descs E) d (length fs) + int (unat (data_size f) * unat (array_size f)) = sz"
      "unat (data_size f) * unat (array_size f) < 4"
  shows "\<exists>h'. pb_message_set_to_defaults n E d p h = Some h' \<and>
    (\<forall>i < 4. mem h' (p + field_offset (d_descs E) d (length fs) + int i) = 0) \<and>
    (mem h (p + sz) \<noteq> 0 \<longrightarrow> \<not> frame p sz h h')"
proof -
  let ?D = "d_descs E" and ?q = "p + field_offset (d_descs E) d (length fs)"
  have ok: "desc_ok ?D d" using assms(1) by (simp add: static_desc_def)
  have k: "length fs < length (?D d)" "?D d ! length fs = f" using assms(5) by simp_all
  have "pb_message_set_to_defaults n E d p h \<noteq> None"
    unfolding pb_message_set_to_defaults_def
    by (rule message_defaults_total [OF ok]) (use field_default_total [OF assms(1,2)] assms(3) in blast)
  then obtain h' where h': "pb_message_set_to_defaults n E d p h = Some h'" by blast
  then obtain h1 where h1: "pb_field_set_to_default n E (iter_at ?D d p (length fs)) h1 = Some h'"
    using message_defaults_last [OF ok assms(5)] unfolding pb_message_set_to_defaults_def by blast
  obtain n' where n: "n = Suc n'" using assms(3) by (cases n) auto
  have st: "PB_ATYPE (ftype f) = 0" "PB_LTYPE (ftype f) \<noteq> 9"
    using static_field_at [OF assms(1), of d "length fs"] k by (simp_all add: field_at_def)
  have "pSize (iter_at ?D d p (length fs)) = ?q"
    using fixed_count_address [OF ok k(1), of p] assms(4,6,7) k(2) by simp
  then have "h' = h1\<lparr>mem := store_u32 (mem h1) ?q 0\<rparr>"
    using h1 st assms(6) iter_at_field [OF ok k(1), of p] k(2) unfolding n by (simp add: Let_def)
  moreover have "nat_to_le 4 0 = replicate 4 0" by code_simp
  ultimately have z: "mem h' (?q + int i) = 0" if "i < 4" for i
    using that by (simp add: store_u32_def mem_write_def)
  have "mem h' (p + sz) = 0" using z [OF assms(9)] assms(8) by (simp add: algebra_simps)
  moreover have "0 \<le> sz" using assms(8) field_offset_nonneg [of ?D d "length fs"] by linarith
  ultimately have "mem h (p + sz) \<noteq> 0 \<longrightarrow> \<not> frame p sz h h'"
    using assms(4) by (auto simp: frame_def intro!: exI [of _ "p + sz"])
  then show ?thesis using h' z by blast
qed

definition fixed_count_descs :: descs where
  "fixed_count_descs d =
     [\<lparr>ftag = 1, ftype = 0x20, data_offset = 0, size_offset = 0, data_size = 1, array_size = 1, fptr = PNull\<rparr>]"

text \<open>A message type with a single fixed-count array of one \<open>bool\<close>: the structure has one byte.\<close>
theorem fixed_count_default_overrun_witness:
  "\<exists>h'. pb_message_set_to_defaults 1 (sample_dec_env\<lparr>d_descs := fixed_count_descs\<rparr>) 0 1000 sample_heap = Some h' \<and>
     \<not> frame 1000 1 sample_heap h'"
proof -
  let ?E = "sample_dec_env\<lparr>d_descs := fixed_count_descs\<rparr>"
  have s: "static_desc (d_descs ?E)" "decodable (\<lambda>_. 0) (d_descs ?E)"
    by (simp_all add: static_desc_def desc_ok_def decodable_def decodable_field_def fixed_count_descs_def
        PB_ATYPE_def PB_LTYPE_def)
  have f: "d_descs ?E 0 = [] @ [hd (fixed_count_descs 0)]" by (simp add: fixed_count_descs_def)
  show ?thesis
    using fixed_count_default_overrun [OF s _ _ f, of 1 1000 1 sample_heap]
    by (auto simp: fixed_count_descs_def PB_HTYPE_def field_at_def sample_heap_def)
qed

text \<open>
  An empty message type is not skipped over as intended: a field with tag 0 and a nonzero wire
  type matches the terminator of the descriptor, which is then decoded as a required \<open>bool\<close> into
  the first byte of the structure.
\<close>
lemma empty_message_tag_zero:
  "map_option (\<lambda>(ok, h, s). (ok, mem h 1000, mem h 1001, bytes_left s))
     (pb_decode 14 (sample_dec_env\<lparr>d_descs := (\<lambda>_. [])\<rparr>) 0 1000
        (sample_heap, pb_istream_from_buffer [0x07, 0x01] 2 ())) =
   Some (True, 1, 0xAA, 0)"
  by code_simp

end
