(* ===== verification/Posix_Time.thy ===== *)
theory Posix_Time
  imports C_Prelude "HOL-Library.Signed_Division"
begin

text \<open>
  \<open>asn1/posix_time.c\<close> of BoringSSL: conversion between seconds since 1970 and calendar dates of
  the years 0 to 9999, in UTC. All intermediate values stay far inside \<open>int64_t\<close> because the
  date or the time is checked first, so they are integers here; the additions of
  \<open>OPENSSL_gmtime_adj\<close>, whose operands are not bounded, keep their overflow checks. Division in C
  rounds towards zero (\<open>sdiv\<close> and \<open>smod\<close>). The members of \<open>struct tm\<close> that the code does not set
  are left out.
\<close>

section \<open>Definitions\<close>

abbreviation (input) SECS_PER_HOUR :: int where "SECS_PER_HOUR \<equiv> 3600"
abbreviation (input) SECS_PER_DAY :: int where "SECS_PER_DAY \<equiv> 86400"
abbreviation (input) INT64_MAX :: int where "INT64_MAX \<equiv> 9223372036854775807"
abbreviation (input) INT64_MIN :: int where "INT64_MIN \<equiv> - 9223372036854775808"

record tm =
  tm_year :: int
  tm_mon :: int
  tm_mday :: int
  tm_hour :: int
  tm_min :: int
  tm_sec :: int

definition is_valid_date :: "int \<Rightarrow> int \<Rightarrow> int \<Rightarrow> bool" where
  "is_valid_date year month day =
     (if day < 1 \<or> month < 1 \<or> year < 0 \<or> 9999 < year then False
      else if month \<in> {1, 3, 5, 7, 8, 10, 12} then 0 < day \<and> day \<le> 31
      else if month \<in> {4, 6, 9, 11} then 0 < day \<and> day \<le> 30
      else if month = 2 then
        (if year smod 4 = 0 \<and> year smod 100 \<noteq> 0 \<or> year smod 400 = 0 then 0 < day \<and> day \<le> 29
         else 0 < day \<and> day \<le> 28)
      else False)"

definition is_valid_time :: "int \<Rightarrow> int \<Rightarrow> int \<Rightarrow> bool" where
  "is_valid_time hours minutes seconds \<longleftrightarrow>
     \<not> (hours < 0 \<or> minutes < 0 \<or> seconds < 0 \<or> 23 < hours \<or> 59 < minutes \<or> 59 < seconds)"

abbreviation (input) MIN_POSIX_TIME :: int where "MIN_POSIX_TIME \<equiv> - 62167219200"
abbreviation (input) MAX_POSIX_TIME :: int where "MAX_POSIX_TIME \<equiv> 253402300799"

definition is_valid_posix_time :: "int \<Rightarrow> bool" where
  "is_valid_posix_time time \<longleftrightarrow> MIN_POSIX_TIME \<le> time \<and> time \<le> MAX_POSIX_TIME"

definition posix_time_from_utc :: "int \<Rightarrow> int \<Rightarrow> int \<Rightarrow> int \<Rightarrow> int \<Rightarrow> int \<Rightarrow> int option" where
  "posix_time_from_utc year month day hours minutes seconds =
     (if \<not> is_valid_date year month day \<or> \<not> is_valid_time hours minutes seconds then None
      else
        let year = (if month \<le> 2 then year - 1 else year);
            era = (if 0 \<le> year then year else year - 399) sdiv 400;
            year_of_era = year - era * 400;
            day_of_year = (153 * (if 2 < month then month - 3 else month + 9) + 2) sdiv 5 + day - 1;
            day_of_era = year_of_era * 365 + year_of_era sdiv 4 - year_of_era sdiv 100 + day_of_year;
            posix_days = era * 146097 + day_of_era - 719468 in
        Some (posix_days * SECS_PER_DAY + hours * SECS_PER_HOUR + minutes * 60 + seconds))"

definition utc_from_posix_time :: "int \<Rightarrow> (int \<times> int \<times> int \<times> int \<times> int \<times> int) option" where
  "utc_from_posix_time time =
     (if \<not> is_valid_posix_time time then None
      else
        let days0 = time sdiv SECS_PER_DAY;
            left0 = time smod SECS_PER_DAY;
            days1 = (if left0 < 0 then days0 - 1 else days0);
            left = (if left0 < 0 then left0 + SECS_PER_DAY else left0);
            days = days1 + 719468;
            era = (if 0 < days then days else days - 146096) sdiv 146097;
            day_of_era = days - era * 146097;
            year_of_era = (day_of_era - day_of_era sdiv 1460 + day_of_era sdiv 36524 -
                           day_of_era sdiv 146096) sdiv 365;
            year = year_of_era + era * 400;
            day_of_year = day_of_era - (365 * year_of_era + year_of_era sdiv 4 - year_of_era sdiv 100);
            month_of_year = (5 * day_of_year + 2) sdiv 153;
            month = (if month_of_year < 10 then month_of_year + 3 else month_of_year - 9) in
        Some (if month \<le> 2 then year + 1 else year, month,
              day_of_year - (153 * month_of_year + 2) sdiv 5 + 1,
              left sdiv SECS_PER_HOUR, left smod SECS_PER_HOUR sdiv 60, left smod SECS_PER_HOUR smod 60))"

definition OPENSSL_tm_to_posix :: "tm \<Rightarrow> int option" where
  "OPENSSL_tm_to_posix t =
     posix_time_from_utc (tm_year t + 1900) (tm_mon t + 1) (tm_mday t) (tm_hour t) (tm_min t) (tm_sec t)"

definition OPENSSL_posix_to_tm :: "int \<Rightarrow> tm option" where
  "OPENSSL_posix_to_tm time =
     (case utc_from_posix_time time of
        None \<Rightarrow> None
      | Some (y, m, d, h, mi, s) \<Rightarrow>
          Some \<lparr>tm_year = y - 1900, tm_mon = m - 1, tm_mday = d, tm_hour = h, tm_min = mi, tm_sec = s\<rparr>)"

text \<open>\<open>time_t\<close> has 32 or 64 bits.\<close>

definition OPENSSL_timegm :: "bool \<Rightarrow> tm \<Rightarrow> int option" where
  "OPENSSL_timegm time32 t =
     (case OPENSSL_tm_to_posix t of
        None \<Rightarrow> None
      | Some posix_time \<Rightarrow>
          if time32 \<and> (2147483647 < posix_time \<or> posix_time < - 2147483648) then None else Some posix_time)"

definition OPENSSL_gmtime :: "int \<Rightarrow> tm option" where
  "OPENSSL_gmtime time = OPENSSL_posix_to_tm time"

definition OPENSSL_gmtime_adj :: "tm \<Rightarrow> int \<Rightarrow> int \<Rightarrow> tm option" where
  "OPENSSL_gmtime_adj t offset_day offset_sec =
     (case OPENSSL_tm_to_posix t of
        None \<Rightarrow> None
      | Some posix_time0 \<Rightarrow>
          let posix_time = posix_time0 + offset_day * SECS_PER_DAY in
          if 0 < posix_time \<and> INT64_MAX - posix_time < offset_sec then None
          else if posix_time < 0 \<and> offset_sec < INT64_MIN - posix_time then None
          else OPENSSL_posix_to_tm (posix_time + offset_sec))"

definition OPENSSL_gmtime_diff :: "tm \<Rightarrow> tm \<Rightarrow> (int \<times> int) option" where
  "OPENSSL_gmtime_diff from to =
     (case OPENSSL_tm_to_posix to of
        None \<Rightarrow> None
      | Some time_to \<Rightarrow>
          (case OPENSSL_tm_to_posix from of
             None \<Rightarrow> None
           | Some time_from \<Rightarrow>
               let timediff = time_to - time_from in
               Some (timediff sdiv SECS_PER_DAY, timediff smod SECS_PER_DAY)))"

section \<open>Truncated and floored division\<close>

lemma sdiv_nonneg: "0 \<le> a \<Longrightarrow> 0 < b \<Longrightarrow> a sdiv b = a div (b :: int)"
  by (simp add: signed_divide_int_def sgn_if)

lemma smod_nonneg: "0 \<le> a \<Longrightarrow> 0 < b \<Longrightarrow> a smod b = a mod (b :: int)"
  by (simp add: signed_modulo_int_def sgn_if)

lemma sdiv_floor_neg: "a < 0 \<Longrightarrow> 0 < b \<Longrightarrow> (a - (b - 1)) sdiv b = a div (b :: int)"
proof -
  assume a: "a < 0" "0 < b"
  have "(a - (b - 1)) sdiv b = - ((b - 1 - a) div b)"
    using a by (simp add: signed_divide_int_def sgn_if)
  also have "(b - 1 - a) div b = - (a div b)"
  proof -
    have "a = b * (a div b) + a mod b" by simp
    moreover have "0 \<le> a mod b" "a mod b < b" using a(2) by simp_all
    ultimately have "b - 1 - a = b * (- (a div b)) + (b - 1 - a mod b)" "0 \<le> b - 1 - a mod b" "b - 1 - a mod b < b"
      by (simp_all add: algebra_simps)
    then show ?thesis by (metis div_pos_pos_trivial div_mult_self4 a(2) add.commute add_0_right less_irrefl)
  qed
  finally show ?thesis by simp
qed

lemma floor_split:
  assumes b: "0 < (b :: int)"
  shows "(if a smod b < 0 then a sdiv b - 1 else a sdiv b) = a div b" (is ?D)
    and "(if a smod b < 0 then a smod b + b else a smod b) = a mod b" (is ?M)
proof -
  have "?D \<and> ?M"
  proof (cases "0 \<le> a")
    case True
    then show ?thesis using b by (simp add: sdiv_nonneg smod_nonneg not_less)
  next
    case False
    then have e: "a sdiv b = - (- a div b)" "a smod b = - (- a mod b)"
      using b by (simp_all add: signed_divide_int_def signed_modulo_int_def sgn_if)
    have m: "0 \<le> - a mod b" using b by simp
    show ?thesis
    proof (cases "- a mod b = 0")
      case True
      then show ?thesis unfolding e
        using zdiv_zminus1_eq_if [of b "- a"] zmod_zminus1_eq_if [of "- a" b] b by simp
    next
      case False
      with m have "- (- a mod b) < 0" by simp
      with False show ?thesis unfolding e
        using zdiv_zminus1_eq_if [of b "- a"] zmod_zminus1_eq_if [of "- a" b] b by simp
    qed
  qed
  then show ?D ?M by blast+
qed

lemma div_eqI: "b * k \<le> a \<Longrightarrow> a < b * k + b \<Longrightarrow> a div b = (k :: int)"
  by (rule int_div_pos_eq [of _ _ _ "a - b * k"]) simp_all

section \<open>Years that start in March\<close>

text \<open>
  The position of a day in its 400-year era: \<open>march_start y\<close> days of the era precede year
  \<open>y\<close>, and a year that ends in a February of 29 days has 366 days.
\<close>

definition march_start :: "int \<Rightarrow> int" where
  "march_start y = 365 * y + y div 4 - y div 100"

definition march_days :: "int \<Rightarrow> int" where
  "march_days y = (if (y + 1) mod 4 = 0 \<and> (y + 1) mod 100 \<noteq> 0 \<or> (y + 1) mod 400 = 0 then 366 else 365)"

definition in_era :: "int \<Rightarrow> int \<Rightarrow> bool" where
  "in_era y d \<longleftrightarrow> 0 \<le> y \<and> y \<le> 399 \<and> 0 \<le> d \<and> d < march_days y"

lemma year_digits:
  assumes "0 \<le> y" "y \<le> (399 :: int)"
  obtains c q r where "y = 100 * c + 4 * q + r" "0 \<le> c" "c \<le> 3" "0 \<le> q" "q \<le> 24" "0 \<le> r" "r \<le> 3"
proof -
  define c where "c = y div 100"
  define q where "q = (y - 100 * c) div 4"
  define r where "r = y - 100 * c - 4 * q"
  have c: "100 * c \<le> y" "y < 100 * c + 100" unfolding c_def by linarith+
  have q: "4 * q \<le> y - 100 * c" "y - 100 * c < 4 * q + 4" unfolding q_def by linarith+
  show thesis by (rule that [of c q r]) (use c q assms in \<open>auto simp: r_def\<close>)
qed

lemma march_digits:
  assumes "0 \<le> c" "c \<le> 3" "0 \<le> q" "q \<le> 24" "0 \<le> r" "r \<le> (3 :: int)"
  shows "march_start (100 * c + 4 * q + r) = 36524 * c + 1461 * q + 365 * r"
    and "march_days (100 * c + 4 * q + r) = (if r = 3 \<and> (q \<noteq> 24 \<or> c = 3) then 366 else 365)"
proof -
  have "(100 * c + 4 * q + r) div 4 = 25 * c + q" "(100 * c + 4 * q + r) div 100 = c"
    using assms by (auto intro!: div_eqI)
  then show "march_start (100 * c + 4 * q + r) = 36524 * c + 1461 * q + 365 * r"
    by (simp add: march_start_def)
  have "(100 * c + 4 * q + r + 1) mod 4 = 0 \<longleftrightarrow> r = 3"
    using assms by presburger
  moreover have "(100 * c + 4 * q + r + 1) mod 100 = 0 \<longleftrightarrow> r = 3 \<and> q = 24"
  proof (cases "r = 3 \<and> q = 24")
    case False
    then have "4 * q + r + 1 < 100" using assms by linarith
    then have "(4 * q + r + 1 + 100 * c) mod 100 = 4 * q + r + 1"
      using assms by (simp only: mod_mult_self2) (simp add: mod_pos_pos_trivial)
    with False assms show ?thesis by (simp add: ac_simps)
  qed simp
  moreover have "(100 * c + 4 * q + r + 1) mod 400 = 0 \<longleftrightarrow> r = 3 \<and> q = 24 \<and> c = 3"
  proof (cases "r = 3 \<and> q = 24 \<and> c = 3")
    case False
    then have "100 * c + 4 * q + r + 1 < 400" using assms by linarith
    then have "(100 * c + 4 * q + r + 1) mod 400 = 100 * c + 4 * q + r + 1"
      using assms by (intro mod_pos_pos_trivial) simp_all
    with False assms show ?thesis by simp
  qed simp
  ultimately show "march_days (100 * c + 4 * q + r) = (if r = 3 \<and> (q \<noteq> 24 \<or> c = 3) then 366 else 365)"
    by (auto simp: march_days_def)
qed

lemma year_of_day_of_era:
  assumes "in_era y d" and e: "e = march_start y + d"
  shows "(e - e div 1460 + e div 36524 - e div 146096) div 365 = y"
proof -
  have y: "0 \<le> y" "y \<le> 399" and d: "0 \<le> d" "d < march_days y" using assms(1) by (auto simp: in_era_def)
  obtain c q r where y_eq: "y = 100 * c + 4 * q + r"
    and b: "0 \<le> c" "c \<le> 3" "0 \<le> q" "q \<le> 24" "0 \<le> r" "r \<le> 3"
    using year_digits [OF y] .
  have e_eq: "e = 36524 * c + 1461 * q + 365 * r + d" using march_digits(1) [OF b] e y_eq by simp
  have d_le: "d \<le> 364 \<or> d = 365 \<and> r = 3 \<and> (q \<noteq> 24 \<or> c = 3)"
    using d march_digits(2) [OF b] y_eq by (auto split: if_splits)
  have century: "e div 36524 - e div 146096 = c"
  proof (cases "e = 146096")
    case True
    then have "c = 3" using e_eq d_le b by linarith
    with True show ?thesis by simp
  next
    case False
    have "1461 * q + 365 * r + d < 36524" using False e_eq d_le b by linarith
    then have "e div 36524 = c" "e div 146096 = 0" using e_eq b d by (auto intro!: div_eqI)
    then show ?thesis by simp
  qed
  define k where "k = (if 24 * c + q + 365 * r + d < 1460 then 0 else 1 :: int)"
  have "e div 1460 = 25 * c + q + k"
    unfolding k_def using b d d_le e_eq by (auto intro!: div_eqI split: if_splits)
  with century have "e - e div 1460 + e div 36524 - e div 146096 = 365 * y + (d - k)"
    using e_eq y_eq by simp
  moreover have "0 \<le> d - k" "d - k < 365" unfolding k_def using b d d_le by (auto split: if_splits)
  ultimately show ?thesis by (auto intro!: div_eqI)
qed

lemma day_of_era_split:
  assumes "0 \<le> e" "e \<le> (146096 :: int)"
  obtains y d where "in_era y d" "e = march_start y + d"
proof -
  define c where "c = min 3 (e div 36524)"
  define e1 where "e1 = e - 36524 * c"
  have c: "0 \<le> c" "c \<le> 3" "0 \<le> e1" "e1 < 36524 \<or> c = 3 \<and> e1 = 36524"
    using assms unfolding c_def e1_def min_def by (simp_all split: if_split) (linarith+)?
  define q where "q = e1 div 1461"
  define e2 where "e2 = e1 - 1461 * q"
  have q: "0 \<le> q" "q \<le> 24" "0 \<le> e2" "e2 < 1461" "q = 24 \<Longrightarrow> c \<noteq> 3 \<Longrightarrow> e2 < 1460"
    using c unfolding q_def e2_def by linarith+
  define r where "r = min 3 (e2 div 365)"
  define d where "d = e2 - 365 * r"
  have r: "0 \<le> r" "r \<le> 3" "0 \<le> d" "d < 365 \<or> r = 3 \<and> d = 365 \<and> e2 = 1460"
    using q unfolding r_def d_def min_def by (simp_all split: if_split) (linarith+)?
  note digits = march_digits [OF c(1,2) q(1,2) r(1,2)]
  show thesis
  proof (rule that [of "100 * c + 4 * q + r" d])
    show "in_era (100 * c + 4 * q + r) d"
      unfolding in_era_def digits using c q r by auto
    show "e = march_start (100 * c + 4 * q + r) + d"
      unfolding digits using e1_def e2_def d_def by simp
  qed
qed

section \<open>Months\<close>

text \<open>Months are counted from March here (\<open>0\<close>) to February (\<open>11\<close>).\<close>

definition month_start :: "int \<Rightarrow> int" where
  "month_start m = (153 * m + 2) div 5"

definition month_days :: "int \<Rightarrow> int \<Rightarrow> int" where
  "month_days y m = (if m = 11 then march_days y - 337 else month_start (m + 1) - month_start m)"

lemma march_months:
  assumes "0 \<le> m" "m \<le> (11 :: int)"
  shows "m \<in> {0, 1, 2, 3, 4, 5, 6, 7, 8, 9, 10, 11}"
  using assms unfolding insert_iff empty_iff by presburger

lemma month_of_day_of_year:
  assumes m: "0 \<le> m" "m \<le> 11" and d: "1 \<le> day" "day \<le> month_days y m"
    and n: "n = month_start m + day - 1"
  shows "(5 * n + 2) div 153 = m" "0 \<le> n" "n < march_days y"
proof -
  have "march_days y \<le> 366" "365 \<le> march_days y" by (simp_all add: march_days_def)
  then show "(5 * n + 2) div 153 = m" "0 \<le> n" "n < march_days y"
    using march_months [OF m] d unfolding n
    by (auto simp: month_start_def month_days_def intro!: div_eqI)
qed

lemma day_of_year_split:
  assumes "0 \<le> n" "n < march_days y"
  obtains m day where "0 \<le> m" "m \<le> 11" "1 \<le> day" "day \<le> month_days y m" "n = month_start m + day - 1"
proof -
  define m where "m = (5 * n + 2) div 153"
  have le: "march_days y \<le> 366" by (simp add: march_days_def)
  have m: "0 \<le> m" "m \<le> 11" "153 * m \<le> 5 * n + 2" "5 * n + 2 < 153 * m + 153"
    using assms le unfolding m_def by linarith+
  show thesis
  proof (rule that [of m "n - month_start m + 1"])
    show "1 \<le> n - month_start m + 1" "n - month_start m + 1 \<le> month_days y m"
      using march_months [OF m(1,2)] m(3,4) assms(2)
      by (auto simp: month_start_def month_days_def)
  qed (use m in auto)
qed

lemma is_valid_date_march:
  assumes y: "0 \<le> year" "year \<le> 9999" and mo: "1 \<le> month" "month \<le> 12"
    and y': "y = (if month \<le> 2 then year - 1 else year)" and m: "m = (if 2 < month then month - 3 else month + 9)"
  shows "is_valid_date year month day \<longleftrightarrow> 1 \<le> day \<and> day \<le> month_days (y mod 400) m"
proof -
  have "month \<in> {1, 2, 3, 4, 5, 6, 7, 8, 9, 10, 11, 12}"
    using mo unfolding insert_iff empty_iff by presburger
  moreover have "march_days ((year - 1) mod 400) =
      (if year mod 4 = 0 \<and> year mod 100 \<noteq> 0 \<or> year mod 400 = 0 then 366 else 365)"
  proof -
    have "((year - 1) mod 400 + 1) mod k = year mod k" if "k dvd 400" for k :: int
    proof -
      have "((year - 1) mod 400 + 1) mod k = ((year - 1) mod 400 mod k + 1) mod k" by (simp add: mod_add_left_eq)
      also have "(year - 1) mod 400 mod k = (year - 1) mod k" using that by (rule mod_mod_cancel)
      finally show ?thesis by (simp add: mod_add_left_eq)
    qed
    then show ?thesis by (simp add: march_days_def)
  qed
  moreover have "year smod 4 = year mod 4" "year smod 100 = year mod 100" "year smod 400 = year mod 400"
    using y by (simp_all add: smod_nonneg)
  ultimately show ?thesis
    using y by (elim insertE emptyE) (auto simp: is_valid_date_def m y' month_days_def month_start_def)
qed

section \<open>Dates and seconds\<close>

text \<open>The number of days from 0000-03-01 to a date given by its year and month from March.\<close>

definition march_date :: "int \<Rightarrow> int \<Rightarrow> int \<Rightarrow> int" where
  "march_date y m day = y div 400 * 146097 + march_start (y mod 400) + month_start m + day - 1"

lemma is_valid_date_range:
  "is_valid_date year month day \<Longrightarrow> 0 \<le> year \<and> year \<le> 9999 \<and> 1 \<le> month \<and> month \<le> 12"
  by (auto simp: is_valid_date_def split: if_splits)

lemma from_utc_march:
  assumes v: "is_valid_date year month day" "is_valid_time h mi s"
    and y: "y = (if month \<le> 2 then year - 1 else year)" and m: "m = (if 2 < month then month - 3 else month + 9)"
  shows "posix_time_from_utc year month day h mi s =
    Some ((march_date y m day - 719468) * 86400 + h * 3600 + mi * 60 + s)"
proof -
  have r: "- 1 \<le> y" "0 \<le> m" using is_valid_date_range [OF v(1)] unfolding y m by auto
  have era: "(if 0 \<le> y then y else y - 399) sdiv 400 = y div 400"
    using sdiv_floor_neg [of y 400] by (auto simp: sdiv_nonneg)
  have yoe: "y - y div 400 * 400 = y mod 400" by (simp add: minus_div_mult_eq_mod)
  have doe: "(y mod 400) * 365 + (y mod 400) sdiv 4 - (y mod 400) sdiv 100 = march_start (y mod 400)"
    by (simp add: march_start_def sdiv_nonneg)
  have doy: "(153 * m + 2) sdiv 5 = month_start m" using r by (simp add: month_start_def sdiv_nonneg)
  show ?thesis
    unfolding posix_time_from_utc_def Let_def y [symmetric] m [symmetric] era yoe doe doy
    using v by (simp add: march_date_def)
qed

lemma from_posix_march:
  assumes t: "is_valid_posix_time t" "t = (march_date y m day - 719468) * 86400 + h * 3600 + mi * 60 + s"
    and m: "0 \<le> m" "m \<le> 11" and d: "1 \<le> day" "day \<le> month_days (y mod 400) m" and v: "is_valid_time h mi s"
  shows "utc_from_posix_time t =
    Some (if m < 10 then y else y + 1, if m < 10 then m + 3 else m - 9, day, h, mi, s)"
proof -
  define sec where "sec = h * 3600 + mi * 60 + s"
  define n where "n = month_start m + day - 1"
  have sec: "0 \<le> sec" "sec < 86400" "sec div 3600 = h" "sec mod 3600 div 60 = mi" "sec mod 3600 mod 60 = s"
  proof -
    have b: "0 \<le> h" "h \<le> 23" "0 \<le> mi" "mi \<le> 59" "0 \<le> s" "s \<le> 59" using v by (auto simp: is_valid_time_def)
    then show "0 \<le> sec" "sec < 86400" by (auto simp: sec_def)
    show h: "sec div 3600 = h" using b by (auto simp: sec_def intro!: div_eqI)
    then have r: "sec mod 3600 = mi * 60 + s" by (simp add: sec_def flip: minus_mult_div_eq_mod)
    then show mi: "sec mod 3600 div 60 = mi" using b by (auto intro!: div_eqI)
    show "sec mod 3600 mod 60 = s" unfolding r using b by simp
  qed
  have t_eq: "t = (march_date y m day - 719468) * 86400 + sec" using t(2) by (simp add: sec_def)
  have days: "t div 86400 = march_date y m day - 719468" unfolding t_eq using sec(1,2) by (intro div_eqI) simp_all
  have left: "t mod 86400 = sec" using days t_eq by (simp flip: minus_mult_div_eq_mod)
  note month = month_of_day_of_year [OF m d n_def]
  have in_e: "in_era (y mod 400) n" using month by (simp add: in_era_def)
  define e where "e = march_start (y mod 400) + n"
  have e: "0 \<le> e" "e \<le> 146096"
  proof -
    obtain c q r where q: "y mod 400 = 100 * c + 4 * q + r"
      and b: "0 \<le> c" "c \<le> 3" "0 \<le> q" "q \<le> 24" "0 \<le> r" "r \<le> 3"
      by (rule year_digits [of "y mod 400"]) simp_all
    show "0 \<le> e" "e \<le> 146096"
      using b in_e march_digits [OF b] unfolding e_def q in_era_def by (auto split: if_splits)
  qed
  have date: "march_date y m day = y div 400 * 146097 + e" by (simp add: march_date_def e_def n_def)
  have era: "(if 0 < march_date y m day then march_date y m day else march_date y m day - 146096) sdiv 146097 = y div 400"
  proof -
    have f: "march_date y m day div 146097 = y div 400" unfolding date using e by simp
    show ?thesis
    proof (cases "march_date y m day" "0 :: int" rule: linorder_cases)
      case less
      then show ?thesis using f sdiv_floor_neg [of "march_date y m day" 146097] by simp
    next
      case equal
      then have "y div 400 = 0" using f by simp
      with equal show ?thesis by (simp add: signed_divide_int_def)
    qed (use f in \<open>simp add: sdiv_nonneg\<close>)
  qed
  have yoe: "(e - e sdiv 1460 + e sdiv 36524 - e sdiv 146096) sdiv 365 = y mod 400"
  proof -
    have "(e - e div 1460 + e div 36524 - e div 146096) div 365 = y mod 400"
      by (rule year_of_day_of_era [OF in_e]) (simp add: e_def)
    moreover have "0 \<le> e - e div 1460 + e div 36524 - e div 146096" using e by linarith
    ultimately show ?thesis using e by (simp add: sdiv_nonneg)
  qed
  have doy: "e - (365 * (y mod 400) + (y mod 400) sdiv 4 - (y mod 400) sdiv 100) = n"
    by (simp add: e_def march_start_def sdiv_nonneg)
  have mon: "(5 * n + 2) sdiv 153 = m" "(153 * m + 2) sdiv 5 = month_start m"
    using month m by (simp_all add: sdiv_nonneg month_start_def)
  have e_days: "march_date y m day - y div 400 * 146097 = e" using date by simp
  have y_eq: "y mod 400 + y div 400 * 400 = y" by simp
  have undo: "march_date y m day - 719468 + 719468 = march_date y m day" by simp
  show ?thesis
    unfolding utc_from_posix_time_def Let_def floor_split [of 86400, simplified] days left undo era e_days yoe doy mon y_eq
    using t(1) m sec by (simp add: sdiv_nonneg smod_nonneg n_def)
qed

lemma march_start_bound: "0 \<le> y \<Longrightarrow> y \<le> k \<Longrightarrow> march_start y \<le> 365 * k + k div 4"
proof -
  assume y: "0 \<le> y" "y \<le> k"
  then have "0 \<le> y div 100" "y div 4 \<le> k div 4" by (simp_all add: zdiv_mono1)
  with y show ?thesis by (simp add: march_start_def)
qed

lemma march_start_nonneg: "0 \<le> y \<Longrightarrow> 0 \<le> march_start y"
proof -
  assume "0 \<le> y"
  moreover from this have "y div 100 \<le> y" "0 \<le> y div 4" by linarith+
  ultimately show ?thesis by (simp add: march_start_def)
qed

text \<open>The dates of the years 0 to 9999 are exactly the days between the limits of the code.\<close>

lemma march_date_range:
  assumes m: "0 \<le> m" "m \<le> 11" and d: "1 \<le> day" "day \<le> month_days (y mod 400) m"
  shows "- 60 \<le> march_date y m day \<and> march_date y m day \<le> 3652364 \<longleftrightarrow>
    0 \<le> (if m < 10 then y else y + 1) \<and> (if m < 10 then y else y + 1) \<le> 9999"
proof -
  define n where "n = month_start m + day - 1"
  define era where "era = y div 400"
  define z where "z = y mod 400"
  note month = month_of_day_of_year [OF m d n_def, folded z_def]
  have n: "0 \<le> n" "n \<le> 365" using month by (auto simp: march_days_def split: if_splits)
  have z: "0 \<le> z" "z \<le> 399" by (simp_all add: z_def)
  have ms: "m < 10 \<longleftrightarrow> n < 306"
    using march_months [OF m] d month(2,3) by (auto simp: n_def month_start_def month_days_def)
  have date: "march_date y m day = era * 146097 + march_start z + n"
    by (simp add: march_date_def era_def z_def n_def)
  have y: "y = 400 * era + z" by (simp add: era_def z_def)
  have low: "0 \<le> march_start z" using z(1) by (rule march_start_nonneg)
  have top: "z = 399 \<Longrightarrow> march_start z = 145731" by (simp add: march_start_def)
  have below: "z \<noteq> 399 \<Longrightarrow> march_start z \<le> 145369" using march_start_bound [of z 398] z by simp
  have mid: "march_start z \<le> 145731" using top below by (cases "z = 399") auto
  consider "era \<le> - 2" | "era = - 1" | "0 \<le> era" "era \<le> 23" | "era = 24" | "25 \<le> era" by linarith
  then show ?thesis
  proof cases
    case 1
    then show ?thesis using date y z n mid by auto
  next
    case 2
    then show ?thesis using date y z n low top below ms by (cases "z = 399") auto
  next
    case 3
    then show ?thesis using date y z n low mid by auto
  next
    case 4
    then show ?thesis using date y z n low top below ms by (cases "z = 399") auto
  next
    case 5
    then show ?thesis using date y z n low by auto
  qed
qed

lemma posix_time_days:
  assumes "is_valid_time h mi s" "t = (d - 719468) * 86400 + h * 3600 + mi * 60 + s"
  shows "is_valid_posix_time t \<longleftrightarrow> - 60 \<le> d \<and> d \<le> 3652364"
  using assms by (auto simp: is_valid_posix_time_def is_valid_time_def)

lemma seconds_split:
  obtains d h mi s where "is_valid_time h mi s" "t = (d - 719468) * 86400 + h * 3600 + mi * 60 + s"
proof -
  define r where "r = t mod 86400"
  have r: "0 \<le> r" "r < 86400" "t = t div 86400 * 86400 + r" by (simp_all add: r_def)
  define q where "q = r mod 3600"
  have q: "0 \<le> q" "q < 3600" "r = r div 3600 * 3600 + q" by (simp_all add: q_def)
  have q2: "q = q div 60 * 60 + q mod 60" by simp
  show thesis
  proof (rule that [of "r div 3600" "q div 60" "q mod 60" "t div 86400 + 719468"])
    have "0 \<le> q div 60" "q div 60 \<le> 59" "0 \<le> r div 3600" "r div 3600 \<le> 23" "0 \<le> q mod 60" "q mod 60 \<le> 59"
      using q r by linarith+
    then show "is_valid_time (r div 3600) (q div 60) (q mod 60)" by (simp add: is_valid_time_def)
    show "t = (t div 86400 + 719468 - 719468) * 86400 + r div 3600 * 3600 + q div 60 * 60 + q mod 60"
      by (simp add: add.assoc flip: q(3) r(3))
  qed
qed

lemma from_utc_inverse:
  assumes "posix_time_from_utc year month day h mi s = Some t"
  shows "is_valid_posix_time t" "utc_from_posix_time t = Some (year, month, day, h, mi, s)"
proof -
  define y where "y = (if month \<le> 2 then year - 1 else year)"
  define m where "m = (if 2 < month then month - 3 else month + 9)"
  have v: "is_valid_date year month day" "is_valid_time h mi s"
    using assms by (auto simp: posix_time_from_utc_def Let_def split: if_splits)
  note r = is_valid_date_range [OF v(1)]
  have m: "0 \<le> m" "m \<le> 11" using r by (auto simp: m_def)
  have d: "1 \<le> day" "day \<le> month_days (y mod 400) m"
    using v(1) is_valid_date_march [of year month y m day] r y_def m_def by blast+
  have t: "t = (march_date y m day - 719468) * 86400 + h * 3600 + mi * 60 + s"
    using assms from_utc_march [OF v y_def m_def] by simp
  have undo: "(if m < 10 then y else y + 1) = year" "(if m < 10 then m + 3 else m - 9) = month"
    using r by (auto simp: y_def m_def)
  show p: "is_valid_posix_time t"
    using posix_time_days [OF v(2) t] march_date_range [OF m d] r unfolding undo by blast
  show "utc_from_posix_time t = Some (year, month, day, h, mi, s)"
    using from_posix_march [OF p t m d v(2)] unfolding undo .
qed

lemma from_posix_inverse:
  assumes p: "is_valid_posix_time t"
  shows "\<exists>year month day h mi s. utc_from_posix_time t = Some (year, month, day, h, mi, s) \<and>
    posix_time_from_utc year month day h mi s = Some t"
proof -
  obtain d h mi s where v: "is_valid_time h mi s" and t: "t = (d - 719468) * 86400 + h * 3600 + mi * 60 + s"
    by (rule seconds_split)
  obtain z n where e: "in_era z n" "d mod 146097 = march_start z + n"
    by (rule day_of_era_split [of "d mod 146097"]) simp_all
  have z: "0 \<le> z" "z \<le> 399" and n: "0 \<le> n" "n < march_days z" using e(1) by (auto simp: in_era_def)
  obtain m day where m: "0 \<le> m" "m \<le> 11" and dd: "1 \<le> day" "day \<le> month_days z m" and nn: "n = month_start m + day - 1"
    using day_of_year_split [OF n] .
  define y where "y = 400 * (d div 146097) + z"
  have y: "y mod 400 = z" "y div 400 = d div 146097" using z by (simp_all add: y_def)
  have "d = d div 146097 * 146097 + d mod 146097" by simp
  then have date: "march_date y m day = d" unfolding march_date_def y using e(2) nn by linarith
  note t' = t [folded date]
  have dd': "day \<le> month_days (y mod 400) m" using dd(2) y(1) by simp
  define year where "year = (if m < 10 then y else y + 1)"
  define month where "month = (if m < 10 then m + 3 else m - 9)"
  have yr: "0 \<le> year" "year \<le> 9999"
    using march_date_range [OF m dd(1) dd'] posix_time_days [OF v t'] p unfolding year_def by blast+
  have mr: "1 \<le> month" "month \<le> 12" using m by (auto simp: month_def)
  have undo: "y = (if month \<le> 2 then year - 1 else year)" "m = (if 2 < month then month - 3 else month + 9)"
    using m by (auto simp: year_def month_def)
  have vd: "is_valid_date year month day"
    using is_valid_date_march [OF yr mr undo] dd(1) dd' by blast
  show ?thesis
    using from_posix_march [OF p t' m dd(1) dd' v] from_utc_march [OF vd v undo] t'
    unfolding year_def [symmetric] month_def [symmetric] by blast
qed

lemma posix_to_tm_valid: "(\<exists>t. OPENSSL_posix_to_tm p = Some t) \<longleftrightarrow> is_valid_posix_time p"
proof
  show "is_valid_posix_time p" if "\<exists>t. OPENSSL_posix_to_tm p = Some t"
    using that by (auto simp: OPENSSL_posix_to_tm_def utc_from_posix_time_def split: if_splits)
  show "\<exists>t. OPENSSL_posix_to_tm p = Some t" if "is_valid_posix_time p"
    using from_posix_inverse [OF that] by (auto simp: OPENSSL_posix_to_tm_def)
qed

lemma tm_to_posix_iff: "OPENSSL_tm_to_posix t = Some p \<longleftrightarrow> OPENSSL_posix_to_tm p = Some t"
proof
  show "OPENSSL_posix_to_tm p = Some t" if "OPENSSL_tm_to_posix t = Some p"
    using from_utc_inverse(2) [OF that [unfolded OPENSSL_tm_to_posix_def]] by (simp add: OPENSSL_posix_to_tm_def)
next
  assume t: "OPENSSL_posix_to_tm p = Some t"
  then have "is_valid_posix_time p" using posix_to_tm_valid by blast
  from from_posix_inverse [OF this] t show "OPENSSL_tm_to_posix t = Some p"
    by (auto simp: OPENSSL_posix_to_tm_def OPENSSL_tm_to_posix_def)
qed

lemma tm_to_posix_valid: "OPENSSL_tm_to_posix t = Some p \<Longrightarrow> is_valid_posix_time p"
  using posix_to_tm_valid tm_to_posix_iff by blast

lemma gmtime_adj_eq:
  "OPENSSL_gmtime_adj t day sec =
     (case OPENSSL_tm_to_posix t of None \<Rightarrow> None | Some p \<Rightarrow> OPENSSL_posix_to_tm (p + day * 86400 + sec))"
proof -
  have "OPENSSL_posix_to_tm q = None" if "q < INT64_MIN \<or> INT64_MAX < q" for q
    using that posix_to_tm_valid [of q] by (auto simp: is_valid_posix_time_def)
  then show ?thesis
    by (auto simp: OPENSSL_gmtime_adj_def Let_def split: option.split)
qed

section \<open>Properties\<close>

text \<open>
  C20: \<open>OPENSSL_tm_to_posix\<close> and \<open>OPENSSL_posix_to_tm\<close> are inverse to each other: a time is
  converted to a calendar date exactly if that date is converted to this time, and the times that
  have a date are those from 0000-01-01 00:00:00 to 9999-12-31 23:59:59. In particular leap days,
  centuries and times before 1970 are converted without loss and every date the code accepts has
  a valid time.\<close>
theorem posix_tm_bijection:
  "(OPENSSL_tm_to_posix t = Some p \<longleftrightarrow> OPENSSL_posix_to_tm p = Some t) \<and>
   ((\<exists>t'. OPENSSL_posix_to_tm p = Some t') \<longleftrightarrow> is_valid_posix_time p)"
  using tm_to_posix_iff posix_to_tm_valid by blast

text \<open>
  \<open>OPENSSL_gmtime_adj\<close> adds the offset exactly and never overflows an \<open>int64_t\<close>: for an
  \<open>int\<close> number of days and an \<open>int64_t\<close> number of seconds the sum after the first addition is an
  \<open>int64_t\<close>, the two guards let exactly those second additions through that are one too, and the
  call succeeds with the date \<open>t'\<close> exactly if \<open>t\<close> is valid and \<open>t'\<close> is the date of the sum.\<close>
lemma gmtime_adj_exact:
  assumes "- 2147483648 \<le> day" "day \<le> 2147483647" "INT64_MIN \<le> sec" "sec \<le> INT64_MAX"
  shows "(OPENSSL_gmtime_adj t day sec = Some t' \<longleftrightarrow>
      (\<exists>p. OPENSSL_tm_to_posix t = Some p \<and> OPENSSL_tm_to_posix t' = Some (p + day * 86400 + sec))) \<and>
    (\<forall>p. OPENSSL_tm_to_posix t = Some p \<longrightarrow>
      INT64_MIN \<le> p + day * 86400 \<and> p + day * 86400 \<le> INT64_MAX \<and>
      ((0 < p + day * 86400 \<and> INT64_MAX - (p + day * 86400) < sec) \<or>
       (p + day * 86400 < 0 \<and> sec < INT64_MIN - (p + day * 86400)) \<longleftrightarrow>
       \<not> (INT64_MIN \<le> p + day * 86400 + sec \<and> p + day * 86400 + sec \<le> INT64_MAX)))"
proof (intro conjI allI impI)
  show "OPENSSL_gmtime_adj t day sec = Some t' \<longleftrightarrow>
      (\<exists>p. OPENSSL_tm_to_posix t = Some p \<and> OPENSSL_tm_to_posix t' = Some (p + day * 86400 + sec))"
    unfolding gmtime_adj_eq tm_to_posix_iff [of t'] by (auto split: option.split)
next
  fix p assume "OPENSSL_tm_to_posix t = Some p"
  then have p: "- 62167219200 \<le> p" "p \<le> 253402300799"
    using tm_to_posix_valid unfolding is_valid_posix_time_def by blast+
  show "INT64_MIN \<le> p + day * 86400" "p + day * 86400 \<le> INT64_MAX" using p assms by linarith+
  show "(0 < p + day * 86400 \<and> INT64_MAX - (p + day * 86400) < sec) \<or>
       (p + day * 86400 < 0 \<and> sec < INT64_MIN - (p + day * 86400)) \<longleftrightarrow>
       \<not> (INT64_MIN \<le> p + day * 86400 + sec \<and> p + day * 86400 + sec \<le> INT64_MAX)"
    using p assms by linarith
qed

text \<open>
  \<open>OPENSSL_gmtime_diff\<close> is the inverse of \<open>OPENSSL_gmtime_adj\<close>: adding the days and seconds
  it reports to the first date gives the second one; the seconds are less than a day and have the
  sign of the difference, as the days have.\<close>
lemma gmtime_diff_adj:
  assumes "OPENSSL_gmtime_diff from to = Some (days, secs)"
  shows "OPENSSL_gmtime_adj from days secs = Some to \<and> \<bar>secs\<bar> < 86400 \<and> 0 \<le> days * secs"
proof -
  obtain q p where q: "OPENSSL_tm_to_posix to = Some q" and p: "OPENSSL_tm_to_posix from = Some p"
    and d: "days = (q - p) sdiv 86400" and s: "secs = (q - p) smod 86400"
    using assms by (auto simp: OPENSSL_gmtime_diff_def Let_def split: option.splits)
  have "days * 86400 + secs = q - p" unfolding d s by (rule sdiv_mult_smod_eq)
  then have "OPENSSL_gmtime_adj from days secs = Some to"
    using p q [unfolded tm_to_posix_iff] by (simp add: gmtime_adj_eq algebra_simps)
  moreover have "\<bar>secs\<bar> < 86400" unfolding s by (simp add: signed_modulo_int_def abs_mult sgn_if)
  moreover have "0 \<le> days * secs"
    unfolding d s by (simp add: signed_modulo_int_def signed_divide_int_def sgn_if)
  ultimately show ?thesis by blast
qed

end
