(* ===== verification/BS_Cbs.thy ===== *)
theory BS_Cbs
  imports C_Prelude Posix_Time
begin

text \<open>
  \<open>bytestring/cbs.c\<close> of BoringSSL: the reader of byte strings and of their ASN.1 (DER and BER)
  elements. A \<open>CBS\<close> is a pointer and a length, a view of immutable bytes, so it is the list of the
  bytes it covers. A reading function takes the string and returns the value it stores through its
  out-parameter (\<open>None\<close>: it returned zero) with the string as the call leaves it, which after a
  failure may be an advanced one. What an out-parameter holds after a failure is not modelled.

  The constants of the public header \<open>bytestring.h\<close> and the functions of \<open>mem.h\<close>, which are not part
  of this tree, are the parameter \<open>E\<close> of the functions that use them; \<open>asn1_env_ok\<close> states what their
  documentation says. A \<open>CBS_ASN1_TAG\<close> is a 32-bit word. The functions of this file that write text
  through a \<open>CBB\<close> are in the theory \<open>BS_Oid\<close>.
\<close>

section \<open>Definitions\<close>

type_synonym cbs = "u8 list"

record asn1_env =
  TAG_SHIFT :: nat
  CONSTRUCTED :: u32
  TAG_NUMBER_MASK :: u32
  TAG_BOOLEAN :: u32
  TAG_INTEGER :: u32
  TAG_OCTETSTRING :: u32
  TAG_STRINGS :: "u32 list"
  isdigit :: "u8 \<Rightarrow> bool"

definition asn1_env_ok :: "asn1_env \<Rightarrow> bool" where
  "asn1_env_ok E \<longleftrightarrow> TAG_SHIFT E = 24 \<and> CONSTRUCTED E = 0x20000000 \<and> TAG_NUMBER_MASK E = 0x1fffffff \<and>
     TAG_BOOLEAN E = 1 \<and> TAG_INTEGER E = 2 \<and> TAG_OCTETSTRING E = 4 \<and>
     (\<forall>c. isdigit E c \<longleftrightarrow> 48 \<le> c \<and> c \<le> 57)"

text \<open>\<open>if (!f(cbs, &x)) return 0;\<close> followed by code that uses \<open>x\<close>.\<close>

definition get_bind :: "'a option \<times> cbs \<Rightarrow> ('a \<Rightarrow> cbs \<Rightarrow> 'b option \<times> cbs) \<Rightarrow> 'b option \<times> cbs" where
  "get_bind r k = (case r of (v, s) \<Rightarrow> (case v of None \<Rightarrow> (None, s) | Some x \<Rightarrow> k x s))"

subsection \<open>Byte order (\<open>crypto/internal.h\<close>)\<close>

definition CRYPTO_bswap2 :: "u16 \<Rightarrow> u16" where
  "CRYPTO_bswap2 x = word_of_nat (be_to_nat (nat_to_le 2 (unat x)))"

definition CRYPTO_bswap4 :: "u32 \<Rightarrow> u32" where
  "CRYPTO_bswap4 x = word_of_nat (be_to_nat (nat_to_le 4 (unat x)))"

definition CRYPTO_bswap8 :: "u64 \<Rightarrow> u64" where
  "CRYPTO_bswap8 x = word_of_nat (be_to_nat (nat_to_le 8 (unat x)))"

definition CRYPTO_load_u64_be :: "u8 list \<Rightarrow> u64" where
  "CRYPTO_load_u64_be bytes = CRYPTO_bswap8 (word_of_nat (le_to_nat bytes))"

primrec OPENSSL_memchr :: "u8 list \<Rightarrow> u8 \<Rightarrow> nat option" where
  "OPENSSL_memchr [] c = None"
| "OPENSSL_memchr (b # s) c = (if b = c then Some 0 else map_option Suc (OPENSSL_memchr s c))"

subsection \<open>Bytes and integers\<close>

definition cbs_get :: "nat \<Rightarrow> cbs \<Rightarrow> u8 list option \<times> cbs" where
  "cbs_get n s = (if length s < n then (None, s) else (Some (take n s), drop n s))"

definition CBS_skip :: "nat \<Rightarrow> cbs \<Rightarrow> unit option \<times> cbs" where
  "CBS_skip n s = get_bind (cbs_get n s) (\<lambda>_ s. (Some (), s))"

text \<open>The result is the new buffer, \<open>Some None\<close> for the null pointer of an empty string.\<close>

definition CBS_stow :: "(u8 list \<Rightarrow> u8 list option) \<Rightarrow> cbs \<Rightarrow> u8 list option option" where
  "CBS_stow memdup s =
     (if length s = 0 then Some None
      else case memdup s of None \<Rightarrow> None | Some p \<Rightarrow> Some (Some p))"

definition CBS_strdup :: "(u8 list \<Rightarrow> u8 list option) \<Rightarrow> cbs \<Rightarrow> u8 list option" where
  "CBS_strdup strndup s = strndup s"

definition CBS_contains_zero_byte :: "cbs \<Rightarrow> bool" where
  "CBS_contains_zero_byte s \<longleftrightarrow> OPENSSL_memchr s 0 \<noteq> None"

definition CBS_mem_equal :: "(u8 list \<Rightarrow> u8 list \<Rightarrow> int) \<Rightarrow> cbs \<Rightarrow> u8 list \<Rightarrow> bool" where
  "CBS_mem_equal memcmp s data = (if length data \<noteq> length s then False else memcmp s data = 0)"

definition cbs_get_u :: "nat \<Rightarrow> cbs \<Rightarrow> u64 option \<times> cbs" where
  "cbs_get_u len s =
     get_bind (cbs_get len s) (\<lambda>data s. (Some (foldl (\<lambda>r b. push_bit 8 r OR ucast b) 0 data), s))"

definition CBS_get_u8 :: "cbs \<Rightarrow> u8 option \<times> cbs" where
  "CBS_get_u8 s = get_bind (cbs_get 1 s) (\<lambda>v s. (Some (hd v), s))"

definition CBS_get_u16 :: "cbs \<Rightarrow> u16 option \<times> cbs" where
  "CBS_get_u16 s = get_bind (cbs_get_u 2 s) (\<lambda>v s. (Some (ucast v), s))"

definition CBS_get_u16le :: "cbs \<Rightarrow> u16 option \<times> cbs" where
  "CBS_get_u16le s = get_bind (CBS_get_u16 s) (\<lambda>v s. (Some (CRYPTO_bswap2 v), s))"

definition CBS_get_u24 :: "cbs \<Rightarrow> u32 option \<times> cbs" where
  "CBS_get_u24 s = get_bind (cbs_get_u 3 s) (\<lambda>v s. (Some (ucast v), s))"

definition CBS_get_u32 :: "cbs \<Rightarrow> u32 option \<times> cbs" where
  "CBS_get_u32 s = get_bind (cbs_get_u 4 s) (\<lambda>v s. (Some (ucast v), s))"

definition CBS_get_u32le :: "cbs \<Rightarrow> u32 option \<times> cbs" where
  "CBS_get_u32le s = get_bind (CBS_get_u32 s) (\<lambda>v s. (Some (CRYPTO_bswap4 v), s))"

definition CBS_get_u64 :: "cbs \<Rightarrow> u64 option \<times> cbs" where
  "CBS_get_u64 s = cbs_get_u 8 s"

definition CBS_get_u64le :: "cbs \<Rightarrow> u64 option \<times> cbs" where
  "CBS_get_u64le s = get_bind (cbs_get_u 8 s) (\<lambda>v s. (Some (CRYPTO_bswap8 v), s))"

definition CBS_get_last_u8 :: "cbs \<Rightarrow> u8 option \<times> cbs" where
  "CBS_get_last_u8 s = (if length s = 0 then (None, s) else (Some (s ! (length s - 1)), butlast s))"

definition CBS_get_bytes :: "nat \<Rightarrow> cbs \<Rightarrow> cbs option \<times> cbs" where
  "CBS_get_bytes len s = get_bind (cbs_get len s) (\<lambda>v s. (Some v, s))"

definition CBS_copy_bytes :: "nat \<Rightarrow> cbs \<Rightarrow> u8 list option \<times> cbs" where
  "CBS_copy_bytes len s = get_bind (cbs_get len s) (\<lambda>v s. (Some v, s))"

definition cbs_get_length_prefixed :: "nat \<Rightarrow> cbs \<Rightarrow> cbs option \<times> cbs" where
  "cbs_get_length_prefixed len_len s =
     get_bind (cbs_get_u len_len s) (\<lambda>len s. CBS_get_bytes (unat len) s)"

definition CBS_get_u8_length_prefixed :: "cbs \<Rightarrow> cbs option \<times> cbs" where
  "CBS_get_u8_length_prefixed s = cbs_get_length_prefixed 1 s"

definition CBS_get_u16_length_prefixed :: "cbs \<Rightarrow> cbs option \<times> cbs" where
  "CBS_get_u16_length_prefixed s = cbs_get_length_prefixed 2 s"

definition CBS_get_u24_length_prefixed :: "cbs \<Rightarrow> cbs option \<times> cbs" where
  "CBS_get_u24_length_prefixed s = cbs_get_length_prefixed 3 s"

definition CBS_get_until_first :: "u8 \<Rightarrow> cbs \<Rightarrow> cbs option \<times> cbs" where
  "CBS_get_until_first c s =
     (case OPENSSL_memchr s c of None \<Rightarrow> (None, s) | Some split \<Rightarrow> CBS_get_bytes split s)"

lemma CBS_get_u8_simps [simp]:
  "CBS_get_u8 [] = (None, [])"
  "CBS_get_u8 (b # s) = (Some b, s)"
  by (simp_all add: CBS_get_u8_def cbs_get_def get_bind_def)

lemma CBS_get_u8_length: "CBS_get_u8 s = (Some b, s') \<Longrightarrow> length s' < length s"
  by (cases s) auto

text \<open>
  The loop reads the first byte, leaves at the first byte that is no digit, and skips it before it
  checks it.
\<close>

fun u64_decimal_loop :: "asn1_env \<Rightarrow> u64 \<Rightarrow> bool \<Rightarrow> cbs \<Rightarrow> u64 option \<times> cbs" where
  "u64_decimal_loop E v seen_digit [] = (if seen_digit then Some v else None, [])"
| "u64_decimal_loop E v seen_digit (c # s) =
     (if \<not> isdigit E c then (if seen_digit then Some v else None, c # s)
      else if v = 0 \<and> seen_digit \<or> v > (- 1) div 10 \<or> v * 10 > (- 1) - (ucast c - 48) then (None, s)
      else u64_decimal_loop E (v * 10 + (ucast c - 48)) True s)"

definition CBS_get_u64_decimal :: "asn1_env \<Rightarrow> cbs \<Rightarrow> u64 option \<times> cbs" where
  "CBS_get_u64_decimal E s = u64_decimal_loop E 0 False s"

subsection \<open>Tags and elements\<close>

function base128_loop :: "u64 \<Rightarrow> cbs \<Rightarrow> u64 option \<times> cbs" where
  "base128_loop v s =
     (case CBS_get_u8 s of
        (None, s) \<Rightarrow> (None, s)
      | (Some b, s) \<Rightarrow>
          if drop_bit (64 - 7) v \<noteq> 0 then (None, s)
          else if v = 0 \<and> b = 0x80 then (None, s)
          else let v = push_bit 7 v OR ucast (b AND 0x7f) in
               if b AND 0x80 \<noteq> 0 then base128_loop v s else (Some v, s))"
  by pat_completeness auto
termination
  by (relation "measure (\<lambda>(v, s). length s)") (auto dest: CBS_get_u8_length [OF sym])

definition parse_base128_integer :: "cbs \<Rightarrow> u64 option \<times> cbs" where
  "parse_base128_integer s = base128_loop 0 s"

definition parse_asn1_tag :: "asn1_env \<Rightarrow> cbs \<Rightarrow> u32 option \<times> cbs" where
  "parse_asn1_tag E s =
     get_bind (CBS_get_u8 s) (\<lambda>tag_byte s.
       let tag = push_bit (TAG_SHIFT E) (ucast tag_byte AND 0xe0) :: u32;
           tag_number = ucast (tag_byte AND 0x1f) :: u32 in
       get_bind
         (if tag_number = 0x1f then
            get_bind (parse_base128_integer s) (\<lambda>v s.
              if v > ucast (TAG_NUMBER_MASK E) \<or> v < 0x1f then (None, s) else (Some (ucast v), s))
          else (Some tag_number, s))
         (\<lambda>tag_number s.
            let tag = tag OR tag_number in
            if tag AND NOT (CONSTRUCTED E) = 0 then (None, s) else (Some tag, s)))"

record asn1_element =
  el_out :: cbs
  el_tag :: u32
  el_header_len :: nat
  el_ber_found :: bool
  el_indefinite :: bool

definition cbs_get_any_asn1_element :: "asn1_env \<Rightarrow> bool \<Rightarrow> cbs \<Rightarrow> asn1_element option \<times> cbs" where
  "cbs_get_any_asn1_element E ber_ok cbs =
     (case parse_asn1_tag E cbs of
        (None, _) \<Rightarrow> (None, cbs)
      | (Some tag, header) \<Rightarrow>
          (case CBS_get_u8 header of
             (None, _) \<Rightarrow> (None, cbs)
           | (Some length_byte, header) \<Rightarrow>
               let header_len = length cbs - length header;
                   finish = (\<lambda>len hlen ber indef.
                     get_bind (CBS_get_bytes len cbs) (\<lambda>out s.
                       (Some \<lparr>el_out = out, el_tag = tag, el_header_len = hlen,
                              el_ber_found = ber, el_indefinite = indef\<rparr>, s))) in
               if length_byte AND 0x80 = 0 then finish (unat length_byte + header_len) header_len False False
               else
                 let num_bytes = unat (length_byte AND 0x7f) in
                 if ber_ok \<and> tag AND CONSTRUCTED E \<noteq> 0 \<and> num_bytes = 0 then finish header_len header_len True True
                 else if num_bytes = 0 \<or> num_bytes > 4 then (None, cbs)
                 else
                   (case cbs_get_u num_bytes header of
                      (None, _) \<Rightarrow> (None, cbs)
                    | (Some len64, header) \<Rightarrow>
                        if len64 < 128 \<and> \<not> ber_ok then (None, cbs)
                        else if drop_bit ((num_bytes - 1) * 8) len64 = 0 \<and> \<not> ber_ok then (None, cbs)
                        else
                          let ber = (len64 < 128 \<or> drop_bit ((num_bytes - 1) * 8) len64 = 0);
                              len = unat len64 in
                          if size_add (size_add len header_len) num_bytes < len then (None, cbs)
                          else finish (size_add len (size_add header_len num_bytes))
                                 (header_len + num_bytes) ber False)))"

definition CBS_get_any_asn1_element :: "asn1_env \<Rightarrow> cbs \<Rightarrow> asn1_element option \<times> cbs" where
  "CBS_get_any_asn1_element E s = cbs_get_any_asn1_element E False s"

definition CBS_get_any_asn1 :: "asn1_env \<Rightarrow> cbs \<Rightarrow> (cbs \<times> u32) option \<times> cbs" where
  "CBS_get_any_asn1 E s =
     get_bind (CBS_get_any_asn1_element E s) (\<lambda>el s.
       case CBS_skip (el_header_len el) (el_out el) of
         (None, _) \<Rightarrow> (None, s)
       | (Some _, out) \<Rightarrow> (Some (out, el_tag el), s))"

definition CBS_get_any_ber_asn1_element :: "asn1_env \<Rightarrow> cbs \<Rightarrow> asn1_element option \<times> cbs" where
  "CBS_get_any_ber_asn1_element E s = cbs_get_any_asn1_element E True s"

definition cbs_get_asn1 :: "asn1_env \<Rightarrow> u32 \<Rightarrow> bool \<Rightarrow> cbs \<Rightarrow> cbs option \<times> cbs" where
  "cbs_get_asn1 E tag_value skip_header s =
     get_bind (CBS_get_any_asn1_element E s) (\<lambda>el s.
       if el_tag el \<noteq> tag_value then (None, s)
       else if skip_header then
         (case CBS_skip (el_header_len el) (el_out el) of
            (None, _) \<Rightarrow> (None, s)
          | (Some _, out) \<Rightarrow> (Some out, s))
       else (Some (el_out el), s))"

definition CBS_get_asn1 :: "asn1_env \<Rightarrow> u32 \<Rightarrow> cbs \<Rightarrow> cbs option \<times> cbs" where
  "CBS_get_asn1 E tag_value s = cbs_get_asn1 E tag_value True s"

definition CBS_get_asn1_element :: "asn1_env \<Rightarrow> u32 \<Rightarrow> cbs \<Rightarrow> cbs option \<times> cbs" where
  "CBS_get_asn1_element E tag_value s = cbs_get_asn1 E tag_value False s"

definition CBS_peek_asn1_tag :: "asn1_env \<Rightarrow> u32 \<Rightarrow> cbs \<Rightarrow> bool" where
  "CBS_peek_asn1_tag E tag_value s = (fst (parse_asn1_tag E s) = Some tag_value)"

subsection \<open>Values\<close>

text \<open>The out-parameter is the sign: the first bit.\<close>

definition CBS_is_valid_asn1_integer :: "cbs \<Rightarrow> bool option" where
  "CBS_is_valid_asn1_integer s =
     (case CBS_get_u8 s of
        (None, _) \<Rightarrow> None
      | (Some first_byte, copy) \<Rightarrow>
          let is_negative = (first_byte AND 0x80 \<noteq> 0) in
          (case CBS_get_u8 copy of
             (None, _) \<Rightarrow> Some is_negative
           | (Some second_byte, _) \<Rightarrow>
               if first_byte = 0x00 \<and> second_byte AND 0x80 = 0 \<or> first_byte = 0xff \<and> second_byte AND 0x80 \<noteq> 0
               then None else Some is_negative))"

definition CBS_is_unsigned_asn1_integer :: "cbs \<Rightarrow> bool" where
  "CBS_is_unsigned_asn1_integer s = (CBS_is_valid_asn1_integer s = Some False)"

primrec uint64_loop :: "u64 \<Rightarrow> u8 list \<Rightarrow> u64 option" where
  "uint64_loop out [] = Some out"
| "uint64_loop out (b # data) =
     (if drop_bit 56 out \<noteq> 0 then None else uint64_loop (push_bit 8 out OR ucast b) data)"

definition CBS_get_asn1_uint64 :: "asn1_env \<Rightarrow> cbs \<Rightarrow> u64 option \<times> cbs" where
  "CBS_get_asn1_uint64 E s =
     get_bind (CBS_get_asn1 E (TAG_INTEGER E) s) (\<lambda>bytes s.
       if \<not> CBS_is_unsigned_asn1_integer bytes then (None, s) else (uint64_loop 0 bytes, s))"

text \<open>The result is the bit pattern of the \<open>int64_t\<close>.\<close>

definition CBS_get_asn1_int64 :: "asn1_env \<Rightarrow> cbs \<Rightarrow> u64 option \<times> cbs" where
  "CBS_get_asn1_int64 E s =
     get_bind (CBS_get_asn1 E (TAG_INTEGER E) s) (\<lambda>bytes s.
       case CBS_is_valid_asn1_integer bytes of
         None \<Rightarrow> (None, s)
       | Some is_negative \<Rightarrow>
           if length bytes > 8 then (None, s)
           else
             let sign_extend = replicate 8 (if is_negative then 0xff else 0 :: u8) in
             (Some (CRYPTO_load_u64_be (take (8 - length bytes) sign_extend @ bytes)), s))"

definition CBS_get_asn1_bool :: "asn1_env \<Rightarrow> cbs \<Rightarrow> bool option \<times> cbs" where
  "CBS_get_asn1_bool E s =
     get_bind (CBS_get_asn1 E (TAG_BOOLEAN E) s) (\<lambda>bytes s.
       if length bytes \<noteq> 1 then (None, s)
       else
         let value = hd bytes in
         if value \<noteq> 0 \<and> value \<noteq> 0xff then (None, s) else (Some (value \<noteq> 0), s))"

text \<open>The result is the contents if the element is present.\<close>

definition CBS_get_optional_asn1 :: "asn1_env \<Rightarrow> u32 \<Rightarrow> cbs \<Rightarrow> cbs option option \<times> cbs" where
  "CBS_get_optional_asn1 E tag s =
     (if CBS_peek_asn1_tag E tag s then get_bind (CBS_get_asn1 E tag s) (\<lambda>out s. (Some (Some out), s))
      else (Some None, s))"

definition CBS_get_optional_asn1_octet_string :: "asn1_env \<Rightarrow> u32 \<Rightarrow> cbs \<Rightarrow> (cbs \<times> bool) option \<times> cbs" where
  "CBS_get_optional_asn1_octet_string E tag s =
     get_bind (CBS_get_optional_asn1 E tag s) (\<lambda>r s.
       case r of
         None \<Rightarrow> (Some ([], False), s)
       | Some child \<Rightarrow>
           (case CBS_get_asn1 E (TAG_OCTETSTRING E) child of
              (None, _) \<Rightarrow> (None, s)
            | (Some out, child) \<Rightarrow> if length child \<noteq> 0 then (None, s) else (Some (out, True), s)))"

definition CBS_get_optional_asn1_uint64 :: "asn1_env \<Rightarrow> u32 \<Rightarrow> u64 \<Rightarrow> cbs \<Rightarrow> u64 option \<times> cbs" where
  "CBS_get_optional_asn1_uint64 E tag default_value s =
     get_bind (CBS_get_optional_asn1 E tag s) (\<lambda>r s.
       case r of
         None \<Rightarrow> (Some default_value, s)
       | Some child \<Rightarrow>
           (case CBS_get_asn1_uint64 E child of
              (None, _) \<Rightarrow> (None, s)
            | (Some out, child) \<Rightarrow> if length child \<noteq> 0 then (None, s) else (Some out, s)))"

definition CBS_get_optional_asn1_bool :: "asn1_env \<Rightarrow> u32 \<Rightarrow> bool \<Rightarrow> cbs \<Rightarrow> bool option \<times> cbs" where
  "CBS_get_optional_asn1_bool E tag default_value s =
     get_bind (CBS_get_optional_asn1 E tag s) (\<lambda>r s.
       case r of
         None \<Rightarrow> (Some default_value, s)
       | Some child \<Rightarrow>
           (case CBS_get_asn1 E (TAG_BOOLEAN E) child of
              (None, _) \<Rightarrow> (None, s)
            | (Some child2, child) \<Rightarrow>
                if length child2 \<noteq> 1 \<or> length child \<noteq> 0 then (None, s)
                else
                  let boolean = hd child2 in
                  if boolean = 0 then (Some False, s)
                  else if boolean = 0xff then (Some True, s)
                  else (None, s)))"

definition CBS_is_valid_asn1_bitstring :: "cbs \<Rightarrow> bool" where
  "CBS_is_valid_asn1_bitstring s =
     (case CBS_get_u8 s of
        (None, _) \<Rightarrow> False
      | (Some num_unused_bits, s) \<Rightarrow>
          if num_unused_bits > 7 then False
          else if num_unused_bits = 0 then True
          else
            (case CBS_get_last_u8 s of
               (None, _) \<Rightarrow> False
             | (Some last_byte, _) \<Rightarrow> last_byte AND (push_bit (unat num_unused_bits) 1 - 1) = 0))"

definition CBS_asn1_bitstring_has_bit :: "cbs \<Rightarrow> u32 \<Rightarrow> bool" where
  "CBS_asn1_bitstring_has_bit s b =
     (if \<not> CBS_is_valid_asn1_bitstring s then False
      else
        let byte_num = unat (drop_bit 3 b + 1);
            bit_num = unat (7 - (b AND 7)) in
        byte_num < length s \<and> (s ! byte_num) AND push_bit bit_num 1 \<noteq> 0)"

primrec oid_loop :: "u8 \<Rightarrow> cbs \<Rightarrow> u8 option" where
  "oid_loop prev [] = Some prev"
| "oid_loop prev (v # s) = (if prev AND 0x80 = 0 \<and> v = 0x80 then None else oid_loop v s)"

definition CBS_is_valid_asn1_oid :: "cbs \<Rightarrow> bool" where
  "CBS_is_valid_asn1_oid s =
     (if length s = 0 then False
      else case oid_loop 0 s of None \<Rightarrow> False | Some prev \<Rightarrow> prev AND 0x80 = 0)"

subsection \<open>Times\<close>

definition cbs_get_two_digits :: "asn1_env \<Rightarrow> cbs \<Rightarrow> int option \<times> cbs" where
  "cbs_get_two_digits E s =
     get_bind (CBS_get_u8 s) (\<lambda>first_digit s.
       if \<not> isdigit E first_digit then (None, s)
       else get_bind (CBS_get_u8 s) (\<lambda>second_digit s.
         if \<not> isdigit E second_digit then (None, s)
         else (Some ((uint first_digit - 48) * 10 + (uint second_digit - 48)), s)))"

definition is_valid_day :: "int \<Rightarrow> int \<Rightarrow> int \<Rightarrow> bool" where
  "is_valid_day year month day =
     (if day < 1 then False
      else if month \<in> {1, 3, 5, 7, 8, 10, 12} then day \<le> 31
      else if month \<in> {4, 6, 9, 11} then day \<le> 30
      else if month = 2 then
        (if year smod 4 = 0 \<and> year smod 100 \<noteq> 0 \<or> year smod 400 = 0 then day \<le> 29 else day \<le> 28)
      else False)"

text \<open>The year, read with the century for a GeneralizedTime.\<close>

definition rfc5280_year :: "asn1_env \<Rightarrow> bool \<Rightarrow> cbs \<Rightarrow> int option \<times> cbs" where
  "rfc5280_year E is_gentime s =
     (if is_gentime then
        get_bind (cbs_get_two_digits E s) (\<lambda>century s.
        get_bind (cbs_get_two_digits E s) (\<lambda>tmp s. (Some (century * 100 + tmp), s)))
      else
        get_bind (cbs_get_two_digits E s) (\<lambda>tmp s.
          let year = 1900 + tmp;
              year = (if year < 1950 then year + 100 else year) in
          if 2050 \<le> year then (None, s) else (Some year, s)))"

text \<open>The zone: \<open>Z\<close>, or a sign and an offset if it is allowed; the value is the offset in seconds.\<close>

definition rfc5280_offset :: "asn1_env \<Rightarrow> bool \<Rightarrow> cbs \<Rightarrow> int option \<times> cbs" where
  "rfc5280_offset E allow_timezone_offset s =
     get_bind (CBS_get_u8 s) (\<lambda>tz s.
       if tz = 90 then (Some 0, s)
       else if tz \<noteq> 43 \<and> tz \<noteq> 45 then (None, s)
       else
         let offset_sign = (if tz = 43 then 1 else - 1) in
         if \<not> allow_timezone_offset then (None, s)
         else get_bind (cbs_get_two_digits E s) (\<lambda>offset_hours s.
           if 23 < offset_hours then (None, s)
           else get_bind (cbs_get_two_digits E s) (\<lambda>offset_minutes s.
             if 59 < offset_minutes then (None, s)
             else (Some (offset_sign * (offset_hours * 3600 + offset_minutes * 60)), s))))"

text \<open>
  The result is \<open>None\<close> for a rejected time; for an accepted one it is the date stored through
  \<open>out_tm\<close>, or \<open>Some None\<close> if the pointer is null.
\<close>

definition CBS_parse_rfc5280_time_internal ::
  "asn1_env \<Rightarrow> bool \<Rightarrow> bool \<Rightarrow> bool \<Rightarrow> cbs \<Rightarrow> tm option option" where
  "CBS_parse_rfc5280_time_internal E is_gentime allow_timezone_offset have_out cbs =
     fst (get_bind (rfc5280_year E is_gentime cbs) (\<lambda>year copy.
       get_bind (cbs_get_two_digits E copy) (\<lambda>month copy.
       if month < 1 \<or> 12 < month then (None, copy)
       else get_bind (cbs_get_two_digits E copy) (\<lambda>day copy.
       if \<not> is_valid_day year month day then (None, copy)
       else get_bind (cbs_get_two_digits E copy) (\<lambda>hour copy.
       if 23 < hour then (None, copy)
       else get_bind (cbs_get_two_digits E copy) (\<lambda>min copy.
       if 59 < min then (None, copy)
       else get_bind (cbs_get_two_digits E copy) (\<lambda>sec copy.
       if 59 < sec then (None, copy)
       else get_bind (rfc5280_offset E allow_timezone_offset copy) (\<lambda>offset_seconds copy.
       if length copy \<noteq> 0 then (None, copy)
       else if \<not> have_out then (Some None, copy)
       else
         let t = \<lparr>tm_year = year - 1900, tm_mon = month - 1, tm_mday = day,
                  tm_hour = hour, tm_min = min, tm_sec = sec\<rparr> in
         if offset_seconds = 0 then (Some (Some t), copy)
         else case OPENSSL_gmtime_adj t 0 offset_seconds of
                None \<Rightarrow> (None, copy)
              | Some t' \<Rightarrow> (Some (Some t'), copy)))))))))"

definition CBS_parse_generalized_time :: "asn1_env \<Rightarrow> bool \<Rightarrow> bool \<Rightarrow> cbs \<Rightarrow> tm option option" where
  "CBS_parse_generalized_time E allow_timezone_offset have_out cbs =
     CBS_parse_rfc5280_time_internal E True allow_timezone_offset have_out cbs"

definition CBS_parse_utc_time :: "asn1_env \<Rightarrow> bool \<Rightarrow> bool \<Rightarrow> cbs \<Rightarrow> tm option option" where
  "CBS_parse_utc_time E allow_timezone_offset have_out cbs =
     CBS_parse_rfc5280_time_internal E False allow_timezone_offset have_out cbs"

end
