(* ===== verification/BS_Der.thy ===== *)
theory BS_Der
  imports BS_Cbs
begin

text \<open>
  The encoding rules that \<open>bytestring/cbs.c\<close> implements, as a reference definition of the bytes of
  an integer in base 128, of a tag, of a length and of an element in DER, and the proof that the
  parsers accept exactly these bytes.
\<close>

section \<open>Words and their numbers\<close>

lemma unat_ucast_up [simp]:
  "LENGTH('a::len) \<le> LENGTH('b::len) \<Longrightarrow> unat (ucast (x :: 'a word) :: 'b word) = unat x"
proof -
  assume "LENGTH('a) \<le> LENGTH('b)"
  then have "(2 :: nat) ^ LENGTH('a) \<le> 2 ^ LENGTH('b)" by (intro power_increasing) simp_all
  then have "unat x < 2 ^ LENGTH('b)" using unsigned_less [of x] by (meson less_le_trans)
  then show ?thesis by (simp add: unsigned_ucast_eq take_bit_nat_eq_self)
qed

text \<open>The byte with a number, kept folded so that sums inside it are not taken apart.\<close>

definition byte_of :: "nat \<Rightarrow> u8" where
  "byte_of n = word_of_nat n"

lemma unat_byte_of [simp]: "unat (byte_of n) = n mod 256"
  unfolding byte_of_def by (rule unat_of_nat_u8)

lemma byte_of_unat [simp]: "byte_of (unat b) = b"
  by (simp add: byte_of_def)

lemma byte_eq_iff: "b = c \<longleftrightarrow> unat b = unat (c :: u8)"
  by (rule word_unat_eq_iff)

lemma or_disjoint_unat:
  assumes "unat (x :: 'a::len word) mod 2 ^ k = 0" "unat y < 2 ^ k"
  shows "unat (x OR y) = unat x + unat y"
proof -
  have "x AND y = 0"
  proof (rule bit_word_eqI)
    fix n assume "n < LENGTH('a)"
    have "\<not> bit x n" if "n < k"
    proof -
      have "take_bit k x = 0"
        using assms(1) by (metis unat_take_bit_mod unat_eq_zero)
      then show ?thesis using that by (metis bit_take_bit_iff bit_0_eq bot_apply bot_bool_def)
    qed
    moreover have "\<not> bit y n" if "k \<le> n"
    proof -
      have "take_bit k y = y"
        using assms(2) by (metis unat_take_bit_mod mod_less word_unat_eq_iff)
      then show ?thesis using that by (metis bit_take_bit_iff not_less)
    qed
    ultimately show "bit (x AND y) n \<longleftrightarrow> bit 0 n" by (cases "n < k") (auto simp: bit_simps not_less)
  qed
  then have "unat x AND unat y = 0" by (metis unsigned_and_eq unsigned_0)
  then have "unat x OR unat y = unat x + unat y" by (simp add: disjunctive_add_eq_or)
  then show ?thesis by (simp add: unsigned_or_eq)
qed

lemma unat_push_bit_small: "unat (x :: 'a::len word) < 2 ^ (LENGTH('a) - k) \<Longrightarrow> k \<le> LENGTH('a) \<Longrightarrow>
  unat (push_bit k x) = unat x * 2 ^ k"
proof -
  assume x: "unat x < 2 ^ (LENGTH('a) - k)" and k: "k \<le> LENGTH('a)"
  have "unat x * 2 ^ k < 2 ^ (LENGTH('a) - k) * 2 ^ k" using x by simp
  also have "\<dots> = 2 ^ LENGTH('a)" using k by (simp flip: power_add)
  finally have lt: "unat x * 2 ^ k < 2 ^ LENGTH('a)" .
  have "unat (push_bit k x) = take_bit LENGTH('a) (push_bit k (unat x))" by (rule unsigned_push_bit_eq)
  also have "\<dots> = unat x * 2 ^ k" using lt unfolding push_bit_eq_mult take_bit_eq_mod by simp
  finally show ?thesis .
qed

lemma unat_shift_in:
  assumes "unat (v :: u64) < 2 ^ (64 - k)" "unat (y :: u64) < 2 ^ k" "k \<le> 64"
  shows "unat (push_bit k v OR y) = unat v * 2 ^ k + unat y"
proof -
  have p: "unat (push_bit k v) = unat v * 2 ^ k" using assms unat_push_bit_small [of v k] by simp
  show ?thesis using or_disjoint_unat [of "push_bit k v" k y] assms(2) by (simp add: p)
qed

lemma unat_and_0x7f: "unat (b AND 0x7f :: u8) = unat b mod 128"
  using unat_take_bit_mod [of 7 b] by (simp add: take_bit_eq_mask mask_numeral)

lemma bit_u8_7: "bit (b :: u8) 7 \<longleftrightarrow> 128 \<le> unat b"
proof -
  have "bit b 7 \<longleftrightarrow> bit (unat b) 7" by (simp add: bit_unsigned_iff)
  also have "\<dots> \<longleftrightarrow> odd (unat b div 128)" by (simp add: bit_iff_odd)
  also have "\<dots> \<longleftrightarrow> 128 \<le> unat b"
  proof -
    have "unat b div 128 < 2" using unat_u8_less [of b] by (simp add: less_mult_imp_div_less)
    moreover have "128 \<le> unat b \<longleftrightarrow> unat b div 128 \<noteq> 0" by (simp add: div_eq_0_iff not_less)
    ultimately show ?thesis by (cases "unat b div 128 = 0") (auto simp: less_2_cases_iff)
  qed
  finally show ?thesis .
qed

lemma and_0x80_iff: "(b AND 0x80 :: u8) = 0 \<longleftrightarrow> unat b < 128"
  using and_exp_eq_0_iff_not_bit [of b 7] bit_u8_7 [of b] by (simp add: not_le)

lemma unat_and_0x1f: "unat (b AND 0x1f :: u8) = unat b mod 32"
  using unat_take_bit_mod [of 5 b] by (simp add: take_bit_eq_mask mask_numeral)

text \<open>Bytes as big-endian numbers, as the loops compute them.\<close>

lemma foldl_be:
  "length bs \<le> 8 \<Longrightarrow> unat (foldl (\<lambda>r b. push_bit 8 r OR ucast (b :: u8)) (0 :: u64) bs) = be_to_nat bs"
proof (induction bs rule: rev_induct)
  case (snoc b bs)
  let ?r = "foldl (\<lambda>r b. push_bit 8 r OR ucast b) (0 :: u64) bs"
  have IH: "unat ?r = be_to_nat bs" using snoc by simp
  have "be_to_nat bs < 256 ^ length bs" by (rule be_to_nat_less)
  also have "\<dots> \<le> 256 ^ 7" using snoc.prems by (intro power_increasing) simp_all
  finally have "unat ?r < 2 ^ (64 - 8)" using IH by simp
  moreover have "unat (ucast b :: u64) = unat b" by simp
  moreover have "unat b < 2 ^ 8" by simp
  ultimately have "unat (push_bit 8 ?r OR ucast b) = unat ?r * 2 ^ 8 + unat b"
    using unat_shift_in [of ?r 8 "ucast b"] by simp
  with IH show ?case by (simp add: be_to_nat_snoc)
qed simp

lemma be_u64: "length bs \<le> 8 \<Longrightarrow> unat (word_of_nat (be_to_nat bs) :: u64) = be_to_nat bs"
proof -
  assume bs: "length bs \<le> 8"
  have "be_to_nat bs < 256 ^ length bs" by (rule be_to_nat_less)
  also have "\<dots> \<le> 256 ^ 8" using bs by (intro power_increasing) simp_all
  finally show ?thesis by (simp add: unsigned_of_nat take_bit_nat_eq_self)
qed

lemma cbs_get_u_eq:
  "n \<le> 8 \<Longrightarrow> cbs_get_u n s =
     (if length s < n then (None, s) else (Some (word_of_nat (be_to_nat (take n s))), drop n s))"
proof -
  assume n: "n \<le> 8"
  have "foldl (\<lambda>r b. push_bit 8 r OR ucast b) (0 :: u64) (take n s) = word_of_nat (be_to_nat (take n s))"
    using foldl_be [of "take n s"] n by (simp add: word_unat_eq_iff be_u64)
  then show ?thesis by (simp add: cbs_get_u_def cbs_get_def get_bind_def)
qed

section \<open>Integers in base 128\<close>

fun base128_high :: "nat \<Rightarrow> u8 list" where
  "base128_high n = (if n = 0 then [] else base128_high (n div 128) @ [byte_of (128 + n mod 128)])"

declare base128_high.simps [simp del]

definition base128 :: "nat \<Rightarrow> u8 list" where
  "base128 n = base128_high (n div 128) @ [byte_of (n mod 128)]"

definition base128_val :: "u8 list \<Rightarrow> nat" where
  "base128_val bs = foldl (\<lambda>a b. a * 128 + unat b mod 128) 0 bs"

lemma base128_high_0 [simp]: "base128_high 0 = []"
  by (simp add: base128_high.simps)

lemma base128_high_set: "b \<in> set (base128_high n) \<Longrightarrow> 128 \<le> unat b"
proof (induction n rule: base128_high.induct)
  case (1 n)
  have "unat (byte_of (128 + n mod 128)) = 128 + n mod 128" by (simp del: mod_add_self1)
  then show ?case
    using 1 by (cases "n = 0") (auto simp: base128_high.simps [of n])
qed

lemma unat_mod_128: "128 \<le> unat (b :: u8) \<Longrightarrow> unat b mod 128 = unat b - 128"
proof -
  assume b: "128 \<le> unat b"
  have "unat b - 128 < 128" using b unat_u8_less [of b] by linarith
  then show ?thesis using b by (simp only: le_mod_geq mod_less)
qed

lemma base128_high_step:
  "unat b \<ge> 128 \<Longrightarrow> n * 128 + unat b mod 128 \<noteq> 0 \<Longrightarrow> base128_high (n * 128 + unat b mod 128) = base128_high n @ [b]"
proof -
  assume b: "128 \<le> unat b" and ne: "n * 128 + unat b mod 128 \<noteq> 0"
  have "128 + unat b mod 128 = unat b" using b by (simp add: unat_mod_128)
  then have "byte_of (128 + unat b mod 128) = b" by simp
  with ne show ?thesis by (simp add: base128_high.simps [of "n * 128 + unat b mod 128"])
qed

lemma base128_high_hd: "base128_high n = b # bs \<Longrightarrow> b \<noteq> 0x80"
proof (induction n arbitrary: bs rule: base128_high.induct)
  case (1 n)
  then have n: "n \<noteq> 0" by (metis base128_high_0 list.distinct(1))
  have e: "base128_high n = base128_high (n div 128) @ [byte_of (128 + n mod 128)]"
    using n by (simp add: base128_high.simps [of n])
  show ?case
  proof (cases "n div 128 = 0")
    case True
    then have "n < 128" by (simp add: div_eq_0_iff)
    then have "unat (byte_of (128 + n mod 128)) \<noteq> unat (0x80 :: u8)" using n by simp
    moreover have "b = byte_of (128 + n mod 128)" using e True 1(2) by simp
    ultimately show ?thesis by metis
  next
    case False
    then obtain c cs where "base128_high (n div 128) = c # cs"
      by (metis base128_high.simps snoc_eq_iff_butlast neq_Nil_conv)
    moreover from this have "c = b" using e 1(2) by simp
    ultimately show ?thesis using 1(1) [OF n] by blast
  qed
qed

lemma base128_val_snoc [simp]: "base128_val (bs @ [b]) = base128_val bs * 128 + unat b mod 128"
  by (simp add: base128_val_def)

lemma base128_val_Nil [simp]: "base128_val [] = 0"
  by (simp add: base128_val_def)

lemma base128_val_high [simp]: "base128_val (base128_high n) = n"
proof (induction n rule: base128_high.induct)
  case (1 n)
  then show ?case
    by (cases "n = 0") (simp_all add: base128_high.simps [of n] mod_add_eq)
qed

lemma base128_val_base128 [simp]: "base128_val (base128 n) = n"
  by (simp add: base128_def)

lemma base128_val_append: "base128_val (as @ bs) = base128_val as * 128 ^ length bs + base128_val bs"
proof (induction bs rule: rev_induct)
  case (snoc b bs)
  then show ?case by (simp flip: append_assoc add: algebra_simps)
qed simp

lemma base128_ne [simp]: "base128 n \<noteq> []"
  by (simp add: base128_def)

lemma base128_high_len: "n < 128 ^ k \<Longrightarrow> length (base128_high n) \<le> k"
proof (induction k arbitrary: n)
  case (Suc k)
  then have "n div 128 < 128 ^ k" by (simp add: less_mult_imp_div_less)
  from Suc.IH [OF this] show ?case by (cases "n = 0") (simp_all add: base128_high.simps [of n])
qed simp

lemma base128_len64: "n < 2 ^ 64 \<Longrightarrow> length (base128 n) \<le> 10"
proof -
  assume "n < 2 ^ 64"
  then have "n div 128 < 128 ^ 9" by (simp add: less_mult_imp_div_less)
  from base128_high_len [OF this] show ?thesis by (simp add: base128_def)
qed

lemma base128_cons_last:
  assumes "base128 w = base128_high v @ b # p" "unat b < 128"
  shows "p = []" "w = v * 128 + unat b"
proof -
  show p: "p = []"
  proof (rule ccontr)
    assume "p \<noteq> []"
    then have "b \<in> set (butlast (base128 w))" unfolding assms(1) by (simp add: butlast_append)
    then have "b \<in> set (base128_high (w div 128))" by (simp add: base128_def)
    from base128_high_set [OF this] assms(2) show False by simp
  qed
  have "w = base128_val (base128 w)" by simp
  also have "\<dots> = v * 128 + unat b" unfolding assms(1) p using assms(2) by simp
  finally show "w = v * 128 + unat b" .
qed

lemma base128_prefix_ne: "base128 w = base128_high v @ p \<Longrightarrow> p \<noteq> []"
proof
  assume "base128 w = base128_high v @ p" "p = []"
  then have "byte_of (w mod 128) \<in> set (base128_high v)" by (simp add: base128_def flip: append_assoc) (metis in_set_conv_decomp)
  from base128_high_set [OF this] show False
    using mod_less_divisor [of 128 w] by simp
qed

lemma base128_prefix_big: "base128 w = base128_high v @ p \<Longrightarrow> v * 128 \<le> w"
proof -
  assume a: "base128 w = base128_high v @ p"
  have "(128 :: nat) ^ 1 \<le> 128 ^ length p"
    using base128_prefix_ne [OF a] by (intro power_increasing) (simp_all add: Suc_le_eq)
  then have "v * 128 \<le> v * 128 ^ length p" by simp
  also have "\<dots> \<le> base128_val (base128 w)" unfolding a by (simp add: base128_val_append)
  finally show ?thesis by simp
qed

lemma base128_hd_ne: "base128 w = 0x80 # p \<Longrightarrow> False"
proof -
  assume a: "base128 w = 0x80 # p"
  show False
  proof (cases "base128_high (w div 128)")
    case Nil
    then have "byte_of (w mod 128) = 0x80" using a by (simp add: base128_def)
    then have "w mod 128 = 128" by (simp add: byte_eq_iff)
    then show False using mod_less_divisor [of 128 w] by simp
  next
    case (Cons c cs)
    then have "c = 0x80" using a by (simp add: base128_def)
    with base128_high_hd [OF Cons] show False by simp
  qed
qed

lemma base128_step_word:
  assumes "drop_bit 57 (v :: u64) = 0"
  shows "unat (push_bit 7 v OR ucast (b AND 0x7f :: u8)) = unat v * 128 + unat b mod 128"
proof -
  have "unat v div 2 ^ 57 = 0" using assms by (metis unat_drop_bit_div unat_eq_zero)
  then have "unat v < 2 ^ (64 - 7)" by (simp add: div_eq_0_iff)
  moreover have "unat (ucast (b AND 0x7f) :: u64) = unat b mod 128" by (simp add: unat_and_0x7f)
  moreover have "unat b mod 128 < 2 ^ 7" by simp
  ultimately show ?thesis using unat_shift_in [of v 7 "ucast (b AND 0x7f)"] by simp
qed

declare base128_loop.simps [simp del]

lemma base128_loop_iff:
  "base128_loop v s = (Some w, s') \<longleftrightarrow> (\<exists>p. s = p @ s' \<and> base128 (unat w) = base128_high (unat v) @ p)"
proof (induction s arbitrary: v)
  case Nil
  show ?case using base128_prefix_ne [of "unat w" "unat v" "[]"] by (auto simp: base128_loop.simps [of v "[]"])
next
  case (Cons b t)
  let ?v = "push_bit 7 v OR ucast (b AND 0x7f)"
  let ?R = "\<exists>p. b # t = p @ s' \<and> base128 (unat w) = base128_high (unat v) @ p"
  have R: "?R \<longleftrightarrow> (\<exists>p. t = p @ s' \<and> base128 (unat w) = base128_high (unat v) @ b # p)"
  proof
    assume ?R
    then obtain p where p: "b # t = p @ s'" "base128 (unat w) = base128_high (unat v) @ p" by blast
    then obtain c q where "p = c # q" using base128_prefix_ne by (metis neq_Nil_conv)
    with p show "\<exists>p. t = p @ s' \<and> base128 (unat w) = base128_high (unat v) @ b # p" by auto
  qed (metis append_Cons)
  consider (big) "drop_bit 57 v \<noteq> 0" | (zero) "drop_bit 57 v = 0" "v = 0" "b = 0x80"
    | (step) "drop_bit 57 v = 0" "\<not> (v = 0 \<and> b = 0x80)" by blast
  then show ?case
  proof cases
    case big
    have "unat v div 2 ^ 57 \<noteq> 0" using big by (metis unat_drop_bit_div unat_eq_zero)
    then have "2 ^ 57 \<le> unat v" by (metis div_less not_le)
    moreover have "unat w < 2 ^ 64" using unsigned_less [of w] by simp
    ultimately have "\<not> unat v * 128 \<le> unat w" by simp
    then have "\<not> ?R" using base128_prefix_big by blast
    with big show ?thesis by (simp add: base128_loop.simps [of v "b # t"])
  next
    case zero
    then have "\<not> ?R" unfolding R using base128_hd_ne by auto
    moreover have "base128_loop v (b # t) \<noteq> (Some w, s')"
      using zero by (simp add: base128_loop.simps [of 0 "0x80 # t"])
    ultimately show ?thesis by simp
  next
    case step
    note v = base128_step_word [OF step(1), of b]
    show ?thesis
    proof (cases "unat b < 128")
      case True
      then have "base128_loop v (b # t) = (Some w, s') \<longleftrightarrow> ?v = w \<and> t = s'"
        using step and_0x80_iff [of b] by (auto simp: base128_loop.simps [of v "b # t"] Let_def)
      also have "\<dots> \<longleftrightarrow> unat w = unat v * 128 + unat b \<and> t = s'"
        using True v by (auto simp: word_unat_eq_iff)
      also have "\<dots> \<longleftrightarrow> ?R"
        unfolding R
      proof
        assume a: "unat w = unat v * 128 + unat b \<and> t = s'"
        then have "base128 (unat w) = base128_high (unat v) @ [b]" using True by (simp add: base128_def)
        with a show "\<exists>p. t = p @ s' \<and> base128 (unat w) = base128_high (unat v) @ b # p" by auto
      qed (use base128_cons_last True in auto)
      finally show ?thesis .
    next
      case False
      then have "base128_loop v (b # t) = base128_loop ?v t"
        using step and_0x80_iff [of b] by (auto simp: base128_loop.simps [of v "b # t"] Let_def)
      moreover have "base128_high (unat ?v) = base128_high (unat v) @ [b]"
      proof -
        have "unat v * 128 + unat b mod 128 \<noteq> 0"
        proof
          assume "unat v * 128 + unat b mod 128 = 0"
          then have "v = 0" "unat b mod 128 = 0" by (simp_all add: unat_eq_zero)
          then have "unat b = 128" using False unat_mod_128 [of b] by simp
          then have "b = 0x80" by (simp add: byte_eq_iff)
          with step(2) \<open>v = 0\<close> show False by simp
        qed
        from base128_high_step [OF _ this] False v show ?thesis by simp
      qed
      ultimately show ?thesis using Cons.IH [of ?v] unfolding R by simp
    qed
  qed
qed

lemma parse_base128_iff: "parse_base128_integer s = (Some w, s') \<longleftrightarrow> s = base128 (unat w) @ s'"
  unfolding parse_base128_integer_def base128_loop_iff by auto

section \<open>Tags\<close>

text \<open>
  The three leading bits of a tag (class and constructed bit) and its number of 29 bits. The tag
  \<open>[UNIVERSAL 0]\<close> does not exist.
\<close>

definition valid_tag :: "u32 \<Rightarrow> bool" where
  "valid_tag t \<longleftrightarrow> t AND NOT 0x20000000 \<noteq> 0"

definition der_tag :: "u32 \<Rightarrow> u8 list" where
  "der_tag t =
     (let c = unat t div 2 ^ 29; n = unat t mod 2 ^ 29 in
      if n < 31 then [byte_of (32 * c + n)] else byte_of (32 * c + 31) # base128 n)"

lemma unat_and_0xe0: "unat (b AND 0xe0 :: u8) = unat b div 32 * 32"
proof -
  have "b AND NOT (mask 5) = push_bit 5 (drop_bit 5 b)" by (rule bit_word_eqI) (auto simp: bit_simps)
  moreover have "NOT (mask 5) = (0xe0 :: u8)" by code_simp
  ultimately have e: "b AND 0xe0 = push_bit 5 (drop_bit 5 b)" by simp
  have d: "unat (drop_bit 5 b) = unat b div 32" using unat_drop_bit_div [of 5 b] by simp
  also have "\<dots> < 2 ^ (LENGTH(8) - 5)" using unat_u8_less [of b] by (simp add: less_mult_imp_div_less)
  finally show ?thesis unfolding e by (simp add: unat_push_bit_small d)
qed

lemma unat_tag_class: "unat (push_bit 24 (ucast b AND 0xe0 :: u32)) = unat b div 32 * 2 ^ 29" for b :: u8
proof -
  define x where "x = (ucast b AND 0xe0 :: u32)"
  have e: "x = ucast (b AND 0xe0)" by (simp add: x_def unsigned_and_eq)
  have u: "unat x = unat b div 32 * 32" unfolding e by (simp add: unat_and_0xe0)
  also have "\<dots> < 2 ^ (LENGTH(32) - 24)" using unat_u8_less [of b] by (simp add: less_mult_imp_div_less)
  finally have "unat (push_bit 24 x) = unat x * 2 ^ 24" by (rule unat_push_bit_small) simp
  then show ?thesis using u by (simp add: x_def [symmetric])
qed

lemma unat_tag_or: "unat n < 2 ^ 29 \<Longrightarrow>
  unat (push_bit 24 (ucast b AND 0xe0) OR n :: u32) = unat b div 32 * 2 ^ 29 + unat n" for b :: u8
  using or_disjoint_unat [of "push_bit 24 (ucast b AND 0xe0) :: u32" 29 n] unat_tag_class [of b] by simp

lemma clear_bit_eq_0: "t AND NOT (2 ^ k) = 0 \<longleftrightarrow> take_bit k t = 0 \<and> drop_bit (Suc k) (t :: 'a::len word) = 0"
  (is "?L = ?R")
proof
  assume L: ?L
  have b: "\<not> bit t n" if "n \<noteq> k" for n
  proof -
    have "bit (t AND NOT (2 ^ k)) n \<longleftrightarrow> bit t n"
      using that by (auto simp: bit_simps dest: bit_imp_le_length)
    with L show ?thesis by simp
  qed
  have "take_bit k t = 0" using b by (intro bit_word_eqI) (metis bit_take_bit_iff bit_0_eq bot_apply bot_bool_def less_irrefl)
  moreover have "drop_bit (Suc k) t = 0" using b by (intro bit_word_eqI) (simp add: bit_simps)
  ultimately show ?R by simp
next
  assume R: ?R
  have "\<not> bit t n" if "n \<noteq> k" for n
  proof (cases "n < k")
    case True
    then have "bit (take_bit k t) n = bit t n" by (simp add: bit_simps)
    with R show ?thesis by simp
  next
    case False
    then have "bit (drop_bit (Suc k) t) (n - Suc k) = bit t n" using that by (simp add: bit_simps)
    with R show ?thesis by simp
  qed
  then show ?L by (intro bit_word_eqI) (auto simp: bit_simps)
qed

lemma valid_tag_iff: "valid_tag t \<longleftrightarrow> \<not> (unat t mod 2 ^ 29 = 0 \<and> unat t div 2 ^ 29 < 2)"
proof -
  have "t AND NOT 0x20000000 = 0 \<longleftrightarrow> take_bit 29 t = 0 \<and> drop_bit 30 t = 0"
    using clear_bit_eq_0 [of t 29] by simp
  also have "\<dots> \<longleftrightarrow> unat t mod 2 ^ 29 = 0 \<and> unat t div 2 ^ 30 = 0"
    by (metis unat_take_bit_mod unat_drop_bit_div unat_eq_zero)
  also have "unat t div 2 ^ 30 = 0 \<longleftrightarrow> unat t div 2 ^ 29 < 2" by (simp add: div_eq_0_iff div_less_iff_less_mult)
  finally show ?thesis unfolding valid_tag_def by simp
qed

text \<open>A tag from its first byte and its number.\<close>

lemma der_tag_low:
  assumes "unat b mod 32 \<noteq> 31" "unat t = unat b div 32 * 2 ^ 29 + unat b mod 32"
  shows "der_tag t = [b]"
proof -
  have m: "unat b mod 32 < 31" using assms(1) mod_less_divisor [of 32 "unat b"] by linarith
  have "unat t div 2 ^ 29 = unat b div 32" "unat t mod 2 ^ 29 = unat b mod 32"
    unfolding assms(2) using m by simp_all
  then show ?thesis using m by (simp add: der_tag_def Let_def)
qed

lemma der_tag_high:
  assumes "unat b mod 32 = 31" "unat t = unat b div 32 * 2 ^ 29 + n" "31 \<le> n" "n < 2 ^ 29"
  shows "der_tag t = b # base128 n"
proof -
  have "unat t div 2 ^ 29 = unat b div 32" "unat t mod 2 ^ 29 = n"
    unfolding assms(2) using assms(4) by simp_all
  moreover have "32 * (unat b div 32) + 31 = unat b" using assms(1) by (metis mult_div_mod_eq)
  ultimately show ?thesis using assms(3) by (simp add: der_tag_def Let_def)
qed

lemma parse_asn1_tag_low:
  assumes "asn1_env_ok E" "unat b mod 32 \<noteq> 31"
  shows "\<exists>t. unat t = unat b div 32 * 2 ^ 29 + unat b mod 32 \<and>
    parse_asn1_tag E (b # s) = (if valid_tag t then Some t else None, s)"
proof -
  define n where "n = (ucast (b AND 0x1f) :: u32)"
  have n: "unat n = unat b mod 32" by (simp add: n_def unat_and_0x1f)
  then have "n \<noteq> 0x1f" using assms(2) by (auto simp: word_unat_eq_iff)
  then have "parse_asn1_tag E (b # s) =
      (let t = push_bit 24 (ucast b AND 0xe0) OR n in if valid_tag t then Some t else None, s)"
    using assms(1) by (simp add: parse_asn1_tag_def get_bind_def asn1_env_ok_def valid_tag_def Let_def n_def)
  moreover have "unat (push_bit 24 (ucast b AND 0xe0) OR n) = unat b div 32 * 2 ^ 29 + unat b mod 32"
    using unat_tag_or [of n b] n by simp
  ultimately show ?thesis unfolding Let_def by blast
qed

lemma parse_asn1_tag_high:
  assumes "asn1_env_ok E" "unat b mod 32 = 31"
  shows "parse_asn1_tag E (b # s) = (Some t, s') \<longleftrightarrow>
    (\<exists>v. 31 \<le> unat v \<and> unat v < 2 ^ 29 \<and> parse_base128_integer s = (Some v, s') \<and>
         unat t = unat b div 32 * 2 ^ 29 + unat v)"
proof -
  have x: "(ucast (b AND 0x1f) :: u32) = 0x1f" using assms(2) by (simp add: word_unat_eq_iff unat_and_0x1f)
  let ?t = "\<lambda>v :: u64. push_bit 24 (ucast b AND 0xe0) OR ucast v :: u32"
  have t: "unat (?t v) = unat b div 32 * 2 ^ 29 + unat v" and ok: "valid_tag (?t v)"
    if "31 \<le> unat v" "unat v < 2 ^ 29" for v
  proof -
    have "unat (ucast v :: u32) = unat v" using that by (simp add: unsigned_ucast_eq take_bit_nat_eq_self)
    then show u: "unat (?t v) = unat b div 32 * 2 ^ 29 + unat v" using unat_tag_or [of "ucast v" b] that by simp
    have "unat (?t v) mod 2 ^ 29 = unat v" unfolding u using that by simp
    then show "valid_tag (?t v)" unfolding valid_tag_iff using that by simp
  qed
  have range: "\<not> (0x1fffffff < v \<or> v < 0x1f) \<longleftrightarrow> 31 \<le> unat v \<and> unat v < 2 ^ 29" for v :: u64
    by (auto simp: word_less_nat_alt)
  obtain r s1 where p: "parse_base128_integer s = (r, s1)" by (cases "parse_base128_integer s")
  show ?thesis
  proof (cases r)
    case None
    then show ?thesis
      using assms(1) p x by (simp add: parse_asn1_tag_def get_bind_def asn1_env_ok_def)
  next
    case (Some v)
    have "parse_asn1_tag E (b # s) =
        (if 31 \<le> unat v \<and> unat v < 2 ^ 29 then (if valid_tag (?t v) then Some (?t v) else None) else None, s1)"
      using assms(1) p x Some unfolding range [symmetric]
      by (simp add: parse_asn1_tag_def get_bind_def asn1_env_ok_def valid_tag_def Let_def)
    then show ?thesis using t [of v] ok [of v] p Some by (auto simp: word_unat_eq_iff)
  qed
qed

lemma der_tag_ConsD:
  assumes "der_tag t = b # q"
  shows "unat t = unat b div 32 * 2 ^ 29 + unat t mod 2 ^ 29"
    and "unat b mod 32 \<noteq> 31 \<Longrightarrow> q = [] \<and> unat t mod 2 ^ 29 = unat b mod 32"
    and "unat b mod 32 = 31 \<Longrightarrow> q = base128 (unat t mod 2 ^ 29) \<and> 31 \<le> unat t mod 2 ^ 29"
proof -
  define c n where "c = unat t div 2 ^ 29" and "n = unat t mod 2 ^ 29"
  have "unat t < 2 ^ 32" using unsigned_less [of t] by simp
  then have c: "c < 8" unfolding c_def by (simp add: less_mult_imp_div_less)
  have "(if n < 31 then [byte_of (32 * c + n)] else byte_of (32 * c + 31) # base128 n) = b # q"
    using assms unfolding der_tag_def Let_def c_def n_def .
  then have b: "unat b = 32 * c + (if n < 31 then n else 31)" and q: "q = (if n < 31 then [] else base128 n)"
    using c by (auto split: if_splits)
  have d: "unat b div 32 = c" and m: "unat b mod 32 = (if n < 31 then n else 31)" unfolding b by auto
  have "unat t = c * 2 ^ 29 + n" by (simp add: c_def n_def)
  then show "unat t = unat b div 32 * 2 ^ 29 + unat t mod 2 ^ 29" unfolding d n_def [symmetric] .
  show "unat b mod 32 \<noteq> 31 \<Longrightarrow> q = [] \<and> unat t mod 2 ^ 29 = unat b mod 32"
    "unat b mod 32 = 31 \<Longrightarrow> q = base128 (unat t mod 2 ^ 29) \<and> 31 \<le> unat t mod 2 ^ 29"
    unfolding m n_def [symmetric] q by (auto split: if_splits)
qed

lemma der_tag_ne [simp]: "der_tag t \<noteq> []"
  by (simp add: der_tag_def Let_def)

lemma parse_asn1_tag_iff:
  assumes E: "asn1_env_ok E"
  shows "parse_asn1_tag E s = (Some t, s') \<longleftrightarrow> valid_tag t \<and> s = der_tag t @ s'"
proof (cases s)
  case Nil
  then show ?thesis by (simp add: parse_asn1_tag_def get_bind_def)
next
  case (Cons b r)
  obtain b' q where d: "der_tag t = b' # q" by (metis der_tag_ne neq_Nil_conv)
  show ?thesis
  proof (cases "unat b mod 32 = 31")
    case False
    obtain t1 where t1: "unat t1 = unat b div 32 * 2 ^ 29 + unat b mod 32"
      and p: "parse_asn1_tag E (b # r) = (if valid_tag t1 then Some t1 else None, r)"
      using parse_asn1_tag_low [OF E False] by blast
    have "der_tag t1 = [b]" using False t1 by (rule der_tag_low)
    moreover have "t = t1" if "b # r = der_tag t @ s'"
    proof -
      from that d have "b' = b" by simp
      then have "unat t = unat t1" using der_tag_ConsD(1,2) [OF d] False t1 by simp
      then show ?thesis by (simp add: word_unat_eq_iff)
    qed
    ultimately show ?thesis using p Cons by auto
  next
    case True
    have "(\<exists>v. 31 \<le> unat v \<and> unat v < 2 ^ 29 \<and> parse_base128_integer r = (Some v, s') \<and>
         unat t = unat b div 32 * 2 ^ 29 + unat v) \<longleftrightarrow> valid_tag t \<and> s = der_tag t @ s'" (is "?L = ?R")
    proof
      assume ?L
      then obtain v :: u64 where v: "31 \<le> unat v" "unat v < 2 ^ 29" "r = base128 (unat v) @ s'"
        "unat t = unat b div 32 * 2 ^ 29 + unat v" unfolding parse_base128_iff by blast
      have "unat t mod 2 ^ 29 = unat v" unfolding v(4) using v(2) by simp
      then have "valid_tag t" using v(1) unfolding valid_tag_iff by simp
      with der_tag_high [OF True v(4,1,2)] Cons v(3) show ?R by simp
    next
      assume R: ?R
      with Cons d have b: "b' = b" "r = q @ s'" by auto
      note t = der_tag_ConsD(1,3) [OF d, unfolded b(1)]
      define v :: u64 where "v = word_of_nat (unat t mod 2 ^ 29)"
      have v: "unat v = unat t mod 2 ^ 29" by (simp add: v_def unsigned_of_nat take_bit_nat_eq_self)
      have "r = base128 (unat v) @ s'" "31 \<le> unat v" "unat v < 2 ^ 29"
        using t(2) [OF True] b(2) by (simp_all add: v)
      then show ?L unfolding parse_base128_iff using t(1) v by metis
    qed
    then show ?thesis using parse_asn1_tag_high [OF E True] Cons by simp
  qed
qed

lemma der_tag_length: "length (der_tag t) \<le> 11"
proof -
  have "unat t mod 2 ^ 29 < 2 ^ 64" using mod_less_divisor [of "2 ^ 29" "unat t"] by (simp add: less_trans)
  from base128_len64 [OF this] show ?thesis by (auto simp: der_tag_def Let_def)
qed

section \<open>Lengths and elements\<close>

definition der_len_len :: "nat \<Rightarrow> nat" where
  "der_len_len n = (if n < 2 ^ 8 then 1 else if n < 2 ^ 16 then 2 else if n < 2 ^ 24 then 3 else 4)"

definition der_len :: "nat \<Rightarrow> u8 list" where
  "der_len n = (if n < 128 then [byte_of n] else byte_of (128 + der_len_len n) # nat_to_be (der_len_len n) n)"

definition der_element :: "u32 \<Rightarrow> u8 list \<Rightarrow> u8 list" where
  "der_element t c = der_tag t @ der_len (length c) @ c"

lemma der_len_lenI: "256 ^ (k - 1) \<le> n \<Longrightarrow> n < 256 ^ k \<Longrightarrow> 1 \<le> k \<Longrightarrow> k \<le> 4 \<Longrightarrow> der_len_len n = k"
proof -
  assume a: "256 ^ (k - 1) \<le> n" "n < 256 ^ k" "1 \<le> k" "k \<le> 4"
  then have "k = 1 \<or> k = 2 \<or> k = 3 \<or> k = 4" by linarith
  then show ?thesis using a by (elim disjE) (auto simp: der_len_len_def)
qed

lemma der_len_len_bounds:
  "n < 2 ^ 32 \<Longrightarrow> n < 256 ^ der_len_len n" "0 < n \<Longrightarrow> 256 ^ (der_len_len n - 1) \<le> n"
  "1 \<le> der_len_len n" "der_len_len n \<le> 4"
  by (auto simp: der_len_len_def)

text \<open>Parsing of the length bytes of a DER element that has the tag \<open>t\<close>.\<close>

definition der_header :: "u32 \<Rightarrow> nat \<Rightarrow> u8 list" where
  "der_header t n = der_tag t @ der_len n"

definition der_elem :: "u32 \<Rightarrow> u8 list \<Rightarrow> asn1_element" where
  "der_elem t c = \<lparr>el_out = der_element t c, el_tag = t, el_header_len = length (der_header t (length c)),
     el_ber_found = False, el_indefinite = False\<rparr>"

lemma element_take:
  assumes "s = h @ r" "n \<le> length r"
  shows "get_bind (CBS_get_bytes (n + length h) s) k = k (h @ take n r) (drop n r)"
  using assms by (simp add: CBS_get_bytes_def cbs_get_def get_bind_def)

lemma element_short:
  assumes "s = h @ r" "\<not> n \<le> length r"
  shows "get_bind (CBS_get_bytes (n + length h) s) k = (None, s)"
  using assms by (simp add: CBS_get_bytes_def cbs_get_def get_bind_def)

lemma any_element_no_tag:
  "asn1_env_ok E \<Longrightarrow> \<nexists>t r. valid_tag t \<and> s = der_tag t @ r \<Longrightarrow> cbs_get_any_asn1_element E ber s = (None, s)"
  using parse_asn1_tag_iff [of E s]
  by (cases "parse_asn1_tag E s"; cases "fst (parse_asn1_tag E s)")
     (auto simp: cbs_get_any_asn1_element_def split: option.splits)

lemma any_element_no_len:
  "asn1_env_ok E \<Longrightarrow> valid_tag t \<Longrightarrow> cbs_get_any_asn1_element E ber (der_tag t) = (None, der_tag t)"
  using parse_asn1_tag_iff [of E "der_tag t" t "[]"]
  by (simp add: cbs_get_any_asn1_element_def)

lemma any_element_short_form:
  assumes E: "asn1_env_ok E" and t: "valid_tag t" and b: "unat b < 128"
  shows "cbs_get_any_asn1_element E ber (der_tag t @ b # r) =
    (if unat b \<le> length r then (Some (der_elem t (take (unat b) r)), drop (unat b) r)
     else (None, der_tag t @ b # r))"
proof -
  let ?s = "der_tag t @ b # r"
  have p: "parse_asn1_tag E ?s = (Some t, b # r)" using parse_asn1_tag_iff [OF E] t by simp
  have len: "length ?s - length r = length (der_tag t @ [b])" by simp
  have dl: "der_len (unat b) = [b]" using b by (simp add: der_len_def)
  show ?thesis
  proof (cases "unat b \<le> length r")
    case True
    then show ?thesis
      using p and_0x80_iff [of b] b element_take [of ?s "der_tag t @ [b]" r "unat b"] len
      by (simp add: cbs_get_any_asn1_element_def Let_def der_elem_def der_element_def der_header_def dl min_absorb2)
  next
    case False
    then show ?thesis
      using p and_0x80_iff [of b] b element_short [of ?s "der_tag t @ [b]" r "unat b"] len
      by (simp add: cbs_get_any_asn1_element_def Let_def)
  qed
qed

definition long_elem :: "u32 \<Rightarrow> u8 \<Rightarrow> nat \<Rightarrow> nat \<Rightarrow> bool \<Rightarrow> u8 list \<Rightarrow> asn1_element" where
  "long_elem t b k n ber r = \<lparr>el_out = der_tag t @ b # take (k + n) r, el_tag = t,
     el_header_len = length (der_tag t) + 1 + k, el_ber_found = ber, el_indefinite = False\<rparr>"

lemma unat_long_form: "128 \<le> unat (b :: u8) \<Longrightarrow> unat (b AND 0x7f) = unat b - 128"
  by (simp add: unat_and_0x7f unat_mod_128)

lemma any_element_bad_long_form:
  assumes E: "asn1_env_ok E" and t: "valid_tag t" and b: "128 \<le> unat b"
    and k: "k = unat b - 128" "\<not> (ber \<and> t AND 0x20000000 \<noteq> 0 \<and> k = 0)" "k = 0 \<or> 4 < k \<or> length r < k"
  shows "cbs_get_any_asn1_element E ber (der_tag t @ b # r) = (None, der_tag t @ b # r)"
proof -
  have p: "parse_asn1_tag E (der_tag t @ b # r) = (Some t, b # r)" using parse_asn1_tag_iff [OF E] t by simp
  have lf: "b AND 0x80 \<noteq> 0" "unat (b AND 0x7f) = k" using b k(1) by (simp_all add: and_0x80_iff unat_long_form)
  have c: "CONSTRUCTED E = 0x20000000" using E by (simp add: asn1_env_ok_def)
  show ?thesis
  proof (cases "k = 0 \<or> 4 < k")
    case True
    then show ?thesis using p lf k(2) c by (auto simp: cbs_get_any_asn1_element_def Let_def)
  next
    case False
    then have "cbs_get_u k r = (None, r)" using k(3) by (simp add: cbs_get_u_eq)
    with False show ?thesis using p lf k(2) c by (auto simp: cbs_get_any_asn1_element_def Let_def)
  qed
qed

lemma any_element_long_form:
  assumes E: "asn1_env_ok E" and t: "valid_tag t" and b: "128 \<le> unat b"
    and k: "k = unat b - 128" "1 \<le> k" "k \<le> 4" "k \<le> length r"
    and n: "n = be_to_nat (take k r)" and m: "m \<longleftrightarrow> n < 128 \<or> n < 256 ^ (k - 1)"
  shows "cbs_get_any_asn1_element E ber (der_tag t @ b # r) =
    (if m \<and> \<not> ber \<or> length r < k + n then (None, der_tag t @ b # r)
     else (Some (long_elem t b k n m r), drop (k + n) r))"
proof -
  let ?s = "der_tag t @ b # r"
  have p: "parse_asn1_tag E ?s = (Some t, b # r)" using parse_asn1_tag_iff [OF E] t by simp
  have lf: "b AND 0x80 \<noteq> 0" "unat (b AND 0x7f) = k" using b k(1) by (simp_all add: and_0x80_iff unat_long_form)
  have g: "cbs_get_u k r = (Some (word_of_nat n), drop k r)" using k by (simp add: cbs_get_u_eq n)
  have lt: "n < 256 ^ k" using be_to_nat_less [of "take k r"] k(4) by (simp add: n)
  also have "\<dots> \<le> (256 :: nat) ^ 4" using k(3) by (intro power_increasing) simp_all
  finally have n32: "n < 2 ^ 32" by simp
  have u: "unat (word_of_nat n :: u64) = n" using n32 by (simp add: unsigned_of_nat take_bit_nat_eq_self)
  have c1: "(word_of_nat n :: u64) < 128 \<longleftrightarrow> n < 128" unfolding word_less_nat_alt u by simp
  have c2: "drop_bit ((k - 1) * 8) (word_of_nat n :: u64) = 0 \<longleftrightarrow> n < 256 ^ (k - 1)"
  proof -
    have "(2 :: nat) ^ ((k - 1) * 8) = 256 ^ (k - 1)"
      by (simp only: mult.commute [of "k - 1" 8] power_mult) simp
    then have "unat (drop_bit ((k - 1) * 8) (word_of_nat n :: u64)) = n div 256 ^ (k - 1)"
      unfolding unat_drop_bit_div u by simp
    then show ?thesis by (metis div_eq_0_iff power_not_zero unat_eq_zero zero_neq_numeral)
  qed
  define hl where "hl = length (der_tag t) + 1"
  have hl: "length ?s - length r = hl" "hl \<le> 12" using der_tag_length [of t] by (simp_all add: hl_def)
  have small: "n + hl + k < 2 ^ 64" using n32 hl(2) k(3) by simp
  have sz: "size_add (size_add n hl) k = n + hl + k" "size_add n (size_add hl k) = n + hl + k"
    using small by simp_all
  have out: "get_bind (CBS_get_bytes (n + hl + k) ?s) f =
    (if length r < k + n then (None, ?s) else f (der_tag t @ b # take (k + n) r) (drop (k + n) r))" for f :: "_ \<Rightarrow> _ \<Rightarrow> asn1_element option \<times> _"
    by (simp add: CBS_get_bytes_def cbs_get_def get_bind_def hl_def ac_simps)
  have "cbs_get_any_asn1_element E ber ?s =
      (if m \<and> \<not> ber then (None, ?s)
       else get_bind (CBS_get_bytes (n + hl + k) ?s) (\<lambda>out s.
         (Some \<lparr>el_out = out, el_tag = t, el_header_len = hl + k, el_ber_found = m, el_indefinite = False\<rparr>, s)))"
    unfolding m c1 [symmetric] c2 [symmetric]
    using p lf g k(2,3) hl(1) sz u by (simp add: cbs_get_any_asn1_element_def Let_def)
  then show ?thesis unfolding out by (simp add: long_elem_def hl_def)
qed

lemma long_elem_der:
  assumes "128 \<le> unat b" "k = unat b - 128" "1 \<le> k" "k \<le> 4" "k + n \<le> length r"
    "n = be_to_nat (take k r)" "128 \<le> n" "256 ^ (k - 1) \<le> n"
  shows "long_elem t b k n False r = der_elem t (take n (drop k r))" "length (take n (drop k r)) = n"
    and "der_element t (take n (drop k r)) = der_tag t @ b # take (k + n) r"
proof -
  have "n < 256 ^ k" using be_to_nat_less [of "take k r"] assms(5,6) by simp
  then have k: "der_len_len n = k" using assms by (intro der_len_lenI) simp_all
  have b: "byte_of (128 + k) = b" using assms(1,2) by simp
  have be: "nat_to_be k n = take k r" using assms(5,6) by simp
  have dl: "der_len n = b # take k r" using assms(7) by (simp add: der_len_def k b be)
  show l: "length (take n (drop k r)) = n" using assms(5) by simp
  show e: "der_element t (take n (drop k r)) = der_tag t @ b # take (k + n) r"
    unfolding der_element_def l dl by (simp add: take_add)
  have "length (der_header t n) = length (der_tag t) + 1 + k" using assms(5) by (simp add: der_header_def dl)
  then show "long_elem t b k n False r = der_elem t (take n (drop k r))"
    unfolding long_elem_def der_elem_def e l by simp
qed

lemma any_der_element_sound:
  assumes E: "asn1_env_ok E" and r: "cbs_get_any_asn1_element E False s = (Some el, s')"
  obtains t c where "valid_tag t" "length c < 2 ^ 32" "s = der_element t c @ s'" "el = der_elem t c"
proof -
  obtain t h where t: "valid_tag t" and s: "s = der_tag t @ h" 
    using any_element_no_tag [OF E, of s False] r by (metis option.distinct(1) prod.inject)
  then obtain b q where h: "h = b # q" using any_element_no_len [OF E t] r by (cases h) auto
  show thesis
  proof (cases "unat b < 128")
    case True
    then have b: "unat b \<le> length q" "el = der_elem t (take (unat b) q)" "s' = drop (unat b) q"
      using any_element_short_form [OF E t True, of False q] r s h by (auto split: if_splits)
    show thesis
    proof (rule that [of t "take (unat b) q"])
      have "der_len (unat b) = [b]" using True by (simp add: der_len_def)
      then show "s = der_element t (take (unat b) q) @ s'" using s h b by (simp add: der_element_def min_absorb2)
    qed (use t b True in auto)
  next
    case False
    then have b: "128 \<le> unat b" by simp
    define k where "k = unat b - 128"
    have "\<not> (k = 0 \<or> 4 < k \<or> length q < k)"
      using any_element_bad_long_form [OF E t b k_def, of False q] r unfolding s h
      by (metis option.distinct(1) prod.inject)
    then have k: "1 \<le> k" "k \<le> 4" "k \<le> length q" by linarith+
    define n where "n = be_to_nat (take k q)"
    have n: "128 \<le> n" "256 ^ (k - 1) \<le> n" "k + n \<le> length q" "el = long_elem t b k n False q" "s' = drop (k + n) q"
      using any_element_long_form [OF E t b k_def k n_def refl, of False] r unfolding s h
      by (simp_all split: if_splits)
    note d = long_elem_der(1,3) [OF b k_def k(1,2) n(3) n_def n(1,2), of t]
      long_elem_der(2) [OF b k_def k(1,2) n(3) n_def n(1,2)]
    have "n < 256 ^ k" using be_to_nat_less [of "take k q"] k(3) by (simp add: n_def)
    also have "\<dots> \<le> (256 :: nat) ^ 4" using k(2) by (intro power_increasing) simp_all
    finally have n32: "n < 2 ^ 32" by simp
    show thesis
      by (rule that [of t "take n (drop k q)"]) (use t n n32 d s h in auto)
  qed
qed

lemma any_der_element_complete:
  assumes E: "asn1_env_ok E" and t: "valid_tag t" and c: "length c < 2 ^ 32"
  shows "cbs_get_any_asn1_element E ber (der_element t c @ s') = (Some (der_elem t c), s')"
proof (cases "length c < 128")
  case True
  then have u: "unat (byte_of (length c)) = length c" by simp
  from True have "unat (byte_of (length c)) < 128" by simp
  from any_element_short_form [OF E t this, of ber "c @ s'"] True u show ?thesis
    by (simp add: der_element_def der_len_def del: unat_byte_of)
next
  case False
  define n k where "n = length c" and "k = der_len_len n"
  have k: "1 \<le> k" "k \<le> 4" using der_len_len_bounds(3,4) by (simp_all add: k_def)
  have "0 < n" "128 \<le> n" "n < 2 ^ 32" using False c by (simp_all only: n_def not_less)
  then have n: "n < 256 ^ k" "256 ^ (k - 1) \<le> n" "128 \<le> n"
    using der_len_len_bounds(1,2) [of n] by (simp_all only: k_def)
  define b q where "b = byte_of (128 + k)" and "q = nat_to_be k n @ c @ s'"
  have b: "128 \<le> unat b" "k = unat b - 128" using k by (simp_all add: b_def)
  have be: "n = be_to_nat (take k q)" using n(1) by (simp add: q_def)
  have kq: "k \<le> length q" "k + n \<le> length q" by (simp_all add: q_def n_def)
  have s: "der_element t c @ s' = der_tag t @ b # q"
    using False by (simp add: der_element_def der_len_def b_def q_def k_def n_def)
  have d: "take n (drop k q) = c" "drop (k + n) q = s'" by (simp_all add: q_def n_def)
  show ?thesis
    unfolding s any_element_long_form [OF E t b(1) b(2) k kq(1) be refl, of ber]
    using n kq(2) long_elem_der(1) [OF b(1) b(2) k kq(2) be n(3) n(2), of t] d by simp
qed

lemma any_der_element_iff:
  assumes "asn1_env_ok E"
  shows "cbs_get_any_asn1_element E False s = (Some el, s') \<longleftrightarrow>
    (\<exists>t c. valid_tag t \<and> length c < 2 ^ 32 \<and> s = der_element t c @ s' \<and> el = der_elem t c)"
  using any_der_element_sound [OF assms] any_der_element_complete [OF assms] by metis

lemma any_element_keeps:
  "cbs_get_any_asn1_element E ber s = (None, s') \<Longrightarrow> s' = s"
  by (auto simp: cbs_get_any_asn1_element_def Let_def get_bind_def CBS_get_bytes_def cbs_get_def
      split: prod.splits option.splits if_splits)

lemma any_element_reject:
  assumes "asn1_env_ok E" "\<nexists>t c r. valid_tag t \<and> length c < 2 ^ 32 \<and> s = der_element t c @ r"
  shows "cbs_get_any_asn1_element E False s = (None, s)"
proof -
  obtain el s' where r: "cbs_get_any_asn1_element E False s = (el, s')" by fastforce
  show ?thesis
  proof (cases el)
    case None
    with r any_element_keeps show ?thesis by blast
  next
    case (Some e)
    with r any_der_element_iff [OF assms(1), of s e s'] assms(2) show ?thesis by blast
  qed
qed

lemma der_elem_sel [simp]:
  "el_out (der_elem t c) = der_element t c" "el_tag (der_elem t c) = t"
  "CBS_skip (el_header_len (der_elem t c)) (der_element t c) = (Some (), c)"
  "el_header_len (der_elem t c) = length (der_header t (length c))"
  by (simp_all add: der_elem_def CBS_skip_def cbs_get_def get_bind_def der_element_def der_header_def)

lemma CBS_get_any_asn1_complete:
  "asn1_env_ok E \<Longrightarrow> valid_tag t \<Longrightarrow> length c < 2 ^ 32 \<Longrightarrow>
   CBS_get_any_asn1 E (der_element t c @ s) = (Some (c, t), s)"
  by (simp add: CBS_get_any_asn1_def CBS_get_any_asn1_element_def any_der_element_complete get_bind_def
      del: der_elem_sel(4))

lemma cbs_get_asn1_complete:
  "asn1_env_ok E \<Longrightarrow> valid_tag t \<Longrightarrow> length c < 2 ^ 32 \<Longrightarrow>
   cbs_get_asn1 E u skip (der_element t c @ s) = (if t = u then Some (if skip then c else der_element t c) else None, s)"
  by (simp add: cbs_get_asn1_def CBS_get_any_asn1_element_def any_der_element_complete get_bind_def
      del: der_elem_sel(4))

lemma cbs_get_asn1_reject:
  "asn1_env_ok E \<Longrightarrow> \<nexists>t c r. valid_tag t \<and> length c < 2 ^ 32 \<and> s = der_element t c @ r \<Longrightarrow>
   cbs_get_asn1 E u skip s = (None, s)"
  by (simp add: cbs_get_asn1_def CBS_get_any_asn1_element_def any_element_reject get_bind_def)

lemma cbs_get_asn1_iff:
  assumes E: "asn1_env_ok E"
  shows "cbs_get_asn1 E u skip s = (Some out, s') \<longleftrightarrow>
    (\<exists>c. valid_tag u \<and> length c < 2 ^ 32 \<and> s = der_element u c @ s' \<and> out = (if skip then c else der_element u c))"
proof (cases "\<exists>t c r. valid_tag t \<and> length c < 2 ^ 32 \<and> s = der_element t c @ r")
  case True
  then obtain t c r where t: "valid_tag t" "length c < 2 ^ 32" "s = der_element t c @ r" by blast
  have uniq: "t = u \<and> c = c' \<and> r = s'" if "valid_tag u" "length c' < 2 ^ 32" "s = der_element u c' @ s'" for c'
  proof -
    have "CBS_get_any_asn1 E s = (Some (c, t), r)" unfolding t(3) using E t(1,2) by (rule CBS_get_any_asn1_complete)
    moreover have "CBS_get_any_asn1 E s = (Some (c', u), s')"
      unfolding that(3) using E that(1,2) by (rule CBS_get_any_asn1_complete)
    ultimately show ?thesis by simp
  qed
  show ?thesis
    unfolding t(3) cbs_get_asn1_complete [OF E t(1,2)] using uniq t by (auto split: if_splits)
next
  case False
  with cbs_get_asn1_reject [OF E False, of u skip] show ?thesis by auto
qed

lemma CBS_get_asn1_iff:
  "asn1_env_ok E \<Longrightarrow> CBS_get_asn1 E u s = (Some c, s') \<longleftrightarrow> valid_tag u \<and> length c < 2 ^ 32 \<and> s = der_element u c @ s'"
  by (auto simp: CBS_get_asn1_def cbs_get_asn1_iff)

lemma CBS_peek_asn1_tag_iff:
  "asn1_env_ok E \<Longrightarrow> CBS_peek_asn1_tag E t s \<longleftrightarrow> valid_tag t \<and> (\<exists>r. s = der_tag t @ r)"
  using parse_asn1_tag_iff [of E s t] by (cases "parse_asn1_tag E s") (auto simp: CBS_peek_asn1_tag_def)

lemma der_element_length: "2 \<le> length (der_element t c)"
proof -
  have "1 \<le> length (der_tag t)" by (simp add: Suc_le_eq)
  moreover have "1 \<le> length (der_len (length c))" by (simp add: der_len_def)
  ultimately show ?thesis by (simp add: der_element_def)
qed

text \<open>No element is a proper prefix of another one.\<close>

lemma der_element_prefix_free:
  assumes "valid_tag t" "length c < 2 ^ 32" "valid_tag t'" "length c' < 2 ^ 32"
    and "der_element t c @ r = der_element t' c' @ r'"
  shows "t = t' \<and> c = c' \<and> r = r'"
proof -
  define E where "E = \<lparr>TAG_SHIFT = 24, CONSTRUCTED = 0x20000000, TAG_NUMBER_MASK = 0x1fffffff, TAG_BOOLEAN = 1,
    TAG_INTEGER = 2, TAG_OCTETSTRING = 4, TAG_STRINGS = [], isdigit = (\<lambda>c. 48 \<le> c \<and> c \<le> 57)\<rparr>"
  have E: "asn1_env_ok E" by (simp add: asn1_env_ok_def E_def)
  have "CBS_get_any_asn1 E (der_element t c @ r) = (Some (c, t), r)"
    using E assms(1,2) by (rule CBS_get_any_asn1_complete)
  moreover have "CBS_get_any_asn1 E (der_element t c @ r) = (Some (c', t'), r')"
    unfolding assms(5) using E assms(3,4) by (rule CBS_get_any_asn1_complete)
  ultimately show ?thesis by simp
qed

text \<open>An element takes at least one byte, whatever the constants are: the loops over elements end.\<close>

lemma parse_asn1_tag_len:
  assumes "parse_asn1_tag E s = (Some t, h)"
  shows "length h < length s \<and> length s \<le> length h + 11"
proof -
  obtain b r where s: "s = b # r" using assms by (cases s) (auto simp: parse_asn1_tag_def get_bind_def)
  show ?thesis
  proof (cases "h = r")
    case False
    then obtain v where "parse_base128_integer r = (Some v, h)"
      using assms s by (auto simp: parse_asn1_tag_def get_bind_def Let_def split: prod.splits option.splits if_splits)
    then have "r = base128 (unat v) @ h" unfolding parse_base128_iff .
    moreover have "length (base128 (unat v)) \<le> 10" using unsigned_less [of v] by (intro base128_len64) simp
    ultimately show ?thesis using s by simp
  qed (use s in simp)
qed

lemma any_element_progress:
  assumes "cbs_get_any_asn1_element E ber s = (Some el, s')"
  shows "length s' < length s"
proof -
  obtain t h where p: "parse_asn1_tag E s = (Some t, h)"
    using assms by (auto simp: cbs_get_any_asn1_element_def split: prod.splits option.splits)
  note len = parse_asn1_tag_len [OF p]
  obtain b r where h: "h = b # r"
    using assms p by (cases h) (auto simp: cbs_get_any_asn1_element_def)
  define hl where "hl = length s - length r"
  have hl: "0 < hl" "hl \<le> 12" using len h by (auto simp: hl_def)
  have out: "length s' < length s" if "get_bind (CBS_get_bytes n s) (\<lambda>out s. (Some (f out), s)) = (Some el, s')" "0 < n" for n f
    using that by (auto simp: CBS_get_bytes_def cbs_get_def get_bind_def split: if_splits)
  consider (short) "b AND 0x80 = 0"
    | (indefinite) "b AND 0x80 \<noteq> 0" "ber \<and> t AND CONSTRUCTED E \<noteq> 0 \<and> unat (b AND 0x7f) = 0"
    | (long) "b AND 0x80 \<noteq> 0" "\<not> (ber \<and> t AND CONSTRUCTED E \<noteq> 0 \<and> unat (b AND 0x7f) = 0)" by blast
  then show ?thesis
  proof cases
    case short
    then show ?thesis
      using assms p h hl out [of "unat b + hl"] by (simp add: cbs_get_any_asn1_element_def Let_def hl_def)
  next
    case indefinite
    then show ?thesis
      using assms p h hl out [of hl] by (simp add: cbs_get_any_asn1_element_def Let_def hl_def)
  next
    case long
    define k where "k = unat (b AND 0x7f)"
    have k: "1 \<le> k" "k \<le> 4" "k \<le> length r"
      using assms p h long
      by (auto simp: cbs_get_any_asn1_element_def Let_def cbs_get_u_eq k_def [symmetric] not_less Suc_le_eq split: if_splits)
    define n where "n = be_to_nat (take k r)"
    have "n < 256 ^ k" using be_to_nat_less [of "take k r"] k(3) by (simp add: n_def)
    also have "\<dots> \<le> (256 :: nat) ^ 4" using k(2) by (intro power_increasing) simp_all
    finally have n: "n < 2 ^ 32" by simp
    have u: "unat (word_of_nat n :: u64) = n" using n by (simp add: unsigned_of_nat take_bit_nat_eq_self)
    have "n + hl + k < 2 ^ 64" using n hl(2) k(2) by simp
    then have sz: "size_add n (size_add hl k) = n + hl + k" by simp
    have g: "cbs_get_u k r = (Some (word_of_nat n), drop k r)" using k by (simp add: cbs_get_u_eq n_def)
    show ?thesis
      using assms p h long g u sz k hl out [of "n + hl + k"]
      by (auto simp: cbs_get_any_asn1_element_def Let_def hl_def k_def [symmetric] split: if_splits)
  qed
qed

end
