(* ===== verification/BS_Cbb.thy ===== *)
theory BS_Cbb
  imports BS_Der
begin

text \<open>
  \<open>bytestring/cbb.c\<close> of BoringSSL: the builder of byte strings with nested length prefixes. The
  top-level \<open>CBB\<close> owns the buffer; a \<open>CBB\<close> that is being filled may have one pending child, which may
  have a child in turn, all of them writing to the same buffer. The pointers from parent to child
  form a chain, so a state is the buffer with the list of pending children, outermost first, and a
  handle is a position in the chain: \<open>0\<close> is the top-level \<open>CBB\<close>, \<open>d + 1\<close> the child of \<open>d\<close>.

  A handle beyond the chain is a child that the chain no longer leads to. If it has been flushed or discarded, its
  base pointer is null: \<open>CBB_flush\<close> checks for that and returns zero, \<open>CBB_did_write\<close> and \<open>cbb_on_error\<close>
  dereference the pointer. \<open>CBB_discard_child\<close> and \<open>cbb_on_error\<close> clear one pointer only and may leave children
  behind whose base pointer is still set; these are not followed, but \<open>cb_orphans\<close> records that there may be some. The
  flag \<open>bf_fault\<close> is set when a null pointer is dereferenced, when a handle beyond the chain is used that may be such an orphan, and
  when a byte of a length or an integer is written outside the buffer. It is never cleared.

  The memory of the buffer is the list \<open>bf_buf\<close> of \<open>cap\<close> bytes, of which the first \<open>len\<close> are
  in use. A copy that left the buffer would change the length of the list. The allocator is the parameter \<open>H\<close>: whether a request of a size succeeds, and what fresh
  memory contains.
\<close>

section \<open>Definitions\<close>

record allocator =
  alloc_ok :: "nat \<Rightarrow> bool"
  junk :: "nat \<Rightarrow> u8"

record cbb_buffer =
  bf_buf :: "u8 list"
  bf_len :: nat
  bf_cap :: nat
  bf_can_resize :: bool
  bf_error :: bool
  bf_fault :: bool

record cbb_child =
  ch_offset :: nat
  ch_pending_len_len :: nat
  ch_pending_is_asn1 :: bool

record cbb =
  cb_base :: cbb_buffer
  cb_chain :: "cbb_child list"
  cb_orphans :: bool

subsection \<open>Buffers\<close>

definition CBB_zero :: cbb where
  "CBB_zero = \<lparr>cb_base = \<lparr>bf_buf = [], bf_len = 0, bf_cap = 0, bf_can_resize = False, bf_error = False, bf_fault = False\<rparr>,
     cb_chain = [], cb_orphans = False\<rparr>"

definition cbb_init :: "u8 list \<Rightarrow> nat \<Rightarrow> bool \<Rightarrow> cbb" where
  "cbb_init buf cap can_resize =
     \<lparr>cb_base = \<lparr>bf_buf = buf, bf_len = 0, bf_cap = cap, bf_can_resize = can_resize, bf_error = False, bf_fault = False\<rparr>,
      cb_chain = [], cb_orphans = False\<rparr>"

definition CBB_init :: "allocator \<Rightarrow> nat \<Rightarrow> bool \<times> cbb" where
  "CBB_init H initial_capacity =
     (if 0 < initial_capacity \<and> \<not> alloc_ok H initial_capacity then (False, CBB_zero)
      else (True, cbb_init (map (junk H) [0..<initial_capacity]) initial_capacity True))"

definition CBB_init_fixed :: "u8 list \<Rightarrow> bool \<times> cbb" where
  "CBB_init_fixed buf = (True, cbb_init buf (length buf) False)"

text \<open>The buffer that is handed to \<open>OPENSSL_free\<close>, if any.\<close>

definition CBB_cleanup :: "nat \<Rightarrow> cbb \<Rightarrow> u8 list option" where
  "CBB_cleanup d st =
     (if d \<noteq> 0 then None else if bf_can_resize (cb_base st) then Some (bf_buf (cb_base st)) else None)"

definition cbb_buffer_reserve :: "allocator \<Rightarrow> nat \<Rightarrow> cbb_buffer \<Rightarrow> bool \<times> cbb_buffer" where
  "cbb_buffer_reserve H len base =
     (let newlen = size_add (bf_len base) len in
      if newlen < bf_len base then (False, base\<lparr>bf_error := True\<rparr>)
      else if bf_cap base < newlen then
        if \<not> bf_can_resize base then (False, base\<lparr>bf_error := True\<rparr>)
        else
          let newcap0 = size_add (bf_cap base) (bf_cap base);
              newcap = (if newcap0 < bf_cap base \<or> newcap0 < newlen then newlen else newcap0) in
          if \<not> alloc_ok H newcap then (False, base\<lparr>bf_error := True\<rparr>)
          else (True, base\<lparr>bf_buf := bf_buf base @ map (junk H) [bf_cap base..<newcap], bf_cap := newcap\<rparr>)
      else (True, base))"

definition cbb_buffer_add :: "allocator \<Rightarrow> nat \<Rightarrow> cbb_buffer \<Rightarrow> bool \<times> cbb_buffer" where
  "cbb_buffer_add H len base =
     and_then (cbb_buffer_reserve H len base) (\<lambda>base. (True, base\<lparr>bf_len := bf_len base + len\<rparr>))"

text \<open>A write of the bytes \<open>bs\<close> at an offset of the buffer (\<open>memcpy\<close>, \<open>memset\<close>).\<close>

definition mem_put :: "nat \<Rightarrow> u8 list \<Rightarrow> u8 list \<Rightarrow> u8 list" where
  "mem_put pos bs buf = take pos buf @ bs @ drop (pos + length bs) buf"

text \<open>\<open>for (i = n - 1; i < n; i--) { buf[pos + i] = (uint8_t)v; v >>= 8; }\<close>\<close>

primrec put_be_loop :: "nat \<Rightarrow> nat \<Rightarrow> nat \<Rightarrow> u8 list \<Rightarrow> (nat \<times> u8 list) option" where
  "put_be_loop 0 pos v buf = Some (v, buf)"
| "put_be_loop (Suc i) pos v buf =
     (if pos + i < length buf then put_be_loop i pos (v div 256) (buf[pos + i := word_of_nat v]) else None)"

subsection \<open>Pending length prefixes\<close>

definition cbb_fault :: "cbb \<Rightarrow> cbb" where
  "cbb_fault st = st\<lparr>cb_base := (cb_base st)\<lparr>bf_fault := True\<rparr>\<rparr>"

definition cbb_on_error :: "nat \<Rightarrow> cbb \<Rightarrow> cbb" where
  "cbb_on_error d st =
     (if length (cb_chain st) < d then cbb_fault st
      else st\<lparr>cb_base := (cb_base st)\<lparr>bf_error := True\<rparr>, cb_chain := take d (cb_chain st),
              cb_orphans := cb_orphans st \<or> d < length (cb_chain st)\<rparr>)"

text \<open>The number of length bytes and the first of them for an ASN.1 element of \<open>len\<close> bytes.\<close>

definition asn1_len_bytes :: "nat \<Rightarrow> (nat \<times> u8) option" where
  "asn1_len_bytes len =
     (if len > 0xfffffffe then None
      else if len > 0xffffff then Some (5, 0x84)
      else if len > 0xffff then Some (4, 0x83)
      else if len > 0xff then Some (3, 0x82)
      else if len > 0x7f then Some (2, 0x81)
      else Some (1, word_of_nat len))"

text \<open>The part of \<open>CBB_flush\<close> after the child has been flushed: the length is written.\<close>

definition flush_write :: "allocator \<Rightarrow> cbb_child \<Rightarrow> nat \<Rightarrow> cbb_buffer \<Rightarrow> bool \<times> cbb_buffer" where
  "flush_write H child child_start base =
     (let len = bf_len base - child_start;
          finish = (\<lambda>offset pending len base.
            case put_be_loop pending offset len (bf_buf base) of
              None \<Rightarrow> (False, base\<lparr>bf_fault := True\<rparr>)
            | Some (len, buf) \<Rightarrow> (len = 0, base\<lparr>bf_buf := buf\<rparr>)) in
      if ch_pending_is_asn1 child then
        (case asn1_len_bytes len of
           None \<Rightarrow> (False, base)
         | Some (len_len, initial_length_byte) \<Rightarrow>
             and_then
               (if len_len \<noteq> 1 then
                  and_then (cbb_buffer_add H (len_len - 1) base) (\<lambda>base.
                    (True, base\<lparr>bf_buf := mem_put (child_start + (len_len - 1))
                       (take len (drop child_start (bf_buf base))) (bf_buf base)\<rparr>))
                else (True, base))
               (\<lambda>base. if length (bf_buf base) \<le> ch_offset child then (False, base\<lparr>bf_fault := True\<rparr>)
                  else finish (ch_offset child + 1) (len_len - 1) (if len_len = 1 then 0 else len)
                    (base\<lparr>bf_buf := (bf_buf base)[ch_offset child := initial_length_byte]\<rparr>)))
      else finish (ch_offset child) (ch_pending_len_len child) len base)"

function CBB_flush :: "allocator \<Rightarrow> nat \<Rightarrow> cbb \<Rightarrow> bool \<times> cbb" where
  "CBB_flush H d st =
     (if length (cb_chain st) < d \<or> bf_error (cb_base st)
      then (False, if length (cb_chain st) < d \<and> cb_orphans st \<and> \<not> bf_error (cb_base st) then cbb_fault st else st)
      else if length (cb_chain st) = d then (True, st)
      else
        let child = cb_chain st ! d;
            child_start = size_add (ch_offset child) (ch_pending_len_len child) in
        case CBB_flush H (Suc d) st of
          (ok, st) \<Rightarrow>
            if \<not> ok \<or> child_start < ch_offset child \<or> bf_len (cb_base st) < child_start
            then (False, cbb_on_error d st)
            else
              (case flush_write H child child_start (cb_base st) of
                 (ok, base) \<Rightarrow>
                   if \<not> ok then (False, cbb_on_error d (st\<lparr>cb_base := base\<rparr>))
                   else (True, st\<lparr>cb_base := base, cb_chain := take d (cb_chain st)\<rparr>)))"
  by pat_completeness auto
termination
  by (relation "measure (\<lambda>(H, d, st). length (cb_chain st) - d)") auto

declare CBB_flush.simps [simp del]

text \<open>
  The result is the finished buffer. The out-pointers may be null for a buffer of fixed size only.
\<close>

definition CBB_finish :: "allocator \<Rightarrow> bool \<Rightarrow> nat \<Rightarrow> cbb \<Rightarrow> u8 list option \<times> cbb" where
  "CBB_finish H have_out d st =
     (if d \<noteq> 0 then (None, st)
      else case CBB_flush H d st of
             (False, st) \<Rightarrow> (None, st)
           | (True, st) \<Rightarrow>
               if bf_can_resize (cb_base st) \<and> \<not> have_out then (None, st)
               else (Some (take (bf_len (cb_base st)) (bf_buf (cb_base st))),
                     st\<lparr>cb_base := (cb_base st)\<lparr>bf_buf := []\<rparr>\<rparr>))"

definition CBB_data :: "nat \<Rightarrow> cbb \<Rightarrow> nat" where
  "CBB_data d st =
     (if d \<noteq> 0 then (let c = cb_chain st ! (d - 1) in ch_offset c + ch_pending_len_len c) else 0)"

definition CBB_len :: "nat \<Rightarrow> cbb \<Rightarrow> nat" where
  "CBB_len d st =
     (if d \<noteq> 0 then
        (let c = cb_chain st ! (d - 1) in bf_len (cb_base st) - ch_offset c - ch_pending_len_len c)
      else bf_len (cb_base st))"

text \<open>The new child gets the handle \<open>d + 1\<close>.\<close>

definition cbb_add_child :: "allocator \<Rightarrow> nat \<Rightarrow> bool \<Rightarrow> nat \<Rightarrow> cbb \<Rightarrow> bool \<times> cbb" where
  "cbb_add_child H len_len is_asn1 d st =
     (case cbb_buffer_add H len_len (cb_base st) of
        (False, base) \<Rightarrow> (False, st\<lparr>cb_base := base\<rparr>)
      | (True, base) \<Rightarrow>
          let offset = bf_len (cb_base st) in
          (True, st\<lparr>cb_base := base\<lparr>bf_buf := mem_put offset (replicate len_len 0) (bf_buf base)\<rparr>,
                    cb_chain := take d (cb_chain st) @
                      [\<lparr>ch_offset = offset, ch_pending_len_len = len_len, ch_pending_is_asn1 = is_asn1\<rparr>]\<rparr>))"

definition cbb_add_length_prefixed :: "allocator \<Rightarrow> nat \<Rightarrow> nat \<Rightarrow> cbb \<Rightarrow> bool \<times> cbb" where
  "cbb_add_length_prefixed H len_len d st =
     and_then (CBB_flush H d st) (cbb_add_child H len_len False d)"

definition CBB_add_u8_length_prefixed :: "allocator \<Rightarrow> nat \<Rightarrow> cbb \<Rightarrow> bool \<times> cbb" where
  "CBB_add_u8_length_prefixed H d st = cbb_add_length_prefixed H 1 d st"

definition CBB_add_u16_length_prefixed :: "allocator \<Rightarrow> nat \<Rightarrow> cbb \<Rightarrow> bool \<times> cbb" where
  "CBB_add_u16_length_prefixed H d st = cbb_add_length_prefixed H 2 d st"

definition CBB_add_u24_length_prefixed :: "allocator \<Rightarrow> nat \<Rightarrow> cbb \<Rightarrow> bool \<times> cbb" where
  "CBB_add_u24_length_prefixed H d st = cbb_add_length_prefixed H 3 d st"

subsection \<open>Bytes and integers\<close>

text \<open>The space starts at the offset \<open>bf_len\<close> of the flushed buffer.\<close>

definition CBB_add_space :: "allocator \<Rightarrow> nat \<Rightarrow> nat \<Rightarrow> cbb \<Rightarrow> bool \<times> cbb" where
  "CBB_add_space H len d st =
     and_then (CBB_flush H d st) (\<lambda>st.
       case cbb_buffer_add H len (cb_base st) of (ok, base) \<Rightarrow> (ok, st\<lparr>cb_base := base\<rparr>))"

definition CBB_reserve :: "allocator \<Rightarrow> nat \<Rightarrow> nat \<Rightarrow> cbb \<Rightarrow> bool \<times> cbb" where
  "CBB_reserve H len d st =
     and_then (CBB_flush H d st) (\<lambda>st.
       case cbb_buffer_reserve H len (cb_base st) of (ok, base) \<Rightarrow> (ok, st\<lparr>cb_base := base\<rparr>))"

definition CBB_did_write :: "nat \<Rightarrow> nat \<Rightarrow> cbb \<Rightarrow> bool \<times> cbb" where
  "CBB_did_write len d st =
     (let base = cb_base st; newlen = size_add (bf_len base) len in
      if length (cb_chain st) < d then (False, cbb_fault st)
      else if length (cb_chain st) \<noteq> d \<or> newlen < bf_len base \<or> bf_cap base < newlen then (False, st)
      else (True, st\<lparr>cb_base := base\<lparr>bf_len := newlen\<rparr>\<rparr>))"

text \<open>A write to the space of \<open>n\<close> bytes that has just been added.\<close>

definition fill_space :: "nat \<Rightarrow> u8 list \<Rightarrow> cbb \<Rightarrow> cbb" where
  "fill_space n bs st =
     st\<lparr>cb_base := (cb_base st)\<lparr>bf_buf := mem_put (bf_len (cb_base st) - n) bs (bf_buf (cb_base st))\<rparr>\<rparr>"

definition CBB_add_bytes :: "allocator \<Rightarrow> u8 list \<Rightarrow> nat \<Rightarrow> cbb \<Rightarrow> bool \<times> cbb" where
  "CBB_add_bytes H data d st =
     and_then (CBB_add_space H (length data) d st) (\<lambda>st. (True, fill_space (length data) data st))"

definition CBB_add_zeros :: "allocator \<Rightarrow> nat \<Rightarrow> nat \<Rightarrow> cbb \<Rightarrow> bool \<times> cbb" where
  "CBB_add_zeros H len d st =
     and_then (CBB_add_space H len d st) (\<lambda>st. (True, fill_space len (replicate len 0) st))"

definition cbb_add_u :: "allocator \<Rightarrow> u64 \<Rightarrow> nat \<Rightarrow> nat \<Rightarrow> cbb \<Rightarrow> bool \<times> cbb" where
  "cbb_add_u H v len_len d st =
     and_then (CBB_add_space H len_len d st) (\<lambda>st.
       case put_be_loop len_len (bf_len (cb_base st) - len_len) (unat v) (bf_buf (cb_base st)) of
         None \<Rightarrow> (False, cbb_fault st)
       | Some (v, buf) \<Rightarrow>
           let st = st\<lparr>cb_base := (cb_base st)\<lparr>bf_buf := buf\<rparr>\<rparr> in
           if v \<noteq> 0 then (False, cbb_on_error d st) else (True, st))"

definition CBB_add_u8 :: "allocator \<Rightarrow> u8 \<Rightarrow> nat \<Rightarrow> cbb \<Rightarrow> bool \<times> cbb" where
  "CBB_add_u8 H value d st = cbb_add_u H (ucast value) 1 d st"

definition CBB_add_u16 :: "allocator \<Rightarrow> u16 \<Rightarrow> nat \<Rightarrow> cbb \<Rightarrow> bool \<times> cbb" where
  "CBB_add_u16 H value d st = cbb_add_u H (ucast value) 2 d st"

definition CBB_add_u16le :: "allocator \<Rightarrow> u16 \<Rightarrow> nat \<Rightarrow> cbb \<Rightarrow> bool \<times> cbb" where
  "CBB_add_u16le H value d st = CBB_add_u16 H (CRYPTO_bswap2 value) d st"

definition CBB_add_u24 :: "allocator \<Rightarrow> u32 \<Rightarrow> nat \<Rightarrow> cbb \<Rightarrow> bool \<times> cbb" where
  "CBB_add_u24 H value d st = cbb_add_u H (ucast value) 3 d st"

definition CBB_add_u32 :: "allocator \<Rightarrow> u32 \<Rightarrow> nat \<Rightarrow> cbb \<Rightarrow> bool \<times> cbb" where
  "CBB_add_u32 H value d st = cbb_add_u H (ucast value) 4 d st"

definition CBB_add_u32le :: "allocator \<Rightarrow> u32 \<Rightarrow> nat \<Rightarrow> cbb \<Rightarrow> bool \<times> cbb" where
  "CBB_add_u32le H value d st = CBB_add_u32 H (CRYPTO_bswap4 value) d st"

definition CBB_add_u64 :: "allocator \<Rightarrow> u64 \<Rightarrow> nat \<Rightarrow> cbb \<Rightarrow> bool \<times> cbb" where
  "CBB_add_u64 H value d st = cbb_add_u H value 8 d st"

definition CBB_add_u64le :: "allocator \<Rightarrow> u64 \<Rightarrow> nat \<Rightarrow> cbb \<Rightarrow> bool \<times> cbb" where
  "CBB_add_u64le H value d st = CBB_add_u64 H (CRYPTO_bswap8 value) d st"

definition CBB_discard_child :: "nat \<Rightarrow> cbb \<Rightarrow> cbb" where
  "CBB_discard_child d st =
     (if length (cb_chain st) < d then (if cb_orphans st then cbb_fault st else st)
      else if length (cb_chain st) = d then st
      else st\<lparr>cb_base := (cb_base st)\<lparr>bf_len := ch_offset (cb_chain st ! d)\<rparr>, cb_chain := take d (cb_chain st),
              cb_orphans := cb_orphans st \<or> Suc d < length (cb_chain st)\<rparr>)"

subsection \<open>ASN.1\<close>

lemma drop_bit_less: "v \<noteq> 0 \<Longrightarrow> unat (drop_bit 7 v) < unat (v :: u64)"
  by (simp add: unat_drop_bit_div unat_gt_0 del: unat_0_iff)

function base128_len :: "u64 \<Rightarrow> nat" where
  "base128_len v = (if v = 0 then 0 else Suc (base128_len (drop_bit 7 v)))"
  by pat_completeness auto
termination
  by (relation "measure unat") (auto simp: drop_bit_less)

declare base128_len.simps [simp del]

primrec add_base128_loop :: "allocator \<Rightarrow> u64 \<Rightarrow> nat \<Rightarrow> nat \<Rightarrow> cbb \<Rightarrow> bool \<times> cbb" where
  "add_base128_loop H v 0 d st = (True, st)"
| "add_base128_loop H v (Suc i) d st =
     (let byte = ucast (drop_bit (7 * i) v) AND 0x7f;
          byte = (if i \<noteq> 0 then byte OR 0x80 else byte) in
      and_then (CBB_add_u8 H byte d st) (add_base128_loop H v i d))"

definition add_base128_integer :: "allocator \<Rightarrow> u64 \<Rightarrow> nat \<Rightarrow> cbb \<Rightarrow> bool \<times> cbb" where
  "add_base128_integer H v d st =
     (let len_len = (if base128_len v = 0 then 1 else base128_len v) in add_base128_loop H v len_len d st)"

definition CBB_add_asn1 :: "allocator \<Rightarrow> asn1_env \<Rightarrow> u32 \<Rightarrow> nat \<Rightarrow> cbb \<Rightarrow> bool \<times> cbb" where
  "CBB_add_asn1 H E tag d st =
     and_then (CBB_flush H d st) (\<lambda>st.
       let tag_bits = ucast (drop_bit (TAG_SHIFT E) tag) AND 0xe0 :: u8;
           tag_number = tag AND TAG_NUMBER_MASK E in
       and_then
         (if 0x1f \<le> tag_number then
            and_then (CBB_add_u8 H (tag_bits OR 0x1f) d st) (add_base128_integer H (ucast tag_number) d)
          else CBB_add_u8 H (tag_bits OR ucast tag_number) d st)
         (cbb_add_child H 1 True d))"

text \<open>\<open>err: cbb_on_error(cbb); return 0;\<close>\<close>

definition or_error :: "nat \<Rightarrow> bool \<times> cbb \<Rightarrow> bool \<times> cbb" where
  "or_error d r = (case r of (ok, st) \<Rightarrow> if ok then (True, st) else (False, cbb_on_error d st))"

text \<open>The loop over the bytes of the value, most significant first.\<close>

primrec uint64_bytes_loop :: "allocator \<Rightarrow> u8 list \<Rightarrow> bool \<Rightarrow> nat \<Rightarrow> cbb \<Rightarrow> bool \<times> cbb" where
  "uint64_bytes_loop H [] started d st = (if \<not> started then CBB_add_u8 H 0 d st else (True, st))"
| "uint64_bytes_loop H (byte # bytes) started d st =
     (if \<not> started then
        if byte = 0 then uint64_bytes_loop H bytes False d st
        else
          and_then (if byte AND 0x80 \<noteq> 0 then CBB_add_u8 H 0 d st else (True, st)) (\<lambda>st.
          and_then (CBB_add_u8 H byte d st) (uint64_bytes_loop H bytes True d))
      else and_then (CBB_add_u8 H byte d st) (uint64_bytes_loop H bytes True d))"

definition CBB_add_asn1_uint64_with_tag :: "allocator \<Rightarrow> asn1_env \<Rightarrow> u64 \<Rightarrow> u32 \<Rightarrow> nat \<Rightarrow> cbb \<Rightarrow> bool \<times> cbb" where
  "CBB_add_asn1_uint64_with_tag H E value tag d st =
     (case or_error d
        (and_then (CBB_add_asn1 H E tag d st)
           (uint64_bytes_loop H (map (\<lambda>i. ucast (drop_bit (8 * (7 - i)) value AND 0xff)) [0..<8]) False (Suc d))) of
        (ok, st) \<Rightarrow> if ok then CBB_flush H d st else (False, st))"

definition CBB_add_asn1_uint64 :: "allocator \<Rightarrow> asn1_env \<Rightarrow> u64 \<Rightarrow> nat \<Rightarrow> cbb \<Rightarrow> bool \<times> cbb" where
  "CBB_add_asn1_uint64 H E value d st = CBB_add_asn1_uint64_with_tag H E value (TAG_INTEGER E) d st"

primrec int64_start :: "u8 list \<Rightarrow> nat \<Rightarrow> nat" where
  "int64_start bytes 0 = 0"
| "int64_start bytes (Suc start) =
     (if bytes ! Suc start = 0xff \<and> bytes ! start AND 0x80 \<noteq> 0 then int64_start bytes start else Suc start)"

text \<open>\<open>for (int i = start; i >= 0; i--)\<close>, with \<open>n = start + 1\<close>.\<close>

primrec add_down_loop :: "allocator \<Rightarrow> u8 list \<Rightarrow> nat \<Rightarrow> nat \<Rightarrow> cbb \<Rightarrow> bool \<times> cbb" where
  "add_down_loop H bytes 0 d st = (True, st)"
| "add_down_loop H bytes (Suc i) d st =
     and_then (CBB_add_u8 H (bytes ! i) d st) (add_down_loop H bytes i d)"

text \<open>An \<open>int64_t\<close> is given by its bit pattern.\<close>

definition CBB_add_asn1_int64_with_tag :: "allocator \<Rightarrow> asn1_env \<Rightarrow> u64 \<Rightarrow> u32 \<Rightarrow> nat \<Rightarrow> cbb \<Rightarrow> bool \<times> cbb" where
  "CBB_add_asn1_int64_with_tag H E value tag d st =
     (if 0 \<le> sint value then CBB_add_asn1_uint64_with_tag H E value tag d st
      else
        let bytes = nat_to_le 8 (unat value);
            start = int64_start bytes 7 in
        case or_error d
          (and_then (CBB_add_asn1 H E tag d st) (add_down_loop H bytes (start + 1) (Suc d))) of
          (ok, st) \<Rightarrow> if ok then CBB_flush H d st else (False, st))"

definition CBB_add_asn1_int64 :: "allocator \<Rightarrow> asn1_env \<Rightarrow> u64 \<Rightarrow> nat \<Rightarrow> cbb \<Rightarrow> bool \<times> cbb" where
  "CBB_add_asn1_int64 H E value d st = CBB_add_asn1_int64_with_tag H E value (TAG_INTEGER E) d st"

definition CBB_add_asn1_octet_string :: "allocator \<Rightarrow> asn1_env \<Rightarrow> u8 list \<Rightarrow> nat \<Rightarrow> cbb \<Rightarrow> bool \<times> cbb" where
  "CBB_add_asn1_octet_string H E data d st =
     or_error d
       (and_then (CBB_add_asn1 H E (TAG_OCTETSTRING E) d st) (\<lambda>st.
        and_then (CBB_add_bytes H data (Suc d) st) (CBB_flush H d)))"

definition CBB_add_asn1_bool :: "allocator \<Rightarrow> asn1_env \<Rightarrow> bool \<Rightarrow> nat \<Rightarrow> cbb \<Rightarrow> bool \<times> cbb" where
  "CBB_add_asn1_bool H E value d st =
     or_error d
       (and_then (CBB_add_asn1 H E (TAG_BOOLEAN E) d st) (\<lambda>st.
        and_then (CBB_add_u8 H (if value then 0xff else 0) (Suc d) st) (CBB_flush H d)))"

subsection \<open>SET OF\<close>

text \<open>\<open>OPENSSL_memcmp\<close> of two blocks of the same length, as the sign of the first difference.\<close>

fun OPENSSL_memcmp :: "u8 list \<Rightarrow> u8 list \<Rightarrow> int" where
  "OPENSSL_memcmp (x # xs) (y # ys) = (if x = y then OPENSSL_memcmp xs ys else if x < y then - 1 else 1)"
| "OPENSSL_memcmp _ _ = 0"

definition compare_set_of_element :: "cbs \<Rightarrow> cbs \<Rightarrow> int" where
  "compare_set_of_element a b =
     (let a_len = length a; b_len = length b;
          min_len = (if a_len < b_len then a_len else b_len);
          ret = OPENSSL_memcmp (take min_len a) (take min_len b) in
      if ret \<noteq> 0 then ret
      else if a_len = b_len then 0
      else if a_len < b_len then - 1 else 1)"

lemma CBS_get_any_asn1_element_length:
  "CBS_get_any_asn1_element E s = (Some el, s') \<Longrightarrow> length s' < length s"
  unfolding CBS_get_any_asn1_element_def by (rule any_element_progress)

text \<open>The first loop counts the elements, the second one reads as many again.\<close>

function count_children :: "asn1_env \<Rightarrow> cbs \<Rightarrow> nat option" where
  "count_children E s =
     (if length s = 0 then Some 0
      else case CBS_get_any_asn1_element E s of
             (None, _) \<Rightarrow> None
           | (Some _, s) \<Rightarrow> map_option Suc (count_children E s))"
  by pat_completeness auto
termination
  by (relation "measure (\<lambda>(E, s). length s)") (auto dest: CBS_get_any_asn1_element_length [OF sym])

declare count_children.simps [simp del]

primrec get_children :: "asn1_env \<Rightarrow> nat \<Rightarrow> cbs \<Rightarrow> cbs list option" where
  "get_children E 0 s = Some []"
| "get_children E (Suc n) s =
     (case CBS_get_any_asn1_element E s of
        (None, _) \<Rightarrow> None
      | (Some el, s) \<Rightarrow> map_option (Cons (el_out el)) (get_children E n s))"

text \<open>\<open>qsort\<close> with a comparison function: the elements in an order that it accepts.\<close>

primrec qsort_insert :: "('a \<Rightarrow> 'a \<Rightarrow> int) \<Rightarrow> 'a \<Rightarrow> 'a list \<Rightarrow> 'a list" where
  "qsort_insert cmp x [] = [x]"
| "qsort_insert cmp x (y # ys) = (if cmp x y \<le> 0 then x # y # ys else y # qsort_insert cmp x ys)"

primrec qsort :: "('a \<Rightarrow> 'a \<Rightarrow> int) \<Rightarrow> 'a list \<Rightarrow> 'a list" where
  "qsort cmp [] = []"
| "qsort cmp (x # xs) = qsort_insert cmp x (qsort cmp xs)"

primrec write_children :: "nat \<Rightarrow> cbs list \<Rightarrow> u8 list \<Rightarrow> u8 list" where
  "write_children offset [] buf = buf"
| "write_children offset (c # cs) buf = write_children (offset + length c) cs (mem_put offset c buf)"

text \<open>A \<open>CBS\<close> has 16 bytes.\<close>

definition CBB_flush_asn1_set_of :: "allocator \<Rightarrow> asn1_env \<Rightarrow> nat \<Rightarrow> cbb \<Rightarrow> bool \<times> cbb" where
  "CBB_flush_asn1_set_of H E d st =
     and_then (CBB_flush H d st) (\<lambda>st.
       let data = take (CBB_len d st) (drop (CBB_data d st) (bf_buf (cb_base st))) in
       case count_children E data of
         None \<Rightarrow> (False, st)
       | Some num_children \<Rightarrow>
           if num_children < 2 then (True, st)
           else if \<not> alloc_ok H (length data) \<or> \<not> alloc_ok H (num_children * 16) then (False, st)
           else
             (case get_children E num_children data of
                None \<Rightarrow> (False, st)
              | Some children \<Rightarrow>
                  (True, st\<lparr>cb_base := (cb_base st)\<lparr>bf_buf :=
                     write_children (CBB_data d st) (qsort compare_set_of_element children)
                       (bf_buf (cb_base st))\<rparr>\<rparr>)))"

end
