(* ===== verification/BS_Cbb_Spec.thy ===== *)
theory BS_Cbb_Spec
  imports BS_Cbb
begin

text \<open>
  What the builder promises. The abstract state is a stack of frames: the bytes of the top-level
  string and, for each pending child, the kind of its length prefix and the bytes written so far.
  Flushing a handle closes the frames above it, each becoming its contents behind their length.
  The functions of \<open>bytestring/cbb.c\<close> refine this: they keep the buffer well-formed, write inside it
  only, and change the frames as the abstract operations do.
\<close>

section \<open>The buffer\<close>

definition used :: "cbb_buffer \<Rightarrow> u8 list" where
  "used b = take (bf_len b) (bf_buf b)"

definition buf_ok :: "cbb_buffer \<Rightarrow> bool" where
  "buf_ok b \<longleftrightarrow> length (bf_buf b) = bf_cap b \<and> bf_len b \<le> bf_cap b \<and> bf_cap b < SIZE_MOD \<and> \<not> bf_fault b"

lemma length_used [simp]: "buf_ok b \<Longrightarrow> length (used b) = bf_len b"
  by (simp add: used_def buf_ok_def)

text \<open>A buffer that has room for \<open>n\<close> more bytes holds the bytes of \<open>b\<close> and is as good.\<close>

definition grown :: "nat \<Rightarrow> cbb_buffer \<Rightarrow> cbb_buffer \<Rightarrow> bool" where
  "grown n b b' \<longleftrightarrow> buf_ok b' \<and> bf_len b' = bf_len b \<and> used b' = used b \<and> bf_len b + n \<le> bf_cap b' \<and>
     bf_error b' = bf_error b \<and> bf_can_resize b' = bf_can_resize b \<and>
     (\<not> bf_can_resize b \<longrightarrow> bf_cap b' = bf_cap b)"

lemma reserve_grown:
  assumes "buf_ok b" "n < SIZE_MOD" "cbb_buffer_reserve H n b = (True, b')"
  shows "grown n b b'"
proof -
  have ok: "length (bf_buf b) = bf_cap b" "bf_len b \<le> bf_cap b" "bf_cap b < SIZE_MOD" "\<not> bf_fault b"
    using assms(1) by (auto simp: buf_ok_def)
  have nowrap: "\<not> size_add (bf_len b) n < bf_len b"
    using assms(3) by (auto simp: cbb_buffer_reserve_def Let_def split: if_splits)
  have sum: "size_add (bf_len b) n = bf_len b + n"
  proof (cases "bf_len b + n < SIZE_MOD")
    case False
    have "bf_len b < SIZE_MOD" using ok by linarith
    then have "bf_len b + n - SIZE_MOD < SIZE_MOD" using assms(2) by linarith
    then have "size_add (bf_len b) n = bf_len b + n - SIZE_MOD"
      unfolding size_add_def using False by (simp only: le_mod_geq mod_less not_less)
    then have "bf_len b \<le> bf_len b + n - SIZE_MOD" using nowrap by simp
    with False assms(2) show ?thesis by linarith
  qed simp
  show ?thesis
  proof (cases "bf_cap b < bf_len b + n")
    case False
    then have "b' = b" using assms(3) nowrap sum by (simp add: cbb_buffer_reserve_def Let_def)
    with False assms(1) show ?thesis by (simp add: grown_def)
  next
    case True
    define nc0 where "nc0 = size_add (bf_cap b) (bf_cap b)"
    define nc where "nc = (if nc0 < bf_cap b \<or> nc0 < bf_len b + n then bf_len b + n else nc0)"
    have nc: "bf_len b + n \<le> nc" "bf_cap b \<le> nc" "nc < SIZE_MOD"
    proof -
      have lt: "bf_len b + n < SIZE_MOD" "nc0 < SIZE_MOD"
        unfolding sum [symmetric] nc0_def by (simp_all add: size_add_def)
      show "bf_len b + n \<le> nc" "bf_cap b \<le> nc" unfolding nc_def using True by auto
      show "nc < SIZE_MOD" unfolding nc_def using lt by (simp split: if_split)
    qed
    have "bf_can_resize b" and b': "b' = b\<lparr>bf_buf := bf_buf b @ map (junk H) [bf_cap b..<nc], bf_cap := nc\<rparr>"
      using assms(3) nowrap sum True
      by (auto simp: cbb_buffer_reserve_def Let_def nc0_def [symmetric] nc_def [symmetric] split: if_splits)
    then show ?thesis using ok nc by (simp add: grown_def buf_ok_def used_def)
  qed
qed

lemma reserve_fails: "cbb_buffer_reserve H n b = (False, b') \<Longrightarrow> b' = b\<lparr>bf_error := True\<rparr>"
  by (auto simp: cbb_buffer_reserve_def Let_def split: if_splits)

lemma buffer_add_ok:
  assumes "buf_ok b" "n < SIZE_MOD" "cbb_buffer_add H n b = (True, b')"
  shows "\<exists>b1. grown n b b1 \<and> b' = b1\<lparr>bf_len := bf_len b + n\<rparr>"
proof -
  obtain ok b1 where r: "cbb_buffer_reserve H n b = (ok, b1)" by fastforce
  with assms(3) have "ok" "b' = b1\<lparr>bf_len := bf_len b1 + n\<rparr>"
    by (cases ok; simp add: cbb_buffer_add_def)+
  moreover from \<open>ok\<close> r have g: "grown n b b1" using reserve_grown [OF assms(1,2)] by simp
  ultimately show ?thesis by (auto simp: grown_def)
qed

lemma buffer_add_fails: "cbb_buffer_add H n b = (False, b') \<Longrightarrow> b' = b\<lparr>bf_error := True\<rparr>"
  unfolding cbb_buffer_add_def
  by (cases "cbb_buffer_reserve H n b"; cases "fst (cbb_buffer_reserve H n b)") (auto dest: reserve_fails)

text \<open>Writes behind the used bytes.\<close>

lemma length_mem_put [simp]: "pos + length bs \<le> length buf \<Longrightarrow> length (mem_put pos bs buf) = length buf"
  by (simp add: mem_put_def)

lemma put_be_loop_eq:
  "pos + n \<le> length buf \<Longrightarrow> put_be_loop n pos v buf = Some (v div 256 ^ n, mem_put pos (nat_to_be n v) buf)"
proof (induction n arbitrary: v buf)
  case 0
  then show ?case by (simp add: mem_put_def nat_to_be_def)
next
  case (Suc n)
  have be: "nat_to_be (Suc n) v = nat_to_be n (v div 256) @ [word_of_nat v]" by (simp add: nat_to_be_def)
  have len: "pos + n < length buf" using Suc.prems by simp
  have "take pos (buf[pos + n := x]) = take pos buf" for x by simp
  moreover have "drop (pos + n) (buf[pos + n := x]) = x # drop (Suc (pos + n)) buf" for x
    using len by (simp add: Cons_nth_drop_Suc [symmetric] flip: Cons_nth_drop_Suc)
  ultimately have "mem_put pos (nat_to_be n (v div 256)) (buf[pos + n := word_of_nat v]) = mem_put pos (nat_to_be (Suc n) v) buf"
    by (simp add: mem_put_def be)
  moreover have "v div 256 div 256 ^ n = v div 256 ^ Suc n" by (simp add: div_mult2_eq)
  ultimately show ?case using Suc.IH [of "buf[pos + n := word_of_nat v]" "v div 256"] Suc.prems by simp
qed

lemma used_append:
  assumes "buf_ok b" "grown n b b1" "length bs = n"
  shows "buf_ok (b1\<lparr>bf_len := bf_len b + n, bf_buf := mem_put (bf_len b) bs (bf_buf b1)\<rparr>)"
    and "used (b1\<lparr>bf_len := bf_len b + n, bf_buf := mem_put (bf_len b) bs (bf_buf b1)\<rparr>) = used b @ bs"
proof -
  have g: "length (bf_buf b1) = bf_cap b1" "bf_cap b1 < SIZE_MOD" "\<not> bf_fault b1" "bf_len b1 = bf_len b"
    "take (bf_len b) (bf_buf b1) = used b" "bf_len b + n \<le> bf_cap b1"
    using assms(2) by (auto simp: grown_def buf_ok_def used_def)
  show "buf_ok (b1\<lparr>bf_len := bf_len b + n, bf_buf := mem_put (bf_len b) bs (bf_buf b1)\<rparr>)"
    using g assms(3) by (simp add: buf_ok_def)
  show "used (b1\<lparr>bf_len := bf_len b + n, bf_buf := mem_put (bf_len b) bs (bf_buf b1)\<rparr>) = used b @ bs"
    using g assms(1,3) by (simp add: used_def buf_ok_def mem_put_def)
qed

section \<open>Frames\<close>

text \<open>The number of length bytes, whether the prefix is an ASN.1 length, and the contents.\<close>

type_synonym frame = "nat \<times> bool \<times> u8 list"

fun absf :: "u8 list \<Rightarrow> nat \<Rightarrow> cbb_child list \<Rightarrow> u8 list \<times> frame list" where
  "absf bs start [] = (drop start bs, [])"
| "absf bs start (c # cs) =
     (take (ch_offset c - start) (drop start bs),
      (case absf bs (ch_offset c + ch_pending_len_len c) cs of
         (body, fs) \<Rightarrow> (ch_pending_len_len c, ch_pending_is_asn1 c, body) # fs))"

definition cbb_abs :: "cbb \<Rightarrow> u8 list \<times> frame list" where
  "cbb_abs st = absf (used (cb_base st)) 0 (cb_chain st)"

definition prefixed :: "nat \<Rightarrow> bool \<Rightarrow> u8 list \<Rightarrow> u8 list option" where
  "prefixed len_len is_asn1 body =
     (if is_asn1 then (if length body \<le> 0xfffffffe then Some (der_len (length body) @ body) else None)
      else if length body < 256 ^ len_len then Some (nat_to_be len_len (length body) @ body)
      else None)"

fun close_frames :: "u8 list \<Rightarrow> frame list \<Rightarrow> u8 list option" where
  "close_frames body [] = Some body"
| "close_frames body ((p, a, b) # fs) =
     (case close_frames b fs of
        None \<Rightarrow> None
      | Some b' \<Rightarrow> map_option (\<lambda>e. body @ e) (prefixed p a b'))"

fun spec_flush :: "nat \<Rightarrow> u8 list \<times> frame list \<Rightarrow> (u8 list \<times> frame list) option" where
  "spec_flush 0 (body, fs) = map_option (\<lambda>b. (b, [])) (close_frames body fs)"
| "spec_flush (Suc d) (body, []) = None"
| "spec_flush (Suc d) (body, (p, a, b) # fs) =
     map_option (\<lambda>(b', fs'). (body, (p, a, b') # fs')) (spec_flush d (b, fs))"

fun spec_append :: "u8 list \<Rightarrow> u8 list \<times> frame list \<Rightarrow> u8 list \<times> frame list" where
  "spec_append x (body, []) = (body @ x, [])"
| "spec_append x (body, (p, a, b) # fs) =
     (case spec_append x (b, fs) of (b', fs') \<Rightarrow> (body, (p, a, b') # fs'))"

fun spec_push :: "nat \<Rightarrow> bool \<Rightarrow> u8 list \<times> frame list \<Rightarrow> u8 list \<times> frame list" where
  "spec_push p a (body, fs) = (body, fs @ [(p, a, [])])"

text \<open>The children lie behind each other inside the used bytes.\<close>

fun chain_ok :: "nat \<Rightarrow> cbb_child list \<Rightarrow> nat \<Rightarrow> bool" where
  "chain_ok start [] len \<longleftrightarrow> start \<le> len"
| "chain_ok start (c # cs) len \<longleftrightarrow> start \<le> ch_offset c \<and> 1 \<le> ch_pending_len_len c \<and> ch_pending_len_len c \<le> 8 \<and>
     (ch_pending_is_asn1 c \<longrightarrow> ch_pending_len_len c = 1) \<and>
     chain_ok (ch_offset c + ch_pending_len_len c) cs len"

definition cbb_ok :: "cbb \<Rightarrow> bool" where
  "cbb_ok st \<longleftrightarrow> buf_ok (cb_base st) \<and> chain_ok 0 (cb_chain st) (bf_len (cb_base st))"

lemma chain_ok_start: "chain_ok start cs len \<Longrightarrow> start \<le> len"
  by (induction start cs len rule: chain_ok.induct) auto

lemma chain_ok_mono: "chain_ok start cs len \<Longrightarrow> len \<le> len' \<Longrightarrow> chain_ok start cs len'"
  by (induction start cs len rule: chain_ok.induct) auto

lemma chain_ok_snoc:
  "chain_ok start (cs @ [c]) len \<longleftrightarrow> chain_ok start cs (ch_offset c) \<and> 1 \<le> ch_pending_len_len c \<and>
     ch_pending_len_len c \<le> 8 \<and> (ch_pending_is_asn1 c \<longrightarrow> ch_pending_len_len c = 1) \<and>
     ch_offset c + ch_pending_len_len c \<le> len"
  by (induction start cs "ch_offset c" rule: chain_ok.induct) auto

lemma chain_ok_take: "chain_ok start cs len \<Longrightarrow> chain_ok start (take d cs) len"
proof (induction start cs len arbitrary: d rule: chain_ok.induct)
  case (2 start c cs len)
  then show ?case
    by (cases d) (auto dest!: chain_ok_start)
qed simp

lemma absf_append: "chain_ok start cs (length bs) \<Longrightarrow> absf (bs @ x) start cs = spec_append x (absf bs start cs)"
proof (induction bs start cs rule: absf.induct)
  case (2 bs start c cs)
  then have "ch_offset c + ch_pending_len_len c \<le> length bs" by (auto dest: chain_ok_start)
  with 2 show ?case by (auto split: prod.splits)
qed simp

lemma absf_push:
  "chain_ok start cs (length bs) \<Longrightarrow> length z = p \<Longrightarrow>
   absf (bs @ z) start (cs @ [\<lparr>ch_offset = length bs, ch_pending_len_len = p, ch_pending_is_asn1 = a\<rparr>]) =
   spec_push p a (absf bs start cs)"
proof (induction bs start cs rule: absf.induct)
  case (2 bs start c cs)
  then have "ch_offset c + ch_pending_len_len c \<le> length bs" by (auto dest: chain_ok_start)
  with 2 show ?case by (auto split: prod.splits)
qed auto

lemma absf_close:
  "chain_ok start (cs @ [c]) (length bs) \<Longrightarrow>
   spec_flush (length cs) (absf bs start (cs @ [c])) =
   map_option (\<lambda>e. absf (take (ch_offset c) bs @ e) start cs)
     (prefixed (ch_pending_len_len c) (ch_pending_is_asn1 c) (drop (ch_offset c + ch_pending_len_len c) bs))"
proof (induction bs start cs rule: absf.induct)
  case (1 bs start)
  then show ?case by (cases "prefixed (ch_pending_len_len c) (ch_pending_is_asn1 c) (drop (ch_offset c + ch_pending_len_len c) bs)")
      (auto simp: take_drop)
next
  case (2 bs start c' cs)
  then have le: "ch_offset c' + ch_pending_len_len c' \<le> ch_offset c" "ch_offset c \<le> length bs"
    by (auto simp: chain_ok_snoc dest: chain_ok_start)
  have tk: "take (ch_offset c' - start) (drop start (take (ch_offset c) bs @ e)) = take (ch_offset c' - start) (drop start bs)" for e
    using le by (simp add: take_drop min_def)
  show ?case
    using 2 tk by (cases "prefixed (ch_pending_len_len c) (ch_pending_is_asn1 c) (drop (ch_offset c + ch_pending_len_len c) bs)")
      (auto split: prod.splits option.splits)
qed

lemma spec_flush_compose:
  "d < length (snd x) \<Longrightarrow> spec_flush d x = Option.bind (spec_flush (Suc d) x) (spec_flush d)"
proof (induction d x rule: spec_flush.induct)
  case (1 body fs)
  then obtain p a b fs' where fs: "fs = (p, a, b) # fs'" by (cases fs) auto
  show ?case unfolding fs by (cases "close_frames b fs'") auto
next
  case (3 d body p a b fs)
  then show ?case
    by (cases "spec_flush (Suc d) (b, fs)") (auto simp: option.map_comp o_def split: prod.splits)
qed auto

lemma length_absf [simp]: "length (snd (absf bs start cs)) = length cs"
  by (induction bs start cs rule: absf.induct) (auto split: prod.splits)

section \<open>Writing a length\<close>

lemma asn1_len_bytes_eq:
  "asn1_len_bytes n =
     (if n \<le> 0xfffffffe then
        (if n < 128 then Some (1, byte_of n) else Some (Suc (der_len_len n), byte_of (128 + der_len_len n)))
      else None)"
  by (simp add: asn1_len_bytes_def der_len_len_def byte_of_def)

text \<open>The parts of a buffer around a pending prefix of \<open>p\<close> bytes at \<open>off\<close>.\<close>

lemma buf_split:
  assumes "off + p + n + k \<le> length buf"
  obtains A z body rest where "buf = A @ z @ body @ rest" "length A = off" "length z = p" "length body = n"
    "k \<le> length rest"
proof (rule that [of "take off buf" "take p (drop off buf)" "take n (drop (off + p) buf)" "drop (off + p + n) buf"])
  show "buf = take off buf @ take p (drop off buf) @ take n (drop (off + p) buf) @ drop (off + p + n) buf"
    by (metis add.assoc append_assoc append_take_drop_id take_add)
qed (use assms in auto)

definition same_kind :: "cbb_buffer \<Rightarrow> cbb_buffer \<Rightarrow> bool" where
  "same_kind b b' \<longleftrightarrow> bf_error b' = bf_error b \<and> bf_can_resize b' = bf_can_resize b \<and>
     (\<not> bf_can_resize b \<longrightarrow> bf_cap b' = bf_cap b)"

lemma same_kind_refl [simp]: "same_kind b b"
  by (simp add: same_kind_def)

lemma same_kind_trans: "same_kind a b \<Longrightarrow> same_kind b c \<Longrightarrow> same_kind a c"
  by (auto simp: same_kind_def)

lemma grown_same_kind: "grown n b b' \<Longrightarrow> same_kind b b'"
  by (simp add: grown_def same_kind_def)

definition closed :: "cbb_child \<Rightarrow> cbb_buffer \<Rightarrow> cbb_buffer \<Rightarrow> bool" where
  "closed c b b' \<longleftrightarrow> buf_ok b' \<and> same_kind b b' \<and>
     map_option (\<lambda>e. take (ch_offset c) (used b) @ e)
       (prefixed (ch_pending_len_len c) (ch_pending_is_asn1 c)
         (drop (ch_offset c + ch_pending_len_len c) (used b))) = Some (used b')"

lemma flush_write_plain:
  assumes b: "buf_ok b" and c: "\<not> ch_pending_is_asn1 c" "ch_offset c + ch_pending_len_len c \<le> bf_len b"
  shows "flush_write H c (ch_offset c + ch_pending_len_len c) b = (True, b') \<Longrightarrow> closed c b b'"
    and "flush_write H c (ch_offset c + ch_pending_len_len c) b = (False, b') \<Longrightarrow>
      prefixed (ch_pending_len_len c) (ch_pending_is_asn1 c) (drop (ch_offset c + ch_pending_len_len c) (used b)) = None"
proof -
  define off p n where "off = ch_offset c" and "p = ch_pending_len_len c" and "n = bf_len b - (off + p)"
  have len: "bf_len b = off + p + n" using c(2) by (simp add: off_def p_def n_def)
  have cap: "length (bf_buf b) = bf_cap b" "bf_len b \<le> bf_cap b" "bf_cap b < SIZE_MOD" "\<not> bf_fault b"
    using b by (auto simp: buf_ok_def)
  obtain A z body rest where s: "bf_buf b = A @ z @ body @ rest" "length A = off" "length z = p" "length body = n"
    by (rule buf_split [of off p n 0 "bf_buf b"]) (use cap len in auto)
  have fw: "flush_write H c (off + p) b =
      (n div 256 ^ p = 0, b\<lparr>bf_buf := A @ nat_to_be p n @ body @ rest\<rparr>)"
    using put_be_loop_eq [of off p "bf_buf b" n] c(1) cap len s
    by (simp add: flush_write_def Let_def off_def [symmetric] p_def [symmetric] mem_put_def)
  have u: "used b = A @ z @ body" using s len by (simp add: used_def)
  have z: "n div 256 ^ p = 0 \<longleftrightarrow> n < 256 ^ p" by (simp add: div_eq_0_iff)
  { assume "flush_write H c (ch_offset c + ch_pending_len_len c) b = (True, b')"
    then have n: "n < 256 ^ p" and b': "b' = b\<lparr>bf_buf := A @ nat_to_be p n @ body @ rest\<rparr>"
      using fw z by (auto simp: off_def p_def)
    have "length (bf_buf b') = bf_cap b'" using b' cap(1) s by simp
    then show "closed c b b'"
      using b' n cap s len c(1)
      by (simp add: closed_def buf_ok_def same_kind_def u prefixed_def off_def [symmetric] p_def [symmetric] used_def) }
  { assume "flush_write H c (ch_offset c + ch_pending_len_len c) b = (False, b')"
    then have "\<not> n < 256 ^ p" using fw z by (auto simp: off_def p_def)
    then show "prefixed (ch_pending_len_len c) (ch_pending_is_asn1 c) (drop (ch_offset c + ch_pending_len_len c) (used b)) = None"
      using c(1) s by (simp add: prefixed_def u off_def [symmetric] p_def [symmetric]) }
qed

text \<open>An element whose length needs more than one byte: its contents move up.\<close>

lemma flush_write_move:
  assumes b: "buf_ok b" and c: "ch_pending_is_asn1 c" "bf_len b = ch_offset c + 1 + n"
    and n: "128 \<le> n" "n \<le> 0xfffffffe" and r: "flush_write H c (ch_offset c + 1) b = (ok, b')"
  shows "if ok then closed c b b' \<or> ch_pending_len_len c \<noteq> 1
    else b' = b\<lparr>bf_error := True\<rparr> \<and> (\<exists>k \<le> 4. \<not> fst (cbb_buffer_add H k b))"
proof -
  define off k where "off = ch_offset c" and "k = der_len_len n"
  have n32: "n < 2 ^ 32" using n(2) by simp
  have k: "1 \<le> k" "k \<le> 4" "n < 256 ^ k" using der_len_len_bounds [of n] n n32 by (simp_all add: k_def)
  have len: "bf_len b - (off + 1) = n" "bf_len b = off + 1 + n" using c(2) by (simp_all add: off_def)
  have ab: "asn1_len_bytes n = Some (Suc k, byte_of (128 + k))" using n by (simp add: asn1_len_bytes_eq k_def)
  obtain ok1 b1 where add: "cbb_buffer_add H k b = (ok1, b1)" by fastforce
  show ?thesis
  proof (cases ok1)
    case False
    then have "b1 = b\<lparr>bf_error := True\<rparr>" using add buffer_add_fails by simp
    moreover have "ok = False" "b' = b1"
      using r False add c(1) ab len k(1) by (simp_all add: flush_write_def Let_def off_def [symmetric])
    moreover have "\<not> fst (cbb_buffer_add H k b)" using add False by simp
    ultimately show ?thesis using k(2) by auto
  next
    case True
    have "k < SIZE_MOD" using k(2) by simp
    then obtain b0 where g: "grown k b b0" and b1: "b1 = b0\<lparr>bf_len := bf_len b + k\<rparr>"
      using buffer_add_ok [OF b, of k H b1] add True by auto
    have cap: "length (bf_buf b0) = bf_cap b0" "bf_len b + k \<le> bf_cap b0" "bf_cap b0 < SIZE_MOD" "bf_len b0 = bf_len b"
      "used b0 = used b" "\<not> bf_fault b0" using g by (auto simp: grown_def buf_ok_def)
    obtain A z body rest where s: "bf_buf b0 = A @ z @ body @ rest" "length A = off" "length z = 1" "length body = n"
      "k \<le> length rest"
      by (rule buf_split [of off 1 n k "bf_buf b0"]) (use cap len in auto)
    obtain z0 where z0: "z = [z0]" using s(3) by (cases z) auto
    have upd: "(A @ x # ys)[off := y] = A @ y # ys" for x y ys using s(2) by (metis list_update_length)
    define buf2 where "buf2 = mem_put (Suc (off + k)) (take n (drop (Suc off) (bf_buf b0))) (bf_buf b0)"
    have buf2: "buf2 = A @ z0 # take k (body @ rest) @ body @ drop k rest"
      unfolding buf2_def mem_put_def s(1) z0 using s k by (simp add: min_def)
    define buf3 where "buf3 = buf2[off := byte_of (128 + k)]"
    have buf3: "buf3 = A @ byte_of (128 + k) # take k (body @ rest) @ body @ drop k rest"
      unfolding buf3_def buf2 by (rule upd)
    have len3: "off + 1 + k \<le> length buf3" unfolding buf3 using s by simp
    define buf4 where "buf4 = A @ byte_of (128 + k) # nat_to_be k n @ body @ drop k rest"
    have put: "put_be_loop k (off + 1) n buf3 = Some (n div 256 ^ k, buf4)"
      using put_be_loop_eq [of "off + 1" k buf3 n] len3 s by (simp add: mem_put_def buf3 buf4_def)
    have fw: "flush_write H c (off + 1) b = (n div 256 ^ k = 0, b1\<lparr>bf_buf := buf4\<rparr>)"
      using add True c(1) ab len(1) put k(1) len3
      by (simp add: flush_write_def Let_def off_def [symmetric] b1 buf2_def [symmetric] buf3_def [symmetric]) (simp add: buf3_def)
    then have res: "ok" "b' = b1\<lparr>bf_buf := buf4\<rparr>" using r k(3) by (simp_all add: off_def)
    have u: "used b = A @ z0 # body" using s z0 len cap by (simp add: used_def flip: cap(5))
    have u': "used b' = A @ byte_of (128 + k) # nat_to_be k n @ body"
      using s len by (simp add: res(2) used_def b1 buf4_def)
    have ok': "buf_ok b'" using s cap by (simp add: res(2) buf_ok_def b1 buf4_def z0)
    have kind: "same_kind b b'" using grown_same_kind [OF g] by (simp add: res(2) b1 same_kind_def)
    have "closed c b b'" if "ch_pending_len_len c = 1"
      using ok' kind that c(1) s n unfolding closed_def u u'
      by (simp add: off_def [symmetric] prefixed_def der_len_def k_def)
    with res(1) show ?thesis by auto
  qed
qed

lemma flush_write_asn1:
  assumes b: "buf_ok b" and c: "ch_pending_is_asn1 c" "ch_pending_len_len c = 1" "ch_offset c + 1 \<le> bf_len b"
    and r: "flush_write H c (ch_offset c + 1) b = (ok, b')"
  shows "if ok then closed c b b'
    else bf_error b' \<and> (\<exists>k \<le> 4. \<not> fst (cbb_buffer_add H k b)) \<or>
      prefixed (ch_pending_len_len c) (ch_pending_is_asn1 c) (drop (ch_offset c + ch_pending_len_len c) (used b)) = None"
proof -
  define off n where "off = ch_offset c" and "n = bf_len b - (off + 1)"
  have len: "bf_len b = off + 1 + n" using c(3) by (simp add: off_def n_def)
  then have len1: "bf_len b - Suc off = n" by simp
  have dl: "length (drop (off + 1) (used b)) = n" using b len by simp
  consider "n < 128" | "128 \<le> n" "n \<le> 0xfffffffe" | "0xfffffffe < n" by linarith
  then show ?thesis
  proof cases
    case 1
    have cap: "length (bf_buf b) = bf_cap b" "bf_len b \<le> bf_cap b" "bf_cap b < SIZE_MOD" "\<not> bf_fault b"
      using b by (auto simp: buf_ok_def)
    obtain A z body rest where s: "bf_buf b = A @ z @ body @ rest" "length A = off" "length z = 1" "length body = n"
      by (rule buf_split [of off 1 n 0 "bf_buf b"]) (use cap len in auto)
    obtain z0 where z0: "z = [z0]" using s(3) by (cases z) auto
    have upd: "(A @ x # ys)[off := y] = A @ y # ys" for x y ys using s(2) by (metis list_update_length)
    have res: "ok" "b' = b\<lparr>bf_buf := A @ byte_of n # body @ rest\<rparr>"
      using r c(1) 1 s by (simp_all add: flush_write_def Let_def off_def [symmetric] len1 asn1_len_bytes_eq z0 upd)
    have "closed c b b'"
      using 1 c s cap len unfolding closed_def
      by (simp add: res(2) buf_ok_def same_kind_def used_def off_def [symmetric] z0 prefixed_def der_len_def)
    with res(1) show ?thesis by simp
  next
    case 2
    from flush_write_move [OF b c(1) len [unfolded off_def] 2 r] c(2) show ?thesis by (auto split: if_splits)
  next
    case 3
    then have "ok = False"
      using r c(1) by (simp add: flush_write_def Let_def off_def [symmetric] len1 asn1_len_bytes_eq)
    moreover have "prefixed (ch_pending_len_len c) (ch_pending_is_asn1 c) (drop (ch_offset c + ch_pending_len_len c) (used b)) = None"
      using 3 c dl by (simp add: prefixed_def off_def)
    ultimately show ?thesis by simp
  qed
qed

section \<open>Flushing\<close>

lemma spec_flush_top: "spec_flush (length (snd x)) x = Some x"
proof -
  have "spec_flush (length fs) (body, fs) = Some (body, fs)" for body fs
    by (induction fs arbitrary: body) auto
  then show ?thesis by (cases x) simp
qed

lemma closed_length:
  assumes "closed c b b'" "buf_ok b" "ch_offset c + ch_pending_len_len c \<le> bf_len b"
    "ch_pending_is_asn1 c \<longrightarrow> ch_pending_len_len c = 1"
  shows "ch_offset c \<le> bf_len b' \<and> bf_len b' \<le> bf_len b + 4"
proof -
  let ?body = "drop (ch_offset c + ch_pending_len_len c) (used b)"
  obtain e where e: "prefixed (ch_pending_len_len c) (ch_pending_is_asn1 c) ?body = Some e"
    and u: "used b' = take (ch_offset c) (used b) @ e" and ok: "buf_ok b'"
    using assms(1) by (auto simp: closed_def)
  have "length (der_len n) \<le> 5" for n using der_len_len_bounds(4) [of n] by (simp add: der_len_def)
  then have "length e \<le> length ?body + ch_pending_len_len c + 4"
    using e assms(4) by (auto simp: prefixed_def split: if_splits)
  moreover have "bf_len b' = ch_offset c + length e" using u ok assms(2,3) by (simp flip: length_used)
  ultimately show ?thesis using assms(2,3) by simp
qed

definition flushed :: "nat \<Rightarrow> cbb \<Rightarrow> cbb \<Rightarrow> bool" where
  "flushed d st st' \<longleftrightarrow> cbb_ok st' \<and> same_kind (cb_base st) (cb_base st') \<and> cb_chain st' = take d (cb_chain st) \<and>
     spec_flush d (cbb_abs st) = Some (cbb_abs st') \<and>
     bf_len (cb_base st') \<le> bf_len (cb_base st) + 4 * (length (cb_chain st) - d)"

lemma flush_write_cases:
  assumes b: "buf_ok b" and c: "ch_offset c + ch_pending_len_len c \<le> bf_len b"
    "ch_pending_is_asn1 c \<longrightarrow> ch_pending_len_len c = 1"
    and r: "flush_write H c (ch_offset c + ch_pending_len_len c) b = (ok, b')"
  shows "if ok then closed c b b'
    else (\<exists>k \<le> 4. \<not> fst (cbb_buffer_add H k b)) \<or>
      prefixed (ch_pending_len_len c) (ch_pending_is_asn1 c) (drop (ch_offset c + ch_pending_len_len c) (used b)) = None"
proof (cases "ch_pending_is_asn1 c")
  case True
  with c have p: "ch_pending_len_len c = 1" "ch_offset c + 1 \<le> bf_len b" by simp_all
  have "flush_write H c (ch_offset c + 1) b = (ok, b')" using r p(1) by simp
  from flush_write_asn1 [OF b True p this] show ?thesis by (auto split: if_splits)
next
  case False
  show ?thesis
    using flush_write_plain [OF b False c(1), of H b'] r by (cases ok) auto
qed

lemma flush_step:
  assumes st: "cbb_ok st" and ch: "cb_chain st = cs @ [c]"
    and w: "flush_write H c (ch_offset c + ch_pending_len_len c) (cb_base st) = (True, b')"
  shows "flushed (length cs) st (st\<lparr>cb_base := b', cb_chain := cs\<rparr>)"
proof -
  let ?b = "cb_base st"
  have b: "buf_ok ?b" and co: "chain_ok 0 (cs @ [c]) (bf_len ?b)" using st ch by (auto simp: cbb_ok_def)
  have c: "chain_ok 0 cs (ch_offset c)" "ch_offset c + ch_pending_len_len c \<le> bf_len ?b"
    "ch_pending_is_asn1 c \<longrightarrow> ch_pending_len_len c = 1" using co by (auto simp: chain_ok_snoc)
  have cl: "closed c ?b b'" using flush_write_cases [OF b c(2,3) w] by simp
  note len = closed_length [OF cl b c(2,3)]
  have "chain_ok 0 cs (bf_len b')" using c(1) len by (auto intro: chain_ok_mono)
  then have ok: "cbb_ok (st\<lparr>cb_base := b', cb_chain := cs\<rparr>)" using cl by (simp add: cbb_ok_def closed_def)
  have "spec_flush (length cs) (cbb_abs st) = Some (absf (used b') 0 cs)"
    using absf_close [of 0 cs c "used ?b"] co b cl unfolding cbb_abs_def ch closed_def by auto
  then show ?thesis using ok cl len ch by (simp add: flushed_def cbb_abs_def closed_def)
qed

lemma flushed_trans:
  assumes "flushed (Suc d) st st1" "flushed d st1 st2" "d < length (cb_chain st)"
  shows "flushed d st st2"
proof -
  have "spec_flush d (cbb_abs st) = Option.bind (spec_flush (Suc d) (cbb_abs st)) (spec_flush d)"
    using assms(3) by (intro spec_flush_compose) (simp add: cbb_abs_def)
  moreover have "length (cb_chain st1) - d = 1" using assms(1,3) by (auto simp: flushed_def min_def)
  then have "bf_len (cb_base st2) \<le> bf_len (cb_base st) + 4 * (length (cb_chain st) - Suc d) + 4"
    using assms(1,2) by (simp add: flushed_def)
  then have "bf_len (cb_base st2) \<le> bf_len (cb_base st) + 4 * (length (cb_chain st) - d)"
    using assms(3) by linarith
  ultimately show ?thesis
    using assms by (auto simp: flushed_def min_def intro: same_kind_trans)
qed

lemma CBB_flush_done: "length (cb_chain st) = d \<Longrightarrow> \<not> bf_error (cb_base st) \<Longrightarrow> CBB_flush H d st = (True, st)"
  by (simp add: CBB_flush.simps)

lemma flushed_refl: "cbb_ok st \<Longrightarrow> length (cb_chain st) = d \<Longrightarrow> flushed d st st"
  using spec_flush_top [of "cbb_abs st"] by (auto simp: flushed_def cbb_abs_def)

lemma CBB_flush_unfold:
  assumes "cbb_ok st" "\<not> bf_error (cb_base st)" "d < length (cb_chain st)"
    and r: "CBB_flush H (Suc d) st = (ok1, st1)" "ok1 \<Longrightarrow> flushed (Suc d) st st1"
  shows "CBB_flush H d st =
    (let c = cb_chain st ! d in
     if \<not> ok1 then (False, cbb_on_error d st1)
     else case flush_write H c (ch_offset c + ch_pending_len_len c) (cb_base st1) of
       (ok, base) \<Rightarrow> if \<not> ok then (False, cbb_on_error d (st1\<lparr>cb_base := base\<rparr>))
                     else (True, st1\<lparr>cb_base := base, cb_chain := take d (cb_chain st1)\<rparr>))"
proof (cases ok1)
  case False
  then show ?thesis using assms by (simp add: CBB_flush.simps [of H d st] Let_def)
next
  case True
  let ?c = "cb_chain st ! d"
  have "flushed (Suc d) st st1" using r(2) True .
  then have "chain_ok 0 (take d (cb_chain st) @ [?c]) (bf_len (cb_base st1))" "buf_ok (cb_base st1)"
    using assms(3) by (auto simp: flushed_def cbb_ok_def take_Suc_conv_app_nth)
  then have le: "ch_offset ?c + ch_pending_len_len ?c \<le> bf_len (cb_base st1)" "bf_len (cb_base st1) < SIZE_MOD"
    unfolding chain_ok_snoc buf_ok_def by linarith+
  then have "size_add (ch_offset ?c) (ch_pending_len_len ?c) = ch_offset ?c + ch_pending_len_len ?c"
    by (intro size_add_small) linarith
  then show ?thesis using assms(2,3) r(1) True le(1) by (simp add: CBB_flush.simps [of H d st] Let_def)
qed

lemma length_on_error [simp]: "d \<le> length (cb_chain st) \<Longrightarrow> length (cb_chain (cbb_on_error d st)) = d"
  by (simp add: cbb_on_error_def)

lemma error_on_error [simp]: "d \<le> length (cb_chain st) \<Longrightarrow> bf_error (cb_base (cbb_on_error d st))"
  by (simp add: cbb_on_error_def)

text \<open>The handle of a call stays in the chain, whether the call succeeds or fails.\<close>

lemma CBB_flush_live: "d \<le> length (cb_chain st) \<Longrightarrow> d \<le> length (cb_chain (snd (CBB_flush H d st)))"
proof (induction H d st rule: CBB_flush.induct)
  case (1 H d st)
  show ?case
  proof (cases "length (cb_chain st) = d \<or> bf_error (cb_base st)")
    case True
    then show ?thesis using "1.prems" by (auto simp: CBB_flush.simps [of H d st])
  next
    case False
    with "1.prems" have d: "d < length (cb_chain st)" "\<not> bf_error (cb_base st)" by simp_all
    obtain ok1 st1 where r: "CBB_flush H (Suc d) st = (ok1, st1)" by fastforce
    have "Suc d \<le> length (cb_chain st1)" using "1.IH" [of "cb_chain st ! d"] d r by simp
    then show ?thesis using d r by (simp add: CBB_flush.simps [of H d st] Let_def split: prod.split)
  qed
qed

lemma CBB_flush_refines:
  assumes "cbb_ok st" "\<not> bf_error (cb_base st)" "d \<le> length (cb_chain st)" "CBB_flush H d st = (ok, st')"
  shows "if ok then flushed d st st' else bf_error (cb_base st')"
  using assms(3,4)
proof (induction "length (cb_chain st) - d" arbitrary: d ok st')
  case 0
  then have d: "length (cb_chain st) = d" by simp
  then show ?case using 0 CBB_flush_done [OF d assms(2)] flushed_refl [OF assms(1) d] by simp
next
  case (Suc m)
  obtain ok1 st1 where r: "CBB_flush H (Suc d) st = (ok1, st1)" by fastforce
  have IH: "if ok1 then flushed (Suc d) st st1 else bf_error (cb_base st1)"
    by (rule Suc.hyps(1) [OF _ _ r]) (use Suc.hyps(2) in linarith)+
  have d: "d < length (cb_chain st)" using Suc.hyps(2) by linarith
  let ?c = "cb_chain st ! d"
  note unf = CBB_flush_unfold [OF assms(1,2) d r, unfolded Let_def]
  show ?case
  proof (cases ok1)
    case False
    have "d \<le> length (cb_chain st1)" using CBB_flush_live [of "Suc d" st H] d r by simp
    then show ?thesis using unf Suc.prems(2) False by auto
  next
    case True
    then have f1: "flushed (Suc d) st st1" using IH by simp
    obtain ok2 b2 where w: "flush_write H ?c (ch_offset ?c + ch_pending_len_len ?c) (cb_base st1) = (ok2, b2)" by fastforce
    show ?thesis
    proof (cases ok2)
      case False
      have "d \<le> length (cb_chain st1)" using CBB_flush_live [of "Suc d" st H] d r by simp
      then show ?thesis using unf True f1 w Suc.prems(2) False by auto
    next
      case ok2: True
      have ch: "cb_chain st1 = take d (cb_chain st) @ [?c]"
        using f1 d by (simp add: flushed_def take_Suc_conv_app_nth)
      have "st' = st1\<lparr>cb_base := b2, cb_chain := take d (cb_chain st)\<rparr>" "ok"
        using unf True f1 w ok2 Suc.prems(2) ch d by simp_all
      moreover have "flushed d st1 (st1\<lparr>cb_base := b2, cb_chain := take d (cb_chain st)\<rparr>)"
      proof -
        have "cbb_ok st1" using f1 by (simp add: flushed_def)
        moreover have "flush_write H ?c (ch_offset ?c + ch_pending_len_len ?c) (cb_base st1) = (True, b2)"
          using w ok2 by simp
        ultimately have "flushed (length (take d (cb_chain st))) st1 (st1\<lparr>cb_base := b2, cb_chain := take d (cb_chain st)\<rparr>)"
          using ch by (intro flush_step)
        then show ?thesis using d by (simp add: min_def)
      qed
      ultimately show ?thesis using flushed_trans [OF f1 _ d] by simp
    qed
  qed
qed

section \<open>Builders that do not run out of memory\<close>

definition roomy :: "allocator \<Rightarrow> nat \<Rightarrow> cbb_buffer \<Rightarrow> bool" where
  "roomy H n b \<longleftrightarrow> (\<forall>k. alloc_ok H k) \<and> bf_can_resize b \<and> bf_len b + n < SIZE_MOD"

lemma buffer_add_total: "roomy H n b \<Longrightarrow> k \<le> n \<Longrightarrow> fst (cbb_buffer_add H k b)"
proof -
  assume "roomy H n b" "k \<le> n"
  then have r: "\<forall>k. alloc_ok H k" "bf_can_resize b" "bf_len b + k < SIZE_MOD"
    by (auto simp: roomy_def)
  then have "\<not> size_add (bf_len b) k < bf_len b" by (simp only: size_add_small)
  then have "fst (cbb_buffer_reserve H k b)" using r(1,2) by (auto simp: cbb_buffer_reserve_def Let_def)
  then show ?thesis by (cases "cbb_buffer_reserve H k b") (simp add: cbb_buffer_add_def)
qed

lemma CBB_flush_total:
  assumes "cbb_ok st" "\<not> bf_error (cb_base st)" "d \<le> length (cb_chain st)"
    and "roomy H (4 * (length (cb_chain st) - d)) (cb_base st)"
  shows "fst (CBB_flush H d st) \<longleftrightarrow> spec_flush d (cbb_abs st) \<noteq> None"
  using assms(3,4)
proof (induction "length (cb_chain st) - d" arbitrary: d)
  case 0
  then have d: "length (cb_chain st) = d" by simp
  then have "flushed d st st" using flushed_refl assms(1) by blast
  then show ?case using CBB_flush_done [OF d assms(2), of H] by (simp add: flushed_def)
next
  case (Suc m)
  obtain ok1 st1 where r: "CBB_flush H (Suc d) st = (ok1, st1)" by fastforce
  have d: "d < length (cb_chain st)" using Suc.hyps(2) by linarith
  have room: "roomy H (4 * (length (cb_chain st) - Suc d)) (cb_base st)" using Suc.prems(2) by (auto simp: roomy_def)
  have IH: "ok1 \<longleftrightarrow> spec_flush (Suc d) (cbb_abs st) \<noteq> None"
    using Suc.hyps(1) [of "Suc d", OF _ _ room] Suc.hyps(2) r d by simp
  have f1: "flushed (Suc d) st st1" if ok1 using CBB_flush_refines [OF assms(1,2) _ r] d that by simp
  have comp: "spec_flush d (cbb_abs st) = Option.bind (spec_flush (Suc d) (cbb_abs st)) (spec_flush d)"
    using d by (intro spec_flush_compose) (simp add: cbb_abs_def)
  let ?c = "cb_chain st ! d"
  note unf = CBB_flush_unfold [OF assms(1,2) d r f1, unfolded Let_def]
  show ?case
  proof (cases ok1)
    case False
    then have "spec_flush (Suc d) (cbb_abs st) = None" using IH by blast
    then show ?thesis using comp unf False by simp
  next
    case True
    note f = f1 [OF True]
    have ch: "cb_chain st1 = take d (cb_chain st) @ [?c]" using f d by (simp add: flushed_def take_Suc_conv_app_nth)
    have st1: "cbb_ok st1" using f by (simp add: flushed_def)
    then have b1: "buf_ok (cb_base st1)" and c: "ch_offset ?c + ch_pending_len_len ?c \<le> bf_len (cb_base st1)"
      "ch_pending_is_asn1 ?c \<longrightarrow> ch_pending_len_len ?c = 1"
      and co: "chain_ok 0 (take d (cb_chain st) @ [?c]) (length (used (cb_base st1)))"
      using ch by (auto simp: cbb_ok_def chain_ok_snoc)
    have "roomy H 4 (cb_base st1)"
      using f Suc.prems(2) d by (auto simp: roomy_def flushed_def same_kind_def)
    then have add: "\<not> (\<exists>k \<le> 4. \<not> fst (cbb_buffer_add H k (cb_base st1)))" using buffer_add_total by blast
    obtain ok2 b2 where w: "flush_write H ?c (ch_offset ?c + ch_pending_len_len ?c) (cb_base st1) = (ok2, b2)" by fastforce
    have ok2: "ok2 \<longleftrightarrow> prefixed (ch_pending_len_len ?c) (ch_pending_is_asn1 ?c)
        (drop (ch_offset ?c + ch_pending_len_len ?c) (used (cb_base st1))) \<noteq> None"
      using flush_write_cases [OF b1 c w] add by (auto simp: closed_def split: if_splits)
    have "spec_flush d (cbb_abs st) = spec_flush d (cbb_abs st1)" using comp f by (simp add: flushed_def)
    then have "spec_flush d (cbb_abs st) \<noteq> None \<longleftrightarrow> ok2"
      using absf_close [OF co] d unfolding cbb_abs_def ch ok2 by (simp add: min_def)
    moreover have "fst (CBB_flush H d st) = ok2" using unf True w by simp
    ultimately show ?thesis by simp
  qed
qed

section \<open>Appending\<close>

lemma CBB_flush_True:
  assumes "cbb_ok st" "CBB_flush H d st = (True, st')"
  shows "flushed d st st'" "\<not> bf_error (cb_base st)" "\<not> bf_error (cb_base st')" "length (cb_chain st') = d"
proof -
  show e: "\<not> bf_error (cb_base st)" and f: "flushed d st st'"
  proof -
    show e: "\<not> bf_error (cb_base st)" using assms(2) by (auto simp: CBB_flush.simps [of H d st] split: if_splits)
    have "d \<le> length (cb_chain st)" using assms(2) by (auto simp: CBB_flush.simps [of H d st] split: if_splits)
    then show "flushed d st st'" using CBB_flush_refines [OF assms(1) e _ assms(2)] by simp
  qed
  then show "\<not> bf_error (cb_base st')" by (simp add: flushed_def same_kind_def)
  have "d \<le> length (cb_chain st)" using assms(2) by (auto simp: CBB_flush.simps [of H d st] split: if_splits)
  then show "length (cb_chain st') = d" using f by (simp add: flushed_def)
qed

text \<open>The call has flushed the handle \<open>d\<close> and added the bytes \<open>x\<close> to its frame.\<close>

definition appends :: "nat \<Rightarrow> u8 list \<Rightarrow> cbb \<Rightarrow> cbb \<Rightarrow> bool" where
  "appends d x st st' \<longleftrightarrow> cbb_ok st' \<and> \<not> bf_error (cb_base st') \<and> length (cb_chain st') = d \<and>
     same_kind (cb_base st) (cb_base st') \<and>
     Some (cbb_abs st') = map_option (spec_append x) (spec_flush d (cbb_abs st))"

lemma spec_append_append: "spec_append y (spec_append x z) = spec_append (x @ y) z"
  by (induction x z rule: spec_append.induct) (auto split: prod.splits)

lemma spec_append_frames [simp]: "length (snd (spec_append x z)) = length (snd z)"
  by (induction x z rule: spec_append.induct) (auto split: prod.splits)

lemma spec_append_Nil [simp]: "spec_append [] z = z"
proof -
  have "x = [] \<Longrightarrow> spec_append x z = z" for x
    by (induction x z rule: spec_append.induct) (auto split: prod.splits)
  then show ?thesis by simp
qed

lemma length_cbb_abs [simp]: "length (snd (cbb_abs st)) = length (cb_chain st)"
  by (simp add: cbb_abs_def)

lemma flushed_appends: "CBB_flush H d st = (True, st') \<Longrightarrow> cbb_ok st \<Longrightarrow> appends d [] st st'"
  using CBB_flush_True [of st H d st'] by (simp add: appends_def flushed_def)

lemma spec_flush_self: "length (cb_chain st) = d \<Longrightarrow> spec_flush d (cbb_abs st) = Some (cbb_abs st)"
  using spec_flush_top [of "cbb_abs st"] by simp

lemma appends_trans:
  assumes "appends d x st st1" "appends d y st1 st2"
  shows "appends d (x @ y) st st2"
proof -
  have "spec_flush d (cbb_abs st1) = Some (cbb_abs st1)"
    using assms(1) by (intro spec_flush_self) (simp add: appends_def)
  then have "cbb_abs st2 = spec_append y (cbb_abs st1)" using assms(2) by (simp add: appends_def)
  moreover obtain z where "spec_flush d (cbb_abs st) = Some z" "cbb_abs st1 = spec_append x z"
    using assms(1) by (cases "spec_flush d (cbb_abs st)") (simp_all add: appends_def)
  ultimately show ?thesis
    using assms by (auto simp: appends_def spec_append_append intro: same_kind_trans)
qed

lemma appends_buffer:
  assumes st: "appends d x st st1" and b': "buf_ok b'" "same_kind (cb_base st1) b'" "used b' = used (cb_base st1) @ y"
  shows "appends d (x @ y) st (st1\<lparr>cb_base := b'\<rparr>)"
proof -
  let ?st = "st1\<lparr>cb_base := b'\<rparr>"
  have ok: "cbb_ok st1" "\<not> bf_error (cb_base st1)" "length (cb_chain st1) = d" using st by (auto simp: appends_def)
  then have b1: "buf_ok (cb_base st1)" and ch: "chain_ok 0 (cb_chain st1) (bf_len (cb_base st1))" by (auto simp: cbb_ok_def)
  have "bf_len b' = bf_len (cb_base st1) + length y" using b' b1 by (metis length_append length_used)
  then have "cbb_ok ?st" using ch b'(1) by (auto simp: cbb_ok_def intro: chain_ok_mono)
  moreover have "cbb_abs ?st = spec_append y (cbb_abs st1)"
    using absf_append [of 0 "cb_chain st1" "used (cb_base st1)" y] ch b1 b'(3) by (simp add: cbb_abs_def)
  ultimately have "appends d y st1 ?st"
    using ok b'(2) spec_flush_self [OF ok(3)] by (simp add: appends_def same_kind_def)
  with st show ?thesis by (rule appends_trans)
qed

lemma add_space_fill:
  assumes st: "cbb_ok st" and n: "n < SIZE_MOD" and r: "CBB_add_space H n d st = (True, st')"
  shows "n \<le> bf_len (cb_base st')" "bf_len (cb_base st') \<le> length (bf_buf (cb_base st'))"
    "length bs = n \<Longrightarrow> appends d bs st (st'\<lparr>cb_base := (cb_base st')\<lparr>bf_buf :=
       mem_put (bf_len (cb_base st') - n) bs (bf_buf (cb_base st'))\<rparr>\<rparr>)"
proof -
  obtain st1 where f: "CBB_flush H d st = (True, st1)"
    using r by (cases "CBB_flush H d st"; cases "fst (CBB_flush H d st)") (auto simp: CBB_add_space_def)
  then obtain b' where a: "cbb_buffer_add H n (cb_base st1) = (True, b')" and st': "st' = st1\<lparr>cb_base := b'\<rparr>"
    using r by (cases "cbb_buffer_add H n (cb_base st1)") (auto simp: CBB_add_space_def)
  have ap: "appends d [] st st1" using f st by (rule flushed_appends)
  then have ok: "buf_ok (cb_base st1)" by (simp add: appends_def cbb_ok_def)
  obtain b1 where g: "grown n (cb_base st1) b1" and b': "b' = b1\<lparr>bf_len := bf_len (cb_base st1) + n\<rparr>"
    using buffer_add_ok [OF ok n a] by blast
  show "n \<le> bf_len (cb_base st')" by (simp add: st' b')
  show "bf_len (cb_base st') \<le> length (bf_buf (cb_base st'))" using g by (simp add: st' b' grown_def buf_ok_def)
  assume bs: "length bs = n"
  let ?b = "b1\<lparr>bf_len := bf_len (cb_base st1) + n, bf_buf := mem_put (bf_len (cb_base st1)) bs (bf_buf b1)\<rparr>"
  have "same_kind (cb_base st1) ?b" using grown_same_kind [OF g] by (simp add: same_kind_def)
  from appends_buffer [OF ap used_append(1) [OF ok g bs] this used_append(2) [OF ok g bs]]
  show "appends d bs st (st'\<lparr>cb_base := (cb_base st')\<lparr>bf_buf :=
       mem_put (bf_len (cb_base st') - n) bs (bf_buf (cb_base st'))\<rparr>\<rparr>)"
    by (simp add: st' b')
qed

lemma CBB_add_bytes_appends:
  assumes "cbb_ok st" "length data < SIZE_MOD" "CBB_add_bytes H data d st = (True, st')"
  shows "appends d data st st'"
proof -
  obtain st1 where s: "CBB_add_space H (length data) d st = (True, st1)" and st': "st' = fill_space (length data) data st1"
    using assms(3) by (cases "CBB_add_space H (length data) d st"; cases "fst (CBB_add_space H (length data) d st)")
      (auto simp: CBB_add_bytes_def)
  show ?thesis using add_space_fill(3) [OF assms(1,2) s refl] by (simp add: st' fill_space_def)
qed

lemma CBB_add_zeros_appends:
  assumes "cbb_ok st" "n < SIZE_MOD" "CBB_add_zeros H n d st = (True, st')"
  shows "appends d (replicate n 0) st st'"
proof -
  obtain st1 where s: "CBB_add_space H n d st = (True, st1)" and st': "st' = fill_space n (replicate n 0) st1"
    using assms(3) by (cases "CBB_add_space H n d st"; cases "fst (CBB_add_space H n d st)")
      (auto simp: CBB_add_zeros_def)
  show ?thesis using add_space_fill(3) [OF assms(1,2) s, of "replicate n 0"] by (simp add: st' fill_space_def)
qed

lemma cbb_add_u_appends:
  assumes "cbb_ok st" "n \<le> 8" "cbb_add_u H v n d st = (True, st')"
  shows "appends d (nat_to_be n (unat v)) st st'" "unat v < 256 ^ n"
proof -
  obtain st1 where s: "CBB_add_space H n d st = (True, st1)"
    using assms(3) by (cases "CBB_add_space H n d st"; cases "fst (CBB_add_space H n d st)")
      (auto simp: cbb_add_u_def)
  have "n < SIZE_MOD" using assms(2) by simp
  note f = add_space_fill [OF assms(1) this s]
  have p: "put_be_loop n (bf_len (cb_base st1) - n) (unat v) (bf_buf (cb_base st1)) =
      Some (unat v div 256 ^ n, mem_put (bf_len (cb_base st1) - n) (nat_to_be n (unat v)) (bf_buf (cb_base st1)))"
    using f(1,2) by (intro put_be_loop_eq) simp
  have v: "unat v div 256 ^ n = 0" and st': "st' = st1\<lparr>cb_base := (cb_base st1)\<lparr>bf_buf :=
       mem_put (bf_len (cb_base st1) - n) (nat_to_be n (unat v)) (bf_buf (cb_base st1))\<rparr>\<rparr>"
    using assms(3) s p by (auto simp: cbb_add_u_def Let_def split: if_splits)
  show "unat v < 256 ^ n" using v by (metis div_eq_0_iff power_not_zero zero_neq_numeral)
  show "appends d (nat_to_be n (unat v)) st st'" unfolding st' by (rule f(3)) simp
qed

lemma nat_to_be_1 [simp]: "nat_to_be (Suc 0) n = [word_of_nat n]"
  by (simp add: nat_to_be_def)

lemma CBB_add_u8_appends:
  assumes "cbb_ok st" "CBB_add_u8 H b d st = (True, st')"
  shows "appends d [b] st st'"
  using cbb_add_u_appends(1) [of st 1 H "ucast b" d st'] assms by (simp add: CBB_add_u8_def)

end
