(* ===== verification/BS_Cbb_Asn1.thy ===== *)
theory BS_Cbb_Asn1
  imports BS_Cbb_Spec
begin

text \<open>
  The ASN.1 functions of \<open>bytestring/cbb.c\<close> write DER: what a successful call appends to the frame of
  its handle is the element, in the encoding that the parser accepts.
\<close>

lemma and_then_TrueE:
  assumes "and_then r g = (True, t)"
  obtains s where "r = (True, s)" "g s = (True, t)"
  using assms by (cases r; cases "fst r") auto

definition ready :: "nat \<Rightarrow> cbb \<Rightarrow> bool" where
  "ready d st \<longleftrightarrow> cbb_ok st \<and> \<not> bf_error (cb_base st) \<and> length (cb_chain st) = d"

lemma appends_ready: "appends d x st st' \<Longrightarrow> ready d st'"
  by (simp add: appends_def ready_def)

lemma appends_ok: "appends d x st st' \<Longrightarrow> cbb_ok st'"
  by (simp add: appends_def)

lemma ready_appends: "ready d st \<Longrightarrow> appends d [] st st"
  using spec_flush_self [of st d] by (simp add: ready_def appends_def)

lemma ready_flush: "ready d st \<Longrightarrow> CBB_flush H d st = (True, st)"
  by (simp add: ready_def CBB_flush_done)

section \<open>Children\<close>

text \<open>The call has added the bytes \<open>x\<close> to the frame \<open>d\<close> and opened a child of it.\<close>

definition opens :: "nat \<Rightarrow> u8 list \<Rightarrow> nat \<Rightarrow> bool \<Rightarrow> cbb \<Rightarrow> cbb \<Rightarrow> bool" where
  "opens d x p a st st' \<longleftrightarrow> ready (Suc d) st' \<and> same_kind (cb_base st) (cb_base st') \<and>
     (\<exists>z. spec_flush d (cbb_abs st) = Some z \<and> length (snd z) = d \<and> cbb_abs st' = spec_push p a (spec_append x z))"

lemma spec_flush_child:
  "spec_flush (length (snd z)) (spec_append body (spec_push p a z)) = map_option (\<lambda>e. spec_append e z) (prefixed p a body)"
proof -
  have "spec_flush (length fs) (spec_append body (spec_push p a (top, fs))) =
      map_option (\<lambda>e. spec_append e (top, fs)) (prefixed p a body)" for top fs
  proof (induction fs arbitrary: top)
    case Nil
    then show ?case by (cases "prefixed p a body") auto
  next
    case (Cons f fs)
    obtain q b c where f: "f = (q, b, c)" by (cases f)
    show ?case using Cons [of c] unfolding f
      by (cases "prefixed p a body") (auto split: prod.splits)
  qed
  then show ?thesis by (cases z) simp
qed

lemma spec_flush_length: "spec_flush d x = Some z \<Longrightarrow> length (snd z) = d"
  by (induction d x arbitrary: z rule: spec_flush.induct) (auto split: option.splits)

lemma opens_close:
  assumes o: "opens d x p a st st1" and ap: "appends (Suc d) body st1 st2" and f: "CBB_flush H d st2 = (True, st3)"
  obtains e where "prefixed p a body = Some e" "appends d (x @ e) st st3"
proof -
  obtain z where z: "spec_flush d (cbb_abs st) = Some z" "length (snd z) = d"
    "cbb_abs st1 = spec_push p a (spec_append x z)" using o by (auto simp: opens_def)
  have "spec_flush (Suc d) (cbb_abs st1) = Some (cbb_abs st1)"
    using o by (intro spec_flush_self) (simp add: opens_def ready_def)
  then have st2: "cbb_abs st2 = spec_append body (spec_push p a (spec_append x z))"
    using ap z(3) by (simp add: appends_def)
  have ok2: "cbb_ok st2" using ap by (rule appends_ok)
  note fl = CBB_flush_True [OF ok2 f]
  have "Some (cbb_abs st3) = spec_flush d (cbb_abs st2)" using fl(1) by (simp add: flushed_def)
  also have "\<dots> = map_option (\<lambda>e. spec_append e (spec_append x z)) (prefixed p a body)"
    using spec_flush_child [of "spec_append x z" body p a] z(2) unfolding st2 by simp
  finally obtain e where e: "prefixed p a body = Some e" "cbb_abs st3 = spec_append (x @ e) z"
    by (cases "prefixed p a body") (auto simp: spec_append_append)
  have "same_kind (cb_base st) (cb_base st3)"
    using o ap fl(1) unfolding opens_def appends_def flushed_def by (blast intro: same_kind_trans)
  then have "appends d (x @ e) st st3" using fl e z(1) by (simp add: appends_def flushed_def)
  with e(1) show thesis by (rule that)
qed

lemma cbb_add_child_opens:
  assumes ap: "appends d x st st1" and p: "1 \<le> p" "p \<le> 8" "a \<longrightarrow> p = 1"
    and r: "cbb_add_child H p a d st1 = (True, st2)"
  shows "opens d x p a st st2"
proof -
  have rd: "ready d st1" using ap by (rule appends_ready)
  then have ok: "buf_ok (cb_base st1)" and ch: "chain_ok 0 (cb_chain st1) (bf_len (cb_base st1))" "length (cb_chain st1) = d"
    by (auto simp: ready_def cbb_ok_def)
  obtain b where add: "cbb_buffer_add H p (cb_base st1) = (True, b)"
    using r by (cases "cbb_buffer_add H p (cb_base st1)"; cases "fst (cbb_buffer_add H p (cb_base st1))")
      (auto simp: cbb_add_child_def)
  have "p < SIZE_MOD" using p(2) by simp
  then obtain b1 where g: "grown p (cb_base st1) b1" and b: "b = b1\<lparr>bf_len := bf_len (cb_base st1) + p\<rparr>"
    using buffer_add_ok [OF ok _ add] by blast
  let ?o = "bf_len (cb_base st1)"
  let ?b = "b1\<lparr>bf_len := ?o + p, bf_buf := mem_put ?o (replicate p 0) (bf_buf b1)\<rparr>"
  let ?c = "\<lparr>ch_offset = ?o, ch_pending_len_len = p, ch_pending_is_asn1 = a\<rparr>"
  have st2: "st2 = st1\<lparr>cb_base := ?b, cb_chain := cb_chain st1 @ [?c]\<rparr>"
    using r add b ch(2) by (simp add: cbb_add_child_def Let_def)
  have bk: "buf_ok ?b" "used ?b = used (cb_base st1) @ replicate p 0" using used_append [OF ok g, of "replicate p 0"] by simp_all
  have kind: "same_kind (cb_base st1) ?b" using grown_same_kind [OF g] by (simp add: same_kind_def)
  have "cbb_ok st2" using bk(1) ch(1) p unfolding st2 cbb_ok_def by (simp add: chain_ok_snoc)
  then have rd2: "ready (Suc d) st2" using kind rd ch(2) by (simp add: ready_def st2 same_kind_def)
  have "cbb_abs st2 = spec_push p a (cbb_abs st1)"
    using absf_push [of 0 "cb_chain st1" "used (cb_base st1)" "replicate p 0" p a] ch(1) ok bk(2)
    by (simp add: cbb_abs_def st2)
  moreover obtain z where z: "spec_flush d (cbb_abs st) = Some z" "cbb_abs st1 = spec_append x z"
    using ap by (cases "spec_flush d (cbb_abs st)") (simp_all add: appends_def)
  moreover have "same_kind (cb_base st) (cb_base st2)"
    using ap kind by (auto simp: appends_def st2 intro: same_kind_trans)
  ultimately show ?thesis using rd2 spec_flush_length [OF z(1)] by (simp add: opens_def)
qed

lemma cbb_add_length_prefixed_opens:
  assumes "cbb_ok st" "1 \<le> p" "p \<le> 8" "cbb_add_length_prefixed H p d st = (True, st')"
  shows "opens d [] p False st st'"
proof -
  obtain st1 where f: "CBB_flush H d st = (True, st1)" and c: "cbb_add_child H p False d st1 = (True, st')"
    using assms(4) unfolding cbb_add_length_prefixed_def by (rule and_then_TrueE)
  show ?thesis by (rule cbb_add_child_opens [OF flushed_appends [OF f assms(1)] assms(2,3) _ c]) simp
qed

section \<open>Base 128 and tags\<close>

lemma base128_high_digits:
  "base128_high (unat v) = map (\<lambda>i. byte_of (128 + unat v div 128 ^ i mod 128)) (rev [0..<base128_len v])"
proof (induction v rule: base128_len.induct)
  case (1 v)
  show ?case
  proof (cases "v = 0")
    case False
    have d: "unat (drop_bit 7 v) = unat v div 128" using unat_drop_bit_div [of 7 v] by simp
    have "base128_high (unat v) = base128_high (unat (drop_bit 7 v)) @ [byte_of (128 + unat v mod 128)]"
      using False by (simp add: base128_high.simps [of "unat v"] d unat_eq_zero)
    also have "base128_high (unat (drop_bit 7 v)) =
        map (\<lambda>i. byte_of (128 + unat v div 128 ^ Suc i mod 128)) (rev [0..<base128_len (drop_bit 7 v)])"
      using 1 [OF False] by (simp add: d div_mult2_eq)
    finally show ?thesis
      using False by (simp add: base128_len.simps [of v] map_Suc_upt [symmetric] upt_conv_Cons rev_map o_def del: upt_Suc)
  qed (simp add: base128_len.simps)
qed

text \<open>The bytes of the loop, most significant first.\<close>

definition base128_byte :: "u64 \<Rightarrow> nat \<Rightarrow> u8" where
  "base128_byte v i = byte_of ((if i \<noteq> 0 then 128 else 0) + unat v div 128 ^ i mod 128)"

lemma base128_byte_code:
  "(let byte = ucast (drop_bit (7 * i) v) AND 0x7f in if i \<noteq> 0 then byte OR 0x80 else byte) = base128_byte v i"
proof -
  let ?b = "ucast (drop_bit (7 * i) v) AND 0x7f :: u8"
  have "unat (ucast (drop_bit (7 * i) v) :: u8) = unat v div 2 ^ (7 * i) mod 256"
    by (simp add: unsigned_ucast_eq take_bit_eq_mod unat_drop_bit_div)
  also have "(2 :: nat) ^ (7 * i) = 128 ^ i" by (simp add: power_mult)
  finally have b: "unat ?b = unat v div 128 ^ i mod 128"
    by (simp add: unat_and_0x7f mod_mod_cancel)
  have "unat (0x80 OR ?b) = 128 + unat ?b"
    using or_disjoint_unat [of "0x80 :: u8" 7 ?b] by (simp add: b)
  then have "unat (?b OR 0x80) = 128 + unat v div 128 ^ i mod 128" using b by (simp add: or.commute)
  with b show ?thesis by (cases "i = 0") (simp_all add: base128_byte_def byte_eq_iff Let_def)
qed

lemma add_base128_loop_appends:
  "ready d st \<Longrightarrow> add_base128_loop H v n d st = (True, st') \<Longrightarrow> appends d (map (base128_byte v) (rev [0..<n])) st st'"
proof (induction n arbitrary: st)
  case 0
  then show ?case by (simp add: ready_appends)
next
  case (Suc n)
  have "and_then (CBB_add_u8 H (base128_byte v n) d st) (add_base128_loop H v n d) = (True, st')"
    using Suc.prems(2) unfolding base128_byte_code [symmetric] by (simp add: Let_def)
  then obtain st1 where a: "CBB_add_u8 H (base128_byte v n) d st = (True, st1)"
    and l: "add_base128_loop H v n d st1 = (True, st')" by (rule and_then_TrueE)
  have ap: "appends d [base128_byte v n] st st1" using CBB_add_u8_appends a Suc.prems(1) by (simp add: ready_def)
  from appends_trans [OF ap Suc.IH [OF appends_ready [OF ap] l]] show ?case by simp
qed

lemma base128_bytes:
  "map (base128_byte v) (rev [0..<(if base128_len v = 0 then 1 else base128_len v)]) = base128 (unat v)"
proof -
  define m where "m = base128_len (drop_bit 7 v)"
  have z: "base128_len v = 0 \<longleftrightarrow> v = 0" by (simp add: base128_len.simps [of v])
  have n: "(if base128_len v = 0 then 1 else base128_len v) = Suc m"
    by (cases "v = 0") (simp_all add: m_def base128_len.simps [of v] base128_len.simps [of 0])
  have d: "unat (drop_bit 7 v) = unat v div 128" using unat_drop_bit_div [of 7 v] by simp
  have "map (base128_byte v) (rev [0..<Suc m]) = map (\<lambda>i. base128_byte v (Suc i)) (rev [0..<m]) @ [base128_byte v 0]"
    by (simp add: map_Suc_upt [symmetric] upt_conv_Cons rev_map o_def del: upt_Suc)
  also have "map (\<lambda>i. base128_byte v (Suc i)) (rev [0..<m]) = base128_high (unat v div 128)"
    using base128_high_digits [of "drop_bit 7 v"] by (simp add: d m_def base128_byte_def div_mult2_eq)
  finally have "map (base128_byte v) (rev [0..<Suc m]) = base128_high (unat v div 128) @ [base128_byte v 0]" .
  moreover have "base128_byte v 0 = byte_of (unat v mod 128)" by (simp add: base128_byte_def)
  ultimately show ?thesis unfolding n base128_def by simp
qed

lemma add_base128_integer_appends:
  "ready d st \<Longrightarrow> add_base128_integer H v d st = (True, st') \<Longrightarrow> appends d (base128 (unat v)) st st'"
  unfolding add_base128_integer_def Let_def
  by (drule (1) add_base128_loop_appends) (simp only: base128_bytes)

lemma tag_parts:
  fixes tag :: u32
  defines "c \<equiv> ucast (drop_bit 24 tag) AND 0xe0 :: u8" and "n \<equiv> tag AND 0x1fffffff"
  shows "unat n = unat tag mod 2 ^ 29" "unat c = unat tag div 2 ^ 29 * 32"
    "c OR 0x1f = byte_of (32 * (unat tag div 2 ^ 29) + 31)"
    "unat n < 31 \<Longrightarrow> c OR ucast n = byte_of (32 * (unat tag div 2 ^ 29) + unat n)"
proof -
  have t32: "unat tag < 2 ^ 32" using unsigned_less [of tag] by simp
  have m: "(mask 29 :: u32) = 0x1fffffff" by (simp add: mask_numeral)
  show n: "unat n = unat tag mod 2 ^ 29"
    unfolding n_def using unat_take_bit_mod [of 29 tag] by (simp only: take_bit_eq_mask m)
  have "unat tag div 2 ^ 24 < 256" using t32 by (simp add: less_mult_imp_div_less)
  then have "unat (ucast (drop_bit 24 tag) :: u8) = unat tag div 2 ^ 24"
    by (simp add: unsigned_ucast_eq take_bit_nat_eq_self unat_drop_bit_div)
  then show c: "unat c = unat tag div 2 ^ 29 * 32"
    unfolding c_def unat_and_0xe0 by (simp add: div_mult2_eq [symmetric])
  have c8: "unat tag div 2 ^ 29 < 8" using t32 by (simp add: less_mult_imp_div_less)
  have "unat (c OR 0x1f) = unat c + 31" using or_disjoint_unat [of c 5 "0x1f"] c by simp
  then show "c OR 0x1f = byte_of (32 * (unat tag div 2 ^ 29) + 31)" using c c8 by (simp add: byte_eq_iff)
  assume n31: "unat n < 31"
  then have u: "unat (ucast n :: u8) = unat n" by (simp add: unsigned_ucast_eq take_bit_nat_eq_self)
  have "unat (c OR ucast n) = unat c + unat n" using or_disjoint_unat [of c 5 "ucast n"] c u n31 by simp
  then show "c OR ucast n = byte_of (32 * (unat tag div 2 ^ 29) + unat n)" using c c8 n31 by (simp add: byte_eq_iff)
qed

lemma CBB_add_asn1_opens:
  assumes E: "asn1_env_ok E" and st: "cbb_ok st" and r: "CBB_add_asn1 H E tag d st = (True, st')"
  shows "opens d (der_tag tag) 1 True st st'"
proof -
  define c n where "c = (ucast (drop_bit 24 tag) AND 0xe0 :: u8)" and "n = tag AND 0x1fffffff"
  note parts = tag_parts [of tag, folded c_def n_def]
  have e: "TAG_SHIFT E = 24" "TAG_NUMBER_MASK E = 0x1fffffff" using E by (simp_all add: asn1_env_ok_def)
  obtain st1 where f: "CBB_flush H d st = (True, st1)"
    and r1: "and_then (if 0x1f \<le> n then and_then (CBB_add_u8 H (c OR 0x1f) d st1) (add_base128_integer H (ucast n) d)
          else CBB_add_u8 H (c OR ucast n) d st1) (cbb_add_child H 1 True d) = (True, st')"
    using r unfolding CBB_add_asn1_def Let_def e c_def n_def by (rule and_then_TrueE)
  then obtain st2 where t: "(if 0x1f \<le> n then and_then (CBB_add_u8 H (c OR 0x1f) d st1) (add_base128_integer H (ucast n) d)
          else CBB_add_u8 H (c OR ucast n) d st1) = (True, st2)"
    and ch: "cbb_add_child H 1 True d st2 = (True, st')" by (elim and_then_TrueE)
  have a1: "appends d [] st st1" using f st by (rule flushed_appends)
  note ok1 = appends_ok [OF a1]
  have "appends d (der_tag tag) st1 st2"
  proof (cases "unat n < 31")
    case True
    then have "\<not> 0x1f \<le> n" by (simp add: word_le_nat_alt)
    then have "CBB_add_u8 H (c OR ucast n) d st1 = (True, st2)" using t by simp
    from CBB_add_u8_appends [OF ok1 this] show ?thesis
      using parts(1,4) True by (simp add: der_tag_def Let_def)
  next
    case False
    then have "0x1f \<le> n" by (simp add: word_le_nat_alt)
    with t obtain st3 where u: "CBB_add_u8 H (c OR 0x1f) d st1 = (True, st3)"
      and b: "add_base128_integer H (ucast n) d st3 = (True, st2)" by (auto elim: and_then_TrueE)
    have a3: "appends d [c OR 0x1f] st1 st3" using ok1 u by (rule CBB_add_u8_appends)
    from appends_trans [OF a3 add_base128_integer_appends [OF appends_ready [OF a3] b]] show ?thesis
      using parts(1,3) False by (simp add: der_tag_def Let_def)
  qed
  from appends_trans [OF a1 this] have "appends d (der_tag tag) st st2" by simp
  from cbb_add_child_opens [OF this _ _ _ ch] show ?thesis by simp
qed

text \<open>An element: the tag, the contents written to the child, and the flush that closes it.\<close>

lemma asn1_element_appends:
  assumes E: "asn1_env_ok E" and st: "cbb_ok st" and r: "CBB_add_asn1 H E tag d st = (True, st1)"
    and c: "appends (Suc d) c st1 st2" and f: "CBB_flush H d st2 = (True, st3)"
  shows "appends d (der_element tag c) st st3" "length c \<le> 0xfffffffe"
proof -
  obtain e where e: "prefixed 1 True c = Some e" "appends d (der_tag tag @ e) st st3"
    using opens_close [OF CBB_add_asn1_opens [OF E st r] c f] .
  then show "appends d (der_element tag c) st st3" "length c \<le> 0xfffffffe"
    by (auto simp: prefixed_def der_element_def split: if_splits)
qed

end
