(* ===== verification/BS_Integer.thy ===== *)
theory BS_Integer
  imports BS_Cbb_Asn1
begin

text \<open>
  ASN.1 integers of 64 bits: the contents that \<open>CBB_add_asn1_uint64\<close> and \<open>CBB_add_asn1_int64\<close> write,
  and what \<open>CBS_get_asn1_uint64\<close> and \<open>CBS_get_asn1_int64\<close> read from them.
\<close>

section \<open>Big-endian bytes\<close>

lemma nat_to_le_map: "nat_to_le n v = map (\<lambda>i. byte_of (v div 256 ^ i)) [0..<n]"
proof (induction n arbitrary: v)
  case (Suc n)
  then show ?case
    by (simp add: byte_of_def map_Suc_upt [symmetric] upt_conv_Cons o_def div_mult2_eq del: upt_Suc)
qed simp

lemma nat_to_be_pad:
  assumes "length bs \<le> n"
  shows "nat_to_be n (be_to_nat bs) = replicate (n - length bs) 0 @ bs"
proof -
  have z: "be_to_nat (replicate k 0 @ bs) = be_to_nat bs" for k
    by (induction k) (simp_all add: be_to_nat_Cons)
  have "nat_to_be n (be_to_nat (replicate (n - length bs) 0 @ bs)) = replicate (n - length bs) 0 @ bs"
    using assms by (intro nat_to_be_be_to_nat) simp
  then show ?thesis by (simp only: z)
qed

lemma be_to_nat_ge: "be_to_nat (b # bs) \<ge> unat b * 256 ^ length bs"
  by (simp add: be_to_nat_Cons)

lemma power256_bound: "256 ^ n \<le> (k :: nat) \<Longrightarrow> k < 2 ^ 64 \<Longrightarrow> n < 8"
proof -
  assume "256 ^ n \<le> k" "k < 2 ^ 64"
  then have "(256 :: nat) ^ n < 2 ^ 64" by (rule le_less_trans)
  also have "(2 :: nat) ^ 64 = 256 ^ 8" by simp
  finally show ?thesis by (rule power_less_imp_less_exp [rotated]) simp
qed

lemma valid_integer_simps [simp]:
  "CBS_is_valid_asn1_integer [] = None"
  "CBS_is_valid_asn1_integer [b] = Some (128 \<le> unat b)"
  "CBS_is_valid_asn1_integer (b # c # r) =
     (if b = 0 \<and> unat c < 128 \<or> b = 0xff \<and> 128 \<le> unat c then None else Some (128 \<le> unat b))"
  by (simp_all add: CBS_is_valid_asn1_integer_def and_0x80_iff not_less Let_def)

section \<open>Unsigned integers\<close>

text \<open>The contents of an INTEGER: no leading zeros, but one byte at least and the sign bit clear.\<close>

fun strip_zeros :: "u8 list \<Rightarrow> u8 list" where
  "strip_zeros [] = [0]"
| "strip_zeros (b # bs) = (if b = 0 then strip_zeros bs else if 128 \<le> unat b then 0 # b # bs else b # bs)"

definition der_uint :: "nat \<Rightarrow> u8 list" where
  "der_uint v = strip_zeros (nat_to_be 8 v)"

lemma be_strip_zeros [simp]: "be_to_nat (strip_zeros bs) = be_to_nat bs"
  by (induction bs rule: strip_zeros.induct) (simp_all add: be_to_nat_Cons)

lemma strip_zeros_unsigned: "CBS_is_unsigned_asn1_integer (strip_zeros bs)"
proof (induction bs rule: strip_zeros.induct)
  case (2 b bs)
  then show ?case
    by (cases bs) (auto simp: CBS_is_unsigned_asn1_integer_def byte_eq_iff)
qed (simp add: CBS_is_unsigned_asn1_integer_def)

lemma strip_zeros_pad: "strip_zeros (replicate k 0 @ bs) = strip_zeros bs"
  by (induction k) simp_all

lemma be_der_uint: "v < 2 ^ 64 \<Longrightarrow> be_to_nat (der_uint v) = v"
  by (simp add: der_uint_def)

lemma length_der_uint: "length (der_uint v) \<le> 9"
proof -
  have "length (strip_zeros bs) \<le> Suc (length bs)" for bs by (induction bs rule: strip_zeros.induct) auto
  from this [of "nat_to_be 8 v"] show ?thesis by (simp add: der_uint_def)
qed

lemma unsigned_cases:
  assumes "CBS_is_unsigned_asn1_integer s"
  obtains (one) b where "s = [b]" "unat b < 128"
    | (plain) b r where "s = b # r" "b \<noteq> 0" "unat b < 128"
    | (pad) b r where "s = 0 # b # r" "128 \<le> unat b"
proof (cases s)
  case Nil
  with assms show ?thesis by (simp add: CBS_is_unsigned_asn1_integer_def)
next
  case (Cons b r)
  with assms have b: "unat b < 128"
    by (cases r) (auto simp: CBS_is_unsigned_asn1_integer_def split: if_splits)
  show ?thesis
  proof (cases "b = 0 \<and> r \<noteq> []")
    case True
    then obtain c q where "r = c # q" by (cases r) auto
    with True assms Cons show ?thesis
      by (intro pad) (auto simp: CBS_is_unsigned_asn1_integer_def split: if_splits)
  next
    case False
    then show ?thesis using Cons b one plain by (cases r) auto
  qed
qed

lemma unsigned_der_uint:
  assumes u: "CBS_is_unsigned_asn1_integer s" and lt: "be_to_nat s < 2 ^ 64"
  shows "s = der_uint (be_to_nat s)"
  using u
proof (cases rule: unsigned_cases)
  case (one b)
  then show ?thesis using nat_to_be_pad [of "[b]" 8] by (auto simp: der_uint_def strip_zeros_pad)
next
  case (plain b r)
  have "256 ^ length r \<le> unat b * 256 ^ length r" using plain(2) by (simp add: Suc_le_eq unat_gt_0)
  also have "\<dots> \<le> be_to_nat s" using plain(1) be_to_nat_ge by simp
  finally have "length r < 8" using lt by (rule power256_bound)
  then have "length s \<le> 8" using plain(1) by simp
  from nat_to_be_pad [OF this] plain show ?thesis by (simp add: der_uint_def strip_zeros_pad)
next
  case (pad b r)
  have e: "be_to_nat s = be_to_nat (b # r)" using pad(1) by (simp add: be_to_nat_Cons)
  have "256 ^ length r \<le> unat b * 256 ^ length r" using pad(2) by simp
  also have "\<dots> \<le> be_to_nat s" unfolding e by (rule be_to_nat_ge)
  finally have "length r < 8" using lt by (rule power256_bound)
  then have "length (b # r) \<le> 8" by simp
  from nat_to_be_pad [OF this] pad e show ?thesis by (auto simp: der_uint_def strip_zeros_pad)
qed

lemma uint64_loop_eq:
  "uint64_loop r bs =
     (if unat r * 256 ^ length bs + be_to_nat bs < 2 ^ 64
      then Some (word_of_nat (unat r * 256 ^ length bs + be_to_nat bs)) else None)"
proof (induction bs arbitrary: r)
  case Nil
  have "unat r < 2 ^ 64" using unsigned_less [of r] by simp
  then show ?case by simp
next
  case (Cons b bs)
  show ?case
  proof (cases "drop_bit 56 r = 0")
    case True
    then have "unat r div 2 ^ 56 = 0" by (metis unat_drop_bit_div unat_eq_zero)
    then have "unat r < 2 ^ (64 - 8)" by (simp add: div_eq_0_iff)
    moreover have "unat (ucast b :: u64) < 2 ^ 8" by simp
    ultimately have "unat (push_bit 8 r OR ucast b) = unat r * 256 + unat b"
      using unat_shift_in [of r 8 "ucast b"] by simp
    then show ?thesis
      using True Cons.IH [of "push_bit 8 r OR ucast b"] by (simp add: be_to_nat_Cons algebra_simps)
  next
    case False
    then have "unat r div 2 ^ 56 \<noteq> 0" by (metis unat_drop_bit_div unat_eq_zero)
    then have "2 ^ 56 \<le> unat r" by (metis div_less not_le)
    then have "2 ^ 56 * 256 \<le> unat r * 256 ^ length (b # bs)"
      by (intro mult_le_mono) simp_all
    with False show ?thesis by simp
  qed
qed

lemma tag_integer: "asn1_env_ok E \<Longrightarrow> TAG_INTEGER E = 2" "valid_tag 2" "valid_tag 1" "valid_tag 4"
  "asn1_env_ok E \<Longrightarrow> TAG_BOOLEAN E = 1" "asn1_env_ok E \<Longrightarrow> TAG_OCTETSTRING E = 4"
  by (auto simp: asn1_env_ok_def valid_tag_iff)

lemma CBS_get_asn1_uint64_iff:
  assumes E: "asn1_env_ok E"
  shows "CBS_get_asn1_uint64 E s = (Some v, s') \<longleftrightarrow> s = der_element 2 (der_uint (unat v)) @ s'"
proof
  have v: "unat v < 2 ^ 64" using unsigned_less [of v] by simp
  assume "CBS_get_asn1_uint64 E s = (Some v, s')"
  then obtain c where g: "CBS_get_asn1 E 2 s = (Some c, s')" and u: "CBS_is_unsigned_asn1_integer c"
    and l: "uint64_loop 0 c = Some v"
    by (auto simp: CBS_get_asn1_uint64_def get_bind_def tag_integer(1) [OF E] split: prod.splits option.splits if_splits)
  have lt: "be_to_nat c < 2 ^ 64" and "v = word_of_nat (be_to_nat c)"
    using l by (auto simp: uint64_loop_eq split: if_splits)
  then have "unat v = be_to_nat c" by (simp add: unsigned_of_nat take_bit_nat_eq_self)
  with unsigned_der_uint [OF u lt] have "c = der_uint (unat v)" by simp
  with g CBS_get_asn1_iff [OF E] show "s = der_element 2 (der_uint (unat v)) @ s'" by simp
next
  have v: "unat v < 2 ^ 64" using unsigned_less [of v] by simp
  assume s: "s = der_element 2 (der_uint (unat v)) @ s'"
  have "length (der_uint (unat v)) < 2 ^ 32" using length_der_uint [of "unat v"] by simp
  then have "CBS_get_asn1 E 2 s = (Some (der_uint (unat v)), s')"
    using CBS_get_asn1_iff [OF E] s tag_integer(2) by simp
  moreover have "CBS_is_unsigned_asn1_integer (der_uint (unat v))" by (simp add: der_uint_def strip_zeros_unsigned)
  moreover have "uint64_loop 0 (der_uint (unat v)) = Some v"
    using be_der_uint [OF v] v by (simp add: uint64_loop_eq)
  ultimately show "CBS_get_asn1_uint64 E s = (Some v, s')"
    by (simp add: CBS_get_asn1_uint64_def get_bind_def tag_integer(1) [OF E])
qed

lemma uint64_bytes_code:
  "map (\<lambda>i. ucast (drop_bit (8 * (7 - i)) value AND 0xff)) [0..<8] = nat_to_be 8 (unat (value :: u64))"
proof -
  have b: "ucast (drop_bit (8 * j) value AND 0xff) = byte_of (unat value div 256 ^ j)" for j
  proof -
    have "drop_bit (8 * j) value AND 0xff = take_bit 8 (drop_bit (8 * j) value)"
      by (simp add: take_bit_eq_mask mask_numeral)
    then have "unat (drop_bit (8 * j) value AND 0xff) = unat value div 2 ^ (8 * j) mod 256"
      by (simp only: unat_take_bit_mod unat_drop_bit_div) simp
    also have "(2 :: nat) ^ (8 * j) = 256 ^ j" by (simp add: power_mult)
    finally show ?thesis by (simp add: byte_eq_iff unsigned_ucast_eq take_bit_eq_mod)
  qed
  have u: "[0..<8] = [0, 1, 2, 3, 4, 5, 6, 7 :: nat]" by (simp add: upt_rec)
  show ?thesis unfolding nat_to_be_def nat_to_le_map rev_map [symmetric] b by (simp add: u)
qed

lemma uint64_started_appends:
  "ready d st \<Longrightarrow> uint64_bytes_loop H bs True d st = (True, st') \<Longrightarrow> appends d bs st st'"
proof (induction bs arbitrary: st)
  case Nil
  then show ?case by (simp add: ready_appends)
next
  case (Cons b bs)
  then obtain st1 where a: "CBB_add_u8 H b d st = (True, st1)" and l: "uint64_bytes_loop H bs True d st1 = (True, st')"
    by (auto elim: and_then_TrueE)
  have ap: "appends d [b] st st1" using CBB_add_u8_appends a Cons.prems(1) by (simp add: ready_def)
  from appends_trans [OF ap Cons.IH [OF appends_ready [OF ap] l]] show ?case by simp
qed

lemma uint64_bytes_appends:
  "ready d st \<Longrightarrow> uint64_bytes_loop H bs False d st = (True, st') \<Longrightarrow> appends d (strip_zeros bs) st st'"
proof (induction bs)
  case Nil
  then show ?case using CBB_add_u8_appends [of st H 0 d st'] by (simp add: ready_def)
next
  case (Cons b bs)
  show ?case
  proof (cases "b = 0")
    case True
    then show ?thesis using Cons by simp
  next
    case False
    from Cons.prems(2) False obtain st1 where
      p: "(if b AND 0x80 \<noteq> 0 then CBB_add_u8 H 0 d st else (True, st)) = (True, st1)"
      and r1: "and_then (CBB_add_u8 H b d st1) (uint64_bytes_loop H bs True d) = (True, st')"
      by (auto elim!: and_then_TrueE)
    have ap1: "appends d (if 128 \<le> unat b then [0] else []) st st1"
    proof (cases "128 \<le> unat b")
      case True
      then have "b AND 0x80 \<noteq> 0" using and_0x80_iff [of b] by simp
      then show ?thesis using p True CBB_add_u8_appends [of st H 0 d st1] Cons.prems(1) by (simp add: ready_def)
    next
      case False
      then have "b AND 0x80 = 0" using and_0x80_iff [of b] by simp
      then show ?thesis using p False ready_appends [OF Cons.prems(1)] by simp
    qed
    from r1 obtain st2 where a: "CBB_add_u8 H b d st1 = (True, st2)" and l: "uint64_bytes_loop H bs True d st2 = (True, st')"
      by (rule and_then_TrueE)
    have ap2: "appends d [b] st1 st2" using a appends_ok [OF ap1] by (intro CBB_add_u8_appends)
    from appends_trans [OF ap1 appends_trans [OF ap2 uint64_started_appends [OF appends_ready [OF ap2] l]]] False
    show ?thesis by (auto split: if_splits)
  qed
qed

lemma or_error_TrueD: "or_error d r = (True, st) \<Longrightarrow> r = (True, st)"
  by (auto simp: or_error_def split: prod.splits if_splits)

lemma or_error_flushE:
  assumes "(case or_error d (and_then r g) of (ok, st) \<Rightarrow> if ok then CBB_flush H d st else (False, st)) = (True, st')"
  obtains st1 st2 where "r = (True, st1)" "g st1 = (True, st2)" "CBB_flush H d st2 = (True, st')"
proof -
  obtain st2 where "or_error d (and_then r g) = (True, st2)" "CBB_flush H d st2 = (True, st')"
    using assms by (auto split: prod.splits if_splits)
  then show thesis by (auto dest!: or_error_TrueD elim!: and_then_TrueE intro: that)
qed

lemma opens_ready: "opens d x p a st st' \<Longrightarrow> ready (Suc d) st'"
  by (simp add: opens_def)

lemma CBB_add_asn1_uint64_appends:
  assumes E: "asn1_env_ok E" and st: "cbb_ok st" and r: "CBB_add_asn1_uint64_with_tag H E v tag d st = (True, st')"
  shows "appends d (der_element tag (der_uint (unat v))) st st'"
proof -
  obtain st1 st2 where a: "CBB_add_asn1 H E tag d st = (True, st1)"
    and l: "uint64_bytes_loop H (nat_to_be 8 (unat v)) False (Suc d) st1 = (True, st2)"
    and f: "CBB_flush H d st2 = (True, st')"
    using r unfolding CBB_add_asn1_uint64_with_tag_def uint64_bytes_code by (rule or_error_flushE)
  have rd: "ready (Suc d) st1" using CBB_add_asn1_opens [OF E st a] by (rule opens_ready)
  have "appends (Suc d) (der_uint (unat v)) st1 st2"
    unfolding der_uint_def using rd l by (rule uint64_bytes_appends)
  with asn1_element_appends(1) [OF E st a _ f] show ?thesis by blast
qed

section \<open>Signed integers\<close>

text \<open>Leading bytes \<open>0xff\<close> that repeat the sign of a negative number are left out.\<close>

fun strip_ff :: "u8 list \<Rightarrow> u8 list" where
  "strip_ff (b # c # r) = (if b = 0xff \<and> 128 \<le> unat c then strip_ff (c # r) else b # c # r)"
| "strip_ff bs = bs"

definition der_int :: "u64 \<Rightarrow> u8 list" where
  "der_int v = (if 0 \<le> sint v then der_uint (unat v) else strip_ff (nat_to_be 8 (unat v)))"

lemma length_strip_ff: "length (strip_ff bs) \<le> length bs"
  by (induction bs rule: strip_ff.induct) auto

lemma strip_ff_valid: "bs \<noteq> [] \<Longrightarrow> 128 \<le> unat (hd bs) \<Longrightarrow> CBS_is_valid_asn1_integer (strip_ff bs) = Some True"
  by (induction bs rule: strip_ff.induct) (auto simp: byte_eq_iff)

lemma strip_ff_extend: "replicate (length bs - length (strip_ff bs)) 0xff @ strip_ff bs = bs"
proof (induction bs rule: strip_ff.induct)
  case (1 b c r)
  then show ?case using length_strip_ff [of "c # r"] by (auto simp: Suc_diff_le)
qed auto

lemma strip_ff_pad:
  "CBS_is_valid_asn1_integer c = Some True \<Longrightarrow> strip_ff (replicate k 0xff @ c) = c"
proof (induction k)
  case 0
  then show ?case by (cases c rule: strip_ff.cases) (auto split: if_splits)
next
  case (Suc k)
  have c: "c \<noteq> []" "128 \<le> unat (hd c)"
    using Suc.prems by (cases c rule: strip_ff.cases; auto split: if_splits)+
  have "\<exists>x xs. replicate k 0xff @ c = x # xs \<and> 128 \<le> unat x"
    using c by (cases k) (auto simp: neq_Nil_conv)
  with Suc show ?case by auto
qed

lemma int64_start_prefix: "n < length xs \<Longrightarrow> int64_start (xs @ ys) n = int64_start xs n"
  by (induction n) (auto simp: nth_append)

lemma int64_start_le: "int64_start bs n \<le> n"
  by (induction n) auto

lemma int64_start_strip:
  "bs \<noteq> [] \<Longrightarrow> rev (take (Suc (int64_start (rev bs) (length bs - 1))) (rev bs)) = strip_ff bs"
proof (induction bs rule: strip_ff.induct)
  case (1 b c r)
  let ?m = "length r"
  have nth: "rev (b # c # r) ! Suc ?m = b" "rev (b # c # r) ! ?m = c" by (simp_all add: nth_append)
  show ?case
  proof (cases "b = 0xff \<and> 128 \<le> unat c")
    case True
    have s: "int64_start (rev (b # c # r)) (Suc ?m) = int64_start (rev (c # r)) ?m"
      using True nth and_0x80_iff [of c] int64_start_prefix [of ?m "rev (c # r)" "[b]"] by simp
    have "take (Suc (int64_start (rev (c # r)) ?m)) (rev (b # c # r)) = take (Suc (int64_start (rev (c # r)) ?m)) (rev (c # r))"
    proof -
      have "Suc (int64_start (rev (c # r)) ?m) \<le> length (rev (c # r))" using int64_start_le [of "rev (c # r)" ?m] by simp
      moreover have "rev (b # c # r) = rev (c # r) @ [b]" by simp
      ultimately show ?thesis by (metis append_Nil2 diff_is_0_eq take_0 take_append)
    qed
    then show ?thesis using 1(1) [OF True] True s by simp
  next
    case False
    then have "int64_start (rev (b # c # r)) (Suc ?m) = Suc ?m"
      using nth and_0x80_iff [of c] by auto
    moreover have "strip_ff (b # c # r) = b # c # r" using False by (simp only: strip_ff.simps if_False)
    ultimately show ?thesis by simp
  qed
qed auto

lemma sint_sign: "0 \<le> sint (v :: u64) \<longleftrightarrow> unat v < 2 ^ 63"
proof -
  have "sint v < 0 \<longleftrightarrow> bit v 63" using bit_last_iff [of v] by simp
  also have "\<dots> \<longleftrightarrow> bit (unat v) 63" by (simp add: bit_unsigned_iff)
  also have "\<dots> \<longleftrightarrow> odd (unat v div 2 ^ 63)" by (simp add: bit_iff_odd)
  also have "\<dots> \<longleftrightarrow> \<not> unat v < 2 ^ 63"
  proof -
    have "unat v < 2 ^ 64" using unsigned_less [of v] by simp
    then have "unat v div 2 ^ 63 < 2" by (simp add: less_mult_imp_div_less)
    moreover have "unat v < 2 ^ 63 \<longleftrightarrow> unat v div 2 ^ 63 = 0" by (simp add: div_eq_0_iff)
    ultimately show ?thesis by (cases "unat v div 2 ^ 63 = 0") (auto simp: less_2_cases_iff)
  qed
  finally show ?thesis by linarith
qed

lemma be8_sign:
  assumes "length (b # r) = 8"
  shows "128 \<le> unat b \<longleftrightarrow> 2 ^ 63 \<le> be_to_nat (b # r)"
proof -
  have r: "be_to_nat r < 256 ^ 7" using be_to_nat_less [of r] assms by simp
  show ?thesis
  proof (cases "128 \<le> unat b")
    case True
    then have "128 * 256 ^ 7 \<le> unat b * 256 ^ 7" by (intro mult_le_mono1)
    with True assms show ?thesis by (simp add: be_to_nat_Cons)
  next
    case False
    then have "unat b * 256 ^ 7 \<le> 127 * 256 ^ 7" by (intro mult_le_mono1) linarith
    with False assms r show ?thesis by (simp add: be_to_nat_Cons)
  qed
qed

lemma load_u64_be_eq: "length bs = 8 \<Longrightarrow> CRYPTO_load_u64_be bs = word_of_nat (be_to_nat bs)"
proof -
  assume l: "length bs = 8"
  have "le_to_nat bs < 256 ^ 8" using le_to_nat_less [of bs] l by simp
  then have "unat (word_of_nat (le_to_nat bs) :: u64) = le_to_nat bs"
    by (simp add: unsigned_of_nat take_bit_nat_eq_self)
  then show ?thesis using l by (simp add: CRYPTO_load_u64_be_def CRYPTO_bswap8_def)
qed

lemma hd_be8: "128 \<le> unat (hd (nat_to_be 8 (unat v))) \<longleftrightarrow> \<not> 0 \<le> sint (v :: u64)"
proof -
  obtain b r where br: "nat_to_be 8 (unat v) = b # r" by (metis length_nat_to_be list.size(3) neq_Nil_conv zero_neq_numeral)
  then have l: "length (b # r) = 8" by (metis length_nat_to_be)
  have "unat v < 2 ^ 64" using unsigned_less [of v] by simp
  then have "be_to_nat (b # r) = unat v" by (simp flip: br)
  then show ?thesis using be8_sign [OF l] sint_sign [of v] br by (simp add: not_less)
qed

lemma length_der_int: "length (der_int v) \<le> 8"
proof (cases "0 \<le> sint v")
  case True
  obtain b r where br: "nat_to_be 8 (unat v) = b # r" by (metis length_nat_to_be list.size(3) neq_Nil_conv zero_neq_numeral)
  then have b: "\<not> 128 \<le> unat b" using hd_be8 [of v] True by simp
  have "length (b # r) = 8" by (simp only: br [symmetric] length_nat_to_be)
  then have l: "length r = 7" by simp
  have "length (strip_zeros bs) \<le> Suc (length bs)" for bs by (induction bs rule: strip_zeros.induct) auto
  from this [of r] show ?thesis using True b br l by (simp add: der_int_def der_uint_def)
next
  case False
  then show ?thesis using length_strip_ff [of "nat_to_be 8 (unat v)"] by (simp add: der_int_def)
qed

text \<open>The sign extension of the contents is the number they were made from.\<close>

definition sign_extend :: "bool \<Rightarrow> u8 list \<Rightarrow> u8 list" where
  "sign_extend neg bs = take (8 - length bs) (replicate 8 (if neg then 0xff else 0)) @ bs"

lemma sign_extend_eq: "sign_extend neg bs = replicate (8 - length bs) (if neg then 0xff else 0) @ bs"
  by (simp add: sign_extend_def min_def)

lemma der_int_valid: "CBS_is_valid_asn1_integer (der_int v) = Some (\<not> 0 \<le> sint v)"
proof (cases "0 \<le> sint v")
  case True
  then show ?thesis
    using strip_zeros_unsigned [of "nat_to_be 8 (unat v)"]
    by (simp add: der_int_def der_uint_def CBS_is_unsigned_asn1_integer_def)
next
  case False
  have "nat_to_be 8 (unat v) \<noteq> []" by (metis length_nat_to_be list.size(3) zero_neq_numeral)
  with False strip_ff_valid [of "nat_to_be 8 (unat v)"] hd_be8 [of v] show ?thesis by (simp add: der_int_def)
qed

lemma der_int_extend: "be_to_nat (sign_extend (\<not> 0 \<le> sint v) (der_int v)) = unat v"
proof -
  have v: "unat v < 2 ^ 64" using unsigned_less [of v] by simp
  show ?thesis
  proof (cases "0 \<le> sint v")
    case True
    have "be_to_nat (replicate k 0 @ bs) = be_to_nat bs" for k bs
      by (induction k) (simp_all add: be_to_nat_Cons)
    then show ?thesis using True be_der_uint [OF v] by (simp add: sign_extend_eq der_int_def)
  next
    case False
    then show ?thesis
      using strip_ff_extend [of "nat_to_be 8 (unat v)"] v by (simp add: sign_extend_eq der_int_def)
  qed
qed

lemma valid_der_int:
  assumes c: "CBS_is_valid_asn1_integer c = Some neg" "length c \<le> 8"
    and v: "v = word_of_nat (be_to_nat (sign_extend neg c))"
  shows "c = der_int v"
proof -
  have l8: "length (sign_extend neg c) = 8" using c(2) by (simp add: sign_extend_eq)
  have "be_to_nat (sign_extend neg c) < 256 ^ 8" using be_to_nat_less [of "sign_extend neg c"] l8 by simp
  then have u: "unat v = be_to_nat (sign_extend neg c)" by (simp add: v unsigned_of_nat take_bit_nat_eq_self)
  then have be: "nat_to_be 8 (unat v) = sign_extend neg c" using l8 by simp
  have cne: "c \<noteq> []" "128 \<le> unat (hd c) \<longleftrightarrow> neg"
    using c(1) by (cases c rule: strip_ff.cases; auto split: if_splits)+
  have "128 \<le> unat (hd (sign_extend neg c)) \<longleftrightarrow> neg"
    using cne by (cases "8 - length c") (auto simp: sign_extend_eq)
  then have sgn: "0 \<le> sint v \<longleftrightarrow> \<not> neg" using hd_be8 [of v] be by simp
  show ?thesis
  proof (cases neg)
    case True
    then show ?thesis using sgn be strip_ff_pad [of c "8 - length c"] c(1) by (simp add: der_int_def sign_extend_eq)
  next
    case False
    then have un: "CBS_is_unsigned_asn1_integer c" using c(1) by (simp add: CBS_is_unsigned_asn1_integer_def)
    have "be_to_nat (replicate k 0 @ bs) = be_to_nat bs" for k bs
      by (induction k) (simp_all add: be_to_nat_Cons)
    then have "unat v = be_to_nat c" using u False by (simp add: sign_extend_eq)
    moreover have "unat v < 2 ^ 64" using unsigned_less [of v] by simp
    ultimately show ?thesis using unsigned_der_uint [OF un] sgn False by (simp add: der_int_def)
  qed
qed

lemma CBS_get_asn1_int64_iff:
  assumes E: "asn1_env_ok E"
  shows "CBS_get_asn1_int64 E s = (Some v, s') \<longleftrightarrow> s = der_element 2 (der_int v) @ s'"
proof
  assume "CBS_get_asn1_int64 E s = (Some v, s')"
  then obtain c neg where g: "CBS_get_asn1 E 2 s = (Some c, s')" and u: "CBS_is_valid_asn1_integer c = Some neg"
    and l: "length c \<le> 8" and v: "v = CRYPTO_load_u64_be (sign_extend neg c)"
    by (auto simp: CBS_get_asn1_int64_def get_bind_def tag_integer(1) [OF E] sign_extend_def Let_def
        split: prod.splits option.splits if_splits)
  have "c = der_int v"
    using u l v load_u64_be_eq [of "sign_extend neg c"] by (intro valid_der_int) (auto simp: sign_extend_eq)
  with g CBS_get_asn1_iff [OF E] show "s = der_element 2 (der_int v) @ s'" by simp
next
  assume s: "s = der_element 2 (der_int v) @ s'"
  have l: "length (der_int v) \<le> 8" by (rule length_der_int)
  then have "CBS_get_asn1 E 2 s = (Some (der_int v), s')"
    using CBS_get_asn1_iff [OF E] s tag_integer(2) by simp
  moreover have "CRYPTO_load_u64_be (sign_extend (\<not> 0 \<le> sint v) (der_int v)) = v"
    using load_u64_be_eq [of "sign_extend (\<not> 0 \<le> sint v) (der_int v)"] l der_int_extend [of v]
    by (simp add: sign_extend_eq)
  ultimately show "CBS_get_asn1_int64 E s = (Some v, s')"
    using der_int_valid [of v] l
    by (simp add: CBS_get_asn1_int64_def get_bind_def tag_integer(1) [OF E] sign_extend_def Let_def)
qed

lemma add_down_appends:
  "ready d st \<Longrightarrow> add_down_loop H bs n d st = (True, st') \<Longrightarrow> n \<le> length bs \<Longrightarrow> appends d (rev (take n bs)) st st'"
proof (induction n arbitrary: st)
  case 0
  then show ?case by (simp add: ready_appends)
next
  case (Suc n)
  then obtain st1 where a: "CBB_add_u8 H (bs ! n) d st = (True, st1)" and l: "add_down_loop H bs n d st1 = (True, st')"
    by (auto elim: and_then_TrueE)
  have ap: "appends d [bs ! n] st st1" using CBB_add_u8_appends a Suc.prems(1) by (simp add: ready_def)
  from appends_trans [OF ap Suc.IH [OF appends_ready [OF ap] l]] Suc.prems(3) show ?case
    by (simp add: take_Suc_conv_app_nth)
qed

lemma CBB_add_asn1_int64_appends:
  assumes E: "asn1_env_ok E" and st: "cbb_ok st" and r: "CBB_add_asn1_int64_with_tag H E v tag d st = (True, st')"
  shows "appends d (der_element tag (der_int v)) st st'"
proof (cases "0 \<le> sint v")
  case True
  then show ?thesis
    using CBB_add_asn1_uint64_appends [OF E st, of H v tag d st'] r by (simp add: CBB_add_asn1_int64_with_tag_def der_int_def)
next
  case False
  let ?bs = "nat_to_le 8 (unat v)"
  have r': "(case or_error d (and_then (CBB_add_asn1 H E tag d st) (add_down_loop H ?bs (int64_start ?bs 7 + 1) (Suc d))) of
      (ok, st) \<Rightarrow> if ok then CBB_flush H d st else (False, st)) = (True, st')"
    using r False by (simp add: CBB_add_asn1_int64_with_tag_def Let_def)
  obtain st1 st2 where a: "CBB_add_asn1 H E tag d st = (True, st1)"
    and l: "add_down_loop H ?bs (int64_start ?bs 7 + 1) (Suc d) st1 = (True, st2)" and f: "CBB_flush H d st2 = (True, st')"
    using r' by (rule or_error_flushE)
  have rd: "ready (Suc d) st1" using CBB_add_asn1_opens [OF E st a] by (rule opens_ready)
  have "int64_start ?bs 7 + 1 \<le> length ?bs" using int64_start_le [of ?bs 7] by simp
  from add_down_appends [OF rd l this]
  have "appends (Suc d) (rev (take (Suc (int64_start ?bs 7)) ?bs)) st1 st2" by simp
  moreover have "rev (take (Suc (int64_start ?bs 7)) ?bs) = der_int v"
  proof -
    have ne: "rev ?bs \<noteq> []" by (metis length_nat_to_le length_rev list.size(3) zero_neq_numeral)
    from int64_start_strip [OF ne] show ?thesis using False by (simp add: der_int_def nat_to_be_def)
  qed
  ultimately show ?thesis using asn1_element_appends(1) [OF E st a _ f] by simp
qed

end
