(* ===== verification/BS_Codec.thy ===== *)
theory BS_Codec
  imports BS_Integer
begin

text \<open>
  The contract between the functions that write a value through a \<open>CBB\<close> and those that read it from
  a \<open>CBS\<close>: the writer appends the encoding of the value, and the reader consumes exactly this
  encoding and returns the value. What follows from the contract for a program that builds a string
  and parses it is proved once; the integers of all widths, the ASN.1 values and the characters of the
  supported string types (theory \<open>BS_Unicode\<close>) satisfy it.
\<close>

section \<open>Writing and reading sequences\<close>

primrec add_all :: "(allocator \<Rightarrow> 'v \<Rightarrow> nat \<Rightarrow> cbb \<Rightarrow> bool \<times> cbb) \<Rightarrow> allocator \<Rightarrow> 'v list \<Rightarrow> nat \<Rightarrow> cbb \<Rightarrow> bool \<times> cbb" where
  "add_all add H [] d st = CBB_flush H d st"
| "add_all add H (v # vs) d st = and_then (add H v d st) (add_all add H vs d)"

primrec get_all :: "(cbs \<Rightarrow> 'v option \<times> cbs) \<Rightarrow> nat \<Rightarrow> cbs \<Rightarrow> 'v list option \<times> cbs" where
  "get_all get 0 s = (Some [], s)"
| "get_all get (Suc n) s =
     get_bind (get s) (\<lambda>v s. get_bind (get_all get n s) (\<lambda>vs s. (Some (v # vs), s)))"

text \<open>A program that makes a string of a sequence of values.\<close>

definition builds :: "allocator \<Rightarrow> nat \<Rightarrow> (allocator \<Rightarrow> 'v \<Rightarrow> nat \<Rightarrow> cbb \<Rightarrow> bool \<times> cbb) \<Rightarrow> 'v list \<Rightarrow> u8 list \<Rightarrow> bool" where
  "builds H cap add vs out \<longleftrightarrow>
     (case CBB_init H cap of
        (ok, st) \<Rightarrow> ok \<and>
          (case add_all add H vs 0 st of
             (ok, st) \<Rightarrow> ok \<and> fst (CBB_finish H True 0 st) = Some out))"

locale byte_writer =
  fixes add :: "allocator \<Rightarrow> 'v \<Rightarrow> nat \<Rightarrow> cbb \<Rightarrow> bool \<times> cbb"
    and bytes :: "'v \<Rightarrow> u8 list"
    and dom :: "'v \<Rightarrow> bool"
  assumes add_appends: "cbb_ok st \<Longrightarrow> dom v \<Longrightarrow> add H v d st = (True, st') \<Longrightarrow> appends d (bytes v) st st'"
begin

lemma add_all_appends:
  "cbb_ok st \<Longrightarrow> list_all dom vs \<Longrightarrow> add_all add H vs d st = (True, st') \<Longrightarrow> appends d (concat (map bytes vs)) st st'"
proof (induction vs arbitrary: st)
  case Nil
  then show ?case by (simp add: flushed_appends)
next
  case (Cons v vs)
  then obtain st1 where a: "add H v d st = (True, st1)" and l: "add_all add H vs d st1 = (True, st')"
    by (auto elim: and_then_TrueE)
  have ap: "appends d (bytes v) st st1" using add_appends [OF Cons.prems(1) _ a] Cons.prems(2) by simp
  from appends_trans [OF ap Cons.IH [OF appends_ok [OF ap] _ l]] Cons.prems(2) show ?case by simp
qed

end

locale byte_codec = byte_writer +
  fixes get :: "cbs \<Rightarrow> 'a option \<times> cbs"
  assumes get_bytes: "dom v \<Longrightarrow> get (bytes v @ s) = (Some v, s)"
begin

lemma get_all_bytes: "list_all dom vs \<Longrightarrow> get_all get (length vs) (concat (map bytes vs) @ s) = (Some vs, s)"
  by (induction vs) (simp_all add: get_bytes get_bind_def)

end

section \<open>Starting and finishing\<close>

lemma CBB_init_ok:
  assumes "CBB_init H cap = (True, st)" "cap < SIZE_MOD"
  shows "ready 0 st" "cbb_abs st = ([], [])"
  using assms by (auto simp: CBB_init_def cbb_init_def ready_def cbb_ok_def buf_ok_def cbb_abs_def used_def split: if_splits)

lemma CBB_finish_out:
  assumes "cbb_ok st" "CBB_finish H True 0 st = (Some out, st')"
  shows "\<exists>z. spec_flush 0 (cbb_abs st) = Some z \<and> z = (out, [])"
proof -
  obtain st1 where f: "CBB_flush H 0 st = (True, st1)" and out: "out = used (cb_base st1)"
    using assms(2) by (cases "CBB_flush H 0 st"; cases "fst (CBB_flush H 0 st)") (auto simp: CBB_finish_def used_def split: if_splits)
  note fl = CBB_flush_True [OF assms(1) f]
  have "cbb_abs st1 = (out, [])" using fl(4) by (simp add: cbb_abs_def out)
  then show ?thesis using fl(1) by (simp add: flushed_def)
qed

context byte_writer
begin

lemma builds_bytes:
  assumes "cap < SIZE_MOD" "list_all dom vs" "builds H cap add vs out"
  shows "out = concat (map bytes vs)"
proof -
  obtain st st1 st2 where i: "CBB_init H cap = (True, st)" and a: "add_all add H vs 0 st = (True, st1)"
    and f: "CBB_finish H True 0 st1 = (Some out, st2)"
    using assms(3) by (cases "CBB_init H cap"; cases "CBB_finish H True 0 (snd (add_all add H vs 0 (snd (CBB_init H cap))))")
      (auto simp: builds_def split: prod.splits)
  note st = CBB_init_ok [OF i assms(1)]
  have ap: "appends 0 (concat (map bytes vs)) st st1"
    using add_all_appends [OF _ assms(2) a] st(1) by (simp add: ready_def)
  have "cbb_abs st1 = (concat (map bytes vs), [])" using ap st(2) by (simp add: appends_def)
  then show ?thesis using CBB_finish_out [OF appends_ok [OF ap] f] by simp
qed

end

context byte_codec
begin

lemma build_and_read:
  "cap < SIZE_MOD \<Longrightarrow> list_all dom vs \<Longrightarrow> builds H cap add vs out \<Longrightarrow> get_all get (length vs) out = (Some vs, [])"
  using builds_bytes get_all_bytes [of vs "[]"] by simp

end

section \<open>Integers of fixed width\<close>

lemma be_word:
  fixes w :: "'a::len word"
  assumes "LENGTH('a) = 8 * n"
  shows "unat w < 256 ^ n" "word_of_nat (be_to_nat (nat_to_be n (unat w))) = w"
proof -
  have "unat w < 2 ^ (8 * n)" using unsigned_less [of w] assms by simp
  also have "(2 :: nat) ^ (8 * n) = 256 ^ n" by (simp add: power_mult)
  finally show lt: "unat w < 256 ^ n" .
  show "word_of_nat (be_to_nat (nat_to_be n (unat w))) = w" using lt by simp
qed

lemma cbs_get_u_be:
  "n \<le> 8 \<Longrightarrow> v < 256 ^ n \<Longrightarrow> cbs_get_u n (nat_to_be n v @ s) = (Some (word_of_nat v), s)"
  by (simp add: cbs_get_u_eq)

lemma ucast_ucast_same: "LENGTH('a) \<le> LENGTH('b) \<Longrightarrow> ucast (ucast (v :: 'a::len word) :: 'b::len word) = v"
  by (rule bit_word_eqI) (auto simp: bit_simps)

lemma unat_be_le:
  assumes "LENGTH('a) = 8 * n"
  shows "unat (word_of_nat (be_to_nat (nat_to_le n v)) :: 'a::len word) = be_to_nat (nat_to_le n v)"
proof -
  have "be_to_nat (nat_to_le n v) < 256 ^ n" using be_to_nat_less [of "nat_to_le n v"] by simp
  also have "(256 :: nat) ^ n = 2 ^ (8 * n)" by (simp add: power_mult)
  finally show ?thesis using assms by (simp add: unsigned_of_nat take_bit_nat_eq_self)
qed

lemma bswap_bytes:
  "nat_to_be 2 (unat (CRYPTO_bswap2 a)) = nat_to_le 2 (unat a)"
  "nat_to_be 4 (unat (CRYPTO_bswap4 b)) = nat_to_le 4 (unat b)"
  "nat_to_be 8 (unat (CRYPTO_bswap8 c)) = nat_to_le 8 (unat c)"
  by (simp_all add: CRYPTO_bswap2_def CRYPTO_bswap4_def CRYPTO_bswap8_def unat_be_le)

lemma bswap_bswap [simp]:
  "CRYPTO_bswap2 (CRYPTO_bswap2 a) = a" "CRYPTO_bswap4 (CRYPTO_bswap4 b) = b" "CRYPTO_bswap8 (CRYPTO_bswap8 c) = c"
proof -
  have e: "be_to_nat (nat_to_le n v) = le_to_nat (nat_to_be n v)" for n v by (simp add: be_to_nat_def nat_to_be_def)
  have lt: "unat a < 256 ^ 2" "unat b < 256 ^ 4" "unat c < 256 ^ 8"
    using be_word(1) [of 2 a] be_word(1) [of 4 b] be_word(1) [of 8 c] by simp_all
  show "CRYPTO_bswap2 (CRYPTO_bswap2 a) = a" using lt(1) bswap_bytes(1) [of a] by (simp add: CRYPTO_bswap2_def [of "CRYPTO_bswap2 a"] e)
  show "CRYPTO_bswap4 (CRYPTO_bswap4 b) = b" using lt(2) bswap_bytes(2) [of b] by (simp add: CRYPTO_bswap4_def [of "CRYPTO_bswap4 b"] e)
  show "CRYPTO_bswap8 (CRYPTO_bswap8 c) = c" using lt(3) bswap_bytes(3) [of c] by (simp add: CRYPTO_bswap8_def [of "CRYPTO_bswap8 c"] e)
qed

interpretation u8: byte_codec CBB_add_u8 "\<lambda>v. [v]" "\<lambda>v. True" CBS_get_u8
  by unfold_locales (simp_all add: CBB_add_u8_appends)

interpretation u16: byte_codec CBB_add_u16 "\<lambda>v. nat_to_be 2 (unat v)" "\<lambda>v. True" CBS_get_u16
proof unfold_locales
  show "appends d (nat_to_be 2 (unat v)) st st'" if "cbb_ok st" "CBB_add_u16 H v d st = (True, st')" for H v d st st'
    using cbb_add_u_appends(1) [OF that(1) _ that(2) [unfolded CBB_add_u16_def]] by simp
  show "CBS_get_u16 (nat_to_be 2 (unat v) @ s) = (Some v, s)" for v s
    using be_word(1) [of 2 v] by (simp add: CBS_get_u16_def cbs_get_u_be get_bind_def ucast_ucast_same)
qed

interpretation u24: byte_codec CBB_add_u24 "\<lambda>v. nat_to_be 3 (unat v)" "\<lambda>v. unat v < 2 ^ 24" CBS_get_u24
proof unfold_locales
  show "appends d (nat_to_be 3 (unat v)) st st'" if "cbb_ok st" "CBB_add_u24 H v d st = (True, st')" for H v d st st'
    using cbb_add_u_appends(1) [OF that(1) _ that(2) [unfolded CBB_add_u24_def]] by simp
  show "CBS_get_u24 (nat_to_be 3 (unat v) @ s) = (Some v, s)" if "unat v < 2 ^ 24" for v s
    using that by (simp add: CBS_get_u24_def cbs_get_u_be get_bind_def ucast_ucast_same)
qed

interpretation u32: byte_codec CBB_add_u32 "\<lambda>v. nat_to_be 4 (unat v)" "\<lambda>v. True" CBS_get_u32
proof unfold_locales
  show "appends d (nat_to_be 4 (unat v)) st st'" if "cbb_ok st" "CBB_add_u32 H v d st = (True, st')" for H v d st st'
    using cbb_add_u_appends(1) [OF that(1) _ that(2) [unfolded CBB_add_u32_def]] by simp
  show "CBS_get_u32 (nat_to_be 4 (unat v) @ s) = (Some v, s)" for v s
    using be_word(1) [of 4 v] by (simp add: CBS_get_u32_def cbs_get_u_be get_bind_def ucast_ucast_same)
qed

interpretation u64: byte_codec CBB_add_u64 "\<lambda>v. nat_to_be 8 (unat v)" "\<lambda>v. True" CBS_get_u64
proof unfold_locales
  show "appends d (nat_to_be 8 (unat v)) st st'" if "cbb_ok st" "CBB_add_u64 H v d st = (True, st')" for H v d st st'
    using cbb_add_u_appends(1) [OF that(1) _ that(2) [unfolded CBB_add_u64_def]] by simp
  show "CBS_get_u64 (nat_to_be 8 (unat v) @ s) = (Some v, s)" for v s
    using be_word(1) [of 8 v] by (simp add: CBS_get_u64_def cbs_get_u_be)
qed

interpretation u16le: byte_codec CBB_add_u16le "\<lambda>v. nat_to_le 2 (unat v)" "\<lambda>v. True" CBS_get_u16le
  by unfold_locales
     (auto simp: CBB_add_u16le_def CBS_get_u16le_def get_bind_def u16.get_bytes simp flip: bswap_bytes dest: u16.add_appends)

interpretation u32le: byte_codec CBB_add_u32le "\<lambda>v. nat_to_le 4 (unat v)" "\<lambda>v. True" CBS_get_u32le
  by unfold_locales
     (auto simp: CBB_add_u32le_def CBS_get_u32le_def get_bind_def u32.get_bytes simp flip: bswap_bytes dest: u32.add_appends)

interpretation u64le: byte_codec CBB_add_u64le "\<lambda>v. nat_to_le 8 (unat v)" "\<lambda>v. True" CBS_get_u64le
  by unfold_locales
     (auto simp: CBB_add_u64le_def CBS_get_u64le_def get_bind_def u64.get_bytes [unfolded CBS_get_u64_def]
       simp flip: bswap_bytes dest: u64.add_appends)

section \<open>ASN.1 values\<close>

locale asn1_constants =
  fixes E :: asn1_env
  assumes env_ok: "asn1_env_ok E"
begin

lemma element_add:
  assumes "cbb_ok st"
    and "or_error d (and_then (CBB_add_asn1 H E tag d st) (\<lambda>st. and_then (g st) (CBB_flush H d))) = (True, st')"
    and "\<And>st1 st2. ready (Suc d) st1 \<Longrightarrow> g st1 = (True, st2) \<Longrightarrow> appends (Suc d) c st1 st2"
  shows "appends d (der_element tag c) st st'"
proof -
  obtain st1 st2 where a: "CBB_add_asn1 H E tag d st = (True, st1)" and g: "g st1 = (True, st2)"
    and f: "CBB_flush H d st2 = (True, st')"
    using assms(2) by (auto dest!: or_error_TrueD elim!: and_then_TrueE)
  have "ready (Suc d) st1" using CBB_add_asn1_opens [OF env_ok assms(1) a] by (rule opens_ready)
  from asn1_element_appends(1) [OF env_ok assms(1) a assms(3) [OF this g] f] show ?thesis .
qed

lemma element_get:
  "valid_tag t \<Longrightarrow> length c < 2 ^ 32 \<Longrightarrow> CBS_get_asn1 E t (der_element t c @ s) = (Some c, s)"
  using CBS_get_asn1_iff [OF env_ok] by simp

end

sublocale asn1_constants \<subseteq> uint64: byte_codec "\<lambda>H. CBB_add_asn1_uint64 H E"
  "\<lambda>v. der_element 2 (der_uint (unat v))" "\<lambda>v. True" "CBS_get_asn1_uint64 E"
proof unfold_locales
  show "appends d (der_element 2 (der_uint (unat v))) st st'"
    if "cbb_ok st" "CBB_add_asn1_uint64 H E v d st = (True, st')" for H v d st st'
    using CBB_add_asn1_uint64_appends [OF env_ok that(1) that(2) [unfolded CBB_add_asn1_uint64_def]]
    by (simp add: tag_integer(1) [OF env_ok])
  show "CBS_get_asn1_uint64 E (der_element 2 (der_uint (unat v)) @ s) = (Some v, s)" for v s
    using CBS_get_asn1_uint64_iff [OF env_ok] by simp
qed

sublocale asn1_constants \<subseteq> int64: byte_codec "\<lambda>H. CBB_add_asn1_int64 H E"
  "\<lambda>v. der_element 2 (der_int v)" "\<lambda>v. True" "CBS_get_asn1_int64 E"
proof unfold_locales
  show "appends d (der_element 2 (der_int v)) st st'"
    if "cbb_ok st" "CBB_add_asn1_int64 H E v d st = (True, st')" for H v d st st'
    using CBB_add_asn1_int64_appends [OF env_ok that(1) that(2) [unfolded CBB_add_asn1_int64_def]]
    by (simp add: tag_integer(1) [OF env_ok])
  show "CBS_get_asn1_int64 E (der_element 2 (der_int v) @ s) = (Some v, s)" for v s
    using CBS_get_asn1_int64_iff [OF env_ok] by simp
qed

sublocale asn1_constants \<subseteq> boolean: byte_codec "\<lambda>H. CBB_add_asn1_bool H E"
  "\<lambda>v. der_element 1 [if v then 0xff else 0]" "\<lambda>v. True" "CBS_get_asn1_bool E"
proof unfold_locales
  show "appends d (der_element 1 [if v then 0xff else 0]) st st'"
    if "cbb_ok st" "CBB_add_asn1_bool H E v d st = (True, st')" for H v d st st'
    using element_add [OF that(1) that(2) [unfolded CBB_add_asn1_bool_def]]
    by (simp add: tag_integer(5) [OF env_ok] ready_def CBB_add_u8_appends)
  show "CBS_get_asn1_bool E (der_element 1 [if v then 0xff else 0] @ s) = (Some v, s)" for v s
    using element_get [of 1 "[if v then 0xff else 0]" s] tag_integer(3)
    by (simp add: CBS_get_asn1_bool_def get_bind_def tag_integer(5) [OF env_ok] Let_def)
qed

sublocale asn1_constants \<subseteq> octets: byte_codec "\<lambda>H. CBB_add_asn1_octet_string H E"
  "der_element 4" "\<lambda>c. length c < 2 ^ 32" "CBS_get_asn1 E (TAG_OCTETSTRING E)"
proof unfold_locales
  show "appends d (der_element 4 c) st st'"
    if "cbb_ok st" "length c < 2 ^ 32" "CBB_add_asn1_octet_string H E c d st = (True, st')" for H c d st st'
  proof -
    have "length c < SIZE_MOD" using that(2) by simp
    then show ?thesis
      using element_add [OF that(1) that(3) [unfolded CBB_add_asn1_octet_string_def]]
      by (simp add: tag_integer(6) [OF env_ok] ready_def CBB_add_bytes_appends)
  qed
  show "CBS_get_asn1 E (TAG_OCTETSTRING E) (der_element 4 c @ s) = (Some c, s)" if "length c < 2 ^ 32" for c s
    using element_get [of 4 c s] tag_integer(4) that by (simp add: tag_integer(6) [OF env_ok])
qed

context asn1_constants
begin

lemmas value_roundtrips = uint64.build_and_read int64.build_and_read boolean.build_and_read octets.build_and_read

end

text \<open>The constants of the header as its documentation gives them.\<close>

definition asn1_env_std :: asn1_env where
  "asn1_env_std = \<lparr>TAG_SHIFT = 24, CONSTRUCTED = 0x20000000, TAG_NUMBER_MASK = 0x1fffffff, TAG_BOOLEAN = 1,
     TAG_INTEGER = 2, TAG_OCTETSTRING = 4, TAG_STRINGS = [4, 12, 18, 19, 20, 21, 22, 25, 26, 27, 28, 30],
     isdigit = (\<lambda>c. 48 \<le> c \<and> c \<le> 57)\<rparr>"

lemma asn1_env_std_ok [simp]: "asn1_env_ok asn1_env_std"
  by (simp add: asn1_env_std_def asn1_env_ok_def)

text \<open>A heap that never runs out of memory.\<close>

definition heap_total :: allocator where
  "heap_total = \<lparr>alloc_ok = (\<lambda>n. True), junk = (\<lambda>i. 0xaa)\<rparr>"

interpretation std: asn1_constants asn1_env_std
  by unfold_locales simp

end
