(* ===== verification/BS_Cbb_Inv.thy ===== *)
theory BS_Cbb_Inv
  imports BS_Codec
begin

text \<open>
  Memory safety of the builder: whatever calls a program makes on a \<open>CBB\<close> and its children, in any
  order, with any handle of the chain and whether they succeed or fail, no null pointer is dereferenced and the buffer keeps its
  bookkeeping: the used
  part lies inside the allocation, no write extends it except by a reallocation, a buffer of fixed
  size keeps its size, and the pending children lie behind each other inside the used part.
\<close>

section \<open>What every call keeps\<close>

text \<open>The handle \<open>d\<close> is in the chain.\<close>

definition cbb_live :: "nat \<Rightarrow> cbb \<Rightarrow> bool" where
  "cbb_live d st \<longleftrightarrow> cbb_ok st \<and> d \<le> length (cb_chain st)"

definition keeps :: "nat \<Rightarrow> cbb \<Rightarrow> cbb \<Rightarrow> bool" where
  "keeps d st st' \<longleftrightarrow> cbb_live d st' \<and> bf_can_resize (cb_base st') = bf_can_resize (cb_base st) \<and>
     (\<not> bf_can_resize (cb_base st) \<longrightarrow> bf_cap (cb_base st') = bf_cap (cb_base st)) \<and>
     (bf_error (cb_base st) \<longrightarrow> bf_error (cb_base st'))"

lemma keeps_trans: "keeps d' a b \<Longrightarrow> keeps d b c \<Longrightarrow> keeps d a c"
  by (simp add: keeps_def)

lemma keeps_refl: "cbb_live d st \<Longrightarrow> keeps d st st"
  by (simp add: keeps_def)

lemma keeps_live: "keeps d st st' \<Longrightarrow> cbb_live d st'"
  by (simp add: keeps_def)

lemma keeps_ok: "keeps d st st' \<Longrightarrow> cbb_ok st'"
  by (simp add: keeps_def cbb_live_def)

lemma live_ok: "cbb_live d st \<Longrightarrow> cbb_ok st"
  by (simp add: cbb_live_def)

text \<open>The parent of a child in the chain is in the chain.\<close>

lemma keeps_parent: "keeps (Suc d) st st' \<Longrightarrow> keeps d st st'"
  by (simp add: keeps_def cbb_live_def)

lemma keeps_on_error: "keeps d st st' \<Longrightarrow> keeps d st (cbb_on_error d st')"
  by (auto simp: keeps_def cbb_live_def cbb_on_error_def cbb_ok_def buf_ok_def intro: chain_ok_take)

lemma keeps_and_then:
  assumes "keeps d st (snd r)" "\<And>s. keeps d st s \<Longrightarrow> keeps d st (snd (g s))"
  shows "keeps d st (snd (and_then r g))"
  using assms by (cases r) (auto simp: and_then_def)

text \<open>The second step may use that the first one succeeded.\<close>

lemma keeps_and_then_True:
  assumes "keeps d st (snd r)" "\<And>s. r = (True, s) \<Longrightarrow> keeps d st (snd (g s))"
  shows "keeps d st (snd (and_then r g))"
  using assms by (cases r) (auto simp: and_then_def)

lemma keeps_or_error: "keeps d st (snd r) \<Longrightarrow> keeps d st (snd (or_error d r))"
  by (cases r) (auto simp: or_error_def keeps_on_error)

text \<open>A new buffer of the same kind that is at least as long.\<close>

lemma keeps_base:
  assumes "cbb_live d st" "buf_ok b" "bf_len (cb_base st) \<le> bf_len b" "bf_can_resize b = bf_can_resize (cb_base st)"
    "\<not> bf_can_resize b \<longrightarrow> bf_cap b = bf_cap (cb_base st)" "bf_error (cb_base st) \<longrightarrow> bf_error b"
  shows "keeps d st (st\<lparr>cb_base := b\<rparr>)"
  using assms by (auto simp: keeps_def cbb_live_def cbb_ok_def intro: chain_ok_mono)

lemma buffer_add_keeps:
  assumes "buf_ok b" "n < SIZE_MOD" "cbb_buffer_add H n b = (ok, b')"
  shows "buf_ok b' \<and> bf_len b' = (if ok then bf_len b + n else bf_len b) \<and> bf_can_resize b' = bf_can_resize b \<and>
    (\<not> bf_can_resize b \<longrightarrow> bf_cap b' = bf_cap b) \<and> (bf_error b \<longrightarrow> bf_error b')"
proof (cases ok)
  case True
  with assms show ?thesis
    using buffer_add_ok [OF assms(1,2), of H b'] by (auto simp: grown_def buf_ok_def)
next
  case False
  with assms show ?thesis using buffer_add_fails [of H n b b'] by (auto simp: buf_ok_def)
qed

lemma flush_write_keeps:
  assumes b: "buf_ok b" and c: "ch_offset c + ch_pending_len_len c \<le> bf_len b"
    "ch_pending_is_asn1 c \<longrightarrow> ch_pending_len_len c = 1"
    and r: "flush_write H c (ch_offset c + ch_pending_len_len c) b = (False, b')"
  shows "buf_ok b' \<and> bf_len b' = bf_len b \<and> bf_can_resize b' = bf_can_resize b \<and>
    (\<not> bf_can_resize b \<longrightarrow> bf_cap b' = bf_cap b) \<and> (bf_error b \<longrightarrow> bf_error b')"
proof (cases "ch_pending_is_asn1 c")
  case False
  then have "b' = b\<lparr>bf_buf := mem_put (ch_offset c) (nat_to_be (ch_pending_len_len c)
      (bf_len b - (ch_offset c + ch_pending_len_len c))) (bf_buf b)\<rparr>"
    using r put_be_loop_eq [of "ch_offset c" "ch_pending_len_len c" "bf_buf b"] b c(1)
    by (auto simp: flush_write_def Let_def buf_ok_def)
  then show ?thesis using b c(1) by (simp add: buf_ok_def)
next
  case True
  define n where "n = bf_len b - (ch_offset c + 1)"
  have p: "ch_pending_len_len c = 1" using True c(2) by simp
  have len: "bf_len b = ch_offset c + 1 + n" using c(1) p by (simp add: n_def)
  have r1: "flush_write H c (ch_offset c + 1) b = (False, b')" using r p by simp
  consider "n < 128" | "128 \<le> n" "n \<le> 0xfffffffe" | "0xfffffffe < n" by linarith
  then show ?thesis
  proof cases
    case 1
    moreover have "ch_offset c < length (bf_buf b)" using b len by (simp add: buf_ok_def)
    ultimately show ?thesis
      using r1 True len by (auto simp: flush_write_def Let_def asn1_len_bytes_eq)
  next
    case 2
    from flush_write_move [OF b True len 2 r1] b show ?thesis by (simp add: buf_ok_def)
  next
    case 3
    then show ?thesis
      using r1 True len b by (auto simp: flush_write_def Let_def asn1_len_bytes_eq)
  qed
qed

lemma flushed_keeps: "flushed d st st' \<Longrightarrow> cbb_live d st \<Longrightarrow> keeps d st st'"
  by (auto simp: flushed_def keeps_def cbb_live_def same_kind_def)

lemma CBB_flush_keeps:
  assumes "cbb_live d st"
  shows "keeps d st (snd (CBB_flush H d st))"
proof (cases "bf_error (cb_base st)")
  case True
  then have "CBB_flush H d st = (False, st)" by (auto simp: CBB_flush.simps [of H d st])
  then show ?thesis using assms by (simp add: keeps_refl)
next
  case False
  note e = False and ok = live_ok [OF assms]
  from assms have "d \<le> length (cb_chain st)" by (simp add: cbb_live_def)
  then show ?thesis
  proof (induction "length (cb_chain st) - d" arbitrary: d)
    case 0
    then have "length (cb_chain st) = d" by simp
    then show ?case using CBB_flush_done [of st d H] e ok by (simp add: keeps_refl cbb_live_def)
  next
    case (Suc m)
    obtain ok1 st1 where r: "CBB_flush H (Suc d) st = (ok1, st1)" by fastforce
    have d: "d < length (cb_chain st)" using Suc.hyps(2) by linarith
    have IH: "keeps (Suc d) st st1" using Suc.hyps(1) [of "Suc d"] Suc.hyps(2) Suc.prems r by simp
    note k1 = keeps_parent [OF IH]
    have f1: "flushed (Suc d) st st1" if ok1 using CBB_flush_refines [OF ok e _ r] d that by simp
    let ?c = "cb_chain st ! d"
    note unf = CBB_flush_unfold [OF ok e d r f1, unfolded Let_def]
    show ?case
    proof (cases ok1)
      case False
      then show ?thesis using unf k1 by (simp add: keeps_on_error)
    next
      case True
      obtain ok2 b2 where w: "flush_write H ?c (ch_offset ?c + ch_pending_len_len ?c) (cb_base st1) = (ok2, b2)" by fastforce
      show ?thesis
      proof (cases ok2)
        case ok2: True
        then have "CBB_flush H d st = (True, snd (CBB_flush H d st))" using unf True w by simp
        from CBB_flush_True(1) [OF ok this] show ?thesis using ok d by (intro flushed_keeps) (simp_all add: cbb_live_def)
      next
        case False
        have ch: "cb_chain st1 = take d (cb_chain st) @ [?c]"
          using f1 [OF True] d by (simp add: flushed_def take_Suc_conv_app_nth)
        have b: "buf_ok (cb_base st1)" and c: "ch_offset ?c + ch_pending_len_len ?c \<le> bf_len (cb_base st1)"
          "ch_pending_is_asn1 ?c \<longrightarrow> ch_pending_len_len ?c = 1"
          using keeps_ok [OF k1] ch by (auto simp: cbb_ok_def chain_ok_snoc)
        have w': "flush_write H ?c (ch_offset ?c + ch_pending_len_len ?c) (cb_base st1) = (False, b2)" using w False by simp
        have "keeps d st1 (st1\<lparr>cb_base := b2\<rparr>)"
          using flush_write_keeps [OF b c w'] keeps_live [OF k1] by (intro keeps_base) auto
        then show ?thesis using unf True w False keeps_trans [OF k1] by (simp add: keeps_on_error)
      qed
    qed
  qed
qed

named_theorems keeping \<open>calls that keep the buffer well-formed\<close>

declare CBB_flush_keeps [keeping]

lemma cbb_add_child_keeps [keeping]:
  assumes "cbb_live d st" "1 \<le> p" "p \<le> 8" "a \<longrightarrow> p = 1" "length (cb_chain st) = d"
  shows "keeps d st (snd (cbb_add_child H p a d st))"
proof -
  obtain ok b where add: "cbb_buffer_add H p (cb_base st) = (ok, b)" by fastforce
  have p: "p < SIZE_MOD" using assms(3) by simp
  have b: "buf_ok (cb_base st)" using assms(1) by (simp add: cbb_live_def cbb_ok_def)
  note k = buffer_add_keeps [OF b p add]
  show ?thesis
  proof (cases ok)
    case False
    then show ?thesis using add k assms(1) by (auto simp: cbb_add_child_def intro!: keeps_base)
  next
    case True
    let ?b = "b\<lparr>bf_buf := mem_put (bf_len (cb_base st)) (replicate p 0) (bf_buf b)\<rparr>"
    have "buf_ok ?b" using k True by (simp add: buf_ok_def)
    then show ?thesis
      using True add k assms by (auto simp: cbb_add_child_def Let_def keeps_def cbb_live_def cbb_ok_def chain_ok_snoc)
  qed
qed

lemma CBB_add_space_keeps [keeping]:
  assumes "cbb_live d st" "n < SIZE_MOD"
  shows "keeps d st (snd (CBB_add_space H n d st))"
proof (unfold CBB_add_space_def, rule keeps_and_then)
  show "keeps d st (snd (CBB_flush H d st))" using assms(1) by (rule CBB_flush_keeps)
  show "keeps d st (snd (case cbb_buffer_add H n (cb_base s) of (ok, base) \<Rightarrow> (ok, s\<lparr>cb_base := base\<rparr>)))" if s: "keeps d st s" for s
  proof -
    obtain ok b where add: "cbb_buffer_add H n (cb_base s) = (ok, b)" by fastforce
    have ok: "cbb_live d s" using s by (rule keeps_live)
    then have "buf_ok (cb_base s)" by (simp add: cbb_live_def cbb_ok_def)
    from buffer_add_keeps [OF this assms(2) add] have "keeps d s (s\<lparr>cb_base := b\<rparr>)"
      using ok by (intro keeps_base) auto
    with s add show ?thesis using keeps_trans by simp
  qed
qed

lemma CBB_reserve_keeps [keeping]:
  assumes "cbb_live d st" "n < SIZE_MOD"
  shows "keeps d st (snd (CBB_reserve H n d st))"
proof (unfold CBB_reserve_def, rule keeps_and_then)
  show "keeps d st (snd (CBB_flush H d st))" using assms(1) by (rule CBB_flush_keeps)
  show "keeps d st (snd (case cbb_buffer_reserve H n (cb_base s) of (ok, base) \<Rightarrow> (ok, s\<lparr>cb_base := base\<rparr>)))" if s: "keeps d st s" for s
  proof -
    obtain ok b where r: "cbb_buffer_reserve H n (cb_base s) = (ok, b)" by fastforce
    have ok: "cbb_live d s" using s by (rule keeps_live)
    then have bo: "buf_ok (cb_base s)" by (simp add: cbb_live_def cbb_ok_def)
    have "keeps d s (s\<lparr>cb_base := b\<rparr>)"
    proof (cases ok)
      case True
      with reserve_grown [OF bo assms(2)] r have "grown n (cb_base s) b" by simp
      then show ?thesis using \<open>cbb_live d s\<close> by (intro keeps_base) (auto simp: grown_def)
    next
      case False
      with reserve_fails r have "b = (cb_base s)\<lparr>bf_error := True\<rparr>" by simp
      then show ?thesis using \<open>cbb_live d s\<close> by (intro keeps_base) (auto simp: cbb_live_def cbb_ok_def buf_ok_def)
    qed
    with s r show ?thesis using keeps_trans by simp
  qed
qed

text \<open>A write of \<open>n\<close> bytes in front of the end of the used part.\<close>

lemma keeps_fill:
  assumes "keeps d st s" "length bs = n" "n \<le> bf_len (cb_base s)"
  shows "keeps d st (s\<lparr>cb_base := (cb_base s)\<lparr>bf_buf := mem_put (bf_len (cb_base s) - n) bs (bf_buf (cb_base s))\<rparr>\<rparr>)"
proof -
  have ok: "cbb_live d s" using assms(1) by (rule keeps_live)
  then have "keeps d s (s\<lparr>cb_base := (cb_base s)\<lparr>bf_buf := mem_put (bf_len (cb_base s) - n) bs (bf_buf (cb_base s))\<rparr>\<rparr>)"
    using assms(2,3) by (intro keeps_base) (auto simp: cbb_live_def cbb_ok_def buf_ok_def)
  with assms(1) show ?thesis by (rule keeps_trans)
qed

lemma CBB_add_space_len: "cbb_live d st \<Longrightarrow> n < SIZE_MOD \<Longrightarrow> CBB_add_space H n d st = (True, s) \<Longrightarrow> n \<le> bf_len (cb_base s)"
  using live_ok by (rule add_space_fill(1))

lemma CBB_add_bytes_keeps [keeping]:
  assumes "cbb_live d st" "length data < SIZE_MOD"
  shows "keeps d st (snd (CBB_add_bytes H data d st))"
proof -
  obtain ok s where a: "CBB_add_space H (length data) d st = (ok, s)" by fastforce
  have k: "keeps d st s" using CBB_add_space_keeps [OF assms, of H] a by simp
  show ?thesis
    using a k keeps_fill [OF k refl] CBB_add_space_len [OF assms, of H s]
    by (cases ok) (simp_all add: CBB_add_bytes_def fill_space_def)
qed

lemma CBB_add_zeros_keeps [keeping]:
  assumes "cbb_live d st" "n < SIZE_MOD"
  shows "keeps d st (snd (CBB_add_zeros H n d st))"
proof -
  obtain ok s where a: "CBB_add_space H n d st = (ok, s)" by fastforce
  have k: "keeps d st s" using CBB_add_space_keeps [OF assms, of H] a by simp
  show ?thesis
    using a k keeps_fill [OF k, of "replicate n 0" n] CBB_add_space_len [OF assms, of H s]
    by (cases ok) (simp_all add: CBB_add_zeros_def fill_space_def)
qed

lemma cbb_add_u_keeps [keeping]:
  assumes "cbb_live d st" "n \<le> 8"
  shows "keeps d st (snd (cbb_add_u H v n d st))"
proof -
  have n: "n < SIZE_MOD" using assms(2) by simp
  obtain ok s where a: "CBB_add_space H n d st = (ok, s)" by fastforce
  have k: "keeps d st s" using CBB_add_space_keeps [OF assms(1) n, of H] a by simp
  show ?thesis
  proof (cases ok)
    case True
    have le: "n \<le> bf_len (cb_base s)" using CBB_add_space_len [OF assms(1) n, of H s] a True by simp
    have "bf_len (cb_base s) \<le> length (bf_buf (cb_base s))" using keeps_ok [OF k] by (simp add: cbb_ok_def buf_ok_def)
    then have "put_be_loop n (bf_len (cb_base s) - n) (unat v) (bf_buf (cb_base s)) =
        Some (unat v div 256 ^ n, mem_put (bf_len (cb_base s) - n) (nat_to_be n (unat v)) (bf_buf (cb_base s)))"
      using le by (intro put_be_loop_eq) simp
    then show ?thesis
      using True a keeps_fill [OF k, of "nat_to_be n (unat v)" n] le
      by (simp add: cbb_add_u_def Let_def keeps_on_error)
  qed (use a k in \<open>simp add: cbb_add_u_def\<close>)
qed

lemma CBB_add_u8_keeps [keeping]: "cbb_live d st \<Longrightarrow> keeps d st (snd (CBB_add_u8 H v d st))"
  by (simp add: CBB_add_u8_def cbb_add_u_keeps)

lemma CBB_did_write_keeps [keeping]: "cbb_live d st \<Longrightarrow> keeps d st (snd (CBB_did_write n d st))"
proof -
  assume live: "cbb_live d st"
  have lt: "size_add (bf_len (cb_base st)) n < SIZE_MOD" by (simp add: size_add_def)
  show ?thesis
  proof (cases "length (cb_chain st) \<noteq> d \<or> size_add (bf_len (cb_base st)) n < bf_len (cb_base st) \<or>
      bf_cap (cb_base st) < size_add (bf_len (cb_base st)) n")
    case True
    then show ?thesis using live by (auto simp: CBB_did_write_def Let_def keeps_refl cbb_live_def)
  next
    case False
    then show ?thesis using live
      by (auto simp: CBB_did_write_def Let_def cbb_live_def cbb_ok_def buf_ok_def intro!: keeps_base)
  qed
qed

lemma CBB_discard_child_keeps [keeping]: "cbb_live d st \<Longrightarrow> keeps d st (CBB_discard_child d st)"
proof -
  assume live: "cbb_live d st"
  show ?thesis
  proof (cases "length (cb_chain st) = d")
    case False
    then have d: "d < length (cb_chain st)" using live by (simp add: cbb_live_def)
    then have "chain_ok 0 (take d (cb_chain st) @ [cb_chain st ! d]) (bf_len (cb_base st))"
      using live chain_ok_take [of 0 "cb_chain st" "bf_len (cb_base st)" "Suc d"]
      by (simp add: cbb_live_def cbb_ok_def take_Suc_conv_app_nth)
    then have "chain_ok 0 (take d (cb_chain st)) (ch_offset (cb_chain st ! d))"
      "ch_offset (cb_chain st ! d) \<le> bf_len (cb_base st)" unfolding chain_ok_snoc by auto
    then show ?thesis using d live by (auto simp: CBB_discard_child_def keeps_def cbb_live_def cbb_ok_def buf_ok_def)
  qed (use live in \<open>simp add: CBB_discard_child_def keeps_refl\<close>)
qed

lemma CBB_add_u8_keeps_trans: "keeps d st s \<Longrightarrow> keeps d st (snd (CBB_add_u8 H v d s))"
  using CBB_add_u8_keeps keeps_live keeps_trans by blast

lemma add_base128_loop_keeps: "keeps d st s \<Longrightarrow> keeps d st (snd (add_base128_loop H v n d s))"
proof (induction n arbitrary: s)
  case (Suc n)
  then show ?case
    by (simp only: add_base128_loop.simps Let_def) (intro keeps_and_then CBB_add_u8_keeps_trans)
qed simp

lemma add_base128_integer_keeps: "keeps d st s \<Longrightarrow> keeps d st (snd (add_base128_integer H v d s))"
  by (simp only: add_base128_integer_def Let_def add_base128_loop_keeps)

lemma cbb_add_length_prefixed_keeps [keeping]:
  assumes "cbb_live d st" "1 \<le> p" "p \<le> 8"
  shows "keeps d st (snd (cbb_add_length_prefixed H p d st))"
proof -
  obtain ok s where f: "CBB_flush H d st = (ok, s)" by fastforce
  have k: "keeps d st s" using CBB_flush_keeps [OF assms(1), of H] f by simp
  show ?thesis
  proof (cases ok)
    case True
    then have "length (cb_chain s) = d" using CBB_flush_True(4) [OF live_ok [OF assms(1)]] f by simp
    from cbb_add_child_keeps [OF keeps_live [OF k] assms(2,3) _ this, of False H] True f k
    show ?thesis using keeps_trans by (simp add: cbb_add_length_prefixed_def)
  qed (use f k in \<open>simp add: cbb_add_length_prefixed_def\<close>)
qed

lemma cbb_add_child_live:
  "length (cb_chain s) = d \<Longrightarrow> cbb_add_child H p a d s = (True, s') \<Longrightarrow> length (cb_chain s') = Suc d"
  by (auto simp: cbb_add_child_def Let_def split: prod.splits bool.splits)

text \<open>If it succeeds, the new child is in the chain.\<close>

lemma CBB_add_asn1_keeps_child:
  assumes "cbb_live d st"
  shows "keeps d st (snd (CBB_add_asn1 H E tag d st)) \<and>
    (fst (CBB_add_asn1 H E tag d st) \<longrightarrow> length (cb_chain (snd (CBB_add_asn1 H E tag d st))) = Suc d)"
proof -
  define c n where "c = (ucast (drop_bit (TAG_SHIFT E) tag) AND 0xe0 :: u8)" and "n = tag AND TAG_NUMBER_MASK E"
  obtain ok s where f: "CBB_flush H d st = (ok, s)" by fastforce
  have k: "keeps d st s" using CBB_flush_keeps [OF assms, of H] f by simp
  show ?thesis
  proof (cases ok)
    case False
    then show ?thesis using f k by (simp add: CBB_add_asn1_def)
  next
    case True
    define t where "t = (if 0x1f \<le> n then and_then (CBB_add_u8 H (c OR 0x1f) d s) (add_base128_integer H (ucast n) d)
      else CBB_add_u8 H (c OR ucast n) d s)"
    have kt: "keeps d st (snd t)"
      unfolding t_def using k by (auto intro!: keeps_and_then CBB_add_u8_keeps_trans add_base128_integer_keeps)
    have rd: "length (cb_chain s1) = d" if "t = (True, s1)" for s1
    proof (cases "0x1f \<le> n")
      case True
      with that obtain s2 where a: "CBB_add_u8 H (c OR 0x1f) d s = (True, s2)"
        and b: "add_base128_integer H (ucast n) d s2 = (True, s1)"
        unfolding t_def by (auto elim: and_then_TrueE)
      have "appends d [c OR 0x1f] s s2" using keeps_ok [OF k] a by (rule CBB_add_u8_appends)
      from add_base128_integer_appends [OF appends_ready [OF this] b] show ?thesis by (simp add: appends_def)
    next
      case False
      with that have "CBB_add_u8 H (c OR ucast n) d s = (True, s1)" by (simp add: t_def)
      from CBB_add_u8_appends [OF keeps_ok [OF k] this] show ?thesis by (simp add: appends_def)
    qed
    have e: "CBB_add_asn1 H E tag d st = and_then t (cbb_add_child H 1 True d)"
      using f True by (simp add: CBB_add_asn1_def Let_def t_def c_def n_def)
    obtain ok1 s1 where t: "t = (ok1, s1)" by fastforce
    show ?thesis
    proof (cases ok1)
      case ok1: True
      have "keeps d s1 (snd (cbb_add_child H 1 True d s1))"
        using kt t rd ok1 by (intro cbb_add_child_keeps) (auto dest: keeps_live)
      moreover have "length (cb_chain s2) = Suc d" if "cbb_add_child H 1 True d s1 = (True, s2)" for s2
        using rd [of s1] t ok1 that by (intro cbb_add_child_live) simp_all
      ultimately show ?thesis
        unfolding e using kt t ok1 keeps_trans by (cases "cbb_add_child H 1 True d s1") auto
    qed (use e kt t in simp)
  qed
qed

lemma CBB_add_asn1_keeps [keeping]: "cbb_live d st \<Longrightarrow> keeps d st (snd (CBB_add_asn1 H E tag d st))"
  using CBB_add_asn1_keeps_child by blast

lemma uint64_bytes_loop_keeps: "keeps d st s \<Longrightarrow> keeps d st (snd (uint64_bytes_loop H bs started d s))"
proof (induction bs arbitrary: started s)
  case (Cons b bs)
  then show ?case
    by (auto intro!: keeps_and_then CBB_add_u8_keeps_trans split: if_split)
qed (auto intro: CBB_add_u8_keeps_trans)

lemma add_down_loop_keeps: "keeps d st s \<Longrightarrow> keeps d st (snd (add_down_loop H bs n d s))"
proof (induction n arbitrary: s)
  case (Suc n)
  then show ?case by (auto intro!: keeps_and_then CBB_add_u8_keeps_trans)
qed simp

lemma flush_after_keeps:
  "keeps d st (snd r) \<Longrightarrow> keeps d st (snd (case r of (ok, s) \<Rightarrow> if ok then CBB_flush H d s else (False, s)))"
  by (cases r) (auto intro: keeps_trans CBB_flush_keeps keeps_live)

lemma CBB_flush_keeps_trans: "keeps d st s \<Longrightarrow> keeps d st (snd (CBB_flush H d s))"
  using CBB_flush_keeps keeps_live keeps_trans by blast

text \<open>Steps on the child that \<open>CBB_add_asn1\<close> has added.\<close>

lemma CBB_add_asn1_child:
  assumes "cbb_live d st" "CBB_add_asn1 H E tag d st = (True, s)"
  shows "keeps (Suc d) st s"
  using CBB_add_asn1_keeps_child [OF assms(1), of H E tag] assms(2) by (simp add: keeps_def cbb_live_def)

lemma asn1_contents_keeps:
  assumes "cbb_live d st" "\<And>s. keeps (Suc d) st s \<Longrightarrow> keeps d st (snd (g s))"
  shows "keeps d st (snd (or_error d (and_then (CBB_add_asn1 H E tag d st) g)))"
  by (intro keeps_or_error keeps_and_then_True CBB_add_asn1_keeps assms CBB_add_asn1_child)

lemma CBB_add_asn1_uint64_keeps [keeping]:
  "cbb_live d st \<Longrightarrow> keeps d st (snd (CBB_add_asn1_uint64_with_tag H E v tag d st))"
  unfolding CBB_add_asn1_uint64_with_tag_def
  by (intro flush_after_keeps asn1_contents_keeps keeps_parent [OF uint64_bytes_loop_keeps])

lemma CBB_add_asn1_int64_keeps [keeping]:
  "cbb_live d st \<Longrightarrow> keeps d st (snd (CBB_add_asn1_int64_with_tag H E v tag d st))"
  unfolding CBB_add_asn1_int64_with_tag_def Let_def
  by (auto intro!: flush_after_keeps asn1_contents_keeps keeps_parent [OF add_down_loop_keeps] CBB_add_asn1_uint64_keeps)

lemma CBB_add_asn1_octet_string_keeps [keeping]:
  assumes "cbb_live d st" "length data < SIZE_MOD"
  shows "keeps d st (snd (CBB_add_asn1_octet_string H E data d st))"
  unfolding CBB_add_asn1_octet_string_def
  by (intro asn1_contents_keeps keeps_and_then CBB_flush_keeps_trans assms(1)
      keeps_parent [OF keeps_trans [OF _ CBB_add_bytes_keeps [OF keeps_live assms(2)]]])

lemma CBB_add_asn1_bool_keeps [keeping]: "cbb_live d st \<Longrightarrow> keeps d st (snd (CBB_add_asn1_bool H E v d st))"
  unfolding CBB_add_asn1_bool_def
  by (intro asn1_contents_keeps keeps_and_then CBB_flush_keeps_trans keeps_parent [OF CBB_add_u8_keeps_trans])

end
