(* ===== verification/BS_SetOf.thy ===== *)
theory BS_SetOf
  imports BS_Cbb_Inv "HOL-Library.List_Lexorder"
begin

text \<open>
  \<open>CBB_flush_asn1_set_of\<close>: the elements of a SET OF are put into the ascending order of their
  encodings. The comparison function is the lexicographic order of byte strings.
\<close>

section \<open>The order of the elements\<close>

lemma compare_simps [simp]:
  "compare_set_of_element [] [] = 0"
  "compare_set_of_element [] (y # ys) = - 1"
  "compare_set_of_element (x # xs) [] = 1"
  "compare_set_of_element (x # xs) (y # ys) = (if x = y then compare_set_of_element xs ys else if x < y then - 1 else 1)"
  by (simp_all add: compare_set_of_element_def Let_def)

lemma compare_le: "compare_set_of_element a b \<le> 0 \<longleftrightarrow> a \<le> b"
proof (induction a arbitrary: b)
  case Nil
  then show ?case by (cases b) simp_all
next
  case (Cons x xs)
  then show ?case by (cases b) auto
qed

lemma qsort_compare: "qsort compare_set_of_element cs = sort cs"
proof -
  have ins: "qsort_insert compare_set_of_element c cs = insort c cs" for c cs
    by (induction cs) (simp_all add: compare_le)
  show ?thesis by (induction cs) (simp_all add: ins)
qed

section \<open>Splitting and joining\<close>

lemma any_element_split:
  "cbs_get_any_asn1_element E ber s = (Some el, s') \<Longrightarrow> s = el_out el @ s'"
  by (auto simp: cbs_get_any_asn1_element_def Let_def get_bind_def CBS_get_bytes_def cbs_get_def
      split: prod.splits option.splits if_splits)

lemma count_get_children:
  "count_children E s = Some n \<Longrightarrow> \<exists>cs. get_children E n s = Some cs \<and> concat cs = s \<and> length cs = n"
proof (induction E s arbitrary: n rule: count_children.induct)
  case (1 E s)
  show ?case
  proof (cases "length s = 0")
    case True
    then show ?thesis using 1(2) by (simp add: count_children.simps [of E "[]"])
  next
    case False
    then obtain el s1 m where e: "CBS_get_any_asn1_element E s = (Some el, s1)" and m: "count_children E s1 = Some m" "n = Suc m"
      using 1(2) by (auto simp: count_children.simps [of E s] split: prod.splits option.splits)
    from 1(1) [OF False e [symmetric] refl m(1)] obtain cs where
      cs: "get_children E m s1 = Some cs" "concat cs = s1" "length cs = m" by blast
    have "s = el_out el @ s1" using any_element_split e unfolding CBS_get_any_asn1_element_def by blast
    then show ?thesis using e cs m(2) by auto
  qed
qed

lemma write_children_eq:
  "off + length (concat cs) \<le> length buf \<Longrightarrow> write_children off cs buf = mem_put off (concat cs) buf"
proof (induction cs arbitrary: off buf)
  case Nil
  then show ?case by (simp add: mem_put_def)
next
  case (Cons c cs)
  have "write_children (off + length c) cs (mem_put off c buf) = mem_put (off + length c) (concat cs) (mem_put off c buf)"
    using Cons.prems by (intro Cons.IH) simp
  also have "\<dots> = mem_put off (c @ concat cs) buf"
  proof -
    have "min (length buf) off = off" using Cons.prems by simp
    then show ?thesis using Cons.prems by (simp add: mem_put_def ac_simps)
  qed
  finally show ?case by simp
qed

lemma length_concat_sort:
  fixes cs :: "'a::linorder list list"
  shows "length (concat (sort cs)) = length (concat cs)"
proof -
  have ins: "length (concat (insort c cs)) = length c + length (concat cs)" for c and cs :: "'a list list"
    by (induction cs) auto
  show ?thesis by (induction cs) (simp_all add: ins)
qed

text \<open>The bytes of the frame of a handle without pending child.\<close>

definition contents :: "nat \<Rightarrow> cbb \<Rightarrow> u8 list" where
  "contents d st = take (CBB_len d st) (drop (CBB_data d st) (bf_buf (cb_base st)))"

lemma CBB_data_len:
  assumes "cbb_ok st" "length (cb_chain st) = d"
  shows "CBB_data d st + CBB_len d st = bf_len (cb_base st)" "bf_len (cb_base st) \<le> length (bf_buf (cb_base st))"
proof -
  show "bf_len (cb_base st) \<le> length (bf_buf (cb_base st))" using assms(1) by (simp add: cbb_ok_def buf_ok_def)
  show "CBB_data d st + CBB_len d st = bf_len (cb_base st)"
  proof (cases d)
    case (Suc m)
    then have "cb_chain st = take m (cb_chain st) @ [cb_chain st ! m]"
      using assms(2) by (metis lessI take_Suc_conv_app_nth take_all order_refl)
    then have "chain_ok 0 (take m (cb_chain st) @ [cb_chain st ! m]) (bf_len (cb_base st))"
      using assms(1) by (simp add: cbb_ok_def)
    then have "ch_offset (cb_chain st ! m) + ch_pending_len_len (cb_chain st ! m) \<le> bf_len (cb_base st)"
      unfolding chain_ok_snoc by blast
    then show ?thesis using Suc by (simp add: CBB_data_def CBB_len_def Let_def)
  qed (simp add: CBB_data_def CBB_len_def)
qed

lemma set_of_True:
  assumes st: "cbb_ok st" and r: "CBB_flush_asn1_set_of H E d st = (True, st')"
  obtains st1 cs where "CBB_flush H d st = (True, st1)" "contents d st1 = concat cs"
    "get_children E (length cs) (contents d st1) = Some cs"
    "st' = st1\<lparr>cb_base := (cb_base st1)\<lparr>bf_buf := mem_put (CBB_data d st1) (concat (sort cs)) (bf_buf (cb_base st1))\<rparr>\<rparr>"
proof -
  obtain st1 where f: "CBB_flush H d st = (True, st1)"
    using r unfolding CBB_flush_asn1_set_of_def by (auto elim: and_then_TrueE)
  note fl = CBB_flush_True [OF st f]
  have ok1: "cbb_ok st1" using fl(1) by (simp add: flushed_def)
  note dl = CBB_data_len [OF ok1 fl(4)]
  obtain n where n: "count_children E (contents d st1) = Some n"
    using r f by (auto simp: CBB_flush_asn1_set_of_def contents_def Let_def split: option.splits)
  obtain cs where cs: "get_children E n (contents d st1) = Some cs" "concat cs = contents d st1" "length cs = n"
    using count_get_children [OF n] by blast
  have len: "length (contents d st1) = CBB_len d st1" using dl by (simp add: contents_def)
  have same: "mem_put (CBB_data d st1) (contents d st1) (bf_buf (cb_base st1)) = bf_buf (cb_base st1)"
    unfolding mem_put_def len by (simp add: contents_def) (metis append_take_drop_id drop_drop add.commute)
  show thesis
  proof (rule that [OF f cs(2) [symmetric]])
    show "get_children E (length cs) (contents d st1) = Some cs" using cs by simp
    show "st' = st1\<lparr>cb_base := (cb_base st1)\<lparr>bf_buf := mem_put (CBB_data d st1) (concat (sort cs)) (bf_buf (cb_base st1))\<rparr>\<rparr>"
    proof (cases "n < 2")
      case True
      then have "sort cs = cs" using cs(3) by (cases cs rule: remdups_adj.cases) auto
      moreover have "st' = st1" using True r f n by (simp add: CBB_flush_asn1_set_of_def contents_def)
      ultimately show ?thesis using same cs(2) by simp
    next
      case False
      then have "st' = st1\<lparr>cb_base := (cb_base st1)\<lparr>bf_buf := write_children (CBB_data d st1) (sort cs) (bf_buf (cb_base st1))\<rparr>\<rparr>"
        using r f n cs(1) by (auto simp: CBB_flush_asn1_set_of_def contents_def qsort_compare split: if_splits)
      moreover have "CBB_data d st1 + length (concat (sort cs)) \<le> length (bf_buf (cb_base st1))"
        using dl len cs(2) by (simp add: length_concat_sort)
      ultimately show ?thesis by (simp add: write_children_eq)
    qed
  qed
qed

lemma set_of_keeps [keeping]:
  assumes "cbb_live d st"
  shows "keeps d st (snd (CBB_flush_asn1_set_of H E d st))"
proof -
  obtain ok st' where r: "CBB_flush_asn1_set_of H E d st = (ok, st')" by fastforce
  obtain ok1 st1 where f: "CBB_flush H d st = (ok1, st1)" by fastforce
  have k: "keeps d st st1" using CBB_flush_keeps [OF assms, of H] f by simp
  show ?thesis
  proof (cases ok)
    case False
    then have "st' = st1"
      using r f by (cases ok1) (auto simp: CBB_flush_asn1_set_of_def Let_def split: option.splits if_splits)
    with r k show ?thesis by simp
  next
    case True
    with r have rt: "CBB_flush_asn1_set_of H E d st = (True, st')" by simp
    obtain st2 cs where f2: "CBB_flush H d st = (True, st2)" and c: "contents d st2 = concat cs"
      and st': "st' = st2\<lparr>cb_base := (cb_base st2)\<lparr>bf_buf := mem_put (CBB_data d st2) (concat (sort cs)) (bf_buf (cb_base st2))\<rparr>\<rparr>"
      by (rule set_of_True [OF live_ok [OF assms] rt])
    have k2: "keeps d st st2" using k f f2 by simp
    then have ok2: "cbb_ok st2" by (rule keeps_ok)
    note dl = CBB_data_len [OF ok2 CBB_flush_True(4) [OF live_ok [OF assms] f2]]
    have "length (concat (sort cs)) = CBB_len d st2" using c dl by (simp add: length_concat_sort flip: c) (simp add: contents_def)
    then have "CBB_data d st2 + length (concat (sort cs)) \<le> length (bf_buf (cb_base st2))" using dl by simp
    then have "keeps d st2 st'" unfolding st' using keeps_live [OF k2] ok2 by (intro keeps_base) (auto simp: cbb_ok_def buf_ok_def)
    with k2 r show ?thesis using keeps_trans by simp
  qed
qed

lemma get_children_elements:
  assumes E: "asn1_env_ok E"
  shows "get_children E n s = Some cs \<Longrightarrow> c \<in> set cs \<Longrightarrow> \<exists>t b. valid_tag t \<and> c = der_element t b"
proof (induction n arbitrary: s cs)
  case (Suc n)
  then obtain el s1 cs1 where e: "CBS_get_any_asn1_element E s = (Some el, s1)" and g: "get_children E n s1 = Some cs1"
    and cs: "cs = el_out el # cs1" by (auto split: prod.splits option.splits)
  obtain t b where "valid_tag t" "el = der_elem t b"
    using any_der_element_sound [OF E e [unfolded CBS_get_any_asn1_element_def]] .
  then show ?case using Suc.IH [OF g] Suc.prems(2) cs by auto
qed simp

lemma contents_write:
  assumes ok: "cbb_ok st" "length (cb_chain st) = d" and bs: "length bs = CBB_len d st"
  shows "contents d (st\<lparr>cb_base := (cb_base st)\<lparr>bf_buf := mem_put (CBB_data d st) bs (bf_buf (cb_base st))\<rparr>\<rparr>) = bs"
proof -
  note dl = CBB_data_len [OF ok]
  have "CBB_data d st \<le> length (bf_buf (cb_base st))" using dl by simp
  then have o: "min (length (bf_buf (cb_base st))) (CBB_data d st) = CBB_data d st" by simp
  have e: "CBB_data d (st\<lparr>cb_base := b\<rparr>) = CBB_data d st" for b by (simp add: CBB_data_def)
  have e2: "CBB_len d (st\<lparr>cb_base := (cb_base st)\<lparr>bf_buf := x\<rparr>\<rparr>) = CBB_len d st" for x by (simp add: CBB_len_def)
  show ?thesis unfolding contents_def e e2 using bs by (simp add: mem_put_def o)
qed

end
