(* ===== verification/BS_Cbb_Thms.thy ===== *)
theory BS_Cbb_Thms
  imports BS_SetOf
begin

text \<open>
  The properties of the byte-string reader and builder: a program that makes any sequence of calls
  keeps the buffer intact, flushing refines the stack of frames, the parser accepts exactly the DER
  encoding, and what the builder writes is what the parser reads.
\<close>

section \<open>Programs that use a builder\<close>

text \<open>
  One call on the handle \<open>d\<close>, which has to be in the chain, or a write by the caller to the memory that \<open>CBB_add_space\<close> or
  \<open>CBB_reserve\<close> gave it. The state is the one after the call, whether it succeeds or not.
\<close>

inductive cbb_step :: "allocator \<Rightarrow> asn1_env \<Rightarrow> nat \<Rightarrow> cbb \<Rightarrow> cbb \<Rightarrow> bool" for H E d st where
  flush: "cbb_step H E d st (snd (CBB_flush H d st))"
| u8_prefixed: "cbb_step H E d st (snd (CBB_add_u8_length_prefixed H d st))"
| u16_prefixed: "cbb_step H E d st (snd (CBB_add_u16_length_prefixed H d st))"
| u24_prefixed: "cbb_step H E d st (snd (CBB_add_u24_length_prefixed H d st))"
| asn1: "cbb_step H E d st (snd (CBB_add_asn1 H E tag d st))"
| bytes: "length data < SIZE_MOD \<Longrightarrow> cbb_step H E d st (snd (CBB_add_bytes H data d st))"
| zeros: "n < SIZE_MOD \<Longrightarrow> cbb_step H E d st (snd (CBB_add_zeros H n d st))"
| space: "n < SIZE_MOD \<Longrightarrow> cbb_step H E d st (snd (CBB_add_space H n d st))"
| reserve: "n < SIZE_MOD \<Longrightarrow> cbb_step H E d st (snd (CBB_reserve H n d st))"
| did_write: "cbb_step H E d st (snd (CBB_did_write n d st))"
| caller_writes: "pos + length bs \<le> bf_cap (cb_base st) \<Longrightarrow>
    cbb_step H E d st (st\<lparr>cb_base := (cb_base st)\<lparr>bf_buf := mem_put pos bs (bf_buf (cb_base st))\<rparr>\<rparr>)"
| u8: "cbb_step H E d st (snd (CBB_add_u8 H v8 d st))"
| u16: "cbb_step H E d st (snd (CBB_add_u16 H v16 d st))"
| u16le: "cbb_step H E d st (snd (CBB_add_u16le H v16 d st))"
| u24: "cbb_step H E d st (snd (CBB_add_u24 H v32 d st))"
| u32: "cbb_step H E d st (snd (CBB_add_u32 H v32 d st))"
| u32le: "cbb_step H E d st (snd (CBB_add_u32le H v32 d st))"
| u64: "cbb_step H E d st (snd (CBB_add_u64 H v64 d st))"
| u64le: "cbb_step H E d st (snd (CBB_add_u64le H v64 d st))"
| discard: "cbb_step H E d st (CBB_discard_child d st)"
| asn1_uint64: "cbb_step H E d st (snd (CBB_add_asn1_uint64_with_tag H E v64 tag d st))"
| asn1_int64: "cbb_step H E d st (snd (CBB_add_asn1_int64_with_tag H E v64 tag d st))"
| asn1_octets: "length data < SIZE_MOD \<Longrightarrow> cbb_step H E d st (snd (CBB_add_asn1_octet_string H E data d st))"
| asn1_bool: "cbb_step H E d st (snd (CBB_add_asn1_bool H E b d st))"
| set_of: "cbb_step H E d st (snd (CBB_flush_asn1_set_of H E d st))"

inductive cbb_run :: "allocator \<Rightarrow> asn1_env \<Rightarrow> cbb \<Rightarrow> cbb \<Rightarrow> bool" for H E where
  start: "cbb_run H E st st"
| step: "cbb_run H E st st1 \<Longrightarrow> d \<le> length (cb_chain st1) \<Longrightarrow> cbb_step H E d st1 st2 \<Longrightarrow> cbb_run H E st st2"

lemma cbb_step_keeps: "cbb_step H E d st st' \<Longrightarrow> cbb_live d st \<Longrightarrow> keeps d st st'"
proof (induction rule: cbb_step.induct)
  case (caller_writes pos bs)
  then show ?case by (intro keeps_base) (auto simp: cbb_live_def cbb_ok_def buf_ok_def)
qed (simp_all add: keeping CBB_add_u8_length_prefixed_def CBB_add_u16_length_prefixed_def
  CBB_add_u24_length_prefixed_def CBB_add_u16_def CBB_add_u16le_def CBB_add_u24_def CBB_add_u32_def
  CBB_add_u32le_def CBB_add_u64_def CBB_add_u64le_def)

lemma cbb_run_keeps: "cbb_run H E st st' \<Longrightarrow> cbb_ok st \<Longrightarrow> keeps 0 st st'"
proof (induction rule: cbb_run.induct)
  case (step st st1 d st2)
  then have k: "keeps 0 st st1" by simp
  with step have "keeps d st1 st2" by (intro cbb_step_keeps) (auto simp: cbb_live_def dest: keeps_ok)
  with k have "keeps d st st2" by (rule keeps_trans)
  then show ?case by (simp add: keeps_def cbb_live_def)
qed (simp add: keeps_refl cbb_live_def)

text \<open>
  Handles that are not in the chain. \<open>CBB_flush\<close>, and every call that starts with it, returns zero for a child that has been
  flushed; \<open>CBB_did_write\<close> and the calls that end in \<open>cbb_on_error\<close> dereference its null pointer.\<close>

lemma flushed_child:
  assumes "length (cb_chain st) < d" "\<not> cb_orphans st"
  shows "CBB_flush H d st = (False, st)" "CBB_add_bytes H data d st = (False, st)"
    and "bf_fault (cb_base (snd (CBB_did_write n d st)))" "bf_fault (cb_base (snd (CBB_add_asn1_bool H E b d st)))"
    "bf_fault (cb_base (snd (CBB_add_asn1_octet_string H E data d st)))"
proof -
  show f: "CBB_flush H d st = (False, st)" using assms by (simp add: CBB_flush.simps)
  show "CBB_add_bytes H data d st = (False, st)" by (simp add: CBB_add_bytes_def CBB_add_space_def f)
  show "bf_fault (cb_base (snd (CBB_did_write n d st)))" using assms(1) by (simp add: CBB_did_write_def Let_def cbb_fault_def)
  show "bf_fault (cb_base (snd (CBB_add_asn1_bool H E b d st)))" "bf_fault (cb_base (snd (CBB_add_asn1_octet_string H E data d st)))"
    using assms(1) by (simp_all add: CBB_add_asn1_bool_def CBB_add_asn1_octet_string_def CBB_add_asn1_def f or_error_def
        cbb_on_error_def cbb_fault_def)
qed

section \<open>Properties\<close>

text \<open>
  C14: Memory safety of the builder. From a well-formed state, after any sequence of calls on
  handles that are in the chain at the time of the call (not flushed, not discarded), successful or failed, and of writes of the caller inside the
  allocation, the state is well-formed: no null pointer has been dereferenced and no length or integer has been written outside the
  buffer (\<open>bf_fault\<close>), the used length is at most the capacity, the memory is exactly the allocation of that
  capacity, and the pending children lie in order inside the used part. A buffer of fixed size keeps
  its capacity, and an error is never cleared.\<close>
theorem cbb_memory_safe:
  assumes "cbb_ok st" "cbb_run H E st st'"
  shows "cbb_ok st' \<and> \<not> bf_fault (cb_base st') \<and> bf_len (cb_base st') \<le> bf_cap (cb_base st') \<and>
    length (bf_buf (cb_base st')) = bf_cap (cb_base st') \<and> chain_ok 0 (cb_chain st') (bf_len (cb_base st')) \<and>
    (\<not> bf_can_resize (cb_base st) \<longrightarrow> bf_cap (cb_base st') = bf_cap (cb_base st)) \<and>
    (bf_error (cb_base st) \<longrightarrow> bf_error (cb_base st'))"
  using cbb_run_keeps [OF assms(2,1)] by (simp add: keeps_def cbb_live_def cbb_ok_def buf_ok_def)

definition heap_std :: allocator where
  "heap_std = \<lparr>alloc_ok = (\<lambda>n. n \<le> 64), junk = (\<lambda>i. 0xaa)\<rparr>"

theorem cbb_memory_safe_witness:
  "bf_cap (cb_base (snd (CBB_add_u32 heap_std 7 0 (snd (CBB_init_fixed [1, 2, 3]))))) = 3"
proof -
  let ?st = "snd (CBB_init_fixed [1, 2, 3])"
  have "cbb_ok ?st" by (simp add: CBB_init_fixed_def cbb_init_def cbb_ok_def buf_ok_def)
  moreover have "cbb_run heap_std asn1_env_std ?st (snd (CBB_add_u32 heap_std 7 0 ?st))"
    by (rule cbb_run.step [OF cbb_run.start _ cbb_step.u32]) simp
  ultimately show ?thesis
    using cbb_memory_safe [of ?st heap_std asn1_env_std] by (simp add: CBB_init_fixed_def cbb_init_def)
qed

text \<open>
  C15: \<open>CBB_flush\<close> refines the closing of frames. On a well-formed builder without error, a call
  that returns one has closed exactly the children of its handle, each becoming its contents behind
  their length (the DER length for an ASN.1 child, which may have moved the contents), and the state
  is well-formed again; a call that returns zero has set the error flag. With an allocator that does
  not fail, a growing buffer and sizes below the address space it succeeds exactly if every length
  fits its prefix.\<close>
theorem cbb_flush_refines:
  assumes "cbb_ok st" "\<not> bf_error (cb_base st)" "d \<le> length (cb_chain st)" "CBB_flush H d st = (ok, st')"
  shows "(if ok then cbb_ok st' \<and> cb_chain st' = take d (cb_chain st) \<and> spec_flush d (cbb_abs st) = Some (cbb_abs st')
      else bf_error (cb_base st')) \<and>
    (roomy H (4 * (length (cb_chain st) - d)) (cb_base st) \<longrightarrow> (ok \<longleftrightarrow> spec_flush d (cbb_abs st) \<noteq> None))"
proof -
  have "if ok then flushed d st st' else bf_error (cb_base st')" using assms by (rule CBB_flush_refines)
  moreover have "roomy H (4 * (length (cb_chain st) - d)) (cb_base st) \<longrightarrow> (ok \<longleftrightarrow> spec_flush d (cbb_abs st) \<noteq> None)"
    using CBB_flush_total [OF assms(1,2,3), of H] assms(4) by simp
  ultimately show ?thesis by (auto simp: flushed_def split: if_splits)
qed

text \<open>A SEQUENCE that contains a two-byte string with an 8-bit length, not yet flushed.\<close>

definition cbb_pending :: cbb where
  "cbb_pending = \<lparr>cb_base = \<lparr>bf_buf = [0x30, 0, 0, 7, 8, 0xaa], bf_len = 5, bf_cap = 6, bf_can_resize = True, bf_error = False, bf_fault = False\<rparr>,
     cb_chain = [\<lparr>ch_offset = 1, ch_pending_len_len = 1, ch_pending_is_asn1 = True\<rparr>,
                 \<lparr>ch_offset = 2, ch_pending_len_len = 1, ch_pending_is_asn1 = False\<rparr>], cb_orphans = False\<rparr>"

lemma list_update_numeral: "(x # xs)[numeral n := y] = x # xs[pred_numeral n := y]"
  by (simp add: numeral_eq_Suc)

lemma numeral_steps:
  "put_be_loop (numeral n) pos v buf =
     (if pos + pred_numeral n < length buf
      then put_be_loop (pred_numeral n) pos (v div 256) (buf[pos + pred_numeral n := word_of_nat v]) else None)"
  "nat_to_le (numeral n) v = word_of_nat v # nat_to_le (pred_numeral n) (v div 256)"
  "[Suc 0..<2] = [Suc 0]"
  by (simp_all only: numeral_eq_Suc [of n] put_be_loop.simps nat_to_le.simps) (simp add: upt_rec)

theorem cbb_flush_refines_witness:
  "spec_flush 0 (cbb_abs cbb_pending) = Some (cbb_abs (snd (CBB_flush heap_std 0 cbb_pending))) \<and>
   used (cb_base (snd (CBB_flush heap_std 0 cbb_pending))) = [0x30, 3, 2, 7, 8]"
proof -
  have ok: "cbb_ok cbb_pending" by (simp add: cbb_pending_def cbb_ok_def buf_ok_def)
  have e: "\<not> bf_error (cb_base cbb_pending)" "0 \<le> length (cb_chain cbb_pending)" by (simp_all add: cbb_pending_def)
  have r: "CBB_flush heap_std 0 cbb_pending = (True, snd (CBB_flush heap_std 0 cbb_pending))"
    "used (cb_base (snd (CBB_flush heap_std 0 cbb_pending))) = [0x30, 3, 2, 7, 8]"
    by (simp_all add: cbb_pending_def CBB_flush.simps flush_write_def asn1_len_bytes_def used_def list_update_numeral)
  from cbb_flush_refines [OF ok e r(1)] r(2) show ?thesis by simp
qed

text \<open>
  C13: The parser accepts exactly DER. \<open>CBS_get_any_asn1\<close> returns contents and tag of an element,
  and \<open>CBS_get_asn1\<close> the contents of an element with the wanted tag, if and only if the input starts
  with the one DER encoding of that element (shortest tag and length form, number of at most 29 bits,
  length below \<open>2 ^ 32\<close>, not the reserved tag), and advance past it; an input without an element is
  left as it was.\<close>
theorem cbs_der_exact:
  assumes "asn1_env_ok E"
  shows "(CBS_get_any_asn1 E s = (Some (c, t), s') \<longleftrightarrow> valid_tag t \<and> length c < 2 ^ 32 \<and> s = der_element t c @ s') \<and>
    (CBS_get_asn1 E t s = (Some c, s') \<longleftrightarrow> valid_tag t \<and> length c < 2 ^ 32 \<and> s = der_element t c @ s') \<and>
    (fst (CBS_get_any_asn1 E s) = None \<longrightarrow> snd (CBS_get_any_asn1 E s) = s)"
proof -
  have skip: "CBS_get_any_asn1 E x = (Some (b, u), y) \<longleftrightarrow> valid_tag u \<and> length b < 2 ^ 32 \<and> x = der_element u b @ y" for x b u y
  proof
    assume r: "CBS_get_any_asn1 E x = (Some (b, u), y)"
    then obtain el where e: "cbs_get_any_asn1_element E False x = (Some el, y)"
      by (auto simp: CBS_get_any_asn1_def CBS_get_any_asn1_element_def get_bind_def split: prod.splits option.splits)
    obtain v d where v: "valid_tag v" "length d < 2 ^ 32" "x = der_element v d @ y"
      using any_der_element_sound [OF assms e] by metis
    then have "CBS_get_any_asn1 E x = (Some (d, v), y)" using CBS_get_any_asn1_complete [OF assms v(1,2)] by (simp only:)
    with r have "d = b" "v = u" by simp_all
    with v show "valid_tag u \<and> length b < 2 ^ 32 \<and> x = der_element u b @ y" by blast
  qed (use CBS_get_any_asn1_complete [OF assms] in blast)
  have "snd (CBS_get_any_asn1 E s) = s" if "fst (CBS_get_any_asn1 E s) = None"
  proof (cases "\<exists>t c r. valid_tag t \<and> length c < 2 ^ 32 \<and> s = der_element t c @ r")
    case True
    then obtain u b r where "CBS_get_any_asn1 E s = (Some (b, u), r)" using skip by blast
    with that show ?thesis by simp
  next
    case False
    then show ?thesis
      using any_element_reject [OF assms False] by (simp add: CBS_get_any_asn1_def CBS_get_any_asn1_element_def get_bind_def)
  qed
  then show ?thesis using skip CBS_get_asn1_iff [OF assms] by blast
qed

theorem cbs_der_exact_witness:
  "CBS_get_any_asn1 asn1_env_std [0x30, 3, 2, 1, 5, 9] = (Some ([2, 1, 5], 0x20000010), [9])"
proof -
  have d: "der_element 0x20000010 [2, 1, 5] = [0x30, 3, 2, 1, 5]"
    by (simp add: der_element_def der_tag_def der_len_def Let_def byte_of_def)
  have v: "valid_tag 0x20000010" by (simp add: valid_tag_iff)
  have "CBS_get_any_asn1 asn1_env_std (der_element 0x20000010 [2, 1, 5] @ [9]) = (Some ([2, 1, 5], 0x20000010), [9])"
    using cbs_der_exact [OF asn1_env_std_ok, where s = "der_element 0x20000010 [2, 1, 5] @ [9]" and c = "[2, 1, 5]" and t = "0x20000010" and s' = "[9]"] v by simp
  then show ?thesis by (simp add: d)
qed

text \<open>
  Integers of every width survive the way through a builder and a reader: a program that starts
  a buffer, adds a sequence of values, finishes it and reads as many values of the same width gets the
  sequence back and has consumed everything, in big-endian and little-endian order; a 24-bit value has
  to be below \<open>2 ^ 24\<close>.\<close>
lemma cbb_ints_roundtrip:
  assumes "cap < SIZE_MOD"
  shows "(builds H cap CBB_add_u8 v8 out \<longrightarrow> get_all CBS_get_u8 (length v8) out = (Some v8, [])) \<and>
    (builds H cap CBB_add_u16 v16 out \<longrightarrow> get_all CBS_get_u16 (length v16) out = (Some v16, [])) \<and>
    (builds H cap CBB_add_u24 v32 out \<and> list_all (\<lambda>v. unat v < 2 ^ 24) v32 \<longrightarrow>
      get_all CBS_get_u24 (length v32) out = (Some v32, [])) \<and>
    (builds H cap CBB_add_u32 v32 out \<longrightarrow> get_all CBS_get_u32 (length v32) out = (Some v32, [])) \<and>
    (builds H cap CBB_add_u64 v64 out \<longrightarrow> get_all CBS_get_u64 (length v64) out = (Some v64, [])) \<and>
    (builds H cap CBB_add_u16le v16 out \<longrightarrow> get_all CBS_get_u16le (length v16) out = (Some v16, [])) \<and>
    (builds H cap CBB_add_u32le v32 out \<longrightarrow> get_all CBS_get_u32le (length v32) out = (Some v32, [])) \<and>
    (builds H cap CBB_add_u64le v64 out \<longrightarrow> get_all CBS_get_u64le (length v64) out = (Some v64, []))"
  using u8.build_and_read [OF assms] u16.build_and_read [OF assms] u24.build_and_read [OF assms]
    u32.build_and_read [OF assms] u64.build_and_read [OF assms] u16le.build_and_read [OF assms]
    u32le.build_and_read [OF assms] u64le.build_and_read [OF assms]
  by (intro conjI impI; (elim conjE)?; simp add: list_all_iff)

text \<open>
  C16: ASN.1 values survive the way through a builder and a reader: unsigned and signed 64-bit
  integers (given by their bit pattern), booleans and octet strings that a program adds to a buffer
  are read back in order, with nothing left over.\<close>
theorem cbb_asn1_roundtrip:
  assumes "asn1_env_ok E" "cap < SIZE_MOD"
  shows "(builds H cap (\<lambda>H. CBB_add_asn1_uint64 H E) vs out \<longrightarrow>
      get_all (CBS_get_asn1_uint64 E) (length vs) out = (Some vs, [])) \<and>
    (builds H cap (\<lambda>H. CBB_add_asn1_int64 H E) vs out \<longrightarrow>
      get_all (CBS_get_asn1_int64 E) (length vs) out = (Some vs, [])) \<and>
    (builds H cap (\<lambda>H. CBB_add_asn1_bool H E) bs out \<longrightarrow>
      get_all (CBS_get_asn1_bool E) (length bs) out = (Some bs, [])) \<and>
    (builds H cap (\<lambda>H. CBB_add_asn1_octet_string H E) os out \<and> list_all (\<lambda>c. length c < 2 ^ 32) os \<longrightarrow>
      get_all (CBS_get_asn1 E (TAG_OCTETSTRING E)) (length os) out = (Some os, []))"
proof -
  have c: "asn1_constants E" using assms(1) by unfold_locales
  note rt = asn1_constants.value_roundtrips [OF c assms(2)]
  show ?thesis by (intro conjI impI; (elim conjE)?; rule rt) (simp_all add: list_all_iff)
qed

text \<open>A buffer of three bytes that can grow, in the states of the next example.\<close>

abbreviation (input) buf3 :: "u8 list \<Rightarrow> nat \<Rightarrow> cbb_child list \<Rightarrow> cbb" where
  "buf3 bs n cs \<equiv> \<lparr>cb_base = \<lparr>bf_buf = bs, bf_len = n, bf_cap = 3, bf_can_resize = True, bf_error = False, bf_fault = False\<rparr>, cb_chain = cs, cb_orphans = False\<rparr>"

lemma buf3_add_u8:
  "length cs = d \<Longrightarrow> CBB_add_u8 heap_std b d (buf3 [x, y, z] 0 cs) = (True, buf3 [b, y, z] 1 cs)"
  "length cs = d \<Longrightarrow> CBB_add_u8 heap_std b d (buf3 [x, y, z] 2 cs) = (True, buf3 [x, y, b] 3 cs)"
  by (simp_all add: CBB_add_u8_def cbb_add_u_def CBB_add_space_def CBB_flush.simps cbb_buffer_add_def
      cbb_buffer_reserve_def list_update_numeral Let_def)

theorem cbb_asn1_roundtrip_witness:
  "builds heap_std 3 (\<lambda>H. CBB_add_asn1_bool H asn1_env_std) [True] [1, 1, 0xff] \<and>
   get_all (CBS_get_asn1_bool asn1_env_std) 1 [1, 1, 0xff] = (Some [True], [])"
proof -
  let ?c = "\<lparr>ch_offset = Suc 0, ch_pending_len_len = Suc 0, ch_pending_is_asn1 = True\<rparr>"
  have i: "CBB_init heap_std 3 = (True, buf3 [0xaa, 0xaa, 0xaa] 0 [])"
    by (simp add: CBB_init_def cbb_init_def heap_std_def upt_rec)
  have a: "CBB_add_asn1 heap_std asn1_env_std 1 0 (buf3 [0xaa, 0xaa, 0xaa] 0 []) = (True, buf3 [1, 0, 0xaa] 2 [?c])"
    by (simp add: CBB_add_asn1_def asn1_env_std_def CBB_flush.simps buf3_add_u8 cbb_add_child_def cbb_buffer_add_def
        cbb_buffer_reserve_def mem_put_def word_le_nat_alt Let_def)
  have f: "CBB_flush heap_std 0 (buf3 [1, 0, 0xff] 3 [?c]) = (True, buf3 [1, 1, 0xff] 3 [])"
    by (simp add: CBB_flush.simps flush_write_def asn1_len_bytes_def)
  have g: "CBB_flush heap_std 0 (buf3 [1, 1, 0xff] 3 []) = (True, buf3 [1, 1, 0xff] 3 [])" by (simp add: CBB_flush.simps)
  have t: "TAG_BOOLEAN asn1_env_std = 1" by (simp add: asn1_env_std_def)
  have "builds heap_std 3 (\<lambda>H. CBB_add_asn1_bool H asn1_env_std) [True] [1, 1, 0xff]"
    by (simp add: builds_def i CBB_add_asn1_bool_def t a buf3_add_u8 f g or_error_def CBB_finish_def)
  moreover from this have "get_all (CBS_get_asn1_bool asn1_env_std) 1 [1, 1, 0xff] = (Some [True], [])"
    using cbb_asn1_roundtrip [of asn1_env_std 3 heap_std "[]" "[1, 1, 0xff]" "[True]" "[]"] by simp
  ultimately show ?thesis ..
qed

text \<open>
  Integers are read from their canonical encoding only: \<open>CBS_get_asn1_uint64\<close> and
  \<open>CBS_get_asn1_int64\<close> return a value if and only if the input starts with the INTEGER element of
  the shortest contents for it, unsigned or in two's complement; negative numbers are refused by the
  first, and numbers that do not fit in 64 bits by both.\<close>
lemma asn1_integer_exact:
  assumes "asn1_env_ok E"
  shows "(CBS_get_asn1_uint64 E s = (Some v, s') \<longleftrightarrow> s = der_element 2 (der_uint (unat v)) @ s') \<and>
    (CBS_get_asn1_int64 E s = (Some v, s') \<longleftrightarrow> s = der_element 2 (der_int v) @ s')"
  using CBS_get_asn1_uint64_iff [OF assms] CBS_get_asn1_int64_iff [OF assms] by blast

text \<open>
  A length-prefixed string: adding a prefix of one, two or three bytes, the contents to the
  child, and flushing the parent appends the big-endian length and the contents to the parent, and the
  matching reader returns the contents and what follows. The length always fits, or the flush fails.\<close>
lemma length_prefixed_roundtrip:
  assumes "cbb_ok st" "p \<in> {1, 2, 3}" "length c < SIZE_MOD"
    and "cbb_add_length_prefixed H p d st = (True, st1)" "CBB_add_bytes H c (Suc d) st1 = (True, st2)"
    and "CBB_flush H d st2 = (True, st3)"
  shows "appends d (nat_to_be p (length c) @ c) st st3 \<and> length c < 256 ^ p \<and>
    cbs_get_length_prefixed p (nat_to_be p (length c) @ c @ s) = (Some c, s)"
proof -
  have p: "1 \<le> p" "p \<le> 8" using assms(2) by auto
  have o: "opens d [] p False st st1" using cbb_add_length_prefixed_opens [OF assms(1) p assms(4)] .
  then have ok: "cbb_ok st1" by (simp add: opens_def ready_def)
  have ap: "appends (Suc d) c st1 st2" using ok assms(3,5) by (rule CBB_add_bytes_appends)
  obtain e where e: "prefixed p False c = Some e" "appends d ([] @ e) st st3"
    using opens_close [OF o ap assms(6)] .
  then have c: "length c < 256 ^ p" "e = nat_to_be p (length c) @ c" by (auto simp: prefixed_def split: if_splits)
  have "(256 :: nat) ^ p \<le> 256 ^ 3" using assms(2) by (intro power_increasing) auto
  then have lt: "length c < 2 ^ 24" using c(1) by simp
  then have "unat (word_of_nat (length c) :: u64) = length c" by (simp add: unsigned_of_nat take_bit_nat_eq_self)
  then have "cbs_get_length_prefixed p (nat_to_be p (length c) @ c @ s) = (Some c, s)"
    using cbs_get_u_be [OF p(2) c(1)] by (simp add: cbs_get_length_prefixed_def get_bind_def CBS_get_bytes_def cbs_get_def)
  with c e show ?thesis by simp
qed

text \<open>
  C17: \<open>CBB_flush_asn1_set_of\<close> sorts. If it returns one, the contents of the handle after flushing
  were a sequence of DER elements, and now they are the same elements in ascending lexicographic order
  of their encodings; the length, the pending parents and the bytes before the contents are as the
  flush left them.\<close>
theorem set_of_sorted:
  assumes "asn1_env_ok E" "cbb_ok st" "CBB_flush_asn1_set_of H E d st = (True, st')"
  shows "\<exists>st1 cs. CBB_flush H d st = (True, st1) \<and> contents d st1 = concat cs \<and>
    (\<forall>c \<in> set cs. \<exists>t b. valid_tag t \<and> c = der_element t b) \<and>
    contents d st' = concat (sort cs) \<and> sorted (sort cs) \<and> cb_chain st' = cb_chain st1 \<and>
    CBB_len d st' = CBB_len d st1 \<and>
    take (CBB_data d st1) (bf_buf (cb_base st')) = take (CBB_data d st1) (bf_buf (cb_base st1))"
proof -
  obtain st1 cs where f: "CBB_flush H d st = (True, st1)" and c: "contents d st1 = concat cs"
    and g: "get_children E (length cs) (contents d st1) = Some cs"
    and st': "st' = st1\<lparr>cb_base := (cb_base st1)\<lparr>bf_buf := mem_put (CBB_data d st1) (concat (sort cs)) (bf_buf (cb_base st1))\<rparr>\<rparr>"
    by (rule set_of_True [OF assms(2,3)])
  note fl = CBB_flush_True [OF assms(2) f]
  have ok1: "cbb_ok st1" using fl(1) by (simp add: flushed_def)
  note dl = CBB_data_len [OF ok1 fl(4)]
  have "length (concat cs) = CBB_len d st1" using dl by (simp flip: c) (simp add: contents_def)
  then have len: "length (concat (sort cs)) = CBB_len d st1" by (simp only: length_concat_sort)
  have "contents d st' = concat (sort cs)" unfolding st' using ok1 fl(4) len by (rule contents_write)
  moreover have "\<forall>c \<in> set cs. \<exists>t b. valid_tag t \<and> c = der_element t b"
    using get_children_elements [OF assms(1) g] by blast
  moreover have "CBB_len d st' = CBB_len d st1" "cb_chain st' = cb_chain st1" by (simp_all add: st' CBB_len_def)
  moreover have "take (CBB_data d st1) (bf_buf (cb_base st')) = take (CBB_data d st1) (bf_buf (cb_base st1))"
    using dl by (simp add: st' mem_put_def)
  ultimately show ?thesis using f c by (intro exI [of _ st1] exI [of _ cs]) simp
qed

definition cbb_two :: cbb where
  "cbb_two = \<lparr>cb_base = \<lparr>bf_buf = [2, 1, 9, 2, 1, 5], bf_len = 6, bf_cap = 6, bf_can_resize = False, bf_error = False, bf_fault = False\<rparr>,
     cb_chain = [], cb_orphans = False\<rparr>"

theorem set_of_sorted_witness:
  "(\<exists>cs. contents 0 (snd (CBB_flush_asn1_set_of heap_std asn1_env_std 0 cbb_two)) = concat (sort cs)) \<and>
   contents 0 (snd (CBB_flush_asn1_set_of heap_std asn1_env_std 0 cbb_two)) = [2, 1, 5, 2, 1, 9]"
proof -
  have ok: "cbb_ok cbb_two" by (simp add: cbb_two_def cbb_ok_def buf_ok_def)
  have t: "fst (CBB_flush_asn1_set_of heap_std asn1_env_std 0 cbb_two)"
    and c: "contents 0 (snd (CBB_flush_asn1_set_of heap_std asn1_env_std 0 cbb_two)) = [2, 1, 5, 2, 1, 9]"
    by code_simp+
  have "CBB_flush_asn1_set_of heap_std asn1_env_std 0 cbb_two =
      (True, snd (CBB_flush_asn1_set_of heap_std asn1_env_std 0 cbb_two))" using t by (simp add: prod_eq_iff)
  from set_of_sorted [OF asn1_env_std_ok ok this] c show ?thesis by blast
qed

text \<open>
  No DER element is a proper prefix of another one, so the comparison of a SET OF never gets
  past its \<open>memcmp\<close>: if two strings are elements in full and agree on the length of the shorter one,
  they are equal.\<close>
lemma der_elements_differ_early:
  assumes "asn1_env_ok E" "CBS_get_any_asn1_element E a = (Some ea, [])" "CBS_get_any_asn1_element E b = (Some eb, [])"
    and "OPENSSL_memcmp (take (min (length a) (length b)) a) (take (min (length a) (length b)) b) = 0"
  shows "a = b"
proof -
  have eq: "OPENSSL_memcmp x y = 0 \<Longrightarrow> length x = length y \<Longrightarrow> x = y" for x y
    by (induction x y rule: OPENSSL_memcmp.induct) (auto split: if_splits)
  obtain t c where a: "valid_tag t" "length c < 2 ^ 32" "a = der_element t c"
    using any_der_element_sound [OF assms(1) assms(2) [unfolded CBS_get_any_asn1_element_def]] by (metis append_Nil2)
  obtain u e where b: "valid_tag u" "length e < 2 ^ 32" "b = der_element u e"
    using any_der_element_sound [OF assms(1) assms(3) [unfolded CBS_get_any_asn1_element_def]] by (metis append_Nil2)
  let ?m = "min (length a) (length b)"
  have pre: "take ?m a = take ?m b" using assms(4) by (rule eq) simp
  have "a @ drop (length a) b = b \<or> b @ drop (length b) a = a"
    using pre by (metis append_take_drop_id min.cobounded1 min.cobounded2 min_def take_all)
  then show ?thesis
    using der_element_prefix_free [OF a(1,2) b(1,2), of "drop (length a) b" "[]"]
      der_element_prefix_free [OF b(1,2) a(1,2), of "drop (length b) a" "[]"] a(3) b(3) by auto
qed

end
