(* ===== verification/BS_Unicode.thy ===== *)
theory BS_Unicode
  imports BS_Cbb_Thms
begin

text \<open>
  \<open>bytestring/unicode.c\<close> of BoringSSL: reading and writing of Unicode code points in the encodings of
  the ASN.1 string types. The reference is the UTF-8 encoding of a number; the reader accepts exactly
  the encodings of the code points that the code regards as valid, and all four encodings satisfy the
  contract of writers and readers.
\<close>

section \<open>Definitions\<close>

definition is_valid_code_point :: "u32 \<Rightarrow> bool" where
  "is_valid_code_point v \<longleftrightarrow>
     \<not> (v > 0x10ffff \<or> v AND 0xfffe = 0xfffe \<or> (0xfdd0 \<le> v \<and> v \<le> 0xfdef) \<or> (0xd800 \<le> v \<and> v \<le> 0xdfff))"

definition BOTTOM_BITS :: "nat \<Rightarrow> u8" where
  "BOTTOM_BITS n = ucast (push_bit n 1 - 1 :: u32)"

definition TOP_BITS :: "nat \<Rightarrow> u8" where
  "TOP_BITS n = NOT (BOTTOM_BITS (8 - n))"

primrec utf8_loop :: "nat \<Rightarrow> u32 \<Rightarrow> cbs \<Rightarrow> u32 option \<times> cbs" where
  "utf8_loop 0 v s = (Some v, s)"
| "utf8_loop (Suc i) v s =
     get_bind (CBS_get_u8 s) (\<lambda>c s.
       if c AND TOP_BITS 2 \<noteq> TOP_BITS 1 then (None, s)
       else utf8_loop i (push_bit 6 v OR ucast (c AND BOTTOM_BITS 6)) s)"

definition CBS_get_utf8 :: "cbs \<Rightarrow> u32 option \<times> cbs" where
  "CBS_get_utf8 s =
     get_bind (CBS_get_u8 s) (\<lambda>c s.
       if c \<le> 0x7f then (Some (ucast c), s)
       else
         let finish = (\<lambda>v len lower_bound.
           get_bind (utf8_loop len v s) (\<lambda>v s.
             if \<not> is_valid_code_point v \<or> v < lower_bound then (None, s) else (Some v, s))) in
         if c AND TOP_BITS 3 = TOP_BITS 2 then finish (ucast (c AND BOTTOM_BITS 5)) 1 0x80
         else if c AND TOP_BITS 4 = TOP_BITS 3 then finish (ucast (c AND BOTTOM_BITS 4)) 2 0x800
         else if c AND TOP_BITS 5 = TOP_BITS 4 then finish (ucast (c AND BOTTOM_BITS 3)) 3 0x10000
         else (None, s))"

definition CBS_get_latin1 :: "cbs \<Rightarrow> u32 option \<times> cbs" where
  "CBS_get_latin1 s = get_bind (CBS_get_u8 s) (\<lambda>c s. (Some (ucast c), s))"

definition CBS_get_ucs2_be :: "cbs \<Rightarrow> u32 option \<times> cbs" where
  "CBS_get_ucs2_be s =
     get_bind (CBS_get_u16 s) (\<lambda>c s. if \<not> is_valid_code_point (ucast c) then (None, s) else (Some (ucast c), s))"

definition CBS_get_utf32_be :: "cbs \<Rightarrow> u32 option \<times> cbs" where
  "CBS_get_utf32_be s =
     get_bind (CBS_get_u32 s) (\<lambda>c s. if is_valid_code_point c then (Some c, s) else (None, s))"

definition CBB_get_utf8_len :: "u32 \<Rightarrow> nat" where
  "CBB_get_utf8_len u = (if u \<le> 0x7f then 1 else if u \<le> 0x7ff then 2 else if u \<le> 0xffff then 3 else 4)"

definition CBB_add_utf8 :: "allocator \<Rightarrow> u32 \<Rightarrow> nat \<Rightarrow> cbb \<Rightarrow> bool \<times> cbb" where
  "CBB_add_utf8 H u d st =
     (if \<not> is_valid_code_point u then (False, st)
      else if u \<le> 0x7f then CBB_add_u8 H (ucast u) d st
      else if u \<le> 0x7ff then
        and_then (CBB_add_u8 H (ucast (ucast (TOP_BITS 2) OR drop_bit 6 u)) d st)
          (CBB_add_u8 H (ucast (ucast (TOP_BITS 1) OR (u AND ucast (BOTTOM_BITS 6)))) d)
      else if u \<le> 0xffff then
        and_then (CBB_add_u8 H (ucast (ucast (TOP_BITS 3) OR drop_bit 12 u)) d st) (\<lambda>st.
        and_then (CBB_add_u8 H (ucast (ucast (TOP_BITS 1) OR (drop_bit 6 u AND ucast (BOTTOM_BITS 6)))) d st)
          (CBB_add_u8 H (ucast (ucast (TOP_BITS 1) OR (u AND ucast (BOTTOM_BITS 6)))) d))
      else if u \<le> 0x10ffff then
        and_then (CBB_add_u8 H (ucast (ucast (TOP_BITS 4) OR drop_bit 18 u)) d st) (\<lambda>st.
        and_then (CBB_add_u8 H (ucast (ucast (TOP_BITS 1) OR (drop_bit 12 u AND ucast (BOTTOM_BITS 6)))) d st) (\<lambda>st.
        and_then (CBB_add_u8 H (ucast (ucast (TOP_BITS 1) OR (drop_bit 6 u AND ucast (BOTTOM_BITS 6)))) d st)
          (CBB_add_u8 H (ucast (ucast (TOP_BITS 1) OR (u AND ucast (BOTTOM_BITS 6)))) d)))
      else (False, st))"

definition CBB_add_latin1 :: "allocator \<Rightarrow> u32 \<Rightarrow> nat \<Rightarrow> cbb \<Rightarrow> bool \<times> cbb" where
  "CBB_add_latin1 H u d st = (if u \<le> 0xff then CBB_add_u8 H (ucast u) d st else (False, st))"

definition CBB_add_ucs2_be :: "allocator \<Rightarrow> u32 \<Rightarrow> nat \<Rightarrow> cbb \<Rightarrow> bool \<times> cbb" where
  "CBB_add_ucs2_be H u d st =
     (if u \<le> 0xffff \<and> is_valid_code_point u then CBB_add_u16 H (ucast u) d st else (False, st))"

definition CBB_add_utf32_be :: "allocator \<Rightarrow> u32 \<Rightarrow> nat \<Rightarrow> cbb \<Rightarrow> bool \<times> cbb" where
  "CBB_add_utf32_be H u d st = (if is_valid_code_point u then CBB_add_u32 H u d st else (False, st))"

section \<open>Reference encoding\<close>

definition cont :: "nat \<Rightarrow> u8" where
  "cont n = byte_of (128 + n mod 64)"

definition utf8 :: "nat \<Rightarrow> u8 list" where
  "utf8 n =
     (if n < 0x80 then [byte_of n]
      else if n < 0x800 then [byte_of (0xc0 + n div 64), cont n]
      else if n < 0x10000 then [byte_of (0xe0 + n div 4096), cont (n div 64), cont n]
      else [byte_of (0xf0 + n div 262144), cont (n div 4096), cont (n div 64), cont n])"

section \<open>Bits\<close>

lemma bits_values:
  "TOP_BITS (Suc 0) = 0x80" "TOP_BITS 2 = 0xc0" "TOP_BITS 3 = 0xe0" "TOP_BITS 4 = 0xf0" "TOP_BITS 5 = 0xf8"
  "BOTTOM_BITS 6 = 0x3f" "BOTTOM_BITS 5 = 0x1f" "BOTTOM_BITS 4 = 0x0f" "BOTTOM_BITS 3 = 0x07"
  by code_simp+

lemma unat_and_top: "unat (b AND NOT (mask k) :: u8) = unat b div 2 ^ k * 2 ^ k"
proof -
  have "b AND NOT (mask k) = push_bit k (drop_bit k b)" by (rule bit_word_eqI) (auto simp: bit_simps)
  then have "unat (b AND NOT (mask k)) = take_bit 8 (push_bit k (unat b div 2 ^ k))"
    by (simp only: unsigned_push_bit_eq unat_drop_bit_div) simp
  also have "unat b div 2 ^ k * 2 ^ k < 256"
    by (rule le_less_trans [OF div_times_less_eq_dividend unat_u8_less])
  then have "take_bit 8 (push_bit k (unat b div 2 ^ k)) = unat b div 2 ^ k * 2 ^ k"
    by (simp add: push_bit_eq_mult take_bit_nat_eq_self)
  finally show ?thesis .
qed

lemma top_tests:
  "(c AND 0xc0 = 0x80) \<longleftrightarrow> unat c div 64 = 2" "(c AND 0xe0 = 0xc0) \<longleftrightarrow> unat c div 32 = 6"
  "(c AND 0xf0 = 0xe0) \<longleftrightarrow> unat c div 16 = 14" "(c AND 0xf8 = 0xf0) \<longleftrightarrow> unat c div 8 = 30" for c :: u8
proof -
  have m: "NOT (mask 6) = (0xc0 :: u8)" "NOT (mask 5) = (0xe0 :: u8)" "NOT (mask 4) = (0xf0 :: u8)" "NOT (mask 3) = (0xf8 :: u8)"
    by code_simp+
  show "(c AND 0xc0 = 0x80) \<longleftrightarrow> unat c div 64 = 2" "(c AND 0xe0 = 0xc0) \<longleftrightarrow> unat c div 32 = 6"
    "(c AND 0xf0 = 0xe0) \<longleftrightarrow> unat c div 16 = 14" "(c AND 0xf8 = 0xf0) \<longleftrightarrow> unat c div 8 = 30"
    using unat_and_top [of c 6] unat_and_top [of c 5] unat_and_top [of c 4] unat_and_top [of c 3]
    unfolding m by (simp_all add: byte_eq_iff)
qed

lemma bottom_values:
  "unat (c AND 0x3f) = unat c mod 64" "unat (c AND 0x1f) = unat c mod 32"
  "unat (c AND 0x0f) = unat c mod 16" "unat (c AND 0x07) = unat c mod 8" for c :: u8
  using unat_take_bit_mod [of 6 c] unat_take_bit_mod [of 5 c] unat_take_bit_mod [of 4 c] unat_take_bit_mod [of 3 c]
  by (simp_all add: take_bit_eq_mask mask_numeral)

lemma unat_shift_in32:
  assumes "unat (v :: u32) < 2 ^ (32 - k)" "unat (y :: u32) < 2 ^ k" "k \<le> 32"
  shows "unat (push_bit k v OR y) = unat v * 2 ^ k + unat y"
proof -
  have p: "unat (push_bit k v) = unat v * 2 ^ k" using assms unat_push_bit_small [of v k] by simp
  show ?thesis using or_disjoint_unat [of "push_bit k v" k y] assms(2) by (simp add: p)
qed

section \<open>UTF-8\<close>

definition is_cont :: "u8 \<Rightarrow> bool" where
  "is_cont c \<longleftrightarrow> unat c div 64 = 2"

lemma unat_cont: "unat (cont n) = 128 + n mod 64"
proof -
  have "128 + n mod 64 < 256" using mod_less_divisor [of 64 n] by simp
  then show ?thesis by (simp only: cont_def unat_byte_of mod_less)
qed

lemma cont_eq: "is_cont c \<Longrightarrow> cont (unat c) = c"
  using div_mult_mod_eq [of "unat c" 64] by (simp add: is_cont_def byte_eq_iff unat_cont)

lemma low6: "m < 64 \<Longrightarrow> (128 + m) div 64 = (2 :: nat)" "m < 64 \<Longrightarrow> (128 + m) mod 64 = m"
  "m < 64 \<Longrightarrow> (a * 64 + m) div 64 = a" "m < 64 \<Longrightarrow> (a * 64 + m) mod 64 = m" for m a :: nat
  using mod_mult_self3 [of 2 64 m] by simp_all

lemma mod64_less: "n mod 64 < (64 :: nat)"
  by simp

lemma cont_props [simp]: "is_cont (cont n)" "unat (cont n) mod 64 = n mod 64"
  unfolding is_cont_def unat_cont by (rule low6(1) [OF mod64_less], rule low6(2) [OF mod64_less])

lemma cont_mod [simp]: "cont (64 * a + b) = cont b" "cont (a * 64 + b) = cont b" "cont (n mod 64) = cont n"
  by (simp_all add: cont_def)

definition utf8_val :: "nat \<Rightarrow> u8 list \<Rightarrow> nat" where
  "utf8_val a cs = foldl (\<lambda>a c. a * 64 + unat c mod 64) a cs"

lemma utf8_loop_iff:
  "(unat v + 1) * 64 ^ n \<le> 2 ^ 32 \<Longrightarrow>
   utf8_loop n v s = (Some w, s') \<longleftrightarrow>
     (\<exists>cs. s = cs @ s' \<and> length cs = n \<and> list_all is_cont cs \<and> unat w = utf8_val (unat v) cs)"
proof (induction n arbitrary: v s)
  case 0
  then show ?case by (auto simp: utf8_val_def word_unat_eq_iff)
next
  case (Suc n)
  show ?case
  proof (cases s)
    case Nil
    then show ?thesis by (auto simp: get_bind_def)
  next
    case (Cons c r)
    let ?v = "push_bit 6 v OR ucast (c AND 0x3f) :: u32"
    have "(unat v + 1) * 64 \<le> (unat v + 1) * 64 ^ Suc n" by (intro mult_le_mono2) simp
    also have "\<dots> \<le> 2 ^ 32" by (rule Suc.prems)
    finally have "unat v < 2 ^ (32 - 6)" by simp
    moreover have "unat (ucast (c AND 0x3f) :: u32) < 2 ^ 6" by (simp add: bottom_values)
    ultimately have v': "unat ?v = unat v * 64 + unat c mod 64"
      using unat_shift_in32 [of v 6 "ucast (c AND 0x3f)"] by (simp add: bottom_values)
    have "a * 64 + m + 1 \<le> (a + 1) * 64" if "m < 64" for a m :: nat using that by simp
    from this [OF mod64_less] have "(unat ?v + 1) * 64 ^ n \<le> ((unat v + 1) * 64) * 64 ^ n"
      unfolding v' by (intro mult_le_mono1)
    also have "\<dots> \<le> 2 ^ 32" using Suc.prems by (simp add: algebra_simps)
    finally have IH: "utf8_loop n ?v r = (Some w, s') \<longleftrightarrow>
        (\<exists>cs. r = cs @ s' \<and> length cs = n \<and> list_all is_cont cs \<and> unat w = utf8_val (unat ?v) cs)"
      by (rule Suc.IH)
    have step: "utf8_loop (Suc n) v (c # r) = (Some w, s') \<longleftrightarrow> is_cont c \<and> utf8_loop n ?v r = (Some w, s')"
      by (auto simp: get_bind_def bits_values top_tests is_cont_def)
    have val: "utf8_val (unat ?v) cs = utf8_val (unat v) (c # cs)" for cs by (simp add: utf8_val_def v')
    show ?thesis unfolding Cons step IH val
    proof
      assume "is_cont c \<and> (\<exists>cs. r = cs @ s' \<and> length cs = n \<and> list_all is_cont cs \<and> unat w = utf8_val (unat v) (c # cs))"
      then obtain cs where "is_cont c" "r = cs @ s'" "length cs = n" "list_all is_cont cs" "unat w = utf8_val (unat v) (c # cs)" by blast
      then show "\<exists>cs. c # r = cs @ s' \<and> length cs = Suc n \<and> list_all is_cont cs \<and> unat w = utf8_val (unat v) cs"
        by (intro exI [of _ "c # cs"]) simp
    next
      assume "\<exists>cs. c # r = cs @ s' \<and> length cs = Suc n \<and> list_all is_cont cs \<and> unat w = utf8_val (unat v) cs"
      then show "is_cont c \<and> (\<exists>cs. r = cs @ s' \<and> length cs = n \<and> list_all is_cont cs \<and> unat w = utf8_val (unat v) (c # cs))"
        by (auto simp: length_Suc_conv)
    qed
  qed
qed

text \<open>A sequence with a leading byte: the number, and the bytes as its reference encoding.\<close>

lemma lead_byte: "unat b div k = q \<Longrightarrow> byte_of (q * k + unat b mod k) = b"
  using div_mult_mod_eq [of "unat b" k] by (simp add: byte_eq_iff)

lemma utf8_sequence2:
  assumes "unat b div 32 = 6" "is_cont c" "n = utf8_val (unat b mod 32) [c]" "0x80 \<le> n"
  shows "utf8 n = [b, c]" "n < 0x800"
proof -
  define x y where "x = unat b mod 32" and "y = unat c mod 64"
  have m: "x < 32" "y < 64" by (simp_all add: x_def y_def)
  have n: "n = x * 64 + y" using assms(3) by (simp add: utf8_val_def x_def y_def)
  show lt: "n < 0x800" unfolding n using m by linarith
  have "n div 64 = x" unfolding n using m(2) by (rule low6(3))
  then have "byte_of (0xc0 + n div 64) = b" using lead_byte [OF assms(1)] by (simp add: x_def)
  moreover have "cont n = c" unfolding n y_def cont_mod using assms(2) by (rule cont_eq)
  ultimately show "utf8 n = [b, c]" using lt assms(4) by (simp add: utf8_def)
qed

lemma utf8_sequence3:
  assumes "unat b div 16 = 14" "is_cont c" "is_cont e" "n = utf8_val (unat b mod 16) [c, e]" "0x800 \<le> n"
  shows "utf8 n = [b, c, e]" "n < 0x10000"
proof -
  define x y z where "x = unat b mod 16" and "y = unat c mod 64" and "z = unat e mod 64"
  have m: "x < 16" "y < 64" "z < 64" by (simp_all add: x_def y_def z_def)
  have n: "n = (x * 64 + y) * 64 + z" using assms(4) by (simp add: utf8_val_def x_def y_def z_def)
  have "x * 64 + y < 1024" using m by linarith
  then show lt: "n < 0x10000" unfolding n using m(3) by simp
  have d1: "n div 64 = x * 64 + y" unfolding n using m(3) by (rule low6(3))
  have "n div 4096 = n div 64 div 64" by (simp add: div_mult2_eq [symmetric])
  then have d2: "n div 4096 = x" unfolding d1 using low6(3) [OF m(2)] by simp
  have "byte_of (0xe0 + n div 4096) = b" using lead_byte [OF assms(1)] by (simp add: d2 x_def)
  moreover have "cont (n div 64) = c" unfolding d1 y_def cont_mod using assms(2) by (rule cont_eq)
  moreover have "cont n = e" unfolding n z_def cont_mod using assms(3) by (rule cont_eq)
  ultimately show "utf8 n = [b, c, e]" using lt assms(5) by (simp add: utf8_def)
qed

lemma utf8_sequence4:
  assumes "unat b div 8 = 30" "is_cont c" "is_cont e" "is_cont f" "n = utf8_val (unat b mod 8) [c, e, f]" "0x10000 \<le> n"
  shows "utf8 n = [b, c, e, f]"
proof -
  define x y z w where "x = unat b mod 8" and "y = unat c mod 64" and "z = unat e mod 64" and "w = unat f mod 64"
  have m: "x < 8" "y < 64" "z < 64" "w < 64" by (simp_all add: x_def y_def z_def w_def)
  have n: "n = ((x * 64 + y) * 64 + z) * 64 + w"
    using assms(5) by (simp add: utf8_val_def x_def y_def z_def w_def)
  have d1: "n div 64 = (x * 64 + y) * 64 + z" unfolding n using m(4) by (rule low6(3))
  have "n div 4096 = n div 64 div 64" by (simp add: div_mult2_eq [symmetric])
  then have d2: "n div 4096 = x * 64 + y" unfolding d1 using low6(3) [OF m(3)] by simp
  have "n div 262144 = n div 4096 div 64" by (simp add: div_mult2_eq [symmetric])
  then have d3: "n div 262144 = x" unfolding d2 using low6(3) [OF m(2)] by simp
  have "byte_of (0xf0 + n div 262144) = b" using lead_byte [OF assms(1)] by (simp add: d3 x_def)
  moreover have "cont (n div 4096) = c" unfolding d2 y_def cont_mod using assms(2) by (rule cont_eq)
  moreover have "cont (n div 64) = e" unfolding d1 z_def cont_mod using assms(3) by (rule cont_eq)
  moreover have "cont n = f" unfolding n w_def cont_mod using assms(4) by (rule cont_eq)
  ultimately show ?thesis using assms(6) by (simp add: utf8_def)
qed

lemma lead_classes:
  "unat b div 16 = 14 \<Longrightarrow> unat b div 32 \<noteq> 6" "unat b div 8 = 30 \<Longrightarrow> unat b div 32 \<noteq> 6"
  "unat b div 8 = 30 \<Longrightarrow> unat b div 16 \<noteq> 14"
proof -
  have d: "unat b div 32 = unat b div 16 div 2" "unat b div 32 = unat b div 8 div 4" "unat b div 16 = unat b div 8 div 2"
    by (simp_all add: div_mult2_eq [symmetric])
  show "unat b div 16 = 14 \<Longrightarrow> unat b div 32 \<noteq> 6" "unat b div 8 = 30 \<Longrightarrow> unat b div 32 \<noteq> 6"
    "unat b div 8 = 30 \<Longrightarrow> unat b div 16 \<noteq> 14" using d by simp_all
qed

lemma lead_high: "unat b div 32 = 6 \<or> unat b div 16 = 14 \<or> unat b div 8 = 30 \<Longrightarrow> \<not> b \<le> (0x7f :: u8)"
proof -
  have small: "unat b div 32 \<le> 3" "unat b div 16 \<le> 7" "unat b div 8 \<le> 15" if "unat b \<le> 127"
    using div_le_mono [OF that, of 32] div_le_mono [OF that, of 16] div_le_mono [OF that, of 8] by simp_all
  assume "unat b div 32 = 6 \<or> unat b div 16 = 14 \<or> unat b div 8 = 30"
  then show ?thesis using small by (auto simp: word_le_nat_alt)
qed

lemma utf8_finish_iff:
  assumes "(unat v + 1) * 64 ^ n \<le> 2 ^ 32"
  shows "get_bind (utf8_loop n v s) (\<lambda>v s. if \<not> is_valid_code_point v \<or> v < lo then (None, s) else (Some v, s)) = (Some w, s') \<longleftrightarrow>
    (\<exists>cs. s = cs @ s' \<and> length cs = n \<and> list_all is_cont cs \<and> unat w = utf8_val (unat v) cs) \<and>
      is_valid_code_point w \<and> unat lo \<le> unat w"
proof -
  have "get_bind (utf8_loop n v s) (\<lambda>v s. if \<not> is_valid_code_point v \<or> v < lo then (None, s) else (Some v, s)) = (Some w, s') \<longleftrightarrow>
    utf8_loop n v s = (Some w, s') \<and> is_valid_code_point w \<and> unat lo \<le> unat w"
    by (cases "utf8_loop n v s"; cases "fst (utf8_loop n v s)") (auto simp: get_bind_def word_less_nat_alt not_less)
  then show ?thesis unfolding utf8_loop_iff [OF assms] by simp
qed

definition utf8_tail :: "nat \<Rightarrow> nat \<Rightarrow> nat \<Rightarrow> cbs \<Rightarrow> u32 \<Rightarrow> cbs \<Rightarrow> bool" where
  "utf8_tail n a lo s w s' \<longleftrightarrow>
     (\<exists>cs. s = cs @ s' \<and> length cs = n \<and> list_all is_cont cs \<and> unat w = utf8_val a cs) \<and> is_valid_code_point w \<and> lo \<le> unat w"

lemma CBS_get_utf8_Cons:
  "CBS_get_utf8 (b # s) = (Some w, s') \<longleftrightarrow>
     (if b \<le> 0x7f then w = ucast b \<and> s' = s
      else if unat b div 32 = 6 then utf8_tail 1 (unat b mod 32) 0x80 s w s'
      else if unat b div 16 = 14 then utf8_tail 2 (unat b mod 16) 0x800 s w s'
      else if unat b div 8 = 30 then utf8_tail 3 (unat b mod 8) 0x10000 s w s'
      else False)"
proof -
  have bound: "(unat b mod 32 + 1) * 64 ^ 1 \<le> 2 ^ 32" "(unat b mod 16 + 1) * 64 ^ 2 \<le> 2 ^ 32" "(unat b mod 8 + 1) * 64 ^ 3 \<le> 2 ^ 32"
  proof -
    have "m < k \<Longrightarrow> k \<le> 32 \<Longrightarrow> (m + 1) * 64 ^ j \<le> 32 * 64 ^ j" for m k j :: nat by (intro mult_le_mono1) linarith
    note le = this [of "unat b mod 32" 32 1] this [of "unat b mod 16" 16 2] this [of "unat b mod 8" 8 3]
    show "(unat b mod 32 + 1) * 64 ^ 1 \<le> 2 ^ 32" by (rule order_trans [OF le(1)]) simp_all
    show "(unat b mod 16 + 1) * 64 ^ 2 \<le> 2 ^ 32" by (rule order_trans [OF le(2)]) simp_all
    show "(unat b mod 8 + 1) * 64 ^ 3 \<le> 2 ^ 32" by (rule order_trans [OF le(3)]) simp_all
  qed
  have u: "unat (ucast (b AND 0x1f) :: u32) = unat b mod 32" "unat (ucast (b AND 0x0f) :: u32) = unat b mod 16"
    "unat (ucast (b AND 0x07) :: u32) = unat b mod 8" by (simp_all add: bottom_values)
  note fin = utf8_finish_iff [of "ucast (b AND 0x1f)" 1, unfolded u(1), OF bound(1)]
    utf8_finish_iff [of "ucast (b AND 0x0f)" 2, unfolded u(2), OF bound(2)]
    utf8_finish_iff [of "ucast (b AND 0x07)" 3, unfolded u(3), OF bound(3)]
  show ?thesis
    unfolding utf8_tail_def
    using fin [of s _ w s'] by (auto simp: CBS_get_utf8_def get_bind_def bits_values top_tests Let_def)
qed

lemma valid_ascii: "unat v < 0x80 \<Longrightarrow> is_valid_code_point v"
proof -
  assume v: "unat v < 0x80"
  have "v AND 0xfffe \<le> v" by (rule word_and_le2)
  then have "v AND 0xfffe \<noteq> 0xfffe" using v by (auto simp: word_le_nat_alt)
  then show ?thesis using v by (simp add: is_valid_code_point_def word_le_nat_alt word_less_nat_alt)
qed

lemma valid_range: "is_valid_code_point v \<Longrightarrow> unat v \<le> 0x10ffff"
  by (simp add: is_valid_code_point_def word_less_nat_alt not_less)

lemma CBS_get_utf8_sound:
  assumes "CBS_get_utf8 s = (Some v, s')"
  shows "is_valid_code_point v \<and> s = utf8 (unat v) @ s'"
proof -
  obtain b r where s: "s = b # r" using assms by (cases s) (auto simp: CBS_get_utf8_def get_bind_def)
  consider (ascii) "b \<le> 0x7f" "v = ucast b" "s' = r"
    | (two) "unat b div 32 = 6" "utf8_tail 1 (unat b mod 32) 0x80 r v s'"
    | (three) "unat b div 16 = 14" "utf8_tail 2 (unat b mod 16) 0x800 r v s'"
    | (four) "unat b div 8 = 30" "utf8_tail 3 (unat b mod 8) 0x10000 r v s'"
    using assms unfolding s CBS_get_utf8_Cons by (auto split: if_splits)
  then show ?thesis
  proof cases
    case ascii
    then have b: "unat b < 0x80" by (simp add: word_le_nat_alt)
    then have "is_valid_code_point v" using ascii(2) by (intro valid_ascii) simp
    with ascii b s show ?thesis by (simp add: utf8_def)
  next
    case two
    then obtain c where "r = c # s'" "is_cont c" "unat v = utf8_val (unat b mod 32) [c]" "is_valid_code_point v" "0x80 \<le> unat v"
      by (auto simp: utf8_tail_def length_Suc_conv)
    with utf8_sequence2 [OF two(1)] s show ?thesis by simp
  next
    case three
    then obtain c e where "r = c # e # s'" "is_cont c" "is_cont e" "unat v = utf8_val (unat b mod 16) [c, e]"
      "is_valid_code_point v" "0x800 \<le> unat v"
      by (auto simp: utf8_tail_def length_Suc_conv numeral_2_eq_2)
    with utf8_sequence3 [OF three(1)] s show ?thesis by simp
  next
    case four
    then obtain c e f where "r = c # e # f # s'" "is_cont c" "is_cont e" "is_cont f" "unat v = utf8_val (unat b mod 8) [c, e, f]"
      "is_valid_code_point v" "0x10000 \<le> unat v"
      by (auto simp: utf8_tail_def length_Suc_conv numeral_3_eq_3)
    with utf8_sequence4 [OF four(1)] s show ?thesis by simp
  qed
qed

lemma lead_value: "a < k \<Longrightarrow> q * k + a < 256 \<Longrightarrow> unat (byte_of (q * k + a)) div k = q \<and> unat (byte_of (q * k + a)) mod k = a"
  by simp

lemma utf8_val_cont:
  "utf8_val a [cont x] = a * 64 + x mod 64"
  "utf8_val a [cont y, cont x] = (a * 64 + y mod 64) * 64 + x mod 64"
  "utf8_val a [cont z, cont y, cont x] = ((a * 64 + z mod 64) * 64 + y mod 64) * 64 + x mod 64"
  by (simp_all add: utf8_val_def)

lemma CBS_get_utf8_complete:
  assumes v: "is_valid_code_point v"
  shows "CBS_get_utf8 (utf8 (unat v) @ s) = (Some v, s)"
proof -
  define n where "n = unat v"
  have n: "n \<le> 0x10ffff" using valid_range [OF v] by (simp add: n_def)
  have d: "n div 64 * 64 + n mod 64 = n" "n div 4096 * 64 + n div 64 mod 64 = n div 64"
    "n div 262144 * 64 + n div 4096 mod 64 = n div 4096"
    using div_mult_mod_eq [of "n div 64" 64] div_mult_mod_eq [of "n div 4096" 64]
    by (simp_all add: div_mult2_eq [symmetric])
  consider "n < 0x80" | "0x80 \<le> n" "n < 0x800" | "0x800 \<le> n" "n < 0x10000" | "0x10000 \<le> n" by linarith
  then show ?thesis
  proof cases
    case 1
    then have le: "byte_of n \<le> 0x7f" by (simp add: word_le_nat_alt)
    have "unat v = unat (ucast (byte_of n) :: u32)" using 1 by (simp add: n_def)
    then have "ucast (byte_of n) = v" by (simp only: word_unat_eq_iff)
    then show ?thesis using 1 le by (simp add: utf8_def CBS_get_utf8_Cons flip: n_def)
  next
    case 2
    define b where "b = byte_of (6 * 32 + n div 64)"
    have "n div 64 < 32" using 2(2) by (simp add: less_mult_imp_div_less)
    then have b: "unat b div 32 = 6" "unat b mod 32 = n div 64" using lead_value [of "n div 64" 32 6] by (simp_all add: b_def)
    have "cont n # s = [cont n] @ s" "length [cont n] = 1" "list_all is_cont [cont n]" by simp_all
    moreover have "unat v = utf8_val (unat b mod 32) [cont n]" unfolding utf8_val_cont b(2) by (simp only: d n_def [symmetric])
    ultimately have "utf8_tail 1 (unat b mod 32) 0x80 (cont n # s) v s"
      unfolding utf8_tail_def using v 2(1) unfolding n_def by blast
    then show ?thesis using b(1) lead_high [of b] 2
      by (simp add: utf8_def CBS_get_utf8_Cons b_def flip: n_def)
  next
    case 3
    define b where "b = byte_of (14 * 16 + n div 4096)"
    have "n div 4096 < 16" using 3(2) by (simp add: less_mult_imp_div_less)
    then have b: "unat b div 16 = 14" "unat b mod 16 = n div 4096" using lead_value [of "n div 4096" 16 14] by (simp_all add: b_def)
    have "cont (n div 64) # cont n # s = [cont (n div 64), cont n] @ s" "length [cont (n div 64), cont n] = 2" "list_all is_cont [cont (n div 64), cont n]" by simp_all
    moreover have "unat v = utf8_val (unat b mod 16) [cont (n div 64), cont n]" unfolding utf8_val_cont b(2) by (simp only: d n_def [symmetric])
    ultimately have "utf8_tail 2 (unat b mod 16) 0x800 (cont (n div 64) # cont n # s) v s"
      unfolding utf8_tail_def using v 3(1) unfolding n_def by blast
    then show ?thesis using b(1) lead_high [of b] lead_classes(1) [of b] 3
      by (simp add: utf8_def CBS_get_utf8_Cons b_def flip: n_def)
  next
    case 4
    define b where "b = byte_of (30 * 8 + n div 262144)"
    have "n div 262144 < 8" using n by (simp add: less_mult_imp_div_less)
    then have b: "unat b div 8 = 30" "unat b mod 8 = n div 262144" using lead_value [of "n div 262144" 8 30] by (simp_all add: b_def)
    have "cont (n div 4096) # cont (n div 64) # cont n # s = [cont (n div 4096), cont (n div 64), cont n] @ s" "length [cont (n div 4096), cont (n div 64), cont n] = 3" "list_all is_cont [cont (n div 4096), cont (n div 64), cont n]" by simp_all
    moreover have "unat v = utf8_val (unat b mod 8) [cont (n div 4096), cont (n div 64), cont n]" unfolding utf8_val_cont b(2) by (simp only: d n_def [symmetric])
    ultimately have "utf8_tail 3 (unat b mod 8) 0x10000 (cont (n div 4096) # cont (n div 64) # cont n # s) v s"
      unfolding utf8_tail_def using v 4(1) unfolding n_def by blast
    then show ?thesis using b(1) lead_high [of b] lead_classes(2,3) [of b] 4
      by (simp add: utf8_def CBS_get_utf8_Cons b_def flip: n_def)
  qed
qed

section \<open>Writers\<close>

lemma or_byte:
  assumes "unat (t :: u32) mod 2 ^ k = 0" "unat y < 2 ^ k" "unat t + unat y < 256"
  shows "(ucast (t OR y) :: u8) = byte_of (unat t + unat y)"
  using or_disjoint_unat [OF assms(1,2)] assms(3) by (simp add: byte_eq_iff unsigned_ucast_eq take_bit_nat_eq_self)

lemma cont_code: "(ucast (ucast (TOP_BITS (Suc 0)) OR (y AND ucast (BOTTOM_BITS 6)) :: u32) :: u8) = cont (unat y)"
proof -
  have t: "(ucast (TOP_BITS (Suc 0)) :: u32) = 0x80" "(ucast (BOTTOM_BITS 6) :: u32) = 0x3f" by (simp_all add: bits_values)
  have y: "unat (y AND 0x3f) = unat y mod 64"
    using unat_take_bit_mod [of 6 y] by (simp add: take_bit_eq_mask mask_numeral)
  have "unat y mod 64 < 64" by (rule mod64_less)
  then show ?thesis unfolding t cont_def using or_byte [of "0x80" 6 "y AND 0x3f"] y by simp
qed

lemma drop_values: "unat (drop_bit 6 u) = unat u div 64" "unat (drop_bit 12 u) = unat u div 4096" "unat (drop_bit 18 u) = unat u div 262144"
  for u :: u32
  using unat_drop_bit_div [of 6 u] unat_drop_bit_div [of 12 u] unat_drop_bit_div [of 18 u] by simp_all

lemma lead_code:
  "unat u < 0x800 \<Longrightarrow> (ucast (ucast (TOP_BITS 2) OR drop_bit 6 u :: u32) :: u8) = byte_of (0xc0 + unat u div 64)"
  "unat u < 0x10000 \<Longrightarrow> (ucast (ucast (TOP_BITS 3) OR drop_bit 12 u :: u32) :: u8) = byte_of (0xe0 + unat u div 4096)"
  "unat u \<le> 0x10ffff \<Longrightarrow> (ucast (ucast (TOP_BITS 4) OR drop_bit 18 u :: u32) :: u8) = byte_of (0xf0 + unat u div 262144)"
proof -
  have t: "(ucast (TOP_BITS 2) :: u32) = 0xc0" "(ucast (TOP_BITS 3) :: u32) = 0xe0" "(ucast (TOP_BITS 4) :: u32) = 0xf0"
    by (simp_all add: bits_values)
  { assume "unat u < 0x800"
    then have "unat u div 64 < 32" by (simp add: less_mult_imp_div_less)
    then show "(ucast (ucast (TOP_BITS 2) OR drop_bit 6 u :: u32) :: u8) = byte_of (0xc0 + unat u div 64)"
      unfolding t using or_byte [of "0xc0" 5 "drop_bit 6 u"] by (simp add: drop_values) }
  { assume "unat u < 0x10000"
    then have "unat u div 4096 < 16" by (simp add: less_mult_imp_div_less)
    then show "(ucast (ucast (TOP_BITS 3) OR drop_bit 12 u :: u32) :: u8) = byte_of (0xe0 + unat u div 4096)"
      unfolding t using or_byte [of "0xe0" 4 "drop_bit 12 u"] by (simp add: drop_values) }
  { assume "unat u \<le> 0x10ffff"
    then have "unat u div 262144 < 8" by (simp add: less_mult_imp_div_less)
    then show "(ucast (ucast (TOP_BITS 4) OR drop_bit 18 u :: u32) :: u8) = byte_of (0xf0 + unat u div 262144)"
      unfolding t using or_byte [of "0xf0" 3 "drop_bit 18 u"] by (simp add: drop_values) }
qed

text \<open>A sequence of single bytes.\<close>

lemma add_bytes_seq:
  "cbb_ok st \<Longrightarrow> and_then (CBB_add_u8 H b d st) g = (True, st') \<Longrightarrow>
   (\<And>st1. cbb_ok st1 \<Longrightarrow> g st1 = (True, st') \<Longrightarrow> appends d bs st1 st') \<Longrightarrow> appends d (b # bs) st st'"
  by (elim and_then_TrueE) (metis CBB_add_u8_appends appends_ok appends_trans append_Cons append_Nil)

lemma CBB_add_utf8_appends:
  assumes st: "cbb_ok st" and r: "CBB_add_utf8 H u d st = (True, st')"
  shows "appends d (utf8 (unat u)) st st'" "is_valid_code_point u"
proof -
  show v: "is_valid_code_point u" using r by (auto simp: CBB_add_utf8_def split: if_splits)
  have n: "unat u \<le> 0x10ffff" using v by (rule valid_range)
  note le = word_le_nat_alt [of u "0x7f"] word_le_nat_alt [of u "0x7ff"] word_le_nat_alt [of u "0xffff"] word_le_nat_alt [of u "0x10ffff"]
  consider "unat u < 0x80" | "0x80 \<le> unat u" "unat u < 0x800" | "0x800 \<le> unat u" "unat u < 0x10000" | "0x10000 \<le> unat u" by linarith
  then show "appends d (utf8 (unat u)) st st'"
  proof cases
    case 1
    then have "CBB_add_u8 H (ucast u) d st = (True, st')" using r v le by (simp add: CBB_add_utf8_def)
    moreover have "ucast u = byte_of (unat u)" using 1 by (simp add: byte_of_def)
    ultimately show ?thesis using CBB_add_u8_appends [OF st] 1 by (simp add: utf8_def)
  next
    case 2
    then have "and_then (CBB_add_u8 H (byte_of (0xc0 + unat u div 64)) d st) (CBB_add_u8 H (cont (unat u)) d) = (True, st')"
      using r v le by (simp add: CBB_add_utf8_def cont_code lead_code)
    from add_bytes_seq [OF st this CBB_add_u8_appends] show ?thesis using 2 by (simp add: utf8_def)
  next
    case 3
    then have "and_then (CBB_add_u8 H (byte_of (0xe0 + unat u div 4096)) d st) (\<lambda>st.
        and_then (CBB_add_u8 H (cont (unat u div 64)) d st) (CBB_add_u8 H (cont (unat u)) d)) = (True, st')"
      using r v le by (simp add: CBB_add_utf8_def cont_code lead_code drop_values)
    from add_bytes_seq [OF st this add_bytes_seq [OF _ _ CBB_add_u8_appends]] show ?thesis using 3 by (simp add: utf8_def)
  next
    case 4
    then have "and_then (CBB_add_u8 H (byte_of (0xf0 + unat u div 262144)) d st) (\<lambda>st.
        and_then (CBB_add_u8 H (cont (unat u div 4096)) d st) (\<lambda>st.
        and_then (CBB_add_u8 H (cont (unat u div 64)) d st) (CBB_add_u8 H (cont (unat u)) d))) = (True, st')"
      using r v le n by (simp add: CBB_add_utf8_def cont_code lead_code drop_values)
    from add_bytes_seq [OF st this add_bytes_seq [OF _ _ add_bytes_seq [OF _ _ CBB_add_u8_appends]]] show ?thesis
      using 4 by (simp add: utf8_def)
  qed
qed

interpretation utf8_chars: byte_codec CBB_add_utf8 "\<lambda>u. utf8 (unat u)" is_valid_code_point CBS_get_utf8
  by unfold_locales (simp_all add: CBB_add_utf8_appends CBS_get_utf8_complete)

interpretation latin1_chars: byte_codec CBB_add_latin1 "\<lambda>u. [ucast u]" "\<lambda>u. unat u < 256" CBS_get_latin1
proof unfold_locales
  show "appends d [ucast u] st st'" if "cbb_ok st" "CBB_add_latin1 H u d st = (True, st')" for H u d st st'
    using that CBB_add_u8_appends by (simp add: CBB_add_latin1_def split: if_splits)
  show "CBS_get_latin1 ([ucast u] @ s) = (Some u, s)" if "unat u < 256" for u s
  proof -
    have "unat (ucast (ucast u :: u8) :: u32) = unat (ucast u :: u8)" by (rule unat_ucast_up) simp
    also have "\<dots> = unat u" using that by (simp add: unsigned_ucast_eq take_bit_nat_eq_self)
    finally have "(ucast (ucast u :: u8) :: u32) = u" by (simp only: word_unat_eq_iff)
    then show ?thesis
      unfolding CBS_get_latin1_def get_bind_def append_Cons append_Nil CBS_get_u8_simps by (simp only: prod.case option.case)
  qed
qed

interpretation ucs2_chars: byte_codec CBB_add_ucs2_be "\<lambda>u. nat_to_be 2 (unat u)"
  "\<lambda>u. unat u < 65536 \<and> is_valid_code_point u" CBS_get_ucs2_be
proof unfold_locales
  have n: "unat (ucast u :: u16) = unat u" if "unat u < 65536" for u :: u32
    using that by (simp add: unsigned_ucast_eq take_bit_nat_eq_self)
  show "appends d (nat_to_be 2 (unat u)) st st'"
    if "cbb_ok st" "unat u < 65536 \<and> is_valid_code_point u" "CBB_add_ucs2_be H u d st = (True, st')" for H u d st st'
    using that u16.add_appends [of st H "ucast u" d st'] n [of u] by (simp add: CBB_add_ucs2_be_def split: if_splits)
  show "CBS_get_ucs2_be (nat_to_be 2 (unat u) @ s) = (Some u, s)" if "unat u < 65536 \<and> is_valid_code_point u" for u s
  proof -
    have "(ucast (ucast u :: u16) :: u32) = u" using n [of u] that by (simp add: word_unat_eq_iff)
    then show ?thesis using u16.get_bytes [of "ucast u" s] n [of u] that by (simp add: CBS_get_ucs2_be_def get_bind_def)
  qed
qed

interpretation utf32_chars: byte_codec CBB_add_utf32_be "\<lambda>u. nat_to_be 4 (unat u)" is_valid_code_point CBS_get_utf32_be
proof unfold_locales
  show "appends d (nat_to_be 4 (unat u)) st st'" if "cbb_ok st" "CBB_add_utf32_be H u d st = (True, st')" for H u d st st'
    using that u32.add_appends [of st H u d st'] by (simp add: CBB_add_utf32_be_def split: if_splits)
  show "CBS_get_utf32_be (nat_to_be 4 (unat u) @ s) = (Some u, s)" if "is_valid_code_point u" for u s
    using that u32.get_bytes [of u s] by (simp add: CBS_get_utf32_be_def get_bind_def)
qed

section \<open>Properties\<close>

text \<open>
  C18: The UTF-8 reader is exact: \<open>CBS_get_utf8\<close> returns a code point if and only if it is valid
  and the input starts with its UTF-8 encoding, which it consumes. So overlong forms, surrogates,
  noncharacters, numbers above \<open>0x10ffff\<close>, stray or missing continuation bytes are all refused, and
  \<open>CBB_get_utf8_len\<close> is the number of bytes.\<close>
theorem utf8_exact:
  "(CBS_get_utf8 s = (Some v, s') \<longleftrightarrow> is_valid_code_point v \<and> s = utf8 (unat v) @ s') \<and>
   CBB_get_utf8_len v = length (utf8 (unat v))"
proof -
  have "CBB_get_utf8_len v = length (utf8 (unat v))"
    by (auto simp: CBB_get_utf8_len_def utf8_def word_le_nat_alt)
  then show ?thesis using CBS_get_utf8_sound CBS_get_utf8_complete by blast
qed

text \<open>
  C19: Characters survive the way through a builder and a reader in all four encodings: a program
  that adds a sequence of valid code points (below 256 in Latin-1, below \<open>2 ^ 16\<close> in UCS-2) to a buffer
  reads the same sequence from it.\<close>
theorem characters_roundtrip:
  assumes "cap < SIZE_MOD" "list_all is_valid_code_point us"
  shows "(builds H cap CBB_add_utf8 us out \<longrightarrow> get_all CBS_get_utf8 (length us) out = (Some us, [])) \<and>
    (builds H cap CBB_add_utf32_be us out \<longrightarrow> get_all CBS_get_utf32_be (length us) out = (Some us, [])) \<and>
    (builds H cap CBB_add_ucs2_be us out \<and> list_all (\<lambda>u. unat u < 65536) us \<longrightarrow>
      get_all CBS_get_ucs2_be (length us) out = (Some us, [])) \<and>
    (builds H cap CBB_add_latin1 us out \<and> list_all (\<lambda>u. unat u < 256) us \<longrightarrow>
      get_all CBS_get_latin1 (length us) out = (Some us, []))"
  using utf8_chars.build_and_read [OF assms] utf32_chars.build_and_read [OF assms]
    ucs2_chars.build_and_read [OF assms(1), of us] latin1_chars.build_and_read [OF assms(1), of us] assms(2)
  by (intro conjI impI; (elim conjE)?; simp add: list_all_iff)

theorem characters_roundtrip_witness:
  "builds heap_std 3 CBB_add_utf8 [0x41] [0x41] \<and> get_all CBS_get_utf8 1 [0x41] = (Some [0x41], [])"
proof -
  have i: "CBB_init heap_std 3 = (True, buf3 [0xaa, 0xaa, 0xaa] 0 [])"
    by (simp add: CBB_init_def cbb_init_def heap_std_def upt_rec)
  have v: "is_valid_code_point 0x41" by (rule valid_ascii) simp
  have f: "CBB_flush heap_std 0 (buf3 [0x41, 0xaa, 0xaa] (Suc 0) []) = (True, buf3 [0x41, 0xaa, 0xaa] (Suc 0) [])"
    by (simp add: CBB_flush.simps)
  have a: "CBB_add_utf8 heap_std 0x41 0 (buf3 [0xaa, 0xaa, 0xaa] 0 []) = (True, buf3 [0x41, 0xaa, 0xaa] (Suc 0) [])"
    using buf3_add_u8(1) [of "[]" 0 "0x41" "0xaa" "0xaa" "0xaa"] v by (simp add: CBB_add_utf8_def word_le_nat_alt)
  have "builds heap_std 3 CBB_add_utf8 [0x41] [0x41]"
    by (simp add: builds_def i a f CBB_finish_def)
  moreover from this have "get_all CBS_get_utf8 1 [0x41] = (Some [0x41], [])"
    using characters_roundtrip [of 3 "[0x41]" heap_std "[0x41]"] v by simp
  ultimately show ?thesis ..
qed

end
