(* ===== verification/BS_Cbb_Total.thy ===== *)
theory BS_Cbb_Total
  imports BS_Cbb_Thms
begin

text \<open>
  Builders that have room: with an allocator that does not fail and a buffer that may grow, a call
  that appends bytes succeeds as long as the sizes stay below the address space. An operation
  \<open>emits\<close> bytes if, on a flushed handle with room for them, it returns one, has appended exactly
  these bytes, and leaves the room that was not used.
\<close>

definition emits :: "allocator \<Rightarrow> nat \<Rightarrow> u8 list \<Rightarrow> (cbb \<Rightarrow> bool \<times> cbb) \<Rightarrow> bool" where
  "emits H d x f \<longleftrightarrow>
     (\<forall>n st. ready d st \<and> roomy H (n + length x) (cb_base st) \<longrightarrow>
        (\<exists>st'. f st = (True, st') \<and> appends d x st st' \<and> roomy H n (cb_base st')))"

lemma emitsE:
  assumes "emits H d x f" "ready d st" "roomy H (n + length x) (cb_base st)"
  obtains st' where "f st = (True, st')" "appends d x st st'" "roomy H n (cb_base st')"
  using assms unfolding emits_def by blast

lemma emits_Nil: "emits H d [] (Pair True)"
  by (auto simp: emits_def intro: ready_appends)

lemma emits_then:
  assumes "emits H d x f" "emits H d y g"
  shows "emits H d (x @ y) (\<lambda>st. and_then (f st) g)"
  unfolding emits_def
proof (intro allI impI)
  fix n st
  assume a: "ready d st \<and> roomy H (n + length (x @ y)) (cb_base st)"
  then have "roomy H ((n + length y) + length x) (cb_base st)" by (simp add: add.commute add.left_commute)
  with assms(1) a obtain st1 where 1: "f st = (True, st1)" "appends d x st st1" "roomy H (n + length y) (cb_base st1)"
    by (blast elim: emitsE)
  obtain st2 where 2: "g st1 = (True, st2)" "appends d y st1 st2" "roomy H n (cb_base st2)"
    using assms(2) appends_ready [OF 1(2)] 1(3) by (rule emitsE)
  show "\<exists>st'. and_then (f st) g = (True, st') \<and> appends d (x @ y) st st' \<and> roomy H n (cb_base st')"
    using 1 2 appends_trans by auto
qed

lemma emits_Cons: "emits H d [b] f \<Longrightarrow> emits H d y g \<Longrightarrow> emits H d (b # y) (\<lambda>st. and_then (f st) g)"
  using emits_then [of H d "[b]" f y g] by simp

lemma buffer_add_room:
  assumes "buf_ok b" "roomy H (n + k) b"
  obtains b' where "cbb_buffer_add H k b = (True, b')" "bf_len b' = bf_len b + k" "bf_can_resize b'"
proof -
  obtain b' where a: "cbb_buffer_add H k b = (True, b')"
    using buffer_add_total [OF assms(2), of k] by (cases "cbb_buffer_add H k b") auto
  moreover have "k < SIZE_MOD" using assms(2) by (simp add: roomy_def)
  ultimately show ?thesis
    using buffer_add_ok [OF assms(1) _ a] assms(2) that by (auto simp: grown_def roomy_def)
qed

lemma add_space_room:
  assumes "ready d st" "roomy H (n + k) (cb_base st)"
  obtains st' where "CBB_add_space H k d st = (True, st')" "roomy H n (cb_base st')"
proof -
  have "buf_ok (cb_base st)" using assms(1) by (simp add: ready_def cbb_ok_def)
  then obtain b' where "cbb_buffer_add H k (cb_base st) = (True, b')" "bf_len b' = bf_len (cb_base st) + k" "bf_can_resize b'"
    using assms(2) by (rule buffer_add_room)
  then show ?thesis
    using that [of "st\<lparr>cb_base := b'\<rparr>"] assms by (auto simp: CBB_add_space_def ready_flush roomy_def)
qed

lemma emits_bytes: "emits H d data (CBB_add_bytes H data d)"
  unfolding emits_def
proof (intro allI impI)
  fix n st
  assume a: "ready d st \<and> roomy H (n + length data) (cb_base st)"
  then obtain st1 where s: "CBB_add_space H (length data) d st = (True, st1)" "roomy H n (cb_base st1)"
    by (blast elim: add_space_room)
  let ?st = "fill_space (length data) data st1"
  have r: "CBB_add_bytes H data d st = (True, ?st)" using s by (simp add: CBB_add_bytes_def)
  moreover have "appends d data st ?st"
    using CBB_add_bytes_appends [OF _ _ r] a by (simp add: ready_def roomy_def)
  moreover have "roomy H n (cb_base ?st)" using s(2) by (simp add: fill_space_def roomy_def)
  ultimately show "\<exists>st'. CBB_add_bytes H data d st = (True, st') \<and> appends d data st st' \<and> roomy H n (cb_base st')"
    by blast
qed

lemma emits_u8: "emits H d [b] (CBB_add_u8 H b d)"
  unfolding emits_def
proof (intro allI impI)
  fix n st
  assume a: "ready d st \<and> roomy H (n + length [b]) (cb_base st)"
  then obtain st1 where s: "CBB_add_space H 1 d st = (True, st1)" "roomy H n (cb_base st1)"
    using add_space_room [of d st H n 1] by (metis One_nat_def length_Cons list.size(3))
  let ?st = "st1\<lparr>cb_base := (cb_base st1)\<lparr>bf_buf := (bf_buf (cb_base st1))[bf_len (cb_base st1) - Suc 0 := b]\<rparr>\<rparr>"
  have "cbb_ok st" using a by (simp add: ready_def)
  from add_space_fill(1,2) [OF this _ s(1)] have "bf_len (cb_base st1) - Suc 0 < length (bf_buf (cb_base st1))" by simp
  then have r: "CBB_add_u8 H b d st = (True, ?st)"
    using s by (simp add: CBB_add_u8_def cbb_add_u_def Let_def)
  moreover have "appends d [b] st ?st" using CBB_add_u8_appends [OF _ r] a by (simp add: ready_def)
  moreover have "roomy H n (cb_base ?st)" using s(2) by (simp add: roomy_def)
  ultimately show "\<exists>st'. CBB_add_u8 H b d st = (True, st') \<and> appends d [b] st st' \<and> roomy H n (cb_base st')"
    by blast
qed

lemma emits_base128_loop: "emits H d (map (base128_byte v) (rev [0..<n])) (add_base128_loop H v n d)"
proof (induction n)
  case 0
  have "add_base128_loop H v 0 d = Pair True" by (rule ext) simp
  then show ?case using emits_Nil by simp
next
  case (Suc n)
  have "add_base128_loop H v (Suc n) d =
      (\<lambda>st. and_then (CBB_add_u8 H (base128_byte v n) d st) (add_base128_loop H v n d))"
    unfolding base128_byte_code [symmetric] by (rule ext) (simp add: Let_def)
  then show ?case using emits_Cons [OF emits_u8 Suc] by simp
qed

lemma emits_base128: "emits H d (base128 (unat v)) (add_base128_integer H v d)"
  using emits_base128_loop [of H d v "if base128_len v = 0 then 1 else base128_len v"]
  unfolding base128_bytes by (simp add: add_base128_integer_def [abs_def] Let_def)

section \<open>The room that is left\<close>

text \<open>The bytes of a builder: those of its frames and of their prefixes.\<close>

definition weight :: "u8 list \<times> frame list \<Rightarrow> nat" where
  "weight z = length (fst z) + sum_list (map (\<lambda>(p, a, b). p + length b) (snd z))"

lemma weight_append: "weight (spec_append x z) = weight z + length x"
  by (induction x z rule: spec_append.induct) (auto simp: weight_def split: prod.splits)

lemma weight_absf: "chain_ok start cs (length bs) \<Longrightarrow> weight (absf bs start cs) = length bs - start"
proof (induction bs start cs rule: absf.induct)
  case (2 bs start c cs)
  have "ch_offset c + ch_pending_len_len c \<le> length bs"
    using 2(2) chain_ok_start [of "ch_offset c + ch_pending_len_len c" cs "length bs"] by simp
  then show ?case using 2 by (auto simp: weight_def split: prod.splits)
qed (simp add: weight_def)

lemma weight_cbb: "cbb_ok st \<Longrightarrow> weight (cbb_abs st) = bf_len (cb_base st)"
  using weight_absf [of 0 "cb_chain st" "used (cb_base st)"] by (simp add: cbb_ok_def cbb_abs_def)

lemma appends_length:
  assumes "ready d st" "appends d x st st'"
  shows "bf_len (cb_base st') = bf_len (cb_base st) + length x"
proof -
  have "cbb_abs st' = spec_append x (cbb_abs st)"
    using assms spec_flush_self [of st d] by (simp add: ready_def appends_def)
  then show ?thesis
    using weight_append [of x "cbb_abs st"] weight_cbb [of st] weight_cbb [of st'] assms by (simp add: ready_def appends_def)
qed

lemma appends_room: "ready d st \<Longrightarrow> appends d x st st' \<Longrightarrow> roomy H (n + length x) (cb_base st) \<Longrightarrow> roomy H n (cb_base st')"
  using appends_length [of d st x st'] unfolding roomy_def by (auto simp: appends_def same_kind_def)

lemma emits_tag:
  assumes "asn1_env_ok E"
  shows "emits H d (der_tag tag) (\<lambda>st.
    let tag_bits = ucast (drop_bit (TAG_SHIFT E) tag) AND 0xe0 :: u8; tag_number = tag AND TAG_NUMBER_MASK E in
    if 0x1f \<le> tag_number then and_then (CBB_add_u8 H (tag_bits OR 0x1f) d st) (add_base128_integer H (ucast tag_number) d)
    else CBB_add_u8 H (tag_bits OR ucast tag_number) d st)"
proof -
  define c n where "c = (ucast (drop_bit 24 tag) AND 0xe0 :: u8)" and "n = tag AND 0x1fffffff"
  note parts = tag_parts [of tag, folded c_def n_def]
  have e: "TAG_SHIFT E = 24" "TAG_NUMBER_MASK E = 0x1fffffff" using assms by (simp_all add: asn1_env_ok_def)
  show ?thesis
  proof (cases "unat n < 31")
    case True
    then have "\<not> 0x1f \<le> n" by (simp add: word_le_nat_alt)
    then show ?thesis using emits_u8 [of H d "c OR ucast n"] parts(1,4) True
      unfolding e c_def [symmetric] n_def [symmetric] Let_def by (simp add: der_tag_def Let_def)
  next
    case False
    then have "0x1f \<le> n" by (simp add: word_le_nat_alt)
    then show ?thesis using emits_Cons [OF emits_u8 [of H d "c OR 0x1f"] emits_base128 [of H d "ucast n"]] parts(1,3) False
      unfolding e c_def [symmetric] n_def [symmetric] Let_def by (simp add: der_tag_def Let_def)
  qed
qed

lemma CBB_add_asn1_room:
  assumes E: "asn1_env_ok E" and st: "ready d st" "roomy H (n + length (der_tag t) + 1) (cb_base st)"
  obtains st1 where "CBB_add_asn1 H E t d st = (True, st1)" "roomy H n (cb_base st1)"
proof -
  have "roomy H (n + 1 + length (der_tag t)) (cb_base st)" using st(2) by (simp add: add.commute add.left_commute)
  from emitsE [OF emits_tag [OF E] st(1) this] obtain st2 where 2: "appends d (der_tag t) st st2" "roomy H (n + 1) (cb_base st2)"
    "(let tag_bits = ucast (drop_bit (TAG_SHIFT E) t) AND 0xe0 :: u8; tag_number = t AND TAG_NUMBER_MASK E in
      if 0x1f \<le> tag_number then and_then (CBB_add_u8 H (tag_bits OR 0x1f) d st) (add_base128_integer H (ucast tag_number) d)
      else CBB_add_u8 H (tag_bits OR ucast tag_number) d st) = (True, st2)" .
  have "buf_ok (cb_base st2)" using 2(1) by (simp add: appends_def cbb_ok_def)
  then obtain b where "cbb_buffer_add H 1 (cb_base st2) = (True, b)" "bf_len b = bf_len (cb_base st2) + 1" "bf_can_resize b"
    using 2(2) by (rule buffer_add_room)
  then obtain st1 where "cbb_add_child H 1 True d st2 = (True, st1)" "roomy H n (cb_base st1)"
    using 2(2) by (simp add: cbb_add_child_def Let_def roomy_def)
  moreover from this have "CBB_add_asn1 H E t d st = (True, st1)"
    using 2(3) unfolding CBB_add_asn1_def ready_flush [OF st(1)] by (simp add: Let_def)
  ultimately show thesis by (intro that)
qed

lemma close_room:
  assumes "appends (Suc d) c st1 st2" "opens d x 1 True st st1" "length c \<le> 0xfffffffe" "roomy H 4 (cb_base st2)"
  obtains st3 where "CBB_flush H d st2 = (True, st3)"
proof -
  have st2: "ready (Suc d) st2" using assms(1) by (rule appends_ready)
  obtain z where z: "length (snd z) = d" "cbb_abs st1 = spec_push 1 True z"
    using assms(2) unfolding opens_def by (metis spec_append_frames)
  have "cbb_abs st2 = spec_append c (cbb_abs st1)"
    using assms(1,2) spec_flush_self [of st1 "Suc d"] by (simp add: appends_def opens_def ready_def)
  then have "spec_flush d (cbb_abs st2) \<noteq> None"
    using spec_flush_child [of z c 1 True] z assms(3) by (simp add: prefixed_def)
  then have "fst (CBB_flush H d st2)"
    using CBB_flush_total [of st2 d H] st2 assms(4) by (simp add: ready_def)
  then show thesis using that by (cases "CBB_flush H d st2") auto
qed

end
