(* ===== verification/BS_Oid.thy ===== *)
theory BS_Oid
  imports BS_Cbb_Total
begin

text \<open>
  Object identifiers as text: the functions of \<open>bytestring/cbs.c\<close> and \<open>bytestring/cbb.c\<close> that convert
  between the DER contents of an OBJECT IDENTIFIER and its dotted decimal form, the decimal numbers
  they are made of, and the proof that the two conversions are exact and inverse to each other.
\<close>

section \<open>Definitions\<close>

text \<open>The characters that \<open>snprintf\<close> makes of an unsigned number with the format \<open>%u\<close>.\<close>

fun decimal :: "nat \<Rightarrow> u8 list" where
  "decimal n = (if n < 10 then [byte_of (48 + n)] else decimal (n div 10) @ [byte_of (48 + n mod 10)])"

declare decimal.simps [simp del]

definition add_decimal :: "allocator \<Rightarrow> u64 \<Rightarrow> nat \<Rightarrow> cbb \<Rightarrow> bool \<times> cbb" where
  "add_decimal H v d st = CBB_add_bytes H (decimal (unat v)) d st"

lemma parse_base128_length: "parse_base128_integer s = (Some v, s') \<Longrightarrow> length s' < length s"
  unfolding parse_base128_iff by simp

text \<open>The loop over the components after the first two.\<close>

function oid_to_text_loop :: "allocator \<Rightarrow> cbs \<Rightarrow> cbb \<Rightarrow> bool \<times> cbb" where
  "oid_to_text_loop H copy st =
     (if length copy = 0 then (True, st)
      else case parse_base128_integer copy of
             (None, _) \<Rightarrow> (False, st)
           | (Some v, copy) \<Rightarrow>
               and_then (CBB_add_u8 H 46 0 st) (\<lambda>st.
               and_then (add_decimal H v 0 st) (oid_to_text_loop H copy)))"
  by pat_completeness auto
termination
  by (relation "measure (\<lambda>(H, s, st). length s)") (auto dest: parse_base128_length [OF sym])

declare oid_to_text_loop.simps [simp del]

text \<open>The result is the text with its terminating zero, or \<open>None\<close> for the null pointer.\<close>

definition CBS_asn1_oid_to_text :: "allocator \<Rightarrow> cbs \<Rightarrow> u8 list option" where
  "CBS_asn1_oid_to_text H cbs =
     (case CBB_init H 32 of
        (False, st) \<Rightarrow> None
      | (True, st) \<Rightarrow>
          (case parse_base128_integer cbs of
             (None, _) \<Rightarrow> None
           | (Some v, copy) \<Rightarrow>
               (case
                  and_then
                    (if 80 \<le> v then and_then (CBB_add_bytes H [50, 46] 0 st) (add_decimal H (v - 80) 0)
                     else and_then (add_decimal H (v div 40) 0 st) (\<lambda>st.
                          and_then (CBB_add_u8 H 46 0 st) (add_decimal H (v mod 40) 0)))
                    (\<lambda>st. and_then (oid_to_text_loop H copy st) (CBB_add_u8 H 0 0)) of
                  (False, _) \<Rightarrow> None
                | (True, st) \<Rightarrow> fst (CBB_finish H True 0 st))))"

definition parse_dotted_decimal :: "asn1_env \<Rightarrow> cbs \<Rightarrow> u64 option \<times> cbs" where
  "parse_dotted_decimal E s =
     get_bind (CBS_get_u64_decimal E s) (\<lambda>v s.
       case CBS_get_u8 s of
         (None, s) \<Rightarrow> (Some v, s)
       | (Some dot, s) \<Rightarrow> if dot = 46 \<and> 0 < length s then (Some v, s) else (None, s))"

lemma u64_decimal_loop_length:
  "u64_decimal_loop E v seen s = (r, s') \<Longrightarrow>
     length s' \<le> length s \<and> (r \<noteq> None \<and> \<not> seen \<longrightarrow> length s' < length s)"
proof (induction E v seen s rule: u64_decimal_loop.induct)
  case (2 E v seen c s)
  then show ?case by (auto simp del: not_None_eq split: if_splits)
qed auto

lemma parse_dotted_decimal_length: "parse_dotted_decimal E s = (Some v, s') \<Longrightarrow> length s' < length s"
proof -
  assume a: "parse_dotted_decimal E s = (Some v, s')"
  obtain r s1 where d: "CBS_get_u64_decimal E s = (r, s1)" by fastforce
  have l: "r \<noteq> None \<longrightarrow> length s1 < length s"
    using d u64_decimal_loop_length unfolding CBS_get_u64_decimal_def by blast
  show ?thesis using a d l by (cases s1) (auto simp: parse_dotted_decimal_def get_bind_def split: option.splits if_splits)
qed

function oid_from_text_loop :: "allocator \<Rightarrow> asn1_env \<Rightarrow> cbs \<Rightarrow> nat \<Rightarrow> cbb \<Rightarrow> bool \<times> cbb" where
  "oid_from_text_loop H E cbs d st =
     (if length cbs = 0 then (True, st)
      else case parse_dotted_decimal E cbs of
             (None, _) \<Rightarrow> (False, st)
           | (Some a, cbs) \<Rightarrow> and_then (add_base128_integer H a d st) (oid_from_text_loop H E cbs d))"
  by pat_completeness auto
termination
  by (relation "measure (\<lambda>(H, E, s, d, st). length s)") (auto dest: parse_dotted_decimal_length [OF sym])

declare oid_from_text_loop.simps [simp del]

definition CBB_add_asn1_oid_from_text :: "allocator \<Rightarrow> asn1_env \<Rightarrow> u8 list \<Rightarrow> nat \<Rightarrow> cbb \<Rightarrow> bool \<times> cbb" where
  "CBB_add_asn1_oid_from_text H E text d st =
     and_then (CBB_flush H d st) (\<lambda>st.
       case parse_dotted_decimal E text of
         (None, _) \<Rightarrow> (False, st)
       | (Some a, cbs) \<Rightarrow>
           (case parse_dotted_decimal E cbs of
              (None, _) \<Rightarrow> (False, st)
            | (Some b, cbs) \<Rightarrow>
                if a > 2 \<or> a < 2 \<and> b > 39 \<or> b > (- 1) - 80 then (False, st)
                else and_then (add_base128_integer H (40 * a + b) d st) (oid_from_text_loop H E cbs d)))"

section \<open>Decimal numbers\<close>

lemma unat_of_nat_u64: "n < 2 ^ 64 \<Longrightarrow> unat (word_of_nat n :: u64) = n"
  by (simp add: unsigned_of_nat take_bit_nat_eq_self)

lemma unat_u64_less: "unat (w :: u64) < 2 ^ 64"
  using unsigned_less [of w] by simp

definition is_dec :: "u8 \<Rightarrow> bool" where
  "is_dec c \<longleftrightarrow> 48 \<le> unat c \<and> unat c \<le> 57"

definition dec_step :: "nat \<Rightarrow> u8 \<Rightarrow> nat" where
  "dec_step n c = n * 10 + (unat c - 48)"

lemma dec_env: "asn1_env_ok E \<Longrightarrow> isdigit E c \<longleftrightarrow> is_dec c"
  by (simp add: asn1_env_ok_def is_dec_def word_le_nat_alt)

lemma byte_of_digit: "is_dec c \<Longrightarrow> byte_of (48 + (unat c - 48)) = c"
  by (simp add: is_dec_def)

lemma decimal_snoc: "0 < n \<Longrightarrow> is_dec c \<Longrightarrow> decimal (dec_step n c) = decimal n @ [c]"
proof -
  assume n: "0 < n" and c: "is_dec c"
  define k where "k = unat c - 48"
  have k: "k < 10" "byte_of (48 + k) = c" using c byte_of_digit [OF c] by (auto simp: is_dec_def k_def)
  have "(n * 10 + k) div 10 = n" "(n * 10 + k) mod 10 = k" "\<not> n * 10 + k < 10" using k(1) n by simp_all
  then have "decimal (n * 10 + k) = decimal n @ [byte_of (48 + k)]" by (subst decimal.simps) (simp only: if_False)
  then show ?thesis by (simp only: dec_step_def k(2) flip: k_def)
qed

lemma decimal_append: "0 < n \<Longrightarrow> list_all is_dec ds \<Longrightarrow> decimal n @ ds = decimal (foldl dec_step n ds)"
proof (induction ds arbitrary: n)
  case (Cons c ds)
  then have e: "decimal n @ c # ds = decimal (dec_step n c) @ ds" by (simp add: decimal_snoc)
  have "0 < dec_step n c" using Cons.prems(1) by (simp add: dec_step_def)
  from Cons.IH [OF this] Cons.prems(2) show ?case unfolding e by simp
qed simp

lemma decimal_digit: "n < 10 \<Longrightarrow> decimal n = [byte_of (48 + n)]"
  by (simp add: decimal.simps)

lemma unat_dec: "n < 10 \<Longrightarrow> unat (byte_of (48 + n)) = 48 + n"
  by (simp only: unat_byte_of mod_less)

text \<open>A decimal number starts with a digit other than zero, or is the digit zero.\<close>

lemma decimal_first:
  "\<exists>c ds. decimal n = c # ds \<and> is_dec c \<and> list_all is_dec ds \<and> (if n = 0 then c = 48 \<and> ds = [] else c \<noteq> 48) \<and>
     foldl dec_step 0 (c # ds) = n"
proof (induction n rule: decimal.induct)
  case (1 n)
  have m: "n mod 10 < 10" by simp
  show ?case
  proof (cases "n < 10")
    case True
    then have "unat (byte_of (48 + n)) = 48 + n" by (rule unat_dec)
    then show ?thesis using True
      by (intro exI [of _ "byte_of (48 + n)"] exI [of _ "[]"])
         (auto simp: decimal_digit is_dec_def dec_step_def byte_eq_iff simp del: unat_byte_of)
  next
    case False
    then obtain c ds where IH: "decimal (n div 10) = c # ds" "is_dec c" "list_all is_dec ds" "c \<noteq> 48"
      "foldl dec_step 0 (c # ds) = n div 10" using 1 by force
    have d: "is_dec (byte_of (48 + n mod 10))" "dec_step (n div 10) (byte_of (48 + n mod 10)) = n"
      using unat_dec [OF m] m by (simp_all add: is_dec_def dec_step_def del: unat_byte_of)
    have "decimal n = c # (ds @ [byte_of (48 + n mod 10)])" using False IH(1) by (simp add: decimal.simps [of n])
    moreover have "foldl dec_step 0 (c # (ds @ [byte_of (48 + n mod 10)])) = n" using IH(5) d(2) by simp
    ultimately show ?thesis using IH d False by auto
  qed
qed

lemma decimal_inject [simp]: "decimal m = decimal n \<longleftrightarrow> m = n"
proof
  assume "decimal m = decimal n"
  moreover obtain c ds where "decimal m = c # ds" "foldl dec_step 0 (c # ds) = m" using decimal_first by blast
  moreover obtain c' ds' where "decimal n = c' # ds'" "foldl dec_step 0 (c' # ds') = n" using decimal_first by blast
  ultimately show "m = n" by simp
qed simp

lemma foldl_dec_ge: "n \<le> foldl dec_step n ds"
proof (induction ds arbitrary: n)
  case (Cons c ds)
  have "n \<le> dec_step n c" by (simp add: dec_step_def)
  also have "\<dots> \<le> foldl dec_step (dec_step n c) ds" by (rule Cons)
  finally show ?case by simp
qed simp

text \<open>One step of the loop on 64-bit words is a step on numbers, or is refused.\<close>

lemma dec_step_word:
  fixes v :: u64
  assumes "is_dec c"
  shows "v > (- 1) div 10 \<or> v * 10 > (- 1) - (ucast c - 48) \<longleftrightarrow> 2 ^ 64 \<le> dec_step (unat v) c"
    and "dec_step (unat v) c < 2 ^ 64 \<Longrightarrow> unat (v * 10 + (ucast c - 48)) = dec_step (unat v) c"
proof -
  define k where "k = unat c - 48"
  have k: "unat (ucast c - 48 :: u64) = k" "k < 10"
  proof -
    have "(48 :: u64) \<le> ucast c" using assms by (simp add: word_le_nat_alt is_dec_def)
    then show "unat (ucast c - 48 :: u64) = k" by (simp add: unat_sub_if' word_le_nat_alt k_def)
    show "k < 10" using assms by (auto simp: is_dec_def k_def)
  qed
  have s: "dec_step (unat v) c = unat v * 10 + k" by (simp add: dec_step_def k_def)
  have m1: "unat (- 1 :: u64) = 2 ^ 64 - 1" by (simp add: unsigned_minus_1_eq_mask mask_eq_exp_minus_1)
  then have d: "unat ((- 1 :: u64) div 10) = (2 ^ 64 - 1) div 10" by (simp add: unat_div_distrib)
  have sub: "unat ((- 1) - (ucast c - 48) :: u64) = 2 ^ 64 - 1 - k"
  proof -
    define y where "y = (ucast c - 48 :: u64)"
    have "unat y = k" using k(1) by (simp add: y_def)
    then show ?thesis using k(2) m1 unfolding y_def [symmetric] by (simp add: unat_sub_if')
  qed
  have mul: "unat (v * 10) = unat v * 10" if "unat v \<le> (2 ^ 64 - 1) div 10"
    using that by (simp add: unat_word_ariths)
  show "v > (- 1) div 10 \<or> v * 10 > (- 1) - (ucast c - 48) \<longleftrightarrow> 2 ^ 64 \<le> dec_step (unat v) c"
  proof (cases "unat v \<le> (2 ^ 64 - 1) div 10")
    case True
    then show ?thesis using k(2) unfolding word_less_nat_alt d sub mul [OF True] s by simp linarith
  next
    case False
    then show ?thesis unfolding word_less_nat_alt d s by simp
  qed
  assume lt: "dec_step (unat v) c < 2 ^ 64"
  then have "unat v \<le> (2 ^ 64 - 1) div 10" using s by simp
  with lt show "unat (v * 10 + (ucast c - 48)) = dec_step (unat v) c"
    using k mul unfolding s by (simp add: unat_word_ariths(1) [of "v * 10"])
qed

definition dec_stop :: "cbs \<Rightarrow> bool" where
  "dec_stop s \<longleftrightarrow> s = [] \<or> \<not> is_dec (hd s)"

lemma dec_loop_iff:
  assumes E: "asn1_env_ok E"
  shows "v \<noteq> 0 \<Longrightarrow> u64_decimal_loop E v True s = (Some w, s') \<longleftrightarrow>
     (\<exists>ds. s = ds @ s' \<and> list_all is_dec ds \<and> dec_stop s' \<and> unat w = foldl dec_step (unat v) ds)"
proof (induction s arbitrary: v)
  case Nil
  then show ?case by (auto simp: dec_stop_def word_unat_eq_iff)
next
  case (Cons c s)
  let ?R = "\<exists>ds. c # s = ds @ s' \<and> list_all is_dec ds \<and> dec_stop s' \<and> unat w = foldl dec_step (unat v) ds"
  show ?case
  proof (cases "is_dec c")
    case False
    have "?R \<longleftrightarrow> c # s = s' \<and> w = v"
    proof
      assume ?R
      then obtain ds where "c # s = ds @ s'" "list_all is_dec ds" "unat w = foldl dec_step (unat v) ds" by blast
      with False show "c # s = s' \<and> w = v" by (cases ds) (auto dest!: word_unat_eq_iff [THEN iffD2])
    qed (use False in \<open>auto simp: dec_stop_def intro!: exI [of _ "[]"]\<close>)
    then show ?thesis using False dec_env [OF E] by auto
  next
    case True
    have R: "?R \<longleftrightarrow> (\<exists>ds. s = ds @ s' \<and> list_all is_dec ds \<and> dec_stop s' \<and> unat w = foldl dec_step (dec_step (unat v) c) ds)"
    proof
      assume ?R
      then obtain ds where ds: "c # s = ds @ s'" "list_all is_dec ds" "dec_stop s'" "unat w = foldl dec_step (unat v) ds" by blast
      then obtain es where "ds = c # es" using True by (cases ds) (auto simp: dec_stop_def)
      with ds show "\<exists>ds. s = ds @ s' \<and> list_all is_dec ds \<and> dec_stop s' \<and> unat w = foldl dec_step (dec_step (unat v) c) ds" by auto
    next
      assume "\<exists>ds. s = ds @ s' \<and> list_all is_dec ds \<and> dec_stop s' \<and> unat w = foldl dec_step (dec_step (unat v) c) ds"
      then obtain ds where "s = ds @ s'" "list_all is_dec ds" "dec_stop s'" "unat w = foldl dec_step (dec_step (unat v) c) ds" by blast
      then show ?R using True by (intro exI [of _ "c # ds"]) simp
    qed
    note w = dec_step_word [OF True, of v]
    show ?thesis
    proof (cases "2 ^ 64 \<le> dec_step (unat v) c")
      case big: True
      have "unat w \<noteq> foldl dec_step (dec_step (unat v) c) ds" for ds
        using big foldl_dec_ge [of "dec_step (unat v) c" ds] unat_u64_less [of w] by auto
      then have "\<not> ?R" unfolding R by blast
      moreover have "u64_decimal_loop E v True (c # s) = (None, s)" using big w(1) True dec_env [OF E] by simp
      ultimately show ?thesis by simp
    next
      case False
      let ?v = "v * 10 + (ucast c - 48)"
      have v: "unat ?v = dec_step (unat v) c" using False w(2) by simp
      have "unat v \<noteq> 0" using Cons.prems by (simp add: unat_eq_zero)
      then have "unat ?v \<noteq> 0" unfolding v by (simp add: dec_step_def)
      then have "?v \<noteq> 0" by (metis unat_0)
      moreover have "u64_decimal_loop E v True (c # s) = u64_decimal_loop E ?v True s"
        using False w(1) True dec_env [OF E] Cons.prems by simp
      ultimately show ?thesis using Cons.IH [of ?v] R v by simp
    qed
  qed
qed

text \<open>\<open>CBS_get_u64_decimal\<close> reads the longest run of digits, which is the decimal form of the value.\<close>

lemma CBS_get_u64_decimal_iff:
  assumes E: "asn1_env_ok E"
  shows "CBS_get_u64_decimal E s = (Some w, s') \<longleftrightarrow> s = decimal (unat w) @ s' \<and> dec_stop s'"
proof (cases "s = [] \<or> \<not> is_dec (hd s)")
  case True
  then have "fst (CBS_get_u64_decimal E s) = None"
    using dec_env [OF E] by (cases s) (auto simp: CBS_get_u64_decimal_def)
  moreover obtain c ds where "decimal (unat w) = c # ds" "is_dec c" using decimal_first by blast
  ultimately show ?thesis using True by auto
next
  case False
  then obtain c t where s: "s = c # t" and c: "is_dec c" by (cases s) auto
  note w = dec_step_word [OF c, of 0]
  have "unat c - 48 \<le> 9" using c by (auto simp: is_dec_def)
  then have lt: "dec_step 0 c < 2 ^ 64" by (simp add: dec_step_def)
  define v :: u64 where "v = ucast c - 48"
  have v: "unat v = unat c - 48" using w(2) lt by (simp add: v_def dec_step_def)
  have loop: "CBS_get_u64_decimal E s = u64_decimal_loop E v True t"
    using w(1) lt c dec_env [OF E] by (simp add: CBS_get_u64_decimal_def s v_def)
  obtain f fs where f: "decimal (unat w) = f # fs" "list_all is_dec fs" "if unat w = 0 then f = 48 \<and> fs = [] else f \<noteq> 48"
    "foldl dec_step 0 (f # fs) = unat w" using decimal_first by blast
  show ?thesis
  proof (cases "c = 48")
    case True
    then have v0: "v = 0" using v by (simp add: unat_eq_zero)
    have "u64_decimal_loop E 0 True t = (if dec_stop t then (Some 0, t) else (None, tl t))"
      using dec_env [OF E] by (cases t) (auto simp: dec_stop_def)
    then have "CBS_get_u64_decimal E s = (Some w, s') \<longleftrightarrow> w = 0 \<and> t = s' \<and> dec_stop s'"
      using loop v0 by auto
    also have "\<dots> \<longleftrightarrow> s = decimal (unat w) @ s' \<and> dec_stop s'"
      using f True by (auto simp: s dest: unat_eq_zero [THEN iffD1] split: if_splits)
    finally show ?thesis .
  next
    case False
    then have "unat c \<noteq> 48" by (simp add: byte_eq_iff)
    then have v0: "v \<noteq> 0" "dec_step 0 c = unat v" "0 < unat v"
      using v c by (auto simp: is_dec_def dec_step_def simp flip: unat_eq_zero)
    have one: "decimal (unat v) = [c]" using decimal_digit [of "unat v"] c v byte_of_digit [OF c] by (auto simp: is_dec_def)
    have "CBS_get_u64_decimal E s = (Some w, s') \<longleftrightarrow>
        (\<exists>ds. t = ds @ s' \<and> list_all is_dec ds \<and> dec_stop s' \<and> unat w = foldl dec_step (unat v) ds)"
      unfolding loop by (rule dec_loop_iff [OF E v0(1)])
    also have "\<dots> \<longleftrightarrow> s = decimal (unat w) @ s' \<and> dec_stop s'"
    proof
      assume "\<exists>ds. t = ds @ s' \<and> list_all is_dec ds \<and> dec_stop s' \<and> unat w = foldl dec_step (unat v) ds"
      then obtain ds where ds: "t = ds @ s'" "list_all is_dec ds" "dec_stop s'" "unat w = foldl dec_step (unat v) ds" by blast
      then have "c # ds = decimal (unat w)" using decimal_append [OF v0(3), of ds] one by simp
      then show "s = decimal (unat w) @ s' \<and> dec_stop s'" using ds by (simp add: s flip: append_Cons)
    next
      assume a: "s = decimal (unat w) @ s' \<and> dec_stop s'"
      then show "\<exists>ds. t = ds @ s' \<and> list_all is_dec ds \<and> dec_stop s' \<and> unat w = foldl dec_step (unat v) ds"
        using f v0(2) by (intro exI [of _ fs]) (auto simp: s)
    qed
    finally show ?thesis .
  qed
qed

section \<open>Object identifiers\<close>

text \<open>
  An object identifier as the list of its components. The first two share the first number of the
  encoding; the text is the decimal numbers with dots between them.
\<close>

fun oid_bytes :: "nat list \<Rightarrow> u8 list" where
  "oid_bytes (a # b # cs) = base128 (40 * a + b) @ concat (map base128 cs)"
| "oid_bytes _ = []"

fun oid_text :: "nat list \<Rightarrow> u8 list" where
  "oid_text [] = []"
| "oid_text [n] = decimal n"
| "oid_text (n # ns) = decimal n @ 46 # oid_text ns"

fun valid_oid :: "nat list \<Rightarrow> bool" where
  "valid_oid (a # b # cs) \<longleftrightarrow> a \<le> 2 \<and> (a < 2 \<longrightarrow> b < 40) \<and> b < 2 ^ 64 - 80 \<and> list_all (\<lambda>c. c < 2 ^ 64) cs"
| "valid_oid _ \<longleftrightarrow> False"

abbreviation dots :: "nat list \<Rightarrow> u8 list" where
  "dots ns \<equiv> concat (map (\<lambda>n. 46 # decimal n) ns)"

lemma oid_text_dots: "oid_text (n # ns) = decimal n @ dots ns"
  by (induction ns arbitrary: n) simp_all

subsection \<open>Reading the text\<close>

lemma parse_dotted_iff:
  assumes E: "asn1_env_ok E"
  shows "parse_dotted_decimal E s = (Some v, s') \<longleftrightarrow>
     (if s' = [] then s = decimal (unat v) else s = decimal (unat v) @ 46 # s')"
proof -
  have dot: "dec_stop (46 # t)" "dec_stop []" for t by (simp_all add: dec_stop_def is_dec_def)
  have d: "CBS_get_u64_decimal E s = (Some v, t) \<longleftrightarrow> s = decimal (unat v) @ t \<and> dec_stop t" for t
    by (rule CBS_get_u64_decimal_iff [OF E])
  have "parse_dotted_decimal E s = (Some v, s') \<longleftrightarrow>
      (\<exists>t. CBS_get_u64_decimal E s = (Some v, t) \<and> (t = [] \<and> s' = [] \<or> t = 46 # s' \<and> s' \<noteq> []))"
    by (cases "CBS_get_u64_decimal E s"; cases "snd (CBS_get_u64_decimal E s)"; cases "fst (CBS_get_u64_decimal E s)")
       (auto simp: parse_dotted_decimal_def get_bind_def)
  then show ?thesis using d dot by auto
qed

lemma parse_dotted_text:
  assumes "asn1_env_ok E" "n < 2 ^ 64"
  shows "parse_dotted_decimal E (oid_text (n # ns)) = (Some (word_of_nat n), oid_text ns)"
proof -
  have u: "unat (word_of_nat n :: u64) = n" using assms(2) by (simp add: unat_of_nat_u64)
  have ne: "oid_text (m # ms) \<noteq> []" for m ms using decimal_first [of m] by (auto simp: oid_text_dots)
  show ?thesis unfolding parse_dotted_iff [OF assms(1)] u by (cases ns) (use ne in simp_all)
qed

text \<open>What is left after a component is the text of the other components.\<close>

lemma parse_dotted_rest:
  assumes "asn1_env_ok E" "parse_dotted_decimal E s = (Some v, oid_text ns)"
  shows "s = oid_text (unat v # ns)"
proof (cases ns)
  case (Cons m ms)
  then have "oid_text ns \<noteq> []" using decimal_first [of m] by (auto simp: oid_text_dots)
  then show ?thesis using assms(2) Cons unfolding parse_dotted_iff [OF assms(1)] by simp
qed (use assms in \<open>simp add: parse_dotted_iff\<close>)

lemma oid_text_Nil: "oid_text ns = [] \<longleftrightarrow> ns = []"
  using decimal_first by (cases ns) (auto simp: oid_text_dots, metis list.distinct(1))

lemma oid_from_text_loop_sound:
  "asn1_env_ok E \<Longrightarrow> ready d st \<Longrightarrow> oid_from_text_loop H E s d st = (True, st') \<Longrightarrow>
     \<exists>ns. s = oid_text ns \<and> list_all (\<lambda>c. c < 2 ^ 64) ns \<and> appends d (concat (map base128 ns)) st st'"
proof (induction H E s d st rule: oid_from_text_loop.induct)
  case (1 H E s d st)
  show ?case
  proof (cases s)
    case Nil
    then show ?thesis using 1(3,4) ready_appends by (intro exI [of _ "[]"]) (simp add: oid_from_text_loop.simps [of H E "[]"])
  next
    case (Cons c t)
    then have l: "length s \<noteq> 0" by simp
    obtain v s1 st1 where p: "parse_dotted_decimal E s = (Some v, s1)"
      and a: "add_base128_integer H v d st = (True, st1)" and r: "oid_from_text_loop H E s1 d st1 = (True, st')"
      using 1(4) l by (auto simp: oid_from_text_loop.simps [of H E s] split: option.splits prod.splits elim!: and_then_TrueE)
    have ap: "appends d (base128 (unat v)) st st1" using 1(3) a by (rule add_base128_integer_appends)
    obtain ns where ns: "s1 = oid_text ns" "list_all (\<lambda>c. c < 2 ^ 64) ns" "appends d (concat (map base128 ns)) st1 st'"
      using 1(1) [OF l p [symmetric] refl 1(2) appends_ready [OF ap] r] by blast
    have "s = oid_text (unat v # ns)" using parse_dotted_rest [OF 1(2)] p ns(1) by simp
    moreover have "appends d (concat (map base128 (unat v # ns))) st st'" using appends_trans [OF ap ns(3)] by simp
    moreover have "unat v < 2 ^ 64" using unsigned_less [of v] by simp
    ultimately show ?thesis using ns(2) by (intro exI [of _ "unat v # ns"]) simp
  qed
qed

lemma emits_oid_loop:
  assumes "asn1_env_ok E"
  shows "list_all (\<lambda>c. c < 2 ^ 64) ns \<Longrightarrow> emits H d (concat (map base128 ns)) (oid_from_text_loop H E (oid_text ns) d)"
proof (induction ns)
  case Nil
  have "oid_from_text_loop H E [] d = Pair True" by (rule ext) (simp add: oid_from_text_loop.simps)
  then show ?case using emits_Nil by simp
next
  case (Cons n ns)
  then have n: "n < 2 ^ 64" by simp
  have u: "unat (word_of_nat n :: u64) = n" using n by (simp add: unat_of_nat_u64)
  have "oid_from_text_loop H E (oid_text (n # ns)) d =
      (\<lambda>st. and_then (add_base128_integer H (word_of_nat n) d st) (oid_from_text_loop H E (oid_text ns) d))"
    by (rule ext) (simp add: oid_from_text_loop.simps [of H E "oid_text (n # ns)"] parse_dotted_text [OF assms n] oid_text_Nil)
  then show ?case using emits_then [OF emits_base128 [of H d "word_of_nat n"]] Cons u by simp
qed

text \<open>The sum of the first two components as the code forms it.\<close>

lemma oid_first_word:
  fixes a b :: u64
  shows "\<not> (a > 2 \<or> a < 2 \<and> b > 39 \<or> b > (- 1) - 80) \<longleftrightarrow>
     unat a \<le> 2 \<and> (unat a < 2 \<longrightarrow> unat b < 40) \<and> unat b < 2 ^ 64 - 80"
    and "unat a \<le> 2 \<Longrightarrow> unat b < 2 ^ 64 - 80 \<Longrightarrow> unat (40 * a + b) = 40 * unat a + unat b"
proof -
  have "unat ((- 1) - 80 :: u64) = 2 ^ 64 - 81" by simp
  then show "\<not> (a > 2 \<or> a < 2 \<and> b > 39 \<or> b > (- 1) - 80) \<longleftrightarrow>
     unat a \<le> 2 \<and> (unat a < 2 \<longrightarrow> unat b < 40) \<and> unat b < 2 ^ 64 - 80"
    unfolding word_less_nat_alt by auto
  assume "unat a \<le> 2" "unat b < 2 ^ 64 - 80"
  then show "unat (40 * a + b) = 40 * unat a + unat b" by (simp add: unat_word_ariths)
qed

lemma CBB_add_asn1_oid_from_text_sound:
  assumes "asn1_env_ok E" "cbb_ok st" "CBB_add_asn1_oid_from_text H E text d st = (True, st')"
  shows "\<exists>ns. valid_oid ns \<and> text = oid_text ns \<and> appends d (oid_bytes ns) st st'"
proof -
  obtain st1 a b s1 s2 st2 where f: "CBB_flush H d st = (True, st1)"
    and a: "parse_dotted_decimal E text = (Some a, s1)" and b: "parse_dotted_decimal E s1 = (Some b, s2)"
    and g: "\<not> (a > 2 \<or> a < 2 \<and> b > 39 \<or> b > (- 1) - 80)"
    and i: "add_base128_integer H (40 * a + b) d st1 = (True, st2)"
    and l: "oid_from_text_loop H E s2 d st2 = (True, st')"
    using assms(3) by (auto simp: CBB_add_asn1_oid_from_text_def split: option.splits prod.splits if_splits elim!: and_then_TrueE)
  note g = oid_first_word(1) [THEN iffD1, OF g]
  have u: "unat (40 * a + b) = 40 * unat a + unat b" using oid_first_word(2) g by blast
  have ap: "appends d [] st st1" using f assms(2) by (rule flushed_appends)
  have ap2: "appends d (base128 (40 * unat a + unat b)) st1 st2"
    using add_base128_integer_appends [OF appends_ready [OF ap] i] u by simp
  obtain ns where ns: "s2 = oid_text ns" "list_all (\<lambda>c. c < 2 ^ 64) ns" "appends d (concat (map base128 ns)) st2 st'"
    using oid_from_text_loop_sound [OF assms(1) appends_ready [OF ap2] l] by blast
  have "s1 = oid_text (unat b # ns)" using parse_dotted_rest [OF assms(1)] b ns(1) by blast
  then have "text = oid_text (unat a # unat b # ns)" using parse_dotted_rest [OF assms(1)] a by blast
  moreover have "appends d (oid_bytes (unat a # unat b # ns)) st st'"
    using appends_trans [OF ap appends_trans [OF ap2 ns(3)]] by simp
  moreover have "valid_oid (unat a # unat b # ns)" using g ns(2) by simp
  ultimately show ?thesis by blast
qed

lemma emits_oid:
  assumes "asn1_env_ok E" "valid_oid ns"
  shows "emits H d (oid_bytes ns) (CBB_add_asn1_oid_from_text H E (oid_text ns) d)"
proof -
  obtain a b cs where ns: "ns = a # b # cs" using assms(2) by (cases ns rule: oid_bytes.cases) auto
  define A B :: u64 where "A = word_of_nat a" and "B = word_of_nat b"
  have lt: "a < 2 ^ 64" "b < 2 ^ 64" using assms(2) ns by auto
  then have u: "unat A = a" "unat B = b" by (simp_all add: A_def B_def unat_of_nat_u64)
  have g: "\<not> (A > 2 \<or> A < 2 \<and> B > 39 \<or> B > (- 1) - 80)"
    unfolding oid_first_word(1) using assms(2) ns u by simp
  have s: "unat (40 * A + B) = 40 * a + b" using oid_first_word(2) [of A B] assms(2) ns u by simp
  let ?g = "\<lambda>st. and_then (add_base128_integer H (40 * A + B) d st) (oid_from_text_loop H E (oid_text cs) d)"
  have e: "emits H d (oid_bytes ns) ?g"
    using emits_then [OF emits_base128 [of H d "40 * A + B"] emits_oid_loop [OF assms(1), of cs]] assms(2) ns s by simp
  have p: "parse_dotted_decimal E (oid_text ns) = (Some A, oid_text (b # cs))"
    "parse_dotted_decimal E (oid_text (b # cs)) = (Some B, oid_text cs)"
    unfolding ns A_def B_def using parse_dotted_text [OF assms(1)] lt by blast+
  have "CBB_add_asn1_oid_from_text H E (oid_text ns) d st = ?g st" if "ready d st" for st
    unfolding CBB_add_asn1_oid_from_text_def ready_flush [OF that] and_then_simps p prod.case option.case if_not_P [OF g]
    by (rule refl)
  with e show ?thesis unfolding emits_def by simp
qed

subsection \<open>Writing the text\<close>

lemma decimal_len64: "n < 2 ^ 64 \<Longrightarrow> length (decimal n) \<le> 20"
proof -
  have "n < 10 ^ Suc k \<Longrightarrow> length (decimal n) \<le> Suc k" for k
  proof (induction k arbitrary: n)
    case (Suc k)
    then have "n div 10 < 10 ^ Suc k" by (simp add: less_mult_imp_div_less)
    from Suc.IH [OF this] show ?case by (simp add: decimal.simps [of n])
  qed (simp add: decimal.simps)
  from this [of 19] show "n < 2 ^ 64 \<Longrightarrow> length (decimal n) \<le> 20" by simp
qed

lemma emits_decimal: "emits H d (decimal (unat v)) (add_decimal H v d)"
  using emits_bytes by (simp add: add_decimal_def [abs_def])

lemma add_decimal_appends: "cbb_ok st \<Longrightarrow> add_decimal H v d st = (True, st') \<Longrightarrow> appends d (decimal (unat v)) st st'"
  unfolding add_decimal_def
  by (erule CBB_add_bytes_appends [rotated 2]) (use decimal_len64 [OF unat_u64_less, of v] in auto)

lemma oid_to_text_loop_sound:
  "ready 0 st \<Longrightarrow> oid_to_text_loop H s st = (True, st') \<Longrightarrow>
     \<exists>ns. s = concat (map base128 ns) \<and> list_all (\<lambda>c. c < 2 ^ 64) ns \<and> appends 0 (dots ns) st st'"
proof (induction H s st rule: oid_to_text_loop.induct)
  case (1 H s st)
  show ?case
  proof (cases s)
    case Nil
    then show ?thesis using 1(2,3) ready_appends by (intro exI [of _ "[]"]) (simp add: oid_to_text_loop.simps [of H "[]"])
  next
    case (Cons c t)
    then have l: "length s \<noteq> 0" by simp
    obtain v s1 st1 st2 where p: "parse_base128_integer s = (Some v, s1)" and a: "CBB_add_u8 H 46 0 st = (True, st1)"
      and b: "add_decimal H v 0 st1 = (True, st2)" and r: "oid_to_text_loop H s1 st2 = (True, st')"
      using 1(3) l by (auto simp: oid_to_text_loop.simps [of H s] split: option.splits prod.splits elim!: and_then_TrueE)
    have ap1: "appends 0 [46] st st1" using CBB_add_u8_appends a 1(2) by (simp add: ready_def)
    have ap2: "appends 0 (decimal (unat v)) st1 st2" using add_decimal_appends [OF appends_ok [OF ap1] b] .
    obtain ns where ns: "s1 = concat (map base128 ns)" "list_all (\<lambda>c. c < 2 ^ 64) ns" "appends 0 (dots ns) st2 st'"
      using 1(1) [OF l p [symmetric] refl appends_ready [OF ap2] r] by blast
    have "s = base128 (unat v) @ s1" using p unfolding parse_base128_iff .
    moreover have "appends 0 (dots (unat v # ns)) st st'" using appends_trans [OF ap1 appends_trans [OF ap2 ns(3)]] by simp
    ultimately show ?thesis using ns unat_u64_less [of v] by (intro exI [of _ "unat v # ns"]) simp
  qed
qed

lemma emits_text_loop:
  "list_all (\<lambda>c. c < 2 ^ 64) ns \<Longrightarrow> emits H 0 (dots ns) (oid_to_text_loop H (concat (map base128 ns)))"
proof (induction ns)
  case Nil
  have "oid_to_text_loop H [] = Pair True" by (rule ext) (simp add: oid_to_text_loop.simps)
  then show ?case using emits_Nil by simp
next
  case (Cons n ns)
  have u: "unat (word_of_nat n :: u64) = n" using Cons.prems by (simp add: unat_of_nat_u64)
  then have p: "parse_base128_integer (concat (map base128 (n # ns))) = (Some (word_of_nat n), concat (map base128 ns))"
    unfolding parse_base128_iff by simp
  have "oid_to_text_loop H (concat (map base128 (n # ns))) =
      (\<lambda>st. and_then (CBB_add_u8 H 46 0 st) (\<lambda>st. and_then (add_decimal H (word_of_nat n) 0 st) (oid_to_text_loop H (concat (map base128 ns)))))"
    by (rule ext, subst oid_to_text_loop.simps, subst p) simp
  then show ?case
    using emits_Cons [OF emits_u8 emits_then [OF emits_decimal [of H 0 "word_of_nat n"] Cons.IH]] Cons.prems u by simp
qed

text \<open>The first number of the encoding and the text of the two components it stands for.\<close>

definition oid_first :: "nat \<Rightarrow> nat \<times> nat" where
  "oid_first v = (if 80 \<le> v then (2, v - 80) else (v div 40, v mod 40))"

lemma oid_first_iff:
  "v < 2 ^ 64 \<Longrightarrow> oid_first v = (a, b) \<longleftrightarrow> v = 40 * a + b \<and> a \<le> 2 \<and> (a < 2 \<longrightarrow> b < 40) \<and> b < 2 ^ 64 - 80"
proof -
  assume v: "v < 2 ^ 64"
  show ?thesis
  proof
    assume "oid_first v = (a, b)"
    then show "v = 40 * a + b \<and> a \<le> 2 \<and> (a < 2 \<longrightarrow> b < 40) \<and> b < 2 ^ 64 - 80"
      using v by (auto simp: oid_first_def less_Suc_eq_le div_le_mono2 split: if_splits)
  next
    assume r: "v = 40 * a + b \<and> a \<le> 2 \<and> (a < 2 \<longrightarrow> b < 40) \<and> b < 2 ^ 64 - 80"
    then consider "a = 0" "b < 40" | "a = 1" "b < 40" | "a = 2" by linarith
    then show "oid_first v = (a, b)" using r by cases (auto simp: oid_first_def)
  qed
qed

definition first_text :: "allocator \<Rightarrow> u64 \<Rightarrow> cbb \<Rightarrow> bool \<times> cbb" where
  "first_text H v st =
     (if 80 \<le> v then and_then (CBB_add_bytes H [50, 46] 0 st) (add_decimal H (v - 80) 0)
      else and_then (add_decimal H (v div 40) 0 st) (\<lambda>st. and_then (CBB_add_u8 H 46 0 st) (add_decimal H (v mod 40) 0)))"

lemma first_text_words:
  fixes v :: u64
  assumes "oid_first (unat v) = (a, b)"
  shows "if 80 \<le> v then a = 2 \<and> unat (v - 80) = b else unat (v div 40) = a \<and> unat (v mod 40) = b"
  using assms by (auto simp: oid_first_def word_le_nat_alt unat_sub_if' unat_div_distrib unat_mod_distrib split: if_splits)

lemma first_text_sound:
  assumes "ready 0 st" "first_text H v st = (True, st')" "oid_first (unat v) = (a, b)"
  shows "appends 0 (decimal a @ 46 # decimal b) st st'"
proof (cases "80 \<le> v")
  case True
  then obtain st1 where s: "CBB_add_bytes H [50, 46] 0 st = (True, st1)" "add_decimal H (v - 80) 0 st1 = (True, st')"
    using assms(2) by (auto simp: first_text_def elim!: and_then_TrueE)
  have 1: "appends 0 [50, 46] st st1" using CBB_add_bytes_appends [OF _ _ s(1)] assms(1) by (simp add: ready_def)
  have "decimal 2 = [50]" by (simp add: decimal_digit byte_of_def)
  then show ?thesis
    using appends_trans [OF 1 add_decimal_appends [OF appends_ok [OF 1] s(2)]] first_text_words [OF assms(3)] True by simp
next
  case False
  then obtain st1 st2 where s: "add_decimal H (v div 40) 0 st = (True, st1)" "CBB_add_u8 H 46 0 st1 = (True, st2)"
    "add_decimal H (v mod 40) 0 st2 = (True, st')"
    using assms(2) by (auto simp: first_text_def elim!: and_then_TrueE)
  have 1: "appends 0 (decimal (unat (v div 40))) st st1" using add_decimal_appends [OF _ s(1)] assms(1) by (simp add: ready_def)
  have 2: "appends 0 [46] st1 st2" using CBB_add_u8_appends [OF appends_ok [OF 1] s(2)] .
  show ?thesis
    using appends_trans [OF 1 appends_trans [OF 2 add_decimal_appends [OF appends_ok [OF 2] s(3)]]]
      first_text_words [OF assms(3)] False by simp
qed

lemma emits_first_text:
  assumes "oid_first (unat v) = (a, b)"
  shows "emits H 0 (decimal a @ 46 # decimal b) (first_text H v)"
proof (cases "80 \<le> v")
  case True
  have "decimal 2 = [50]" by (simp add: decimal_digit byte_of_def)
  then show ?thesis
    using emits_then [OF emits_bytes [of H 0 "[50, 46]"] emits_decimal [of H 0 "v - 80"]] first_text_words [OF assms] True
    by (simp add: first_text_def [abs_def])
next
  case False
  then show ?thesis
    using emits_then [OF emits_decimal [of H 0 "v div 40"] emits_Cons [OF emits_u8 [of H 0 46] emits_decimal [of H 0 "v mod 40"]]]
      first_text_words [OF assms] by (simp add: first_text_def [abs_def])
qed

lemma CBS_asn1_oid_to_text_unfold:
  "CBS_asn1_oid_to_text H cbs =
     (case CBB_init H 32 of
        (False, st) \<Rightarrow> None
      | (True, st) \<Rightarrow>
          (case parse_base128_integer cbs of
             (None, _) \<Rightarrow> None
           | (Some v, copy) \<Rightarrow>
               (case and_then (first_text H v st) (\<lambda>st. and_then (oid_to_text_loop H copy st) (CBB_add_u8 H 0 0)) of
                  (False, _) \<Rightarrow> None
                | (True, st) \<Rightarrow> fst (CBB_finish H True 0 st))))"
  unfolding CBS_asn1_oid_to_text_def first_text_def by (rule refl)

lemma ready_finish: "ready 0 st \<Longrightarrow> fst (CBB_finish H True 0 st) = Some (fst (cbb_abs st))"
  using ready_flush [of 0 st H] by (simp add: CBB_finish_def ready_def cbb_abs_def used_def)

lemma oid_to_text_sound:
  assumes "CBS_asn1_oid_to_text H s = Some t"
  shows "\<exists>ns. valid_oid ns \<and> s = oid_bytes ns \<and> t = oid_text ns @ [0]"
proof -
  obtain st v s1 st1 where i: "CBB_init H 32 = (True, st)" and p: "parse_base128_integer s = (Some v, s1)"
    and r: "and_then (first_text H v st) (\<lambda>st. and_then (oid_to_text_loop H s1 st) (CBB_add_u8 H 0 0)) = (True, st1)"
    and f: "fst (CBB_finish H True 0 st1) = Some t"
    using assms by (auto simp: CBS_asn1_oid_to_text_unfold split: prod.splits bool.splits option.splits)
  obtain st2 st3 where 2: "first_text H v st = (True, st2)" and 3: "oid_to_text_loop H s1 st2 = (True, st3)"
    and 4: "CBB_add_u8 H 0 0 st3 = (True, st1)" using r by (auto elim!: and_then_TrueE)
  have st: "ready 0 st" "cbb_abs st = ([], [])" using CBB_init_ok [OF i] by simp_all
  obtain a b where ab: "oid_first (unat v) = (a, b)" by fastforce
  note v = oid_first_iff [OF unat_u64_less, THEN iffD1, OF ab]
  have ap2: "appends 0 (decimal a @ 46 # decimal b) st st2" using first_text_sound [OF st(1) 2 ab] .
  obtain ns where ns: "s1 = concat (map base128 ns)" "list_all (\<lambda>c. c < 2 ^ 64) ns" "appends 0 (dots ns) st2 st3"
    using oid_to_text_loop_sound [OF appends_ready [OF ap2] 3] by blast
  have "appends 0 [0] st3 st1" using CBB_add_u8_appends [OF appends_ok [OF ns(3)] 4] .
  from appends_trans [OF ap2 appends_trans [OF ns(3) this]]
  have ap: "appends 0 (oid_text (a # b # ns) @ [0]) st st1" by (simp add: oid_text_dots)
  then have "t = oid_text (a # b # ns) @ [0]"
    using ready_finish [OF appends_ready [OF ap], of H] f st(2) by (simp add: appends_def)
  moreover have "s = oid_bytes (a # b # ns)" using p v ns(1) unfolding parse_base128_iff by simp
  moreover have "valid_oid (a # b # ns)" using v ns(2) by simp
  ultimately show ?thesis by blast
qed

lemma oid_to_text_complete:
  assumes "valid_oid ns" "\<forall>n. alloc_ok H n" "length (oid_text ns) < 2 ^ 64 - 1"
  shows "CBS_asn1_oid_to_text H (oid_bytes ns) = Some (oid_text ns @ [0])"
proof -
  obtain a b cs where ns: "ns = a # b # cs" using assms(1) by (cases ns rule: oid_bytes.cases) auto
  define v :: u64 where "v = word_of_nat (40 * a + b)"
  have "40 * a + b < 2 ^ 64" using assms(1) ns by auto
  then have u: "unat v = 40 * a + b" unfolding v_def by (rule unat_of_nat_u64)
  have ab: "oid_first (unat v) = (a, b)" unfolding oid_first_iff [OF unat_u64_less] using assms(1) ns u by simp
  have p: "parse_base128_integer (oid_bytes ns) = (Some v, concat (map base128 cs))"
    unfolding parse_base128_iff using ns u by simp
  let ?g = "\<lambda>st. and_then (first_text H v st) (\<lambda>st. and_then (oid_to_text_loop H (concat (map base128 cs)) st) (CBB_add_u8 H 0 0))"
  have e: "emits H 0 (oid_text ns @ [0]) ?g"
    using emits_then [OF emits_first_text [OF ab] emits_then [OF emits_text_loop emits_u8 [of H 0 0]]] assms(1) ns
    by (simp add: oid_text_dots)
  obtain st where i: "CBB_init H 32 = (True, st)" using assms(2) by (simp add: CBB_init_def)
  have st: "ready 0 st" "cbb_abs st = ([], [])" using CBB_init_ok [OF i] by simp_all
  have "roomy H (0 + length (oid_text ns @ [0])) (cb_base st)"
    using assms(2,3) i by (auto simp: roomy_def CBB_init_def cbb_init_def)
  from emitsE [OF e st(1) this] obtain st' where st': "?g st = (True, st')" "appends 0 (oid_text ns @ [0]) st st'" by blast
  have "fst (CBB_finish H True 0 st') = Some (oid_text ns @ [0])"
    using ready_finish [OF appends_ready [OF st'(2)], of H] st'(2) st(2) by (simp add: appends_def)
  with i p st'(1) show ?thesis by (simp add: CBS_asn1_oid_to_text_unfold)
qed

section \<open>Well-formed encodings\<close>

lemma oid_loop_high: "list_all (\<lambda>b. 128 \<le> unat b) bs \<Longrightarrow> 128 \<le> unat p \<Longrightarrow> oid_loop p (bs @ s) = oid_loop (last (p # bs)) s"
  by (induction bs arbitrary: p) (auto simp: and_0x80_iff)

lemma oid_loop_base128: "unat p < 128 \<Longrightarrow> oid_loop p (base128 n @ s) = oid_loop (byte_of (n mod 128)) s"
proof (cases "base128_high (n div 128)")
  case Nil
  have "byte_of (n mod 128) \<noteq> 0x80" using base128_hd_ne [of n "[]"] Nil by (auto simp: base128_def)
  then show ?thesis by (simp add: base128_def Nil)
next
  case (Cons b bs)
  have h: "128 \<le> unat c" if "c \<in> set (b # bs)" for c using base128_high_set that Cons by metis
  then have "list_all (\<lambda>b. 128 \<le> unat b) bs" "128 \<le> unat b" by (auto simp: list_all_iff)
  moreover have "128 \<le> unat (last (b # bs))" by (rule h) (rule last_in_set, simp)
  moreover have "b \<noteq> 0x80" using base128_high_hd [OF Cons] .
  ultimately show ?thesis using oid_loop_high [of bs b] by (simp add: base128_def Cons and_0x80_iff del: last.simps)
qed

text \<open>A run of bytes with the high bit and a byte without it is a number, if it does not start with \<open>0x80\<close>.\<close>

lemma base128_of_run:
  assumes "list_all (\<lambda>b. 128 \<le> unat b) bs" "unat c < 128" "bs \<noteq> [] \<longrightarrow> hd bs \<noteq> 0x80"
  shows "\<exists>n. base128 n = bs @ [c]"
proof -
  have "\<exists>m. base128_high m = bs" using assms(1,3)
  proof (induction bs rule: rev_induct)
    case (snoc b bs)
    then obtain m where m: "base128_high m = bs" by (cases bs) auto
    have "m * 128 + unat b mod 128 \<noteq> 0"
    proof
      assume "m * 128 + unat b mod 128 = 0"
      then have "bs = []" "unat b mod 128 = 0" using m by auto
      then have "unat b = 128" using snoc.prems(1) unat_mod_128 [of b] by simp
      then show False using snoc.prems(2) \<open>bs = []\<close> by (simp add: byte_eq_iff)
    qed
    then show ?case using base128_high_step [of b m] snoc.prems(1) m by auto
  qed (use base128_high_0 in blast)
  then obtain m where "base128_high m = bs" by blast
  then have "base128 (m * 128 + unat c) = bs @ [c]" using assms(2) by (simp add: base128_def)
  then show ?thesis by blast
qed

lemma oid_loop_run:
  "oid_loop p s = Some q \<Longrightarrow> unat q < 128 \<Longrightarrow> s \<noteq> [] \<Longrightarrow>
     \<exists>bs c t. s = bs @ c # t \<and> list_all (\<lambda>b. 128 \<le> unat b) bs \<and> unat c < 128 \<and>
       (unat p < 128 \<and> bs \<noteq> [] \<longrightarrow> hd bs \<noteq> 0x80) \<and> oid_loop c t = Some q"
proof (induction s arbitrary: p)
  case (Cons b s)
  then have l: "oid_loop b s = Some q" "\<not> (unat p < 128 \<and> b = 0x80)" by (auto simp: and_0x80_iff split: if_splits)
  show ?case
  proof (cases "unat b < 128")
    case True
    then show ?thesis using l by (intro exI [of _ "[]"] exI [of _ b] exI [of _ s]) simp
  next
    case False
    then have "s \<noteq> []" using l(1) Cons.prems(2) by auto
    then obtain bs c t where "s = bs @ c # t" "list_all (\<lambda>b. 128 \<le> unat b) bs" "unat c < 128" "oid_loop c t = Some q"
      using Cons.IH [OF l(1) Cons.prems(2)] by blast
    then show ?thesis using False l(2) by (intro exI [of _ "b # bs"] exI [of _ c] exI [of _ t]) auto
  qed
qed simp

lemma oid_loop_iff:
  "unat p < 128 \<Longrightarrow> (\<exists>q. oid_loop p s = Some q \<and> unat q < 128) \<longleftrightarrow> (\<exists>ns. s = concat (map base128 ns))"
proof (induction "length s" arbitrary: p s rule: less_induct)
  case less
  have m: "unat (byte_of (n mod 128)) < 128" for n using mod_less_divisor [of 128 n] by simp
  show ?case
  proof
    assume "\<exists>q. oid_loop p s = Some q \<and> unat q < 128"
    then obtain q where q: "oid_loop p s = Some q" "unat q < 128" by blast
    show "\<exists>ns. s = concat (map base128 ns)"
    proof (cases "s = []")
      case False
      obtain bs c t where r: "s = bs @ c # t" "list_all (\<lambda>b. 128 \<le> unat b) bs" "unat c < 128"
        "bs \<noteq> [] \<longrightarrow> hd bs \<noteq> 0x80" "oid_loop c t = Some q"
        using oid_loop_run [OF q False] less.prems by blast
      obtain n where "base128 n = bs @ [c]" using base128_of_run [OF r(2,3,4)] by blast
      moreover obtain ns where "t = concat (map base128 ns)" using less.hyps [of t c] r q(2) by auto
      ultimately show ?thesis using r(1) by (intro exI [of _ "n # ns"]) simp
    qed (auto intro: exI [of _ "[]"])
  next
    assume "\<exists>ns. s = concat (map base128 ns)"
    then obtain ns where ns: "s = concat (map base128 ns)" by blast
    show "\<exists>q. oid_loop p s = Some q \<and> unat q < 128"
    proof (cases ns)
      case (Cons n ms)
      then have s: "s = base128 n @ concat (map base128 ms)" using ns by simp
      have "length (concat (map base128 ms)) < length s" unfolding s by simp
      from less.hyps [OF this m, of n] show ?thesis unfolding s oid_loop_base128 [OF less.prems] by blast
    qed (use ns less.prems in simp)
  qed
qed

lemma CBS_is_valid_asn1_oid_iff:
  "CBS_is_valid_asn1_oid s \<longleftrightarrow> (\<exists>ns. ns \<noteq> [] \<and> s = concat (map base128 ns))"
proof (cases "s = []")
  case False
  then have "CBS_is_valid_asn1_oid s \<longleftrightarrow> (\<exists>q. oid_loop 0 s = Some q \<and> unat q < 128)"
    by (auto simp: CBS_is_valid_asn1_oid_def and_0x80_iff split: option.splits)
  also have "\<dots> \<longleftrightarrow> (\<exists>ns. s = concat (map base128 ns))" by (rule oid_loop_iff) simp
  finally show ?thesis using False by auto
qed (auto simp: CBS_is_valid_asn1_oid_def neq_Nil_conv)

lemma valid_oid_bytes: "valid_oid ns \<Longrightarrow> CBS_is_valid_asn1_oid (oid_bytes ns)"
proof -
  assume "valid_oid ns"
  then obtain a b cs where "ns = a # b # cs" by (cases ns rule: oid_bytes.cases) auto
  then show ?thesis unfolding CBS_is_valid_asn1_oid_iff by (intro exI [of _ "(40 * a + b) # cs"]) simp
qed

section \<open>The builder stays well-formed\<close>

lemma oid_from_text_loop_keeps: "keeps d st s \<Longrightarrow> keeps d st (snd (oid_from_text_loop H E cbs d s))"
proof (induction H E cbs d s rule: oid_from_text_loop.induct)
  case (1 H E cbs d s)
  show ?case
  proof (cases "length cbs = 0")
    case False
    obtain r cbs1 where p: "parse_dotted_decimal E cbs = (r, cbs1)" by fastforce
    show ?thesis
    proof (cases r)
      case (Some a)
      have "keeps d st (snd (and_then (add_base128_integer H a d s) (oid_from_text_loop H E cbs1 d)))"
        by (rule keeps_and_then [OF add_base128_integer_keeps [OF 1(2)]])
           (rule 1(1) [OF False p [symmetric, unfolded Some] refl])
      then show ?thesis using False p Some by (subst oid_from_text_loop.simps) simp
    qed (use False p 1(2) in \<open>simp add: oid_from_text_loop.simps [of H E cbs]\<close>)
  qed (use 1(2) in \<open>simp add: oid_from_text_loop.simps [of H E "[]"]\<close>)
qed

lemma CBB_add_asn1_oid_from_text_keeps [keeping]:
  assumes "cbb_live d st"
  shows "keeps d st (snd (CBB_add_asn1_oid_from_text H E text d st))"
  unfolding CBB_add_asn1_oid_from_text_def
  by (rule keeps_and_then [OF CBB_flush_keeps [OF assms]])
     (auto split: prod.splits option.splits intro!: keeps_and_then add_base128_integer_keeps oid_from_text_loop_keeps)

section \<open>Properties\<close>

text \<open>
  \<open>CBS_asn1_oid_to_text\<close> prints object identifiers exactly. If it returns a text, the input is the
  encoding of a list of components (the first at most 2, the second below 40 under the first two arcs,
  every number of the encoding below \<open>2\<^sup>6\<^sup>4\<close>) and the text is these components in decimal with dots
  between them, terminated by a zero; and for every such list it returns this text, provided memory
  does not run out.\<close>
lemma oid_to_text_exact:
  "(CBS_asn1_oid_to_text H s = Some t \<longrightarrow> (\<exists>ns. valid_oid ns \<and> s = oid_bytes ns \<and> t = oid_text ns @ [0])) \<and>
   (valid_oid ns \<and> (\<forall>n. alloc_ok H n) \<and> length (oid_text ns) < 2 ^ 64 - 1 \<longrightarrow>
      CBS_asn1_oid_to_text H (oid_bytes ns) = Some (oid_text ns @ [0]))"
  using oid_to_text_sound oid_to_text_complete by blast

lemma decimal_42: "decimal 42 = [52, 50]" "decimal 2 = [50]" "decimal 5 = [53]"
  by (simp_all add: decimal.simps [of 42] decimal.simps [of 4] decimal.simps [of 2] decimal.simps [of 5] byte_of_def)

text \<open>
  C37: \<open>CBB_add_asn1_oid_from_text\<close> is the inverse. If it returns one, the text is the dotted decimal
  form of a valid list of components (no leading zeros, no empty component, no dot at the end, no
  number that does not fit) and exactly their encoding has been appended to the handle; and on a
  flushed handle with room it accepts every such text. What it appends is a well-formed encoding,
  which \<open>CBS_asn1_oid_to_text\<close> turns back into the text.\<close>
theorem oid_from_text_exact:
  assumes "asn1_env_ok E" "cbb_ok st"
  shows "(CBB_add_asn1_oid_from_text H E text d st = (True, st') \<longrightarrow>
      (\<exists>ns. valid_oid ns \<and> text = oid_text ns \<and> appends d (oid_bytes ns) st st' \<and>
        CBS_is_valid_asn1_oid (oid_bytes ns) \<and>
        ((\<forall>n. alloc_ok H' n) \<and> length text < 2 ^ 64 - 1 \<longrightarrow> CBS_asn1_oid_to_text H' (oid_bytes ns) = Some (text @ [0])))) \<and>
    (valid_oid ns \<and> ready d st \<and> roomy H (length (oid_bytes ns)) (cb_base st) \<longrightarrow>
      fst (CBB_add_asn1_oid_from_text H E (oid_text ns) d st))"
proof (intro conjI impI)
  assume "CBB_add_asn1_oid_from_text H E text d st = (True, st')"
  with assms obtain ns where ns: "valid_oid ns" "text = oid_text ns" "appends d (oid_bytes ns) st st'"
    using CBB_add_asn1_oid_from_text_sound by blast
  then show "\<exists>ns. valid_oid ns \<and> text = oid_text ns \<and> appends d (oid_bytes ns) st st' \<and>
      CBS_is_valid_asn1_oid (oid_bytes ns) \<and>
      ((\<forall>n. alloc_ok H' n) \<and> length text < 2 ^ 64 - 1 \<longrightarrow> CBS_asn1_oid_to_text H' (oid_bytes ns) = Some (text @ [0]))"
    using valid_oid_bytes oid_to_text_complete [OF ns(1), of H'] by (intro exI [of _ ns]) simp
next
  assume "valid_oid ns \<and> ready d st \<and> roomy H (length (oid_bytes ns)) (cb_base st)"
  then show "fst (CBB_add_asn1_oid_from_text H E (oid_text ns) d st)"
    using emitsE [OF emits_oid [OF assms(1)], of ns d st H 0] by fastforce
qed

theorem oid_from_text_exact_witness:
  "fst (CBB_add_asn1_oid_from_text heap_total asn1_env_std [50, 46, 53, 46, 52, 50] 0 (snd (CBB_init heap_total 4)))"
proof -
  let ?st = "snd (CBB_init heap_total 4)"
  have i: "CBB_init heap_total 4 = (True, ?st)" by (simp add: CBB_init_def heap_total_def)
  have st: "ready 0 ?st" using CBB_init_ok [OF i] by simp
  have b: "length (oid_bytes [2, 5, 42]) = 2" by (simp add: base128_def byte_of_def)
  have "roomy heap_total 2 (cb_base ?st)" by (simp add: roomy_def CBB_init_def cbb_init_def heap_total_def)
  then show ?thesis
    using oid_from_text_exact [OF asn1_env_std_ok, of ?st heap_total "[]" 0 ?st heap_total "[2, 5, 42]"] st b
    by (simp add: ready_def decimal_42)
qed

end
