(* ===== verification/BS_Time.thy ===== *)
theory BS_Time
  imports BS_Oid
begin

text \<open>
  The times of certificates: what \<open>CBS_parse_utc_time\<close> and \<open>CBS_parse_generalized_time\<close> of
  \<open>bytestring/cbs.c\<close> accept, and the date they return, together with \<open>asn1/posix_time.c\<close>.
\<close>

section \<open>The text of a time\<close>

definition two :: "int \<Rightarrow> u8 list" where
  "two n = [byte_of (48 + nat n div 10), byte_of (48 + nat n mod 10)]"

definition year_text :: "bool \<Rightarrow> int \<Rightarrow> u8 list" where
  "year_text is_gentime y = (if is_gentime then two (y div 100) @ two (y mod 100) else two (y mod 100))"

text \<open>The digits of a date, without the zone.\<close>

definition time_text :: "bool \<Rightarrow> tm \<Rightarrow> u8 list" where
  "time_text is_gentime t =
     year_text is_gentime (tm_year t + 1900) @ two (tm_mon t + 1) @ two (tm_mday t) @
     two (tm_hour t) @ two (tm_min t) @ two (tm_sec t)"

text \<open>The zone and the number of seconds it stands for.\<close>

definition zone :: "bool \<Rightarrow> int \<Rightarrow> u8 list \<Rightarrow> bool" where
  "zone allow offset z \<longleftrightarrow> z = [90] \<and> offset = 0 \<or>
     allow \<and> (\<exists>h m. 0 \<le> h \<and> h \<le> 23 \<and> 0 \<le> m \<and> m \<le> 59 \<and>
       (z = 43 # two h @ two m \<and> offset = h * 3600 + m * 60 \<or> z = 45 # two h @ two m \<and> offset = - (h * 3600 + m * 60)))"

definition year_ok :: "bool \<Rightarrow> int \<Rightarrow> bool" where
  "year_ok is_gentime y \<longleftrightarrow> (if is_gentime then 0 \<le> y \<and> y \<le> 9999 else 1950 \<le> y \<and> y < 2050)"

section \<open>Parsing\<close>

lemma get_bind_iff: "get_bind r k = (Some v, s') \<longleftrightarrow> (\<exists>x s1. r = (Some x, s1) \<and> k x s1 = (Some v, s'))"
  by (cases r) (auto simp: get_bind_def split: option.splits)

lemma two_eq:
  assumes "is_dec b" "is_dec c"
  shows "two ((uint b - 48) * 10 + (uint c - 48)) = [b, c]"
proof -
  define x y where "x = unat b - 48" and "y = unat c - 48"
  have u: "unat b = 48 + x" "unat c = 48 + y" "x < 10" "y < 10" using assms by (auto simp: is_dec_def x_def y_def)
  have n: "nat ((uint b - 48) * 10 + (uint c - 48)) = x * 10 + y"
  proof -
    have "uint b = 48 + int x" "uint c = 48 + int y" unfolding uint_nat u(1,2) by simp_all
    then show ?thesis by simp
  qed
  have "(x * 10 + y) div 10 = x" "(x * 10 + y) mod 10 = y" using u(4) by simp_all
  then show ?thesis unfolding two_def n using u by (metis byte_of_unat)
qed

lemma two_digits_iff:
  assumes E: "asn1_env_ok E"
  shows "cbs_get_two_digits E s = (Some v, s') \<longleftrightarrow> 0 \<le> v \<and> v \<le> 99 \<and> s = two v @ s'"
proof
  assume "cbs_get_two_digits E s = (Some v, s')"
  then obtain b c where s: "s = b # c # s'" "is_dec b" "is_dec c" "v = (uint b - 48) * 10 + (uint c - 48)"
    by (cases s; cases "tl s") (auto simp: cbs_get_two_digits_def get_bind_def dec_env [OF E] split: if_splits)
  have "48 \<le> uint b" "uint b \<le> 57" "48 \<le> uint c" "uint c \<le> 57"
    using s(2,3) unfolding is_dec_def uint_nat by linarith+
  then show "0 \<le> v \<and> v \<le> 99 \<and> s = two v @ s'" using two_eq [OF s(2,3)] s(1,4) by simp
next
  assume a: "0 \<le> v \<and> v \<le> 99 \<and> s = two v @ s'"
  define n where "n = nat v"
  have n: "n div 10 < 10" "n mod 10 < 10" "v = int n" using a by (auto simp: n_def)
  note d = unat_dec [OF n(1)] unat_dec [OF n(2)]
  have "is_dec (byte_of (48 + n div 10))" "is_dec (byte_of (48 + n mod 10))"
    using d n by (simp_all add: is_dec_def del: unat_byte_of)
  moreover have "(uint (byte_of (48 + n div 10)) - 48) * 10 + (uint (byte_of (48 + n mod 10)) - 48) = v"
  proof -
    have "uint (byte_of (48 + n div 10)) = int (48 + n div 10)" "uint (byte_of (48 + n mod 10)) = int (48 + n mod 10)"
      unfolding uint_nat d by simp_all
    then show ?thesis unfolding n(3) by simp (metis div_mult_mod_eq of_nat_add of_nat_mult of_nat_numeral)
  qed
  ultimately show "cbs_get_two_digits E s = (Some v, s')"
    using a by (simp add: cbs_get_two_digits_def get_bind_def dec_env [OF E] two_def n_def [symmetric])
qed

lemma two_digits_get: "asn1_env_ok E \<Longrightarrow> 0 \<le> v \<Longrightarrow> v \<le> 99 \<Longrightarrow> cbs_get_two_digits E (two v @ s) = (Some v, s)"
  using two_digits_iff by blast

lemma rfc5280_year_iff:
  assumes E: "asn1_env_ok E"
  shows "rfc5280_year E gen s = (Some y, s') \<longleftrightarrow> year_ok gen y \<and> s = year_text gen y @ s'"
proof (cases gen)
  case True
  have "rfc5280_year E gen s = (Some y, s') \<longleftrightarrow>
      (\<exists>c x. 0 \<le> c \<and> c \<le> 99 \<and> 0 \<le> x \<and> x \<le> 99 \<and> s = two c @ two x @ s' \<and> y = c * 100 + x)"
    using True by (auto simp: rfc5280_year_def get_bind_iff two_digits_iff [OF E])
  also have "\<dots> \<longleftrightarrow> year_ok gen y \<and> s = year_text gen y @ s'"
  proof
    assume "year_ok gen y \<and> s = year_text gen y @ s'"
    then show "\<exists>c x. 0 \<le> c \<and> c \<le> 99 \<and> 0 \<le> x \<and> x \<le> 99 \<and> s = two c @ two x @ s' \<and> y = c * 100 + x"
      using True by (intro exI [of _ "y div 100"] exI [of _ "y mod 100"]) (auto simp: year_ok_def year_text_def)
  qed (use True in \<open>auto simp: year_ok_def year_text_def\<close>)
  finally show ?thesis .
next
  case False
  have "rfc5280_year E gen s = (Some y, s') \<longleftrightarrow>
      (\<exists>x. 0 \<le> x \<and> x \<le> 99 \<and> s = two x @ s' \<and> y = (if x < 50 then 2000 + x else 1900 + x))"
  proof
    assume "rfc5280_year E gen s = (Some y, s')"
    then obtain x where "cbs_get_two_digits E s = (Some x, s')" "y = (if x < 50 then 2000 + x else 1900 + x)"
      using False by (auto simp: rfc5280_year_def get_bind_iff Let_def split: if_splits)
    then show "\<exists>x. 0 \<le> x \<and> x \<le> 99 \<and> s = two x @ s' \<and> y = (if x < 50 then 2000 + x else 1900 + x)"
      unfolding two_digits_iff [OF E] by blast
  next
    assume "\<exists>x. 0 \<le> x \<and> x \<le> 99 \<and> s = two x @ s' \<and> y = (if x < 50 then 2000 + x else 1900 + x)"
    then show "rfc5280_year E gen s = (Some y, s')"
      using False by (auto simp: rfc5280_year_def two_digits_get [OF E] get_bind_def Let_def)
  qed
  also have "\<dots> \<longleftrightarrow> year_ok gen y \<and> s = year_text gen y @ s'"
  proof
    assume "\<exists>x. 0 \<le> x \<and> x \<le> 99 \<and> s = two x @ s' \<and> y = (if x < 50 then 2000 + x else 1900 + x)"
    then obtain x where x: "0 \<le> x" "x \<le> 99" "s = two x @ s'" "y = (if x < 50 then 2000 + x else 1900 + x)" by blast
    have "y mod 100 = x"
    proof (cases "x < 50")
      case True
      have "(2000 + x) mod 100 = (x + 20 * 100) mod 100" by (simp add: add.commute)
      also have "\<dots> = x" using x(1,2) by (simp only: mod_mult_self1 mod_pos_pos_trivial)
      finally show ?thesis using True x(4) by simp
    next
      case False
      have "(1900 + x) mod 100 = (x + 19 * 100) mod 100" by (simp add: add.commute)
      also have "\<dots> = x" using x(1,2) by (simp only: mod_mult_self1 mod_pos_pos_trivial)
      finally show ?thesis using False x(4) by simp
    qed
    then show "year_ok gen y \<and> s = year_text gen y @ s'" using x False by (auto simp: year_ok_def year_text_def)
  next
    assume a: "year_ok gen y \<and> s = year_text gen y @ s'"
    then have "y = y mod 100 + 1900 \<or> y = y mod 100 + 2000" "1950 \<le> y" "y < 2050" using False by (auto simp: year_ok_def) presburger
    then show "\<exists>x. 0 \<le> x \<and> x \<le> 99 \<and> s = two x @ s' \<and> y = (if x < 50 then 2000 + x else 1900 + x)"
      using a False by (intro exI [of _ "y mod 100"]) (auto simp: year_text_def)
  qed
  finally show ?thesis .
qed

lemma rfc5280_offset_iff:
  assumes E: "asn1_env_ok E"
  shows "rfc5280_offset E allow s = (Some off, s') \<longleftrightarrow> (\<exists>z. s = z @ s' \<and> zone allow off z)"
proof
  assume "rfc5280_offset E allow s = (Some off, s')"
  then have "s = 90 # s' \<and> off = 0 \<or>
     allow \<and> (\<exists>h m. 0 \<le> h \<and> h \<le> 23 \<and> 0 \<le> m \<and> m \<le> 59 \<and>
       (s = 43 # two h @ two m @ s' \<and> off = h * 3600 + m * 60 \<or> s = 45 # two h @ two m @ s' \<and> off = - (h * 3600 + m * 60)))"
    by (cases s) (auto simp: rfc5280_offset_def get_bind_iff two_digits_iff [OF E] Let_def not_less split: if_splits)
  then consider (utc) "s = [90] @ s'" "off = 0"
    | (plus) h m where "allow" "0 \<le> h" "h \<le> 23" "0 \<le> m" "m \<le> 59" "s = (43 # two h @ two m) @ s'" "off = h * 3600 + m * 60"
    | (minus) h m where "allow" "0 \<le> h" "h \<le> 23" "0 \<le> m" "m \<le> 59" "s = (45 # two h @ two m) @ s'" "off = - (h * 3600 + m * 60)"
    by (metis append_Cons append_Nil append_assoc)
  then show "\<exists>z. s = z @ s' \<and> zone allow off z"
    unfolding zone_def by cases blast+
next
  assume "\<exists>z. s = z @ s' \<and> zone allow off z"
  then show "rfc5280_offset E allow s = (Some off, s')"
    by (auto simp: zone_def rfc5280_offset_def get_bind_def two_digits_get [OF E])
qed

lemma tm_eta [simp]:
  "\<lparr>tm_year = tm_year t, tm_mon = tm_mon t, tm_mday = tm_mday t, tm_hour = tm_hour t, tm_min = tm_min t, tm_sec = tm_sec t\<rparr> = t"
  by (cases t) simp

lemma valid_day_date:
  assumes "1 \<le> month" "0 \<le> year" "year \<le> 9999"
  shows "is_valid_day year month day \<longleftrightarrow> is_valid_date year month day"
proof -
  define leap where "leap \<longleftrightarrow> year smod 4 = 0 \<and> year smod 100 \<noteq> 0 \<or> year smod 400 = 0"
  show ?thesis using assms unfolding is_valid_day_def is_valid_date_def leap_def [symmetric] by auto
qed

lemma tm_valid_iff:
  "(\<exists>p. OPENSSL_tm_to_posix t = Some p) \<longleftrightarrow>
     is_valid_date (tm_year t + 1900) (tm_mon t + 1) (tm_mday t) \<and> is_valid_time (tm_hour t) (tm_min t) (tm_sec t)"
  by (auto simp: OPENSSL_tm_to_posix_def posix_time_from_utc_def Let_def)

lemma valid_date_bounds: "is_valid_date year month day \<Longrightarrow> 0 \<le> year \<and> year \<le> 9999 \<and> 1 \<le> month \<and> month \<le> 12 \<and> 1 \<le> day \<and> day \<le> 31"
proof -
  assume v: "is_valid_date year month day"
  define leap where "leap \<longleftrightarrow> year smod 4 = 0 \<and> year smod 100 \<noteq> 0 \<or> year smod 400 = 0"
  note v = v [unfolded is_valid_date_def, folded leap_def]
  have g: "\<not> (day < 1 \<or> month < 1 \<or> year < 0 \<or> 9999 < year)" using v by (rule contrapos_pp) simp
  have m: "month \<in> {1, 3, 5, 7, 8, 10, 12} \<or> month \<in> {4, 6, 9, 11} \<or> month = 2" using v by (rule contrapos_pp) simp
  have "\<not> 31 < day" using v by (rule contrapos_pn) simp
  moreover have "month \<le> 12" using m by (elim disjE insertE emptyE) simp_all
  ultimately show ?thesis using g by linarith
qed

text \<open>The checks of the code, one after the other.\<close>

lemma get_bindE:
  assumes "get_bind r k = (Some v, s')"
  obtains x s1 where "r = (Some x, s1)" "k x s1 = (Some v, s')"
  using assms that unfolding get_bind_iff by (elim exE conjE)

lemma if_NoneE:
  assumes "(if c then (None, s1) else r) = (Some v, s')"
  obtains "\<not> c" "r = (Some v, s')"
  using assms by (auto split: if_splits)

definition time_result :: "bool \<Rightarrow> tm \<Rightarrow> int \<Rightarrow> tm option \<Rightarrow> bool" where
  "time_result have_out t off r \<longleftrightarrow>
     (if have_out then (\<exists>t'. r = Some t' \<and> (if off = 0 then t' = t else OPENSSL_gmtime_adj t 0 off = Some t'))
      else r = None)"

lemma time_internal_sound:
  assumes E: "asn1_env_ok E" and L: "CBS_parse_rfc5280_time_internal E gen allow have_out s = Some r"
  shows "\<exists>t off z. s = time_text gen t @ z \<and> zone allow off z \<and> year_ok gen (tm_year t + 1900) \<and>
      (\<exists>p. OPENSSL_tm_to_posix t = Some p) \<and> time_result have_out t off r"
proof -
  have "\<exists>s'. x = (Some r, s')" if "fst x = Some r" for x :: "tm option option \<times> cbs" using that by (cases x) auto
  from this [OF L [unfolded CBS_parse_rfc5280_time_internal_def]] show ?thesis
  proof (elim exE get_bindE if_NoneE)
    fix s' y s1 mo s2 d s3 h s4 mi s5 sec s6 off s7
    let ?t = "\<lparr>tm_year = y - 1900, tm_mon = mo - 1, tm_mday = d, tm_hour = h, tm_min = mi, tm_sec = sec\<rparr>"
    assume y: "rfc5280_year E gen s = (Some y, s1)" and mo: "cbs_get_two_digits E s1 = (Some mo, s2)" "\<not> (mo < 1 \<or> 12 < mo)"
      and d: "cbs_get_two_digits E s2 = (Some d, s3)" "\<not> \<not> is_valid_day y mo d"
      and h: "cbs_get_two_digits E s3 = (Some h, s4)" "\<not> 23 < h" and mi: "cbs_get_two_digits E s4 = (Some mi, s5)" "\<not> 59 < mi"
      and sec: "cbs_get_two_digits E s5 = (Some sec, s6)" "\<not> 59 < sec"
      and off: "rfc5280_offset E allow s6 = (Some off, s7)" "\<not> length s7 \<noteq> 0"
      and r: "(if \<not> have_out then (Some None, s7)
          else let t = ?t in if off = 0 then (Some (Some t), s7)
               else case OPENSSL_gmtime_adj t 0 off of None \<Rightarrow> (None, s7) | Some t' \<Rightarrow> (Some (Some t'), s7)) = (Some r, s')"
    note iffs = rfc5280_year_iff [OF E] two_digits_iff [OF E] rfc5280_offset_iff [OF E]
    obtain z where z: "s6 = z" "zone allow off z" using off unfolding iffs by auto
    have yok: "year_ok gen y" "0 \<le> y" "y \<le> 9999" using y unfolding iffs by (auto simp: year_ok_def split: if_splits)
    have "s = time_text gen ?t @ z" using y mo h d mi sec z unfolding iffs by (simp add: time_text_def)
    moreover have "\<exists>p. OPENSSL_tm_to_posix ?t = Some p"
      unfolding tm_valid_iff using mo d h mi sec yok valid_day_date [of mo y d] unfolding iffs by (simp add: is_valid_time_def)
    moreover have "time_result have_out ?t off r"
      using r by (cases "OPENSSL_gmtime_adj ?t 0 off") (auto simp: time_result_def Let_def split: if_splits)
    ultimately show ?thesis using z yok(1) by (intro exI [of _ ?t] exI [of _ off] exI [of _ z]) simp
  qed
qed

lemma time_internal_eval:
  assumes E: "asn1_env_ok E" and z: "zone allow off z" and y: "year_ok gen (tm_year t + 1900)"
    and p: "OPENSSL_tm_to_posix t = Some p"
  shows "CBS_parse_rfc5280_time_internal E gen allow have_out (time_text gen t @ z) =
    (if \<not> have_out then Some None else if off = 0 then Some (Some t) else map_option Some (OPENSSL_gmtime_adj t 0 off))"
proof -
  have v: "is_valid_date (tm_year t + 1900) (tm_mon t + 1) (tm_mday t)" "is_valid_time (tm_hour t) (tm_min t) (tm_sec t)"
    using p tm_valid_iff by blast+
  note b = valid_date_bounds [OF v(1)]
  have day: "is_valid_day (tm_year t + 1900) (tm_mon t + 1) (tm_mday t)" using v(1) b valid_day_date by auto
  have year: "rfc5280_year E gen (year_text gen (tm_year t + 1900) @ x) = (Some (tm_year t + 1900), x)" for x
    using y rfc5280_year_iff [OF E] by blast
  have zone: "rfc5280_offset E allow z = (Some off, [])" using z rfc5280_offset_iff [OF E] by blast
  show ?thesis
    unfolding CBS_parse_rfc5280_time_internal_def time_text_def
    using year zone b day v(2)
    by (auto simp: get_bind_def two_digits_get [OF E] is_valid_time_def Let_def split: option.splits)
qed

text \<open>Without an offset.\<close>

lemma time_internal_utc:
  assumes E: "asn1_env_ok E"
  shows "CBS_parse_rfc5280_time_internal E gen False True s = Some (Some t) \<longleftrightarrow>
      s = time_text gen t @ [90] \<and> year_ok gen (tm_year t + 1900) \<and> (\<exists>p. OPENSSL_tm_to_posix t = Some p)"
    and "CBS_parse_rfc5280_time_internal E gen False False s \<noteq> None \<longleftrightarrow>
      (\<exists>t. s = time_text gen t @ [90] \<and> year_ok gen (tm_year t + 1900) \<and> (\<exists>p. OPENSSL_tm_to_posix t = Some p))"
proof -
  have z: "zone False off z \<longleftrightarrow> z = [90] \<and> off = 0" for off z by (auto simp: zone_def)
  show "CBS_parse_rfc5280_time_internal E gen False True s = Some (Some t) \<longleftrightarrow>
      s = time_text gen t @ [90] \<and> year_ok gen (tm_year t + 1900) \<and> (\<exists>p. OPENSSL_tm_to_posix t = Some p)"
    using time_internal_sound [OF E, of gen False True s "Some t"] time_internal_eval [OF E, of False 0 "[90]" gen t _ True]
    by (auto simp: z time_result_def)
  show "CBS_parse_rfc5280_time_internal E gen False False s \<noteq> None \<longleftrightarrow>
      (\<exists>t. s = time_text gen t @ [90] \<and> year_ok gen (tm_year t + 1900) \<and> (\<exists>p. OPENSSL_tm_to_posix t = Some p))" (is "?L \<longleftrightarrow> ?R")
  proof
    assume ?L
    then obtain r where "CBS_parse_rfc5280_time_internal E gen False False s = Some r" by auto
    from time_internal_sound [OF E this] show ?R by (auto simp: z)
  next
    assume ?R
    then show ?L using time_internal_eval [OF E, of False 0 "[90]" gen _ _ False] by (auto simp: z)
  qed
qed

section \<open>Properties\<close>

text \<open>
  The time parsers accept exactly the profile of RFC 5280. Without time-zone offsets,
  \<open>CBS_parse_generalized_time\<close> returns the date \<open>t\<close> if and only if the text is \<open>YYYYMMDDHHMMSSZ\<close> for
  \<open>t\<close> and \<open>t\<close> is a date that \<open>OPENSSL_tm_to_posix\<close> accepts (days per month, leap years, no leap
  second); \<open>CBS_parse_utc_time\<close> the same for \<open>YYMMDDHHMMSSZ\<close> and the years 1950 to 2049. So every
  parsed date has a POSIX time, each date has one text, and a null out-pointer changes nothing.\<close>
lemma rfc5280_time_exact:
  assumes "asn1_env_ok E"
  shows "(CBS_parse_generalized_time E False True s = Some (Some t) \<longleftrightarrow>
      s = time_text True t @ [90] \<and> (\<exists>p. OPENSSL_tm_to_posix t = Some p)) \<and>
    (CBS_parse_utc_time E False True s = Some (Some t) \<longleftrightarrow>
      s = time_text False t @ [90] \<and> 50 \<le> tm_year t \<and> tm_year t < 150 \<and> (\<exists>p. OPENSSL_tm_to_posix t = Some p)) \<and>
    (CBS_parse_generalized_time E False False s \<noteq> None \<longleftrightarrow> (\<exists>t. CBS_parse_generalized_time E False True s = Some (Some t))) \<and>
    (CBS_parse_utc_time E False False s \<noteq> None \<longleftrightarrow> (\<exists>t. CBS_parse_utc_time E False True s = Some (Some t)))"
proof -
  have g: "year_ok True (tm_year t + 1900)" if "\<exists>p. OPENSSL_tm_to_posix t = Some p" for t
    using that [unfolded tm_valid_iff] valid_date_bounds [of "tm_year t + 1900" "tm_mon t + 1" "tm_mday t"] by (simp add: year_ok_def)
  have u: "year_ok False (tm_year t + 1900) \<longleftrightarrow> 50 \<le> tm_year t \<and> tm_year t < 150" for t by (auto simp: year_ok_def)
  show ?thesis
    unfolding CBS_parse_generalized_time_def CBS_parse_utc_time_def time_internal_utc [OF assms] u using g by auto
qed

definition tm_noon :: tm where
  "tm_noon = \<lparr>tm_year = 120, tm_mon = 1, tm_mday = 29, tm_hour = 12, tm_min = 0, tm_sec = 7\<rparr>"

lemma tm_noon_text: "time_text False tm_noon = [50, 48, 48, 50, 50, 57, 49, 50, 48, 48, 48, 55]"
  by (simp add: time_text_def year_text_def two_def tm_noon_def byte_of_def)

lemma tm_noon_posix: "OPENSSL_tm_to_posix tm_noon = Some 1582977607"
  by (simp add: tm_noon_def) code_simp

text \<open>
  C38: What a time-zone offset does. If offsets are allowed, a UTCTime with the local time \<open>t\<close> and the
  zone \<open>+hhmm\<close> is returned as the date that is \<open>hhmm\<close> later than \<open>t\<close>, and with \<open>-hhmm\<close> as the one that
  is earlier. (A zone ahead of UTC means that UTC is earlier
  than the local time, so the result is not the UTC date.)\<close>
theorem utc_offset_sign:
  assumes "asn1_env_ok E" "OPENSSL_tm_to_posix t = Some p" "50 \<le> tm_year t" "tm_year t < 150"
    and "0 \<le> h" "h \<le> 23" "0 \<le> m" "m \<le> 59"
  shows "(CBS_parse_utc_time E True True (time_text False t @ 43 # two h @ two m) = Some (Some t') \<longleftrightarrow>
      OPENSSL_tm_to_posix t' = Some (p + (h * 3600 + m * 60))) \<and>
    (CBS_parse_utc_time E True True (time_text False t @ 45 # two h @ two m) = Some (Some t') \<longleftrightarrow>
      OPENSSL_tm_to_posix t' = Some (p - (h * 3600 + m * 60)))"
proof -
  define off where "off = h * 3600 + m * 60"
  have z: "zone True off (43 # two h @ two m)" "zone True (- off) (45 # two h @ two m)"
    using assms(5-8) unfolding zone_def off_def by blast+
  have y: "year_ok False (tm_year t + 1900)" using assms(3,4) by (simp add: year_ok_def)
  have adj: "map_option Some (OPENSSL_gmtime_adj t 0 off) = Some (Some t') \<longleftrightarrow> OPENSSL_tm_to_posix t' = Some (p + off)" for off
    using assms(2) by (simp add: gmtime_adj_eq tm_to_posix_iff [of t'])
  have zero: "t = t' \<longleftrightarrow> OPENSSL_tm_to_posix t' = Some p" using assms(2) tm_to_posix_iff by (metis option.inject)
  show ?thesis
    unfolding CBS_parse_utc_time_def time_internal_eval [OF assms(1) z(1) y assms(2)] time_internal_eval [OF assms(1) z(2) y assms(2)]
    unfolding off_def [symmetric] using adj [of off] adj [of "- off"] zero by (cases "off = 0") simp_all
qed

theorem utc_offset_sign_witness:
  "CBS_parse_utc_time asn1_env_std True True [50, 48, 48, 50, 50, 57, 49, 50, 48, 48, 48, 55, 43, 48, 49, 51, 48] =
     Some (Some (tm_noon\<lparr>tm_hour := 13, tm_min := 30\<rparr>))"
proof -
  have "OPENSSL_tm_to_posix (tm_noon\<lparr>tm_hour := 13, tm_min := 30\<rparr>) = Some 1582983007"
    by (simp add: tm_noon_def) code_simp
  then show ?thesis
    using utc_offset_sign [OF asn1_env_std_ok tm_noon_posix, of 1 30 "tm_noon\<lparr>tm_hour := 13, tm_min := 30\<rparr>"]
    by (simp add: tm_noon_text) (simp add: tm_noon_def two_def byte_of_def)
qed

end
