(* ===== verification/BS_Values.thy ===== *)
theory BS_Values
  imports BS_Time
begin

text \<open>
  Optional elements and bit strings (\<open>bytestring/cbs.c\<close>): when an element is taken to be present,
  what its absence or a malformed element leads to, and which bits a BIT STRING has.
\<close>

section \<open>Optional elements\<close>

definition starts_with :: "u32 \<Rightarrow> cbs \<Rightarrow> bool" where
  "starts_with tag s \<longleftrightarrow> (\<exists>x. s = der_tag tag @ x)"

lemma CBS_get_optional_asn1_iff:
  assumes E: "asn1_env_ok E" and tag: "valid_tag tag"
  shows "CBS_get_optional_asn1 E tag s = (Some r, s') \<longleftrightarrow>
    (case r of None \<Rightarrow> \<not> starts_with tag s \<and> s' = s
     | Some c \<Rightarrow> s = der_element tag c @ s' \<and> length c < 2 ^ 32)"
proof -
  have peek: "CBS_peek_asn1_tag E tag s \<longleftrightarrow> starts_with tag s"
    using CBS_peek_asn1_tag_iff [OF E] tag by (auto simp: starts_with_def)
  have get: "CBS_get_asn1 E tag s = (Some c, s') \<longleftrightarrow> s = der_element tag c @ s' \<and> length c < 2 ^ 32" for c
    using CBS_get_asn1_iff [OF E] tag by blast
  have el: "starts_with tag (der_element tag c @ s')" for c by (simp add: starts_with_def der_element_def)
  show ?thesis
    by (cases "starts_with tag s"; cases r; cases "CBS_get_asn1 E tag s")
       (use peek get el in \<open>auto simp: CBS_get_optional_asn1_def get_bind_def split: option.splits\<close>)
qed

text \<open>The value inside an optional element, read with \<open>get\<close>, which must use all of it.\<close>

lemma optional_value_iff:
  assumes E: "asn1_env_ok E" and tag: "valid_tag tag"
    and get: "\<And>c v. get c = (Some v, []) \<longleftrightarrow> inner v c" and len: "\<And>c v. inner v c \<Longrightarrow> length c < 2 ^ 32"
  shows "get_bind (CBS_get_optional_asn1 E tag s) (\<lambda>r s.
      case r of None \<Rightarrow> (Some dflt, s)
      | Some child \<Rightarrow> (case get child of (None, _) \<Rightarrow> (None, s)
          | (Some out, child) \<Rightarrow> if length child \<noteq> 0 then (None, s) else (Some out, s))) = (Some v, s') \<longleftrightarrow>
    \<not> starts_with tag s \<and> v = dflt \<and> s' = s \<or> (\<exists>c. s = der_element tag c @ s' \<and> inner v c)" (is "get_bind ?o ?k = _ \<longleftrightarrow> ?R")
proof
  assume "get_bind ?o ?k = (Some v, s')"
  then obtain r s1 where o: "?o = (Some r, s1)" and k: "?k r s1 = (Some v, s')" by (rule get_bindE)
  note o = o [unfolded CBS_get_optional_asn1_iff [OF E tag]]
  show ?R
  proof (cases r)
    case None
    then show ?thesis using o k by simp
  next
    case (Some c)
    then have "get c = (Some v, [])" "s' = s1" using k by (auto split: prod.splits option.splits if_splits)
    then show ?thesis using get o Some by auto
  qed
next
  assume ?R
  then show "get_bind ?o ?k = (Some v, s')"
  proof
    assume a: "\<not> starts_with tag s \<and> v = dflt \<and> s' = s"
    then have "?o = (Some None, s)" unfolding CBS_get_optional_asn1_iff [OF E tag] by simp
    then show ?thesis using a by (simp add: get_bind_def)
  next
    assume "\<exists>c. s = der_element tag c @ s' \<and> inner v c"
    then obtain c where c: "s = der_element tag c @ s'" "inner v c" by blast
    then have "?o = (Some (Some c), s')" unfolding CBS_get_optional_asn1_iff [OF E tag] using len by simp
    moreover have "get c = (Some v, [])" using get c(2) by simp
    ultimately show ?thesis by (simp add: get_bind_def)
  qed
qed

lemma short_element: "length c < 2 ^ 31 \<Longrightarrow> length (der_element tag c) < 2 ^ 32"
proof -
  assume c: "length c < 2 ^ 31"
  have "length (der_len (length c)) \<le> 5" using der_len_len_bounds [of "length c"] c by (auto simp: der_len_def)
  then show ?thesis using der_tag_length [of tag] c by (simp add: der_element_def)
qed

lemma der_uint_length: "length (der_uint v) \<le> 9"
proof -
  have "length (strip_zeros bs) \<le> Suc (length bs)" for bs by (induction bs rule: strip_zeros.induct) auto
  from this [of "nat_to_be 8 v"] show ?thesis by (simp add: der_uint_def)
qed

lemma CBS_get_optional_asn1_uint64_iff:
  assumes "asn1_env_ok E" "valid_tag tag"
  shows "CBS_get_optional_asn1_uint64 E tag dflt s = (Some v, s') \<longleftrightarrow>
    \<not> starts_with tag s \<and> v = dflt \<and> s' = s \<or> s = der_element tag (der_element 2 (der_uint (unat v))) @ s'"
proof -
  have len: "length (der_element 2 (der_uint n)) < 2 ^ 32" for n
    using short_element [of "der_uint n" 2] der_uint_length [of n] by simp
  show ?thesis
    unfolding CBS_get_optional_asn1_uint64_def
    by (subst optional_value_iff [OF assms, where inner = "\<lambda>v c. c = der_element 2 (der_uint (unat v))"])
       (use len in \<open>auto simp: CBS_get_asn1_uint64_iff [OF assms(1)]\<close>)
qed

lemma CBS_get_optional_asn1_bool_iff:
  assumes "asn1_env_ok E" "valid_tag tag"
  shows "CBS_get_optional_asn1_bool E tag dflt s = (Some v, s') \<longleftrightarrow>
    \<not> starts_with tag s \<and> v = dflt \<and> s' = s \<or> s = der_element tag (der_element 1 [if v then 0xff else 0]) @ s'"
proof -
  let ?get = "\<lambda>child. case CBS_get_asn1 E (TAG_BOOLEAN E) child of
      (None, s) \<Rightarrow> (None, s)
    | (Some child2, child) \<Rightarrow>
        if length child2 \<noteq> 1 then (None, child)
        else if hd child2 = 0 then (Some False, child)
        else if hd child2 = 0xff then (Some True, child) else (None, child)"
  have len: "length (der_element 1 [b]) < 2 ^ 32" for b using short_element [of "[b]" 1] by simp
  have g: "CBS_get_asn1 E (TAG_BOOLEAN E) c = (Some d, s1) \<longleftrightarrow> length d < 2 ^ 32 \<and> c = der_element 1 d @ s1" for c d s1
    using CBS_get_asn1_iff [OF assms(1)] tag_integer(3) by (simp add: tag_integer(5) [OF assms(1)])
  have get: "?get c = (Some v, []) \<longleftrightarrow> c = der_element 1 [if v then 0xff else 0]" for c v
  proof
    assume "?get c = (Some v, [])"
    then obtain d where d: "CBS_get_asn1 E (TAG_BOOLEAN E) c = (Some d, [])" "length d = 1"
        "if v then hd d = 0xff else hd d = 0" by (auto split: prod.splits option.splits if_splits)
    then have "d = [if v then 0xff else 0]" by (cases d) (auto split: if_splits)
    then show "c = der_element 1 [if v then 0xff else 0]" using d(1) g by simp
  next
    assume "c = der_element 1 [if v then 0xff else 0]"
    then have "CBS_get_asn1 E (TAG_BOOLEAN E) c = (Some [if v then 0xff else 0], [])" using g by simp
    then show "?get c = (Some v, [])" by simp
  qed
  have "CBS_get_optional_asn1_bool E tag dflt s =
      get_bind (CBS_get_optional_asn1 E tag s) (\<lambda>r s.
        case r of None \<Rightarrow> (Some dflt, s)
        | Some child \<Rightarrow> (case ?get child of (None, _) \<Rightarrow> (None, s)
            | (Some out, child) \<Rightarrow> if length child \<noteq> 0 then (None, s) else (Some out, s)))"
    unfolding CBS_get_optional_asn1_bool_def by (rule arg_cong [of _ _ "get_bind _"], intro ext)
      (auto simp: Let_def split: option.splits prod.splits)
  then show ?thesis
    using optional_value_iff [OF assms, of ?get "\<lambda>v c. c = der_element 1 [if v then 0xff else 0]" s dflt v s'] get len by auto
qed

lemma CBS_get_optional_asn1_octet_string_iff:
  assumes "asn1_env_ok E" "valid_tag tag"
  shows "CBS_get_optional_asn1_octet_string E tag s = (Some (c, present), s') \<longleftrightarrow>
    \<not> starts_with tag s \<and> c = [] \<and> \<not> present \<and> s' = s \<or>
    present \<and> length (der_element 4 c) < 2 ^ 32 \<and> s = der_element tag (der_element 4 c) @ s'"
proof -
  have g: "CBS_get_asn1 E (TAG_OCTETSTRING E) x = (Some d, s1) \<longleftrightarrow> length d < 2 ^ 32 \<and> x = der_element 4 d @ s1" for x d s1
    using CBS_get_asn1_iff [OF assms(1)] tag_integer(4) by (simp add: tag_integer(6) [OF assms(1)])
  note o = CBS_get_optional_asn1_iff [OF assms]
  have le: "length c \<le> length (der_element 4 c)" by (simp add: der_element_def)
  show ?thesis
  proof
    assume "CBS_get_optional_asn1_octet_string E tag s = (Some (c, present), s')"
    then show "\<not> starts_with tag s \<and> c = [] \<and> \<not> present \<and> s' = s \<or>
      present \<and> length (der_element 4 c) < 2 ^ 32 \<and> s = der_element tag (der_element 4 c) @ s'"
      unfolding CBS_get_optional_asn1_octet_string_def
      by (elim get_bindE) (auto simp: o g split: option.splits prod.splits if_splits)
  next
    assume "\<not> starts_with tag s \<and> c = [] \<and> \<not> present \<and> s' = s \<or>
      present \<and> length (der_element 4 c) < 2 ^ 32 \<and> s = der_element tag (der_element 4 c) @ s'"
    then show "CBS_get_optional_asn1_octet_string E tag s = (Some (c, present), s')"
    proof
      assume a: "\<not> starts_with tag s \<and> c = [] \<and> \<not> present \<and> s' = s"
      then have "CBS_get_optional_asn1 E tag s = (Some None, s)" by (simp add: o)
      then show ?thesis using a by (simp add: CBS_get_optional_asn1_octet_string_def get_bind_def)
    next
      assume a: "present \<and> length (der_element 4 c) < 2 ^ 32 \<and> s = der_element tag (der_element 4 c) @ s'"
      then have "CBS_get_optional_asn1 E tag s = (Some (Some (der_element 4 c)), s')" by (simp add: o)
      moreover have "CBS_get_asn1 E (TAG_OCTETSTRING E) (der_element 4 c) = (Some c, [])" using g a le by simp
      ultimately show ?thesis using a by (simp add: CBS_get_optional_asn1_octet_string_def get_bind_def)
    qed
  qed
qed

section \<open>Bit strings\<close>

lemma low_bits_zero: "n < 8 \<Longrightarrow> (b :: u8) AND (push_bit n 1 - 1) = 0 \<longleftrightarrow> (\<forall>i<n. \<not> bit b i)"
proof -
  assume n: "n < 8"
  have "push_bit n (1 :: u8) - 1 = mask n" by (simp add: mask_eq_exp_minus_1 push_bit_eq_mult)
  then have "b AND (push_bit n 1 - 1) = take_bit n b" by (simp add: take_bit_eq_mask)
  moreover have "take_bit n b = 0 \<longleftrightarrow> (\<forall>i<n. \<not> bit b i)"
    using n by (auto simp: bit_eq_iff bit_take_bit_iff)
  ultimately show ?thesis by simp
qed

lemma valid_bitstring_iff:
  "CBS_is_valid_asn1_bitstring s \<longleftrightarrow>
     (\<exists>u bs. s = u # bs \<and> unat u \<le> 7 \<and> (u \<noteq> 0 \<longrightarrow> bs \<noteq> [] \<and> (\<forall>i < unat u. \<not> bit (last bs) i)))"
proof (cases s)
  case (Cons u bs)
  have "CBS_get_last_u8 bs = (if bs = [] then (None, []) else (Some (last bs), butlast bs))"
    by (auto simp: CBS_get_last_u8_def last_conv_nth)
  then show ?thesis
    using low_bits_zero [of "unat u" "last bs"] Cons
    by (auto simp: CBS_is_valid_asn1_bitstring_def word_less_nat_alt split: if_splits)
qed (simp add: CBS_is_valid_asn1_bitstring_def)

text \<open>The code's index computation: byte \<open>n / 8\<close> behind the first one, the most significant bit first.\<close>

lemma bit_index:
  fixes b :: u32
  shows "unat (drop_bit 3 b + 1) = unat b div 8 + 1" "unat (7 - (b AND 7)) = 7 - unat b mod 8"
proof -
  have d: "unat (drop_bit 3 b) = unat b div 8" using unat_drop_bit_div [of 3 b] by simp
  have "unat b < 2 ^ 32" using unsigned_less [of b] by simp
  then have "unat b div 8 + 1 < 2 ^ 32" by (simp add: less_mult_imp_div_less)
  then show "unat (drop_bit 3 b + 1) = unat b div 8 + 1" by (simp add: unat_word_ariths(1) d)
  have m: "unat (b AND 7) = unat b mod 8"
    using unat_take_bit_mod [of 3 b] by (simp add: take_bit_eq_mask mask_numeral)
  moreover have "unat b mod 8 \<le> 7" using mod_less_divisor [of 8 "unat b"] by simp
  ultimately show "unat (7 - (b AND 7)) = 7 - unat b mod 8" by (simp add: unat_sub_if')
qed

lemma and_push_bit: "k < 8 \<Longrightarrow> (w :: u8) AND push_bit k 1 \<noteq> 0 \<longleftrightarrow> bit w k"
  using and_exp_eq_0_iff_not_bit [of w k] by (simp add: push_bit_eq_mult)

lemma has_bit_iff:
  "CBS_asn1_bitstring_has_bit s b \<longleftrightarrow>
     CBS_is_valid_asn1_bitstring s \<and> unat b div 8 + 1 < length s \<and> bit (s ! (unat b div 8 + 1)) (7 - unat b mod 8)"
  using and_push_bit [of "7 - unat b mod 8" "s ! (unat b div 8 + 1)"]
  by (simp only: CBS_asn1_bitstring_has_bit_def Let_def bit_index) auto

section \<open>Properties\<close>

text \<open>
  Optional elements are exact. An element with the tag is present if the string starts with that
  tag; then it must be a complete DER element, and for the typed readers its contents exactly one
  value of the type, in canonical form; otherwise the call fails. Without the tag the default is
  returned and nothing is consumed.\<close>
lemma optional_exact:
  assumes "asn1_env_ok E" "valid_tag tag"
  shows "(CBS_get_optional_asn1 E tag s = (Some (Some c), s') \<longleftrightarrow> s = der_element tag c @ s' \<and> length c < 2 ^ 32) \<and>
    (CBS_get_optional_asn1 E tag s = (Some None, s') \<longleftrightarrow> \<not> starts_with tag s \<and> s' = s) \<and>
    (CBS_get_optional_asn1_uint64 E tag dflt s = (Some v, s') \<longleftrightarrow>
      \<not> starts_with tag s \<and> v = dflt \<and> s' = s \<or> s = der_element tag (der_element 2 (der_uint (unat v))) @ s') \<and>
    (CBS_get_optional_asn1_bool E tag b0 s = (Some b, s') \<longleftrightarrow>
      \<not> starts_with tag s \<and> b = b0 \<and> s' = s \<or> s = der_element tag (der_element 1 [if b then 0xff else 0]) @ s') \<and>
    (CBS_get_optional_asn1_octet_string E tag s = (Some (c, present), s') \<longleftrightarrow>
      \<not> starts_with tag s \<and> c = [] \<and> \<not> present \<and> s' = s \<or>
      present \<and> length (der_element 4 c) < 2 ^ 32 \<and> s = der_element tag (der_element 4 c) @ s')"
  unfolding CBS_get_optional_asn1_iff [OF assms] CBS_get_optional_asn1_uint64_iff [OF assms]
    CBS_get_optional_asn1_bool_iff [OF assms] CBS_get_optional_asn1_octet_string_iff [OF assms] by simp

text \<open>
  \<open>CBS_asn1_bitstring_has_bit\<close> is true exactly for the bits of a valid BIT STRING that are set,
  counted from the most significant bit of the first byte: the index is below the number of bits
  (eight per byte less the unused ones) and the bit is one. Indices up to the largest \<open>unsigned\<close> do
  not wrap, and unused bits are never reported.\<close>
lemma bitstring_has_bit_exact:
  "CBS_asn1_bitstring_has_bit s n \<longleftrightarrow>
     CBS_is_valid_asn1_bitstring s \<and> unat n + unat (hd s) < 8 * (length s - 1) \<and>
     bit (s ! (unat n div 8 + 1)) (7 - unat n mod 8)"
proof -
  define q r where "q = unat n div 8" and "r = unat n mod 8"
  have n: "unat n = 8 * q + r" "r < 8" by (simp_all add: q_def r_def)
  have "unat n + unat (hd s) < 8 * (length s - 1) \<longleftrightarrow> q + 1 < length s"
    if v: "CBS_is_valid_asn1_bitstring s" and b: "bit (s ! (q + 1)) (7 - r)"
  proof
    assume "unat n + unat (hd s) < 8 * (length s - 1)"
    then show "q + 1 < length s" using n by linarith
  next
    assume q: "q + 1 < length s"
    obtain u bs where s: "s = u # bs" "unat u \<le> 7" "u \<noteq> 0 \<longrightarrow> bs \<noteq> [] \<and> (\<forall>i < unat u. \<not> bit (last bs) i)"
      using v valid_bitstring_iff by blast
    have l: "q < length bs" using q s(1) by simp
    show "unat n + unat (hd s) < 8 * (length s - 1)"
    proof (cases "Suc q = length bs \<and> u \<noteq> 0")
      case True
      then have "last bs = bs ! q" by (metis last_conv_nth diff_Suc_1 s(3))
      moreover have "bit (bs ! q) (7 - r)" using b s(1) by simp
      ultimately have "\<not> 7 - r < unat u" using s(3) True by metis
      then have "unat u + r \<le> 7" using n(2) by arith
      moreover have "length bs = q + 1" using True by simp
      ultimately show ?thesis using s(1) n(1) by simp
    next
      case False
      then have "u = 0 \<or> Suc q < length bs" using l by linarith
      then show ?thesis using s(1,2) n l by auto
    qed
  qed
  then show ?thesis unfolding has_bit_iff q_def [symmetric] r_def [symmetric] by blast
qed

end
