(* ===== verification/BS_Ber.thy ===== *)
theory BS_Ber
  imports BS_Values
begin

text \<open>
  \<open>bytestring/ber.c\<close> of BoringSSL: the conversion of BER to DER. A first pass looks for anything that
  is not DER (indefinite lengths, lengths that are not minimal, constructed strings); if there is
  something, a second pass parses the input again and writes it through a \<open>CBB\<close>. Both passes recurse
  into constructed elements, at most \<open>kMaxDepth\<close> levels deep.
\<close>

section \<open>Definitions\<close>

definition kMaxDepth :: nat where
  "kMaxDepth = 128"

definition is_string_type :: "asn1_env \<Rightarrow> u32 \<Rightarrow> bool" where
  "is_string_type E tag \<longleftrightarrow> tag AND NOT (CONSTRUCTED E) \<in> set (TAG_STRINGS E)"

lemma any_element_out:
  assumes "cbs_get_any_asn1_element E ber s = (Some el, s')"
  shows "0 < el_header_len el" "length (el_out el) \<le> length s"
proof -
  obtain t h where p: "parse_asn1_tag E s = (Some t, h)"
    using assms by (auto simp: cbs_get_any_asn1_element_def split: prod.splits option.splits)
  obtain b r where h: "h = b # r"
    using assms p by (cases h) (auto simp: cbs_get_any_asn1_element_def)
  have hl: "0 < length s - length r" using parse_asn1_tag_len [OF p] h by auto
  have out: "el_header_len el = m \<and> length (el_out el) \<le> length s"
    if "get_bind (CBS_get_bytes n s) (\<lambda>out s. (Some \<lparr>el_out = out, el_tag = t, el_header_len = m,
      el_ber_found = f, el_indefinite = i\<rparr>, s)) = (Some el, s')" for n m f i
    using that by (auto simp: CBS_get_bytes_def cbs_get_def get_bind_def split: if_splits)
  have "0 < el_header_len el \<and> length (el_out el) \<le> length s"
    using assms p h hl
    by (auto simp: cbs_get_any_asn1_element_def Let_def dest!: out split: prod.splits option.splits if_splits)
  then show "0 < el_header_len el" "length (el_out el) \<le> length s" by blast+
qed

lemma ber_contents_length:
  assumes "CBS_get_any_ber_asn1_element E s = (Some el, s')" "CBS_skip (el_header_len el) (el_out el) = (Some u, c)"
  shows "length c < length s"
  using any_element_out [OF assms(1) [unfolded CBS_get_any_ber_asn1_element_def]] assms(2)
  by (auto simp: CBS_skip_def cbs_get_def get_bind_def split: if_splits)

lemma ber_rest_length: "CBS_get_any_ber_asn1_element E s = (Some el, s') \<Longrightarrow> length s' < length s"
  unfolding CBS_get_any_ber_asn1_element_def by (rule any_element_progress)

text \<open>The loop of \<open>cbs_find_ber\<close>; the call for the contents of an element starts with the check of the depth.\<close>

function find_ber_loop :: "asn1_env \<Rightarrow> nat \<Rightarrow> cbs \<Rightarrow> bool option" where
  "find_ber_loop E depth cin =
     (if length cin = 0 then Some False
      else case CBS_get_any_ber_asn1_element E cin of
             (None, _) \<Rightarrow> None
           | (Some el, cin) \<Rightarrow>
               if el_ber_found el then Some True
               else if el_tag el AND CONSTRUCTED E \<noteq> 0 then
                 if is_string_type E (el_tag el) then Some True
                 else (case CBS_skip (el_header_len el) (el_out el) of
                         (None, _) \<Rightarrow> None
                       | (Some _, content) \<Rightarrow>
                           (case (if kMaxDepth < depth + 1 then None else find_ber_loop E (depth + 1) content) of
                              None \<Rightarrow> None
                            | Some True \<Rightarrow> Some True
                            | Some False \<Rightarrow> find_ber_loop E depth cin))
               else find_ber_loop E depth cin)"
  by pat_completeness auto
termination
  by (relation "measure (\<lambda>(E, depth, s). length s)") (auto dest: ber_rest_length [OF sym] intro: ber_contents_length [OF sym sym])

declare find_ber_loop.simps [simp del]

definition cbs_find_ber :: "asn1_env \<Rightarrow> cbs \<Rightarrow> nat \<Rightarrow> bool option" where
  "cbs_find_ber E orig_in depth = (if kMaxDepth < depth then None else find_ber_loop E depth orig_in)"

definition cbs_get_eoc :: "cbs \<Rightarrow> bool \<times> cbs" where
  "cbs_get_eoc s = (if 2 \<le> length s \<and> s ! 0 = 0 \<and> s ! 1 = 0 then (True, drop 2 s) else (False, s))"

text \<open>
  The handle for the contents of an element and the string tag for its children: inside a constructed
  string the contents go to the string itself, otherwise to a new element.
\<close>

definition convert_open :: "allocator \<Rightarrow> asn1_env \<Rightarrow> u32 \<Rightarrow> u32 \<Rightarrow> nat \<Rightarrow> cbb \<Rightarrow> (u32 \<times> nat) option \<times> cbb" where
  "convert_open H E string_tag tag d st =
     (if string_tag \<noteq> 0 then
        (if tag AND NOT (CONSTRUCTED E) \<noteq> string_tag then (None, st) else (Some (string_tag, d), st))
      else
        let is_string = (tag AND CONSTRUCTED E \<noteq> 0 \<and> is_string_type E tag);
            out_tag = (if is_string then tag AND NOT (CONSTRUCTED E) else tag) in
        (case CBB_add_asn1 H E out_tag d st of
           (False, st) \<Rightarrow> (None, st)
         | (True, st) \<Rightarrow> (Some (if is_string then out_tag else string_tag, Suc d), st)))"

function convert_ber_loop ::
  "allocator \<Rightarrow> asn1_env \<Rightarrow> u32 \<Rightarrow> bool \<Rightarrow> nat \<Rightarrow> cbs \<Rightarrow> nat \<Rightarrow> cbb \<Rightarrow> bool \<times> cbs \<times> cbb" where
  "convert_ber_loop H E string_tag looking_for_eoc depth cin d st =
     (if length cin = 0 then (\<not> looking_for_eoc, cin, st)
      else if looking_for_eoc \<and> fst (cbs_get_eoc cin) then (True, snd (cbs_get_eoc cin), st)
      else case CBS_get_any_ber_asn1_element E cin of
             (None, cin) \<Rightarrow> (False, cin, st)
           | (Some el, cin) \<Rightarrow>
               (case convert_open H E string_tag (el_tag el) d st of
                  (None, st) \<Rightarrow> (False, cin, st)
                | (Some (child_string_tag, out), st) \<Rightarrow>
                    (case
                       (if el_indefinite el then
                          (if kMaxDepth < depth + 1 then (False, cin, st)
                           else convert_ber_loop H E child_string_tag True (depth + 1) cin out st)
                        else
                          (case CBS_skip (el_header_len el) (el_out el) of
                             (None, _) \<Rightarrow> (False, cin, st)
                           | (Some _, content) \<Rightarrow>
                               (case
                                  (if el_tag el AND CONSTRUCTED E \<noteq> 0 then
                                     (if kMaxDepth < depth + 1 then (False, content, st)
                                      else convert_ber_loop H E child_string_tag False (depth + 1) content out st)
                                   else (case CBB_add_bytes H content out st of (ok, st) \<Rightarrow> (ok, content, st))) of
                                  (ok, _, st) \<Rightarrow> (ok, cin, st)))) of
                       (False, cin, st) \<Rightarrow> (False, cin, st)
                     | (True, cin, st) \<Rightarrow>
                         (case CBB_flush H d st of
                            (False, st) \<Rightarrow> (False, cin, st)
                          | (True, st) \<Rightarrow> convert_ber_loop H E string_tag looking_for_eoc depth cin d st))))"
  by pat_completeness auto

termination
proof -
  have dom_length: "convert_ber_loop_dom (H, E, string_tag, looking, depth, cin, d, st) \<Longrightarrow>
      convert_ber_loop H E string_tag looking depth cin d st = (ok, cin', st') \<Longrightarrow> length cin' \<le> length cin"
    for H E string_tag looking depth cin d st ok cin' st'
  proof (induction H E string_tag looking depth cin d st arbitrary: ok cin' st' rule: convert_ber_loop.pinduct)
    case (1 H E string_tag looking depth cin d st)
    show ?case
    proof (cases "length cin = 0 \<or> looking \<and> fst (cbs_get_eoc cin)")
      case True
      then show ?thesis
        using 1(5) by (auto simp: convert_ber_loop.psimps [OF 1(1)] cbs_get_eoc_def split: if_splits)
    next
      case False
      then have nz: "length cin \<noteq> 0" "\<not> (looking \<and> fst (cbs_get_eoc cin))" by blast+
      note unf = convert_ber_loop.psimps [OF 1(1)]
      obtain el c1 where g: "CBS_get_any_ber_asn1_element E cin = (el, c1)" by fastforce
      obtain op st1 where o: "convert_open H E string_tag (el_tag (the el)) d st = (op, st1)" by fastforce
      show ?thesis
      proof (cases "el = None \<or> op = None")
        case True
        have "el = None \<Longrightarrow> c1 = cin" using g any_element_keeps unfolding CBS_get_any_ber_asn1_element_def by blast
        moreover have "el \<noteq> None \<Longrightarrow> length c1 < length cin" using g ber_rest_length by auto
        ultimately show ?thesis
          using 1(5) True nz g o by (cases el) (auto simp: unf)
      next
        case some: False
        then obtain e child out where e: "el = Some e" and op: "op = Some (child, out)" by auto
        have c1: "length c1 < length cin" using g e ber_rest_length by simp
        define body where "body = (if el_indefinite e then
               (if kMaxDepth < depth + 1 then (False, c1, st1)
                else convert_ber_loop H E child True (depth + 1) c1 out st1)
             else (case CBS_skip (el_header_len e) (el_out e) of
                  (None, _) \<Rightarrow> (False, c1, st1)
                | (Some _, content) \<Rightarrow>
                    (case (if el_tag e AND CONSTRUCTED E \<noteq> 0 then
                          (if kMaxDepth < depth + 1 then (False, content, st1)
                           else convert_ber_loop H E child False (depth + 1) content out st1)
                        else (case CBB_add_bytes H content out st1 of (ok, st) \<Rightarrow> (ok, content, st))) of
                       (ok, _, st) \<Rightarrow> (ok, c1, st))))"
        have o1: "convert_open H E string_tag (el_tag e) d st = (Some (child, out), st1)" using o e op by simp
        have unf1: "convert_ber_loop H E string_tag looking depth cin d st =
            (case body of (False, cin, st) \<Rightarrow> (False, cin, st)
             | (True, cin, st) \<Rightarrow> (case CBB_flush H d st of (False, st) \<Rightarrow> (False, cin, st)
                 | (True, st) \<Rightarrow> convert_ber_loop H E string_tag looking depth cin d st))"
          unfolding unf if_not_P [OF nz(1)] if_not_P [OF nz(2)] g e prod.case option.case o1 body_def by (rule refl)
        obtain ok1 c2 st2 where b: "body = (ok1, c2, st2)" by (cases body) auto
        have "length c2 \<le> length c1"
          using 1(2) [OF nz g [symmetric] e o [unfolded e option.sel, symmetric] op refl] b
          by (auto simp: body_def split: if_splits prod.splits option.splits)
        moreover have "length cin' \<le> length c2"
        proof (cases ok1)
          case True
          obtain ok2 st3 where f: "CBB_flush H d st2 = (ok2, st3)" by fastforce
          have r: "(ok, cin', st') = (if ok2 then convert_ber_loop H E string_tag looking depth c2 d st3 else (False, c2, st3))"
            using 1(5) [unfolded unf1 b] f True by (cases ok2) simp_all
          show ?thesis
          proof (cases ok2)
            case ok2: True
            have "convert_ber_loop H E string_tag looking depth c2 d st3 = (ok, cin', st')" using r ok2 by simp
            from 1(4) [OF nz g [symmetric] e o [unfolded e option.sel, symmetric] op refl b [unfolded body_def, symmetric]
              eqTrueI [OF True] refl f [symmetric] eqTrueI [OF ok2] this] show ?thesis .
          qed (use r in simp)
        next
          case no: False
          then show ?thesis using 1(5) [unfolded unf1 b] by simp
        qed
        ultimately show ?thesis using c1 by linarith
      qed
    qed
  qed
  show ?thesis
  proof (relation "measure (\<lambda>(H, E, string_tag, looking, depth, cin, d, st). length cin)", goal_cases)
    case (2 H E string_tag looking depth cin d st x y el)
    then show ?case by (auto dest: ber_rest_length [OF sym])
  next
    case (3 H E string_tag looking depth cin d st x y el)
    then show ?case by (auto dest!: ber_contents_length [OF sym sym])
  next
    case (4 H E string_tag looking depth cin d st x c1 el opt st1 op child out ok1 rest c2 st2)
    then have c1: "length c1 < length cin" by (auto dest: ber_rest_length [OF sym])
    have "length c2 \<le> length c1"
      using 4 by (auto split: if_splits prod.splits option.splits dest: dom_length [OF _ sym])
    with c1 show ?case by simp
  qed simp
qed

declare convert_ber_loop.simps [simp del]

definition cbs_convert_ber :: "allocator \<Rightarrow> asn1_env \<Rightarrow> cbs \<Rightarrow> nat \<Rightarrow> u32 \<Rightarrow> bool \<Rightarrow> nat \<Rightarrow> cbb \<Rightarrow> bool \<times> cbs \<times> cbb" where
  "cbs_convert_ber H E cin d string_tag looking_for_eoc depth st =
     (if kMaxDepth < depth then (False, cin, st) else convert_ber_loop H E string_tag looking_for_eoc depth cin d st)"

text \<open>The result is the output and whether it is in a buffer of its own (\<open>out_storage\<close> is not null).\<close>

definition CBS_asn1_ber_to_der :: "allocator \<Rightarrow> asn1_env \<Rightarrow> cbs \<Rightarrow> (cbs \<times> bool) option \<times> cbs" where
  "CBS_asn1_ber_to_der H E cin =
     (case cbs_find_ber E cin 0 of
        None \<Rightarrow> (None, cin)
      | Some conversion_needed \<Rightarrow>
          if \<not> conversion_needed then
            get_bind (CBS_get_any_asn1_element E cin) (\<lambda>el cin. (Some (el_out el, False), cin))
          else
            (case CBB_init H (length cin) of
               (False, _) \<Rightarrow> (None, cin)
             | (True, cbb) \<Rightarrow>
                 (case cbs_convert_ber H E cin 0 0 False 0 cbb of
                    (False, cin, _) \<Rightarrow> (None, cin)
                  | (True, cin, cbb) \<Rightarrow>
                      (case CBB_finish H True 0 cbb of
                         (None, _) \<Rightarrow> (None, cin)
                       | (Some out, _) \<Rightarrow> (Some (out, True), cin)))))"

lemma CBS_get_asn1_rest_length: "CBS_get_asn1 E tag s = (Some c, s') \<Longrightarrow> length s' < length s"
  by (auto simp: CBS_get_asn1_def cbs_get_asn1_def get_bind_def CBS_get_any_asn1_element_def
      dest!: any_element_progress split: prod.splits option.splits if_splits)

function implicit_string_loop :: "allocator \<Rightarrow> asn1_env \<Rightarrow> u32 \<Rightarrow> cbs \<Rightarrow> cbb \<Rightarrow> bool \<times> cbb" where
  "implicit_string_loop H E inner_tag child result =
     (if length child = 0 then (True, result)
      else case CBS_get_asn1 E inner_tag child of
             (None, _) \<Rightarrow> (False, result)
           | (Some chunk, child) \<Rightarrow>
               and_then (CBB_add_bytes H chunk 0 result) (implicit_string_loop H E inner_tag child))"
  by pat_completeness auto
termination
  by (relation "measure (\<lambda>(H, E, inner_tag, child, result). length child)") (auto dest: CBS_get_asn1_rest_length [OF sym])

declare implicit_string_loop.simps [simp del]

definition CBS_get_asn1_implicit_string ::
  "allocator \<Rightarrow> asn1_env \<Rightarrow> u32 \<Rightarrow> u32 \<Rightarrow> cbs \<Rightarrow> (cbs \<times> bool) option \<times> cbs" where
  "CBS_get_asn1_implicit_string H E outer_tag inner_tag cin =
     (if CBS_peek_asn1_tag E outer_tag cin then
        get_bind (CBS_get_asn1 E outer_tag cin) (\<lambda>out cin. (Some (out, False), cin))
      else
        (case CBB_init H (length cin) of
           (False, _) \<Rightarrow> (None, cin)
         | (True, result) \<Rightarrow>
             get_bind (CBS_get_asn1 E (outer_tag OR CONSTRUCTED E) cin) (\<lambda>child cin.
               (case implicit_string_loop H E inner_tag child result of
                  (False, _) \<Rightarrow> (None, cin)
                | (True, result) \<Rightarrow>
                    (case CBB_finish H True 0 result of
                       (None, _) \<Rightarrow> (None, cin)
                     | (Some data, _) \<Rightarrow> (Some (data, True), cin))))))"

section \<open>BER\<close>

text \<open>
  An element of BER: a primitive one with its contents, or a constructed one with its elements. The
  length is in the short form, in a long form of up to four bytes that need not be minimal, or
  indefinite, with the elements followed by two zero bytes.
\<close>

datatype ber = Prim u32 "u8 list" | Constr u32 "ber list"

abbreviation constructed :: "u32 \<Rightarrow> bool" where
  "constructed t \<equiv> t AND 0x20000000 \<noteq> 0"

abbreviation base_tag :: "u32 \<Rightarrow> u32" where
  "base_tag t \<equiv> t AND NOT 0x20000000"

definition ber_len :: "nat \<Rightarrow> u8 list \<Rightarrow> bool" where
  "ber_len n l \<longleftrightarrow> n < 128 \<and> l = [byte_of n] \<or>
     (\<exists>k. 1 \<le> k \<and> k \<le> 4 \<and> n < 256 ^ k \<and> l = byte_of (128 + k) # nat_to_be k n)"

inductive ber_enc :: "ber \<Rightarrow> u8 list \<Rightarrow> bool" and ber_encs :: "ber list \<Rightarrow> u8 list \<Rightarrow> bool" where
  prim: "valid_tag t \<Longrightarrow> \<not> constructed t \<Longrightarrow> ber_len (length c) l \<Longrightarrow> ber_enc (Prim t c) (der_tag t @ l @ c)"
| definite: "valid_tag t \<Longrightarrow> constructed t \<Longrightarrow> ber_encs ts c \<Longrightarrow> ber_len (length c) l \<Longrightarrow>
    ber_enc (Constr t ts) (der_tag t @ l @ c)"
| indefinite: "valid_tag t \<Longrightarrow> constructed t \<Longrightarrow> ber_encs ts c \<Longrightarrow>
    ber_enc (Constr t ts) (der_tag t @ 0x80 # c @ [0, 0])"
| none: "ber_encs [] []"
| more: "ber_enc x b \<Longrightarrow> ber_encs xs bs \<Longrightarrow> ber_encs (x # xs) (b @ bs)"

text \<open>The value of a string that may be constructed, and the DER encoding of an element: a constructed
  string becomes a primitive one, all lengths become minimal.\<close>

fun flat :: "ber \<Rightarrow> u8 list" where
  "flat (Prim t c) = c"
| "flat (Constr t ts) = concat (map flat ts)"

fun all_tagged :: "u32 \<Rightarrow> ber \<Rightarrow> bool" where
  "all_tagged u (Prim t c) \<longleftrightarrow> base_tag t = u"
| "all_tagged u (Constr t ts) \<longleftrightarrow> base_tag t = u \<and> list_all (all_tagged u) ts"

fun der :: "(u32 \<Rightarrow> bool) \<Rightarrow> ber \<Rightarrow> u8 list" where
  "der S (Prim t c) = der_element t c"
| "der S (Constr t ts) =
     (if S t then der_element (base_tag t) (concat (map flat ts)) else der_element t (concat (map (der S) ts)))"

fun strings_ok :: "(u32 \<Rightarrow> bool) \<Rightarrow> ber \<Rightarrow> bool" where
  "strings_ok S (Prim t c) \<longleftrightarrow> True"
| "strings_ok S (Constr t ts) \<longleftrightarrow>
     (if S t then list_all (all_tagged (base_tag t)) ts else list_all (strings_ok S) ts)"

section \<open>Parsing an element of BER\<close>

lemma any_element_indefinite:
  assumes E: "asn1_env_ok E" and t: "valid_tag t" "constructed t"
  shows "cbs_get_any_asn1_element E True (der_tag t @ 0x80 # r) =
    (Some \<lparr>el_out = der_tag t @ [0x80], el_tag = t, el_header_len = length (der_tag t) + 1,
       el_ber_found = True, el_indefinite = True\<rparr>, r)"
proof -
  let ?s = "der_tag t @ 0x80 # r"
  have p: "parse_asn1_tag E ?s = (Some t, 0x80 # r)" using parse_asn1_tag_iff [OF E] t(1) by simp
  have c: "CONSTRUCTED E = 0x20000000" using E by (simp add: asn1_env_ok_def)
  have "length ?s - length r = length (der_tag t) + 1" by simp
  then show ?thesis using p c t(2)
    by (simp add: cbs_get_any_asn1_element_def Let_def CBS_get_bytes_def cbs_get_def get_bind_def)
qed

definition definite_element :: "asn1_element \<Rightarrow> cbs \<Rightarrow> cbs \<Rightarrow> bool" where
  "definite_element el s s' \<longleftrightarrow>
     (\<exists>l c. CBS_skip (el_header_len el) (el_out el) = (Some (), c) \<and> ber_len (length c) l \<and>
        s = der_tag (el_tag el) @ l @ c @ s' \<and>
        (\<not> el_ber_found el \<longrightarrow> length c < 2 ^ 32 \<and> der_tag (el_tag el) @ l @ c = der_element (el_tag el) c))"

lemma definite_elementI:
  assumes "CBS_skip (el_header_len el) (el_out el) = (Some (), c)" "ber_len (length c) l"
    "s = der_tag (el_tag el) @ l @ c @ s'"
    "\<not> el_ber_found el \<Longrightarrow> length c < 2 ^ 32 \<and> der_tag (el_tag el) @ l @ c = der_element (el_tag el) c"
  shows "definite_element el s s'"
  using assms unfolding definite_element_def by blast

lemma definite_short:
  assumes b: "unat b < 128" "unat b \<le> length r"
  shows "definite_element (der_elem t (take (unat b) r)) (der_tag t @ b # r) (drop (unat b) r)"
proof -
  let ?c = "take (unat b) r"
  have l: "length ?c = unat b" using b(2) by simp
  have "der_len (unat b) = [b]" using b(1) by (simp add: der_len_def)
  moreover have "ber_len (unat b) [b]" using b(1) by (simp add: ber_len_def)
  moreover have "length ?c < 2 ^ 32" using b(1) l by simp
  ultimately show ?thesis
    using l der_elem_sel(3) [of t ?c] by (intro definite_elementI [where l = "[b]" and c = ?c]) (simp_all add: der_element_def)
qed

lemma definite_long:
  assumes k: "128 \<le> unat b" "k = unat b - 128" "1 \<le> k" "k \<le> 4" "k + n \<le> length r" "n = be_to_nat (take k r)"
    and m: "m \<longleftrightarrow> n < 128 \<or> n < 256 ^ (k - 1)"
  shows "definite_element (long_elem t b k n m r) (der_tag t @ b # r) (drop (k + n) r)"
proof -
  let ?c = "take n (drop k r)" and ?l = "b # take k r"
  have len: "length ?c = n" using k(5) by simp
  have lt: "n < 256 ^ k" using be_to_nat_less [of "take k r"] k(5,6) by simp
  have b: "byte_of (128 + k) = b" using k(1,2) by simp
  have "nat_to_be k n = take k r" using k(5,6) by simp
  then have "ber_len n ?l" unfolding ber_len_def using k(3,4) lt b by auto
  moreover have "der_tag t @ b # r = der_tag t @ ?l @ ?c @ drop (k + n) r"
    by simp (metis append_take_drop_id drop_drop add.commute)
  moreover have "CBS_skip (length (der_tag t) + 1 + k) (der_tag t @ b # take (k + n) r) = (Some (), ?c)"
    using k(5) unfolding take_add by (auto simp: CBS_skip_def cbs_get_def get_bind_def)
  moreover have "n < 2 ^ 32" using lt power_increasing [of k 4 "256 :: nat"] k(4) by simp
  moreover have "der_tag t @ ?l @ ?c = der_element t ?c" if "\<not> m"
    using long_elem_der(3) [OF k] that m by (simp add: take_add)
  ultimately show ?thesis
    using len by (intro definite_elementI [where l = ?l and c = ?c]) (simp_all add: long_elem_def)
qed

lemma ber_element_sound:
  assumes E: "asn1_env_ok E" and g: "CBS_get_any_ber_asn1_element E s = (Some el, s')"
  shows "valid_tag (el_tag el)"
    and "if el_indefinite el then constructed (el_tag el) \<and> el_ber_found el \<and> s = der_tag (el_tag el) @ 0x80 # s'
      else definite_element el s s'"
proof -
  note g = g [unfolded CBS_get_any_ber_asn1_element_def]
  obtain t r0 where t: "valid_tag t" "s = der_tag t @ r0"
    using any_element_no_tag [OF E, of s True] g by force
  obtain b r where r: "r0 = b # r" using any_element_no_len [OF E t(1), of True] g t(2) by (cases r0) auto
  note g = g [unfolded t(2) r]
  have "valid_tag (el_tag el) \<and>
    (if el_indefinite el then constructed (el_tag el) \<and> el_ber_found el \<and> s = der_tag (el_tag el) @ 0x80 # s'
     else definite_element el s s')"
  proof (cases "unat b < 128")
    case True
    then have "unat b \<le> length r" "el = der_elem t (take (unat b) r)" "s' = drop (unat b) r"
      using g any_element_short_form [OF E t(1) True, of True r] by (auto split: if_splits)
    moreover have "\<not> el_indefinite (der_elem t c)" for c by (simp add: der_elem_def)
    ultimately show ?thesis using definite_short [OF True, of r t] t r by simp
  next
    case False
    define k where "k = unat b - 128"
    have b: "128 \<le> unat b" using False by simp
    show ?thesis
    proof (cases "constructed t \<and> k = 0")
      case True
      then have "b = 0x80" using b by (simp add: byte_eq_iff k_def)
      then show ?thesis using g any_element_indefinite [OF E t(1), of r] True t r by auto
    next
      case nindef: False
      then have k: "1 \<le> k" "k \<le> 4" "k \<le> length r"
        using any_element_bad_long_form [OF E t(1) b k_def, of True r] g by force+
      define n where "n = be_to_nat (take k r)"
      define m where "m \<longleftrightarrow> n < 128 \<or> n < 256 ^ (k - 1)"
      have e: "k + n \<le> length r" "el = long_elem t b k n m r" "s' = drop (k + n) r"
        using g any_element_long_form [OF E t(1) b k_def k n_def m_def, of True] by (auto split: if_splits)
      have "\<not> el_indefinite el" "el_tag el = t" by (simp_all add: e long_elem_def)
      then show ?thesis using definite_long [OF b k_def k(1,2) e(1) n_def m_def, of t] e t r by simp
    qed
  qed
  then show "valid_tag (el_tag el)"
    "if el_indefinite el then constructed (el_tag el) \<and> el_ber_found el \<and> s = der_tag (el_tag el) @ 0x80 # s'
      else definite_element el s s'" by blast+
qed

section \<open>The conversion\<close>

definition string_tag_of :: "asn1_env \<Rightarrow> u32 \<Rightarrow> bool" where
  "string_tag_of E t \<longleftrightarrow> constructed t \<and> base_tag t \<in> set (TAG_STRINGS E)"

text \<open>What the loop writes for an element, and which elements it accepts: inside a string with the tag \<open>u\<close> the bytes
  of its parts, at the top level (\<open>u = 0\<close>) the DER encoding.\<close>

definition conv :: "asn1_env \<Rightarrow> u32 \<Rightarrow> ber \<Rightarrow> u8 list" where
  "conv E u x = (if u = 0 then der (string_tag_of E) x else flat x)"

definition conv_ok :: "asn1_env \<Rightarrow> u32 \<Rightarrow> ber \<Rightarrow> bool" where
  "conv_ok E u x \<longleftrightarrow> (if u = 0 then strings_ok (string_tag_of E) x else all_tagged u x)"

definition child_tag :: "asn1_env \<Rightarrow> u32 \<Rightarrow> u32 \<Rightarrow> u32" where
  "child_tag E u t = (if u \<noteq> 0 then u else if string_tag_of E t then base_tag t else 0)"

lemma convert_openE:
  assumes E: "asn1_env_ok E" and st: "ready d st" and t: "valid_tag t"
    and o: "convert_open H E u t d st = (Some (child, out), st1)"
  shows "child = child_tag E u t" "u \<noteq> 0 \<Longrightarrow> base_tag t = u" "ready out st1"
    "appends out c st1 st2 \<Longrightarrow> CBB_flush H d st2 = (True, st3) \<Longrightarrow>
     appends d (if u \<noteq> 0 then c else der_element (if string_tag_of E t then base_tag t else t) c) st st3"
proof -
  have e: "CONSTRUCTED E = 0x20000000" using E by (simp add: asn1_env_ok_def)
  let ?t = "if string_tag_of E t then base_tag t else t"
  have s: "string_tag_of E t \<longleftrightarrow> constructed t \<and> is_string_type E t" by (simp add: string_tag_of_def is_string_type_def e)
  have ok: "cbb_ok st" using st by (simp add: ready_def)
  have goal: "child = child_tag E u t \<and> (u \<noteq> 0 \<longrightarrow> base_tag t = u) \<and> ready out st1 \<and>
    (appends out c st1 st2 \<longrightarrow> CBB_flush H d st2 = (True, st3) \<longrightarrow>
     appends d (if u \<noteq> 0 then c else der_element ?t c) st st3)"
  proof (cases "u = 0")
    case True
    obtain st1' where a: "CBB_add_asn1 H E ?t d st = (True, st1')"
      and r: "child = (if string_tag_of E t then ?t else 0)" "out = Suc d" "st1 = st1'"
      using o True unfolding convert_open_def Let_def e s by (auto split: prod.splits bool.splits)
    have "ready (Suc d) st1" using CBB_add_asn1_opens [OF E ok a] r by (simp add: opens_def)
    then show ?thesis
      using True r asn1_element_appends(1) [OF E ok a] by (auto simp: child_tag_def)
  next
    case False
    then have r: "base_tag t = u" "child = u" "out = d" "st1 = st"
      using o unfolding convert_open_def e by (auto split: if_splits)
    have "appends d c st st3" if "appends d c st st2" "CBB_flush H d st2 = (True, st3)"
      using that ready_flush [OF appends_ready [OF that(1)], of H] by simp
    then show ?thesis using False r st by (simp add: child_tag_def)
  qed
  then show "child = child_tag E u t" "u \<noteq> 0 \<Longrightarrow> base_tag t = u" "ready out st1"
    "appends out c st1 st2 \<Longrightarrow> CBB_flush H d st2 = (True, st3) \<Longrightarrow>
     appends d (if u \<noteq> 0 then c else der_element ?t c) st st3" by blast+
qed

text \<open>One round of the loop that succeeds.\<close>

lemma convert_ber_loop_cases:
  assumes "convert_ber_loop H E u looking depth cin d st = (True, cin', st')"
  obtains (empty) "cin = []" "\<not> looking" "cin' = []" "st' = st"
  | (eoc) "looking" "cin = 0 # 0 # cin'" "st' = st"
  | (indefinite) el c1 child out st1 c2 st2 st3 where
      "CBS_get_any_ber_asn1_element E cin = (Some el, c1)" "convert_open H E u (el_tag el) d st = (Some (child, out), st1)"
      "el_indefinite el" "convert_ber_loop H E child True (depth + 1) c1 out st1 = (True, c2, st2)" "depth < kMaxDepth"
      "CBB_flush H d st2 = (True, st3)" "convert_ber_loop H E u looking depth c2 d st3 = (True, cin', st')"
  | (definite) el c1 child out st1 c c' st2 st3 where
      "CBS_get_any_ber_asn1_element E cin = (Some el, c1)" "convert_open H E u (el_tag el) d st = (Some (child, out), st1)"
      "\<not> el_indefinite el" "CBS_skip (el_header_len el) (el_out el) = (Some (), c)"
      "el_tag el AND CONSTRUCTED E \<noteq> 0" "convert_ber_loop H E child False (depth + 1) c out st1 = (True, c', st2)" "depth < kMaxDepth"
      "CBB_flush H d st2 = (True, st3)" "convert_ber_loop H E u looking depth c1 d st3 = (True, cin', st')"
  | (primitive) el c1 child out st1 c st2 st3 where
      "CBS_get_any_ber_asn1_element E cin = (Some el, c1)" "convert_open H E u (el_tag el) d st = (Some (child, out), st1)"
      "\<not> el_indefinite el" "CBS_skip (el_header_len el) (el_out el) = (Some (), c)"
      "el_tag el AND CONSTRUCTED E = 0" "CBB_add_bytes H c out st1 = (True, st2)"
      "CBB_flush H d st2 = (True, st3)" "convert_ber_loop H E u looking depth c1 d st3 = (True, cin', st')"
proof -
  note unf = assms [unfolded convert_ber_loop.simps [of H E u looking depth cin d st]]
  show thesis
  proof (cases "length cin = 0 \<or> looking \<and> fst (cbs_get_eoc cin)")
    case True
    have "cin = 0 # 0 # drop 2 cin" if "2 \<le> length cin" "cin ! 0 = 0" "cin ! 1 = 0"
      using that by (cases cin; cases "tl cin") auto
    then show ?thesis
      using unf True empty eoc by (auto simp: cbs_get_eoc_def split: if_splits)
  next
    case False
    then have nz: "length cin \<noteq> 0" "\<not> (looking \<and> fst (cbs_get_eoc cin))" by blast+
    obtain el c1 where g: "CBS_get_any_ber_asn1_element E cin = (Some el, c1)"
      using unf nz by (cases "CBS_get_any_ber_asn1_element E cin"; cases "fst (CBS_get_any_ber_asn1_element E cin)") auto
    obtain child out st1 where o: "convert_open H E u (el_tag el) d st = (Some (child, out), st1)"
      using unf nz g by (cases "convert_open H E u (el_tag el) d st"; cases "fst (convert_open H E u (el_tag el) d st)") auto
    define body where "body = (if el_indefinite el then
             (if kMaxDepth < depth + 1 then (False, c1, st1)
              else convert_ber_loop H E child True (depth + 1) c1 out st1)
           else (case CBS_skip (el_header_len el) (el_out el) of
                (None, _) \<Rightarrow> (False, c1, st1)
              | (Some _, content) \<Rightarrow>
                  (case (if el_tag el AND CONSTRUCTED E \<noteq> 0 then
                        (if kMaxDepth < depth + 1 then (False, content, st1)
                         else convert_ber_loop H E child False (depth + 1) content out st1)
                      else (case CBB_add_bytes H content out st1 of (ok, st) \<Rightarrow> (ok, content, st))) of
                     (ok, _, st) \<Rightarrow> (ok, c1, st))))"
    have unf1: "(case body of (False, cin, st) \<Rightarrow> (False, cin, st)
           | (True, cin, st) \<Rightarrow> (case CBB_flush H d st of (False, st) \<Rightarrow> (False, cin, st)
               | (True, st) \<Rightarrow> convert_ber_loop H E u looking depth cin d st)) = (True, cin', st')"
      using unf unfolding if_not_P [OF nz(1)] if_not_P [OF nz(2)] g prod.case option.case o body_def .
    obtain c2 st2 where b: "body = (True, c2, st2)" using unf1 by (cases body; cases "fst body") auto
    obtain st3 where f: "CBB_flush H d st2 = (True, st3)"
      using unf1 b by (cases "CBB_flush H d st2"; cases "fst (CBB_flush H d st2)") auto
    have r: "convert_ber_loop H E u looking depth c2 d st3 = (True, cin', st')" using unf1 b f by simp
    show ?thesis
    proof (cases "el_indefinite el")
      case True
      then have "convert_ber_loop H E child True (depth + 1) c1 out st1 = (True, c2, st2)" "depth < kMaxDepth"
        using b unfolding body_def by (auto split: if_splits)
      from indefinite [OF g o True this f r] show ?thesis .
    next
      case False
      then obtain c where sk: "CBS_skip (el_header_len el) (el_out el) = (Some (), c)"
        using b unfolding body_def by (cases "CBS_skip (el_header_len el) (el_out el)"; cases "fst (CBS_skip (el_header_len el) (el_out el))") auto
      note b1 = b [unfolded body_def if_not_P [OF False] sk prod.case option.case]
      show ?thesis
      proof (cases "el_tag el AND CONSTRUCTED E = 0")
        case prim: True
        then have "CBB_add_bytes H c out st1 = (True, st2)" "c2 = c1" using b1 by (auto split: prod.splits)
        then show ?thesis using primitive [OF g o False sk prim _ f] r by blast
      next
        case con: False
        then obtain c' where "convert_ber_loop H E child False (depth + 1) c out st1 = (True, c', st2)" "depth < kMaxDepth" "c2 = c1"
          using b1 by (auto split: if_splits prod.splits)
        then show ?thesis using definite [OF g o False sk con _ _ f] r by blast
      qed
    qed
  qed
qed

lemma child_tag_eq_0: "valid_tag t \<Longrightarrow> child_tag E u t = 0 \<longleftrightarrow> u = 0 \<and> \<not> string_tag_of E t"
  by (simp add: child_tag_def valid_tag_def)

lemma conv_Prim:
  "\<not> constructed t \<Longrightarrow> conv E u (Prim t c) = (if u \<noteq> 0 then c else der_element (if string_tag_of E t then base_tag t else t) c)"
  by (simp add: conv_def string_tag_of_def)

lemma conv_Constr:
  "valid_tag t \<Longrightarrow> conv E u (Constr t ts) =
     (if u \<noteq> 0 then concat (map (conv E (child_tag E u t)) ts)
      else der_element (if string_tag_of E t then base_tag t else t) (concat (map (conv E (child_tag E u t)) ts)))"
  using child_tag_eq_0 [of t E u] by (auto simp: conv_def cong: map_cong)

lemma conv_ok_Constr:
  "valid_tag t \<Longrightarrow> conv_ok E u (Constr t ts) \<longleftrightarrow> (u \<noteq> 0 \<longrightarrow> base_tag t = u) \<and> list_all (conv_ok E (child_tag E u t)) ts"
  using child_tag_eq_0 [of t E u] by (auto simp: conv_ok_def child_tag_def list_all_iff)

lemma conv_ok_Prim: "conv_ok E u (Prim t c) \<longleftrightarrow> (u \<noteq> 0 \<longrightarrow> base_tag t = u)"
  by (simp add: conv_ok_def)

text \<open>The number of constructed elements around one another.\<close>

fun height :: "ber \<Rightarrow> nat" where
  "height (Prim t c) = 0"
| "height (Constr t ts) = Suc (Max (insert 0 (set (map height ts))))"

lemma height_le: "height (Constr t ts) \<le> n \<longleftrightarrow> 0 < n \<and> list_all (\<lambda>x. height x \<le> n - 1) ts"
  by (cases n) (auto simp: list_all_iff)

definition converted :: "asn1_env \<Rightarrow> u32 \<Rightarrow> nat \<Rightarrow> nat \<Rightarrow> ber list \<Rightarrow> u8 list \<Rightarrow> cbb \<Rightarrow> cbb \<Rightarrow> bool" where
  "converted E u n d ts bs st st' \<longleftrightarrow> ber_encs ts bs \<and> list_all (conv_ok E u) ts \<and> list_all (\<lambda>x. n + height x \<le> kMaxDepth) ts \<and>
     appends d (concat (map (conv E u) ts)) st st'"

lemma converted_Cons:
  assumes "ber_enc x b" "conv_ok E u x" "n + height x \<le> kMaxDepth" "appends d (conv E u x) st st1" "converted E u n d ts bs st1 st2"
  shows "converted E u n d (x # ts) (b @ bs) st st2"
  using assms appends_trans by (auto simp: converted_def intro: more)

text \<open>A constructed element whose elements were converted.\<close>

lemma converted_Constr:
  assumes E: "asn1_env_ok E" and st: "ready d st" and t: "valid_tag t"
    and o: "convert_open H E u t d st = (Some (child, out), st1)" and n: "n < kMaxDepth"
    and c: "converted E child (n + 1) out ts bs st1 st2" and f: "CBB_flush H d st2 = (True, st3)"
  shows "conv_ok E u (Constr t ts) \<and> n + height (Constr t ts) \<le> kMaxDepth \<and> appends d (conv E u (Constr t ts)) st st3"
proof -
  note op = convert_openE [OF E st t o]
  have "appends d (conv E u (Constr t ts)) st st3"
    using op(4) [OF _ f] c unfolding conv_Constr [OF t] op(1) by (auto simp: converted_def)
  moreover have "n + height (Constr t ts) \<le> kMaxDepth"
    using c n height_le [of t ts "kMaxDepth - n"] by (auto simp: converted_def list_all_iff)
  ultimately show ?thesis using c op(1,2) unfolding conv_ok_Constr [OF t] by (simp add: converted_def)
qed

lemma converted_Prim:
  assumes E: "asn1_env_ok E" and st: "ready d st" and t: "valid_tag t" "\<not> constructed t"
    and o: "convert_open H E u t d st = (Some (child, out), st1)" and c: "length c < SIZE_MOD"
    and a: "CBB_add_bytes H c out st1 = (True, st2)" and f: "CBB_flush H d st2 = (True, st3)"
  shows "conv_ok E u (Prim t c) \<and> appends d (conv E u (Prim t c)) st st3"
proof -
  note op = convert_openE [OF E st t(1) o]
  have "appends out c st1 st2" using op(3) c a by (simp add: ready_def CBB_add_bytes_appends)
  then show ?thesis using op(2) op(4) [OF _ f] t(2) by (simp add: conv_Prim conv_ok_Prim)
qed

lemma convert_ber_loop_sound:
  assumes E: "asn1_env_ok E"
  shows "length cin < SIZE_MOD \<Longrightarrow> ready d st \<Longrightarrow> depth \<le> kMaxDepth \<Longrightarrow>
    convert_ber_loop H E u looking depth cin d st = (True, cin', st') \<Longrightarrow>
    \<exists>ts bs. cin = bs @ (if looking then 0 # 0 # cin' else []) \<and> (\<not> looking \<longrightarrow> cin' = []) \<and> converted E u depth d ts bs st st'"
proof (induction "length cin" arbitrary: u looking depth cin d st cin' st' rule: less_induct)
  case less
  have e: "CONSTRUCTED E = 0x20000000" using E by (simp add: asn1_env_ok_def)
  have IH: "\<exists>ts bs. s = bs @ (if l then 0 # 0 # s' else []) \<and> (\<not> l \<longrightarrow> s' = []) \<and> converted E v n k ts bs stx sty"
    if "length s < length cin" "ready k stx" "n \<le> kMaxDepth" "convert_ber_loop H E v l n s k stx = (True, s', sty)"
    for s k stx n v l s' sty
    using less(1) [OF that(1) _ that(2-4)] that(1) less(2) by simp
  have step: "\<exists>ts bs. cin = bs @ (if looking then 0 # 0 # cin' else []) \<and> (\<not> looking \<longrightarrow> cin' = []) \<and> converted E u depth d ts bs st st'"
    if x: "ber_enc x b" "conv_ok E u x" "depth + height x \<le> kMaxDepth" "appends d (conv E u x) st st3" and cin: "cin = b @ s" "b \<noteq> []"
      and r: "convert_ber_loop H E u looking depth s d st3 = (True, cin', st')" for x b s st3
  proof -
    have "length s < length cin" using cin by simp
    from IH [OF this appends_ready [OF x(4)] less(4) r] obtain ts bs where
      "s = bs @ (if looking then 0 # 0 # cin' else [])" "\<not> looking \<longrightarrow> cin' = []" "converted E u depth d ts bs st3 st'" by blast
    then show ?thesis using converted_Cons [OF x] cin(1) by (intro exI [of _ "x # ts"] exI [of _ "b @ bs"]) simp
  qed
  from less(5) show ?case
  proof (cases rule: convert_ber_loop_cases)
    case empty
    then show ?thesis using ready_appends [OF less(3)]
      by (intro exI [of _ "[]"]) (simp add: converted_def none)
  next
    case eoc
    then show ?thesis using ready_appends [OF less(3)]
      by (intro exI [of _ "[]"]) (simp add: converted_def none)
  next
    case (indefinite el c1 child out st1 c2 st2 st3)
    have t: "valid_tag (el_tag el)" "constructed (el_tag el)" and cin: "cin = der_tag (el_tag el) @ 0x80 # c1"
      using ber_element_sound [OF E indefinite(1)] indefinite(3) by auto
    note op = convert_openE [OF E less(3) t(1) indefinite(2)]
    obtain ts bs where c: "c1 = bs @ 0 # 0 # c2" "converted E child (depth + 1) out ts bs st1 st2"
      using IH [OF ber_rest_length [OF indefinite(1)] op(3) _ indefinite(4)] indefinite(5) by auto
    have "ber_enc (Constr (el_tag el) ts) (der_tag (el_tag el) @ 0x80 # bs @ [0, 0])"
      using t c(2) by (intro ber_enc_ber_encs.indefinite) (simp_all add: converted_def)
    moreover note converted_Constr [OF E less(3) t(1) indefinite(2,5) c(2) indefinite(6)]
    ultimately show ?thesis using cin c(1) indefinite(7) by (intro step [where s = c2]) auto
  next
    case (definite el c1 child out st1 c c' st2 st3)
    have t: "valid_tag (el_tag el)" "constructed (el_tag el)" and de: "definite_element el cin c1"
      using ber_element_sound [OF E definite(1)] definite(3,5) e by auto
    obtain l where l: "ber_len (length c) l" "cin = der_tag (el_tag el) @ l @ c @ c1"
      using de definite(4) by (auto simp: definite_element_def)
    note op = convert_openE [OF E less(3) t(1) definite(2)]
    obtain ts where c: "converted E child (depth + 1) out ts c st1 st2"
      using IH [OF ber_contents_length [OF definite(1,4)] op(3) _ definite(6)] definite(7) by auto
    have "ber_enc (Constr (el_tag el) ts) (der_tag (el_tag el) @ l @ c)"
      using t c l(1) by (intro ber_enc_ber_encs.definite) (simp_all add: converted_def)
    moreover have "der_tag (el_tag el) @ l @ c \<noteq> []" using l(1) by (auto simp: ber_len_def)
    moreover note converted_Constr [OF E less(3) t(1) definite(2,7) c definite(8)]
    ultimately show ?thesis using l(2) definite(9) by (intro step [where s = c1]) auto
  next
    case (primitive el c1 child out st1 c st2 st3)
    have t: "valid_tag (el_tag el)" "\<not> constructed (el_tag el)" and de: "definite_element el cin c1"
      using ber_element_sound [OF E primitive(1)] primitive(3,5) e by auto
    obtain l where l: "ber_len (length c) l" "cin = der_tag (el_tag el) @ l @ c @ c1"
      using de primitive(4) by (auto simp: definite_element_def)
    have "ber_enc (Prim (el_tag el) c) (der_tag (el_tag el) @ l @ c)" using t l(1) by (rule prim)
    moreover have "der_tag (el_tag el) @ l @ c \<noteq> []" using l(1) by (auto simp: ber_len_def)
    moreover have "length c < SIZE_MOD" using l(2) less(2) by simp
    moreover note converted_Prim [OF E less(3) t primitive(2) this primitive(6,7)]
    ultimately show ?thesis using l(2) primitive(8) less(4) by (intro step [where s = c1 and x = "Prim (el_tag el) c"]) auto
  qed
qed

end
