(* ===== verification/BS_Ber_Thms.thy ===== *)
theory BS_Ber_Thms
  imports BS_Ber
begin

text \<open>
  The conversion of BER succeeds on every encoding, up to the depth of the recursion: with an allocator
  that does not fail, both passes of \<open>ber.c\<close> accept exactly the sequences of elements whose
  constructed strings are made of parts with the tag of the string.
\<close>

section \<open>Parsing an encoding\<close>

lemma ber_element_complete:
  assumes E: "asn1_env_ok E" and t: "valid_tag t" and l: "ber_len (length c) l"
  obtains el where "CBS_get_any_ber_asn1_element E (der_tag t @ l @ c @ r) = (Some el, r)" "el_tag el = t" "\<not> el_indefinite el"
    "CBS_skip (el_header_len el) (el_out el) = (Some (), c)"
  using l unfolding ber_len_def
proof (elim disjE conjE exE)
  assume n: "length c < 128" "l = [byte_of (length c)]"
  then have "unat (byte_of (length c)) = length c" by simp
  then show thesis
    using any_element_short_form [OF E t, of "byte_of (length c)" True "c @ r"] n
    by (intro that [of "der_elem t c"]) (simp_all add: CBS_get_any_ber_asn1_element_def der_elem_def CBS_skip_def cbs_get_def
        get_bind_def der_header_def der_element_def)
next
  fix k
  assume k: "1 \<le> k" "k \<le> 4" "length c < 256 ^ k" "l = byte_of (128 + k) # nat_to_be k (length c)"
  let ?b = "byte_of (128 + k)" and ?r = "nat_to_be k (length c) @ c @ r"
  define m where "m \<longleftrightarrow> length c < 128 \<or> length c < 256 ^ (k - 1)"
  have b: "128 \<le> unat ?b" "k = unat ?b - 128" using k(2) by simp_all
  have "length c = be_to_nat (take k ?r)" using k(3) by simp
  from any_element_long_form [OF E t b k(1,2) _ this m_def, of True]
  have "CBS_get_any_ber_asn1_element E (der_tag t @ l @ c @ r) = (Some (long_elem t ?b k (length c) m ?r), r)"
    by (simp add: CBS_get_any_ber_asn1_element_def k(4))
  then show thesis
    by (rule that) (simp_all add: long_elem_def CBS_skip_def cbs_get_def get_bind_def)
qed

lemma ber_indefinite_complete:
  assumes E: "asn1_env_ok E" and t: "valid_tag t" "constructed t"
  obtains el where "CBS_get_any_ber_asn1_element E (der_tag t @ 0x80 # r) = (Some el, r)" "el_tag el = t" "el_indefinite el" "el_ber_found el"
  using any_element_indefinite [OF E t, of r] that unfolding CBS_get_any_ber_asn1_element_def by force

lemma der_tag_first: "valid_tag t \<Longrightarrow> \<exists>b q. der_tag t = b # q \<and> b \<noteq> 0"
proof -
  assume t: "valid_tag t"
  obtain b q where d: "der_tag t = b # q" by (cases "der_tag t") (auto simp: der_tag_def Let_def split: if_splits)
  have "b \<noteq> 0"
  proof
    assume "b = 0"
    then have "unat t = 0" using der_tag_ConsD [OF d] by simp
    then show False using t by (simp add: valid_tag_def unat_eq_0)
  qed
  with d show ?thesis by blast
qed

lemma eoc_der_tag: "valid_tag t \<Longrightarrow> \<not> fst (cbs_get_eoc (der_tag t @ s))"
  using der_tag_first [of t] by (auto simp: cbs_get_eoc_def)

section \<open>The size of the result\<close>

lemma length_der_len: "length (der_len n) \<le> 5"
  by (simp add: der_len_def der_len_len_def)

lemma length_der_tag_base: "length (der_tag (base_tag t)) = length (der_tag t)"
proof -
  have p: "(0x20000000 :: u32) = 2 ^ 29" by simp
  have "take_bit 29 (base_tag t) = take_bit 29 t"
    unfolding p by (rule bit_word_eqI) (auto simp: bit_take_bit_iff bit_and_iff bit_not_iff bit_exp_iff simp del: power_numeral)
  then have "unat (base_tag t) mod 2 ^ 29 = unat t mod 2 ^ 29"
    by (simp only: unat_take_bit_mod [symmetric])
  then show ?thesis by (simp add: der_tag_def Let_def)
qed

lemma length_out_element:
  "length (der_element (if s then base_tag t else t) c) \<le> length (der_tag t) + 5 + length c"
  using length_der_len [of "length c"] length_der_tag_base [of t] by (simp add: der_element_def)

lemma length_ber_tag: "valid_tag t \<Longrightarrow> 1 \<le> length (der_tag t)"
  using der_tag_first [of t] by force

lemma length_ber_len: "ber_len n l \<Longrightarrow> 1 \<le> length l"
  by (auto simp: ber_len_def)

lemma length_conv:
  "ber_enc x b \<Longrightarrow> \<forall>u. length (conv E u x) \<le> 3 * length b"
  "ber_encs ts bs \<Longrightarrow> \<forall>u. length (concat (map (conv E u) ts)) \<le> 3 * length bs"
proof (induction rule: ber_enc_ber_encs.inducts)
  case (prim t c l)
  show ?case
  proof
    fix u
    show "length (conv E u (Prim t c)) \<le> 3 * length (der_tag t @ l @ c)"
      using length_ber_tag [OF prim(1)] length_ber_len [OF prim(3)] length_out_element [of "string_tag_of E t" t c]
      unfolding conv_Prim [OF prim(2)] by auto
  qed
next
  case (definite t ts c l)
  show ?case
  proof
    fix u
    show "length (conv E u (Constr t ts)) \<le> 3 * length (der_tag t @ l @ c)"
      using length_ber_tag [OF definite(1)] length_ber_len [OF definite(4)] definite(5)
        length_out_element [of "string_tag_of E t" t "concat (map (conv E (child_tag E u t)) ts)"]
      unfolding conv_Constr [OF definite(1)] by (auto dest: spec [of _ "child_tag E u t"])
  qed
next
  case (indefinite t ts c)
  show ?case
  proof
    fix u
    show "length (conv E u (Constr t ts)) \<le> 3 * length (der_tag t @ 0x80 # c @ [0, 0])"
      using length_ber_tag [OF indefinite(1)] indefinite(4)
        length_out_element [of "string_tag_of E t" t "concat (map (conv E (child_tag E u t)) ts)"]
      unfolding conv_Constr [OF indefinite(1)] by (auto dest: spec [of _ "child_tag E u t"])
  qed
next
  case (more x b xs bs)
  then show ?case by (simp add: add_mono)
qed simp

section \<open>Rounds of the loop\<close>

lemma convert_step_indefinite:
  assumes "CBS_get_any_ber_asn1_element E cin = (Some el, c1)" "\<not> fst (cbs_get_eoc cin)"
    "convert_open H E u (el_tag el) d st = (Some (child, out), st1)"
    "el_indefinite el" "convert_ber_loop H E child True (depth + 1) c1 out st1 = (True, c2, st2)" "depth < kMaxDepth"
    "CBB_flush H d st2 = (True, st3)"
  shows "convert_ber_loop H E u looking depth cin d st = convert_ber_loop H E u looking depth c2 d st3"
  using assms ber_rest_length [OF assms(1)] unfolding convert_ber_loop.simps [of H E u looking depth cin d st] by auto

lemma convert_step_definite:
  assumes "CBS_get_any_ber_asn1_element E cin = (Some el, c1)" "\<not> fst (cbs_get_eoc cin)"
    "convert_open H E u (el_tag el) d st = (Some (child, out), st1)"
    "\<not> el_indefinite el" "CBS_skip (el_header_len el) (el_out el) = (Some (), c)"
    "if el_tag el AND CONSTRUCTED E \<noteq> 0 then depth < kMaxDepth \<and> (\<exists>s. convert_ber_loop H E child False (depth + 1) c out st1 = (True, s, st2))
     else CBB_add_bytes H c out st1 = (True, st2)"
    "CBB_flush H d st2 = (True, st3)"
  shows "convert_ber_loop H E u looking depth cin d st = convert_ber_loop H E u looking depth c1 d st3"
  using assms ber_rest_length [OF assms(1)] unfolding convert_ber_loop.simps [of H E u looking depth cin d st]
  by (auto split: if_splits)

text \<open>The handle for the contents, and the end of the element, when there is room.\<close>

lemma convert_open_room:
  assumes E: "asn1_env_ok E" and t: "valid_tag t" and u: "u \<noteq> 0 \<longrightarrow> base_tag t = u"
    and st: "ready d st" "roomy H (n + length (der_tag t) + 1) (cb_base st)"
  obtains out st1 where "convert_open H E u t d st = (Some (child_tag E u t, out), st1)" "roomy H n (cb_base st1)" "ready out st1"
    "\<And>c st2. appends out c st1 st2 \<Longrightarrow> length c \<le> 0xfffffffe \<Longrightarrow> roomy H 4 (cb_base st2) \<Longrightarrow>
       \<exists>st3. CBB_flush H d st2 = (True, st3) \<and>
         appends d (if u \<noteq> 0 then c else der_element (if string_tag_of E t then base_tag t else t) c) st st3"
proof -
  have e: "CONSTRUCTED E = 0x20000000" using E by (simp add: asn1_env_ok_def)
  let ?t = "if string_tag_of E t then base_tag t else t"
  have s: "string_tag_of E t \<longleftrightarrow> constructed t \<and> is_string_type E t" by (simp add: string_tag_of_def is_string_type_def e)
  have ok: "cbb_ok st" using st(1) by (simp add: ready_def)
  show thesis
  proof (cases "u = 0")
    case True
    have "roomy H (n + length (der_tag ?t) + 1) (cb_base st)" using st(2) length_der_tag_base [of t] by simp
    then obtain st1 where a: "CBB_add_asn1 H E ?t d st = (True, st1)" "roomy H n (cb_base st1)"
      using CBB_add_asn1_room [OF E st(1)] by metis
    have "convert_open H E u t d st = (Some (child_tag E u t, Suc d), st1)"
      using a(1) True unfolding convert_open_def Let_def e s child_tag_def by (auto split: if_splits)
    then show thesis
    proof (rule that [OF _ a(2)])
      show o: "ready (Suc d) st1" using CBB_add_asn1_opens [OF E ok a(1)] by (simp add: opens_def)
      fix c st2
      assume c: "appends (Suc d) c st1 st2" "length c \<le> 0xfffffffe" "roomy H 4 (cb_base st2)"
      then obtain st3 where f: "CBB_flush H d st2 = (True, st3)"
        using CBB_add_asn1_opens [OF E ok a(1)] by (auto elim: close_room)
      then show "\<exists>st3. CBB_flush H d st2 = (True, st3) \<and>
         appends d (if u \<noteq> 0 then c else der_element ?t c) st st3"
        using asn1_element_appends(1) [OF E ok a(1) c(1) f] True by auto
    qed
  next
    case False
    then have "convert_open H E u t d st = (Some (child_tag E u t, d), st)"
      using u by (simp add: convert_open_def e child_tag_def)
    then show thesis
    proof (rule that [OF _ _ st(1)])
      show "roomy H n (cb_base st)" using st(2) by (simp add: roomy_def)
      fix c st2
      assume "appends d c st st2"
      then show "\<exists>st3. CBB_flush H d st2 = (True, st3) \<and>
         appends d (if u \<noteq> 0 then c else der_element ?t c) st st3"
        using ready_flush [OF appends_ready, of d c st st2 H] False by auto
    qed
  qed
qed

section \<open>The second pass\<close>

text \<open>The loop gets past an encoding and has written its conversion.\<close>

definition converts :: "allocator \<Rightarrow> asn1_env \<Rightarrow> u32 \<Rightarrow> nat \<Rightarrow> u8 list \<Rightarrow> u8 list \<Rightarrow> bool" where
  "converts H E u depth b x \<longleftrightarrow>
     (\<forall>m d st looking r. ready d st \<and> roomy H (m + 3 * length b) (cb_base st) \<and> 4 \<le> m \<longrightarrow>
        (\<exists>st'. convert_ber_loop H E u looking depth (b @ r) d st = convert_ber_loop H E u looking depth r d st' \<and>
           appends d x st st'))"

lemma convertsE:
  assumes "converts H E u depth b x" "ready d st" "roomy H (m + 3 * length b) (cb_base st)" "4 \<le> m"
  obtains st' where "convert_ber_loop H E u looking depth (b @ r) d st = convert_ber_loop H E u looking depth r d st'"
    "appends d x st st'"
  using assms unfolding converts_def by blast

lemma converts_append:
  assumes "converts H E u depth b x" "converts H E u depth b' x'" "length x \<le> 3 * length b"
  shows "converts H E u depth (b @ b') (x @ x')"
  unfolding converts_def
proof (intro allI impI, elim conjE)
  fix m d st looking r
  assume st: "ready d st" "roomy H (m + 3 * length (b @ b')) (cb_base st)" "4 \<le> m"
  have "roomy H ((m + 3 * length b') + 3 * length b) (cb_base st)" using st(2) by (simp add: algebra_simps)
  then obtain st1 where 1: "convert_ber_loop H E u looking depth (b @ b' @ r) d st = convert_ber_loop H E u looking depth (b' @ r) d st1"
    "appends d x st st1" using convertsE [OF assms(1) st(1)] st(3) by (metis trans_le_add1)
  have "roomy H ((m + 3 * length b') + length x) (cb_base st)" using st(2) assms(3) by (auto simp: roomy_def)
  then have "roomy H (m + 3 * length b') (cb_base st1)" by (rule appends_room [OF st(1) 1(2)])
  then obtain st2 where "convert_ber_loop H E u looking depth (b' @ r) d st1 = convert_ber_loop H E u looking depth r d st2"
    "appends d x' st1 st2" using convertsE [OF assms(2) appends_ready [OF 1(2)]] st(3) by metis
  then show "\<exists>st'. convert_ber_loop H E u looking depth ((b @ b') @ r) d st = convert_ber_loop H E u looking depth r d st' \<and>
      appends d (x @ x') st st'" using 1 appends_trans by auto
qed

lemma convert_ber_loop_end [simp]:
  "convert_ber_loop H E u False depth [] d st = (True, [], st)"
  "convert_ber_loop H E u True depth (0 # 0 # r) d st = (True, r, st)"
  by (simp_all add: convert_ber_loop.simps [of H E u _ depth] cbs_get_eoc_def)

lemma converts_prim:
  assumes E: "asn1_env_ok E" and t: "valid_tag t" "\<not> constructed t" and l: "ber_len (length c) l"
    and u: "u \<noteq> 0 \<longrightarrow> base_tag t = u" and n: "length c \<le> 0xfffffffe"
  shows "converts H E u depth (der_tag t @ l @ c) (conv E u (Prim t c))"
  unfolding converts_def
proof (intro allI impI, elim conjE)
  fix m d st looking r
  assume st: "ready d st" "roomy H (m + 3 * length (der_tag t @ l @ c)) (cb_base st)" "4 \<le> m"
  have e: "CONSTRUCTED E = 0x20000000" using E by (simp add: asn1_env_ok_def)
  have "roomy H (4 + length c + length (der_tag t) + 1) (cb_base st)"
    using st(2,3) length_ber_len [OF l] length_ber_tag [OF t(1)] by (auto simp: roomy_def)
  then obtain out st1 where o: "convert_open H E u t d st = (Some (child_tag E u t, out), st1)"
    "roomy H (4 + length c) (cb_base st1)" "ready out st1"
    "\<And>c st2. appends out c st1 st2 \<Longrightarrow> length c \<le> 0xfffffffe \<Longrightarrow> roomy H 4 (cb_base st2) \<Longrightarrow>
       \<exists>st3. CBB_flush H d st2 = (True, st3) \<and>
         appends d (if u \<noteq> 0 then c else der_element (if string_tag_of E t then base_tag t else t) c) st st3"
    using convert_open_room [OF E t(1) u st(1)] by blast
  obtain el where el: "CBS_get_any_ber_asn1_element E (der_tag t @ l @ c @ r) = (Some el, r)" "el_tag el = t" "\<not> el_indefinite el"
    "CBS_skip (el_header_len el) (el_out el) = (Some (), c)" using ber_element_complete [OF E t(1) l] .
  obtain st2 where a: "CBB_add_bytes H c out st1 = (True, st2)" "appends out c st1 st2" "roomy H 4 (cb_base st2)"
    using emitsE [OF emits_bytes o(3,2)] .
  obtain st3 where f: "CBB_flush H d st2 = (True, st3)" "appends d (conv E u (Prim t c)) st st3"
    using o(4) [OF a(2) n a(3)] unfolding conv_Prim [OF t(2)] by blast
  have "convert_ber_loop H E u looking depth (der_tag t @ l @ c @ r) d st = convert_ber_loop H E u looking depth r d st3"
    using convert_step_definite [OF el(1) eoc_der_tag [OF t(1)] _ el(3,4) _ f(1)] o(1) el(2) t(2) e a(1) by auto
  then show "\<exists>st'. convert_ber_loop H E u looking depth ((der_tag t @ l @ c) @ r) d st = convert_ber_loop H E u looking depth r d st' \<and>
      appends d (conv E u (Prim t c)) st st'" using f(2) by auto
qed

lemma converts_Constr:
  assumes E: "asn1_env_ok E" and t: "valid_tag t" "constructed t" and u: "u \<noteq> 0 \<longrightarrow> base_tag t = u" and depth: "depth < kMaxDepth"
    and b: "(\<exists>l. ber_len (length c) l \<and> b = der_tag t @ l @ c) \<or> b = der_tag t @ 0x80 # c @ [0, 0]"
    and x: "converts H E (child_tag E u t) (depth + 1) c (concat (map (conv E (child_tag E u t)) ts))"
    and lx: "length (concat (map (conv E (child_tag E u t)) ts)) \<le> 3 * length c" and n: "3 * length c \<le> 0xfffffffe"
  shows "converts H E u depth b (conv E u (Constr t ts))"
  unfolding converts_def
proof (intro allI impI, elim conjE)
  fix m d st looking r
  let ?x = "concat (map (conv E (child_tag E u t)) ts)"
  assume st: "ready d st" "roomy H (m + 3 * length b) (cb_base st)" "4 \<le> m"
  have e: "CONSTRUCTED E = 0x20000000" using E by (simp add: asn1_env_ok_def)
  have "length (der_tag t) + 1 + length c \<le> length b" using b by (auto dest: length_ber_len)
  then have "roomy H (4 + 3 * length c + length (der_tag t) + 1) (cb_base st)"
    using st(2,3) by (auto simp: roomy_def)
  then obtain out st1 where o: "convert_open H E u t d st = (Some (child_tag E u t, out), st1)"
    "roomy H (4 + 3 * length c) (cb_base st1)" "ready out st1"
    "\<And>c st2. appends out c st1 st2 \<Longrightarrow> length c \<le> 0xfffffffe \<Longrightarrow> roomy H 4 (cb_base st2) \<Longrightarrow>
       \<exists>st3. CBB_flush H d st2 = (True, st3) \<and>
         appends d (if u \<noteq> 0 then c else der_element (if string_tag_of E t then base_tag t else t) c) st st3"
    using convert_open_room [OF E t(1) u st(1)] by blast
  have close: "\<exists>st3. CBB_flush H d st2 = (True, st3) \<and> appends d (conv E u (Constr t ts)) st st3"
    if a: "appends out ?x st1 st2" for st2
  proof -
    have "roomy H (4 + length ?x) (cb_base st1)" using o(2) lx by (auto simp: roomy_def)
    then have "roomy H 4 (cb_base st2)" by (rule appends_room [OF o(3) a])
    moreover have "length ?x \<le> 0xfffffffe" using lx n by linarith
    ultimately show ?thesis using o(4) [OF a] unfolding conv_Constr [OF t(1)] by blast
  qed
  have "\<exists>st3. convert_ber_loop H E u looking depth (b @ r) d st = convert_ber_loop H E u looking depth r d st3 \<and>
      appends d (conv E u (Constr t ts)) st st3"
    using b
  proof (elim disjE exE conjE)
    fix l
    assume l: "ber_len (length c) l" and b: "b = der_tag t @ l @ c"
    obtain el where el: "CBS_get_any_ber_asn1_element E (der_tag t @ l @ c @ r) = (Some el, r)" "el_tag el = t" "\<not> el_indefinite el"
      "CBS_skip (el_header_len el) (el_out el) = (Some (), c)" using ber_element_complete [OF E t(1) l] .
    obtain st2 where a: "convert_ber_loop H E (child_tag E u t) False (depth + 1) c out st1 = (True, [], st2)" "appends out ?x st1 st2"
      using convertsE [OF x o(3,2), of False "[]"] by auto
    obtain st3 where f: "CBB_flush H d st2 = (True, st3)" "appends d (conv E u (Constr t ts)) st st3"
      using close [OF a(2)] by blast
    have "convert_ber_loop H E u looking depth (der_tag t @ l @ c @ r) d st = convert_ber_loop H E u looking depth r d st3"
      using convert_step_definite [OF el(1) eoc_der_tag [OF t(1)] _ el(3,4) _ f(1)] o(1) el(2) t(2) e a(1) depth by auto
    then show ?thesis using f(2) b by auto
  next
    assume b: "b = der_tag t @ 0x80 # c @ [0, 0]"
    obtain el where el: "CBS_get_any_ber_asn1_element E (der_tag t @ 0x80 # c @ 0 # 0 # r) = (Some el, c @ 0 # 0 # r)" "el_tag el = t"
      "el_indefinite el" using ber_indefinite_complete [OF E t] by metis
    obtain st2 where a: "convert_ber_loop H E (child_tag E u t) True (depth + 1) (c @ 0 # 0 # r) out st1 = (True, r, st2)"
      "appends out ?x st1 st2" using convertsE [OF x o(3,2), of True "0 # 0 # r"] by auto
    obtain st3 where f: "CBB_flush H d st2 = (True, st3)" "appends d (conv E u (Constr t ts)) st st3"
      using close [OF a(2)] by blast
    have "convert_ber_loop H E u looking depth (der_tag t @ 0x80 # c @ 0 # 0 # r) d st = convert_ber_loop H E u looking depth r d st3"
      using convert_step_indefinite [OF el(1) eoc_der_tag [OF t(1)] _ el(3) a(1) depth f(1)] o(1) el(2) by auto
    then show ?thesis using f(2) b by auto
  qed
  then show "\<exists>st'. convert_ber_loop H E u looking depth (b @ r) d st = convert_ber_loop H E u looking depth r d st' \<and>
      appends d (conv E u (Constr t ts)) st st'" .
qed

lemma converts_complete:
  assumes E: "asn1_env_ok E"
  shows "ber_enc x b \<Longrightarrow> \<forall>u depth. conv_ok E u x \<longrightarrow> depth + height x \<le> kMaxDepth \<longrightarrow> 3 * length b \<le> 0xfffffffe \<longrightarrow>
      converts H E u depth b (conv E u x)"
    "ber_encs ts bs \<Longrightarrow> \<forall>u depth. list_all (conv_ok E u) ts \<longrightarrow> list_all (\<lambda>x. depth + height x \<le> kMaxDepth) ts \<longrightarrow>
      3 * length bs \<le> 0xfffffffe \<longrightarrow> converts H E u depth bs (concat (map (conv E u) ts))"
proof (induction rule: ber_enc_ber_encs.inducts)
  case (prim t c l)
  show ?case
  proof (intro allI impI)
    fix u depth
    assume "conv_ok E u (Prim t c)" "3 * length (der_tag t @ l @ c) \<le> 0xfffffffe"
    then show "converts H E u depth (der_tag t @ l @ c) (conv E u (Prim t c))"
      using converts_prim [OF E prim] by (simp add: conv_ok_Prim)
  qed
next
  case (definite t ts c l)
  show ?case
  proof (intro allI impI)
    fix u depth
    assume a: "conv_ok E u (Constr t ts)" "depth + height (Constr t ts) \<le> kMaxDepth" "3 * length (der_tag t @ l @ c) \<le> 0xfffffffe"
    have d: "depth < kMaxDepth" "list_all (\<lambda>x. depth + 1 + height x \<le> kMaxDepth) ts"
      using a(2) height_le [of t ts "kMaxDepth - depth"] by (auto simp: list_all_iff)
    note ok = a(1) [unfolded conv_ok_Constr [OF definite(1)]]
    have n: "3 * length c \<le> 0xfffffffe" using a(3) by simp
    have "converts H E (child_tag E u t) (depth + 1) c (concat (map (conv E (child_tag E u t)) ts))"
      using definite(5) ok d(2) n by blast
    then show "converts H E u depth (der_tag t @ l @ c) (conv E u (Constr t ts))"
      using converts_Constr [OF E definite(1,2) conjunct1 [OF ok] d(1) _ _ _ n] length_conv(2) [OF definite(3)] definite(4) by blast
  qed
next
  case (indefinite t ts c)
  show ?case
  proof (intro allI impI)
    fix u depth
    assume a: "conv_ok E u (Constr t ts)" "depth + height (Constr t ts) \<le> kMaxDepth" "3 * length (der_tag t @ 0x80 # c @ [0, 0]) \<le> 0xfffffffe"
    have d: "depth < kMaxDepth" "list_all (\<lambda>x. depth + 1 + height x \<le> kMaxDepth) ts"
      using a(2) height_le [of t ts "kMaxDepth - depth"] by (auto simp: list_all_iff)
    note ok = a(1) [unfolded conv_ok_Constr [OF indefinite(1)]]
    have n: "3 * length c \<le> 0xfffffffe" using a(3) by simp
    have "converts H E (child_tag E u t) (depth + 1) c (concat (map (conv E (child_tag E u t)) ts))"
      using indefinite(4) ok d(2) n by blast
    then show "converts H E u depth (der_tag t @ 0x80 # c @ [0, 0]) (conv E u (Constr t ts))"
      using converts_Constr [OF E indefinite(1,2) conjunct1 [OF ok] d(1) _ _ _ n] length_conv(2) [OF indefinite(3)] by blast
  qed
next
  case none
  show ?case by (auto simp: converts_def intro: ready_appends)
next
  case (more x b xs bs)
  show ?case
  proof (intro allI impI)
    fix u depth
    assume "list_all (conv_ok E u) (x # xs)" "list_all (\<lambda>x. depth + height x \<le> kMaxDepth) (x # xs)" "3 * length (b @ bs) \<le> 0xfffffffe"
    then have "converts H E u depth b (conv E u x)" "converts H E u depth bs (concat (map (conv E u) xs))"
      using more(3,4) by simp_all
    then show "converts H E u depth (b @ bs) (concat (map (conv E u) (x # xs)))"
      using converts_append length_conv(1) [OF more(1)] by simp
  qed
qed

section \<open>The first pass\<close>

lemma find_ber_loop_Nil [simp]: "find_ber_loop E depth [] = Some False"
  by (simp add: find_ber_loop.simps)

lemma find_ber_step:
  assumes "CBS_get_any_ber_asn1_element E cin = (Some el, c1)"
  shows "el_ber_found el \<Longrightarrow> find_ber_loop E depth cin = Some True"
    "\<not> el_ber_found el \<Longrightarrow> el_tag el AND CONSTRUCTED E = 0 \<Longrightarrow> find_ber_loop E depth cin = find_ber_loop E depth c1"
    "\<not> el_ber_found el \<Longrightarrow> el_tag el AND CONSTRUCTED E \<noteq> 0 \<Longrightarrow> is_string_type E (el_tag el) \<Longrightarrow> find_ber_loop E depth cin = Some True"
    "\<not> el_ber_found el \<Longrightarrow> el_tag el AND CONSTRUCTED E \<noteq> 0 \<Longrightarrow> \<not> is_string_type E (el_tag el) \<Longrightarrow>
     CBS_skip (el_header_len el) (el_out el) = (Some (), c) \<Longrightarrow>
     find_ber_loop E depth cin =
       (case (if kMaxDepth < depth + 1 then None else find_ber_loop E (depth + 1) c) of
          None \<Rightarrow> None | Some True \<Rightarrow> Some True | Some False \<Rightarrow> find_ber_loop E depth c1)"
  using assms ber_rest_length [OF assms] unfolding find_ber_loop.simps [of E depth cin] by auto

lemma is_string_type_iff: "asn1_env_ok E \<Longrightarrow> constructed t \<Longrightarrow> is_string_type E t \<longleftrightarrow> string_tag_of E t"
  by (simp add: is_string_type_def string_tag_of_def asn1_env_ok_def)

text \<open>An input without anything to convert is the DER encoding of its elements.\<close>

definition plain :: "asn1_env \<Rightarrow> nat \<Rightarrow> ber list \<Rightarrow> u8 list \<Rightarrow> bool" where
  "plain E n ts bs \<longleftrightarrow> ber_encs ts bs \<and> list_all (conv_ok E 0) ts \<and> list_all (\<lambda>x. n + height x \<le> kMaxDepth) ts \<and>
     concat (map (conv E 0) ts) = bs \<and> list_all (\<lambda>x. \<exists>t c. valid_tag t \<and> length c < 2 ^ 32 \<and> conv E 0 x = der_element t c) ts"

lemma plain_Cons:
  assumes x: "ber_enc x b" "conv_ok E 0 x" "n + height x \<le> kMaxDepth" "conv E 0 x = b" "b = der_element t c"
    "valid_tag t" "length c < 2 ^ 32" and ts: "plain E n ts bs"
  shows "plain E n (x # ts) (b @ bs)"
proof -
  have "ber_encs (x # ts) (b @ bs)" using x(1) ts by (auto simp: plain_def intro: more)
  moreover have "\<exists>t c. valid_tag t \<and> length c < 2 ^ 32 \<and> conv E 0 x = der_element t c" using x by blast
  ultimately show ?thesis using x ts by (simp add: plain_def)
qed

lemma find_ber_plain:
  assumes E: "asn1_env_ok E"
  shows "find_ber_loop E depth cin = Some False \<Longrightarrow> depth \<le> kMaxDepth \<Longrightarrow> \<exists>ts. plain E depth ts cin"
proof (induction "length cin" arbitrary: depth cin rule: less_induct)
  case less
  have e: "CONSTRUCTED E = 0x20000000" using E by (simp add: asn1_env_ok_def)
  show ?case
  proof (cases "cin = []")
    case True
    then show ?thesis by (intro exI [of _ "[]"]) (simp add: plain_def none)
  next
    case False
    then obtain el c1 where g: "CBS_get_any_ber_asn1_element E cin = (Some el, c1)"
      using less(2) by (cases "CBS_get_any_ber_asn1_element E cin"; cases "fst (CBS_get_any_ber_asn1_element E cin)")
        (auto simp: find_ber_loop.simps [of E depth cin])
    have nb: "\<not> el_ber_found el" using find_ber_step(1) [OF g] less(2) by auto
    let ?t = "el_tag el"
    have t: "valid_tag ?t" using ber_element_sound [OF E g] by simp
    obtain l c where sk: "CBS_skip (el_header_len el) (el_out el) = (Some (), c)" and l: "ber_len (length c) l"
      and cin: "cin = (der_tag ?t @ l @ c) @ c1" and c: "length c < 2 ^ 32" "der_tag ?t @ l @ c = der_element ?t c"
      using ber_element_sound(2) [OF E g] nb by (auto simp: definite_element_def split: if_splits)
    have step: "\<exists>ts. plain E depth ts cin"
      if x: "ber_enc x (der_tag ?t @ l @ c)" "conv_ok E 0 x" "depth + height x \<le> kMaxDepth" "conv E 0 x = der_tag ?t @ l @ c"
        and r: "find_ber_loop E depth c1 = Some False" for x
    proof -
      obtain ts where "plain E depth ts c1" using less(1) [OF ber_rest_length [OF g] r less(3)] by blast
      from plain_Cons [OF x c(2) t c(1) this] show ?thesis unfolding cin by blast
    qed
    show ?thesis
    proof (cases "constructed ?t")
      case True
      then have ns: "\<not> string_tag_of E ?t" using find_ber_step(3) [OF g nb, of depth] less(2) e is_string_type_iff [OF E] by auto
      then have "find_ber_loop E depth cin =
         (case (if kMaxDepth < depth + 1 then None else find_ber_loop E (depth + 1) c) of
            None \<Rightarrow> None | Some True \<Rightarrow> Some True | Some False \<Rightarrow> find_ber_loop E depth c1)"
        using find_ber_step(4) [OF g nb _ _ sk] True e is_string_type_iff [OF E True] by simp
      then have d: "depth + 1 \<le> kMaxDepth" "find_ber_loop E (depth + 1) c = Some False" "find_ber_loop E depth c1 = Some False"
        using less(2) by (auto split: if_splits option.splits bool.splits)
      obtain ts where ts: "plain E (depth + 1) ts c"
        using less(1) [OF ber_contents_length [OF g sk] d(2,1)] by blast
      have ct: "child_tag E 0 ?t = 0" using ns by (simp add: child_tag_def)
      have "conv E 0 (Constr ?t ts) = der_tag ?t @ l @ c"
        unfolding conv_Constr [OF t] ct using ns ts c(2) by (simp add: plain_def)
      moreover have "conv_ok E 0 (Constr ?t ts)" unfolding conv_ok_Constr [OF t] ct using ts by (simp add: plain_def)
      moreover have "depth + height (Constr ?t ts) \<le> kMaxDepth"
        using d(1) ts height_le [of ?t ts "kMaxDepth - depth"] by (auto simp: plain_def list_all_iff)
      moreover have "ber_enc (Constr ?t ts) (der_tag ?t @ l @ c)"
        using ts by (intro definite [OF t True _ l]) (simp add: plain_def)
      ultimately show ?thesis using step d(3) by blast
    next
      case False
      then have "find_ber_loop E depth c1 = Some False" using find_ber_step(2) [OF g nb, of depth] less(2) e by simp
      moreover have "conv E 0 (Prim ?t c) = der_tag ?t @ l @ c"
        unfolding conv_Prim [OF False] using False c(2) by (simp add: string_tag_of_def)
      moreover have "conv_ok E 0 (Prim ?t c)" by (simp add: conv_ok_Prim)
      ultimately show ?thesis using step [of "Prim ?t c"] prim [OF t False l] less(3) by simp
    qed
  qed
qed

text \<open>The first pass gets through every encoding, and finds nothing only if it is already DER.\<close>

lemma ber_element_plain:
  assumes E: "asn1_env_ok E" and g: "CBS_get_any_ber_asn1_element E (der_tag t @ l @ c @ r) = (Some el, r)" "el_tag el = t"
    "\<not> el_indefinite el" "CBS_skip (el_header_len el) (el_out el) = (Some (), c)" "\<not> el_ber_found el"
  shows "der_tag t @ l @ c = der_element t c"
  using ber_element_sound(2) [OF E g(1)] g(2-5) by (auto simp: definite_element_def)

definition passes :: "asn1_env \<Rightarrow> nat \<Rightarrow> u8 list \<Rightarrow> u8 list \<Rightarrow> bool" where
  "passes E depth b x \<longleftrightarrow>
     (\<forall>r. find_ber_loop E depth (b @ r) = Some True \<or> x = b \<and> find_ber_loop E depth (b @ r) = find_ber_loop E depth r)"

lemma passesD: "passes E depth b x \<Longrightarrow> find_ber_loop E depth b = Some True \<or> x = b \<and> find_ber_loop E depth b = Some False"
  unfolding passes_def by (metis append_Nil2 find_ber_loop_Nil)

lemma passes_prim:
  assumes E: "asn1_env_ok E" and t: "valid_tag t" "\<not> constructed t" and l: "ber_len (length c) l"
  shows "passes E depth (der_tag t @ l @ c) (conv E 0 (Prim t c))"
  unfolding passes_def
proof
  fix r
  have e: "CONSTRUCTED E = 0x20000000" using E by (simp add: asn1_env_ok_def)
  obtain el where el: "CBS_get_any_ber_asn1_element E (der_tag t @ l @ c @ r) = (Some el, r)" "el_tag el = t" "\<not> el_indefinite el"
    "CBS_skip (el_header_len el) (el_out el) = (Some (), c)" using ber_element_complete [OF E t(1) l] .
  have "conv E 0 (Prim t c) = der_tag t @ l @ c" if "\<not> el_ber_found el"
    using ber_element_plain [OF E el that] by (simp add: conv_def)
  moreover have "find_ber_loop E depth ((der_tag t @ l @ c) @ r) = (if el_ber_found el then Some True else find_ber_loop E depth r)"
    using find_ber_step(1,2) [OF el(1), of depth] t(2) el(2) e by simp
  ultimately show "find_ber_loop E depth ((der_tag t @ l @ c) @ r) = Some True \<or>
    conv E 0 (Prim t c) = der_tag t @ l @ c \<and> find_ber_loop E depth ((der_tag t @ l @ c) @ r) = find_ber_loop E depth r"
    by simp
qed

lemma passes_definite:
  assumes E: "asn1_env_ok E" and t: "valid_tag t" "constructed t" and l: "ber_len (length c) l" and d: "depth < kMaxDepth"
    and ts: "\<not> string_tag_of E t \<Longrightarrow> passes E (depth + 1) c (concat (map (conv E 0) ts))"
  shows "passes E depth (der_tag t @ l @ c) (conv E 0 (Constr t ts))"
  unfolding passes_def
proof
  fix r
  have e: "CONSTRUCTED E = 0x20000000" using E by (simp add: asn1_env_ok_def)
  obtain el where el: "CBS_get_any_ber_asn1_element E (der_tag t @ l @ c @ r) = (Some el, r)" "el_tag el = t" "\<not> el_indefinite el"
    "CBS_skip (el_header_len el) (el_out el) = (Some (), c)" using ber_element_complete [OF E t(1) l] .
  show "find_ber_loop E depth ((der_tag t @ l @ c) @ r) = Some True \<or>
    conv E 0 (Constr t ts) = der_tag t @ l @ c \<and> find_ber_loop E depth ((der_tag t @ l @ c) @ r) = find_ber_loop E depth r"
  proof (cases "el_ber_found el \<or> string_tag_of E t")
    case True
    then show ?thesis
      using find_ber_step(1,3) [OF el(1), of depth] t(2) el(2) e is_string_type_iff [OF E t(2)] by auto
  next
    case False
    then have "conv E 0 (Constr t ts) = der_element t (concat (map (conv E 0) ts))"
      unfolding conv_Constr [OF t(1)] by (simp add: child_tag_def)
    moreover have "find_ber_loop E depth ((der_tag t @ l @ c) @ r) =
        (case find_ber_loop E (depth + 1) c of
           None \<Rightarrow> None | Some True \<Rightarrow> Some True | Some False \<Rightarrow> find_ber_loop E depth r)"
      using find_ber_step(4) [OF el(1) _ _ _ el(4), of depth] False t(2) el(2) e d is_string_type_iff [OF E t(2)] by simp
    moreover have "find_ber_loop E (depth + 1) c = Some True \<or>
        concat (map (conv E 0) ts) = c \<and> find_ber_loop E (depth + 1) c = Some False"
      using passesD [OF ts] False by blast
    moreover have "der_tag t @ l @ c = der_element t c" using ber_element_plain [OF E el] False by blast
    ultimately show ?thesis by auto
  qed
qed

lemma passes_encoding:
  assumes E: "asn1_env_ok E"
  shows "ber_enc x b \<Longrightarrow> \<forall>depth. conv_ok E 0 x \<longrightarrow> depth + height x \<le> kMaxDepth \<longrightarrow> passes E depth b (conv E 0 x)"
    "ber_encs ts bs \<Longrightarrow> \<forall>depth. list_all (conv_ok E 0) ts \<longrightarrow> list_all (\<lambda>x. depth + height x \<le> kMaxDepth) ts \<longrightarrow>
      passes E depth bs (concat (map (conv E 0) ts))"
proof (induction rule: ber_enc_ber_encs.inducts)
  case (prim t c l)
  then show ?case using passes_prim [OF E] by blast
next
  case (definite t ts c l)
  show ?case
  proof (intro allI impI)
    fix depth
    assume h: "conv_ok E 0 (Constr t ts)" "depth + height (Constr t ts) \<le> kMaxDepth"
    have d: "depth < kMaxDepth" "list_all (\<lambda>x. depth + 1 + height x \<le> kMaxDepth) ts"
      using h(2) height_le [of t ts "kMaxDepth - depth"] by (auto simp: list_all_iff)
    have "passes E (depth + 1) c (concat (map (conv E 0) ts))" if "\<not> string_tag_of E t"
      using definite(5) d(2) h(1) that unfolding conv_ok_Constr [OF definite(1)] by (simp add: child_tag_def)
    then show "passes E depth (der_tag t @ l @ c) (conv E 0 (Constr t ts))"
      by (rule passes_definite [OF E definite(1,2,4) d(1)])
  qed
next
  case (indefinite t ts c)
  have "find_ber_loop E depth ((der_tag t @ 0x80 # c @ [0, 0]) @ r) = Some True" for depth r
  proof -
    obtain el where "CBS_get_any_ber_asn1_element E (der_tag t @ 0x80 # c @ 0 # 0 # r) = (Some el, c @ 0 # 0 # r)" "el_ber_found el"
      using ber_indefinite_complete [OF E indefinite(1,2)] by metis
    then show ?thesis using find_ber_step(1) by simp
  qed
  then show ?case by (simp add: passes_def)
next
  case (more x b xs bs)
  then show ?case by (simp add: passes_def) metis
qed (simp add: passes_def)

text \<open>It finds nothing in the result of a conversion.\<close>

lemma find_ber_der_element:
  assumes E: "asn1_env_ok E" and t: "valid_tag t" and c: "length c < 2 ^ 32"
  shows "\<not> constructed t \<Longrightarrow> find_ber_loop E depth (der_element t c @ r) = find_ber_loop E depth r"
    "constructed t \<Longrightarrow> \<not> string_tag_of E t \<Longrightarrow> depth < kMaxDepth \<Longrightarrow> find_ber_loop E (depth + 1) c = Some False \<Longrightarrow>
     find_ber_loop E depth (der_element t c @ r) = find_ber_loop E depth r"
proof -
  have e: "CONSTRUCTED E = 0x20000000" using E by (simp add: asn1_env_ok_def)
  have g: "CBS_get_any_ber_asn1_element E (der_element t c @ r) = (Some (der_elem t c), r)"
    using any_der_element_complete [OF E t c] by (simp add: CBS_get_any_ber_asn1_element_def)
  have nb: "\<not> el_ber_found (der_elem t c)" by (simp add: der_elem_def)
  show "find_ber_loop E depth (der_element t c @ r) = find_ber_loop E depth r" if "\<not> constructed t"
    using find_ber_step(2) [OF g nb] that e by simp
  show "find_ber_loop E depth (der_element t c @ r) = find_ber_loop E depth r"
    if "constructed t" "\<not> string_tag_of E t" "depth < kMaxDepth" "find_ber_loop E (depth + 1) c = Some False"
    using find_ber_step(4) [OF g nb, of c depth] der_elem_sel(1-3) [of t c] is_string_type_iff [OF E that(1)] that e
    by (simp del: der_elem_sel(4))
qed

lemma base_tag_facts: "\<not> constructed (base_tag t)" "valid_tag t \<Longrightarrow> valid_tag (base_tag t)"
proof -
  show "\<not> constructed (base_tag t)" by (simp add: and.assoc)
  show "valid_tag t \<Longrightarrow> valid_tag (base_tag t)" by (simp add: valid_tag_def and.assoc)
qed

lemma find_ber_Constr:
  assumes E: "asn1_env_ok E" and t: "valid_tag t" "constructed t" and enc: "ber_encs ts c"
    and x: "conv_ok E 0 (Constr t ts)" "depth + height (Constr t ts) \<le> kMaxDepth" and n: "3 * length c \<le> 0xfffffffe"
    and IH: "\<forall>depth r. list_all (conv_ok E 0) ts \<longrightarrow> list_all (\<lambda>x. depth + height x \<le> kMaxDepth) ts \<longrightarrow>
      3 * length c \<le> 0xfffffffe \<longrightarrow> find_ber_loop E depth (concat (map (conv E 0) ts) @ r) = find_ber_loop E depth r"
  shows "find_ber_loop E depth (conv E 0 (Constr t ts) @ r) = find_ber_loop E depth r"
proof -
  have d: "depth < kMaxDepth" "list_all (\<lambda>x. depth + 1 + height x \<le> kMaxDepth) ts"
    using x(2) height_le [of t ts "kMaxDepth - depth"] by (auto simp: list_all_iff)
  let ?x = "concat (map (conv E (child_tag E 0 t)) ts)"
  have "length ?x \<le> 3 * length c" using length_conv(2) [OF enc] by blast
  then have l: "length ?x < 2 ^ 32" using n by simp
  show ?thesis
  proof (cases "string_tag_of E t")
    case True
    then show ?thesis
      unfolding conv_Constr [OF t(1)] using find_ber_der_element(1) [OF E base_tag_facts(2) [OF t(1)] l base_tag_facts(1)] by simp
  next
    case False
    then have ct: "child_tag E 0 t = 0" by (simp add: child_tag_def)
    have ok: "list_all (conv_ok E 0) ts" using x(1) unfolding conv_ok_Constr [OF t(1)] ct by simp
    have "find_ber_loop E (depth + 1) (concat (map (conv E 0) ts) @ []) = find_ber_loop E (depth + 1) []"
      using IH ok d(2) n by blast
    then show ?thesis
      unfolding conv_Constr [OF t(1)] using find_ber_der_element(2) [OF E t(1) l t(2) False d(1), of r] False ct by simp
  qed
qed

lemma find_ber_converted:
  assumes E: "asn1_env_ok E"
  shows "ber_enc x b \<Longrightarrow> \<forall>depth r. conv_ok E 0 x \<longrightarrow> depth + height x \<le> kMaxDepth \<longrightarrow> 3 * length b \<le> 0xfffffffe \<longrightarrow>
      find_ber_loop E depth (conv E 0 x @ r) = find_ber_loop E depth r"
    "ber_encs ts bs \<Longrightarrow> \<forall>depth r. list_all (conv_ok E 0) ts \<longrightarrow> list_all (\<lambda>x. depth + height x \<le> kMaxDepth) ts \<longrightarrow>
      3 * length bs \<le> 0xfffffffe \<longrightarrow> find_ber_loop E depth (concat (map (conv E 0) ts) @ r) = find_ber_loop E depth r"
proof (induction rule: ber_enc_ber_encs.inducts)
  case (prim t c l)
  show ?case
  proof (intro allI impI)
    fix depth r
    assume "3 * length (der_tag t @ l @ c) \<le> 0xfffffffe"
    then have "length c < 2 ^ 32" by simp
    moreover have "conv E 0 (Prim t c) = der_element t c" using prim(2) by (simp add: conv_def)
    ultimately show "find_ber_loop E depth (conv E 0 (Prim t c) @ r) = find_ber_loop E depth r"
      using find_ber_der_element(1) [OF E prim(1) _ prim(2)] by simp
  qed
next
  case (definite t ts c l)
  show ?case
  proof (intro allI impI)
    fix depth r
    assume a: "conv_ok E 0 (Constr t ts)" "depth + height (Constr t ts) \<le> kMaxDepth" "3 * length (der_tag t @ l @ c) \<le> 0xfffffffe"
    then show "find_ber_loop E depth (conv E 0 (Constr t ts) @ r) = find_ber_loop E depth r"
      using find_ber_Constr [OF E definite(1,2,3) a(1,2) _ definite(5)] by simp
  qed
next
  case (indefinite t ts c)
  show ?case
  proof (intro allI impI)
    fix depth r
    assume a: "conv_ok E 0 (Constr t ts)" "depth + height (Constr t ts) \<le> kMaxDepth" "3 * length (der_tag t @ 0x80 # c @ [0, 0]) \<le> 0xfffffffe"
    then show "find_ber_loop E depth (conv E 0 (Constr t ts) @ r) = find_ber_loop E depth r"
      using find_ber_Constr [OF E indefinite(1,2,3) a(1,2) _ indefinite(4)] by simp
  qed
next
  case (more x b xs bs)
  then show ?case by simp
qed simp

section \<open>Properties\<close>

text \<open>
  The input is an encoding of the elements \<open>ts\<close>: constructed strings are made of parts with their own
  tag, and no more than \<open>kMaxDepth\<close> constructed elements are nested.
\<close>

definition ber_input :: "asn1_env \<Rightarrow> ber list \<Rightarrow> cbs \<Rightarrow> bool" where
  "ber_input E ts cin \<longleftrightarrow> ber_encs ts cin \<and> list_all (strings_ok (string_tag_of E)) ts \<and> list_all (\<lambda>x. height x \<le> kMaxDepth) ts"

definition ders :: "asn1_env \<Rightarrow> ber list \<Rightarrow> u8 list" where
  "ders E ts = concat (map (der (string_tag_of E)) ts)"

lemma conv_top: "conv E 0 = der (string_tag_of E)" "conv_ok E 0 = strings_ok (string_tag_of E)"
  by (auto simp: conv_def conv_ok_def fun_eq_iff)

lemma ber_input_converted:
  assumes "CBB_init H (length cin) = (True, st)" "converted E 0 0 0 ts cin st st'" "length cin < SIZE_MOD"
  shows "ber_input E ts cin" "cbb_abs st' = (ders E ts, [])"
  using assms CBB_init_ok(2) [OF assms(1,3)]
  by (simp_all add: converted_def ber_input_def ders_def conv_top appends_def)

lemma plain_input:
  assumes "plain E 0 ts cin"
  shows "ber_input E ts cin" "cin = ders E ts"
    "ts = x # xs \<Longrightarrow> \<exists>t c. valid_tag t \<and> length c < 2 ^ 32 \<and> der (string_tag_of E) x = der_element t c"
  using assms by (auto simp: plain_def ber_input_def ders_def conv_top)

lemma get_der_element:
  assumes "asn1_env_ok E" "valid_tag t" "length c < 2 ^ 32"
  shows "get_bind (CBS_get_any_asn1_element E (der_element t c @ r)) (\<lambda>el cin. (Some (el_out el, False), cin)) =
    (Some (der_element t c, False), r)"
  using any_der_element_complete [OF assms, of False]
  by (simp add: CBS_get_any_asn1_element_def get_bind_def del: der_elem_sel(4))

text \<open>
  C35: What \<open>CBS_asn1_ber_to_der\<close> returns is DER: the input was the BER encoding of some elements, with
  definite and indefinite lengths and constructed strings, and the output is the encoding of these
  elements with minimal definite lengths and with the parts of each string put together. If nothing
  had to be converted, the output is the first element and the others are left in the input; if
  something had to be converted, the output has all the elements, and the input is used up.\<close>
theorem ber_to_der_sound:
  assumes E: "asn1_env_ok E" and n: "length cin < SIZE_MOD" and r: "CBS_asn1_ber_to_der H E cin = (Some (out, owned), rest)"
  shows "\<exists>ts. ber_input E ts cin \<and>
    (if owned then out = ders E ts \<and> rest = []
     else ts \<noteq> [] \<and> cin = ders E ts \<and> out = ders E [hd ts] \<and> rest = ders E (tl ts))"
proof -
  obtain needed where f: "cbs_find_ber E cin 0 = Some needed" using r by (auto simp: CBS_asn1_ber_to_der_def split: option.splits)
  show ?thesis
  proof (cases needed)
    case True
    obtain st where i: "CBB_init H (length cin) = (True, st)"
      using r f True by (cases "CBB_init H (length cin)"; cases "fst (CBB_init H (length cin))") (auto simp: CBS_asn1_ber_to_der_def)
    obtain s st1 where c: "convert_ber_loop H E 0 False 0 cin 0 st = (True, s, st1)"
      using r f True i by (cases "convert_ber_loop H E 0 False 0 cin 0 st"; cases "fst (convert_ber_loop H E 0 False 0 cin 0 st)")
        (auto simp: CBS_asn1_ber_to_der_def cbs_convert_ber_def)
    obtain st2 where e: "CBB_finish H True 0 st1 = (Some out, st2)" and o: "owned" "rest = s"
      using r f True i c by (cases "CBB_finish H True 0 st1"; cases "fst (CBB_finish H True 0 st1)")
        (auto simp: CBS_asn1_ber_to_der_def cbs_convert_ber_def)
    obtain ts where ts: "s = []" "converted E 0 0 0 ts cin st st1"
      using convert_ber_loop_sound [OF E n CBB_init_ok(1) [OF i n] _ c] by auto
    note b = ber_input_converted [OF i ts(2) n]
    have "cbb_ok st1" using ts(2) appends_ok by (auto simp: converted_def)
    then have "out = ders E ts" using CBB_finish_out [OF _ e] b(2) by simp
    then show ?thesis using b(1) o ts(1) by auto
  next
    case False
    then obtain ts where ts: "plain E 0 ts cin" using find_ber_plain [OF E] f by (auto simp: cbs_find_ber_def)
    have g: "get_bind (CBS_get_any_asn1_element E cin) (\<lambda>el cin. (Some (el_out el, False), cin)) = (Some (out, owned), rest)"
      using r f False by (simp add: CBS_asn1_ber_to_der_def)
    then obtain x xs where x: "ts = x # xs" using plain_input(2) [OF ts]
      by (cases ts) (auto simp: ders_def CBS_get_any_asn1_element_def cbs_get_any_asn1_element_def parse_asn1_tag_def get_bind_def)
    obtain t c where t: "valid_tag t" "length c < 2 ^ 32" "der (string_tag_of E) x = der_element t c"
      using plain_input(3) [OF ts x] by blast
    have "cin = der_element t c @ ders E xs" using plain_input(2) [OF ts] x t(3) by (simp add: ders_def)
    then show ?thesis using g get_der_element [OF E t(1,2), of "ders E xs"] plain_input(1,2) [OF ts] x t(3)
      by (intro exI [of _ ts]) (simp add: ders_def)
  qed
qed

lemma cbs_find_ber_input:
  assumes E: "asn1_env_ok E" and b: "ber_input E ts cin" and n: "3 * length cin \<le> 0xfffffffe"
  shows "cbs_find_ber E cin 0 = Some (cin \<noteq> ders E ts)"
proof -
  have i: "ber_encs ts cin" "list_all (conv_ok E 0) ts" "list_all (\<lambda>x. 0 + height x \<le> kMaxDepth) ts"
    using b by (simp_all add: ber_input_def conv_top)
  have "passes E 0 cin (ders E ts)"
    using passes_encoding(2) [OF E i(1)] i(2,3) unfolding ders_def conv_top by blast
  from passesD [OF this] have "cbs_find_ber E cin 0 = Some True \<or> ders E ts = cin \<and> cbs_find_ber E cin 0 = Some False"
    by (simp add: cbs_find_ber_def)
  moreover have "cbs_find_ber E cin 0 = Some False" if "cin = ders E ts"
  proof -
    have "find_ber_loop E 0 (concat (map (conv E 0) ts) @ []) = find_ber_loop E 0 []"
      using find_ber_converted(2) [OF E i(1)] i(2,3) n by blast
    then show ?thesis using that by (simp add: cbs_find_ber_def ders_def conv_top)
  qed
  ultimately show ?thesis by auto
qed

lemma finish_appended:
  assumes "appends 0 x st st'" "cbb_abs st = ([], [])"
  shows "fst (CBB_finish H True 0 st') = Some x"
proof -
  have rd: "ready 0 st'" using assms(1) by (rule appends_ready)
  have "cbb_abs st' = (x, [])" using assms by (simp add: appends_def)
  then show ?thesis
    using ready_flush [OF rd, of H] rd by (simp add: CBB_finish_def cbb_abs_def ready_def used_def)
qed

lemma ber_to_der_convert:
  assumes E: "asn1_env_ok E" and H: "\<forall>k. alloc_ok H k" and b: "ber_input E ts cin" and n: "3 * length cin \<le> 0xfffffffe"
    and f: "cbs_find_ber E cin 0 = Some True"
  shows "CBS_asn1_ber_to_der H E cin = (Some (ders E ts, True), [])"
proof -
  have i: "ber_encs ts cin" "list_all (conv_ok E 0) ts" "list_all (\<lambda>x. 0 + height x \<le> kMaxDepth) ts"
    using b by (simp_all add: ber_input_def conv_top)
  have s: "length cin < SIZE_MOD" using n by simp
  obtain st where i0: "CBB_init H (length cin) = (True, st)" and r0: "roomy H (4 + 3 * length cin) (cb_base st)"
    using H n by (simp add: CBB_init_def cbb_init_def roomy_def)
  note st = CBB_init_ok [OF i0 s]
  have "converts H E 0 0 cin (ders E ts)"
    using converts_complete(2) [OF E i(1), of H] i(2,3) n unfolding ders_def conv_top(1) [symmetric] by blast
  then obtain st1 where c: "convert_ber_loop H E 0 False 0 cin 0 st = (True, [], st1)" "appends 0 (ders E ts) st st1"
    using convertsE [of H E 0 0 cin "ders E ts" 0 st 4 False "[]"] st(1) r0 by auto
  show ?thesis using f i0 c(1) finish_appended [OF c(2) st(2), of H]
    by (cases "CBB_finish H True 0 st1") (simp add: CBS_asn1_ber_to_der_def cbs_convert_ber_def)
qed

lemma conv_Constr_element:
  assumes "valid_tag t" "ber_encs ts c" "3 * length c \<le> 0xfffffffe"
  shows "\<exists>t' c'. valid_tag t' \<and> length c' < 2 ^ 32 \<and> conv E 0 (Constr t ts) = der_element t' c'"
proof -
  have "length (concat (map (conv E (child_tag E 0 t)) ts)) \<le> 3 * length c" using length_conv(2) [OF assms(2)] by blast
  then show ?thesis
    unfolding conv_Constr [OF assms(1)] using assms(1,3) base_tag_facts(2) [OF assms(1)]
    by (intro exI [of _ "if string_tag_of E t then base_tag t else t"] exI [of _ "concat (map (conv E (child_tag E 0 t)) ts)"]) simp
qed

lemma conv_der_element:
  assumes "ber_enc x b" "3 * length b \<le> 0xfffffffe"
  shows "\<exists>t c. valid_tag t \<and> length c < 2 ^ 32 \<and> conv E 0 x = der_element t c"
  using assms(1)
proof cases
  case (prim t c l)
  then show ?thesis using assms(2) by (intro exI [of _ t] exI [of _ c]) (simp add: conv_def)
next
  case (definite t ts c l)
  then show ?thesis using conv_Constr_element [OF definite(3,5)] assms(2) by simp
next
  case (indefinite t ts c)
  then show ?thesis using conv_Constr_element [OF indefinite(3,5)] assms(2) by simp
qed

text \<open>
  C36: \<open>CBS_asn1_ber_to_der\<close> converts every BER encoding with at most 128 levels of nesting whose
  constructed strings are well formed, when no allocation fails and the result cannot exceed the
  lengths of DER: it returns the input itself if that is already DER, and the DER encoding
  otherwise. Its two passes agree: the first one asks for a conversion exactly if converting
  changes the bytes.\<close>
theorem ber_to_der_total:
  assumes E: "asn1_env_ok E" and H: "\<forall>k. alloc_ok H k" and b: "ber_input E ts cin" "ts \<noteq> []" and n: "3 * length cin \<le> 0xfffffffe"
  shows "CBS_asn1_ber_to_der H E cin =
    (if cin = ders E ts then (Some (ders E [hd ts], False), ders E (tl ts)) else (Some (ders E ts, True), []))"
proof (cases "cin = ders E ts")
  case False
  then show ?thesis using ber_to_der_convert [OF E H b(1) n] cbs_find_ber_input [OF E b(1) n] by simp
next
  case True
  then have f: "cbs_find_ber E cin 0 = Some False" using cbs_find_ber_input [OF E b(1) n] by simp
  obtain x xs where ts: "ts = x # xs" using b(2) by (cases ts) auto
  obtain bx bs where x: "ber_enc x bx" "cin = bx @ bs"
    using b(1) unfolding ber_input_def ts by (auto elim: ber_encs.cases)
  obtain t c where t: "valid_tag t" "length c < 2 ^ 32" "der (string_tag_of E) x = der_element t c"
    using conv_der_element [OF x(1), of E] x(2) n unfolding conv_top by auto
  have "cin = der_element t c @ ders E xs" using True t(3) by (simp add: ders_def ts)
  then show ?thesis using get_der_element [OF E t(1,2), of "ders E xs"] f True t(3)
    by (simp add: CBS_asn1_ber_to_der_def ders_def ts)
qed

text \<open>A constructed OCTET STRING of indefinite length with two parts.\<close>

definition ber_example :: "ber list" where
  "ber_example = [Constr 0x20000004 [Prim 4 [0xaa], Prim 4 [0xbb]]]"

lemma ber_example_tags: "der_tag 0x20000004 = [0x24]" "der_tag 4 = [4]" "valid_tag 4" "valid_tag 0x20000004"
  by (simp_all add: der_tag_def valid_tag_def byte_of_def)

lemma ber_example_input: "ber_input asn1_env_std ber_example [0x24, 0x80, 4, 1, 0xaa, 4, 1, 0xbb, 0, 0]"
proof -
  have p: "ber_enc (Prim 4 [b]) [4, 1, b]" for b
    using prim [of 4 "[b]" "[1]"] by (simp add: ber_example_tags ber_len_def byte_of_def)
  have "ber_encs [Prim 4 [0xaa], Prim 4 [0xbb]] ([4, 1, 0xaa] @ [4, 1, 0xbb] @ [])"
    by (intro more none p)
  from indefinite [OF ber_example_tags(4) _ this] have "ber_enc (hd ber_example) [0x24, 0x80, 4, 1, 0xaa, 4, 1, 0xbb, 0, 0]"
    by (simp add: ber_example_def ber_example_tags)
  from more [OF this none] show ?thesis
    by (simp add: ber_input_def ber_example_def string_tag_of_def asn1_env_std_def kMaxDepth_def)
qed

lemma ber_example_ders: "ders asn1_env_std ber_example = [4, 2, 0xaa, 0xbb]"
  by (simp add: ders_def ber_example_def string_tag_of_def asn1_env_std_def der_element_def ber_example_tags der_len_def byte_of_def)

theorem ber_to_der_total_witness:
  "CBS_asn1_ber_to_der heap_total asn1_env_std [0x24, 0x80, 4, 1, 0xaa, 4, 1, 0xbb, 0, 0] = (Some ([4, 2, 0xaa, 0xbb], True), [])"
  using ber_to_der_total [OF asn1_env_std_ok _ ber_example_input, of heap_total]
  by (simp add: ber_example_ders) (simp add: heap_total_def ber_example_def)

theorem ber_to_der_sound_witness:
  "\<exists>ts. ber_input asn1_env_std ts [0x24, 0x80, 4, 1, 0xaa, 4, 1, 0xbb, 0, 0] \<and> ders asn1_env_std ts = [4, 2, 0xaa, 0xbb]"
proof -
  let ?s = "[0x24, 0x80, 4, 1, 0xaa, 4, 1, 0xbb, 0, 0] :: u8 list"
  have f: "cbs_find_ber asn1_env_std ?s 0 = Some True"
    using cbs_find_ber_input [OF asn1_env_std_ok ber_example_input] by (simp add: ber_example_ders)
  have "CBS_asn1_ber_to_der heap_total asn1_env_std ?s = (Some ([4, 2, 0xaa, 0xbb], True), [])"
    using ber_to_der_convert [OF asn1_env_std_ok _ ber_example_input _ f, of heap_total] by (simp add: ber_example_ders heap_total_def)
  from ber_to_der_sound [OF asn1_env_std_ok _ this] show ?thesis by auto
qed

section \<open>Implicitly tagged strings\<close>

definition pieces :: "u32 \<Rightarrow> u8 list list \<Rightarrow> u8 list" where
  "pieces t cs = concat (map (der_element t) cs)"

lemma implicit_string_loop_sound:
  assumes E: "asn1_env_ok E"
  shows "length child < SIZE_MOD \<Longrightarrow> ready 0 st \<Longrightarrow> implicit_string_loop H E t child st = (True, st') \<Longrightarrow>
    \<exists>cs. child = pieces t cs \<and> list_all (\<lambda>c. length c < 2 ^ 32) cs \<and> appends 0 (concat cs) st st'"
proof (induction "length child" arbitrary: child st rule: less_induct)
  case less
  show ?case
  proof (cases "child = []")
    case True
    then show ?thesis using less(4) ready_appends [OF less(3)]
      by (intro exI [of _ "[]"]) (simp add: pieces_def implicit_string_loop.simps [of H E t "[]"])
  next
    case False
    then obtain c r st1 where g: "CBS_get_asn1 E t child = (Some c, r)" and a: "CBB_add_bytes H c 0 st = (True, st1)"
      and l: "implicit_string_loop H E t r st1 = (True, st')"
      using less(4) unfolding implicit_string_loop.simps [of H E t child]
      by (auto elim: and_then_TrueE split: prod.splits option.splits)
    have d: "length c < 2 ^ 32" "child = der_element t c @ r" using g CBS_get_asn1_iff [OF E] by auto
    have "cbb_ok st" "length c < SIZE_MOD" using less(3) d(1) by (simp_all add: ready_def)
    then have ap: "appends 0 c st st1" using a by (rule CBB_add_bytes_appends)
    have "length r < length child" using g by (rule CBS_get_asn1_rest_length)
    then obtain cs where "r = pieces t cs" "list_all (\<lambda>c. length c < 2 ^ 32) cs" "appends 0 (concat cs) st1 st'"
      using less(1) [OF _ _ appends_ready [OF ap] l] less(2) by auto
    then show ?thesis using d appends_trans [OF ap] by (intro exI [of _ "c # cs"]) (simp add: pieces_def)
  qed
qed

lemma implicit_string_loop_emits:
  assumes E: "asn1_env_ok E" and t: "valid_tag t"
  shows "list_all (\<lambda>c. length c < 2 ^ 32) cs \<Longrightarrow> emits H 0 (concat cs) (implicit_string_loop H E t (pieces t cs))"
proof (induction cs)
  case Nil
  have "implicit_string_loop H E t [] = Pair True" by (rule ext) (simp add: implicit_string_loop.simps)
  then show ?case using emits_Nil by (simp add: pieces_def)
next
  case (Cons c cs)
  have "CBS_get_asn1 E t (pieces t (c # cs)) = (Some c, pieces t cs)"
    using CBS_get_asn1_iff [OF E] Cons(2) t by (simp add: pieces_def)
  moreover have "pieces t (c # cs) \<noteq> []" using der_element_length [of t c] by (auto simp: pieces_def)
  ultimately have "implicit_string_loop H E t (pieces t (c # cs)) =
      (\<lambda>st. and_then (CBB_add_bytes H c 0 st) (implicit_string_loop H E t (pieces t cs)))"
    by (intro ext) (simp add: implicit_string_loop.simps [of H E t "pieces t (c # cs)"])
  then show ?case using emits_then [OF emits_bytes Cons(1)] Cons(2) by simp
qed

lemma implicit_string_loop_finish:
  assumes E: "asn1_env_ok E" and t: "valid_tag t" and st: "ready 0 st" "cbb_abs st = ([], [])" and n: "length child < SIZE_MOD"
    and room: "roomy H (length child) (cb_base st)"
  shows "(\<exists>st1 st2. implicit_string_loop H E t child st = (True, st1) \<and> CBB_finish H True 0 st1 = (Some out, st2)) \<longleftrightarrow>
    (\<exists>cs. list_all (\<lambda>c. length c < 2 ^ 32) cs \<and> out = concat cs \<and> child = pieces t cs)"
proof
  have fin: "CBB_finish H True 0 st1 = (Some y, st2) \<longleftrightarrow> y = x \<and> st2 = snd (CBB_finish H True 0 st1)" if "appends 0 x st st1" for x y st1 st2
    using finish_appended [OF that st(2), of H] by (cases "CBB_finish H True 0 st1") auto
  show "\<exists>cs. list_all (\<lambda>c. length c < 2 ^ 32) cs \<and> out = concat cs \<and> child = pieces t cs"
    if "\<exists>st1 st2. implicit_string_loop H E t child st = (True, st1) \<and> CBB_finish H True 0 st1 = (Some out, st2)"
    using that implicit_string_loop_sound [OF E n st(1), of H t] fin by fastforce
  assume "\<exists>cs. list_all (\<lambda>c. length c < 2 ^ 32) cs \<and> out = concat cs \<and> child = pieces t cs"
  then obtain cs where cs: "list_all (\<lambda>c. length c < 2 ^ 32) cs" "out = concat cs" "child = pieces t cs" by blast
  have "length (concat cs) \<le> length (pieces t cs)" by (induction cs) (simp_all add: pieces_def der_element_def)
  then have "roomy H (0 + length (concat cs)) (cb_base st)" using room cs(3) by (auto simp: roomy_def)
  from emitsE [OF implicit_string_loop_emits [OF E t cs(1)] st(1) this]
  show "\<exists>st1 st2. implicit_string_loop H E t child st = (True, st1) \<and> CBB_finish H True 0 st1 = (Some out, st2)"
    using cs fin by metis
qed

lemma constructed_tag:
  assumes "valid_tag t" "\<not> constructed t"
  shows "valid_tag (t OR 0x20000000)" "t OR 0x20000000 \<noteq> t"
proof -
  show "valid_tag (t OR 0x20000000)" using assms(1) unfolding valid_tag_def bit.conj_disj_distrib2 by simp
  have "(t OR 0x20000000) AND 0x20000000 \<noteq> 0" unfolding bit.conj_disj_distrib2 using assms(2) by simp
  then show "t OR 0x20000000 \<noteq> t" using assms(2) by metis
qed

lemma CBS_peek_der_element:
  "asn1_env_ok E \<Longrightarrow> valid_tag x \<Longrightarrow> CBS_peek_asn1_tag E t (der_element x c @ r) \<longleftrightarrow> x = t"
  using parse_asn1_tag_iff [of E "der_element x c @ r" x "der_len (length c) @ c @ r"]
  by (simp add: CBS_peek_asn1_tag_def der_element_def)

text \<open>
  \<open>CBS_get_asn1_implicit_string\<close> reads an implicitly tagged string exactly: it returns the contents
  of an element with the outer tag, in place, or the parts of a constructed element with that tag,
  one level deep and each with the inner tag, put together in a buffer of its own; and it accepts
  nothing else. This is when no allocation fails.\<close>
lemma implicit_string_exact:
  assumes E: "asn1_env_ok E" and H: "\<forall>k. alloc_ok H k" and n: "length cin < SIZE_MOD"
    and t: "valid_tag outer" "\<not> constructed outer" "valid_tag inner"
  shows "CBS_get_asn1_implicit_string H E outer inner cin = (Some (out, owned), rest) \<longleftrightarrow>
    (if owned then \<exists>cs. list_all (\<lambda>c. length c < 2 ^ 32) cs \<and> out = concat cs \<and> length (pieces inner cs) < 2 ^ 32 \<and>
         cin = der_element (outer OR 0x20000000) (pieces inner cs) @ rest
     else length out < 2 ^ 32 \<and> cin = der_element outer out @ rest)"
proof -
  let ?outer = "outer OR 0x20000000"
  have e: "CONSTRUCTED E = 0x20000000" using E by (simp add: asn1_env_ok_def)
  note ct = constructed_tag [OF t(1,2)]
  note peek = CBS_peek_der_element [OF E t(1), of outer] CBS_peek_der_element [OF E ct(1), of outer]
  show ?thesis
  proof (cases "CBS_peek_asn1_tag E outer cin")
    case True
    have "CBS_get_asn1_implicit_string H E outer inner cin = (Some (out, owned), rest) \<longleftrightarrow>
        \<not> owned \<and> CBS_get_asn1 E outer cin = (Some out, rest)"
      using True by (auto simp: CBS_get_asn1_implicit_string_def get_bind_def split: prod.splits option.splits)
    then show ?thesis using CBS_get_asn1_iff [OF E, of outer cin] t(1) True peek(2) ct(2) by auto
  next
    case False
    obtain st where i: "CBB_init H (length cin) = (True, st)" "roomy H (length cin) (cb_base st)"
      using H n by (simp add: CBB_init_def cbb_init_def roomy_def)
    have res: "CBS_get_asn1_implicit_string H E outer inner cin = (Some (out, owned), rest) \<longleftrightarrow>
        owned \<and> (\<exists>child st1 st2. CBS_get_asn1 E ?outer cin = (Some child, rest) \<and>
          implicit_string_loop H E inner child st = (True, st1) \<and> CBB_finish H True 0 st1 = (Some out, st2))"
      using False i(1) e by (auto simp: CBS_get_asn1_implicit_string_def get_bind_def split: prod.splits option.splits bool.splits)
    have "(\<exists>st1 st2. implicit_string_loop H E inner child st = (True, st1) \<and> CBB_finish H True 0 st1 = (Some out, st2)) \<longleftrightarrow>
        (\<exists>cs. list_all (\<lambda>c. length c < 2 ^ 32) cs \<and> out = concat cs \<and> child = pieces inner cs)"
      if g: "CBS_get_asn1 E ?outer cin = (Some child, rest)" for child
    proof -
      have l: "length child \<le> length cin" using g CBS_get_asn1_iff [OF E] by (auto simp: der_element_def)
      then have "roomy H (length child) (cb_base st)" using i(2) by (auto simp: roomy_def)
      then show ?thesis using l n by (intro implicit_string_loop_finish [OF E t(3) CBB_init_ok [OF i(1) n]]) simp_all
    qed
    then have "CBS_get_asn1_implicit_string H E outer inner cin = (Some (out, owned), rest) \<longleftrightarrow>
        owned \<and> (\<exists>cs. list_all (\<lambda>c. length c < 2 ^ 32) cs \<and> out = concat cs \<and> CBS_get_asn1 E ?outer cin = (Some (pieces inner cs), rest))"
      unfolding res by blast
    then show ?thesis using CBS_get_asn1_iff [OF E, of ?outer cin] ct(1) False peek(1) by (cases owned) auto
  qed
qed

end
