(* ===== verification/SPX.thy ===== *)
theory SPX
  imports BS_Cbs "HOL-Library.Monad_Syntax"
begin

text \<open>
  The signature scheme SPHINCS+-SHA2-128s of BoringSSL, \<open>crypto/spx/\<close>: addresses, hash functions,
  WOTS+ one-time signatures, Merkle trees and the hypertree, FORS, and the three functions of the
  interface. SHA-256 is the parameter \<open>sha\<close>, a function on byte strings; the bytes of \<open>RAND_bytes\<close> are an
  argument. An address is the array \<open>uint8_t addr[32]\<close>, which the functions change as they go; it is
  threaded through. An array parameter is the list of the bytes behind the pointer, and an array
  a function fills is a result. A result of \<open>None\<close> is an
  abort by \<open>BSSL_CHECK\<close>, or a read past the end of a signature, a key, a seed (\<open>read_bytes\<close>) or the input of
  \<open>spx_base_b\<close>: none of the functions takes a length.
\<close>

type_synonym addr = "u8 list"

section \<open>Parameters\<close>

abbreviation (input) SPX_N :: nat where "SPX_N \<equiv> 16"
abbreviation (input) SPX_FULL_HEIGHT :: nat where "SPX_FULL_HEIGHT \<equiv> 63"
abbreviation (input) SPX_D :: nat where "SPX_D \<equiv> 7"
abbreviation (input) SPX_TREE_HEIGHT :: nat where "SPX_TREE_HEIGHT \<equiv> 9"
abbreviation (input) SPX_FORS_HEIGHT :: nat where "SPX_FORS_HEIGHT \<equiv> 12"
abbreviation (input) SPX_FORS_TREES :: nat where "SPX_FORS_TREES \<equiv> 14"
abbreviation (input) SPX_FORS_BYTES :: nat where "SPX_FORS_BYTES \<equiv> (SPX_FORS_HEIGHT + 1) * SPX_FORS_TREES * SPX_N"
abbreviation (input) SPX_WOTS_W :: nat where "SPX_WOTS_W \<equiv> 16"
abbreviation (input) SPX_WOTS_LOG_W :: nat where "SPX_WOTS_LOG_W \<equiv> 4"
abbreviation (input) SPX_WOTS_LEN1 :: nat where "SPX_WOTS_LEN1 \<equiv> 32"
abbreviation (input) SPX_WOTS_LEN2 :: nat where "SPX_WOTS_LEN2 \<equiv> 3"
abbreviation (input) SPX_WOTS_LEN :: nat where "SPX_WOTS_LEN \<equiv> 35"
abbreviation (input) SPX_WOTS_BYTES :: nat where "SPX_WOTS_BYTES \<equiv> SPX_N * SPX_WOTS_LEN"
abbreviation (input) SPX_XMSS_BYTES :: nat where "SPX_XMSS_BYTES \<equiv> SPX_WOTS_BYTES + SPX_N * SPX_TREE_HEIGHT"
abbreviation (input) SPX_DIGEST_SIZE :: nat where
  "SPX_DIGEST_SIZE \<equiv> SPX_FORS_TREES * SPX_FORS_HEIGHT div 8 +
     ((SPX_FULL_HEIGHT - SPX_TREE_HEIGHT) div 8 + 1) + SPX_TREE_HEIGHT div 8 + 1"
abbreviation (input) SPX_SHA256_ADDR_BYTES :: nat where "SPX_SHA256_ADDR_BYTES \<equiv> 22"
abbreviation (input) SPX_FORS_MSG_BYTES :: nat where "SPX_FORS_MSG_BYTES \<equiv> (SPX_FORS_HEIGHT * SPX_FORS_TREES + 7) div 8"
abbreviation (input) SPX_TREE_BITS :: nat where "SPX_TREE_BITS \<equiv> SPX_TREE_HEIGHT * (SPX_D - 1)"
abbreviation (input) SPX_TREE_BYTES :: nat where "SPX_TREE_BYTES \<equiv> (SPX_TREE_BITS + 7) div 8"
abbreviation (input) SPX_LEAF_BITS :: nat where "SPX_LEAF_BITS \<equiv> SPX_TREE_HEIGHT"
abbreviation (input) SPX_LEAF_BYTES :: nat where "SPX_LEAF_BYTES \<equiv> (SPX_LEAF_BITS + 7) div 8"

abbreviation (input) SPX_ADDR_TYPE_WOTS :: u32 where "SPX_ADDR_TYPE_WOTS \<equiv> 0"
abbreviation (input) SPX_ADDR_TYPE_WOTSPK :: u32 where "SPX_ADDR_TYPE_WOTSPK \<equiv> 1"
abbreviation (input) SPX_ADDR_TYPE_HASHTREE :: u32 where "SPX_ADDR_TYPE_HASHTREE \<equiv> 2"
abbreviation (input) SPX_ADDR_TYPE_FORSTREE :: u32 where "SPX_ADDR_TYPE_FORSTREE \<equiv> 3"
abbreviation (input) SPX_ADDR_TYPE_FORSPK :: u32 where "SPX_ADDR_TYPE_FORSPK \<equiv> 4"
abbreviation (input) SPX_ADDR_TYPE_WOTSPRF :: u32 where "SPX_ADDR_TYPE_WOTSPRF \<equiv> 5"
abbreviation (input) SPX_ADDR_TYPE_FORSPRF :: u32 where "SPX_ADDR_TYPE_FORSPRF \<equiv> 6"

text \<open>\<open>for (i = 0; i < n; i++)\<close>, with a body that may abort.\<close>

primrec for_opt :: "nat \<Rightarrow> (nat \<Rightarrow> 's \<Rightarrow> 's option) \<Rightarrow> 's \<Rightarrow> 's option" where
  "for_opt 0 f s = Some s"
| "for_opt (Suc n) f s = Option.bind (for_opt n f s) (f n)"

primrec for_loop :: "nat \<Rightarrow> (nat \<Rightarrow> 's \<Rightarrow> 's) \<Rightarrow> 's \<Rightarrow> 's" where
  "for_loop 0 f s = s"
| "for_loop (Suc n) f s = f n (for_loop n f s)"

text \<open>The \<open>n\<close> bytes at the offset \<open>off\<close> of an array.\<close>

definition read_bytes :: "u8 list \<Rightarrow> nat \<Rightarrow> nat \<Rightarrow> u8 list option" where
  "read_bytes arr off n = (if off + n \<le> length arr then Some (take n (drop off arr)) else None)"

section \<open>Integers\<close>

text \<open>The bytes are written from the last one to the first.\<close>

primrec len_bytes_loop :: "nat \<Rightarrow> u64 \<Rightarrow> u8 list \<Rightarrow> u8 list" where
  "len_bytes_loop 0 input output = output"
| "len_bytes_loop (Suc i) input output = len_bytes_loop i (drop_bit 8 input) (output[i := ucast (input AND 0xff)])"

definition spx_uint64_to_len_bytes :: "u8 list \<Rightarrow> nat \<Rightarrow> u64 \<Rightarrow> u8 list" where
  "spx_uint64_to_len_bytes output out_len input = len_bytes_loop out_len input output"

definition spx_to_uint64 :: "u8 list \<Rightarrow> nat \<Rightarrow> u64" where
  "spx_to_uint64 input input_len = foldl (\<lambda>tmp b. 256 * tmp + ucast b) 0 (take input_len input)"

text \<open>\<open>while (bits < log2_b)\<close>; the input is the part that has not been read.\<close>

fun base_b_fill :: "nat \<Rightarrow> u8 list \<Rightarrow> nat \<Rightarrow> u32 \<Rightarrow> (u8 list \<times> nat \<times> u32) option" where
  "base_b_fill log2_b [] bits tot = (if bits < log2_b then None else Some ([], bits, tot))"
| "base_b_fill log2_b (b # input) bits tot =
     (if bits < log2_b then base_b_fill log2_b input (bits + 8) (push_bit 8 tot + ucast b)
      else Some (b # input, bits, tot))"

primrec base_b_loop :: "nat \<Rightarrow> nat \<Rightarrow> u8 list \<Rightarrow> nat \<Rightarrow> u32 \<Rightarrow> u32 list option" where
  "base_b_loop 0 log2_b input bits tot = Some []"
| "base_b_loop (Suc n) log2_b input bits tot =
     do { (input, bits, tot) \<leftarrow> base_b_fill log2_b input bits tot;
          let bits = bits - log2_b;
          output \<leftarrow> base_b_loop n log2_b input bits tot;
          Some (drop_bit bits tot mod push_bit log2_b 1 # output) }"

definition spx_base_b :: "nat \<Rightarrow> u8 list \<Rightarrow> nat \<Rightarrow> u32 list option" where
  "spx_base_b out_len input log2_b = base_b_loop out_len log2_b input 0 0"

section \<open>Addresses\<close>

definition CRYPTO_store_u32_be :: "u32 \<Rightarrow> u8 list" where
  "CRYPTO_store_u32_be v = nat_to_le 4 (unat (CRYPTO_bswap4 v))"

definition CRYPTO_load_u32_be :: "u8 list \<Rightarrow> u32" where
  "CRYPTO_load_u32_be bytes = CRYPTO_bswap4 (word_of_nat (le_to_nat bytes))"

definition spx_set_chain_addr :: "addr \<Rightarrow> u32 \<Rightarrow> addr" where
  "spx_set_chain_addr a chain = a[17 := ucast chain]"

definition spx_set_hash_addr :: "addr \<Rightarrow> u32 \<Rightarrow> addr" where
  "spx_set_hash_addr a hash = a[21 := ucast hash]"

definition spx_set_keypair_addr :: "addr \<Rightarrow> u32 \<Rightarrow> addr" where
  "spx_set_keypair_addr a keypair = a[12 := ucast (drop_bit 8 keypair), 13 := ucast keypair]"

definition spx_copy_keypair_addr :: "addr \<Rightarrow> addr \<Rightarrow> addr" where
  "spx_copy_keypair_addr out a = (take 9 a @ drop 9 out)[12 := a ! 12, 13 := a ! 13]"

definition spx_set_layer_addr :: "addr \<Rightarrow> u32 \<Rightarrow> addr" where
  "spx_set_layer_addr a layer = a[0 := ucast layer]"

definition spx_set_tree_addr :: "addr \<Rightarrow> u64 \<Rightarrow> addr" where
  "spx_set_tree_addr a tree = take 1 a @ spx_uint64_to_len_bytes (take 8 (drop 1 a)) 8 tree @ drop 9 a"

definition spx_set_type :: "addr \<Rightarrow> u32 \<Rightarrow> addr" where
  "spx_set_type a type = (take 10 a @ replicate 12 0 @ drop 22 a)[9 := ucast type]"

definition spx_set_tree_height :: "addr \<Rightarrow> u32 \<Rightarrow> addr" where
  "spx_set_tree_height a tree_height = a[17 := ucast tree_height]"

definition spx_set_tree_index :: "addr \<Rightarrow> u32 \<Rightarrow> addr" where
  "spx_set_tree_index a tree_index = take 18 a @ CRYPTO_store_u32_be tree_index @ drop 22 a"

definition spx_get_tree_index :: "addr \<Rightarrow> u32" where
  "spx_get_tree_index a = CRYPTO_load_u32_be (take 4 (drop 18 a))"

section \<open>Hash functions\<close>

type_synonym hash = "u8 list \<Rightarrow> u8 list"

definition spx_thash :: "hash \<Rightarrow> u8 list \<Rightarrow> nat \<Rightarrow> u8 list \<Rightarrow> addr \<Rightarrow> u8 list" where
  "spx_thash sha input input_blocks pk_seed a =
     take SPX_N (sha (take SPX_N pk_seed @ replicate (64 - SPX_N) 0 @ take SPX_SHA256_ADDR_BYTES a @
       take (input_blocks * SPX_N) input))"

definition spx_thash_f :: "hash \<Rightarrow> u8 list \<Rightarrow> u8 list \<Rightarrow> addr \<Rightarrow> u8 list" where
  "spx_thash_f sha input pk_seed a = spx_thash sha input 1 pk_seed a"

definition spx_thash_h :: "hash \<Rightarrow> u8 list \<Rightarrow> u8 list \<Rightarrow> addr \<Rightarrow> u8 list" where
  "spx_thash_h sha input pk_seed a = spx_thash sha input 2 pk_seed a"

definition spx_thash_hmsg :: "hash \<Rightarrow> u8 list \<Rightarrow> u8 list \<Rightarrow> u8 list \<Rightarrow> u8 list \<Rightarrow> u8 list" where
  "spx_thash_hmsg sha r pk_seed pk_root msg =
     (let inner = sha (take SPX_N r @ take SPX_N pk_seed @ take SPX_N pk_root @ msg);
          input_buffer = take SPX_N r @ take SPX_N pk_seed @ inner @ replicate 4 0;
          block = (\<lambda>i. sha (input_buffer[2 * SPX_N + 32 + 3 := i])) in
      take SPX_DIGEST_SIZE (block 0 @ block 1 @ block 2))"

definition spx_thash_prf :: "hash \<Rightarrow> u8 list \<Rightarrow> u8 list \<Rightarrow> addr \<Rightarrow> u8 list" where
  "spx_thash_prf sha pk_seed sk_seed a = spx_thash sha sk_seed 1 pk_seed a"

definition spx_thash_prfmsg :: "hash \<Rightarrow> u8 list \<Rightarrow> u8 list \<Rightarrow> u8 list \<Rightarrow> u8 list" where
  "spx_thash_prfmsg sha sk_prf opt_rand msg =
     (let hmac_key = map (\<lambda>b. b XOR 0x36) (take SPX_N sk_prf @ replicate (64 - SPX_N) 0);
          hash = sha (hmac_key @ take SPX_N opt_rand @ msg);
          hmac_key = map (\<lambda>b. b XOR (0x36 XOR 0x5c)) hmac_key in
      take SPX_N (sha (hmac_key @ hash)))"

definition spx_thash_tl :: "hash \<Rightarrow> u8 list \<Rightarrow> u8 list \<Rightarrow> addr \<Rightarrow> u8 list" where
  "spx_thash_tl sha input pk_seed a = spx_thash sha input SPX_WOTS_LEN pk_seed a"

definition spx_thash_tk :: "hash \<Rightarrow> u8 list \<Rightarrow> u8 list \<Rightarrow> addr \<Rightarrow> u8 list" where
  "spx_thash_tk sha input pk_seed a = spx_thash sha input SPX_FORS_TREES pk_seed a"

section \<open>One-time signatures\<close>

text \<open>\<open>for (size_t i = start; i < (start + steps) && i < SPX_WOTS_W; ++i)\<close>\<close>

definition wots_chain :: "hash \<Rightarrow> u8 list \<Rightarrow> u32 \<Rightarrow> u32 \<Rightarrow> u8 list \<Rightarrow> addr \<Rightarrow> u8 list \<times> addr" where
  "wots_chain sha input start steps pub_seed a =
     foldl (\<lambda>(output, a) i.
       let a = spx_set_hash_addr a (word_of_nat i) in (spx_thash_f sha output pub_seed a, a))
       (take SPX_N input, a) [unat start..<min (unat (start + steps)) SPX_WOTS_W]"

text \<open>The digits of the message in base 16 and those of their checksum.\<close>

definition wots_digits :: "u8 list \<Rightarrow> u32 list option" where
  "wots_digits msg =
     do { base_w_msg \<leftarrow> spx_base_b SPX_WOTS_LEN1 msg SPX_WOTS_LOG_W;
          let csum = foldl (\<lambda>csum d. csum + ucast (15 - d)) (0 :: u64) base_w_msg;
          let csum = push_bit ((8 - SPX_WOTS_LEN2 * SPX_WOTS_LOG_W mod 8) mod 8) csum;
          let csum_len = (SPX_WOTS_LEN2 * SPX_WOTS_LOG_W + 7) div 8;
          let csum_bytes = spx_uint64_to_len_bytes (replicate csum_len 0) csum_len csum;
          csum_digits \<leftarrow> spx_base_b SPX_WOTS_LEN2 csum_bytes SPX_WOTS_LOG_W;
          Some (base_w_msg @ csum_digits) }"

definition spx_wots_pk_from_sig :: "hash \<Rightarrow> u8 list \<Rightarrow> u8 list \<Rightarrow> u8 list \<Rightarrow> addr \<Rightarrow> (u8 list \<times> addr) option" where
  "spx_wots_pk_from_sig sha sig msg pub_seed a =
     do { base_w_msg \<leftarrow> wots_digits msg;
          let wots_pk_addr = a;
          (tmp, a) \<leftarrow> for_opt SPX_WOTS_LEN (\<lambda>i (tmp, a).
            do { let a = spx_set_chain_addr a (word_of_nat i);
                 input \<leftarrow> read_bytes sig (i * SPX_N) SPX_N;
                 let (out, a) = wots_chain sha input (base_w_msg ! i) (15 - base_w_msg ! i) pub_seed a;
                 Some (tmp @ out, a) }) ([], a);
          let wots_pk_addr = spx_set_type wots_pk_addr SPX_ADDR_TYPE_WOTSPK;
          let wots_pk_addr = spx_copy_keypair_addr wots_pk_addr a;
          Some (spx_thash_tl sha tmp pub_seed wots_pk_addr, a) }"

definition spx_wots_pk_gen :: "hash \<Rightarrow> u8 list \<Rightarrow> u8 list \<Rightarrow> addr \<Rightarrow> u8 list \<times> addr" where
  "spx_wots_pk_gen sha sk_seed pub_seed a =
     (let wots_pk_addr = a;
          sk_addr = spx_set_type a SPX_ADDR_TYPE_WOTSPRF;
          sk_addr = spx_copy_keypair_addr sk_addr a;
          (tmp, sk_addr, a) = for_loop SPX_WOTS_LEN (\<lambda>i (tmp, sk_addr, a).
            let sk_addr = spx_set_chain_addr sk_addr (word_of_nat i);
                tmp_sk = spx_thash_prf sha pub_seed sk_seed sk_addr;
                a = spx_set_chain_addr a (word_of_nat i);
                (out, a) = wots_chain sha tmp_sk 0 15 pub_seed a in
            (tmp @ out, sk_addr, a)) ([], sk_addr, a);
          wots_pk_addr = spx_set_type wots_pk_addr SPX_ADDR_TYPE_WOTSPK;
          wots_pk_addr = spx_copy_keypair_addr wots_pk_addr a in
      (spx_thash_tl sha tmp pub_seed wots_pk_addr, a))"

definition spx_wots_sign :: "hash \<Rightarrow> u8 list \<Rightarrow> u8 list \<Rightarrow> u8 list \<Rightarrow> addr \<Rightarrow> (u8 list \<times> addr) option" where
  "spx_wots_sign sha msg sk_seed pub_seed a =
     do { base_w_msg \<leftarrow> wots_digits msg;
          let sk_addr = spx_set_type a SPX_ADDR_TYPE_WOTSPRF;
          let sk_addr = spx_copy_keypair_addr sk_addr a;
          let (sig, sk_addr, a) = for_loop SPX_WOTS_LEN (\<lambda>i (sig, sk_addr, a).
                let sk_addr = spx_set_chain_addr sk_addr (word_of_nat i);
                    tmp_sk = spx_thash_prf sha pub_seed sk_seed sk_addr;
                    a = spx_set_chain_addr a (word_of_nat i);
                    (out, a) = wots_chain sha tmp_sk 0 (base_w_msg ! i) pub_seed a in
                (sig @ out, sk_addr, a)) ([], sk_addr, a);
          Some (sig, a) }"

section \<open>Merkle trees and the hypertree\<close>

fun spx_treehash :: "hash \<Rightarrow> u8 list \<Rightarrow> u32 \<Rightarrow> nat \<Rightarrow> u8 list \<Rightarrow> addr \<Rightarrow> (u8 list \<times> addr) option" where
  "spx_treehash sha sk_seed i 0 pk_seed a =
     (if \<not> unat i < 2 ^ SPX_TREE_HEIGHT then None
      else
        let a = spx_set_type a SPX_ADDR_TYPE_WOTS;
            a = spx_set_keypair_addr a i in
        Some (spx_wots_pk_gen sha sk_seed pk_seed a))"
| "spx_treehash sha sk_seed i (Suc z) pk_seed a =
     (if \<not> Suc z \<le> SPX_TREE_HEIGHT \<or> \<not> unat i < 2 ^ (SPX_TREE_HEIGHT - Suc z) then None
      else do {
        (left, a) \<leftarrow> spx_treehash sha sk_seed (2 * i) z pk_seed a;
        (right, a) \<leftarrow> spx_treehash sha sk_seed (2 * i + 1) z pk_seed a;
        let a = spx_set_type a SPX_ADDR_TYPE_HASHTREE;
        let a = spx_set_tree_height a (word_of_nat (Suc z));
        let a = spx_set_tree_index a i;
        Some (spx_thash_h sha (left @ right) pk_seed a, a) })"

text \<open>The signature is the one-time signature followed by the authentication path.\<close>

definition spx_xmss_sign :: "hash \<Rightarrow> u8 list \<Rightarrow> u32 \<Rightarrow> u8 list \<Rightarrow> u8 list \<Rightarrow> addr \<Rightarrow> (u8 list \<times> addr) option" where
  "spx_xmss_sign sha msg idx sk_seed pk_seed a =
     do { (auth, a) \<leftarrow> for_opt SPX_TREE_HEIGHT (\<lambda>j (auth, a).
            do { (node, a) \<leftarrow> spx_treehash sha sk_seed (drop_bit j idx XOR 1) j pk_seed a;
                 Some (auth @ node, a) }) ([], a);
          let a = spx_set_type a SPX_ADDR_TYPE_WOTS;
          let a = spx_set_keypair_addr a idx;
          (sig, a) \<leftarrow> spx_wots_sign sha msg sk_seed pk_seed a;
          Some (sig @ auth, a) }"

definition spx_xmss_pk_from_sig :: "hash \<Rightarrow> u8 list \<Rightarrow> u32 \<Rightarrow> u8 list \<Rightarrow> u8 list \<Rightarrow> addr \<Rightarrow> (u8 list \<times> addr) option" where
  "spx_xmss_pk_from_sig sha xmss_sig idx msg pk_seed a =
     do { let a = spx_set_type a SPX_ADDR_TYPE_WOTS;
          let a = spx_set_keypair_addr a idx;
          (node, a) \<leftarrow> spx_wots_pk_from_sig sha xmss_sig msg pk_seed a;
          let auth = SPX_WOTS_BYTES;
          let a = spx_set_type a SPX_ADDR_TYPE_HASHTREE;
          let a = spx_set_tree_index a idx;
          for_opt SPX_TREE_HEIGHT (\<lambda>k (node, a).
            do { let a = spx_set_tree_height a (word_of_nat k + 1);
                 sibling \<leftarrow> read_bytes xmss_sig (auth + k * SPX_N) SPX_N;
                 Some (if drop_bit k idx AND 1 = 0 then
                         (let a = spx_set_tree_index a (drop_bit 1 (spx_get_tree_index a)) in
                          (spx_thash_h sha (node @ sibling) pk_seed a, a))
                       else
                         (let a = spx_set_tree_index a (drop_bit 1 (spx_get_tree_index a - 1)) in
                          (spx_thash_h sha (sibling @ node) pk_seed a, a))) }) (node, a) }"

text \<open>The loops over the layers 1 to \<open>SPX_D - 1\<close>.\<close>

definition spx_ht_sign :: "hash \<Rightarrow> u8 list \<Rightarrow> u64 \<Rightarrow> u32 \<Rightarrow> u8 list \<Rightarrow> u8 list \<Rightarrow> u8 list option" where
  "spx_ht_sign sha message idx_tree idx_leaf sk_seed pk_seed =
     do { let a = replicate 32 0;
          let a = spx_set_tree_addr a idx_tree;
          (sig_tmp, a) \<leftarrow> spx_xmss_sign sha message idx_leaf sk_seed pk_seed a;
          (root, a) \<leftarrow> spx_xmss_pk_from_sig sha sig_tmp idx_leaf message pk_seed a;
          (sig, root, idx_tree, a) \<leftarrow> for_opt (SPX_D - 1) (\<lambda>j1 (sig, root, idx_tree, a).
            do { let j = Suc j1;
                 let idx_leaf = ucast (idx_tree mod 2 ^ SPX_TREE_HEIGHT);
                 let idx_tree = drop_bit SPX_TREE_HEIGHT idx_tree;
                 let a = spx_set_layer_addr a (word_of_nat j);
                 let a = spx_set_tree_addr a idx_tree;
                 (sig_tmp, a) \<leftarrow> spx_xmss_sign sha root idx_leaf sk_seed pk_seed a;
                 (root, a) \<leftarrow> (if j < SPX_D - 1 then spx_xmss_pk_from_sig sha sig_tmp idx_leaf root pk_seed a
                               else Some (root, a));
                 Some (sig @ sig_tmp, root, idx_tree, a) }) (sig_tmp, root, idx_tree, a);
          Some sig }"

definition spx_ht_verify :: "hash \<Rightarrow> u8 list \<Rightarrow> u8 list \<Rightarrow> u64 \<Rightarrow> u32 \<Rightarrow> u8 list \<Rightarrow> u8 list \<Rightarrow> bool option" where
  "spx_ht_verify sha sig message idx_tree idx_leaf pk_root pk_seed =
     do { let a = replicate 32 0;
          let a = spx_set_tree_addr a idx_tree;
          sig_tmp \<leftarrow> read_bytes sig 0 SPX_XMSS_BYTES;
          (node, a) \<leftarrow> spx_xmss_pk_from_sig sha sig_tmp idx_leaf message pk_seed a;
          (node, idx_tree, a) \<leftarrow> for_opt (SPX_D - 1) (\<lambda>j1 (node, idx_tree, a).
            do { let j = Suc j1;
                 let idx_leaf = ucast (idx_tree mod 2 ^ SPX_TREE_HEIGHT);
                 let idx_tree = drop_bit SPX_TREE_HEIGHT idx_tree;
                 let a = spx_set_layer_addr a (word_of_nat j);
                 let a = spx_set_tree_addr a idx_tree;
                 sig_tmp \<leftarrow> read_bytes sig (j * SPX_XMSS_BYTES) SPX_XMSS_BYTES;
                 (node, a) \<leftarrow> spx_xmss_pk_from_sig sha sig_tmp idx_leaf node pk_seed a;
                 Some (node, idx_tree, a) }) (node, idx_tree, a);
          root \<leftarrow> read_bytes pk_root 0 SPX_N;
          Some (node = root) }"

section \<open>Few-time signatures\<close>

definition spx_fors_sk_gen :: "hash \<Rightarrow> u32 \<Rightarrow> u8 list \<Rightarrow> u8 list \<Rightarrow> addr \<Rightarrow> u8 list" where
  "spx_fors_sk_gen sha idx sk_seed pk_seed a =
     (let sk_addr = a;
          sk_addr = spx_set_type sk_addr SPX_ADDR_TYPE_FORSPRF;
          sk_addr = spx_copy_keypair_addr sk_addr a;
          sk_addr = spx_set_tree_index sk_addr idx in
      spx_thash_prf sha pk_seed sk_seed sk_addr)"

fun spx_fors_treehash :: "hash \<Rightarrow> u8 list \<Rightarrow> u32 \<Rightarrow> nat \<Rightarrow> u8 list \<Rightarrow> addr \<Rightarrow> (u8 list \<times> addr) option" where
  "spx_fors_treehash sha sk_seed i 0 pk_seed a =
     (if \<not> unat i < SPX_FORS_TREES * 2 ^ SPX_FORS_HEIGHT then None
      else
        let a = spx_set_tree_height a 0;
            a = spx_set_tree_index a i;
            sk = spx_fors_sk_gen sha i sk_seed pk_seed a in
        Some (spx_thash_f sha sk pk_seed a, a))"
| "spx_fors_treehash sha sk_seed i (Suc z) pk_seed a =
     (if \<not> Suc z \<le> SPX_FORS_HEIGHT \<or> \<not> unat i < SPX_FORS_TREES * 2 ^ (SPX_FORS_HEIGHT - Suc z) then None
      else do {
        (left, a) \<leftarrow> spx_fors_treehash sha sk_seed (2 * i) z pk_seed a;
        (right, a) \<leftarrow> spx_fors_treehash sha sk_seed (2 * i + 1) z pk_seed a;
        let a = spx_set_tree_height a (word_of_nat (Suc z));
        let a = spx_set_tree_index a i;
        Some (spx_thash_h sha (left @ right) pk_seed a, a) })"

definition spx_fors_sign :: "hash \<Rightarrow> u8 list \<Rightarrow> u8 list \<Rightarrow> u8 list \<Rightarrow> addr \<Rightarrow> (u8 list \<times> addr) option" where
  "spx_fors_sign sha message sk_seed pk_seed a =
     do { indices \<leftarrow> spx_base_b SPX_FORS_TREES message SPX_FORS_HEIGHT;
          for_opt SPX_FORS_TREES (\<lambda>i (fors_sig, a).
            do { let a = spx_set_tree_height a 0;
                 let sk = spx_fors_sk_gen sha (word_of_nat (i * 2 ^ SPX_FORS_HEIGHT + unat (indices ! i))) sk_seed pk_seed a;
                 for_opt SPX_FORS_HEIGHT (\<lambda>j (fors_sig, a).
                   do { let s = unat ((indices ! i div 2 ^ j) XOR 1);
                        (node, a) \<leftarrow> spx_fors_treehash sha sk_seed (word_of_nat (i * 2 ^ (SPX_FORS_HEIGHT - j) + s)) j pk_seed a;
                        Some (fors_sig @ node, a) }) (fors_sig @ sk, a) }) ([], a) }"

definition spx_fors_pk_from_sig :: "hash \<Rightarrow> u8 list \<Rightarrow> u8 list \<Rightarrow> u8 list \<Rightarrow> addr \<Rightarrow> (u8 list \<times> addr) option" where
  "spx_fors_pk_from_sig sha fors_sig message pk_seed a =
     do { indices \<leftarrow> spx_base_b SPX_FORS_TREES message SPX_FORS_HEIGHT;
          (roots, a) \<leftarrow> for_opt SPX_FORS_TREES (\<lambda>i (roots, a).
            do { let sk = i * SPX_N * (SPX_FORS_HEIGHT + 1);
                 let auth = i * SPX_N * (SPX_FORS_HEIGHT + 1) + SPX_N;
                 let a = spx_set_tree_height a 0;
                 let a = spx_set_tree_index a (word_of_nat (i * 2 ^ SPX_FORS_HEIGHT + unat (indices ! i)));
                 leaf \<leftarrow> read_bytes fors_sig sk SPX_N;
                 let node = spx_thash_f sha leaf pk_seed a;
                 (node, a) \<leftarrow> for_opt SPX_FORS_HEIGHT (\<lambda>j (node, a).
                   do { let a = spx_set_tree_height a (word_of_nat j + 1);
                        sibling \<leftarrow> read_bytes fors_sig (auth + j * SPX_N) SPX_N;
                        Some (if (indices ! i div 2 ^ j) mod 2 = 0 then
                                (let a = spx_set_tree_index a (spx_get_tree_index a div 2) in
                                 (spx_thash_h sha (node @ sibling) pk_seed a, a))
                              else
                                (let a = spx_set_tree_index a ((spx_get_tree_index a - 1) div 2) in
                                 (spx_thash_h sha (sibling @ node) pk_seed a, a))) }) (node, a);
                 Some (roots @ node, a) }) ([], a);
          let forspk_addr = a;
          let forspk_addr = spx_set_type forspk_addr SPX_ADDR_TYPE_FORSPK;
          let forspk_addr = spx_copy_keypair_addr forspk_addr a;
          Some (spx_thash_tk sha roots pk_seed forspk_addr, a) }"

section \<open>The interface\<close>

text \<open>The public key and the secret key.\<close>

definition SPX_generate_key_from_seed :: "hash \<Rightarrow> u8 list \<Rightarrow> (u8 list \<times> u8 list) option" where
  "SPX_generate_key_from_seed sha seed =
     do { secret_key \<leftarrow> read_bytes seed 0 (3 * SPX_N);
          public_key \<leftarrow> read_bytes seed (2 * SPX_N) SPX_N;
          let a = replicate 32 0;
          let a = spx_set_layer_addr a (word_of_nat (SPX_D - 1));
          (root, a) \<leftarrow> spx_treehash sha (take SPX_N secret_key) 0 SPX_TREE_HEIGHT public_key a;
          Some (public_key @ root, secret_key @ root) }"

definition SPX_generate_key :: "hash \<Rightarrow> u8 list \<Rightarrow> (u8 list \<times> u8 list) option" where
  "SPX_generate_key sha rand_bytes = SPX_generate_key_from_seed sha (take (3 * SPX_N) rand_bytes)"

text \<open>The indices of the tree and of the leaf, from the digest.\<close>

definition spx_idx_tree :: "u8 list \<Rightarrow> u64" where
  "spx_idx_tree digest =
     spx_to_uint64 (drop SPX_FORS_MSG_BYTES digest) SPX_TREE_BYTES AND drop_bit (64 - SPX_TREE_BITS) (NOT 0)"

definition spx_idx_leaf :: "u8 list \<Rightarrow> u32" where
  "spx_idx_leaf digest =
     ucast (spx_to_uint64 (drop (SPX_FORS_MSG_BYTES + SPX_TREE_BYTES) digest) SPX_LEAF_BYTES) AND
     drop_bit (32 - SPX_LEAF_BITS) (NOT 0)"

definition SPX_sign :: "hash \<Rightarrow> u8 list \<Rightarrow> u8 list \<Rightarrow> bool \<Rightarrow> u8 list \<Rightarrow> u8 list option" where
  "SPX_sign sha secret_key msg randomized rand_bytes =
     do { let a = replicate 32 0;
          sk_seed \<leftarrow> read_bytes secret_key 0 SPX_N;
          sk_prf \<leftarrow> read_bytes secret_key SPX_N SPX_N;
          pk_seed \<leftarrow> read_bytes secret_key (2 * SPX_N) SPX_N;
          pk_root \<leftarrow> read_bytes secret_key (3 * SPX_N) SPX_N;
          let opt_rand = (if randomized then take SPX_N rand_bytes else pk_seed);
          let r = spx_thash_prfmsg sha sk_prf opt_rand msg;
          let digest = spx_thash_hmsg sha r pk_seed pk_root msg;
          let fors_digest = take SPX_FORS_MSG_BYTES digest;
          let idx_tree = spx_idx_tree digest;
          let idx_leaf = spx_idx_leaf digest;
          let a = spx_set_tree_addr a idx_tree;
          let a = spx_set_type a SPX_ADDR_TYPE_FORSTREE;
          let a = spx_set_keypair_addr a idx_leaf;
          (fors_sig, a) \<leftarrow> spx_fors_sign sha fors_digest sk_seed pk_seed a;
          (pk_fors, a) \<leftarrow> spx_fors_pk_from_sig sha fors_sig fors_digest pk_seed a;
          ht_sig \<leftarrow> spx_ht_sign sha pk_fors idx_tree idx_leaf sk_seed pk_seed;
          Some (r @ fors_sig @ ht_sig) }"

definition SPX_verify :: "hash \<Rightarrow> u8 list \<Rightarrow> u8 list \<Rightarrow> u8 list \<Rightarrow> bool option" where
  "SPX_verify sha signature public_key msg =
     do { let a = replicate 32 0;
          pk_seed \<leftarrow> read_bytes public_key 0 SPX_N;
          pk_root \<leftarrow> read_bytes public_key SPX_N SPX_N;
          r \<leftarrow> read_bytes signature 0 SPX_N;
          let sig_fors = take SPX_FORS_BYTES (drop SPX_N signature);
          let sig_ht = drop (SPX_N + SPX_FORS_BYTES) signature;
          let digest = spx_thash_hmsg sha r pk_seed pk_root msg;
          let fors_digest = take SPX_FORS_MSG_BYTES digest;
          let idx_tree = spx_idx_tree digest;
          let idx_leaf = spx_idx_leaf digest;
          let a = spx_set_tree_addr a idx_tree;
          let a = spx_set_type a SPX_ADDR_TYPE_FORSTREE;
          let a = spx_set_keypair_addr a idx_leaf;
          (pk_fors, a) \<leftarrow> spx_fors_pk_from_sig sha sig_fors fors_digest pk_seed a;
          spx_ht_verify sha sig_ht pk_fors idx_tree idx_leaf pk_root pk_seed }"

end
