(* ===== verification/SPX_Reads.thy ===== *)
theory SPX_Reads
  imports SPX
begin

text \<open>
  Which bytes of a signature the verifying functions read: each reads its whole array and nothing behind it. So a
  function on an array that is too short has no result, and on a long enough one the reads can be replaced by the parts of the
  list.
\<close>

section \<open>Loops that read\<close>

lemma for_opt_Some: "(\<And>i s. i < n \<Longrightarrow> f i s = Some (g i s)) \<Longrightarrow> for_opt n f s = Some (for_loop n g s)"
  by (induction n) simp_all

lemma for_opt_None: "i < n \<Longrightarrow> (\<And>s. f i s = None) \<Longrightarrow> for_opt n f s = None"
proof (induction n)
  case (Suc n)
  then show ?case by (cases "i = n"; cases "for_opt n f s") auto
qed simp

lemma for_opt_cong: "(\<And>i s. i < n \<Longrightarrow> f i s = g i s) \<Longrightarrow> for_opt n f s = for_opt n g s"
proof (induction n)
  case (Suc n)
  then have "for_opt n f s = for_opt n g s" by simp
  moreover have "f n = g n" using Suc.prems by (intro ext) simp
  ultimately show ?case by simp
qed simp

lemma read_bytes_Some: "off + n \<le> length arr \<Longrightarrow> read_bytes arr off n = Some (take n (drop off arr))"
  by (simp add: read_bytes_def)

lemma read_bytes_None: "length arr < off + n \<Longrightarrow> read_bytes arr off n = None"
  by (simp add: read_bytes_def)

lemma read_bytes_append: "off + n \<le> length arr \<Longrightarrow> read_bytes (arr @ x) off n = read_bytes arr off n"
  by (simp add: read_bytes_def)

section \<open>One-time signatures\<close>

lemma wots_pk_from_sig_unfold:
  "spx_wots_pk_from_sig sha sig msg pub_seed a =
     (if length sig < SPX_WOTS_BYTES then None
      else do {
        base_w_msg \<leftarrow> wots_digits msg;
        let wots_pk_addr = a;
        let (tmp, a) = for_loop SPX_WOTS_LEN (\<lambda>i (tmp, a).
              let a = spx_set_chain_addr a (word_of_nat i);
                  (out, a) = wots_chain sha (drop (i * SPX_N) sig) (base_w_msg ! i) (15 - base_w_msg ! i) pub_seed a in
              (tmp @ out, a)) ([], a);
        let wots_pk_addr = spx_set_type wots_pk_addr SPX_ADDR_TYPE_WOTSPK;
        let wots_pk_addr = spx_copy_keypair_addr wots_pk_addr a;
        Some (spx_thash_tl sha tmp pub_seed wots_pk_addr, a) })"
proof (cases "length sig < SPX_WOTS_BYTES")
  case True
  have "for_opt SPX_WOTS_LEN (\<lambda>i (tmp, a).
      do { let a = spx_set_chain_addr a (word_of_nat i);
           input \<leftarrow> read_bytes sig (i * SPX_N) SPX_N;
           let (out, a) = wots_chain sha input (d ! i) (15 - d ! i) pub_seed a;
           Some (tmp @ out, a) }) s = None" for d s
    using True by (intro for_opt_None [of 34]) (simp_all add: read_bytes_None Let_def split: prod.split)
  then show ?thesis using True by (simp add: spx_wots_pk_from_sig_def Let_def)
next
  case False
  have "for_opt SPX_WOTS_LEN (\<lambda>i (tmp, a).
      do { let a = spx_set_chain_addr a (word_of_nat i);
           input \<leftarrow> read_bytes sig (i * SPX_N) SPX_N;
           let (out, a) = wots_chain sha input (d ! i) (15 - d ! i) pub_seed a;
           Some (tmp @ out, a) }) s =
    Some (for_loop SPX_WOTS_LEN (\<lambda>i (tmp, a).
      let a = spx_set_chain_addr a (word_of_nat i);
          (out, a) = wots_chain sha (drop (i * SPX_N) sig) (d ! i) (15 - d ! i) pub_seed a in
      (tmp @ out, a)) s)" for d s
    using False by (intro for_opt_Some) (simp add: read_bytes_Some Let_def wots_chain_def split: prod.split)
  then show ?thesis using False by (simp add: spx_wots_pk_from_sig_def Let_def split: prod.split)
qed

section \<open>Merkle trees\<close>

lemma xmss_pk_from_sig_unfold:
  "spx_xmss_pk_from_sig sha xmss_sig idx msg pk_seed a =
     (if length xmss_sig < SPX_XMSS_BYTES then None
      else do {
        let a = spx_set_type a SPX_ADDR_TYPE_WOTS;
        let a = spx_set_keypair_addr a idx;
        (node, a) \<leftarrow> spx_wots_pk_from_sig sha xmss_sig msg pk_seed a;
        let auth = drop SPX_WOTS_BYTES xmss_sig;
        let a = spx_set_type a SPX_ADDR_TYPE_HASHTREE;
        let a = spx_set_tree_index a idx;
        Some (for_loop SPX_TREE_HEIGHT (\<lambda>k (node, a).
          let a = spx_set_tree_height a (word_of_nat k + 1);
              sibling = take SPX_N (drop (k * SPX_N) auth) in
          if drop_bit k idx AND 1 = 0 then
            (let a = spx_set_tree_index a (drop_bit 1 (spx_get_tree_index a)) in
             (spx_thash_h sha (node @ sibling) pk_seed a, a))
          else
            (let a = spx_set_tree_index a (drop_bit 1 (spx_get_tree_index a - 1)) in
             (spx_thash_h sha (sibling @ node) pk_seed a, a))) (node, a)) })"
proof (cases "length xmss_sig < SPX_XMSS_BYTES")
  case True
  then show ?thesis
    unfolding spx_xmss_pk_from_sig_def Let_def
    by (subst for_opt_None [of 8]) (simp_all add: read_bytes_None Option.bind_eq_None_conv split: prod.split)
next
  case False
  have e: "for_opt SPX_TREE_HEIGHT (\<lambda>k (node, a).
      do { let a = spx_set_tree_height a (word_of_nat k + 1);
           sibling \<leftarrow> read_bytes xmss_sig (SPX_WOTS_BYTES + k * SPX_N) SPX_N;
           Some (if drop_bit k idx AND 1 = 0 then
                   (let a = spx_set_tree_index a (drop_bit 1 (spx_get_tree_index a)) in
                    (spx_thash_h sha (node @ sibling) pk_seed a, a))
                 else
                   (let a = spx_set_tree_index a (drop_bit 1 (spx_get_tree_index a - 1)) in
                    (spx_thash_h sha (sibling @ node) pk_seed a, a))) }) s =
    Some (for_loop SPX_TREE_HEIGHT (\<lambda>k (node, a).
      let a = spx_set_tree_height a (word_of_nat k + 1);
          sibling = take SPX_N (drop (k * SPX_N) (drop SPX_WOTS_BYTES xmss_sig)) in
      if drop_bit k idx AND 1 = 0 then
        (let a = spx_set_tree_index a (drop_bit 1 (spx_get_tree_index a)) in
         (spx_thash_h sha (node @ sibling) pk_seed a, a))
      else
        (let a = spx_set_tree_index a (drop_bit 1 (spx_get_tree_index a - 1)) in
         (spx_thash_h sha (sibling @ node) pk_seed a, a))) s)" for s
    using False by (intro for_opt_Some) (simp add: read_bytes_Some Let_def add.commute split: prod.split)
  show ?thesis using False unfolding spx_xmss_pk_from_sig_def Let_def by (simp only: e [unfolded Let_def] if_False)
qed

section \<open>Few-time signatures\<close>

text \<open>The climb from the leaf of the tree \<open>i\<close>, reading the nodes of its authentication path.\<close>

definition fors_climb_read :: "hash \<Rightarrow> u8 list \<Rightarrow> nat \<Rightarrow> u32 \<Rightarrow> u8 list \<Rightarrow> nat \<Rightarrow> u8 list \<times> addr \<Rightarrow> (u8 list \<times> addr) option" where
  "fors_climb_read sha fors_sig auth index pk_seed = (\<lambda>j (node, a).
     do { let a = spx_set_tree_height a (word_of_nat j + 1);
          sibling \<leftarrow> read_bytes fors_sig (auth + j * SPX_N) SPX_N;
          Some (if (index div 2 ^ j) mod 2 = 0 then
                  (let a = spx_set_tree_index a (spx_get_tree_index a div 2) in
                   (spx_thash_h sha (node @ sibling) pk_seed a, a))
                else
                  (let a = spx_set_tree_index a ((spx_get_tree_index a - 1) div 2) in
                   (spx_thash_h sha (sibling @ node) pk_seed a, a))) })"

definition fors_climb_list :: "hash \<Rightarrow> u8 list \<Rightarrow> u32 \<Rightarrow> u8 list \<Rightarrow> nat \<Rightarrow> u8 list \<times> addr \<Rightarrow> u8 list \<times> addr" where
  "fors_climb_list sha auth index pk_seed = (\<lambda>j (node, a).
     let a = spx_set_tree_height a (word_of_nat j + 1);
         sibling = take SPX_N (drop (j * SPX_N) auth) in
     if (index div 2 ^ j) mod 2 = 0 then
       (let a = spx_set_tree_index a (spx_get_tree_index a div 2) in
        (spx_thash_h sha (node @ sibling) pk_seed a, a))
     else
       (let a = spx_set_tree_index a ((spx_get_tree_index a - 1) div 2) in
        (spx_thash_h sha (sibling @ node) pk_seed a, a)))"

lemma fors_climb_reads:
  "auth + SPX_FORS_HEIGHT * SPX_N \<le> length fors_sig \<Longrightarrow>
     for_opt SPX_FORS_HEIGHT (fors_climb_read sha fors_sig auth index pk_seed) s =
     Some (for_loop SPX_FORS_HEIGHT (fors_climb_list sha (drop auth fors_sig) index pk_seed) s)"
  "length fors_sig < auth + SPX_FORS_HEIGHT * SPX_N \<Longrightarrow>
     for_opt SPX_FORS_HEIGHT (fors_climb_read sha fors_sig auth index pk_seed) s = None"
proof -
  show "for_opt SPX_FORS_HEIGHT (fors_climb_read sha fors_sig auth index pk_seed) s =
     Some (for_loop SPX_FORS_HEIGHT (fors_climb_list sha (drop auth fors_sig) index pk_seed) s)"
    if "auth + SPX_FORS_HEIGHT * SPX_N \<le> length fors_sig"
    using that by (intro for_opt_Some)
      (simp add: fors_climb_read_def fors_climb_list_def read_bytes_Some Let_def add.commute split: prod.split)
  show "for_opt SPX_FORS_HEIGHT (fors_climb_read sha fors_sig auth index pk_seed) s = None"
    if "length fors_sig < auth + SPX_FORS_HEIGHT * SPX_N"
    using that by (intro for_opt_None [of 11]) (simp_all add: fors_climb_read_def read_bytes_None Let_def split: prod.split)
qed

lemma fors_pk_from_sig_unfold:
  "spx_fors_pk_from_sig sha fors_sig message pk_seed a =
     (if length fors_sig < SPX_FORS_BYTES then None
      else do {
        indices \<leftarrow> spx_base_b SPX_FORS_TREES message SPX_FORS_HEIGHT;
        let (roots, a) = for_loop SPX_FORS_TREES (\<lambda>i (roots, a).
          let sk = drop (i * SPX_N * (SPX_FORS_HEIGHT + 1)) fors_sig;
              auth = drop (i * SPX_N * (SPX_FORS_HEIGHT + 1) + SPX_N) fors_sig;
              a = spx_set_tree_height a 0;
              a = spx_set_tree_index a (word_of_nat (i * 2 ^ SPX_FORS_HEIGHT + unat (indices ! i)));
              node = spx_thash_f sha sk pk_seed a;
              (node, a) = for_loop SPX_FORS_HEIGHT (fors_climb_list sha auth (indices ! i) pk_seed) (node, a) in
          (roots @ node, a)) ([], a);
        let forspk_addr = a;
        let forspk_addr = spx_set_type forspk_addr SPX_ADDR_TYPE_FORSPK;
        let forspk_addr = spx_copy_keypair_addr forspk_addr a;
        Some (spx_thash_tk sha roots pk_seed forspk_addr, a) })"
proof (cases "length fors_sig < SPX_FORS_BYTES")
  case True
  have "for_opt SPX_FORS_TREES (\<lambda>i (roots, a).
      do { let a = spx_set_tree_height a 0;
           let a = spx_set_tree_index a (word_of_nat (i * 2 ^ SPX_FORS_HEIGHT + unat (d ! i)));
           leaf \<leftarrow> read_bytes fors_sig (i * SPX_N * (SPX_FORS_HEIGHT + 1)) SPX_N;
           let node = spx_thash_f sha leaf pk_seed a;
           (node, a) \<leftarrow> for_opt SPX_FORS_HEIGHT
             (fors_climb_read sha fors_sig (i * SPX_N * (SPX_FORS_HEIGHT + 1) + SPX_N) (d ! i) pk_seed) (node, a);
           Some (roots @ node, a) }) s = None" for d s
    using True fors_climb_reads(2) [of fors_sig "13 * SPX_N * (SPX_FORS_HEIGHT + 1) + SPX_N"]
    by (intro for_opt_None [of 13]) (simp_all add: Let_def Option.bind_eq_None_conv split: prod.split)
  then show ?thesis using True
    by (simp add: spx_fors_pk_from_sig_def fors_climb_read_def Let_def Option.bind_eq_None_conv)
next
  case False
  have e: "for_opt SPX_FORS_TREES (\<lambda>i (roots, a).
      do { let a = spx_set_tree_height a 0;
           let a = spx_set_tree_index a (word_of_nat (i * 2 ^ SPX_FORS_HEIGHT + unat (d ! i)));
           leaf \<leftarrow> read_bytes fors_sig (i * SPX_N * (SPX_FORS_HEIGHT + 1)) SPX_N;
           let node = spx_thash_f sha leaf pk_seed a;
           (node, a) \<leftarrow> for_opt SPX_FORS_HEIGHT
             (fors_climb_read sha fors_sig (i * SPX_N * (SPX_FORS_HEIGHT + 1) + SPX_N) (d ! i) pk_seed) (node, a);
           Some (roots @ node, a) }) s =
    Some (for_loop SPX_FORS_TREES (\<lambda>i (roots, a).
      let sk = drop (i * SPX_N * (SPX_FORS_HEIGHT + 1)) fors_sig;
          auth = drop (i * SPX_N * (SPX_FORS_HEIGHT + 1) + SPX_N) fors_sig;
          a = spx_set_tree_height a 0;
          a = spx_set_tree_index a (word_of_nat (i * 2 ^ SPX_FORS_HEIGHT + unat (d ! i)));
          node = spx_thash_f sha sk pk_seed a;
          (node, a) = for_loop SPX_FORS_HEIGHT (fors_climb_list sha auth (d ! i) pk_seed) (node, a) in
      (roots @ node, a)) s)" for d s
  proof (rule for_opt_Some)
    fix i and s :: "u8 list \<times> addr" assume i: "i < SPX_FORS_TREES"
    let ?o = "i * SPX_N * (SPX_FORS_HEIGHT + 1)"
    have le: "?o + SPX_N + SPX_FORS_HEIGHT * SPX_N \<le> length fors_sig" using False i by simp
    then have r: "read_bytes fors_sig ?o SPX_N = Some (take SPX_N (drop ?o fors_sig))" by (intro read_bytes_Some) simp
    have t: "spx_thash_f sha (take SPX_N x) pk_seed a = spx_thash_f sha x pk_seed a" for x a
      by (simp add: spx_thash_f_def spx_thash_def)
    show "(case s of (roots, a) \<Rightarrow>
      do { let a = spx_set_tree_height a 0;
           let a = spx_set_tree_index a (word_of_nat (i * 2 ^ SPX_FORS_HEIGHT + unat (d ! i)));
           leaf \<leftarrow> read_bytes fors_sig ?o SPX_N;
           let node = spx_thash_f sha leaf pk_seed a;
           (node, a) \<leftarrow> for_opt SPX_FORS_HEIGHT (fors_climb_read sha fors_sig (?o + SPX_N) (d ! i) pk_seed) (node, a);
           Some (roots @ node, a) }) =
      Some (case s of (roots, a) \<Rightarrow>
        let sk = drop ?o fors_sig; auth = drop (?o + SPX_N) fors_sig;
            a = spx_set_tree_height a 0;
            a = spx_set_tree_index a (word_of_nat (i * 2 ^ SPX_FORS_HEIGHT + unat (d ! i)));
            node = spx_thash_f sha sk pk_seed a;
            (node, a) = for_loop SPX_FORS_HEIGHT (fors_climb_list sha auth (d ! i) pk_seed) (node, a) in
        (roots @ node, a))"
      unfolding Let_def r bind.simps t fors_climb_reads(1) [OF le] by (simp split: prod.split)
  qed
  show ?thesis using False
    unfolding spx_fors_pk_from_sig_def Let_def fors_climb_read_def [symmetric, unfolded Let_def]
    by (simp only: e [unfolded Let_def] if_False bind.simps)
qed

end
