(* ===== verification/SPX_Digits.thy ===== *)
theory SPX_Digits
  imports SPX_Reads
begin

text \<open>
  \<open>spx_base_b\<close> computes the digits of a byte string in the base \<open>2 ^ b\<close>, most significant first, although
  its accumulator has 32 bits and wraps; and the digits that WOTS+ signs are those of the message and
  of a checksum that makes the digits of different messages incomparable.
\<close>

section \<open>Digits of a byte string\<close>

definition digit :: "nat \<Rightarrow> u8 list \<Rightarrow> nat \<Rightarrow> nat" where
  "digit b input k = be_to_nat input div 2 ^ (8 * length input - b * Suc k) mod 2 ^ b"

lemma be_to_nat_append: "be_to_nat (xs @ ys) = be_to_nat xs * 256 ^ length ys + be_to_nat ys"
  by (induction ys rule: rev_induct) (simp_all add: be_to_nat_snoc algebra_simps flip: append_assoc)

lemma be_to_nat_prefix: "be_to_nat (xs @ ys) div 2 ^ (8 * length ys) = be_to_nat xs"
proof -
  have "(2 :: nat) ^ (8 * length ys) = 256 ^ length ys" by (simp add: power_mult)
  then show ?thesis using be_to_nat_less [of ys] by (simp add: be_to_nat_append)
qed

lemma unat_shift_byte: "unat (push_bit 8 w + ucast (b :: u8) :: u32) = (unat w * 256 + unat b) mod 2 ^ 32"
proof -
  have "push_bit 8 w + ucast b = (word_of_nat (unat w * 256 + unat b) :: u32)"
    by (simp add: push_bit_eq_mult)
  then show ?thesis by (simp only: unsigned_of_nat take_bit_eq_mod) simp
qed

lemma base_b_fill_eq:
  "unat tot = be_to_nat pre mod 2 ^ 32 \<Longrightarrow> bits < b + 8 \<Longrightarrow> b \<le> bits + 8 * length rest \<Longrightarrow>
   \<exists>mid rest' tot'. rest = mid @ rest' \<and> base_b_fill b rest bits tot = Some (rest', bits + 8 * length mid, tot') \<and>
     unat tot' = be_to_nat (pre @ mid) mod 2 ^ 32 \<and> b \<le> bits + 8 * length mid \<and> bits + 8 * length mid < b + 8"
proof (induction rest arbitrary: pre bits tot)
  case Nil
  then show ?case by (intro exI [of _ "[]"]) simp
next
  case (Cons x rest)
  show ?case
  proof (cases "bits < b")
    case False
    then show ?thesis using Cons.prems by - (rule exI [of _ "[]"], simp)
  next
    case True
    have "unat (push_bit 8 tot + ucast x :: u32) = be_to_nat (pre @ [x]) mod 2 ^ 32"
      unfolding unat_shift_byte be_to_nat_snoc Cons.prems(1) by (metis mod_add_left_eq mod_mult_left_eq)
    from Cons.IH [OF this, of "bits + 8"] True Cons.prems obtain mid rest' tot' where
      "rest = mid @ rest'" "base_b_fill b rest (bits + 8) (push_bit 8 tot + ucast x) = Some (rest', bits + 8 + 8 * length mid, tot')"
      "unat tot' = be_to_nat ((pre @ [x]) @ mid) mod 2 ^ 32" "b \<le> bits + 8 + 8 * length mid" "bits + 8 + 8 * length mid < b + 8"
      by auto
    with True show ?thesis by (intro exI [of _ "x # mid"] exI [of _ rest'] exI [of _ tot']) simp
  qed
qed

lemma digit_wrap:
  assumes "p + b \<le> 32" "b < 32" "unat (w :: u32) = n mod 2 ^ 32"
  shows "drop_bit p w mod push_bit b 1 = word_of_nat (n div 2 ^ p mod 2 ^ b)"
proof -
  have p: "unat (push_bit b 1 :: u32) = 2 ^ b"
  proof -
    have "push_bit b 1 = (word_of_nat (2 ^ b) :: u32)" by (simp add: push_bit_eq_mult)
    then have "unat (push_bit b 1 :: u32) = 2 ^ b mod 2 ^ 32" by (simp only: unsigned_of_nat take_bit_eq_mod) simp
    moreover have "(2 :: nat) ^ b < 2 ^ 32" using assms(2) by (rule power_strict_increasing) simp
    ultimately show ?thesis by simp
  qed
  have "unat (drop_bit p w mod push_bit b 1) = n mod 2 ^ 32 div 2 ^ p mod 2 ^ b"
    unfolding unat_mod_distrib p using assms(3) by (simp add: unat_drop_bit_div)
  also have "\<dots> = take_bit b (drop_bit p (take_bit 32 n))" by (simp add: take_bit_eq_mod drop_bit_eq_div)
  also have "\<dots> = take_bit b (drop_bit p n)"
  proof -
    have "b \<le> 32 - p" using assms(1) by linarith
    then show ?thesis by (simp add: drop_bit_take_bit min_def)
  qed
  also have "\<dots> = n div 2 ^ p mod 2 ^ b" by (simp add: take_bit_eq_mod drop_bit_eq_div)
  finally show ?thesis by (metis of_nat_unat ucast_id)
qed

text \<open>The loop, after \<open>k0\<close> digits and the bytes \<open>pre\<close>.\<close>

lemma base_b_loop_eq:
  assumes b: "1 \<le> b" "b \<le> 24"
  shows "unat tot = be_to_nat pre mod 2 ^ 32 \<Longrightarrow> bits < 8 \<Longrightarrow> 8 * length pre = b * k0 + bits \<Longrightarrow>
    b * (k0 + n) \<le> 8 * length (pre @ rest) \<Longrightarrow>
    base_b_loop n b rest bits tot = Some (map (\<lambda>k. word_of_nat (digit b (pre @ rest) (k0 + k))) [0..<n])"
proof (induction n arbitrary: pre rest bits tot k0)
  case (Suc n)
  have "b \<le> bits + 8 * length rest" using Suc.prems(3,4) by (simp add: algebra_simps)
  moreover have "bits < b + 8" using Suc.prems(2) by simp
  ultimately obtain mid rest' tot' where f: "rest = mid @ rest'" "base_b_fill b rest bits tot = Some (rest', bits + 8 * length mid, tot')"
    "unat tot' = be_to_nat (pre @ mid) mod 2 ^ 32" "b \<le> bits + 8 * length mid" "bits + 8 * length mid < b + 8"
    using base_b_fill_eq [OF Suc.prems(1)] by blast
  define p where "p = bits + 8 * length mid - b"
  have p: "p < 8" "p + b \<le> 32" "8 * length (pre @ mid) = b * Suc k0 + p" using f(4,5) b Suc.prems(3) by (simp_all add: p_def)
  let ?N = "be_to_nat (pre @ rest)"
  have "8 * length (pre @ rest) - b * Suc k0 = 8 * length rest' + p" using p(3) f(1) by simp
  then have "digit b (pre @ rest) k0 = ?N div 2 ^ (8 * length rest') div 2 ^ p mod 2 ^ b"
    by (simp add: digit_def power_add div_mult2_eq)
  also have "?N div 2 ^ (8 * length rest') = be_to_nat (pre @ mid)" using be_to_nat_prefix [of "pre @ mid" rest'] f(1) by simp
  finally have d: "drop_bit p tot' mod push_bit b 1 = word_of_nat (digit b (pre @ rest) k0)"
    using digit_wrap [OF p(2) _ f(3)] b(2) by simp
  have "b * (Suc k0 + n) \<le> 8 * length ((pre @ mid) @ rest')" using Suc.prems(4) f(1) by simp
  from Suc.IH [OF f(3) p(1,3) this] have "base_b_loop n b rest' p tot' = Some (map (\<lambda>k. word_of_nat (digit b (pre @ rest) (Suc k0 + k))) [0..<n])"
    using f(1) by simp
  moreover have "map (\<lambda>k. word_of_nat (digit b (pre @ rest) (k0 + k)) :: u32) [0..<Suc n] =
      word_of_nat (digit b (pre @ rest) k0) # map (\<lambda>k. word_of_nat (digit b (pre @ rest) (Suc k0 + k))) [0..<n]"
    by (simp add: upt_conv_Cons map_Suc_upt [symmetric] del: upt_Suc)
  ultimately show ?case using f(2) d by (simp add: p_def Let_def del: upt_Suc)
qed simp

lemma spx_base_b_digits:
  "1 \<le> b \<Longrightarrow> b \<le> 24 \<Longrightarrow> b * n \<le> 8 * length input \<Longrightarrow>
   spx_base_b n input b = Some (map (\<lambda>k. word_of_nat (digit b input k)) [0..<n])"
  using base_b_loop_eq [of b 0 "[]" 0 0 n input] by (simp add: spx_base_b_def)

lemma digit_less: "digit b input k < 2 ^ b"
  by (simp add: digit_def)

section \<open>Integers as bytes\<close>

lemma nat_to_be_Suc: "nat_to_be (Suc n) v = nat_to_be n (v div 256) @ [word_of_nat v]"
  by (simp add: nat_to_be_def)

lemma ucast_low_byte: "ucast (v AND 0xff :: u64) = (word_of_nat (unat v) :: u8)"
proof -
  have m: "(mask 8 :: u64) = 0xff" by (simp add: mask_numeral)
  have "unat (v AND 0xff) = unat v mod 2 ^ 8" using unat_take_bit_mod [of 8 v] by (simp only: take_bit_eq_mask m)
  then have "unat (ucast (v AND 0xff :: u64) :: u8) = unat (word_of_nat (unat v) :: u8)"
    by (simp add: unsigned_ucast_eq take_bit_eq_mod)
  then show ?thesis by (simp only: word_unat_eq_iff)
qed

lemma len_bytes_loop_eq: "i \<le> length out \<Longrightarrow> len_bytes_loop i input out = nat_to_be i (unat input) @ drop i out"
proof (induction i arbitrary: input out)
  case 0
  then show ?case by (simp add: nat_to_be_def)
next
  case (Suc i)
  have "drop i (out[i := x]) = x # drop (Suc i) out" for x
    using Suc.prems by (metis Cons_nth_drop_Suc Suc_le_lessD drop_update_cancel length_list_update lessI nth_list_update_eq)
  then show ?case using Suc by (simp add: nat_to_be_Suc ucast_low_byte unat_drop_bit_div)
qed

lemma uint64_to_len_bytes_eq: "length out = n \<Longrightarrow> spx_uint64_to_len_bytes out n v = nat_to_be n (unat v)"
  by (simp add: spx_uint64_to_len_bytes_def len_bytes_loop_eq)

section \<open>The digits of a one-time signature\<close>

definition checksum :: "u8 list \<Rightarrow> nat" where
  "checksum msg = (\<Sum>k<SPX_WOTS_LEN1. 15 - digit 4 msg k)"

definition msg_digits :: "u8 list \<Rightarrow> nat list" where
  "msg_digits msg = map (digit 4 msg) [0..<SPX_WOTS_LEN1] @
     [checksum msg div 256, checksum msg div 16 mod 16, checksum msg mod 16]"

lemma checksum_le: "checksum msg \<le> 480"
proof -
  have "checksum msg \<le> (\<Sum>k<32 :: nat. 15)" unfolding checksum_def by (rule sum_mono) simp
  then show ?thesis by simp
qed

lemma length_msg_digits [simp]: "length (msg_digits msg) = SPX_WOTS_LEN"
  by (simp add: msg_digits_def)

lemma msg_digits_less: "d \<in> set (msg_digits msg) \<Longrightarrow> d < 16"
  using digit_less [of 4 msg] checksum_le [of msg] by (auto simp: msg_digits_def)

lemma csum_foldl:
  "\<forall>d \<in> set ds. d < 16 \<Longrightarrow>
   foldl (\<lambda>csum d. csum + ucast (15 - d)) (word_of_nat c :: u64) (map word_of_nat ds :: u32 list) =
     word_of_nat (c + sum_list (map (\<lambda>d. 15 - d) ds))"
proof (induction ds arbitrary: c)
  case (Cons d ds)
  have "(15 - word_of_nat d :: u32) = word_of_nat (15 - d)" using Cons.prems by simp
  moreover have "ucast (word_of_nat (15 - d) :: u32) = (word_of_nat (15 - d) :: u64)"
    by (simp add: unsigned_of_nat take_bit_nat_eq_self)
  ultimately show ?case using Cons.IH [of "c + (15 - d)"] Cons.prems by simp
qed simp

lemma wots_digits_eq:
  assumes "length msg = SPX_N"
  shows "wots_digits msg = Some (map word_of_nat (msg_digits msg))"
proof -
  let ?c = "checksum msg" and ?d = "map (digit 4 msg) [0..<SPX_WOTS_LEN1]"
  have b: "spx_base_b SPX_WOTS_LEN1 msg SPX_WOTS_LOG_W = Some (map word_of_nat ?d)"
    using spx_base_b_digits [of 4 32 msg] assms by simp
  have "sum_list (map (\<lambda>d. 15 - d) ?d) = ?c" by (simp add: checksum_def sum_list_distinct_conv_sum_set atLeast0LessThan)
  then have f: "foldl (\<lambda>csum d. csum + ucast (15 - d)) (0 :: u64) (map word_of_nat ?d :: u32 list) = word_of_nat ?c"
    using csum_foldl [of ?d 0] digit_less [of 4 msg] by simp
  have c: "?c * 16 < 2 ^ 16" using checksum_le [of msg] by simp
  have "push_bit 4 (word_of_nat ?c) = (word_of_nat (?c * 16) :: u64)" by (simp add: push_bit_eq_mult)
  then have "unat (push_bit 4 (word_of_nat ?c) :: u64) = ?c * 16 mod 2 ^ 64"
    by (simp only: unsigned_of_nat take_bit_eq_mod) simp
  then have "unat (push_bit 4 (word_of_nat ?c) :: u64) = ?c * 16" using c by simp
  then have bytes: "spx_uint64_to_len_bytes (replicate 2 0) 2 (push_bit 4 (word_of_nat ?c)) = nat_to_be 2 (?c * 16)"
    by (simp add: uint64_to_len_bytes_eq)
  have "be_to_nat (nat_to_be 2 (?c * 16)) = ?c * 16" using c by simp
  then have "digit 4 (nat_to_be 2 (?c * 16)) 0 = ?c div 256" "digit 4 (nat_to_be 2 (?c * 16)) 1 = ?c div 16 mod 16"
    "digit 4 (nat_to_be 2 (?c * 16)) 2 = ?c mod 16"
    using checksum_le [of msg] by (simp_all add: digit_def)
  then have "map (\<lambda>k. word_of_nat (digit 4 (nat_to_be 2 (?c * 16)) k) :: u32) [0..<3] =
      map word_of_nat [?c div 256, ?c div 16 mod 16, ?c mod 16]"
    by (simp add: upt_rec numeral_2_eq_2)
  then have "spx_base_b SPX_WOTS_LEN2 (nat_to_be 2 (?c * 16)) SPX_WOTS_LOG_W =
      Some (map word_of_nat [?c div 256, ?c div 16 mod 16, ?c mod 16])"
    using spx_base_b_digits [of 4 3 "nat_to_be 2 (?c * 16)"] by simp
  then show ?thesis using b f bytes by (simp add: wots_digits_def Let_def msg_digits_def)
qed

text \<open>The digits determine the message.\<close>

lemma digits_prefix:
  "n \<le> 2 * length msg \<Longrightarrow> length msg' = length msg \<Longrightarrow> \<forall>k<n. digit 4 msg k = digit 4 msg' k \<Longrightarrow>
   be_to_nat msg div 2 ^ (8 * length msg - 4 * n) = be_to_nat msg' div 2 ^ (8 * length msg - 4 * n)"
proof (induction n)
  case 0
  have "be_to_nat m < 2 ^ (8 * length m)" for m using be_to_nat_less [of m] by (simp add: power_mult)
  then show ?case using 0(2) by (metis diff_zero div_less mult_0_right)
next
  case (Suc n)
  have p: "8 * length msg - 4 * n = (8 * length msg - 4 * Suc n) + 4" using Suc.prems(1) by simp
  have split: "x div 2 ^ (8 * length msg - 4 * Suc n) =
      x div 2 ^ (8 * length msg - 4 * n) * 16 + x div 2 ^ (8 * length msg - 4 * Suc n) mod 16" for x :: nat
    unfolding p by (simp add: power_add div_mult2_eq)
  have "digit 4 msg n = digit 4 msg' n" using Suc.prems(3) by blast
  then have "be_to_nat msg div 2 ^ (8 * length msg - 4 * Suc n) mod 16 = be_to_nat msg' div 2 ^ (8 * length msg - 4 * Suc n) mod 16"
    using Suc.prems(2) by (simp add: digit_def)
  moreover have "be_to_nat msg div 2 ^ (8 * length msg - 4 * n) = be_to_nat msg' div 2 ^ (8 * length msg - 4 * n)"
    using Suc by simp
  ultimately show ?case using split [of "be_to_nat msg"] split [of "be_to_nat msg'"] by simp
qed

lemma digits_inject:
  assumes "length msg = SPX_N" "length msg' = SPX_N" "\<forall>k<SPX_WOTS_LEN1. digit 4 msg k = digit 4 msg' k"
  shows "msg = msg'"
proof -
  have "be_to_nat msg = be_to_nat msg'" using digits_prefix [of 32 msg msg'] assms by simp
  then show ?thesis using assms(1,2) by (metis nat_to_be_be_to_nat)
qed

lemma checksum_sum: "checksum msg + (\<Sum>k<SPX_WOTS_LEN1. digit 4 msg k) = 480"
proof -
  have "checksum msg + (\<Sum>k<SPX_WOTS_LEN1. digit 4 msg k) = (\<Sum>k<SPX_WOTS_LEN1. 15 - digit 4 msg k + digit 4 msg k)"
    by (simp add: checksum_def sum.distrib)
  also have "\<dots> = (\<Sum>k<32 :: nat. 15)"
  proof (rule sum.cong)
    fix k show "15 - digit 4 msg k + digit 4 msg k = 15" using digit_less [of 4 msg k] by simp
  qed simp
  finally show ?thesis by simp
qed

lemma hex_digits: "n = n div 256 * 256 + n div 16 mod 16 * 16 + n mod 16" for n :: nat
proof -
  have "n div 16 div 16 = n div 256" by (simp add: div_mult2_eq [symmetric])
  then show ?thesis using div_mult_mod_eq [of n 16] div_mult_mod_eq [of "n div 16" 16] by linarith
qed

lemma msg_digits_incomparable:
  assumes len: "length msg = SPX_N" "length msg' = SPX_N" and ne: "msg \<noteq> msg'"
  shows "\<exists>i<SPX_WOTS_LEN. msg_digits msg ! i < msg_digits msg' ! i"
proof (rule ccontr)
  assume "\<not> ?thesis"
  then have ge: "msg_digits msg' ! i \<le> msg_digits msg ! i" if "i < SPX_WOTS_LEN" for i using that by (meson not_le)
  have d: "digit 4 msg' k \<le> digit 4 msg k" if "k < SPX_WOTS_LEN1" for k
    using ge [of k] that by (simp add: msg_digits_def nth_append)
  have "checksum msg' div 256 \<le> checksum msg div 256" "checksum msg' div 16 mod 16 \<le> checksum msg div 16 mod 16"
    "checksum msg' mod 16 \<le> checksum msg mod 16"
    using ge [of 32] ge [of 33] ge [of 34] by (simp_all add: msg_digits_def nth_append)
  then have c: "checksum msg' \<le> checksum msg"
    using hex_digits [of "checksum msg'"] hex_digits [of "checksum msg"] by linarith
  have le: "(\<Sum>k<SPX_WOTS_LEN1. digit 4 msg' k) \<le> (\<Sum>k<SPX_WOTS_LEN1. digit 4 msg k)" using d by (intro sum_mono) simp
  then have eq: "(\<Sum>k<SPX_WOTS_LEN1. digit 4 msg' k) = (\<Sum>k<SPX_WOTS_LEN1. digit 4 msg k)"
    using c checksum_sum [of msg] checksum_sum [of msg'] by linarith
  have "digit 4 msg' k = digit 4 msg k" if "k < SPX_WOTS_LEN1" for k
    using sum_mono_inv [OF eq, of k] d that by simp
  then show False using digits_inject [OF len] ne by metis
qed

end
