(* ===== verification/SPX_Wots.thy ===== *)
theory SPX_Wots
  imports SPX_Digits BS_Codec
begin

text \<open>
  Addresses and one-time signatures: the address a function leaves behind differs from the one it
  got only in fields that every later use sets again, and the public key computed from a WOTS+
  signature is the one that was generated.
\<close>

definition hash_ok :: "hash \<Rightarrow> bool" where
  "hash_ok sha \<longleftrightarrow> (\<forall>m. length (sha m) = 32)"

lemma length_thash:
  assumes "hash_ok sha"
  shows "length (spx_thash sha x n p a) = SPX_N" "length (spx_thash_f sha x p a) = SPX_N"
    "length (spx_thash_h sha x p a) = SPX_N" "length (spx_thash_prf sha p x a) = SPX_N"
    "length (spx_thash_tl sha x p a) = SPX_N" "length (spx_thash_tk sha x p a) = SPX_N"
  using assms
  by (simp_all add: hash_ok_def spx_thash_def spx_thash_f_def spx_thash_h_def spx_thash_prf_def spx_thash_tl_def spx_thash_tk_def)

section \<open>Addresses\<close>

text \<open>Two addresses of the same tree: they agree on the layer and the tree, and on the bytes that no function sets.\<close>

definition same_tree :: "addr \<Rightarrow> addr \<Rightarrow> bool" where
  "same_tree a b \<longleftrightarrow> length a = 32 \<and> length b = 32 \<and> take 9 a = take 9 b \<and> drop 22 a = drop 22 b"

lemma same_tree_refl [simp]: "same_tree a a \<longleftrightarrow> length a = 32"
  by (simp add: same_tree_def)

lemma same_tree_sym: "same_tree a b \<Longrightarrow> same_tree b a"
  by (simp add: same_tree_def)

lemma same_tree_trans: "same_tree a b \<Longrightarrow> same_tree b c \<Longrightarrow> same_tree a c"
  by (simp add: same_tree_def)

lemma same_tree_length: "same_tree a b \<Longrightarrow> length a = 32 \<and> length b = 32"
  by (simp add: same_tree_def)

lemma length_store_u32 [simp]: "length (CRYPTO_store_u32_be v) = 4"
  by (simp add: CRYPTO_store_u32_be_def)

lemma load_store_u32_be [simp]: "CRYPTO_load_u32_be (CRYPTO_store_u32_be v) = v"
proof -
  have "unat (CRYPTO_bswap4 v) < 256 ^ 4" using unsigned_less [of "CRYPTO_bswap4 v"] by simp
  then show ?thesis by (simp add: CRYPTO_load_u32_be_def CRYPTO_store_u32_be_def)
qed

lemma set_type_eq: "length a = 32 \<Longrightarrow> spx_set_type a t = take 9 a @ ucast t # replicate 12 0 @ drop 22 a"
  by (rule nth_equalityI) (auto simp: spx_set_type_def nth_append nth_list_update nth_Cons' min_def)

lemma set_type_cong: "same_tree a b \<Longrightarrow> spx_set_type a t = spx_set_type b t"
  by (simp add: same_tree_def set_type_eq)

lemma same_tree_update: "9 \<le> k \<Longrightarrow> k < 22 \<Longrightarrow> same_tree (a[k := v]) b \<longleftrightarrow> same_tree a b"
  by (simp add: same_tree_def)

lemma same_tree_index: "same_tree (spx_set_tree_index a i) b \<longleftrightarrow> same_tree a b"
proof (cases "length a = 32")
  case True
  then show ?thesis by (simp add: same_tree_def spx_set_tree_index_def min_def)
next
  case False
  then show ?thesis by (auto simp: same_tree_def spx_set_tree_index_def min_def)
qed

lemma same_tree_type: "same_tree a b \<Longrightarrow> same_tree (spx_set_type a t) b"
  by (simp add: same_tree_def set_type_eq)

lemmas same_tree_set = spx_set_chain_addr_def spx_set_hash_addr_def spx_set_keypair_addr_def spx_set_tree_height_def
  same_tree_update same_tree_index same_tree_type

lemma length_set_type [simp]: "length a = 32 \<Longrightarrow> length (spx_set_type a t) = 32"
  by (simp add: set_type_eq)

lemma length_set_tree_index [simp]: "length a = 32 \<Longrightarrow> length (spx_set_tree_index a i) = 32"
  by (simp add: spx_set_tree_index_def)

lemma get_set_tree_index [simp]: "length a = 32 \<Longrightarrow> spx_get_tree_index (spx_set_tree_index a i) = i"
  by (simp add: spx_get_tree_index_def spx_set_tree_index_def min_def)

lemma set_set_tree_index [simp]:
  "length a = 32 \<Longrightarrow> spx_set_tree_index (spx_set_tree_index a i) j = spx_set_tree_index a j"
  by (simp add: spx_set_tree_index_def min_def)

lemma set_height_index:
  "length a = 32 \<Longrightarrow> spx_set_tree_height (spx_set_tree_index a i) h = spx_set_tree_index (spx_set_tree_height a h) i"
  by (simp add: spx_set_tree_index_def spx_set_tree_height_def list_update_append take_update_swap)

lemma set_set_height [simp]: "spx_set_tree_height (spx_set_tree_height a h) k = spx_set_tree_height a k"
  by (simp add: spx_set_tree_height_def)

lemma copy_keypair_update: "k \<notin> {12, 13} \<Longrightarrow> 9 \<le> k \<Longrightarrow> spx_copy_keypair_addr out (a[k := v]) = spx_copy_keypair_addr out a"
  by (simp add: spx_copy_keypair_addr_def)

section \<open>Chains\<close>

definition chain_fold :: "hash \<Rightarrow> u8 list \<Rightarrow> addr \<Rightarrow> u8 list \<Rightarrow> nat \<Rightarrow> nat \<Rightarrow> u8 list" where
  "chain_fold sha pub_seed a x s e =
     foldl (\<lambda>x k. spx_thash_f sha x pub_seed (spx_set_hash_addr a (word_of_nat k))) (take SPX_N x) [s..<e]"

lemma set_hash_overwrite [simp]: "spx_set_hash_addr (a[21 := v]) k = spx_set_hash_addr a k"
  by (simp add: spx_set_hash_addr_def)

lemma chain_fold_update [simp]: "chain_fold sha p (a[21 := v]) x s e = chain_fold sha p a x s e"
  by (simp add: chain_fold_def)

lemma length_chain_fold: "hash_ok sha \<Longrightarrow> length x = SPX_N \<Longrightarrow> length (chain_fold sha p a x s e) = SPX_N"
proof -
  assume h: "hash_ok sha" "length x = SPX_N"
  have "length (foldl (\<lambda>x k. spx_thash_f sha x p (spx_set_hash_addr a (word_of_nat k))) y ks) = SPX_N"
    if "length y = SPX_N" for y ks
    using that by (induction ks arbitrary: y) (simp_all add: length_thash [OF h(1)])
  then show ?thesis using h(2) by (simp add: chain_fold_def)
qed

text \<open>Going on where a chain stopped.\<close>

lemma chain_fold_trans:
  assumes "hash_ok sha" "length x = SPX_N" "s \<le> m" "m \<le> e"
  shows "chain_fold sha p a (chain_fold sha p a x s m) m e = chain_fold sha p a x s e"
proof -
  have "[s..<e] = [s..<m] @ [m..<e]" using assms(3,4) upt_add_eq_append [of s m "e - m"] by simp
  moreover have "length (chain_fold sha p a x s m) = SPX_N" using assms(1,2) by (rule length_chain_fold)
  ultimately show ?thesis by (simp add: chain_fold_def [of sha p a _ m] chain_fold_def [of sha p a x s])
qed

lemma wots_chain_eq:
  assumes "unat start + unat steps < SPX_WOTS_W"
  shows "\<exists>h. wots_chain sha x start steps p a = (chain_fold sha p a x (unat start) (unat start + unat steps), a[21 := h])"
proof -
  have "\<exists>h. foldl (\<lambda>(output, a) i. let a = spx_set_hash_addr a (word_of_nat i) in (spx_thash_f sha output p a, a)) (y, a) ks =
      (foldl (\<lambda>x k. spx_thash_f sha x p (spx_set_hash_addr a (word_of_nat k))) y ks, a[21 := h])" for y ks
  proof (induction ks arbitrary: y a)
    case Nil
    show ?case using list_update_id [of a 21] by (intro exI [of _ "a ! 21"]) simp
  next
    case (Cons k ks)
    from Cons [where y = "spx_thash_f sha y p (spx_set_hash_addr a (word_of_nat k))" and a = "spx_set_hash_addr a (word_of_nat k)"]
    show ?case by (auto simp: spx_set_hash_addr_def Let_def)
  qed
  moreover have "unat (start + steps) = unat start + unat steps"
    using assms by (intro unat_add_lem [THEN iffD1]) simp
  ultimately show ?thesis using assms by (simp add: wots_chain_def chain_fold_def)
qed

section \<open>Signing and the public key\<close>

lemma chain_step:
  assumes "unat start + unat steps < SPX_WOTS_W"
  obtains c' h' where "wots_chain sha x start steps p (spx_set_chain_addr (a[17 := c, 21 := h]) k) =
    (chain_fold sha p (spx_set_chain_addr a k) x (unat start) (unat start + unat steps), a[17 := c', 21 := h'])"
proof -
  have "spx_set_chain_addr (a[17 := c, 21 := h]) k = (spx_set_chain_addr a k)[21 := h]"
    using list_update_swap [of 21 17 "a[17 := c]" h "ucast k"] by (simp add: spx_set_chain_addr_def)
  then show thesis
    using wots_chain_eq [OF assms, of sha x p "(spx_set_chain_addr a k)[21 := h]"] that [of "ucast k"]
    by (auto simp: spx_set_chain_addr_def)
qed

text \<open>The loops over the chains.\<close>

definition sign_step ::
  "hash \<Rightarrow> u8 list \<Rightarrow> u8 list \<Rightarrow> (nat \<Rightarrow> u32) \<Rightarrow> nat \<Rightarrow> u8 list \<times> addr \<times> addr \<Rightarrow> u8 list \<times> addr \<times> addr" where
  "sign_step sha p sk_seed e = (\<lambda>i (sig, sk_addr, a).
      let sk_addr = spx_set_chain_addr sk_addr (word_of_nat i);
          tmp_sk = spx_thash_prf sha p sk_seed sk_addr;
          a = spx_set_chain_addr a (word_of_nat i);
          (out, a) = wots_chain sha tmp_sk 0 (e i) p a in
      (sig @ out, sk_addr, a))"

definition verify_step ::
  "hash \<Rightarrow> u8 list \<Rightarrow> (nat \<Rightarrow> u8 list) \<Rightarrow> (nat \<Rightarrow> u32) \<Rightarrow> (nat \<Rightarrow> u32) \<Rightarrow> nat \<Rightarrow> u8 list \<times> addr \<Rightarrow> u8 list \<times> addr" where
  "verify_step sha p x d e = (\<lambda>i (tmp, a).
      let a = spx_set_chain_addr a (word_of_nat i);
          (out, a) = wots_chain sha (x i) (d i) (e i) p a in
      (tmp @ out, a))"

definition chain_parts :: "hash \<Rightarrow> u8 list \<Rightarrow> u8 list \<Rightarrow> (nat \<Rightarrow> u32) \<Rightarrow> addr \<Rightarrow> addr \<Rightarrow> nat \<Rightarrow> u8 list" where
  "chain_parts sha p sk_seed e sk a n = concat (map (\<lambda>i. chain_fold sha p (spx_set_chain_addr a (word_of_nat i))
       (spx_thash_prf sha p sk_seed (spx_set_chain_addr sk (word_of_nat i))) 0 (unat (e i))) [0..<n])"

definition chain_ends ::
  "hash \<Rightarrow> u8 list \<Rightarrow> (nat \<Rightarrow> u8 list) \<Rightarrow> (nat \<Rightarrow> u32) \<Rightarrow> (nat \<Rightarrow> u32) \<Rightarrow> addr \<Rightarrow> nat \<Rightarrow> u8 list" where
  "chain_ends sha p x d e a n = concat (map (\<lambda>i. chain_fold sha p (spx_set_chain_addr a (word_of_nat i)) (x i) (unat (d i)) (unat (d i) + unat (e i))) [0..<n])"

lemma sign_loop:
  assumes "\<forall>i<n. unat (e i) < SPX_WOTS_W"
  shows "\<exists>sk1 c h. for_loop n (sign_step sha p sk_seed e) ([], sk, a) =
    (chain_parts sha p sk_seed e sk a n, sk1, a[17 := c, 21 := h]) \<and>
    (\<forall>k. spx_set_chain_addr sk1 k = spx_set_chain_addr sk k)"
  using assms
proof (induction n)
  case 0
  have "for_loop 0 (sign_step sha p sk_seed e) ([], sk, a) = (chain_parts sha p sk_seed e sk a 0, sk, a[17 := a ! 17, 21 := a ! 21])"
    by (simp add: chain_parts_def)
  then show ?case by blast
next
  case (Suc n)
  then obtain sk1 c h where IH: "for_loop n (sign_step sha p sk_seed e) ([], sk, a) =
    (chain_parts sha p sk_seed e sk a n, sk1, a[17 := c, 21 := h])"
    and s: "\<And>k. spx_set_chain_addr sk1 k = spx_set_chain_addr sk k" by auto
  let ?x = "spx_thash_prf sha p sk_seed (spx_set_chain_addr sk (word_of_nat n))"
  have "unat (0 :: u32) + unat (e n) < SPX_WOTS_W" using Suc.prems by simp
  from chain_step [OF this, of sha ?x p a c h "word_of_nat n"]
  obtain c' h' where w: "wots_chain sha ?x 0 (e n) p (spx_set_chain_addr (a[17 := c, 21 := h]) (word_of_nat n)) =
    (chain_fold sha p (spx_set_chain_addr a (word_of_nat n)) ?x 0 (unat (e n)), a[17 := c', 21 := h'])" by auto
  have "spx_set_chain_addr (spx_set_chain_addr sk (word_of_nat n)) k = spx_set_chain_addr sk k" for k
    by (simp add: spx_set_chain_addr_def)
  moreover have "for_loop (Suc n) (sign_step sha p sk_seed e) ([], sk, a) =
    (chain_parts sha p sk_seed e sk a (Suc n),
     spx_set_chain_addr sk (word_of_nat n), a[17 := c', 21 := h'])"
    unfolding for_loop.simps IH unfolding sign_step_def prod.case Let_def s w by (simp add: chain_parts_def)
  ultimately show ?case by blast
qed

lemma verify_loop:
  assumes "\<forall>i<n. unat (d i) + unat (e i) < SPX_WOTS_W"
  shows "\<exists>c h. for_loop n (verify_step sha p x d e) ([], a) =
    (chain_ends sha p x d e a n, a[17 := c, 21 := h])"
  using assms
proof (induction n)
  case 0
  have "for_loop 0 (verify_step sha p x d e) ([], a) = (chain_ends sha p x d e a 0, a[17 := a ! 17, 21 := a ! 21])"
    by (simp add: chain_ends_def)
  then show ?case by blast
next
  case (Suc n)
  then obtain c h where IH: "for_loop n (verify_step sha p x d e) ([], a) =
    (chain_ends sha p x d e a n, a[17 := c, 21 := h])" by auto
  have "unat (d n) + unat (e n) < SPX_WOTS_W" using Suc.prems by simp
  from chain_step [OF this, of sha "x n" p a c h "word_of_nat n"]
  obtain c' h' where w: "wots_chain sha (x n) (d n) (e n) p (spx_set_chain_addr (a[17 := c, 21 := h]) (word_of_nat n)) =
    (chain_fold sha p (spx_set_chain_addr a (word_of_nat n)) (x n) (unat (d n)) (unat (d n) + unat (e n)), a[17 := c', 21 := h'])" .
  have "for_loop (Suc n) (verify_step sha p x d e) ([], a) =
    (chain_ends sha p x d e a (Suc n), a[17 := c', 21 := h'])"
    unfolding for_loop.simps IH unfolding verify_step_def prod.case Let_def w by (simp add: chain_ends_def)
  then show ?case by blast
qed

lemma length_concat_chunks: "\<forall>i<n. length (f i) = m \<Longrightarrow> length (concat (map f [0..<n])) = n * m"
  by (induction n) simp_all

lemma concat_chunk: "\<forall>i<n. length (f i) = m \<Longrightarrow> i < n \<Longrightarrow> take m (drop (i * m) (concat (map f [0..<n]) @ r)) = f i"
proof (induction n arbitrary: r)
  case (Suc n)
  show ?case
  proof (cases "i = n")
    case True
    then show ?thesis using length_concat_chunks [of n f m] Suc.prems by simp
  next
    case False
    then show ?thesis using Suc.IH [of "f n @ r"] Suc.prems by simp
  qed
qed simp

text \<open>The address for the secret values, and the one for the compression of the ends of the chains.\<close>

definition prf_addr :: "addr \<Rightarrow> addr" where
  "prf_addr a = spx_copy_keypair_addr (spx_set_type a SPX_ADDR_TYPE_WOTSPRF) a"

definition pk_addr :: "addr \<Rightarrow> addr" where
  "pk_addr a = spx_copy_keypair_addr (spx_set_type a SPX_ADDR_TYPE_WOTSPK) a"

lemma pk_addr_update:
  "spx_copy_keypair_addr (spx_set_type a SPX_ADDR_TYPE_WOTSPK) (a[17 := c, 21 := h]) = pk_addr a"
  by (simp add: pk_addr_def copy_keypair_update)

definition wots_key :: "hash \<Rightarrow> u8 list \<Rightarrow> u8 list \<Rightarrow> addr \<Rightarrow> u8 list" where
  "wots_key sha sk_seed p a = spx_thash_tl sha (chain_parts sha p sk_seed (\<lambda>i. 15) (prf_addr a) a SPX_WOTS_LEN) p (pk_addr a)"

lemma wots_pk_gen_eq: "\<exists>c h. spx_wots_pk_gen sha sk_seed p a = (wots_key sha sk_seed p a, a[17 := c, 21 := h])"
proof -
  obtain sk1 c h where "for_loop SPX_WOTS_LEN (sign_step sha p sk_seed (\<lambda>i. 15)) ([], prf_addr a, a) =
      (chain_parts sha p sk_seed (\<lambda>i. 15) (prf_addr a) a SPX_WOTS_LEN, sk1, a[17 := c, 21 := h])"
    using sign_loop [of SPX_WOTS_LEN "\<lambda>i. 15" sha p sk_seed "prf_addr a" a] by auto
  then have "spx_wots_pk_gen sha sk_seed p a = (wots_key sha sk_seed p a, a[17 := c, 21 := h])"
    unfolding spx_wots_pk_gen_def sign_step_def [of sha p sk_seed "\<lambda>i. 15", symmetric]
    by (simp add: Let_def pk_addr_update wots_key_def flip: prf_addr_def)
  then show ?thesis by blast
qed


text \<open>The digits of a message, as the code has them.\<close>

abbreviation (input) wdigit :: "u8 list \<Rightarrow> nat \<Rightarrow> u32" where
  "wdigit msg i \<equiv> map word_of_nat (msg_digits msg) ! i"

lemma unat_wdigit:
  assumes "i < SPX_WOTS_LEN"
  shows "unat (wdigit msg i) = msg_digits msg ! i" "unat (wdigit msg i) \<le> 15" "unat (15 - wdigit msg i) = 15 - unat (wdigit msg i)"
proof -
  have l: "msg_digits msg ! i < 16" using msg_digits_less [of "msg_digits msg ! i" msg] assms by simp
  then show "unat (wdigit msg i) = msg_digits msg ! i" using assms by (simp add: unsigned_of_nat take_bit_nat_eq_self)
  then show le: "unat (wdigit msg i) \<le> 15" using l by simp
  then have "wdigit msg i \<le> 15" by (simp add: word_le_nat_alt)
  then show "unat (15 - wdigit msg i) = 15 - unat (wdigit msg i)" by (simp add: unat_sub)
qed

lemma wots_sign_eq:
  assumes "length msg = SPX_N"
  shows "\<exists>c h. spx_wots_sign sha msg sk_seed p a =
    Some (chain_parts sha p sk_seed (wdigit msg) (prf_addr a) a SPX_WOTS_LEN, a[17 := c, 21 := h])"
proof -
  have "\<forall>i<SPX_WOTS_LEN. unat (wdigit msg i) < SPX_WOTS_W" using unat_wdigit(2) [of _ msg] by (auto simp: less_Suc_eq_le numeral_eq_Suc)
  then obtain sk1 c h where "for_loop SPX_WOTS_LEN (sign_step sha p sk_seed (wdigit msg)) ([], prf_addr a, a) =
      (chain_parts sha p sk_seed (wdigit msg) (prf_addr a) a SPX_WOTS_LEN, sk1, a[17 := c, 21 := h])"
    using sign_loop [of SPX_WOTS_LEN "wdigit msg" sha p sk_seed "prf_addr a" a] by auto
  then have "spx_wots_sign sha msg sk_seed p a =
      Some (chain_parts sha p sk_seed (wdigit msg) (prf_addr a) a SPX_WOTS_LEN, a[17 := c, 21 := h])"
    unfolding spx_wots_sign_def wots_digits_eq [OF assms] bind.simps sign_step_def [of sha p sk_seed "wdigit msg", symmetric]
    by (simp add: Let_def flip: prf_addr_def)
  then show ?thesis by blast
qed

lemma length_chain_parts: "hash_ok sha \<Longrightarrow> length (chain_parts sha p sk_seed e sk a n) = n * SPX_N"
  unfolding chain_parts_def by (rule length_concat_chunks) (simp add: length_chain_fold length_thash)

lemma wots_pk_from_sig_eq:
  assumes h: "hash_ok sha" and msg: "length msg = SPX_N"
  shows "\<exists>c h. spx_wots_pk_from_sig sha (chain_parts sha p sk_seed (wdigit msg) (prf_addr a) a SPX_WOTS_LEN @ auth) msg p a =
    Some (wots_key sha sk_seed p a, a[17 := c, 21 := h])"
proof -
  let ?sig = "chain_parts sha p sk_seed (wdigit msg) (prf_addr a) a SPX_WOTS_LEN"
  let ?x = "\<lambda>i. drop (i * SPX_N) (?sig @ auth)" and ?e = "\<lambda>i. 15 - wdigit msg i"
  let ?s = "\<lambda>i. spx_thash_prf sha p sk_seed (spx_set_chain_addr (prf_addr a) (word_of_nat i))"
  let ?a = "\<lambda>i. spx_set_chain_addr a (word_of_nat i)"
  have sum: "unat (wdigit msg i) + unat (?e i) = 15" if "i < SPX_WOTS_LEN" for i using unat_wdigit [OF that, of msg] by simp
  then obtain c k where l: "for_loop SPX_WOTS_LEN (verify_step sha p ?x (wdigit msg) ?e) ([], a) =
      (chain_ends sha p ?x (wdigit msg) ?e a SPX_WOTS_LEN, a[17 := c, 21 := k])"
    using verify_loop [of SPX_WOTS_LEN "wdigit msg" ?e sha p ?x a] by auto
  have "chain_fold sha p (?a i) (?x i) (unat (wdigit msg i)) (unat (wdigit msg i) + unat (?e i)) = chain_fold sha p (?a i) (?s i) 0 15"
    if i: "i < SPX_WOTS_LEN" for i
  proof -
    have "take SPX_N (?x i) = chain_fold sha p (?a i) (?s i) 0 (unat (wdigit msg i))"
      unfolding chain_parts_def using i by (intro concat_chunk) (simp_all add: length_chain_fold [OF h] length_thash [OF h])
    then have "chain_fold sha p (?a i) (?x i) (unat (wdigit msg i)) 15 =
        chain_fold sha p (?a i) (chain_fold sha p (?a i) (?s i) 0 (unat (wdigit msg i))) (unat (wdigit msg i)) 15"
      unfolding chain_fold_def [of sha p "?a i" _ "unat (wdigit msg i)" 15]
      by (simp add: length_chain_fold [OF h] length_thash [OF h])
    then show ?thesis
      using chain_fold_trans [OF h, of "?s i" 0 "unat (wdigit msg i)" 15 p "?a i"] unat_wdigit(2) [OF i, of msg] sum [OF i]
      by (simp add: length_thash [OF h])
  qed
  then have "chain_ends sha p ?x (wdigit msg) ?e a SPX_WOTS_LEN = chain_parts sha p sk_seed (\<lambda>i. 15) (prf_addr a) a SPX_WOTS_LEN"
    unfolding chain_ends_def chain_parts_def by (intro arg_cong [where f = concat] map_cong) simp_all
  then have "spx_wots_pk_from_sig sha (?sig @ auth) msg p a = Some (wots_key sha sk_seed p a, a[17 := c, 21 := k])"
    unfolding wots_pk_from_sig_unfold wots_digits_eq [OF msg] bind.simps verify_step_def [of sha p ?x "wdigit msg" ?e, symmetric]
    using l length_chain_parts [OF h, of p sk_seed "wdigit msg" "prf_addr a" a SPX_WOTS_LEN]
    by (simp add: Let_def pk_addr_update wots_key_def)
  then show ?thesis by blast
qed

end
