(* ===== verification/SPX_Tree.thy ===== *)
theory SPX_Tree
  imports SPX_Wots
begin

text \<open>
  Trees of hashes. The functions for the trees of the hypertree and for those of FORS share one
  contract, the locale \<open>hash_tree\<close>: a node is the hash of its two children under its own address. In it,
  the loop that climbs from a leaf along an authentication path is shown to reach the root.
\<close>

section \<open>Climbing an authentication path\<close>

definition sibling :: "nat \<Rightarrow> nat" where
  "sibling i = (if even i then i + 1 else i - 1)"

definition climb_step :: "hash \<Rightarrow> u8 list \<Rightarrow> u8 list \<Rightarrow> (nat \<Rightarrow> bool) \<Rightarrow> nat \<Rightarrow> u8 list \<times> addr \<Rightarrow> u8 list \<times> addr" where
  "climb_step sha p auth is_even = (\<lambda>k (node, a).
     let a = spx_set_tree_height a (word_of_nat k + 1);
         sibling = take SPX_N (drop (k * SPX_N) auth) in
     if is_even k then
       (let a = spx_set_tree_index a (spx_get_tree_index a div 2) in
        (spx_thash_h sha (node @ sibling) p a, a))
     else
       (let a = spx_set_tree_index a ((spx_get_tree_index a - 1) div 2) in
        (spx_thash_h sha (sibling @ node) p a, a)))"

lemma unat_small_u32: "n < 2 ^ 32 \<Longrightarrow> unat (word_of_nat n :: u32) = n"
  by (simp add: unsigned_of_nat take_bit_nat_eq_self)

lemma half_u32: "n < 2 ^ 32 \<Longrightarrow> (word_of_nat n :: u32) div 2 = word_of_nat (n div 2)"
proof -
  assume n: "n < 2 ^ 32"
  then have "n div 2 < 2 ^ 32" by simp
  with n show ?thesis by (simp only: word_unat_eq_iff unat_div_distrib unat_small_u32) simp
qed

lemma half_pred_u32: "n < 2 ^ 32 \<Longrightarrow> odd n \<Longrightarrow> ((word_of_nat n :: u32) - 1) div 2 = word_of_nat (n div 2)"
proof -
  assume n: "n < 2 ^ 32" "odd n"
  then have "(word_of_nat n :: u32) - 1 = word_of_nat (n - 1)" by (simp add: of_nat_diff odd_pos Suc_leI)
  then show ?thesis using half_u32 [of "n - 1"] n by (auto elim: oddE)
qed

locale hash_tree =
  fixes sha :: hash and p :: "u8 list" and base :: addr and node :: "nat \<Rightarrow> nat \<Rightarrow> u8 list"
  assumes node_Suc: "node i (Suc z) = spx_thash_h sha (node (2 * i) z @ node (2 * i + 1) z) p
    (spx_set_tree_index (spx_set_tree_height base (word_of_nat (Suc z))) (word_of_nat i))"
begin

lemma node_parent:
  "node (i div 2) (Suc z) = spx_thash_h sha (if even i then node i z @ node (sibling i) z else node (sibling i) z @ node i z) p
     (spx_set_tree_index (spx_set_tree_height base (word_of_nat (Suc z))) (word_of_nat (i div 2)))"
  by (cases "even i") (auto simp: node_Suc sibling_def elim!: evenE oddE)

lemma climb_one:
  assumes a: "length base = 32" and i: "i < 2 ^ 32" and e: "is_even k \<longleftrightarrow> even i"
    and s: "take SPX_N (drop (k * SPX_N) auth) = node (sibling i) k"
  shows "climb_step sha p auth is_even k (node i k, spx_set_tree_index (base[17 := v]) (word_of_nat i)) =
    (node (i div 2) (Suc k), spx_set_tree_index (spx_set_tree_height base (word_of_nat (Suc k))) (word_of_nat (i div 2)))"
proof -
  let ?w = "word_of_nat i :: u32"
  have h: "spx_set_tree_height (spx_set_tree_index (base[17 := v]) ?w) (word_of_nat k + 1) =
      spx_set_tree_index (spx_set_tree_height base (word_of_nat (Suc k))) ?w"
    using a by (simp add: set_height_index add.commute) (simp add: spx_set_tree_height_def)
  have len: "length (spx_set_tree_height base (word_of_nat (Suc k))) = 32" using a by (simp add: spx_set_tree_height_def)
  note half = half_u32 [OF i] half_pred_u32 [OF i]
  show ?thesis
    unfolding climb_step_def prod.case Let_def h s using len half e
    by (simp add: node_parent [of i k])
qed

lemma climb:
  assumes a: "length base = 32" and n: "n < 2 ^ 32" and e: "\<forall>k<h. is_even k \<longleftrightarrow> even (n div 2 ^ k)"
    and s: "\<forall>k<h. take SPX_N (drop (k * SPX_N) auth) = node (sibling (n div 2 ^ k)) k"
  shows "\<exists>v. for_loop h (climb_step sha p auth is_even) (node n 0, spx_set_tree_index (base[17 := v0]) (word_of_nat n)) =
    (node (n div 2 ^ h) h, spx_set_tree_index (base[17 := v]) (word_of_nat (n div 2 ^ h)))"
  using e s
proof (induction h)
  case 0
  then show ?case by auto
next
  case (Suc h)
  then obtain v where IH: "for_loop h (climb_step sha p auth is_even) (node n 0, spx_set_tree_index (base[17 := v0]) (word_of_nat n)) =
    (node (n div 2 ^ h) h, spx_set_tree_index (base[17 := v]) (word_of_nat (n div 2 ^ h)))" by auto
  have "n div 2 ^ h < 2 ^ 32" using n div_le_dividend [of n "2 ^ h"] by linarith
  from climb_one [OF a this, of is_even h auth v] Suc.prems show ?case
    unfolding for_loop.simps IH by (auto simp: div_mult2_eq [symmetric] mult.commute spx_set_tree_height_def)
qed

end

section \<open>The trees of the hypertree\<close>

definition leaf_addr :: "addr \<Rightarrow> nat \<Rightarrow> addr" where
  "leaf_addr a i = spx_set_keypair_addr (spx_set_type a SPX_ADDR_TYPE_WOTS) (word_of_nat i)"

fun tree_node :: "hash \<Rightarrow> u8 list \<Rightarrow> u8 list \<Rightarrow> addr \<Rightarrow> nat \<Rightarrow> nat \<Rightarrow> u8 list" where
  "tree_node sha sk_seed p a i 0 = wots_key sha sk_seed p (leaf_addr a i)"
| "tree_node sha sk_seed p a i (Suc z) =
     spx_thash_h sha (tree_node sha sk_seed p a (2 * i) z @ tree_node sha sk_seed p a (2 * i + 1) z) p
       (spx_set_tree_index (spx_set_tree_height (spx_set_type a SPX_ADDR_TYPE_HASHTREE) (word_of_nat (Suc z))) (word_of_nat i))"

interpretation merkle: hash_tree sha p "spx_set_type a SPX_ADDR_TYPE_HASHTREE" "tree_node sha sk_seed p a" for sha p a sk_seed
  by unfold_locales simp

lemma leaf_addr_cong: "same_tree a b \<Longrightarrow> leaf_addr a i = leaf_addr b i"
  by (simp add: leaf_addr_def set_type_cong)

lemma tree_node_cong: "same_tree a b \<Longrightarrow> tree_node sha sk_seed p a i z = tree_node sha sk_seed p b i z"
  by (induction z arbitrary: i) (simp_all add: leaf_addr_cong set_type_cong)

lemma length_tree_node: "hash_ok sha \<Longrightarrow> length (tree_node sha sk_seed p a i z) = SPX_N"
  by (cases z) (simp_all add: wots_key_def length_thash)

lemma same_tree_leaf: "same_tree a b \<Longrightarrow> same_tree ((leaf_addr a i)[17 := c, 21 := h]) b"
  by (simp add: leaf_addr_def same_tree_set)

text \<open>\<open>spx_treehash\<close> never fails its checks on the nodes of a tree, and computes them.\<close>

lemma spx_treehash_eq:
  "z \<le> SPX_TREE_HEIGHT \<Longrightarrow> i < 2 ^ (SPX_TREE_HEIGHT - z) \<Longrightarrow> same_tree a b \<Longrightarrow>
   \<exists>a'. spx_treehash sha sk_seed (word_of_nat i) z p a = Some (tree_node sha sk_seed p b i z, a') \<and> same_tree a' b"
proof (induction z arbitrary: i a)
  case 0
  obtain c h where w: "spx_wots_pk_gen sha sk_seed p (leaf_addr a i) =
      (wots_key sha sk_seed p (leaf_addr a i), (leaf_addr a i)[17 := c, 21 := h])"
    using wots_pk_gen_eq by blast
  have "unat (word_of_nat i :: u32) = i" using 0(2) by (intro unat_small_u32) simp
  then show ?case using w 0 same_tree_leaf [OF 0(3), of i c h] leaf_addr_cong [OF 0(3)]
    by (simp add: Let_def flip: leaf_addr_def)
next
  case (Suc z)
  let ?i = "word_of_nat i :: u32"
  have "(2 :: nat) ^ (SPX_TREE_HEIGHT - Suc z) \<le> 2 ^ 9" by (intro power_increasing) simp_all
  then have "i < 2 ^ 32" using Suc.prems(2) by simp
  then have u: "unat ?i = i" by (rule unat_small_u32)
  have p2: "(2 :: nat) ^ (SPX_TREE_HEIGHT - z) = 2 * 2 ^ (SPX_TREE_HEIGHT - Suc z)"
    using Suc.prems(1) by (simp add: Suc_diff_Suc [symmetric] del: Suc_diff_Suc)
  have w: "2 * ?i = word_of_nat (2 * i)" "2 * ?i + 1 = word_of_nat (2 * i + 1)" by simp_all
  have lt: "2 * i < 2 ^ (SPX_TREE_HEIGHT - z)" "2 * i + 1 < 2 ^ (SPX_TREE_HEIGHT - z)" using p2 Suc.prems(2) by linarith+
  have z: "z \<le> SPX_TREE_HEIGHT" using Suc.prems(1) by simp
  obtain a1 where a1: "spx_treehash sha sk_seed (2 * ?i) z p a = Some (tree_node sha sk_seed p b (2 * i) z, a1)" "same_tree a1 b"
    using Suc.IH [OF z lt(1) Suc.prems(3)] unfolding w(1) by blast
  obtain a2 where a2: "spx_treehash sha sk_seed (2 * ?i + 1) z p a1 = Some (tree_node sha sk_seed p b (2 * i + 1) z, a2)" "same_tree a2 b"
    using Suc.IH [OF z lt(2) a1(2)] unfolding w(2) by blast
  show ?case using a1(1) a2 u Suc.prems(1,2) set_type_cong [OF a2(2)] same_tree_length [OF a2(2)]
    by (simp add: Let_def same_tree_set)
qed

section \<open>Signing a leaf\<close>

lemma unat_xor_1: "unat (w XOR 1 :: u32) = sibling (unat w)"
  by (simp add: unsigned_xor_eq sibling_def xor_Suc_0_eq)

lemma drop_bit_index: "unat (drop_bit j (w :: u32)) = unat w div 2 ^ j" "drop_bit j w AND 1 = 0 \<longleftrightarrow> even (unat w div 2 ^ j)"
proof -
  show d: "unat (drop_bit j w) = unat w div 2 ^ j" by (rule unat_drop_bit_div)
  have "unat (drop_bit j w AND 1) = unat w div 2 ^ j mod 2" unfolding and_one_eq unat_mod_distrib d by simp
  then show "drop_bit j w AND 1 = 0 \<longleftrightarrow> even (unat w div 2 ^ j)" by (metis even_iff_mod_2_eq_zero unat_eq_0)
qed

definition auth_path :: "(nat \<Rightarrow> nat \<Rightarrow> u8 list) \<Rightarrow> nat \<Rightarrow> nat \<Rightarrow> u8 list" where
  "auth_path node n h = concat (map (\<lambda>j. node (sibling (n div 2 ^ j)) j) [0..<h])"

lemma auth_path_chunk:
  "(\<And>i z. length (node i z) = SPX_N) \<Longrightarrow> k < h \<Longrightarrow>
   take SPX_N (drop (k * SPX_N) (auth_path node n h @ r)) = node (sibling (n div 2 ^ k)) k"
  unfolding auth_path_def by (rule concat_chunk) simp_all

lemma length_auth_path: "(\<And>i z. length (node i z) = SPX_N) \<Longrightarrow> length (auth_path node n h) = h * SPX_N"
  unfolding auth_path_def by (rule length_concat_chunks) simp

lemma sibling_index_less: "n < k * 2 ^ m \<Longrightarrow> h < m \<Longrightarrow> sibling (n div 2 ^ h) < k * 2 ^ (m - h)"
proof -
  assume n: "n < k * 2 ^ m" and h: "h < m"
  then have "(2 :: nat) ^ m = 2 ^ (m - h) * 2 ^ h" by (simp flip: power_add)
  then have lt: "n div 2 ^ h < k * 2 ^ (m - h)" using n by (simp add: div_less_iff_less_mult mult.assoc)
  have ev: "even (k * 2 ^ (m - h))" using h by simp
  have "n div 2 ^ h + 1 \<noteq> k * 2 ^ (m - h)" if "even (n div 2 ^ h)" using that ev by (metis even_plus_one_iff)
  then show ?thesis using lt by (auto simp: sibling_def)
qed

lemma xmss_auth_loop:
  assumes idx: "unat idx < 2 ^ SPX_TREE_HEIGHT" and ab: "same_tree a b"
  shows "h \<le> SPX_TREE_HEIGHT \<Longrightarrow> \<exists>a'. for_opt h (\<lambda>j (auth, a).
      Option.bind (spx_treehash sha sk_seed (drop_bit j idx XOR 1) j p a) (\<lambda>(node, a). Some (auth @ node, a))) ([], a) =
    Some (auth_path (tree_node sha sk_seed p b) (unat idx) h, a') \<and> same_tree a' b"
proof (induction h)
  case 0
  then show ?case using ab by (simp add: auth_path_def)
next
  case (Suc h)
  then obtain a1 where IH: "for_opt h (\<lambda>j (auth, a).
      Option.bind (spx_treehash sha sk_seed (drop_bit j idx XOR 1) j p a) (\<lambda>(node, a). Some (auth @ node, a))) ([], a) =
    Some (auth_path (tree_node sha sk_seed p b) (unat idx) h, a1)" "same_tree a1 b" by auto
  let ?i = "sibling (unat idx div 2 ^ h)"
  have "?i < 2 ^ (SPX_TREE_HEIGHT - h)" using sibling_index_less [of "unat idx" 1 SPX_TREE_HEIGHT h] idx Suc.prems by simp
  moreover have "drop_bit h idx XOR 1 = word_of_nat ?i"
    using unat_xor_1 [of "drop_bit h idx"] unfolding drop_bit_index(1) by (metis of_nat_unat ucast_id)
  ultimately obtain a2 where "spx_treehash sha sk_seed (drop_bit h idx XOR 1) h p a1 = Some (tree_node sha sk_seed p b ?i h, a2)"
    "same_tree a2 b" using spx_treehash_eq [of h ?i a1 b sha sk_seed p] IH(2) Suc.prems by auto
  then show ?case unfolding for_opt.simps IH(1) by (simp add: auth_path_def)
qed

lemma drop_bit_half: "drop_bit 1 (w :: u32) = w div 2"
  by (simp add: drop_bit_eq_div)

lemma xmss_sign_eq:
  assumes "length msg = SPX_N" "unat idx < 2 ^ SPX_TREE_HEIGHT" "same_tree a b"
  defines "l \<equiv> leaf_addr b (unat idx)"
  shows "\<exists>a'. spx_xmss_sign sha msg idx sk_seed p a =
    Some (chain_parts sha p sk_seed (wdigit msg) (prf_addr l) l SPX_WOTS_LEN @
      auth_path (tree_node sha sk_seed p b) (unat idx) SPX_TREE_HEIGHT, a') \<and> same_tree a' b"
proof -
  obtain a1 where a1: "for_opt SPX_TREE_HEIGHT (\<lambda>j (auth, a).
      Option.bind (spx_treehash sha sk_seed (drop_bit j idx XOR 1) j p a) (\<lambda>(node, a). Some (auth @ node, a))) ([], a) =
    Some (auth_path (tree_node sha sk_seed p b) (unat idx) SPX_TREE_HEIGHT, a1)" "same_tree a1 b"
    using xmss_auth_loop [OF assms(2,3)] by blast
  have l: "spx_set_keypair_addr (spx_set_type a1 SPX_ADDR_TYPE_WOTS) idx = l"
    using leaf_addr_cong [OF a1(2), of "unat idx"] by (simp add: l_def leaf_addr_def)
  obtain c h where "spx_wots_sign sha msg sk_seed p l =
      Some (chain_parts sha p sk_seed (wdigit msg) (prf_addr l) l SPX_WOTS_LEN, l[17 := c, 21 := h])"
    using wots_sign_eq [OF assms(1)] by blast
  moreover have "same_tree (l[17 := c, 21 := h]) b"
    unfolding l_def using assms(3) same_tree_length by (intro same_tree_leaf) auto
  ultimately show ?thesis using a1(1) l by (simp add: spx_xmss_sign_def Let_def)
qed

text \<open>The root computed from a signature of a tree is the root of that tree.\<close>

lemma xmss_pk_from_sig_eq:
  assumes h: "hash_ok sha" and msg: "length msg = SPX_N" and idx: "unat idx < 2 ^ SPX_TREE_HEIGHT" and ab: "same_tree a b"
  defines "l \<equiv> leaf_addr b (unat idx)"
  shows "\<exists>a'. spx_xmss_pk_from_sig sha (chain_parts sha p sk_seed (wdigit msg) (prf_addr l) l SPX_WOTS_LEN @
      auth_path (tree_node sha sk_seed p b) (unat idx) SPX_TREE_HEIGHT) idx msg p a =
    Some (tree_node sha sk_seed p b 0 SPX_TREE_HEIGHT, a') \<and> same_tree a' b"
proof -
  let ?auth = "auth_path (tree_node sha sk_seed p b) (unat idx) SPX_TREE_HEIGHT"
  let ?sig = "chain_parts sha p sk_seed (wdigit msg) (prf_addr l) l SPX_WOTS_LEN"
  let ?base = "spx_set_type b SPX_ADDR_TYPE_HASHTREE"
  let ?even = "\<lambda>k. drop_bit k idx AND 1 = 0"
  have l: "spx_set_keypair_addr (spx_set_type a SPX_ADDR_TYPE_WOTS) idx = l"
    using leaf_addr_cong [OF ab, of "unat idx"] by (simp add: l_def leaf_addr_def)
  have b: "length b = 32" "same_tree b b" using same_tree_length [OF ab] by simp_all
  obtain c k where w: "spx_wots_pk_from_sig sha (?sig @ ?auth) msg p l = Some (wots_key sha sk_seed p l, l[17 := c, 21 := k])"
    using wots_pk_from_sig_eq [OF h msg] by blast
  have t: "spx_set_type (l[17 := c, 21 := k]) SPX_ADDR_TYPE_HASHTREE = ?base"
    unfolding l_def by (intro set_type_cong same_tree_leaf b(2))
  have auth: "drop SPX_WOTS_BYTES (?sig @ ?auth) = ?auth" by (simp add: length_chain_parts [OF h])
  have len: "length (?sig @ ?auth) = SPX_XMSS_BYTES" by (simp add: length_chain_parts [OF h] length_auth_path length_tree_node [OF h])
  have sib: "\<forall>k<SPX_TREE_HEIGHT. take SPX_N (drop (k * SPX_N) ?auth) = tree_node sha sk_seed p b (sibling (unat idx div 2 ^ k)) k"
    using auth_path_chunk [OF length_tree_node [OF h], where r = "[]"] by simp
  have "length ?base = 32" using b(1) by simp
  from merkle.climb [OF this, of "unat idx" SPX_TREE_HEIGHT ?even ?auth sha sk_seed p "?base ! 17"]
  obtain v where cl: "for_loop SPX_TREE_HEIGHT (climb_step sha p ?auth ?even)
      (tree_node sha sk_seed p b (unat idx) 0, spx_set_tree_index ?base idx) =
    (tree_node sha sk_seed p b (unat idx div 2 ^ SPX_TREE_HEIGHT) SPX_TREE_HEIGHT,
     spx_set_tree_index (?base[17 := v]) (word_of_nat (unat idx div 2 ^ SPX_TREE_HEIGHT)))"
    using sib drop_bit_index(2) [of _ idx] idx by auto
  have "unat idx div 2 ^ SPX_TREE_HEIGHT = 0" using idx by simp
  moreover have "same_tree (spx_set_tree_index (?base[17 := v]) 0) b" using b by (simp add: same_tree_set)
  ultimately show ?thesis
    unfolding xmss_pk_from_sig_unfold Let_def l w bind.simps prod.case auth t
    using cl len unfolding climb_step_def Let_def drop_bit_half by (simp add: l_def)
qed

end
