(* ===== verification/SPX_Fors.thy ===== *)
theory SPX_Fors
  imports SPX_Tree
begin

text \<open>
  The few-time signatures FORS: the public key computed from a signature does not depend on the
  message; it is the hash of the roots of the 14 trees.
\<close>

section \<open>Addresses inside one key\<close>

definition same_key :: "addr \<Rightarrow> addr \<Rightarrow> bool" where
  "same_key a b \<longleftrightarrow> length a = 32 \<and> length b = 32 \<and> take 17 a = take 17 b \<and> drop 22 a = drop 22 b"

lemma same_key_length: "same_key a b \<Longrightarrow> length a = 32 \<and> length b = 32"
  by (simp add: same_key_def)

lemma same_key_nth: "same_key a b \<Longrightarrow> i < 17 \<Longrightarrow> a ! i = b ! i"
  unfolding same_key_def by (metis nth_take)

lemma same_key_tree: "same_key a b \<Longrightarrow> same_tree a b"
proof -
  assume k: "same_key a b"
  then have "take 9 (take 17 a) = take 9 (take 17 b)" by (simp add: same_key_def)
  then show ?thesis using k by (simp add: same_key_def same_tree_def min_def)
qed

lemma same_key_update: "same_key (a[17 := v]) b \<longleftrightarrow> same_key a b"
  by (simp add: same_key_def)

lemma same_key_height: "same_key (spx_set_tree_height a h) b \<longleftrightarrow> same_key a b"
  by (simp add: same_key_update spx_set_tree_height_def)

lemma same_key_index: "same_key a b \<Longrightarrow> same_key (spx_set_tree_index a i) b"
  by (simp add: same_key_def spx_set_tree_index_def min_def)

lemma node_addr_cong:
  assumes "same_key a b"
  shows "spx_set_tree_index (a[17 := v]) i = spx_set_tree_index (b[17 := v]) i"
proof -
  have l: "length a = 32" "length b = 32" "take 17 a = take 17 b" "drop 22 a = drop 22 b" using assms by (auto simp: same_key_def)
  have "take 18 (x[17 := v]) = take 17 x @ [v]" if "length x = 32" for x
  proof -
    have "take (Suc 17) (x[17 := v]) = take 17 (x[17 := v]) @ [x[17 := v] ! 17]" using that by (intro take_Suc_conv_app_nth) simp
    then show ?thesis using that by simp
  qed
  then show ?thesis using l by (simp add: spx_set_tree_index_def)
qed

lemma copy_keypair_cong: "same_key a b \<Longrightarrow> spx_copy_keypair_addr out a = spx_copy_keypair_addr out b"
  using same_key_nth [of a b 12] same_key_nth [of a b 13] same_key_tree [of a b]
  by (simp add: spx_copy_keypair_addr_def same_tree_def)

lemma fors_sk_gen_cong: "same_key a b \<Longrightarrow> spx_fors_sk_gen sha i sk_seed p a = spx_fors_sk_gen sha i sk_seed p b"
  using copy_keypair_cong [of a b] set_type_cong [OF same_key_tree, of a b] by (simp add: spx_fors_sk_gen_def Let_def)

section \<open>The trees\<close>

fun fors_node :: "hash \<Rightarrow> u8 list \<Rightarrow> u8 list \<Rightarrow> addr \<Rightarrow> nat \<Rightarrow> nat \<Rightarrow> u8 list" where
  "fors_node sha sk_seed p a i 0 = spx_thash_f sha (spx_fors_sk_gen sha (word_of_nat i) sk_seed p a) p
     (spx_set_tree_index (spx_set_tree_height a 0) (word_of_nat i))"
| "fors_node sha sk_seed p a i (Suc z) =
     spx_thash_h sha (fors_node sha sk_seed p a (2 * i) z @ fors_node sha sk_seed p a (2 * i + 1) z) p
       (spx_set_tree_index (spx_set_tree_height a (word_of_nat (Suc z))) (word_of_nat i))"

interpretation fors: hash_tree sha p a "fors_node sha sk_seed p a" for sha p a sk_seed
  by unfold_locales simp

lemma length_fors_node: "hash_ok sha \<Longrightarrow> length (fors_node sha sk_seed p a i z) = SPX_N"
  by (cases z) (simp_all add: length_thash)

lemma fors_treehash_eq:
  "z \<le> SPX_FORS_HEIGHT \<Longrightarrow> i < SPX_FORS_TREES * 2 ^ (SPX_FORS_HEIGHT - z) \<Longrightarrow> same_key a b \<Longrightarrow>
   \<exists>a'. spx_fors_treehash sha sk_seed (word_of_nat i) z p a = Some (fors_node sha sk_seed p b i z, a') \<and> same_key a' b"
proof (induction z arbitrary: i a)
  case 0
  let ?a = "spx_set_tree_index (spx_set_tree_height a 0) (word_of_nat i)"
  have "?a = spx_set_tree_index (spx_set_tree_height b 0) (word_of_nat i)"
    using node_addr_cong [OF 0(3)] by (simp add: spx_set_tree_height_def)
  moreover have k: "same_key ?a b" using 0(3) by (simp add: same_key_index same_key_height)
  moreover have "unat (word_of_nat i :: u32) = i" using 0(2) by (intro unat_small_u32) simp
  ultimately show ?case using 0 fors_sk_gen_cong [OF k] by (simp add: Let_def)
next
  case (Suc z)
  let ?i = "word_of_nat i :: u32"
  have "(2 :: nat) ^ (SPX_FORS_HEIGHT - Suc z) \<le> 2 ^ 12" by (intro power_increasing) simp_all
  then have "i < 2 ^ 32" using Suc.prems(2) by simp
  then have u: "unat ?i = i" by (rule unat_small_u32)
  have p2: "(2 :: nat) ^ (SPX_FORS_HEIGHT - z) = 2 * 2 ^ (SPX_FORS_HEIGHT - Suc z)"
    using Suc.prems(1) by (simp add: Suc_diff_Suc [symmetric] del: Suc_diff_Suc)
  have w: "2 * ?i = word_of_nat (2 * i)" "2 * ?i + 1 = word_of_nat (2 * i + 1)" by simp_all
  have lt: "2 * i < SPX_FORS_TREES * 2 ^ (SPX_FORS_HEIGHT - z)" "2 * i + 1 < SPX_FORS_TREES * 2 ^ (SPX_FORS_HEIGHT - z)"
    using p2 Suc.prems(2) by linarith+
  have z: "z \<le> SPX_FORS_HEIGHT" using Suc.prems(1) by simp
  obtain a1 where a1: "spx_fors_treehash sha sk_seed (2 * ?i) z p a = Some (fors_node sha sk_seed p b (2 * i) z, a1)" "same_key a1 b"
    using Suc.IH [OF z lt(1) Suc.prems(3)] unfolding w(1) by blast
  obtain a2 where a2: "spx_fors_treehash sha sk_seed (2 * ?i + 1) z p a1 = Some (fors_node sha sk_seed p b (2 * i + 1) z, a2)" "same_key a2 b"
    using Suc.IH [OF z lt(2) a1(2)] unfolding w(2) by blast
  have "spx_set_tree_index (spx_set_tree_height a2 h) ?i = spx_set_tree_index (spx_set_tree_height b h) ?i" for h
    using node_addr_cong [OF a2(2)] by (simp add: spx_set_tree_height_def)
  moreover have "same_key (spx_set_tree_index (spx_set_tree_height b h) ?i) b" for h
    using same_key_length [OF a2(2)] by (intro same_key_index) (simp add: spx_set_tree_height_def same_key_def)
  ultimately show ?case using a1(1) a2 u Suc.prems(1,2) by (simp add: Let_def)
qed

section \<open>Signing\<close>

abbreviation (input) fdigit :: "u8 list \<Rightarrow> nat \<Rightarrow> u32" where
  "fdigit msg i \<equiv> map (\<lambda>k. word_of_nat (digit 12 msg k)) [0..<SPX_FORS_TREES] ! i"

definition fors_index :: "u8 list \<Rightarrow> nat \<Rightarrow> nat" where
  "fors_index msg i = i * 2 ^ SPX_FORS_HEIGHT + digit 12 msg i"

lemma fors_digits: "length msg = SPX_FORS_MSG_BYTES \<Longrightarrow>
  spx_base_b SPX_FORS_TREES msg SPX_FORS_HEIGHT = Some (map (\<lambda>k. word_of_nat (digit 12 msg k)) [0..<SPX_FORS_TREES])"
  by (rule spx_base_b_digits) simp_all

lemma unat_fdigit: "i < SPX_FORS_TREES \<Longrightarrow> unat (fdigit msg i) = digit 12 msg i"
  using digit_less [of 12 msg i] by (simp add: unat_small_u32)

lemma fors_index_div: "j \<le> SPX_FORS_HEIGHT \<Longrightarrow> fors_index msg i div 2 ^ j = i * 2 ^ (SPX_FORS_HEIGHT - j) + digit 12 msg i div 2 ^ j"
proof -
  assume "j \<le> SPX_FORS_HEIGHT"
  then have "(2 :: nat) ^ SPX_FORS_HEIGHT = 2 ^ (SPX_FORS_HEIGHT - j) * 2 ^ j" by (simp only: power_add [symmetric] le_add_diff_inverse2)
  then have "fors_index msg i = digit 12 msg i + i * 2 ^ (SPX_FORS_HEIGHT - j) * 2 ^ j" by (simp add: fors_index_def)
  then show ?thesis by simp
qed

lemma fors_index_sibling:
  assumes "j < SPX_FORS_HEIGHT"
  shows "sibling (fors_index msg i div 2 ^ j) = i * 2 ^ (SPX_FORS_HEIGHT - j) + sibling (digit 12 msg i div 2 ^ j)"
    "even (fors_index msg i div 2 ^ j) \<longleftrightarrow> even (digit 12 msg i div 2 ^ j)"
proof -
  have e: "even (i * 2 ^ (SPX_FORS_HEIGHT - j))" using assms by simp
  have d: "fors_index msg i div 2 ^ j = i * 2 ^ (SPX_FORS_HEIGHT - j) + digit 12 msg i div 2 ^ j" using assms by (intro fors_index_div) simp
  show ev: "even (fors_index msg i div 2 ^ j) \<longleftrightarrow> even (digit 12 msg i div 2 ^ j)" unfolding d using e by simp
  show "sibling (fors_index msg i div 2 ^ j) = i * 2 ^ (SPX_FORS_HEIGHT - j) + sibling (digit 12 msg i div 2 ^ j)"
    using ev unfolding sibling_def d by (auto simp: Suc_leI odd_pos)
qed

lemma fors_index_less: "i < SPX_FORS_TREES \<Longrightarrow> fors_index msg i < SPX_FORS_TREES * 2 ^ SPX_FORS_HEIGHT"
  using digit_less [of 12 msg i] by (simp add: fors_index_def)

lemma fdigit_div: "i < SPX_FORS_TREES \<Longrightarrow> j < SPX_FORS_HEIGHT \<Longrightarrow> unat (fdigit msg i div 2 ^ j) = digit 12 msg i div 2 ^ j"
proof -
  assume a: "i < SPX_FORS_TREES" "j < SPX_FORS_HEIGHT"
  have "(2 :: nat) ^ j < 2 ^ 32" using a(2) by (intro power_strict_increasing) simp_all
  then have "unat (2 ^ j :: u32) = 2 ^ j" using unat_small_u32 [of "2 ^ j"] by simp
  then show ?thesis using unat_fdigit [OF a(1), of msg] by (simp add: unat_div_distrib)
qed

definition fors_piece :: "hash \<Rightarrow> u8 list \<Rightarrow> u8 list \<Rightarrow> addr \<Rightarrow> u8 list \<Rightarrow> nat \<Rightarrow> u8 list" where
  "fors_piece sha sk_seed p b msg i = spx_fors_sk_gen sha (word_of_nat (fors_index msg i)) sk_seed p b @
     auth_path (fors_node sha sk_seed p b) (fors_index msg i) SPX_FORS_HEIGHT"

lemma fors_auth_loop:
  assumes i: "i < SPX_FORS_TREES" and ab: "same_key a b"
  shows "h \<le> SPX_FORS_HEIGHT \<Longrightarrow> \<exists>a'. for_opt h (\<lambda>j (fors_sig, a).
      Option.bind (spx_fors_treehash sha sk_seed (word_of_nat (i * 2 ^ (SPX_FORS_HEIGHT - j) + unat (fdigit msg i div 2 ^ j XOR 1))) j p a)
        (\<lambda>(node, a). Some (fors_sig @ node, a))) (x, a) =
    Some (x @ auth_path (fors_node sha sk_seed p b) (fors_index msg i) h, a') \<and> same_key a' b"
proof (induction h)
  case 0
  then show ?case using ab by (simp add: auth_path_def)
next
  case (Suc h)
  then obtain a1 where IH: "for_opt h (\<lambda>j (fors_sig, a).
      Option.bind (spx_fors_treehash sha sk_seed (word_of_nat (i * 2 ^ (SPX_FORS_HEIGHT - j) + unat (fdigit msg i div 2 ^ j XOR 1))) j p a)
        (\<lambda>(node, a). Some (fors_sig @ node, a))) (x, a) =
    Some (x @ auth_path (fors_node sha sk_seed p b) (fors_index msg i) h, a1)" "same_key a1 b" by auto
  let ?i = "sibling (fors_index msg i div 2 ^ h)"
  have "?i < SPX_FORS_TREES * 2 ^ (SPX_FORS_HEIGHT - h)"
    using sibling_index_less [OF fors_index_less [OF i, of msg], of h] Suc.prems by simp
  moreover have "i * 2 ^ (SPX_FORS_HEIGHT - h) + unat (fdigit msg i div 2 ^ h XOR 1) = ?i"
    using fors_index_sibling(1) [of h msg i] unat_xor_1 [of "fdigit msg i div 2 ^ h"] fdigit_div [OF i, of h msg] Suc.prems by simp
  ultimately obtain a2 where "spx_fors_treehash sha sk_seed (word_of_nat (i * 2 ^ (SPX_FORS_HEIGHT - h) + unat (fdigit msg i div 2 ^ h XOR 1))) h p a1 =
      Some (fors_node sha sk_seed p b ?i h, a2)" "same_key a2 b"
    using fors_treehash_eq [of h ?i a1 b sha sk_seed p] IH(2) Suc.prems by auto
  then show ?case unfolding for_opt.simps IH(1) by (simp add: auth_path_def)
qed

definition fors_sign_step ::
  "hash \<Rightarrow> u8 list \<Rightarrow> u8 list \<Rightarrow> u32 list \<Rightarrow> nat \<Rightarrow> u8 list \<times> addr \<Rightarrow> (u8 list \<times> addr) option" where
  "fors_sign_step sha sk_seed pk_seed indices = (\<lambda>i (fors_sig, a).
     do { let a = spx_set_tree_height a 0;
          let sk = spx_fors_sk_gen sha (word_of_nat (i * 2 ^ SPX_FORS_HEIGHT + unat (indices ! i))) sk_seed pk_seed a;
          for_opt SPX_FORS_HEIGHT (\<lambda>j (fors_sig, a).
            do { let s = unat ((indices ! i div 2 ^ j) XOR 1);
                 (node, a) \<leftarrow> spx_fors_treehash sha sk_seed (word_of_nat (i * 2 ^ (SPX_FORS_HEIGHT - j) + s)) j pk_seed a;
                 Some (fors_sig @ node, a) }) (fors_sig @ sk, a) })"

lemma fors_sign_loop:
  fixes msg :: "u8 list"
  assumes ab: "same_key a b"
  defines "ds \<equiv> map (\<lambda>k. word_of_nat (digit 12 msg k)) [0..<SPX_FORS_TREES]"
  shows "n \<le> SPX_FORS_TREES \<Longrightarrow> \<exists>a'. for_opt n (fors_sign_step sha sk_seed p ds) ([], a) =
    Some (concat (map (fors_piece sha sk_seed p b msg) [0..<n]), a') \<and> same_key a' b"
proof (induction n)
  case 0
  then show ?case using ab by simp
next
  case (Suc n)
  then obtain a1 where IH: "for_opt n (fors_sign_step sha sk_seed p ds) ([], a) =
      Some (concat (map (fors_piece sha sk_seed p b msg) [0..<n]), a1)" and a1: "same_key a1 b" by auto
  have n: "n < SPX_FORS_TREES" using Suc.prems by simp
  let ?a = "spx_set_tree_height a1 0"
  have k: "same_key ?a b" using a1 by (simp add: same_key_height)
  have sk: "spx_fors_sk_gen sha (word_of_nat (n * 2 ^ SPX_FORS_HEIGHT + unat (ds ! n))) sk_seed p ?a =
      spx_fors_sk_gen sha (word_of_nat (fors_index msg n)) sk_seed p b"
    unfolding ds_def unat_fdigit [OF n] fors_index_def using fors_sk_gen_cong [OF k] by blast
  show ?case
    using fors_auth_loop [OF n k order_refl, where msg = msg and sha = sha and sk_seed = sk_seed and p = p
        and x = "concat (map (fors_piece sha sk_seed p b msg) [0..<n]) @ spx_fors_sk_gen sha (word_of_nat (fors_index msg n)) sk_seed p b"]
    unfolding for_opt.simps IH bind.simps unfolding fors_sign_step_def prod.case Let_def sk
    by (simp add: fors_piece_def [of sha sk_seed p b msg n] ds_def)
qed

lemma fors_sign_eq:
  assumes "same_key a b" "length msg = SPX_FORS_MSG_BYTES"
  shows "\<exists>a'. spx_fors_sign sha msg sk_seed p a =
    Some (concat (map (fors_piece sha sk_seed p b msg) [0..<SPX_FORS_TREES]), a') \<and> same_key a' b"
  using fors_sign_loop [OF assms(1) order_refl, of sha sk_seed p msg]
  unfolding spx_fors_sign_def fors_digits [OF assms(2)] bind.simps fors_sign_step_def .

section \<open>The public key from a signature\<close>

definition fors_key :: "hash \<Rightarrow> u8 list \<Rightarrow> u8 list \<Rightarrow> addr \<Rightarrow> u8 list" where
  "fors_key sha sk_seed p b =
     spx_thash_tk sha (concat (map (\<lambda>i. fors_node sha sk_seed p b i SPX_FORS_HEIGHT) [0..<SPX_FORS_TREES])) p
       (spx_copy_keypair_addr (spx_set_type b SPX_ADDR_TYPE_FORSPK) b)"

lemma length_fors_piece: "hash_ok sha \<Longrightarrow> length (fors_piece sha sk_seed p b msg i) = SPX_N * (SPX_FORS_HEIGHT + 1)"
  by (simp add: fors_piece_def length_auth_path length_fors_node spx_fors_sk_gen_def Let_def length_thash)

lemma concat_drop: "\<forall>i<n. length (f i) = m \<Longrightarrow> i < n \<Longrightarrow> \<exists>r. drop (i * m) (concat (map f [0..<n])) = f i @ r"
proof -
  assume a: "\<forall>i<n. length (f i) = m" "i < n"
  then have "take m (drop (i * m) (concat (map f [0..<n]))) = f i" using concat_chunk [OF a, of "[]"] by simp
  then show ?thesis by (metis append_take_drop_id)
qed

definition fors_verify_step ::
  "hash \<Rightarrow> u8 list \<Rightarrow> u8 list \<Rightarrow> u32 list \<Rightarrow> nat \<Rightarrow> u8 list \<times> addr \<Rightarrow> u8 list \<times> addr" where
  "fors_verify_step sha pk_seed fors_sig indices = (\<lambda>i (roots, a).
     let sk = drop (i * SPX_N * (SPX_FORS_HEIGHT + 1)) fors_sig;
         auth = drop (i * SPX_N * (SPX_FORS_HEIGHT + 1) + SPX_N) fors_sig;
         a = spx_set_tree_height a 0;
         a = spx_set_tree_index a (word_of_nat (i * 2 ^ SPX_FORS_HEIGHT + unat (indices ! i)));
         node = spx_thash_f sha sk pk_seed a;
         (node, a) = for_loop SPX_FORS_HEIGHT (climb_step sha pk_seed auth (\<lambda>j. (indices ! i div 2 ^ j) mod 2 = 0)) (node, a) in
     (roots @ node, a))"

lemma fors_climb:
  assumes h: "hash_ok sha" and b: "same_key a b" and i: "i < SPX_FORS_TREES"
    and sig: "drop (i * SPX_N * (SPX_FORS_HEIGHT + 1)) fors_sig = fors_piece sha sk_seed p b msg i @ r"
  defines "ds \<equiv> map (\<lambda>k. word_of_nat (digit 12 msg k)) [0..<SPX_FORS_TREES]"
  shows "\<exists>a'. fors_verify_step sha p fors_sig ds i (roots, a) = (roots @ fors_node sha sk_seed p b i SPX_FORS_HEIGHT, a') \<and> same_key a' b"
proof -
  let ?n = "fors_index msg i" and ?even = "\<lambda>j. (ds ! i div 2 ^ j) mod 2 = 0"
  let ?sk = "spx_fors_sk_gen sha (word_of_nat ?n) sk_seed p b"
  let ?path = "auth_path (fors_node sha sk_seed p b) ?n SPX_FORS_HEIGHT"
  have lsk: "length ?sk = SPX_N" by (simp add: spx_fors_sk_gen_def Let_def length_thash [OF h])
  have auth: "drop (i * SPX_N * (SPX_FORS_HEIGHT + 1) + SPX_N) fors_sig = ?path @ r"
    using sig lsk by (simp add: fors_piece_def add.commute flip: drop_drop)
  have leaf: "spx_thash_f sha (fors_piece sha sk_seed p b msg i @ r) p
      (spx_set_tree_index (b[17 := 0]) (word_of_nat ?n)) = fors_node sha sk_seed p b ?n 0"
    using lsk by (simp add: fors_piece_def spx_thash_f_def spx_thash_def spx_set_tree_height_def)
  have ad: "spx_set_tree_index (spx_set_tree_height a 0) (word_of_nat (i * 2 ^ SPX_FORS_HEIGHT + unat (ds ! i))) =
      spx_set_tree_index (b[17 := 0]) (word_of_nat ?n)"
    using node_addr_cong [OF b] unfolding ds_def unat_fdigit [OF i] by (simp add: fors_index_def spx_set_tree_height_def)
  have ev: "\<forall>k<SPX_FORS_HEIGHT. ?even k \<longleftrightarrow> even (?n div 2 ^ k)"
  proof (intro allI impI)
    fix k assume k: "k < SPX_FORS_HEIGHT"
    have "unat (ds ! i div 2 ^ k mod 2) = digit 12 msg i div 2 ^ k mod 2"
      unfolding ds_def unat_mod_distrib fdigit_div [OF i k] by simp
    then show "?even k \<longleftrightarrow> even (?n div 2 ^ k)"
      using fors_index_sibling(2) [OF k] by (metis even_iff_mod_2_eq_zero unat_eq_0)
  qed
  have lb: "length b = 32" and n: "?n < 2 ^ 32" using same_key_length [OF b] fors_index_less [OF i, of msg] by simp_all
  obtain v where c: "for_loop SPX_FORS_HEIGHT (climb_step sha p (?path @ r) ?even)
      (fors_node sha sk_seed p b ?n 0, spx_set_tree_index (b[17 := 0]) (word_of_nat ?n)) =
    (fors_node sha sk_seed p b (?n div 2 ^ SPX_FORS_HEIGHT) SPX_FORS_HEIGHT,
     spx_set_tree_index (b[17 := v]) (word_of_nat (?n div 2 ^ SPX_FORS_HEIGHT)))"
    using fors.climb [OF lb n ev, of "?path @ r" sha sk_seed p 0] auth_path_chunk [OF length_fors_node [OF h]] by auto
  have "?n div 2 ^ SPX_FORS_HEIGHT = i" using fors_index_div [of SPX_FORS_HEIGHT msg i] digit_less [of 12 msg i] by simp
  moreover have "same_key (spx_set_tree_index (b[17 := v]) w) b" for w using lb by (intro same_key_index) (simp add: same_key_def)
  ultimately show ?thesis
    unfolding fors_verify_step_def prod.case Let_def sig auth ad leaf c by simp
qed

lemma fors_pk_from_sig_eq:
  fixes sk_seed p :: "u8 list"
  assumes h: "hash_ok sha" and b: "same_key a b" and msg: "length msg = SPX_FORS_MSG_BYTES"
  defines "sig \<equiv> concat (map (fors_piece sha sk_seed p b msg) [0..<SPX_FORS_TREES])"
  shows "\<exists>a'. spx_fors_pk_from_sig sha sig msg p a = Some (fors_key sha sk_seed p b, a')"
proof -
  let ?ds = "map (\<lambda>k. word_of_nat (digit 12 msg k)) [0..<SPX_FORS_TREES] :: u32 list"
  have len: "length sig = SPX_FORS_BYTES"
    unfolding sig_def by (subst length_concat_chunks [of _ _ "SPX_N * (SPX_FORS_HEIGHT + 1)"]) (simp_all add: length_fors_piece [OF h])
  have "\<exists>a'. for_loop n (fors_verify_step sha p sig ?ds) ([], a) =
      (concat (map (\<lambda>i. fors_node sha sk_seed p b i SPX_FORS_HEIGHT) [0..<n]), a') \<and> same_key a' b" if "n \<le> SPX_FORS_TREES" for n
    using that
  proof (induction n)
    case 0
    then show ?case using b by simp
  next
    case (Suc n)
    then obtain a1 where IH: "for_loop n (fors_verify_step sha p sig ?ds) ([], a) =
      (concat (map (\<lambda>i. fors_node sha sk_seed p b i SPX_FORS_HEIGHT) [0..<n]), a1)" "same_key a1 b" by auto
    have n: "n < SPX_FORS_TREES" using Suc.prems by simp
    obtain r where "drop (n * (SPX_N * (SPX_FORS_HEIGHT + 1))) sig = fors_piece sha sk_seed p b msg n @ r"
      using concat_drop [OF _ n, of "fors_piece sha sk_seed p b msg"] length_fors_piece [OF h] unfolding sig_def by blast
    then have "drop (n * SPX_N * (SPX_FORS_HEIGHT + 1)) sig = fors_piece sha sk_seed p b msg n @ r" by (simp only: mult.assoc)
    from fors_climb [OF h IH(2) n this] show ?case unfolding for_loop.simps IH(1) by auto
  qed
  then obtain a1 where l: "for_loop SPX_FORS_TREES (fors_verify_step sha p sig ?ds) ([], a) =
      (concat (map (\<lambda>i. fors_node sha sk_seed p b i SPX_FORS_HEIGHT) [0..<SPX_FORS_TREES]), a1)" "same_key a1 b" by blast
  then show ?thesis
    using set_type_cong [OF same_key_tree [OF l(2)]] copy_keypair_cong [OF l(2)]
    unfolding fors_pk_from_sig_unfold fors_climb_list_def fors_digits [OF msg] bind.simps fors_verify_step_def climb_step_def
    using len by (simp add: Let_def fors_key_def)
qed

end
