(* ===== verification/SPX_Hypertree.thy ===== *)
theory SPX_Hypertree
  imports SPX_Fors
begin

text \<open>
  The hypertree: the signature of layer \<open>n\<close> signs the root of the tree of layer \<open>n - 1\<close>, and the
  verifier recomputes the same roots up to the one in the public key.
\<close>

section \<open>Trees and layers in an address\<close>

definition ht_addr :: "nat \<Rightarrow> u64 \<Rightarrow> addr" where
  "ht_addr n t = spx_set_tree_addr (spx_set_layer_addr (replicate 32 0) (word_of_nat n)) t"

lemma set_tree_addr_eq: "length a = 32 \<Longrightarrow> spx_set_tree_addr a t = take 1 a @ nat_to_be 8 (unat t) @ drop 9 a"
  by (simp add: spx_set_tree_addr_def uint64_to_len_bytes_eq)

lemma length_set_tree_addr [simp]: "length a = 32 \<Longrightarrow> length (spx_set_tree_addr a t) = 32"
  by (simp add: set_tree_addr_eq)

lemma length_set_layer_addr [simp]: "length (spx_set_layer_addr a n) = length a"
  by (simp add: spx_set_layer_addr_def)

lemma length_ht_addr [simp]: "length (ht_addr n t) = 32"
  by (simp add: ht_addr_def)

lemma take_1_set_layer: "length a = 32 \<Longrightarrow> take 1 (spx_set_layer_addr a n) = [ucast n]"
  by (cases a) (simp_all add: spx_set_layer_addr_def)

text \<open>Setting the layer and the tree leaves nothing of an earlier tree of the hypertree.\<close>

lemma same_tree_ht_addr:
  assumes "same_tree a (ht_addr m s)"
  shows "same_tree (spx_set_tree_addr (spx_set_layer_addr a (word_of_nat n)) t) (ht_addr n t)"
proof -
  have a: "length a = 32" "drop 22 a = drop 22 (ht_addr m s)" using assms by (auto simp: same_tree_def)
  have h: "drop 22 (ht_addr k r) = replicate 10 0" for k r
    by (simp add: ht_addr_def set_tree_addr_eq) (simp add: spx_set_layer_addr_def)
  have z: "length (replicate 32 0 :: u8 list) = 32" by simp
  have "take 9 (spx_set_tree_addr (spx_set_layer_addr a (word_of_nat n)) t) = ucast (word_of_nat n :: u32) # nat_to_be 8 (unat t)"
    using a(1) take_1_set_layer [OF a(1)] by (simp add: set_tree_addr_eq)
  moreover have "take 9 (ht_addr n t) = ucast (word_of_nat n :: u32) # nat_to_be 8 (unat t)"
    using take_1_set_layer [OF z] by (simp add: ht_addr_def set_tree_addr_eq)
  moreover have "drop 22 (spx_set_tree_addr (spx_set_layer_addr a (word_of_nat n)) t) = drop 22 a"
    using a(1) by (simp add: set_tree_addr_eq) (simp add: spx_set_layer_addr_def)
  ultimately show ?thesis using a h by (simp add: same_tree_def)
qed

lemma same_tree_layer_0: "same_tree (spx_set_tree_addr (replicate 32 0) t) (ht_addr 0 t)"
proof -
  have "spx_set_layer_addr (replicate 32 0) (word_of_nat 0) = replicate 32 0"
    by (simp add: spx_set_layer_addr_def list_update_same_conv)
  then show ?thesis by (simp add: ht_addr_def)
qed

lemma nat_to_be_0: "nat_to_be n 0 = replicate n 0"
  by (induction n) (simp_all add: nat_to_be_Suc replicate_append_same, simp add: nat_to_be_def)

lemma same_tree_top: "same_tree (spx_set_layer_addr (replicate 32 0) (word_of_nat n)) (ht_addr n 0)"
proof -
  let ?a = "spx_set_layer_addr (replicate 32 0) (word_of_nat n)"
  have a: "?a = ucast (word_of_nat n :: u32) # replicate 31 0"
    using replicate_Suc [of 31 "0 :: u8"] by (simp add: spx_set_layer_addr_def)
  have "ht_addr n 0 = take 1 ?a @ nat_to_be 8 0 @ drop 9 ?a" by (simp add: ht_addr_def set_tree_addr_eq)
  also have "\<dots> = ?a" unfolding a nat_to_be_0 by (simp flip: replicate_add)
  finally show ?thesis by simp
qed

section \<open>The layers\<close>

definition ht_tree :: "u64 \<Rightarrow> nat \<Rightarrow> u64" where
  "ht_tree idx_tree n = drop_bit (SPX_TREE_HEIGHT * n) idx_tree"

primrec ht_leaf :: "u64 \<Rightarrow> u32 \<Rightarrow> nat \<Rightarrow> u32" where
  "ht_leaf idx_tree idx_leaf 0 = idx_leaf"
| "ht_leaf idx_tree idx_leaf (Suc n) = ucast (ht_tree idx_tree n mod 2 ^ SPX_TREE_HEIGHT)"

definition ht_root :: "hash \<Rightarrow> u8 list \<Rightarrow> u8 list \<Rightarrow> u64 \<Rightarrow> nat \<Rightarrow> u8 list" where
  "ht_root sha sk_seed p idx_tree n = tree_node sha sk_seed p (ht_addr n (ht_tree idx_tree n)) 0 SPX_TREE_HEIGHT"

primrec ht_msg :: "hash \<Rightarrow> u8 list \<Rightarrow> u8 list \<Rightarrow> u8 list \<Rightarrow> u64 \<Rightarrow> nat \<Rightarrow> u8 list" where
  "ht_msg sha sk_seed p message idx_tree 0 = message"
| "ht_msg sha sk_seed p message idx_tree (Suc n) = ht_root sha sk_seed p idx_tree n"

definition ht_part :: "hash \<Rightarrow> u8 list \<Rightarrow> u8 list \<Rightarrow> u8 list \<Rightarrow> u64 \<Rightarrow> u32 \<Rightarrow> nat \<Rightarrow> u8 list" where
  "ht_part sha sk_seed p message idx_tree idx_leaf n =
     (let b = ht_addr n (ht_tree idx_tree n);
          i = unat (ht_leaf idx_tree idx_leaf n);
          l = leaf_addr b i in
      chain_parts sha p sk_seed (wdigit (ht_msg sha sk_seed p message idx_tree n)) (prf_addr l) l SPX_WOTS_LEN @
      auth_path (tree_node sha sk_seed p b) i SPX_TREE_HEIGHT)"

lemma ht_tree_Suc: "drop_bit SPX_TREE_HEIGHT (ht_tree idx_tree n) = ht_tree idx_tree (Suc n)"
  by (simp add: ht_tree_def)

lemma ht_leaf_less: "unat idx_leaf < 2 ^ SPX_TREE_HEIGHT \<Longrightarrow> unat (ht_leaf idx_tree idx_leaf n) < 2 ^ SPX_TREE_HEIGHT"
proof (cases n)
  case (Suc m)
  let ?w = "ht_tree idx_tree m mod 512"
  have w: "unat ?w < 512" unfolding unat_mod_distrib by simp
  then have "unat (ucast ?w :: u32) = unat ?w" by (simp add: unsigned_ucast_eq take_bit_nat_eq_self)
  then show ?thesis using Suc w by simp
qed simp

lemma length_ht_root: "hash_ok sha \<Longrightarrow> length (ht_root sha sk_seed p idx_tree n) = SPX_N"
  by (simp add: ht_root_def length_tree_node)

lemma length_ht_msg: "hash_ok sha \<Longrightarrow> length message = SPX_N \<Longrightarrow> length (ht_msg sha sk_seed p message idx_tree n) = SPX_N"
  by (cases n) (simp_all add: length_ht_root)

lemma length_ht_part: "hash_ok sha \<Longrightarrow> length (ht_part sha sk_seed p message idx_tree idx_leaf n) = SPX_XMSS_BYTES"
  by (simp add: ht_part_def Let_def length_chain_parts length_auth_path length_tree_node)

lemma xmss_sign_layer:
  assumes "hash_ok sha" "length message = SPX_N" "unat idx_leaf < 2 ^ SPX_TREE_HEIGHT"
    "same_tree a (ht_addr n (ht_tree idx_tree n))"
  obtains a' where "spx_xmss_sign sha (ht_msg sha sk_seed p message idx_tree n) (ht_leaf idx_tree idx_leaf n) sk_seed p a =
      Some (ht_part sha sk_seed p message idx_tree idx_leaf n, a')"
    "same_tree a' (ht_addr n (ht_tree idx_tree n))"
  using xmss_sign_eq [OF length_ht_msg [OF assms(1,2)] ht_leaf_less [OF assms(3)] assms(4), of sha sk_seed p]
  unfolding ht_part_def Let_def by blast

lemma xmss_root_layer:
  assumes "hash_ok sha" "length message = SPX_N" "unat idx_leaf < 2 ^ SPX_TREE_HEIGHT"
    "same_tree a (ht_addr n (ht_tree idx_tree n))"
  obtains a' where "spx_xmss_pk_from_sig sha (ht_part sha sk_seed p message idx_tree idx_leaf n)
      (ht_leaf idx_tree idx_leaf n) (ht_msg sha sk_seed p message idx_tree n) p a = Some (ht_root sha sk_seed p idx_tree n, a')"
    "same_tree a' (ht_addr n (ht_tree idx_tree n))"
  using xmss_pk_from_sig_eq [OF assms(1) length_ht_msg [OF assms(1,2)] ht_leaf_less [OF assms(3)] assms(4), of p sk_seed]
  unfolding ht_part_def Let_def ht_root_def by blast

section \<open>Signing\<close>

definition ht_sign_step ::
  "hash \<Rightarrow> u8 list \<Rightarrow> u8 list \<Rightarrow> nat \<Rightarrow> u8 list \<times> u8 list \<times> u64 \<times> addr \<Rightarrow> (u8 list \<times> u8 list \<times> u64 \<times> addr) option" where
  "ht_sign_step sha sk_seed pk_seed = (\<lambda>j1 (sig, root, idx_tree, a).
     do { let j = Suc j1;
          let idx_leaf = ucast (idx_tree mod 2 ^ SPX_TREE_HEIGHT);
          let idx_tree = drop_bit SPX_TREE_HEIGHT idx_tree;
          let a = spx_set_layer_addr a (word_of_nat j);
          let a = spx_set_tree_addr a idx_tree;
          (sig_tmp, a) \<leftarrow> spx_xmss_sign sha root idx_leaf sk_seed pk_seed a;
          (root, a) \<leftarrow> (if j < SPX_D - 1 then spx_xmss_pk_from_sig sha sig_tmp idx_leaf root pk_seed a
                        else Some (root, a));
          Some (sig @ sig_tmp, root, idx_tree, a) })"

lemma ht_sign_loop:
  fixes sk_seed p message :: "u8 list" and idx_tree :: u64 and idx_leaf :: u32
  assumes h: "hash_ok sha" and m: "length message = SPX_N" and l: "unat idx_leaf < 2 ^ SPX_TREE_HEIGHT"
    and a: "same_tree a (ht_addr 0 (ht_tree idx_tree 0))"
  defines "part \<equiv> ht_part sha sk_seed p message idx_tree idx_leaf" and "mm \<equiv> ht_msg sha sk_seed p message idx_tree"
  shows "n \<le> SPX_D - 1 \<Longrightarrow> \<exists>a'. for_opt n (ht_sign_step sha sk_seed p) (part 0, mm 1, idx_tree, a) =
      Some (concat (map part [0..<Suc n]), mm (min (Suc n) 6), ht_tree idx_tree n, a') \<and>
    same_tree a' (ht_addr n (ht_tree idx_tree n))"
proof (induction n)
  case 0
  show ?case using a by (simp add: ht_tree_def)
next
  case (Suc n)
  then obtain a1 where IH: "for_opt n (ht_sign_step sha sk_seed p) (part 0, mm 1, idx_tree, a) =
      Some (concat (map part [0..<Suc n]), mm (min (Suc n) 6), ht_tree idx_tree n, a1)"
    and a1: "same_tree a1 (ht_addr n (ht_tree idx_tree n))" by auto
  let ?t = "ht_tree idx_tree (Suc n)"
  let ?a = "spx_set_tree_addr (spx_set_layer_addr a1 (word_of_nat (Suc n))) ?t"
  have mn: "min (Suc n) 6 = Suc n" using Suc.prems by simp
  have leaf: "ucast (ht_tree idx_tree n mod 2 ^ SPX_TREE_HEIGHT) = ht_leaf idx_tree idx_leaf (Suc n)" by simp
  obtain a2 where s: "spx_xmss_sign sha (mm (Suc n)) (ht_leaf idx_tree idx_leaf (Suc n)) sk_seed p ?a = Some (part (Suc n), a2)"
    and a2: "same_tree a2 (ht_addr (Suc n) ?t)"
    unfolding part_def mm_def using xmss_sign_layer [OF h m l same_tree_ht_addr [OF a1]] by metis
  obtain a3 where r: "(if Suc n < SPX_D - 1 then spx_xmss_pk_from_sig sha (part (Suc n)) (ht_leaf idx_tree idx_leaf (Suc n)) (mm (Suc n)) p a2
      else Some (mm (Suc n), a2)) = Some (mm (min (Suc (Suc n)) 6), a3)"
    and a3: "same_tree a3 (ht_addr (Suc n) ?t)"
  proof (cases "Suc n < SPX_D - 1")
    case True
    obtain a3 where "spx_xmss_pk_from_sig sha (part (Suc n)) (ht_leaf idx_tree idx_leaf (Suc n)) (mm (Suc n)) p a2 =
        Some (mm (Suc (Suc n)), a3)" "same_tree a3 (ht_addr (Suc n) ?t)"
      unfolding part_def mm_def using xmss_root_layer [OF h m l a2] by (metis ht_msg.simps(2))
    then show thesis using True that by simp
  next
    case False
    then have "min (Suc (Suc n)) 6 = Suc n" using Suc.prems by simp
    then show thesis using False that a2 by simp
  qed
  have "for_opt (Suc n) (ht_sign_step sha sk_seed p) (part 0, mm 1, idx_tree, a) =
      Some (concat (map part [0..<Suc (Suc n)]), mm (min (Suc (Suc n)) 6), ?t, a3)"
    unfolding for_opt.simps IH bind.simps
    unfolding ht_sign_step_def prod.case Let_def ht_tree_Suc leaf mn s bind.simps prod.case r by simp
  then show ?case using a3 by blast
qed

lemma ht_sign_eq:
  assumes h: "hash_ok sha" and m: "length message = SPX_N" and l: "unat idx_leaf < 2 ^ SPX_TREE_HEIGHT"
  shows "spx_ht_sign sha message idx_tree idx_leaf sk_seed p =
    Some (concat (map (ht_part sha sk_seed p message idx_tree idx_leaf) [0..<SPX_D]))"
proof -
  let ?part = "ht_part sha sk_seed p message idx_tree idx_leaf"
  have t0: "same_tree (spx_set_tree_addr (replicate 32 0) idx_tree) (ht_addr 0 (ht_tree idx_tree 0))"
    using same_tree_layer_0 by (simp add: ht_tree_def)
  obtain a1 where s: "spx_xmss_sign sha message idx_leaf sk_seed p (spx_set_tree_addr (replicate 32 0) idx_tree) = Some (?part 0, a1)"
    and a1: "same_tree a1 (ht_addr 0 (ht_tree idx_tree 0))"
    using xmss_sign_layer [OF h m l t0] by (metis ht_msg.simps(1) ht_leaf.simps(1))
  obtain a2 where r: "spx_xmss_pk_from_sig sha (?part 0) idx_leaf message p a1 = Some (ht_msg sha sk_seed p message idx_tree 1, a2)"
    and a2: "same_tree a2 (ht_addr 0 (ht_tree idx_tree 0))"
    using xmss_root_layer [OF h m l a1] by (metis ht_msg.simps One_nat_def ht_leaf.simps(1))
  obtain a3 where lp: "for_opt (SPX_D - 1) (ht_sign_step sha sk_seed p) (?part 0, ht_msg sha sk_seed p message idx_tree 1, idx_tree, a2) =
      Some (concat (map ?part [0..<Suc (SPX_D - 1)]), ht_msg sha sk_seed p message idx_tree (min (Suc (SPX_D - 1)) 6),
        ht_tree idx_tree (SPX_D - 1), a3)"
    using ht_sign_loop [OF h m l a2 order_refl] by blast
  have "Suc (SPX_D - 1) = SPX_D" by simp
  with lp show ?thesis
    unfolding spx_ht_sign_def Let_def s r bind.simps prod.case ht_sign_step_def by simp
qed

section \<open>Verifying\<close>

definition ht_verify_step :: "hash \<Rightarrow> u8 list \<Rightarrow> u8 list \<Rightarrow> nat \<Rightarrow> u8 list \<times> u64 \<times> addr \<Rightarrow> (u8 list \<times> u64 \<times> addr) option" where
  "ht_verify_step sha sig pk_seed = (\<lambda>j1 (node, idx_tree, a).
     do { let j = Suc j1;
          let idx_leaf = ucast (idx_tree mod 2 ^ SPX_TREE_HEIGHT);
          let idx_tree = drop_bit SPX_TREE_HEIGHT idx_tree;
          let a = spx_set_layer_addr a (word_of_nat j);
          let a = spx_set_tree_addr a idx_tree;
          sig_tmp \<leftarrow> read_bytes sig (j * SPX_XMSS_BYTES) SPX_XMSS_BYTES;
          (node, a) \<leftarrow> spx_xmss_pk_from_sig sha sig_tmp idx_leaf node pk_seed a;
          Some (node, idx_tree, a) })"

lemma ht_verify_loop:
  fixes sk_seed p message :: "u8 list" and idx_tree :: u64 and idx_leaf :: u32
  assumes h: "hash_ok sha" and m: "length message = SPX_N" and l: "unat idx_leaf < 2 ^ SPX_TREE_HEIGHT"
    and a: "same_tree a (ht_addr 0 (ht_tree idx_tree 0))"
    and sig: "\<And>j. j < SPX_D \<Longrightarrow> read_bytes sig (j * SPX_XMSS_BYTES) SPX_XMSS_BYTES = Some (ht_part sha sk_seed p message idx_tree idx_leaf j)"
  shows "n \<le> SPX_D - 1 \<Longrightarrow> \<exists>a'. for_opt n (ht_verify_step sha sig p) (ht_root sha sk_seed p idx_tree 0, idx_tree, a) =
      Some (ht_root sha sk_seed p idx_tree n, ht_tree idx_tree n, a') \<and> same_tree a' (ht_addr n (ht_tree idx_tree n))"
proof (induction n)
  case 0
  show ?case using a by (simp add: ht_tree_def)
next
  case (Suc n)
  then obtain a1 where IH: "for_opt n (ht_verify_step sha sig p) (ht_root sha sk_seed p idx_tree 0, idx_tree, a) =
      Some (ht_root sha sk_seed p idx_tree n, ht_tree idx_tree n, a1)"
    and a1: "same_tree a1 (ht_addr n (ht_tree idx_tree n))" by auto
  let ?t = "ht_tree idx_tree (Suc n)"
  let ?a = "spx_set_tree_addr (spx_set_layer_addr a1 (word_of_nat (Suc n))) ?t"
  have leaf: "ucast (ht_tree idx_tree n mod 2 ^ SPX_TREE_HEIGHT) = ht_leaf idx_tree idx_leaf (Suc n)" by simp
  have part: "read_bytes sig (Suc n * SPX_XMSS_BYTES) SPX_XMSS_BYTES = Some (ht_part sha sk_seed p message idx_tree idx_leaf (Suc n))"
    using Suc.prems by (intro sig) simp
  obtain a2 where r: "spx_xmss_pk_from_sig sha (ht_part sha sk_seed p message idx_tree idx_leaf (Suc n))
      (ht_leaf idx_tree idx_leaf (Suc n)) (ht_root sha sk_seed p idx_tree n) p ?a = Some (ht_root sha sk_seed p idx_tree (Suc n), a2)"
    and a2: "same_tree a2 (ht_addr (Suc n) ?t)"
    using xmss_root_layer [OF h m l same_tree_ht_addr [OF a1]] by (metis ht_msg.simps(2))
  have "for_opt (Suc n) (ht_verify_step sha sig p) (ht_root sha sk_seed p idx_tree 0, idx_tree, a) =
      Some (ht_root sha sk_seed p idx_tree (Suc n), ?t, a2)"
    unfolding for_opt.simps IH bind.simps
    unfolding ht_verify_step_def prod.case Let_def ht_tree_Suc leaf part bind.simps r by simp
  then show ?case using a2 by blast
qed

lemma ht_verify_eq:
  assumes h: "hash_ok sha" and m: "length message = SPX_N" and l: "unat idx_leaf < 2 ^ SPX_TREE_HEIGHT" and root: "SPX_N \<le> length pk_root"
  shows "spx_ht_verify sha (concat (map (ht_part sha sk_seed p message idx_tree idx_leaf) [0..<SPX_D])) message idx_tree idx_leaf pk_root p =
    Some (ht_root sha sk_seed p idx_tree (SPX_D - 1) = take SPX_N pk_root)"
proof -
  let ?part = "ht_part sha sk_seed p message idx_tree idx_leaf"
  let ?sig = "concat (map ?part [0..<SPX_D])"
  have len: "length ?sig = SPX_D * SPX_XMSS_BYTES" using length_ht_part [OF h] by (subst length_concat_chunks) auto
  have sig: "read_bytes ?sig (j * SPX_XMSS_BYTES) SPX_XMSS_BYTES = Some (?part j)" if "j < SPX_D" for j
    using concat_chunk [of SPX_D ?part SPX_XMSS_BYTES j "[]"] that length_ht_part [OF h] len by (subst read_bytes_Some) simp_all
  have sig0: "read_bytes ?sig 0 SPX_XMSS_BYTES = Some (?part 0)" using sig [of 0] by simp
  have t0: "same_tree (spx_set_tree_addr (replicate 32 0) idx_tree) (ht_addr 0 (ht_tree idx_tree 0))"
    using same_tree_layer_0 by (simp add: ht_tree_def)
  obtain a1 where r: "spx_xmss_pk_from_sig sha (?part 0) idx_leaf message p (spx_set_tree_addr (replicate 32 0) idx_tree) =
      Some (ht_root sha sk_seed p idx_tree 0, a1)" and a1: "same_tree a1 (ht_addr 0 (ht_tree idx_tree 0))"
    using xmss_root_layer [OF h m l t0] by (metis ht_msg.simps(1) ht_leaf.simps(1))
  obtain a2 where "for_opt (SPX_D - 1) (ht_verify_step sha ?sig p) (ht_root sha sk_seed p idx_tree 0, idx_tree, a1) =
      Some (ht_root sha sk_seed p idx_tree (SPX_D - 1), ht_tree idx_tree (SPX_D - 1), a2)"
    using ht_verify_loop [OF h m l a1 sig order_refl] by blast
  then show ?thesis
    unfolding spx_ht_verify_def Let_def sig0 r bind.simps prod.case ht_verify_step_def using root by (simp add: read_bytes_Some)
qed

end
