(* ===== verification/SPX_Thms.thy ===== *)
theory SPX_Thms
  imports SPX_Hypertree
begin

text \<open>
  Correctness of SPHINCS+: keys are generated, every message is signed, and the signature verifies;
  what verification of arbitrary bytes reads and answers; the digits of a one-time signature; and the public
  key of a few-time signature.
\<close>

section \<open>The digest of a message\<close>

lemma idx_leaf_less: "unat (spx_idx_leaf d) < 2 ^ SPX_TREE_HEIGHT"
proof -
  have "drop_bit 23 (NOT 0 :: u32) = mask 9" by (simp add: mask_numeral)
  then have "spx_idx_leaf d = take_bit 9 (ucast (spx_to_uint64 (drop (SPX_FORS_MSG_BYTES + SPX_TREE_BYTES) d) SPX_LEAF_BYTES))"
    by (simp add: spx_idx_leaf_def take_bit_eq_mask)
  then show ?thesis by (simp only: unat_take_bit_mod) simp
qed

lemma idx_tree_top: "ht_tree (spx_idx_tree d) (SPX_D - 1) = 0"
proof -
  have "drop_bit 10 (NOT 0 :: u64) = mask 54" by (simp add: mask_numeral)
  then have "spx_idx_tree d = take_bit 54 (spx_to_uint64 (drop SPX_FORS_MSG_BYTES d) SPX_TREE_BYTES)"
    by (simp add: spx_idx_tree_def take_bit_eq_mask)
  then show ?thesis by (simp add: ht_tree_def drop_bit_take_bit)
qed

lemma length_hmsg: "hash_ok sha \<Longrightarrow> length (spx_thash_hmsg sha r p root msg) = SPX_DIGEST_SIZE"
  by (simp add: spx_thash_hmsg_def Let_def hash_ok_def)

lemma length_prfmsg: "hash_ok sha \<Longrightarrow> length (spx_thash_prfmsg sha k r msg) = SPX_N"
  by (simp add: spx_thash_prfmsg_def Let_def hash_ok_def)

definition fors_addr :: "u8 list \<Rightarrow> addr" where
  "fors_addr digest = spx_set_keypair_addr (spx_set_type (spx_set_tree_addr (replicate 32 0) (spx_idx_tree digest))
     SPX_ADDR_TYPE_FORSTREE) (spx_idx_leaf digest)"

lemma same_key_fors_addr: "same_key (fors_addr d) (fors_addr d)"
  by (simp add: same_key_def fors_addr_def spx_set_keypair_addr_def)

definition fors_parts :: "hash \<Rightarrow> u8 list \<Rightarrow> u8 list \<Rightarrow> addr \<Rightarrow> u8 list \<Rightarrow> u8 list" where
  "fors_parts sha sk_seed p b msg = concat (map (fors_piece sha sk_seed p b msg) [0..<SPX_FORS_TREES])"

lemma length_fors_parts: "hash_ok sha \<Longrightarrow> length (fors_parts sha sk_seed p b msg) = SPX_FORS_BYTES"
  unfolding fors_parts_def by (subst length_concat_chunks [of _ _ "SPX_N * (SPX_FORS_HEIGHT + 1)"]) (simp_all add: length_fors_piece)

lemma length_fors_key: "hash_ok sha \<Longrightarrow> length (fors_key sha sk_seed p b) = SPX_N"
  by (simp add: fors_key_def length_thash)

section \<open>The interface\<close>

lemma generate_key_eq:
  assumes "hash_ok sha" "length seed = 3 * SPX_N"
  defines "root \<equiv> tree_node sha (take SPX_N seed) (drop (2 * SPX_N) seed) (ht_addr (SPX_D - 1) 0) 0 SPX_TREE_HEIGHT"
  shows "SPX_generate_key_from_seed sha seed = Some (drop (2 * SPX_N) seed @ root, seed @ root)" "length root = SPX_N"
proof -
  have t: "same_tree (spx_set_layer_addr (replicate 32 0) (word_of_nat (SPX_D - 1))) (ht_addr (SPX_D - 1) 0)" by (rule same_tree_top)
  obtain a where "spx_treehash sha (take SPX_N seed) 0 SPX_TREE_HEIGHT (drop (2 * SPX_N) seed)
      (spx_set_layer_addr (replicate 32 0) (word_of_nat (SPX_D - 1))) = Some (root, a)"
    using spx_treehash_eq [OF _ _ t, of SPX_TREE_HEIGHT 0 sha "take SPX_N seed" "drop (2 * SPX_N) seed"] by (auto simp: root_def)
  then show "SPX_generate_key_from_seed sha seed = Some (drop (2 * SPX_N) seed @ root, seed @ root)"
    using assms(2) by (simp add: SPX_generate_key_from_seed_def Let_def read_bytes_def)
  show "length root = SPX_N" using assms(1) by (simp add: root_def length_tree_node)
qed

text \<open>What is signed: the randomizer, the few-time signature of the digest and the signature of its key.\<close>

definition spx_parts :: "hash \<Rightarrow> u8 list \<Rightarrow> u8 list \<Rightarrow> u8 list \<Rightarrow> u8 list \<Rightarrow> u8 list" where
  "spx_parts sha sk_seed p r d =
     r @ fors_parts sha sk_seed p (fors_addr d) (take SPX_FORS_MSG_BYTES d) @
     concat (map (ht_part sha sk_seed p (fors_key sha sk_seed p (fors_addr d)) (spx_idx_tree d) (spx_idx_leaf d)) [0..<SPX_D])"

lemma length_spx_parts: "hash_ok sha \<Longrightarrow> length r = SPX_N \<Longrightarrow> length (spx_parts sha sk_seed p r d) = 7856"
  unfolding spx_parts_def by (subst length_append | subst length_concat_chunks [of _ _ SPX_XMSS_BYTES])+
    (simp_all add: length_fors_parts length_ht_part)

lemma fors_sign_then_key:
  assumes "hash_ok sha" "same_key b b" "length msg = SPX_FORS_MSG_BYTES"
  obtains a a' where "spx_fors_sign sha msg sk_seed p b = Some (fors_parts sha sk_seed p b msg, a)" "same_key a b"
    "spx_fors_pk_from_sig sha (fors_parts sha sk_seed p b msg) msg p a = Some (fors_key sha sk_seed p b, a')"
proof -
  obtain a where "spx_fors_sign sha msg sk_seed p b = Some (fors_parts sha sk_seed p b msg, a)" "same_key a b"
    using fors_sign_eq [OF assms(2,3)] unfolding fors_parts_def by blast
  then show thesis using that fors_pk_from_sig_eq [OF assms(1) _ assms(3)] unfolding fors_parts_def by blast
qed

lemma spx_sign_eq:
  assumes h: "hash_ok sha" and len: "length seed = 3 * SPX_N" "length root = SPX_N"
  defines "p \<equiv> drop (2 * SPX_N) seed"
  shows "\<exists>r. length r = SPX_N \<and> SPX_sign sha (seed @ root) msg randomized rand_bytes =
    Some (spx_parts sha (take SPX_N seed) p r (spx_thash_hmsg sha r p root msg))"
proof -
  define sk where "sk = take SPX_N seed"
  have key: "read_bytes (seed @ root) 0 SPX_N = Some sk" "read_bytes (seed @ root) SPX_N SPX_N = Some (take SPX_N (drop SPX_N seed))"
    "read_bytes (seed @ root) (2 * SPX_N) SPX_N = Some p" "read_bytes (seed @ root) (3 * SPX_N) SPX_N = Some root"
    using len by (simp_all add: sk_def p_def read_bytes_def)
  define r where "r = spx_thash_prfmsg sha (take SPX_N (drop SPX_N seed)) (if randomized then take SPX_N rand_bytes else p) msg"
  define d where "d = spx_thash_hmsg sha r p root msg"
  let ?b = "fors_addr d" and ?m = "take SPX_FORS_MSG_BYTES d"
  have lr: "length r = SPX_N" using h by (simp add: r_def length_prfmsg)
  have lm: "length ?m = SPX_FORS_MSG_BYTES" using h by (simp add: d_def length_hmsg)
  obtain a1 a2 where s: "spx_fors_sign sha ?m sk p ?b = Some (fors_parts sha sk p ?b ?m, a1)"
    and v: "spx_fors_pk_from_sig sha (fors_parts sha sk p ?b ?m) ?m p a1 = Some (fors_key sha sk p ?b, a2)"
    using fors_sign_then_key [OF h same_key_fors_addr lm] by metis
  note t = ht_sign_eq [OF h length_fors_key [OF h] idx_leaf_less]
  have "SPX_sign sha (seed @ root) msg randomized rand_bytes = Some (spx_parts sha sk p r d)"
    unfolding SPX_sign_def Let_def key bind.simps r_def [symmetric] d_def [symmetric] fors_addr_def [symmetric] s v t bind.simps prod.case
    by (simp add: spx_parts_def)
  then show ?thesis using lr unfolding d_def sk_def by blast
qed

lemma spx_verify_eq:
  fixes msg :: "u8 list"
  assumes h: "hash_ok sha" and len: "length p = SPX_N" "length root = SPX_N" "length r = SPX_N"
  defines "d \<equiv> spx_thash_hmsg sha r p root msg"
  shows "SPX_verify sha (spx_parts sha sk_seed p r d) (p @ root) msg =
    Some (tree_node sha sk_seed p (ht_addr (SPX_D - 1) 0) 0 SPX_TREE_HEIGHT = root)"
proof -
  let ?b = "fors_addr d" and ?m = "take SPX_FORS_MSG_BYTES d"
  let ?f = "fors_parts sha sk_seed p ?b ?m"
  let ?ht = "concat (map (ht_part sha sk_seed p (fors_key sha sk_seed p ?b) (spx_idx_tree d) (spx_idx_leaf d)) [0..<SPX_D])"
  have lm: "length ?m = SPX_FORS_MSG_BYTES" using h by (simp add: d_def length_hmsg)
  have lf: "length ?f = 2912" using length_fors_parts [OF h] by simp
  have sig: "read_bytes (spx_parts sha sk_seed p r d) 0 SPX_N = Some r" "take SPX_FORS_BYTES (drop SPX_N (spx_parts sha sk_seed p r d)) = ?f"
    "drop (SPX_N + SPX_FORS_BYTES) (spx_parts sha sk_seed p r d) = ?ht"
    using len(3) lf by (simp_all add: spx_parts_def read_bytes_def)
  have key: "read_bytes (p @ root) 0 SPX_N = Some p" "read_bytes (p @ root) SPX_N SPX_N = Some root"
    using len by (simp_all add: read_bytes_def)
  obtain a where v: "spx_fors_pk_from_sig sha ?f ?m p ?b = Some (fors_key sha sk_seed p ?b, a)"
    using fors_pk_from_sig_eq [OF h same_key_fors_addr lm] unfolding fors_parts_def by blast
  have "SPX_N \<le> length root" using len(2) by simp
  note t = ht_verify_eq [OF h length_fors_key [OF h] idx_leaf_less this]
  show ?thesis
    unfolding SPX_verify_def Let_def sig key bind.simps d_def [symmetric] fors_addr_def [symmetric] v bind.simps prod.case t
    using len(2) by (simp add: ht_root_def idx_tree_top [simplified])
qed

text \<open>
  C21: A generated key pair works: from any 48 bytes of seed, key generation returns, and whatever the
message and the random bytes, signing with the secret key returns a signature of 7856 bytes that
verifies under the public key. SHA-256 may be any function with results of 32 bytes.\<close>
theorem spx_sign_verify:
  assumes "hash_ok sha" "length seed = 3 * SPX_N"
  shows "\<exists>pk sk. SPX_generate_key_from_seed sha seed = Some (pk, sk) \<and> length pk = 32 \<and> length sk = 64 \<and>
    (\<forall>msg randomized rand_bytes. \<exists>sig. SPX_sign sha sk msg randomized rand_bytes = Some sig \<and> length sig = 7856 \<and>
      SPX_verify sha sig pk msg = Some True)"
proof -
  let ?p = "drop (2 * SPX_N) seed"
  let ?root = "tree_node sha (take SPX_N seed) ?p (ht_addr (SPX_D - 1) 0) 0 SPX_TREE_HEIGHT"
  note g = generate_key_eq [OF assms]
  have "\<exists>sig. SPX_sign sha (seed @ ?root) msg randomized rand_bytes = Some sig \<and> length sig = 7856 \<and>
      SPX_verify sha sig (?p @ ?root) msg = Some True" for msg randomized rand_bytes
  proof -
    obtain r where r: "length r = SPX_N" "SPX_sign sha (seed @ ?root) msg randomized rand_bytes =
        Some (spx_parts sha (take SPX_N seed) ?p r (spx_thash_hmsg sha r ?p ?root msg))"
      using spx_sign_eq [OF assms g(2)] by blast
    have "length ?p = SPX_N" using assms(2) by simp
    from spx_verify_eq [OF assms(1) this g(2) r(1), where msg = msg and sk_seed = "take SPX_N seed"] r length_spx_parts [OF assms(1) r(1)]
    show ?thesis by simp
  qed
  moreover have "length (?p @ ?root) = 32" "length (seed @ ?root) = 64" using assms(2) g(2) by simp_all
  ultimately show ?thesis using g(1) by blast
qed

text \<open>A hash function with results of 32 bytes, for concrete instances.\<close>

definition pad_hash :: hash where
  "pad_hash m = take 32 (m @ replicate 32 0)"

lemma hash_ok_pad: "hash_ok pad_hash"
  by (auto simp: hash_ok_def pad_hash_def min_def)

theorem spx_sign_verify_witness:
  "\<exists>pk sk. SPX_generate_key_from_seed pad_hash (replicate 48 7) = Some (pk, sk) \<and> length pk = 32 \<and> length sk = 64 \<and>
    (\<forall>msg randomized rand_bytes. \<exists>sig. SPX_sign pad_hash sk msg randomized rand_bytes = Some sig \<and> length sig = 7856 \<and>
      SPX_verify pad_hash sig pk msg = Some True)"
  using spx_sign_verify [OF hash_ok_pad, of "replicate 48 7"] by simp

section \<open>Verification of arbitrary bytes\<close>

lemma for_loop_invariant: "P s \<Longrightarrow> (\<And>i s. P s \<Longrightarrow> P (f i s)) \<Longrightarrow> P (for_loop n f s)"
  by (induction n) simp_all

lemma for_opt_returns:
  "P s \<Longrightarrow> (\<And>i s. i < n \<Longrightarrow> P s \<Longrightarrow> \<exists>s'. f i s = Some s' \<and> P s') \<Longrightarrow> \<exists>s'. for_opt n f s = Some s' \<and> P s'"
proof (induction n)
  case (Suc n)
  then obtain s' where "for_opt n f s = Some s'" "P s'" by force
  then show ?case using Suc.prems(2) [of n s'] by simp
qed simp

lemma wots_pk_from_sig_returns:
  "hash_ok sha \<Longrightarrow> length msg = SPX_N \<Longrightarrow> SPX_WOTS_BYTES \<le> length sig \<Longrightarrow>
   \<exists>key a'. spx_wots_pk_from_sig sha sig msg p a = Some (key, a') \<and> length key = SPX_N"
  by (simp add: wots_pk_from_sig_unfold wots_digits_eq Let_def length_thash split: prod.split)

lemma xmss_pk_from_sig_returns:
  assumes "hash_ok sha" "length msg = SPX_N" "SPX_XMSS_BYTES \<le> length sig"
  shows "\<exists>root a'. spx_xmss_pk_from_sig sha sig idx msg p a = Some (root, a') \<and> length root = SPX_N"
proof -
  let ?l = "spx_set_keypair_addr (spx_set_type a SPX_ADDR_TYPE_WOTS) idx"
  obtain key a1 where w: "spx_wots_pk_from_sig sha sig msg p ?l = Some (key, a1)" "length key = SPX_N"
    using wots_pk_from_sig_returns [OF assms(1,2), of sig p ?l] assms(3) by auto
  have n: "\<not> length sig < SPX_XMSS_BYTES" using assms(3) by simp
  have "\<exists>s. spx_xmss_pk_from_sig sha sig idx msg p a = Some s \<and> length (fst s) = SPX_N"
    unfolding xmss_pk_from_sig_unfold if_not_P [OF n] Let_def w(1) bind.simps prod.case
    using w(2) by - (rule exI, rule conjI [OF refl], rule for_loop_invariant [where P = "\<lambda>s. length (fst s) = SPX_N"],
      simp_all add: length_thash [OF assms(1)] split: prod.split)
  then show ?thesis by auto
qed

text \<open>The root that a signature of the hypertree leads to.\<close>

lemma ht_verify_root:
  assumes "hash_ok sha" "length message = SPX_N" "SPX_D * SPX_XMSS_BYTES \<le> length sig"
  obtains root where "length root = SPX_N"
    "\<And>pk_root. SPX_N \<le> length pk_root \<Longrightarrow> spx_ht_verify sha sig message idx_tree idx_leaf pk_root p = Some (root = take SPX_N pk_root)"
proof -
  have rd: "read_bytes sig (j * SPX_XMSS_BYTES) SPX_XMSS_BYTES = Some (take SPX_XMSS_BYTES (drop (j * SPX_XMSS_BYTES) sig))"
    "SPX_XMSS_BYTES \<le> length (take SPX_XMSS_BYTES (drop (j * SPX_XMSS_BYTES) sig))" if "j < SPX_D" for j
    using assms(3) that by (simp_all add: read_bytes_Some)
  obtain node a1 where r: "spx_xmss_pk_from_sig sha (take SPX_XMSS_BYTES sig) idx_leaf message p
      (spx_set_tree_addr (replicate 32 0) idx_tree) = Some (node, a1)" "length node = SPX_N"
    using xmss_pk_from_sig_returns [OF assms(1,2), of "take SPX_XMSS_BYTES sig" idx_leaf p "spx_set_tree_addr (replicate 32 0) idx_tree"]
      rd(2) [of 0] by auto
  have "\<exists>s'. for_opt (SPX_D - 1) (ht_verify_step sha sig p) (node, idx_tree, a1) = Some s' \<and> length (fst s') = SPX_N"
  proof (rule for_opt_returns)
    fix i and s :: "u8 list \<times> u64 \<times> addr" assume i: "i < SPX_D - 1" and s: "length (fst s) = SPX_N"
    obtain node t a where sp: "s = (node, t, a)" by (cases s)
    have j: "Suc i < SPX_D" using i by simp
    from sp show "\<exists>s'. ht_verify_step sha sig p i s = Some s' \<and> length (fst s') = SPX_N"
      using xmss_pk_from_sig_returns [OF assms(1) _ rd(2) [OF j], of node "ucast (t mod 2 ^ SPX_TREE_HEIGHT)" p
          "spx_set_tree_addr (spx_set_layer_addr a (word_of_nat (Suc i))) (drop_bit SPX_TREE_HEIGHT t)"] s
      unfolding ht_verify_step_def Let_def rd(1) [OF j] by auto
  qed (simp add: r(2))
  then obtain root t a2 where l: "for_opt (SPX_D - 1) (ht_verify_step sha sig p) (node, idx_tree, a1) = Some (root, t, a2)"
    "length root = SPX_N" by auto
  have r0: "read_bytes sig 0 SPX_XMSS_BYTES = Some (take SPX_XMSS_BYTES sig)" using rd(1) [of 0] by simp
  have "spx_ht_verify sha sig message idx_tree idx_leaf pk_root p = Some (root = take SPX_N pk_root)"
    if "SPX_N \<le> length pk_root" for pk_root
    using l(1) that unfolding spx_ht_verify_def Let_def r0 bind.simps r(1) prod.case ht_verify_step_def by (simp add: read_bytes_Some)
  then show thesis using that l(2) by blast
qed

lemma ht_verify_short:
  assumes "length sig < SPX_D * SPX_XMSS_BYTES"
  shows "spx_ht_verify sha sig message idx_tree idx_leaf pk_root p = None"
proof -
  have "for_opt (SPX_D - 1) (ht_verify_step sha sig p) s = None" for s
    using assms by (intro for_opt_None [of 5]) (simp_all add: ht_verify_step_def read_bytes_None Let_def split: prod.split)
  then show ?thesis
    unfolding spx_ht_verify_def Let_def ht_verify_step_def [symmetric, unfolded Let_def] by (simp add: Option.bind_eq_None_conv)
qed

lemma ht_verify_append:
  assumes "SPX_D * SPX_XMSS_BYTES \<le> length sig"
  shows "spx_ht_verify sha (sig @ x) message idx_tree idx_leaf pk_root p = spx_ht_verify sha sig message idx_tree idx_leaf pk_root p"
proof -
  have rd: "read_bytes (sig @ x) (j * SPX_XMSS_BYTES) SPX_XMSS_BYTES = read_bytes sig (j * SPX_XMSS_BYTES) SPX_XMSS_BYTES" if "j < SPX_D" for j
    using assms that by (intro read_bytes_append) simp
  have "for_opt (SPX_D - 1) (ht_verify_step sha (sig @ x) p) s = for_opt (SPX_D - 1) (ht_verify_step sha sig p) s" for s
    by (intro for_opt_cong) (simp only: ht_verify_step_def Let_def rd)
  then show ?thesis
    using rd [of 0] unfolding spx_ht_verify_def Let_def ht_verify_step_def [symmetric, unfolded Let_def] by simp
qed

lemma fors_pk_from_sig_returns:
  assumes "hash_ok sha" "length msg = SPX_FORS_MSG_BYTES" "SPX_FORS_BYTES \<le> length sig"
  shows "\<exists>key a'. spx_fors_pk_from_sig sha sig msg p a = Some (key, a') \<and> length key = SPX_N"
proof -
  have n: "\<not> length sig < SPX_FORS_BYTES" using assms(3) by simp
  show ?thesis
    unfolding fors_pk_from_sig_unfold if_not_P [OF n] fors_digits [OF assms(2)] bind.simps
    by (simp add: Let_def length_thash [OF assms(1)] split: prod.split)
qed

lemma spx_verify_long:
  assumes h: "hash_ok sha" and len: "7856 \<le> length sig" "32 \<le> length pk"
  shows "\<exists>b. \<forall>x y. SPX_verify sha (sig @ x) (pk @ y) msg = Some b"
proof -
  let ?p = "take SPX_N pk" and ?root = "take SPX_N (drop SPX_N pk)" and ?r = "take SPX_N sig"
  let ?f = "take SPX_FORS_BYTES (drop SPX_N sig)" and ?ht = "drop (SPX_N + SPX_FORS_BYTES) sig"
  let ?d = "spx_thash_hmsg sha ?r ?p ?root msg"
  have rd: "read_bytes (pk @ y) 0 SPX_N = Some ?p" "read_bytes (pk @ y) SPX_N SPX_N = Some ?root" "read_bytes (sig @ x) 0 SPX_N = Some ?r"
    "take SPX_FORS_BYTES (drop SPX_N (sig @ x)) = ?f" "drop (SPX_N + SPX_FORS_BYTES) (sig @ x) = ?ht @ x" for x y
    using len by (simp_all add: read_bytes_def)
  have lm: "length (take SPX_FORS_MSG_BYTES ?d) = SPX_FORS_MSG_BYTES" using h by (simp add: length_hmsg)
  have lf: "SPX_FORS_BYTES \<le> length ?f" and lh: "SPX_D * SPX_XMSS_BYTES \<le> length ?ht" and lr: "SPX_N \<le> length ?root"
    using len by simp_all
  obtain key a where f: "spx_fors_pk_from_sig sha ?f (take SPX_FORS_MSG_BYTES ?d) ?p (fors_addr ?d) = Some (key, a)" "length key = SPX_N"
    using fors_pk_from_sig_returns [OF h lm lf] by blast
  obtain root where "spx_ht_verify sha ?ht key (spx_idx_tree ?d) (spx_idx_leaf ?d) ?root ?p = Some (root = take SPX_N ?root)"
    using ht_verify_root [OF h f(2) lh] lr by metis
  then show ?thesis
    unfolding SPX_verify_def Let_def rd bind.simps fors_addr_def [symmetric] f(1) prod.case ht_verify_append [OF lh] by blast
qed

lemma spx_verify_short:
  assumes "length sig < 7856 \<or> length pk < 32"
  shows "SPX_verify sha sig pk msg = None"
proof (cases "length sig < SPX_N \<or> length pk < 32")
  case True
  then show ?thesis by (auto simp: SPX_verify_def Let_def read_bytes_def Option.bind_eq_None_conv)
next
  case False
  show ?thesis
  proof (cases "length sig < SPX_N + SPX_FORS_BYTES")
    case True
    then have "length (take SPX_FORS_BYTES (drop SPX_N sig)) < SPX_FORS_BYTES" by auto
    then have "spx_fors_pk_from_sig sha (take SPX_FORS_BYTES (drop SPX_N sig)) m p a = None" for m p a
      unfolding fors_pk_from_sig_unfold by (simp only: if_True)
    then show ?thesis by (simp add: SPX_verify_def Let_def Option.bind_eq_None_conv)
  next
    case long: False
    then have "length (drop (SPX_N + SPX_FORS_BYTES) sig) < SPX_D * SPX_XMSS_BYTES" using assms False by auto
    from ht_verify_short [OF this] show ?thesis
      by (simp only: SPX_verify_def Let_def Option.bind_eq_None_conv) (auto split: prod.split)
  qed
qed

text \<open>
  C33: What verification reads and answers, for arbitrary bytes. It reads all 7856 bytes of a signature and 32 bytes
of a public key, in pieces at computed offsets, and nothing behind them: on shorter arrays it runs past the end, on long enough ones it
always answers, and the bytes behind do not change the answer. A signature of the hypertree is accepted for exactly one root.\<close>
theorem spx_verify_reads:
  assumes "hash_ok sha"
  shows "(SPX_verify sha sig pk msg = None \<longleftrightarrow> length sig < 7856 \<or> length pk < 32) \<and>
    (7856 \<le> length sig \<and> 32 \<le> length pk \<longrightarrow> SPX_verify sha (sig @ x) (pk @ y) msg = SPX_verify sha sig pk msg) \<and>
    (SPX_D * SPX_XMSS_BYTES \<le> length ht_sig \<and> length message = SPX_N \<longrightarrow>
      (\<exists>!root. length root = SPX_N \<and> spx_ht_verify sha ht_sig message idx_tree idx_leaf root pk_seed = Some True))"
proof (intro conjI impI)
  show "SPX_verify sha sig pk msg = None \<longleftrightarrow> length sig < 7856 \<or> length pk < 32"
    using spx_verify_short [of sig pk] spx_verify_long [OF assms, of sig pk msg] by (metis append_Nil2 not_le option.distinct(1))
  show "SPX_verify sha (sig @ x) (pk @ y) msg = SPX_verify sha sig pk msg" if "7856 \<le> length sig \<and> 32 \<le> length pk"
    using spx_verify_long [OF assms, of sig pk msg] that by (metis append_Nil2)
  assume "SPX_D * SPX_XMSS_BYTES \<le> length ht_sig \<and> length message = SPX_N"
  then obtain root where root: "length root = SPX_N" "\<And>pk_root. SPX_N \<le> length pk_root \<Longrightarrow>
      spx_ht_verify sha ht_sig message idx_tree idx_leaf pk_root pk_seed = Some (root = take SPX_N pk_root)"
    using ht_verify_root [OF assms] by metis
  have "root' = root" if "length root' = SPX_N \<and> spx_ht_verify sha ht_sig message idx_tree idx_leaf root' pk_seed = Some True" for root'
    using root(2) [of root'] that by simp
  moreover have "spx_ht_verify sha ht_sig message idx_tree idx_leaf root pk_seed = Some True" using root by simp
  ultimately show "\<exists>!root. length root = SPX_N \<and> spx_ht_verify sha ht_sig message idx_tree idx_leaf root pk_seed = Some True"
    using root(1) by blast
qed

theorem spx_verify_reads_witness:
  "SPX_verify pad_hash (replicate 7855 0) (replicate 32 0) [] = None \<and>
   SPX_verify pad_hash (replicate 7856 0 @ [1]) (replicate 32 0 @ []) [] = SPX_verify pad_hash (replicate 7856 0) (replicate 32 0) [] \<and>
   (\<exists>!root. length root = SPX_N \<and> spx_ht_verify pad_hash (replicate 4928 0) (replicate 16 0) 0 0 root (replicate 16 0) = Some True)"
proof (intro conjI)
  show "SPX_verify pad_hash (replicate 7855 0) (replicate 32 0) [] = None"
    using spx_verify_reads [OF hash_ok_pad, THEN conjunct1, of "replicate 7855 0" "replicate 32 0" "[]"] by simp
  show "SPX_verify pad_hash (replicate 7856 0 @ [1]) (replicate 32 0 @ []) [] = SPX_verify pad_hash (replicate 7856 0) (replicate 32 0) []"
    using spx_verify_reads [OF hash_ok_pad, THEN conjunct2, THEN conjunct1, of "replicate 7856 0" "replicate 32 0" "[1]" "[]" "[]"]
    by simp
  show "\<exists>!root. length root = SPX_N \<and> spx_ht_verify pad_hash (replicate 4928 0) (replicate 16 0) 0 0 root (replicate 16 0) = Some True"
    using spx_verify_reads [OF hash_ok_pad, THEN conjunct2, THEN conjunct2, of "replicate 4928 0" "replicate 16 0"] by simp
qed

section \<open>The digits of one-time signatures\<close>

text \<open>
  C34: The digits that a one-time signature reveals: for a message of 16 bytes they are its 32 digits in
base 16 and the three digits of the checksum 480 minus their sum, and of two different messages
each has a digit smaller than the other's, so that no signature can be continued to another.\<close>
theorem wots_digits_incomparable:
  assumes "length msg = SPX_N" "length msg' = SPX_N" "msg \<noteq> msg'"
  shows "\<exists>ds ds'. wots_digits msg = Some ds \<and> wots_digits msg' = Some ds' \<and> length ds = SPX_WOTS_LEN \<and>
    map unat (take SPX_WOTS_LEN1 ds) = map (digit 4 msg) [0..<SPX_WOTS_LEN1] \<and>
    256 * unat (ds ! 32) + 16 * unat (ds ! 33) + unat (ds ! 34) + (\<Sum>k<SPX_WOTS_LEN1. unat (ds ! k)) = 480 \<and>
    (\<forall>d \<in> set ds. d < 16) \<and> (\<exists>i<SPX_WOTS_LEN. ds ! i < ds' ! i) \<and> (\<exists>i<SPX_WOTS_LEN. ds' ! i < ds ! i)"
proof -
  let ?ds = "map word_of_nat (msg_digits msg) :: u32 list" and ?ds' = "map word_of_nat (msg_digits msg') :: u32 list"
  have u: "unat (map word_of_nat (msg_digits m) ! i :: u32) = msg_digits m ! i" if "i < SPX_WOTS_LEN" for i m
    using unat_wdigit(1) that by blast
  have dig: "unat (?ds ! k) = digit 4 msg k" if "k < SPX_WOTS_LEN1" for k
    using u [of k msg] that by (simp add: msg_digits_def nth_append)
  have "map unat (take SPX_WOTS_LEN1 ?ds) = map (digit 4 msg) [0..<SPX_WOTS_LEN1]"
  proof (rule nth_equalityI)
    fix i assume "i < length (map unat (take SPX_WOTS_LEN1 ?ds))"
    then have i: "i < SPX_WOTS_LEN1" by simp
    then show "map unat (take SPX_WOTS_LEN1 ?ds) ! i = map (digit 4 msg) [0..<SPX_WOTS_LEN1] ! i" using dig [OF i] by simp
  qed simp
  moreover have "256 * unat (?ds ! 32) + 16 * unat (?ds ! 33) + unat (?ds ! 34) + (\<Sum>k<SPX_WOTS_LEN1. unat (?ds ! k)) = 480"
  proof -
    have "(\<Sum>k<SPX_WOTS_LEN1. unat (?ds ! k)) = (\<Sum>k<SPX_WOTS_LEN1. digit 4 msg k)"
      using dig by (intro sum.cong refl) (simp only: lessThan_iff)
    moreover have "msg_digits msg ! 32 = checksum msg div 256" "msg_digits msg ! 33 = checksum msg div 16 mod 16"
      "msg_digits msg ! 34 = checksum msg mod 16" by (simp_all add: msg_digits_def nth_append)
    ultimately show ?thesis using checksum_sum [of msg] hex_digits [of "checksum msg"] u [of 32 msg] u [of 33 msg] u [of 34 msg] by linarith
  qed
  moreover have "\<forall>d \<in> set ?ds. d < 16"
    using msg_digits_less [of _ msg] by (fastforce simp: word_less_nat_alt unsigned_of_nat intro: le_less_trans [OF take_bit_nat_less_eq_self])
  moreover have "\<exists>i<SPX_WOTS_LEN. ?ds ! i < ?ds' ! i" "\<exists>i<SPX_WOTS_LEN. ?ds' ! i < ?ds ! i"
    using msg_digits_incomparable [OF assms] msg_digits_incomparable [OF assms(2,1)] assms(3) u unfolding word_less_nat_alt by metis+
  moreover have "length ?ds = SPX_WOTS_LEN" by simp
  ultimately show ?thesis using wots_digits_eq [OF assms(1)] wots_digits_eq [OF assms(2)] by blast
qed

theorem wots_digits_incomparable_witness:
  "\<exists>ds ds'. wots_digits (replicate 16 0) = Some ds \<and> wots_digits (replicate 16 1) = Some ds' \<and>
    (\<exists>i<35. ds ! i < ds' ! i) \<and> (\<exists>i<35. ds' ! i < ds ! i)"
  using wots_digits_incomparable [of "replicate 16 0" "replicate 16 1"] by (auto simp: replicate_eq_replicate)

section \<open>Few-time signatures\<close>

text \<open>
  All signatures of one FORS key lead to the same public key: signing a message of 21 bytes returns 2912 bytes,
and the public key computed from them, with the address that signing leaves behind or with the
original one, does not depend on the message.\<close>
lemma fors_key_any_message:
  assumes "hash_ok sha" "length a = 32"
  shows "\<exists>key. length key = SPX_N \<and> (\<forall>msg. length msg = SPX_FORS_MSG_BYTES \<longrightarrow>
    (\<exists>sig a'. spx_fors_sign sha msg sk_seed p a = Some (sig, a') \<and> length sig = SPX_FORS_BYTES \<and>
      map_option fst (spx_fors_pk_from_sig sha sig msg p a') = Some key \<and>
      map_option fst (spx_fors_pk_from_sig sha sig msg p a) = Some key))"
proof (rule exI [of _ "fors_key sha sk_seed p a"], intro conjI allI impI)
  have k: "same_key a a" using assms(2) by (simp add: same_key_def)
  show "length (fors_key sha sk_seed p a) = SPX_N" by (rule length_fors_key [OF assms(1)])
  fix msg :: "u8 list" assume m: "length msg = SPX_FORS_MSG_BYTES"
  obtain a1 a2 where s: "spx_fors_sign sha msg sk_seed p a = Some (fors_parts sha sk_seed p a msg, a1)"
    "spx_fors_pk_from_sig sha (fors_parts sha sk_seed p a msg) msg p a1 = Some (fors_key sha sk_seed p a, a2)"
    using fors_sign_then_key [OF assms(1) k m] by metis
  obtain a3 where v: "spx_fors_pk_from_sig sha (fors_parts sha sk_seed p a msg) msg p a = Some (fors_key sha sk_seed p a, a3)"
    using fors_pk_from_sig_eq [OF assms(1) k m] unfolding fors_parts_def by blast
  from s v length_fors_parts [OF assms(1)]
  show "\<exists>sig a'. spx_fors_sign sha msg sk_seed p a = Some (sig, a') \<and> length sig = SPX_FORS_BYTES \<and>
      map_option fst (spx_fors_pk_from_sig sha sig msg p a') = Some (fors_key sha sk_seed p a) \<and>
      map_option fst (spx_fors_pk_from_sig sha sig msg p a) = Some (fors_key sha sk_seed p a)"
    by (intro exI [of _ "fors_parts sha sk_seed p a msg"] exI [of _ a1]) simp
qed

end
