(* ===== verification/BIO_Pair.thy ===== *)
theory BIO_Pair
  imports BS_Cbb "HOL-Library.Monad_Syntax"
begin

text \<open>
  The pair of connected BIOs of BoringSSL, \<open>crypto/bio/pair.c\<close>: two ring buffers, one for each
  direction. The BIOs live in a store that maps their addresses to their contents; the structure
  behind \<open>bio->ptr\<close> belongs to one BIO and is kept in it. A failed \<open>assert\<close>, a null pointer and a
  copy outside a buffer are the result \<open>None\<close>. \<open>BIO_new\<close>, \<open>BIO_free\<close> and \<open>BIO_ctrl\<close> of \<open>bio.c\<close>, which is
  not in the tree, are parameters, and so is the allocator. The constants that \<open>bio_ctrl\<close> switches on
  are the constructors of \<open>bio_cmd\<close>.
\<close>

section \<open>Data\<close>

record bio_bio_st =
  peer :: "nat option"
  closed :: bool
  b_len :: nat
  b_offset :: nat
  b_size :: nat
  b_buf :: "u8 list option"
  request :: nat

datatype retry_flags = NO_RETRY | RETRY_READ | RETRY_WRITE

record BIO =
  bio_init :: bool
  bio_shutdown :: int
  bio_retry :: retry_flags
  bio_ptr :: "bio_bio_st option"

type_synonym bios = "nat \<rightharpoonup> BIO"

datatype bio_cmd = BIO_C_GET_WRITE_BUF_SIZE | BIO_C_GET_WRITE_GUARANTEE | BIO_C_GET_READ_REQUEST | BIO_C_RESET_READ_REQUEST
  | BIO_C_SHUTDOWN_WR | BIO_CTRL_GET_CLOSE | BIO_CTRL_SET_CLOSE | BIO_CTRL_PENDING | BIO_CTRL_WPENDING | BIO_CTRL_FLUSH
  | BIO_CTRL_EOF | BIO_CTRL_OTHER

text \<open>\<open>bio->ptr\<close>, and storing through it.\<close>

definition get_b :: "bios \<Rightarrow> nat \<Rightarrow> bio_bio_st option" where
  "get_b h bio = Option.bind (h bio) bio_ptr"

definition put_b :: "bios \<Rightarrow> nat \<Rightarrow> bio_bio_st \<Rightarrow> bios" where
  "put_b h bio b = (case h bio of None \<Rightarrow> h | Some B \<Rightarrow> h(bio \<mapsto> B\<lparr>bio_ptr := Some b\<rparr>))"

definition set_init :: "bios \<Rightarrow> nat \<Rightarrow> bool \<Rightarrow> bios" where
  "set_init h bio v = (case h bio of None \<Rightarrow> h | Some B \<Rightarrow> h(bio \<mapsto> B\<lparr>bio_init := v\<rparr>))"

definition set_retry :: "bios \<Rightarrow> nat \<Rightarrow> retry_flags \<Rightarrow> bios" where
  "set_retry h bio v = (case h bio of None \<Rightarrow> h | Some B \<Rightarrow> h(bio \<mapsto> B\<lparr>bio_retry := v\<rparr>))"

text \<open>Conversions between \<open>int\<close>, \<open>long\<close> and \<open>size_t\<close>.\<close>

definition size_of_int :: "int \<Rightarrow> nat" where
  "size_of_int n = nat (n mod 2 ^ 64)"

definition int_of_size :: "nat \<Rightarrow> int" where
  "int_of_size n = sint (word_of_nat n :: u32)"

definition long_of_size :: "nat \<Rightarrow> int" where
  "long_of_size n = sint (word_of_nat n :: u64)"

section \<open>Creating and destroying\<close>

definition bio_new :: "allocator \<Rightarrow> BIO \<Rightarrow> bool \<times> BIO" where
  "bio_new H bio =
     (if \<not> alloc_ok H 56 then (False, bio)
      else (True, bio\<lparr>bio_ptr := Some \<lparr>peer = None, closed = False, b_len = 0, b_offset = 0, b_size = 17 * 1024, b_buf = None, request = 0\<rparr>\<rparr>))"

definition bio_destroy_pair :: "bios \<Rightarrow> nat \<Rightarrow> bios option" where
  "bio_destroy_pair h bio =
     do { B \<leftarrow> h bio;
          case bio_ptr B of
            None \<Rightarrow> Some h
          | Some b \<Rightarrow> (case peer b of
              None \<Rightarrow> Some h
            | Some peer_bio \<Rightarrow>
                do { peer_b \<leftarrow> get_b h peer_bio;
                     check (peer peer_b = Some bio);
                     let h = put_b h peer_bio (peer_b\<lparr>peer := None\<rparr>);
                     let h = set_init h peer_bio False;
                     peer_b \<leftarrow> get_b h peer_bio;
                     check (b_buf peer_b \<noteq> None);
                     let h = put_b h peer_bio (peer_b\<lparr>b_len := 0, b_offset := 0\<rparr>);
                     b \<leftarrow> get_b h bio;
                     let h = put_b h bio (b\<lparr>peer := None\<rparr>);
                     let h = set_init h bio False;
                     b \<leftarrow> get_b h bio;
                     check (b_buf b \<noteq> None);
                     Some (put_b h bio (b\<lparr>b_len := 0, b_offset := 0\<rparr>)) }) }"

text \<open>The structure is gone after \<open>bio_free\<close>; \<open>BIO_free\<close> frees the BIO itself.\<close>

definition bio_free :: "bios \<Rightarrow> nat \<Rightarrow> (bool \<times> bios) option" where
  "bio_free h bio =
     do { b \<leftarrow> get_b h bio;
          h \<leftarrow> (if peer b \<noteq> None then bio_destroy_pair h bio else Some h);
          B \<leftarrow> h bio;
          Some (True, h(bio \<mapsto> B\<lparr>bio_ptr := None\<rparr>)) }"

section \<open>Reading\<close>

text \<open>The body of the loop: what is copied, and the structure and the rest afterwards.\<close>

definition read_chunk :: "bio_bio_st \<Rightarrow> nat \<Rightarrow> (u8 list \<times> bio_bio_st \<times> nat) option" where
  "read_chunk peer_b rest =
     do { check (rest \<le> b_len peer_b);
          let chunk = (if size_add (b_offset peer_b) rest \<le> b_size peer_b then rest else size_sub (b_size peer_b) (b_offset peer_b));
          check (size_add (b_offset peer_b) chunk \<le> b_size peer_b);
          buf \<leftarrow> b_buf peer_b;
          check (b_offset peer_b + chunk \<le> length buf);
          let out = take chunk (drop (b_offset peer_b) buf);
          let peer_b = peer_b\<lparr>b_len := size_sub (b_len peer_b) chunk\<rparr>;
          peer_b \<leftarrow>
            (if b_len peer_b \<noteq> 0 then
               do { let peer_b = peer_b\<lparr>b_offset := size_add (b_offset peer_b) chunk\<rparr>;
                    check (b_offset peer_b \<le> b_size peer_b);
                    Some (if b_offset peer_b = b_size peer_b then peer_b\<lparr>b_offset := 0\<rparr> else peer_b) }
             else
               do { check (chunk = rest);
                    Some (peer_b\<lparr>b_offset := 0\<rparr>) });
          Some (out, peer_b, size_sub rest chunk) }"

partial_function (option) read_loop :: "bio_bio_st \<Rightarrow> nat \<Rightarrow> u8 list \<Rightarrow> (u8 list \<times> bio_bio_st) option" where
  "read_loop peer_b rest buf =
     do { (out, peer_b, rest) \<leftarrow> read_chunk peer_b rest;
          if rest \<noteq> 0 then read_loop peer_b rest (buf @ out) else Some (buf @ out, peer_b) }"

text \<open>The result is the return value, the bytes stored at \<open>buf\<close> and the BIOs. \<open>buf\<close> says whether the pointer is not null.\<close>

definition bio_read :: "bios \<Rightarrow> nat \<Rightarrow> bool \<Rightarrow> int \<Rightarrow> (int \<times> u8 list \<times> bios) option" where
  "bio_read h bio buf size0 =
     do { let size = size_of_int size0;
          B \<leftarrow> h bio;
          let h = set_retry h bio NO_RETRY;
          if \<not> bio_init B then Some (0, [], h)
          else do {
            b \<leftarrow> get_b h bio;
            peer_bio \<leftarrow> peer b;
            peer_b \<leftarrow> get_b h peer_bio;
            check (b_buf peer_b \<noteq> None);
            let peer_b = peer_b\<lparr>request := 0\<rparr>;
            let h = put_b h peer_bio peer_b;
            if \<not> buf \<or> size = 0 then Some (0, [], h)
            else if b_len peer_b = 0 then
              (if closed peer_b then Some (0, [], h)
               else
                 let h = set_retry h bio RETRY_READ in
                 Some (- 1, [], put_b h peer_bio (peer_b\<lparr>request := (if size \<le> b_size peer_b then size else b_size peer_b)\<rparr>)))
            else do {
              let size = (if b_len peer_b < size then b_len peer_b else size);
              (out, peer_b) \<leftarrow> read_loop peer_b size [];
              Some (int_of_size size, out, put_b h peer_bio peer_b) } } }"

section \<open>Writing\<close>

definition write_chunk :: "bio_bio_st \<Rightarrow> u8 list \<Rightarrow> nat \<Rightarrow> (bio_bio_st \<times> u8 list \<times> nat) option" where
  "write_chunk b buf rest =
     do { check (size_add (b_len b) rest \<le> b_size b);
          let write_offset = size_add (b_offset b) (b_len b);
          let write_offset = (if write_offset \<ge> b_size b then size_sub write_offset (b_size b) else write_offset);
          let chunk = (if size_add write_offset rest \<le> b_size b then rest else size_sub (b_size b) write_offset);
          ring \<leftarrow> b_buf b;
          check (write_offset + chunk \<le> length ring \<and> chunk \<le> length buf);
          let b = b\<lparr>b_buf := Some (take write_offset ring @ take chunk buf @ drop (write_offset + chunk) ring)\<rparr>;
          let b = b\<lparr>b_len := size_add (b_len b) chunk\<rparr>;
          check (b_len b \<le> b_size b);
          Some (b, drop chunk buf, size_sub rest chunk) }"

partial_function (option) write_loop :: "bio_bio_st \<Rightarrow> u8 list \<Rightarrow> nat \<Rightarrow> bio_bio_st option" where
  "write_loop b buf rest =
     do { (b, buf, rest) \<leftarrow> write_chunk b buf rest;
          if rest \<noteq> 0 then write_loop b buf rest else Some b }"

definition bio_write :: "bios \<Rightarrow> nat \<Rightarrow> u8 list option \<Rightarrow> int \<Rightarrow> (int \<times> bios) option" where
  "bio_write h bio buf num0 =
     do { let num = size_of_int num0;
          B \<leftarrow> h bio;
          let h = set_retry h bio NO_RETRY;
          case buf of
            None \<Rightarrow> Some (0, h)
          | Some buf \<Rightarrow>
              if \<not> bio_init B \<or> num = 0 then Some (0, h)
              else do {
                b \<leftarrow> get_b h bio;
                check (peer b \<noteq> None);
                check (b_buf b \<noteq> None);
                let b = b\<lparr>request := 0\<rparr>;
                let h = put_b h bio b;
                if closed b then Some (- 1, h)
                else do {
                  check (b_len b \<le> b_size b);
                  if b_len b = b_size b then Some (- 1, set_retry h bio RETRY_WRITE)
                  else do {
                    let num = (if num > size_sub (b_size b) (b_len b) then size_sub (b_size b) (b_len b) else num);
                    b \<leftarrow> write_loop b buf num;
                    Some (int_of_size num, put_b h bio b) } } } }"

section \<open>Connecting and control\<close>

text \<open>The buffer of one side.\<close>

definition make_buf :: "allocator \<Rightarrow> bio_bio_st \<Rightarrow> nat \<Rightarrow> bool \<times> bio_bio_st" where
  "make_buf H b writebuf_len =
     (if b_buf b = None then
        let b = (if writebuf_len \<noteq> 0 then b\<lparr>b_size := writebuf_len\<rparr> else b) in
        if \<not> alloc_ok H (b_size b) then (False, b)
        else (True, b\<lparr>b_buf := Some (map (junk H) [0..<b_size b]), b_len := 0, b_offset := 0\<rparr>)
      else (True, b))"

definition bio_make_pair :: "allocator \<Rightarrow> bios \<Rightarrow> nat \<Rightarrow> nat \<Rightarrow> nat \<Rightarrow> nat \<Rightarrow> (bool \<times> bios) option" where
  "bio_make_pair H h bio1 bio2 writebuf1_len writebuf2_len =
     do { b1 \<leftarrow> get_b h bio1;
          b2 \<leftarrow> get_b h bio2;
          if peer b1 \<noteq> None \<or> peer b2 \<noteq> None then Some (False, h)
          else do {
            let (ok, b1) = make_buf H b1 writebuf1_len;
            let h = put_b h bio1 b1;
            if \<not> ok then Some (False, h)
            else do {
              b2 \<leftarrow> get_b h bio2;
              let (ok, b2) = make_buf H b2 writebuf2_len;
              let h = put_b h bio2 b2;
              if \<not> ok then Some (False, h)
              else do {
                b1 \<leftarrow> get_b h bio1;
                let h = put_b h bio1 (b1\<lparr>peer := Some bio2, closed := False, request := 0\<rparr>);
                b2 \<leftarrow> get_b h bio2;
                let h = put_b h bio2 (b2\<lparr>peer := Some bio1, closed := False, request := 0\<rparr>);
                let h = set_init h bio1 True;
                Some (True, set_init h bio2 True) } } } }"

definition bio_ctrl :: "bios \<Rightarrow> nat \<Rightarrow> bio_cmd \<Rightarrow> int \<Rightarrow> nat option \<Rightarrow> (int \<times> bios) option" where
  "bio_ctrl h bio cmd num ptr =
     do { B \<leftarrow> h bio;
          b \<leftarrow> bio_ptr B;
          case cmd of
            BIO_C_GET_WRITE_BUF_SIZE \<Rightarrow> Some (long_of_size (b_size b), h)
          | BIO_C_GET_WRITE_GUARANTEE \<Rightarrow>
              Some (if peer b = None \<or> closed b then 0 else long_of_size (size_sub (b_size b) (b_len b)), h)
          | BIO_C_GET_READ_REQUEST \<Rightarrow> Some (long_of_size (request b), h)
          | BIO_C_RESET_READ_REQUEST \<Rightarrow> Some (1, put_b h bio (b\<lparr>request := 0\<rparr>))
          | BIO_C_SHUTDOWN_WR \<Rightarrow> Some (1, put_b h bio (b\<lparr>closed := True\<rparr>))
          | BIO_CTRL_GET_CLOSE \<Rightarrow> Some (bio_shutdown B, h)
          | BIO_CTRL_SET_CLOSE \<Rightarrow> Some (1, h(bio \<mapsto> B\<lparr>bio_shutdown := sint (word_of_int num :: u32)\<rparr>))
          | BIO_CTRL_PENDING \<Rightarrow>
              (case peer b of
                 Some peer_bio \<Rightarrow> do { peer_b \<leftarrow> get_b h peer_bio; Some (long_of_size (b_len peer_b), h) }
               | None \<Rightarrow> Some (0, h))
          | BIO_CTRL_WPENDING \<Rightarrow> Some (if b_buf b \<noteq> None then long_of_size (b_len b) else 0, h)
          | BIO_CTRL_FLUSH \<Rightarrow> Some (1, h)
          | BIO_CTRL_EOF \<Rightarrow>
              (case ptr of
                 Some other_bio \<Rightarrow> do { other_b \<leftarrow> get_b h other_bio; Some (if b_len other_b = 0 \<and> closed other_b then 1 else 0, h) }
               | None \<Rightarrow> Some (1, h))
          | BIO_CTRL_OTHER \<Rightarrow> Some (0, h) }"

section \<open>The interface\<close>

text \<open>What is used of \<open>bio.c\<close>.\<close>

record bio_lib =
  BIO_new :: "bios \<Rightarrow> nat option \<times> bios"
  BIO_free :: "bios \<Rightarrow> nat option \<Rightarrow> bios"
  BIO_ctrl :: "bios \<Rightarrow> nat \<Rightarrow> bio_cmd \<Rightarrow> int \<Rightarrow> nat option \<Rightarrow> (int \<times> bios) option"

definition BIO_new_bio_pair :: "bio_lib \<Rightarrow> allocator \<Rightarrow> bios \<Rightarrow> nat \<Rightarrow> nat \<Rightarrow> ((nat \<times> nat) option \<times> bios) option" where
  "BIO_new_bio_pair L H h writebuf1_len writebuf2_len =
     (let (bio1, h) = BIO_new L h;
          (bio2, h) = BIO_new L h;
          fail = (\<lambda>h. Some (None, BIO_free L (BIO_free L h bio1) bio2)) in
      case (bio1, bio2) of
        (Some p1, Some p2) \<Rightarrow>
          do { (ok, h) \<leftarrow> bio_make_pair H h p1 p2 writebuf1_len writebuf2_len;
               if \<not> ok then fail h else Some (Some (p1, p2), h) }
      | _ \<Rightarrow> fail h)"

definition BIO_ctrl_get_read_request :: "bio_lib \<Rightarrow> bios \<Rightarrow> nat \<Rightarrow> (nat \<times> bios) option" where
  "BIO_ctrl_get_read_request L h bio =
     do { (ret, h) \<leftarrow> BIO_ctrl L h bio BIO_C_GET_READ_REQUEST 0 None; Some (size_of_int ret, h) }"

definition BIO_ctrl_get_write_guarantee :: "bio_lib \<Rightarrow> bios \<Rightarrow> nat \<Rightarrow> (nat \<times> bios) option" where
  "BIO_ctrl_get_write_guarantee L h bio =
     do { (ret, h) \<leftarrow> BIO_ctrl L h bio BIO_C_GET_WRITE_GUARANTEE 0 None; Some (size_of_int ret, h) }"

definition BIO_shutdown_wr :: "bio_lib \<Rightarrow> bios \<Rightarrow> nat \<Rightarrow> (int \<times> bios) option" where
  "BIO_shutdown_wr L h bio =
     do { (ret, h) \<leftarrow> BIO_ctrl L h bio BIO_C_SHUTDOWN_WR 0 None; Some (sint (word_of_int ret :: u32), h) }"

end
