(* ===== verification/BIO_Ring.thy ===== *)
theory BIO_Ring
  imports BIO_Pair
begin

text \<open>
  One direction of a BIO pair: the ring buffer behaves as a queue. The locale \<open>ring_queue\<close> is what the
  functions on BIOs rely on: reading takes bytes from the front and writing puts them at the back.
\<close>

section \<open>Buffers\<close>

definition ring_ok :: "bio_bio_st \<Rightarrow> bool" where
  "ring_ok b \<longleftrightarrow> (case b_buf b of None \<Rightarrow> False | Some ring \<Rightarrow>
     length ring = b_size b \<and> 0 < b_size b \<and> b_size b < 2 ^ 63 \<and> b_len b \<le> b_size b \<and> b_offset b < b_size b \<and>
     (b_len b = 0 \<longrightarrow> b_offset b = 0))"

definition ring_data :: "bio_bio_st \<Rightarrow> u8 list" where
  "ring_data b = (case b_buf b of None \<Rightarrow> [] | Some ring \<Rightarrow> take (b_len b) (drop (b_offset b) ring @ take (b_offset b) ring))"

text \<open>The fields that copying does not touch.\<close>

definition same_side :: "bio_bio_st \<Rightarrow> bio_bio_st \<Rightarrow> bool" where
  "same_side b b' \<longleftrightarrow> peer b' = peer b \<and> closed b' = closed b \<and> b_size b' = b_size b \<and> request b' = request b"

lemma same_side_refl: "same_side b b"
  by (simp add: same_side_def)

lemma same_side_trans: "same_side a b \<Longrightarrow> same_side b c \<Longrightarrow> same_side a c"
  by (simp add: same_side_def)

lemma length_ring_data: "ring_ok b \<Longrightarrow> length (ring_data b) = b_len b"
  by (auto simp: ring_ok_def ring_data_def split: option.splits)

lemma ring_data_request [simp]: "ring_data (b\<lparr>request := r\<rparr>) = ring_data b"
  by (simp add: ring_data_def split: option.split)

lemma ring_ok_request [simp]: "ring_ok (b\<lparr>request := r\<rparr>) = ring_ok b"
  by (simp add: ring_ok_def split: option.split)

section \<open>Reading\<close>

lemma ring_advance:
  assumes "off + n \<le> length ring" "n \<le> len" "len \<le> length ring"
  shows "take (len - n) (drop (off + n) ring @ take (off + n) ring) = drop n (take len (drop off ring @ take off ring))"
proof -
  let ?k = "len - n - (length ring - (off + n))"
  have "drop n (take len (drop off ring @ take off ring)) = take (len - n) (drop (off + n) ring @ take off ring)"
  proof -
    have "drop n (drop off ring @ take off ring) = drop (off + n) ring @ take off ring" using assms(1) by (simp add: add.commute)
    then show ?thesis by (simp only: drop_take)
  qed
  moreover have "take ?k (take (off + n) ring) = take ?k (take off ring)" using assms by (simp only: take_take) (auto simp: min_def)
  ultimately show ?thesis by (simp add: take_append)
qed

lemma read_chunk_eq:
  assumes ok: "ring_ok b" and rest: "0 < rest" "rest \<le> b_len b"
  shows "\<exists>n b'. 0 < n \<and> n \<le> rest \<and> read_chunk b rest = Some (take n (ring_data b), b', rest - n) \<and>
    ring_ok b' \<and> ring_data b' = drop n (ring_data b) \<and> same_side b b'"
proof -
  obtain ring where r: "b_buf b = Some ring" "length ring = b_size b" "b_size b < 2 ^ 63" "b_len b \<le> b_size b" "b_offset b < b_size b"
    using ok by (auto simp: ring_ok_def split: option.splits)
  define n where "n = (if b_offset b + rest \<le> b_size b then rest else b_size b - b_offset b)"
  let ?off = "if b_len b = n \<or> b_offset b + n = b_size b then 0 else b_offset b + n"
  let ?b = "b\<lparr>b_len := b_len b - n, b_offset := ?off\<rparr>"
  have n: "0 < n" "n \<le> rest" "b_offset b + n \<le> b_size b" "n < rest \<Longrightarrow> b_offset b + n = b_size b" using r rest by (auto simp: n_def)
  have sz: "size_add (b_offset b) rest = b_offset b + rest" "size_sub (b_size b) (b_offset b) = b_size b - b_offset b"
    "size_add (b_offset b) n = b_offset b + n" "size_sub (b_len b) n = b_len b - n" "size_sub rest n = rest - n"
    using r rest n(1-3) by (auto intro!: size_sub_small)
  have "read_chunk b rest = Some (take n (drop (b_offset b) ring), ?b, rest - n)"
    using r rest n unfolding read_chunk_def Let_def sz n_def [symmetric] by (auto simp: sz)
  moreover have "take n (drop (b_offset b) ring) = take n (ring_data b)"
    using r rest n(1-3) by (auto simp: ring_data_def min_def)
  moreover have "ring_ok ?b" using r rest n(1-3) by (auto simp: ring_ok_def)
  moreover have "ring_data ?b = drop n (ring_data b)"
  proof -
    have a: "take (b_len b - n) (drop (b_offset b + n) ring @ take (b_offset b + n) ring) = drop n (ring_data b)"
      using ring_advance [of "b_offset b" n ring "b_len b"] r rest n(2,3) by (simp add: ring_data_def)
    consider "b_len b = n" | "b_offset b + n = length ring" | "b_len b \<noteq> n" "b_offset b + n \<noteq> length ring" by blast
    then show ?thesis using a r(1,2) by cases (auto simp: ring_data_def)
  qed
  ultimately show ?thesis using n(1,2) by (intro exI [of _ n] exI [of _ ?b]) (simp add: same_side_def)
qed

lemma read_loop_eq:
  "ring_ok b \<Longrightarrow> 0 < rest \<Longrightarrow> rest \<le> b_len b \<Longrightarrow>
   \<exists>b'. read_loop b rest buf = Some (buf @ take rest (ring_data b), b') \<and> ring_ok b' \<and>
     ring_data b' = drop rest (ring_data b) \<and> same_side b b'"
proof (induction rest arbitrary: b buf rule: less_induct)
  case (less rest)
  obtain n b1 where c: "0 < n" "n \<le> rest" "read_chunk b rest = Some (take n (ring_data b), b1, rest - n)" "ring_ok b1"
    "ring_data b1 = drop n (ring_data b)" "same_side b b1" using read_chunk_eq [OF less.prems] by blast
  show ?case
  proof (cases "n = rest")
    case True
    then show ?thesis using c by (subst read_loop.simps) simp
  next
    case False
    have "b_len b1 = b_len b - n" using c(5) length_ring_data [OF c(4)] length_ring_data [OF less.prems(1)] by simp
    then have "rest - n \<le> b_len b1" "0 < rest - n" "rest - n < rest" using less.prems c(1,2) False by simp_all
    from less.IH [OF this(3) c(4) this(2,1), of "buf @ take n (ring_data b)"] obtain b' where b':
      "read_loop b1 (rest - n) (buf @ take n (ring_data b)) = Some ((buf @ take n (ring_data b)) @ take (rest - n) (ring_data b1), b')"
      "ring_ok b'" "ring_data b' = drop (rest - n) (ring_data b1)" "same_side b1 b'" by blast
    have "take n (ring_data b) @ take (rest - n) (ring_data b1) = take rest (ring_data b)"
      using c(2,5) take_add [of n "rest - n" "ring_data b"] by simp
    moreover have "ring_data b' = drop rest (ring_data b)" using b'(3) c(2,5) by simp
    ultimately show ?thesis
      using b' c False same_side_trans [OF c(6) b'(4)] by (subst read_loop.simps) simp
  qed
qed

section \<open>Writing\<close>

lemma write_chunk_eq:
  assumes ok: "ring_ok b" and rest: "0 < rest" "b_len b + rest \<le> b_size b" "rest \<le> length buf"
  shows "\<exists>n b'. 0 < n \<and> n \<le> rest \<and> write_chunk b buf rest = Some (b', drop n buf, rest - n) \<and>
    ring_ok b' \<and> ring_data b' = ring_data b @ take n buf \<and> same_side b b'"
proof -
  obtain ring where r: "b_buf b = Some ring" "length ring = b_size b" "b_size b < 2 ^ 63" "b_len b \<le> b_size b" "b_offset b < b_size b"
    using ok by (auto simp: ring_ok_def split: option.splits)
  define w where "w = (if b_size b \<le> b_offset b + b_len b then b_offset b + b_len b - b_size b else b_offset b + b_len b)"
  define n where "n = (if w + rest \<le> b_size b then rest else b_size b - w)"
  let ?ring = "take w ring @ take n buf @ drop (w + n) ring"
  let ?b = "b\<lparr>b_buf := Some ?ring, b_len := b_len b + n\<rparr>"
  have w: "w < b_size b" using r rest by (auto simp: w_def)
  have n: "0 < n" "n \<le> rest" "w + n \<le> b_size b" using w rest by (auto simp: n_def)
  have sz: "size_add (b_len b) rest = b_len b + rest" "size_add (b_offset b) (b_len b) = b_offset b + b_len b"
    "size_add w rest = w + rest" "size_sub (b_size b) w = b_size b - w"
    "size_add (b_len b) n = b_len b + n" "size_sub rest n = rest - n"
    using r rest w n by (auto intro!: size_sub_small)
  have sw: "(if b_size b \<le> b_offset b + b_len b then size_sub (b_offset b + b_len b) (b_size b) else b_offset b + b_len b) = w"
    using r by (auto simp: w_def intro!: size_sub_small)
  have "write_chunk b buf rest = Some (?b, drop n buf, rest - n)"
    using r rest n w unfolding write_chunk_def Let_def sz(1,2) sw sz(3,4) n_def [symmetric] by (simp add: sz)
  moreover have "ring_ok ?b" using r rest n by (auto simp: ring_ok_def)
  moreover have "ring_data ?b = ring_data b @ take n buf"
  proof (cases "b_size b \<le> b_offset b + b_len b")
    case True
    then have nw: "n = rest" "w = b_offset b + b_len b - b_size b" "w + rest \<le> b_offset b" using r rest by (auto simp: n_def w_def)
    have len: "b_len b = (b_size b - b_offset b) + w" using True r(5) nw(2) by simp
    have d: "drop (b_offset b) ?ring = drop (b_offset b) ring" using nw(1,3) r(2,5) rest(3) by simp
    have "take (b_offset b) ?ring = take w ring @ take n buf @ take (b_offset b - (w + n)) (drop (w + n) ring)"
      using nw(1,3) r(2,5) rest(3) by (simp add: take_append min_absorb1 min_absorb2)
    then show ?thesis using nw(1,3) r(1,2,5) rest(3) len unfolding ring_data_def by (simp add: d min_def)
  next
    case False
    then have "w = b_offset b + b_len b" by (simp add: w_def)
    then show ?thesis using False r rest n by (auto simp: ring_data_def min_def drop_take)
  qed
  ultimately show ?thesis using n by (intro exI [of _ n] exI [of _ ?b]) (simp add: same_side_def)
qed

lemma write_loop_eq:
  "ring_ok b \<Longrightarrow> 0 < rest \<Longrightarrow> b_len b + rest \<le> b_size b \<Longrightarrow> rest \<le> length buf \<Longrightarrow>
   \<exists>b'. write_loop b buf rest = Some b' \<and> ring_ok b' \<and> ring_data b' = ring_data b @ take rest buf \<and> same_side b b'"
proof (induction rest arbitrary: b buf rule: less_induct)
  case (less rest)
  obtain n b1 where c: "0 < n" "n \<le> rest" "write_chunk b buf rest = Some (b1, drop n buf, rest - n)" "ring_ok b1"
    "ring_data b1 = ring_data b @ take n buf" "same_side b b1" using write_chunk_eq [OF less.prems] by blast
  show ?case
  proof (cases "n = rest")
    case True
    then show ?thesis using c by (subst write_loop.simps) simp
  next
    case False
    have "b_len b1 = b_len b + n"
      using arg_cong [OF c(5), of length] length_ring_data [OF c(4)] length_ring_data [OF less.prems(1)] less.prems(4) c(2) by simp
    then have "b_len b1 + (rest - n) \<le> b_size b1" "0 < rest - n" "rest - n < rest" "rest - n \<le> length (drop n buf)"
      using less.prems c(1,2,6) False by (simp_all add: same_side_def)
    from less.IH [OF this(3) c(4) this(2,1,4)] obtain b' where b': "write_loop b1 (drop n buf) (rest - n) = Some b'"
      "ring_ok b'" "ring_data b' = ring_data b1 @ take (rest - n) (drop n buf)" "same_side b1 b'" by blast
    have "take n buf @ take (rest - n) (drop n buf) = take rest buf" using c(2) take_add [of n "rest - n" buf] by simp
    then show ?thesis
      using b' c False same_side_trans [OF c(6) b'(4)] by (subst write_loop.simps) simp
  qed
qed

section \<open>The contract\<close>

locale ring_queue =
  fixes ok :: "'b \<Rightarrow> bool" and queue :: "'b \<Rightarrow> u8 list" and room :: "'b \<Rightarrow> nat"
    and get :: "'b \<Rightarrow> nat \<Rightarrow> (u8 list \<times> 'b) option" and put :: "'b \<Rightarrow> u8 list \<Rightarrow> 'b option"
  assumes get: "ok b \<Longrightarrow> 0 < n \<Longrightarrow> n \<le> length (queue b) \<Longrightarrow>
      \<exists>b'. get b n = Some (take n (queue b), b') \<and> ok b' \<and> queue b' = drop n (queue b) \<and> room b' = room b + n"
    and put: "ok b \<Longrightarrow> xs \<noteq> [] \<Longrightarrow> length xs \<le> room b \<Longrightarrow>
      \<exists>b'. put b xs = Some b' \<and> ok b' \<and> queue b' = queue b @ xs \<and> room b' + length xs = room b"
begin

text \<open>What goes in comes out, in order.\<close>

lemma put_get:
  assumes "ok b" "queue b = []" "xs \<noteq> []" "length xs \<le> room b"
  shows "\<exists>b1 b2. put b xs = Some b1 \<and> get b1 (length xs) = Some (xs, b2) \<and> ok b2 \<and> queue b2 = [] \<and> room b2 = room b"
proof -
  obtain b1 where b1: "put b xs = Some b1" "ok b1" "queue b1 = xs" "room b1 + length xs = room b"
    using put [OF assms(1,3,4)] assms(2) by auto
  have "\<exists>b2. get b1 (length xs) = Some (take (length xs) (queue b1), b2) \<and> ok b2 \<and> queue b2 = drop (length xs) (queue b1) \<and>
      room b2 = room b1 + length xs" using assms(3) b1 by (intro get) auto
  then show ?thesis using b1 by auto
qed

end

interpretation ring: ring_queue ring_ok ring_data "\<lambda>b. b_size b - b_len b" "\<lambda>b n. read_loop b n []" "\<lambda>b xs. write_loop b xs (length xs)"
proof
  show "\<exists>b'. read_loop b n [] = Some (take n (ring_data b), b') \<and> ring_ok b' \<and> ring_data b' = drop n (ring_data b) \<and>
      b_size b' - b_len b' = b_size b - b_len b + n"
    if b: "ring_ok b" "0 < n" "n \<le> length (ring_data b)" for b n
  proof -
    have l: "b_len b \<le> b_size b" "n \<le> b_len b" using b length_ring_data [of b] by (auto simp: ring_ok_def split: option.splits)
    obtain b' where "read_loop b n [] = Some ([] @ take n (ring_data b), b')" "ring_ok b'" "ring_data b' = drop n (ring_data b)" "same_side b b'"
      using read_loop_eq [OF b(1,2) l(2), of "[]"] by blast
    then show ?thesis using l length_ring_data [of b'] length_ring_data [OF b(1)] by (auto simp: same_side_def)
  qed
  show "\<exists>b'. write_loop b xs (length xs) = Some b' \<and> ring_ok b' \<and> ring_data b' = ring_data b @ xs \<and>
      b_size b' - b_len b' + length xs = b_size b - b_len b"
    if b: "ring_ok b" "xs \<noteq> []" "length xs \<le> b_size b - b_len b" for b xs
  proof -
    have l: "0 < length xs" "b_len b + length xs \<le> b_size b" using b by (auto simp: ring_ok_def split: option.splits)
    obtain b' where b': "write_loop b xs (length xs) = Some b'" "ring_ok b'" "ring_data b' = ring_data b @ take (length xs) xs" "same_side b b'"
      using write_loop_eq [OF b(1) l order_refl] by blast
    have "b_len b' = b_len b + length xs" using b'(2,3) length_ring_data [of b'] length_ring_data [OF b(1)] by simp
    then show ?thesis using b' l by (auto simp: same_side_def)
  qed
qed

end
