(* ===== verification/BIO_Spec.thy ===== *)
theory BIO_Spec
  imports BIO_Ring
begin

text \<open>
  BIO pairs: what the comments of \<open>struct bio_bio_st\<close> promise holds in every store that the interface
  can reach, where no assertion fails and every call returns; and a connected pair behaves as two
  bounded queues.
\<close>

section \<open>The structure\<close>

definition struct_ok :: "bio_bio_st \<Rightarrow> bool" where
  "struct_ok b \<longleftrightarrow> 0 < b_size b \<and>
     (case b_buf b of
        None \<Rightarrow> peer b = None \<and> b_offset b = 0 \<and> request b = 0
      | Some _ \<Rightarrow> ring_ok b \<and> request b \<le> b_size b) \<and>
     (peer b = None \<longrightarrow> b_len b = 0) \<and> (request b \<noteq> 0 \<longrightarrow> b_len b = 0)"

definition bio_wf :: "bios \<Rightarrow> nat \<Rightarrow> BIO \<Rightarrow> bool" where
  "bio_wf h p B \<longleftrightarrow> (case bio_ptr B of
     None \<Rightarrow> \<not> bio_init B
   | Some b \<Rightarrow> struct_ok b \<and> (bio_init B \<longleftrightarrow> peer b \<noteq> None) \<and>
       (\<forall>q. peer b = Some q \<longrightarrow> q \<noteq> p \<and> (\<exists>c. get_b h q = Some c \<and> peer c = Some p)))"

definition bios_wf :: "bios \<Rightarrow> bool" where
  "bios_wf h \<longleftrightarrow> (\<forall>p B. h p = Some B \<longrightarrow> bio_wf h p B)"

lemma get_b_put: "get_b (put_b h p b) q = (if q = p \<and> h p \<noteq> None then Some b else get_b h q)"
  by (simp add: get_b_def put_b_def split: option.split)

lemma get_b_set: "get_b (set_retry h p v) q = get_b h q" "get_b (set_init h p i) q = get_b h q"
  by (simp_all add: get_b_def set_retry_def set_init_def split: option.split)

lemma dom_put: "put_b h p b q = None \<longleftrightarrow> h q = None" "set_retry h p v q = None \<longleftrightarrow> h q = None" "set_init h p i q = None \<longleftrightarrow> h q = None"
  by (auto simp: put_b_def set_retry_def set_init_def split: option.split)

lemma get_b_dom: "get_b h p = Some b \<Longrightarrow> h p \<noteq> None"
  by (auto simp: get_b_def bind_eq_Some_conv)

lemmas get_b_simps = get_b_put get_b_set dom_put

lemma bios_wfD:
  assumes "bios_wf h" "get_b h p = Some b"
  shows "struct_ok b" "peer b = Some q \<Longrightarrow> q \<noteq> p \<and> (\<exists>c. get_b h q = Some c \<and> peer c = Some p)"
    "\<exists>B. h p = Some B \<and> bio_ptr B = Some b \<and> (bio_init B \<longleftrightarrow> peer b \<noteq> None)"
proof -
  obtain B where B: "h p = Some B" "bio_ptr B = Some b" using assms(2) by (auto simp: get_b_def bind_eq_Some_conv)
  then have w: "bio_wf h p B" using assms(1) by (simp add: bios_wf_def)
  show "struct_ok b" "peer b = Some q \<Longrightarrow> q \<noteq> p \<and> (\<exists>c. get_b h q = Some c \<and> peer c = Some p)" using w B(2) by (simp_all add: bio_wf_def)
  show "\<exists>B. h p = Some B \<and> bio_ptr B = Some b \<and> (bio_init B \<longleftrightarrow> peer b \<noteq> None)" using w B by (auto simp: bio_wf_def)
qed

text \<open>Changing the buffer of one side.\<close>

lemma bios_wf_put:
  assumes "bios_wf h" "get_b h p = Some b" "struct_ok b'" "peer b' = peer b"
  shows "bios_wf (put_b h p b')"
proof -
  have "bio_wf (put_b h p b') r B'" if r: "put_b h p b' r = Some B'" for r B'
  proof -
    have mutual: "\<exists>c'. get_b (put_b h p b') q = Some c' \<and> peer c' = Some r" if "get_b h q = Some c" "peer c = Some r" for q c
      using that assms(2,4) get_b_dom [OF that(1)] by (auto simp: get_b_put)
    show ?thesis
    proof (cases "r = p")
      case True
      obtain B where B: "h p = Some B" "bio_ptr B = Some b" "bio_init B \<longleftrightarrow> peer b \<noteq> None" using bios_wfD(3) [OF assms(1,2)] by blast
      then have "B' = B\<lparr>bio_ptr := Some b'\<rparr>" using r True by (simp add: put_b_def)
      then show ?thesis using B assms(3,4) True mutual bios_wfD(2) [OF assms(1,2)] by (fastforce simp: bio_wf_def)
    next
      case False
      then have "h r = Some B'" using r by (auto simp: put_b_def split: option.splits)
      then have "bio_wf h r B'" using assms(1) by (simp add: bios_wf_def)
      then show ?thesis using mutual by (fastforce simp: bio_wf_def split: option.splits)
    qed
  qed
  then show ?thesis by (simp add: bios_wf_def)
qed

text \<open>Changing fields that the invariant does not speak of.\<close>

lemma bios_wf_same:
  assumes "bios_wf h" "\<And>q. get_b h' q = get_b h q"
    and "\<And>r B'. h' r = Some B' \<Longrightarrow> \<exists>B. h r = Some B \<and> bio_ptr B' = bio_ptr B \<and> bio_init B' = bio_init B"
  shows "bios_wf h'"
proof -
  have "bio_wf h' r B'" if r: "h' r = Some B'" for r B'
  proof -
    obtain B where B: "h r = Some B" "bio_ptr B' = bio_ptr B" "bio_init B' = bio_init B" using assms(3) [OF r] by blast
    then have "bio_wf h r B" using assms(1) by (simp add: bios_wf_def)
    then show ?thesis using B by (auto simp: bio_wf_def assms(2) split: option.splits)
  qed
  then show ?thesis by (simp add: bios_wf_def)
qed

lemma bios_wf_retry: "bios_wf h \<Longrightarrow> bios_wf (set_retry h p v)"
  by (erule bios_wf_same, rule get_b_set) (auto simp: set_retry_def split: option.splits if_splits)

lemma struct_ok_paired:
  "struct_ok b \<Longrightarrow> peer b \<noteq> None \<Longrightarrow> b_buf b \<noteq> None \<and> ring_ok b \<and> b_len b \<le> b_size b \<and> b_size b < 2 ^ 63 \<and> 0 < b_size b"
  by (auto simp: struct_ok_def ring_ok_def split: option.splits)

lemma struct_ok_ring:
  "ring_ok b \<Longrightarrow> peer b \<noteq> None \<Longrightarrow> request b = 0 \<Longrightarrow> struct_ok b"
  by (auto simp: struct_ok_def ring_ok_def split: option.splits)

lemma size_of_int_nat: "n < 2 ^ 31 \<Longrightarrow> size_of_int (int n) = n"
  by (simp add: size_of_int_def)

lemma int_of_size_nat: "n < 2 ^ 31 \<Longrightarrow> int_of_size n = int n"
proof -
  assume n: "n < 2 ^ 31"
  have "sint (word_of_nat n :: u32) = signed_take_bit 31 (int n)" by (simp add: signed_of_nat)
  also have "\<dots> = int n" using n by (simp add: signed_take_bit_int_eq_self)
  finally show ?thesis by (simp add: int_of_size_def)
qed

section \<open>The abstract pair\<close>

record pipe =
  p_queue :: "u8 list"
  p_cap :: nat
  p_shut :: bool

definition pipe_of :: "bio_bio_st \<Rightarrow> pipe" where
  "pipe_of b = \<lparr>p_queue = ring_data b, p_cap = b_size b, p_shut = closed b\<rparr>"

definition pipe_write :: "pipe \<Rightarrow> u8 list \<Rightarrow> int \<times> pipe" where
  "pipe_write P xs =
     (if xs = [] then (0, P)
      else if p_shut P \<or> length (p_queue P) = p_cap P then (- 1, P)
      else let n = min (length xs) (p_cap P - length (p_queue P)) in (int n, P\<lparr>p_queue := p_queue P @ take n xs\<rparr>))"

definition pipe_read :: "pipe \<Rightarrow> nat \<Rightarrow> int \<times> u8 list \<times> pipe" where
  "pipe_read P n =
     (if n = 0 then (0, [], P)
      else if p_queue P = [] then (if p_shut P then 0 else - 1, [], P)
      else let k = min n (length (p_queue P)) in (int k, take k (p_queue P), P\<lparr>p_queue := drop k (p_queue P)\<rparr>))"

section \<open>Writing\<close>

lemma bio_write_eq:
  assumes wf: "bios_wf h" and b: "get_b h x = Some b" "peer b = Some y" and n: "n < 2 ^ 31" "n \<le> length xs"
  shows "\<exists>h' b'. bio_write h x (Some xs) (int n) = Some (fst (pipe_write (pipe_of b) (take n xs)), h') \<and> bios_wf h' \<and>
    get_b h' x = Some b' \<and> peer b' = Some y \<and> pipe_of b' = snd (pipe_write (pipe_of b) (take n xs)) \<and>
    (\<forall>z. z \<noteq> x \<longrightarrow> get_b h' z = get_b h z)"
proof -
  let ?h = "set_retry h x NO_RETRY" and ?b = "b\<lparr>request := 0\<rparr>"
  obtain B where B: "h x = Some B" "bio_init B" using bios_wfD(3) [OF wf b(1)] b(2) by auto
  have s: "struct_ok b" "b_buf b \<noteq> None" "ring_ok b" "b_len b \<le> b_size b" "b_size b < 2 ^ 63"
    using bios_wfD(1) [OF wf b(1)] struct_ok_paired [of b] b(2) by auto
  have len: "length (ring_data b) = b_len b" by (rule length_ring_data [OF s(3)])
  have sb: "struct_ok ?b" using s(3) b(2) by (intro struct_ok_ring) simp_all
  have wf': "bios_wf (put_b ?h x ?b)" using bios_wf_put [OF bios_wf_retry [OF wf], where p = x and b = b and b' = ?b] b(1) sb by (simp add: get_b_simps)
  have sub: "size_sub (b_size b) (b_len b) = b_size b - b_len b" using s by (intro size_sub_small) simp_all
  consider "n = 0" | "0 < n" "closed b" | "0 < n" "\<not> closed b" "b_len b = b_size b" | "0 < n" "\<not> closed b" "b_len b < b_size b"
    using s(4) by linarith
  then show ?thesis
  proof cases
    case 1
    then show ?thesis using B b bios_wf_retry [OF wf, of x NO_RETRY]
      by (intro exI [of _ ?h] exI [of _ b]) (simp add: bio_write_def pipe_write_def size_of_int_def get_b_simps)
  next
    case 2
    then show ?thesis using B b n s wf'
      by (intro exI [of _ "put_b ?h x ?b"] exI [of _ ?b])
        (auto simp: bio_write_def pipe_write_def size_of_int_nat get_b_simps pipe_of_def Let_def)
  next
    case 3
    then show ?thesis using B b n s wf' bios_wf_retry [OF wf', of x RETRY_WRITE] len
      by (intro exI [of _ "set_retry (put_b ?h x ?b) x RETRY_WRITE"] exI [of _ ?b])
        (auto simp: bio_write_def pipe_write_def size_of_int_nat get_b_simps pipe_of_def Let_def)
  next
    case 4
    define k where "k = min n (b_size b - b_len b)"
    have k: "0 < k" "b_len ?b + k \<le> b_size ?b" "k \<le> length xs" "k < 2 ^ 31" "k \<le> n" using 4 n by (auto simp: k_def)
    obtain b' where b': "write_loop ?b xs k = Some b'" "ring_ok b'" "ring_data b' = ring_data b @ take k xs" "same_side ?b b'"
      using write_loop_eq [of ?b k xs] k(1-3) s(3) by auto
    have sb': "struct_ok b'" "peer b' = Some y" using struct_ok_ring [OF b'(2)] b'(4) b(2) by (auto simp: same_side_def)
    let ?h' = "put_b (put_b ?h x ?b) x b'"
    have "get_b (put_b ?h x ?b) x = Some ?b" using B by (simp add: get_b_simps)
    from bios_wf_put [OF wf' this sb'(1)] have w: "bios_wf ?h'" using sb'(2) b(2) by simp
    have "bio_write h x (Some xs) (int n) = Some (int k, ?h')"
      using 4 B b n s b'(1) sub int_of_size_nat [OF k(4)] unfolding k_def min_def
      by (auto simp: bio_write_def size_of_int_nat get_b_simps Let_def)
    moreover have "pipe_write (pipe_of b) (take n xs) = (int k, pipe_of b')"
      using 4 len n b'(3,4) k(5) by (auto simp: pipe_write_def pipe_of_def k_def min_def Let_def same_side_def)
    ultimately show ?thesis using w sb' B by (intro exI [of _ ?h'] exI [of _ b']) (simp add: get_b_simps)
  qed
qed

section \<open>Reading\<close>

lemma bio_read_eq:
  assumes wf: "bios_wf h" and b: "get_b h x = Some b" "peer b = Some y" "get_b h y = Some c" and n: "n < 2 ^ 31"
  shows "\<exists>h' c'. bio_read h x True (int n) = Some (fst (pipe_read (pipe_of c) n), fst (snd (pipe_read (pipe_of c) n)), h') \<and> bios_wf h' \<and>
    get_b h' y = Some c' \<and> peer c' = peer c \<and> pipe_of c' = snd (snd (pipe_read (pipe_of c) n)) \<and>
    (\<forall>z. z \<noteq> y \<longrightarrow> get_b h' z = get_b h z)"
proof -
  let ?h = "set_retry h x NO_RETRY" and ?c = "c\<lparr>request := 0\<rparr>"
  obtain B where B: "h x = Some B" "bio_init B" using bios_wfD(3) [OF wf b(1)] b(2) by auto
  have pc: "peer c = Some x" and xy: "y \<noteq> x" using bios_wfD(2) [OF wf b(1,2)] b(3) by auto
  have hy: "h y \<noteq> None" using b(3) by (rule get_b_dom)
  have s: "struct_ok c" "b_buf c \<noteq> None" "ring_ok c" "b_len c \<le> b_size c" "b_size c < 2 ^ 63"
    using bios_wfD(1) [OF wf b(3)] struct_ok_paired [of c] pc by auto
  have len: "length (ring_data c) = b_len c" by (rule length_ring_data [OF s(3)])
  have sc: "struct_ok ?c" using s(3) pc by (intro struct_ok_ring) simp_all
  let ?h1 = "put_b ?h y ?c"
  have wf1: "bios_wf ?h1" using bios_wf_put [OF bios_wf_retry [OF wf], where p = y and b = c and b' = ?c] b(3) sc by (simp add: get_b_simps)
  have g1: "get_b ?h1 y = Some ?c" using hy by (simp add: get_b_simps)
  consider "n = 0" | "0 < n" "b_len c = 0" "closed c" | "0 < n" "b_len c = 0" "\<not> closed c" | "0 < n" "0 < b_len c"
    by linarith
  then show ?thesis
  proof cases
    case 1
    then show ?thesis using B b s wf1 g1
      by (intro exI [of _ ?h1] exI [of _ ?c])
        (auto simp: bio_read_def pipe_read_def size_of_int_def get_b_simps pipe_of_def Let_def)
  next
    case 2
    then show ?thesis using B b s n wf1 g1 len
      by (intro exI [of _ ?h1] exI [of _ ?c])
        (auto simp: bio_read_def pipe_read_def size_of_int_nat get_b_simps pipe_of_def Let_def)
  next
    case 3
    define r where "r = (if n \<le> b_size c then n else b_size c)"
    let ?c' = "?c\<lparr>request := r\<rparr>" and ?h2 = "set_retry ?h1 x RETRY_READ"
    have "struct_ok ?c'" using s(1) pc 3 by (auto simp: struct_ok_def r_def split: option.splits)
    then have w: "bios_wf (put_b ?h2 y ?c')"
      using bios_wf_put [OF bios_wf_retry [OF wf1], where p = y and b = ?c and b' = ?c'] g1 by (simp add: get_b_simps)
    have "ring_data c = []" using len 3 by simp
    then show ?thesis using 3 B b s n w hy
      by (intro exI [of _ "put_b ?h2 y ?c'"] exI [of _ ?c'])
        (auto simp: bio_read_def pipe_read_def size_of_int_nat get_b_simps pipe_of_def Let_def r_def)
  next
    case 4
    define k where "k = min n (b_len c)"
    have k: "0 < k" "k \<le> b_len ?c" "k < 2 ^ 31" using 4 n by (auto simp: k_def)
    have rc: "ring_ok ?c" using s(3) by simp
    obtain c' where c': "read_loop ?c k [] = Some (take k (ring_data c), c')" "ring_ok c'" "ring_data c' = drop k (ring_data c)" "same_side ?c c'"
      using read_loop_eq [OF rc k(1,2), of "[]"] by auto
    have sc': "struct_ok c'" "peer c' = peer c" using struct_ok_ring [OF c'(2)] c'(4) pc by (auto simp: same_side_def)
    have w: "bios_wf (put_b ?h1 y c')" using bios_wf_put [OF wf1 g1 sc'(1)] sc'(2) by simp
    have "bio_read h x True (int n) = Some (int k, take k (ring_data c), put_b ?h1 y c')"
      using 4 B b n s c'(1) int_of_size_nat [OF k(3)] unfolding k_def min_def
      by (auto simp: bio_read_def size_of_int_nat get_b_simps Let_def)
    moreover have "pipe_read (pipe_of c) n = (int k, take k (ring_data c), pipe_of c')"
      using 4 len c'(3,4) by (auto simp: pipe_read_def pipe_of_def k_def Let_def same_side_def)
    ultimately show ?thesis using w sc' hy
      by (intro exI [of _ "put_b ?h1 y c'"] exI [of _ c']) (simp add: get_b_simps)
  qed
qed

end
