(* ===== verification/BIO_Thms.thy ===== *)
theory BIO_Thms
  imports BIO_Spec
begin

text \<open>
  BIO pairs: the invariant of the structure in every store that the interface can reach, where every
  call returns; and the refinement of a connected pair to two bounded queues.
\<close>

section \<open>Connecting and disconnecting\<close>

text \<open>Two BIOs that have no peer or are each other's become unconnected or connected.\<close>

lemma bios_wf_relink:
  assumes wf: "bios_wf h" and pq: "p \<noteq> q" and b: "get_b h p = Some b" "get_b h q = Some c"
    and before: "peer b = None \<and> peer c = None \<or> peer b = Some q \<and> peer c = Some p"
    and after: "peer b' = None \<and> peer c' = None \<and> \<not> i \<or> peer b' = Some q \<and> peer c' = Some p \<and> i"
    and ok: "struct_ok b'" "struct_ok c'"
    and p: "h' p = Some P" "bio_ptr P = Some b'" "bio_init P = i" and q: "h' q = Some Q" "bio_ptr Q = Some c'" "bio_init Q = i"
    and other: "\<And>r. r \<noteq> p \<Longrightarrow> r \<noteq> q \<Longrightarrow> h' r = h r"
  shows "bios_wf h'"
proof -
  have g: "get_b h' p = Some b'" "get_b h' q = Some c'" using p q by (simp_all add: get_b_def)
  have "bio_wf h' r B" if r: "h' r = Some B" for r B
  proof (cases "r = p \<or> r = q")
    case True
    then show ?thesis using r p q g after ok pq by (auto simp: bio_wf_def)
  next
    case False
    then have hr: "h r = Some B" using r other by simp
    then have w: "bio_wf h r B" using wf by (simp add: bios_wf_def)
    have "get_b h' t = get_b h t" if "get_b h t = Some d" "peer d = Some r" for t d
      using that b before False pq by (cases "t = p \<or> t = q") (auto simp: get_b_def other)
    then show ?thesis using w by (fastforce simp: bio_wf_def split: option.splits)
  qed
  then show ?thesis by (simp add: bios_wf_def)
qed

text \<open>A BIO without a peer is replaced by one without a structure, or removed.\<close>

lemma bios_wf_drop:
  assumes wf: "bios_wf h" and b: "\<And>b. get_b h p = Some b \<Longrightarrow> peer b = None"
    and B: "\<And>B. B' = Some B \<Longrightarrow> (case bio_ptr B of None \<Rightarrow> \<not> bio_init B | Some b \<Rightarrow> struct_ok b \<and> peer b = None \<and> \<not> bio_init B)"
  shows "bios_wf (h(p := B'))"
proof -
  have "bio_wf (h(p := B')) r C" if r: "(h(p := B')) r = Some C" for r C
  proof (cases "r = p")
    case True
    then show ?thesis using r B by (auto simp: bio_wf_def split: option.splits)
  next
    case False
    then have w: "bio_wf h r C" using r wf by (simp add: bios_wf_def)
    have "get_b (h(p := B')) t = get_b h t" if "get_b h t = Some d" "peer d = Some r" for t d
      using that b by (cases "t = p") (auto simp: get_b_def)
    then show ?thesis using w by (fastforce simp: bio_wf_def split: option.splits)
  qed
  then show ?thesis by (simp add: bios_wf_def)
qed

lemma make_buf_ok:
  assumes "struct_ok b" "peer b = None" "\<forall>n. alloc_ok H n \<longrightarrow> n < 2 ^ 63" "make_buf H b n = (ok, b')"
  shows "struct_ok b'" "peer b' = None" "b_len b' = 0" "ok \<Longrightarrow> ring_ok b'"
  using assms by (auto simp: make_buf_def struct_ok_def ring_ok_def Let_def split: if_splits option.splits)

lemma struct_ok_disconnected: "struct_ok b \<Longrightarrow> struct_ok (b\<lparr>peer := None, b_len := 0, b_offset := 0\<rparr>)"
  by (auto simp: struct_ok_def ring_ok_def split: option.splits)

lemma get_bE:
  assumes "get_b h p = Some b"
  obtains B where "h p = Some B" "bio_ptr B = Some b"
  using assms by (auto simp: get_b_def bind_eq_Some_conv)

lemma bio_destroy_pair_ok:
  assumes wf: "bios_wf h" and b: "get_b h p = Some b" "peer b = Some q"
  shows "\<exists>h'. bio_destroy_pair h p = Some h' \<and> bios_wf h' \<and> (\<exists>b'. get_b h' p = Some b' \<and> peer b' = None) \<and>
    (\<forall>r. get_b h' r = None \<longleftrightarrow> get_b h r = None)"
proof -
  obtain c where c: "get_b h q = Some c" "peer c = Some p" and pq: "q \<noteq> p" using bios_wfD(2) [OF wf b] by blast
  obtain P Q where P: "h p = Some P" "bio_ptr P = Some b" and Q: "h q = Some Q" "bio_ptr Q = Some c" using b(1) c(1) by (metis get_bE)
  let ?b = "b\<lparr>peer := None, b_len := 0, b_offset := 0\<rparr>" and ?c = "c\<lparr>peer := None, b_len := 0, b_offset := 0\<rparr>"
  let ?P = "P\<lparr>bio_init := False, bio_ptr := Some ?b\<rparr>" and ?Q = "Q\<lparr>bio_init := False, bio_ptr := Some ?c\<rparr>"
  let ?h = "h(q \<mapsto> ?Q, p \<mapsto> ?P)"
  have s: "struct_ok b" "struct_ok c" "b_buf b \<noteq> None" "b_buf c \<noteq> None"
    using bios_wfD(1) [OF wf b(1)] bios_wfD(1) [OF wf c(1)] struct_ok_paired [of b] struct_ok_paired [of c] b c by auto
  have "bio_destroy_pair h p = Some ?h"
    using P Q b c s(3,4) pq by (simp add: bio_destroy_pair_def Let_def get_b_def put_b_def set_init_def)
  moreover have "bios_wf ?h"
    using bios_wf_relink [OF wf pq [symmetric] b(1) c(1), of ?b ?c False ?h ?P ?Q] b(2) c(2) pq
      struct_ok_disconnected [OF s(1)] struct_ok_disconnected [OF s(2)] by simp
  ultimately show ?thesis using P Q pq by (auto simp: get_b_def)
qed

lemma bio_free_ok:
  assumes wf: "bios_wf h" and b: "get_b h p = Some b"
  shows "\<exists>h'. bio_free h p = Some (True, h') \<and> bios_wf h' \<and> bios_wf (h'(p := None)) \<and> get_b h' p = None \<and>
    (\<forall>r. r \<noteq> p \<longrightarrow> (get_b h' r = None \<longleftrightarrow> get_b h r = None))"
proof -
  obtain h1 b1 where h1: "(if peer b \<noteq> None then bio_destroy_pair h p else Some h) = Some h1" "bios_wf h1" "get_b h1 p = Some b1"
    "peer b1 = None" "\<forall>r. get_b h1 r = None \<longleftrightarrow> get_b h r = None"
  proof (cases "peer b")
    case None
    then show thesis using that wf b by simp
  next
    case (Some q)
    then show thesis using that bio_destroy_pair_ok [OF wf b Some] by auto
  qed
  obtain B where B: "h1 p = Some B" "bio_ptr B = Some b1" "\<not> bio_init B" using bios_wfD(3) [OF h1(2,3)] h1(4) by auto
  let ?h = "h1(p \<mapsto> B\<lparr>bio_ptr := None\<rparr>)"
  have "bio_free h p = Some (True, ?h)" using b h1(1) B(1) by (simp add: bio_free_def)
  moreover have "bios_wf ?h" "bios_wf (h1(p := None))" using bios_wf_drop [OF h1(2)] h1(3,4) B(3) by (auto intro!: bios_wf_drop [OF h1(2)])
  moreover have "get_b ?h p = None" "\<forall>r. r \<noteq> p \<longrightarrow> (get_b ?h r = None \<longleftrightarrow> get_b h r = None)" using h1(5) by (auto simp: get_b_def)
  ultimately show ?thesis by auto
qed

text \<open>A connected pair with empty buffers.\<close>

definition fresh_pair :: "bios \<Rightarrow> nat \<Rightarrow> nat \<Rightarrow> nat \<Rightarrow> nat \<Rightarrow> bool" where
  "fresh_pair h p q m n \<longleftrightarrow> (\<exists>b c. get_b h p = Some b \<and> get_b h q = Some c \<and> peer b = Some q \<and> peer c = Some p \<and>
     pipe_of b = \<lparr>p_queue = [], p_cap = m, p_shut = False\<rparr> \<and> pipe_of c = \<lparr>p_queue = [], p_cap = n, p_shut = False\<rparr>)"

definition buf_cap :: "nat \<Rightarrow> nat" where
  "buf_cap n = (if n = 0 then 17 * 1024 else n)"

text \<open>A BIO that has just been created.\<close>

definition unused :: "bio_bio_st \<Rightarrow> bool" where
  "unused b \<longleftrightarrow> peer b = None \<and> b_buf b = None \<and> b_size b = 17 * 1024"

lemma make_buf_cap: "unused b \<Longrightarrow> make_buf H b n = (ok, b') \<Longrightarrow> b_size b' = buf_cap n"
  by (auto simp: unused_def make_buf_def buf_cap_def Let_def split: if_splits)

lemma struct_ok_connected:
  "struct_ok b \<Longrightarrow> ring_ok b \<Longrightarrow> b_len b = 0 \<Longrightarrow> struct_ok (b\<lparr>peer := Some q, closed := False, request := 0\<rparr>)"
  by (auto simp: struct_ok_def ring_ok_def split: option.splits)

lemma connect_eq:
  "h p = Some P \<Longrightarrow> h q = Some Q \<Longrightarrow> p \<noteq> q \<Longrightarrow> set_init (set_init (put_b (put_b h p b) q c) p True) q True =
   h(p \<mapsto> P\<lparr>bio_ptr := Some b, bio_init := True\<rparr>, q \<mapsto> Q\<lparr>bio_ptr := Some c, bio_init := True\<rparr>)"
  by (rule ext) (simp add: put_b_def set_init_def)

lemma bio_make_pair_ok:
  assumes wf: "bios_wf h" and pq: "p \<noteq> q" and b: "get_b h p = Some b" "get_b h q = Some c" and u: "unused b" "unused c"
    and H: "\<forall>n. alloc_ok H n \<longrightarrow> n < 2 ^ 63"
  shows "\<exists>ok h'. bio_make_pair H h p q m n = Some (ok, h') \<and> bios_wf h' \<and> (\<forall>r. get_b h' r = None \<longleftrightarrow> get_b h r = None) \<and>
    (ok \<longrightarrow> fresh_pair h' p q (buf_cap m) (buf_cap n))"
proof -
  have free: "peer b = None" "peer c = None" using u by (simp_all add: unused_def)
  obtain ok1 b1 ok2 c1 where m: "make_buf H b m = (ok1, b1)" "make_buf H c n = (ok2, c1)" by (metis surj_pair)
  note m1 = make_buf_ok [OF bios_wfD(1) [OF wf b(1)] free(1) H m(1)] and m2 = make_buf_ok [OF bios_wfD(1) [OF wf b(2)] free(2) H m(2)]
  let ?h1 = "put_b h p b1" and ?h2 = "put_b (put_b h p b1) q c1"
  have w1: "bios_wf ?h1" using bios_wf_put [OF wf b(1) m1(1)] m1(2) free(1) by simp
  have d: "h p \<noteq> None" "h q \<noteq> None" using b by (simp_all add: get_b_dom)
  have q1: "get_b ?h1 q = Some c" using b pq by (simp add: get_b_simps)
  have w2: "bios_wf ?h2" using bios_wf_put [OF w1 q1 m2(1)] m2(2) free(2) by simp
  have g2: "get_b ?h2 p = Some b1" "get_b ?h2 q = Some c1" using pq d by (simp_all add: get_b_simps)
  let ?b = "b1\<lparr>peer := Some q, closed := False, request := 0\<rparr>" and ?c = "c1\<lparr>peer := Some p, closed := False, request := 0\<rparr>"
  show ?thesis
  proof (cases "ok1 \<and> ok2")
    case True
    obtain P Q where P: "?h2 p = Some P" "bio_ptr P = Some b1" and Q: "?h2 q = Some Q" "bio_ptr Q = Some c1" using g2 by (metis get_bE)
    let ?P = "P\<lparr>bio_ptr := Some ?b, bio_init := True\<rparr>" and ?Q = "Q\<lparr>bio_ptr := Some ?c, bio_init := True\<rparr>"
    let ?h = "?h2(p \<mapsto> ?P, q \<mapsto> ?Q)"
    have s: "set_init (set_init (put_b (put_b ?h2 p ?b) q ?c) p True) q True = ?h"
      using P(1) Q(1) pq connect_eq [of ?h2 p P q Q] by simp
    have "bio_make_pair H h p q m n = Some (True, set_init (set_init (put_b (put_b ?h2 p ?b) q ?c) p True) q True)"
      using True b free m q1 g2 pq d by (simp add: bio_make_pair_def Let_def get_b_simps)
    moreover have "bios_wf ?h"
      using bios_wf_relink [OF w2 pq g2, of ?b ?c True ?h ?P ?Q] m1 m2 True pq struct_ok_connected by simp
    moreover have "get_b ?h r = None \<longleftrightarrow> get_b h r = None" for r
      using P Q b pq by (cases "r = p \<or> r = q") (auto simp: get_b_def put_b_def split: option.split)
    moreover have "fresh_pair ?h p q (buf_cap m) (buf_cap n)"
      using pq m1(3) m2(3) make_buf_cap [OF u(1) m(1)] make_buf_cap [OF u(2) m(2)]
      by (auto simp: fresh_pair_def get_b_def ring_data_def pipe_of_def split: option.split)
    ultimately show ?thesis using s by auto
  next
    case False
    then show ?thesis using b free m q1 w1 w2 pq d by (cases ok1) (auto simp: bio_make_pair_def Let_def get_b_simps)
  qed
qed

lemma bio_ctrl_ok:
  assumes wf: "bios_wf h" and b: "get_b h p = Some b" and ptr: "\<And>q. ptr = Some q \<Longrightarrow> get_b h q \<noteq> None"
  shows "\<exists>r h'. bio_ctrl h p cmd num ptr = Some (r, h') \<and> bios_wf h'"
proof -
  obtain B where B: "h p = Some B" "bio_ptr B = Some b" using b by (rule get_bE)
  have s: "struct_ok b" by (rule bios_wfD(1) [OF wf b])
  have "struct_ok (b\<lparr>request := 0\<rparr>)" "struct_ok (b\<lparr>closed := True\<rparr>)" using s by (auto simp: struct_ok_def ring_ok_def split: option.splits)
  then have w: "bios_wf (put_b h p (b\<lparr>request := 0\<rparr>))" "bios_wf (put_b h p (b\<lparr>closed := True\<rparr>))"
    using bios_wf_put [OF wf b] by simp_all
  have c: "bios_wf (h(p \<mapsto> B\<lparr>bio_shutdown := v\<rparr>))" for v
    using wf by (rule bios_wf_same) (use B in \<open>auto simp: get_b_def split: if_splits\<close>)
  have "\<exists>c. get_b h q = Some c" if "peer b = Some q" for q using bios_wfD(2) [OF wf b that] by blast
  then show ?thesis using wf w c B ptr by (cases cmd) (auto simp: bio_ctrl_def split: option.splits)
qed

section \<open>The interface\<close>

text \<open>
  What \<open>bio.c\<close> documents: \<open>BIO_new\<close> returns a fresh BIO that the method has initialised, or null;
  \<open>BIO_free\<close> accepts null, calls the method and releases the BIO; \<open>BIO_ctrl\<close> calls the method. An
  allocation never exceeds the largest signed size.
\<close>

definition bio_lib_ok :: "bio_lib \<Rightarrow> allocator \<Rightarrow> bool" where
  "bio_lib_ok L H \<longleftrightarrow>
     (\<forall>h. case BIO_new L h of
        (None, h') \<Rightarrow> h' = h
      | (Some p, h') \<Rightarrow> h p = None \<and> (\<exists>B. \<not> bio_init B \<and> bio_ptr B = None \<and> fst (bio_new H B) \<and> h' = h(p \<mapsto> snd (bio_new H B)))) \<and>
     (\<forall>h. BIO_free L h None = h) \<and>
     (\<forall>h p r h'. bio_free h p = Some (r, h') \<longrightarrow> BIO_free L h (Some p) = h'(p := None)) \<and>
     (\<forall>h p cmd num ptr. BIO_ctrl L h p cmd num ptr = bio_ctrl h p cmd num ptr) \<and>
     (\<forall>n. alloc_ok H n \<longrightarrow> n < 2 ^ 63)"

lemma BIO_new_ok:
  assumes L: "bio_lib_ok L H" and wf: "bios_wf h" and n: "BIO_new L h = (r, h')"
  shows "bios_wf h'" "\<forall>q. get_b h q \<noteq> None \<longrightarrow> get_b h' q = get_b h q"
    "r = Some p \<Longrightarrow> h p = None \<and> (\<exists>b. get_b h' p = Some b \<and> unused b)"
proof -
  have "bios_wf h' \<and> (\<forall>q. get_b h q \<noteq> None \<longrightarrow> get_b h' q = get_b h q) \<and>
    (r = Some p \<longrightarrow> h p = None \<and> (\<exists>b. get_b h' p = Some b \<and> unused b))"
  proof (cases r)
    case None
    then have "h' = h" using L [unfolded bio_lib_ok_def, THEN conjunct1, THEN spec, of h] n by simp
    then show ?thesis using wf None by simp
  next
    case (Some s)
    then obtain B where B: "h s = None" "\<not> bio_init B" "bio_ptr B = None" "h' = h(s \<mapsto> snd (bio_new H B))" "fst (bio_new H B)"
      using L [unfolded bio_lib_ok_def, THEN conjunct1, THEN spec, of h] n by auto
    then show ?thesis using wf Some bios_wf_drop [OF wf, of s "Some (snd (bio_new H B))"]
      by (auto simp: bio_new_def get_b_def struct_ok_def unused_def split: if_splits)
  qed
  then show "bios_wf h'" "\<forall>q. get_b h q \<noteq> None \<longrightarrow> get_b h' q = get_b h q"
    "r = Some p \<Longrightarrow> h p = None \<and> (\<exists>b. get_b h' p = Some b \<and> unused b)" by blast+
qed

lemma BIO_free_ok:
  assumes L: "bio_lib_ok L H" and wf: "bios_wf h" and p: "\<And>q. p = Some q \<Longrightarrow> get_b h q \<noteq> None"
  shows "bios_wf (BIO_free L h p)" "\<forall>r. p \<noteq> Some r \<longrightarrow> (get_b (BIO_free L h p) r = None \<longleftrightarrow> get_b h r = None)"
proof -
  have "bios_wf (BIO_free L h p) \<and> (\<forall>r. p \<noteq> Some r \<longrightarrow> (get_b (BIO_free L h p) r = None \<longleftrightarrow> get_b h r = None))"
  proof (cases p)
    case None
    then show ?thesis using L wf by (simp add: bio_lib_ok_def)
  next
    case (Some q)
    obtain b where "get_b h q = Some b" using p [OF Some] by blast
    from bio_free_ok [OF wf this] obtain h' where h': "bio_free h q = Some (True, h')" "bios_wf (h'(q := None))"
      "\<forall>r. r \<noteq> q \<longrightarrow> (get_b h' r = None \<longleftrightarrow> get_b h r = None)" by blast
    then have "BIO_free L h p = h'(q := None)" using L Some by (auto simp: bio_lib_ok_def)
    moreover have "get_b (h'(q := None)) r = get_b h' r" if "r \<noteq> q" for r using that by (simp add: get_b_def)
    ultimately show ?thesis using h' Some by auto
  qed
  then show "bios_wf (BIO_free L h p)" "\<forall>r. p \<noteq> Some r \<longrightarrow> (get_b (BIO_free L h p) r = None \<longleftrightarrow> get_b h r = None)" by blast+
qed

lemma BIO_new_bio_pair_ok:
  assumes L: "bio_lib_ok L H" and wf: "bios_wf h"
  shows "\<exists>r h'. BIO_new_bio_pair L H h m n = Some (r, h') \<and> bios_wf h' \<and> (\<forall>p q. r = Some (p, q) \<longrightarrow> fresh_pair h' p q (buf_cap m) (buf_cap n))"
proof -
  obtain r1 h1 r2 h2 where n: "BIO_new L h = (r1, h1)" "BIO_new L h1 = (r2, h2)" by (metis surj_pair)
  note n1 = BIO_new_ok [OF L wf n(1)]
  note n2 = BIO_new_ok [OF L n1(1) n(2)]
  have live1: "\<exists>b. get_b h2 p = Some b \<and> unused b" if p: "r1 = Some p" for p
    using n1(3) [OF p] n2(2) by auto
  have live2: "\<exists>c. get_b h2 q = Some c \<and> unused c" if q: "r2 = Some q" for q using n2(3) [OF q] by auto
  have ne: "p \<noteq> q" if "r1 = Some p" "r2 = Some q" for p q using n1(3) [OF that(1)] n2(3) [OF that(2)] by (auto simp: get_b_def)
  have fail: "bios_wf (BIO_free L (BIO_free L h' r1) r2)"
    if h': "bios_wf h'" "\<forall>r. get_b h' r = None \<longleftrightarrow> get_b h2 r = None" for h'
  proof (intro BIO_free_ok(1) [OF L BIO_free_ok(1) [OF L h'(1)]])
    fix q assume "r1 = Some q"
    then show "get_b h' q \<noteq> None" using h'(2) live1 by auto
  next
    fix q assume q: "r2 = Some q"
    have lq: "get_b h' q \<noteq> None" using h'(2) live2 [OF q] by auto
    have lv: "get_b h' t \<noteq> None" if "r1 = Some t" for t using h'(2) live1 [OF that] by auto
    have "r1 \<noteq> Some q" using ne q by blast
    then show "get_b (BIO_free L h' r1) q \<noteq> None" using BIO_free_ok(2) [OF L h'(1) lv] lq by simp
  qed
  show ?thesis
  proof (cases "r1 = None \<or> r2 = None")
    case True
    then show ?thesis using n fail [OF n2(1)] by (auto simp: BIO_new_bio_pair_def Let_def split: option.split)
  next
    case False
    then obtain p q where pq: "r1 = Some p" "r2 = Some q" by (cases r1; cases r2) auto
    obtain b c where bc: "get_b h2 p = Some b" "unused b" "get_b h2 q = Some c" "unused c" using live1 [OF pq(1)] live2 [OF pq(2)] by blast
    have H: "\<forall>n. alloc_ok H n \<longrightarrow> n < 2 ^ 63" using L by (simp add: bio_lib_ok_def)
    obtain ok h' where m: "bio_make_pair H h2 p q m n = Some (ok, h')" "bios_wf h'" "\<forall>r. get_b h' r = None \<longleftrightarrow> get_b h2 r = None"
      "ok \<longrightarrow> fresh_pair h' p q (buf_cap m) (buf_cap n)"
      using bio_make_pair_ok [OF n2(1) ne [OF pq] bc(1,3,2,4) H] by blast
    then show ?thesis using n pq fail [OF m(2,3)] by (cases ok) (auto simp: BIO_new_bio_pair_def Let_def)
  qed
qed

text \<open>Calls of the interface, and the stores they lead to.\<close>

datatype bio_op = New nat nat | Read nat bool int | Write nat "u8 list option" int | Ctrl nat bio_cmd int "nat option" | Free nat

definition op_ok :: "bios \<Rightarrow> bio_op \<Rightarrow> bool" where
  "op_ok h op = (case op of
     New m n \<Rightarrow> True
   | Read p buf n \<Rightarrow> get_b h p \<noteq> None \<and> 0 \<le> n \<and> n < 2 ^ 31
   | Write p buf n \<Rightarrow> get_b h p \<noteq> None \<and> 0 \<le> n \<and> n < 2 ^ 31 \<and> (case buf of None \<Rightarrow> True | Some xs \<Rightarrow> n \<le> int (length xs))
   | Ctrl p cmd num ptr \<Rightarrow> get_b h p \<noteq> None \<and> (case ptr of None \<Rightarrow> True | Some q \<Rightarrow> get_b h q \<noteq> None)
   | Free p \<Rightarrow> get_b h p \<noteq> None)"

definition bio_step :: "bio_lib \<Rightarrow> allocator \<Rightarrow> bios \<Rightarrow> bio_op \<Rightarrow> bios option" where
  "bio_step L H h op = (case op of
     New m n \<Rightarrow> map_option snd (BIO_new_bio_pair L H h m n)
   | Read p buf n \<Rightarrow> map_option (snd \<circ> snd) (bio_read h p buf n)
   | Write p buf n \<Rightarrow> map_option snd (bio_write h p buf n)
   | Ctrl p cmd num ptr \<Rightarrow> map_option snd (BIO_ctrl L h p cmd num ptr)
   | Free p \<Rightarrow> map_option snd (bio_free h p))"

inductive bio_reachable :: "bio_lib \<Rightarrow> allocator \<Rightarrow> bios \<Rightarrow> bool" for L H where
  start: "bio_reachable L H (\<lambda>_. None)"
| step: "bio_reachable L H h \<Longrightarrow> op_ok h op \<Longrightarrow> bio_step L H h op = Some h' \<Longrightarrow> bio_reachable L H h'"

lemma bio_read_unconnected:
  assumes "bios_wf h" "get_b h p = Some b" "peer b = None"
  shows "bio_read h p buf n = Some (0, [], set_retry h p NO_RETRY)"
  using bios_wfD(3) [OF assms(1,2)] assms(3) by (auto simp: bio_read_def Let_def)

lemma bio_write_unconnected:
  assumes "bios_wf h" "get_b h p = Some b" "peer b = None"
  shows "bio_write h p buf n = Some (0, set_retry h p NO_RETRY)"
  using bios_wfD(3) [OF assms(1,2)] assms(3) by (auto simp: bio_write_def Let_def split: option.split)

lemma bio_read_null:
  assumes wf: "bios_wf h" and b: "get_b h x = Some b" "peer b = Some y" "get_b h y = Some c"
  shows "\<exists>h'. bio_read h x False n = Some (0, [], h') \<and> bios_wf h'"
proof -
  obtain B where B: "h x = Some B" "bio_init B" using bios_wfD(3) [OF wf b(1)] b(2) by auto
  have pc: "peer c = Some x" using bios_wfD(2) [OF wf b(1,2)] b(3) by auto
  have s: "b_buf c \<noteq> None" "ring_ok c" using bios_wfD(1) [OF wf b(3)] struct_ok_paired [of c] pc by auto
  have "struct_ok (c\<lparr>request := 0\<rparr>)" using s(2) pc by (intro struct_ok_ring) simp_all
  then have "bios_wf (put_b (set_retry h x NO_RETRY) y (c\<lparr>request := 0\<rparr>))"
    using bios_wf_put [OF bios_wf_retry [OF wf], where p = y and b = c and b' = "c\<lparr>request := 0\<rparr>"] b(3) by (simp add: get_b_simps)
  then show ?thesis using B b s by (auto simp: bio_read_def Let_def get_b_simps)
qed

lemma bio_step_wf:
  assumes L: "bio_lib_ok L H" and wf: "bios_wf h" and ok: "op_ok h op"
  shows "\<exists>h'. bio_step L H h op = Some h' \<and> bios_wf h'"
proof (cases op)
  case (New m n)
  then show ?thesis using BIO_new_bio_pair_ok [OF L wf, of m n] by (auto simp: bio_step_def)
next
  case (Read p buf n)
  then obtain b k where b: "get_b h p = Some b" and k: "n = int k" "k < 2 ^ 31"
    using ok by (cases n) (auto simp: op_ok_def)
  show ?thesis
  proof (cases "peer b")
    case None
    then show ?thesis using Read bio_read_unconnected [OF wf b None] bios_wf_retry [OF wf] by (simp add: bio_step_def)
  next
    case (Some y)
    then obtain c where c: "get_b h y = Some c" using bios_wfD(2) [OF wf b Some] by blast
    then show ?thesis using Read k bio_read_eq [OF wf b Some c k(2)] bio_read_null [OF wf b Some c, of n]
      by (cases buf) (auto simp: bio_step_def)
  qed
next
  case (Write p buf n)
  then obtain b k where b: "get_b h p = Some b" and k: "n = int k" "k < 2 ^ 31" and xs: "\<And>xs. buf = Some xs \<Longrightarrow> k \<le> length xs"
    using ok by (cases n; cases buf) (auto simp: op_ok_def)
  show ?thesis
  proof (cases "peer b")
    case None
    then show ?thesis using Write bio_write_unconnected [OF wf b None] bios_wf_retry [OF wf] by (simp add: bio_step_def)
  next
    case (Some y)
    have "bio_write h p None n = Some (0, set_retry h p NO_RETRY)" using get_b_dom [OF b] by (auto simp: bio_write_def Let_def)
    then show ?thesis using Write k bio_write_eq [OF wf b Some k(2) xs] bios_wf_retry [OF wf]
      by (cases buf) (auto simp: bio_step_def)
  qed
next
  case (Ctrl p cmd num ptr)
  then obtain b where b: "get_b h p = Some b" using ok by (auto simp: op_ok_def)
  have "\<exists>r h'. bio_ctrl h p cmd num ptr = Some (r, h') \<and> bios_wf h'"
    using ok Ctrl by (intro bio_ctrl_ok [OF wf b]) (auto simp: op_ok_def)
  then show ?thesis using L Ctrl by (auto simp: bio_step_def bio_lib_ok_def)
next
  case (Free p)
  then obtain b where "get_b h p = Some b" using ok by (auto simp: op_ok_def)
  then show ?thesis using Free bio_free_ok [OF wf] by (fastforce simp: bio_step_def)
qed

lemma bio_reachable_wf:
  assumes "bio_lib_ok L H" "bio_reachable L H h"
  shows "bios_wf h"
  using assms(2)
proof induction
  case start
  then show ?case by (simp add: bios_wf_def)
next
  case (step h op h')
  then show ?case using bio_step_wf [OF assms(1)] by fastforce
qed

text \<open>
  C23: What the comments of \<open>struct bio_bio_st\<close> say holds in every store that calls of the interface can
  reach: a BIO is initialised exactly if it has a peer, peers point at each other, the bytes of a
  buffer lie inside it, nothing is left in the buffer of a BIO without a peer, and a read request is
  pending only on an empty buffer and never exceeds it. In such a store no assertion fails, no
  copy leaves its buffer and no loop runs forever: every call returns.
\<close>
theorem bio_pair_wf:
  assumes "bio_lib_ok L H" "bio_reachable L H h"
  shows "bios_wf h \<and> (\<forall>op. op_ok h op \<longrightarrow> bio_step L H h op \<noteq> None)"
proof -
  have "bios_wf h" using assms by (rule bio_reachable_wf)
  then show ?thesis using bio_step_wf [OF assms(1)] by fastforce
qed

text \<open>An instance of the library, with ten BIOs at most.\<close>

definition small_alloc :: allocator where
  "small_alloc = \<lparr>alloc_ok = (\<lambda>n. n < 2 ^ 20), junk = (\<lambda>i. 0)\<rparr>"

definition small_lib :: bio_lib where
  "small_lib = \<lparr>
     BIO_new = (\<lambda>h. case find (\<lambda>p. h p = None) [0..<10] of
       None \<Rightarrow> (None, h)
     | Some p \<Rightarrow> (Some p, h(p \<mapsto> snd (bio_new small_alloc \<lparr>bio_init = False, bio_shutdown = 1, bio_retry = NO_RETRY, bio_ptr = None\<rparr>)))),
     BIO_free = (\<lambda>h bio. case bio of None \<Rightarrow> h | Some p \<Rightarrow> (case bio_free h p of None \<Rightarrow> h | Some (r, h') \<Rightarrow> h'(p := None))),
     BIO_ctrl = bio_ctrl\<rparr>"

lemma small_lib_ok: "bio_lib_ok small_lib small_alloc"
proof -
  have "case BIO_new small_lib h of (None, h') \<Rightarrow> h' = h
      | (Some p, h') \<Rightarrow> h p = None \<and> (\<exists>B. \<not> bio_init B \<and> bio_ptr B = None \<and> fst (bio_new small_alloc B) \<and> h' = h(p \<mapsto> snd (bio_new small_alloc B)))" for h
  proof (cases "find (\<lambda>p. h p = None) [0..<10]")
    case None
    then show ?thesis by (simp add: small_lib_def)
  next
    case (Some p)
    then have "h p = None" by (auto simp: find_Some_iff)
    then show ?thesis using Some
      by (auto simp: small_lib_def bio_new_def small_alloc_def
          intro!: exI [of _ "\<lparr>bio_init = False, bio_shutdown = 1, bio_retry = NO_RETRY, bio_ptr = None\<rparr>"])
  qed
  moreover have "BIO_free small_lib h None = h" "bio_free h p = Some (r, h') \<longrightarrow> BIO_free small_lib h (Some p) = h'(p := None)"
    "BIO_ctrl small_lib h p cmd num ptr = bio_ctrl h p cmd num ptr" for h p r h' cmd num ptr by (simp_all add: small_lib_def)
  moreover have "alloc_ok small_alloc n \<longrightarrow> n < 2 ^ 63" for n by (simp add: small_alloc_def)
  ultimately show ?thesis unfolding bio_lib_ok_def by blast
qed

theorem bio_pair_wf_witness: "bios_wf (\<lambda>_. None) \<and> bio_step small_lib small_alloc (\<lambda>_. None) (New 4 3) \<noteq> None"
  using bio_pair_wf [OF small_lib_ok bio_reachable.start] by (simp add: op_ok_def)

section \<open>Two bounded queues\<close>

datatype xfer = Send bool "u8 list" | Recv bool nat | Shut bool

definition side :: "nat \<Rightarrow> nat \<Rightarrow> bool \<Rightarrow> nat" where
  "side p q s = (if s then p else q)"

definition bio_xfer :: "nat \<Rightarrow> nat \<Rightarrow> bios \<Rightarrow> xfer \<Rightarrow> ((int \<times> u8 list) \<times> bios) option" where
  "bio_xfer p q h op = (case op of
     Send s xs \<Rightarrow> map_option (\<lambda>(r, h). ((r, []), h)) (bio_write h (side p q s) (Some xs) (int (length xs)))
   | Recv s n \<Rightarrow> map_option (\<lambda>(r, out, h). ((r, out), h)) (bio_read h (side p q s) True (int n))
   | Shut s \<Rightarrow> map_option (\<lambda>(r, h). ((r, []), h)) (bio_ctrl h (side p q s) BIO_C_SHUTDOWN_WR 0 None))"

definition pipe_xfer :: "(bool \<Rightarrow> pipe) \<Rightarrow> xfer \<Rightarrow> (int \<times> u8 list) \<times> (bool \<Rightarrow> pipe)" where
  "pipe_xfer ps op = (case op of
     Send s xs \<Rightarrow> (let (r, P) = pipe_write (ps s) xs in ((r, []), ps(s := P)))
   | Recv s n \<Rightarrow> (let (r, out, P) = pipe_read (ps (\<not> s)) n in ((r, out), ps((\<not> s) := P)))
   | Shut s \<Rightarrow> ((1, []), ps(s := (ps s)\<lparr>p_shut := True\<rparr>)))"

fun bio_run :: "nat \<Rightarrow> nat \<Rightarrow> bios \<Rightarrow> xfer list \<Rightarrow> ((int \<times> u8 list) list \<times> bios) option" where
  "bio_run p q h [] = Some ([], h)"
| "bio_run p q h (op # ops) =
     Option.bind (bio_xfer p q h op) (\<lambda>(r, h). Option.bind (bio_run p q h ops) (\<lambda>(rs, h). Some (r # rs, h)))"

fun pipe_run :: "(bool \<Rightarrow> pipe) \<Rightarrow> xfer list \<Rightarrow> (int \<times> u8 list) list \<times> (bool \<Rightarrow> pipe)" where
  "pipe_run ps [] = ([], ps)"
| "pipe_run ps (op # ops) = (let (r, ps) = pipe_xfer ps op; (rs, ps) = pipe_run ps ops in (r # rs, ps))"

text \<open>The transfers that fit an \<open>int\<close>.\<close>

definition xfer_ok :: "xfer \<Rightarrow> bool" where
  "xfer_ok op = (case op of Send s xs \<Rightarrow> length xs < 2 ^ 31 | Recv s n \<Rightarrow> n < 2 ^ 31 | Shut s \<Rightarrow> True)"

definition connected :: "bios \<Rightarrow> nat \<Rightarrow> nat \<Rightarrow> (bool \<Rightarrow> pipe) \<Rightarrow> bool" where
  "connected h p q ps \<longleftrightarrow> bios_wf h \<and> p \<noteq> q \<and>
     (\<forall>s. \<exists>b. get_b h (side p q s) = Some b \<and> peer b = Some (side p q (\<not> s)) \<and> ps s = pipe_of b)"

lemma connected_step:
  assumes c: "connected h p q ps" and op: "xfer_ok op"
  shows "\<exists>h'. bio_xfer p q h op = Some (fst (pipe_xfer ps op), h') \<and> connected h' p q (snd (pipe_xfer ps op))"
proof -
  have wf: "bios_wf h" and pq: "p \<noteq> q" using c by (simp_all add: connected_def)
  have sd: "\<exists>b. get_b h (side p q s) = Some b \<and> peer b = Some (side p q (\<not> s)) \<and> ps s = pipe_of b" for s
    using c by (simp add: connected_def)
  have ne: "side p q s \<noteq> side p q (\<not> s)" for s using pq by (auto simp: side_def)
  have keep: "connected h' p q (ps(s := pipe_of b'))"
    if "bios_wf h'" "get_b h' (side p q s) = Some b'" "peer b' = Some (side p q (\<not> s))"
      "\<forall>z. z \<noteq> side p q s \<longrightarrow> get_b h' z = get_b h z" for h' s b'
    unfolding connected_def
  proof (intro conjI allI)
    fix t show "\<exists>b. get_b h' (side p q t) = Some b \<and> peer b = Some (side p q (\<not> t)) \<and> (ps(s := pipe_of b')) t = pipe_of b"
    proof (cases "t = s")
      case True
      then show ?thesis using that(2,3) by auto
    next
      case False
      then have "side p q t \<noteq> side p q s" using ne [of s] by (cases t; cases s) auto
      then show ?thesis using False that(4) sd [of t] by auto
    qed
  qed (use that(1) pq in auto)
  show ?thesis
  proof (cases op)
    case (Send s xs)
    obtain b where b: "get_b h (side p q s) = Some b" "peer b = Some (side p q (\<not> s))" "ps s = pipe_of b" using sd by blast
    have n: "length xs < 2 ^ 31" using op Send by (simp add: xfer_ok_def)
    from bio_write_eq [OF wf b(1,2) n order_refl] obtain h' b' where
      "bio_write h (side p q s) (Some xs) (int (length xs)) = Some (fst (pipe_write (ps s) xs), h')" "bios_wf h'"
      "get_b h' (side p q s) = Some b'" "peer b' = Some (side p q (\<not> s))" "pipe_of b' = snd (pipe_write (ps s) xs)"
      "\<forall>z. z \<noteq> side p q s \<longrightarrow> get_b h' z = get_b h z" using b(3) by auto
    then show ?thesis using Send keep [of h' s b'] by (auto simp: bio_xfer_def pipe_xfer_def Let_def split: prod.splits)
  next
    case (Recv s n)
    obtain b where b: "get_b h (side p q s) = Some b" "peer b = Some (side p q (\<not> s))" using sd by blast
    obtain d where d: "get_b h (side p q (\<not> s)) = Some d" "peer d = Some (side p q s)" "ps (\<not> s) = pipe_of d" using sd [of "\<not> s"] by auto
    have n: "n < 2 ^ 31" using op Recv by (simp add: xfer_ok_def)
    from bio_read_eq [OF wf b d(1) n] obtain h' d' where
      "bio_read h (side p q s) True (int n) = Some (fst (pipe_read (ps (\<not> s)) n), fst (snd (pipe_read (ps (\<not> s)) n)), h')" "bios_wf h'"
      "get_b h' (side p q (\<not> s)) = Some d'" "peer d' = peer d" "pipe_of d' = snd (snd (pipe_read (ps (\<not> s)) n))"
      "\<forall>z. z \<noteq> side p q (\<not> s) \<longrightarrow> get_b h' z = get_b h z" using d(3) by auto
    then show ?thesis using Recv d(2) keep [of h' "\<not> s" d'] by (auto simp: bio_xfer_def pipe_xfer_def Let_def split: prod.splits)
  next
    case (Shut s)
    obtain b where b: "get_b h (side p q s) = Some b" "peer b = Some (side p q (\<not> s))" "ps s = pipe_of b" using sd by blast
    obtain B where B: "h (side p q s) = Some B" "bio_ptr B = Some b" using b(1) by (rule get_bE)
    let ?b = "b\<lparr>closed := True\<rparr>"
    have s: "struct_ok ?b" using bios_wfD(1) [OF wf b(1)] by (auto simp: struct_ok_def ring_ok_def split: option.splits)
    have "bios_wf (put_b h (side p q s) ?b)" using bios_wf_put [OF wf b(1) s] by simp
    moreover have "pipe_of ?b = (ps s)\<lparr>p_shut := True\<rparr>" unfolding b(3) by (simp add: pipe_of_def ring_data_def split: option.split)
    ultimately show ?thesis using Shut keep [of "put_b h (side p q s) ?b" s ?b] B b(2)
      by (auto simp: bio_xfer_def pipe_xfer_def bio_ctrl_def get_b_simps)
  qed
qed

lemma connected_run:
  "connected h p q ps \<Longrightarrow> \<forall>op \<in> set ops. xfer_ok op \<Longrightarrow>
   \<exists>h'. bio_run p q h ops = Some (fst (pipe_run ps ops), h') \<and> connected h' p q (snd (pipe_run ps ops))"
proof (induction ops arbitrary: h ps)
  case (Cons op ops)
  obtain h1 where h1: "bio_xfer p q h op = Some (fst (pipe_xfer ps op), h1)" "connected h1 p q (snd (pipe_xfer ps op))"
    using connected_step [OF Cons.prems(1)] Cons.prems(2) by auto
  from Cons.IH [OF h1(2)] Cons.prems(2) h1(1) show ?case by (auto simp: Let_def split: prod.splits)
qed simp

text \<open>In the abstract pair, what has been accepted on one side is what the other has got and what is queued.\<close>

fun accepted :: "bool \<Rightarrow> xfer list \<Rightarrow> (int \<times> u8 list) list \<Rightarrow> u8 list" where
  "accepted s (Send t xs # ops) ((r, _) # rs) = (if t = s then take (nat r) xs else []) @ accepted s ops rs"
| "accepted s (_ # ops) (_ # rs) = accepted s ops rs"
| "accepted s _ _ = []"

fun delivered :: "bool \<Rightarrow> xfer list \<Rightarrow> (int \<times> u8 list) list \<Rightarrow> u8 list" where
  "delivered s (Recv t n # ops) ((_, out) # rs) = (if t = s then out else []) @ delivered s ops rs"
| "delivered s (_ # ops) (_ # rs) = delivered s ops rs"
| "delivered s _ _ = []"

lemma pipe_fifo:
  "p_queue (ps s) @ accepted s ops (fst (pipe_run ps ops)) =
   delivered (\<not> s) ops (fst (pipe_run ps ops)) @ p_queue (snd (pipe_run ps ops) s)"
proof (induction ops arbitrary: ps)
  case (Cons op ops)
  obtain r ps1 where x: "pipe_xfer ps op = (r, ps1)" by fastforce
  have IH: "p_queue (ps1 s) @ accepted s ops (fst (pipe_run ps1 ops)) =
      delivered (\<not> s) ops (fst (pipe_run ps1 ops)) @ p_queue (snd (pipe_run ps1 ops) s)" by (rule Cons.IH)
  have run: "pipe_run ps (op # ops) = (r # fst (pipe_run ps1 ops), snd (pipe_run ps1 ops))" using x by (simp add: Let_def split: prod.split)
  show ?case
  proof (cases op)
    case (Send t xs)
    then have "p_queue (ps1 s) = p_queue (ps s) @ (if t = s then take (nat (fst r)) xs else [])"
      using x by (auto simp: pipe_xfer_def pipe_write_def Let_def split: if_splits)
    then show ?thesis using IH Send unfolding run by (cases r) (auto simp: append_assoc [symmetric] simp del: append_assoc)
  next
    case (Recv t n)
    then have "p_queue (ps s) = (if t = (\<not> s) then snd r else []) @ p_queue (ps1 s)"
      using x by (auto simp: pipe_xfer_def pipe_read_def Let_def split: if_splits)
    then show ?thesis using IH Recv unfolding run by (cases r) auto
  next
    case (Shut t)
    then show ?thesis using IH x unfolding run by (auto simp: pipe_xfer_def split: if_splits)
  qed
qed simp

text \<open>
  C22: A pair that \<open>BIO_new_bio_pair\<close> has created behaves as two bounded queues, one for each direction
  and as large as was asked for (17 KiB by default):
  whatever is written, read and shut down on the two sides, in any order, every call returns
  the value that the queues return, each side receives the bytes that the other
  side's calls have accepted, in order and without loss, and what has not been received is still in the buffer.
\<close>
theorem bio_pair_refines_queues:
  assumes "bio_lib_ok L H" "bio_reachable L H h" "BIO_new_bio_pair L H h m n = Some (Some (p, q), h0)"
    and "\<forall>op \<in> set ops. xfer_ok op"
  defines "ps \<equiv> \<lambda>s. \<lparr>p_queue = [], p_cap = buf_cap (if s then m else n), p_shut = False\<rparr>"
  shows "\<exists>rs h' qs. bio_run p q h0 ops = Some (rs, h') \<and> pipe_run ps ops = (rs, qs) \<and> connected h' p q qs \<and>
    (\<forall>s. accepted s ops rs = delivered (\<not> s) ops rs @ p_queue (qs s))"
proof -
  have wf: "bios_wf h" using assms(1,2) by (rule bio_reachable_wf)
  have f: "bios_wf h0" "fresh_pair h0 p q (buf_cap m) (buf_cap n)" using BIO_new_bio_pair_ok [OF assms(1) wf, of m n] assms(3) by auto
  then obtain b c where bc: "get_b h0 p = Some b" "get_b h0 q = Some c" "peer b = Some q" "peer c = Some p" "pipe_of b = ps True" "pipe_of c = ps False"
    by (auto simp: fresh_pair_def ps_def)
  have pq: "p \<noteq> q" using bios_wfD(2) [OF f(1) bc(1,3)] by simp
  have "connected h0 p q ps" using f(1) pq bc by (auto simp: connected_def side_def)
  from connected_run [OF this assms(4)] obtain h' where "bio_run p q h0 ops = Some (fst (pipe_run ps ops), h')"
    "connected h' p q (snd (pipe_run ps ops))" by blast
  moreover have "accepted s ops (fst (pipe_run ps ops)) = delivered (\<not> s) ops (fst (pipe_run ps ops)) @ p_queue (snd (pipe_run ps ops) s)" for s
    using pipe_fifo [of ps s ops] by (simp add: ps_def)
  ultimately show ?thesis by (metis prod.collapse)
qed

theorem bio_pair_refines_queues_witness:
  "\<exists>h0 h'. BIO_new_bio_pair small_lib small_alloc (\<lambda>_. None) 4 3 = Some (Some (0, 1), h0) \<and>
     bio_run 0 1 h0 [Send True [1, 2, 3, 4, 5], Recv False 2, Send True [6], Recv False 9, Recv False 1, Shut True, Recv False 1] =
       Some ([(4, []), (2, [1, 2]), (1, []), (3, [3, 4, 6]), (- 1, []), (1, []), (0, [])], h')"
proof -
  let ?ops = "[Send True [1, 2, 3, 4, 5], Recv False 2, Send True [6], Recv False 9, Recv False 1, Shut True, Recv False 1]"
  obtain h0 where h0: "BIO_new_bio_pair small_lib small_alloc (\<lambda>_. None) 4 3 = Some (Some (0, 1), h0)"
    by (simp add: BIO_new_bio_pair_def small_lib_def small_alloc_def bio_new_def bio_make_pair_def make_buf_def get_b_def put_b_def
        Let_def upt_rec)
  have ok: "\<forall>op \<in> set ?ops. xfer_ok op" by (simp add: xfer_ok_def)
  from bio_pair_refines_queues [OF small_lib_ok bio_reachable.start h0 ok] show ?thesis using h0
    by (auto simp: pipe_xfer_def pipe_write_def pipe_read_def buf_cap_def)
qed

end
