(* ===== verification/RC4.thy ===== *)
theory RC4
  imports C_Prelude "HOL-Library.Monad_Syntax"
begin

text \<open>
  The stream cipher of BoringSSL, \<open>crypto/rc4/rc4.c\<close>: the loops on an array of 32-bit words, and the
  cipher on bytes that they compute.
\<close>

section \<open>The code\<close>

record RC4_KEY =
  rc4_x :: u32
  rc4_y :: u32
  rc4_data :: "u32 list"

text \<open>The loop over the input. It returns the output and the values of \<open>x\<close>, \<open>y\<close> and \<open>d\<close>.\<close>

fun rc4_loop :: "u32 \<Rightarrow> u32 \<Rightarrow> u32 list \<Rightarrow> u8 list \<Rightarrow> u8 list \<times> u32 \<times> u32 \<times> u32 list" where
  "rc4_loop x y d [] = ([], x, y, d)"
| "rc4_loop x y d (b # bs) =
     (let x = (x + 1) AND 0xff;
          tx = d ! unat x;
          y = (tx + y) AND 0xff;
          ty = d ! unat y;
          d = d[unat x := ty];
          d = d[unat y := tx];
          (out, st) = rc4_loop x y d bs in
      (ucast (d ! unat ((tx + ty) AND 0xff) XOR ucast b) # out, st))"

definition RC4 :: "RC4_KEY \<Rightarrow> u8 list \<Rightarrow> u8 list \<times> RC4_KEY" where
  "RC4 key input =
     (let (out, x, y, d) = rc4_loop (rc4_x key) (rc4_y key) (rc4_data key) input in
      (out, \<lparr>rc4_x = x, rc4_y = y, rc4_data = d\<rparr>))"

text \<open>The second loop of \<open>RC4_set_key\<close>. \<open>None\<close> is a read outside the key.\<close>

fun set_key_loop :: "u32 \<Rightarrow> u8 list \<Rightarrow> nat list \<Rightarrow> u32 \<Rightarrow> u32 \<Rightarrow> u32 list \<Rightarrow> u32 list option" where
  "set_key_loop len key [] id1 id2 d = Some d"
| "set_key_loop len key (i # is) id1 id2 d =
     (if length key \<le> unat id1 then None
      else
        let tmp = d ! i;
            id2 = (ucast (key ! unat id1) + tmp + id2) AND 0xff;
            id1 = id1 + 1;
            id1 = (if id1 = len then 0 else id1);
            d = d[i := d ! unat id2];
            d = d[unat id2 := tmp] in
        set_key_loop len key is id1 id2 d)"

definition RC4_set_key :: "u32 \<Rightarrow> u8 list \<Rightarrow> RC4_KEY option" where
  "RC4_set_key len key =
     do { let d = map word_of_nat [0..<256];
          d \<leftarrow> set_key_loop len key [0..<256] 0 0 d;
          Some \<lparr>rc4_x = 0, rc4_y = 0, rc4_data = d\<rparr> }"

section \<open>The cipher on bytes\<close>

definition swap :: "(u8 \<Rightarrow> u8) \<Rightarrow> u8 \<Rightarrow> u8 \<Rightarrow> u8 \<Rightarrow> u8" where
  "swap S i j = S(i := S j, j := S i)"

text \<open>The keystream from a state.\<close>

fun keystream :: "u8 \<Rightarrow> u8 \<Rightarrow> (u8 \<Rightarrow> u8) \<Rightarrow> nat \<Rightarrow> u8 list" where
  "keystream i j S 0 = []"
| "keystream i j S (Suc n) =
     (let i = i + 1; j = j + S i; S = swap S i j in S (S i + S j) # keystream i j S n)"

fun schedule :: "u8 list \<Rightarrow> nat \<Rightarrow> u8 \<times> (u8 \<Rightarrow> u8)" where
  "schedule key 0 = (0, \<lambda>i. i)"
| "schedule key (Suc n) =
     (let (j, S) = schedule key n; i = word_of_nat n; j = j + S i + key ! (n mod length key) in (j, swap S i j))"

lemma bij_swap: "bij S \<Longrightarrow> bij (swap S i j)"
proof -
  assume "bij S"
  then have "inj S" by (rule bij_is_inj)
  then have "inj (swap S i j)" by (intro injI) (auto simp: swap_def inj_eq split: if_splits)
  then show ?thesis by (simp add: bij_def finite_UNIV_inj_surj)
qed

lemma bij_schedule: "bij (snd (schedule key n))"
  by (induction n) (auto simp: bij_swap Let_def bij_id [unfolded id_def] split: prod.splits)

section \<open>Correspondence\<close>

definition rep :: "u32 list \<Rightarrow> (u8 \<Rightarrow> u8) \<Rightarrow> bool" where
  "rep d S \<longleftrightarrow> length d = 256 \<and> (\<forall>i. d ! unat i = ucast (S i))"

lemma unat_word32: "n < 4294967296 \<Longrightarrow> unat (word_of_nat n :: u32) = n"
  by (simp add: unsigned_of_nat take_bit_nat_eq_self)

lemma unat_ucast_u32: "unat (ucast (i :: u8) :: u32) = unat i"
proof -
  have "unat i < 4294967296" using unat_u8_less [of i] by linarith
  then show ?thesis using unat_word32 [of "unat i"] by simp
qed

lemma low_byte: "(w :: u32) AND 0xff = ucast (ucast w :: u8)"
proof -
  have "w AND 0xff = take_bit 8 w" by (simp add: take_bit_eq_mask mask_numeral)
  also have "\<dots> = ucast (ucast w :: u8)"
    by (rule bit_eqI) (auto simp: bit_take_bit_iff bit_ucast_iff dest: bit_imp_le_length)
  finally show ?thesis .
qed

lemma low_byte_add3: "(ucast (a :: u8) + ucast (b :: u8) + ucast (c :: u8) :: u32) AND 0xff = ucast (a + b + c)"
proof -
  have "unat a + unat b + unat c < 4294967296" using unat_u8_less [of a] unat_u8_less [of b] unat_u8_less [of c] by linarith
  then have "unat (word_of_nat (unat a + unat b + unat c) :: u32) = unat a + unat b + unat c" by (rule unat_word32)
  then have "unat (ucast a + ucast b + ucast c :: u32) = unat a + unat b + unat c" by simp
  then have "unat (ucast (ucast a + ucast b + ucast c :: u32) :: u8) = (unat a + unat b + unat c) mod 2 ^ 8"
    by (simp only: unsigned_ucast_eq take_bit_eq_mod) simp
  also have "\<dots> = unat (a + b + c)" by (simp add: unat_word_ariths(1) mod_add_left_eq)
  finally have "ucast (ucast a + ucast b + ucast c :: u32) = a + b + c" by (simp only: word_unat_eq_iff)
  then show ?thesis by (simp only: low_byte)
qed

lemma low_byte_add: "(ucast (a :: u8) + ucast (b :: u8) :: u32) AND 0xff = ucast (a + b)"
  using low_byte_add3 [of a b 0] by simp

lemma rep_nth: "rep d S \<Longrightarrow> d ! unat i = ucast (S i)" "rep d S \<Longrightarrow> length d = 256"
  by (simp_all add: rep_def)

lemma rep_update: "rep d S \<Longrightarrow> rep (d[unat i := ucast v]) (S(i := v))"
  by (auto simp: rep_def nth_list_update word_unat_eq_iff [symmetric] unat_u8_less)

lemma rep_swap: "rep d S \<Longrightarrow> rep (d[unat i := ucast (S j), unat j := ucast (S i)]) (swap S i j)"
  unfolding swap_def by (intro rep_update)

text \<open>Encrypting is adding the keystream.\<close>

lemma rc4_loop_eq:
  "rep d S \<Longrightarrow> \<exists>(i' :: u8) (j' :: u8) S' d'. rc4_loop (ucast i) (ucast j) d bs =
     (map2 (XOR) (keystream i j S (length bs)) bs, ucast i', ucast j', d') \<and> rep d' S' \<and> (bij S \<longrightarrow> bij S') \<and>
     (\<forall>cs. length cs = length bs \<longrightarrow>
        rc4_loop (ucast i) (ucast j) d cs = (map2 (XOR) (keystream i j S (length bs)) cs, ucast i', ucast j', d'))"
proof (induction bs arbitrary: i j S d)
  case Nil
  then show ?case by - (rule exI [of _ i], rule exI [of _ j], rule exI [of _ S], rule exI [of _ d], simp)
next
  case (Cons b bs)
  let ?i = "i + 1"
  let ?j = "j + S ?i"
  let ?S = "swap S ?i ?j"
  let ?d = "d[unat ?i := ucast (S ?j), unat ?j := ucast (S ?i)]"
  have x: "(ucast i + 1 :: u32) AND 0xff = ucast ?i" using low_byte_add [of i 1] by simp
  have y: "(ucast (S ?i) + ucast j :: u32) AND 0xff = ucast ?j" using low_byte_add [of "S ?i" j] by (simp add: add.commute)
  have r: "rep ?d ?S" by (rule rep_swap [OF Cons.prems])
  have z: "?d ! unat ((ucast (S ?i) + ucast (S ?j) :: u32) AND 0xff) = ucast (?S (?S ?i + ?S ?j))"
  proof -
    have "?S ?i + ?S ?j = S ?i + S ?j" by (simp add: swap_def add.commute)
    then show ?thesis using low_byte_add [of "S ?i" "S ?j"] rep_nth(1) [OF r, of "S ?i + S ?j"] by (simp add: unat_ucast_u32)
  qed
  have step: "rc4_loop (ucast i) (ucast j) d (c # cs) =
      (let (out, st) = rc4_loop (ucast ?i) (ucast ?j) ?d cs in ((?S (?S ?i + ?S ?j) XOR c) # out, st))" for c cs
  proof -
    have "ucast (ucast (?S (?S ?i + ?S ?j)) XOR ucast c :: u32) = ?S (?S ?i + ?S ?j) XOR c"
      by (rule bit_eqI) (auto simp: bit_xor_iff bit_ucast_iff dest: bit_imp_le_length)
    then show ?thesis
      using rep_nth(1) [OF Cons.prems] x y z by (simp add: Let_def unat_ucast_u32)
  qed
  obtain i' j' :: u8 and S' d' where IH: "rc4_loop (ucast ?i) (ucast ?j) ?d bs = (map2 (XOR) (keystream ?i ?j ?S (length bs)) bs, ucast i', ucast j', d')"
    "rep d' S'" "bij ?S \<longrightarrow> bij S'"
    "\<forall>cs. length cs = length bs \<longrightarrow> rc4_loop (ucast ?i) (ucast ?j) ?d cs = (map2 (XOR) (keystream ?i ?j ?S (length bs)) cs, ucast i', ucast j', d')"
    using Cons.IH [OF r] by blast
  have k: "keystream i j S (Suc n) = ?S (?S ?i + ?S ?j) # keystream ?i ?j ?S n" for n by (simp add: Let_def)
  have all: "rc4_loop (ucast i) (ucast j) d cs = (map2 (XOR) (keystream i j S (length (b # bs))) cs, ucast i', ucast j', d')"
    if "length cs = length (b # bs)" for cs
    using that IH(4) by (cases cs) (auto simp: step k simp del: keystream.simps rc4_loop.simps)
  show ?case using all [of "b # bs"] all IH(2,3) bij_swap by blast
qed

lemma set_key_loop_eq:
  assumes len: "0 < unat len" "unat len \<le> length key"
  shows "n \<le> 256 \<Longrightarrow> rep d (snd (schedule (take (unat len) key) (256 - n))) \<Longrightarrow>
    \<exists>d'. set_key_loop len key [256 - n..<256] (word_of_nat ((256 - n) mod unat len)) (ucast (fst (schedule (take (unat len) key) (256 - n)))) d = Some d' \<and>
      rep d' (snd (schedule (take (unat len) key) 256))"
proof (induction n arbitrary: d)
  case 0
  then show ?case by simp
next
  case (Suc n)
  let ?m = "256 - Suc n" and ?key = "take (unat len) key"
  obtain j S where s: "schedule ?key ?m = (j, S)" by fastforce
  have m: "256 - n = Suc ?m" "?m < 256" using Suc.prems(1) by simp_all
  let ?i = "word_of_nat ?m :: u8"
  let ?k = "key ! (?m mod unat len)"
  let ?j = "j + S ?i + ?k"
  have ui: "unat ?i = ?m" using m(2) by (simp add: unsigned_of_nat take_bit_nat_eq_self)
  have ml: "?m mod unat len < unat len" using len(1) by simp
  have uid: "unat (word_of_nat (?m mod unat len) :: u32) = ?m mod unat len"
    using ml unsigned_less [of len, where ?'a = nat] by (simp add: unsigned_of_nat take_bit_nat_eq_self)
  have next1: "(if (word_of_nat (?m mod unat len) :: u32) + 1 = len then 0 else word_of_nat (?m mod unat len) + 1) =
      (word_of_nat (Suc ?m mod unat len) :: u32)"
  proof -
    have w: "(word_of_nat (?m mod unat len) :: u32) + 1 = word_of_nat (Suc (?m mod unat len))" by (simp add: add.commute)
    have "word_of_nat (Suc (?m mod unat len)) = len \<longleftrightarrow> Suc (?m mod unat len) = unat len"
    proof
      assume "word_of_nat (Suc (?m mod unat len)) = len"
      moreover have "Suc (?m mod unat len) < 4294967296" using m(2) mod_less_eq_dividend [of ?m "unat len"] by linarith
      ultimately show "Suc (?m mod unat len) = unat len" by (metis unat_word32)
    next
      assume "Suc (?m mod unat len) = unat len"
      then show "word_of_nat (Suc (?m mod unat len)) = len" by (metis of_nat_unat ucast_id)
    qed
    then show ?thesis unfolding w by (simp add: mod_Suc)
  qed
  have rS: "rep d S" using Suc.prems(2) s by simp
  have tmp: "d ! ?m = ucast (S ?i)" using rep_nth(1) [OF rS, of ?i] ui by simp
  have id2: "(ucast ?k + ucast (S ?i) + ucast j :: u32) AND 0xff = ucast ?j"
    using low_byte_add3 [of ?k "S ?i" j] by (simp only: ac_simps)
  have d2: "d ! unat ?j = ucast (S ?j)" by (rule rep_nth(1) [OF rS])
  have r': "rep (d[?m := ucast (S ?j), unat ?j := ucast (S ?i)]) (swap S ?i ?j)" using rep_swap [OF rS, of ?i ?j] ui by simp
  have sch: "schedule ?key (Suc ?m) = (?j, swap S ?i ?j)" using s ml len by (simp add: Let_def min_def)
  have up: "[?m..<256] = ?m # [256 - n..<256]" using m by (simp add: upt_conv_Cons)
  have "set_key_loop len key [?m..<256] (word_of_nat (?m mod unat len)) (ucast j) d =
      set_key_loop len key [256 - n..<256] (word_of_nat (Suc ?m mod unat len)) (ucast ?j) (d[?m := ucast (S ?j), unat ?j := ucast (S ?i)])"
  proof -
    have "\<not> length key \<le> ?m mod unat len" using ml len(2) by linarith
    then show ?thesis unfolding up set_key_loop.simps Let_def uid tmp id2 unat_ucast_u32 d2 next1 by (simp only: if_False)
  qed
  moreover have "rep (d[?m := ucast (S ?j), unat ?j := ucast (S ?i)]) (snd (schedule ?key (256 - n)))" using r' sch m(1) by simp
  ultimately show ?case using Suc.IH [of "d[?m := ucast (S ?j), unat ?j := ucast (S ?i)]"] Suc.prems(1) s sch m(1) by simp
qed

lemma RC4_set_key_eq:
  assumes "0 < unat len" "unat len \<le> length key"
  shows "\<exists>d. RC4_set_key len key = Some \<lparr>rc4_x = 0, rc4_y = 0, rc4_data = d\<rparr> \<and> rep d (snd (schedule (take (unat len) key) 256))"
proof -
  have "rep (map word_of_nat [0..<256]) (\<lambda>i. i)" by (simp add: rep_def unat_u8_less)
  then show ?thesis using set_key_loop_eq [OF assms, of 256 "map word_of_nat [0..<256]"] by (auto simp: RC4_set_key_def)
qed

section \<open>Properties\<close>

text \<open>A state: two indices and a permutation of the bytes.\<close>

definition rc4_ok :: "RC4_KEY \<Rightarrow> bool" where
  "rc4_ok k \<longleftrightarrow> (\<exists>i j S. rc4_x k = ucast (i :: u8) \<and> rc4_y k = ucast (j :: u8) \<and> rep (rc4_data k) S \<and> bij S)"

lemma RC4_keystream:
  assumes "rc4_x k = ucast i" "rc4_y k = ucast j" "rep (rc4_data k) S" "bij S"
  shows "\<exists>k'. rc4_ok k' \<and> (\<forall>m. length m = n \<longrightarrow> RC4 k m = (map2 (XOR) (keystream i j S n) m, k'))"
proof -
  obtain i' j' :: u8 and S' d' where l: "rep d' S'" "bij S'" "\<forall>cs. length cs = length (replicate n (0 :: u8)) \<longrightarrow>
      rc4_loop (ucast i) (ucast j) (rc4_data k) cs = (map2 (XOR) (keystream i j S (length (replicate n (0 :: u8)))) cs, ucast i', ucast j', d')"
    using rc4_loop_eq [OF assms(3), of i j "replicate n 0"] assms(4) by blast
  let ?k = "\<lparr>rc4_x = ucast i', rc4_y = ucast j', rc4_data = d'\<rparr>"
  have "rc4_ok ?k" using l(1,2) by (auto simp: rc4_ok_def)
  moreover have "RC4 k m = (map2 (XOR) (keystream i j S n) m, ?k)" if "length m = n" for m
    using l(3) that by (simp add: RC4_def assms(1,2))
  ultimately show ?thesis by blast
qed

lemma length_keystream [simp]: "length (keystream i j S n) = n"
  by (induction n arbitrary: i j S) (simp_all add: Let_def)

lemma xor_again: "length ks = length m \<Longrightarrow> map2 (XOR) ks (map2 (XOR) ks m) = (m :: u8 list)"
proof (rule nth_equalityI)
  fix i assume "length ks = length m" "i < length (map2 (XOR) ks (map2 (XOR) ks m))"
  then show "map2 (XOR) ks (map2 (XOR) ks m) ! i = m ! i" by (simp add: xor.assoc [symmetric])
qed simp

lemma rc4_loop_append:
  "rc4_loop x y d (bs @ cs) = (let (out1, x, y, d) = rc4_loop x y d bs; (out2, st) = rc4_loop x y d cs in (out1 @ out2, st))"
proof (induction bs arbitrary: x y d)
  case (Cons b bs)
  then show ?case by (simp add: Let_def split: prod.splits)
qed (simp split: prod.splits)

text \<open>
  C24: \<open>RC4_set_key\<close> and \<open>RC4\<close> compute the cipher RC4: from a key of at least one byte they produce the
  input combined with the keystream of the textbook definition on bytes; a message may be
  processed in pieces; and in every state that is reached, processing the output again from the same state gives the
  input back and leads to the same state, which again holds a permutation of the bytes.
\<close>
theorem rc4_exact:
  assumes "0 < unat len" "unat len \<le> length key"
  shows "\<exists>k. RC4_set_key len key = Some k \<and> rc4_ok k \<and>
    (\<forall>m. fst (RC4 k m) = map2 (XOR) (keystream 0 0 (snd (schedule (take (unat len) key) 256)) (length m)) m) \<and>
    (\<forall>k' m m'. rc4_ok k' \<longrightarrow> (let (c, k1) = RC4 k' m; (c', k2) = RC4 k1 m' in
       RC4 k' (m @ m') = (c @ c', k2) \<and> RC4 k' c = (m, k1) \<and> rc4_ok k1))"
proof -
  let ?S = "snd (schedule (take (unat len) key) 256)"
  obtain d where d: "RC4_set_key len key = Some \<lparr>rc4_x = 0, rc4_y = 0, rc4_data = d\<rparr>" "rep d ?S" using RC4_set_key_eq [OF assms] by blast
  let ?k = "\<lparr>rc4_x = 0, rc4_y = 0, rc4_data = d\<rparr>"
  have b: "bij ?S" by (rule bij_schedule)
  have k: "rc4_x ?k = ucast (0 :: u8)" "rc4_y ?k = ucast (0 :: u8)" "rep (rc4_data ?k) ?S" using d(2) by simp_all
  have "rc4_ok ?k" unfolding rc4_ok_def using k b by blast
  moreover have "fst (RC4 ?k m) = map2 (XOR) (keystream 0 0 ?S (length m)) m" for m
    using RC4_keystream [OF k b, of "length m"] by fastforce
  moreover have "let (c, k1) = RC4 k' m; (c', k2) = RC4 k1 m' in RC4 k' (m @ m') = (c @ c', k2) \<and> RC4 k' c = (m, k1) \<and> rc4_ok k1"
    if "rc4_ok k'" for k' m m'
  proof -
    obtain i j S where s: "rc4_x k' = ucast (i :: u8)" "rc4_y k' = ucast (j :: u8)" "rep (rc4_data k') S" "bij S"
      using \<open>rc4_ok k'\<close> by (auto simp: rc4_ok_def)
    obtain k1 where k1: "rc4_ok k1" "\<forall>n. length n = length m \<longrightarrow> RC4 k' n = (map2 (XOR) (keystream i j S (length m)) n, k1)"
      using RC4_keystream [OF s] by blast
    have "RC4 k' (map2 (XOR) (keystream i j S (length m)) m) = (m, k1)" using k1(2) by (simp add: xor_again)
    moreover have "RC4 k' (m @ m') = (let (c, k1) = RC4 k' m; (c', k2) = RC4 k1 m' in (c @ c', k2))"
      by (simp add: RC4_def rc4_loop_append Let_def split: prod.split)
    ultimately show ?thesis using k1 by (simp add: Let_def split: prod.split)
  qed
  ultimately show ?thesis using d(1) by blast
qed

theorem rc4_exact_witness:
  "\<exists>k. RC4_set_key 3 [75, 101, 121] = Some k \<and> rc4_ok k \<and>
     fst (RC4 k [1, 2]) = map2 (XOR) (keystream 0 0 (snd (schedule [75, 101, 121] 256)) 2) [1, 2]"
proof -
  have u: "unat (3 :: u32) = 3" by simp
  have "0 < unat (3 :: u32)" "unat (3 :: u32) \<le> length [75, 101, 121 :: u8]" by simp_all
  from rc4_exact [OF this] obtain k where k: "RC4_set_key 3 [75, 101, 121] = Some k" "rc4_ok k"
    "\<forall>m. fst (RC4 k m) = map2 (XOR) (keystream 0 0 (snd (schedule (take (unat (3 :: u32)) [75, 101, 121]) 256)) (length m)) m" by blast
  have "take (unat (3 :: u32)) [75, 101, 121 :: u8] = [75, 101, 121]" "length [1, 2 :: u8] = 2" by simp_all
  then show ?thesis using k(1,2) k(3) [THEN spec, of "[1, 2]"] by metis
qed

end
