(* ===== verification/ASN1_String.thy ===== *)
theory ASN1_String
  imports BS_Codec "HOL-Library.Monad_Syntax"
begin

text \<open>
  The strings of BoringSSL's ASN.1 module: \<open>ASN1_STRING\<close> and the encoding of headers of
  \<open>crypto/asn1/asn1_lib.c\<close>, and the bit strings of \<open>a_bitstr.c\<close>. The data of a string is the block that was
  allocated for it, which may be larger than its length. A function that reads or writes outside a
  block, or through a null pointer, returns \<open>None\<close>. The constants of \<open>asn1.h\<close>, which is not in the tree, are
  the parameter \<open>asn1_consts\<close>. Lengths, tags and bit numbers, which are of type \<open>int\<close>, are natural numbers.
\<close>

section \<open>Strings\<close>

record ASN1_STRING =
  as_length :: nat
  as_type :: u32
  as_data :: "u8 list option"
  as_flags :: u64

record asn1_consts =
  V_NEG :: u32
  V_INTEGER :: u32
  V_ENUMERATED :: u32
  V_NEG_INTEGER :: u32
  V_NEG_ENUMERATED :: u32
  V_BIT_STRING :: u32
  V_OCTET_STRING :: u32
  V_UTCTIME :: u32
  V_GENERALIZEDTIME :: u32
  FLAG_BITS_LEFT :: u64
  V_CONSTRUCTED :: u8
  V_PRIVATE :: u8
  V_PRIMITIVE_TAG :: u8
  V_UNIVERSAL :: u32
  V_MAX_UNIVERSAL :: u32
  CLASS_MASK :: u32

definition asn1_consts_ok :: "asn1_consts \<Rightarrow> bool" where
  "asn1_consts_ok C \<longleftrightarrow> V_NEG C = 0x100 \<and> V_INTEGER C = 2 \<and> V_ENUMERATED C = 10 \<and> V_NEG_INTEGER C = 0x102 \<and>
     V_NEG_ENUMERATED C = 0x10a \<and> V_BIT_STRING C = 3 \<and> V_OCTET_STRING C = 4 \<and> V_UTCTIME C = 23 \<and> V_GENERALIZEDTIME C = 24 \<and> FLAG_BITS_LEFT C = 8 \<and>
     V_CONSTRUCTED C = 0x20 \<and> V_PRIVATE C = 0xc0 \<and> V_PRIMITIVE_TAG C = 0x1f \<and> V_UNIVERSAL C = 0 \<and> V_MAX_UNIVERSAL C = 0xff \<and>
     CLASS_MASK C = 0xc0000000"

definition asn1_consts_std :: asn1_consts where
  "asn1_consts_std = \<lparr>V_NEG = 0x100, V_INTEGER = 2, V_ENUMERATED = 10, V_NEG_INTEGER = 0x102, V_NEG_ENUMERATED = 0x10a,
     V_BIT_STRING = 3, V_OCTET_STRING = 4, V_UTCTIME = 23, V_GENERALIZEDTIME = 24, FLAG_BITS_LEFT = 8, V_CONSTRUCTED = 0x20, V_PRIVATE = 0xc0, V_PRIMITIVE_TAG = 0x1f,
     V_UNIVERSAL = 0, V_MAX_UNIVERSAL = 0xff, CLASS_MASK = 0xc0000000\<rparr>"

lemma asn1_consts_std_ok: "asn1_consts_ok asn1_consts_std"
  by (simp add: asn1_consts_ok_def asn1_consts_std_def)

abbreviation (input) ASN1_STRING_MAX :: nat where "ASN1_STRING_MAX \<equiv> 64 * 1024 * 1024"
abbreviation (input) INT_MAX :: nat where "INT_MAX \<equiv> 2147483647"

definition ASN1_STRING_length :: "ASN1_STRING \<Rightarrow> nat" where
  "ASN1_STRING_length str = as_length str"

definition ASN1_STRING_type :: "ASN1_STRING \<Rightarrow> u32" where
  "ASN1_STRING_type str = as_type str"

definition ASN1_STRING_data :: "ASN1_STRING \<Rightarrow> u8 list option" where
  "ASN1_STRING_data str = as_data str"

definition ASN1_STRING_get0_data :: "ASN1_STRING \<Rightarrow> u8 list option" where
  "ASN1_STRING_get0_data str = as_data str"

definition ASN1_STRING_type_new :: "allocator \<Rightarrow> u32 \<Rightarrow> ASN1_STRING option" where
  "ASN1_STRING_type_new H type =
     (if \<not> alloc_ok H 24 then None
      else Some \<lparr>as_length = 0, as_type = type, as_data = None, as_flags = 0\<rparr>)"

definition ASN1_STRING_new :: "allocator \<Rightarrow> asn1_consts \<Rightarrow> ASN1_STRING option" where
  "ASN1_STRING_new H C = ASN1_STRING_type_new H (V_OCTET_STRING C)"

text \<open>\<open>OPENSSL_malloc\<close> and \<open>OPENSSL_realloc\<close> of \<open>n\<close> bytes.\<close>

definition resize_block :: "allocator \<Rightarrow> u8 list option \<Rightarrow> nat \<Rightarrow> u8 list option" where
  "resize_block H block n =
     (if \<not> alloc_ok H n then None
      else case block of
        None \<Rightarrow> Some (map (junk H) [0..<n])
      | Some old \<Rightarrow> Some (take n old @ map (junk H) [length old..<n]))"

text \<open>The length of the data: the outer \<open>None\<close> is a read past its end, the inner one a null pointer.\<close>

definition set_length :: "u8 list option \<Rightarrow> int \<Rightarrow> nat option option" where
  "set_length data len_s =
     (if len_s < 0 then
        case data of
          None \<Rightarrow> Some None
        | Some d \<Rightarrow> if 0 \<in> set d then Some (Some (length (takeWhile (\<lambda>b. b \<noteq> 0) d))) else None
      else Some (Some (nat len_s)))"

definition ASN1_STRING_set :: "allocator \<Rightarrow> ASN1_STRING \<Rightarrow> u8 list option \<Rightarrow> int \<Rightarrow> (bool \<times> ASN1_STRING) option" where
  "ASN1_STRING_set H str data len_s =
     do { l \<leftarrow> set_length data len_s;
          case l of
            None \<Rightarrow> Some (False, str)
          | Some len \<Rightarrow>
              if len > ASN1_STRING_MAX then Some (False, str)
              else
                case (if as_length str \<le> len \<or> as_data str = None then resize_block H (as_data str) (len + 1) else as_data str) of
                  None \<Rightarrow> Some (False, str)
                | Some block \<Rightarrow>
                    let str = str\<lparr>as_data := Some block, as_length := len\<rparr> in
                    (case data of
                       None \<Rightarrow> Some (True, str)
                     | Some d \<Rightarrow>
                         do { check (len \<le> length d \<and> len < length block);
                              Some (True, str\<lparr>as_data := Some (take len d @ 0 # drop (len + 1) block)\<rparr>) }) }"

definition ASN1_STRING_set0 :: "ASN1_STRING \<Rightarrow> u8 list option \<Rightarrow> nat \<Rightarrow> ASN1_STRING" where
  "ASN1_STRING_set0 str data len = str\<lparr>as_data := data, as_length := len\<rparr>"

definition ASN1_STRING_copy :: "allocator \<Rightarrow> ASN1_STRING \<Rightarrow> ASN1_STRING option \<Rightarrow> (bool \<times> ASN1_STRING) option" where
  "ASN1_STRING_copy H dst str =
     (case str of
        None \<Rightarrow> Some (False, dst)
      | Some str \<Rightarrow>
          do { (ok, dst) \<leftarrow> ASN1_STRING_set H dst (as_data str) (int (as_length str));
               if \<not> ok then Some (False, dst)
               else Some (True, dst\<lparr>as_type := as_type str, as_flags := as_flags str\<rparr>) })"

definition ASN1_STRING_dup :: "allocator \<Rightarrow> asn1_consts \<Rightarrow> ASN1_STRING option \<Rightarrow> ASN1_STRING option option" where
  "ASN1_STRING_dup H C str =
     (case str of
        None \<Rightarrow> Some None
      | Some s \<Rightarrow>
          (case ASN1_STRING_new H C of
             None \<Rightarrow> Some None
           | Some ret \<Rightarrow>
               do { (ok, ret) \<leftarrow> ASN1_STRING_copy H ret str;
                    Some (if ok then Some ret else None) }))"

section \<open>Bit strings\<close>

text \<open>\<open>while (len > 0 && data[len - 1] == 0) len--;\<close>\<close>

primrec trim_len :: "u8 list \<Rightarrow> nat \<Rightarrow> nat" where
  "trim_len data 0 = 0"
| "trim_len data (Suc n) = (if data ! n = 0 then trim_len data n else Suc n)"

text \<open>The bytes of a string.\<close>

definition get_bytes :: "ASN1_STRING \<Rightarrow> u8 list option" where
  "get_bytes str =
     (if as_length str = 0 then Some []
      else do { block \<leftarrow> as_data str;
                check (as_length str \<le> length block);
                Some (take (as_length str) block) })"

definition last_padding :: "u8 \<Rightarrow> nat" where
  "last_padding b = (case find (\<lambda>p. b AND push_bit p 1 \<noteq> 0) [0..<7] of None \<Rightarrow> 7 | Some p \<Rightarrow> p)"

definition asn1_bit_string_length :: "asn1_consts \<Rightarrow> ASN1_STRING \<Rightarrow> (nat \<times> nat) option" where
  "asn1_bit_string_length C str =
     (let len = as_length str in
      if as_flags str AND FLAG_BITS_LEFT C \<noteq> 0 then Some (len, if len = 0 then 0 else unat (as_flags str AND 0x07))
      else do {
        data \<leftarrow> get_bytes str;
        let len = trim_len data len;
        Some (len, if len > 0 then last_padding (data ! (len - 1)) else 0) })"

definition ASN1_BIT_STRING_set :: "allocator \<Rightarrow> ASN1_STRING \<Rightarrow> u8 list option \<Rightarrow> int \<Rightarrow> (bool \<times> ASN1_STRING) option" where
  "ASN1_BIT_STRING_set H x d len = ASN1_STRING_set H x d len"

definition ASN1_BIT_STRING_num_bytes :: "asn1_consts \<Rightarrow> ASN1_STRING \<Rightarrow> nat option option" where
  "ASN1_BIT_STRING_num_bytes C str =
     do { (len, padding_bits) \<leftarrow> asn1_bit_string_length C str;
          Some (if padding_bits \<noteq> 0 then None else Some len) }"

text \<open>The result is the return value and the bytes written at \<open>*pp\<close>; \<open>pp\<close> says whether the pointer is not null.\<close>

definition i2c_ASN1_BIT_STRING :: "asn1_consts \<Rightarrow> ASN1_STRING option \<Rightarrow> bool \<Rightarrow> (nat \<times> u8 list) option" where
  "i2c_ASN1_BIT_STRING C a pp =
     (case a of
        None \<Rightarrow> Some (0, [])
      | Some a \<Rightarrow>
          do { (len, bits) \<leftarrow> asn1_bit_string_length C a;
               if len > INT_MAX - 1 then Some (0, [])
               else if \<not> pp then Some (1 + len, [])
               else do {
                 data \<leftarrow> get_bytes a;
                 let p = take len data;
                 let p = (if len > 0 then p[len - 1 := (p ! (len - 1)) AND push_bit bits 0xff] else p);
                 Some (1 + len, word_of_nat bits # p) } })"

text \<open>
  \<open>a\<close> is the string in \<open>*a\<close>, if there is one. The result is whether the call succeeds, the string, and the
  input that has not been read.
\<close>

definition c2i_ASN1_BIT_STRING ::
  "allocator \<Rightarrow> asn1_consts \<Rightarrow> ASN1_STRING option \<Rightarrow> u8 list \<Rightarrow> int \<Rightarrow> (bool \<times> ASN1_STRING option \<times> u8 list) option" where
  "c2i_ASN1_BIT_STRING H C a pp len =
     (if len < 1 \<or> len > int INT_MAX then Some (False, a, pp)
      else case (case a of None \<Rightarrow> ASN1_STRING_type_new H (V_BIT_STRING C) | Some a \<Rightarrow> Some a) of
        None \<Rightarrow> Some (False, a, pp)
      | Some ret \<Rightarrow>
          do { check (nat len \<le> length pp);
               let padding = unat (hd pp);
               let p = tl pp;
               let len = nat len - 1;
               if padding > 7 then Some (False, a, pp)
               else
                 let padding_mask = push_bit padding 1 - 1 in
                 if padding \<noteq> 0 \<and> (len < 1 \<or> (p ! (len - 1)) AND padding_mask \<noteq> 0) then Some (False, a, pp)
                 else
                   let ret = ret\<lparr>as_flags := as_flags ret AND NOT (FLAG_BITS_LEFT C OR 0x07)\<rparr>;
                       ret = ret\<lparr>as_flags := as_flags ret OR (FLAG_BITS_LEFT C OR word_of_nat padding)\<rparr> in
                   if len > 0 \<and> \<not> alloc_ok H len then Some (False, map_option (\<lambda>_. ret) a, pp)
                   else
                     let s = (if len > 0 then Some (take len p) else None);
                         ret = ret\<lparr>as_length := len, as_data := s, as_type := V_BIT_STRING C\<rparr> in
                     Some (True, Some ret, drop len p) })"

definition ASN1_BIT_STRING_set_bit ::
  "allocator \<Rightarrow> asn1_consts \<Rightarrow> ASN1_STRING option \<Rightarrow> nat \<Rightarrow> bool \<Rightarrow> (bool \<times> ASN1_STRING option) option" where
  "ASN1_BIT_STRING_set_bit H C a n val =
     (let w = n div 8;
          v = push_bit (7 - n mod 8) 1;
          iv = NOT v;
          v = (if \<not> val then 0 else v) in
      case a of
        None \<Rightarrow> Some (False, None)
      | Some a \<Rightarrow>
          let a = a\<lparr>as_flags := as_flags a AND NOT (FLAG_BITS_LEFT C OR 0x07)\<rparr> in
          if (as_length a < w + 1 \<or> as_data a = None) \<and> \<not> val then Some (True, Some a)
          else
            case (if as_length a < w + 1 \<or> as_data a = None then
                    (case resize_block H (as_data a) (w + 1) of
                       None \<Rightarrow> None
                     | Some c \<Rightarrow>
                         Some (a\<lparr>as_data := Some (if w + 1 > as_length a then take (as_length a) c @ replicate (w + 1 - as_length a) 0 else c),
                                 as_length := w + 1\<rparr>))
                  else Some a) of
              None \<Rightarrow> Some (False, Some a)
            | Some a \<Rightarrow>
                do { data \<leftarrow> as_data a;
                     check (w < length data \<and> as_length a \<le> length data);
                     let data = data[w := ((data ! w) AND iv) OR v];
                     Some (True, Some (a\<lparr>as_data := Some data, as_length := trim_len data (as_length a)\<rparr>)) })"

definition ASN1_BIT_STRING_get_bit :: "ASN1_STRING option \<Rightarrow> nat \<Rightarrow> bool option" where
  "ASN1_BIT_STRING_get_bit a n =
     (let w = n div 8; v = push_bit (7 - n mod 8) 1 in
      case a of
        None \<Rightarrow> Some False
      | Some a \<Rightarrow>
          if as_length a < w + 1 then Some False
          else (case as_data a of
            None \<Rightarrow> Some False
          | Some data \<Rightarrow> do { check (w < length data); Some ((data ! w) AND v \<noteq> 0) }))"

primrec bits_check_loop :: "u8 list \<Rightarrow> u8 list \<Rightarrow> nat \<Rightarrow> bool" where
  "bits_check_loop data flags 0 = True"
| "bits_check_loop data flags (Suc i) =
     (bits_check_loop data flags i \<and> (data ! i) AND (if i < length flags then NOT (flags ! i) else 0xff) = 0)"

definition ASN1_BIT_STRING_check :: "ASN1_STRING option \<Rightarrow> u8 list \<Rightarrow> bool option" where
  "ASN1_BIT_STRING_check a flags =
     (case a of
        None \<Rightarrow> Some True
      | Some a \<Rightarrow>
          (case as_data a of
             None \<Rightarrow> Some True
           | Some data \<Rightarrow> do { check (as_length a \<le> length data); Some (bits_check_loop data flags (as_length a)) }))"

text \<open>Comparing: the lengths and the padding first.\<close>

definition cmp_length :: "asn1_consts \<Rightarrow> ASN1_STRING \<Rightarrow> (nat \<times> nat) option" where
  "cmp_length C a = (if as_type a = V_BIT_STRING C then asn1_bit_string_length C a else Some (as_length a, 0))"

definition ASN1_STRING_cmp :: "asn1_consts \<Rightarrow> ASN1_STRING \<Rightarrow> ASN1_STRING \<Rightarrow> int option" where
  "ASN1_STRING_cmp C a b =
     do { (a_length, a_padding) \<leftarrow> cmp_length C a;
          (b_length, b_padding) \<leftarrow> cmp_length C b;
          if a_length < b_length then Some (- 1)
          else if a_length > b_length then Some 1
          else if a_padding > b_padding then Some (- 1)
          else if a_padding < b_padding then Some 1
          else do {
            x \<leftarrow> get_bytes a;
            y \<leftarrow> get_bytes b;
            let ret = OPENSSL_memcmp (take a_length x) (take a_length y);
            Some (if ret \<noteq> 0 then ret
                  else if as_type a <s as_type b then - 1
                  else if as_type b <s as_type a then 1
                  else 0) } }"

section \<open>Headers\<close>

text \<open>The number of digits in base \<open>2\<^sup>k\<close>: \<open>for (i = 0; n > 0; i++) n >>= k;\<close>\<close>

function count_digits :: "nat \<Rightarrow> nat \<Rightarrow> nat" where
  "count_digits k n = (if n = 0 \<or> k = 0 then 0 else Suc (count_digits k (n div 2 ^ k)))"
  by pat_completeness auto

termination
proof (relation "measure snd")
  fix k n :: nat
  assume "\<not> (n = 0 \<or> k = 0)"
  then have "n div 2 ^ k < n" using one_less_power [of "2 :: nat" k] by (intro div_less_dividend) simp_all
  then show "((k, n div 2 ^ k), (k, n)) \<in> measure snd" by simp
qed simp

declare count_digits.simps [simp del]

text \<open>\<open>while (i-- > 0)\<close>, from the last byte to the first.\<close>

primrec put_tag_loop :: "nat \<Rightarrow> nat \<Rightarrow> nat \<Rightarrow> u8 list" where
  "put_tag_loop ttag tag 0 = []"
| "put_tag_loop ttag tag (Suc i) =
     put_tag_loop ttag (tag div 2 ^ 7) i @
     [(word_of_nat tag AND 0x7f) OR (if i \<noteq> ttag - 1 then 0x80 else 0)]"

primrec put_length_loop :: "nat \<Rightarrow> nat \<Rightarrow> u8 list" where
  "put_length_loop len 0 = []"
| "put_length_loop len (Suc i) = put_length_loop (len div 2 ^ 8) i @ [word_of_nat len]"

definition asn1_put_length :: "nat \<Rightarrow> u8 list" where
  "asn1_put_length len =
     (if len \<le> 127 then [word_of_nat len]
      else
        let i = count_digits 8 len in
        (word_of_nat i OR 0x80) # put_length_loop len i)"

definition ASN1_put_object :: "asn1_consts \<Rightarrow> nat \<Rightarrow> nat \<Rightarrow> nat \<Rightarrow> u8 \<Rightarrow> u8 list" where
  "ASN1_put_object C constructed len tag xclass =
     (let i = (if constructed \<noteq> 0 then V_CONSTRUCTED C else 0);
          i = i OR (xclass AND V_PRIVATE C);
          head =
            (if tag < 31 then [i OR (word_of_nat tag AND V_PRIMITIVE_TAG C)]
             else
               let ttag = count_digits 7 tag in
               (i OR V_PRIMITIVE_TAG C) # put_tag_loop ttag tag ttag) in
      head @ (if constructed = 2 then [0x80] else asn1_put_length len))"

definition ASN1_put_eoc :: "u8 list" where
  "ASN1_put_eoc = [0, 0]"

definition ASN1_object_size :: "nat \<Rightarrow> int \<Rightarrow> nat \<Rightarrow> int" where
  "ASN1_object_size constructed len tag =
     (if len < 0 then - 1
      else
        let ret = 1;
            ret = (if tag \<ge> 31 then ret + count_digits 7 tag else ret);
            ret = (if constructed = 2 then ret + 3
                   else
                     let ret = ret + 1 in
                     if len > 127 then ret + count_digits 8 (nat len) else ret) in
        if int ret \<ge> int INT_MAX - len then - 1 else int ret + len)"

text \<open>
  The result is the return value, the length, the tag and the class, and the input, which then starts with the contents.
  \<open>None\<close> is the return value \<open>0x80\<close>.
\<close>

definition ASN1_get_object ::
  "asn1_env \<Rightarrow> asn1_consts \<Rightarrow> u8 list \<Rightarrow> int \<Rightarrow> (u32 \<times> nat \<times> u32 \<times> u32 \<times> u8 list) option" where
  "ASN1_get_object E C inp in_len =
     (if in_len < 0 then None
      else
        let cbs = take (nat in_len) inp in
        case CBS_get_any_asn1 E cbs of
          (None, _) \<Rightarrow> None
        | (Some (body, tag), rest) \<Rightarrow>
            if length body > INT_MAX div 2 then None
            else
              let tag_class = drop_bit (TAG_SHIFT E) (tag AND CLASS_MASK C);
                  constructed = drop_bit (TAG_SHIFT E) (tag AND CONSTRUCTED E);
                  tag_number = tag AND TAG_NUMBER_MASK E in
              if tag_class = V_UNIVERSAL C \<and> tag_number > V_MAX_UNIVERSAL C then None
              else Some (constructed, length body, tag_number, tag_class, drop (length cbs - length (body @ rest)) inp))"

end
