(* ===== verification/ASN1_Header.thy ===== *)
theory ASN1_Header
  imports ASN1_String BS_Integer
begin

text \<open>
  Headers of ASN.1 elements: what \<open>ASN1_put_object\<close> writes is the tag and the length of DER, \<open>ASN1_object_size\<close> is
  the number of bytes of the element, and \<open>ASN1_get_object\<close> reads exactly these headers.
\<close>

section \<open>Digits\<close>

lemma count_digits_0 [simp]: "count_digits k 0 = 0"
  by (simp add: count_digits.simps)

lemma count_digits_pos: "0 < n \<Longrightarrow> 0 < k \<Longrightarrow> count_digits k n = Suc (count_digits k (n div 2 ^ k))"
  by (simp add: count_digits.simps [of k n])

lemma count_digits_bounds:
  assumes "0 < n" "0 < k"
  shows "0 < count_digits k n \<and> (2 ^ k) ^ (count_digits k n - 1) \<le> n \<and> n < (2 ^ k) ^ count_digits k n"
  using assms
proof (induction k n rule: count_digits.induct)
  case (1 k n)
  let ?m = "n div 2 ^ k"
  have e: "count_digits k n = Suc (count_digits k ?m)" using 1(2,3) by (rule count_digits_pos)
  show ?case
  proof (cases "?m = 0")
    case True
    then have "n < 2 ^ k" by (simp add: div_eq_0_iff)
    with True 1(2) show ?thesis unfolding e by simp
  next
    case False
    then have IH: "0 < count_digits k ?m" "(2 ^ k) ^ (count_digits k ?m - 1) \<le> ?m" "?m < (2 ^ k) ^ count_digits k ?m"
      using 1 by simp_all
    have "(2 ^ k) ^ count_digits k ?m = 2 ^ k * (2 ^ k :: nat) ^ (count_digits k ?m - 1)"
      using IH(1) by (cases "count_digits k ?m") simp_all
    also have "\<dots> \<le> 2 ^ k * ?m" using IH(2) by (rule mult_le_mono2)
    also have "\<dots> \<le> n" by simp
    finally show ?thesis unfolding e using IH(3) by (simp add: div_less_iff_less_mult mult.commute)
  qed
qed

lemma put_length_loop_be: "put_length_loop n i = nat_to_be i n"
  by (induction i arbitrary: n) (simp_all add: nat_to_be_def)

lemma count_digits_8: "0 < n \<Longrightarrow> n < 2 ^ 32 \<Longrightarrow> count_digits 8 n = der_len_len n"
proof -
  assume n: "0 < n" "n < 2 ^ 32"
  let ?k = "count_digits 8 n"
  have b: "0 < ?k" "256 ^ (?k - 1) \<le> n" "n < 256 ^ ?k" using count_digits_bounds [OF n(1), of 8] by simp_all
  have "(256 :: nat) ^ (?k - 1) < 256 ^ 4" using b(2) n(2) by simp
  then have "?k - 1 < 4" by (rule power_less_imp_less_exp [rotated]) simp
  with b show ?thesis by (intro der_len_lenI [symmetric]) simp_all
qed

lemma asn1_put_length_der: "n < 2 ^ 32 \<Longrightarrow> asn1_put_length n = der_len n"
proof -
  assume n: "n < 2 ^ 32"
  have "(word_of_nat k OR 0x80 :: u8) = byte_of (128 + k)" if "k \<le> 4" for k
    using that or_disjoint_unat [of "0x80 :: u8" 7 "word_of_nat k"] by (simp add: byte_eq_iff or.commute)
  from this [OF der_len_len_bounds(4)] show ?thesis using n count_digits_8 [of n]
    by (simp add: asn1_put_length_def der_len_def byte_of_def put_length_loop_be Let_def)
qed

lemma digit_high: "((word_of_nat n :: u8) AND 0x7f) OR 0x80 = byte_of (128 + n mod 128)"
  using or_disjoint_unat [of "0x80 :: u8" 7 "word_of_nat n AND 0x7f"]
  by (simp add: byte_eq_iff or.commute unat_and_0x7f mod_mod_cancel)

lemma digit_low: "((word_of_nat n :: u8) AND 0x7f) = byte_of (n mod 128)"
  by (simp add: byte_eq_iff unat_and_0x7f mod_mod_cancel)

lemma put_tag_loop_high: "count_digits 7 n < ttag \<Longrightarrow> put_tag_loop ttag n (count_digits 7 n) = base128_high n"
proof (induction n rule: base128_high.induct)
  case (1 n)
  then show ?case
    by (cases "n = 0") (auto simp: count_digits_pos base128_high.simps [of n] digit_high)
qed

lemma put_tag_loop_base128: "0 < n \<Longrightarrow> put_tag_loop (count_digits 7 n) n (count_digits 7 n) = base128 n"
  using put_tag_loop_high [of "n div 128" "Suc (count_digits 7 (n div 128))"]
  by (simp add: count_digits_pos base128_def digit_low)

lemma length_base128: "0 < n \<Longrightarrow> length (base128 n) = count_digits 7 n"
proof -
  have "length (put_tag_loop t n i) = i" for t i by (induction i arbitrary: n) simp_all
  then show "0 < n \<Longrightarrow> ?thesis" using put_tag_loop_base128 [of n] by metis
qed

section \<open>Tags\<close>

text \<open>The tag of an element with class, constructed bit and number.\<close>

definition header_tag :: "nat \<Rightarrow> bool \<Rightarrow> nat \<Rightarrow> u32" where
  "header_tag cls con num = word_of_nat (cls * 2 ^ 30 + of_bool con * 2 ^ 29 + num)"

lemma unat_header_tag:
  assumes "cls < 4" "num < 2 ^ 29"
  shows "unat (header_tag cls con num) = (2 * cls + of_bool con) * 2 ^ 29 + num"
proof -
  have "cls * 2 ^ 30 + of_bool con * 2 ^ 29 + num < 2 ^ 32" using assms by (cases con) simp_all
  then have "unat (header_tag cls con num) = cls * 2 ^ 30 + of_bool con * 2 ^ 29 + num"
    unfolding header_tag_def by (simp add: unsigned_of_nat take_bit_nat_eq_self del: of_nat_add of_nat_mult)
  then show ?thesis by simp
qed

lemma header_tag_parts:
  assumes "cls < 4" "num < 2 ^ 29"
  shows "unat (header_tag cls con num) div 2 ^ 29 = 2 * cls + of_bool con"
    "unat (header_tag cls con num) mod 2 ^ 29 = num"
  using assms(2) unfolding unat_header_tag [OF assms] by (simp_all only: div_mult_self3 mod_mult_self3 div_less mod_less)

lemma header_tag_exists: "\<exists>cls con num. cls < 4 \<and> num < 2 ^ 29 \<and> t = header_tag cls con num"
proof -
  let ?c = "unat t div 2 ^ 29"
  have c: "?c < 8" using unsigned_less [of t, where ?'a = nat] by (simp add: less_mult_imp_div_less)
  have "(2 * (?c div 2) + of_bool (odd ?c)) * 2 ^ 29 + unat t mod 2 ^ 29 = unat t"
    using div_mult_mod_eq [of "unat t" "2 ^ 29"] by (simp only: odd_two_times_div_two_succ even_two_times_div_two of_bool_def split: if_split) simp
  then have "t = header_tag (?c div 2) (odd ?c) (unat t mod 2 ^ 29)"
    using c unat_header_tag [of "?c div 2" "unat t mod 2 ^ 29" "odd ?c"] by (simp add: word_unat_eq_iff)
  moreover have "?c div 2 < 4" using c by simp
  ultimately show ?thesis by (metis mod_less_divisor zero_less_power zero_less_numeral)
qed

lemma head_byte:
  assumes "cls < 4" "k < 32"
  shows "((if con then 0x20 else 0) OR (word_of_nat (64 * cls) AND 0xc0) :: u8) OR word_of_nat k =
    byte_of (32 * (2 * cls + of_bool con) + k)"
proof -
  let ?i = "(if con then 0x20 else 0) OR (word_of_nat (64 * cls) AND 0xc0) :: u8"
  have "cls = 0 \<or> cls = 1 \<or> cls = 2 \<or> cls = 3" using assms(1) by linarith
  then have i: "unat ?i = 32 * (2 * cls + of_bool con)" by (elim disjE; cases con) (simp_all only: if_True if_False; code_simp)+
  then have "unat (?i OR word_of_nat k) = 32 * (2 * cls + of_bool con) + k"
    using or_disjoint_unat [of ?i 5 "word_of_nat k"] assms(2) by simp
  moreover have "32 * (2 * cls + of_bool con) + k < 256" using assms by (cases con) simp_all
  ultimately show ?thesis by (simp add: byte_eq_iff)
qed

lemma put_object_der:
  assumes C: "asn1_consts_ok C" and t: "cls < 4" "num < 2 ^ 29" and n: "n < 2 ^ 32"
  shows "ASN1_put_object C (of_bool con) n num (word_of_nat (64 * cls)) = der_tag (header_tag cls con num) @ der_len n"
proof -
  note d = header_tag_parts [OF t, of con]
  have c: "V_CONSTRUCTED C = 0x20" "V_PRIVATE C = 0xc0" "V_PRIMITIVE_TAG C = 0x1f" "of_bool con \<noteq> (2 :: nat)"
    "(of_bool con \<noteq> (0 :: nat)) = con"
    using C by (simp_all add: asn1_consts_ok_def)
  have low: "word_of_nat num AND (0x1f :: u8) = word_of_nat num" if "num < 31"
    using that unat_take_bit_mod [of 5 "word_of_nat num :: u8"]
    by (simp add: byte_eq_iff take_bit_eq_mask mask_numeral)
  have "ASN1_put_object C (of_bool con) n num (word_of_nat (64 * cls)) =
    (if num < 31 then [byte_of (32 * (2 * cls + of_bool con) + num)]
     else byte_of (32 * (2 * cls + of_bool con) + 31) # base128 num) @ der_len n"
    using head_byte [OF t(1), of num con] head_byte [OF t(1), of 31 con]
    unfolding ASN1_put_object_def c by (simp add: low asn1_put_length_der [OF n] put_tag_loop_base128 Let_def)
  then show ?thesis unfolding der_tag_def d by (simp add: Let_def)
qed

lemma object_size_der:
  assumes t: "cls < 4" "num < 2 ^ 29" and n: "n \<le> INT_MAX"
  shows "ASN1_object_size (of_bool con) (int n) num =
    (let k = length (der_tag (header_tag cls con num) @ der_len n) in if INT_MAX \<le> k + n then - 1 else int (k + n))"
proof -
  note d = header_tag_parts(2) [OF t, of con]
  have "length (der_tag (header_tag cls con num)) = 1 + (if num \<ge> 31 then count_digits 7 num else 0)"
    unfolding der_tag_def d by (simp add: Let_def length_base128)
  moreover have "length (der_len n) = 1 + (if n > 127 then count_digits 8 n else 0)"
    using n by (simp add: der_len_def count_digits_8)
  ultimately show ?thesis using n by (auto simp: ASN1_object_size_def Let_def)
qed

lemma header_tag_fields:
  assumes "cls < 4" "num < 2 ^ 29"
  shows "drop_bit 24 (header_tag cls con num AND 0xc0000000) = word_of_nat (64 * cls)"
    "drop_bit 24 (header_tag cls con num AND 0x20000000) = (if con then 0x20 else 0)"
    "header_tag cls con num AND 0x1fffffff = word_of_nat num"
proof -
  let ?t = "header_tag cls con num"
  note u = header_tag_parts [OF assms, of con]
  have of_unat: "word_of_nat (unat w) = w" for w :: u32 by simp
  have "?t AND 0x1fffffff = take_bit 29 ?t" by (simp add: take_bit_eq_mask mask_numeral)
  moreover have "unat (take_bit 29 ?t) = num" using u(2) by (simp add: unat_take_bit_mod)
  ultimately show "?t AND 0x1fffffff = word_of_nat num" by (metis of_unat)
  have d: "drop_bit 29 ?t = word_of_nat (2 * cls + of_bool con)"
    using u(1) by (metis unat_drop_bit_div of_unat)
  have e: "drop_bit 24 (?t AND push_bit 29 m) = push_bit 5 (drop_bit 29 ?t AND m)" for m
    by (rule bit_word_eqI) (auto simp: bit_simps dest: bit_imp_le_length)
  have m: "(0xc0000000 :: u32) = push_bit 29 6" "(0x20000000 :: u32) = push_bit 29 1" by code_simp+
  have "cls = 0 \<or> cls = 1 \<or> cls = 2 \<or> cls = 3" using assms(1) by linarith
  then show "drop_bit 24 (?t AND 0xc0000000) = word_of_nat (64 * cls)"
    "drop_bit 24 (?t AND 0x20000000) = (if con then 0x20 else 0)"
    unfolding m e d by (elim disjE; cases con; simp only: if_True if_False; code_simp)+
qed

section \<open>Reading\<close>

lemma get_object_eq:
  assumes E: "asn1_env_ok E" and C: "asn1_consts_ok C" and t: "cls < 4" "num < 2 ^ 29"
    and v: "valid_tag (header_tag cls con num)" and n: "length c < 2 ^ 32"
  shows "ASN1_get_object E C (der_element (header_tag cls con num) c @ r) (int (length (der_element (header_tag cls con num) c @ r))) =
    (if length c \<le> INT_MAX div 2 \<and> (cls = 0 \<longrightarrow> num \<le> 255)
     then Some (if con then 0x20 else 0, length c, word_of_nat num, word_of_nat (64 * cls), c @ r) else None)"
proof -
  have cls: "word_of_nat (64 * cls) = (0 :: u32) \<longleftrightarrow> cls = 0"
    using t(1) by (simp add: word_unat_eq_iff unsigned_of_nat take_bit_nat_eq_self del: of_nat_mult)
  have num: "(0xff :: u32) < word_of_nat num \<longleftrightarrow> 255 < num"
    using t(2) by (simp add: word_less_nat_alt unsigned_of_nat take_bit_nat_eq_self)
  have c: "CLASS_MASK C = 0xc0000000" "V_UNIVERSAL C = 0" "V_MAX_UNIVERSAL C = 0xff" "TAG_SHIFT E = 24"
    "CONSTRUCTED E = 0x20000000" "TAG_NUMBER_MASK E = 0x1fffffff"
    using E C by (simp_all add: asn1_consts_ok_def asn1_env_ok_def)
  have d: "drop (length (der_element u c @ r) - length (c @ r)) (der_element u c @ r) = c @ r" for u
    by (simp add: der_element_def)
  show ?thesis
    unfolding ASN1_get_object_def Let_def nat_int take_all [OF order_refl] CBS_get_any_asn1_complete [OF E v n] c
      prod.case option.case header_tag_fields [OF t] d
    by (auto simp: cls num not_less simp del: of_nat_mult length_append)
qed

lemma get_object_reject:
  assumes "asn1_env_ok E" "\<nexists>t c r. valid_tag t \<and> length c < 2 ^ 32 \<and> s = der_element t c @ r"
  shows "ASN1_get_object E C s (int (length s)) = None"
  using any_element_reject [OF assms]
  by (simp add: ASN1_get_object_def CBS_get_any_asn1_def CBS_get_any_asn1_element_def get_bind_def)

lemma valid_header_tag: "cls < 4 \<Longrightarrow> num < 2 ^ 29 \<Longrightarrow> valid_tag (header_tag cls con num) \<longleftrightarrow> cls \<noteq> 0 \<or> 0 < num"
  unfolding valid_tag_iff by (simp only: header_tag_parts) (cases con; auto)

lemma put_object_element:
  "asn1_consts_ok C \<Longrightarrow> cls < 4 \<Longrightarrow> num < 2 ^ 29 \<Longrightarrow> length c < 2 ^ 32 \<Longrightarrow>
   ASN1_put_object C (of_bool con) (length c) num (word_of_nat (64 * cls)) @ c = der_element (header_tag cls con num) c"
  by (simp add: put_object_der der_element_def del: of_nat_mult)

lemma get_object_iff:
  assumes E: "asn1_env_ok E" and C: "asn1_consts_ok C"
  shows "ASN1_get_object E C s (int (length s)) = Some (k, n, tag, xclass, p) \<longleftrightarrow>
    (\<exists>cls con num c r. cls < 4 \<and> num < 2 ^ 29 \<and> (cls = 0 \<longrightarrow> 0 < num \<and> num \<le> 255) \<and> length c \<le> INT_MAX div 2 \<and>
       s = ASN1_put_object C (of_bool con) (length c) num (word_of_nat (64 * cls)) @ c @ r \<and>
       k = (if con then 0x20 else 0) \<and> n = length c \<and> tag = word_of_nat num \<and> xclass = word_of_nat (64 * cls) \<and> p = c @ r)"
  (is "?L = ?R")
proof
  assume L: ?L
  then obtain t c r where "valid_tag t" and c: "length c < 2 ^ 32" "s = der_element t c @ r"
    using get_object_reject [OF E, of s C] by fastforce
  moreover obtain cls con num where t: "cls < 4" "num < 2 ^ 29" "t = header_tag cls con num"
    using header_tag_exists by blast
  ultimately have v: "valid_tag (header_tag cls con num)" and s: "s = der_element (header_tag cls con num) c @ r" by simp_all
  note g = L [unfolded s get_object_eq [OF E C t(1,2) v c(1)]]
  have "s = ASN1_put_object C (of_bool con) (length c) num (word_of_nat (64 * cls)) @ c @ r"
    unfolding s using put_object_element [OF C t(1,2) c(1), of con] by (simp del: of_nat_mult)
  moreover have "length c \<le> INT_MAX div 2" "cls = 0 \<longrightarrow> 0 < num \<and> num \<le> 255"
    "k = (if con then 0x20 else 0)" "n = length c" "tag = word_of_nat num" "xclass = word_of_nat (64 * cls)" "p = c @ r"
    using g v t(1,2) by (auto simp: valid_header_tag simp del: of_nat_mult split: if_splits)
  ultimately show ?R using t(1,2) by blast
next
  assume ?R
  then obtain cls con num c r where t: "cls < 4" "num < 2 ^ 29" "cls = 0 \<longrightarrow> 0 < num \<and> num \<le> 255" "length c \<le> INT_MAX div 2"
    and s: "s = ASN1_put_object C (of_bool con) (length c) num (word_of_nat (64 * cls)) @ c @ r"
    and r: "k = (if con then 0x20 else 0)" "n = length c" "tag = word_of_nat num" "xclass = word_of_nat (64 * cls)" "p = c @ r"
    by blast
  have c: "length c < 2 ^ 32" and v: "valid_tag (header_tag cls con num)" using t by (auto simp: valid_header_tag)
  have s: "s = der_element (header_tag cls con num) c @ r"
    unfolding s using put_object_element [OF C t(1,2) c, of con] by (simp del: of_nat_mult)
  show ?L unfolding s r get_object_eq [OF E C t(1,2) v c] using t by simp
qed

text \<open>
  C28: The headers of \<open>asn1_lib.c\<close> are those of DER. For every class, constructed bit and number below \<open>2\<^sup>29\<close>,
  \<open>ASN1_put_object\<close> writes the tag and the length of the element with these contents, and \<open>ASN1_object_size\<close> is the size
  of the whole element, or \<open>-1\<close> if that is not below \<open>INT_MAX\<close>. \<open>ASN1_get_object\<close> accepts an input exactly if it starts with such a
  header, its tag is not \<open>[UNIVERSAL 0]\<close> and not a universal tag above 255, the contents are there and have at most
  \<open>INT_MAX / 2\<close> bytes; it returns the parts of the header and leaves the input at the contents.\<close>
theorem asn1_object_header_exact:
  assumes E: "asn1_env_ok E" and C: "asn1_consts_ok C"
    and h: "cls < 4" "num < 2 ^ 29" "length c \<le> INT_MAX"
  shows "ASN1_put_object C (of_bool con) (length c) num (word_of_nat (64 * cls)) @ c = der_element (header_tag cls con num) c \<and>
    ASN1_object_size (of_bool con) (int (length c)) num =
      (let n = length (der_element (header_tag cls con num) c) in if n < INT_MAX then int n else - 1) \<and>
    (ASN1_get_object E C s (int (length s)) = Some (k, n, tag, xclass, p) \<longleftrightarrow>
      (\<exists>cls con num c r. cls < 4 \<and> num < 2 ^ 29 \<and> (cls = 0 \<longrightarrow> 0 < num \<and> num \<le> 255) \<and> length c \<le> INT_MAX div 2 \<and>
         s = ASN1_put_object C (of_bool con) (length c) num (word_of_nat (64 * cls)) @ c @ r \<and>
         k = (if con then 0x20 else 0) \<and> n = length c \<and> tag = word_of_nat num \<and> xclass = word_of_nat (64 * cls) \<and> p = c @ r))"
proof (intro conjI)
  show "ASN1_put_object C (of_bool con) (length c) num (word_of_nat (64 * cls)) @ c = der_element (header_tag cls con num) c"
    using C h by (intro put_object_element) simp_all
  show "ASN1_object_size (of_bool con) (int (length c)) num =
      (let n = length (der_element (header_tag cls con num) c) in if n < INT_MAX then int n else - 1)"
    unfolding object_size_der [OF h] by (simp add: Let_def der_element_def not_less)
qed (rule get_object_iff [OF E C])

theorem asn1_object_header_exact_witness:
  "ASN1_put_object asn1_consts_std 1 3 100 0x80 = [0xbf, 0x64, 3] \<and> ASN1_object_size 1 3 100 = 6 \<and>
   ASN1_get_object asn1_env_std asn1_consts_std [0xbf, 0x64, 3, 2, 1, 5, 9] 7 = Some (0x20, 3, 100, 0x80, [2, 1, 5, 9])"
proof -
  let ?s = "[0xbf, 0x64, 3, 2, 1, 5, 9] :: u8 list"
  have put: "ASN1_put_object asn1_consts_std 1 3 100 0x80 = [0xbf, 0x64, 3]" by code_simp
  have put': "ASN1_put_object asn1_consts_std (of_bool True) (length [2, 1, 5 :: u8]) 100 (word_of_nat (64 * 2)) = [0xbf, 0x64, 3]"
    by code_simp
  have h: "2 < (4 :: nat)" "100 < (2 ^ 29 :: nat)" "length [2, 1, 5 :: u8] \<le> INT_MAX" by simp_all
  note th = asn1_object_header_exact [OF asn1_env_std_ok asn1_consts_std_ok h, where con = True and s = ?s and k = "0x20"
      and n = 3 and tag = 100 and xclass = "0x80" and p = "[2, 1, 5, 9]"]
  have "der_element (header_tag 2 True 100) [2, 1, 5] = [0xbf, 0x64, 3, 2, 1, 5]" using conjunct1 [OF th] unfolding put' by simp
  then have size: "ASN1_object_size 1 3 100 = 6" using conjunct1 [OF conjunct2 [OF th]] by simp
  have "int (length ?s) = 7" by simp
  moreover have "ASN1_get_object asn1_env_std asn1_consts_std ?s (int (length ?s)) = Some (0x20, 3, 100, 0x80, [2, 1, 5, 9])"
    using put' by (intro iffD2 [OF conjunct2 [OF conjunct2 [OF th]]] exI [of _ 2] exI [of _ True] exI [of _ 100]
        exI [of _ "[2, 1, 5]"] exI [of _ "[9]"]) simp
  ultimately show ?thesis using put size by simp
qed

end
