(* ===== verification/ASN1_Int.thy ===== *)
theory ASN1_Int
  imports ASN1_String BS_Integer
begin

text \<open>
  The integers of BoringSSL's ASN.1 module, \<open>crypto/asn1/a_int.c\<close>. An \<open>ASN1_INTEGER\<close> is a string that has the
  magnitude of the number, without leading zeros, and the sign in its type. A failed assertion and an access outside
  a block are \<open>None\<close>.
\<close>

section \<open>Definitions\<close>

definition ASN1_INTEGER_dup :: "allocator \<Rightarrow> asn1_consts \<Rightarrow> ASN1_STRING option \<Rightarrow> ASN1_STRING option option" where
  "ASN1_INTEGER_dup H C x = ASN1_STRING_dup H C x"

definition ASN1_INTEGER_cmp :: "asn1_consts \<Rightarrow> ASN1_STRING \<Rightarrow> ASN1_STRING \<Rightarrow> int option" where
  "ASN1_INTEGER_cmp C x y =
     (let neg = as_type x AND V_NEG C in
      if neg \<noteq> as_type y AND V_NEG C then Some (if neg \<noteq> 0 then - 1 else 1)
      else do {
        ret \<leftarrow> ASN1_STRING_cmp C x y;
        Some (if neg \<noteq> 0 then (if ret < 0 then 1 else if ret > 0 then - 1 else 0) else ret) })"

text \<open>The loop runs from the last byte to the first.\<close>

primrec negate_loop :: "u8 \<Rightarrow> u8 list \<Rightarrow> u8 list" where
  "negate_loop borrow [] = []"
| "negate_loop borrow (t # buf) = (0 - borrow - t) # negate_loop (borrow OR (if t \<noteq> 0 then 1 else 0)) buf"

definition negate_twos_complement :: "u8 list \<Rightarrow> u8 list" where
  "negate_twos_complement buf = rev (negate_loop 0 (rev buf))"

primrec is_all_zeros :: "u8 list \<Rightarrow> bool" where
  "is_all_zeros [] = True"
| "is_all_zeros (b # inp) = (if b \<noteq> 0 then False else is_all_zeros inp)"

text \<open>\<open>while (CBS_len(&cbs) > 0 && CBS_data(&cbs)[0] == 0) CBS_skip(&cbs, 1);\<close>\<close>

primrec skip_zeros :: "u8 list \<Rightarrow> u8 list" where
  "skip_zeros [] = []"
| "skip_zeros (b # cbs) = (if b = 0 then skip_zeros cbs else b # cbs)"

text \<open>
  The result is the return value and the bytes written at \<open>*outp\<close>; \<open>outp\<close> says whether the pointer is not null.
\<close>

definition i2c_ASN1_INTEGER :: "asn1_consts \<Rightarrow> ASN1_STRING option \<Rightarrow> bool \<Rightarrow> (nat \<times> u8 list) option" where
  "i2c_ASN1_INTEGER C a outp =
     (case a of
        None \<Rightarrow> Some (0, [])
      | Some a \<Rightarrow>
          do { bytes \<leftarrow> get_bytes a;
               let cbs = skip_zeros bytes;
               let is_negative = (as_type a AND V_NEG C \<noteq> 0);
               let (is_negative, pad) =
                 (case CBS_get_u8 cbs of
                    (None, _) \<Rightarrow> (False, True)
                  | (Some msb, copy) \<Rightarrow>
                      (is_negative,
                       if is_negative then msb > 0x80 \<or> (msb = 0x80 \<and> \<not> is_all_zeros copy) else msb AND 0x80 \<noteq> 0));
               if length cbs > INT_MAX - of_bool pad then Some (0, [])
               else do {
                 let len = of_bool pad + length cbs;
                 check (len > 0);
                 if \<not> outp then Some (len, [])
                 else do {
                   let out = (if pad then 0 # cbs else cbs);
                   let out = (if is_negative then negate_twos_complement out else out);
                   check (if is_negative then hd out \<ge> 0x80 else hd out < 0x80);
                   Some (len, out) } } })"

text \<open>The bytes that \<open>c2i_ASN1_INTEGER\<close> copies: those of the shortest magnitude.\<close>

definition magnitude_bytes :: "bool \<Rightarrow> u8 list \<Rightarrow> u8 list" where
  "magnitude_bytes is_negative cbs =
     (if is_negative then
        (if length cbs > 0 \<and> hd cbs = 0xff \<and> \<not> is_all_zeros (tl cbs) then tl cbs else cbs)
      else (if length cbs > 0 \<and> hd cbs = 0 then tl cbs else cbs))"

text \<open>The type and the sign are set after the copy.\<close>

definition set_sign :: "asn1_consts \<Rightarrow> bool \<Rightarrow> ASN1_STRING \<Rightarrow> ASN1_STRING option" where
  "set_sign C is_negative ret =
     do { data \<leftarrow> as_data ret;
          check (as_length ret \<le> length data);
          let ret =
            (if is_negative
             then ret\<lparr>as_type := V_NEG_INTEGER C,
               as_data := Some (negate_twos_complement (take (as_length ret) data) @ drop (as_length ret) data)\<rparr>
             else ret\<lparr>as_type := V_INTEGER C\<rparr>);
          check (as_length ret = 0 \<or> hd (the (as_data ret)) \<noteq> 0);
          check (\<not> is_negative \<or> as_length ret > 0);
          Some ret }"

text \<open>
  \<open>out\<close> is the string in \<open>*out\<close>, if there is one. The result is whether the call succeeds, the string, and the
  input that has not been read.
\<close>

definition c2i_ASN1_INTEGER ::
  "allocator \<Rightarrow> asn1_consts \<Rightarrow> ASN1_STRING option \<Rightarrow> u8 list \<Rightarrow> int \<Rightarrow> (bool \<times> ASN1_STRING option \<times> u8 list) option" where
  "c2i_ASN1_INTEGER H C out inp len =
     (if len < 0 \<or> len > int (INT_MAX div 2) then Some (False, out, inp)
      else do {
        check (nat len \<le> length inp);
        let cbs = take (nat len) inp;
        (case CBS_is_valid_asn1_integer cbs of
           None \<Rightarrow> Some (False, out, inp)
         | Some is_negative \<Rightarrow>
             (case (case out of None \<Rightarrow> ASN1_STRING_type_new H (V_INTEGER C) | Some a \<Rightarrow> Some a) of
                None \<Rightarrow> Some (False, out, inp)
              | Some ret \<Rightarrow>
                  do { let cbs = magnitude_bytes is_negative cbs;
                       (ok, ret) \<leftarrow> ASN1_STRING_set H ret (Some cbs) (int (length cbs));
                       if \<not> ok then Some (False, map_option (\<lambda>_. ret) out, inp)
                       else do {
                         ret \<leftarrow> set_sign C is_negative ret;
                         Some (True, Some ret, drop (nat len) inp) } })) })"

definition CRYPTO_store_u64_be :: "u64 \<Rightarrow> u8 list" where
  "CRYPTO_store_u64_be v = nat_to_le 8 (unat (CRYPTO_bswap8 v))"

primrec count_leading_zeros :: "u8 list \<Rightarrow> nat" where
  "count_leading_zeros [] = 0"
| "count_leading_zeros (b # buf) = (if b \<noteq> 0 then 0 else Suc (count_leading_zeros buf))"

definition asn1_string_set_uint64 :: "allocator \<Rightarrow> ASN1_STRING \<Rightarrow> u64 \<Rightarrow> u32 \<Rightarrow> (bool \<times> ASN1_STRING) option" where
  "asn1_string_set_uint64 H out v type =
     do { let buf = CRYPTO_store_u64_be v;
          let leading_zeros = count_leading_zeros buf;
          (ok, out) \<leftarrow> ASN1_STRING_set H out (Some (drop leading_zeros buf)) (8 - int leading_zeros);
          if \<not> ok then Some (False, out) else Some (True, out\<lparr>as_type := type\<rparr>) }"

definition ASN1_INTEGER_set_uint64 :: "allocator \<Rightarrow> asn1_consts \<Rightarrow> ASN1_STRING \<Rightarrow> u64 \<Rightarrow> (bool \<times> ASN1_STRING) option" where
  "ASN1_INTEGER_set_uint64 H C out v = asn1_string_set_uint64 H out v (V_INTEGER C)"

definition ASN1_ENUMERATED_set_uint64 :: "allocator \<Rightarrow> asn1_consts \<Rightarrow> ASN1_STRING \<Rightarrow> u64 \<Rightarrow> (bool \<times> ASN1_STRING) option" where
  "ASN1_ENUMERATED_set_uint64 H C out v = asn1_string_set_uint64 H out v (V_ENUMERATED C)"

text \<open>An \<open>int64_t\<close> is a word of 64 bits with the value \<open>sint\<close>.\<close>

definition ASN1_INTEGER_set_int64 :: "allocator \<Rightarrow> asn1_consts \<Rightarrow> ASN1_STRING \<Rightarrow> u64 \<Rightarrow> (bool \<times> ASN1_STRING) option" where
  "ASN1_INTEGER_set_int64 H C a v =
     (if sint v \<ge> 0 then ASN1_INTEGER_set_uint64 H C a v
      else do {
        (ok, a) \<leftarrow> ASN1_INTEGER_set_uint64 H C a (0 - v);
        if \<not> ok then Some (False, a) else Some (True, a\<lparr>as_type := V_NEG_INTEGER C\<rparr>) })"

definition ASN1_ENUMERATED_set_int64 :: "allocator \<Rightarrow> asn1_consts \<Rightarrow> ASN1_STRING \<Rightarrow> u64 \<Rightarrow> (bool \<times> ASN1_STRING) option" where
  "ASN1_ENUMERATED_set_int64 H C a v =
     (if sint v \<ge> 0 then ASN1_ENUMERATED_set_uint64 H C a v
      else do {
        (ok, a) \<leftarrow> ASN1_ENUMERATED_set_uint64 H C a (0 - v);
        if \<not> ok then Some (False, a) else Some (True, a\<lparr>as_type := V_NEG_ENUMERATED C\<rparr>) })"

definition ASN1_INTEGER_set :: "allocator \<Rightarrow> asn1_consts \<Rightarrow> ASN1_STRING \<Rightarrow> u64 \<Rightarrow> (bool \<times> ASN1_STRING) option" where
  "ASN1_INTEGER_set H C a v = ASN1_INTEGER_set_int64 H C a v"

definition ASN1_ENUMERATED_set :: "allocator \<Rightarrow> asn1_consts \<Rightarrow> ASN1_STRING \<Rightarrow> u64 \<Rightarrow> (bool \<times> ASN1_STRING) option" where
  "ASN1_ENUMERATED_set H C a v = ASN1_ENUMERATED_set_int64 H C a v"

text \<open>The outer \<open>None\<close> is an access outside a block, the inner one the return value \<open>0\<close>.\<close>

definition asn1_string_get_abs_uint64 :: "asn1_consts \<Rightarrow> ASN1_STRING \<Rightarrow> u32 \<Rightarrow> u64 option option" where
  "asn1_string_get_abs_uint64 C a type =
     (if as_type a AND NOT (V_NEG C) \<noteq> type then Some None
      else if as_length a > 8 then Some None
      else do {
        bytes \<leftarrow> get_bytes a;
        Some (Some (CRYPTO_load_u64_be (replicate (8 - as_length a) 0 @ bytes))) })"

definition asn1_string_get_uint64 :: "asn1_consts \<Rightarrow> ASN1_STRING \<Rightarrow> u32 \<Rightarrow> u64 option option" where
  "asn1_string_get_uint64 C a type =
     do { r \<leftarrow> asn1_string_get_abs_uint64 C a type;
          Some (case r of
                  None \<Rightarrow> None
                | Some v \<Rightarrow> if as_type a AND V_NEG C \<noteq> 0 then None else Some v) }"

definition ASN1_INTEGER_get_uint64 :: "asn1_consts \<Rightarrow> ASN1_STRING \<Rightarrow> u64 option option" where
  "ASN1_INTEGER_get_uint64 C a = asn1_string_get_uint64 C a (V_INTEGER C)"

definition ASN1_ENUMERATED_get_uint64 :: "asn1_consts \<Rightarrow> ASN1_STRING \<Rightarrow> u64 option option" where
  "ASN1_ENUMERATED_get_uint64 C a = asn1_string_get_uint64 C a (V_ENUMERATED C)"

definition asn1_string_get_int64 :: "asn1_consts \<Rightarrow> ASN1_STRING \<Rightarrow> u32 \<Rightarrow> u64 option option" where
  "asn1_string_get_int64 C a type =
     do { r \<leftarrow> asn1_string_get_abs_uint64 C a type;
          Some (case r of
                  None \<Rightarrow> None
                | Some v \<Rightarrow>
                    let (i64, fits_in_i64) =
                      (if as_type a AND V_NEG C \<noteq> 0 \<and> v \<noteq> 0 then (0 - v, sint (0 - v) < 0) else (v, sint v \<ge> 0)) in
                    if \<not> fits_in_i64 then None else Some i64) }"

definition ASN1_INTEGER_get_int64 :: "asn1_consts \<Rightarrow> ASN1_STRING \<Rightarrow> u64 option option" where
  "ASN1_INTEGER_get_int64 C a = asn1_string_get_int64 C a (V_INTEGER C)"

definition ASN1_ENUMERATED_get_int64 :: "asn1_consts \<Rightarrow> ASN1_STRING \<Rightarrow> u64 option option" where
  "ASN1_ENUMERATED_get_int64 C a = asn1_string_get_int64 C a (V_ENUMERATED C)"

definition asn1_string_get_long :: "asn1_consts \<Rightarrow> ASN1_STRING option \<Rightarrow> u32 \<Rightarrow> u64 option" where
  "asn1_string_get_long C a type =
     (case a of
        None \<Rightarrow> Some 0
      | Some a \<Rightarrow>
          do { r \<leftarrow> asn1_string_get_int64 C a type;
               Some (case r of
                       None \<Rightarrow> - 1
                     | Some v \<Rightarrow> if sint v < - (2 ^ 63) \<or> sint v > 2 ^ 63 - 1 then - 1 else v) })"

definition ASN1_INTEGER_get :: "asn1_consts \<Rightarrow> ASN1_STRING option \<Rightarrow> u64 option" where
  "ASN1_INTEGER_get C a = asn1_string_get_long C a (V_INTEGER C)"

definition ASN1_ENUMERATED_get :: "asn1_consts \<Rightarrow> ASN1_STRING option \<Rightarrow> u64 option" where
  "ASN1_ENUMERATED_get C a = asn1_string_get_long C a (V_ENUMERATED C)"

end
