(* ===== verification/ASN1_Int_Thms.thy ===== *)
theory ASN1_Int_Thms
  imports ASN1_Int
begin

text \<open>
  ASN.1 integers as numbers: the sign and magnitude of an \<open>ASN1_INTEGER\<close>, the two's complement of its encoding,
  and the conversions between them and from and to machine integers.
\<close>

section \<open>Strings\<close>

definition string_wf :: "ASN1_STRING \<Rightarrow> bool" where
  "string_wf s \<longleftrightarrow> as_length s \<le> length (case as_data s of None \<Rightarrow> [] | Some d \<Rightarrow> d)"

definition string_bytes :: "ASN1_STRING \<Rightarrow> u8 list" where
  "string_bytes s = take (as_length s) (case as_data s of None \<Rightarrow> [] | Some d \<Rightarrow> d)"

lemma get_bytes_wf: "string_wf s \<Longrightarrow> get_bytes s = Some (string_bytes s)"
  by (cases "as_data s") (auto simp: get_bytes_def string_wf_def string_bytes_def)

lemma length_string_bytes: "string_wf s \<Longrightarrow> length (string_bytes s) = as_length s"
  by (simp add: string_wf_def string_bytes_def)

lemma hd_string_bytes: "string_wf s \<Longrightarrow> 0 < as_length s \<Longrightarrow> hd (string_bytes s) = hd (the (as_data s))"
  by (cases "as_data s") (simp_all add: string_wf_def string_bytes_def hd_take)

lemma string_new_wf: "ASN1_STRING_type_new H t = Some s \<Longrightarrow> string_wf s"
  by (auto simp: ASN1_STRING_type_new_def string_wf_def split: if_splits)

text \<open>Whether setting the data fails for want of memory.\<close>

definition set_room :: "allocator \<Rightarrow> ASN1_STRING \<Rightarrow> nat \<Rightarrow> bool" where
  "set_room H s n \<longleftrightarrow> n \<le> ASN1_STRING_MAX \<and> (as_length s \<le> n \<or> as_data s = None \<longrightarrow> alloc_ok H (n + 1))"

lemma set_block:
  assumes "string_wf s" "set_room H s n"
  obtains b where "(if as_length s \<le> n \<or> as_data s = None then resize_block H (as_data s) (n + 1) else as_data s) = Some b" "n < length b"
proof -
  have "\<exists>b. (if as_length s \<le> n \<or> as_data s = None then resize_block H (as_data s) (n + 1) else as_data s) = Some b \<and> n < length b"
    using assms by (auto simp: set_room_def resize_block_def string_wf_def split: option.splits)
  then show ?thesis using that by blast
qed

lemma string_set:
  assumes "string_wf s" "n \<le> length d"
  shows "\<not> set_room H s n \<Longrightarrow> ASN1_STRING_set H s (Some d) (int n) = Some (False, s)"
    and "set_room H s n \<Longrightarrow> \<exists>block. n < length block \<and> take n block = take n d \<and>
      ASN1_STRING_set H s (Some d) (int n) = Some (True, s\<lparr>as_data := Some block, as_length := n\<rparr>)"
proof -
  let ?b = "if as_length s \<le> n \<or> as_data s = None then resize_block H (as_data s) (n + 1) else as_data s"
  show "ASN1_STRING_set H s (Some d) (int n) = Some (False, s)" if "\<not> set_room H s n"
    using that by (auto simp: ASN1_STRING_set_def set_length_def set_room_def resize_block_def)
  assume r: "set_room H s n"
  obtain b where b: "?b = Some b" "n < length b" by (rule set_block [OF assms(1) r])
  have "ASN1_STRING_set H s (Some d) (int n) =
      Some (True, s\<lparr>as_data := Some (take n d @ 0 # drop (n + 1) b), as_length := n\<rparr>)"
    using r assms(2) b(2)
    unfolding ASN1_STRING_set_def set_length_def
    by (simp only: of_nat_less_0_iff if_False nat_int Option.bind.simps option.case b(1)) (simp add: set_room_def)
  moreover have "n < length (take n d @ 0 # drop (n + 1) b)" "take n (take n d @ 0 # drop (n + 1) b) = take n d"
    using assms(2) b(2) by simp_all
  ultimately show "\<exists>block. n < length block \<and> take n block = take n d \<and>
      ASN1_STRING_set H s (Some d) (int n) = Some (True, s\<lparr>as_data := Some block, as_length := n\<rparr>)"
    by blast
qed

lemma string_set_none:
  assumes "string_wf s"
  shows "\<not> set_room H s n \<Longrightarrow> ASN1_STRING_set H s None (int n) = Some (False, s)"
    and "set_room H s n \<Longrightarrow> \<exists>block. n < length block \<and>
      ASN1_STRING_set H s None (int n) = Some (True, s\<lparr>as_data := Some block, as_length := n\<rparr>)"
proof -
  show "ASN1_STRING_set H s None (int n) = Some (False, s)" if "\<not> set_room H s n"
    using that by (auto simp: ASN1_STRING_set_def set_length_def set_room_def resize_block_def)
  assume r: "set_room H s n"
  obtain b where b: "(if as_length s \<le> n \<or> as_data s = None then resize_block H (as_data s) (n + 1) else as_data s) = Some b" "n < length b"
    by (rule set_block [OF assms r])
  have "ASN1_STRING_set H s None (int n) = Some (True, s\<lparr>as_data := Some b, as_length := n\<rparr>)"
    using r unfolding ASN1_STRING_set_def set_length_def
    by (simp only: of_nat_less_0_iff if_False nat_int Option.bind.simps option.case b(1)) (simp add: set_room_def)
  with b(2) show "\<exists>block. n < length block \<and>
      ASN1_STRING_set H s None (int n) = Some (True, s\<lparr>as_data := Some block, as_length := n\<rparr>)" by blast
qed

lemma string_set_null:
  assumes "as_data s = None" "as_length s = 0"
  shows "ASN1_STRING_set H s None 0 =
    Some (if alloc_ok H 1 then (True, s\<lparr>as_data := Some [junk H 0]\<rparr>) else (False, s))"
  using assms by (simp add: ASN1_STRING_set_def set_length_def resize_block_def)

text \<open>A copy has the bytes, the type and the flags of the string, in a block of its own.\<close>

lemma string_dup:
  assumes s: "string_wf s" "as_length s \<le> ASN1_STRING_MAX" and H: "\<forall>n. alloc_ok H n"
  shows "\<exists>x. ASN1_STRING_dup H C (Some s) = Some (Some x) \<and> string_wf x \<and> string_bytes x = string_bytes s \<and>
    as_type x = as_type s \<and> as_flags x = as_flags s"
proof -
  define ret where "ret = \<lparr>as_length = 0, as_type = V_OCTET_STRING C, as_data = None, as_flags = 0\<rparr>"
  have new: "ASN1_STRING_new H C = Some ret" using H by (simp add: ASN1_STRING_new_def ASN1_STRING_type_new_def ret_def)
  have wf: "string_wf ret" by (simp add: ret_def string_wf_def)
  show ?thesis
  proof (cases "as_data s")
    case None
    then have "as_length s = 0" using s(1) by (simp add: string_wf_def)
    with None H show ?thesis
      by (simp add: ASN1_STRING_dup_def ASN1_STRING_copy_def new string_set_null ret_def) (simp add: string_wf_def string_bytes_def)
  next
    case (Some d)
    have "set_room H ret (as_length s)" "as_length s \<le> length d" using s H Some by (simp_all add: set_room_def string_wf_def)
    with string_set(2) [OF wf] obtain b where "as_length s < length b" "take (as_length s) b = take (as_length s) d"
      "ASN1_STRING_set H ret (Some d) (int (as_length s)) = Some (True, ret\<lparr>as_data := Some b, as_length := as_length s\<rparr>)"
      by blast
    with Some show ?thesis
      by (simp add: ASN1_STRING_dup_def ASN1_STRING_copy_def new) (simp add: string_wf_def string_bytes_def)
  qed
qed

section \<open>Two's complement\<close>

definition tc_value :: "u8 list \<Rightarrow> int" where
  "tc_value bs = int (be_to_nat bs) - (if bs \<noteq> [] \<and> 128 \<le> unat (hd bs) then 256 ^ length bs else 0)"

lemma negate_loop_borrow: "le_to_nat (negate_loop 1 ts) + le_to_nat ts + 1 = 256 ^ length ts"
proof (induction ts)
  case (Cons t ts)
  have "unat (- 1 - t) = unat (- 1 :: u8) - unat t" by (rule unat_sub) simp
  moreover have "unat (- 1 :: u8) = 255" by code_simp
  ultimately have "unat (- 1 - t) + unat t = 255" using unat_u8_less [of t] by linarith
  moreover have "(1 OR (if t \<noteq> 0 then 1 else 0) :: u8) = 1" by simp
  ultimately show ?case using Cons by simp
qed simp

lemma negate_loop_value: "le_to_nat (negate_loop 0 ts) + le_to_nat ts = (if le_to_nat ts = 0 then 0 else 256 ^ length ts)"
proof (induction ts)
  case (Cons t ts)
  show ?case
  proof (cases "t = 0")
    case True
    then show ?thesis using Cons by (auto split: if_splits)
  next
    case False
    then have "unat t \<noteq> 0" by (simp add: unat_eq_0)
    moreover have "unat (0 - t) = (if unat t \<le> 0 then 0 else 256 - unat t)" using unat_sub_if' [of 0 t] by simp
    ultimately have "unat (0 - t) + unat t = 256" using unat_u8_less [of t] by (simp only: le_zero_eq if_False)
    then show ?thesis using False negate_loop_borrow [of ts] by (simp add: unat_gt_0)
  qed
qed simp

lemma length_negate [simp]: "length (negate_twos_complement bs) = length bs"
proof -
  have "length (negate_loop b ts) = length ts" for b ts by (induction ts arbitrary: b) simp_all
  then show ?thesis by (simp add: negate_twos_complement_def)
qed

lemma negate_value:
  "be_to_nat bs \<noteq> 0 \<Longrightarrow> be_to_nat (negate_twos_complement bs) = 256 ^ length bs - be_to_nat bs"
  using negate_loop_value [of "rev bs"] by (simp add: negate_twos_complement_def be_to_nat_def)

lemma all_zeros_iff: "is_all_zeros bs \<longleftrightarrow> be_to_nat bs = 0"
  by (induction bs) (auto simp: be_to_nat_Cons unat_eq_0)

lemma skip_zeros_value: "be_to_nat (skip_zeros bs) = be_to_nat bs"
  by (induction bs) (simp_all add: be_to_nat_Cons)

lemma skip_zeros_cases: "skip_zeros bs = [] \<or> (\<exists>b r. skip_zeros bs = b # r \<and> b \<noteq> 0)"
  by (induction bs) auto

text \<open>The first byte of a number of \<open>n + 1\<close> bytes.\<close>

lemma be_hd_le: "k * 256 ^ length r \<le> be_to_nat (b # r) \<longleftrightarrow> k \<le> unat b"
proof -
  have r: "be_to_nat r < 256 ^ length r" by (rule be_to_nat_less)
  show ?thesis
  proof
    assume "k * 256 ^ length r \<le> be_to_nat (b # r)"
    then have "k * 256 ^ length r < (unat b + 1) * 256 ^ length r" using r by (simp add: be_to_nat_Cons algebra_simps)
    then show "k \<le> unat b" unfolding mult_less_cancel2 by simp
  next
    assume "k \<le> unat b"
    then have "k * 256 ^ length r \<le> unat b * 256 ^ length r" by (rule mult_le_mono1)
    also have "\<dots> \<le> be_to_nat (b # r)" by (simp add: be_to_nat_Cons)
    finally show "k * 256 ^ length r \<le> be_to_nat (b # r)" .
  qed
qed

text \<open>A valid encoding is one whose number does not fit in fewer bytes.\<close>

definition tc_fits :: "nat \<Rightarrow> int \<Rightarrow> bool" where
  "tc_fits n v \<longleftrightarrow> - (256 ^ n) \<le> 2 * v \<and> 2 * v < 256 ^ n"

lemma tc_value_Cons:
  "tc_value (b # r) = (int (unat b) - (if 128 \<le> unat b then 256 else 0)) * 256 ^ length r + int (be_to_nat r)"
  by (simp add: tc_value_def be_to_nat_Cons algebra_simps)

lemma int_be_bounds: "0 \<le> int (be_to_nat r)" "int (be_to_nat r) < 256 ^ length r"
  using be_to_nat_less [of r] by (simp, metis of_nat_less_iff of_nat_numeral of_nat_power)

lemma unat_0xff: "unat (0xff :: u8) = 255"
  by simp

lemma head_bounds:
  fixes u :: nat
  assumes "u < 256"
  shows "- 128 \<le> int u - (if 128 \<le> u then 256 else 0) \<and> int u - (if 128 \<le> u then 256 else 0) \<le> 127"
    "int u - (if 128 \<le> u then 256 else 0) = 0 \<longleftrightarrow> u = 0"
    "int u - (if 128 \<le> u then 256 else 0) = - 1 \<longleftrightarrow> u = 255"
  using assms by auto

lemma tc_value_fits: "bs \<noteq> [] \<Longrightarrow> tc_fits (length bs) (tc_value bs)"
proof (cases bs)
  case (Cons b r)
  define p h x where "p = (256 :: int) ^ length r" and "h = int (unat b) - (if 128 \<le> unat b then 256 else 0)"
    and "x = int (be_to_nat r)"
  have r: "0 \<le> x" "x < p" unfolding p_def x_def by (rule int_be_bounds)+
  have "- 128 \<le> h \<and> h \<le> 127" unfolding h_def by (rule head_bounds(1)) (rule unat_u8_less)
  then have "- 128 * p \<le> h * p" "h * p \<le> 127 * p" using r by (intro mult_right_mono; linarith)+
  moreover have "tc_value bs = h * p + x" "256 ^ length bs = 256 * p"
    unfolding Cons p_def h_def x_def by (rule tc_value_Cons) simp
  ultimately show ?thesis using r unfolding tc_fits_def by linarith
qed simp

lemma tc_negative: "tc_value bs < 0 \<longleftrightarrow> bs \<noteq> [] \<and> 128 \<le> unat (hd bs)"
  using int_be_bounds [of bs] by (simp add: tc_value_def)

lemma fits_short:
  fixes h x p :: int
  assumes "0 \<le> x" "x < p"
  shows "- p \<le> 2 * (h * p + x) \<and> 2 * (h * p + x) < p \<longleftrightarrow> h = 0 \<and> 2 * x < p \<or> h = - 1 \<and> p \<le> 2 * x"
proof -
  have "p \<le> h * p" if "0 < h" using that assms mult_right_mono [of 1 h p] by simp
  moreover have "h * p \<le> - 2 * p" if "h < - 1" using that assms mult_right_mono [of h "- 2" p] by simp
  moreover have "h = 0 \<or> h = - 1 \<or> 0 < h \<or> h < - 1" by linarith
  moreover define q where "q = h * p"
  ultimately have "h = 0 \<and> q = 0 \<or> h = - 1 \<and> q = - p \<or> 0 < h \<and> p \<le> q \<or> h < - 1 \<and> q \<le> - 2 * p" by auto
  then show ?thesis using assms unfolding q_def [symmetric] by (elim disjE) auto
qed

lemma valid_iff_fits:
  "CBS_is_valid_asn1_integer bs = Some neg \<longleftrightarrow>
     bs \<noteq> [] \<and> (1 < length bs \<longrightarrow> \<not> tc_fits (length bs - 1) (tc_value bs)) \<and> neg = (tc_value bs < 0)"
proof (cases "1 < length bs")
  case True
  then obtain b c r where bs: "bs = b # c # r" by (cases bs; cases "tl bs") auto
  let ?h = "int (unat b) - (if 128 \<le> unat b then 256 else 0)"
  have h: "?h = 0 \<longleftrightarrow> b = 0" "?h = - 1 \<longleftrightarrow> b = 0xff" using head_bounds(2,3) [OF unat_u8_less] by (simp_all only: byte_eq_iff unsigned_0 unat_0xff)
  have "2 * be_to_nat (c # r) < 256 ^ length (c # r) \<longleftrightarrow> unat c < 128"
    using be_hd_le [of 128 r c] by (simp add: not_le [symmetric])
  then have c: "2 * int (be_to_nat (c # r)) < 256 ^ length (c # r) \<longleftrightarrow> unat c < 128"
    by (simp only: of_nat_less_iff [where 'a = int, symmetric] of_nat_mult of_nat_power of_nat_numeral)
  have "tc_fits (length (c # r)) (tc_value bs) \<longleftrightarrow> b = 0 \<and> unat c < 128 \<or> b = 0xff \<and> 128 \<le> unat c"
    unfolding tc_fits_def bs tc_value_Cons [of b] fits_short [OF int_be_bounds] h by (simp only: not_less [symmetric] c)
  then show ?thesis using tc_negative [of bs] by (auto simp: bs)
next
  case False
  then show ?thesis using tc_negative [of bs] by (cases bs) auto
qed

lemma tc_fits_mono: "tc_fits m v \<Longrightarrow> m \<le> n \<Longrightarrow> tc_fits n v"
  using power_increasing [of m n "256 :: int"] unfolding tc_fits_def by linarith

lemma valid_shortest:
  assumes "CBS_is_valid_asn1_integer c = Some z" "d \<noteq> []" "tc_value c = tc_value d"
  shows "length c \<le> length d"
proof (rule ccontr)
  assume less: "\<not> length c \<le> length d"
  then have "tc_fits (length c - 1) (tc_value d)" using tc_value_fits [OF assms(2)] by (rule_tac tc_fits_mono) auto
  then show False using assms less unfolding valid_iff_fits by (cases d) auto
qed

lemma valid_unique:
  assumes "CBS_is_valid_asn1_integer a = Some x" "CBS_is_valid_asn1_integer b = Some y" "tc_value a = tc_value b"
  shows "a = b"
proof -
  have ne: "a \<noteq> []" "b \<noteq> []" using assms(1,2) by auto
  have l: "length a = length b"
    using valid_shortest [OF assms(1) ne(2) assms(3)] valid_shortest [OF assms(2) ne(1) assms(3) [symmetric]] by simp
  have "(128 \<le> unat (hd a)) = (128 \<le> unat (hd b))" using tc_negative [of a] tc_negative [of b] assms(3) ne by simp
  then have "be_to_nat a = be_to_nat b" using assms(3) l ne by (simp add: tc_value_def split: if_splits)
  then show ?thesis using l by (metis nat_to_be_be_to_nat)
qed

lemma tc_value_from_be:
  assumes "be_to_nat out = n" "out \<noteq> []"
  shows "128 * 256 ^ (length out - 1) \<le> n \<Longrightarrow> tc_value out = int n - 256 ^ length out \<and> 128 \<le> unat (hd out)"
    "n < 128 * 256 ^ (length out - 1) \<Longrightarrow> tc_value out = int n \<and> unat (hd out) < 128"
  using assms be_hd_le [of 128 "tl out" "hd out"] by (cases out; auto simp: tc_value_def)+

lemma tc_fits_exists:
  assumes "tc_fits (Suc n) v"
  shows "\<exists>e. length e = Suc n \<and> tc_value e = v"
proof -
  define u e where "u = nat (if 0 \<le> v then v else v + 256 ^ Suc n)" and "e = nat_to_be (Suc n) u"
  have f: "- (128 * 256 ^ n) \<le> v" "v < 128 * 256 ^ n" using assms by (simp_all add: tc_fits_def)
  have u: "int u = (if 0 \<le> v then v else v + 256 ^ Suc n)" using f by (simp add: u_def)
  then have "int u < int (256 ^ Suc n)" using f by simp
  then have "u < 256 ^ Suc n" by (simp only: of_nat_less_iff)
  then have be: "be_to_nat e = u" unfolding e_def by simp
  have e: "length e = Suc n" "e \<noteq> []" using length_nat_to_be [of "Suc n" u] by (auto simp: e_def simp del: length_nat_to_be)
  have "tc_value e = v"
  proof (cases "0 \<le> v")
    case True
    then have "int u < int (128 * 256 ^ n)" using u f by simp
    then show ?thesis using tc_value_from_be(2) [OF be e(2)] True u by (simp add: e(1) of_nat_less_iff del: of_nat_mult of_nat_power)
  next
    case False
    then have "int (128 * 256 ^ n) \<le> int u" using u f by simp
    then show ?thesis using tc_value_from_be(1) [OF be e(2)] False u by (simp add: e(1) of_nat_le_iff del: of_nat_mult of_nat_power)
  qed
  with e(1) show ?thesis by blast
qed

text \<open>The shortest encoding of a number in two's complement.\<close>

definition shortest_tc :: "u8 list \<Rightarrow> int \<Rightarrow> bool" where
  "shortest_tc bs v \<longleftrightarrow> bs \<noteq> [] \<and> tc_value bs = v \<and> (\<forall>e. e \<noteq> [] \<and> tc_value e = v \<longrightarrow> length bs \<le> length e)"

lemma valid_iff_shortest:
  "CBS_is_valid_asn1_integer bs = Some neg \<longleftrightarrow> shortest_tc bs (tc_value bs) \<and> neg = (tc_value bs < 0)"
proof
  assume v: "CBS_is_valid_asn1_integer bs = Some neg"
  then show "shortest_tc bs (tc_value bs) \<and> neg = (tc_value bs < 0)"
    using valid_shortest [OF v] by (auto simp: shortest_tc_def valid_iff_fits)
next
  assume s: "shortest_tc bs (tc_value bs) \<and> neg = (tc_value bs < 0)"
  have "\<not> tc_fits (length bs - 1) (tc_value bs)" if l: "1 < length bs"
  proof
    assume "tc_fits (length bs - 1) (tc_value bs)"
    moreover obtain n where n: "length bs = Suc (Suc n)" using l by (metis Suc_diff_Suc Suc_diff_1 less_trans zero_less_one)
    ultimately obtain e where "length e = Suc n" "tc_value e = tc_value bs" using tc_fits_exists [of n] by auto
    moreover from this have "e \<noteq> []" by auto
    ultimately show False using s n by (auto simp: shortest_tc_def)
  qed
  with s show "CBS_is_valid_asn1_integer bs = Some neg" by (auto simp: valid_iff_fits shortest_tc_def)
qed

section \<open>Encoding\<close>

lemma encode_negative:
  fixes b :: u8 and r :: "u8 list"
  assumes b: "b \<noteq> 0"
  defines "pad \<equiv> b > 0x80 \<or> b = 0x80 \<and> \<not> is_all_zeros r"
  defines "out \<equiv> negate_twos_complement (if pad then 0 # b # r else b # r)"
  shows "tc_value out = - int (be_to_nat (b # r))" "128 \<le> unat (hd out)"
    "CBS_is_valid_asn1_integer out = Some True" "length out = of_bool pad + length (b # r)"
proof -
  define P m where "P = (256 :: nat) ^ length r" and "m = be_to_nat (b # r)"
  have P: "0 < P" by (simp add: P_def)
  have m: "P \<le> m" "m < 256 * P"
    using be_hd_le [of 1 r b] b be_to_nat_less [of "b # r"] by (simp_all add: P_def m_def Suc_le_eq unat_gt_0)
  have pad: "pad \<longleftrightarrow> 128 * P < m"
  proof -
    have gt: "b > 0x80 \<longleftrightarrow> 129 * P \<le> m" "b \<ge> 0x80 \<longleftrightarrow> 128 * P \<le> m"
      using be_hd_le [of 129 r b] be_hd_le [of 128 r b] by (auto simp: P_def m_def word_less_nat_alt word_le_nat_alt)
    have "m = 128 * P + be_to_nat r" if "b = 0x80" using that by (simp add: m_def P_def be_to_nat_Cons)
    then show ?thesis using gt P unfolding pad_def all_zeros_iff by (cases "b > 0x80"; cases "b = 0x80") auto
  qed
  show l: "length out = of_bool pad + length (b # r)" by (simp add: out_def)
  have ne: "out \<noteq> []" using l by auto
  have p1: "256 ^ (length out - 1) = (if pad then 256 * P else P)" "256 ^ length out = (if pad then 65536 * P else 256 * P)"
    unfolding l P_def by simp_all
  have be: "be_to_nat out = 256 ^ length out - m"
    using m P negate_value [of "if pad then 0 # b # r else b # r"] unfolding out_def
    by (cases pad) (simp_all add: be_to_nat_Cons [of 0] m_def [symmetric])
  have ge: "128 * 256 ^ (length out - 1) \<le> 256 ^ length out - m" and le: "m \<le> 256 ^ length out"
    unfolding p1 using pad m P by (cases pad; simp)+
  have "int (256 ^ length out - m) - 256 ^ length out = - int m" using le by (simp add: of_nat_diff)
  with tc_value_from_be(1) [OF be ne ge] show v: "tc_value out = - int (be_to_nat (b # r))" and "128 \<le> unat (hd out)"
    unfolding m_def [symmetric] by simp_all
  have "256 ^ (length out - 1) < 2 * m" unfolding p1 using pad m P by (cases pad) simp_all
  then have "256 ^ (length out - 1) < 2 * int m"
    by (simp only: of_nat_less_iff [where 'a = int, symmetric] of_nat_mult of_nat_power of_nat_numeral)
  then have "\<not> tc_fits (length out - 1) (tc_value out)" unfolding v m_def [symmetric] tc_fits_def by linarith
  then show "CBS_is_valid_asn1_integer out = Some True" unfolding valid_iff_fits v using ne m P by (simp add: m_def)
qed

lemma encode_positive:
  fixes b :: u8 and r :: "u8 list"
  assumes b: "b \<noteq> 0"
  defines "out \<equiv> if 128 \<le> unat b then 0 # b # r else b # r"
  shows "tc_value out = int (be_to_nat (b # r))" "unat (hd out) < 128" "CBS_is_valid_asn1_integer out = Some False"
proof -
  have out: "out = strip_zeros (b # r)" using b by (simp add: out_def)
  show v: "tc_value out = int (be_to_nat (b # r))" "unat (hd out) < 128" by (auto simp: out_def tc_value_def be_to_nat_Cons)
  show "CBS_is_valid_asn1_integer out = Some False"
    using strip_zeros_unsigned unfolding out CBS_is_unsigned_asn1_integer_def .
qed

text \<open>The number an \<open>ASN1_INTEGER\<close> stands for.\<close>

definition int_value :: "asn1_consts \<Rightarrow> ASN1_STRING \<Rightarrow> int" where
  "int_value C a = (if as_type a AND V_NEG C \<noteq> 0 then - 1 else 1) * int (be_to_nat (string_bytes a))"

lemma i2c_encodes:
  assumes a: "string_wf a" "as_length a < INT_MAX"
  shows "\<exists>out. (\<forall>outp. i2c_ASN1_INTEGER C (Some a) outp = Some (length out, if outp then out else [])) \<and>
    CBS_is_valid_asn1_integer out = Some (int_value C a < 0) \<and> tc_value out = int_value C a"
proof -
  let ?cbs = "skip_zeros (string_bytes a)"
  have l: "length ?cbs < INT_MAX"
  proof -
    have "length (skip_zeros bs) \<le> length bs" for bs by (induction bs) simp_all
    from this [of "string_bytes a"] show ?thesis using a by (simp add: length_string_bytes)
  qed
  note i2c = i2c_ASN1_INTEGER_def get_bytes_wf [OF a(1)] Let_def
  consider "?cbs = []" | b r where "?cbs = b # r" "b \<noteq> 0" using skip_zeros_cases by blast
  then show ?thesis
  proof cases
    case 1
    then have "int_value C a = 0" using skip_zeros_value [of "string_bytes a"] by (simp add: int_value_def)
    with 1 show ?thesis by (intro exI [of _ "[0]"]) (simp add: i2c tc_value_def be_to_nat_Cons)
  next
    case 2
    have v: "be_to_nat (string_bytes a) = be_to_nat (b # r)" using skip_zeros_value [of "string_bytes a"] 2(1) by simp
    show ?thesis
    proof (cases "as_type a AND V_NEG C = 0")
      case True
      let ?out = "if 128 \<le> unat b then 0 # b # r else b # r"
      note e = encode_positive [OF 2(2), of r]
      have h: "hd ?out < 0x80" using e(2) by (simp add: word_less_nat_alt)
      have "i2c_ASN1_INTEGER C (Some a) outp = Some (length ?out, if outp then ?out else [])" for outp
        using True l h by (simp add: i2c 2 and_0x80_iff word_less_nat_alt)
      moreover have "int_value C a = int (be_to_nat (b # r))" using True v by (simp add: int_value_def)
      ultimately show ?thesis using e by (intro exI [of _ ?out]) simp
    next
      case False
      let ?pad = "b > 0x80 \<or> b = 0x80 \<and> \<not> is_all_zeros r"
      let ?out = "negate_twos_complement (if ?pad then 0 # b # r else b # r)"
      note e = encode_negative [OF 2(2), of r]
      have h: "hd ?out \<ge> 0x80" using e(2) by (simp add: word_le_nat_alt)
      have "i2c_ASN1_INTEGER C (Some a) outp = Some (length ?out, if outp then ?out else [])" for outp
        using False l h by (auto simp: i2c 2 split: if_splits)
      moreover have "int_value C a = - int (be_to_nat (b # r))" using False v by (simp add: int_value_def)
      moreover have "be_to_nat (b # r) > 0" using 2(2) by (simp add: be_to_nat_Cons unat_gt_0)
      ultimately show ?thesis using e by (intro exI [of _ ?out]) simp
    qed
  qed
qed

section \<open>Decoding\<close>

text \<open>The bytes of the magnitude, as they are copied and then negated.\<close>

lemma decode_positive:
  assumes "CBS_is_valid_asn1_integer cbs = Some False"
  defines "m \<equiv> if length cbs > 0 \<and> hd cbs = 0 then tl cbs else cbs"
  shows "int (be_to_nat m) = tc_value cbs" "m = [] \<or> hd m \<noteq> 0"
proof -
  have u: "CBS_is_unsigned_asn1_integer cbs" using assms(1) by (simp add: CBS_is_unsigned_asn1_integer_def)
  show "int (be_to_nat m) = tc_value cbs" "m = [] \<or> hd m \<noteq> 0"
    by (cases rule: unsigned_cases [OF u]; auto simp: m_def tc_value_def be_to_nat_Cons)+
qed

lemma decode_negative:
  assumes "CBS_is_valid_asn1_integer cbs = Some True"
  defines "m \<equiv> negate_twos_complement (if length cbs > 0 \<and> hd cbs = 0xff \<and> \<not> is_all_zeros (tl cbs) then tl cbs else cbs)"
  shows "- int (be_to_nat m) = tc_value cbs" "m \<noteq> [] \<and> hd m \<noteq> 0"
proof -
  have ne: "cbs \<noteq> []" and neg: "tc_value cbs < 0" using assms(1) unfolding valid_iff_fits by simp_all
  then obtain b r where cbs: "cbs = b # r" and b: "128 \<le> unat b" using tc_negative by (cases cbs) auto
  define P x where "P = (256 :: nat) ^ length r" and "x = be_to_nat r"
  have x: "x < P" unfolding x_def P_def by (rule be_to_nat_less)
  have be: "be_to_nat cbs = unat b * P + x" by (simp add: cbs be_to_nat_Cons P_def x_def)
  have be_m: "be_to_nat m + be_to_nat c = 256 ^ length c" if "m = negate_twos_complement c" "be_to_nat c \<noteq> 0" for c
    using negate_value [OF that(2)] be_to_nat_less [of c] that(1) by simp
  have hd_m: "m \<noteq> [] \<and> hd m \<noteq> 0" if "256 ^ (length m - 1) \<le> be_to_nat m" "m \<noteq> []"
    using be_hd_le [of 1 "tl m" "hd m"] that by (cases m) auto
  have tc: "tc_value cbs = int (be_to_nat cbs) - 256 * int P" using b by (simp add: tc_value_def cbs P_def)
  have "- int (be_to_nat m) = tc_value cbs \<and> 256 ^ (length m - 1) \<le> be_to_nat m \<and> m \<noteq> []"
  proof (cases "b = 0xff \<and> x \<noteq> 0")
    case True
    then obtain c q where r: "r = c # q" by (cases r) (auto simp: x_def)
    have m: "m = negate_twos_complement r" using True by (simp add: m_def cbs all_zeros_iff x_def)
    have s: "be_to_nat m + x = P" using be_m [OF m] True by (simp add: x_def P_def)
    have "unat c < 128" using assms(1) True unfolding cbs r by (simp split: if_splits)
    then have "\<not> 128 * 256 ^ length q \<le> x" using be_hd_le [of 128 q c] by (simp add: x_def r)
    then have "256 ^ (length m - 1) \<le> be_to_nat m" using s by (simp add: m r P_def)
    moreover have "m \<noteq> []" unfolding m using r length_negate [of r] by (metis length_0_conv list.distinct(1))
    moreover have "- int (be_to_nat m) = tc_value cbs" unfolding tc be using True s by simp
    ultimately show ?thesis by blast
  next
    case False
    then have m: "m = negate_twos_complement cbs" by (auto simp: m_def cbs all_zeros_iff x_def)
    have "be_to_nat cbs \<noteq> 0" unfolding be using b x by simp
    then have s: "be_to_nat m + be_to_nat cbs = 256 * P" using be_m [OF m] by (simp add: cbs P_def)
    have "be_to_nat cbs \<le> 255 * P"
    proof (cases "b = 0xff")
      case True
      then show ?thesis using False unfolding be by simp
    next
      case b: False
      have "unat b < 256" by simp
      then have "\<not> 255 \<le> unat b" using b by (simp only: byte_eq_iff unat_0xff)
      then show ?thesis using be_hd_le [of 255 r b] by (simp add: cbs P_def)
    qed
    then have "P \<le> be_to_nat m" using s by simp
    moreover have "length m = Suc (length r)" by (simp add: m cbs)
    moreover have "- int (be_to_nat m) = tc_value cbs" unfolding tc using s by simp
    ultimately show ?thesis by (auto simp: P_def)
  qed
  then show "- int (be_to_nat m) = tc_value cbs" "m \<noteq> [] \<and> hd m \<noteq> 0" using hd_m by blast+
qed

text \<open>The integers in normal form: no leading zeros, and the type for negative numbers exactly on these.\<close>

definition int_wf :: "asn1_consts \<Rightarrow> ASN1_STRING \<Rightarrow> bool" where
  "int_wf C a \<longleftrightarrow> string_wf a \<and> (string_bytes a = [] \<or> hd (string_bytes a) \<noteq> 0) \<and>
     as_type a = (if int_value C a < 0 then V_NEG_INTEGER C else V_INTEGER C)"

lemma magnitude_decodes:
  assumes C: "asn1_consts_ok C" and v: "CBS_is_valid_asn1_integer cbs = Some neg"
    and a: "string_wf a" "string_bytes a = (if neg then negate_twos_complement else id) (magnitude_bytes neg cbs)"
      "as_type a = (if neg then V_NEG_INTEGER C else V_INTEGER C)"
  shows "int_wf C a \<and> int_value C a = tc_value cbs \<and> (neg \<longrightarrow> string_bytes a \<noteq> [])"
proof (cases neg)
  case True
  have "V_NEG_INTEGER C AND V_NEG C \<noteq> 0" using C unfolding asn1_consts_ok_def by simp
  moreover have "CBS_is_valid_asn1_integer cbs = Some True" using v True by simp
  note decode_negative [OF this]
  ultimately show ?thesis using a True v unfolding valid_iff_fits
    by (simp add: int_wf_def int_value_def magnitude_bytes_def)
next
  case False
  have "V_INTEGER C AND V_NEG C = 0" using C unfolding asn1_consts_ok_def by simp
  moreover have "CBS_is_valid_asn1_integer cbs = Some False" using v False by simp
  note decode_positive [OF this]
  ultimately show ?thesis using a False v unfolding valid_iff_fits
    by (simp add: int_wf_def int_value_def magnitude_bytes_def)
qed

text \<open>The string that \<open>c2i_ASN1_INTEGER\<close> fills: the one it is given or a new one.\<close>

definition target :: "allocator \<Rightarrow> u32 \<Rightarrow> ASN1_STRING option \<Rightarrow> ASN1_STRING option" where
  "target H type out = (case out of None \<Rightarrow> ASN1_STRING_type_new H type | Some a \<Rightarrow> Some a)"

definition out_wf :: "ASN1_STRING option \<Rightarrow> bool" where
  "out_wf out \<longleftrightarrow> (case out of None \<Rightarrow> True | Some a \<Rightarrow> string_wf a)"

lemma target_wf: "out_wf out \<Longrightarrow> target H type out = Some a \<Longrightarrow> string_wf a"
  by (auto simp: out_wf_def target_def string_new_wf split: option.splits)

lemma c2i_reject:
  assumes "nat len \<le> length inp"
  shows "len < 0 \<or> int (INT_MAX div 2) < len \<or> CBS_is_valid_asn1_integer (take (nat len) inp) = None \<Longrightarrow>
    c2i_ASN1_INTEGER H C out inp len = Some (False, out, inp)"
  using assms by (auto simp: c2i_ASN1_INTEGER_def)

lemma length_magnitude: "length (magnitude_bytes neg cbs) \<le> length cbs"
  by (simp add: magnitude_bytes_def)

lemma set_sign_value:
  assumes C: "asn1_consts_ok C" and v: "CBS_is_valid_asn1_integer cbs = Some neg"
    and ret: "as_data ret = Some block" "as_length ret = length (magnitude_bytes neg cbs)" "length (magnitude_bytes neg cbs) < length block"
      "take (length (magnitude_bytes neg cbs)) block = magnitude_bytes neg cbs"
  shows "\<exists>a. set_sign C neg ret = Some a \<and> int_wf C a \<and> int_value C a = tc_value cbs \<and> as_length a \<le> length cbs"
proof -
  let ?n = "length (magnitude_bytes neg cbs)"
  define a where "a = (if neg then ret\<lparr>as_type := V_NEG_INTEGER C,
      as_data := Some (negate_twos_complement (take ?n block) @ drop ?n block)\<rparr> else ret\<lparr>as_type := V_INTEGER C\<rparr>)"
  have a: "string_wf a" "string_bytes a = (if neg then negate_twos_complement else id) (magnitude_bytes neg cbs)"
    "as_type a = (if neg then V_NEG_INTEGER C else V_INTEGER C)" "as_length a = ?n"
    using ret by (auto simp: a_def string_wf_def string_bytes_def)
  note d = magnitude_decodes [OF C v a(1-3)]
  have "as_length a = 0 \<or> hd (the (as_data a)) \<noteq> 0"
    using d hd_string_bytes [OF a(1)] length_string_bytes [OF a(1)] unfolding int_wf_def by auto
  moreover have "\<not> neg \<or> as_length a > 0" using d by (auto simp: length_string_bytes [OF a(1), symmetric])
  moreover have "?n \<le> length block" using ret(3) by simp
  ultimately have "set_sign C neg ret = Some a"
    unfolding set_sign_def ret(1,2) Option.bind.simps Let_def a_def [symmetric] by simp
  with d a(4) length_magnitude [of neg cbs] show ?thesis by auto
qed

lemma c2i_decodes:
  assumes C: "asn1_consts_ok C" and out: "out_wf out" and len: "0 \<le> len" "len \<le> int (INT_MAX div 2)" "nat len \<le> length inp"
    and v: "CBS_is_valid_asn1_integer (take (nat len) inp) = Some neg"
  shows "case target H (V_INTEGER C) out of
      None \<Rightarrow> c2i_ASN1_INTEGER H C out inp len = Some (False, out, inp)
    | Some ret \<Rightarrow>
        if \<not> set_room H ret (length (magnitude_bytes neg (take (nat len) inp)))
        then c2i_ASN1_INTEGER H C out inp len = Some (False, out, inp)
        else \<exists>a. c2i_ASN1_INTEGER H C out inp len = Some (True, Some a, drop (nat len) inp) \<and>
          int_wf C a \<and> int_value C a = tc_value (take (nat len) inp) \<and> as_length a \<le> nat len"
proof (cases "target H (V_INTEGER C) out")
  case None
  with len v show ?thesis by (simp add: c2i_ASN1_INTEGER_def target_def)
next
  case (Some ret)
  let ?m = "magnitude_bytes neg (take (nat len) inp)"
  note s = string_set [OF target_wf [OF out Some] order_refl, where d = ?m and H = H]
  have eq: "c2i_ASN1_INTEGER H C out inp len =
    Option.bind (ASN1_STRING_set H ret (Some ?m) (int (length ?m))) (\<lambda>(ok, ret).
         if \<not> ok then Some (False, map_option (\<lambda>_. ret) out, inp)
         else Option.bind (set_sign C neg ret) (\<lambda>ret. Some (True, Some ret, drop (nat len) inp)))"
    using len v Some unfolding c2i_ASN1_INTEGER_def target_def by (simp add: Let_def)
  show ?thesis
  proof (cases "set_room H ret (length ?m)")
    case True
    with s(2) obtain block where b: "length ?m < length block" "take (length ?m) block = ?m"
      "ASN1_STRING_set H ret (Some ?m) (int (length ?m)) = Some (True, ret\<lparr>as_data := Some block, as_length := length ?m\<rparr>)"
      by auto
    have "\<exists>a. set_sign C neg (ret\<lparr>as_data := Some block, as_length := length ?m\<rparr>) = Some a \<and> int_wf C a \<and>
        int_value C a = tc_value (take (nat len) inp) \<and> as_length a \<le> length (take (nat len) inp)"
      using b by (intro set_sign_value [OF C v]) simp_all
    with True Some b(3) show ?thesis by (auto simp: eq)
  next
    case False
    with s(1) have "c2i_ASN1_INTEGER H C out inp len = Some (False, map_option (\<lambda>_. ret) out, inp)" by (simp add: eq)
    with False Some show ?thesis by (cases out) (simp_all add: target_def)
  qed
qed

section \<open>The codec\<close>

lemma c2i_total:
  assumes "\<forall>n. alloc_ok H n"
  shows "\<exists>ret. target H t out = Some ret" "n \<le> ASN1_STRING_MAX \<Longrightarrow> set_room H s n"
  using assms by (auto simp: target_def ASN1_STRING_type_new_def set_room_def split: option.splits)

lemma c2i_cases:
  assumes C: "asn1_consts_ok C" and out: "out_wf out" and len: "nat len \<le> length inp"
  defines "cbs \<equiv> take (nat len) inp"
  shows "c2i_ASN1_INTEGER H C out inp len = Some (False, out, inp) \<and>
      \<not> ((\<forall>n. alloc_ok H n) \<and> 0 \<le> len \<and> len \<le> int ASN1_STRING_MAX \<and> shortest_tc cbs (tc_value cbs)) \<or>
    (\<exists>x. c2i_ASN1_INTEGER H C out inp len = Some (True, Some x, drop (nat len) inp) \<and> shortest_tc cbs (tc_value cbs) \<and>
       int_wf C x \<and> int_value C x = tc_value cbs \<and> as_length x < INT_MAX)"
proof (cases "0 \<le> len \<and> len \<le> int (INT_MAX div 2) \<and> (\<exists>neg. CBS_is_valid_asn1_integer cbs = Some neg)")
  case True
  then obtain neg where v: "CBS_is_valid_asn1_integer (take (nat len) inp) = Some neg" and l: "0 \<le> len" "len \<le> int (INT_MAX div 2)"
    by (auto simp: cbs_def)
  have s: "shortest_tc cbs (tc_value cbs)" using v unfolding valid_iff_shortest cbs_def by simp
  have "set_room H ret (length (magnitude_bytes neg (take (nat len) inp)))"
    if "\<forall>n. alloc_ok H n" "len \<le> int ASN1_STRING_MAX" for ret
    using that l length_magnitude [of neg "take (nat len) inp"] len by (intro c2i_total(2)) auto
  then show ?thesis
    using c2i_decodes [OF C out l len v, of H] c2i_total(1) [of H "V_INTEGER C" out] s l
    unfolding cbs_def [symmetric] by (fastforce split: option.splits if_splits)
next
  case False
  then have r: "len < 0 \<or> int (INT_MAX div 2) < len \<or> CBS_is_valid_asn1_integer cbs = None" by (cases "CBS_is_valid_asn1_integer cbs") auto
  then have "\<not> (0 \<le> len \<and> len \<le> int ASN1_STRING_MAX \<and> shortest_tc cbs (tc_value cbs))"
    using valid_iff_shortest [of cbs "tc_value cbs < 0"] by auto
  with c2i_reject [OF len r [unfolded cbs_def]] show ?thesis by blast
qed

text \<open>
  C25: The codec of ASN.1 integers is exact in both directions. \<open>i2c_ASN1_INTEGER\<close> of any string, also of one with leading
  zeros or a negative zero, writes the shortest two's complement of its number, and without an output pointer
  returns the length of it. \<open>c2i_ASN1_INTEGER\<close> never reads outside the input and no assertion in it fails; it leaves
  everything as it is, or the input was a shortest two's complement, and it returns an integer in normal form with
  this number, which \<open>i2c_ASN1_INTEGER\<close> turns back into the bytes that were read. It fails on such an input only if
  memory runs out or the input is longer than 64 MiB.\<close>
theorem asn1_integer_codec:
  assumes C: "asn1_consts_ok C" and out: "out_wf out" and len: "nat len \<le> length inp"
    and a: "string_wf a" "as_length a < INT_MAX"
  shows "(\<exists>enc. shortest_tc enc (int_value C a) \<and>
      (\<forall>outp. i2c_ASN1_INTEGER C (Some a) outp = Some (length enc, if outp then enc else []))) \<and>
    (let cbs = take (nat len) inp; v = tc_value cbs; r = c2i_ASN1_INTEGER H C out inp len in
     r = Some (False, out, inp) \<and> \<not> ((\<forall>n. alloc_ok H n) \<and> 0 \<le> len \<and> len \<le> int ASN1_STRING_MAX \<and> shortest_tc cbs v) \<or>
     (\<exists>x. r = Some (True, Some x, drop (nat len) inp) \<and> shortest_tc cbs v \<and> int_wf C x \<and> int_value C x = v \<and>
        i2c_ASN1_INTEGER C (Some x) True = Some (nat len, cbs)))"
proof (intro conjI)
  show "\<exists>enc. shortest_tc enc (int_value C a) \<and>
      (\<forall>outp. i2c_ASN1_INTEGER C (Some a) outp = Some (length enc, if outp then enc else []))"
    using i2c_encodes [OF a, of C] unfolding valid_iff_shortest by metis
  let ?cbs = "take (nat len) inp"
  have i2c: "i2c_ASN1_INTEGER C (Some x) True = Some (nat len, ?cbs)"
    if x: "int_wf C x" "int_value C x = tc_value ?cbs" "shortest_tc ?cbs (tc_value ?cbs)" "as_length x < INT_MAX" for x
  proof -
    obtain enc where e: "i2c_ASN1_INTEGER C (Some x) True = Some (length enc, enc)"
      "CBS_is_valid_asn1_integer enc = Some (int_value C x < 0)" "tc_value enc = int_value C x"
      using i2c_encodes [of x C] x(1,4) unfolding int_wf_def by auto
    have "CBS_is_valid_asn1_integer ?cbs = Some (tc_value ?cbs < 0)" using x(3) by (simp add: valid_iff_shortest)
    from valid_unique [OF e(2) this] have "enc = ?cbs" using e(3) x(2) by simp
    with e(1) len show ?thesis by simp
  qed
  show "let cbs = take (nat len) inp; v = tc_value cbs; r = c2i_ASN1_INTEGER H C out inp len in
     r = Some (False, out, inp) \<and> \<not> ((\<forall>n. alloc_ok H n) \<and> 0 \<le> len \<and> len \<le> int ASN1_STRING_MAX \<and> shortest_tc cbs v) \<or>
     (\<exists>x. r = Some (True, Some x, drop (nat len) inp) \<and> shortest_tc cbs v \<and> int_wf C x \<and> int_value C x = v \<and>
        i2c_ASN1_INTEGER C (Some x) True = Some (nat len, cbs))"
    using c2i_cases [OF C out len, of H] i2c unfolding Let_def by metis
qed

text \<open>The witness reads \<open>-129\<close> and writes \<open>-128\<close> from a magnitude with a leading zero.\<close>

theorem asn1_integer_codec_witness:
  "(\<exists>enc. shortest_tc enc (- 128) \<and>
      i2c_ASN1_INTEGER asn1_consts_std (Some \<lparr>as_length = 2, as_type = 0x102, as_data = Some [0, 0x80, 7], as_flags = 0\<rparr>) True = Some (length enc, enc)) \<and>
   (\<exists>x. c2i_ASN1_INTEGER heap_total asn1_consts_std None [0xff, 0x7f, 9] 2 = Some (True, Some x, [9]) \<and>
      int_value asn1_consts_std x = - 129 \<and> i2c_ASN1_INTEGER asn1_consts_std (Some x) True = Some (2, [0xff, 0x7f]))"
proof -
  let ?a = "\<lparr>as_length = 2, as_type = 0x102, as_data = Some [0, 0x80, 7], as_flags = 0\<rparr> :: ASN1_STRING"
  have a: "string_wf ?a" "as_length ?a < INT_MAX" by (simp_all add: string_wf_def)
  have va: "int_value asn1_consts_std ?a = - 128"
    by (simp add: int_value_def string_bytes_def asn1_consts_std_def be_to_nat_Cons take_Cons')
  have tc: "tc_value [0xff, 0x7f] = - 129" by (simp add: tc_value_def be_to_nat_Cons)
  have s: "shortest_tc [0xff, 0x7f] (- 129)" using valid_iff_shortest [of "[0xff, 0x7f]" True] tc by simp
  have o: "out_wf None" "nat 2 \<le> length [0xff, 0x7f, 9 :: u8]" by (simp_all add: out_wf_def)
  note th = asn1_integer_codec [OF asn1_consts_std_ok o a, of heap_total]
  have "\<forall>n. alloc_ok heap_total n" by (simp add: heap_total_def)
  with conjunct2 [OF th] s tc have "\<exists>x. c2i_ASN1_INTEGER heap_total asn1_consts_std None [0xff, 0x7f, 9] 2 = Some (True, Some x, [9]) \<and>
      int_value asn1_consts_std x = - 129 \<and> i2c_ASN1_INTEGER asn1_consts_std (Some x) True = Some (2, [0xff, 0x7f])"
    by (auto simp: Let_def take_Cons' drop_Cons')
  with conjunct1 [OF th] va show ?thesis by auto
qed

end
