(* ===== verification/ASN1_Int_Values.thy ===== *)
theory ASN1_Int_Values
  imports ASN1_Int_Thms
begin

text \<open>
  ASN.1 integers and machine integers: setting and reading integers of 64 bits, for the types INTEGER and ENUMERATED,
  and the comparison of integers.
\<close>

section \<open>Signed words\<close>

lemma sint_value: "sint (v :: u64) = (if sint v < 0 then int (unat v) - 2 ^ 64 else int (unat v))"
proof -
  have "sint v = take_bit 64 (uint v) - 2 ^ 64 * of_bool (bit (uint v) 63)"
    using signed_take_bit_eq_take_bit_minus [of 63 "uint v"] by (simp add: sint_uint)
  moreover have "take_bit 64 (uint v) = uint v" by (rule bintr_uint) simp
  moreover have "bit (uint v) 63 \<longleftrightarrow> sint v < 0" using bit_last_iff [of v] by (simp add: bit_uint_iff)
  ultimately show ?thesis by (cases "sint v < 0") simp_all
qed

lemma sint_negate: "sint (v :: u64) < 0 \<Longrightarrow> sint v = - int (unat (0 - v))"
proof -
  assume neg: "sint v < 0"
  then have "unat v \<noteq> 0" using unat_eq_0 [of v] by auto
  then have "unat (0 - v) = 2 ^ 64 - unat v" using unat_sub_if' [of 0 v] by (simp del: diff_0)
  moreover have "unat v < 2 ^ 64" using unsigned_less [of v, where ?'a = nat] by simp
  ultimately have "int (unat (0 - v)) = 2 ^ 64 - int (unat v)" by (simp only: of_nat_diff less_imp_le) simp
  with sint_value [of v] neg show ?thesis by (simp only: if_True)
qed

section \<open>The two integer types\<close>

text \<open>The strings of a type: the magnitude has no leading zeros.\<close>

definition int_normal :: "u32 \<Rightarrow> u32 \<Rightarrow> ASN1_STRING \<Rightarrow> bool" where
  "int_normal type neg_type a \<longleftrightarrow>
     string_wf a \<and> (string_bytes a = [] \<or> hd (string_bytes a) \<noteq> 0) \<and> as_type a \<in> {type, neg_type}"

text \<open>What the functions for integers need of a type and its variant for negative numbers.\<close>

locale asn1_int_type =
  fixes C :: asn1_consts and type neg_type :: u32
  assumes type_sign: "type AND V_NEG C = 0" "neg_type AND V_NEG C \<noteq> 0"
    and type_plain: "type AND NOT (V_NEG C) = type" "neg_type AND NOT (V_NEG C) = type"
begin

lemma value_eq: "int_normal type neg_type a \<Longrightarrow> int_value C a = (if as_type a = neg_type then - 1 else 1) * int (be_to_nat (string_bytes a))"
  using type_sign by (auto simp: int_normal_def int_value_def)

lemma get_abs:
  assumes "int_normal type neg_type a"
  shows "asn1_string_get_abs_uint64 C a type =
    Some (if be_to_nat (string_bytes a) < 2 ^ 64 then Some (word_of_nat (be_to_nat (string_bytes a))) else None)"
proof -
  let ?bs = "string_bytes a"
  have wf: "string_wf a" and plain: "as_type a AND NOT (V_NEG C) = type" using assms type_plain by (auto simp: int_normal_def)
  note l = length_string_bytes [OF wf]
  show ?thesis
  proof (cases "as_length a \<le> 8")
    case True
    have z: "be_to_nat (replicate k 0 @ ?bs) = be_to_nat ?bs" for k by (induction k) (simp_all add: be_to_nat_Cons)
    have "be_to_nat ?bs < 256 ^ length ?bs" by (rule be_to_nat_less)
    also have "\<dots> \<le> 256 ^ 8" using True l by (intro power_increasing) simp_all
    finally have "be_to_nat ?bs < 2 ^ 64" by simp
    then show ?thesis using True l plain
      by (simp add: asn1_string_get_abs_uint64_def get_bytes_wf [OF wf] load_u64_be_eq z)
  next
    case False
    then obtain b r where br: "?bs = b # r" "8 \<le> length r" using l by (cases ?bs) auto
    have "(2 :: nat) ^ 64 \<le> 256 ^ length r" using power_increasing [OF br(2), of "256 :: nat"] by simp
    also have "\<dots> \<le> be_to_nat ?bs" using be_hd_le [of 1 r b] br assms by (auto simp: int_normal_def Suc_le_eq unat_gt_0)
    finally show ?thesis using False plain by (simp add: asn1_string_get_abs_uint64_def)
  qed
qed

lemma get_uint64:
  assumes "int_normal type neg_type a"
  shows "asn1_string_get_uint64 C a type =
    Some (if as_type a = type \<and> int_value C a < 2 ^ 64 then Some (word_of_int (int_value C a)) else None)"
  using get_abs [OF assms] assms type_sign by (auto simp: asn1_string_get_uint64_def int_normal_def value_eq)

lemma get_int64:
  assumes "int_normal type neg_type a"
  shows "asn1_string_get_int64 C a type =
    Some (if - (2 ^ 63) \<le> int_value C a \<and> int_value C a < 2 ^ 63 then Some (word_of_int (int_value C a)) else None)"
proof -
  define m where "m = be_to_nat (string_bytes a)"
  have v: "int_value C a = (if as_type a AND V_NEG C \<noteq> 0 then - int m else int m)" by (simp add: int_value_def m_def)
  show ?thesis
  proof (cases "m < 2 ^ 64")
    case True
    then have u: "unat (word_of_nat m :: u64) = m" by (simp add: unsigned_of_nat take_bit_nat_eq_self)
    have z: "(word_of_nat m :: u64) = 0 \<longleftrightarrow> m = 0" by (simp only: unat_eq_0 [symmetric] u)
    have n: "sint (- word_of_nat m :: u64) < 0 \<longleftrightarrow> m \<le> 2 ^ 63" if "m \<noteq> 0"
    proof -
      have w: "unat (- word_of_nat m :: u64) = 2 ^ 64 - m" using that u unat_sub_if' [of 0 "word_of_nat m :: u64"] by simp
      have "sint (- word_of_nat m :: u64) < 0 \<longleftrightarrow> \<not> 2 ^ 64 - m < 2 ^ 63" by (simp only: not_le [symmetric] sint_sign w not_not)
      also have "\<dots> \<longleftrightarrow> m \<le> 2 ^ 63" using True by auto
      finally show ?thesis .
    qed
    have p: "0 \<le> sint (word_of_nat m :: u64) \<longleftrightarrow> m < 2 ^ 63" using sint_sign [of "word_of_nat m"] u by simp
    show ?thesis using get_abs [OF assms] True n p z unfolding asn1_string_get_int64_def m_def [symmetric] v
      by (cases "m = 0") (auto simp: of_nat_0)
  next
    case False
    then show ?thesis using get_abs [OF assms] unfolding asn1_string_get_int64_def m_def [symmetric] v by auto
  qed
qed

lemma set_uint64:
  assumes "string_wf a"
  shows "asn1_string_set_uint64 H a v type = Some (False, a) \<and> \<not> (\<forall>n. alloc_ok H n) \<or>
    (\<exists>x. asn1_string_set_uint64 H a v type = Some (True, x) \<and> string_wf x \<and> as_type x = type \<and>
       be_to_nat (string_bytes x) = unat v \<and> (string_bytes x = [] \<or> hd (string_bytes x) \<noteq> 0))"
proof -
  define buf where "buf = nat_to_be 8 (unat v)"
  define z where "z = count_leading_zeros buf"
  have store: "CRYPTO_store_u64_be v = buf"
  proof -
    have "be_to_nat (nat_to_le 8 (unat v)) < 256 ^ 8" using be_to_nat_less [of "nat_to_le 8 (unat v)"] by simp
    then have "unat (CRYPTO_bswap8 v) = be_to_nat (nat_to_le 8 (unat v))"
      by (simp add: CRYPTO_bswap8_def unsigned_of_nat take_bit_nat_eq_self)
    then show ?thesis by (simp add: CRYPTO_store_u64_be_def buf_def be_to_nat_def nat_to_be_def)
  qed
  have l: "length buf = 8" by (simp add: buf_def)
  have drop: "drop (count_leading_zeros bs) bs = skip_zeros bs" "count_leading_zeros bs \<le> length bs" for bs
    by (induction bs) simp_all
  have n: "8 - int z = int (length (skip_zeros buf))" using drop [of buf] l by (simp add: z_def flip: drop(1))
  have set: "asn1_string_set_uint64 H a v type =
    Option.bind (ASN1_STRING_set H a (Some (skip_zeros buf)) (int (length (skip_zeros buf))))
      (\<lambda>(ok, out). if \<not> ok then Some (False, out) else Some (True, out\<lparr>as_type := type\<rparr>))"
    unfolding asn1_string_set_uint64_def store Let_def z_def [symmetric] n using drop(1) [of buf] by (simp add: z_def)
  have be: "be_to_nat (skip_zeros buf) = unat v" "skip_zeros buf = [] \<or> hd (skip_zeros buf) \<noteq> 0"
    using skip_zeros_value [of buf] skip_zeros_cases [of buf] unsigned_less [of v, where ?'a = nat] by (auto simp: buf_def)
  show ?thesis
  proof (cases "set_room H a (length (skip_zeros buf))")
    case True
    with string_set(2) [OF assms order_refl, of H "skip_zeros buf"] set be show ?thesis
      by (auto simp: string_wf_def string_bytes_def)
  next
    case False
    have "length (skip_zeros buf) \<le> 8" using drop [of buf] l by (metis diff_le_self length_drop)
    with False string_set(1) [OF assms order_refl, where d = "skip_zeros buf" and H = H] set show ?thesis
      by (auto simp: set_room_def)
  qed
qed

end

text \<open>The functions of a type are those of the string, with the type, and the sign is set last.\<close>

locale asn1_int_ops = asn1_int_type +
  fixes H :: allocator and set_uint64 set_int64 :: "ASN1_STRING \<Rightarrow> u64 \<Rightarrow> (bool \<times> ASN1_STRING) option"
    and get_uint64 get_int64 :: "ASN1_STRING \<Rightarrow> u64 option option"
    and get_long :: "ASN1_STRING option \<Rightarrow> u64 option"
  assumes set_uint64_law: "set_uint64 a v = asn1_string_set_uint64 H a v type"
    and set_int64_law: "set_int64 a v =
      (if sint v \<ge> 0 then set_uint64 a v
       else Option.bind (set_uint64 a (0 - v)) (\<lambda>(ok, a). if \<not> ok then Some (False, a) else Some (True, a\<lparr>as_type := neg_type\<rparr>)))"
    and get_uint64_law: "get_uint64 a = asn1_string_get_uint64 C a type"
    and get_int64_law: "get_int64 a = asn1_string_get_int64 C a type"
    and get_long_law: "get_long x = asn1_string_get_long C x type"
begin

lemma set_int64_value:
  assumes "string_wf a"
  shows "set_int64 a v = Some (False, a) \<and> \<not> (\<forall>n. alloc_ok H n) \<or>
    (\<exists>x. set_int64 a v = Some (True, x) \<and> int_normal type neg_type x \<and> as_type x = (if sint v < 0 then neg_type else type) \<and>
       int_value C x = sint v)"
proof (cases "sint v \<ge> 0")
  case True
  then have v: "sint v = int (unat v)" using sint_value [of v] by (metis not_le)
  from set_uint64 [OF assms, of H v] show ?thesis
  proof
    assume "\<exists>x. asn1_string_set_uint64 H a v type = Some (True, x) \<and> string_wf x \<and> as_type x = type \<and>
       be_to_nat (string_bytes x) = unat v \<and> (string_bytes x = [] \<or> hd (string_bytes x) \<noteq> 0)"
    then obtain x where x: "asn1_string_set_uint64 H a v type = Some (True, x)" "string_wf x" "as_type x = type"
      "be_to_nat (string_bytes x) = unat v" "string_bytes x = [] \<or> hd (string_bytes x) \<noteq> 0" by blast
    have "int_value C x = sint v" unfolding v int_value_def x(3,4) using type_sign(1) by simp
    with x True show ?thesis by (intro disjI2 exI [of _ x]) (simp add: set_int64_law set_uint64_law int_normal_def)
  qed (use True in \<open>simp add: set_int64_law set_uint64_law\<close>)
next
  case False
  then have v: "sint v = - int (unat (0 - v))" by (intro sint_negate) simp
  from set_uint64 [OF assms, of H "0 - v"] show ?thesis
  proof
    assume "\<exists>x. asn1_string_set_uint64 H a (0 - v) type = Some (True, x) \<and> string_wf x \<and> as_type x = type \<and>
       be_to_nat (string_bytes x) = unat (0 - v) \<and> (string_bytes x = [] \<or> hd (string_bytes x) \<noteq> 0)"
    then obtain x where x: "asn1_string_set_uint64 H a (0 - v) type = Some (True, x)" "string_wf x"
      "be_to_nat (string_bytes x) = unat (0 - v)" "string_bytes x = [] \<or> hd (string_bytes x) \<noteq> 0" by blast
    let ?x = "x\<lparr>as_type := neg_type\<rparr>"
    have s: "string_wf ?x" "string_bytes ?x = string_bytes x" using x(2) by (simp_all add: string_wf_def string_bytes_def)
    have "int_value C ?x = sint v" unfolding v int_value_def s x(3) using type_sign(2) by simp
    with x s False show ?thesis
      by (intro disjI2 exI [of _ ?x]) (simp add: set_int64_law set_uint64_law int_normal_def)
  qed (use False in \<open>simp add: set_int64_law set_uint64_law\<close>)
qed

lemma get_set_int64: "string_wf a \<Longrightarrow> set_int64 a v = Some (True, x) \<Longrightarrow> get_int64 x = Some (Some v)"
proof -
  assume "string_wf a" "set_int64 a v = Some (True, x)"
  then have x: "int_normal type neg_type x" "int_value C x = sint v" using set_int64_value [of a v] by auto
  have "- (2 ^ 63) \<le> sint v" "sint v < 2 ^ 63" using sint_ge [of v] sint_lt [of v] by simp_all
  then show ?thesis unfolding get_int64_law get_int64 [OF x(1)] x(2) by simp
qed

lemma get_long_value:
  assumes "int_normal type neg_type a"
  shows "get_long (Some a) =
    Some (if - (2 ^ 63) \<le> int_value C a \<and> int_value C a < 2 ^ 63 then word_of_int (int_value C a) else - 1)"
proof -
  have "\<not> (sint w < - (2 ^ 63) \<or> sint w > 2 ^ 63 - 1)" for w :: u64 using sint_ge [of w] sint_lt [of w] by simp
  then show ?thesis unfolding get_long_law asn1_string_get_long_def option.case get_int64 [OF assms] by simp
qed

end

lemma integer_ops:
  "asn1_consts_ok C \<Longrightarrow> asn1_int_ops C (V_INTEGER C) (V_NEG_INTEGER C) H (ASN1_INTEGER_set_uint64 H C)
     (ASN1_INTEGER_set_int64 H C) (ASN1_INTEGER_get_uint64 C) (ASN1_INTEGER_get_int64 C) (ASN1_INTEGER_get C)"
  by unfold_locales (auto simp: asn1_consts_ok_def ASN1_INTEGER_set_uint64_def ASN1_INTEGER_set_int64_def
    ASN1_INTEGER_get_uint64_def ASN1_INTEGER_get_int64_def ASN1_INTEGER_get_def)

lemma enumerated_ops:
  "asn1_consts_ok C \<Longrightarrow> asn1_int_ops C (V_ENUMERATED C) (V_NEG_ENUMERATED C) H (ASN1_ENUMERATED_set_uint64 H C)
     (ASN1_ENUMERATED_set_int64 H C) (ASN1_ENUMERATED_get_uint64 C) (ASN1_ENUMERATED_get_int64 C) (ASN1_ENUMERATED_get C)"
  by unfold_locales (auto simp: asn1_consts_ok_def ASN1_ENUMERATED_set_uint64_def ASN1_ENUMERATED_set_int64_def
    ASN1_ENUMERATED_get_uint64_def ASN1_ENUMERATED_get_int64_def ASN1_ENUMERATED_get_def)

interpretation integer: asn1_int_ops asn1_consts_std "V_INTEGER asn1_consts_std" "V_NEG_INTEGER asn1_consts_std" H
  "ASN1_INTEGER_set_uint64 H asn1_consts_std" "ASN1_INTEGER_set_int64 H asn1_consts_std"
  "ASN1_INTEGER_get_uint64 asn1_consts_std" "ASN1_INTEGER_get_int64 asn1_consts_std" "ASN1_INTEGER_get asn1_consts_std" for H
  by (rule integer_ops) (rule asn1_consts_std_ok)

interpretation enumerated: asn1_int_ops asn1_consts_std "V_ENUMERATED asn1_consts_std" "V_NEG_ENUMERATED asn1_consts_std" H
  "ASN1_ENUMERATED_set_uint64 H asn1_consts_std" "ASN1_ENUMERATED_set_int64 H asn1_consts_std"
  "ASN1_ENUMERATED_get_uint64 asn1_consts_std" "ASN1_ENUMERATED_get_int64 asn1_consts_std" "ASN1_ENUMERATED_get asn1_consts_std" for H
  by (rule enumerated_ops) (rule asn1_consts_std_ok)

section \<open>Comparison\<close>

lemma memcmp_be:
  "length xs = length ys \<Longrightarrow> sgn (OPENSSL_memcmp xs ys) = sgn (int (be_to_nat xs) - int (be_to_nat ys))"
proof (induction xs ys rule: OPENSSL_memcmp.induct)
  case (1 x xs y ys)
  have less: "be_to_nat (a # as) < be_to_nat (b # bs)" if "a < b" "length as = length bs" for a b :: u8 and as bs
  proof -
    have "unat b * 256 ^ length bs \<le> be_to_nat (b # bs)" by (rule be_to_nat_ge)
    moreover have "\<not> unat b * 256 ^ length as \<le> be_to_nat (a # as)" using that(1) be_hd_le [of "unat b" as a] by (simp add: word_less_nat_alt)
    ultimately show ?thesis using that(2) by simp
  qed
  consider "x = y" | "x < y" | "y < x" by (rule linorder_cases)
  then show ?case
  proof cases
    case 1
    then show ?thesis using "1.IH" "1.prems" by (simp add: be_to_nat_Cons)
  next
    case 2
    then show ?thesis using less [of x y xs ys] "1.prems" by auto
  next
    case 3
    then show ?thesis using less [of y x ys xs] "1.prems" by auto
  qed
qed auto

lemma shorter_less:
  assumes "length xs < length ys" "hd ys \<noteq> 0"
  shows "be_to_nat xs < be_to_nat ys"
proof -
  obtain b r where ys: "ys = b # r" using assms(1) by (cases ys) auto
  have "be_to_nat xs < 256 ^ length xs" by (rule be_to_nat_less)
  also have "\<dots> \<le> 256 ^ length r" using assms(1) ys by (intro power_increasing) simp_all
  also have "\<dots> \<le> be_to_nat ys" using be_hd_le [of 1 r b] assms(2) ys by (simp add: Suc_le_eq unat_gt_0)
  finally show ?thesis .
qed

lemma string_cmp_magnitude:
  assumes "string_wf a" "string_wf b" "as_type a = as_type b" "as_type a \<noteq> V_BIT_STRING C"
    and "string_bytes a = [] \<or> hd (string_bytes a) \<noteq> 0" "string_bytes b = [] \<or> hd (string_bytes b) \<noteq> 0"
  shows "\<exists>r. ASN1_STRING_cmp C a b = Some r \<and> sgn r = sgn (int (be_to_nat (string_bytes a)) - int (be_to_nat (string_bytes b)))"
proof -
  note l = length_string_bytes [OF assms(1)] length_string_bytes [OF assms(2)]
  have cmp: "ASN1_STRING_cmp C a b =
    (if as_length a < as_length b then Some (- 1) else if as_length b < as_length a then Some 1
     else Some (OPENSSL_memcmp (string_bytes a) (string_bytes b)))"
    using assms(3,4) l by (simp add: ASN1_STRING_cmp_def cmp_length_def get_bytes_wf assms(1,2) Let_def)
  consider "as_length a < as_length b" | "as_length b < as_length a" | "as_length a = as_length b" by linarith
  then show ?thesis
  proof cases
    case 1
    then have "be_to_nat (string_bytes a) < be_to_nat (string_bytes b)" using l assms(6) by (intro shorter_less) auto
    with 1 show ?thesis by (simp add: cmp)
  next
    case 2
    then have "be_to_nat (string_bytes b) < be_to_nat (string_bytes a)" using l assms(5) by (intro shorter_less) auto
    with 2 show ?thesis by (simp add: cmp)
  next
    case 3
    with l show ?thesis by (simp add: cmp memcmp_be)
  qed
qed

text \<open>
  \<open>ASN1_INTEGER_cmp\<close> compares the numbers of two integers in normal form, as \<open>c2i_ASN1_INTEGER\<close> returns them, and
  reads nothing outside of them.\<close>
lemma integer_cmp:
  assumes C: "asn1_consts_ok C" and x: "int_wf C x" and y: "int_wf C y"
  shows "\<exists>r. ASN1_INTEGER_cmp C x y = Some r \<and> sgn r = sgn (int_value C x - int_value C y)"
proof -
  have c: "V_NEG_INTEGER C AND V_NEG C = 0x100" "V_INTEGER C AND V_NEG C = 0" "V_NEG_INTEGER C \<noteq> V_BIT_STRING C"
    "V_INTEGER C \<noteq> V_BIT_STRING C"
    using C by (simp_all add: asn1_consts_ok_def)
  have t: "as_type a AND V_NEG C = (if int_value C a < 0 then 0x100 else 0)" "as_type a \<noteq> V_BIT_STRING C"
    "string_wf a" "string_bytes a = [] \<or> hd (string_bytes a) \<noteq> 0" if "int_wf C a" for a
    using that c by (simp_all add: int_wf_def)
  have v: "int_value C a = (if int_value C a < 0 then - 1 else 1) * int (be_to_nat (string_bytes a))" if "int_wf C a" for a
    using t(1) [OF that] int_value_def [of C a] by (simp split: if_splits)
  show ?thesis
  proof (cases "(int_value C x < 0) = (int_value C y < 0)")
    case True
    then have "as_type x = as_type y" using x y by (simp add: int_wf_def)
    then obtain r where r: "ASN1_STRING_cmp C x y = Some r"
      "sgn r = sgn (int (be_to_nat (string_bytes x)) - int (be_to_nat (string_bytes y)))"
      using string_cmp_magnitude [OF t(3) [OF x] t(3) [OF y] _ t(2) [OF x] t(4) [OF x] t(4) [OF y]] by auto
    show ?thesis
    proof (cases "int_value C x < 0")
      case neg: True
      have "int_value C x - int_value C y = - (int (be_to_nat (string_bytes x)) - int (be_to_nat (string_bytes y)))"
        using v [OF x] v [OF y] neg True by simp
      moreover have "ASN1_INTEGER_cmp C x y = Some (- sgn r)"
        using neg True r(1) t(1) [OF x] t(1) [OF y] by (auto simp: ASN1_INTEGER_cmp_def sgn_if)
      ultimately show ?thesis using r(2) by (simp only: sgn_minus) simp
    next
      case False
      then have "int_value C x - int_value C y = int (be_to_nat (string_bytes x)) - int (be_to_nat (string_bytes y))"
        using v [OF x] v [OF y] True by simp
      moreover have "ASN1_INTEGER_cmp C x y = Some r"
        using False True r(1) t(1) [OF x] t(1) [OF y] by (simp add: ASN1_INTEGER_cmp_def)
      ultimately show ?thesis using r(2) by simp
    qed
  next
    case False
    then show ?thesis using t(1) [OF x] t(1) [OF y] by (auto simp: ASN1_INTEGER_cmp_def)
  qed
qed

section \<open>Properties\<close>

text \<open>
  C29: Machine integers of 64 bits go through ASN.1 integers unchanged, for INTEGER and ENUMERATED. Setting an
  \<open>int64_t\<close> in any string gives a string without leading zeros that stands for the number, the smallest number included, and reading
  it gives the number back; it fails only if memory runs out, and then changes nothing. Reading any string of the type that has no
  leading zeros gives its number exactly if the number fits in the type of the result, and otherwise
  fails, or returns \<open>-1\<close> in the functions that return a \<open>long\<close>. As a \<open>uint64_t\<close> only
  strings of the type for numbers that are not negative are read.\<close>
theorem asn1_int64_exact:
  assumes C: "asn1_consts_ok C" and a: "string_wf a" and b: "int_normal type neg_type b"
    and ops: "(set_int64, get_int64, get_uint64, get_long, type, neg_type) \<in>
      {(ASN1_INTEGER_set_int64 H C, ASN1_INTEGER_get_int64 C, ASN1_INTEGER_get_uint64 C, ASN1_INTEGER_get C, V_INTEGER C, V_NEG_INTEGER C),
       (ASN1_ENUMERATED_set_int64 H C, ASN1_ENUMERATED_get_int64 C, ASN1_ENUMERATED_get_uint64 C, ASN1_ENUMERATED_get C,
        V_ENUMERATED C, V_NEG_ENUMERATED C)}"
  shows "(set_int64 a v = Some (False, a) \<and> \<not> (\<forall>n. alloc_ok H n) \<or>
      (\<exists>x. set_int64 a v = Some (True, x) \<and> int_normal type neg_type x \<and> int_value C x = sint v \<and>
         as_type x = (if sint v < 0 then neg_type else type) \<and> get_int64 x = Some (Some v))) \<and>
    (let n = int_value C b; fits = - (2 ^ 63) \<le> n \<and> n < 2 ^ 63 in
     get_int64 b = Some (if fits then Some (word_of_int n) else None) \<and>
     get_long (Some b) = Some (if fits then word_of_int n else - 1) \<and>
     get_uint64 b = Some (if as_type b = type \<and> n < 2 ^ 64 then Some (word_of_int n) else None))"
proof -
  have "\<exists>set_uint64. asn1_int_ops C type neg_type H set_uint64 set_int64 get_uint64 get_int64 get_long"
    using ops integer_ops [OF C, of H] enumerated_ops [OF C, of H] by blast
  then obtain set_uint64 where o: "asn1_int_ops C type neg_type H set_uint64 set_int64 get_uint64 get_int64 get_long" ..
  note t = asn1_int_ops.axioms(1) [OF o]
  show ?thesis
    using asn1_int_ops.set_int64_value [OF o a, of v] asn1_int_ops.get_set_int64 [OF o a, of v]
      asn1_int_ops.get_long_value [OF o b] asn1_int_type.get_int64 [OF t b] asn1_int_type.get_uint64 [OF t b]
      asn1_int_ops.get_int64_law [OF o, of b] asn1_int_ops.get_uint64_law [OF o, of b]
    unfolding Let_def by metis
qed

theorem asn1_int64_exact_witness:
  "(\<exists>x. ASN1_INTEGER_set_int64 heap_total asn1_consts_std \<lparr>as_length = 0, as_type = 2, as_data = None, as_flags = 0\<rparr> 0x8000000000000000 = Some (True, x) \<and>
      int_value asn1_consts_std x = - (2 ^ 63) \<and> ASN1_INTEGER_get_int64 asn1_consts_std x = Some (Some 0x8000000000000000)) \<and>
   ASN1_INTEGER_get_int64 asn1_consts_std \<lparr>as_length = 1, as_type = 0x102, as_data = Some [5], as_flags = 0\<rparr> = Some (Some (- 5))"
proof -
  let ?a = "\<lparr>as_length = 0, as_type = 2, as_data = None, as_flags = 0\<rparr> :: ASN1_STRING"
  let ?b = "\<lparr>as_length = 1, as_type = 0x102, as_data = Some [5], as_flags = 0\<rparr> :: ASN1_STRING"
  let ?C = asn1_consts_std
  have a: "string_wf ?a" by (simp add: string_wf_def)
  have b: "int_normal (V_INTEGER ?C) (V_NEG_INTEGER ?C) ?b"
    by (simp add: int_normal_def string_wf_def string_bytes_def asn1_consts_std_def)
  have vb: "int_value ?C ?b = - 5" by (simp add: int_value_def string_bytes_def asn1_consts_std_def be_to_nat_Cons)
  have s: "sint (0x8000000000000000 :: u64) = - (2 ^ 63)" by code_simp
  have "\<forall>n. alloc_ok heap_total n" by (simp add: heap_total_def)
  with asn1_int64_exact [OF asn1_consts_std_ok a b insertI1, of heap_total "0x8000000000000000"] s vb
  show ?thesis by (auto simp: Let_def)
qed

end
