(* ===== verification/ASN1_Bignum.thy ===== *)
theory ASN1_Bignum
  imports ASN1_Int_Values
begin

text \<open>
  The functions of \<open>crypto/asn1/a_int.c\<close> that convert between ASN.1 integers and big numbers. The big numbers
  of BoringSSL are not in the tree: the functions used of them are the fields of a parameter, over a type of numbers
  that is arbitrary.
\<close>

section \<open>Definitions\<close>

record 'b bn_lib =
  BN_is_negative :: "'b \<Rightarrow> bool"
  BN_is_zero :: "'b \<Rightarrow> bool"
  BN_num_bytes :: "'b \<Rightarrow> nat"
  BN_bn2bin_padded :: "nat \<Rightarrow> 'b \<Rightarrow> u8 list option"
  BN_bin2bn :: "u8 list \<Rightarrow> 'b option \<Rightarrow> 'b option"
  BN_set_negative :: "'b \<Rightarrow> bool \<Rightarrow> 'b"

text \<open>
  \<open>ai\<close> is the string that is filled in, if it is not null. The result is whether the return value is not null,
  and the string.
\<close>

definition bn_to_asn1_string ::
  "'b bn_lib \<Rightarrow> allocator \<Rightarrow> asn1_consts \<Rightarrow> 'b \<Rightarrow> ASN1_STRING option \<Rightarrow> u32 \<Rightarrow> (bool \<times> ASN1_STRING option) option" where
  "bn_to_asn1_string N H C bn ai type =
     (case (case ai of None \<Rightarrow> ASN1_STRING_type_new H type | Some ai \<Rightarrow> Some ai) of
        None \<Rightarrow> Some (False, ai)
      | Some ret \<Rightarrow>
          do { let ret = ret\<lparr>as_type := if BN_is_negative N bn \<and> \<not> BN_is_zero N bn then type OR V_NEG C else type\<rparr>;
               let len = BN_num_bytes N bn;
               (ok, ret) \<leftarrow> ASN1_STRING_set H ret None (int len);
               if \<not> ok then Some (False, map_option (\<lambda>_. ret) ai)
               else
                 (case BN_bn2bin_padded N len bn of
                    None \<Rightarrow> Some (False, map_option (\<lambda>_. ret) ai)
                  | Some bytes \<Rightarrow>
                      do { data \<leftarrow> as_data ret;
                           check (len \<le> length data);
                           Some (True, Some (ret\<lparr>as_data := Some (bytes @ drop len data)\<rparr>)) }) })"

definition BN_to_ASN1_INTEGER ::
  "'b bn_lib \<Rightarrow> allocator \<Rightarrow> asn1_consts \<Rightarrow> 'b \<Rightarrow> ASN1_STRING option \<Rightarrow> (bool \<times> ASN1_STRING option) option" where
  "BN_to_ASN1_INTEGER N H C bn ai = bn_to_asn1_string N H C bn ai (V_INTEGER C)"

definition BN_to_ASN1_ENUMERATED ::
  "'b bn_lib \<Rightarrow> allocator \<Rightarrow> asn1_consts \<Rightarrow> 'b \<Rightarrow> ASN1_STRING option \<Rightarrow> (bool \<times> ASN1_STRING option) option" where
  "BN_to_ASN1_ENUMERATED N H C bn ai = bn_to_asn1_string N H C bn ai (V_ENUMERATED C)"

text \<open>The outer \<open>None\<close> is an access outside the string, the inner one a null pointer.\<close>

definition asn1_string_to_bn :: "'b bn_lib \<Rightarrow> asn1_consts \<Rightarrow> ASN1_STRING \<Rightarrow> 'b option \<Rightarrow> u32 \<Rightarrow> 'b option option" where
  "asn1_string_to_bn N C ai bn type =
     (if as_type ai AND NOT (V_NEG C) \<noteq> type then Some None
      else do {
        bytes \<leftarrow> get_bytes ai;
        Some (case BN_bin2bn N bytes bn of
                None \<Rightarrow> None
              | Some ret \<Rightarrow> Some (if as_type ai AND V_NEG C \<noteq> 0 then BN_set_negative N ret True else ret)) })"

definition ASN1_INTEGER_to_BN :: "'b bn_lib \<Rightarrow> asn1_consts \<Rightarrow> ASN1_STRING \<Rightarrow> 'b option \<Rightarrow> 'b option option" where
  "ASN1_INTEGER_to_BN N C ai bn = asn1_string_to_bn N C ai bn (V_INTEGER C)"

definition ASN1_ENUMERATED_to_BN :: "'b bn_lib \<Rightarrow> asn1_consts \<Rightarrow> ASN1_STRING \<Rightarrow> 'b option \<Rightarrow> 'b option option" where
  "ASN1_ENUMERATED_to_BN N C ai bn = asn1_string_to_bn N C ai bn (V_ENUMERATED C)"

section \<open>The contract of big numbers\<close>

text \<open>
  What the header of the big numbers documents of the functions used, with \<open>val\<close> the number that an object stands for:
  the sign and the test for zero, the number of bytes of the magnitude, the magnitude in big-endian order with leading
  zeros up to a length, and its inverse, which may run out of memory. Zero is not made negative.
\<close>

definition bn_lib_ok :: "'b bn_lib \<Rightarrow> ('b \<Rightarrow> int) \<Rightarrow> bool" where
  "bn_lib_ok N val \<longleftrightarrow>
     (\<forall>b. (BN_is_negative N b \<and> \<not> BN_is_zero N b \<longleftrightarrow> val b < 0) \<and> (BN_is_zero N b \<longleftrightarrow> val b = 0) \<and>
        nat \<bar>val b\<bar> < 256 ^ BN_num_bytes N b \<and> (BN_num_bytes N b > 0 \<longrightarrow> 256 ^ (BN_num_bytes N b - 1) \<le> nat \<bar>val b\<bar>)) \<and>
     (\<forall>b len. BN_bn2bin_padded N len b = (if nat \<bar>val b\<bar> < 256 ^ len then Some (nat_to_be len (nat \<bar>val b\<bar>)) else None)) \<and>
     (\<forall>bytes b r. BN_bin2bn N bytes b = Some r \<longrightarrow> val r = int (be_to_nat bytes)) \<and>
     (\<forall>b. val (BN_set_negative N b True) = - \<bar>val b\<bar>)"

lemma bn_to_string:
  assumes t: "asn1_int_type C type neg_type" "neg_type = type OR V_NEG C" and N: "bn_lib_ok N val" and ai: "out_wf ai"
  shows "(\<exists>ai'. bn_to_asn1_string N H C bn ai type = Some (False, ai')) \<and>
      \<not> ((\<forall>n. alloc_ok H n) \<and> BN_num_bytes N bn \<le> ASN1_STRING_MAX) \<or>
    (\<exists>x. bn_to_asn1_string N H C bn ai type = Some (True, Some x) \<and> int_normal type neg_type x \<and> int_value C x = val bn)"
proof (cases "target H type ai")
  case None
  then have "\<not> (\<forall>n. alloc_ok H n)" using c2i_total(1) [of H type ai] by auto
  with None show ?thesis by (auto simp: bn_to_asn1_string_def target_def)
next
  case (Some ret)
  let ?n = "BN_num_bytes N bn" and ?m = "nat \<bar>val bn\<bar>"
  let ?ret = "ret\<lparr>as_type := if BN_is_negative N bn \<and> \<not> BN_is_zero N bn then type OR V_NEG C else type\<rparr>"
  have wf: "string_wf ?ret" using target_wf [OF ai Some] by (simp add: string_wf_def)
  have m: "?m < 256 ^ ?n" "?n > 0 \<Longrightarrow> 256 ^ (?n - 1) \<le> ?m" "BN_bn2bin_padded N ?n bn = Some (nat_to_be ?n ?m)"
    "BN_is_negative N bn \<and> \<not> BN_is_zero N bn \<longleftrightarrow> val bn < 0"
    using N unfolding bn_lib_ok_def by (blast, blast, metis, blast)
  show ?thesis
  proof (cases "set_room H ?ret ?n")
    case True
    then obtain block where b: "?n < length block" "ASN1_STRING_set H ?ret None (int ?n) = Some (True, ?ret\<lparr>as_data := Some block, as_length := ?n\<rparr>)"
      using string_set_none(2) [OF wf True] by blast
    let ?x = "?ret\<lparr>as_length := ?n, as_data := Some (nat_to_be ?n ?m @ drop ?n block)\<rparr>"
    have "bn_to_asn1_string N H C bn ai type = Some (True, Some ?x)"
      using Some b m(3) by (simp add: bn_to_asn1_string_def target_def Let_def)
    moreover have bytes: "string_bytes ?x = nat_to_be ?n ?m" by (simp add: string_bytes_def)
    have "hd (nat_to_be ?n ?m) \<noteq> 0" if ne: "nat_to_be ?n ?m \<noteq> []"
    proof -
      from ne have n: "?n > 0" by (simp flip: length_0_conv)
      from ne obtain c r where c: "nat_to_be ?n ?m = c # r" unfolding neq_Nil_conv by blast
      have "length r = ?n - 1" using arg_cong [OF c, of length] by simp
      moreover have "be_to_nat (c # r) = ?m" using m(1) by (simp flip: c)
      ultimately show ?thesis using be_hd_le [of 1 r c] m(2) [OF n] c by auto
    qed
    then have "int_normal type neg_type ?x" using b(1) t(2) unfolding int_normal_def bytes by (auto simp: string_wf_def)
    moreover have "int_value C ?x = val bn"
      using asn1_int_type.type_sign [OF t(1)] m(1,4) t(2) unfolding int_value_def bytes by auto
    ultimately show ?thesis by blast
  next
    case False
    then have "\<not> ((\<forall>n. alloc_ok H n) \<and> ?n \<le> ASN1_STRING_MAX)" using c2i_total(2) [of H ?n ?ret] by blast
    moreover have "\<exists>ai'. bn_to_asn1_string N H C bn ai type = Some (False, ai')"
      using Some string_set_none(1) [OF wf False] by (simp add: bn_to_asn1_string_def target_def Let_def)
    ultimately show ?thesis by blast
  qed
qed

lemma string_to_bn:
  assumes t: "asn1_int_type C type neg_type" and N: "bn_lib_ok N val" and a: "int_normal type neg_type a"
  shows "\<exists>r. asn1_string_to_bn N C a bn type = Some r \<and>
    (case r of None \<Rightarrow> BN_bin2bn N (string_bytes a) bn = None | Some b \<Rightarrow> val b = int_value C a)"
proof -
  have plain: "as_type a AND NOT (V_NEG C) = type" and wf: "string_wf a"
    using a asn1_int_type.type_plain [OF t] by (auto simp: int_normal_def)
  have n: "val (BN_set_negative N b True) = - \<bar>val b\<bar>" for b using N unfolding bn_lib_ok_def by blast
  have bin: "val r = int (be_to_nat bytes)" if "BN_bin2bn N bytes b = Some r" for bytes b r
    using N that unfolding bn_lib_ok_def by blast
  show ?thesis
    by (cases "BN_bin2bn N (string_bytes a) bn")
      (auto simp: asn1_string_to_bn_def plain get_bytes_wf [OF wf] int_value_def n dest: bin)
qed

lemma bignum_types:
  assumes "asn1_consts_ok C"
  shows "asn1_int_type C (V_INTEGER C) (V_NEG_INTEGER C)" "asn1_int_type C (V_ENUMERATED C) (V_NEG_ENUMERATED C)"
    "V_NEG_INTEGER C = V_INTEGER C OR V_NEG C" "V_NEG_ENUMERATED C = V_ENUMERATED C OR V_NEG C"
  using asn1_int_ops.axioms(1) [OF integer_ops [OF assms]] asn1_int_ops.axioms(1) [OF enumerated_ops [OF assms]] assms
  by (simp_all add: asn1_consts_ok_def)

text \<open>
  C32: Big numbers go through ASN.1 integers unchanged, for INTEGER and ENUMERATED and for every implementation of big
  numbers that does what its header documents. \<open>BN_to_ASN1_INTEGER\<close> fills any string, or a new one, with the
  magnitude without leading zeros and the type that has the sign, and fails only if memory runs out or the number has
  more than 64 MiB. \<open>ASN1_INTEGER_to_BN\<close> of a string of the type that has no leading zeros returns its number, unless there is no memory for
  it. Neither accesses anything outside of the string.\<close>
theorem asn1_bignum_exact:
  fixes N :: "'b bn_lib"
  assumes C: "asn1_consts_ok C" and N: "bn_lib_ok N val" and ai: "out_wf ai" and a: "int_normal type neg_type a"
    and ops: "(to_asn1, to_bn, type, neg_type) \<in>
      {(BN_to_ASN1_INTEGER N H C, ASN1_INTEGER_to_BN N C, V_INTEGER C, V_NEG_INTEGER C),
       (BN_to_ASN1_ENUMERATED N H C, ASN1_ENUMERATED_to_BN N C, V_ENUMERATED C, V_NEG_ENUMERATED C)}"
  shows "((\<exists>ai'. to_asn1 bn ai = Some (False, ai')) \<and> \<not> ((\<forall>n. alloc_ok H n) \<and> BN_num_bytes N bn \<le> ASN1_STRING_MAX) \<or>
      (\<exists>x. to_asn1 bn ai = Some (True, Some x) \<and> int_normal type neg_type x \<and> int_value C x = val bn)) \<and>
    (\<exists>r. to_bn a bn' = Some r \<and>
       (case r of None \<Rightarrow> BN_bin2bn N (string_bytes a) bn' = None | Some b \<Rightarrow> val b = int_value C a))"
proof -
  have "to_asn1 bn ai = bn_to_asn1_string N H C bn ai type" "to_bn a bn' = asn1_string_to_bn N C a bn' type"
    and t: "asn1_int_type C type neg_type" "neg_type = type OR V_NEG C"
    using ops bignum_types [OF C]
    by (auto simp: BN_to_ASN1_INTEGER_def BN_to_ASN1_ENUMERATED_def ASN1_INTEGER_to_BN_def ASN1_ENUMERATED_to_BN_def)
  with bn_to_string [OF t N ai, of H bn] string_to_bn [OF t(1) N a, of bn'] show ?thesis by simp
qed

text \<open>Integers are big numbers.\<close>

definition bn_int :: "int bn_lib" where
  "bn_int = \<lparr>BN_is_negative = (\<lambda>b. b < 0), BN_is_zero = (\<lambda>b. b = 0),
     BN_num_bytes = (\<lambda>b. length (skip_zeros (nat_to_be (nat \<bar>b\<bar>) (nat \<bar>b\<bar>)))),
     BN_bn2bin_padded = (\<lambda>len b. if nat \<bar>b\<bar> < 256 ^ len then Some (nat_to_be len (nat \<bar>b\<bar>)) else None),
     BN_bin2bn = (\<lambda>bytes b. Some (int (be_to_nat bytes))), BN_set_negative = (\<lambda>b neg. if neg then - \<bar>b\<bar> else \<bar>b\<bar>)\<rparr>"

lemma bn_int_ok: "bn_lib_ok bn_int id"
proof -
  have min: "m < 256 ^ length (skip_zeros (nat_to_be m m)) \<and>
    (length (skip_zeros (nat_to_be m m)) > 0 \<longrightarrow> 256 ^ (length (skip_zeros (nat_to_be m m)) - 1) \<le> m)" for m :: nat
  proof -
    let ?s = "skip_zeros (nat_to_be m m)"
    have "m < 2 ^ m" by (rule less_exp)
    also have "\<dots> \<le> 256 ^ m" by (rule power_mono) simp_all
    finally have be: "be_to_nat ?s = m" by (simp add: skip_zeros_value)
    then have "m < 256 ^ length ?s" using be_to_nat_less [of ?s] by simp
    moreover have "256 ^ (length ?s - 1) \<le> m" if "length ?s > 0"
      using skip_zeros_cases [of "nat_to_be m m"] that be be_hd_le [of 1 "tl ?s" "hd ?s"] by (auto simp: Suc_le_eq unat_gt_0)
    ultimately show ?thesis by blast
  qed
  have "256 ^ (length (skip_zeros (nat_to_be (nat \<bar>b\<bar>) (nat \<bar>b\<bar>))) - Suc 0) \<le> \<bar>b\<bar>"
    if "skip_zeros (nat_to_be (nat \<bar>b\<bar>) (nat \<bar>b\<bar>)) \<noteq> []" for b :: int
    using min [of "nat \<bar>b\<bar>"] that by simp
  with min show ?thesis unfolding bn_lib_ok_def bn_int_def by auto
qed

theorem asn1_bignum_exact_witness:
  "\<exists>x. BN_to_ASN1_INTEGER bn_int heap_total asn1_consts_std (- 300) None = Some (True, Some x) \<and> int_value asn1_consts_std x = - 300"
proof -
  let ?a = "\<lparr>as_length = 1, as_type = 2, as_data = Some [5], as_flags = 0\<rparr> :: ASN1_STRING"
  have a: "int_normal (V_INTEGER asn1_consts_std) (V_NEG_INTEGER asn1_consts_std) ?a"
    by (simp add: int_normal_def string_wf_def string_bytes_def asn1_consts_std_def)
  have o: "out_wf None" by (simp add: out_wf_def)
  have "BN_num_bytes bn_int (- 300) \<le> 300"
  proof -
    have "length (skip_zeros bs) \<le> length bs" for bs by (induction bs) simp_all
    from this [of "nat_to_be 300 300"] show ?thesis by (simp add: bn_int_def)
  qed
  then show ?thesis using asn1_bignum_exact [OF asn1_consts_std_ok bn_int_ok o a insertI1, of heap_total "- 300" None]
    by (auto simp: heap_total_def)
qed

end
