(* ===== verification/ASN1_Bits.thy ===== *)
theory ASN1_Bits
  imports ASN1_Int_Thms
begin

text \<open>
  Bit strings as sequences of bits: reading, setting and checking single bits, and the contents of the encoding, which
  start with the number of unused bits of the last byte.
\<close>

section \<open>Bits of bytes\<close>

text \<open>Bit \<open>n\<close> of a byte sequence, from the most significant bit of the first byte.\<close>

definition bit_at :: "u8 list \<Rightarrow> nat \<Rightarrow> bool" where
  "bit_at bs n \<longleftrightarrow> n div 8 < length bs \<and> bit (bs ! (n div 8)) (7 - n mod 8)"

definition string_bit :: "ASN1_STRING \<Rightarrow> nat \<Rightarrow> bool" where
  "string_bit a n = bit_at (string_bytes a) n"

lemma bit_position:
  assumes "j < 8"
  shows "(8 * i + (7 - j)) div 8 = i" "7 - (8 * i + (7 - j)) mod 8 = (j :: nat)"
proof -
  have "(8 * i + (7 - j)) mod 8 = 7 - j" unfolding mod_mult_self4 by simp
  then show "7 - (8 * i + (7 - j)) mod 8 = j" using assms by linarith
  show "(8 * i + (7 - j)) div 8 = i" by simp
qed

lemma and_push_bit_1: "(b :: u8) AND push_bit k 1 \<noteq> 0 \<longleftrightarrow> bit b k"
  by (simp add: push_bit_of_1 and_exp_eq_0_iff_not_bit)

lemma bit_at_zeros: "bit_at (bs @ replicate k 0) n = bit_at bs n"
  by (auto simp: bit_at_def nth_append)

lemma trim_len_le: "trim_len d n \<le> n"
  by (induction n) auto

lemma trim_len_bits: "n \<le> length d \<Longrightarrow> bit_at (take (trim_len d n) d) m = bit_at (take n d) m"
proof (induction n)
  case (Suc n)
  then have t: "take (Suc n) d = take n d @ [d ! n]" by (simp add: take_Suc_conv_app_nth)
  show ?case using Suc bit_at_zeros [of "take n d" 1 m] by (auto simp: t)
qed simp

lemma trim_len_last: "0 < trim_len d n \<Longrightarrow> d ! (trim_len d n - 1) \<noteq> 0"
  by (induction n) auto

lemma bit_at_update:
  assumes "n div 8 < length bs"
  shows "bit_at (bs [n div 8 := ((bs ! (n div 8)) AND NOT (push_bit (7 - n mod 8) 1)) OR (if val then push_bit (7 - n mod 8) 1 else 0)]) m =
    (if m = n then val else bit_at bs m)"
proof (cases "m div 8 = n div 8")
  case True
  have "7 - m mod 8 = 7 - n mod 8 \<longleftrightarrow> m mod 8 = n mod 8" using mod_less_divisor [of 8 m] mod_less_divisor [of 8 n] by linarith
  then have "7 - m mod 8 = 7 - n mod 8 \<longleftrightarrow> m = n" using True by (metis div_mult_mod_eq)
  then show ?thesis using True assms by (auto simp: bit_at_def bit_simps)
next
  case False
  then have "m \<noteq> n" by auto
  with False show ?thesis by (simp add: bit_at_def)
qed

section \<open>Reading, setting and checking bits\<close>

lemma get_bit: "string_wf a \<Longrightarrow> ASN1_BIT_STRING_get_bit (Some a) n = Some (string_bit a n)"
  by (cases "as_data a")
    (auto simp: ASN1_BIT_STRING_get_bit_def string_wf_def string_bit_def string_bytes_def bit_at_def and_exp_eq_0_iff_not_bit push_bit_of_1 Let_def)

lemma bits_check_loop_iff: "bits_check_loop d f n \<longleftrightarrow> (\<forall>i<n. d ! i AND (if i < length f then NOT (f ! i) else 0xff) = 0)"
  by (induction n) (auto simp: less_Suc_eq)

lemma mask_zero_iff: "(b :: u8) AND (if c then NOT f else 0xff) = 0 \<longleftrightarrow> (\<forall>j<8. bit b j \<longrightarrow> c \<and> bit f j)"
proof -
  have "b AND m = 0 \<longleftrightarrow> (\<forall>j<8. \<not> (bit b j \<and> bit m j))" for m :: u8
    by (auto simp: bit_eq_iff bit_and_iff dest: bit_imp_le_length)
  moreover have "bit (0xff :: u8) j" if "j < 8" for j using that bit_mask_iff [of 8 j, where ?'a = "8 word"] by (simp add: mask_numeral)
  ultimately show ?thesis by (auto simp: bit_not_iff)
qed

lemma all_bits:
  "(\<forall>n. bit_at bs n \<longrightarrow> bit_at f n) \<longleftrightarrow> (\<forall>i<length bs. \<forall>j<8. bit (bs ! i) j \<longrightarrow> i < length f \<and> bit (f ! i) j)" (is "?L = ?R")
proof
  assume L: ?L
  show ?R
  proof (intro allI impI)
    fix i j :: nat
    assume h: "i < length bs" "j < 8" "bit (bs ! i) j"
    note n = bit_position [OF h(2), of i]
    show "i < length f \<and> bit (f ! i) j" using spec [OF L, of "8 * i + (7 - j)"] h unfolding bit_at_def n by simp
  qed
next
  assume R: ?R
  show ?L
  proof (intro allI impI)
    fix n
    assume "bit_at bs n"
    with R [rule_format, of "n div 8" "7 - n mod 8"] show "bit_at f n" by (simp add: bit_at_def)
  qed
qed

lemma check_bits: "string_wf a \<Longrightarrow> ASN1_BIT_STRING_check (Some a) flags = Some (\<forall>n. string_bit a n \<longrightarrow> bit_at flags n)"
  unfolding string_bit_def all_bits
  by (cases "as_data a")
    (auto simp: ASN1_BIT_STRING_check_def string_wf_def string_bytes_def bits_check_loop_iff mask_zero_iff)

text \<open>The flags without the number of unused bits.\<close>

definition clear_left :: "asn1_consts \<Rightarrow> ASN1_STRING \<Rightarrow> ASN1_STRING" where
  "clear_left C a = a\<lparr>as_flags := as_flags a AND NOT (FLAG_BITS_LEFT C OR 0x07)\<rparr>"

lemma clear_left_simps [simp]:
  "string_wf (clear_left C a) = string_wf a" "string_bytes (clear_left C a) = string_bytes a"
  "string_bit (clear_left C a) n = string_bit a n" "as_length (clear_left C a) = as_length a" "as_data (clear_left C a) = as_data a"
  "as_type (clear_left C a) = as_type a"
  by (simp_all add: clear_left_def string_wf_def string_bytes_def string_bit_def)

text \<open>Writing the bit into data that have its byte.\<close>

definition put_bit :: "ASN1_STRING \<Rightarrow> nat \<Rightarrow> bool \<Rightarrow> u8 list \<Rightarrow> ASN1_STRING" where
  "put_bit a n val d =
     (let d' = d [n div 8 := ((d ! (n div 8)) AND NOT (push_bit (7 - n mod 8) 1)) OR (if val then push_bit (7 - n mod 8) 1 else 0)] in
      a\<lparr>as_data := Some d', as_length := trim_len d' (as_length a)\<rparr>)"

lemma put_bit_bits:
  assumes "as_length a \<le> length d" "n div 8 < as_length a"
  shows "string_wf (put_bit a n val d)" "string_bit (put_bit a n val d) m = (if m = n then val else bit_at (take (as_length a) d) m)"
proof -
  let ?x = "((d ! (n div 8)) AND NOT (push_bit (7 - n mod 8) 1)) OR (if val then push_bit (7 - n mod 8) 1 else 0)"
  let ?d = "d [n div 8 := ?x]"
  have l: "trim_len ?d (as_length a) \<le> length d" using trim_len_le [of ?d "as_length a"] assms(1) by simp
  then show "string_wf (put_bit a n val d)" by (simp add: put_bit_def string_wf_def Let_def)
  have "string_bit (put_bit a n val d) m = bit_at (take (as_length a) ?d) m"
    using trim_len_bits [of "as_length a" ?d m] assms(1) by (simp add: put_bit_def string_bit_def string_bytes_def Let_def)
  also have "take (as_length a) ?d = (take (as_length a) d) [n div 8 := ((take (as_length a) d ! (n div 8)) AND NOT (push_bit (7 - n mod 8) 1)) OR (if val then push_bit (7 - n mod 8) 1 else 0)]"
    using assms by (simp add: take_update_swap)
  finally show "string_bit (put_bit a n val d) m = (if m = n then val else bit_at (take (as_length a) d) m)"
    using bit_at_update [of n "take (as_length a) d" val m] assms by simp
qed

lemma set_bit_eq:
  assumes a: "string_wf a"
  shows "n div 8 < as_length a \<Longrightarrow> ASN1_BIT_STRING_set_bit H C (Some a) n val =
      Some (True, Some (put_bit (clear_left C a) n val (the (as_data a))))"
    and "as_length a \<le> n div 8 \<Longrightarrow> ASN1_BIT_STRING_set_bit H C (Some a) n val =
      (if \<not> val then Some (True, Some (clear_left C a))
       else if \<not> alloc_ok H (n div 8 + 1) then Some (False, Some (clear_left C a))
       else Some (True, Some (put_bit ((clear_left C a)\<lparr>as_length := n div 8 + 1\<rparr>) n val
         (string_bytes a @ replicate (n div 8 + 1 - as_length a) 0))))"
proof -
  show "ASN1_BIT_STRING_set_bit H C (Some a) n val = Some (True, Some (put_bit (clear_left C a) n val (the (as_data a))))"
    if "n div 8 < as_length a"
    using that a by (auto simp: ASN1_BIT_STRING_set_bit_def clear_left_def string_wf_def put_bit_def Let_def split: option.splits)
  assume l: "as_length a \<le> n div 8"
  have c: "take (as_length a) c = string_bytes a" if "resize_block H (as_data a) (n div 8 + 1) = Some c" for c
    using that a l by (auto simp: resize_block_def string_wf_def string_bytes_def split: option.splits if_splits)
  show "ASN1_BIT_STRING_set_bit H C (Some a) n val =
      (if \<not> val then Some (True, Some (clear_left C a))
       else if \<not> alloc_ok H (n div 8 + 1) then Some (False, Some (clear_left C a))
       else Some (True, Some (put_bit ((clear_left C a)\<lparr>as_length := n div 8 + 1\<rparr>) n val
         (string_bytes a @ replicate (n div 8 + 1 - as_length a) 0))))"
  proof (cases "resize_block H (as_data a) (n div 8 + 1)")
    case None
    then have "\<not> alloc_ok H (n div 8 + 1)" by (auto simp: resize_block_def split: option.splits if_splits)
    then show ?thesis using l None by (simp add: ASN1_BIT_STRING_set_bit_def clear_left_def Let_def)
  next
    case (Some c)
    then have "alloc_ok H (n div 8 + 1)" by (auto simp: resize_block_def split: if_splits)
    then show ?thesis using l Some c [OF Some] length_string_bytes [OF a]
      by (simp add: ASN1_BIT_STRING_set_bit_def clear_left_def put_bit_def Let_def)
  qed
qed

lemma set_bit_cases:
  assumes a: "string_wf a"
  shows "ASN1_BIT_STRING_set_bit H C (Some a) n val = Some (False, Some (clear_left C a)) \<and> \<not> alloc_ok H (n div 8 + 1) \<or>
    (\<exists>x. ASN1_BIT_STRING_set_bit H C (Some a) n val = Some (True, Some x) \<and> string_wf x \<and>
       (\<forall>m. string_bit x m = (if m = n then val else string_bit a m)))"
proof (cases "n div 8 < as_length a")
  case True
  then obtain d where d: "as_data a = Some d" "as_length a \<le> length d" using a by (cases "as_data a") (auto simp: string_wf_def)
  have "bit_at (take (as_length a) d) m = string_bit a m" for m by (simp add: string_bit_def string_bytes_def d(1))
  with put_bit_bits [of "clear_left C a" d n val] True d set_bit_eq(1) [OF a True, of H C val] show ?thesis by auto
next
  case False
  then have l: "as_length a \<le> n div 8" by simp
  have no: "\<not> string_bit a n" using l length_string_bytes [OF a] by (simp add: string_bit_def bit_at_def)
  let ?a = "(clear_left C a)\<lparr>as_length := n div 8 + 1\<rparr>" and ?d = "string_bytes a @ replicate (n div 8 + 1 - as_length a) 0"
  have "bit_at (take (as_length ?a) ?d) m = string_bit a m" for m
    using l bit_at_zeros by (simp add: string_bit_def length_string_bytes [OF a])
  moreover have "as_length ?a \<le> length ?d" "n div 8 < as_length ?a" using l by (simp_all add: length_string_bytes [OF a])
  ultimately show ?thesis using put_bit_bits [of ?a ?d n val] set_bit_eq(2) [OF a l, of H C val] no a by (cases val) auto
qed

text \<open>
  C27: Bit strings are sequences of bits. On any string whose length is inside its block, reading and setting a bit and checking against a
  set of allowed bits stay inside the block. Reading returns the bit, which is clear past the end. Setting
  gives a string with the new value at the position and all other bits as before, whether it has to grow the string, leaves it alone or removes zero bytes
  at its end, so that a read of any position afterwards is predicted; it fails only if memory runs out, and
  keeps the bits then. The check passes exactly if all bits of the string are among the flags.\<close>
theorem bit_string_bits_exact:
  assumes a: "string_wf a"
  shows "ASN1_BIT_STRING_get_bit (Some a) n = Some (string_bit a n) \<and>
    ASN1_BIT_STRING_check (Some a) flags = Some (\<forall>n. string_bit a n \<longrightarrow> bit_at flags n) \<and>
    (\<exists>ok x. ASN1_BIT_STRING_set_bit H C (Some a) n val = Some (ok, Some x) \<and> string_wf x \<and>
       (ok \<or> \<not> alloc_ok H (n div 8 + 1)) \<and>
       (\<forall>m. ASN1_BIT_STRING_get_bit (Some x) m = Some (if m = n \<and> ok then val else string_bit a m)))"
proof -
  have "\<exists>ok x. ASN1_BIT_STRING_set_bit H C (Some a) n val = Some (ok, Some x) \<and> string_wf x \<and>
       (ok \<or> \<not> alloc_ok H (n div 8 + 1)) \<and>
       (\<forall>m. ASN1_BIT_STRING_get_bit (Some x) m = Some (if m = n \<and> ok then val else string_bit a m))"
    using set_bit_cases [OF a, of H C n val] get_bit [of "clear_left C a"] get_bit a by fastforce
  with get_bit [OF a] check_bits [OF a] show ?thesis by blast
qed

theorem bit_string_bits_exact_witness:
  "\<exists>ok x. ASN1_BIT_STRING_set_bit heap_total asn1_consts_std (Some \<lparr>as_length = 1, as_type = 3, as_data = Some [0x80], as_flags = 0\<rparr>) 13 True = Some (ok, Some x) \<and>
     ASN1_BIT_STRING_get_bit (Some x) 13 = Some True \<and> ASN1_BIT_STRING_get_bit (Some x) 0 = Some True \<and>
     ASN1_BIT_STRING_get_bit (Some x) 12 = Some False"
proof -
  let ?a = "\<lparr>as_length = 1, as_type = 3, as_data = Some [0x80], as_flags = 0\<rparr> :: ASN1_STRING"
  have "string_wf ?a" by (simp add: string_wf_def)
  moreover have "string_bit ?a 0" "\<not> string_bit ?a 12" by code_simp+
  moreover have "alloc_ok heap_total n" for n by (simp add: heap_total_def)
  ultimately show ?thesis using bit_string_bits_exact [of ?a 13 "[]" heap_total asn1_consts_std True] by auto
qed

end
