(* ===== verification/ASN1_Bit_Codec.thy ===== *)
theory ASN1_Bit_Codec
  imports ASN1_Bits
begin

text \<open>
  The contents of an encoded bit string, and the functions of \<open>a_bitstr.c\<close> that write and read them.
\<close>

section \<open>Specification\<close>

text \<open>
  The contents start with the number of unused bits at the end, which are zero; the bits follow from the most significant
  bit of the first byte.
\<close>

definition encodes_bits :: "u8 list \<Rightarrow> bool list \<Rightarrow> bool" where
  "encodes_bits enc bl \<longleftrightarrow> enc \<noteq> [] \<and> unat (hd enc) \<le> 7 \<and> 8 * length (tl enc) = length bl + unat (hd enc) \<and>
     (\<forall>n. bit_at (tl enc) n = (n < length bl \<and> bl ! n))"

text \<open>
  The bits a string stands for: with the flag the unused bits are left out, without it all zero bits at the end.
\<close>

definition string_bits :: "asn1_consts \<Rightarrow> ASN1_STRING \<Rightarrow> bool list" where
  "string_bits C a =
     (if as_flags a AND FLAG_BITS_LEFT C \<noteq> 0
      then map (string_bit a) [0..<8 * as_length a - (if as_length a = 0 then 0 else unat (as_flags a AND 7))]
      else rev (dropWhile Not (rev (map (string_bit a) [0..<8 * as_length a]))))"

lemma bytes_eq_bits:
  assumes "length xs = length ys" "\<And>n. bit_at xs n = bit_at ys n"
  shows "xs = ys"
proof (rule nth_equalityI [OF assms(1)])
  fix i
  assume i: "i < length xs"
  show "xs ! i = ys ! i"
  proof (rule bit_word_eqI)
    fix j
    assume "j < LENGTH(8)"
    then have "j < 8" by simp
    note n = bit_position [OF this, of i]
    show "bit (xs ! i) j = bit (ys ! i) j" using assms(2) [of "8 * i + (7 - j)"] i assms(1) unfolding bit_at_def n by simp
  qed
qed

lemma encodes_unique: "encodes_bits x bl \<Longrightarrow> encodes_bits y bl \<Longrightarrow> x = y"
proof -
  assume x: "encodes_bits x bl" and y: "encodes_bits y bl"
  have h: "unat (hd x) \<le> 7" "unat (hd y) \<le> 7" "8 * length (tl x) = length bl + unat (hd x)" "8 * length (tl y) = length bl + unat (hd y)"
    using x y by (simp_all add: encodes_bits_def)
  then have "\<not> length (tl x) < length (tl y)" "\<not> length (tl y) < length (tl x)" by linarith+
  then have "length (tl x) = length (tl y)" by linarith
  with h have "unat (hd x) = unat (hd y) \<and> length (tl x) = length (tl y)" by linarith
  moreover from this have "tl x = tl y" using x y by (intro bytes_eq_bits) (simp_all add: encodes_bits_def)
  ultimately show ?thesis using x y by (cases x; cases y) (auto simp: encodes_bits_def byte_eq_iff)
qed

lemma strip_bits:
  assumes "N \<le> M" "N = 0 \<or> f (N - 1)" "\<And>n. N \<le> n \<Longrightarrow> n < M \<Longrightarrow> \<not> f n"
  shows "rev (dropWhile Not (rev (map f [0..<M]))) = map f [0..<N]"
proof -
  have "[0..<M] = [0..<N] @ [N..<M]" using assms(1) upt_add_eq_append [of 0 N "M - N"] by simp
  moreover have "dropWhile Not (rev (map f [0..<N])) = rev (map f [0..<N])"
    using assms(2) by (cases N) simp_all
  moreover have "dropWhile Not (rev (map f [N..<M]) @ xs) = dropWhile Not xs" for xs
    using assms(3) by (intro dropWhile_append2) auto
  ultimately show ?thesis by simp
qed

section \<open>Writing\<close>

lemma last_padding:
  assumes "b \<noteq> 0"
  shows "last_padding b \<le> 7 \<and> bit b (last_padding b) \<and> (\<forall>j<last_padding b. \<not> bit b j)"
proof (cases "find (\<lambda>p. b AND push_bit p 1 \<noteq> 0) [0..<7]")
  case None
  then have z: "\<not> bit b j" if "j < 7" for j using that by (auto simp: find_None_iff push_bit_of_1 and_exp_eq_0_iff_not_bit)
  have "bit b 7"
  proof (rule ccontr)
    assume "\<not> bit b 7"
    then have "\<not> bit b j" if "j < 8" for j using z [of j] that by (cases "j = 7") auto
    then have "b = 0" by (intro bit_word_eqI) simp
    with assms show False ..
  qed
  with None z show ?thesis by (simp add: last_padding_def)
next
  case (Some p)
  then have "p < 7" "bit b p" "\<forall>j<p. \<not> bit b j" unfolding find_Some_iff by (auto simp: push_bit_of_1 and_exp_eq_0_iff_not_bit)
  with Some show ?thesis by (simp add: last_padding_def)
qed

lemma mask_last_bits:
  assumes "bs \<noteq> []" "p \<le> 7"
  shows "bit_at (bs [length bs - 1 := (bs ! (length bs - 1)) AND push_bit p 0xff]) n \<longleftrightarrow> n < 8 * length bs - p \<and> bit_at bs n"
proof -
  have ff: "bit (0xff :: u8) j \<longleftrightarrow> j < 8" for j using bit_mask_iff [of 8 j, where ?'a = "8 word"] by (auto simp: mask_numeral)
  have m: "bit (x AND push_bit p 0xff) j \<longleftrightarrow> bit x j \<and> p \<le> j" if "j < 8" for x :: u8 and j
    using that ff [of "j - p"] by (auto simp: bit_simps)
  have less: "n < 8 * length bs - p \<longleftrightarrow> p \<le> 7 - n mod 8" if "n div 8 = length bs - 1"
  proof -
    have "n = 8 * (length bs - 1) + n mod 8" using that by (metis mult_div_mod_eq)
    moreover have "0 < length bs" "n mod 8 < 8" using assms by simp_all
    ultimately show ?thesis by linarith
  qed
  show ?thesis
  proof (cases "n div 8 = length bs - 1")
    case True
    then show ?thesis using assms less [OF True] m [of "7 - n mod 8"] by (auto simp: bit_at_def)
  next
    case False
    then have "n < 8 * length bs - p" if "n div 8 < length bs" using that assms(2) by linarith
    with False show ?thesis by (auto simp: bit_at_def)
  qed
qed

lemma trim_len_zeros: "n \<le> length d \<Longrightarrow> trim_len d n \<le> i \<Longrightarrow> i < n \<Longrightarrow> d ! i = 0"
  by (induction n) (auto simp: less_Suc_eq split: if_splits)

text \<open>The length and the number of unused bits delimit the bits of the string.\<close>

lemma bit_string_length:
  assumes C: "asn1_consts_ok C" and a: "string_wf a"
  obtains len p where "asn1_bit_string_length C a = Some (len, p)" "len \<le> as_length a" "p \<le> 7" "len = 0 \<longrightarrow> p = 0"
    "string_bits C a = map (string_bit a) [0..<8 * len - p]"
proof (cases "as_flags a AND FLAG_BITS_LEFT C = 0")
  case True
  let ?d = "string_bytes a" and ?n = "as_length a"
  note l = length_string_bytes [OF a]
  define len p where "len = trim_len ?d ?n" and "p = (if len > 0 then last_padding (?d ! (len - 1)) else 0)"
  have le: "len \<le> ?n" unfolding len_def by (rule trim_len_le)
  have p: "p \<le> 7 \<and> bit (?d ! (len - 1)) p \<and> (\<forall>j<p. \<not> bit (?d ! (len - 1)) j)" if "len > 0"
    using last_padding [OF trim_len_last [of ?d ?n]] that by (simp add: p_def len_def)
  have "rev (dropWhile Not (rev (map (string_bit a) [0..<8 * ?n]))) = map (string_bit a) [0..<8 * len - p]"
  proof (rule strip_bits)
    show "8 * len - p \<le> 8 * ?n" using le by linarith
    show "8 * len - p = 0 \<or> string_bit a (8 * len - p - 1)"
    proof (cases "len > 0")
      case True
      then have n: "8 * len - p - 1 = 8 * (len - 1) + (7 - p)" and p8: "p < 8" using p by linarith+
      have "string_bit a (8 * (len - 1) + (7 - p))"
        unfolding string_bit_def bit_at_def bit_position [OF p8] using p [OF True] True le l by auto
      then show ?thesis unfolding n by blast
    qed simp
    show "\<not> string_bit a n" if n: "8 * len - p \<le> n" "n < 8 * ?n" for n
    proof (cases "n div 8 < len")
      case True
      then have len: "len > 0" by linarith
      then have i: "n div 8 = len - 1" using True n(1) p by linarith
      moreover have "n = 8 * (n div 8) + n mod 8" "n mod 8 < 8" by simp_all
      ultimately have "7 - n mod 8 < p" using n(1) p [OF len] len by linarith
      with p [OF len] i show ?thesis by (simp add: string_bit_def bit_at_def)
    next
      case False
      then have "?d ! (n div 8) = 0" using n(2) l by (intro trim_len_zeros [of ?n]) (simp_all add: len_def)
      then show ?thesis by (simp add: string_bit_def bit_at_def)
    qed
  qed
  then have "string_bits C a = map (string_bit a) [0..<8 * len - p]" using True by (simp add: string_bits_def)
  moreover have "asn1_bit_string_length C a = Some (len, p)"
    using True by (simp add: asn1_bit_string_length_def get_bytes_wf [OF a] len_def p_def Let_def)
  moreover have "p \<le> 7" "len = 0 \<longrightarrow> p = 0" using p by (auto simp: p_def)
  ultimately show ?thesis using le that by blast
next
  case False
  have "unat (as_flags a AND 7) = unat (as_flags a) mod 8"
    using unat_take_bit_mod [of 3 "as_flags a"] by (simp add: take_bit_eq_mask mask_numeral)
  then have "unat (as_flags a AND 7) \<le> 7" using mod_less_divisor [of 8 "unat (as_flags a)"] by linarith
  with False show ?thesis
    by (intro that [of "as_length a" "if as_length a = 0 then 0 else unat (as_flags a AND 7)"])
      (simp_all add: asn1_bit_string_length_def string_bits_def Let_def)
qed

lemma i2c_bits:
  assumes C: "asn1_consts_ok C" and a: "string_wf a" "as_length a < INT_MAX"
  shows "\<exists>enc. encodes_bits enc (string_bits C a) \<and>
    (\<forall>pp. i2c_ASN1_BIT_STRING C (Some a) pp = Some (length enc, if pp then enc else []))"
proof -
  obtain len p where r: "asn1_bit_string_length C a = Some (len, p)" "len \<le> as_length a" "p \<le> 7" "len = 0 \<longrightarrow> p = 0"
    "string_bits C a = map (string_bit a) [0..<8 * len - p]"
    by (rule bit_string_length [OF C a(1)])
  let ?bs = "take len (string_bytes a)"
  have l: "length ?bs = len" using r(2) by (simp add: length_string_bytes [OF a(1)])
  define x where "x = (if len > 0 then ?bs [len - 1 := (?bs ! (len - 1)) AND push_bit p 0xff] else ?bs)"
  have x: "bit_at x n \<longleftrightarrow> n < 8 * len - p \<and> string_bit a n" for n
  proof (cases "len > 0")
    case True
    then have "?bs \<noteq> []" using l by auto
    moreover have "bit_at ?bs n = string_bit a n" if "n < 8 * len - p"
    proof -
      have "n div 8 < len" using that by linarith
      with r(2) show ?thesis by (simp add: string_bit_def bit_at_def length_string_bytes [OF a(1)])
    qed
    ultimately show ?thesis using mask_last_bits [of ?bs p n] r(3) True unfolding x_def l by auto
  next
    case False
    then show ?thesis by (simp add: x_def bit_at_def)
  qed
  have "encodes_bits (word_of_nat p # x) (string_bits C a)"
  proof -
    have lx: "length x = len" unfolding x_def using l by simp
    have e: "8 * len - p + p = 8 * len" using r(3,4) by (cases len) simp_all
    have u: "unat (word_of_nat p :: u8) = p" using r(3) by simp
    have "bit_at x n = (n < 8 * len - p \<and> map (string_bit a) [0..<8 * len - p] ! n)" for n unfolding x by (rule conj_cong) simp_all
    then show ?thesis unfolding encodes_bits_def r(5) list.sel u lx length_map length_upt diff_zero e using r(3) by blast
  qed
  moreover have "\<forall>pp. i2c_ASN1_BIT_STRING C (Some a) pp = Some (length (word_of_nat p # x), if pp then word_of_nat p # x else [])"
    using r(2) a l by (auto simp: i2c_ASN1_BIT_STRING_def r(1) get_bytes_wf [OF a(1)] x_def Let_def)
  ultimately show ?thesis by blast
qed

section \<open>Reading\<close>

lemma and_low_mask: "(b :: u8) AND (push_bit p 1 - 1) = 0 \<longleftrightarrow> (\<forall>j<p. \<not> bit b j)"
proof -
  have "b AND (push_bit p 1 - 1) = take_bit p b" by (simp add: take_bit_eq_mask mask_eq_exp_minus_1 push_bit_of_1)
  moreover have "bit b j \<Longrightarrow> j < 8" for j using bit_imp_le_length [of b j] by simp
  then have "take_bit p b = 0 \<longleftrightarrow> (\<forall>j<p. \<not> bit b j)" by (auto simp: bit_eq_iff bit_take_bit_iff)
  ultimately show ?thesis by simp
qed

text \<open>The condition that \<open>c2i_ASN1_BIT_STRING\<close> checks on the contents.\<close>

definition padding_ok :: "nat \<Rightarrow> u8 list \<Rightarrow> bool" where
  "padding_ok p bs \<longleftrightarrow> p \<le> 7 \<and> \<not> (p \<noteq> 0 \<and> (length bs < 1 \<or> (bs ! (length bs - 1)) AND (push_bit p 1 - 1) \<noteq> 0))"

lemma padding_ok_encodes:
  "padding_ok (unat b) bs \<longleftrightarrow> encodes_bits (b # bs) (map (bit_at bs) [0..<8 * length bs - unat b])"
proof (cases "unat b = 0 \<or> bs = []")
  case True
  have "n < 8 * length bs" if "bit_at bs n" for n using that by (auto simp: bit_at_def)
  moreover have "\<not> bit_at [] n" for n by (simp add: bit_at_def)
  ultimately show ?thesis using True by (auto simp: padding_ok_def encodes_bits_def)
next
  case False
  let ?p = "unat b" and ?k = "length bs - 1"
  have k: "length bs = Suc ?k" using False by (cases bs) auto
  have "padding_ok ?p bs \<longleftrightarrow> ?p \<le> 7 \<and> (\<forall>j<?p. \<not> bit (bs ! ?k) j)"
    using False by (auto simp: padding_ok_def and_low_mask [unfolded push_bit_of_1] push_bit_of_1 Suc_le_eq)
  moreover have "(\<forall>j<?p. \<not> bit (bs ! ?k) j) \<longleftrightarrow> (\<forall>n. bit_at bs n \<longrightarrow> n < 8 * length bs - ?p)" if p: "?p \<le> 7"
  proof
    assume z: "\<forall>j<?p. \<not> bit (bs ! ?k) j"
    show "\<forall>n. bit_at bs n \<longrightarrow> n < 8 * length bs - ?p"
    proof (intro allI impI, rule ccontr)
      fix n
      assume b: "bit_at bs n" and n: "\<not> n < 8 * length bs - ?p"
      then have i: "n div 8 < length bs" "bit (bs ! (n div 8)) (7 - n mod 8)" by (simp_all add: bit_at_def)
      have e: "n div 8 = ?k" using i(1) n p k by linarith
      moreover have "n = 8 * (n div 8) + n mod 8" "n mod 8 < 8" by simp_all
      ultimately have "7 - n mod 8 < ?p" using n k by linarith
      with z i(2) e show False by simp
    qed
  next
    assume h: "\<forall>n. bit_at bs n \<longrightarrow> n < 8 * length bs - ?p"
    show "\<forall>j<?p. \<not> bit (bs ! ?k) j"
    proof (intro allI impI notI)
      fix j
      assume j: "j < ?p" "bit (bs ! ?k) j"
      then have j8: "j < 8" using p by simp
      have "bit_at bs (8 * ?k + (7 - j))" unfolding bit_at_def bit_position [OF j8] using j(2) k by simp
      with h have "8 * ?k + (7 - j) < 8 * length bs - ?p" by blast
      then show False using j(1) k p by linarith
    qed
  qed
  moreover have "8 * length bs = 8 * length bs - ?p + ?p" if "?p \<le> 7" using that k by linarith
  ultimately show ?thesis by (auto simp: encodes_bits_def)
qed

lemma encodes_bits_map: "encodes_bits (b # bs) bl \<Longrightarrow> bl = map (bit_at bs) [0..<8 * length bs - unat b]"
  by (rule nth_equalityI) (auto simp: encodes_bits_def)

text \<open>The string that is filled in, with the number of unused bits in its flags.\<close>

definition left_flags :: "asn1_consts \<Rightarrow> nat \<Rightarrow> u64 \<Rightarrow> u64" where
  "left_flags C p flags = (flags AND NOT (FLAG_BITS_LEFT C OR 0x07)) OR (FLAG_BITS_LEFT C OR word_of_nat p)"

lemma left_flags_simps:
  assumes "asn1_consts_ok C" "p \<le> 7"
  shows "left_flags C p flags AND FLAG_BITS_LEFT C \<noteq> 0" "unat (left_flags C p flags AND 7) = p"
proof -
  have c: "FLAG_BITS_LEFT C = 8" using assms(1) by (simp add: asn1_consts_ok_def)
  have z: "NOT (8 OR 7) AND 7 = (0 :: u64)" "8 AND 7 = (0 :: u64)" "NOT (8 OR 7) AND 8 = (0 :: u64)" by code_simp+
  have dist: "left_flags C p flags AND m = (flags AND (NOT (8 OR 7) AND m)) OR ((8 AND m) OR (word_of_nat p AND m))" for m
    unfolding left_flags_def c by (simp only: bit.conj_disj_distrib2 and.assoc)
  have "bit (8 :: u64) 3" by code_simp
  then have "bit (left_flags C p flags AND FLAG_BITS_LEFT C) 3" unfolding dist c z by (simp add: bit_or_iff)
  then show "left_flags C p flags AND FLAG_BITS_LEFT C \<noteq> 0" by auto
  have "left_flags C p flags AND 7 = word_of_nat p AND 7" unfolding dist z by simp
  moreover have "unat (word_of_nat p AND 7 :: u64) = p"
  proof -
    have "unat (word_of_nat p :: u64) = p" using assms(2) by (simp add: unsigned_of_nat take_bit_nat_eq_self)
    then show ?thesis using unat_take_bit_mod [of 3 "word_of_nat p :: u64"] assms(2) by (simp only: take_bit_eq_mask) (simp add: mask_numeral)
  qed
  ultimately show "unat (left_flags C p flags AND 7) = p" by simp
qed

lemma c2i_bits_eq:
  assumes len: "1 \<le> len" "len \<le> int INT_MAX" "nat len \<le> length pp" and pp: "take (nat len) pp = b # bs"
  shows "c2i_ASN1_BIT_STRING H C out pp len =
    (case target H (V_BIT_STRING C) out of
       None \<Rightarrow> Some (False, out, pp)
     | Some ret \<Rightarrow>
         if \<not> padding_ok (unat b) bs then Some (False, out, pp)
         else
           let ret = ret\<lparr>as_flags := left_flags C (unat b) (as_flags ret)\<rparr> in
           if bs \<noteq> [] \<and> \<not> alloc_ok H (length bs) then Some (False, map_option (\<lambda>_. ret) out, pp)
           else Some (True, Some (ret\<lparr>as_length := length bs, as_data := if bs = [] then None else Some bs, as_type := V_BIT_STRING C\<rparr>),
             drop (nat len) pp))"
proof -
  have l: "length (b # bs) = nat len" unfolding pp [symmetric] using len by simp
  then have n: "nat len = Suc (length bs)" by simp
  obtain r where r: "pp = b # bs @ r" using pp append_take_drop_id [of "nat len" pp] by (metis append_Cons)
  have p: "hd pp = b" "take (length bs) (tl pp) = bs" "bs \<noteq> [] \<Longrightarrow> tl pp ! (length bs - Suc 0) = bs ! (length bs - Suc 0)"
    unfolding r by (auto simp: nth_append)
  show ?thesis
    using len unfolding c2i_ASN1_BIT_STRING_def target_def padding_ok_def left_flags_def
    by (auto simp: p n drop_Suc Let_def not_le split: option.splits)
qed

lemma filled_bits:
  assumes C: "asn1_consts_ok C" and p: "padding_ok (unat b) bs"
    and x: "x = ret\<lparr>as_flags := left_flags C (unat b) f, as_length := length bs, as_data := if bs = [] then None else Some bs, as_type := t\<rparr>"
  shows "string_wf x \<and> encodes_bits (b # bs) (string_bits C x)"
proof -
  have u: "unat b \<le> 7" "bs = [] \<Longrightarrow> unat b = 0" using p by (auto simp: padding_ok_def)
  have bytes: "string_bytes x = bs" by (simp add: x string_bytes_def)
  have "string_bits C x = map (bit_at bs) [0..<8 * length bs - unat b]"
    using left_flags_simps [OF C u(1), of f] u(2) by (simp add: string_bits_def string_bit_def [abs_def] bytes) (simp add: x)
  moreover have "string_wf x" by (simp add: x string_wf_def)
  ultimately show ?thesis using p by (simp add: padding_ok_encodes)
qed

text \<open>A string that was not filled in may have other flags.\<close>

definition same_but_flags :: "ASN1_STRING option \<Rightarrow> ASN1_STRING option \<Rightarrow> bool" where
  "same_but_flags a b \<longleftrightarrow> rel_option (\<lambda>s s'. s' = s\<lparr>as_flags := as_flags s'\<rparr>) a b"

lemma same_but_flags_refl [simp]: "same_but_flags a a"
  by (cases a) (simp_all add: same_but_flags_def)

lemma same_but_flags_set:
  "target H t out = Some ret \<Longrightarrow> same_but_flags out (map_option (\<lambda>_. ret\<lparr>as_flags := f\<rparr>) out)"
  by (cases out) (simp_all add: same_but_flags_def target_def)

lemma c2i_bits_cases:
  assumes C: "asn1_consts_ok C" and len: "nat len \<le> length pp"
  defines "cbs \<equiv> take (nat len) pp"
  shows "(\<exists>out'. c2i_ASN1_BIT_STRING H C out pp len = Some (False, out', pp) \<and> same_but_flags out out') \<and>
      \<not> ((\<forall>n. alloc_ok H n) \<and> 1 \<le> len \<and> len \<le> int INT_MAX \<and> (\<exists>bl. encodes_bits cbs bl)) \<or>
    (\<exists>x. c2i_ASN1_BIT_STRING H C out pp len = Some (True, Some x, drop (nat len) pp) \<and> string_wf x \<and>
       as_length x < INT_MAX \<and> encodes_bits cbs (string_bits C x))"
proof (cases "1 \<le> len \<and> len \<le> int INT_MAX")
  case True
  then obtain b bs where bs: "take (nat len) pp = b # bs" using len by (cases "take (nat len) pp") auto
  have l: "length bs < INT_MAX" using arg_cong [OF bs, of length] True len by auto
  have e: "(\<exists>bl. encodes_bits cbs bl) \<longleftrightarrow> padding_ok (unat b) bs"
    unfolding cbs_def bs using padding_ok_encodes [of b bs] encodes_bits_map [of b bs] by auto
  note eq = c2i_bits_eq [OF conjunct1 [OF True] conjunct2 [OF True] len bs, of H C out]
  show ?thesis
  proof (cases "target H (V_BIT_STRING C) out")
    case None
    then have "\<not> (\<forall>n. alloc_ok H n)" using c2i_total(1) [of H] by (metis option.distinct(1))
    with None eq show ?thesis by auto
  next
    case (Some ret)
    show ?thesis
    proof (cases "padding_ok (unat b) bs \<and> (bs \<noteq> [] \<longrightarrow> alloc_ok H (length bs))")
      case True
      then show ?thesis using filled_bits [OF C _ refl, where b = b and bs = bs and ret = ret and f = "as_flags ret" and t = "V_BIT_STRING C"] l
        by (auto simp: eq Some cbs_def bs Let_def)
    next
      case False
      then show ?thesis using e same_but_flags_set [OF Some] by (auto simp: eq Some Let_def)
    qed
  qed
next
  case False
  then show ?thesis by (auto simp: c2i_ASN1_BIT_STRING_def)
qed

text \<open>
  C26: The codec of bit strings is exact in both directions. \<open>i2c_ASN1_BIT_STRING\<close> of any string writes the contents for
  its bits: the number of unused bits, and the bits with zeros in the unused places, whatever the
  string has there; without an output pointer it returns the length. \<open>c2i_ASN1_BIT_STRING\<close> never reads outside the
  input; it fails and changes nothing but flags, or the input was the contents for some
  sequence of bits, and the string has these bits and is turned back by \<open>i2c_ASN1_BIT_STRING\<close> into the
  bytes that were read. It fails on such an input only if memory runs out.\<close>
theorem bit_string_codec:
  assumes C: "asn1_consts_ok C" and len: "nat len \<le> length pp" and a: "string_wf a" "as_length a < INT_MAX"
  shows "(\<exists>enc. encodes_bits enc (string_bits C a) \<and>
      (\<forall>pp. i2c_ASN1_BIT_STRING C (Some a) pp = Some (length enc, if pp then enc else []))) \<and>
    (let cbs = take (nat len) pp; r = c2i_ASN1_BIT_STRING H C out pp len in
     (\<exists>out'. r = Some (False, out', pp) \<and> same_but_flags out out') \<and>
       \<not> ((\<forall>n. alloc_ok H n) \<and> 1 \<le> len \<and> len \<le> int INT_MAX \<and> (\<exists>bl. encodes_bits cbs bl)) \<or>
     (\<exists>x. r = Some (True, Some x, drop (nat len) pp) \<and> string_wf x \<and> encodes_bits cbs (string_bits C x) \<and>
        i2c_ASN1_BIT_STRING C (Some x) True = Some (nat len, cbs)))"
proof -
  let ?cbs = "take (nat len) pp"
  have i2c: "i2c_ASN1_BIT_STRING C (Some x) True = Some (nat len, ?cbs)"
    if x: "string_wf x" "as_length x < INT_MAX" "encodes_bits ?cbs (string_bits C x)" for x
  proof -
    obtain enc where "encodes_bits enc (string_bits C x)" "i2c_ASN1_BIT_STRING C (Some x) True = Some (length enc, enc)"
      using i2c_bits [OF C x(1,2)] by auto
    with encodes_unique [OF this(1) x(3)] len show ?thesis by simp
  qed
  show ?thesis using i2c_bits [OF C a] c2i_bits_cases [OF C len, of H out] i2c unfolding Let_def by blast
qed

text \<open>The witness reads five bits and writes three from a string with garbage after them.\<close>

theorem bit_string_codec_witness:
  "(\<exists>enc. encodes_bits enc [True, False, True] \<and>
      i2c_ASN1_BIT_STRING asn1_consts_std (Some \<lparr>as_length = 1, as_type = 3, as_data = Some [0xbf, 7], as_flags = 0x0d\<rparr>) True = Some (length enc, enc)) \<and>
   (\<exists>x. c2i_ASN1_BIT_STRING heap_total asn1_consts_std None [3, 0xa8, 9] 2 = Some (True, Some x, [9]) \<and>
      i2c_ASN1_BIT_STRING asn1_consts_std (Some x) True = Some (2, [3, 0xa8]))"
proof -
  let ?a = "\<lparr>as_length = 1, as_type = 3, as_data = Some [0xbf, 7], as_flags = 0x0d\<rparr> :: ASN1_STRING"
  have a: "string_wf ?a" "as_length ?a < INT_MAX" "nat 2 \<le> length [3, 0xa8, 9 :: u8]" by (simp_all add: string_wf_def)
  have va: "string_bits asn1_consts_std ?a = [True, False, True]" by code_simp
  have "padding_ok (unat (3 :: u8)) [0xa8]" by code_simp
  then have s: "\<exists>bl. encodes_bits [3, 0xa8] bl" unfolding padding_ok_encodes by blast
  note th = bit_string_codec [OF asn1_consts_std_ok a(3,1,2), of heap_total None]
  have "\<forall>n. alloc_ok heap_total n" by (simp add: heap_total_def)
  with conjunct2 [OF th] s have "\<exists>x. c2i_ASN1_BIT_STRING heap_total asn1_consts_std None [3, 0xa8, 9] 2 = Some (True, Some x, [9]) \<and>
      i2c_ASN1_BIT_STRING asn1_consts_std (Some x) True = Some (2, [3, 0xa8])"
    by (auto simp: Let_def take_Cons' drop_Cons')
  with conjunct1 [OF th] va show ?thesis by auto
qed

end
