(* ===== verification/ASN1_Time.thy ===== *)
theory ASN1_Time
  imports ASN1_Int_Thms BS_Time
begin

text \<open>
  The times of BoringSSL's ASN.1 module: \<open>a_gentm.c\<close>, \<open>a_utctm.c\<close> and \<open>a_time.c\<close> of \<open>crypto/asn1/\<close>, on the strings of
  \<open>ASN1_String\<close>, the parsers of \<open>cbs.c\<close> and the calendar of \<open>posix_time.c\<close>. A C string argument is the
  list of its characters before the terminating zero. A call of \<open>abort\<close> and an access outside a block are \<open>None\<close>. The clock
  is the argument \<open>now\<close>.
\<close>

section \<open>Shared steps\<close>

text \<open>The conversion \<open>%0wd\<close> of \<open>snprintf\<close>.\<close>

definition printf_0d :: "nat \<Rightarrow> int \<Rightarrow> u8 list" where
  "printf_0d w v =
     (let digits = decimal (nat \<bar>v\<bar>); sign = (if v < 0 then [45] else []) in
      sign @ replicate (w - length (sign @ digits)) 48 @ digits)"

definition strlen :: "u8 list \<Rightarrow> nat" where
  "strlen buf = length (takeWhile (\<lambda>b. b \<noteq> 0) buf)"

text \<open>The date of a time with an offset, as the three functions \<open>_adj\<close> compute it.\<close>

definition adjusted_tm :: "int \<Rightarrow> int \<Rightarrow> int \<Rightarrow> tm option" where
  "adjusted_tm posix_time offset_day offset_sec =
     (case OPENSSL_posix_to_tm posix_time of
        None \<Rightarrow> None
      | Some data \<Rightarrow>
          if offset_day \<noteq> 0 \<or> offset_sec \<noteq> 0 then OPENSSL_gmtime_adj data offset_day offset_sec else Some data)"

text \<open>The text in a buffer of \<open>bufsize\<close> bytes becomes the contents of \<open>s\<close> or of a new string.\<close>

definition set_time_text ::
  "allocator \<Rightarrow> asn1_consts \<Rightarrow> ASN1_STRING option \<Rightarrow> u32 \<Rightarrow> nat \<Rightarrow> u8 list \<Rightarrow> (bool \<times> ASN1_STRING option) option" where
  "set_time_text H C s type bufsize text =
     do { check (length text = bufsize - 1);
          let buf = take (bufsize - 1) text @ [0];
          (case (case s of None \<Rightarrow> ASN1_STRING_type_new H (V_UTCTIME C) | Some s \<Rightarrow> Some s) of
             None \<Rightarrow> Some (False, s)
           | Some ret \<Rightarrow>
               do { (ok, ret) \<leftarrow> ASN1_STRING_set H ret (Some buf) (int (strlen buf));
                    if \<not> ok then Some (False, map_option (\<lambda>_. ret) s)
                    else Some (True, Some (ret\<lparr>as_type := type\<rparr>)) }) }"

text \<open>A parsed C string becomes the contents of \<open>s\<close>, if there is one.\<close>

definition set_time_string ::
  "allocator \<Rightarrow> ASN1_STRING option \<Rightarrow> u32 \<Rightarrow> u8 list \<Rightarrow> (bool \<times> ASN1_STRING option) option" where
  "set_time_string H s type str =
     (case s of
        None \<Rightarrow> Some (True, None)
      | Some s \<Rightarrow>
          do { (ok, s) \<leftarrow> ASN1_STRING_set H s (Some str) (int (length str));
               Some (if \<not> ok then (False, Some s) else (True, Some (s\<lparr>as_type := type\<rparr>))) })"

section \<open>GeneralizedTime\<close>

text \<open>The outer \<open>None\<close> is an access outside the string; the rest is the result of the parser.\<close>

definition asn1_generalizedtime_to_tm :: "asn1_env \<Rightarrow> asn1_consts \<Rightarrow> bool \<Rightarrow> ASN1_STRING \<Rightarrow> tm option option option" where
  "asn1_generalizedtime_to_tm E C have_tm d =
     (if as_type d \<noteq> V_GENERALIZEDTIME C then Some None
      else do {
        cbs \<leftarrow> get_bytes d;
        Some (CBS_parse_generalized_time E False have_tm cbs) })"

definition ASN1_GENERALIZEDTIME_check :: "asn1_env \<Rightarrow> asn1_consts \<Rightarrow> ASN1_STRING \<Rightarrow> bool option" where
  "ASN1_GENERALIZEDTIME_check E C d = map_option (\<lambda>r. r \<noteq> None) (asn1_generalizedtime_to_tm E C False d)"

definition ASN1_GENERALIZEDTIME_set_string ::
  "asn1_env \<Rightarrow> allocator \<Rightarrow> asn1_consts \<Rightarrow> ASN1_STRING option \<Rightarrow> u8 list \<Rightarrow> (bool \<times> ASN1_STRING option) option" where
  "ASN1_GENERALIZEDTIME_set_string E H C s str =
     (if CBS_parse_generalized_time E False False str = None then Some (False, s)
      else set_time_string H s (V_GENERALIZEDTIME C) str)"

definition ASN1_GENERALIZEDTIME_adj ::
  "allocator \<Rightarrow> asn1_consts \<Rightarrow> ASN1_STRING option \<Rightarrow> int \<Rightarrow> int \<Rightarrow> int \<Rightarrow> (bool \<times> ASN1_STRING option) option" where
  "ASN1_GENERALIZEDTIME_adj H C s posix_time offset_day offset_sec =
     (case adjusted_tm posix_time offset_day offset_sec of
        None \<Rightarrow> Some (False, s)
      | Some data \<Rightarrow>
          if tm_year data < 0 - 1900 \<or> tm_year data > 9999 - 1900 then Some (False, s)
          else
            set_time_text H C s (V_GENERALIZEDTIME C) 16
              (printf_0d 4 (tm_year data + 1900) @ printf_0d 2 (tm_mon data + 1) @ printf_0d 2 (tm_mday data) @
               printf_0d 2 (tm_hour data) @ printf_0d 2 (tm_min data) @ printf_0d 2 (tm_sec data) @ [90]))"

definition ASN1_GENERALIZEDTIME_set ::
  "allocator \<Rightarrow> asn1_consts \<Rightarrow> ASN1_STRING option \<Rightarrow> int \<Rightarrow> (bool \<times> ASN1_STRING option) option" where
  "ASN1_GENERALIZEDTIME_set H C s posix_time = ASN1_GENERALIZEDTIME_adj H C s posix_time 0 0"

section \<open>UTCTime\<close>

definition asn1_utctime_to_tm :: "asn1_env \<Rightarrow> asn1_consts \<Rightarrow> bool \<Rightarrow> ASN1_STRING \<Rightarrow> bool \<Rightarrow> tm option option option" where
  "asn1_utctime_to_tm E C have_tm d allow_timezone_offset =
     (if as_type d \<noteq> V_UTCTIME C then Some None
      else do {
        cbs \<leftarrow> get_bytes d;
        Some (CBS_parse_utc_time E allow_timezone_offset have_tm cbs) })"

definition ASN1_UTCTIME_check :: "asn1_env \<Rightarrow> asn1_consts \<Rightarrow> ASN1_STRING \<Rightarrow> bool option" where
  "ASN1_UTCTIME_check E C d = map_option (\<lambda>r. r \<noteq> None) (asn1_utctime_to_tm E C False d True)"

definition ASN1_UTCTIME_set_string ::
  "asn1_env \<Rightarrow> allocator \<Rightarrow> asn1_consts \<Rightarrow> ASN1_STRING option \<Rightarrow> u8 list \<Rightarrow> (bool \<times> ASN1_STRING option) option" where
  "ASN1_UTCTIME_set_string E H C s str =
     (if CBS_parse_utc_time E False False str = None then Some (False, s)
      else set_time_string H s (V_UTCTIME C) str)"

definition ASN1_UTCTIME_adj ::
  "allocator \<Rightarrow> asn1_consts \<Rightarrow> ASN1_STRING option \<Rightarrow> int \<Rightarrow> int \<Rightarrow> int \<Rightarrow> (bool \<times> ASN1_STRING option) option" where
  "ASN1_UTCTIME_adj H C s posix_time offset_day offset_sec =
     (case adjusted_tm posix_time offset_day offset_sec of
        None \<Rightarrow> Some (False, s)
      | Some data \<Rightarrow>
          if tm_year data < 50 \<or> tm_year data \<ge> 150 then Some (False, s)
          else
            set_time_text H C s (V_UTCTIME C) 14
              (printf_0d 2 (tm_year data smod 100) @ printf_0d 2 (tm_mon data + 1) @ printf_0d 2 (tm_mday data) @
               printf_0d 2 (tm_hour data) @ printf_0d 2 (tm_min data) @ printf_0d 2 (tm_sec data) @ [90]))"

definition ASN1_UTCTIME_set ::
  "allocator \<Rightarrow> asn1_consts \<Rightarrow> ASN1_STRING option \<Rightarrow> int \<Rightarrow> (bool \<times> ASN1_STRING option) option" where
  "ASN1_UTCTIME_set H C s posix_time = ASN1_UTCTIME_adj H C s posix_time 0 0"

definition ASN1_UTCTIME_cmp_time_t :: "asn1_env \<Rightarrow> asn1_consts \<Rightarrow> ASN1_STRING \<Rightarrow> int \<Rightarrow> int option" where
  "ASN1_UTCTIME_cmp_time_t E C s t =
     do { stm \<leftarrow> asn1_utctime_to_tm E C True s True;
          Some (case stm of
                  Some (Some stm) \<Rightarrow>
                    (case OPENSSL_posix_to_tm t of
                       None \<Rightarrow> - 2
                     | Some ttm \<Rightarrow>
                         (case OPENSSL_gmtime_diff ttm stm of
                            None \<Rightarrow> - 2
                          | Some (day, sec) \<Rightarrow>
                              if day > 0 then 1 else if day < 0 then - 1
                              else if sec > 0 then 1 else if sec < 0 then - 1 else 0))
                | _ \<Rightarrow> - 2) }"

section \<open>Time\<close>

definition fits_in_utc_time :: "tm \<Rightarrow> bool" where
  "fits_in_utc_time t \<longleftrightarrow> 50 \<le> tm_year t \<and> tm_year t < 150"

definition ASN1_TIME_adj ::
  "allocator \<Rightarrow> asn1_consts \<Rightarrow> ASN1_STRING option \<Rightarrow> int \<Rightarrow> int \<Rightarrow> int \<Rightarrow> (bool \<times> ASN1_STRING option) option" where
  "ASN1_TIME_adj H C s posix_time offset_day offset_sec =
     (case adjusted_tm posix_time offset_day offset_sec of
        None \<Rightarrow> Some (False, s)
      | Some t \<Rightarrow>
          if fits_in_utc_time t then ASN1_UTCTIME_adj H C s posix_time offset_day offset_sec
          else ASN1_GENERALIZEDTIME_adj H C s posix_time offset_day offset_sec)"

definition ASN1_TIME_set_posix ::
  "allocator \<Rightarrow> asn1_consts \<Rightarrow> ASN1_STRING option \<Rightarrow> int \<Rightarrow> (bool \<times> ASN1_STRING option) option" where
  "ASN1_TIME_set_posix H C s posix_time = ASN1_TIME_adj H C s posix_time 0 0"

definition ASN1_TIME_set ::
  "allocator \<Rightarrow> asn1_consts \<Rightarrow> ASN1_STRING option \<Rightarrow> int \<Rightarrow> (bool \<times> ASN1_STRING option) option" where
  "ASN1_TIME_set H C s time = ASN1_TIME_adj H C s time 0 0"

definition ASN1_TIME_check :: "asn1_env \<Rightarrow> asn1_consts \<Rightarrow> ASN1_STRING \<Rightarrow> bool option" where
  "ASN1_TIME_check E C t =
     (if as_type t = V_GENERALIZEDTIME C then ASN1_GENERALIZEDTIME_check E C t
      else if as_type t = V_UTCTIME C then ASN1_UTCTIME_check E C t
      else Some False)"

text \<open>
  \<open>OPENSSL_strlcpy\<close> and \<open>OPENSSL_strlcat\<close> of \<open>mem.c\<close>, which is not in the tree: from a block to write to, a block to read
  the string from, and the size of the first one to the first one as it is after the call. \<open>None\<close> is an access outside a
  block: the source is a C string, read up to its zero.
\<close>

record str_lib =
  OPENSSL_strlcpy :: "u8 list \<Rightarrow> u8 list \<Rightarrow> nat \<Rightarrow> u8 list option"
  OPENSSL_strlcat :: "u8 list \<Rightarrow> u8 list \<Rightarrow> nat \<Rightarrow> u8 list option"

text \<open>
  The string in \<open>*out\<close> is another one than \<open>t\<close>. The result is whether the return value is not null, and the string.
\<close>

definition ASN1_TIME_to_generalizedtime ::
  "str_lib \<Rightarrow> asn1_env \<Rightarrow> allocator \<Rightarrow> asn1_consts \<Rightarrow> ASN1_STRING \<Rightarrow> ASN1_STRING option \<Rightarrow> (bool \<times> ASN1_STRING option) option" where
  "ASN1_TIME_to_generalizedtime S E H C t out =
     do { ok \<leftarrow> ASN1_TIME_check E C t;
          if \<not> ok then Some (False, out)
          else
            (case (case out of None \<Rightarrow> ASN1_STRING_type_new H (V_GENERALIZEDTIME C) | Some ret \<Rightarrow> Some ret) of
               None \<Rightarrow> Some (False, out)
             | Some ret \<Rightarrow>
                 if as_type t = V_GENERALIZEDTIME C then
                   do { (ok, ret) \<leftarrow> ASN1_STRING_set H ret (as_data t) (int (as_length t));
                        Some (if \<not> ok then (False, map_option (\<lambda>_. ret) out) else (True, Some ret)) }
                 else
                   do { (ok, ret) \<leftarrow> ASN1_STRING_set H ret None (int (as_length t + 2));
                        if \<not> ok then Some (False, map_option (\<lambda>_. ret) out)
                        else do {
                          let newlen = as_length t + 2 + 1;
                          str \<leftarrow> as_data ret;
                          data \<leftarrow> as_data t;
                          check (data \<noteq> []);
                          str \<leftarrow> OPENSSL_strlcpy S str (if hd data \<ge> 53 then [49, 57, 0] else [50, 48, 0]) newlen;
                          str \<leftarrow> OPENSSL_strlcat S str data newlen;
                          Some (True, Some (ret\<lparr>as_data := Some str\<rparr>)) } }) }"

definition ASN1_TIME_set_string ::
  "asn1_env \<Rightarrow> allocator \<Rightarrow> asn1_consts \<Rightarrow> ASN1_STRING option \<Rightarrow> u8 list \<Rightarrow> (bool \<times> ASN1_STRING option) option" where
  "ASN1_TIME_set_string E H C s str =
     do { (ok, s) \<leftarrow> ASN1_UTCTIME_set_string E H C s str;
          if ok then Some (True, s) else ASN1_GENERALIZEDTIME_set_string E H C s str }"

definition ASN1_TIME_set_string_X509 ::
  "asn1_env \<Rightarrow> allocator \<Rightarrow> asn1_consts \<Rightarrow> ASN1_STRING option \<Rightarrow> u8 list \<Rightarrow> (bool \<times> ASN1_STRING option) option" where
  "ASN1_TIME_set_string_X509 E H C s str =
     (if CBS_parse_utc_time E False False str \<noteq> None then set_time_string H s (V_UTCTIME C) str
      else
        (case CBS_parse_generalized_time E False True str of
           Some (Some t) \<Rightarrow>
             if fits_in_utc_time t then set_time_string H s (V_UTCTIME C) (snd (CBS_skip 2 str))
             else set_time_string H s (V_GENERALIZEDTIME C) str
         | _ \<Rightarrow> Some (False, s)))"

text \<open>The date that the parser has written.\<close>

definition written_tm :: "tm option option \<Rightarrow> tm option" where
  "written_tm r = (case r of None \<Rightarrow> None | Some t \<Rightarrow> t)"

definition asn1_time_to_tm :: "asn1_env \<Rightarrow> asn1_consts \<Rightarrow> int \<Rightarrow> ASN1_STRING option \<Rightarrow> bool \<Rightarrow> tm option option" where
  "asn1_time_to_tm E C now t allow_timezone_offset =
     (case t of
        None \<Rightarrow> Some (OPENSSL_posix_to_tm now)
      | Some t \<Rightarrow>
          if as_type t = V_UTCTIME C then map_option written_tm (asn1_utctime_to_tm E C True t allow_timezone_offset)
          else if as_type t = V_GENERALIZEDTIME C then map_option written_tm (asn1_generalizedtime_to_tm E C True t)
          else Some None)"

definition ASN1_TIME_diff ::
  "asn1_env \<Rightarrow> asn1_consts \<Rightarrow> int \<Rightarrow> ASN1_STRING option \<Rightarrow> ASN1_STRING option \<Rightarrow> (int \<times> int) option option" where
  "ASN1_TIME_diff E C now from to =
     do { tm_from \<leftarrow> asn1_time_to_tm E C now from True;
          (case tm_from of
             None \<Rightarrow> Some None
           | Some tm_from \<Rightarrow>
               do { tm_to \<leftarrow> asn1_time_to_tm E C now to True;
                    (case tm_to of
                       None \<Rightarrow> Some None
                     | Some tm_to \<Rightarrow> Some (OPENSSL_gmtime_diff tm_from tm_to)) }) }"

definition ASN1_TIME_to_time_t :: "asn1_env \<Rightarrow> asn1_consts \<Rightarrow> bool \<Rightarrow> int \<Rightarrow> ASN1_STRING option \<Rightarrow> int option option" where
  "ASN1_TIME_to_time_t E C time32 now t =
     do { r \<leftarrow> asn1_time_to_tm E C now t False;
          Some (case r of None \<Rightarrow> None | Some tm \<Rightarrow> OPENSSL_timegm time32 tm) }"

definition ASN1_TIME_to_posix :: "asn1_env \<Rightarrow> asn1_consts \<Rightarrow> int \<Rightarrow> ASN1_STRING option \<Rightarrow> int option option" where
  "ASN1_TIME_to_posix E C now t =
     do { r \<leftarrow> asn1_time_to_tm E C now t False;
          Some (case r of None \<Rightarrow> None | Some tm \<Rightarrow> OPENSSL_tm_to_posix tm) }"

end
