(* ===== verification/ASN1_Time_Thms.thy ===== *)
theory ASN1_Time_Thms
  imports ASN1_Time
begin

text \<open>
  Times as POSIX times: what the setting functions write and the reading functions read, and what the conversion to
  GeneralizedTime does.
\<close>

section \<open>Texts\<close>

primrec fixed_digits :: "nat \<Rightarrow> nat \<Rightarrow> u8 list" where
  "fixed_digits 0 n = []"
| "fixed_digits (Suc w) n = fixed_digits w (n div 10) @ [byte_of (48 + n mod 10)]"

lemma padded_decimal:
  "n < 10 ^ Suc w \<Longrightarrow> length (decimal n) \<le> Suc w \<and> replicate (Suc w - length (decimal n)) 48 @ decimal n = fixed_digits (Suc w) n"
proof (induction w arbitrary: n)
  case 0
  then show ?case by (simp add: decimal.simps [of n])
next
  case (Suc w)
  have b48: "byte_of 48 = 48" by (simp add: byte_of_def)
  have z: "fixed_digits k 0 = replicate k 48" for k by (induction k) (simp_all add: b48 replicate_append_same)
  show ?case
  proof (cases "n < 10")
    case True
    then show ?thesis using z [of "Suc w"] by (simp add: decimal.simps [of n])
  next
    case False
    have "n div 10 < 10 ^ Suc w" using Suc.prems by (simp add: less_mult_imp_div_less)
    from Suc.IH [OF this] False show ?thesis by (simp add: decimal.simps [of n])
  qed
qed

lemma printf_fixed: "n < 10 ^ Suc w \<Longrightarrow> printf_0d (Suc w) (int n) = fixed_digits (Suc w) n"
  using padded_decimal [of n w] by (simp add: printf_0d_def)

lemma two_fixed: "two (int n) = [byte_of (48 + n div 10), byte_of (48 + n mod 10)]"
  by (simp add: two_def)

lemma printf_two: "0 \<le> v \<Longrightarrow> v \<le> 99 \<Longrightarrow> printf_0d 2 v = two v"
proof -
  assume v: "0 \<le> v" "v \<le> 99"
  then obtain n where n: "v = int n" "n \<le> 99" by (metis nat_0_le nat_le_iff of_nat_numeral int_nat_eq)
  have "printf_0d 2 v = fixed_digits 2 n" using n printf_fixed [of n 1] by (simp add: numeral_2_eq_2)
  then show ?thesis using n by (simp add: two_fixed numeral_2_eq_2)
qed

lemma printf_four: "0 \<le> y \<Longrightarrow> y \<le> 9999 \<Longrightarrow> printf_0d 4 y = two (y div 100) @ two (y mod 100)"
proof -
  assume y: "0 \<le> y" "y \<le> 9999"
  define n where "n = nat y"
  have n: "y = int n" "n < 10 ^ Suc 3" using y by (simp_all add: n_def)
  have q: "y div 100 = int (n div 100)" "y mod 100 = int (n mod 100)" unfolding n(1) by (simp_all add: zdiv_int zmod_int)
  have h: "n div 10 div 10 = n div 100" using div_mult2_eq [of n 10 10] by simp
  have "n mod 100 = 10 * (n div 10 mod 10) + n mod 10" using mod_mult2_eq [of n 10 10] by simp
  then have m: "n mod 100 div 10 = n div 10 mod 10" "n mod 100 mod 10 = n mod 10" by simp_all
  have "n div 100 div 10 < 10" using n(2) by (simp add: less_mult_imp_div_less)
  then have d: "n div 100 div 10 mod 10 = n div 100 div 10" by simp
  have "fixed_digits (Suc (Suc (Suc (Suc 0)))) n = two (int (n div 100)) @ two (int (n mod 100))"
    unfolding two_fixed fixed_digits.simps h m d by simp
  moreover have "printf_0d 4 y = fixed_digits 4 n" using printf_fixed [OF n(2)] n(1) by simp
  moreover have "4 = Suc (Suc (Suc (Suc 0)))" by simp
  ultimately show ?thesis unfolding q by metis
qed

lemma two_nonzero: "0 \<le> v \<Longrightarrow> v \<le> 99 \<Longrightarrow> b \<in> set (two v) \<Longrightarrow> b \<noteq> 0"
  by (auto simp: two_def byte_eq_iff)

lemma valid_fields:
  assumes "OPENSSL_tm_to_posix t = Some p"
  shows "0 \<le> tm_year t + 1900" "tm_year t + 1900 \<le> 9999" "0 \<le> tm_mon t + 1" "tm_mon t + 1 \<le> 99" "0 \<le> tm_mday t" "tm_mday t \<le> 99"
    "0 \<le> tm_hour t" "tm_hour t \<le> 99" "0 \<le> tm_min t" "tm_min t \<le> 99" "0 \<le> tm_sec t" "tm_sec t \<le> 99"
proof -
  have v: "is_valid_date (tm_year t + 1900) (tm_mon t + 1) (tm_mday t)" "is_valid_time (tm_hour t) (tm_min t) (tm_sec t)"
    using assms tm_valid_iff by blast+
  note b = valid_date_bounds [OF v(1)]
  show "0 \<le> tm_year t + 1900" "tm_year t + 1900 \<le> 9999" "0 \<le> tm_mon t + 1" "tm_mon t + 1 \<le> 99" "0 \<le> tm_mday t" "tm_mday t \<le> 99"
    "0 \<le> tm_hour t" "tm_hour t \<le> 99" "0 \<le> tm_min t" "tm_min t \<le> 99" "0 \<le> tm_sec t" "tm_sec t \<le> 99"
    using b v(2) unfolding is_valid_time_def by linarith+
qed

lemma printed_time:
  assumes "OPENSSL_tm_to_posix t = Some p"
  shows "printf_0d 4 (tm_year t + 1900) @ printf_0d 2 (tm_mon t + 1) @ printf_0d 2 (tm_mday t) @
      printf_0d 2 (tm_hour t) @ printf_0d 2 (tm_min t) @ printf_0d 2 (tm_sec t) @ [90] = time_text True t @ [90]"
    and "fits_in_utc_time t \<Longrightarrow> printf_0d 2 (tm_year t smod 100) @ printf_0d 2 (tm_mon t + 1) @ printf_0d 2 (tm_mday t) @
      printf_0d 2 (tm_hour t) @ printf_0d 2 (tm_min t) @ printf_0d 2 (tm_sec t) @ [90] = time_text False t @ [90]"
proof -
  note f = valid_fields [OF assms]
  note p = printf_two [OF f(3,4)] printf_two [OF f(5,6)] printf_two [OF f(7,8)] printf_two [OF f(9,10)] printf_two [OF f(11,12)]
  show "printf_0d 4 (tm_year t + 1900) @ printf_0d 2 (tm_mon t + 1) @ printf_0d 2 (tm_mday t) @
      printf_0d 2 (tm_hour t) @ printf_0d 2 (tm_min t) @ printf_0d 2 (tm_sec t) @ [90] = time_text True t @ [90]"
    unfolding p printf_four [OF f(1,2)] by (simp add: time_text_def year_text_def)
  assume u: "fits_in_utc_time t"
  have "(tm_year t + 1900) mod 100 = tm_year t mod 100" using mod_mult_self1 [of "tm_year t" 19 100] by simp
  with u have "tm_year t smod 100 = (tm_year t + 1900) mod 100" by (simp add: fits_in_utc_time_def smod_nonneg)
  then show "printf_0d 2 (tm_year t smod 100) @ printf_0d 2 (tm_mon t + 1) @ printf_0d 2 (tm_mday t) @
      printf_0d 2 (tm_hour t) @ printf_0d 2 (tm_min t) @ printf_0d 2 (tm_sec t) @ [90] = time_text False t @ [90]"
    unfolding p by (simp add: time_text_def year_text_def printf_two)
qed

lemma time_text_chars:
  assumes "OPENSSL_tm_to_posix t = Some p" "b \<in> set (time_text gen t)"
  shows "b \<noteq> 0"
proof -
  note f = valid_fields [OF assms(1)]
  let ?V = "{(tm_year t + 1900) div 100, (tm_year t + 1900) mod 100, tm_mon t + 1, tm_mday t, tm_hour t, tm_min t, tm_sec t}"
  have "\<forall>v\<in>?V. 0 \<le> v \<and> v \<le> 99" using f by auto
  moreover have "\<exists>v\<in>?V. b \<in> set (two v)" using assms(2) by (auto simp: time_text_def year_text_def split: if_splits)
  ultimately show ?thesis using two_nonzero by blast
qed

lemma length_time_text: "length (time_text gen t) = (if gen then 14 else 12)"
  by (simp add: time_text_def year_text_def two_def)

section \<open>Setting\<close>

lemma adjusted_tm_eq:
  "adjusted_tm p day sec = (if is_valid_posix_time p then OPENSSL_posix_to_tm (p + day * 86400 + sec) else None)"
proof (cases "OPENSSL_posix_to_tm p")
  case None
  then have "\<not> is_valid_posix_time p" using posix_to_tm_valid [of p] by auto
  with None show ?thesis by (simp add: adjusted_tm_def)
next
  case (Some t)
  then have "is_valid_posix_time p" "OPENSSL_tm_to_posix t = Some p" using posix_to_tm_valid [of p] tm_to_posix_iff by auto
  with Some show ?thesis by (simp add: adjusted_tm_def gmtime_adj_eq)
qed

lemma store_text:
  assumes s: "string_wf s" and n: "length text \<le> 16"
  shows "ASN1_STRING_set H s (Some (text @ r)) (int (length text)) = Some (False, s) \<and> \<not> (\<forall>n. alloc_ok H n) \<or>
    (\<exists>x. ASN1_STRING_set H s (Some (text @ r)) (int (length text)) = Some (True, x) \<and> string_wf x \<and> string_bytes x = text \<and>
       as_type x = as_type s)"
proof (cases "set_room H s (length text)")
  case True
  with string_set(2) [OF s, of "length text" "text @ r" H] show ?thesis by (auto simp: string_wf_def string_bytes_def)
next
  case False
  moreover have "length text \<le> ASN1_STRING_MAX" using n by simp
  ultimately have "\<not> (\<forall>n. alloc_ok H n)" using c2i_total(2) [of H "length text" s] by blast
  with False string_set(1) [OF s, of "length text" "text @ r" H] show ?thesis by simp
qed

lemma set_time_text_cases:
  assumes s: "out_wf s" and t: "OPENSSL_tm_to_posix t = Some p" and n: "n = (if gen then 16 else 14)"
  shows "set_time_text H C s type n (time_text gen t @ [90]) = Some (False, s) \<and> \<not> (\<forall>n. alloc_ok H n) \<or>
    (\<exists>x. set_time_text H C s type n (time_text gen t @ [90]) = Some (True, Some x) \<and> string_wf x \<and>
       string_bytes x = time_text gen t @ [90] \<and> as_type x = type)"
proof -
  let ?text = "time_text gen t @ [90]"
  have l: "length ?text = n - 1" "length ?text \<le> 16" unfolding n by (simp_all add: length_time_text)
  have sl: "strlen (?text @ [0]) = length ?text"
    unfolding strlen_def using time_text_chars [OF t] by (subst takeWhile_append2) auto
  have eq: "set_time_text H C s type n ?text =
    (case target H (V_UTCTIME C) s of
       None \<Rightarrow> Some (False, s)
     | Some ret \<Rightarrow> Option.bind (ASN1_STRING_set H ret (Some (?text @ [0])) (int (length ?text)))
         (\<lambda>(ok, ret). if \<not> ok then Some (False, map_option (\<lambda>_. ret) s) else Some (True, Some (ret\<lparr>as_type := type\<rparr>))))"
    unfolding set_time_text_def target_def l(1) [symmetric] take_all [OF order_refl] sl Let_def by simp
  show ?thesis
  proof (cases "target H (V_UTCTIME C) s")
    case None
    then show ?thesis using c2i_total(1) [of H "V_UTCTIME C" s] by (auto simp: eq)
  next
    case (Some ret)
    then have "map_option (\<lambda>_. ret) s = s" by (cases s) (simp_all add: target_def)
    with Some store_text [OF target_wf [OF s Some] l(2), of H "[0]"] show ?thesis
      unfolding eq by (auto simp: string_wf_def string_bytes_def)
  qed
qed

lemma set_time_string_cases:
  assumes "string_wf s" "length str \<le> 16"
  shows "set_time_string H (Some s) type str = Some (False, Some s) \<and> \<not> (\<forall>n. alloc_ok H n) \<or>
    (\<exists>x. set_time_string H (Some s) type str = Some (True, Some x) \<and> string_wf x \<and> string_bytes x = str \<and> as_type x = type)"
  using store_text [OF assms, of H "[]"] by (auto simp: set_time_string_def string_wf_def string_bytes_def)

section \<open>Reading\<close>

text \<open>The strings that stand for a date in one of the two types.\<close>

definition time_string :: "asn1_consts \<Rightarrow> tm \<Rightarrow> ASN1_STRING \<Rightarrow> bool" where
  "time_string C t x \<longleftrightarrow> string_wf x \<and>
     (as_type x = V_UTCTIME C \<and> fits_in_utc_time t \<and> string_bytes x = time_text False t @ [90] \<or>
      as_type x = V_GENERALIZEDTIME C \<and> string_bytes x = time_text True t @ [90])"

lemma parse_times:
  assumes "asn1_env_ok E"
  shows "CBS_parse_generalized_time E False True s = Some (Some t) \<longleftrightarrow> s = time_text True t @ [90] \<and> (\<exists>p. OPENSSL_tm_to_posix t = Some p)"
    "CBS_parse_utc_time E False True s = Some (Some t) \<longleftrightarrow>
       s = time_text False t @ [90] \<and> fits_in_utc_time t \<and> (\<exists>p. OPENSSL_tm_to_posix t = Some p)"
  using rfc5280_time_exact [OF assms, of s t] unfolding fits_in_utc_time_def by blast+

lemma to_tm_iff:
  assumes E: "asn1_env_ok E" and C: "asn1_consts_ok C" and x: "string_wf x"
  shows "\<exists>r. asn1_time_to_tm E C now (Some x) False = Some r \<and>
    (r = Some t \<longleftrightarrow> time_string C t x \<and> (\<exists>p. OPENSSL_tm_to_posix t = Some p))"
proof -
  have c: "V_UTCTIME C \<noteq> V_GENERALIZEDTIME C" using C by (simp add: asn1_consts_ok_def)
  have w: "written_tm r = Some t \<longleftrightarrow> r = Some (Some t)" for r by (auto simp: written_tm_def split: option.splits)
  show ?thesis using c
    by (auto simp: asn1_time_to_tm_def asn1_utctime_to_tm_def asn1_generalizedtime_to_tm_def get_bytes_wf [OF x] w
        parse_times [OF E] time_string_def x)
qed

lemma to_posix_iff:
  assumes "asn1_env_ok E" "asn1_consts_ok C" "string_wf x"
  shows "\<exists>r. ASN1_TIME_to_posix E C now (Some x) = Some r \<and> (r = Some p \<longleftrightarrow> (\<exists>t. time_string C t x \<and> OPENSSL_tm_to_posix t = Some p))"
proof -
  obtain r where r: "asn1_time_to_tm E C now (Some x) False = Some r" using to_tm_iff [OF assms] by blast
  have i: "r = Some t \<longleftrightarrow> time_string C t x \<and> (\<exists>p. OPENSSL_tm_to_posix t = Some p)" for t
    using to_tm_iff [OF assms, of now t] r by auto
  have "(case r of None \<Rightarrow> None | Some tm \<Rightarrow> OPENSSL_tm_to_posix tm) = Some p \<longleftrightarrow> (\<exists>t. r = Some t \<and> OPENSSL_tm_to_posix t = Some p)"
    by (cases r) auto
  also have "\<dots> \<longleftrightarrow> (\<exists>t. time_string C t x \<and> OPENSSL_tm_to_posix t = Some p)" using i by blast
  finally show ?thesis by (simp add: ASN1_TIME_to_posix_def r)
qed

lemma time_string_check:
  assumes E: "asn1_env_ok E" and C: "asn1_consts_ok C" and x: "time_string C t x" and t: "OPENSSL_tm_to_posix t = Some p"
  shows "ASN1_TIME_check E C x = Some True"
proof -
  have c: "V_UTCTIME C \<noteq> V_GENERALIZEDTIME C" using C by (simp add: asn1_consts_ok_def)
  have wf: "string_wf x" using x by (simp add: time_string_def)
  have y: "year_ok True (tm_year t + 1900)" "fits_in_utc_time t \<Longrightarrow> year_ok False (tm_year t + 1900)"
    using valid_fields(1,2) [OF t] by (auto simp: year_ok_def fits_in_utc_time_def)
  have z: "zone allow 0 [90]" for allow by (simp add: zone_def)
  show ?thesis using x c time_internal_eval [OF E z _ t, of _ _ False] y
    by (auto simp: time_string_def ASN1_TIME_check_def ASN1_UTCTIME_check_def ASN1_GENERALIZEDTIME_check_def asn1_utctime_to_tm_def
        asn1_generalizedtime_to_tm_def get_bytes_wf [OF wf] CBS_parse_utc_time_def CBS_parse_generalized_time_def)
qed

lemma adj_cases:
  assumes s: "out_wf s" and p: "is_valid_posix_time p" and t: "OPENSSL_posix_to_tm (p + day * 86400 + sec) = Some t"
  shows "ASN1_TIME_adj H C s p day sec = Some (False, s) \<and> \<not> (\<forall>n. alloc_ok H n) \<or>
    (\<exists>x. ASN1_TIME_adj H C s p day sec = Some (True, Some x) \<and> time_string C t x \<and>
       as_type x = (if fits_in_utc_time t then V_UTCTIME C else V_GENERALIZEDTIME C))"
proof -
  have a: "adjusted_tm p day sec = Some t" using p t by (simp add: adjusted_tm_eq)
  have q: "OPENSSL_tm_to_posix t = Some (p + day * 86400 + sec)" using t tm_to_posix_iff by blast
  show ?thesis
  proof (cases "fits_in_utc_time t")
    case True
    have "ASN1_TIME_adj H C s p day sec = set_time_text H C s (V_UTCTIME C) 14 (time_text False t @ [90])"
      using True unfolding printed_time(2) [OF q True, symmetric]
      by (simp add: ASN1_TIME_adj_def ASN1_UTCTIME_adj_def a fits_in_utc_time_def)
    then show ?thesis using True set_time_text_cases [OF s q, of 14 False H C "V_UTCTIME C"] by (auto simp: time_string_def)
  next
    case False
    have "ASN1_TIME_adj H C s p day sec = set_time_text H C s (V_GENERALIZEDTIME C) 16 (time_text True t @ [90])"
      using False valid_fields(1,2) [OF q] unfolding printed_time(1) [OF q, symmetric]
      by (simp add: ASN1_TIME_adj_def ASN1_GENERALIZEDTIME_adj_def a)
    then show ?thesis using False set_time_text_cases [OF s q, of 16 True H C "V_GENERALIZEDTIME C"] by (auto simp: time_string_def)
  qed
qed

section \<open>Properties\<close>

text \<open>
  C30: ASN.1 times and POSIX times. \<open>ASN1_TIME_adj\<close>, and with it \<open>ASN1_TIME_set\<close> and \<open>ASN1_TIME_set_posix\<close>, adds an
  offset of days and seconds to a POSIX time; if the time or the sum is outside the years 0 to 9999 it fails and changes nothing,
  otherwise it makes a string, a UTCTime for the years 1950 to 2049 and a GeneralizedTime for all
  others, that \<open>ASN1_TIME_check\<close> accepts and \<open>ASN1_TIME_to_posix\<close> turns back into the sum, unless memory runs out; it never aborts. \<open>ASN1_TIME_to_posix\<close> of any string
  reads only its bytes and returns a time exactly if the bytes are the text of its date in the form of the string's type.\<close>
theorem asn1_time_exact:
  assumes E: "asn1_env_ok E" and C: "asn1_consts_ok C" and s: "out_wf s" and y: "string_wf y"
  shows "(let q = p + day * 86400 + sec; r = ASN1_TIME_adj H C s p day sec in
     if \<not> (is_valid_posix_time p \<and> is_valid_posix_time q) then r = Some (False, s)
     else r = Some (False, s) \<and> \<not> (\<forall>n. alloc_ok H n) \<or>
       (\<exists>x t. r = Some (True, Some x) \<and> OPENSSL_posix_to_tm q = Some t \<and>
          as_type x = (if 50 \<le> tm_year t \<and> tm_year t < 150 then V_UTCTIME C else V_GENERALIZEDTIME C) \<and>
          ASN1_TIME_check E C x = Some True \<and> ASN1_TIME_to_posix E C now (Some x) = Some (Some q))) \<and>
    (\<exists>r. ASN1_TIME_to_posix E C now (Some y) = Some r \<and>
       (r = Some v \<longleftrightarrow> (\<exists>t. time_string C t y \<and> OPENSSL_posix_to_tm v = Some t)))"
proof (intro conjI)
  show "\<exists>r. ASN1_TIME_to_posix E C now (Some y) = Some r \<and>
       (r = Some v \<longleftrightarrow> (\<exists>t. time_string C t y \<and> OPENSSL_posix_to_tm v = Some t))"
    using to_posix_iff [OF E C y, of now v] by (simp add: tm_to_posix_iff)
  define q where "q = p + day * 86400 + sec"
  have read: "ASN1_TIME_check E C x = Some True \<and> ASN1_TIME_to_posix E C now (Some x) = Some (Some q)"
    if x: "time_string C t x" and t: "OPENSSL_posix_to_tm q = Some t" for x t
    using time_string_check [OF E C x] to_posix_iff [OF E C, of x now q] x t by (auto simp: tm_to_posix_iff time_string_def)
  have "ASN1_TIME_adj H C s p day sec = Some (False, s)" if "\<not> (is_valid_posix_time p \<and> is_valid_posix_time q)"
  proof -
    have "adjusted_tm p day sec = None"
      using that posix_to_tm_valid [of q] unfolding adjusted_tm_eq q_def [symmetric] by auto
    then show ?thesis by (simp add: ASN1_TIME_adj_def)
  qed
  moreover have "ASN1_TIME_adj H C s p day sec = Some (False, s) \<and> \<not> (\<forall>n. alloc_ok H n) \<or>
       (\<exists>x t. ASN1_TIME_adj H C s p day sec = Some (True, Some x) \<and> OPENSSL_posix_to_tm q = Some t \<and>
          as_type x = (if 50 \<le> tm_year t \<and> tm_year t < 150 then V_UTCTIME C else V_GENERALIZEDTIME C) \<and>
          ASN1_TIME_check E C x = Some True \<and> ASN1_TIME_to_posix E C now (Some x) = Some (Some q))"
    if v: "is_valid_posix_time p" "is_valid_posix_time q"
  proof -
    obtain t where t: "OPENSSL_posix_to_tm q = Some t" using v(2) posix_to_tm_valid by blast
    show ?thesis using adj_cases [OF s v(1) t [unfolded q_def], of H C] read [OF _ t] t unfolding fits_in_utc_time_def by blast
  qed
  ultimately show "let q = p + day * 86400 + sec; r = ASN1_TIME_adj H C s p day sec in
     if \<not> (is_valid_posix_time p \<and> is_valid_posix_time q) then r = Some (False, s)
     else r = Some (False, s) \<and> \<not> (\<forall>n. alloc_ok H n) \<or>
       (\<exists>x t. r = Some (True, Some x) \<and> OPENSSL_posix_to_tm q = Some t \<and>
          as_type x = (if 50 \<le> tm_year t \<and> tm_year t < 150 then V_UTCTIME C else V_GENERALIZEDTIME C) \<and>
          ASN1_TIME_check E C x = Some True \<and> ASN1_TIME_to_posix E C now (Some x) = Some (Some q))"
    unfolding Let_def q_def [symmetric] by auto
qed

theorem asn1_time_exact_witness:
  "(\<exists>x. ASN1_TIME_adj heap_total asn1_consts_std None 1582977600 0 7 = Some (True, Some x) \<and> as_type x = 23 \<and>
      ASN1_TIME_check asn1_env_std asn1_consts_std x = Some True \<and>
      ASN1_TIME_to_posix asn1_env_std asn1_consts_std 0 (Some x) = Some (Some 1582977607)) \<and>
   ASN1_TIME_to_posix asn1_env_std asn1_consts_std 0
     (Some \<lparr>as_length = 13, as_type = 23, as_data = Some [50, 48, 48, 50, 50, 57, 49, 50, 48, 48, 48, 55, 90, 0], as_flags = 0\<rparr>) =
     Some (Some 1582977607)"
proof -
  let ?y = "\<lparr>as_length = 13, as_type = 23, as_data = Some [50, 48, 48, 50, 50, 57, 49, 50, 48, 48, 48, 55, 90, 0], as_flags = 0\<rparr> :: ASN1_STRING"
  have t: "OPENSSL_posix_to_tm 1582977607 = Some tm_noon" using tm_noon_posix by (simp add: tm_to_posix_iff)
  have y: "string_wf ?y" "time_string asn1_consts_std tm_noon ?y"
    by (simp_all add: time_string_def tm_noon_text string_wf_def string_bytes_def fits_in_utc_time_def)
      (simp_all add: tm_noon_def asn1_consts_std_def)
  have v: "is_valid_posix_time 1582977600" "is_valid_posix_time 1582977607" "\<forall>n. alloc_ok heap_total n" "out_wf None"
    "tm_year tm_noon = 120" "V_UTCTIME asn1_consts_std = 23"
    by (simp_all add: is_valid_posix_time_def heap_total_def out_wf_def tm_noon_def asn1_consts_std_def)
  note th = asn1_time_exact [OF asn1_env_std_ok asn1_consts_std_ok v(4) y(1), where H = heap_total and p = 1582977600 and day = 0 and sec = 7
      and now = 0 and v = 1582977607]
  show ?thesis using th y(2) t v by (auto simp: Let_def)
qed

end
