(* ===== verification/ASN1_Time_Text.thy ===== *)
theory ASN1_Time_Text
  imports ASN1_Time_Thms
begin

text \<open>
  Times from text and as text: \<open>ASN1_TIME_set_string\<close>, \<open>ASN1_TIME_set_string_X509\<close> and \<open>ASN1_TIME_to_generalizedtime\<close>, and
  the comparisons of times.
\<close>

section \<open>Setting from a string\<close>

text \<open>A date and the two texts it may have.\<close>

definition date_text :: "tm \<Rightarrow> u8 list \<Rightarrow> bool" where
  "date_text t str \<longleftrightarrow> (\<exists>p. OPENSSL_tm_to_posix t = Some p) \<and>
     (str = time_text True t @ [90] \<or> str = time_text False t @ [90] \<and> fits_in_utc_time t)"

lemma parse_accepts:
  assumes "asn1_env_ok E"
  shows "CBS_parse_utc_time E False False str \<noteq> None \<longleftrightarrow>
      (\<exists>t p. str = time_text False t @ [90] \<and> fits_in_utc_time t \<and> OPENSSL_tm_to_posix t = Some p)"
    and "CBS_parse_generalized_time E False False str \<noteq> None \<longleftrightarrow> (\<exists>t p. str = time_text True t @ [90] \<and> OPENSSL_tm_to_posix t = Some p)"
proof -
  note r = rfc5280_time_exact [OF assms, THEN conjunct2, THEN conjunct2]
  have a: "CBS_parse_utc_time E False False str \<noteq> None \<longleftrightarrow> (\<exists>t. CBS_parse_utc_time E False True str = Some (Some t))"
    "CBS_parse_generalized_time E False False str \<noteq> None \<longleftrightarrow> (\<exists>t. CBS_parse_generalized_time E False True str = Some (Some t))"
    by (rule r [THEN conjunct2], rule r [THEN conjunct1])
  show "CBS_parse_utc_time E False False str \<noteq> None \<longleftrightarrow>
      (\<exists>t p. str = time_text False t @ [90] \<and> fits_in_utc_time t \<and> OPENSSL_tm_to_posix t = Some p)"
    "CBS_parse_generalized_time E False False str \<noteq> None \<longleftrightarrow> (\<exists>t p. str = time_text True t @ [90] \<and> OPENSSL_tm_to_posix t = Some p)"
    unfolding a parse_times [OF assms] by blast+
qed

lemma text_kinds_differ: "time_text True t @ [90] \<noteq> time_text False u @ [90]"
  using length_time_text [of True t] length_time_text [of False u] by auto

lemma century_dropped:
  "snd (CBS_skip 2 (time_text True t @ [90])) = time_text False t @ [90]"
  by (simp add: CBS_skip_def get_bind_def cbs_get_def time_text_def year_text_def two_def)

lemma set_string_null:
  assumes E: "asn1_env_ok E"
  shows "ASN1_TIME_set_string E H C None str = Some (\<exists>t. date_text t str, None)"
    and "ASN1_TIME_set_string_X509 E H C None str = Some (\<exists>t. date_text t str, None)"
proof -
  show "ASN1_TIME_set_string E H C None str = Some (\<exists>t. date_text t str, None)"
    using parse_accepts [OF E, of str]
    by (auto simp: ASN1_TIME_set_string_def ASN1_UTCTIME_set_string_def ASN1_GENERALIZEDTIME_set_string_def set_time_string_def date_text_def)
  show "ASN1_TIME_set_string_X509 E H C None str = Some (\<exists>t. date_text t str, None)"
    using parse_accepts [OF E, of str] parse_times(1) [OF E, of str]
    by (auto simp: ASN1_TIME_set_string_X509_def set_time_string_def date_text_def split: option.splits)
qed

lemma no_date:
  assumes E: "asn1_env_ok E" and n: "\<nexists>t. date_text t str"
  shows "CBS_parse_utc_time E False False str = None" "CBS_parse_generalized_time E False False str = None"
    "CBS_parse_generalized_time E False True str \<noteq> Some (Some t)"
proof -
  have "\<nexists>t p. str = time_text False t @ [90] \<and> fits_in_utc_time t \<and> OPENSSL_tm_to_posix t = Some p"
    "\<nexists>t p. str = time_text True t @ [90] \<and> OPENSSL_tm_to_posix t = Some p"
    using n unfolding date_text_def by blast+
  then show "CBS_parse_utc_time E False False str = None" "CBS_parse_generalized_time E False False str = None"
    "CBS_parse_generalized_time E False True str \<noteq> Some (Some t)"
    using parse_accepts [OF E, of str] parse_times(1) [OF E, of str t] by blast+
qed

text \<open>How a set string stands for its date.\<close>

definition set_from :: "allocator \<Rightarrow> asn1_consts \<Rightarrow> ASN1_STRING \<Rightarrow> tm \<Rightarrow> (bool \<times> ASN1_STRING option) option \<Rightarrow> bool" where
  "set_from H C s t r \<longleftrightarrow> r = Some (False, Some s) \<and> \<not> (\<forall>n. alloc_ok H n) \<or> (\<exists>x. r = Some (True, Some x) \<and> time_string C t x)"

lemma set_from_text:
  assumes "string_wf s" "gen \<or> fits_in_utc_time t"
  shows "set_from H C s t (set_time_string H (Some s) (if gen then V_GENERALIZEDTIME C else V_UTCTIME C) (time_text gen t @ [90]))"
  using set_time_string_cases [OF assms(1), of "time_text gen t @ [90]" H "if gen then V_GENERALIZEDTIME C else V_UTCTIME C"] assms(2)
  by (auto simp: set_from_def time_string_def length_time_text)

lemma set_string_cases:
  assumes E: "asn1_env_ok E" and s: "string_wf s"
  shows "(\<nexists>t. date_text t str) \<Longrightarrow> ASN1_TIME_set_string E H C (Some s) str = Some (False, Some s)"
    and "date_text t str \<Longrightarrow> set_from H C s t (ASN1_TIME_set_string E H C (Some s) str)"
proof -
  note acc = parse_accepts [OF E]
  show "ASN1_TIME_set_string E H C (Some s) str = Some (False, Some s)" if "\<nexists>t. date_text t str"
    by (simp add: no_date [OF E that] ASN1_TIME_set_string_def ASN1_UTCTIME_set_string_def ASN1_GENERALIZEDTIME_set_string_def)
  assume "date_text t str"
  then obtain p gen where p: "OPENSSL_tm_to_posix t = Some p" and g: "gen \<or> fits_in_utc_time t" and str: "str = time_text gen t @ [90]"
    unfolding date_text_def by (metis (full_types))
  have u: "CBS_parse_utc_time E False False str = None \<longleftrightarrow> gen"
    using acc(1) [of str] g p text_kinds_differ unfolding str by (cases gen) auto
  have v: "CBS_parse_generalized_time E False False str = None \<longleftrightarrow> \<not> gen"
    using acc(2) [of str] p text_kinds_differ [symmetric] unfolding str by (cases gen) auto
  let ?r = "set_time_string H (Some s) (if gen then V_GENERALIZEDTIME C else V_UTCTIME C) str"
  have "set_from H C s t ?r" unfolding str by (rule set_from_text [OF s g])
  moreover from this have "ASN1_TIME_set_string E H C (Some s) str = ?r"
    using u v by (cases gen)
      (auto simp: ASN1_TIME_set_string_def ASN1_UTCTIME_set_string_def ASN1_GENERALIZEDTIME_set_string_def set_from_def)
  ultimately show "set_from H C s t (ASN1_TIME_set_string E H C (Some s) str)" by simp
qed

lemma set_string_X509_cases:
  assumes E: "asn1_env_ok E" and C: "asn1_consts_ok C" and s: "string_wf s"
  shows "(\<nexists>t. date_text t str) \<Longrightarrow> ASN1_TIME_set_string_X509 E H C (Some s) str = Some (False, Some s)"
    and "date_text t str \<Longrightarrow> set_from H C s t (ASN1_TIME_set_string_X509 E H C (Some s) str) \<and>
      (ASN1_TIME_set_string_X509 E H C (Some s) str = Some (True, Some x) \<longrightarrow> (as_type x = V_UTCTIME C \<longleftrightarrow> fits_in_utc_time t))"
proof -
  note acc = parse_accepts(1) [OF E] and par = parse_times(1) [OF E]
  show "ASN1_TIME_set_string_X509 E H C (Some s) str = Some (False, Some s)" if "\<nexists>t. date_text t str"
    using no_date(3) [OF E that] by (auto simp: no_date(1) [OF E that] ASN1_TIME_set_string_X509_def split: option.splits)
  assume d: "date_text t str"
  let ?gen = "\<not> fits_in_utc_time t"
  let ?r = "set_time_string H (Some s) (if ?gen then V_GENERALIZEDTIME C else V_UTCTIME C) (time_text ?gen t @ [90])"
  have "ASN1_TIME_set_string_X509 E H C (Some s) str = ?r"
  proof (cases "str = time_text True t @ [90]")
    case True
    with d have "CBS_parse_generalized_time E False True str = Some (Some t)" using par by (auto simp: date_text_def)
    moreover have "CBS_parse_utc_time E False False str = None" using acc [of str] True text_kinds_differ by auto
    ultimately show ?thesis using century_dropped [of t] True by (auto simp: ASN1_TIME_set_string_X509_def)
  next
    case False
    with d have "str = time_text False t @ [90]" "fits_in_utc_time t" "CBS_parse_utc_time E False False str \<noteq> None"
      using acc [of str] by (auto simp: date_text_def)
    then show ?thesis by (simp add: ASN1_TIME_set_string_X509_def)
  qed
  moreover have "set_from H C s t ?r" by (rule set_from_text [OF s]) simp
  moreover have "?r = Some (True, Some x) \<longrightarrow> (as_type x = V_UTCTIME C \<longleftrightarrow> fits_in_utc_time t)"
    using set_time_string_cases [OF s, of "time_text ?gen t @ [90]" H "if ?gen then V_GENERALIZEDTIME C else V_UTCTIME C"] C
    by (auto simp: length_time_text asn1_consts_ok_def split: if_splits)
  ultimately show "set_from H C s t (ASN1_TIME_set_string_X509 E H C (Some s) str) \<and>
      (ASN1_TIME_set_string_X509 E H C (Some s) str = Some (True, Some x) \<longrightarrow> (as_type x = V_UTCTIME C \<longleftrightarrow> fits_in_utc_time t))"
    by simp
qed

section \<open>Conversion to GeneralizedTime\<close>

text \<open>
  What \<open>OPENSSL_strlcpy\<close> and \<open>OPENSSL_strlcat\<close> do: as much of the text as the size leaves room for, and a zero, replace
  the first bytes of the block, or those after the text that is there. Both return the length of the whole source, so they
  read it up to its zero, and a source block without one is read past its end.
\<close>

definition str_lib_ok :: "str_lib \<Rightarrow> bool" where
  "str_lib_ok S \<longleftrightarrow>
     (\<forall>dst src n. 0 \<notin> set src \<longrightarrow> OPENSSL_strlcpy S dst src n = None \<and> OPENSSL_strlcat S dst src n = None) \<and>
     (\<forall>dst str r n. 0 \<notin> set str \<and> 0 < n \<and> n \<le> length dst \<longrightarrow>
        OPENSSL_strlcpy S dst (str @ 0 # r) n = Some (take (n - 1) str @ 0 # drop (min (n - 1) (length str) + 1) dst)) \<and>
     (\<forall>old dst str r n. 0 \<notin> set old \<and> 0 \<notin> set str \<and> length old < n \<and> n \<le> length (old @ 0 # dst) \<longrightarrow>
        OPENSSL_strlcat S (old @ 0 # dst) (str @ 0 # r) n =
          Some (old @ take (n - 1 - length old) str @ 0 # drop (min (n - 1 - length old) (length str)) dst))"

definition str_lib_std :: str_lib where
  "str_lib_std =
    \<lparr>OPENSSL_strlcpy = (\<lambda>dst src n.
       if 0 \<notin> set src \<or> length dst < n then None
       else if n = 0 then Some dst
       else let str = take (n - 1) (takeWhile (\<lambda>b. b \<noteq> 0) src) in Some (str @ 0 # drop (length str + 1) dst)),
     OPENSSL_strlcat = (\<lambda>dst src n.
       let old = takeWhile (\<lambda>b. b \<noteq> 0) (take n dst); m = n - length old in
       if 0 \<notin> set src \<or> length dst < n then None
       else if m = 0 then Some dst
       else let str = take (m - 1) (takeWhile (\<lambda>b. b \<noteq> 0) src) in Some (old @ str @ 0 # drop (length old + length str + 1) dst))\<rparr>"

lemma takeWhile_text: "0 \<notin> set (str :: u8 list) \<Longrightarrow> takeWhile (\<lambda>b. b \<noteq> 0) (str @ 0 # r) = str"
  by (subst takeWhile_append2) auto

lemma str_lib_std_ok: "str_lib_ok str_lib_std"
proof -
  have "OPENSSL_strlcpy str_lib_std dst (str @ 0 # r) n = Some (take (n - 1) str @ 0 # drop (min (n - 1) (length str) + 1) dst)"
    if "0 \<notin> set str" "0 < n" "n \<le> length dst" for dst str r n
    using that by (simp add: str_lib_std_def takeWhile_text Let_def min.commute)
  moreover have "OPENSSL_strlcat str_lib_std (old @ 0 # dst) (str @ 0 # r) n =
      Some (old @ take (n - 1 - length old) str @ 0 # drop (min (n - 1 - length old) (length str)) dst)"
    if h: "0 \<notin> set old" "0 \<notin> set str" "length old < n" "n \<le> length (old @ 0 # dst)" for old dst str r n
  proof -
    obtain m where m: "n - length old = Suc m" "n - Suc (length old) = m" using h(3) by (metis Suc_diff_Suc)
    have "takeWhile (\<lambda>b. b \<noteq> 0) (take n (old @ 0 # dst)) = old" using h(1,3) by (simp add: m takeWhile_text)
    then show ?thesis using h by (simp add: str_lib_std_def takeWhile_text Let_def m min.commute)
  qed
  moreover have "OPENSSL_strlcpy str_lib_std dst src n = None \<and> OPENSSL_strlcat str_lib_std dst src n = None" if "0 \<notin> set src" for dst src n
    using that by (simp add: str_lib_std_def Let_def)
  ultimately show ?thesis unfolding str_lib_ok_def by blast
qed

text \<open>A block with a zero byte is a text, the zero and what is behind it.\<close>

lemma zero_split: "0 \<in> set (r :: u8 list) \<Longrightarrow> \<exists>q r'. r = q @ 0 # r' \<and> 0 \<notin> set q"
  by (metis split_list_first)

lemma century_append:
  assumes S: "str_lib_ok S" and n: "length c + length bytes < n" "n = length c + length bytes + 1" "n \<le> length b"
    and nz: "0 \<notin> set c" "0 \<notin> set bytes"
  shows "OPENSSL_strlcpy S b (c @ [0]) n = Some (c @ 0 # drop (length c + 1) b)"
    and "OPENSSL_strlcat S (c @ 0 # drop (length c + 1) b) (bytes @ r) n =
      (if 0 \<in> set r then Some (c @ bytes @ 0 # drop (length c + length bytes + 1) b) else None)"
proof -
  have "OPENSSL_strlcpy S b (c @ 0 # []) n = Some (take (n - 1) c @ 0 # drop (min (n - 1) (length c) + 1) b)"
    using S n nz(1) unfolding str_lib_ok_def by (metis zero_less_Suc Suc_eq_plus1)
  then show "OPENSSL_strlcpy S b (c @ [0]) n = Some (c @ 0 # drop (length c + 1) b)" using n(2) by simp
  show "OPENSSL_strlcat S (c @ 0 # drop (length c + 1) b) (bytes @ r) n =
      (if 0 \<in> set r then Some (c @ bytes @ 0 # drop (length c + length bytes + 1) b) else None)"
  proof (cases "0 \<in> set r")
    case True
    then obtain q r' where r: "r = q @ 0 # r'" "0 \<notin> set q" using zero_split by blast
    have "0 \<notin> set (bytes @ q)" "length c < n" "n \<le> length (c @ 0 # drop (length c + 1) b)" using nz r(2) n by simp_all
    then have "OPENSSL_strlcat S (c @ 0 # drop (length c + 1) b) ((bytes @ q) @ 0 # r') n =
        Some (c @ take (n - 1 - length c) (bytes @ q) @ 0 # drop (min (n - 1 - length c) (length (bytes @ q))) (drop (length c + 1) b))"
      using S nz(1) unfolding str_lib_ok_def by blast
    then show ?thesis using True n(2) by (simp add: r(1) min_def add.commute add.left_commute)
  next
    case False
    moreover have "OPENSSL_strlcat S (c @ 0 # drop (length c + 1) b) (bytes @ r) n = None"
      using S nz(2) False unfolding str_lib_ok_def by (metis Un_iff set_append)
    ultimately show ?thesis by simp
  qed
qed

lemma century_text:
  assumes "fits_in_utc_time d"
  shows "(if hd (time_text False d @ z) \<ge> 53 then [49, 57, 0] else [50, 48, 0]) = two ((tm_year d + 1900) div 100) @ [0 :: u8]"
proof -
  define m where "m = nat ((tm_year d + 1900) mod 100)"
  have hd: "hd (time_text False d @ z) = byte_of (48 + m div 10)"
    by (simp add: time_text_def year_text_def two_def m_def)
  have "m < 100" by (simp add: m_def)
  then have "m div 10 < 10" by simp
  then have le: "53 \<le> byte_of (48 + m div 10) \<longleftrightarrow> 50 \<le> m"
    unfolding word_le_nat_alt by (auto simp: byte_of_def unat_of_nat simp del: of_nat_add)
  have c: "tm_year d + 1900 = 100 * ((tm_year d + 1900) div 100) + int m" by (simp add: m_def)
  show ?thesis
  proof (cases "tm_year d < 100")
    case True
    with assms have q: "(tm_year d + 1900) div 100 = 19" by (auto simp: fits_in_utc_time_def)
    have "50 \<le> m" using assms c unfolding q fits_in_utc_time_def by linarith
    with q show ?thesis unfolding hd le by (simp add: two_def byte_of_def)
  next
    case False
    with assms have q: "(tm_year d + 1900) div 100 = 20" by (auto simp: fits_in_utc_time_def)
    have "\<not> 50 \<le> m" using assms c unfolding q fits_in_utc_time_def by linarith
    with q show ?thesis unfolding hd le by (simp add: two_def byte_of_def)
  qed
qed

lemma gen_text: "time_text True d = two ((tm_year d + 1900) div 100) @ time_text False d"
  by (simp add: time_text_def year_text_def)

lemma zone_chars: "zone allow off z \<Longrightarrow> 0 \<notin> set z \<and> z \<noteq> [] \<and> length z \<le> 5"
  by (auto simp: zone_def two_def) (auto simp: byte_eq_iff)

lemma generalized_check:
  assumes E: "asn1_env_ok E" and d: "OPENSSL_tm_to_posix d = Some p" and g: "string_wf g" "string_bytes g = time_text True d @ z"
  shows "ASN1_GENERALIZEDTIME_check E C g = Some (as_type g = V_GENERALIZEDTIME C \<and> z = [90])"
proof -
  have "CBS_parse_generalized_time E False False (time_text True d @ z) \<noteq> None \<longleftrightarrow> z = [90]"
    unfolding parse_accepts(2) [OF E]
  proof
    assume "\<exists>t p. time_text True d @ z = time_text True t @ [90] \<and> OPENSSL_tm_to_posix t = Some p"
    then obtain t where "time_text True d @ z = time_text True t @ [90]" by blast
    then show "z = [90]" by (simp add: append_eq_append_conv length_time_text)
  qed (use d in blast)
  then show ?thesis
    by (simp add: ASN1_GENERALIZEDTIME_check_def asn1_generalizedtime_to_tm_def get_bytes_wf [OF g(1)] g(2))
qed

lemma zone_check:
  assumes E: "asn1_env_ok E" and d: "OPENSSL_tm_to_posix d = Some p" "fits_in_utc_time d" and z: "zone True off z"
    and x: "string_wf x" "string_bytes x = time_text False d @ z" "as_type x = V_UTCTIME C" and C: "asn1_consts_ok C"
  shows "ASN1_TIME_check E C x = Some True"
proof -
  have y: "year_ok False (tm_year d + 1900)" using d(2) by (auto simp: year_ok_def fits_in_utc_time_def)
  have c: "V_UTCTIME C \<noteq> V_GENERALIZEDTIME C" using C by (simp add: asn1_consts_ok_def)
  show ?thesis using time_internal_eval [OF E z y d(1), of False] c
    by (simp add: ASN1_TIME_check_def x ASN1_UTCTIME_check_def asn1_utctime_to_tm_def get_bytes_wf [OF x(1)] CBS_parse_utc_time_def)
qed

lemma to_generalized_utc:
  assumes S: "str_lib_ok S" and ok: "ASN1_TIME_check E C x = Some True" and C: "asn1_consts_ok C" and out: "out_wf out"
    and d: "OPENSSL_tm_to_posix d = Some p" "fits_in_utc_time d" and z: "zone True off z"
    and x: "as_type x = V_UTCTIME C" "as_data x = Some (time_text False d @ z @ r)" "as_length x = length (time_text False d @ z)"
  shows "ASN1_TIME_to_generalizedtime S E H C x out = Some (False, out) \<and> \<not> (\<forall>n. alloc_ok H n) \<or>
    (if 0 \<in> set r then
      (\<exists>g ret. ASN1_TIME_to_generalizedtime S E H C x out = Some (True, Some g) \<and> string_wf g \<and> string_bytes g = time_text True d @ z \<and>
         target H (V_GENERALIZEDTIME C) out = Some ret \<and> as_type g = as_type ret)
     else ASN1_TIME_to_generalizedtime S E H C x out = None)"
proof (cases "target H (V_GENERALIZEDTIME C) out")
  case None
  then show ?thesis using c2i_total(1) [of H "V_GENERALIZEDTIME C" out] ok
    by (auto simp: ASN1_TIME_to_generalizedtime_def target_def [symmetric])
next
  case (Some ret)
  let ?bytes = "time_text False d @ z" and ?c = "two ((tm_year d + 1900) div 100)"
  let ?n = "length ?bytes + 2"
  have c: "V_UTCTIME C \<noteq> V_GENERALIZEDTIME C" using C by (simp add: asn1_consts_ok_def)
  have out': "map_option (\<lambda>_. ret) out = out" using Some by (cases out) (simp_all add: target_def)
  note none = string_set_none [OF target_wf [OF out Some], where n = ?n and H = H]
  have hd: "hd (time_text False d @ z @ r) = hd (time_text False d @ z)" by (simp add: time_text_def year_text_def two_def)
  have eq: "ASN1_TIME_to_generalizedtime S E H C x out =
    do { (ok, ret) \<leftarrow> ASN1_STRING_set H ret None (int ?n);
         if \<not> ok then Some (False, map_option (\<lambda>_. ret) out)
         else do {
           str \<leftarrow> as_data ret;
           str \<leftarrow> OPENSSL_strlcpy S str (?c @ [0]) (?n + 1);
           str \<leftarrow> OPENSSL_strlcat S str (?bytes @ r) (?n + 1);
           Some (True, Some (ret\<lparr>as_data := Some str\<rparr>)) } }"
    using c zone_chars [OF z]
    by (simp add: ASN1_TIME_to_generalizedtime_def target_def [symmetric] ok Some x Let_def hd century_text [OF d(2)] cong: if_cong)
  show ?thesis
  proof (cases "set_room H ret ?n")
    case True
    then obtain b where b: "?n < length b" "ASN1_STRING_set H ret None (int ?n) = Some (True, ret\<lparr>as_data := Some b, as_length := ?n\<rparr>)"
      using none(2) by blast
    have nz: "0 \<notin> set ?c" "0 \<notin> set ?bytes"
      using time_text_chars [OF d(1)] zone_chars [OF z] gen_text [of d] time_text_chars [OF d(1), of 0 True] by auto
    have l: "length ?c + length ?bytes < ?n + 1" "?n + 1 = length ?c + length ?bytes + 1" "?n + 1 \<le> length b"
      using b(1) by (simp_all add: two_def)
    have "take ?n (?c @ ?bytes @ q) = time_text True d @ z" for q by (simp add: two_def gen_text)
    then show ?thesis unfolding eq b(2) using Some b(1) century_append(1) [OF S l nz] century_append(2) [OF S l nz, of r]
      by (auto simp: string_wf_def string_bytes_def two_def)
  next
    case False
    moreover have "?n \<le> ASN1_STRING_MAX" using zone_chars [OF z] by (simp add: length_time_text)
    ultimately have "\<not> (\<forall>n. alloc_ok H n)" using c2i_total(2) [of H ?n ret] by blast
    with none(1) [OF False] out' show ?thesis unfolding eq by simp
  qed
qed

section \<open>Comparison\<close>

text \<open>The sign of a truncated quotient, or of the remainder if the quotient is zero, is that of the number.\<close>

lemma sign_of_diff:
  assumes "\<bar>sec\<bar> < 86400" "0 \<le> day * sec"
  shows "(if day > 0 then 1 else if day < 0 then - 1 else if sec > 0 then 1 else if sec < 0 then - 1 else 0) =
    sgn (day * 86400 + sec :: int)"
proof (cases "day > 0 \<or> day < 0")
  case True
  then show ?thesis using assms by (auto simp: sgn_if zero_le_mult_iff)
qed (auto simp: sgn_if)

text \<open>
  \<open>ASN1_TIME_diff\<close> of two time strings is the difference of their POSIX times, and \<open>ASN1_UTCTIME_cmp_time_t\<close> compares the
  POSIX time of a string with another one.\<close>
lemma time_compare:
  assumes E: "asn1_env_ok E" and C: "asn1_consts_ok C" and x: "time_string C t x" "OPENSSL_tm_to_posix t = Some p"
    and y: "time_string C u y" "OPENSSL_tm_to_posix u = Some q"
  shows "\<exists>day sec. ASN1_TIME_diff E C now (Some x) (Some y) = Some (Some (day, sec)) \<and>
      day * 86400 + sec = q - p \<and> \<bar>sec\<bar> < 86400 \<and> 0 \<le> day * sec"
    and "as_type x = V_UTCTIME C \<Longrightarrow> ASN1_UTCTIME_cmp_time_t E C x v = Some (if is_valid_posix_time v then sgn (p - v) else - 2)"
proof -
  have c: "V_UTCTIME C \<noteq> V_GENERALIZEDTIME C" using C by (simp add: asn1_consts_ok_def)
  have z: "zone allow 0 [90]" for allow by (simp add: zone_def)
  have parse: "time_string C t x \<Longrightarrow> asn1_time_to_tm E C now (Some x) True = Some (Some t)"
    "time_string C t x \<Longrightarrow> as_type x = V_UTCTIME C \<Longrightarrow> asn1_utctime_to_tm E C True x True = Some (Some (Some t))"
    if p: "OPENSSL_tm_to_posix t = Some p" for t x p
  proof -
    have y: "year_ok True (tm_year t + 1900)" "fits_in_utc_time t \<Longrightarrow> year_ok False (tm_year t + 1900)"
      using valid_fields(1,2) [OF p] by (auto simp: year_ok_def fits_in_utc_time_def)
    show "asn1_time_to_tm E C now (Some x) True = Some (Some t)" if x: "time_string C t x"
      using x c time_internal_eval [OF E z _ p, of _ _ True] y get_bytes_wf [of x]
      by (auto simp: time_string_def asn1_time_to_tm_def asn1_utctime_to_tm_def asn1_generalizedtime_to_tm_def
          CBS_parse_utc_time_def CBS_parse_generalized_time_def written_tm_def)
    show "asn1_utctime_to_tm E C True x True = Some (Some (Some t))" if x: "time_string C t x" "as_type x = V_UTCTIME C"
      using x c time_internal_eval [OF E z _ p, of _ _ True] y get_bytes_wf [of x]
      by (auto simp: time_string_def asn1_utctime_to_tm_def CBS_parse_utc_time_def)
  qed
  have diff: "\<exists>day sec. OPENSSL_gmtime_diff a b = Some (day, sec) \<and> day * 86400 + sec = k - j \<and> \<bar>sec\<bar> < 86400 \<and> 0 \<le> day * sec"
    if "OPENSSL_tm_to_posix a = Some j" "OPENSSL_tm_to_posix b = Some k" for a b j k
  proof -
    have e: "OPENSSL_gmtime_diff a b = Some ((k - j) sdiv 86400, (k - j) smod 86400)" using that by (simp add: OPENSSL_gmtime_diff_def Let_def)
    with gmtime_diff_adj [OF e] sdiv_mult_smod_eq [of "k - j" 86400] show ?thesis by blast
  qed
  show "\<exists>day sec. ASN1_TIME_diff E C now (Some x) (Some y) = Some (Some (day, sec)) \<and>
      day * 86400 + sec = q - p \<and> \<bar>sec\<bar> < 86400 \<and> 0 \<le> day * sec"
    using diff [OF x(2) y(2)] by (simp add: ASN1_TIME_diff_def parse(1) [OF x(2,1)] parse(1) [OF y(2,1)])
  assume u: "as_type x = V_UTCTIME C"
  show "ASN1_UTCTIME_cmp_time_t E C x v = Some (if is_valid_posix_time v then sgn (p - v) else - 2)"
  proof (cases "OPENSSL_posix_to_tm v")
    case None
    then show ?thesis using posix_to_tm_valid [of v] by (auto simp: ASN1_UTCTIME_cmp_time_t_def parse(2) [OF x(2,1) u])
  next
    case (Some w)
    then have "OPENSSL_tm_to_posix w = Some v" "is_valid_posix_time v" using posix_to_tm_valid [of v] by (auto simp: tm_to_posix_iff)
    with diff [OF _ x(2)] obtain day sec where "OPENSSL_gmtime_diff w t = Some (day, sec)" "day * 86400 + sec = p - v" "\<bar>sec\<bar> < 86400" "0 \<le> day * sec"
      by blast
    with Some sign_of_diff [of sec day] \<open>is_valid_posix_time v\<close> show ?thesis
      by (simp add: ASN1_UTCTIME_cmp_time_t_def parse(2) [OF x(2,1) u])
  qed
qed

section \<open>Properties\<close>

text \<open>
  C31: Times from text. \<open>ASN1_TIME_set_string\<close> and \<open>ASN1_TIME_set_string_X509\<close> accept exactly the texts of the
  valid dates, as GeneralizedTime or, for the years 1950 to 2049, as UTCTime, always with the zone \<open>Z\<close>. Another text is
  refused and the string is not changed; else the string stands for the date of the text, unless memory runs out, which
  leaves the string as it was. The second function makes a UTCTime exactly for the years 1950 to 2049, as X.509 demands, whatever
  form the text has. With a null pointer for the string both only check the text.\<close>
theorem asn1_time_set_string_exact:
  assumes E: "asn1_env_ok E" and C: "asn1_consts_ok C" and s: "string_wf s"
  shows "(let plain = ASN1_TIME_set_string E H C (Some s) str; x509 = ASN1_TIME_set_string_X509 E H C (Some s) str in
      ((\<nexists>t. date_text t str) \<longrightarrow> plain = Some (False, Some s) \<and> x509 = Some (False, Some s)) \<and>
      (\<forall>t. date_text t str \<longrightarrow> set_from H C s t plain \<and> set_from H C s t x509 \<and>
         (\<forall>x. x509 = Some (True, Some x) \<longrightarrow> (as_type x = V_UTCTIME C \<longleftrightarrow> 50 \<le> tm_year t \<and> tm_year t < 150)))) \<and>
    ASN1_TIME_set_string E H C None str = Some (\<exists>t. date_text t str, None) \<and>
    ASN1_TIME_set_string_X509 E H C None str = Some (\<exists>t. date_text t str, None)"
  unfolding Let_def fits_in_utc_time_def [symmetric]
  using set_string_cases [OF E s, where str = str and H = H and C = C]
    set_string_X509_cases [OF E C s, where str = str and H = H] set_string_null [OF E, of H C str]
  by blast

theorem asn1_time_set_string_exact_witness:
  "\<exists>x. ASN1_TIME_set_string_X509 asn1_env_std heap_total asn1_consts_std
      (Some \<lparr>as_length = 0, as_type = 24, as_data = None, as_flags = 0\<rparr>)
      [50, 48, 50, 48, 48, 50, 50, 57, 49, 50, 48, 48, 48, 55, 90] = Some (True, Some x) \<and>
    as_type x = 23 \<and> string_bytes x = [50, 48, 48, 50, 50, 57, 49, 50, 48, 48, 48, 55, 90]"
proof -
  let ?s = "\<lparr>as_length = 0, as_type = 24, as_data = None, as_flags = 0\<rparr> :: ASN1_STRING"
  let ?str = "[50, 48, 50, 48, 48, 50, 50, 57, 49, 50, 48, 48, 48, 55, 90] :: u8 list"
  have s: "string_wf ?s" by (simp add: string_wf_def)
  have "two ((tm_year tm_noon + 1900) div 100) = [50, 48]" by (simp add: tm_noon_def two_def byte_of_def)
  then have d: "date_text tm_noon ?str" by (simp add: date_text_def gen_text tm_noon_text tm_noon_posix)
  have y: "tm_year tm_noon = 120" "V_UTCTIME asn1_consts_std = 23" "V_GENERALIZEDTIME asn1_consts_std = 24" "\<forall>n. alloc_ok heap_total n"
    by (simp_all add: tm_noon_def asn1_consts_std_def heap_total_def)
  from asn1_time_set_string_exact [OF asn1_env_std_ok asn1_consts_std_ok s, of heap_total ?str] d y
  obtain x where x: "ASN1_TIME_set_string_X509 asn1_env_std heap_total asn1_consts_std (Some ?s) ?str = Some (True, Some x)"
    "time_string asn1_consts_std tm_noon x" "as_type x = 23"
    unfolding Let_def set_from_def by auto
  then show ?thesis using y by (auto simp: time_string_def tm_noon_text)
qed

text \<open>
  C39: What the conversion to GeneralizedTime yields, for a UTCTime that \<open>ASN1_TIME_check\<close> accepts, with the zone
  \<open>Z\<close> or an offset, and any block of memory that begins with it. The length of the string is not used to read it:
  if no byte of the block behind the string is zero, \<open>ASN1_TIME_to_generalizedtime\<close> reads past the block (the result is
  \<open>None\<close>), and if one is, it stays inside the blocks and returns the string with the century put in front, whatever is
  between the string and the zero. The alternative to both is that memory runs out. The zone is copied and the
  type of a string given by the caller is kept, so the result is one that \<open>ASN1_GENERALIZEDTIME_check\<close> accepts exactly if
  the zone is \<open>Z\<close> and the given string, if any, was a GeneralizedTime.\<close>
theorem to_generalizedtime_zone:
  assumes E: "asn1_env_ok E" and C: "asn1_consts_ok C" and S: "str_lib_ok S" and out: "out_wf out"
    and d: "OPENSSL_tm_to_posix d = Some p" "50 \<le> tm_year d" "tm_year d < 150" and z: "zone True off z"
    and x: "as_type x = V_UTCTIME C" "as_data x = Some (time_text False d @ z @ r)" "as_length x = length (time_text False d @ z)"
  shows "ASN1_TIME_check E C x = Some True \<and>
    (ASN1_TIME_to_generalizedtime S E H C x out = Some (False, out) \<and> \<not> (\<forall>n. alloc_ok H n) \<or>
     (if 0 \<in> set r then
       (\<exists>g. ASN1_TIME_to_generalizedtime S E H C x out = Some (True, Some g) \<and> string_bytes g = time_text True d @ z \<and>
          as_type g = (case out of None \<Rightarrow> V_GENERALIZEDTIME C | Some a \<Rightarrow> as_type a) \<and>
          ASN1_GENERALIZEDTIME_check E C g = Some (z = [90] \<and> (\<forall>a. out = Some a \<longrightarrow> as_type a = V_GENERALIZEDTIME C)))
      else ASN1_TIME_to_generalizedtime S E H C x out = None))"
proof -
  have f: "fits_in_utc_time d" using d(2,3) by (simp add: fits_in_utc_time_def)
  have w: "string_wf x" "string_bytes x = time_text False d @ z" using x by (simp_all add: string_wf_def string_bytes_def)
  have ok: "ASN1_TIME_check E C x = Some True" by (rule zone_check [OF E d(1) f z w x(1) C])
  have ty: "as_type ret = (case out of None \<Rightarrow> V_GENERALIZEDTIME C | Some a \<Rightarrow> as_type a)" if "target H (V_GENERALIZEDTIME C) out = Some ret" for ret
    using that by (auto simp: target_def ASN1_STRING_type_new_def split: option.splits if_splits)
  note u = to_generalized_utc [OF S ok C out d(1) f z x, of H]
  show ?thesis
  proof (cases "0 \<in> set r")
    case True
    with u ty generalized_check [OF E d(1), of _ z C] ok show ?thesis by (cases out) fastforce+
  next
    case False
    with u ok show ?thesis by auto
  qed
qed

theorem to_generalizedtime_zone_witness:
  "(\<exists>g. ASN1_TIME_to_generalizedtime str_lib_std asn1_env_std heap_total asn1_consts_std
      \<lparr>as_length = 17, as_type = 23, as_data = Some [50, 48, 48, 50, 50, 57, 49, 50, 48, 48, 48, 55, 43, 48, 49, 51, 48, 0], as_flags = 0\<rparr> None =
      Some (True, Some g) \<and> string_bytes g = [50, 48, 50, 48, 48, 50, 50, 57, 49, 50, 48, 48, 48, 55, 43, 48, 49, 51, 48] \<and>
    ASN1_GENERALIZEDTIME_check asn1_env_std asn1_consts_std g = Some False) \<and>
   ASN1_TIME_to_generalizedtime str_lib_std asn1_env_std heap_total asn1_consts_std
      \<lparr>as_length = 13, as_type = 23, as_data = Some [50, 48, 48, 50, 50, 57, 49, 50, 48, 48, 48, 55, 90], as_flags = 0\<rparr> None = None"
proof -
  let ?z = "[43, 48, 49, 51, 48] :: u8 list"
  let ?x = "\<lparr>as_length = 17, as_type = 23, as_data = Some [50, 48, 48, 50, 50, 57, 49, 50, 48, 48, 48, 55, 43, 48, 49, 51, 48, 0], as_flags = 0\<rparr> :: ASN1_STRING"
  let ?w = "\<lparr>as_length = 13, as_type = 23, as_data = Some [50, 48, 48, 50, 50, 57, 49, 50, 48, 48, 48, 55, 90], as_flags = 0\<rparr> :: ASN1_STRING"
  have z: "zone True 5400 ?z" "zone True 0 [90]"
    unfolding zone_def by (rule disjI2, rule conjI, simp, rule exI [of _ 1], rule exI [of _ 30]) (simp_all add: two_def byte_of_def)
  have x: "as_type ?x = V_UTCTIME asn1_consts_std" "as_data ?x = Some (time_text False tm_noon @ ?z @ [0])"
    "as_length ?x = length (time_text False tm_noon @ ?z)"
    by (simp_all add: tm_noon_text asn1_consts_std_def)
  have w: "as_type ?w = V_UTCTIME asn1_consts_std" "as_data ?w = Some (time_text False tm_noon @ [90] @ [])"
    "as_length ?w = length (time_text False tm_noon @ [90])"
    by (simp_all add: tm_noon_text asn1_consts_std_def)
  have g: "time_text True tm_noon = [50, 48, 50, 48, 48, 50, 50, 57, 49, 50, 48, 48, 48, 55]"
    unfolding gen_text tm_noon_text by (simp add: tm_noon_def two_def byte_of_def)
  have y: "50 \<le> tm_year tm_noon" "tm_year tm_noon < 150" "\<forall>n. alloc_ok heap_total n" "out_wf None"
    by (simp_all add: tm_noon_def heap_total_def out_wf_def)
  note t = to_generalizedtime_zone [OF asn1_env_std_ok asn1_consts_std_ok str_lib_std_ok y(4) tm_noon_posix y(1,2)]
  show ?thesis using t [OF z(1) x, of heap_total] t [OF z(2) w, of heap_total] y(3) g by auto
qed

end
