(* ===== verification/Spec2Isabelle.thy ===== *)
theory Spec2Isabelle
  imports PB_Decode_Thms BS_Unicode BS_Ber_Thms SPX_Thms BIO_Thms RC4
    ASN1_Header ASN1_Bignum ASN1_Bit_Codec ASN1_Time_Text
begin

text \<open>
  The repository is a Flutter application. Its own Dart code is user interface; the code that decides
  what bytes mean is the C code it ships with under \<open>src/macos/Pods/\<close>. This development models
  bodies of that code that take untrusted
  bytes: nanopb, the protocol-buffer runtime of the Firebase libraries (\<open>nanopb/\<close>), the byte-string
  layer of BoringSSL, on which TLS and certificate parsing rest
  (all of \<open>BoringSSL-GRPC/src/crypto/bytestring/\<close> but \<open>asn1_compat.c\<close>, and \<open>crypto/asn1/posix_time.c\<close>),
  and of BoringSSL the hash-based signatures (\<open>crypto/spx/\<close>), the in-memory pipes through which TLS
  is driven (\<open>crypto/bio/pair.c\<close>), the stream cipher RC4 (\<open>crypto/rc4/rc4.c\<close>) and the strings, bit strings, integers
  and times of the ASN.1 module (\<open>asn1_lib.c\<close>, \<open>a_bitstr.c\<close>, \<open>a_int.c\<close>, \<open>a_gentm.c\<close>, \<open>a_utctm.c\<close> and \<open>a_time.c\<close> of
  \<open>crypto/asn1/\<close>).

  \<^bold>\<open>Target.\<close> A 64-bit little-endian machine: \<open>size_t\<close> has 64 bits (\<open>size_add\<close> wraps), \<open>int\<close> 32,
  \<open>bool\<close> one byte, \<open>uint_fast8_t\<close> eight bits. nanopb is taken in the configuration of the Pod:
  \<open>PB_FIELD_32BIT\<close>, \<open>PB_ENABLE_MALLOC\<close>, with error messages and 64-bit integers. Fixed-width integers
  are words; lengths and offsets are natural numbers with the wrap-around written out where the code
  has one; failures are results (\<open>False\<close>, \<open>None\<close>), and \<open>None\<close> around a whole result means that a
  bounded loop has used up its fuel or, where the theory says so, that the code accesses memory outside a
  block or an assertion fails.

  \<^bold>\<open>Theory \<open>C_Prelude\<close>\<close> holds the integer types, byte orders, memory as a function from addresses to
  bytes with loads and stores, and the sequencing operators for \<open>if (!f(s)) return false;\<close>.

  \<^bold>\<open>nanopb.\<close>

    \<^item> \<open>PB_Stream\<close>: \<open>pb_istream_t\<close> and \<open>pb_ostream_t\<close> as records with buffer or callback; \<open>pb_read\<close>,
      \<open>pb_write\<close>, \<open>buf_read\<close>, \<open>buf_write\<close>, the sizing stream.
    \<^item> \<open>PB_Varint\<close>: varints, zig-zag, fixed32/64, tags, length-delimited strings, skipping,
      substreams (\<open>pb_encode_varint\<close>, \<open>pb_decode_varint\<close>, \<open>pb_make_string_substream\<close>, ...).
      \<open>PB_Wire\<close> states the contract of an encoder and its decoder as the locale \<open>wire_codec\<close> and
      proves it for all scalar encodings.
    \<^item> \<open>PB_Desc\<close>: \<open>pb_field_t\<close> arrays and the field iterator of \<open>pb_common.c\<close>.
    \<^item> \<open>PB_Encode\<close>: \<open>pb_encode.c\<close>. \<open>PB_Encode_Spec\<close> gives the bytes of a message (\<open>wire_message\<close>) and
      the contract of a routine that writes given bytes (locale \<open>wire_encoder\<close>); \<open>PB_Encode_Thms\<close> proves
      that the encoder refines it, its framing, refusals and termination.
    \<^item> \<open>PB_Dec_Fields\<close>, \<open>PB_Decode\<close>: \<open>pb_decode.c\<close> on a heap with a byte memory and live blocks.
      \<open>PB_Dec_Stream\<close> (locale \<open>stream_reader\<close>) shows that every routine stays inside its input window,
      \<open>PB_Dec_Frame\<close> and \<open>PB_Dec_Confined\<close> (locale \<open>confined\<close>) that it writes only inside the
      destination structure, \<open>PB_Dec_Returns\<close> that it returns; \<open>PB_Decode_Thms\<close> holds the properties, among
      them that the field encoders and decoders agree on the value of a field (\<open>field_value\<close>).

  Mutual recursion through submessages and the loops over fields carry fuel. An encoder of a message
  type of rank \<open>r\<close> (submessage types have smaller rank) needs \<open>r + 2\<close>, a decoder the number of input
  bytes plus \<open>r + 2\<close>: each round of a loop consumes a byte and each submessage is shorter than its
  parent. The termination theorems prove that this much returns a result.

  \<^bold>\<open>BoringSSL.\<close>

    \<^item> \<open>Posix_Time\<close>: \<open>posix_time.c\<close>, calendar dates of the years 0 to 9999 and seconds since 1970.
    \<^item> \<open>BS_Cbs\<close>: \<open>cbs.c\<close>. A \<open>CBS\<close> is the list of bytes it points to; a reader returns the value and
      the string as it leaves it. \<open>BS_Der\<close> defines DER independently (base 128, tags, lengths,
      elements) and proves that the parsers accept exactly these encodings.
    \<^item> \<open>BS_Cbb\<close>: \<open>cbb.c\<close>. The chain of pending children is a list, a \<open>CBB*\<close> is a depth in it, and the
      allocator is a parameter. A depth beyond the chain is a child that was flushed, failed or discarded; its
      base pointer is null, and a call that dereferences it sets \<open>bf_fault\<close>, as does a length prefix outside the
      buffer. Children of a discarded child keep their base pointer in the code; the chain does not hold them,
      \<open>cb_orphans\<close> records that there may be such, and a call on one is a fault too. \<open>BS_Cbb_Spec\<close> gives the abstract builder, a stack of frames, and proves
      that \<open>CBB_flush\<close> and the appending functions refine it; \<open>BS_Cbb_Asn1\<close> and \<open>BS_Integer\<close> do so for
      the ASN.1 functions; \<open>BS_Cbb_Inv\<close> shows that every call on a handle in the chain
      keeps the buffer well-formed and free of faults;
      \<open>BS_SetOf\<close> treats \<open>CBB_flush_asn1_set_of\<close>.
    \<^item> \<open>BS_Codec\<close>: the contract between a writer and a reader as the locales \<open>byte_writer\<close> and
      \<open>byte_codec\<close>, interpreted for integers of all widths, ASN.1 values and characters.
      \<open>BS_Cbb_Thms\<close> holds the properties, over programs that make any sequence of calls on such
      handles (\<open>cbb_run\<close>).
    \<^item> \<open>BS_Unicode\<close>: \<open>unicode.c\<close>, with the reference definition of UTF-8.
    \<^item> \<open>BS_Cbb_Total\<close>: builders with room, for the theorems that a call succeeds (\<open>emits\<close>, \<open>roomy\<close>).
    \<^item> \<open>BS_Oid\<close>: the text form of object identifiers, \<open>CBS_asn1_oid_to_text\<close> of \<open>cbs.c\<close> and
      \<open>CBB_add_asn1_oid_from_text\<close> of \<open>cbb.c\<close>, against the definition of both forms.
    \<^item> \<open>BS_Time\<close> and \<open>BS_Values\<close>: the parsers of \<open>cbs.c\<close> for times, optional elements and bit strings,
      with exact descriptions of the inputs they accept.
    \<^item> \<open>BS_Ber\<close>: \<open>ber.c\<close>. BER is defined as an inductive relation between trees of elements and bytes
      (\<open>ber_enc\<close>); the DER of a tree is \<open>der\<close>. \<open>BS_Ber\<close> proves that the conversion is sound,
      \<open>BS_Ber_Thms\<close> that it is complete up to 128 levels of nesting, that its first pass recognises
      exactly the inputs that are DER, and the reader of implicitly tagged strings.

  \<^bold>\<open>SPHINCS+.\<close>

    \<^item> \<open>SPX\<close>: all of \<open>crypto/spx/\<close>, with SHA-256 as the parameter \<open>sha\<close>, of which only the length of its
      results is assumed (\<open>hash_ok\<close>). An address is threaded through the functions that change it. Signatures, keys
      and seeds are read with \<open>read_bytes\<close>, which is \<open>None\<close> past the end; \<open>SPX_Reads\<close> has its lemmas.
    \<^item> \<open>SPX_Digits\<close>: \<open>spx_base_b\<close> computes the digits of a byte string although its accumulator wraps;
      the digits of a one-time signature and its checksum.
    \<^item> \<open>SPX_Wots\<close>, \<open>SPX_Tree\<close>, \<open>SPX_Fors\<close>, \<open>SPX_Hypertree\<close>: what each signing function writes and what
      the verifying function computes from it. The two kinds of trees share the locale \<open>hash_tree\<close>, in
      which the climb along an authentication path is shown to end in the root. Addresses that
      differ only in fields that are set again before use are related by \<open>same_tree\<close> and \<open>same_key\<close>.
    \<^item> \<open>SPX_Thms\<close>: generated keys sign, signatures verify, and verification reads exactly the bytes of a
      signature and a key.

  \<^bold>\<open>BIO pairs and RC4.\<close>

    \<^item> \<open>BIO_Pair\<close>: \<open>pair.c\<close> on a store that maps addresses to BIOs. Failed assertions, null pointers and
      copies outside a buffer are \<open>None\<close>; so is a loop that does not end (\<open>partial_function\<close>).
    \<^item> \<open>BIO_Ring\<close>: one buffer is a queue (locale \<open>ring_queue\<close>). \<open>BIO_Spec\<close>: the invariant of the store and
      the abstract pipe that reading and writing implement. \<open>BIO_Thms\<close>: all calls keep the invariant and
      return, in every store that the interface reaches (\<open>bio_reachable\<close>); a pair refines two queues.
    \<^item> \<open>RC4\<close>: \<open>rc4.c\<close> and the cipher on bytes that it computes.

  \<^bold>\<open>ASN.1 strings.\<close>

    \<^item> \<open>ASN1_String\<close>: \<open>asn1_lib.c\<close> and \<open>a_bitstr.c\<close>. A string is a record with the block that was allocated for
      it; an access outside the block is \<open>None\<close>, and the properties show that there is none. \<open>ASN1_Header\<close>: the
      headers of elements are those of \<open>BS_Der\<close>.
    \<^item> \<open>ASN1_Int\<close>: \<open>a_int.c\<close>, with failed assertions as \<open>None\<close>. \<open>ASN1_Int_Thms\<close> defines the number of an integer
      (\<open>int_value\<close>) and the shortest two's complement (\<open>shortest_tc\<close>) and proves the codec exact;
      \<open>ASN1_Int_Values\<close> treats integers of 64 bits for both integer types at once (locales \<open>asn1_int_type\<close>,
      \<open>asn1_int_ops\<close>) and the comparison; \<open>ASN1_Bignum\<close> the big numbers, which are the parameter
      \<open>bn_lib\<close> with the hypothesis \<open>bn_lib_ok\<close>.
    \<^item> \<open>ASN1_Bits\<close>: a bit string as the function from positions to bits; \<open>ASN1_Bit_Codec\<close>: its encoding.
    \<^item> \<open>ASN1_Time\<close>: \<open>a_gentm.c\<close>, \<open>a_utctm.c\<close> and \<open>a_time.c\<close> on top of \<open>Posix_Time\<close> and the parsers of \<open>BS_Time\<close>. \<open>ASN1_Time_Thms\<close>: POSIX
      times become strings and strings POSIX times; \<open>ASN1_Time_Text\<close>: times from text, the conversion to
      GeneralizedTime, with \<open>OPENSSL_strlcpy\<close> and \<open>OPENSSL_strlcat\<close> as the parameter \<open>str_lib\<close> (hypothesis
      \<open>str_lib_ok\<close>: a truncating copy, and a source without a zero byte is read past its end), and the comparisons.

  The public headers and \<open>mem.c\<close> of BoringSSL are not in the tree. The constants and \<open>isdigit\<close> are the
  parameter \<open>asn1_env\<close> with the hypothesis \<open>asn1_env_ok\<close> (what the header documents), those of \<open>asn1.h\<close> the
  parameter \<open>asn1_consts\<close> with \<open>asn1_consts_ok\<close>, the allocator is
  the parameter \<open>allocator\<close>, which may refuse any request.

  \<^bold>\<open>Not modelled.\<close> The Dart application and the platform runners (user interface and generated code);
  gRPC, Abseil, LevelDB and the Firebase libraries (C++ and Objective-C); of BoringSSL the
  parts other than the ones above; of nanopb \<open>pb_encode_negative_varint\<close> and the
  other branches of compile-time switches that the configuration excludes. What an out-parameter holds
  after a failed read is not modelled, and error-queue entries (\<open>OPENSSL_PUT_ERROR\<close>) are dropped.
\<close>

end
